(* ===== verification/Prelude.thy ===== *)
theory Prelude
  imports Main "HOL-Library.Word" "HOL-Library.Sublist"
begin

section \<open>Prelude: shared types, hint collections and generic list facts\<close>

text \<open>
  What every component theory of the development shares: names for the C types, the
  collections of rewrite rules the component proofs add to the simplifier, and the facts about
  lists (first occurrence of a pattern, dropping and taking up to a terminator) that the
  C string model and the request parser both need.
\<close>

type_synonym bytes = "char list"
type_synonym u16 = "16 word"
type_synonym u32 = "32 word"
type_synonym u64 = "64 word"

text \<open>
  \<open>cstring\<close> collects the rules that evaluate C string functions, \<open>scan\<close> the facts about
  searches that have succeeded.
\<close>

named_theorems cstring \<open>evaluation rules of the C string model\<close>
named_theorems scan \<open>facts about successful and failed searches\<close>

subsection \<open>First occurrence of a pattern\<close>

fun find_sub :: "'a list \<Rightarrow> 'a list \<Rightarrow> nat option" where
  "find_sub pat [] = (if pat = [] then Some 0 else None)"
| "find_sub pat (x # xs) =
     (if prefix pat (x # xs) then Some 0 else map_option Suc (find_sub pat xs))"

lemma find_sub_SomeD:
  "find_sub pat s = Some k \<Longrightarrow>
     k + length pat \<le> length s \<and> prefix pat (drop k s) \<and> (\<forall>j<k. \<not> prefix pat (drop j s))"
proof (induction s arbitrary: k)
  case Nil
  then show ?case by (simp split: if_splits)
next
  case (Cons x xs)
  show ?case
  proof (cases "prefix pat (x # xs)")
    case True
    with Cons.prems show ?thesis by (auto dest: prefix_length_le)
  next
    case False
    with Cons.prems obtain j where j: "find_sub pat xs = Some j" and "k = Suc j" by auto
    with Cons.IH [OF j] False show ?thesis by (auto simp: less_Suc_eq_0_disj)
  qed
qed

lemma find_sub_bound [scan]: "find_sub pat s = Some k \<Longrightarrow> k + length pat \<le> length s"
  by (simp add: find_sub_SomeD)

lemma find_sub_prefix [scan]: "find_sub pat s = Some k \<Longrightarrow> prefix pat (drop k s)"
  by (simp add: find_sub_SomeD)

lemma find_sub_first: "find_sub pat s = Some k \<Longrightarrow> j < k \<Longrightarrow> \<not> prefix pat (drop j s)"
  by (simp add: find_sub_SomeD)

lemma find_sub_NoneD: "find_sub pat s = None \<Longrightarrow> j \<le> length s \<Longrightarrow> \<not> prefix pat (drop j s)"
proof (induction s arbitrary: j)
  case Nil
  then show ?case by (simp split: if_splits)
next
  case (Cons x xs)
  then show ?case by (cases j) (auto split: if_splits)
qed

lemma find_sub_le: "prefix pat (drop j s) \<Longrightarrow> j \<le> length s \<Longrightarrow> \<exists>k\<le>j. find_sub pat s = Some k"
proof (cases "find_sub pat s")
  case None
  moreover assume "prefix pat (drop j s)" and "j \<le> length s"
  ultimately show ?thesis using find_sub_NoneD by blast
next
  case (Some k)
  moreover assume "prefix pat (drop j s)"
  ultimately show ?thesis using find_sub_first not_le_imp_less by blast
qed

lemma find_sub_eqI:
  "prefix pat (drop k s) \<Longrightarrow> k \<le> length s \<Longrightarrow> \<forall>j<k. \<not> prefix pat (drop j s) \<Longrightarrow> find_sub pat s = Some k"
  using find_sub_le [of pat k s] find_sub_SomeD [of pat s] by (metis le_neq_implies_less)

lemma find_sub_append: "find_sub pat xs = Some k \<Longrightarrow> find_sub pat (xs @ ys) = Some k"
proof (induction xs arbitrary: k)
  case Nil
  then show ?case by (cases ys) (auto split: if_splits)
next
  case (Cons x xs)
  show ?case
  proof (cases "prefix pat (x # xs)")
    case True
    then have "prefix pat ((x # xs) @ ys)" by (rule prefix_prefix)
    with True Cons.prems show ?thesis by simp
  next
    case False
    with Cons.prems obtain j where j: "find_sub pat xs = Some j" and k: "k = Suc j" by auto
    then have "length pat \<le> length xs" using find_sub_bound by fastforce
    then have len: "length pat \<le> length (x # xs)" by simp
    have "\<not> prefix pat ((x # xs) @ ys)"
    proof
      assume "prefix pat ((x # xs) @ ys)"
      moreover have "prefix (x # xs) ((x # xs) @ ys)" by (rule prefixI) simp
      ultimately have "prefix pat (x # xs)" using len by (rule prefix_length_prefix)
      with False show False ..
    qed
    then show ?thesis using Cons.IH [OF j] k by simp
  qed
qed

text \<open>An occurrence that ends inside a prefix of the text is found in that prefix already.\<close>

lemma find_sub_take:
  assumes "find_sub pat s = Some k" and "k + length pat \<le> n"
  shows "find_sub pat (take n s) = Some k"
proof (rule find_sub_eqI)
  have pre: "prefix pat (drop k s)" using assms(1) by (rule find_sub_prefix)
  then have "take (length pat) (drop k s) = pat" by (auto simp: prefix_def)
  moreover have "take (length pat) (drop k (take n s)) = take (length pat) (drop k s)"
    using assms(2) by (simp add: drop_take)
  moreover have "prefix (take (length pat) (drop k (take n s))) (drop k (take n s))"
    by (rule take_is_prefix)
  ultimately show "prefix pat (drop k (take n s))" by simp
  show "k \<le> length (take n s)"
    using find_sub_bound [OF assms(1)] assms(2) by simp
  show "\<forall>j<k. \<not> prefix pat (drop j (take n s))"
  proof (intro allI impI notI)
    fix j assume "j < k" and "prefix pat (drop j (take n s))"
    then have "prefix pat (take (n - j) (drop j s))" by (simp only: drop_take)
    then have "prefix pat (drop j s)" by (rule prefix_order.trans) (rule take_is_prefix)
    with find_sub_first [OF assms(1) \<open>j < k\<close>] show False by simp
  qed
qed

subsection \<open>Taking while and dropping while\<close>

lemma takeWhile_append_stop: "\<exists>x\<in>set xs. \<not> P x \<Longrightarrow> takeWhile P (xs @ ys) = takeWhile P xs"
  by (induction xs) auto

lemma dropWhile_append_stop: "\<exists>x\<in>set xs. \<not> P x \<Longrightarrow> dropWhile P (xs @ ys) = dropWhile P xs @ ys"
  by (induction xs) auto

lemma takeWhile_end: "\<not> P y \<Longrightarrow> takeWhile P (xs @ y # ys) = takeWhile P xs"
  by (induction xs) auto

end
