(* ===== verification/CString.thy ===== *)
theory CString
  imports Prelude
begin

section \<open>The C library functions on NUL-terminated strings that the sources call\<close>

text \<open>
  A character buffer is the list of its bytes; a C string starting in it is the part before the
  first NUL (\<open>cstr\<close>). Pointers into a buffer are offsets, so \<open>strstr\<close>, \<open>memchr\<close> and the end
  pointer of \<open>strtol\<close> return offsets from the start of their argument. Values that only exist
  as C strings (environment values, literals) are lists without a NUL.
\<close>

abbreviation NUL :: char where "NUL \<equiv> CHR 0x00"
abbreviation TAB :: char where "TAB \<equiv> CHR 0x09"
abbreviation LF :: char where "LF \<equiv> CHR 0x0A"
abbreviation CR :: char where "CR \<equiv> CHR 0x0D"
abbreviation SP :: char where "SP \<equiv> CHR 0x20"

definition cstr :: "bytes \<Rightarrow> bytes" where
  "cstr s = takeWhile (\<lambda>c. c \<noteq> NUL) s"

definition strstr :: "bytes \<Rightarrow> bytes \<Rightarrow> nat option" where
  "strstr hay pat = find_sub pat (cstr hay)"

definition tolower :: "char \<Rightarrow> char" where
  "tolower c = (let n = (of_char c :: nat) in if 65 \<le> n \<and> n \<le> 90 then char_of (n + 32) else c)"

definition strcaseeq :: "bytes \<Rightarrow> bytes \<Rightarrow> bool" where
  "strcaseeq a b \<longleftrightarrow> map tolower (cstr a) = map tolower (cstr b)"

definition strneq :: "nat \<Rightarrow> bytes \<Rightarrow> bytes \<Rightarrow> bool" where
  "strneq n a b \<longleftrightarrow> take n (cstr a) = take n (cstr b)"

definition strncaseeq :: "nat \<Rightarrow> bytes \<Rightarrow> bytes \<Rightarrow> bool" where
  "strncaseeq n a b \<longleftrightarrow> map tolower (take n (cstr a)) = map tolower (take n (cstr b))"

definition memchr :: "bytes \<Rightarrow> char \<Rightarrow> nat \<Rightarrow> nat option" where
  "memchr s c n = find_sub [c] (take n s)"

definition isspace :: "char \<Rightarrow> bool" where
  "isspace c \<longleftrightarrow> c \<in> {CHR 0x09, CHR 0x0A, CHR 0x0B, CHR 0x0C, CHR 0x0D, CHR 0x20}"

definition isdigit :: "char \<Rightarrow> bool" where
  "isdigit c \<longleftrightarrow> 48 \<le> (of_char c :: nat) \<and> (of_char c :: nat) \<le> 57"

fun decimal :: "nat \<Rightarrow> bytes \<Rightarrow> nat" where
  "decimal acc [] = acc"
| "decimal acc (c # cs) = decimal (10 * acc + (of_char c - 48)) cs"

text \<open>The subject sequence of \<open>strtol\<close>: white space, an optional sign, decimal digits.\<close>

definition strto_sign :: "bytes \<Rightarrow> bool \<times> bytes" where
  "strto_sign r = (case r of [] \<Rightarrow> (False, [])
     | c # cs \<Rightarrow> if c = CHR ''-'' then (True, cs) else if c = CHR ''+'' then (False, cs) else (False, r))"

definition strto_digits :: "bytes \<Rightarrow> bool \<times> bytes" where
  "strto_digits s = (let (neg, r) = strto_sign (dropWhile isspace s) in (neg, takeWhile isdigit r))"

definition LONG_MAX :: int where "LONG_MAX = 9223372036854775807"
definition ULLONG_MAX :: nat where "ULLONG_MAX = 18446744073709551615"

text \<open>
  \<open>strtol s\<close> is the value and the offset of the end pointer; offset 0 is \<open>end == value\<close>, no
  conversion. Out of range values saturate.
\<close>

definition strtol :: "bytes \<Rightarrow> int \<times> nat" where
  "strtol t =
     (let s = cstr t; (neg, ds) = strto_digits s;
          skipped = length s - length (snd (strto_sign (dropWhile isspace s)))
      in if ds = [] then (0, 0)
         else let v = int (decimal 0 ds)
              in (if neg then max (- LONG_MAX - 1) (- v) else min LONG_MAX v, skipped + length ds))"

text \<open>\<open>strtoull\<close> negates in the unsigned type and saturates at \<open>ULLONG_MAX\<close>.\<close>

definition strtoull :: "bytes \<Rightarrow> nat" where
  "strtoull t =
     (let (neg, ds) = strto_digits (cstr t); v = decimal 0 ds
      in if ds = [] then 0 else if v > ULLONG_MAX then ULLONG_MAX
         else if neg then (2 ^ 64 - v) mod 2 ^ 64 else v)"

subsection \<open>Facts about C strings\<close>

lemma cstr_simps [simp, cstring]:
  "cstr [] = []"
  "cstr (c # s) = (if c = NUL then [] else c # cstr s)"
  by (simp_all add: cstr_def)

lemma cstr_no_NUL [simp]: "NUL \<notin> set (cstr s)"
  by (auto simp: cstr_def dest: set_takeWhileD)

lemma cstr_id: "NUL \<notin> set s \<Longrightarrow> cstr s = s"
  by (induction s) auto

lemma cstr_idem [simp]: "cstr (cstr s) = cstr s"
  by (rule cstr_id) simp

lemma length_cstr_le: "length (cstr s) \<le> length s"
  by (simp add: cstr_def length_takeWhile_le)

lemma cstr_take: "cstr s = take (length (cstr s)) s"
  unfolding cstr_def by (rule takeWhile_eq_take)

lemma cstr_append: "cstr (s @ t) = (if NUL \<in> set s then cstr s else s @ cstr t)"
  by (induction s) auto

lemma cstr_prefix_append: "prefix (cstr s) (cstr (s @ t))"
  by (simp add: cstr_append cstr_id)

lemma cstr_drop: "n \<le> length (cstr s) \<Longrightarrow> cstr (drop n s) = drop n (cstr s)"
proof (induction s arbitrary: n)
  case Nil
  then show ?case by simp
next
  case (Cons c s)
  then show ?case by (cases n) (auto split: if_splits)
qed

lemma cstr_cut: "n \<le> length (cstr s) \<Longrightarrow> cstr (take n s) = take n (cstr s)"
proof (induction s arbitrary: n)
  case Nil
  then show ?case by simp
next
  case (Cons c s)
  then show ?case by (cases n) (auto split: if_splits)
qed

lemma take_cstr: "n \<le> length (cstr s) \<Longrightarrow> take n (cstr s) = take n s"
  by (metis cstr_take min.absorb1 take_take)

lemma strstr_append: "strstr s pat = Some k \<Longrightarrow> strstr (s @ t) pat = Some k"
  unfolding strstr_def using cstr_prefix_append [of s t] find_sub_append
  by (auto simp: prefix_def)

lemma strstr_bound [scan]: "strstr s pat = Some k \<Longrightarrow> k + length pat \<le> length (cstr s)"
  by (simp add: strstr_def find_sub_bound)

lemma isspace_simps [simp]: "isspace SP" "isspace TAB" "isspace CR" "isspace LF" "\<not> isspace NUL"
  by (simp_all add: isspace_def)

lemma not_isdigit_simps [simp]: "\<not> isdigit CR" "\<not> isdigit LF" "\<not> isdigit NUL" "\<not> isdigit SP"
  by (simp_all add: isdigit_def)

lemma isdigit_isspace: "isdigit c \<Longrightarrow> \<not> isspace c"
  by (auto simp: isdigit_def isspace_def)

text \<open>
  A number that starts before a carriage return is not read past it: only white space lets the
  conversion run on.
\<close>

lemma strto_digits_stop:
  assumes "\<exists>c\<in>set v. \<not> isspace c"
  shows "strto_digits (v @ CR # t) = strto_digits v"
proof -
  obtain c cs where r: "dropWhile isspace v = c # cs"
    using assms by (metis dropWhile_eq_Nil_conv neq_Nil_conv)
  have "dropWhile isspace (v @ CR # t) = c # (cs @ CR # t)"
    using assms r by (simp add: dropWhile_append_stop)
  then show ?thesis
    using takeWhile_end [of isdigit CR cs t] takeWhile_end [of isdigit CR "c # cs" t]
    by (simp add: strto_digits_def r strto_sign_def del: takeWhile.simps)
qed

lemma strtoull_stop:
  "NUL \<notin> set v \<Longrightarrow> \<exists>c\<in>set v. \<not> isspace c \<Longrightarrow> strtoull (v @ CR # t) = strtoull v"
  by (simp add: strtoull_def cstr_append strto_digits_stop cstr_id)

lemma strtol_range: "- LONG_MAX - 1 \<le> fst (strtol s) \<and> fst (strtol s) \<le> LONG_MAX"
  by (auto simp: strtol_def LONG_MAX_def Let_def split: prod.split)

lemma strtoull_range: "strtoull s \<le> ULLONG_MAX"
  by (auto simp: strtoull_def ULLONG_MAX_def Let_def split: prod.split)

end
