(* ===== verification/HttpRequest.thy ===== *)
theory HttpRequest
  imports CString
begin

section \<open>Reading one HTTP request from a socket\<close>

text \<open>
  Models \<open>fortai_http_read_request\<close> of \<open>src/server/fortai_http_server.c\<close>. The
  socket is the list of what successive \<open>recv\<close> calls meet: data the peer has sent (of which a
  call takes at most the room left in the buffer, the rest stays queued), an interrupted call, an
  error, or an orderly shutdown (data \<open>[]\<close>). A \<open>recv\<close> on the empty list blocks for ever
  (\<open>ReadBlocked\<close>). \<open>alloc\<close> tells for each requested size whether \<open>malloc\<close> or \<open>realloc\<close>
  succeeds.

  The abstract contract is \<open>frame\<close>: the length of the request a byte stream starts with. The
  lemmas show that the reader returns exactly that prefix for every way the stream is cut into
  \<open>recv\<close> results.
\<close>

definition FORTAI_HTTP_MAX_REQUEST :: nat where
  "FORTAI_HTTP_MAX_REQUEST = 16 * 1024 * 1024"

abbreviation CRLF :: bytes where "CRLF \<equiv> [CR, LF]"
abbreviation CRLFCRLF :: bytes where "CRLFCRLF \<equiv> [CR, LF, CR, LF]"

datatype recv_event = RecvData bytes | RecvEINTR | RecvError

datatype read_result = ReadOk bytes | ReadFail | ReadBlocked

text \<open>
  The inner loop over the header lines, from offset \<open>line\<close> up to the blank line at \<open>sep\<close>. The
  last \<open>Content-Length\<close> line wins; with none, the value of the previous round is kept.
\<close>

function scan_content_length :: "bytes \<Rightarrow> nat \<Rightarrow> nat \<Rightarrow> nat \<Rightarrow> nat" where
  "scan_content_length request sep line cl =
     (if line < sep then
        (case strstr (drop line request) CRLF of
           None \<Rightarrow> cl
         | Some k \<Rightarrow>
             if line + k > sep then cl
             else scan_content_length request sep (line + k + 2)
                    (if strncaseeq 15 (drop line request) ''Content-Length:''
                     then strtoull (drop (line + 15) request) else cl))
      else cl)"
  by pat_completeness auto
termination
  by (relation "measure (\<lambda>(request, sep, line, cl). sep - line)") auto

declare scan_content_length.simps [simp del]

definition event_weight :: "recv_event \<Rightarrow> nat" where
  "event_weight e = (case e of RecvData d \<Rightarrow> Suc (length d) | _ \<Rightarrow> 1)"

text \<open>The buffer is doubled when full, up to the limit; \<open>None\<close> is the \<open>break\<close> out of the loop.\<close>

definition grow_capacity :: "(nat \<Rightarrow> bool) \<Rightarrow> nat \<Rightarrow> nat \<Rightarrow> nat option" where
  "grow_capacity alloc capacity len =
     (if capacity = len then
        let grown = min (capacity * 2) FORTAI_HTTP_MAX_REQUEST
        in if grown = capacity then None
           else if alloc (grown + 1) then Some grown else None
      else Some capacity)"

text \<open>
  What happens to the bytes read so far after each \<open>recv\<close>: the content length, and the result if
  the loop is left (\<open>None\<close> is \<open>continue\<close>).
\<close>

definition check_request :: "bytes \<Rightarrow> nat \<Rightarrow> nat \<times> read_result option" where
  "check_request request cl =
     (case strstr request CRLFCRLF of
        None \<Rightarrow> (cl, None)
      | Some sep \<Rightarrow>
          let header_end = sep + 4;
              cl' = scan_content_length request sep 0 cl
          in (cl', if cl' > FORTAI_HTTP_MAX_REQUEST \<or> header_end > FORTAI_HTTP_MAX_REQUEST - cl'
                   then Some ReadFail
                   else if length request \<ge> header_end + cl'
                   then Some (ReadOk (take (header_end + cl') request))
                   else None))"

function http_read_loop ::
    "(nat \<Rightarrow> bool) \<Rightarrow> recv_event list \<Rightarrow> nat \<Rightarrow> bytes \<Rightarrow> nat \<Rightarrow> read_result" where
  "http_read_loop alloc evs capacity request cl =
     (if length request < FORTAI_HTTP_MAX_REQUEST then
        (case grow_capacity alloc capacity (length request) of
           None \<Rightarrow> ReadFail
         | Some room \<Rightarrow>
             (case evs of
                [] \<Rightarrow> ReadBlocked
              | RecvEINTR # rest \<Rightarrow> http_read_loop alloc rest room request cl
              | RecvError # rest \<Rightarrow> ReadFail
              | RecvData d # rest \<Rightarrow>
                  let received = take (room - length request) d;
                      queued = drop (room - length request) d
                  in if received = [] then ReadFail
                     else (case check_request (request @ received) cl of
                         (cl', Some result) \<Rightarrow> result
                       | (cl', None) \<Rightarrow>
                           http_read_loop alloc (if queued = [] then rest else RecvData queued # rest)
                             room (request @ received) cl')))
      else ReadFail)"
  by pat_completeness auto
termination
  by (relation "measure (\<lambda>(alloc, evs, capacity, request, cl). sum_list (map event_weight evs))")
     (auto simp: event_weight_def Let_def split: if_splits)

declare http_read_loop.simps [simp del]

definition http_read_request :: "(nat \<Rightarrow> bool) \<Rightarrow> recv_event list \<Rightarrow> read_result" where
  "http_read_request alloc evs =
     (if alloc (65536 + 1) then http_read_loop alloc evs 65536 [] 0 else ReadFail)"

subsection \<open>The contract: how long the first request of a stream is\<close>

function split_crlf :: "bytes \<Rightarrow> bytes list" where
  "split_crlf s = (case find_sub CRLF s of
      None \<Rightarrow> [s] | Some k \<Rightarrow> take k s # split_crlf (drop (k + 2) s))"
  by pat_completeness auto
termination
  by (relation "measure length") (auto dest: find_sub_bound)

declare split_crlf.simps [simp del]

definition is_content_length :: "bytes \<Rightarrow> bool" where
  "is_content_length l \<longleftrightarrow> strncaseeq 15 l ''Content-Length:''"

definition declared_from :: "nat \<Rightarrow> bytes list \<Rightarrow> nat" where
  "declared_from cl ls = fold (\<lambda>l n. if is_content_length l then strtoull (drop 15 l) else n) ls cl"

definition declared_length :: "bytes \<Rightarrow> nat" where
  "declared_length header = declared_from 0 (split_crlf header)"

definition frame :: "bytes \<Rightarrow> nat option" where
  "frame s = (case strstr s CRLFCRLF of
      None \<Rightarrow> None
    | Some sep \<Rightarrow> let n = sep + 4 + declared_length (take sep s)
                in if n \<le> FORTAI_HTTP_MAX_REQUEST then Some n else None)"

text \<open>
  Every \<open>Content-Length\<close> line of the header has a value: without one, \<open>strtoull\<close> skips the line
  end as white space and reads whatever number follows.
\<close>

definition value_given :: "bytes \<Rightarrow> bool" where
  "value_given l \<longleftrightarrow> (is_content_length l \<longrightarrow> list_ex (\<lambda>c. \<not> isspace c) (drop 15 l))"

definition lengths_given :: "bytes \<Rightarrow> bool" where
  "lengths_given s \<longleftrightarrow> (case strstr s CRLFCRLF of None \<Rightarrow> True
     | Some sep \<Rightarrow> list_all value_given (split_crlf (take sep s)))"

definition stream :: "recv_event list \<Rightarrow> bytes" where
  "stream evs = concat (map (\<lambda>e. case e of RecvData d \<Rightarrow> d | _ \<Rightarrow> []) evs)"

lemma stream_simps [simp]:
  "stream [] = []"
  "stream (RecvData d # evs) = d @ stream evs"
  "stream (RecvEINTR # evs) = stream evs"
  "stream (RecvError # evs) = stream evs"
  by (simp_all add: stream_def)

subsection \<open>The line loop computes the declared length\<close>

lemma find_CRLF_stop:
  "find_sub CRLF (h @ CR # LF # t) =
     Some (case find_sub CRLF h of None \<Rightarrow> length h | Some k \<Rightarrow> k)"
proof (induction h)
  case Nil
  then show ?case by simp
next
  case (Cons x xs)
  then show ?case by (cases xs) (auto split: option.splits)
qed

lemma find_CRLF_line:
  assumes "find_sub CRLF h = Some k"
  shows "h = take k h @ CR # LF # drop (k + 2) h"
proof -
  obtain z where z: "drop k h = CRLF @ z" using find_sub_prefix [OF assms] by (auto simp: prefix_def)
  then have "drop (k + 2) h = z" by (metis append_Cons append_Nil drop_drop drop_Suc_Cons drop0 numeral_2_eq_2 add.commute)
  with z show ?thesis by (metis append_Cons append_Nil append_take_drop_id)
qed

lemma tolower_CR: "tolower CR = CR"
  by (simp add: tolower_def)

lemma strncaseeq_stop:
  assumes "NUL \<notin> set l" and "CR \<notin> tolower ` set pat" and "NUL \<notin> set pat"
  shows "strncaseeq (length pat) (l @ CR # t) pat = strncaseeq (length pat) l pat"
proof (cases "length pat \<le> length l")
  case True
  then show ?thesis using assms by (simp add: strncaseeq_def cstr_append cstr_id)
next
  case False
  define n where "n = length l"
  with False have n: "n < length pat" by simp
  have "map tolower (take (length pat) (l @ CR # cstr t)) ! n = tolower CR"
    using n by (simp add: nth_append n_def)
  moreover have "map tolower pat ! n \<noteq> tolower CR"
    using n assms(2) nth_mem [OF n] tolower_CR by (metis image_eqI nth_map)
  ultimately have "map tolower (take (length pat) (l @ CR # cstr t)) \<noteq> map tolower pat"
    by metis
  moreover have "map tolower (take (length pat) l) \<noteq> map tolower pat"
    using n by (auto simp: n_def dest!: arg_cong [where f = length])
  ultimately show ?thesis using assms by (simp add: strncaseeq_def cstr_append cstr_id)
qed

lemma content_length_stop:
  assumes "NUL \<notin> set l"
  shows "strncaseeq 15 (l @ CR # t) ''Content-Length:'' = is_content_length l"
proof -
  have "CR \<notin> tolower ` set ''Content-Length:''" by code_simp
  moreover have "NUL \<notin> set ''Content-Length:''" by simp
  moreover have "length ''Content-Length:'' = 15" by simp
  ultimately show ?thesis
    using strncaseeq_stop [OF assms, of "''Content-Length:''" t]
    unfolding is_content_length_def by metis
qed

lemma header_lines:
  assumes "strstr request CRLFCRLF = Some sep"
  obtains t where "cstr request = take sep request @ CR # LF # CR # LF # t" and "sep \<le> length request"
proof -
  have le: "sep + 4 \<le> length (cstr request)" using strstr_bound [OF assms] by simp
  obtain t where "drop sep (cstr request) = CRLFCRLF @ t"
    using assms find_sub_prefix unfolding strstr_def prefix_def by blast
  then have "cstr request = take sep (cstr request) @ CRLFCRLF @ t" by (metis append_take_drop_id)
  moreover have "take sep (cstr request) = take sep request" using le by (simp add: take_cstr)
  moreover have "sep \<le> length request" using le length_cstr_le [of request] by linarith
  ultimately show ?thesis using that by simp
qed

lemma strtoull_cstr: "strtoull (cstr s) = strtoull s"
  by (simp add: strtoull_def)

lemma declared_from_simps [simp]:
  "declared_from cl [] = cl"
  "declared_from cl (l # ls) =
     declared_from (if is_content_length l then strtoull (drop 15 l) else cl) ls"
  by (simp_all add: declared_from_def)

lemma is_content_length_Nil [simp]: "\<not> is_content_length []"
  by (simp add: is_content_length_def strncaseeq_def)

lemma strncaseeq_cstr: "strncaseeq n (cstr s) p = strncaseeq n s p"
  by (simp add: strncaseeq_def)

text \<open>One round of the loop reads the line \<open>l\<close> as the contract does.\<close>

lemma line_value:
  assumes "NUL \<notin> set l" and "value_given l" and "cstr (drop line request) = l @ CR # t"
  shows "(if strncaseeq 15 (drop line request) ''Content-Length:''
           then strtoull (drop (line + 15) request) else cl) =
         (if is_content_length l then strtoull (drop 15 l) else cl)"
proof -
  have eq: "strncaseeq 15 (drop line request) ''Content-Length:'' = is_content_length l"
    using content_length_stop [OF assms(1), of t] strncaseeq_cstr [of 15 "drop line request"] assms(3)
      strncaseeq_cstr [of 15 "l @ CR # t"] cstr_idem [of "drop line request"] by simp
  have "strtoull (drop (line + 15) request) = strtoull (drop 15 l)" if cl: "is_content_length l"
  proof -
    have some: "\<exists>c\<in>set (drop 15 l). \<not> isspace c"
      using assms(2) cl by (auto simp: value_given_def list_ex_iff)
    then have "15 \<le> length l" by (auto intro: ccontr)
    moreover have "cstr (drop 15 (drop line request)) = drop 15 (cstr (drop line request))"
      by (rule cstr_drop) (use assms(3) \<open>15 \<le> length l\<close> in simp)
    ultimately have "cstr (drop (line + 15) request) = drop 15 l @ CR # t"
      using assms(3) by (simp add: add.commute)
    then have "strtoull (drop (line + 15) request) = strtoull (drop 15 l @ CR # t)"
      by (metis strtoull_cstr)
    also have "\<dots> = strtoull (drop 15 l)"
      using some assms(1) by (intro strtoull_stop) (auto dest: in_set_dropD)
    finally show ?thesis .
  qed
  with eq show ?thesis by simp
qed

lemma scan_eq_declared:
  assumes "strstr request CRLFCRLF = Some sep" and "line \<le> sep"
    and "list_all value_given (split_crlf (drop line (take sep request)))"
  shows "scan_content_length request sep line cl =
         declared_from cl (split_crlf (drop line (take sep request)))"
  using assms(2,3)
proof (induction "drop line (take sep request)" arbitrary: line cl rule: split_crlf.induct)
  case 1
  define h where "h = drop line (take sep request)"
  obtain t where c: "cstr request = take sep request @ CR # LF # CR # LF # t"
    and sep: "sep \<le> length request" using header_lines [OF assms(1)] .
  have clean: "NUL \<notin> set h" using cstr_no_NUL [of request] c by (auto simp: h_def dest: in_set_dropD)
  have cs: "cstr (drop line request) = h @ CR # LF # CR # LF # t"
    using c 1(2) sep cstr_drop [of line request] by (simp add: h_def)
  show ?case
  proof (cases "line < sep")
    case False
    with 1(2) have "h = []" by (simp add: h_def)
    with False show ?thesis
      by (simp add: scan_content_length.simps [of request] h_def [symmetric] split_crlf.simps [of "[]"])
  next
    case True
    show ?thesis
    proof (cases "find_sub CRLF h")
      case None
      then have k: "strstr (drop line request) CRLF = Some (sep - line)"
        using cs find_CRLF_stop [of h "CR # LF # t"] True sep by (simp add: strstr_def h_def)
      have split: "split_crlf h = [h]" using None by (simp add: split_crlf.simps [of h])
      have "value_given h" using 1(3) split by (simp add: h_def)
      note val = line_value [OF clean this, of line request "LF # CR # LF # t" cl]
      show ?thesis using True k val cs split
        by (simp add: scan_content_length.simps [of request sep line]
            scan_content_length.simps [of request sep "Suc (Suc sep)"] h_def [symmetric])
    next
      case (Some k)
      then have k: "strstr (drop line request) CRLF = Some k"
        using cs find_CRLF_stop [of h "CR # LF # t"] by (simp add: strstr_def)
      have kle: "line + k + 2 \<le> sep"
        using find_sub_bound [OF Some] True sep by (simp add: h_def)
      have split: "split_crlf h = take k h # split_crlf (drop (k + 2) h)"
        using Some by (simp add: split_crlf.simps [of h])
      have rest: "drop (k + 2) h = drop (line + k + 2) (take sep request)"
        by (simp add: h_def add.commute add.left_commute)
      have "value_given (take k h)" and vs: "list_all value_given (split_crlf (drop (k + 2) h))"
        using 1(3) split by (simp_all add: h_def)
      moreover have "NUL \<notin> set (take k h)" using clean by (auto dest: in_set_takeD)
      moreover obtain u where "cstr (drop line request) = take k h @ CR # u"
        using cs find_CRLF_line [OF Some] by (metis append.assoc append_Cons)
      ultimately have val: "(if strncaseeq 15 (drop line request) ''Content-Length:''
           then strtoull (drop (line + 15) request) else cl) =
         (if is_content_length (take k h) then strtoull (drop 15 (take k h)) else cl)"
        by (intro line_value)
      show ?thesis
        using True k kle val split 1(1) [of k "line + k + 2"] Some rest vs
        by (simp add: scan_content_length.simps [of request sep line] h_def)
    qed
  qed
qed

subsection \<open>The reader implements the contract\<close>

lemma declared_from_cases:
  "(\<forall>c. declared_from c ls = c) \<or> (\<forall>c c'. declared_from c ls = declared_from c' ls)"
  by (induction ls) auto

lemma declared_from_again: "declared_from (declared_from c ls) ls = declared_from c ls"
  using declared_from_cases [of ls] by metis

text \<open>
  \<open>length_known s cl\<close>: the value carried from the previous round is the initial 0 or already
  the declared length of the stream.
\<close>

definition length_known :: "bytes \<Rightarrow> nat \<Rightarrow> bool" where
  "length_known s cl \<longleftrightarrow>
     cl = 0 \<or> (\<exists>sep. strstr s CRLFCRLF = Some sep \<and> cl = declared_length (take sep s))"

lemma scan_declared:
  assumes sep: "strstr request CRLFCRLF = Some sep" and "lengths_given (request @ t)"
    and "length_known (request @ t) cl"
  shows "strstr (request @ t) CRLFCRLF = Some sep"
    and "scan_content_length request sep 0 cl = declared_length (take sep (request @ t))"
proof -
  show all: "strstr (request @ t) CRLFCRLF = Some sep" using sep by (rule strstr_append)
  have "sep \<le> length request" using header_lines [OF sep] by blast
  then have same: "take sep (request @ t) = take sep request" by simp
  with all assms(2) have "list_all value_given (split_crlf (take sep request))"
    unfolding lengths_given_def by (metis option.case(2))
  then have "scan_content_length request sep 0 cl = declared_from cl (split_crlf (take sep request))"
    using scan_eq_declared [OF sep, of 0 cl] by simp
  also have "\<dots> = declared_length (take sep request)"
    using assms(3) all same by (auto simp: length_known_def declared_length_def declared_from_again)
  finally show "scan_content_length request sep 0 cl = declared_length (take sep (request @ t))"
    by (simp only: same)
qed

lemma frame_at:
  assumes "strstr s CRLFCRLF = Some sep"
  shows "frame s = (let n = sep + 4 + declared_length (take sep s)
                    in if n \<le> FORTAI_HTTP_MAX_REQUEST then Some n else None)"
  using assms by (simp add: frame_def)


lemma lengths_given_again: "length_known s cl \<Longrightarrow> strstr s CRLFCRLF = Some sep \<Longrightarrow>
    length_known s (declared_length (take sep s))"
  by (auto simp: length_known_def)

lemma check_request_Some:
  assumes "check_request request cl = (cl', Some res)"
    and "lengths_given (request @ t)" and "length_known (request @ t) cl"
  shows "(case frame (request @ t) of None \<Rightarrow> res = ReadFail
          | Some n \<Rightarrow> n \<le> length request \<and> res = ReadOk (take n (request @ t)))"
proof -
  obtain sep where sep: "strstr request CRLFCRLF = Some sep"
    using assms(1) by (auto simp: check_request_def split: option.splits)
  note sd = scan_declared [OF sep assms(2,3)]
  show ?thesis
    using assms(1) sep sd by (auto simp: check_request_def frame_at Let_def split: if_splits)
qed

lemma check_request_None:
  assumes "check_request request cl = (cl', None)"
    and "lengths_given (request @ t)" and "length_known (request @ t) cl"
  shows "length_known (request @ t) cl'"
    and "frame (request @ t) = Some n \<Longrightarrow> length request < n"
proof -
  show "length_known (request @ t) cl'"
  proof (cases "strstr request CRLFCRLF")
    case None
    with assms show ?thesis by (simp add: check_request_def)
  next
    case (Some sep)
    with assms(1) scan_declared [OF Some assms(2,3)] show ?thesis
      by (auto simp: check_request_def length_known_def Let_def)
  qed
  assume n: "frame (request @ t) = Some n"
  then obtain sep where sep: "strstr (request @ t) CRLFCRLF = Some sep" and "sep + 4 \<le> n"
    by (auto simp: frame_def Let_def split: option.splits if_splits)
  show "length request < n"
  proof (rule ccontr)
    assume "\<not> length request < n"
    with \<open>sep + 4 \<le> n\<close> have le: "sep + 4 \<le> length request" by simp
    have "find_sub CRLFCRLF (take (length request) (cstr (request @ t))) = Some sep"
      using sep le unfolding strstr_def by (intro find_sub_take) simp_all
    moreover have "prefix (take (length request) (cstr (request @ t))) (cstr request)"
      by (cases "NUL \<in> set request") (simp_all add: cstr_append cstr_id take_is_prefix)
    ultimately have "strstr request CRLFCRLF = Some sep"
      unfolding strstr_def prefix_def using find_sub_append by metis
    with assms(1) scan_declared [OF this assms(2,3)] n \<open>\<not> length request < n\<close> show False
      by (auto simp: check_request_def frame_at Let_def split: if_splits)
  qed
qed

text \<open>The loop, one \<open>recv\<close> at a time.\<close>

lemma http_read_loop_steps:
  assumes "length request < FORTAI_HTTP_MAX_REQUEST"
    and "grow_capacity alloc capacity (length request) = Some room"
  shows "http_read_loop alloc [] capacity request cl = ReadBlocked"
    and "http_read_loop alloc (RecvEINTR # rest) capacity request cl = http_read_loop alloc rest room request cl"
    and "http_read_loop alloc (RecvError # rest) capacity request cl = ReadFail"
    and "take (room - length request) d = [] \<Longrightarrow>
           http_read_loop alloc (RecvData d # rest) capacity request cl = ReadFail"
    and "take (room - length request) d \<noteq> [] \<Longrightarrow>
           check_request (request @ take (room - length request) d) cl = (cl', Some res) \<Longrightarrow>
           http_read_loop alloc (RecvData d # rest) capacity request cl = res"
    and "take (room - length request) d \<noteq> [] \<Longrightarrow>
           check_request (request @ take (room - length request) d) cl = (cl', None) \<Longrightarrow>
           http_read_loop alloc (RecvData d # rest) capacity request cl =
             http_read_loop alloc (if drop (room - length request) d = [] then rest
                                   else RecvData (drop (room - length request) d) # rest)
               room (request @ take (room - length request) d) cl'"
  using assms by (simp_all add: http_read_loop.simps [of alloc _ capacity request cl] Let_def del: take_eq_Nil)

lemma http_read_loop_stop:
  assumes "\<not> (length request < FORTAI_HTTP_MAX_REQUEST \<and>
              (\<exists>room. grow_capacity alloc capacity (length request) = Some room))"
  shows "http_read_loop alloc evs capacity request cl = ReadFail"
  using assms by (auto simp: http_read_loop.simps [of alloc evs capacity request cl] split: option.split)

lemma stream_requeue:
  "stream (if drop k d = [] then rest else RecvData (drop k d) # rest) = drop k d @ stream rest"
  by simp

lemma http_read_loop_sound:
  "lengths_given (request @ stream evs) \<Longrightarrow> length_known (request @ stream evs) cl \<Longrightarrow>
   http_read_loop alloc evs capacity request cl = ReadOk r \<Longrightarrow>
   \<exists>n. frame (request @ stream evs) = Some n \<and> n \<le> length (request @ stream evs) \<and>
       r = take n (request @ stream evs)"
proof (induction alloc evs capacity request cl rule: http_read_loop.induct)
  case (1 alloc evs capacity request cl)
  from 1(5) obtain room where len: "length request < FORTAI_HTTP_MAX_REQUEST"
    and room: "grow_capacity alloc capacity (length request) = Some room"
    using http_read_loop_stop [of request alloc capacity evs cl] by (metis read_result.distinct(1))
  note steps = http_read_loop_steps [OF len room]
  show ?case
  proof (cases evs)
    case Nil
    with 1(5) steps(1) show ?thesis by simp
  next
    case (Cons e rest)
    show ?thesis
    proof (cases e)
      case RecvEINTR
      with Cons 1(2) [OF len room Cons RecvEINTR] 1(3-5) show ?thesis by (simp add: steps)
    next
      case RecvError
      with Cons 1(5) show ?thesis by (simp add: steps)
    next
      case (RecvData d)
      define got left where "got = take (room - length request) d"
        and "left = drop (room - length request) d"
      have d: "d = got @ left" by (simp add: got_def left_def)
      have all: "request @ stream evs = (request @ got) @ left @ stream rest"
        using Cons RecvData d by simp
      have got: "got \<noteq> []"
        using 1(5) Cons RecvData steps(4) [of d] by (auto simp: got_def)
      obtain cl' o' where chk: "check_request (request @ got) cl = (cl', o')" by fastforce
      show ?thesis
      proof (cases o')
        case (Some res)
        then have "res = ReadOk r"
          using 1(5) Cons RecvData steps(5) [of d] got chk by (simp add: got_def del: take_eq_Nil)
        then show ?thesis
          using check_request_Some [of "request @ got" cl cl' res "left @ stream rest"] 1(3,4) chk Some all
          by (auto split: option.splits)
      next
        case None
        have "http_read_loop alloc (if left = [] then rest else RecvData left # rest) room
                (request @ got) cl' = ReadOk r"
          using 1(5) Cons RecvData steps(6) [of d cl cl' rest] got chk None
          by (simp add: got_def left_def del: take_eq_Nil drop_eq_Nil)
        moreover have "(request @ got) @ stream (if left = [] then rest else RecvData left # rest)
            = request @ stream evs" using all by simp
        moreover have "length_known (request @ stream evs) cl'"
          using check_request_None(1) [of "request @ got" cl cl' "left @ stream rest"] 1(3,4) chk None all
          by simp
        ultimately show ?thesis
          using 1(1) [OF len room Cons RecvData got_def left_def got chk [symmetric] None] 1(3)
          by (simp del: append_assoc)
      qed
    qed
  qed
qed

text \<open>A socket that keeps delivering: no error and no shutdown before the data ends.\<close>

definition delivers :: "recv_event list \<Rightarrow> bool" where
  "delivers evs \<longleftrightarrow> list_all (\<lambda>e. case e of RecvData d \<Rightarrow> d \<noteq> [] | RecvEINTR \<Rightarrow> True | RecvError \<Rightarrow> False) evs"

lemma delivers_simps [simp]:
  "delivers []"
  "delivers (RecvData d # evs) \<longleftrightarrow> d \<noteq> [] \<and> delivers evs"
  "delivers (RecvEINTR # evs) \<longleftrightarrow> delivers evs"
  "\<not> delivers (RecvError # evs)"
  by (simp_all add: delivers_def)

lemma frame_le_max: "frame s = Some n \<Longrightarrow> n \<le> FORTAI_HTTP_MAX_REQUEST"
  by (auto simp: frame_def Let_def split: option.splits if_splits)

lemma grow_capacity_room:
  assumes "len < FORTAI_HTTP_MAX_REQUEST" and "len \<le> capacity" and "0 < capacity"
    and "capacity \<le> FORTAI_HTTP_MAX_REQUEST" and "\<forall>k. alloc k"
  obtains room where "grow_capacity alloc capacity len = Some room" and "len < room"
    and "room \<le> FORTAI_HTTP_MAX_REQUEST"
proof (cases "capacity = len")
  case True
  then show ?thesis
    using assms that [of "min (capacity * 2) FORTAI_HTTP_MAX_REQUEST"]
    by (simp add: grow_capacity_def Let_def min_def)
next
  case False
  then show ?thesis using assms that [of capacity] by (simp add: grow_capacity_def)
qed

lemma http_read_loop_complete:
  "delivers evs \<Longrightarrow> \<forall>k. alloc k \<Longrightarrow> lengths_given (request @ stream evs) \<Longrightarrow>
   length_known (request @ stream evs) cl \<Longrightarrow> frame (request @ stream evs) = Some n \<Longrightarrow>
   n \<le> length (request @ stream evs) \<Longrightarrow> length request < n \<Longrightarrow>
   length request \<le> capacity \<Longrightarrow> 0 < capacity \<Longrightarrow> capacity \<le> FORTAI_HTTP_MAX_REQUEST \<Longrightarrow>
   http_read_loop alloc evs capacity request cl = ReadOk (take n (request @ stream evs))"
proof (induction alloc evs capacity request cl rule: http_read_loop.induct)
  case (1 alloc evs capacity request cl)
  note prems = 1(3-12)
  have len: "length request < FORTAI_HTTP_MAX_REQUEST"
    using frame_le_max [OF prems(5)] prems(7) by simp
  obtain room where room: "grow_capacity alloc capacity (length request) = Some room"
    and lt: "length request < room" and le: "room \<le> FORTAI_HTTP_MAX_REQUEST"
    using grow_capacity_room [OF len prems(8-10,2)] .
  note steps = http_read_loop_steps [OF len room]
  show ?case
  proof (cases evs)
    case Nil
    with prems(6,7) show ?thesis by simp
  next
    case (Cons e rest)
    show ?thesis
    proof (cases e)
      case RecvEINTR
      have "http_read_loop alloc rest room request cl = ReadOk (take n (request @ stream rest))"
        by (rule 1(2) [OF len room Cons RecvEINTR]) (use prems lt le Cons RecvEINTR in simp_all)
      then show ?thesis using Cons RecvEINTR by (simp only: steps(2) stream_simps)
    next
      case RecvError
      with Cons prems(1) show ?thesis by simp
    next
      case (RecvData d)
      define got left where "got = take (room - length request) d"
        and "left = drop (room - length request) d"
      have d: "d = got @ left" by (simp add: got_def left_def)
      have all: "request @ stream evs = (request @ got) @ left @ stream rest"
        using Cons RecvData d by simp
      have got: "got \<noteq> []" using prems(1) Cons RecvData lt by (simp add: got_def)
      have fits: "length (request @ got) \<le> room" using lt by (simp add: got_def)
      obtain cl' o' where chk: "check_request (request @ got) cl = (cl', o')" by fastforce
      show ?thesis
      proof (cases o')
        case (Some res)
        then have "http_read_loop alloc evs capacity request cl = res"
          using Cons RecvData steps(5) [of d] got chk by (simp add: got_def del: take_eq_Nil)
        moreover have "res = ReadOk (take n (request @ stream evs))"
          using check_request_Some [of "request @ got" cl cl' res "left @ stream rest"] prems(3-5) chk Some all
          by simp
        ultimately show ?thesis by simp
      next
        case None
        define evs' where "evs' = (if left = [] then rest else RecvData left # rest)"
        have same: "(request @ got) @ stream evs' = request @ stream evs"
          using all by (simp add: evs'_def)
        have "length (request @ got) < n" and "length_known (request @ stream evs) cl'"
          using check_request_None [of "request @ got" cl cl' "left @ stream rest"] prems(3-5) chk None all
          by simp_all
        moreover have "delivers evs'" using prems(1) Cons RecvData by (simp add: evs'_def)
        moreover have "http_read_loop alloc evs capacity request cl =
            http_read_loop alloc evs' room (request @ got) cl'"
          using Cons RecvData steps(6) [of d cl cl' rest] got chk None
          by (simp add: got_def left_def evs'_def del: take_eq_Nil drop_eq_Nil)
        moreover have "http_read_loop alloc evs' room (request @ got) cl' =
            ReadOk (take n ((request @ got) @ stream evs'))"
          unfolding evs'_def
          by (rule 1(1) [OF len room Cons RecvData got_def left_def got chk [symmetric] None])
            (use calculation prems fits lt le same in \<open>simp_all only: evs'_def, simp_all\<close>)
        ultimately show ?thesis using same by metis
      qed
    qed
  qed
qed

text \<open>
  Whatever \<open>recv\<close> does, a request that is handed on fits the limit, is a prefix of what the peer
  sent and holds a whole header.
\<close>

lemma check_request_ReadOk:
  assumes "check_request request cl = (cl', Some (ReadOk r))"
  shows "length r \<le> FORTAI_HTTP_MAX_REQUEST \<and> prefix r request \<and>
         (\<exists>sep. strstr r CRLFCRLF = Some sep)"
proof -
  obtain sep where sep: "strstr request CRLFCRLF = Some sep"
    using assms by (auto simp: check_request_def split: option.splits)
  let ?n = "sep + 4 + scan_content_length request sep 0 cl"
  have r: "r = take ?n request" and n: "?n \<le> FORTAI_HTTP_MAX_REQUEST" and "?n \<le> length request"
    using assms sep by (auto simp: check_request_def Let_def split: if_splits)
  have "strstr r CRLFCRLF = Some sep"
  proof -
    have c: "sep + 4 \<le> length (cstr request)" using strstr_bound [OF sep] by simp
    have "find_sub CRLFCRLF (take (sep + 4) (cstr request)) = Some sep"
      using sep unfolding strstr_def by (rule find_sub_take) simp
    then have "strstr (take (sep + 4) request) CRLFCRLF = Some sep"
      using c by (simp add: strstr_def cstr_cut)
    moreover have "r = take (sep + 4) request @ drop (sep + 4) r"
      unfolding r by (metis append_take_drop_id le_add1 min.absorb1 take_take)
    ultimately show ?thesis using strstr_append by metis
  qed
  then show ?thesis using n r \<open>?n \<le> length request\<close> by (auto simp: take_is_prefix)
qed

lemma http_read_loop_ReadOk:
  "http_read_loop alloc evs capacity request cl = ReadOk r \<Longrightarrow>
   length r \<le> FORTAI_HTTP_MAX_REQUEST \<and> prefix r (request @ stream evs) \<and>
   (\<exists>sep. strstr r CRLFCRLF = Some sep)"
proof (induction alloc evs capacity request cl rule: http_read_loop.induct)
  case (1 alloc evs capacity request cl)
  from 1(3) obtain room where len: "length request < FORTAI_HTTP_MAX_REQUEST"
    and room: "grow_capacity alloc capacity (length request) = Some room"
    using http_read_loop_stop [of request alloc capacity evs cl] by (metis read_result.distinct(1))
  note steps = http_read_loop_steps [OF len room]
  consider "evs = []" | rest where "evs = RecvEINTR # rest" | rest where "evs = RecvError # rest"
    | d rest where "evs = RecvData d # rest" by (metis list.exhaust recv_event.exhaust)
  then show ?case
  proof cases
    case (2 rest)
    then show ?thesis using 1(2) [OF len room _ refl, of rest] 1(3) by (simp add: steps)
  next
    case (4 d rest)
    define got left where "got = take (room - length request) d"
      and "left = drop (room - length request) d"
    have all: "request @ stream evs = (request @ got) @ left @ stream rest"
      using 4 by (simp add: got_def left_def)
    have got: "got \<noteq> []" using 1(3) 4 steps(4) [of d] by (auto simp: got_def)
    obtain cl' o' where chk: "check_request (request @ got) cl = (cl', o')" by fastforce
    show ?thesis
    proof (cases o')
      case (Some res)
      then have "res = ReadOk r"
        using 1(3) 4 steps(5) [of d] got chk by (simp add: got_def del: take_eq_Nil)
      with check_request_ReadOk chk Some all show ?thesis by (metis prefix_order.trans prefixI)
    next
      case None
      have "http_read_loop alloc (if left = [] then rest else RecvData left # rest) room
              (request @ got) cl' = ReadOk r"
        using 1(3) 4 steps(6) [of d cl cl' rest] got chk None
        by (simp add: got_def left_def del: take_eq_Nil drop_eq_Nil)
      then show ?thesis
        using 1(1) [OF len room 4 refl got_def left_def got chk [symmetric] None] all
        by (cases "left = []") simp_all
    qed
  qed (use 1(3) steps in simp_all)
qed

lemma http_read_request_framed:
  assumes "delivers evs" and "\<forall>k. alloc k" and "lengths_given (stream evs)"
    and "frame (stream evs) = Some n" and "n \<le> length (stream evs)"
  shows "http_read_request alloc evs = ReadOk (take n (stream evs))"
proof -
  have "0 < n" using assms(4) by (auto simp: frame_def Let_def split: option.splits if_splits)
  then show ?thesis
    using assms http_read_loop_complete [of evs alloc "[]" 0 n 65536]
    by (simp add: http_read_request_def length_known_def FORTAI_HTTP_MAX_REQUEST_def)
qed

subsection \<open>Properties\<close>

definition sample_events :: "recv_event list" where
  "sample_events = [RecvData (''P'' @ CRLF @ ''Content-Length: 2'' @ [CR]), RecvEINTR,
     RecvData ([LF] @ CRLF @ ''okmore'')]"

lemma sample_frame: "frame (stream sample_events) = Some 26 \<and> lengths_given (stream sample_events)
  \<and> delivers sample_events \<and> length (stream sample_events) = 30"
  by (simp add: sample_events_def frame_def lengths_given_def strstr_def declared_length_def
      split_crlf.simps value_given_def is_content_length_def strncaseeq_def tolower_def char_of_def
      strtoull_def strto_digits_def strto_sign_def isspace_def isdigit_def ULLONG_MAX_def
      FORTAI_HTTP_MAX_REQUEST_def)

lemma sample_read: "http_read_request (\<lambda>_. True) sample_events = ReadOk (take 26 (stream sample_events))"
  by (rule http_read_request_framed) (use sample_frame in simp_all)

text \<open>
  Whatever \<open>recv\<close>, \<open>malloc\<close> and \<open>realloc\<close> did and whatever the header says, a request that is
  handed on fits the limit, is a prefix of what the peer sent, and holds the blank line that ends
  the header.
\<close>

lemma http_read_request_prefix:
  assumes "http_read_request alloc evs = ReadOk r"
  shows "length r \<le> FORTAI_HTTP_MAX_REQUEST \<and> prefix r (stream evs) \<and>
         (\<exists>sep. strstr r CRLFCRLF = Some sep)"
  using assms http_read_loop_ReadOk [of alloc evs 65536 "[]" 0 r]
  by (auto simp: http_read_request_def split: if_splits)

lemma http_read_request_frames:
  assumes "lengths_given (stream evs)" and "http_read_request alloc evs = ReadOk r"
  shows "\<exists>n. frame (stream evs) = Some n \<and> n \<le> length (stream evs) \<and> r = take n (stream evs)"
  using assms http_read_loop_sound [of "[]" evs 0 alloc 65536 r]
  by (auto simp: http_read_request_def length_known_def split: if_splits)

text \<open>
  C1: Let the peer send a request whole, with no failing \<open>recv\<close>, let every allocation succeed, and
  let each \<open>Content-Length\<close> line of its header hold its number on the line itself. Then, however
  the network cuts the bytes into \<open>recv\<close> results (inside the header, in the separator, in the
  body, with interrupted calls in between), exactly that request is handed on: the header up to
  the blank line plus \<open>Content-Length\<close> bytes, and nothing of what follows. The third condition is
  needed: after an empty \<open>Content-Length:\<close> the reader takes the number from the bytes that happen
  to have arrived behind the line end (\<open>empty_content_length_reads_on\<close>), so that the cut does matter.
\<close>

theorem http_read_request_complete:
  assumes "delivers evs" and "\<forall>k. alloc k" and "lengths_given (stream evs)"
    and "frame (stream evs) = Some n" and "n \<le> length (stream evs)"
  shows "http_read_request alloc evs = ReadOk (take n (stream evs))"
  using assms by (rule http_read_request_framed)

theorem http_read_request_complete_witness:
  "http_read_request (\<lambda>_. True) sample_events = ReadOk (take 26 (stream sample_events))"
  by (rule http_read_request_complete) (use sample_frame in simp_all)

text \<open>
  C2: What is handed on, whatever \<open>recv\<close>, \<open>malloc\<close> and \<open>realloc\<close> did and whatever bytes the peer
  sent: never more than \<open>FORTAI_HTTP_MAX_REQUEST\<close> bytes, always a prefix of the peer's bytes with
  the blank line that ends the header in it; and, for a header whose \<open>Content-Length\<close> lines each
  hold their number, exactly the framed request, never a truncated body. (For a line without a
  number only the first part holds: the body length is then read from behind the line end,
  \<open>empty_content_length_reads_on\<close>.)
\<close>

theorem http_read_request_sound:
  assumes "http_read_request alloc evs = ReadOk r"
  shows "length r \<le> FORTAI_HTTP_MAX_REQUEST \<and> prefix r (stream evs) \<and>
         (\<exists>sep. strstr r CRLFCRLF = Some sep) \<and>
         (lengths_given (stream evs) \<longrightarrow> frame (stream evs) = Some (length r))"
proof (intro conjI impI)
  assume "lengths_given (stream evs)"
  then show "frame (stream evs) = Some (length r)"
    using http_read_request_frames [OF _ assms] by (auto simp: min_def)
qed (use http_read_request_prefix [OF assms] in blast)+

theorem http_read_request_sound_witness:
  "length (take 26 (stream sample_events)) \<le> FORTAI_HTTP_MAX_REQUEST \<and>
   prefix (take 26 (stream sample_events)) (stream sample_events) \<and>
   (\<exists>sep. strstr (take 26 (stream sample_events)) CRLFCRLF = Some sep) \<and>
   frame (stream sample_events) = Some (length (take 26 (stream sample_events)))"
  using http_read_request_sound [OF sample_read] sample_frame by blast

text \<open>
  The reader takes the number after an empty \<open>Content-Length\<close> from whatever follows the line
  end: here the body \<open>5hello\<close> itself declares a length of 5, where the contract reads 0.
\<close>

theorem empty_content_length_reads_on:
  "scan_content_length (''Content-Length:'' @ CRLFCRLF @ ''5hello'') 15 0 0 = 5 \<and>
   declared_length ''Content-Length:'' = 0"
  by (simp add: scan_content_length.simps strstr_def declared_length_def
      split_crlf.simps is_content_length_def strncaseeq_def tolower_def char_of_def
      strtoull_def strto_digits_def strto_sign_def isspace_def isdigit_def ULLONG_MAX_def)

end
