(* ===== verification/HttpHeader.thy ===== *)
theory HttpHeader
  imports HttpRequest
begin

section \<open>Header lookup and the request path\<close>

text \<open>
  Models \<open>fortai_copy_header_value\<close> and \<open>fortai_copy_request_path\<close> of
  \<open>src/server/fortai_http_server.c\<close>. A request is its \<open>request_length\<close> bytes; the terminator the
  reader stores behind them is the end of the list. Both functions return the bytes copied into
  the caller's buffer: the \<open>int\<close> the code returns is the length of that list, and what later C
  string functions see of it is its \<open>cstr\<close>.
\<close>

definition is_blank :: "char \<Rightarrow> bool" where
  "is_blank c \<longleftrightarrow> c = SP \<or> c = TAB"

definition rtrim :: "(char \<Rightarrow> bool) \<Rightarrow> bytes \<Rightarrow> bytes" where
  "rtrim P s = rev (dropWhile P (rev s))"

definition copy_field :: "nat \<Rightarrow> bytes \<Rightarrow> bytes" where
  "copy_field capacity field =
     (let v = rtrim is_blank (dropWhile is_blank field);
          copied = take (if length v \<ge> capacity then capacity - 1 else length v) v
      in if CR \<in> set copied \<or> LF \<in> set copied then [] else copied)"

definition line_end_at :: "bytes \<Rightarrow> nat \<Rightarrow> nat" where
  "line_end_at request cursor =
     (case strstr (drop cursor request) CRLF of None \<Rightarrow> length request | Some k \<Rightarrow> cursor + k)"

definition names_header :: "bytes \<Rightarrow> bytes \<Rightarrow> nat \<Rightarrow> bool" where
  "names_header request name cursor \<longleftrightarrow>
     line_end_at request cursor - cursor > length name \<and>
     strncaseeq (length name) (drop cursor request) name \<and>
     request ! (cursor + length name) = CHR '':''"

function copy_header_scan :: "bytes \<Rightarrow> bytes \<Rightarrow> nat \<Rightarrow> nat \<Rightarrow> bytes" where
  "copy_header_scan request name capacity cursor =
     (if cursor < length request then
        (if names_header request name cursor
         then copy_field capacity
                (take (line_end_at request cursor - (cursor + length name + 1))
                   (drop (cursor + length name + 1) request))
         else if line_end_at request cursor = length request then []
         else copy_header_scan request name capacity (line_end_at request cursor + 2))
      else [])"
  by pat_completeness auto
termination
  by (relation "measure (\<lambda>(request, name, capacity, cursor). length request - cursor)")
     (auto simp: line_end_at_def split: option.splits)

declare copy_header_scan.simps [simp del]

definition copy_header_value :: "bytes \<Rightarrow> bytes \<Rightarrow> nat \<Rightarrow> bytes" where
  "copy_header_value request name capacity = copy_header_scan request name capacity 0"

text \<open>
  The path of the request line: from behind the first space to the next one, cut at a query.
  Callers pass a buffer, so the null checks of the code are its zero capacity only.
\<close>

definition copy_request_path :: "bytes \<Rightarrow> nat \<Rightarrow> bytes" where
  "copy_request_path request capacity =
     (if capacity = 0 then []
      else case memchr request SP (length request) of
          None \<Rightarrow> []
        | Some k \<Rightarrow>
            let first = k + 1
            in (case memchr (drop first request) SP (length request - first) of
                  None \<Rightarrow> []
                | Some l \<Rightarrow>
                    if l = 0 then []
                    else let target = take l (drop first request);
                             path = (case memchr target (CHR ''?'') l of
                                       None \<Rightarrow> target | Some q \<Rightarrow> take q target)
                         in take (if length path \<ge> capacity then capacity - 1 else length path) path))"

subsection \<open>What a header lookup promises\<close>

definition header_matches :: "bytes \<Rightarrow> bytes \<Rightarrow> bool" where
  "header_matches name l \<longleftrightarrow>
     length name < length l \<and> map tolower (take (length name) l) = map tolower name \<and>
     l ! length name = CHR '':''"

definition header_lookup :: "bytes \<Rightarrow> nat \<Rightarrow> bytes list \<Rightarrow> bytes" where
  "header_lookup name capacity ls =
     (case List.find (header_matches name) ls of
        None \<Rightarrow> [] | Some l \<Rightarrow> copy_field capacity (drop (length name + 1) l))"

lemma rtrim_simps [simp]: "rtrim P [] = []" "rtrim P (s @ [c]) = (if P c then rtrim P s else s @ [c])"
  by (simp_all add: rtrim_def)

lemma rtrim_prefix: "prefix (rtrim P s) s"
  by (induction s rule: rev_induct) (auto intro: prefix_prefix)

lemma rtrim_last: "rtrim P s \<noteq> [] \<Longrightarrow> \<not> P (last (rtrim P s))"
  by (induction s rule: rev_induct) auto

lemma set_rtrim: "set (rtrim P s) \<subseteq> set s"
  using rtrim_prefix set_mono_prefix by blast

lemma rtrim_eq_Nil: "rtrim P s = [] \<longleftrightarrow> (\<forall>c\<in>set s. P c)"
  by (induction s rule: rev_induct) auto

lemma copy_field_clean: "CR \<notin> set (copy_field capacity f) \<and> LF \<notin> set (copy_field capacity f)"
  by (simp add: copy_field_def Let_def)

lemma copy_field_length: "0 < capacity \<Longrightarrow> length (copy_field capacity f) < capacity"
  by (auto simp: copy_field_def Let_def)

lemma copy_header_scan_field:
  "copy_header_scan request name capacity cursor = [] \<or>
   (\<exists>f. copy_header_scan request name capacity cursor = copy_field capacity f)"
proof (induction request name capacity cursor rule: copy_header_scan.induct)
  case (1 request name capacity cursor)
  then show ?case
    by (subst (1 2) copy_header_scan.simps) auto
qed

lemma copy_header_value_clean:
  "CR \<notin> set (copy_header_value request name capacity) \<and> LF \<notin> set (copy_header_value request name capacity)"
  using copy_header_scan_field [of request name capacity 0] copy_field_clean
  by (auto simp: copy_header_value_def)

lemma copy_header_value_length:
  "0 < capacity \<Longrightarrow> length (copy_header_value request name capacity) < capacity"
  using copy_header_scan_field [of request name capacity 0] copy_field_length
  by (auto simp: copy_header_value_def)

text \<open>Reading a request line by line is looking the name up in its lines.\<close>

lemma header_lookup_simps:
  "header_lookup name capacity [] = []"
  "header_lookup name capacity (l # ls) =
     (if header_matches name l then copy_field capacity (drop (length name + 1) l)
      else header_lookup name capacity ls)"
  by (simp_all add: header_lookup_def)

text \<open>Offsets of the code against the lines of the contract, at one cursor position.\<close>

lemma names_header_line:
  assumes "NUL \<notin> set request" and "NUL \<notin> set name"
    and "drop cursor request = l @ rest" and "line_end_at request cursor = cursor + length l"
  shows "names_header request name cursor \<longleftrightarrow> header_matches name l"
proof -
  have "cursor \<le> length request \<or> l = []" using assms(3) by (cases "cursor \<le> length request") simp_all
  then have "request ! (cursor + length name) = l ! length name" if "length name < length l"
    using that assms(3) nth_drop [of cursor request "length name"] by (auto simp: nth_append)
  moreover have "cstr (drop cursor request) = l @ rest"
    using assms(1,3) by (metis cstr_id in_set_dropD)
  ultimately show ?thesis using assms(2,4)
    by (auto simp: names_header_def header_matches_def strncaseeq_def cstr_id)
qed

lemma field_of_line:
  assumes "drop cursor request = l @ rest" and "line_end_at request cursor = cursor + length l"
  shows "take (line_end_at request cursor - (cursor + length name + 1))
           (drop (cursor + length name + 1) request) = drop (length name + 1) l"
proof -
  have "drop (cursor + length name + 1) request = drop (length name + 1) (l @ rest)"
    using assms(1) by (metis drop_drop add.assoc add.commute)
  then show ?thesis using assms(2) by simp
qed

lemma copy_header_scan_lines:
  assumes "NUL \<notin> set request" and "NUL \<notin> set name"
  shows "copy_header_scan request name capacity cursor =
           header_lookup name capacity (split_crlf (drop cursor request))"
  using assms
proof (induction request name capacity cursor rule: copy_header_scan.induct)
  case (1 request name capacity cursor)
  define d where "d = drop cursor request"
  have str: "strstr (drop cursor request) CRLF = find_sub CRLF d"
    using 1(2) by (simp add: strstr_def d_def) (metis cstr_id in_set_dropD)
  show ?case
  proof (cases "cursor < length request")
    case False
    then show ?thesis
      by (simp add: copy_header_scan.simps [of request] split_crlf.simps [of "[]"]
          header_lookup_simps header_matches_def)
  next
    case True
    show ?thesis
    proof (cases "find_sub CRLF d")
      case None
      have e: "drop cursor request = d @ []" "line_end_at request cursor = cursor + length d"
        using None str True by (simp_all add: line_end_at_def d_def)
      have "split_crlf d = [d]" using None by (simp add: split_crlf.simps [of d])
      moreover have "line_end_at request cursor = length request" using e(2) True by (simp add: d_def)
      moreover have "length d = length request - cursor" by (simp add: d_def)
      ultimately show ?thesis
        using True names_header_line [OF 1(2,3) e] field_of_line [OF e, of name]
        by (simp add: copy_header_scan.simps [of request name capacity cursor] header_lookup_simps
            d_def [symmetric])
    next
      case (Some k)
      have k: "k + 2 \<le> length d" using find_sub_bound [OF Some] by simp
      have e: "drop cursor request = take k d @ drop k d" "line_end_at request cursor = cursor + length (take k d)"
        using Some str k by (simp_all add: line_end_at_def d_def [symmetric])
      have split: "split_crlf d = take k d # split_crlf (drop (line_end_at request cursor + 2) request)"
      proof -
        have "drop (line_end_at request cursor + 2) request = drop (k + 2) d"
          using e(2) k by (simp add: d_def add.commute add.left_commute)
        with Some show ?thesis by (simp add: split_crlf.simps [of d])
      qed
      have "line_end_at request cursor \<noteq> length request" using e(2) k True by (simp add: d_def)
      then show ?thesis
        using True names_header_line [OF 1(2,3) e] field_of_line [OF e, of name] 1(1) 1(2,3) split
        by (simp add: copy_header_scan.simps [of request name capacity cursor] header_lookup_simps
            d_def [symmetric])
    qed
  qed
qed

subsection \<open>Properties\<close>

text \<open>
  Looking a header up reads the value of the first line of the request with that name, in any
  letter case, without the blanks around it; the copy fits the buffer with its terminator and
  never holds a line break, so it cannot inject a header line when it is sent back.
\<close>

theorem copy_header_value_lookup:
  assumes "NUL \<notin> set request" and "NUL \<notin> set name" and "0 < capacity"
  shows "copy_header_value request name capacity = header_lookup name capacity (split_crlf request) \<and>
    length (copy_header_value request name capacity) < capacity \<and>
    CR \<notin> set (copy_header_value request name capacity) \<and> LF \<notin> set (copy_header_value request name capacity)"
  using copy_header_scan_lines [OF assms(1,2), of capacity 0] copy_header_value_clean [of request name capacity]
    copy_header_value_length [OF assms(3), of request name] by (simp add: copy_header_value_def)

definition sample_request :: bytes where
  "sample_request = ''GET / HTTP/1.1'' @ CRLF @ ''x-api-KEY:  k '' @ CRLFCRLF @ ''Origin: o'' @ CRLF"

lemma sample_request_lines: "NUL \<notin> set sample_request \<and> split_crlf sample_request =
    [''GET / HTTP/1.1'', ''x-api-KEY:  k '', [], ''Origin: o'', []]"
  by (simp add: sample_request_def split_crlf.simps)

theorem copy_header_value_lookup_witness:
  "copy_header_value sample_request ''X-Api-Key'' 2048 = ''k''"
  using copy_header_value_lookup [of sample_request "''X-Api-Key''" 2048] sample_request_lines
  by (simp add: header_lookup_simps header_matches_def tolower_def char_of_def bit_0
      copy_field_def is_blank_def rtrim_def)

text \<open>
  The lookup does not stop at the blank line that ends the header: a line of the body is read as
  a header field, here an \<open>Origin\<close> the header does not have.
\<close>

theorem copy_header_value_reads_body:
  "strstr sample_request CRLFCRLF = Some 30 \<and>
   copy_header_value (take 34 sample_request) ''Origin'' 512 = [] \<and>
   copy_header_value sample_request ''Origin'' 512 = ''o''"
proof -
  have cut: "split_crlf (take 34 sample_request) = [''GET / HTTP/1.1'', ''x-api-KEY:  k '', [], []]"
    by (simp add: sample_request_def split_crlf.simps)
  have "NUL \<notin> set (take 34 sample_request)" using sample_request_lines by (auto dest: in_set_takeD)
  then show ?thesis
    using copy_header_scan_lines [of sample_request "''Origin''" 512 0] sample_request_lines cut
      copy_header_scan_lines [of "take 34 sample_request" "''Origin''" 512 0]
    by (simp add: copy_header_value_def header_lookup_simps header_matches_def tolower_def char_of_def bit_0
        copy_field_def is_blank_def rtrim_def) (simp add: sample_request_def strstr_def)
qed

end
