(* ===== verification/HttpAuth.thy ===== *)
theory HttpAuth
  imports HttpHeader
begin

section \<open>API keys, CORS origins and public paths\<close>

text \<open>
  Models \<open>fortai_cors_origin_allowed\<close>, \<open>fortai_key_equals\<close>, \<open>fortai_api_key_file_matches\<close>,
  \<open>fortai_authorized\<close>, \<open>fortai_safe_env\<close> and \<open>fortai_public_path\<close> of
  \<open>src/server/fortai_http_server.c\<close>. The environment is the partial function \<open>env\<close> that
  \<open>getenv\<close> computes and the file system the partial function \<open>fs\<close> from paths to file contents
  (\<open>None\<close>: \<open>fopen\<close> fails). A pointer that walks a C string is the rest of that string.

  The two comma-separated lists, of origins and of keys, are walked by the same loop with
  different comparisons; \<open>entry_scanner\<close> states what such a loop computes.
\<close>

type_synonym environment = "bytes \<Rightarrow> bytes option"
type_synonym file_system = "bytes \<Rightarrow> bytes option"

abbreviation COMMA :: char where "COMMA \<equiv> CHR '',''"

definition is_separator :: "char \<Rightarrow> bool" where
  "is_separator c \<longleftrightarrow> c = SP \<or> c = TAB \<or> c = COMMA"

definition is_key_space :: "char \<Rightarrow> bool" where
  "is_key_space c \<longleftrightarrow> c = SP \<or> c = TAB \<or> c = CR \<or> c = LF"

function cors_scan :: "bytes \<Rightarrow> bytes \<Rightarrow> bool" where
  "cors_scan cursor origin =
     (if cursor = [] then False
      else let start = dropWhile is_separator cursor;
               entry = rtrim is_blank (takeWhile (\<lambda>c. c \<noteq> COMMA) start);
               last = dropWhile (\<lambda>c. c \<noteq> COMMA) start
           in if length entry = length origin \<and> strncaseeq (length entry) start origin then True
              else cors_scan (case last of [] \<Rightarrow> [] | _ # rest \<Rightarrow> rest) origin)"
  by pat_completeness auto

function key_scan :: "bytes \<Rightarrow> bytes \<Rightarrow> bool" where
  "key_scan cursor candidate =
     (if cursor = [] then False
      else let start = dropWhile is_separator cursor;
               entry = rtrim is_key_space (takeWhile (\<lambda>c. c \<noteq> COMMA) start);
               last = dropWhile (\<lambda>c. c \<noteq> COMMA) start
           in if length entry = length candidate \<and> strneq (length entry) start candidate then True
              else key_scan (case last of [] \<Rightarrow> [] | _ # rest \<Rightarrow> rest) candidate)"
  by pat_completeness auto

lemma set_skip_entry:
  "set (case dropWhile P s of [] \<Rightarrow> [] | _ # rest \<Rightarrow> rest) \<subseteq> set s"
  by (induction s) auto

lemma skip_entry_shorter:
  assumes "cursor \<noteq> []"
  shows "length (case dropWhile (\<lambda>c. c \<noteq> COMMA) (dropWhile is_separator cursor) of
                   [] \<Rightarrow> [] | _ # rest \<Rightarrow> rest) < length cursor"
proof -
  have "length (dropWhile (\<lambda>c. c \<noteq> COMMA) (dropWhile is_separator cursor)) \<le> length cursor"
    using length_dropWhile_le le_trans by blast
  with assms show ?thesis by (auto split: list.split)
qed

termination cors_scan
  by (relation "measure (\<lambda>(cursor, origin). length cursor)") (auto simp del: length_greater_0_conv intro: skip_entry_shorter)

termination key_scan
  by (relation "measure (\<lambda>(cursor, candidate). length cursor)") (auto simp del: length_greater_0_conv intro: skip_entry_shorter)

declare cors_scan.simps [simp del] key_scan.simps [simp del]

definition cors_origin_allowed :: "bytes \<Rightarrow> bytes option \<Rightarrow> bool" where
  "cors_origin_allowed configured origin =
     (case origin of
        None \<Rightarrow> False
      | Some o' \<Rightarrow>
          if o' = [] then False
          else if configured = ''*'' then True
          else if strcaseeq configured ''localhost''
          then strstr o' ''localhost'' \<noteq> None \<or> strstr o' ''127.0.0.1'' \<noteq> None \<or>
               strstr o' ''[::1]'' \<noteq> None
          else cors_scan configured o')"

definition key_equals :: "bytes \<Rightarrow> bytes \<Rightarrow> bool" where
  "key_equals configured candidate = key_scan configured candidate"

text \<open>One \<open>fgets\<close> into a buffer of 1024 bytes: up to 1023 bytes, or up to and with a newline.\<close>

definition fgets_length :: "nat \<Rightarrow> bytes \<Rightarrow> nat" where
  "fgets_length capacity s =
     (case find_sub [LF] (take (capacity - 1) s) of
        None \<Rightarrow> min (capacity - 1) (length s) | Some k \<Rightarrow> k + 1)"

function key_file_scan :: "bytes \<Rightarrow> bytes \<Rightarrow> bool" where
  "key_file_scan contents candidate =
     (if contents = [] then False
      else let n = fgets_length 1024 contents;
               first = dropWhile isspace (cstr (take n contents))
           in if first = [] \<or> hd first = CHR ''#'' then key_file_scan (drop n contents) candidate
              else if rtrim isspace first = candidate then True
              else key_file_scan (drop n contents) candidate)"
  by pat_completeness auto
termination
  by (relation "measure (\<lambda>(contents, candidate). length contents)")
     (auto simp: fgets_length_def split: option.split)

declare key_file_scan.simps [simp del]

definition api_key_file_matches :: "file_system \<Rightarrow> bytes \<Rightarrow> bytes \<Rightarrow> bool" where
  "api_key_file_matches fs path candidate =
     (case fs path of None \<Rightarrow> False | Some contents \<Rightarrow> key_file_scan contents candidate)"

text \<open>\<open>value == NULL || value[0] == '\0'\<close>, and the chain of variables tried on it.\<close>

definition unset :: "bytes option \<Rightarrow> bool" where
  "unset v \<longleftrightarrow> v = None \<or> v = Some []"

definition safe_env :: "environment \<Rightarrow> bytes \<Rightarrow> bytes \<Rightarrow> bytes" where
  "safe_env env name fallback =
     (case env name of
        None \<Rightarrow> fallback
      | Some v \<Rightarrow> if v = [] \<or> CR \<in> set v \<or> LF \<in> set v then fallback else v)"

definition configured_key :: "environment \<Rightarrow> bytes option" where
  "configured_key env =
     (let a = env ''LLAMA_API_KEY'';
          b = (if unset a then env ''FORTAI_API_KEY'' else a)
      in if unset b then env ''LLAMACPP_API_KEY'' else b)"

definition configured_key_file :: "environment \<Rightarrow> bytes option" where
  "configured_key_file env =
     (let a = env ''FORTAI_API_KEY_FILE'';
          b = (if unset a then env ''LLAMA_ARG_API_KEY_FILE'' else a)
      in if unset b then env ''LLAMACPP_API_KEY_FILE'' else b)"

text \<open>
  The prefix without trailing slashes and with a leading one; \<open>None\<close> where the code gives up on an
  over-long prefix.
\<close>

definition normalized_prefix :: "bytes \<Rightarrow> bytes option" where
  "normalized_prefix pre =
     (if length pre \<ge> 2048 then None
      else let stripped = hd pre # rtrim (\<lambda>c. c = CHR ''/'') (tl pre)
           in if hd pre = CHR ''/'' then Some stripped
              else if length stripped + 1 \<ge> 2048 then None
              else Some (CHR ''/'' # stripped))"

text \<open>The path below the configured prefix; \<open>None\<close> is the \<open>return 0\<close> of a path outside it.\<close>

definition strip_api_prefix :: "environment \<Rightarrow> bytes \<Rightarrow> bytes option" where
  "strip_api_prefix env path =
     (case env ''FORTAI_API_PREFIX'' of
        None \<Rightarrow> Some path
      | Some pre \<Rightarrow>
          if pre = [] \<or> pre = ''/'' then Some path
          else (case normalized_prefix pre of
              None \<Rightarrow> None
            | Some p \<Rightarrow>
                if \<not> strneq (length p) path p \<or>
                   (length path \<noteq> length p \<and> path ! length p \<noteq> CHR ''/'') then None
                else Some (if drop (length p) path = [] then ''/'' else drop (length p) path)))"

definition public_paths :: "bytes list" where
  "public_paths = [''/'', ''/ui'', ''/index.html'', ''/health'', ''/v1/health'', ''/models'', ''/v1/models'']"

definition static_suffixes :: "bytes list" where
  "static_suffixes = [''.html'', ''.css'', ''.js'', ''.json'', ''.svg'', ''.png'', ''.jpg'', ''.jpeg'',
     ''.ico'', ''.woff'', ''.woff2'', ''.ttf'']"

text \<open>\<open>strrchr\<close>: the rest of the string from the last occurrence on.\<close>

definition strrchr :: "bytes \<Rightarrow> char \<Rightarrow> bytes option" where
  "strrchr s c = (if c \<in> set s then Some (c # rev (takeWhile (\<lambda>x. x \<noteq> c) (rev s))) else None)"

definition public_path :: "environment \<Rightarrow> bytes \<Rightarrow> bool" where
  "public_path env request =
     (let copied = copy_request_path request 2048
      in if copied = [] then False
         else (case strip_api_prefix env (cstr copied) of
             None \<Rightarrow> False
           | Some path \<Rightarrow>
               if path \<in> set public_paths then True
               else if \<not> strneq 4 request ''GET '' \<or> safe_env env ''FORTAI_STATIC_PATH'' [] = [] then False
               else (case strrchr path (CHR ''.'') of
                   None \<Rightarrow> False | Some dot \<Rightarrow> \<exists>e\<in>set static_suffixes. strcaseeq dot e)))"

text \<open>
  The credential of a request: the \<open>Authorization\<close> or else the \<open>X-Api-Key\<close> header, without a
  leading \<open>Bearer\<close> and blanks. \<open>None\<close> is the \<open>return 0\<close> of a missing or unusable one.
\<close>

definition credential :: "bytes \<Rightarrow> bytes option" where
  "credential request =
     (let a = copy_header_value request ''Authorization'' 2048;
          authorization = (if a = [] then copy_header_value request ''X-Api-Key'' 2048 else a)
      in if authorization = [] then None
         else let c0 = cstr authorization;
                  c1 = (if strncaseeq 7 c0 ''Bearer '' then drop 7 c0 else c0);
                  candidate = dropWhile is_blank c1
              in if candidate = [] \<or> CR \<in> set candidate \<or> LF \<in> set candidate then None
                 else Some candidate)"

definition authorized :: "environment \<Rightarrow> file_system \<Rightarrow> bytes \<Rightarrow> bool" where
  "authorized env fs request =
     (if public_path env request then True
      else let configured = configured_key env; key_file = configured_key_file env
           in if unset configured \<and> unset key_file then True
              else (case credential request of
                  None \<Rightarrow> False
                | Some candidate \<Rightarrow>
                    if \<not> unset configured \<and> key_equals (the configured) candidate then True
                    else \<not> unset key_file \<and> api_key_file_matches fs (the key_file) candidate))"

subsection \<open>A comma-separated list, as a contract\<close>

fun split_comma :: "bytes \<Rightarrow> bytes list" where
  "split_comma [] = [[]]"
| "split_comma (c # s) =
     (if c = COMMA then [] # split_comma s
      else (case split_comma s of [] \<Rightarrow> [[c]] | e # es \<Rightarrow> (c # e) # es))"

lemma split_comma_not_Nil [simp]: "split_comma s \<noteq> []"
  by (cases s) (simp_all split: list.split)

lemma split_comma_step:
  "split_comma s = (case dropWhile (\<lambda>c. c \<noteq> COMMA) s of
      [] \<Rightarrow> [takeWhile (\<lambda>c. c \<noteq> COMMA) s]
    | _ # rest \<Rightarrow> takeWhile (\<lambda>c. c \<noteq> COMMA) s # split_comma rest)"
proof (induction s)
  case Nil
  then show ?case by simp
next
  case (Cons c s)
  show ?case
  proof (cases "c = COMMA")
    case False
    then show ?thesis using Cons by (cases "dropWhile (\<lambda>c. c \<noteq> COMMA) s") (simp_all del: dropWhile_eq_Nil_conv)
  qed simp
qed

text \<open>
  A scanner is given by the loop equation it satisfies: skip separators, cut the entry at the next
  comma, trim it at the end, compare, go on behind the comma. The comparison may look at the text
  from the entry's start, as \<open>strncmp\<close> does, but only depends on the entry.
\<close>

locale entry_scanner =
  fixes scan :: "bytes \<Rightarrow> bytes \<Rightarrow> bool"
    and trailing :: "char \<Rightarrow> bool"
    and same :: "bytes \<Rightarrow> bytes \<Rightarrow> bool"
  assumes scan_Nil: "scan [] key = False"
    and scan_step: "cursor \<noteq> [] \<Longrightarrow> NUL \<notin> set cursor \<Longrightarrow> NUL \<notin> set key \<Longrightarrow>
      scan cursor key =
        (same (rtrim trailing (takeWhile (\<lambda>c. c \<noteq> COMMA) (dropWhile is_separator cursor))) key \<or>
         scan (case dropWhile (\<lambda>c. c \<noteq> COMMA) (dropWhile is_separator cursor) of
                 [] \<Rightarrow> [] | _ # rest \<Rightarrow> rest) key)"
    and trailing_blank: "is_blank c \<Longrightarrow> trailing c"
    and trailing_comma: "\<not> trailing COMMA"
    and same_empty: "key \<noteq> [] \<Longrightarrow> \<not> same [] key"
begin

definition entries :: "bytes \<Rightarrow> bytes list" where
  "entries s = map (\<lambda>e. rtrim trailing (dropWhile is_blank e)) (split_comma s)"

lemma entries_simps [simp]:
  "entries [] = [[]]"
  "entries (COMMA # s) = [] # entries s"
  "is_blank c \<Longrightarrow> entries (c # s) = entries s"
proof -
  show "entries [] = [[]]" "entries (COMMA # s) = [] # entries s" by (simp_all add: entries_def)
  show "entries (c # s) = entries s" if "is_blank c"
  proof -
    have "c \<noteq> COMMA" using that by (auto simp: is_blank_def)
    then show ?thesis using that
      by (cases "split_comma s") (simp_all add: entries_def)
  qed
qed

lemma entries_start:
  assumes "s = [] \<or> \<not> is_separator (hd s)"
  shows "entries s = rtrim trailing (takeWhile (\<lambda>c. c \<noteq> COMMA) s) #
           (case dropWhile (\<lambda>c. c \<noteq> COMMA) s of [] \<Rightarrow> [] | _ # rest \<Rightarrow> entries rest)"
proof -
  have "dropWhile is_blank (takeWhile (\<lambda>c. c \<noteq> COMMA) s) = takeWhile (\<lambda>c. c \<noteq> COMMA) s"
    using assms by (cases s) (auto simp: is_blank_def is_separator_def)
  then show ?thesis
    by (cases "dropWhile (\<lambda>c. c \<noteq> COMMA) s") (simp_all add: entries_def split_comma_step [of s] del: dropWhile_eq_Nil_conv)
qed

lemma skip_separators:
  "key \<noteq> [] \<Longrightarrow> (\<exists>e\<in>set (entries (dropWhile is_separator s)). same e key) \<longleftrightarrow>
     (\<exists>e\<in>set (entries s). same e key)"
proof (induction s)
  case Nil
  then show ?case by simp
next
  case (Cons c s)
  then show ?case
    by (cases "c = COMMA"; cases "is_blank c")
      (auto simp: is_separator_def same_empty is_blank_def)
qed

lemma scan_iff_entry:
  assumes "key \<noteq> []" and "NUL \<notin> set key"
  shows "NUL \<notin> set cursor \<Longrightarrow> scan cursor key \<longleftrightarrow> (\<exists>e\<in>set (entries cursor). same e key)"
proof (induction cursor rule: length_induct)
  case (1 cursor)
  show ?case
  proof (cases "cursor = []")
    case True
    then show ?thesis using assms(1) by (simp add: scan_Nil same_empty)
  next
    case False
    define start where "start = dropWhile is_separator cursor"
    define rest where "rest = (case dropWhile (\<lambda>c. c \<noteq> COMMA) start of [] \<Rightarrow> [] | _ # r \<Rightarrow> r)"
    have start: "start = [] \<or> \<not> is_separator (hd start)"
      unfolding start_def using hd_dropWhile by blast
    have less: "length rest < length cursor"
      unfolding rest_def start_def using False by (rule skip_entry_shorter)
    have "set rest \<subseteq> set start" unfolding rest_def by (rule set_skip_entry)
    also have "\<dots> \<subseteq> set cursor" unfolding start_def by (auto dest: set_dropWhileD)
    finally have sub: "set rest \<subseteq> set cursor" .
    have "(\<exists>e\<in>set (entries cursor). same e key) \<longleftrightarrow> (\<exists>e\<in>set (entries start). same e key)"
      unfolding start_def using skip_separators [OF assms(1), of cursor] by blast
    also have "\<dots> \<longleftrightarrow> same (rtrim trailing (takeWhile (\<lambda>c. c \<noteq> COMMA) start)) key \<or>
        (\<exists>e\<in>set (entries rest). same e key)"
    proof (cases "dropWhile (\<lambda>c. c \<noteq> COMMA) start")
      case Nil
      then show ?thesis using same_empty [OF assms(1)]
        by (simp add: entries_start [OF start] rest_def del: dropWhile_eq_Nil_conv)
    next
      case (Cons c r)
      then show ?thesis by (simp add: entries_start [OF start] rest_def)
    qed
    also have "(\<exists>e\<in>set (entries rest). same e key) \<longleftrightarrow> scan rest key"
      using 1 less sub by blast
    finally show ?thesis
      using scan_step [OF False 1(2) assms(2)] by (simp add: start_def rest_def)
  qed
qed

end

subsection \<open>The two lists of the server\<close>

lemma take_entry:
  "take (length (rtrim P (takeWhile Q s))) s = rtrim P (takeWhile Q s)"
proof -
  have "prefix (rtrim P (takeWhile Q s)) s"
    using rtrim_prefix takeWhile_is_prefix prefix_order.trans by blast
  then obtain zs where "s = rtrim P (takeWhile Q s) @ zs" by (auto simp: prefix_def)
  then show ?thesis using append_eq_conv_conj by metis
qed

lemma same_entry:
  assumes "e = rtrim P (takeWhile Q s)" and "NUL \<notin> set s" and "NUL \<notin> set key"
  shows "length e = length key \<and> strneq (length e) s key \<longleftrightarrow> e = key"
    and "length e = length key \<and> strncaseeq (length e) s key \<longleftrightarrow> map tolower e = map tolower key"
proof -
  have "take (length e) s = e" using assms(1) take_entry by simp
  moreover have "length e = length key" if "map tolower e = map tolower key"
    using that by (rule map_eq_imp_length_eq)
  ultimately show "length e = length key \<and> strneq (length e) s key \<longleftrightarrow> e = key"
    and "length e = length key \<and> strncaseeq (length e) s key \<longleftrightarrow> map tolower e = map tolower key"
    using assms(2,3) by (auto simp: strneq_def strncaseeq_def cstr_id)
qed

lemma NUL_start: "NUL \<notin> set s \<Longrightarrow> NUL \<notin> set (dropWhile P s)"
  by (auto dest: set_dropWhileD)

interpretation api_keys: entry_scanner key_scan is_key_space "(=)"
proof unfold_locales
  fix cursor key assume a: "cursor \<noteq> []" "NUL \<notin> set cursor" "NUL \<notin> set key"
  show "key_scan cursor key =
      (rtrim is_key_space (takeWhile (\<lambda>c. c \<noteq> COMMA) (dropWhile is_separator cursor)) = key \<or>
       key_scan (case dropWhile (\<lambda>c. c \<noteq> COMMA) (dropWhile is_separator cursor) of
                 [] \<Rightarrow> [] | _ # rest \<Rightarrow> rest) key)"
    using a(1) same_entry(1) [OF refl NUL_start [OF a(2)] a(3)]
    by (subst key_scan.simps) (simp add: Let_def)
qed (auto simp: key_scan.simps is_blank_def is_key_space_def)

interpretation origins: entry_scanner cors_scan is_blank "\<lambda>e key. map tolower e = map tolower key"
proof unfold_locales
  fix cursor key assume a: "cursor \<noteq> []" "NUL \<notin> set cursor" "NUL \<notin> set key"
  show "cors_scan cursor key =
      (map tolower (rtrim is_blank (takeWhile (\<lambda>c. c \<noteq> COMMA) (dropWhile is_separator cursor))) =
         map tolower key \<or>
       cors_scan (case dropWhile (\<lambda>c. c \<noteq> COMMA) (dropWhile is_separator cursor) of
                 [] \<Rightarrow> [] | _ # rest \<Rightarrow> rest) key)"
    using a(1) same_entry(2) [OF refl NUL_start [OF a(2)] a(3)]
    by (subst cors_scan.simps) (simp add: Let_def)
qed (auto simp: cors_scan.simps is_blank_def)

definition listed_keys :: "bytes \<Rightarrow> bytes list" where
  "listed_keys configured = map (\<lambda>e. rtrim is_key_space (dropWhile is_blank e)) (split_comma configured)"

definition listed_origins :: "bytes \<Rightarrow> bytes list" where
  "listed_origins configured = map (\<lambda>e. rtrim is_blank (dropWhile is_blank e)) (split_comma configured)"

lemma key_equals_listed:
  "candidate \<noteq> [] \<Longrightarrow> NUL \<notin> set candidate \<Longrightarrow> NUL \<notin> set configured \<Longrightarrow>
   key_equals configured candidate \<longleftrightarrow> candidate \<in> set (listed_keys configured)"
  using api_keys.scan_iff_entry [of candidate configured]
  by (simp add: key_equals_def listed_keys_def api_keys.entries_def)

lemma cors_scan_listed:
  "origin \<noteq> [] \<Longrightarrow> NUL \<notin> set origin \<Longrightarrow> NUL \<notin> set configured \<Longrightarrow>
   cors_scan configured origin \<longleftrightarrow> map tolower origin \<in> map tolower ` set (listed_origins configured)"
  using origins.scan_iff_entry [of origin configured]
  unfolding listed_origins_def origins.entries_def by (metis (no_types, lifting) image_iff)

subsection \<open>The key file, line by line\<close>

function split_lf :: "bytes \<Rightarrow> bytes list" where
  "split_lf s = (case find_sub [LF] s of
      None \<Rightarrow> (if s = [] then [] else [s]) | Some k \<Rightarrow> take k s # split_lf (drop (k + 1) s))"
  by pat_completeness auto
termination
  by (relation "measure length") (auto dest: find_sub_bound)

declare split_lf.simps [simp del]

definition file_keys :: "bytes \<Rightarrow> bytes list" where
  "file_keys contents = filter (\<lambda>l. l \<noteq> [] \<and> hd l \<noteq> CHR ''#'')
     (map (\<lambda>l. rtrim isspace (dropWhile isspace l)) (split_lf contents))"

lemma trimmed_line:
  assumes "NUL \<notin> set l" and that: "t = [] \<or> t = [LF]"
  shows "(let first = dropWhile isspace (cstr (l @ t)) in first \<noteq> [] \<and> hd first \<noteq> CHR ''#'' \<and> rtrim isspace first = candidate)
    \<longleftrightarrow> (let k = rtrim isspace (dropWhile isspace l) in k \<noteq> [] \<and> hd k \<noteq> CHR ''#'' \<and> k = candidate)"
proof -
  have c: "cstr (l @ t) = l @ t" using assms that by (intro cstr_id) auto
  show ?thesis
  proof (cases "\<exists>c\<in>set l. \<not> isspace c")
    case True
    then obtain c cs where d: "dropWhile isspace l = c # cs" and c': "\<not> isspace c"
      by (metis dropWhile_eq_Cons_conv dropWhile_eq_Nil_conv neq_Nil_conv)
    have r: "\<exists>ds. rtrim isspace (c # cs) = c # ds"
      using c' rtrim_prefix [of isspace "c # cs"] rtrim_eq_Nil [of isspace "c # cs"]
      by (cases "rtrim isspace (c # cs)") auto
    have "rtrim isspace (dropWhile isspace (l @ t)) = rtrim isspace (c # cs)"
      using that d True rtrim_simps(2) [of isspace "c # cs" LF] by (auto simp: dropWhile_append_stop)
    then show ?thesis
      using r d True c by (auto simp: Let_def dropWhile_append_stop)
  next
    case False
    then have "dropWhile isspace (l @ t) = []" "dropWhile isspace l = []"
      using that by auto
    then show ?thesis using c by (simp del: dropWhile_eq_Nil_conv)
  qed
qed

text \<open>One \<open>fgets\<close> is one line of the file, its newline included.\<close>

lemma file_keys_simps:
  "file_keys [] = []"
  "find_sub [LF] s = Some k \<Longrightarrow> file_keys s =
     (let l = rtrim isspace (dropWhile isspace (take k s))
      in if l \<noteq> [] \<and> hd l \<noteq> CHR ''#'' then l # file_keys (drop (k + 1) s) else file_keys (drop (k + 1) s))"
  "find_sub [LF] s = None \<Longrightarrow> file_keys s =
     (let l = rtrim isspace (dropWhile isspace s) in if l \<noteq> [] \<and> hd l \<noteq> CHR ''#'' then [l] else [])"
proof -
  show "file_keys [] = []" by (simp add: file_keys_def split_lf.simps [of "[]"])
  show "find_sub [LF] s = Some k \<Longrightarrow> file_keys s =
     (let l = rtrim isspace (dropWhile isspace (take k s))
      in if l \<noteq> [] \<and> hd l \<noteq> CHR ''#'' then l # file_keys (drop (k + 1) s) else file_keys (drop (k + 1) s))"
    by (simp add: file_keys_def split_lf.simps [of s] Let_def)
  show "find_sub [LF] s = None \<Longrightarrow> file_keys s =
     (let l = rtrim isspace (dropWhile isspace s) in if l \<noteq> [] \<and> hd l \<noteq> CHR ''#'' then [l] else [])"
    by (simp add: file_keys_def split_lf.simps [of s] Let_def)
qed

definition lines_fit :: "bytes \<Rightarrow> bool" where
  "lines_fit contents \<longleftrightarrow> (\<forall>l\<in>set (split_lf contents). length l < 1023)"

lemma key_file_step:
  assumes "s \<noteq> []" and "NUL \<notin> set s" and "lines_fit s"
  obtains l t where "take (fgets_length 1024 s) s = l @ t" and "t = [] \<or> t = [LF]" and "NUL \<notin> set l"
    and "file_keys s = (let k = rtrim isspace (dropWhile isspace l)
           in if k \<noteq> [] \<and> hd k \<noteq> CHR ''#'' then k # file_keys (drop (fgets_length 1024 s) s)
              else file_keys (drop (fgets_length 1024 s) s))"
    and "lines_fit (drop (fgets_length 1024 s) s)"
proof (cases "find_sub [LF] s")
  case None
  then have fit: "length s < 1023" using assms(1,3) by (simp add: lines_fit_def split_lf.simps [of s])
  then have n: "fgets_length 1024 s = length s" using None by (simp add: fgets_length_def)
  show thesis
    by (rule that [of s "[]"])
      (use None n assms(2) in \<open>auto simp: file_keys_simps Let_def lines_fit_def split_lf.simps [of "[]"]\<close>)
next
  case (Some k)
  have k: "k + 1 \<le> length s" using find_sub_bound [OF Some] by simp
  have "split_lf s = take k s # split_lf (drop (k + 1) s)" using Some by (simp add: split_lf.simps [of s])
  then have fit: "k < 1023" "lines_fit (drop (k + 1) s)" using assms(3) k by (simp_all add: lines_fit_def)
  have "find_sub [LF] (take 1023 s) = Some k" by (rule find_sub_take [OF Some]) (use fit in simp)
  then have n: "fgets_length 1024 s = k + 1" by (simp add: fgets_length_def)
  have "prefix [LF] (drop k s)" using Some by (rule find_sub_prefix)
  then have "take (k + 1) s = take k s @ [LF]"
    using k by (auto simp: prefix_def take_Suc_conv_app_nth nth_via_drop)
  then show thesis
    by (intro that [of "take k s" "[LF]"])
      (use n Some assms(2) fit(2) in \<open>auto simp: file_keys_simps Let_def dest: in_set_takeD\<close>)
qed

lemma key_file_scan_keys:
  "NUL \<notin> set contents \<Longrightarrow> lines_fit contents \<Longrightarrow>
   key_file_scan contents candidate \<longleftrightarrow> candidate \<in> set (file_keys contents)"
proof (induction contents candidate rule: key_file_scan.induct)
  case (1 contents candidate)
  show ?case
  proof (cases "contents = []")
    case True
    then show ?thesis by (simp add: key_file_scan.simps file_keys_simps)
  next
    case False
    define n first where "n = fgets_length 1024 contents" and "first = dropWhile isspace (cstr (take n contents))"
    obtain l t where lt: "take n contents = l @ t" "t = [] \<or> t = [LF]" "NUL \<notin> set l"
      and keys: "file_keys contents = (let k = rtrim isspace (dropWhile isspace l)
           in if k \<noteq> [] \<and> hd k \<noteq> CHR ''#'' then k # file_keys (drop n contents)
              else file_keys (drop n contents))"
      and fit: "lines_fit (drop n contents)"
      using key_file_step [OF False 1(3,4)] unfolding n_def .
    have nul: "NUL \<notin> set (drop n contents)" using 1(3) by (auto dest: in_set_dropD)
    have rest: "key_file_scan (drop n contents) candidate \<longleftrightarrow> candidate \<in> set (file_keys (drop n contents))"
      if "first = [] \<or> hd first = CHR ''#'' \<or> rtrim isspace first \<noteq> candidate"
      using 1(1) [OF False n_def first_def _ nul fit] 1(2) [OF False n_def first_def _ _ nul fit] that by blast
    have line: "(first \<noteq> [] \<and> hd first \<noteq> CHR ''#'' \<and> rtrim isspace first = candidate) \<longleftrightarrow>
        (let k = rtrim isspace (dropWhile isspace l) in k \<noteq> [] \<and> hd k \<noteq> CHR ''#'' \<and> k = candidate)"
      using trimmed_line [OF lt(3,2), of candidate] by (simp add: first_def lt(1) Let_def)
    show ?thesis
    proof (cases "first \<noteq> [] \<and> hd first \<noteq> CHR ''#'' \<and> rtrim isspace first = candidate")
      case True
      then have "key_file_scan contents candidate"
        using False by (subst key_file_scan.simps) (simp add: n_def first_def Let_def del: dropWhile_eq_Nil_conv)
      moreover have "candidate \<in> set (file_keys contents)"
        using line True by (auto simp: keys Let_def)
      ultimately show ?thesis by simp
    next
      case miss: False
      then have "key_file_scan contents candidate = key_file_scan (drop n contents) candidate"
        using False by (subst key_file_scan.simps) (auto simp: n_def first_def Let_def simp del: dropWhile_eq_Nil_conv)
      moreover have "candidate \<in> set (file_keys contents) \<longleftrightarrow> candidate \<in> set (file_keys (drop n contents))"
        using line miss by (auto simp: keys Let_def)
      ultimately show ?thesis using rest miss by blast
    qed
  qed
qed

subsection \<open>Who is let in\<close>

definition accepted_keys :: "environment \<Rightarrow> file_system \<Rightarrow> bytes list" where
  "accepted_keys env fs =
     (case configured_key env of None \<Rightarrow> [] | Some k \<Rightarrow> if k = [] then [] else listed_keys k) @
     (case configured_key_file env of None \<Rightarrow> []
      | Some f \<Rightarrow> if f = [] then [] else (case fs f of None \<Rightarrow> [] | Some contents \<Rightarrow> file_keys contents))"

definition key_protected :: "environment \<Rightarrow> bool" where
  "key_protected env \<longleftrightarrow> \<not> (unset (configured_key env) \<and> unset (configured_key_file env))"

text \<open>What the environment and the key file are assumed to be: C strings, and lines \<open>fgets\<close> reads whole.\<close>

definition keys_readable :: "environment \<Rightarrow> file_system \<Rightarrow> bool" where
  "keys_readable env fs \<longleftrightarrow>
     (case configured_key env of None \<Rightarrow> True | Some k \<Rightarrow> NUL \<notin> set k) \<and>
     (case configured_key_file env of None \<Rightarrow> True
      | Some f \<Rightarrow> (case fs f of None \<Rightarrow> True | Some contents \<Rightarrow> NUL \<notin> set contents \<and> lines_fit contents))"

lemma credential_clean:
  "credential request = Some c \<Longrightarrow> c \<noteq> [] \<and> NUL \<notin> set c \<and> CR \<notin> set c \<and> LF \<notin> set c"
  unfolding credential_def Let_def
  by (auto split: if_splits dest!: in_set_dropD set_dropWhileD simp del: dropWhile_eq_Nil_conv)

lemma unset_simps [simp]: "unset None" "unset (Some v) \<longleftrightarrow> v = []"
  by (simp_all add: unset_def)

lemma authorized_accepted:
  assumes "keys_readable env fs"
  shows "authorized env fs request \<longleftrightarrow>
    public_path env request \<or> \<not> key_protected env \<or>
    (\<exists>c. credential request = Some c \<and> c \<in> set (accepted_keys env fs))"
proof (cases "credential request")
  case None
  then show ?thesis by (simp add: authorized_def Let_def key_protected_def)
next
  case (Some c)
  have c: "c \<noteq> []" "NUL \<notin> set c" using credential_clean [OF Some] by simp_all
  have "(\<not> unset (configured_key env) \<and> key_equals (the (configured_key env)) c) \<longleftrightarrow>
      c \<in> set (case configured_key env of None \<Rightarrow> [] | Some k \<Rightarrow> if k = [] then [] else listed_keys k)"
    using assms key_equals_listed [OF c] by (auto simp: keys_readable_def split: option.splits)
  moreover have "(\<not> unset (configured_key_file env) \<and> api_key_file_matches fs (the (configured_key_file env)) c) \<longleftrightarrow>
      c \<in> set (case configured_key_file env of None \<Rightarrow> []
        | Some f \<Rightarrow> if f = [] then [] else (case fs f of None \<Rightarrow> [] | Some contents \<Rightarrow> file_keys contents))"
    using assms key_file_scan_keys
    by (auto simp: keys_readable_def api_key_file_matches_def split: option.splits)
  ultimately show ?thesis
    by (auto simp: authorized_def Some Let_def key_protected_def accepted_keys_def)
qed

text \<open>Below a prefix, a path is public only if what follows the whole prefix is.\<close>

lemma normalized_prefix_shape:
  "normalized_prefix pre = Some p \<Longrightarrow> pre \<noteq> [] \<Longrightarrow> NUL \<notin> set pre \<Longrightarrow> p \<noteq> [] \<and> hd p = CHR ''/'' \<and> NUL \<notin> set p"
  using set_rtrim [of "\<lambda>c. c = CHR ''/''" "tl pre"]
  by (cases pre) (auto simp: normalized_prefix_def Let_def split: if_splits)

definition below_prefix :: "environment \<Rightarrow> bytes \<Rightarrow> bytes \<Rightarrow> bool" where
  "below_prefix env target path \<longleftrightarrow>
     target = path \<or>
     (\<exists>pre p rest. env ''FORTAI_API_PREFIX'' = Some pre \<and> normalized_prefix pre = Some p \<and> target = p @ rest \<and>
        (if rest = [] then path = ''/'' else hd rest = CHR ''/'' \<and> path = rest))"

lemma strip_api_prefix_below:
  assumes "strip_api_prefix env target = Some path" and "NUL \<notin> set target"
    and "\<forall>pre. env ''FORTAI_API_PREFIX'' = Some pre \<longrightarrow> NUL \<notin> set pre"
  shows "below_prefix env target path"
proof (cases "\<exists>pre. env ''FORTAI_API_PREFIX'' = Some pre \<and> pre \<noteq> [] \<and> pre \<noteq> ''/''")
  case False
  then show ?thesis using assms(1)
    by (auto simp: strip_api_prefix_def below_prefix_def split: option.splits if_splits)
next
  case True
  then obtain pre where pre: "env ''FORTAI_API_PREFIX'' = Some pre" "pre \<noteq> []" "pre \<noteq> ''/''" by blast
  then obtain p where p: "normalized_prefix pre = Some p"
    using assms(1) by (auto simp: strip_api_prefix_def split: option.splits)
  have nul: "NUL \<notin> set p" using normalized_prefix_shape [OF p pre(2)] assms(3) pre(1) by blast
  have hit: "take (length p) target = p"
    and next_char: "length target = length p \<or> target ! length p = CHR ''/''"
    and path: "path = (if drop (length p) target = [] then ''/'' else drop (length p) target)"
    using assms(1,2) pre p nul
    by (auto simp: strip_api_prefix_def strneq_def cstr_id split: if_splits)
  define rest where "rest = drop (length p) target"
  have "target = p @ rest" using hit rest_def append_take_drop_id by metis
  moreover have "rest \<noteq> [] \<Longrightarrow> hd rest = CHR ''/''"
    using next_char unfolding rest_def by (auto simp: hd_drop_conv_nth)
  ultimately show ?thesis
    using pre(1) p path unfolding below_prefix_def rest_def [symmetric] by auto
qed

lemma public_path_listed:
  assumes "public_path env request"
    and "\<not> strneq 4 request ''GET '' \<or> safe_env env ''FORTAI_STATIC_PATH'' [] = []"
    and "\<forall>pre. env ''FORTAI_API_PREFIX'' = Some pre \<longrightarrow> NUL \<notin> set pre"
  shows "\<exists>path\<in>set public_paths. below_prefix env (cstr (copy_request_path request 2048)) path"
proof -
  obtain path where "strip_api_prefix env (cstr (copy_request_path request 2048)) = Some path"
    and "path \<in> set public_paths"
    using assms(1,2) by (auto simp: public_path_def Let_def split: if_splits option.splits)
  moreover have "NUL \<notin> set (cstr (copy_request_path request 2048))" by simp
  ultimately show ?thesis using strip_api_prefix_below assms(3) by blast
qed

subsection \<open>Properties\<close>

definition sample_env :: environment where
  "sample_env = [''LLAMA_API_KEY'' \<mapsto> ''k1, k2'', ''FORTAI_API_KEY_FILE'' \<mapsto> ''keys'']"

definition sample_fs :: file_system where
  "sample_fs = [''keys'' \<mapsto> ''# keys'' @ [LF] @ '' k3 '' @ [LF]]"

definition sample_post :: bytes where
  "sample_post = ''POST /p HTTP/1.1'' @ CRLF @ ''authorization: Bearer k3'' @ CRLFCRLF"

text \<open>
  C3: With an API key or key file configured, a request is let in exactly when its path is public or
  its credential is one of the keys of the comma-separated list or one of the lines of the file
  that are not comments. A key file that cannot be opened admits nobody.
\<close>

theorem authorized_iff:
  assumes "keys_readable env fs"
  shows "authorized env fs request \<longleftrightarrow>
    public_path env request \<or> \<not> key_protected env \<or>
    (\<exists>c. credential request = Some c \<and> c \<in> set (accepted_keys env fs))"
  using assms by (rule authorized_accepted)

lemma sample_readable: "keys_readable sample_env sample_fs"
  by (simp add: keys_readable_def sample_env_def sample_fs_def configured_key_def configured_key_file_def
      lines_fit_def split_lf.simps Let_def)

lemma sample_lines: "NUL \<notin> set sample_post \<and>
    split_crlf sample_post = [''POST /p HTTP/1.1'', ''authorization: Bearer k3'', [], []]"
  by (simp add: sample_post_def split_crlf.simps)

lemma sample_path: "copy_request_path sample_post 2048 = ''/p''"
  by (simp add: sample_post_def copy_request_path_def memchr_def)

lemma sample_not_public: "\<not> public_path sample_env sample_post"
proof -
  have "\<not> strneq 4 sample_post ''GET ''" by (simp add: sample_post_def strneq_def)
  then show ?thesis
    by (simp add: public_path_def sample_path strip_api_prefix_def sample_env_def public_paths_def)
qed

lemma sample_credential: "credential sample_post = Some ''k3''"
proof -
  have "copy_header_value sample_post ''Authorization'' 2048 = ''Bearer k3''"
    using copy_header_scan_lines [of sample_post "''Authorization''" 2048 0] sample_lines
    by (simp add: copy_header_value_def header_lookup_simps header_matches_def tolower_def char_of_def bit_0
        copy_field_def is_blank_def rtrim_def)
  then show ?thesis by (simp add: credential_def strncaseeq_def tolower_def char_of_def bit_0 is_blank_def)
qed

lemma sample_keys: "accepted_keys sample_env sample_fs = [''k1'', ''k2'', ''k3''] \<and> key_protected sample_env"
  by (simp add: accepted_keys_def key_protected_def sample_env_def sample_fs_def configured_key_def
      configured_key_file_def listed_keys_def file_keys_def split_lf.simps Let_def is_key_space_def
      is_blank_def rtrim_def isspace_def)

theorem authorized_iff_witness:
  "authorized sample_env sample_fs sample_post \<longleftrightarrow> True"
  using authorized_iff [OF sample_readable, of sample_post] sample_credential sample_not_public sample_keys
  by simp

text \<open>
  No request but a \<open>GET\<close> for a static asset gets round the key except on one of the seven
  public paths, taken below the whole configured prefix: \<open>/api\<close> as a prefix does not open
  \<open>/apihealth\<close>.
\<close>

theorem public_path_only_listed:
  assumes "public_path env request"
    and "\<not> strneq 4 request ''GET '' \<or> safe_env env ''FORTAI_STATIC_PATH'' [] = []"
    and "\<forall>pre. env ''FORTAI_API_PREFIX'' = Some pre \<longrightarrow> NUL \<notin> set pre"
  shows "\<exists>path\<in>set public_paths. below_prefix env (cstr (copy_request_path request 2048)) path"
  using assms by (rule public_path_listed)

definition sample_prefix :: environment where
  "sample_prefix = [''FORTAI_API_PREFIX'' \<mapsto> ''api/'']"

lemma sample_prefix_public: "public_path sample_prefix ''GET /api/health?x HTTP/1.1'' \<and>
    copy_request_path ''GET /api/health?x HTTP/1.1'' 2048 = ''/api/health''"
proof -
  have path: "copy_request_path ''GET /api/health?x HTTP/1.1'' 2048 = ''/api/health''"
    by (simp add: copy_request_path_def memchr_def)
  have "strip_api_prefix sample_prefix ''/api/health'' = Some ''/health''"
    by (simp add: strip_api_prefix_def sample_prefix_def normalized_prefix_def rtrim_def strneq_def)
  then show ?thesis by (simp add: public_path_def path public_paths_def)
qed

theorem public_path_only_listed_witness:
  "\<exists>path\<in>set public_paths. below_prefix sample_prefix
     (cstr (copy_request_path ''GET /api/health?x HTTP/1.1'' 2048)) path"
  by (rule public_path_only_listed [OF conjunct1 [OF sample_prefix_public]])
    (simp_all add: sample_prefix_def safe_env_def)

text \<open>
  For a list of origins, an origin is reflected exactly when it equals one of the trimmed
  entries up to letter case.
\<close>

theorem cors_origin_listed:
  assumes "origin \<noteq> []" and "NUL \<notin> set origin" and "NUL \<notin> set configured"
    and "configured \<noteq> ''*''" and "\<not> strcaseeq configured ''localhost''"
  shows "cors_origin_allowed configured (Some origin) \<longleftrightarrow>
    map tolower origin \<in> map tolower ` set (listed_origins configured)"
  using assms by (simp add: cors_origin_allowed_def cors_scan_listed)

theorem cors_origin_listed_witness:
  "cors_origin_allowed ''http://a , http://B'' (Some ''HTTP://b'')"
proof -
  have "listed_origins ''http://a , http://B'' = [''http://a'', ''http://B'']"
    by (simp add: listed_origins_def is_blank_def rtrim_def)
  moreover have "map tolower ''HTTP://b'' = map tolower ''http://B''" by code_simp
  moreover have "\<not> strcaseeq ''http://a , http://B'' ''localhost''" by code_simp
  ultimately show ?thesis
    using cors_origin_listed [of "''HTTP://b''" "''http://a , http://B''"] by simp
qed

text \<open>
  With \<open>FORTAI_CORS_ORIGINS=localhost\<close> the test is a substring search, so a foreign origin
  whose name merely contains the word is allowed.
\<close>

theorem cors_localhost_substring:
  "cors_origin_allowed ''localhost'' (Some ''https://localhost.evil.example'')"
  by (simp add: cors_origin_allowed_def strcaseeq_def strstr_def)

end
