(* ===== verification/HttpResponse.thy ===== *)
theory HttpResponse
  imports HttpAuth
begin

section \<open>Sending a response\<close>

text \<open>
  Models \<open>fortai_send_all\<close>, \<open>fortai_http_reason\<close> and \<open>fortai_http_status\<close> of
  \<open>src/server/fortai_http_server.c\<close>. What successive \<open>send\<close> calls do is a list of events: a call
  accepts at most the given number of bytes, is interrupted, or fails; on the empty list it blocks.
  The lemmas relate the header block to the framing contract of the request reader, which is the
  framing of every HTTP message.
\<close>

datatype send_event = Sent nat | SendEINTR | SendError

datatype send_result = SendOk | SendFail | SendBlocked

text \<open>The result, the bytes the peer gets, and the events left for later calls.\<close>

fun send_all :: "send_event list \<Rightarrow> bytes \<Rightarrow> send_result \<times> bytes \<times> send_event list" where
  "send_all evs [] = (SendOk, [], evs)"
| "send_all [] (b # bs) = (SendBlocked, [], [])"
| "send_all (SendEINTR # evs) (b # bs) = send_all evs (b # bs)"
| "send_all (SendError # evs) (b # bs) = (SendFail, [], evs)"
| "send_all (Sent n # evs) (b # bs) =
     (if n = 0 then (SendFail, [], evs)
      else let (result, delivered, rest) = send_all evs (drop n (b # bs))
           in (result, take n (b # bs) @ delivered, rest))"

definition http_reason :: "int \<Rightarrow> bytes" where
  "http_reason status =
     (if status = 200 then ''OK''
      else if status = 204 then ''No Content''
      else if status = 401 then ''Unauthorized''
      else if status = 400 then ''Bad Request''
      else if status = 404 then ''Not Found''
      else if status = 500 then ''Internal Server Error''
      else ''FortAI Response'')"

text \<open>The conversions \<open>%zu\<close> and \<open>%d\<close> of \<open>snprintf\<close>.\<close>

fun print_nat :: "nat \<Rightarrow> bytes" where
  "print_nat n = (if n < 10 then [char_of (48 + n)] else print_nat (n div 10) @ [char_of (48 + n mod 10)])"

declare print_nat.simps [simp del]

definition print_int :: "int \<Rightarrow> bytes" where
  "print_int i = (if i < 0 then CHR ''-'' # print_nat (nat (- i)) else print_nat (nat i))"

definition credentials_allowed :: "environment \<Rightarrow> bool" where
  "credentials_allowed env =
     (let v = safe_env env ''FORTAI_CORS_CREDENTIALS'' ''true''
      in \<not> strcaseeq v ''0'' \<and> \<not> strcaseeq v ''false'' \<and> \<not> strcaseeq v ''off'')"

definition allow_origin :: "environment \<Rightarrow> bytes \<Rightarrow> bytes" where
  "allow_origin env origin =
     (let configured = safe_env env ''FORTAI_CORS_ORIGINS'' ''*''
      in take 511 (if credentials_allowed env \<and> cors_origin_allowed configured (Some origin)
                   then origin else configured))"

text \<open>The lines of the format string, and the text it produces.\<close>

definition response_lines :: "environment \<Rightarrow> int \<Rightarrow> bytes \<Rightarrow> nat \<Rightarrow> bytes \<Rightarrow> bytes list" where
  "response_lines env status mime len origin =
     [''HTTP/1.1 '' @ print_int status @ '' '' @ http_reason status,
      ''Content-Type: '' @ mime,
      ''Content-Length: '' @ print_nat len,
      ''Connection: close'',
      ''X-FortAI-Backend: fortai'',
      ''Access-Control-Allow-Origin: '' @ allow_origin env origin,
      ''Access-Control-Allow-Methods: '' @ safe_env env ''FORTAI_CORS_METHODS'' ''GET, POST, DELETE, OPTIONS'',
      ''Access-Control-Allow-Headers: '' @ safe_env env ''FORTAI_CORS_HEADERS'' ''*'',
      ''Access-Control-Allow-Credentials: '' @ (if credentials_allowed env then ''true'' else ''false'')]"

definition unlines_crlf :: "bytes list \<Rightarrow> bytes" where
  "unlines_crlf ls = concat (map (\<lambda>l. l @ CRLF) ls)"

definition http_header :: "environment \<Rightarrow> int \<Rightarrow> bytes \<Rightarrow> nat \<Rightarrow> bytes \<Rightarrow> bytes" where
  "http_header env status mime len origin =
     unlines_crlf (response_lines env status mime len origin) @
     (if origin \<noteq> [] then ''Vary: Origin'' else []) @ CRLF"

definition http_status ::
    "environment \<Rightarrow> send_event list \<Rightarrow> int \<Rightarrow> bytes \<Rightarrow> bytes \<Rightarrow> bytes \<Rightarrow> send_result \<times> bytes \<times> send_event list" where
  "http_status env evs status mime body origin =
     (let header = http_header env status mime (length body) origin
      in if length header \<ge> 2048 then (SendFail, [], evs)
         else (case send_all evs header of
             (SendOk, sent, rest) \<Rightarrow>
               (case send_all rest body of (result, sent', rest') \<Rightarrow> (result, sent @ sent', rest'))
           | failed \<Rightarrow> failed))"

subsection \<open>Delivery\<close>

lemma send_all_prefix:
  "send_all evs data = (result, delivered, rest) \<Longrightarrow>
   prefix delivered data \<and> (result = SendOk \<longleftrightarrow> delivered = data)"
proof (induction evs data arbitrary: result delivered rest rule: send_all.induct)
  case (5 n evs b bs)
  show ?case
  proof (cases "n = 0")
    case True
    then show ?thesis using 5(2) by auto
  next
    case False
    obtain r d e where s: "send_all evs (drop n (b # bs)) = (r, d, e)" by (metis prod_cases3)
    have IH: "prefix d (drop n (b # bs)) \<and> (r = SendOk \<longleftrightarrow> d = drop n (b # bs))"
      using 5(1) [OF False s] .
    have r: "result = r" and d: "delivered = take n (b # bs) @ d"
      using 5(2) False s by (auto simp del: take_Cons' drop_Cons')
    have "prefix (take n (b # bs) @ d) (take n (b # bs) @ drop n (b # bs))"
      using IH by (simp only: same_prefix_prefix)
    then have "prefix delivered (b # bs)" unfolding d by (simp only: append_take_drop_id)
    moreover have "delivered = b # bs \<longleftrightarrow> d = drop n (b # bs)"
      unfolding d by (metis append_take_drop_id same_append_eq)
    ultimately show ?thesis using IH r by simp
  qed
qed auto

text \<open>
  A peer that keeps accepting: every call takes at least one byte or is interrupted, so as many
  calls as there are bytes are enough.
\<close>

definition accepts :: "send_event list \<Rightarrow> bool" where
  "accepts evs \<longleftrightarrow> (\<forall>e\<in>set evs. e \<noteq> SendError \<and> e \<noteq> Sent 0)"

fun accepted :: "send_event list \<Rightarrow> nat" where
  "accepted [] = 0"
| "accepted (Sent n # evs) = Suc (accepted evs)"
| "accepted (_ # evs) = accepted evs"

lemma send_all_complete:
  "accepts evs \<Longrightarrow> length data \<le> accepted evs \<Longrightarrow>
   \<exists>rest. send_all evs data = (SendOk, data, rest) \<and> accepts rest \<and> accepted evs \<le> accepted rest + length data"
proof (induction evs data rule: send_all.induct)
  case (5 n evs b bs)
  have n: "n \<noteq> 0" using 5(2) by (auto simp: accepts_def)
  have len: "length (drop n (b # bs)) < length (b # bs)" using n by simp
  have "accepts evs" using 5(2) by (simp add: accepts_def)
  moreover have "length (drop n (b # bs)) \<le> accepted evs" using 5(3) len by (simp del: length_drop)
  ultimately obtain rest where "send_all evs (drop n (b # bs)) = (SendOk, drop n (b # bs), rest)" "accepts rest"
    "accepted evs \<le> accepted rest + length (drop n (b # bs))"
    using 5(1) [OF n] by blast
  then show ?case using n len by (simp del: drop_Cons' take_Cons' length_drop)
qed (auto simp: accepts_def)

subsection \<open>Lines\<close>

definition plain :: "bytes \<Rightarrow> bool" where
  "plain l \<longleftrightarrow> CR \<notin> set l \<and> LF \<notin> set l \<and> NUL \<notin> set l"

lemma plain_simps [simp]:
  "plain []" "plain (c # l) \<longleftrightarrow> c \<noteq> CR \<and> c \<noteq> LF \<and> c \<noteq> NUL \<and> plain l"
  "plain (l @ m) \<longleftrightarrow> plain l \<and> plain m"
  by (auto simp: plain_def)

lemma plain_take: "plain l \<Longrightarrow> plain (take n l)"
  by (auto simp: plain_def dest: in_set_takeD)

lemma find_sub_skip:
  "c \<notin> set l \<Longrightarrow> find_sub (c # p) (l @ s) = map_option ((+) (length l)) (find_sub (c # p) s)"
  by (cases "find_sub (c # p) s"; induction l) auto

lemma unlines_crlf_simps [simp]:
  "unlines_crlf [] = []" "unlines_crlf (l # ls) = l @ CR # LF # unlines_crlf ls"
  by (simp_all add: unlines_crlf_def)

lemma split_crlf_line: "CR \<notin> set l \<Longrightarrow> split_crlf (l @ CR # LF # s) = l # split_crlf s"
  by (simp add: split_crlf.simps [of "l @ CR # LF # s"] find_sub_skip)

lemma split_crlf_last: "CR \<notin> set l \<Longrightarrow> split_crlf l = [l]"
  using find_sub_skip [of CR l "[LF]" "[]"] by (simp add: split_crlf.simps [of l])

lemma split_unlines: "\<forall>l\<in>set ls. plain l \<Longrightarrow> split_crlf (unlines_crlf ls @ s) = ls @ split_crlf s"
  by (induction ls) (auto simp: split_crlf_line plain_def)

lemma find_blank_line:
  "\<forall>l\<in>set ls. plain l \<and> l \<noteq> [] \<Longrightarrow> ls \<noteq> [] \<Longrightarrow>
   find_sub CRLFCRLF (unlines_crlf ls @ CR # LF # body) = Some (length (unlines_crlf ls) - 2)"
proof (induction ls)
  case (Cons l ls)
  have l: "CR \<notin> set l" using Cons.prems by (simp add: plain_def)
  show ?case
  proof (cases ls)
    case Nil
    then show ?thesis using l by (simp add: find_sub_skip)
  next
    case (Cons m ms)
    obtain c cs where m: "m = c # cs" and "c \<noteq> CR" using Cons.prems Cons by (cases m) auto
    then have "find_sub CRLFCRLF (CR # LF # unlines_crlf ls @ CR # LF # body) =
        map_option (\<lambda>k. k + 2) (find_sub CRLFCRLF (unlines_crlf ls @ CR # LF # body))"
      using Cons by (simp add: option.map_comp comp_def)
    then show ?thesis using l Cons Cons.prems Cons.IH m by (simp add: find_sub_skip)
  qed
qed simp

lemma no_blank_line:
  "\<forall>l\<in>set ls. plain l \<and> l \<noteq> [] \<Longrightarrow> find_sub CRLFCRLF (unlines_crlf ls) = None"
proof (induction ls)
  case (Cons l ls)
  have "CR \<notin> set l" using Cons.prems by (simp add: plain_def)
  moreover have "find_sub CRLFCRLF (CR # LF # unlines_crlf ls) = None"
  proof (cases ls)
    case (Cons m ms)
    then obtain c cs where "m = c # cs" and "c \<noteq> CR" using Cons.prems by (cases m) auto
    then show ?thesis using Cons Cons.IH Cons.prems by simp
  qed simp
  ultimately show ?case by (simp add: find_sub_skip)
qed simp

subsection \<open>Printing and reading a length\<close>

lemma of_char_digit: "k < 10 \<Longrightarrow> (of_char (char_of (48 + k) :: char) :: nat) = 48 + k"
  by (simp add: of_char_of)

lemma print_nat_digits: "c \<in> set (print_nat n) \<Longrightarrow> isdigit c"
proof (induction n rule: print_nat.induct)
  case (1 n)
  then show ?case
    by (subst (asm) (2) print_nat.simps) (auto simp: isdigit_def of_char_digit split: if_splits)
qed

lemma print_nat_not_Nil [simp]: "print_nat n \<noteq> []"
  by (subst print_nat.simps) simp

lemma decimal_append: "decimal acc (xs @ ys) = decimal (decimal acc xs) ys"
  by (induction acc xs rule: decimal.induct) simp_all

lemma decimal_print_nat: "decimal 0 (print_nat n) = n"
proof (induction n rule: print_nat.induct)
  case (1 n)
  then show ?case
    by (subst print_nat.simps) (auto simp: decimal_append of_char_digit)
qed

lemma digit_plain: "isdigit c \<Longrightarrow> c \<noteq> CR \<and> c \<noteq> LF \<and> c \<noteq> NUL \<and> c \<noteq> CHR ''-'' \<and> c \<noteq> CHR ''+''"
  by (auto simp: isdigit_def)

lemma plain_print_nat [simp]: "plain (print_nat n)"
  using print_nat_digits digit_plain by (auto simp: plain_def)

lemma plain_print_int [simp]: "plain (print_int i)"
  by (simp add: print_int_def)

lemma strtol_print_nat: "strtol (print_nat n) = (min LONG_MAX (int n), length (print_nat n))"
proof -
  obtain c cs where p: "print_nat n = c # cs" using print_nat_not_Nil by (meson list.exhaust)
  have c: "isdigit c" using print_nat_digits [of c n] p by simp
  have all: "takeWhile isdigit (c # cs) = c # cs"
    using print_nat_digits [of _ n] p by (simp add: takeWhile_eq_all_conv)
  have "strto_digits (c # cs) = (False, c # cs)"
    using digit_plain [OF c] isdigit_isspace [OF c] all by (simp add: strto_digits_def strto_sign_def)
  moreover have "cstr (c # cs) = c # cs"
    using plain_print_nat [of n] p by (intro cstr_id) (simp add: plain_def)
  moreover have "strto_sign (dropWhile isspace (c # cs)) = (False, c # cs)"
    using digit_plain [OF c] isdigit_isspace [OF c] by (simp add: strto_sign_def)
  ultimately show ?thesis
    using decimal_print_nat [of n] p by (simp add: strtol_def)
qed

lemma strtoull_print_nat:
  assumes "n \<le> ULLONG_MAX"
  shows "strtoull (SP # print_nat n) = n"
proof -
  obtain c cs where p: "print_nat n = c # cs" using print_nat_not_Nil by (meson list.exhaust)
  have c: "isdigit c" using print_nat_digits [of c n] p by simp
  have all: "takeWhile isdigit (c # cs) = c # cs"
    using print_nat_digits [of _ n] p by (simp add: takeWhile_eq_all_conv)
  have "strto_digits (SP # print_nat n) = (False, print_nat n)"
    using c digit_plain [OF c] isdigit_isspace [OF c] all
    by (simp add: strto_digits_def p strto_sign_def)
  moreover have "cstr (SP # print_nat n) = SP # print_nat n"
    using plain_print_nat [of n] by (intro cstr_id) (simp add: plain_def)
  ultimately show ?thesis using assms by (simp add: strtoull_def decimal_print_nat)
qed

subsection \<open>The header block\<close>

definition env_strings :: "environment \<Rightarrow> bool" where
  "env_strings env \<longleftrightarrow> (\<forall>name v. env name = Some v \<longrightarrow> NUL \<notin> set v)"

lemma plain_safe_env: "env_strings env \<Longrightarrow> plain d \<Longrightarrow> plain (safe_env env name d)"
  by (auto simp: safe_env_def env_strings_def plain_def split: option.split)

lemma plain_reason [simp]: "plain (http_reason status)"
  by (simp add: http_reason_def)

lemma plain_response_lines:
  assumes "env_strings env" and "plain mime" and "plain origin"
  shows "\<forall>l\<in>set (response_lines env status mime len origin). plain l \<and> l \<noteq> []"
  using assms by (simp add: response_lines_def allow_origin_def Let_def plain_take plain_safe_env)

lemma response_length:
  assumes "env_strings env" and "plain mime" and "plain origin" and "len \<le> ULLONG_MAX"
  shows "declared_from 0 (response_lines env status mime len origin) = len"
  using strtoull_print_nat [OF assms(4)]
  by (simp add: response_lines_def is_content_length_def strncaseeq_def tolower_def char_of_def bit_0)

text \<open>A response without an origin is one message of the framing the request reader uses.\<close>

lemma response_frame:
  assumes "env_strings env" and "plain mime" and "length (http_header env status mime (length body) []) + length body
      \<le> FORTAI_HTTP_MAX_REQUEST"
  shows "frame (http_header env status mime (length body) [] @ body) =
    Some (length (http_header env status mime (length body) []) + length body)"
proof -
  let ?ls = "response_lines env status mime (length body) []"
  have plain: "\<forall>l\<in>set ?ls. plain l \<and> l \<noteq> []" by (rule plain_response_lines [OF assms(1,2)]) simp
  have ne: "?ls \<noteq> []" by (simp add: response_lines_def)
  define h where "h = unlines_crlf ?ls"
  obtain ls l where snoc: "?ls = ls @ [l]" using ne by (metis rev_exhaust)
  have last: "h = unlines_crlf ls @ l @ CRLF" by (simp add: h_def snoc unlines_crlf_def)
  have nul: "NUL \<notin> set h" using plain by (auto simp: h_def unlines_crlf_def plain_def)
  have hdr: "http_header env status mime (length body) [] = h @ CRLF" by (simp add: http_header_def h_def)
  have "find_sub CRLFCRLF (h @ CRLF @ cstr body) = Some (length h - 2)"
    using find_blank_line [OF plain ne] by (simp add: h_def)
  moreover have "cstr (h @ CRLF @ body) = h @ CRLF @ cstr body" using nul by (simp add: cstr_append)
  ultimately have sep: "strstr (h @ CRLF @ body) CRLFCRLF = Some (length h - 2)" by (simp add: strstr_def)
  have cut: "take (length h - 2) (h @ CRLF @ body) = unlines_crlf ls @ l" by (simp add: last)
  have "split_crlf (unlines_crlf ls @ l) = ?ls"
  proof -
    have "\<forall>l\<in>set ls. plain l" "CR \<notin> set l" using plain snoc by (auto simp: plain_def)
    then show ?thesis by (simp add: split_unlines split_crlf_last snoc)
  qed
  moreover have "length body \<le> ULLONG_MAX"
    using assms(3) by (simp add: FORTAI_HTTP_MAX_REQUEST_def ULLONG_MAX_def)
  ultimately have "declared_length (take (length h - 2) (h @ CRLF @ body)) = length body"
    using response_length [OF assms(1,2)] cut by (simp add: declared_length_def)
  moreover have "length h - 2 + 4 + length body = length (h @ CRLF) + length body" using last by simp
  ultimately show ?thesis using assms(3) frame_at [OF sep] by (simp add: hdr)
qed

text \<open>With an origin the block has no blank line: the body follows the last header line.\<close>

lemma origin_header_unterminated:
  assumes "env_strings env" and "plain mime" and "plain origin" and "origin \<noteq> []"
  shows "strstr (http_header env status mime len origin) CRLFCRLF = None"
proof -
  let ?ls = "response_lines env status mime len origin @ [''Vary: Origin'']"
  have plain: "\<forall>l\<in>set ?ls. plain l \<and> l \<noteq> []"
    using plain_response_lines [OF assms(1-3)] by simp
  have hdr: "http_header env status mime len origin = unlines_crlf ?ls"
    using assms(4) by (simp add: http_header_def unlines_crlf_def)
  have "NUL \<notin> set (unlines_crlf ?ls)" using plain by (auto simp: unlines_crlf_def plain_def)
  then show ?thesis using no_blank_line [OF plain] by (simp add: strstr_def hdr cstr_id)
qed

lemma header_split:
  assumes "env_strings env" and "plain mime" and "plain origin"
  shows "split_crlf (http_header env status mime len origin) =
    response_lines env status mime len origin @ (if origin = [] then [[], []] else [''Vary: Origin'', []])"
proof -
  have "\<forall>l\<in>set (response_lines env status mime len origin). plain l"
    using plain_response_lines [OF assms] by simp
  then have "split_crlf (http_header env status mime len origin) =
      response_lines env status mime len origin @
      split_crlf ((if origin \<noteq> [] then ''Vary: Origin'' else []) @ CRLF)"
    unfolding http_header_def by (rule split_unlines)
  moreover have "split_crlf CRLF = [[], []]" by (simp add: split_crlf.simps)
  moreover have "split_crlf (''Vary: Origin'' @ CRLF) = [''Vary: Origin'', []]" by (simp add: split_crlf.simps)
  ultimately show ?thesis by simp
qed

text \<open>What a whole response comes to: nothing, or the start of header and body.\<close>

lemma http_status_prefix:
  assumes "http_status env evs status mime body origin = (result, sent, rest)"
  shows "prefix sent (http_header env status mime (length body) origin @ body) \<and>
    (result = SendOk \<longleftrightarrow> sent = http_header env status mime (length body) origin @ body)"
proof (cases "length (http_header env status mime (length body) origin) \<ge> 2048")
  case True
  then have "http_header env status mime (length body) origin \<noteq> []" by auto
  then show ?thesis using assms True by (auto simp: http_status_def Let_def)
next
  case False
  let ?h = "http_header env status mime (length body) origin"
  have ne: "?h \<noteq> []" by (simp add: http_header_def)
  obtain r s e where h: "send_all evs ?h = (r, s, e)" by (metis prod_cases3)
  obtain r' s' e' where b: "send_all e body = (r', s', e')" by (metis prod_cases3)
  have H: "prefix s ?h \<and> (r = SendOk \<longleftrightarrow> s = ?h)" and B: "prefix s' body \<and> (r' = SendOk \<longleftrightarrow> s' = body)"
    using send_all_prefix [OF h] send_all_prefix [OF b] by simp_all
  show ?thesis
  proof (cases "r = SendOk")
    case True
    then have "result = r'" "sent = s @ s'" using assms False h b by (simp_all add: http_status_def Let_def)
    then show ?thesis using H B True by simp
  next
    case bad: False
    then have "result = r" "sent = s" using assms False h by (cases r; simp add: http_status_def Let_def)+
    moreover have "s \<noteq> ?h @ body"
      using H bad prefix_length_le [of s ?h] by (cases "body = []") auto
    ultimately show ?thesis using H bad by auto
  qed
qed

lemma http_status_complete:
  assumes "accepts evs" and "length (http_header env status mime (length body) origin) < 2048"
    and "length (http_header env status mime (length body) origin) + length body \<le> accepted evs"
  shows "\<exists>rest. http_status env evs status mime body origin =
    (SendOk, http_header env status mime (length body) origin @ body, rest)"
proof -
  let ?h = "http_header env status mime (length body) origin"
  obtain e where "send_all evs ?h = (SendOk, ?h, e)" "accepts e" "accepted evs \<le> accepted e + length ?h"
    using send_all_complete [OF assms(1), of ?h] assms(3) by auto
  moreover obtain e' where "send_all e body = (SendOk, body, e')"
    using send_all_complete [OF calculation(2), of body] calculation(3) assms(3) by auto
  ultimately show ?thesis using assms(2) by (simp add: http_status_def Let_def)
qed

subsection \<open>Properties\<close>

text \<open>
  C12: A response is sent whole or reported as failed, whatever \<open>send\<close> does: the peer gets a prefix
  of header and body, and success is reported exactly when it got all of them. A header that does
  not fit its buffer sends nothing.
\<close>

theorem http_status_all_or_error:
  assumes "http_status env evs status mime body origin = (result, sent, rest)"
  shows "prefix sent (http_header env status mime (length body) origin @ body) \<and>
    (result = SendOk \<longleftrightarrow> sent = http_header env status mime (length body) origin @ body)"
  using assms by (rule http_status_prefix)

definition no_env :: environment where "no_env = (\<lambda>_. None)"
definition sample_body :: bytes where "sample_body = ''ok''"

lemma sample_header:
  "length (http_header no_env 200 ''text/plain'' (length sample_body) []) \<le> 400"
proof -
  have "length (print_nat (length sample_body)) = 1" "length (print_nat 200) = 3"
    by (simp_all add: print_nat.simps sample_body_def)
  then show ?thesis
    by (simp add: http_header_def response_lines_def no_env_def safe_env_def http_reason_def print_int_def
        allow_origin_def cors_origin_allowed_def Let_def)
qed

lemma accepted_replicate: "0 < k \<Longrightarrow> accepts (replicate n (Sent k)) \<and> accepted (replicate n (Sent k)) = n"
  by (induction n) (auto simp: accepts_def)

theorem http_status_all_or_error_witness:
  "\<exists>rest. http_status no_env (replicate 500 (Sent 3)) 200 ''text/plain'' sample_body [] =
     (SendOk, http_header no_env 200 ''text/plain'' (length sample_body) [] @ sample_body, rest) \<and>
   prefix (http_header no_env 200 ''text/plain'' (length sample_body) [] @ sample_body)
     (http_header no_env 200 ''text/plain'' (length sample_body) [] @ sample_body)"
proof -
  have "length sample_body = 2" by (simp add: sample_body_def)
  then obtain rest where ok: "http_status no_env (replicate 500 (Sent 3)) 200 ''text/plain'' sample_body [] =
     (SendOk, http_header no_env 200 ''text/plain'' (length sample_body) [] @ sample_body, rest)"
    using http_status_complete [of "replicate 500 (Sent 3)" no_env 200 "''text/plain''" sample_body "[]"]
      accepted_replicate [of 3 500] sample_header by fastforce
  with http_status_all_or_error [OF ok] show ?thesis by blast
qed

text \<open>
  The response header cannot be injected into: for every environment, origin and content type
  without line breaks it has the nine lines of the format, and \<open>Vary\<close> for a request with an
  origin, in this order and no other line.
\<close>

theorem response_header_lines:
  assumes "env_strings env" and "plain mime" and "plain origin"
  shows "split_crlf (http_header env status mime len origin) =
    response_lines env status mime len origin @ (if origin = [] then [[], []] else [''Vary: Origin'', []])"
  using assms by (rule header_split)

theorem response_header_lines_witness:
  "split_crlf (http_header no_env 200 ''text/plain'' 2 ''http://a'') =
    response_lines no_env 200 ''text/plain'' 2 ''http://a'' @ [''Vary: Origin'', []]"
  using response_header_lines [of no_env "''text/plain''" "''http://a''"] by (simp add: env_strings_def no_env_def)

text \<open>
  A response to a request without an \<open>Origin\<close> is framed by its own header: a reader that uses
  the blank line and \<open>Content-Length\<close>, as the server's request reader does, finds exactly header
  and body, for every body.
\<close>

theorem response_self_framing:
  assumes "env_strings env" and "plain mime" and "length (http_header env status mime (length body) []) + length body
      \<le> FORTAI_HTTP_MAX_REQUEST"
  shows "frame (http_header env status mime (length body) [] @ body) =
    Some (length (http_header env status mime (length body) []) + length body)"
  using assms by (rule response_frame)

theorem response_self_framing_witness:
  "frame (http_header no_env 200 ''text/plain'' (length sample_body) [] @ sample_body) =
     Some (length (http_header no_env 200 ''text/plain'' (length sample_body) []) + length sample_body)"
proof (rule response_self_framing)
  have "length sample_body = 2" by (simp add: sample_body_def)
  then show "length (http_header no_env 200 ''text/plain'' (length sample_body) []) + length sample_body
      \<le> FORTAI_HTTP_MAX_REQUEST"
    using sample_header by (simp add: FORTAI_HTTP_MAX_REQUEST_def)
qed (simp_all add: env_strings_def no_env_def)

text \<open>
  With an \<open>Origin\<close> the header block is never ended: the format writes \<open>Vary: Origin\<close> and one
  line end, without the blank line, so the body is read as further header lines.
\<close>

theorem origin_response_unterminated:
  assumes "env_strings env" and "plain mime" and "plain origin" and "origin \<noteq> []"
  shows "strstr (http_header env status mime len origin) CRLFCRLF = None"
  using assms by (rule origin_header_unterminated)

theorem origin_response_unterminated_witness:
  "strstr (http_header no_env 200 ''text/plain'' 2 ''http://a'') CRLFCRLF = None"
  by (rule origin_response_unterminated) (simp_all add: env_strings_def no_env_def)

end
