(* ===== verification/HttpDispatch.thy ===== *)
theory HttpDispatch
  imports HttpResponse
begin

section \<open>Dispatching one request\<close>

text \<open>
  Models \<open>fortai_dispatch_request\<close>, \<open>fortai_parse_worker_count\<close>, \<open>fortai_parse_parallel_slots\<close>,
  \<open>fortai_server_set_environment\<close> and \<open>fortai_server_online_cpus\<close> of
  \<open>src/server/fortai_http_server.c\<close>. The Fortran side is a parameter: \<open>native\<close> is the state
  transformer that \<open>fortai_native_http_handle\<close> computes for a request, the transport and the
  capacity of the response buffer. Its calling convention, which every reply goes through, is
  \<open>copy_result\<close> of \<open>fortai_native_http.f90\<close>; a \<open>generate\<close> function in front of it stands for the
  handlers.

  The call may be repeated, so the loop is a partial function: \<open>None\<close> is not returning.
\<close>

definition FORTAI_HTTP_INITIAL_RESPONSE :: nat where
  "FORTAI_HTTP_INITIAL_RESPONSE = 64 * 1024"

definition FORTAI_HTTP_MAX_RESPONSE :: int where
  "FORTAI_HTTP_MAX_RESPONSE = 64 * 1024 * 1024"

record fortai_transport =
  model_path :: bytes
  cuda :: int

text \<open>What a call of the native handler leaves in its result and output arguments.\<close>

record native_reply =
  code :: int
  response :: bytes
  status :: int
  content_type :: bytes

type_synonym 's native_handler = "'s \<Rightarrow> bytes \<Rightarrow> fortai_transport \<Rightarrow> nat \<Rightarrow> native_reply \<times> 's"

partial_function (option) native_loop ::
    "(nat \<Rightarrow> bool) \<Rightarrow> 's native_handler \<Rightarrow> fortai_transport \<Rightarrow> bytes \<Rightarrow> nat \<Rightarrow> 's \<Rightarrow> (native_reply option \<times> 's) option"
where
  "native_loop alloc native server request capacity s =
     (let reply = fst (native s request server capacity); s' = snd (native s request server capacity);
          required = - code reply
      in if code reply \<ge> 0 then Some (Some reply, s')
         else if required \<le> 0 \<or> required > FORTAI_HTTP_MAX_RESPONSE then Some (None, s')
         else if \<not> alloc (nat required + 1) then Some (None, s')
         else native_loop alloc native server request (nat required + 1) s')"

definition unauthorized_body :: bytes where
  "unauthorized_body = ''{'' @ [CHR 0x22] @ ''error'' @ [CHR 0x22] @ '':{'' @ [CHR 0x22] @ ''message'' @ [CHR 0x22] @
     '':'' @ [CHR 0x22] @ ''unauthorized'' @ [CHR 0x22] @ '','' @ [CHR 0x22] @ ''type'' @ [CHR 0x22] @ '':'' @
     [CHR 0x22] @ ''authentication_error'' @ [CHR 0x22] @ ''}}'' @ [LF]"

definition is_options :: "bytes \<Rightarrow> bool" where
  "is_options request \<longleftrightarrow> length request \<ge> 8 \<and> strncaseeq 8 request ''OPTIONS ''"

definition request_origin :: "bytes \<Rightarrow> bytes" where
  "request_origin request = cstr (copy_header_value request ''Origin'' 512)"

text \<open>The result with the bytes sent, the send events left, and the state of the native side.\<close>

definition dispatch_request ::
    "(nat \<Rightarrow> bool) \<Rightarrow> environment \<Rightarrow> file_system \<Rightarrow> 's native_handler \<Rightarrow> fortai_transport \<Rightarrow>
     send_event list \<Rightarrow> bytes \<Rightarrow> 's \<Rightarrow> ((send_result \<times> bytes \<times> send_event list) \<times> 's) option" where
  "dispatch_request alloc env fs native server evs request s =
     (if \<not> alloc FORTAI_HTTP_INITIAL_RESPONSE then Some ((SendFail, [], evs), s)
      else let origin = request_origin request
           in if is_options request
              then Some (http_status env evs 204 ''text/plain; charset=utf-8'' [] origin, s)
              else if \<not> authorized env fs request
              then Some (http_status env evs 401 ''application/json'' unauthorized_body origin, s)
              else (case native_loop alloc native server request FORTAI_HTTP_INITIAL_RESPONSE s of
                  None \<Rightarrow> None
                | Some (None, s') \<Rightarrow> Some ((SendFail, [], evs), s')
                | Some (Some reply, s') \<Rightarrow>
                    if code reply \<noteq> 0 then Some ((SendFail, [], evs), s')
                    else Some (http_status env evs (status reply) (cstr (content_type reply)) (response reply) origin, s')))"

text \<open>
  The reply of the Fortran side through \<open>copy_result\<close>: the whole body, or the negated size it
  needs. The content type buffer of the caller has 128 bytes.
\<close>

definition copy_result :: "bytes \<Rightarrow> bytes \<Rightarrow> int \<Rightarrow> nat \<Rightarrow> native_reply" where
  "copy_result result mime st capacity =
     (if length result \<ge> capacity \<or> length mime + 1 \<ge> 128
      then \<lparr>code = - int (max (length result + 1) (length mime + 1)), response = [], status = st, content_type = []\<rparr>
      else \<lparr>code = 0, response = result, status = st, content_type = mime\<rparr>)"

definition serve ::
    "('s \<Rightarrow> bytes \<Rightarrow> (bytes \<times> bytes \<times> int) \<times> 's) \<Rightarrow> 's native_handler" where
  "serve generate s request server capacity =
     (let ((result, mime, st), s') = generate s request in (copy_result result mime st capacity, s'))"

subsection \<open>Configuration of the transport\<close>

definition parse_count :: "bytes option \<Rightarrow> int" where
  "parse_count value =
     (case value of
        None \<Rightarrow> 1
      | Some v \<Rightarrow>
          if v = [] then 1
          else let (parsed, stop) = strtol v
               in if stop = 0 \<or> stop \<noteq> length v \<or> parsed < 1 then 1 else if parsed > 256 then 256 else parsed)"

definition parse_worker_count :: "environment \<Rightarrow> int" where
  "parse_worker_count env =
     (let value = env ''FORTAI_THREADS_HTTP''
      in parse_count (if unset value \<or> strcaseeq (the value) ''0'' then env ''FORTAI_PARALLEL'' else value))"

definition parse_parallel_slots :: "environment \<Rightarrow> int" where
  "parse_parallel_slots env = parse_count (env ''FORTAI_PARALLEL'')"

text \<open>\<open>setenv\<close> with overwriting; \<open>None\<close> is a null argument or a refused name.\<close>

definition server_set_environment :: "environment \<Rightarrow> bytes option \<Rightarrow> bytes option \<Rightarrow> environment option" where
  "server_set_environment env name value =
     (case (name, value) of
        (Some n, Some v) \<Rightarrow> if n = [] \<or> CHR ''='' \<in> set n then None else Some (env(n \<mapsto> v))
      | _ \<Rightarrow> None)"

definition server_online_cpus :: "int \<Rightarrow> int" where
  "server_online_cpus count = (if count > 0 \<and> count < 2147483647 then count else 1)"

subsection \<open>The retry loop\<close>

text \<open>
  The convention the loop relies on: a negative result asks for more room than the call was given.
\<close>

definition asks_for_more :: "'s native_handler \<Rightarrow> bool" where
  "asks_for_more native \<longleftrightarrow>
     (\<forall>s request server capacity. let reply = fst (native s request server capacity)
        in code reply < 0 \<longrightarrow> - code reply > int capacity)"

lemma native_loop_returns:
  assumes "asks_for_more native"
  shows "\<exists>r. native_loop alloc native server request capacity s = Some r"
proof (induction "nat FORTAI_HTTP_MAX_RESPONSE + 1 - capacity" arbitrary: capacity s rule: less_induct)
  case less
  obtain reply s' where n: "native s request server capacity = (reply, s')" by fastforce
  show ?case
  proof (cases "code reply \<ge> 0 \<or> - code reply > FORTAI_HTTP_MAX_RESPONSE \<or> \<not> alloc (nat (- code reply) + 1)")
    case True
    then show ?thesis using n by (subst native_loop.simps) (auto simp: Let_def)
  next
    case False
    have "int capacity < - code reply" using assms n False unfolding asks_for_more_def Let_def
      by (metis fst_conv not_le)
    then have "nat FORTAI_HTTP_MAX_RESPONSE + 1 - (nat (- code reply) + 1) < nat FORTAI_HTTP_MAX_RESPONSE + 1 - capacity"
      using False by linarith
    from less [OF this, of s'] show ?thesis
      using n False by (subst native_loop.simps) (simp add: Let_def)
  qed
qed

lemma copy_result_simps:
  "length result < capacity \<Longrightarrow> length mime < 127 \<Longrightarrow>
     copy_result result mime st capacity = \<lparr>code = 0, response = result, status = st, content_type = mime\<rparr>"
  "capacity \<le> length result \<Longrightarrow> code (copy_result result mime st capacity) =
     - int (max (length result + 1) (length mime + 1))"
  by (simp_all add: copy_result_def)

lemma serve_asks_for_more:
  assumes "\<forall>s request. length (fst (snd (fst (generate s request)))) < 127"
  shows "asks_for_more (serve generate)"
  unfolding asks_for_more_def Let_def
proof (intro allI impI)
  fix s request server capacity
  obtain result mime st s' where g: "generate s request = ((result, mime, st), s')" by (metis prod.exhaust)
  assume "code (fst (serve generate s request server capacity)) < 0"
  moreover have "length mime < 127" using assms g by (metis fst_conv snd_conv)
  ultimately show "int capacity < - code (fst (serve generate s request server capacity))"
    using g by (auto simp: serve_def copy_result_def split: if_splits)
qed

lemma parse_count_range: "1 \<le> parse_count v \<and> parse_count v \<le> 256"
  by (auto simp: parse_count_def Let_def split: option.splits prod.splits)

lemma parse_count_decimal: "parse_count (Some (print_nat n)) = max 1 (min 256 (int n))"
  by (auto simp: parse_count_def LONG_MAX_def strtol_print_nat)

lemma plain_request_origin: "plain (request_origin request)"
proof -
  have "set (request_origin request) \<subseteq> set (copy_header_value request ''Origin'' 512)"
    by (auto simp: request_origin_def cstr_def dest: set_takeWhileD)
  then show ?thesis
    using copy_header_value_clean [of request "''Origin''" 512]
    by (auto simp: plain_def) (auto simp: request_origin_def)
qed

lemma native_loop_ready:
  "native s request server capacity = (reply, s') \<Longrightarrow> code reply \<ge> 0 \<Longrightarrow>
   native_loop alloc native server request capacity s = Some (Some reply, s')"
  by (subst native_loop.simps) (simp add: Let_def)

lemma native_loop_again:
  "native s request server capacity = (reply, s') \<Longrightarrow> code reply < 0 \<Longrightarrow>
   - code reply \<le> FORTAI_HTTP_MAX_RESPONSE \<Longrightarrow> alloc (nat (- code reply) + 1) \<Longrightarrow>
   native_loop alloc native server request capacity s =
     native_loop alloc native server request (nat (- code reply) + 1) s'"
  by (subst native_loop.simps) (simp add: Let_def)

lemma serve_result:
  "generate s request = ((body, mime, st), s') \<Longrightarrow>
   serve generate s request server capacity = (copy_result body mime st capacity, s')"
  by (simp add: serve_def)

lemma dispatch_native:
  assumes "alloc FORTAI_HTTP_INITIAL_RESPONSE" and "\<not> is_options request" and "authorized env fs request"
    and "native_loop alloc native server request FORTAI_HTTP_INITIAL_RESPONSE s = Some (Some reply, s')"
    and "code reply = 0"
  shows "dispatch_request alloc env fs native server evs request s =
    Some (http_status env evs (status reply) (cstr (content_type reply)) (response reply) (request_origin request), s')"
  using assms by (simp add: dispatch_request_def Let_def)

lemma dispatch_small:
  assumes "\<forall>k. alloc k" and "\<not> is_options request" and "authorized env fs request"
    and "generate s request = ((body, mime, st), s')"
    and "length body < FORTAI_HTTP_INITIAL_RESPONSE" and "length mime < 127"
  shows "dispatch_request alloc env fs (serve generate) server evs request s =
    Some (http_status env evs st (cstr mime) body (request_origin request), s')"
proof -
  have r: "serve generate s request server FORTAI_HTTP_INITIAL_RESPONSE =
      (\<lparr>code = 0, response = body, status = st, content_type = mime\<rparr>, s')"
    using assms(4-6) by (simp add: serve_result copy_result_simps)
  have "native_loop alloc (serve generate) server request FORTAI_HTTP_INITIAL_RESPONSE s =
      Some (Some \<lparr>code = 0, response = body, status = st, content_type = mime\<rparr>, s')"
    using r by (rule native_loop_ready) simp
  from dispatch_native [OF _ assms(2,3) this] show ?thesis using assms(1) by simp
qed

lemma dispatch_large:
  assumes "\<forall>k. alloc k" and "\<not> is_options request" and "authorized env fs request"
    and "generate s request = ((body, mime, st), s1)" and "generate s1 request = ((body2, mime2, st2), s2)"
    and "FORTAI_HTTP_INITIAL_RESPONSE \<le> length body" and "int (length body) < FORTAI_HTTP_MAX_RESPONSE"
    and "length mime < 127" and "length mime2 < 127" and "length body2 \<le> length body + 1"
  shows "dispatch_request alloc env fs (serve generate) server evs request s =
    Some (http_status env evs st2 (cstr mime2) body2 (request_origin request), s2)"
proof -
  have c: "code (copy_result body mime st FORTAI_HTTP_INITIAL_RESPONSE) = - int (length body + 1)"
    using assms(6,8) by (simp add: copy_result_simps FORTAI_HTTP_INITIAL_RESPONSE_def)
  have "native_loop alloc (serve generate) server request FORTAI_HTTP_INITIAL_RESPONSE s =
      native_loop alloc (serve generate) server request
        (nat (- code (copy_result body mime st FORTAI_HTTP_INITIAL_RESPONSE)) + 1) s1"
    by (rule native_loop_again [where native = "serve generate" and s = s, OF serve_result [where generate = generate and s = s, OF assms(4)]]) (use c assms(1,7) in simp_all)
  also have "\<dots> = native_loop alloc (serve generate) server request (length body + 2) s1"
  proof -
    have "nat (- code (copy_result body mime st FORTAI_HTTP_INITIAL_RESPONSE)) + 1 = length body + 2"
      unfolding c by linarith
    then show ?thesis by (simp only:)
  qed
  also have "\<dots> = Some (Some (copy_result body2 mime2 st2 (length body + 2)), s2)"
    by (rule native_loop_ready [where native = "serve generate" and s = s1, OF serve_result [where generate = generate and s = s1, OF assms(5)]]) (use assms(9,10) in \<open>simp add: copy_result_simps\<close>)
  finally have loop: "native_loop alloc (serve generate) server request FORTAI_HTTP_INITIAL_RESPONSE s =
      Some (Some (copy_result body2 mime2 st2 (length body + 2)), s2)" .
  have r: "copy_result body2 mime2 st2 (length body + 2) =
      \<lparr>code = 0, response = body2, status = st2, content_type = mime2\<rparr>"
    using assms(9,10) by (simp add: copy_result_simps)
  show ?thesis
    using dispatch_native [OF _ assms(2,3) loop [unfolded r], of evs] assms(1) by simp
qed

subsection \<open>Properties\<close>

definition cpu_transport :: fortai_transport where
  "cpu_transport = \<lparr>model_path = ''m.gguf'', cuda = 0\<rparr>"

definition hello :: "nat \<Rightarrow> bytes \<Rightarrow> (bytes \<times> bytes \<times> int) \<times> nat" where
  "hello s request = ((''hi'', ''text/plain'', 200), s + 1)"

text \<open>
  C13: The loop that repeats the native call with a larger buffer ends: for a handler that only asks
  for more room than it was given, every request gets a result. The reply convention of the
  Fortran side is such a handler.
\<close>

theorem dispatch_returns:
  assumes "asks_for_more native"
  shows "\<exists>r. dispatch_request alloc env fs native server evs request s = Some r"
  using native_loop_returns [OF assms, of alloc server request FORTAI_HTTP_INITIAL_RESPONSE s]
  by (auto simp: dispatch_request_def Let_def split: option.split if_split simp del: split_paired_Ex)

theorem dispatch_returns_witness:
  "\<exists>r. dispatch_request (\<lambda>_. True) no_env (\<lambda>_. None) (serve hello) cpu_transport [] ''GET / HTTP/1.1'' 0 = Some r"
  by (rule dispatch_returns) (rule serve_asks_for_more, simp add: hello_def)

text \<open>
  C5: An authorized request without an \<open>Origin\<close> and other than a preflight, which the handler
  answers with a body below 64 KiB and a short plain content type, over a connection that accepts
  all of the answer, with no allocation failing: the handler runs once, and the peer receives one
  message that its own header frames exactly, ending in the whole body. The bound on the body is
  needed for the first of these: a body of 64 KiB or more does not fit the first buffer and is
  generated twice (\<open>large_response_generated_twice\<close>).
\<close>

theorem dispatch_delivers_message:
  assumes "\<forall>k. alloc k" and "\<not> is_options request" and "authorized env fs request"
    and "generate s request = ((body, mime, st), s')"
    and "length body < FORTAI_HTTP_INITIAL_RESPONSE" and "length mime < 127"
    and "request_origin request = []" and "env_strings env" and "plain mime"
    and "length (http_header env st mime (length body) []) < 2048"
    and "accepts evs" and "length (http_header env st mime (length body) []) + length body \<le> accepted evs"
  shows "\<exists>message rest. dispatch_request alloc env fs (serve generate) server evs request s =
      Some ((SendOk, message, rest), s') \<and>
    message = http_header env st mime (length body) [] @ body \<and> frame message = Some (length message)"
proof -
  have mime: "cstr mime = mime" using assms(9) by (simp add: plain_def cstr_id)
  obtain rest where "http_status env evs st mime body [] =
      (SendOk, http_header env st mime (length body) [] @ body, rest)"
    using http_status_complete [OF assms(11,10,12)] by blast
  moreover have "frame (http_header env st mime (length body) [] @ body) =
      Some (length (http_header env st mime (length body) [] @ body))"
    using response_frame [OF assms(8,9), of st body] assms(5,10)
    by (simp add: FORTAI_HTTP_MAX_REQUEST_def FORTAI_HTTP_INITIAL_RESPONSE_def)
  ultimately show ?thesis
    using dispatch_small [where generate = generate and s = s, OF assms(1-6)] mime assms(7) by simp
qed

lemma sample_get: "\<not> is_options ''GET'' \<and> request_origin ''GET'' = [] \<and> authorized no_env fs ''GET''"
proof -
  have "split_crlf ''GET'' = [''GET'']" by (rule split_crlf_last) simp
  then have "copy_header_value ''GET'' ''Origin'' 512 = []"
    using copy_header_scan_lines [of "''GET''" "''Origin''" 512 0]
    by (simp add: copy_header_value_def header_lookup_simps header_matches_def)
  then show ?thesis
    by (simp add: is_options_def request_origin_def authorized_def Let_def configured_key_def
        configured_key_file_def no_env_def)
qed

theorem dispatch_delivers_message_witness:
  "\<exists>message rest. dispatch_request (\<lambda>_. True) no_env (\<lambda>_. None) (serve (\<lambda>s r. ((sample_body, ''text/plain'', 200), Suc s)))
      cpu_transport (replicate 500 (Sent 7)) ''GET'' 0 = Some ((SendOk, message, rest), 1) \<and>
    message = http_header no_env 200 ''text/plain'' (length sample_body) [] @ sample_body \<and>
    frame message = Some (length message)"
proof -
  have "length sample_body = 2" by (simp add: sample_body_def)
  then show ?thesis
    using dispatch_delivers_message [of "\<lambda>_. True" "''GET''" no_env "\<lambda>_. None"
        "\<lambda>s r. ((sample_body, ''text/plain'', 200), Suc s)" 0 sample_body "''text/plain''" 200 1
        "replicate 500 (Sent 7)" cpu_transport] sample_get sample_header accepted_replicate [of 7 500]
    by (simp add: env_strings_def no_env_def FORTAI_HTTP_INITIAL_RESPONSE_def)
qed

text \<open>
  A response of 64 KiB or more is generated twice: the first reply is thrown away for want of
  room, and the repeated call runs the handler again from the state the first one left. The peer
  gets the second answer.
\<close>

theorem large_response_generated_twice:
  assumes "\<forall>k. alloc k" and "\<not> is_options request" and "authorized env fs request"
    and "generate s request = ((body, mime, st), s1)" and "generate s1 request = ((body2, mime2, st2), s2)"
    and "FORTAI_HTTP_INITIAL_RESPONSE \<le> length body" and "int (length body) < FORTAI_HTTP_MAX_RESPONSE"
    and "length mime < 127" and "length mime2 < 127" and "length body2 \<le> length body + 1"
  shows "dispatch_request alloc env fs (serve generate) server evs request s =
    Some (http_status env evs st2 (cstr mime2) body2 (request_origin request), s2)"
  using assms by (rule dispatch_large)

theorem large_response_generated_twice_witness:
  "dispatch_request (\<lambda>_. True) no_env (\<lambda>_. None)
      (serve (\<lambda>s r. ((replicate 70000 (CHR ''x''), ''text/plain'', s), s + 1))) cpu_transport [Sent 9] ''GET'' 0 =
    Some (http_status no_env [Sent 9] 1 ''text/plain'' (replicate 70000 (CHR ''x'')) [], 2)"
  using large_response_generated_twice [of "\<lambda>_. True" "''GET''" no_env "\<lambda>_. None"
      "\<lambda>s r. ((replicate 70000 (CHR ''x''), ''text/plain'', s), s + 1)" 0 _ _ 0 1 _ _ 1 2 cpu_transport "[Sent 9]"]
    sample_get
  by (simp only: prod.inject simp_thms length_replicate FORTAI_HTTP_INITIAL_RESPONSE_def FORTAI_HTTP_MAX_RESPONSE_def)
    simp

text \<open>
  The numbers of workers and of process slots are between 1 and 256 for every environment, and a
  plain decimal value is taken as it is within these bounds.
\<close>

theorem parse_counts_bounded:
  "1 \<le> parse_worker_count env \<and> parse_worker_count env \<le> 256 \<and>
   1 \<le> parse_parallel_slots env \<and> parse_parallel_slots env \<le> 256 \<and>
   parse_parallel_slots (env(''FORTAI_PARALLEL'' \<mapsto> print_nat n)) = max 1 (min 256 (int n))"
  by (simp add: parse_worker_count_def parse_parallel_slots_def parse_count_decimal Let_def parse_count_range)

end
