(* ===== verification/RequestQueue.thy ===== *)
theory RequestQueue
  imports Prelude
begin

section \<open>The request queue: a bounded ring\<close>

text \<open>
  Models \<open>fortai_request_queue\<close> of \<open>src/server/fortai_http_server.c\<close> and the critical sections of
  \<open>fortai_queue_push\<close> and \<open>fortai_http_worker\<close>: what each does between taking the queue mutex and
  giving it up, by \<open>pthread_mutex_unlock\<close> or inside \<open>pthread_cond_wait\<close>. The contract is a bounded
  first-in first-out queue, the locale \<open>bounded_fifo\<close>; its client lemma covers every sequence of
  operations.
\<close>

record request_queue =
  fds :: "int list"
  capacity :: nat
  head :: nat
  tail :: nat
  queued :: nat
  active :: nat
  stopping :: bool

definition queue_init :: "nat \<Rightarrow> request_queue" where
  "queue_init worker_count =
     (let cap = (if worker_count * 4 < 16 then 16 else worker_count * 4)
      in \<lparr>fds = replicate cap 0, capacity = cap, head = 0, tail = 0, queued = 0, active = 0, stopping = False\<rparr>)"

definition ring_put :: "int \<Rightarrow> request_queue \<Rightarrow> request_queue" where
  "ring_put fd q = q\<lparr>fds := (fds q)[tail q := fd], tail := (tail q + 1) mod capacity q, queued := queued q + 1\<rparr>"

definition ring_take :: "request_queue \<Rightarrow> int \<times> request_queue" where
  "ring_take q = (fds q ! head q, q\<lparr>head := (head q + 1) mod capacity q, queued := queued q - 1\<rparr>)"

datatype push_outcome = PushWait | PushRefused | PushDone request_queue

definition push_section :: "bool \<Rightarrow> int \<Rightarrow> request_queue \<Rightarrow> push_outcome" where
  "push_section stop fd q =
     (if queued q = capacity q \<and> \<not> stopping q \<and> \<not> stop then PushWait
      else if stopping q \<or> stop then PushRefused
      else PushDone (ring_put fd q))"

datatype take_outcome = TakeWait | TakeExit | Took int request_queue

definition take_section :: "request_queue \<Rightarrow> take_outcome" where
  "take_section q =
     (if queued q = 0 \<and> \<not> stopping q then TakeWait
      else if queued q = 0 \<and> stopping q then TakeExit
      else let (client, q') = ring_take q in Took client (q'\<lparr>active := active q' + 1\<rparr>))"

text \<open>The second critical section of a worker, and whether it announces a drained queue.\<close>

definition finish_section :: "request_queue \<Rightarrow> request_queue \<times> bool" where
  "finish_section q =
     (let q' = q\<lparr>active := active q - 1\<rparr> in (q', queued q' = 0 \<and> active q' = 0))"

subsection \<open>The contract\<close>

datatype 'a queue_op = Put 'a | Take

locale bounded_fifo =
  fixes invar :: "'q \<Rightarrow> bool"
    and content :: "'q \<Rightarrow> 'a list"
    and bound :: "'q \<Rightarrow> nat"
    and put :: "'a \<Rightarrow> 'q \<Rightarrow> 'q"
    and get :: "'q \<Rightarrow> 'a \<times> 'q"
  assumes content_bound: "invar q \<Longrightarrow> length (content q) \<le> bound q"
    and put_law: "invar q \<Longrightarrow> length (content q) < bound q \<Longrightarrow>
      invar (put x q) \<and> content (put x q) = content q @ [x] \<and> bound (put x q) = bound q"
    and get_law: "invar q \<Longrightarrow> content q \<noteq> [] \<Longrightarrow>
      fst (get q) = hd (content q) \<and> invar (snd (get q)) \<and> content (snd (get q)) = tl (content q) \<and>
      bound (snd (get q)) = bound q"
begin

text \<open>
  A run of operations, those refused for a full or an empty queue without effect, and the elements
  it put in and took out.
\<close>

fun run :: "'a queue_op list \<Rightarrow> 'q \<Rightarrow> 'q \<times> 'a list \<times> 'a list" where
  "run [] q = (q, [], [])"
| "run (Put x # ops) q =
     (if length (content q) < bound q
      then (case run ops (put x q) of (q', ins, outs) \<Rightarrow> (q', x # ins, outs)) else run ops q)"
| "run (Take # ops) q =
     (if content q \<noteq> []
      then (case run ops (snd (get q)) of (q', ins, outs) \<Rightarrow> (q', ins, fst (get q) # outs)) else run ops q)"

lemma run_fifo:
  "invar q \<Longrightarrow> run ops q = (q', ins, outs) \<Longrightarrow>
   content q @ ins = outs @ content q' \<and> invar q' \<and> bound q' = bound q"
proof (induction ops q arbitrary: ins outs rule: run.induct)
  case (2 x ops q)
  then show ?case using put_law by (fastforce split: if_splits prod.splits)
next
  case (3 ops q)
  then show ?case using get_law by (cases "content q") (fastforce split: if_splits prod.splits)+
qed simp

end

subsection \<open>The ring meets it\<close>

definition ring_ok :: "request_queue \<Rightarrow> bool" where
  "ring_ok q \<longleftrightarrow> 0 < capacity q \<and> length (fds q) = capacity q \<and> head q < capacity q \<and>
     queued q \<le> capacity q \<and> tail q = (head q + queued q) mod capacity q"

definition ring_content :: "request_queue \<Rightarrow> int list" where
  "ring_content q = map (\<lambda>i. fds q ! ((head q + i) mod capacity q)) [0..<queued q]"

lemma length_ring_content [simp]: "length (ring_content q) = queued q"
  by (simp add: ring_content_def)

text \<open>Slots of queued entries are distinct from the one written next.\<close>

lemma slot_free:
  assumes "i < (k::nat)" and "k < cap"
  shows "(h + i) mod cap \<noteq> (h + k) mod cap"
proof
  assume "(h + i) mod cap = (h + k) mod cap"
  then have "cap dvd (h + k) - (h + i)" using assms(1) mod_eq_dvd_iff_nat [of "h + i" "h + k" cap] by simp
  then have "cap dvd k - i" by simp
  with assms show False using dvd_imp_le [of cap "k - i"] by simp
qed

lemma ring_put_law:
  assumes "ring_ok q" and "queued q < capacity q"
  shows "ring_ok (ring_put fd q)" and "ring_content (ring_put fd q) = ring_content q @ [fd]"
proof -
  have t: "tail q = (head q + queued q) mod capacity q" "tail q < length (fds q)"
    using assms by (auto simp: ring_ok_def)
  show "ring_ok (ring_put fd q)"
    using assms by (auto simp: ring_ok_def ring_put_def mod_simps)
  have "(fds q)[tail q := fd] ! ((head q + i) mod capacity q) = fds q ! ((head q + i) mod capacity q)"
    if "i < queued q" for i
    using slot_free [OF that assms(2), of "head q"] t(1) by (simp add: nth_list_update)
  then show "ring_content (ring_put fd q) = ring_content q @ [fd]"
    using t by (simp add: ring_content_def ring_put_def)
qed

lemma ring_take_law:
  assumes "ring_ok q" and "0 < queued q"
  shows "fst (ring_take q) = hd (ring_content q)" and "ring_ok (snd (ring_take q))"
    and "ring_content (snd (ring_take q)) = tl (ring_content q)"
proof -
  obtain n where n: "queued q = Suc n" using assms(2) by (cases "queued q") auto
  have h: "head q < capacity q" using assms(1) by (simp add: ring_ok_def)
  have c: "ring_content q = fds q ! head q # map (\<lambda>i. fds q ! ((head q + Suc i) mod capacity q)) [0..<n]"
    using h by (simp add: ring_content_def n upt_conv_Cons map_Suc_upt [symmetric] comp_def del: upt_Suc map_Suc_upt)
  show "fst (ring_take q) = hd (ring_content q)" by (simp add: c ring_take_def)
  show "ring_ok (snd (ring_take q))"
    using assms n by (auto simp: ring_ok_def ring_take_def mod_simps)
  show "ring_content (snd (ring_take q)) = tl (ring_content q)"
    by (simp add: c) (simp add: ring_content_def ring_take_def n mod_simps)
qed

interpretation ring: bounded_fifo ring_ok ring_content capacity ring_put ring_take
proof unfold_locales
  fix q :: request_queue and x :: int
  show "ring_ok q \<Longrightarrow> length (ring_content q) \<le> capacity q" by (simp add: ring_ok_def)
  show "ring_ok q \<Longrightarrow> length (ring_content q) < capacity q \<Longrightarrow>
    ring_ok (ring_put x q) \<and> ring_content (ring_put x q) = ring_content q @ [x] \<and> capacity (ring_put x q) = capacity q"
    using ring_put_law by (simp add: ring_put_def)
  show "ring_ok q \<Longrightarrow> ring_content q \<noteq> [] \<Longrightarrow>
    fst (ring_take q) = hd (ring_content q) \<and> ring_ok (snd (ring_take q)) \<and>
    ring_content (snd (ring_take q)) = tl (ring_content q) \<and> capacity (snd (ring_take q)) = capacity q"
    using ring_take_law by (simp add: ring_take_def ring_content_def)
qed

lemma queue_init_ok: "ring_ok (queue_init n) \<and> ring_content (queue_init n) = [] \<and> \<not> stopping (queue_init n) \<and>
    active (queue_init n) = 0 \<and> 16 \<le> capacity (queue_init n) \<and> 4 * n \<le> capacity (queue_init n)"
  by (simp add: queue_init_def ring_ok_def ring_content_def Let_def)

subsection \<open>The critical sections\<close>

lemma push_section_cases:
  "push_section stop fd q = PushWait \<longleftrightarrow> queued q = capacity q \<and> \<not> stopping q \<and> \<not> stop"
  "push_section stop fd q = PushRefused \<longleftrightarrow> stopping q \<or> stop"
  "push_section stop fd q = PushDone q' \<longleftrightarrow>
     queued q \<noteq> capacity q \<and> \<not> stopping q \<and> \<not> stop \<and> q' = ring_put fd q"
  by (auto simp: push_section_def)

lemma take_section_cases:
  "take_section q = TakeWait \<longleftrightarrow> queued q = 0 \<and> \<not> stopping q"
  "take_section q = TakeExit \<longleftrightarrow> queued q = 0 \<and> stopping q"
  "take_section q = Took fd q' \<longleftrightarrow>
     queued q \<noteq> 0 \<and> fd = fst (ring_take q) \<and> q' = (snd (ring_take q))\<lparr>active := active q + 1\<rparr>"
  by (auto simp: take_section_def ring_take_def)

lemma put_fields [simp]:
  "stopping (ring_put fd q) = stopping q" "active (ring_put fd q) = active q" "capacity (ring_put fd q) = capacity q"
  "queued (ring_put fd q) = Suc (queued q)"
  by (simp_all add: ring_put_def)

lemma take_fields [simp]:
  "stopping (snd (ring_take q)) = stopping q" "active (snd (ring_take q)) = active q"
  "capacity (snd (ring_take q)) = capacity q" "queued (snd (ring_take q)) = queued q - 1"
  by (simp_all add: ring_take_def)

lemma update_ring [simp]:
  "ring_ok (q\<lparr>active := n\<rparr>) = ring_ok q" "ring_content (q\<lparr>active := n\<rparr>) = ring_content q"
  "ring_ok (q\<lparr>stopping := b\<rparr>) = ring_ok q" "ring_content (q\<lparr>stopping := b\<rparr>) = ring_content q"
  by (simp_all add: ring_ok_def ring_content_def)

end
