(* ===== verification/WorkerPool.thy ===== *)
theory WorkerPool
  imports RequestQueue "HOL-Library.Multiset"
begin

section \<open>Workers, the accept loop and shutdown\<close>

text \<open>
  Models the threads of \<open>fortai_http_transport_run\<close> of \<open>src/server/fortai_http_server.c\<close> once they
  run: the accept loop with \<open>fortai_queue_push\<close>, the workers (\<open>fortai_http_worker\<close> with
  \<open>fortai_close_client\<close>), the dispatch mutex, the signal handler and the shutdown. A step is what
  one thread does between two points where another can interfere: a critical section of the queue
  mutex (\<open>RequestQueue\<close>), a call that blocks, or the dispatch under its mutex.

  \<open>pthread_cond_signal\<close> wakes one waiter if there is one; a waiter may also wake by itself. A woken
  thread locks the mutex again and rechecks its loop condition, which is where it came from. The
  ghost fields record the clients in the order in which things happened to them. A read and a
  dispatch are assumed to return; how they end is the subject of \<open>HttpRequest\<close> and
  \<open>HttpDispatch\<close>.
\<close>

datatype worker =
    WLoop | WWait | WRead int | WLock int | WDispatch int | WClose int | WDone | WExit

datatype acceptor =
    ACheck | AAccept | AHave int | ASpace int | AClose | AStop | AJoin | AEnd

record pool =
  queue :: request_queue
  workers :: "worker list"
  acceptor :: acceptor
  stop :: bool
  owner :: "nat option"
  accepted_clients :: "int list"
  pushed :: "int list"
  taken :: "int list"
  served :: "int list"
  refused :: "int list"

definition pool_init :: "nat \<Rightarrow> nat \<Rightarrow> pool" where
  "pool_init worker_count started =
     \<lparr>queue = queue_init worker_count, workers = replicate started WLoop, acceptor = ACheck, stop = False,
      owner = None, accepted_clients = [], pushed = [], taken = [], served = [], refused = []\<rparr>"

inductive cond_signal :: "worker list \<Rightarrow> worker list \<Rightarrow> bool" where
  no_waiter: "WWait \<notin> set ws \<Longrightarrow> cond_signal ws ws"
| one_waiter: "i < length ws \<Longrightarrow> ws ! i = WWait \<Longrightarrow> cond_signal ws (ws[i := WLoop])"

definition cond_broadcast :: "worker list \<Rightarrow> worker list" where
  "cond_broadcast ws = map (\<lambda>w. if w = WWait then WLoop else w) ws"

definition signal_space :: "acceptor \<Rightarrow> acceptor" where
  "signal_space a = (case a of ASpace fd \<Rightarrow> AHave fd | _ \<Rightarrow> a)"

inductive accept_step :: "pool \<Rightarrow> pool \<Rightarrow> bool" where
  check: "acceptor s = ACheck \<Longrightarrow> accept_step s (s\<lparr>acceptor := if stop s then AClose else AAccept\<rparr>)"
| accept_client: "acceptor s = AAccept \<Longrightarrow>
    accept_step s (s\<lparr>acceptor := AHave fd, accepted_clients := accepted_clients s @ [fd]\<rparr>)"
| accept_eintr: "acceptor s = AAccept \<Longrightarrow> accept_step s (s\<lparr>acceptor := ACheck\<rparr>)"
| accept_error: "acceptor s = AAccept \<Longrightarrow> accept_step s (s\<lparr>acceptor := AClose\<rparr>)"
| push_wait: "acceptor s = AHave fd \<Longrightarrow> push_section (stop s) fd (queue s) = PushWait \<Longrightarrow>
    accept_step s (s\<lparr>acceptor := ASpace fd\<rparr>)"
| push_refused: "acceptor s = AHave fd \<Longrightarrow> push_section (stop s) fd (queue s) = PushRefused \<Longrightarrow>
    accept_step s (s\<lparr>acceptor := AClose, refused := refused s @ [fd]\<rparr>)"
| push_done: "acceptor s = AHave fd \<Longrightarrow> push_section (stop s) fd (queue s) = PushDone q \<Longrightarrow>
    cond_signal (workers s) ws \<Longrightarrow>
    accept_step s (s\<lparr>acceptor := ACheck, queue := q, workers := ws, pushed := pushed s @ [fd]\<rparr>)"
| space_wakeup: "acceptor s = ASpace fd \<Longrightarrow> accept_step s (s\<lparr>acceptor := AHave fd\<rparr>)"
| close_listener: "acceptor s = AClose \<Longrightarrow> accept_step s (s\<lparr>acceptor := AStop\<rparr>)"
| stop_workers: "acceptor s = AStop \<Longrightarrow>
    accept_step s (s\<lparr>acceptor := AJoin, queue := (queue s)\<lparr>stopping := True\<rparr>,
      workers := cond_broadcast (workers s)\<rparr>)"
| join: "acceptor s = AJoin \<Longrightarrow> set (workers s) \<subseteq> {WExit} \<Longrightarrow> accept_step s (s\<lparr>acceptor := AEnd\<rparr>)"

inductive worker_step :: "nat \<Rightarrow> pool \<Rightarrow> pool \<Rightarrow> bool" where
  take_wait: "workers s ! i = WLoop \<Longrightarrow> take_section (queue s) = TakeWait \<Longrightarrow>
    worker_step i s (s\<lparr>workers := (workers s)[i := WWait]\<rparr>)"
| take_exit: "workers s ! i = WLoop \<Longrightarrow> take_section (queue s) = TakeExit \<Longrightarrow>
    worker_step i s (s\<lparr>workers := (workers s)[i := WExit]\<rparr>)"
| take_client: "workers s ! i = WLoop \<Longrightarrow> take_section (queue s) = Took fd q \<Longrightarrow>
    worker_step i s (s\<lparr>workers := (workers s)[i := WRead fd], queue := q,
      acceptor := signal_space (acceptor s), taken := taken s @ [fd]\<rparr>)"
| wakeup: "workers s ! i = WWait \<Longrightarrow> worker_step i s (s\<lparr>workers := (workers s)[i := WLoop]\<rparr>)"
| read_request: "workers s ! i = WRead fd \<Longrightarrow> worker_step i s (s\<lparr>workers := (workers s)[i := WLock fd]\<rparr>)"
| read_failed: "workers s ! i = WRead fd \<Longrightarrow> worker_step i s (s\<lparr>workers := (workers s)[i := WClose fd]\<rparr>)"
| lock_dispatch: "workers s ! i = WLock fd \<Longrightarrow> owner s = None \<Longrightarrow>
    worker_step i s (s\<lparr>workers := (workers s)[i := WDispatch fd], owner := Some i\<rparr>)"
| dispatch: "workers s ! i = WDispatch fd \<Longrightarrow>
    worker_step i s (s\<lparr>workers := (workers s)[i := WClose fd], owner := None\<rparr>)"
| close_fd: "workers s ! i = WClose fd \<Longrightarrow>
    worker_step i s (s\<lparr>workers := (workers s)[i := WDone], served := served s @ [fd]\<rparr>)"
| finish: "workers s ! i = WDone \<Longrightarrow>
    worker_step i s (s\<lparr>workers := (workers s)[i := WLoop], queue := fst (finish_section (queue s))\<rparr>)"

inductive pool_step :: "pool \<Rightarrow> pool \<Rightarrow> bool" where
  accept: "accept_step s s' \<Longrightarrow> pool_step s s'"
| work: "i < length (workers s) \<Longrightarrow> worker_step i s s' \<Longrightarrow> pool_step s s'"
| signal: "\<not> stop s \<Longrightarrow> pool_step s (s\<lparr>stop := True\<rparr>)"

inductive reachable :: "pool \<Rightarrow> pool \<Rightarrow> bool" for s0 where
  start: "reachable s0 s0"
| step: "reachable s0 s \<Longrightarrow> pool_step s s' \<Longrightarrow> reachable s0 s'"

inductive_cases pool_step_cases: "pool_step s s'"

subsection \<open>The invariant\<close>

definition client_of :: "worker \<Rightarrow> int list" where
  "client_of w = (case w of WRead fd \<Rightarrow> [fd] | WLock fd \<Rightarrow> [fd] | WDispatch fd \<Rightarrow> [fd] | WClose fd \<Rightarrow> [fd] | _ \<Rightarrow> [])"

definition in_hand :: "acceptor \<Rightarrow> int list" where
  "in_hand a = (case a of AHave fd \<Rightarrow> [fd] | ASpace fd \<Rightarrow> [fd] | _ \<Rightarrow> [])"

definition busy :: "worker \<Rightarrow> bool" where
  "busy w \<longleftrightarrow> w \<notin> {WLoop, WWait, WExit}"

definition dispatching :: "worker \<Rightarrow> bool" where
  "dispatching w \<longleftrightarrow> (\<exists>fd. w = WDispatch fd)"

definition held :: "worker list \<Rightarrow> int multiset" where
  "held ws = mset (concat (map client_of ws))"

definition queue_inv :: "pool \<Rightarrow> bool" where
  "queue_inv s \<longleftrightarrow> ring_ok (queue s) \<and> workers s \<noteq> [] \<and> active (queue s) = length (filter busy (workers s)) \<and>
     pushed s = taken s @ ring_content (queue s)"

definition client_inv :: "pool \<Rightarrow> bool" where
  "client_inv s \<longleftrightarrow> mset (taken s) = mset (served s) + held (workers s) \<and>
     mset (accepted_clients s) = mset (pushed s) + mset (refused s) + mset (in_hand (acceptor s))"

definition awake :: "worker list \<Rightarrow> bool" where
  "awake ws \<longleftrightarrow> (\<exists>w\<in>set ws. w \<noteq> WWait)"

definition wait_inv :: "pool \<Rightarrow> bool" where
  "wait_inv s \<longleftrightarrow>
     (0 < queued (queue s) \<longrightarrow> awake (workers s)) \<and>
     (\<forall>fd. acceptor s = ASpace fd \<longrightarrow> queued (queue s) = capacity (queue s))"

definition stop_inv :: "pool \<Rightarrow> bool" where
  "stop_inv s \<longleftrightarrow> (stopping (queue s) \<longleftrightarrow> acceptor s \<in> {AJoin, AEnd}) \<and>
     (stopping (queue s) \<longrightarrow> WWait \<notin> set (workers s)) \<and>
     (WExit \<in> set (workers s) \<longrightarrow> stopping (queue s) \<and> queued (queue s) = 0) \<and>
     (acceptor s = AEnd \<longrightarrow> set (workers s) \<subseteq> {WExit})"

definition mutex_inv :: "pool \<Rightarrow> bool" where
  "mutex_inv s \<longleftrightarrow> (\<forall>i<length (workers s). dispatching (workers s ! i) \<longleftrightarrow> owner s = Some i) \<and>
     (\<forall>i. owner s = Some i \<longrightarrow> i < length (workers s))"

definition pool_inv :: "pool \<Rightarrow> bool" where
  "pool_inv s \<longleftrightarrow> queue_inv s \<and> client_inv s \<and> wait_inv s \<and> stop_inv s \<and> mutex_inv s"

lemma worker_simps [simp]:
  "client_of WLoop = []" "client_of WWait = []" "client_of (WRead fd) = [fd]" "client_of (WLock fd) = [fd]"
  "client_of (WDispatch fd) = [fd]" "client_of (WClose fd) = [fd]" "client_of WDone = []" "client_of WExit = []"
  "\<not> busy WLoop" "\<not> busy WWait" "\<not> busy WExit" "busy (WRead fd)" "busy (WLock fd)" "busy (WDispatch fd)"
  "busy (WClose fd)" "busy WDone"
  "dispatching (WDispatch fd)" "\<not> dispatching WLoop" "\<not> dispatching WWait" "\<not> dispatching WExit"
  "\<not> dispatching (WRead fd)" "\<not> dispatching (WLock fd)" "\<not> dispatching (WClose fd)" "\<not> dispatching WDone"
  by (simp_all add: client_of_def busy_def dispatching_def)

lemma acceptor_simps [simp]:
  "in_hand ACheck = []" "in_hand AAccept = []" "in_hand (AHave fd) = [fd]" "in_hand (ASpace fd) = [fd]"
  "in_hand AClose = []" "in_hand AStop = []" "in_hand AJoin = []" "in_hand AEnd = []"
  "in_hand (signal_space a) = in_hand a" "signal_space a \<noteq> ASpace fd" "signal_space a = AJoin \<longleftrightarrow> a = AJoin"
  "signal_space a = AEnd \<longleftrightarrow> a = AEnd"
  by (auto simp: in_hand_def signal_space_def split: acceptor.splits)

lemma held_update:
  "i < length ws \<Longrightarrow> held (ws[i := w]) + mset (client_of (ws ! i)) = held ws + mset (client_of w)"
proof (induction ws arbitrary: i)
  case (Cons v ws)
  then show ?case by (cases i) (auto simp: held_def ac_simps)
qed simp

lemma busy_update:
  "i < length ws \<Longrightarrow> length (filter busy (ws[i := w])) + (if busy (ws ! i) then 1 else 0) =
     length (filter busy ws) + (if busy w then 1 else 0)"
proof (induction ws arbitrary: i)
  case (Cons v ws)
  then show ?case by (cases i) auto
qed simp

text \<open>Waking up changes no worker but from waiting to the top of its loop.\<close>

definition woken :: "worker list \<Rightarrow> worker list \<Rightarrow> bool" where
  "woken ws ws' \<longleftrightarrow> length ws' = length ws \<and>
     (\<forall>i<length ws. ws' ! i = ws ! i \<or> ws ! i = WWait \<and> ws' ! i = WLoop)"

lemma woken_signal: "cond_signal ws ws' \<Longrightarrow> woken ws ws'"
  by (induction rule: cond_signal.induct) (auto simp: woken_def nth_list_update)

lemma woken_broadcast: "woken ws (cond_broadcast ws)"
  by (simp add: woken_def cond_broadcast_def)

lemma woken_Cons: "woken (w # ws) (w' # ws') \<longleftrightarrow> (w' = w \<or> w = WWait \<and> w' = WLoop) \<and> woken ws ws'"
  unfolding woken_def by (auto simp: less_Suc_eq_0_disj)

lemma woken_same:
  "woken ws ws' \<Longrightarrow> held ws' = held ws \<and> length (filter busy ws') = length (filter busy ws) \<and>
     (WExit \<in> set ws' \<longleftrightarrow> WExit \<in> set ws)"
proof (induction ws arbitrary: ws')
  case Nil
  then show ?case by (simp add: woken_def)
next
  case (Cons w ws)
  then obtain w' vs where "ws' = w' # vs" by (cases ws') (auto simp: woken_def)
  with Cons show ?case by (auto simp: woken_Cons held_def)
qed

lemma woken_dispatching: "woken ws ws' \<Longrightarrow> i < length ws \<Longrightarrow> dispatching (ws' ! i) \<longleftrightarrow> dispatching (ws ! i)"
  by (auto simp: woken_def)

lemma cond_signal_someone: "cond_signal ws ws' \<Longrightarrow> ws \<noteq> [] \<Longrightarrow> awake ws'"
  unfolding awake_def
proof (induction rule: cond_signal.induct)
  case (one_waiter i ws)
  then have "WLoop \<in> set (ws[i := WLoop])" by (simp add: set_update_memI)
  then show ?case by blast
qed (metis list.set_intros(1) neq_Nil_conv)

lemma broadcast_no_waiter [simp]: "WWait \<notin> set (cond_broadcast ws)"
  by (auto simp: cond_broadcast_def)

lemma take_content:
  "ring_ok q \<Longrightarrow> queued q \<noteq> 0 \<Longrightarrow>
     ring_content q = fst (ring_take q) # ring_content (snd (ring_take q)) \<and> ring_ok (snd (ring_take q))"
  using ring_take_law [of q] by (cases "ring_content q") (auto simp flip: length_ring_content)

lemma held_change:
  "i < length ws \<Longrightarrow> client_of w = client_of (ws ! i) \<Longrightarrow> held (ws[i := w]) = held ws"
  using held_update [of i ws w] by simp

lemma busy_change:
  "i < length ws \<Longrightarrow> busy w = busy (ws ! i) \<Longrightarrow> length (filter busy (ws[i := w])) = length (filter busy ws)"
  using busy_update [of i ws w] by simp

lemma accept_queue_inv: "accept_step s s' \<Longrightarrow> queue_inv s \<Longrightarrow> queue_inv s'"
proof (induction rule: accept_step.cases)
  case (push_done s fd q ws)
  then have "woken (workers s) ws" by (simp add: woken_signal)
  moreover have "queued (queue s) < capacity (queue s)"
    using push_done by (auto simp: push_section_cases queue_inv_def ring_ok_def)
  ultimately show ?case
    using push_done woken_same [of "workers s" ws] ring_put_law [of "queue s" fd]
    by (auto simp: push_section_cases queue_inv_def woken_def)
next
  case (stop_workers s)
  then show ?case using woken_same [OF woken_broadcast, of "workers s"]
    by (auto simp: queue_inv_def cond_broadcast_def)
qed (auto simp: queue_inv_def)

lemma worker_queue_inv: "worker_step i s s' \<Longrightarrow> i < length (workers s) \<Longrightarrow> queue_inv s \<Longrightarrow> queue_inv s'"
proof (induction rule: worker_step.cases)
  case (take_client s i fd q)
  then show ?case
    using busy_update [of i "workers s" "WRead fd"] take_content [of "queue s"]
    by (auto simp: queue_inv_def take_section_cases)
next
  case (finish s i)
  then show ?case
    using busy_update [of i "workers s" WLoop] by (auto simp: queue_inv_def finish_section_def Let_def)
qed (auto simp: queue_inv_def busy_change)

lemma accept_client_inv: "accept_step s s' \<Longrightarrow> client_inv s \<Longrightarrow> client_inv s'"
proof (induction rule: accept_step.cases)
  case (push_done s fd q ws)
  then show ?case using woken_same [OF woken_signal, of "workers s" ws] by (auto simp: client_inv_def)
next
  case (stop_workers s)
  then show ?case using woken_same [OF woken_broadcast, of "workers s"] by (auto simp: client_inv_def)
qed (auto simp: client_inv_def)

lemma worker_client_inv: "worker_step i s s' \<Longrightarrow> i < length (workers s) \<Longrightarrow> client_inv s \<Longrightarrow> client_inv s'"
proof (induction rule: worker_step.cases)
  case (take_client s i fd q)
  then show ?case using held_update [of i "workers s" "WRead fd"] by (auto simp: client_inv_def)
next
  case (close_fd s i fd)
  then show ?case using held_update [of i "workers s" WDone] by (auto simp: client_inv_def)
qed (auto simp: client_inv_def held_change)

lemma accept_wait_inv:
  "accept_step s s' \<Longrightarrow> wait_inv s \<Longrightarrow> queue_inv s \<Longrightarrow> wait_inv s'"
proof (induction rule: accept_step.cases)
  case (push_done s fd q ws)
  then show ?case using cond_signal_someone [of "workers s" ws] by (auto simp: wait_inv_def queue_inv_def)
next
  case (stop_workers s)
  then show ?case using broadcast_no_waiter [of "workers s"]
    by (auto simp: wait_inv_def queue_inv_def cond_broadcast_def awake_def)
qed (auto simp: wait_inv_def push_section_cases)

lemma some_not_waiting: "i < length ws \<Longrightarrow> w \<noteq> WWait \<Longrightarrow> awake (ws[i := w])"
  unfolding awake_def by (rule bexI [where x = w]) (simp_all add: set_update_memI)

lemma worker_wait_inv: "worker_step i s s' \<Longrightarrow> i < length (workers s) \<Longrightarrow> wait_inv s \<Longrightarrow> wait_inv s'"
proof (induction rule: worker_step.cases)
  case (take_client s i fd q)
  then show ?case using some_not_waiting [of i "workers s" "WRead fd"] by (auto simp: wait_inv_def)
qed (auto simp: wait_inv_def take_section_cases some_not_waiting finish_section_def Let_def)

lemma accept_stop_inv: "accept_step s s' \<Longrightarrow> stop_inv s \<Longrightarrow> stop_inv s'"
proof (induction rule: accept_step.cases)
  case (push_done s fd q ws)
  then show ?case using woken_same [OF woken_signal, of "workers s" ws]
    by (auto simp: stop_inv_def push_section_cases)
next
  case (stop_workers s)
  then show ?case using woken_same [OF woken_broadcast, of "workers s"] by (auto simp: stop_inv_def)
qed (auto simp: stop_inv_def)

lemma worker_not_ended: "worker_step i s s' \<Longrightarrow> i < length (workers s) \<Longrightarrow> stop_inv s \<Longrightarrow> acceptor s \<noteq> AEnd \<and> \<not> (stopping (queue s) \<and> workers s ! i = WWait)"
  by (cases rule: worker_step.cases) (auto simp: stop_inv_def dest: nth_mem)

lemma worker_stop_inv_aux:
  "worker_step i s s' \<Longrightarrow> i < length (workers s) \<Longrightarrow> stop_inv s \<Longrightarrow>
   acceptor s \<noteq> AEnd \<and> \<not> (stopping (queue s) \<and> workers s ! i = WWait) \<Longrightarrow> stop_inv s'"
proof (induction rule: worker_step.cases)
  case (take_client s i fd q)
  then show ?case by (auto simp: stop_inv_def take_section_cases dest!: set_update_subset_insert [THEN subsetD])
qed (auto simp: stop_inv_def take_section_cases finish_section_def Let_def dest!: set_update_subset_insert [THEN subsetD])

lemma worker_stop_inv: "worker_step i s s' \<Longrightarrow> i < length (workers s) \<Longrightarrow> stop_inv s \<Longrightarrow> stop_inv s'"
  using worker_stop_inv_aux worker_not_ended by blast

lemma accept_mutex_inv: "accept_step s s' \<Longrightarrow> mutex_inv s \<Longrightarrow> mutex_inv s'"
proof (induction rule: accept_step.cases)
  case (push_done s fd q ws)
  then show ?case using woken_dispatching [OF woken_signal, of "workers s" ws] woken_signal [of "workers s" ws]
    by (auto simp: mutex_inv_def woken_def)
next
  case (stop_workers s)
  then show ?case using woken_dispatching [OF woken_broadcast, of _ "workers s"] woken_broadcast [of "workers s"]
    by (auto simp: mutex_inv_def woken_def)
qed (auto simp: mutex_inv_def)

lemma worker_mutex_inv: "worker_step i s s' \<Longrightarrow> i < length (workers s) \<Longrightarrow> mutex_inv s \<Longrightarrow> mutex_inv s'"
  by (induction rule: worker_step.cases) (auto simp: mutex_inv_def nth_list_update)

lemma pool_init_inv: "0 < started \<Longrightarrow> pool_inv (pool_init worker_count started)"
  using queue_init_ok [of worker_count]
  by (auto simp: pool_inv_def pool_init_def queue_inv_def client_inv_def wait_inv_def stop_inv_def mutex_inv_def
      held_def simp flip: length_ring_content)

lemma pool_step_inv: "pool_step s s' \<Longrightarrow> pool_inv s \<Longrightarrow> pool_inv s'"
proof (induction rule: pool_step.cases)
  case (accept s s')
  then show ?case unfolding pool_inv_def
    using accept_queue_inv accept_client_inv accept_wait_inv accept_stop_inv accept_mutex_inv by blast
next
  case (work i s s')
  then show ?case unfolding pool_inv_def
    using worker_queue_inv worker_client_inv worker_wait_inv worker_stop_inv worker_mutex_inv by blast
next
  case (signal s)
  then show ?case
    by (auto simp: pool_inv_def queue_inv_def client_inv_def wait_inv_def stop_inv_def mutex_inv_def)
qed

lemma reachable_inv: "reachable s0 s \<Longrightarrow> pool_inv s0 \<Longrightarrow> pool_inv s"
  by (induction rule: reachable.induct) (auto intro: pool_step_inv)

subsection \<open>Progress and draining\<close>

text \<open>No worker step but a wakeup is lost: whoever is not waiting can go on, or another worker can.\<close>

lemma worker_can_step:
  assumes "pool_inv s" and "i < length (workers s)" and "workers s ! i \<notin> {WWait, WExit}"
  shows "\<exists>j<length (workers s). workers s ! j \<noteq> WWait \<and> (\<exists>s'. worker_step j s s')"
proof (cases "workers s ! i")
  case WLoop
  have "\<exists>s'. worker_step i s s'"
  proof (cases "take_section (queue s)")
    case TakeWait
    then show ?thesis using WLoop worker_step.take_wait by blast
  next
    case TakeExit
    then show ?thesis using WLoop worker_step.take_exit by blast
  next
    case (Took fd q)
    then show ?thesis using WLoop worker_step.take_client by blast
  qed
  then show ?thesis using assms by auto
next
  case (WLock fd)
  show ?thesis
  proof (cases "owner s")
    case None
    then show ?thesis using worker_step.lock_dispatch [OF WLock None] assms WLock
      by (intro exI [where x = i]) auto
  next
    case (Some j)
    then have j: "j < length (workers s)" "dispatching (workers s ! j)"
      using assms(1) by (auto simp: pool_inv_def mutex_inv_def)
    then obtain fd' where "workers s ! j = WDispatch fd'" by (auto simp: dispatching_def)
    then show ?thesis using j worker_step.dispatch [of s j fd'] by auto
  qed
next
  case (WRead fd)
  then show ?thesis using worker_step.read_request [OF WRead] assms WRead by (intro exI [where x = i]) auto
next
  case (WDispatch fd)
  then show ?thesis using worker_step.dispatch [OF WDispatch] assms WDispatch by (intro exI [where x = i]) auto
next
  case (WClose fd)
  then show ?thesis using worker_step.close_fd [OF WClose] assms WClose by (intro exI [where x = i]) auto
next
  case WDone
  then show ?thesis using worker_step.finish [OF WDone] assms WDone by (intro exI [where x = i]) auto
qed (use assms in auto)

lemma queued_progress:
  assumes "pool_inv s" and "0 < queued (queue s)"
  shows "\<exists>j<length (workers s). workers s ! j \<noteq> WWait \<and> (\<exists>s'. worker_step j s s')"
proof -
  obtain w where w: "w \<in> set (workers s)" "w \<noteq> WWait"
    using assms by (auto simp: pool_inv_def wait_inv_def awake_def)
  moreover have "w \<noteq> WExit" using assms w by (auto simp: pool_inv_def stop_inv_def)
  ultimately show ?thesis using worker_can_step [OF assms(1)] by (metis in_set_conv_nth insertE singletonD)
qed

definition weight :: "worker \<Rightarrow> nat" where
  "weight w = (case w of WLoop \<Rightarrow> 1 | WWait \<Rightarrow> 2 | WRead _ \<Rightarrow> 6 | WLock _ \<Rightarrow> 5 | WDispatch _ \<Rightarrow> 4
     | WClose _ \<Rightarrow> 3 | WDone \<Rightarrow> 2 | WExit \<Rightarrow> 0)"

text \<open>What is left to do once the workers are told to stop.\<close>

definition work_left :: "pool \<Rightarrow> nat" where
  "work_left s = 6 * queued (queue s) + sum_list (map weight (workers s)) +
     (if acceptor s = AEnd then 0 else 1) + (if stop s then 0 else 1)"

lemma weight_update:
  "i < length ws \<Longrightarrow> sum_list (map weight (ws[i := w])) + weight (ws ! i) = sum_list (map weight ws) + weight w"
proof (induction ws arbitrary: i)
  case (Cons v ws)
  then show ?case by (cases i) auto
qed simp

lemma worker_drains:
  assumes "worker_step i s s'" and "i < length (workers s)" and "stopping (queue s)"
    and "WWait \<notin> set (workers s)"
  shows "work_left s' < work_left s"
  using assms
proof (induction rule: worker_step.cases)
  case (take_client s i fd q)
  then show ?case using weight_update [of i "workers s" "WRead fd"]
    by (auto simp: work_left_def take_section_cases weight_def)
next
  case (take_exit s i)
  then show ?case using weight_update [of i "workers s" WExit] by (auto simp: work_left_def weight_def)
next
  case (read_request s i fd)
  then show ?case using weight_update [of i "workers s" "WLock fd"] by (auto simp: work_left_def weight_def)
next
  case (read_failed s i fd)
  then show ?case using weight_update [of i "workers s" "WClose fd"] by (auto simp: work_left_def weight_def)
next
  case (lock_dispatch s i fd)
  then show ?case using weight_update [of i "workers s" "WDispatch fd"] by (auto simp: work_left_def weight_def)
next
  case (dispatch s i fd)
  then show ?case using weight_update [of i "workers s" "WClose fd"] by (auto simp: work_left_def weight_def)
next
  case (close_fd s i fd)
  then show ?case using weight_update [of i "workers s" WDone] by (auto simp: work_left_def weight_def)
next
  case (finish s i)
  then show ?case using weight_update [of i "workers s" WLoop]
    by (auto simp: work_left_def weight_def finish_section_def Let_def)
qed (auto simp: take_section_cases dest: nth_mem)

lemma accept_drains:
  "accept_step s s' \<Longrightarrow> acceptor s = AJoin \<or> acceptor s = AEnd \<Longrightarrow> work_left s' < work_left s"
  by (cases rule: accept_step.cases) (auto simp: work_left_def)

lemma pool_drains:
  assumes "pool_inv s" and "stopping (queue s)" and "pool_step s s'"
  shows "work_left s' < work_left s"
proof -
  have "acceptor s = AJoin \<or> acceptor s = AEnd" and "WWait \<notin> set (workers s)"
    using assms(1,2) by (auto simp: pool_inv_def stop_inv_def)
  moreover have "work_left (s\<lparr>stop := True\<rparr>) < work_left s" if "\<not> stop s"
    using that by (simp add: work_left_def)
  ultimately show ?thesis using assms(2,3) accept_drains worker_drains
    by (blast elim: pool_step_cases)
qed

lemma pool_stop_progress:
  assumes "pool_inv s" and "stopping (queue s)" and "acceptor s \<noteq> AEnd"
  shows "\<exists>s'. pool_step s s'"
proof (cases "set (workers s) \<subseteq> {WExit}")
  case True
  have "acceptor s = AJoin" using assms by (auto simp: pool_inv_def stop_inv_def)
  then show ?thesis using accept_step.join [OF _ True] pool_step.accept by blast
next
  case False
  then obtain w where "w \<in> set (workers s)" "w \<noteq> WExit" by auto
  then obtain i where "i < length (workers s)" "workers s ! i \<noteq> WExit"
    unfolding in_set_conv_nth by blast
  moreover have "WWait \<notin> set (workers s)" using assms by (auto simp: pool_inv_def stop_inv_def)
  ultimately show ?thesis using worker_can_step [OF assms(1), of i] pool_step.work
    by (metis insertE nth_mem singletonD)
qed

subsection \<open>Properties\<close>

text \<open>One worker, a client accepted just before a signal, and the shutdown.\<close>

definition one_worker :: "acceptor \<Rightarrow> worker \<Rightarrow> bool \<Rightarrow> bool \<Rightarrow> int list \<Rightarrow> int list \<Rightarrow> pool" where
  "one_worker a w st told clients closed =
     \<lparr>queue = (queue_init 1)\<lparr>stopping := told\<rparr>, workers = [w], acceptor = a, stop = st, owner = None,
      accepted_clients = clients, pushed = [], taken = [], served = [], refused = closed\<rparr>"

lemma reach_accept: "reachable s0 s \<Longrightarrow> accept_step s t \<Longrightarrow> t = s' \<Longrightarrow> reachable s0 s'"
  using reachable.step pool_step.accept by blast

lemma one_worker_run:
  "reachable (pool_init 1 1) (one_worker AAccept WLoop False False [] [])"
  "reachable (pool_init 1 1) (one_worker AAccept WLoop True False [] [])"
  "reachable (pool_init 1 1) (one_worker AJoin WLoop True True [7] [7])"
  "reachable (pool_init 1 1) (one_worker AEnd WExit True True [7] [7])"
proof -
  note simps = one_worker_def push_section_def queue_init_def cond_broadcast_def Let_def
  have "pool_init 1 1 = one_worker ACheck WLoop False False [] []"
    by (simp add: pool_init_def one_worker_def queue_init_def)
  then have r0: "reachable (pool_init 1 1) (one_worker ACheck WLoop False False [] [])"
    using reachable.start by metis
  show r1: "reachable (pool_init 1 1) (one_worker AAccept WLoop False False [] [])"
    by (rule reach_accept [OF r0], rule accept_step.check) (simp_all add: simps)
  show "reachable (pool_init 1 1) (one_worker AAccept WLoop True False [] [])"
    using reachable.step [OF r1 pool_step.signal] by (simp add: simps)
  have r2: "reachable (pool_init 1 1) (one_worker (AHave 7) WLoop False False [7] [])"
    by (rule reach_accept [OF r1], rule accept_step.accept_client [where fd = 7]) (simp_all add: simps)
  have r3: "reachable (pool_init 1 1) (one_worker (AHave 7) WLoop True False [7] [])"
    using reachable.step [OF r2 pool_step.signal] by (simp add: simps)
  have r4: "reachable (pool_init 1 1) (one_worker AClose WLoop True False [7] [7])"
    by (rule reach_accept [OF r3], rule accept_step.push_refused [where fd = 7]) (simp_all add: simps)
  have r5: "reachable (pool_init 1 1) (one_worker AStop WLoop True False [7] [7])"
    by (rule reach_accept [OF r4], rule accept_step.close_listener) (simp_all add: simps)
  show r6: "reachable (pool_init 1 1) (one_worker AJoin WLoop True True [7] [7])"
    by (rule reach_accept [OF r5], rule accept_step.stop_workers) (simp_all add: simps)
  have "worker_step 0 (one_worker AJoin WLoop True True [7] [7]) (one_worker AJoin WExit True True [7] [7])"
    using worker_step.take_exit [of "one_worker AJoin WLoop True True [7] [7]" 0]
    by (simp add: simps take_section_def)
  then have r7: "reachable (pool_init 1 1) (one_worker AJoin WExit True True [7] [7])"
    using reachable.step [OF r6 pool_step.work, of 0] by (simp add: one_worker_def)
  show "reachable (pool_init 1 1) (one_worker AEnd WExit True True [7] [7])"
    by (rule reach_accept [OF r7], rule accept_step.join) (simp_all add: simps)
qed

text \<open>The same worker with a client queued, and inside the dispatcher.\<close>

lemma one_queued: "\<exists>s. reachable (pool_init 1 1) s \<and> queue s = ring_put 7 (queue_init 1) \<and> workers s = [WLoop] \<and>
    owner s = None"
proof -
  let ?s = "one_worker AAccept WLoop False False [] []"
  let ?t = "?s\<lparr>acceptor := AHave 7, accepted_clients := accepted_clients ?s @ [7]\<rparr>"
  have t: "reachable (pool_init 1 1) ?t"
    by (rule reach_accept [OF one_worker_run(1)], rule accept_step.accept_client [where fd = 7]) (simp_all add: one_worker_def)
  have "accept_step ?t (?t\<lparr>acceptor := ACheck, queue := ring_put 7 (queue_init 1), workers := [WLoop],
      pushed := pushed ?t @ [7]\<rparr>)"
    by (rule accept_step.push_done)
      (simp_all add: one_worker_def push_section_def queue_init_def Let_def cond_signal.no_waiter)
  with t have "reachable (pool_init 1 1) (?t\<lparr>acceptor := ACheck, queue := ring_put 7 (queue_init 1), workers := [WLoop],
      pushed := pushed ?t @ [7]\<rparr>)"
    using reach_accept by blast
  moreover have "queue (?t\<lparr>acceptor := ACheck, queue := ring_put 7 (queue_init 1), workers := [WLoop],
      pushed := pushed ?t @ [7]\<rparr>) = ring_put 7 (queue_init 1)" by simp
  ultimately show ?thesis by (intro exI conjI) (assumption, simp_all add: one_worker_def)
qed

lemma reach_worker:
  "reachable s0 s \<Longrightarrow> worker_step 0 s s' \<Longrightarrow> workers s = [w] \<Longrightarrow> reachable s0 s'"
  using reachable.step [OF _ pool_step.work] by (metis length_Cons zero_less_Suc)

lemma one_dispatching: "\<exists>s. reachable (pool_init 1 1) s \<and> workers s = [WDispatch 7]"
proof -
  obtain s where s: "reachable (pool_init 1 1) s" "queue s = ring_put 7 (queue_init 1)" "workers s = [WLoop]"
    "owner s = None" using one_queued by blast
  obtain q where "take_section (queue s) = Took 7 q"
    using s(2) by (simp add: take_section_def ring_put_def ring_take_def queue_init_def Let_def)
  then have "worker_step 0 s (s\<lparr>workers := [WRead 7], queue := q, acceptor := signal_space (acceptor s),
      taken := taken s @ [7]\<rparr>)" (is "worker_step 0 s ?t")
    using worker_step.take_client [of s 0 7 q] s(3) by simp
  then have t: "reachable (pool_init 1 1) ?t" using reach_worker s(1,3) by blast
  have "worker_step 0 ?t (?t\<lparr>workers := [WLock 7]\<rparr>)"
    using worker_step.read_request [of ?t 0 7] by simp
  then have u: "reachable (pool_init 1 1) (?t\<lparr>workers := [WLock 7]\<rparr>)" (is "reachable _ ?u")
    using reach_worker [OF t] by simp
  have "worker_step 0 ?u (?u\<lparr>workers := [WDispatch 7], owner := Some 0\<rparr>)"
    using worker_step.lock_dispatch [of ?u 0 7] s(4) by simp
  then have "reachable (pool_init 1 1) (?u\<lparr>workers := [WDispatch 7], owner := Some 0\<rparr>)"
    using reach_worker [OF u] by simp
  then show ?thesis by (intro exI conjI) (assumption, simp)
qed

text \<open>
  C6: However the accept loop and the workers interleave, clients are served in the order they were
  queued: the clients taken are a prefix of those pushed, and the rest is what the ring holds, never
  more than its capacity.
\<close>

theorem clients_taken_in_order:
  assumes "reachable (pool_init worker_count started) s" and "0 < started"
  shows "pushed s = taken s @ ring_content (queue s) \<and> queued (queue s) \<le> capacity (queue s)"
  using reachable_inv [OF assms(1) pool_init_inv [OF assms(2)]]
  by (simp add: pool_inv_def queue_inv_def ring_ok_def)

theorem clients_taken_in_order_witness:
  "pushed (one_worker AEnd WExit True True [7] [7]) =
     taken (one_worker AEnd WExit True True [7] [7]) @ ring_content (queue (one_worker AEnd WExit True True [7] [7]))"
  using clients_taken_in_order [OF one_worker_run(4)] by simp

text \<open>
  C7: No client is lost, leaked or closed twice: when the transport has ended, the clients that were
  accepted are, with multiplicity, those the workers closed after serving them and those the accept
  loop closed because the server was stopping.
\<close>

theorem every_client_closed_once:
  assumes "reachable (pool_init worker_count started) s" and "0 < started" and "acceptor s = AEnd"
  shows "mset (accepted_clients s) = mset (served s) + mset (refused s)"
proof -
  have inv: "pool_inv s" using reachable_inv [OF assms(1) pool_init_inv [OF assms(2)]] .
  have exit: "set (workers s) \<subseteq> {WExit}" and ne: "workers s \<noteq> []"
    using inv assms(3) by (auto simp: pool_inv_def stop_inv_def queue_inv_def)
  then have "WExit \<in> set (workers s)" by (metis insert_iff insert_subset list.set(2) neq_Nil_conv singletonD)
  then have "ring_content (queue s) = []"
    using inv by (auto simp: pool_inv_def stop_inv_def simp flip: length_ring_content)
  moreover have "held (workers s) = {#}" using exit by (auto simp: held_def concat_eq_Nil_conv)
  ultimately show ?thesis using inv assms(3) by (simp add: pool_inv_def client_inv_def queue_inv_def)
qed

theorem every_client_closed_once_witness:
  "mset (accepted_clients (one_worker AEnd WExit True True [7] [7])) =
     mset (served (one_worker AEnd WExit True True [7] [7])) + mset (refused (one_worker AEnd WExit True True [7] [7]))"
  by (rule every_client_closed_once [OF one_worker_run(4)]) (simp_all add: one_worker_def)

text \<open>
  C8: The model is never entered by two threads at once: in every reachable state at most one worker
  is inside the dispatcher, and it is the owner of the dispatch mutex.
\<close>

theorem one_dispatch_at_a_time:
  assumes "reachable (pool_init worker_count started) s" and "0 < started"
    and "i < length (workers s)" and "j < length (workers s)"
    and "dispatching (workers s ! i)" and "dispatching (workers s ! j)"
  shows "i = j \<and> owner s = Some i"
  using reachable_inv [OF assms(1) pool_init_inv [OF assms(2)]] assms(3-6)
  by (auto simp: pool_inv_def mutex_inv_def)

theorem one_dispatch_at_a_time_witness:
  "\<exists>s. reachable (pool_init 1 1) s \<and> workers s = [WDispatch 7] \<and> owner s = Some 0"
proof -
  obtain s where s: "reachable (pool_init 1 1) s" "workers s = [WDispatch 7]" using one_dispatching by blast
  then have "owner s = Some 0" using one_dispatch_at_a_time [OF s(1), of 0 0] by simp
  with s show ?thesis by blast
qed

text \<open>
  C9: No wakeup is lost: while a client is queued, some worker that is not waiting can take a step,
  though the queue signals only one waiter for each client.
\<close>

theorem queued_client_not_stuck:
  assumes "reachable (pool_init worker_count started) s" and "0 < started" and "0 < queued (queue s)"
  shows "\<exists>j<length (workers s). workers s ! j \<noteq> WWait \<and> (\<exists>s'. worker_step j s s')"
  using queued_progress reachable_inv [OF assms(1) pool_init_inv [OF assms(2)]] assms(3) by blast

theorem queued_client_not_stuck_witness:
  "\<exists>s s'. reachable (pool_init 1 1) s \<and> queue s = ring_put 7 (queue_init 1) \<and> worker_step 0 s s'"
proof -
  obtain s where s: "reachable (pool_init 1 1) s" "queue s = ring_put 7 (queue_init 1)" "workers s = [WLoop]"
    using one_queued by blast
  then show ?thesis using queued_client_not_stuck [OF s(1)] by auto
qed

text \<open>
  C10: Shutdown ends: once the accept loop has told the workers to stop, some step is possible until
  the transport has ended, and every step of every thread makes the work that is left smaller.
  Queued clients are served first, since a worker only leaves when the queue is empty.
\<close>

theorem shutdown_drains:
  assumes "reachable (pool_init worker_count started) s" and "0 < started" and "stopping (queue s)"
  shows "(acceptor s = AEnd \<or> (\<exists>s'. pool_step s s')) \<and> (\<forall>s'. pool_step s s' \<longrightarrow> work_left s' < work_left s) \<and>
    (WExit \<in> set (workers s) \<longrightarrow> queued (queue s) = 0)"
  using pool_stop_progress pool_drains reachable_inv [OF assms(1) pool_init_inv [OF assms(2)]] assms(3)
  by (auto simp: pool_inv_def stop_inv_def)

theorem shutdown_drains_witness:
  "\<exists>s'. pool_step (one_worker AJoin WLoop True True [7] [7]) s' \<and> work_left s' < 2"
proof -
  have "work_left (one_worker AJoin WLoop True True [7] [7]) = 2"
    by (simp add: work_left_def one_worker_def weight_def queue_init_def Let_def)
  then show ?thesis using shutdown_drains [OF one_worker_run(3)] by (auto simp: one_worker_def)
qed

text \<open>
  A signal between the test of the loop and \<open>accept\<close> is not noticed: the flag is set, but the
  loop is at the blocking call, which only a client, an error or another signal ends.
\<close>

theorem stop_missed_before_accept:
  "\<exists>s. reachable (pool_init 1 1) s \<and> stop s \<and> acceptor s = AAccept \<and> \<not> stopping (queue s)"
proof (intro exI conjI)
  show "reachable (pool_init 1 1) (one_worker AAccept WLoop True False [] [])" by (rule one_worker_run(2))
qed (simp_all add: one_worker_def queue_init_def Let_def)

end
