(* ===== verification/Transport.thy ===== *)
theory Transport
  imports HttpDispatch WorkerPool
begin

section \<open>The transport: clients, process slots, start and cleanup\<close>

text \<open>
  Models \<open>fortai_close_client\<close>, \<open>fortai_process_accept_loop\<close>, \<open>fortai_run_cpu_process_slots\<close>,
  \<open>fortai_open_listener\<close> and \<open>fortai_http_transport_run\<close> of \<open>src/server/fortai_http_server.c\<close>.
  Every function returns, beside its result, the list of system calls that acquire or release
  something, in order. What the system calls answer is an argument.
\<close>

datatype resource =
    Listener | ChildTable | QueueFds | WorkerTable | QueueMutex | AvailableCond | SpaceCond | DrainedCond
  | Client int | Child int

datatype os_call = Acquire resource | Release resource | AcceptOn resource | Kill int | SetSlotMode bytes

subsection \<open>One client\<close>

text \<open>
  The answer to one client: the bytes sent, the state of the native side, and the calls on the
  connection. \<open>None\<close> is not returning, for a request that never ends or a handler that asks for
  more room for ever.
\<close>

definition close_client ::
    "(nat \<Rightarrow> bool) \<Rightarrow> environment \<Rightarrow> file_system \<Rightarrow> 's native_handler \<Rightarrow> fortai_transport \<Rightarrow> int \<Rightarrow>
     recv_event list \<Rightarrow> send_event list \<Rightarrow> 's \<Rightarrow> (bytes \<times> 's \<times> os_call list) option" where
  "close_client alloc env fs native server client incoming outgoing s =
     (case http_read_request alloc incoming of
        ReadBlocked \<Rightarrow> None
      | ReadFail \<Rightarrow> Some ([], s, [Release (Client client)])
      | ReadOk request \<Rightarrow>
          (case dispatch_request alloc env fs native server outgoing request s of
             None \<Rightarrow> None
           | Some ((result, sent, rest), s') \<Rightarrow> Some (sent, s', [Release (Client client)])))"

subsection \<open>Process slots\<close>

text \<open>What the accept loop of a process meets: the flag set at its test, a client, or an error.\<close>

datatype loop_event = LStopped | LClient int | LInterrupted | LFailed

text \<open>The result, once there is one, and the clients accepted and closed.\<close>

fun process_accept_loop :: "loop_event list \<Rightarrow> int option \<times> int list" where
  "process_accept_loop [] = (None, [])"
| "process_accept_loop (LStopped # evs) = (Some 0, [])"
| "process_accept_loop (LInterrupted # evs) = process_accept_loop evs"
| "process_accept_loop (LFailed # evs) = (Some (- 1), [])"
| "process_accept_loop (LClient fd # evs) =
     (let (result, clients) = process_accept_loop evs in (result, fd # clients))"

text \<open>The children forked for slots 1 to \<open>slots - 1\<close>: their ids, and whether a fork failed.\<close>

fun fork_children :: "nat \<Rightarrow> int list \<Rightarrow> int list \<times> bool" where
  "fork_children 0 forks = ([], False)"
| "fork_children (Suc n) [] = ([], True)"
| "fork_children (Suc n) (pid # forks) =
     (if pid < 0 then ([], True)
      else let (children, failed) = fork_children n forks in (pid # children, failed))"

text \<open>In the parent; \<open>None\<close> as a result means the accept loop is still blocked.\<close>

definition run_cpu_process_slots ::
    "bool \<Rightarrow> int \<Rightarrow> int list \<Rightarrow> loop_event list \<Rightarrow> int option \<times> os_call list" where
  "run_cpu_process_slots allocated slots forks evs =
     (if slots \<le> 1 then (Some (- 2), [])
      else if \<not> allocated then (Some (- 2), [])
      else let (children, failed) = fork_children (nat (slots - 1)) forks;
               result = (if failed then Some (- 2) else fst (process_accept_loop evs));
               started = Acquire ChildTable # map (\<lambda>pid. Acquire (Child pid)) children
           in if result = None then (None, started)
              else (result, started @ map Kill children @ map (\<lambda>pid. Release (Child pid)) children @
                     [Release ChildTable]))"

text \<open>What a forked child does.\<close>

definition run_child :: "loop_event list \<Rightarrow> int option \<times> os_call list" where
  "run_child evs =
     (case process_accept_loop evs of (None, _) \<Rightarrow> (None, []) | (Some _, _) \<Rightarrow> (Some 0, [Release Listener]))"

subsection \<open>The listener\<close>

record listener_answers =
  socket_ok :: bool
  inet_pton :: "bytes \<Rightarrow> u32 option"
  resolve :: "bytes \<Rightarrow> u32 option"
  bind_ok :: bool
  listen_ok :: bool

record address =
  sin_port :: u16
  sin_addr :: u32

definition reuse_port :: "environment \<Rightarrow> bool" where
  "reuse_port env = (case env ''FORTAI_REUSE_PORT'' of
     None \<Rightarrow> False | Some v \<Rightarrow> v = ''1'' \<or> strcaseeq v ''true'' \<or> strcaseeq v ''on'')"

text \<open>The address of a host; a null host and two names stand for every interface.\<close>

definition listen_address :: "listener_answers \<Rightarrow> bytes option \<Rightarrow> int \<Rightarrow> address option" where
  "listen_address ans host port =
     (let at = (\<lambda>a. \<lparr>sin_port = word_of_int port, sin_addr = a\<rparr>)
      in case host of
           None \<Rightarrow> Some (at 0)
         | Some h \<Rightarrow>
             if h = ''0.0.0.0'' \<or> h = ''*'' then Some (at 0)
             else (case inet_pton ans h of
                Some a \<Rightarrow> Some (at a) | None \<Rightarrow> map_option at (resolve ans h)))"

text \<open>The address listened on, if any, and the calls.\<close>

definition open_listener :: "listener_answers \<Rightarrow> bytes option \<Rightarrow> int \<Rightarrow> address option \<times> os_call list" where
  "open_listener ans host port =
     (if \<not> socket_ok ans then (None, [])
      else case listen_address ans host port of
             None \<Rightarrow> (None, [Acquire Listener, Release Listener])
           | Some a \<Rightarrow>
               if \<not> bind_ok ans \<or> \<not> listen_ok ans then (None, [Acquire Listener, Release Listener])
               else (Some a, [Acquire Listener]))"

subsection \<open>Running the transport\<close>

record transport_answers =
  handlers_ok :: bool
  listener :: listener_answers
  setenv_ok :: bool
  slots_allocated :: bool
  forks :: "int list"
  slot_events :: "loop_event list"
  fds_ok :: bool
  table_ok :: bool
  mutex_ok :: bool
  available_ok :: bool
  space_ok :: bool
  drained_ok :: bool
  started_workers :: nat

text \<open>
  The initialisations in order up to the first that fails, and the way back through the label
  \<open>queue_init_failed\<close>, which destroys what was initialised, last first.
\<close>

fun init_until :: "(resource \<times> bool) list \<Rightarrow> resource list \<times> bool" where
  "init_until [] = ([], True)"
| "init_until ((r, ok) # rs) = (if ok then (let (ready, all_ok) = init_until rs in (r # ready, all_ok)) else ([], False))"

definition queue_parts :: "transport_answers \<Rightarrow> (resource \<times> bool) list" where
  "queue_parts ans = [(QueueMutex, mutex_ok ans), (AvailableCond, available_ok ans), (SpaceCond, space_ok ans),
     (DrainedCond, drained_ok ans)]"

definition release_queue :: "os_call list" where
  "release_queue = map Release [QueueMutex, AvailableCond, SpaceCond, DrainedCond, QueueFds, WorkerTable]"

text \<open>From the queue on; the workers run between the start and the close of the listener.\<close>

definition run_threads :: "transport_answers \<Rightarrow> int \<times> os_call list" where
  "run_threads ans =
     (let tables = (if fds_ok ans then [Acquire QueueFds] else []) @ (if table_ok ans then [Acquire WorkerTable] else []);
          free_tables = (if fds_ok ans then [Release QueueFds] else []) @ (if table_ok ans then [Release WorkerTable] else [])
      in if \<not> fds_ok ans \<or> \<not> table_ok ans then (- 1, tables @ free_tables @ [Release Listener])
         else (case init_until (queue_parts ans) of
             (ready, False) \<Rightarrow>
               (- 1, tables @ map Acquire ready @ map Release (rev ready) @ free_tables @ [Release Listener])
           | (ready, True) \<Rightarrow>
               if started_workers ans = 0
               then (- 1, tables @ map Acquire ready @ release_queue @ [Release Listener])
               else (0, tables @ map Acquire ready @ [AcceptOn Listener, Release Listener] @ release_queue)))"

definition http_transport_run ::
    "transport_answers \<Rightarrow> environment \<Rightarrow> bytes option \<Rightarrow> int \<Rightarrow> int \<Rightarrow> int option \<times> os_call list" where
  "http_transport_run ans env host port cuda_flag =
     (if \<not> handlers_ok ans then (Some (- 1), [])
      else case open_listener (listener ans) host port of
        (None, calls) \<Rightarrow> (Some (- 1), calls)
      | (Some a, calls) \<Rightarrow>
          if cuda_flag = 0 \<and> parse_parallel_slots env > 1 then
            (if \<not> setenv_ok ans then (Some (- 1), calls @ [Release Listener])
             else (case run_cpu_process_slots (slots_allocated ans) (parse_parallel_slots env) (forks ans) (slot_events ans) of
                 (None, slot_calls) \<Rightarrow> (None, calls @ [SetSlotMode ''process''] @ slot_calls)
               | (Some result, slot_calls) \<Rightarrow>
                   let before = calls @ [SetSlotMode ''process''] @ slot_calls @ [Release Listener]
                   in if result \<noteq> - 2 then (Some result, before)
                      else (case run_threads ans of (r, rest) \<Rightarrow> (Some r, before @ [SetSlotMode ''serialized''] @ rest))))
          else (case run_threads ans of (r, rest) \<Rightarrow> (Some r, calls @ [SetSlotMode ''serialized''] @ rest)))"

subsection \<open>Resources\<close>

text \<open>
  A sequence of calls is clean if it releases and uses only what is held, acquires nothing twice,
  and holds nothing in the end.
\<close>

fun holds :: "resource set \<Rightarrow> os_call list \<Rightarrow> resource set option" where
  "holds own [] = Some own"
| "holds own (Acquire r # cs) = (if r \<in> own then None else holds (insert r own) cs)"
| "holds own (Release r # cs) = (if r \<in> own then holds (own - {r}) cs else None)"
| "holds own (AcceptOn r # cs) = (if r \<in> own then holds own cs else None)"
| "holds own (Kill pid # cs) = (if Child pid \<in> own then holds own cs else None)"
| "holds own (SetSlotMode m # cs) = holds own cs"

definition clean :: "os_call list \<Rightarrow> bool" where
  "clean cs \<longleftrightarrow> holds {} cs = Some {}"

lemma holds_append: "holds h (xs @ ys) = (case holds h xs of None \<Rightarrow> None | Some h' \<Rightarrow> holds h' ys)"
  by (induction h xs rule: holds.induct) auto

lemma holds_threads: "holds {Listener} (snd (run_threads ans)) = Some {}"
  by (auto simp: run_threads_def queue_parts_def release_queue_def Let_def)

lemma holds_threads_closed: "holds {} (snd (run_threads ans)) = None"
  by (auto simp: run_threads_def queue_parts_def release_queue_def Let_def)

lemma holds_acquire:
  "distinct cs \<Longrightarrow> set cs \<inter> h = {} \<Longrightarrow> holds h (map Acquire cs) = Some (h \<union> set cs)"
  by (induction cs arbitrary: h) (auto simp: insert_commute)

lemma holds_kill: "\<forall>pid\<in>set cs. Child pid \<in> h \<Longrightarrow> holds h (map Kill cs) = Some h"
  by (induction cs arbitrary: h) auto

lemma holds_release: "distinct cs \<Longrightarrow> set cs \<subseteq> h \<Longrightarrow> holds h (map Release cs) = Some (h - set cs)"
proof (induction cs arbitrary: h)
  case (Cons c cs)
  then have "set cs \<subseteq> h - {c}" by auto
  with Cons show ?case by (auto simp: Diff_insert2 [symmetric])
qed simp

lemma fork_children_prefix: "prefix (fst (fork_children n fks)) fks"
  by (induction n fks rule: fork_children.induct) (auto split: prod.split)

lemma holds_slots:
  assumes "distinct fks" and "run_cpu_process_slots al n fks evs = (Some r, cs)"
  shows "holds {Listener} cs = Some {Listener}"
proof -
  let ?own = "{ChildTable, Listener}"
  define kids where "kids = fst (fork_children (nat (n - 1)) fks)"
  have d: "distinct kids" using fork_children_prefix assms(1) unfolding kids_def
    by (metis distinct_append prefix_def)
  define rs where "rs = map Child kids"
  have rs: "distinct rs" "set rs \<inter> ?own = {}" "\<forall>pid\<in>set kids. Child pid \<in> ?own \<union> set rs"
    using d by (auto simp: rs_def distinct_map inj_on_def)
  have "cs = [] \<or> cs = [Acquire ChildTable] @ map Acquire rs @ map Kill kids @ map Release rs @ [Release ChildTable]"
    using assms(2) by (auto simp: run_cpu_process_slots_def Let_def rs_def kids_def comp_def split: prod.splits if_splits)
  moreover have "holds {Listener} ([Acquire ChildTable] @ map Acquire rs @ map Kill kids @ map Release rs @
      [Release ChildTable]) = Some {Listener}"
  proof -
    have "?own \<union> set rs - set rs = ?own" using rs(2) by blast
    then show ?thesis
      using holds_acquire [OF rs(1,2)] holds_kill [OF rs(3)] holds_release [OF rs(1) Un_upper2, of ?own]
      by (simp add: holds_append insert_commute)
  qed
  ultimately show ?thesis by (metis holds.simps(1))
qed

text \<open>The slots could not be had, and the transport goes on with threads.\<close>

definition falls_back :: "transport_answers \<Rightarrow> environment \<Rightarrow> int \<Rightarrow> bool" where
  "falls_back ans env cuda_flag \<longleftrightarrow> cuda_flag = 0 \<and> parse_parallel_slots env > 1 \<and>
     fst (run_cpu_process_slots (slots_allocated ans) (parse_parallel_slots env) (forks ans) (slot_events ans)) = Some (- 2)"

lemma holds_listener:
  "open_listener a host port = (None, cs) \<Longrightarrow> holds {} cs = Some {}"
  "open_listener a host port = (Some ad, cs) \<Longrightarrow> cs = [Acquire Listener]"
  by (auto simp: open_listener_def split: option.splits if_splits)

lemma transport_clean:
  assumes "distinct (forks ans)" and "\<not> falls_back ans env cuda_flag"
    and "http_transport_run ans env host port cuda_flag = (Some r, cs)"
  shows "clean cs"
proof (cases "\<not> handlers_ok ans")
  case True
  then show ?thesis using assms(3) by (simp add: http_transport_run_def clean_def)
next
  case False
  obtain ad ls where l: "open_listener (listener ans) host port = (ad, ls)" by fastforce
  obtain tr tcs where t: "run_threads ans = (tr, tcs)" by fastforce
  have tcs: "holds {Listener} tcs = Some {}" using holds_threads [of ans] t by simp
  show ?thesis
  proof (cases ad)
    case None
    then show ?thesis using assms(3) False l holds_listener(1) by (auto simp: http_transport_run_def clean_def)
  next
    case (Some a)
    have ls: "ls = [Acquire Listener]" using holds_listener(2) l Some by simp
    show ?thesis
    proof (cases "cuda_flag = 0 \<and> parse_parallel_slots env > 1")
      case threads: False
      then show ?thesis using assms(3) False l Some ls t tcs
        by (auto simp: http_transport_run_def clean_def)
    next
      case slots: True
      obtain sr scs where s: "run_cpu_process_slots (slots_allocated ans) (parse_parallel_slots env) (forks ans)
          (slot_events ans) = (sr, scs)" by fastforce
      have "sr \<noteq> Some (- 2)" using assms(2) slots s by (simp add: falls_back_def)
      then show ?thesis using assms(1,3) False l Some ls slots s holds_slots [OF assms(1)]
        by (cases sr) (auto simp: http_transport_run_def clean_def holds_append Let_def split: if_splits)
    qed
  qed
qed

text \<open>After the fallback the listener is used and closed again.\<close>

lemma fallback_unclean:
  assumes "falls_back ans env cuda_flag" and "setenv_ok ans" and "distinct (forks ans)"
    and "handlers_ok ans" and "open_listener (listener ans) host port = (Some ad, calls)"
    and "http_transport_run ans env host port cuda_flag = (Some r, cs)"
  shows "holds {} cs = None"
proof -
  have calls: "calls = [Acquire Listener]" using holds_listener(2) [OF assms(5)] .
  obtain scs where s: "run_cpu_process_slots (slots_allocated ans) (parse_parallel_slots env) (forks ans)
      (slot_events ans) = (Some (- 2), scs)"
    using assms(1) by (cases "run_cpu_process_slots (slots_allocated ans) (parse_parallel_slots env) (forks ans)
      (slot_events ans)") (simp add: falls_back_def)
  obtain tr tcs where t: "run_threads ans = (tr, tcs)" by fastforce
  have cs: "cs = calls @ [SetSlotMode ''process''] @ scs @ [Release Listener] @ [SetSlotMode ''serialized''] @ tcs"
    using assms(1,2,4-6) s t by (simp add: http_transport_run_def falls_back_def Let_def)
  have "holds {} tcs = None" using t holds_threads_closed [of ans] by simp
  then show ?thesis using holds_slots [OF assms(3) s] by (simp add: cs calls holds_append)
qed

subsection \<open>Properties\<close>

definition good_listener :: listener_answers where
  "good_listener = \<lparr>socket_ok = True, inet_pton = (\<lambda>_. None), resolve = (\<lambda>_. None), bind_ok = True, listen_ok = True\<rparr>"

definition good_answers :: transport_answers where
  "good_answers = \<lparr>handlers_ok = True, listener = good_listener, setenv_ok = True, slots_allocated = True,
     forks = [11, - 1], slot_events = [LClient 5, LStopped], fds_ok = True, table_ok = True, mutex_ok = True,
     available_ok = True, space_ok = True, drained_ok = True, started_workers = 1\<rparr>"

definition slots_env :: "bytes \<Rightarrow> environment" where
  "slots_env n = [''FORTAI_PARALLEL'' \<mapsto> n]"

text \<open>
  C11: The transport cleans up on every path, whichever initialisation fails: the listener, the
  tables, the mutex, each condition variable and every forked child are released exactly once and
  after their last use. Excepted is the path that falls back from process slots to threads.
\<close>

theorem transport_releases_everything:
  assumes "distinct (forks ans)" and "\<not> falls_back ans env cuda_flag"
    and "http_transport_run ans env host port cuda_flag = (Some r, cs)"
  shows "clean cs"
  using assms by (rule transport_clean)

lemma two_slots: "parse_parallel_slots (slots_env ''2'') = 2"
  by (simp add: parse_parallel_slots_def slots_env_def parse_count_def strtol_def strto_digits_def strto_sign_def
      isspace_def isdigit_def LONG_MAX_def)

theorem transport_releases_everything_witness:
  "clean (snd (http_transport_run good_answers (slots_env ''2'') None 8080 0)) \<and>
   Acquire (Child 11) \<in> set (snd (http_transport_run good_answers (slots_env ''2'') None 8080 0))"
proof -
  have d: "distinct (forks good_answers)" by (simp add: good_answers_def)
  have f: "\<not> falls_back good_answers (slots_env ''2'') 0"
    by (simp add: falls_back_def two_slots good_answers_def run_cpu_process_slots_def)
  have "http_transport_run good_answers (slots_env ''2'') None 8080 0 =
      (Some 0, [Acquire Listener, SetSlotMode ''process'', Acquire ChildTable, Acquire (Child 11),
        Kill 11, Release (Child 11), Release ChildTable, Release Listener])"
    by (simp add: http_transport_run_def two_slots good_answers_def good_listener_def open_listener_def
        listen_address_def run_cpu_process_slots_def)
  then show ?thesis using transport_releases_everything [OF d f] by (metis snd_conv list.set_intros)
qed

text \<open>
  When the process slots cannot be had, the listener is closed, and the threads that replace them
  accept on the closed descriptor and close it once more: the calls are not clean, whatever follows.
\<close>

theorem fallback_uses_closed_listener:
  assumes "falls_back ans env cuda_flag" and "setenv_ok ans" and "distinct (forks ans)"
    and "handlers_ok ans" and "open_listener (listener ans) host port = (Some ad, calls)"
    and "http_transport_run ans env host port cuda_flag = (Some r, cs)"
  shows "\<not> clean cs"
  using fallback_unclean [OF assms] by (simp add: clean_def)

theorem fallback_uses_closed_listener_witness:
  "\<not> clean (snd (http_transport_run (good_answers\<lparr>slots_allocated := False\<rparr>) (slots_env ''2'') None 8080 0))"
proof -
  let ?a = "good_answers\<lparr>slots_allocated := False\<rparr>"
  have l: "open_listener (listener ?a) None 8080 = (Some \<lparr>sin_port = 8080, sin_addr = 0\<rparr>, [Acquire Listener])"
    by (simp add: good_answers_def good_listener_def open_listener_def listen_address_def)
  have f: "falls_back ?a (slots_env ''2'') 0"
    by (simp add: falls_back_def two_slots run_cpu_process_slots_def)
  have "run_cpu_process_slots False 2 fks evs = (Some (- 2), [])" for fks evs
    by (simp add: run_cpu_process_slots_def)
  then obtain r cs where run: "http_transport_run ?a (slots_env ''2'') None 8080 0 = (Some r, cs)"
    using l by (cases "run_threads ?a") (simp add: http_transport_run_def two_slots good_answers_def)
  show ?thesis using fallback_uses_closed_listener [OF f _ _ _ l run] run by (simp add: good_answers_def)
qed

text \<open>
  A client end to end: of a request that arrives whole, authorized and without an \<open>Origin\<close>, the
  handler sees exactly the framed bytes, once; the client gets the one message with the handler's
  body, and its connection is closed.
\<close>

lemma client_answered:
  assumes "delivers incoming" and "\<forall>k. alloc k" and "lengths_given (stream incoming)"
    and "frame (stream incoming) = Some n" and "n \<le> length (stream incoming)"
    and "\<not> is_options (take n (stream incoming))" and "authorized env fs (take n (stream incoming))"
    and "generate s (take n (stream incoming)) = ((body, mime, st), s')"
    and "length body < FORTAI_HTTP_INITIAL_RESPONSE" and "length mime < 127" and "plain mime"
    and "request_origin (take n (stream incoming)) = []" and "env_strings env"
    and "length (http_header env st mime (length body) []) < 2048"
    and "accepts evs" and "length (http_header env st mime (length body) []) + length body \<le> accepted evs"
  shows "close_client alloc env fs (serve generate) server client incoming evs s =
    Some (http_header env st mime (length body) [] @ body, s', [Release (Client client)])"
proof -
  have mime: "cstr mime = mime" using assms(11) by (simp add: plain_def cstr_id)
  obtain rest where "http_status env evs st mime body [] =
      (SendOk, http_header env st mime (length body) [] @ body, rest)"
    using http_status_complete [OF assms(15,14,16)] by blast
  then show ?thesis
    using http_read_request_framed [OF assms(1-5)] mime
      dispatch_small [where generate = generate and s = s, OF assms(2,6-10)]
    by (simp add: close_client_def assms(12))
qed

text \<open>
  A client that is cut off before its request is whole never reaches the handler: nothing is
  sent, the state of the native side stays, and the connection is closed.
\<close>

lemma cut_off_client_unserved:
  assumes "lengths_given (stream incoming)" and "\<And>n. frame (stream incoming) = Some n \<Longrightarrow> length (stream incoming) < n"
    and "close_client alloc env fs native server client incoming evs s = Some (sent, s', calls)"
  shows "sent = [] \<and> s' = s \<and> calls = [Release (Client client)]"
proof -
  have "http_read_request alloc incoming \<noteq> ReadOk r" for r
    using http_read_request_frames [OF assms(1)] assms(2) by (metis linorder_not_le)
  then show ?thesis using assms(3)
    unfolding close_client_def by (cases "http_read_request alloc incoming") (metis, simp_all)
qed

end
