(* ===== verification/WordFacts.thy ===== *)
theory WordFacts
  imports Prelude
begin

unbundle bit_operations_syntax

section \<open>Machine words: masks and alignment\<close>

text \<open>
  Facts about \<open>w word\<close> the components with machine integers share: what masking with a power of two
  does to the value, and subtraction and addition that do not wrap.
\<close>

named_theorems wordval \<open>values of word operations as natural numbers\<close>

lemma unat_diff [wordval]: "b \<le> a \<Longrightarrow> unat (a - b) = unat a - unat b"
  for a b :: "'a::len word"
  by (rule unat_sub)

lemma unat_sum [wordval]: "unat a + unat b < 2 ^ LENGTH('a) \<Longrightarrow> unat (a + b) = unat a + unat b"
  for a b :: "'a::len word"
  by (simp add: unat_word_ariths)

lemma unat_power2 [wordval]: "k < LENGTH('a) \<Longrightarrow> unat (2 ^ k :: 'a::len word) = 2 ^ k"
proof -
  assume k: "k < LENGTH('a)"
  have "(2 ^ k :: 'a word) = word_of_nat (2 ^ k)" by simp
  then show ?thesis using k by (simp only: unat_of_nat) simp
qed

lemma unat_small [wordval]: "n < 2 ^ LENGTH('a) \<Longrightarrow> unat (word_of_nat n :: 'a::len word) = n"
  by (simp only: unat_of_nat mod_less)

lemma and_split: "(x AND NOT m) + (x AND m) = x"
  for x m :: "'a::len word"
proof -
  have "(x AND NOT m) AND (x AND m) = 0" by (rule bit_word_eqI) (simp add: bit_simps)
  then have "(x AND NOT m) + (x AND m) = (x AND NOT m) OR (x AND m)" by (rule disjunctive_add_eq_or)
  also have "\<dots> = x" by (rule bit_word_eqI) (auto simp: bit_simps)
  finally show ?thesis .
qed

lemma unat_and_mask [wordval]: "unat (x AND (2 ^ k - 1)) = unat x mod 2 ^ k"
  for x :: "'a::len word"
proof -
  have "x AND (2 ^ k - 1) = take_bit k x" by (simp only: mask_eq_exp_minus_1 take_bit_eq_mask)
  then have "unat (x AND (2 ^ k - 1)) = take_bit k (unat x)" by (simp only: unsigned_take_bit_eq)
  then show ?thesis by (simp only: take_bit_eq_mod)
qed

text \<open>Fields side by side: a disjunction is a sum.\<close>

lemma or_disjoint_nat: "(2::nat) ^ k dvd a \<Longrightarrow> b < 2 ^ k \<Longrightarrow> a OR b = a + b"
proof -
  assume "(2::nat) ^ k dvd a" and "b < 2 ^ k"
  then obtain c where a: "a = push_bit k c" by (auto simp: push_bit_eq_mult ac_simps elim: dvdE)
  have b: "b = take_bit k b" using \<open>b < 2 ^ k\<close> by (simp add: take_bit_eq_mod)
  have "a AND b = 0" unfolding a by (subst b, rule bit_eqI) (simp add: bit_simps)
  then show ?thesis by (simp add: disjunctive_add_eq_or)
qed

lemma unat_or_disjoint: "2 ^ k dvd unat a \<Longrightarrow> unat b < 2 ^ k \<Longrightarrow> unat (a OR b) = unat a + unat b"
  for a b :: "'a::len word"
  by (simp add: unsigned_or_eq or_disjoint_nat)

lemma unat_shift_right [wordval]: "unat (drop_bit k x) = unat x div 2 ^ k"
  for x :: "'a::len word"
  unfolding unat_drop_bit_eq by (rule drop_bit_eq_div)

lemma unat_shift_left [wordval]: "unat x * 2 ^ k < 2 ^ LENGTH('a) \<Longrightarrow> unat (push_bit k x) = unat x * 2 ^ k"
  for x :: "'a::len word"
  unfolding unsigned_push_bit_eq by (simp only: push_bit_eq_mult take_bit_eq_mod mod_less)

text \<open>Clearing the low bits rounds down to a multiple of the power.\<close>

lemma unat_align [wordval]: "unat (x AND NOT (2 ^ k - 1)) = unat x - unat x mod 2 ^ k"
  for x :: "'a::len word"
proof -
  have "x AND NOT (2 ^ k - 1) = x - (x AND (2 ^ k - 1))"
    using and_split [of x "2 ^ k - 1"] by (metis add_diff_cancel_right')
  moreover have "x AND (2 ^ k - 1) \<le> x" by (simp add: word_le_nat_alt unat_and_mask)
  ultimately show ?thesis by (simp add: unat_diff unat_and_mask)
qed

lemma align_down_near: "n < n - n mod 2 ^ k + (2::nat) ^ k"
proof -
  have "n mod 2 ^ k < (2::nat) ^ k" by simp
  then show ?thesis using mod_less_eq_dividend [of n "2 ^ k"] by linarith
qed

lemma align_down_dvd: "(2::nat) ^ k dvd n - n mod 2 ^ k"
  by (simp add: dvd_minus_mod)

lemma align_down_ge: "(2::nat) ^ k dvd m \<Longrightarrow> m \<le> n \<Longrightarrow> m \<le> n - n mod 2 ^ k"
proof -
  assume d: "(2::nat) ^ k dvd m" and "m \<le> n"
  then have "m = m div 2 ^ k * 2 ^ k" and "m div 2 ^ k \<le> n div 2 ^ k" by (simp_all add: div_le_mono)
  then show ?thesis by (metis minus_mod_eq_div_mult mult_le_mono1)
qed

text \<open>A number is put together from its digits.\<close>

lemma digits2: "n = n div (a * b) * (a * b) + n div a mod b * a + n mod a" for n a b :: nat
proof -
  have "n div a * a = (n div a div b * b + n div a mod b) * a" by (simp only: div_mult_mod_eq)
  also have "\<dots> = n div (a * b) * (a * b) + n div a mod b * a"
    by (simp only: div_mult2_eq [of n a b] add_mult_distrib mult.assoc) (simp add: mult.commute)
  finally show ?thesis using div_mod_decomp [of n a] by simp
qed

lemma middle_digit:
  fixes a b s e f :: nat
  assumes "f < b" and "e < a"
  shows "(s * (a * b) + e * b + f) div b = s * a + e" and "(s * (a * b) + e * b + f) div b mod a = e"
    and "(s * (a * b) + e * b + f) mod b = f"
proof -
  have eq: "s * (a * b) + e * b + f = f + (s * a + e) * b" by (simp add: algebra_simps)
  show "(s * (a * b) + e * b + f) div b = s * a + e" unfolding eq using assms by simp
  then show "(s * (a * b) + e * b + f) div b mod a = e" using assms(2) by simp
  show "(s * (a * b) + e * b + f) mod b = f" unfolding eq using assms(1) by simp
qed

lemma unat_and_bit: "unat (x AND 2 ^ k) = unat x div 2 ^ k mod 2 * 2 ^ k" if "k < LENGTH('a)"
  for x :: "'a::len word"
proof -
  have "x AND 2 ^ k = (if bit x k then 2 ^ k else 0)"
    by (rule bit_word_eqI) (auto simp: bit_simps)
  moreover have "bit x k \<longleftrightarrow> odd (unat x div 2 ^ k)"
    using bit_unsigned_iff [where 'a = nat, of x k] by (simp add: bit_iff_odd possible_bit_def)
  ultimately show ?thesis using that by (simp add: unat_power2 odd_iff_mod_2_eq_one)
qed

text \<open>A conversion to a wider word keeps the value, one to a narrower word the low bits.\<close>

lemma unat_widen: "LENGTH('a) \<le> LENGTH('b) \<Longrightarrow> unat (ucast x :: 'b::len word) = unat x" for x :: "'a::len word"
proof -
  assume le: "LENGTH('a) \<le> LENGTH('b)"
  have "unat x < 2 ^ LENGTH('a)" by (rule unsigned_less)
  also have "\<dots> \<le> 2 ^ LENGTH('b)" using le by (rule power_increasing) simp
  finally show ?thesis by (simp add: unsigned_ucast_eq take_bit_nat_eq_self)
qed

lemma unat_narrow: "unat (ucast x :: 'b::len word) = unat x mod 2 ^ LENGTH('b)" for x :: "'a::len word"
  by (simp add: unsigned_ucast_eq take_bit_eq_mod)

end
