(* ===== verification/GgufMap.thy ===== *)
theory GgufMap
  imports WordFacts
begin

unbundle bit_operations_syntax

section \<open>The read-only mapping of a GGUF file\<close>

text \<open>
  Models \<open>src/backend/cpu/fortai_gguf_mmap.c\<close>. Addresses, offsets and sizes are 64-bit words with
  the wrap-around of \<open>size_t\<close> and \<open>uintptr_t\<close>; the null pointer is 0. What \<open>open\<close>, \<open>fstat\<close>, \<open>mmap\<close>,
  \<open>sysconf\<close> and \<open>madvise\<close> answer is an argument.
\<close>

datatype file_call = OpenFile | CloseFile | MapFile u64 | UnmapFile u64 u64 | Advise u64 u64

record file_answers =
  open_ok :: bool
  file_size :: "int option"
  map_address :: "u64 option"

text \<open>The mapping and its size, or null and 0, and the calls made.\<close>

definition mmap_file :: "file_answers \<Rightarrow> (u64 \<times> u64) \<times> file_call list" where
  "mmap_file ans =
     (if \<not> open_ok ans then ((0, 0), [])
      else case file_size ans of
             None \<Rightarrow> ((0, 0), [OpenFile, CloseFile])
           | Some n \<Rightarrow>
               if n \<le> 0 then ((0, 0), [OpenFile, CloseFile])
               else (case map_address ans of
                   None \<Rightarrow> ((0, 0), [OpenFile, MapFile (word_of_int n), CloseFile])
                 | Some m \<Rightarrow> ((m, word_of_int n), [OpenFile, MapFile (word_of_int n), CloseFile])))"

definition outside :: "u64 \<Rightarrow> u64 \<Rightarrow> u64 \<Rightarrow> u64 \<Rightarrow> bool" where
  "outside mapping offset size' mapped_size \<longleftrightarrow>
     mapping = 0 \<or> size' = 0 \<or> offset > mapped_size \<or> size' > mapped_size - offset"

definition mmap_slice :: "u64 \<Rightarrow> u64 \<Rightarrow> u64 \<Rightarrow> u64 \<Rightarrow> u64" where
  "mmap_slice mapping offset size' mapped_size =
     (if outside mapping offset size' mapped_size then 0 else mapping + offset)"

definition munmap_file :: "u64 \<Rightarrow> u64 \<Rightarrow> file_call list" where
  "munmap_file mapping size' = (if mapping \<noteq> 0 \<and> size' > 0 then [UnmapFile mapping size'] else [])"

definition EINVAL :: int where "EINVAL = 22"

text \<open>The range given to \<open>madvise\<close>, from the first page of the slice to the end of its last.\<close>

definition evict_range :: "u64 \<Rightarrow> u64 \<Rightarrow> u64 \<Rightarrow> u64 \<Rightarrow> u64 \<Rightarrow> u64 \<times> u64" where
  "evict_range page mapping offset size' mapped_size =
     (let begin0 = mapping + offset;
          end0 = begin0 + size';
          mapping_end = mapping + mapped_size;
          first = begin0 AND NOT (page - 1);
          end1 = (if end0 > mapping_end then mapping_end else end0);
          end2 = (end1 + page - 1) AND NOT (page - 1);
          final = (if end2 > mapping_end then mapping_end else end2)
      in (first, final))"

definition mmap_evict :: "int \<Rightarrow> (u64 \<Rightarrow> u64 \<Rightarrow> int) \<Rightarrow> u64 \<Rightarrow> u64 \<Rightarrow> u64 \<Rightarrow> u64 \<Rightarrow> int \<times> file_call list" where
  "mmap_evict page_size madvise mapping offset size' mapped_size =
     (if outside mapping offset size' mapped_size then (EINVAL, [])
      else if page_size \<le> 0 then (EINVAL, [])
      else let (first, final) = evict_range (word_of_int page_size) mapping offset size' mapped_size
           in if final \<le> first then (0, [])
              else (madvise first (final - first), [Advise first (final - first)]))"

subsection \<open>Bounds\<close>

lemma outside_iff:
  "\<not> outside mapping offset size' mapped_size \<longleftrightarrow>
     mapping \<noteq> 0 \<and> size' \<noteq> 0 \<and> unat offset + unat size' \<le> unat mapped_size"
  by (auto simp: outside_def word_less_nat_alt word_le_nat_alt not_less unat_diff)

text \<open>A mapping as the kernel gives it: page aligned, and with a page to spare before the top.\<close>

definition mapped :: "nat \<Rightarrow> u64 \<Rightarrow> u64 \<Rightarrow> bool" where
  "mapped k mapping mapped_size \<longleftrightarrow> k < 63 \<and> (2::nat) ^ k dvd unat mapping \<and>
     unat mapping + unat mapped_size + 2 ^ k < 2 ^ 64"

lemma evict_range_values:
  assumes "mapped k mapping mapped_size" and "\<not> outside mapping offset size' mapped_size"
    and "evict_range (2 ^ k) mapping offset size' mapped_size = (first, final)"
  defines "b \<equiv> unat mapping + unat offset" and "e \<equiv> unat mapping + unat offset + unat size'"
    and "m \<equiv> unat mapping + unat mapped_size" and "p \<equiv> (2::nat) ^ k"
  shows "unat first = b - b mod p" and "unat final = min m (e + p - 1 - (e + p - 1) mod p)"
proof -
  have in_range: "0 < unat size'" "unat offset + unat size' \<le> unat mapped_size"
    and top: "m + p < 2 ^ 64" and k: "k < 63"
    using assms(1,2) by (auto simp: outside_iff mapped_def m_def p_def unat_gt_0)
  have p: "unat (2 ^ k :: u64) = p" "0 < p" using k by (simp_all add: p_def unat_power2)
  have b: "unat (mapping + offset) = b"
    using in_range top p by (simp add: unat_sum b_def m_def)
  have e: "unat (mapping + offset + size') = e"
    using in_range top p b by (simp add: unat_sum b_def e_def m_def)
  have m: "unat (mapping + mapped_size) = m"
    using top p by (simp add: unat_sum m_def)
  have le: "e \<le> m" using in_range by (simp add: e_def m_def)
  have e2: "unat (mapping + offset + size' + 2 ^ k - 1) = e + p - 1"
  proof -
    have "unat (mapping + offset + size' + 2 ^ k) = e + p"
      using e p le top by (simp add: unat_sum)
    moreover have "1 \<le> mapping + offset + size' + 2 ^ k"
      using calculation p by (simp add: word_le_nat_alt)
    ultimately show ?thesis by (simp add: unat_diff)
  qed
  show "unat first = b - b mod p" "unat final = min m (e + p - 1 - (e + p - 1) mod p)"
    using assms(3) b e m le e2 by (auto simp: evict_range_def Let_def unat_align p_def word_less_nat_alt min_def)
qed

text \<open>
  The advised range: inside the mapping, starting on a page, and around the slice by less than a
  page on either side.
\<close>

lemma evict_range_bounds:
  assumes "mapped k mapping mapped_size" and "\<not> outside mapping offset size' mapped_size"
    and "evict_range (2 ^ k) mapping offset size' mapped_size = (first, final)"
  shows "unat mapping \<le> unat first" and "unat first \<le> unat mapping + unat offset"
    and "unat mapping + unat offset + unat size' \<le> unat final" and "unat final \<le> unat mapping + unat mapped_size"
    and "2 ^ k dvd unat first" and "unat mapping + unat offset < unat first + 2 ^ k"
    and "unat final < unat mapping + unat offset + unat size' + 2 ^ k"
proof -
  let ?b = "unat mapping + unat offset" and ?e = "unat mapping + unat offset + unat size'"
    and ?m = "unat mapping + unat mapped_size" and ?p = "(2::nat) ^ k"
  have v: "unat first = ?b - ?b mod ?p" "unat final = min ?m (?e + ?p - 1 - (?e + ?p - 1) mod ?p)"
    using evict_range_values [OF assms] by simp_all
  have le: "?e \<le> ?m" and dvd: "?p dvd unat mapping" using assms(1,2) by (auto simp: outside_iff mapped_def)
  have p: "0 < ?p" by simp
  show "unat mapping \<le> unat first" unfolding v by (rule align_down_ge [OF dvd]) simp
  show "unat first \<le> ?b" unfolding v by simp
  show "?e \<le> unat final"
    unfolding v using le align_down_near [of "?e + ?p - 1" k] p by linarith
  show "unat final \<le> ?m" unfolding v by simp
  show "?p dvd unat first" unfolding v by (rule align_down_dvd)
  show "?b < unat first + ?p" unfolding v by (rule align_down_near)
  show "unat final < ?e + ?p"
  proof -
    have "unat final \<le> ?e + ?p - 1" unfolding v by simp
    then show ?thesis using p by linarith
  qed
qed

subsection \<open>Properties\<close>

text \<open>
  C26: A tensor view is handed out exactly when it lies inside the mapping, also for offsets and sizes
  whose sum wraps around, and then the view is the mapping's address plus the offset.
\<close>

theorem mmap_slice_in_bounds:
  "mmap_slice mapping offset size' mapped_size =
     (if mapping \<noteq> 0 \<and> size' \<noteq> 0 \<and> unat offset + unat size' \<le> unat mapped_size then mapping + offset else 0)"
  unfolding mmap_slice_def using outside_iff [of mapping offset size' mapped_size] by auto

text \<open>
  Evicting a slice advises the kernel about a page-aligned range that stays inside the mapping,
  covers the slice, and exceeds it by less than a page at either end.
\<close>

theorem mmap_evict_range:
  assumes "mapped k mapping mapped_size" and "\<not> outside mapping offset size' mapped_size"
  shows "\<exists>first len. mmap_evict (2 ^ k) madvise mapping offset size' mapped_size =
      (madvise first len, [Advise first len]) \<and>
    2 ^ k dvd unat first \<and> unat mapping \<le> unat first \<and> unat first \<le> unat mapping + unat offset \<and>
    unat mapping + unat offset < unat first + 2 ^ k \<and>
    unat mapping + unat offset + unat size' \<le> unat first + unat len \<and>
    unat first + unat len \<le> unat mapping + unat mapped_size \<and>
    unat first + unat len < unat mapping + unat offset + unat size' + 2 ^ k"
proof -
  obtain first final where r: "evict_range (2 ^ k) mapping offset size' mapped_size = (first, final)" by fastforce
  note bounds = evict_range_bounds [OF assms r]
  have "0 < unat size'" using assms(2) by (auto simp: outside_iff unat_gt_0)
  then have lt: "unat first < unat final" using bounds(2,3) by linarith
  then have "\<not> final \<le> first" by (simp add: word_le_nat_alt)
  moreover have "unat first + unat (final - first) = unat final"
    using lt by (simp add: unat_diff word_le_nat_alt)
  moreover have "(word_of_int (2 ^ k) :: u64) = 2 ^ k" by simp
  ultimately show ?thesis
    using assms(2) r bounds by (intro exI [where x = first] exI [where x = "final - first"]) (simp add: mmap_evict_def)
qed

theorem mmap_evict_range_witness:
  "\<exists>first len. mmap_evict (2 ^ 12) (\<lambda>_ _. 0) 0x10000 0x1800 0x20 0x3000 = (0, [Advise first len])"
proof -
  have "mapped 12 0x10000 0x3000" by (simp add: mapped_def)
  moreover have "\<not> outside 0x10000 0x1800 0x20 0x3000" by (simp add: outside_def)
  ultimately show ?thesis using mmap_evict_range [of 12 "0x10000" "0x3000" "0x1800" "0x20" "\<lambda>_ _. 0"] by blast
qed

text \<open>
  Mapping a file closes the descriptor on every path on which it was opened, and reports a size
  other than 0 only together with the mapping.
\<close>

theorem mmap_file_closes:
  "count_list (snd (mmap_file ans)) OpenFile = count_list (snd (mmap_file ans)) CloseFile \<and>
   (snd (fst (mmap_file ans)) \<noteq> 0 \<longrightarrow> map_address ans = Some (fst (fst (mmap_file ans))))"
  by (auto simp: mmap_file_def split: option.splits)

theorem mmap_file_closes_witness:
  "map_address \<lparr>open_ok = True, file_size = Some 5, map_address = Some 0x10000\<rparr> = Some 0x10000"
  using mmap_file_closes [of "\<lparr>open_ok = True, file_size = Some 5, map_address = Some 0x10000\<rparr>"]
  by (simp add: mmap_file_def)

end
