(* ===== verification/HalfFloat.thy ===== *)
theory HalfFloat
  imports WordFacts
begin

unbundle bit_operations_syntax

section \<open>Half precision: the conversions of the CPU kernels\<close>

text \<open>
  Models \<open>half_to_float\<close> and \<open>float_to_half\<close> of \<open>src/backend/cpu/fortai_q8_dot.c\<close> on the bit
  patterns: a half is a 16-bit word, a \<open>float\<close> the 32-bit word of its IEEE 754 encoding, which is
  what \<open>memcpy\<close> gives. \<open>float32\<close> and \<open>float16\<close> compose a pattern from its sign, exponent and
  fraction fields.
\<close>

text \<open>
  The loop that normalises a subnormal fraction. It ends when bit 10 is set, at most ten rounds for a
  fraction that is not 0; the bound on \<open>shift\<close> makes it total and is never met
  (\<open>normalize_half_value\<close>).
\<close>

function normalize_half :: "u32 \<Rightarrow> nat \<Rightarrow> u32 \<times> nat" where
  "normalize_half normalized shift =
     (if normalized AND 0x0400 = 0 \<and> shift < 32 then normalize_half (push_bit 1 normalized) (shift + 1)
      else (normalized, shift))"
  by pat_completeness auto
termination
  by (relation "measure (\<lambda>(n, shift). 32 - shift)") auto

declare normalize_half.simps [simp del]

definition half_to_float :: "u16 \<Rightarrow> u32" where
  "half_to_float value =
     (let v = (ucast value :: u32);
          sign = push_bit 16 (v AND 0x8000);
          exponent = drop_bit 10 v AND 0x1f;
          fraction = v AND 0x03ff
      in if exponent = 0 then
           (if fraction = 0 then sign
            else let (normalized, shift) = normalize_half fraction 0
                 in sign OR push_bit 23 (word_of_int (127 - 15 - int shift + 1)) OR
                    push_bit 13 (normalized AND 0x03ff))
         else if exponent = 0x1f then sign OR 0x7f800000 OR push_bit 13 fraction
         else sign OR push_bit 23 (exponent + 112) OR push_bit 13 fraction)"

text \<open>Rounding to nearest, ties to even, as both branches of the conversion do it.\<close>

definition round_shift :: "u32 \<Rightarrow> nat \<Rightarrow> u32" where
  "round_shift fraction shift =
     (let rounded = drop_bit shift fraction;
          remainder = fraction AND (push_bit shift 1 - 1);
          halfway = push_bit (shift - 1) 1
      in if remainder > halfway \<or> (remainder = halfway \<and> rounded AND 1 \<noteq> 0) then rounded + 1 else rounded)"

definition float_to_half :: "u32 \<Rightarrow> u16" where
  "float_to_half bits =
     (let sign = drop_bit 16 bits AND 0x8000;
          exponent_bits = drop_bit 23 bits AND 0xff;
          fraction = bits AND 0x007fffff
      in if exponent_bits = 0xff then
           (if fraction = 0 then ucast (sign OR 0x7c00)
            else let f = drop_bit 13 fraction in ucast (sign OR 0x7c00 OR (if f = 0 then 1 else f)))
         else if exponent_bits = 0 then ucast sign
         else let exponent = uint exponent_bits - 127
              in if exponent < - 14 then
                   (if exponent < - 25 then ucast sign
                    else ucast (sign OR round_shift (fraction OR 0x00800000) (nat (- exponent - 1))))
                 else if exponent > 15 then ucast (sign OR 0x7c00)
                 else let rounded = round_shift fraction 13;
                          carried = (rounded = 0x400);
                          exponent' = (if carried then exponent + 1 else exponent)
                      in if carried \<and> exponent' > 15 then ucast (sign OR 0x7c00)
                         else ucast (sign OR push_bit 10 (word_of_int (exponent' + 15)) OR
                                (if carried then 0 else rounded)))"

subsection \<open>Fields\<close>

definition float32 :: "nat \<Rightarrow> nat \<Rightarrow> nat \<Rightarrow> u32" where
  "float32 s e f = word_of_nat (s * 2 ^ 31 + e * 2 ^ 23 + f)"

definition float16 :: "nat \<Rightarrow> nat \<Rightarrow> nat \<Rightarrow> u16" where
  "float16 s e f = word_of_nat (s * 2 ^ 15 + e * 2 ^ 10 + f)"

definition fields32 :: "nat \<Rightarrow> nat \<Rightarrow> nat \<Rightarrow> bool" where
  "fields32 s e f \<longleftrightarrow> s < 2 \<and> e < 2 ^ 8 \<and> f < 2 ^ 23"

definition fields16 :: "nat \<Rightarrow> nat \<Rightarrow> nat \<Rightarrow> bool" where
  "fields16 s e f \<longleftrightarrow> s < 2 \<and> e < 2 ^ 5 \<and> f < 2 ^ 10"

lemma unat_float32: "fields32 s e f \<Longrightarrow> unat (float32 s e f) = s * 2 ^ 31 + e * 2 ^ 23 + f"
  unfolding float32_def fields32_def by (rule unat_small) simp

lemma unat_float16: "fields16 s e f \<Longrightarrow> unat (float16 s e f) = s * 2 ^ 15 + e * 2 ^ 10 + f"
  unfolding float16_def fields16_def by (rule unat_small) simp

lemma word_of_nat_unat: "word_of_nat (unat h) = h" for h :: "'a::len word"
  by simp

lemma float16_cases: "\<exists>s e f. fields16 s e f \<and> h = float16 s e f"
proof (intro exI conjI)
  have "unat h < 2 ^ 16" using unsigned_less [of h] by simp
  then show "fields16 (unat h div 2 ^ 15) (unat h div 2 ^ 10 mod 2 ^ 5) (unat h mod 2 ^ 10)"
    by (simp add: fields16_def)
  have "unat h = unat h div 2 ^ 15 * 2 ^ 15 + unat h div 2 ^ 10 mod 2 ^ 5 * 2 ^ 10 + unat h mod 2 ^ 10"
    using digits2 [of "unat h" "2 ^ 10" "2 ^ 5"] by simp
  then show "h = float16 (unat h div 2 ^ 15) (unat h div 2 ^ 10 mod 2 ^ 5) (unat h mod 2 ^ 10)"
    unfolding float16_def by (metis word_of_nat_unat)
qed

text \<open>Three fields put together by disjunction.\<close>

lemma or_fields:
  "unat a = s * 2 ^ (n + m) \<Longrightarrow> unat b = e * 2 ^ m \<Longrightarrow> unat c = f \<Longrightarrow> e < 2 ^ n \<Longrightarrow> f < 2 ^ m \<Longrightarrow>
   unat (a OR b OR c) = s * 2 ^ (n + m) + e * 2 ^ m + f"
  for a b c :: "'a::len word"
proof -
  assume a: "unat a = s * 2 ^ (n + m)" and b: "unat b = e * 2 ^ m" and c: "unat c = f"
    and e: "e < 2 ^ n" and f: "f < 2 ^ m"
  have "unat (b OR c) = e * 2 ^ m + f" using unat_or_disjoint [of m b c] b c f by simp
  moreover have "e * 2 ^ m + f < 2 ^ (n + m)"
  proof -
    have "(e + 1) * 2 ^ m \<le> 2 ^ n * 2 ^ m" using e by (intro mult_le_mono1) simp
    then show ?thesis using f by (simp add: power_add)
  qed
  ultimately show ?thesis using unat_or_disjoint [of "n + m" a "b OR c"] a by simp
qed

lemma half_fields:
  fixes v :: u32
  assumes "fields16 s e f" and "unat v = s * 2 ^ 15 + e * 2 ^ 10 + f"
  shows "unat (push_bit 16 (v AND 0x8000)) = s * 2 ^ 31" and "drop_bit 10 v AND 0x1f = word_of_nat e"
    and "v AND 0x03ff = word_of_nat f"
proof -
  have b: "s < 2" "e < 32" "f < 1024" using assms(1) by (auto simp: fields16_def)
  have "unat (v AND 0x8000) = s * 2 ^ 15"
    using unat_and_bit [of 15 v] b assms(2) by simp
  then show "unat (push_bit 16 (v AND 0x8000)) = s * 2 ^ 31" using b unat_shift_left [of "v AND 0x8000" 16] by simp
  have "unat (drop_bit 10 v AND (2 ^ 5 - 1)) = e"
    unfolding unat_and_mask unat_shift_right assms(2) using middle_digit(2) [of f "2 ^ 10" e "2 ^ 5" s] b by simp
  then show "drop_bit 10 v AND 0x1f = word_of_nat e" by auto
  have "unat (v AND (2 ^ 10 - 1)) = f" unfolding unat_and_mask assms(2) using middle_digit(3) [of f "2 ^ 10" e "2 ^ 5" s] b by simp
  then show "v AND 0x03ff = word_of_nat f" by auto
qed

lemma unat_bit10: "unat (w AND 0x0400) = unat w div 1024 mod 2 * 1024" for w :: u32
  using unat_and_bit [of 10 w] by simp

text \<open>The normalising loop doubles the fraction until it has eleven bits.\<close>

lemma normalize_half_value:
  fixes f :: nat
  assumes "1024 \<le> f * 2 ^ k" and "f * 2 ^ k < 2048" and "k \<le> 10"
  shows "i \<le> k \<Longrightarrow> normalize_half (word_of_nat (f * 2 ^ i)) i = (word_of_nat (f * 2 ^ k), k)"
proof (induction "k - i" arbitrary: i)
  case 0
  then have i: "i = k" by simp
  have "unat (word_of_nat (f * 2 ^ k) :: u32) = f * 2 ^ k" using assms(2) by (intro unat_small) simp
  then have "unat (word_of_nat (f * 2 ^ k) AND (0x0400 :: u32)) = 1024"
    unfolding unat_bit10 using assms(1,2) by (simp del: of_nat_mult of_nat_power)
  then have "word_of_nat (f * 2 ^ k) AND (0x0400 :: u32) \<noteq> 0" by auto
  then show ?case unfolding i by (subst normalize_half.simps) simp
next
  case (Suc d)
  then have lt: "i < k" and d: "d = k - Suc i" by simp_all
  have "2 * (f * 2 ^ i) = f * 2 ^ Suc i" by simp
  also have "\<dots> \<le> f * 2 ^ k" using lt by (intro mult_le_mono power_increasing) simp_all
  finally have small: "f * 2 ^ i < 1024" using assms(2) by linarith
  have "unat (word_of_nat (f * 2 ^ i) :: u32) = f * 2 ^ i" using small by (intro unat_small) simp
  then have "unat (word_of_nat (f * 2 ^ i) AND (0x0400 :: u32)) = 0"
    unfolding unat_bit10 using small by (simp del: of_nat_mult of_nat_power)
  then have z: "word_of_nat (f * 2 ^ i) AND (0x0400 :: u32) = 0" by (simp only: unat_eq_0)
  have "push_bit 1 (word_of_nat (f * 2 ^ i) :: u32) = word_of_nat (f * 2 ^ Suc i)" by simp
  moreover have "normalize_half (word_of_nat (f * 2 ^ i)) i = normalize_half (push_bit 1 (word_of_nat (f * 2 ^ i))) (Suc i)"
    using lt z assms(3) by (subst normalize_half.simps) (simp del: of_nat_mult of_nat_power)
  ultimately show ?case using Suc(1) [OF d] lt by (simp only:)
qed

lemma normalize_shift_exists:
  fixes f :: nat
  assumes "0 < f" and "f < 1024"
  obtains k where "1 \<le> k" and "k \<le> 10" and "1024 \<le> f * 2 ^ k" and "f * 2 ^ k < 2048"
proof -
  define k where "k = (LEAST k. 1024 \<le> f * 2 ^ k)"
  have ge: "1024 \<le> f * 2 ^ k" unfolding k_def by (rule LeastI [where k = 10]) (use assms in simp)
  have le: "k \<le> 10" unfolding k_def by (rule Least_le) (use assms in simp)
  have k0: "1 \<le> k" using ge assms(2) by (cases k) simp_all
  have "\<not> 1024 \<le> f * 2 ^ (k - 1)" unfolding k_def by (rule not_less_Least) (use k0 k_def in simp)
  moreover have "f * 2 ^ k = 2 * (f * 2 ^ (k - 1))" using k0 by (cases k) simp_all
  ultimately have "f * 2 ^ k < 2048" by linarith
  then show ?thesis using that ge le k0 by simp
qed

lemma float32_eqI: "unat w = s * 2 ^ 31 + e * 2 ^ 23 + f \<Longrightarrow> w = float32 s e f"
  unfolding float32_def by (metis word_of_nat_unat)

text \<open>What each half becomes: the same sign, and the fields of the same value.\<close>

lemma half_to_float_fields:
  assumes "fields16 s e f"
  shows "e = 0 \<Longrightarrow> f = 0 \<Longrightarrow> half_to_float (float16 s e f) = float32 s 0 0"
    and "e = 31 \<Longrightarrow> half_to_float (float16 s e f) = float32 s 255 (f * 2 ^ 13)"
    and "0 < e \<Longrightarrow> e < 31 \<Longrightarrow> half_to_float (float16 s e f) = float32 s (e + 112) (f * 2 ^ 13)"
    and "e = 0 \<Longrightarrow> 1 \<le> k \<Longrightarrow> k \<le> 10 \<Longrightarrow> 1024 \<le> f * 2 ^ k \<Longrightarrow> f * 2 ^ k < 2048 \<Longrightarrow>
           half_to_float (float16 s e f) = float32 s (113 - k) ((f * 2 ^ k - 1024) * 2 ^ 13)"
proof -
  define v :: u32 where "v = ucast (float16 s e f)"
  have b: "s < 2" "e < 32" "f < 1024" using assms by (auto simp: fields16_def)
  have "unat v = unat (float16 s e f)"
    unfolding v_def by (rule unat_widen) simp
  then have v: "unat v = s * 2 ^ 15 + e * 2 ^ 10 + f" using unat_float16 [OF assms] by simp
  note h = half_fields [OF assms v]
  have e: "(word_of_nat e = (0::u32)) = (e = 0)" "(word_of_nat e = (0x1f::u32)) = (e = 31)"
    and f: "(word_of_nat f = (0::u32)) = (f = 0)"
    using b by (simp_all add: word_unat_eq_iff unat_small)
  have expand: "half_to_float (float16 s e f) =
      (if e = 0 then
           (if f = 0 then push_bit 16 (v AND 0x8000)
            else let (normalized, shift) = normalize_half (word_of_nat f) 0
                 in push_bit 16 (v AND 0x8000) OR push_bit 23 (word_of_int (127 - 15 - int shift + 1)) OR
                    push_bit 13 (normalized AND 0x03ff))
         else if e = 31 then push_bit 16 (v AND 0x8000) OR 0x7f800000 OR push_bit 13 (word_of_nat f)
         else push_bit 16 (v AND 0x8000) OR push_bit 23 (word_of_nat e + 112) OR push_bit 13 (word_of_nat f))"
    unfolding half_to_float_def Let_def v_def [symmetric] h(2,3) e f by (rule refl)
  have frac: "unat (push_bit 13 (word_of_nat n :: u32)) = n * 2 ^ 13" if "n < 1024" for n
    using that by (subst unat_shift_left) (simp_all add: unat_small)
  show "e = 0 \<Longrightarrow> f = 0 \<Longrightarrow> half_to_float (float16 s e f) = float32 s 0 0"
    unfolding expand using h(1) by (intro float32_eqI) simp
  show "e = 31 \<Longrightarrow> half_to_float (float16 s e f) = float32 s 255 (f * 2 ^ 13)"
    unfolding expand using or_fields [of _ s 8 23 "0x7f800000 :: u32" 255 _ "f * 2 ^ 13"] h(1) frac [OF b(3)] b
    by (intro float32_eqI) simp
  show "0 < e \<Longrightarrow> e < 31 \<Longrightarrow> half_to_float (float16 s e f) = float32 s (e + 112) (f * 2 ^ 13)"
  proof -
    assume "0 < e" "e < 31"
    have "unat (word_of_nat e + 112 :: u32) = e + 112"
      using b by (subst unat_sum) (simp_all add: unat_small)
    then have "unat (push_bit 23 (word_of_nat e + 112 :: u32)) = (e + 112) * 2 ^ 23"
      using \<open>e < 31\<close> by (subst unat_shift_left) simp_all
    then show ?thesis unfolding expand
      using or_fields [of _ s 8 23 "push_bit 23 (word_of_nat e + 112 :: u32)" "e + 112" _ "f * 2 ^ 13"]
        h(1) frac [OF b(3)] b \<open>0 < e\<close> \<open>e < 31\<close>
      by (intro float32_eqI) simp
  qed
  show "half_to_float (float16 s e f) = float32 s (113 - k) ((f * 2 ^ k - 1024) * 2 ^ 13)"
    if "e = 0" and k: "1 \<le> k" "k \<le> 10" and f: "1024 \<le> f * 2 ^ k" "f * 2 ^ k < 2048"
  proof -
    have ne: "f \<noteq> 0" using f(1) by (intro notI) simp
    have norm: "normalize_half (word_of_nat f) 0 = (word_of_nat (f * 2 ^ k), k)"
      using normalize_half_value [OF f k(2), of 0] by simp
    have "unat (word_of_nat (f * 2 ^ k) :: u32) = f * 2 ^ k" using f by (intro unat_small) simp
    then have "unat (word_of_nat (f * 2 ^ k) AND (2 ^ 10 - 1) :: u32) = f * 2 ^ k - 1024"
      unfolding unat_and_mask using f by (simp add: mod_if del: of_nat_mult of_nat_power)
    moreover have "(2 ^ 10 - 1 :: u32) = 0x03ff" by simp
    ultimately have "unat (word_of_nat (f * 2 ^ k) AND (0x03ff :: u32)) = f * 2 ^ k - 1024" by (simp only:)
    from arg_cong [OF this, of "word_of_nat :: nat \<Rightarrow> u32"]
    have m: "word_of_nat (f * 2 ^ k) AND (0x03ff :: u32) = word_of_nat (f * 2 ^ k - 1024)"
      by (simp only: word_of_nat_unat)
    have "(word_of_int (127 - 15 - int k + 1) :: u32) = word_of_nat (113 - k)"
      using k by (simp add: of_nat_diff)
    then have ex: "unat (push_bit 23 (word_of_int (127 - 15 - int k + 1) :: u32)) = (113 - k) * 2 ^ 23"
      using k by (simp only:) (subst unat_shift_left; simp add: unat_small del: of_nat_diff)
    have "unat (push_bit 16 (v AND 0x8000) OR push_bit 23 (word_of_int (127 - 15 - int k + 1)) OR
        push_bit 13 (word_of_nat (f * 2 ^ k - 1024))) =
        s * 2 ^ (8 + 23) + (113 - k) * 2 ^ 23 + (f * 2 ^ k - 1024) * 2 ^ 13"
      by (rule or_fields [OF _ ex frac]) (use h(1) f in simp_all)
    then have "push_bit 16 (v AND 0x8000) OR push_bit 23 (word_of_int (127 - 15 - int k + 1)) OR
        push_bit 13 (word_of_nat (f * 2 ^ k - 1024)) = float32 s (113 - k) ((f * 2 ^ k - 1024) * 2 ^ 13)"
      by (intro float32_eqI) simp
    then show ?thesis unfolding expand using \<open>e = 0\<close> ne norm m by (simp only: if_True if_False Let_def prod.case simp_thms)
  qed
qed

subsection \<open>Rounding\<close>

definition nearest_even :: "nat \<Rightarrow> nat \<Rightarrow> nat" where
  "nearest_even n k =
     (let q = n div 2 ^ k; r = n mod 2 ^ k
      in if 2 * r > 2 ^ k \<or> (2 * r = 2 ^ k \<and> odd q) then q + 1 else q)"

lemma nearest_even_best: "\<bar>int n - int (nearest_even n k) * 2 ^ k\<bar> \<le> \<bar>int n - int j * 2 ^ k\<bar>"
proof -
  define q r P where "q = int (n div 2 ^ k)" and "r = int (n mod 2 ^ k)" and "P = (2::int) ^ k"
  have P: "0 < P" and r: "0 \<le> r" "r < P" by (simp_all add: P_def r_def zmod_int)
  have n: "int n = q * P + r"
    using div_mult_mod_eq [of "int n" "2 ^ k"] by (simp add: q_def r_def P_def zdiv_int zmod_int)
  have q': "int (nearest_even n k) = q + (if 2 * r > P \<or> (2 * r = P \<and> odd q) then 1 else 0)"
  proof -
    have "2 * r > P \<longleftrightarrow> 2 * (n mod 2 ^ k) > 2 ^ k"
      using of_nat_less_iff [of "2 ^ k" "2 * (n mod 2 ^ k)", where 'a = int] by (simp add: r_def P_def)
    moreover have "2 * r = P \<longleftrightarrow> 2 * (n mod 2 ^ k) = 2 ^ k"
      using of_nat_eq_iff [of "2 * (n mod 2 ^ k)" "2 ^ k", where 'a = int] by (simp add: r_def P_def)
    moreover have "odd q \<longleftrightarrow> odd (n div 2 ^ k)" unfolding q_def by (simp only: even_of_nat)
    ultimately show ?thesis unfolding nearest_even_def Let_def by (simp add: q_def)
  qed
  have far: "min r (P - r) \<le> \<bar>int n - int j * P\<bar>"
  proof (cases "int j \<le> q")
    case True
    then have "int j * P \<le> q * P" using P by (intro mult_right_mono) simp_all
    then show ?thesis using n r by linarith
  next
    case False
    then have "(q + 1) * P \<le> int j * P" using P by (intro mult_right_mono) simp_all
    then show ?thesis using n r by (simp add: algebra_simps)
  qed
  have "\<bar>int n - int (nearest_even n k) * P\<bar> \<le> min r (P - r)"
    unfolding q' n using r by (auto simp: algebra_simps)
  from order_trans [OF this far] show ?thesis unfolding P_def .
qed

lemma nearest_even_bounds: "n < a * 2 ^ k \<Longrightarrow> nearest_even n k \<le> a"
proof -
  assume "n < a * 2 ^ k"
  then have "n div 2 ^ k < a" by (simp add: less_mult_imp_div_less)
  then show ?thesis by (simp add: nearest_even_def Let_def)
qed

lemma nearest_even_exact: "0 < k \<Longrightarrow> nearest_even (m * 2 ^ k) k = m"
  by (simp add: nearest_even_def Let_def)

lemma round_shift_value:
  assumes "unat w = n" and "n < 2 ^ 24" and "1 \<le> k" and "k \<le> 24"
  shows "unat (round_shift w k) = nearest_even n k"
proof -
  have q: "unat (drop_bit k w) = n div 2 ^ k" using assms(1) by (simp only: unat_shift_right)
  have one: "push_bit k (1::u32) = 2 ^ k" for k by (simp add: push_bit_eq_mult)
  have r: "unat (w AND (push_bit k 1 - 1)) = n mod 2 ^ k" unfolding one unat_and_mask assms(1) by (rule refl)
  have h: "unat (push_bit (k - 1) (1::u32)) = 2 ^ (k - 1)" unfolding one using assms(4) by (subst unat_power2) simp_all
  have two: "(2::nat) ^ k = 2 * 2 ^ (k - 1)" using assms(3) by (cases k) simp_all
  have "unat (drop_bit k w AND 2 ^ 0) = n div 2 ^ k mod 2"
    using q unat_and_bit [of 0 "drop_bit k w"] by (simp only: power_0 div_by_1 mult_1_right) simp
  then have "unat (drop_bit k w AND 1) = n div 2 ^ k mod 2" by (simp only: power_0)
  then have odd: "drop_bit k w AND 1 \<noteq> 0 \<longleftrightarrow> odd (n div 2 ^ k)"
    unfolding unat_eq_0 [symmetric] by presburger
  have small: "n div 2 ^ k + 1 < 2 ^ 32"
    using le_less_trans [OF div_le_dividend assms(2), of "2 ^ k"] by simp
  have "unat (drop_bit k w + 1) = n div 2 ^ k + 1" using q small by (subst unat_sum) simp_all
  then show ?thesis
    unfolding round_shift_def nearest_even_def Let_def
    using q r h two odd by (simp add: word_less_nat_alt word_unat_eq_iff)
qed

subsection \<open>What a float becomes\<close>

definition half_code :: "nat \<Rightarrow> nat \<Rightarrow> nat" where
  "half_code e f =
     (if e = 255 then (if f = 0 then 31744 else 31744 + max 1 (f div 2 ^ 13))
      else if e < 102 then 0
      else if e < 113 then nearest_even (2 ^ 23 + f) (126 - e)
      else if e > 142 then 31744
      else (e - 112) * 1024 + nearest_even f 13)"

lemma float_fields:
  fixes w :: u32
  assumes "fields32 s e f" and "unat w = s * 2 ^ 31 + e * 2 ^ 23 + f"
  shows "unat (drop_bit 16 w AND 0x8000) = s * 2 ^ 15" and "unat (drop_bit 23 w AND 0xff) = e"
    and "unat (w AND 0x007fffff) = f"
proof -
  have b: "s < 2" "e < 256" "f < 2 ^ 23" using assms(1) by (auto simp: fields32_def)
  have m: "unat w div 2 ^ 23 = s * 2 ^ 8 + e" "unat w div 2 ^ 23 mod 2 ^ 8 = e" "unat w mod 2 ^ 23 = f"
    unfolding assms(2) using middle_digit [of f "2 ^ 23" e "2 ^ 8" s] b by simp_all
  have "unat w div 2 ^ 16 div 2 ^ 15 = s"
  proof -
    have "unat w div 2 ^ 16 div 2 ^ 15 = unat w div 2 ^ 23 div 2 ^ 8" by (simp only: div_mult2_eq [symmetric]) simp
    then show ?thesis unfolding m(1) using b by simp
  qed
  moreover have "unat (drop_bit 16 w AND 2 ^ 15) = unat (drop_bit 16 w) div 2 ^ 15 mod 2 * 2 ^ 15"
    by (rule unat_and_bit) simp
  ultimately have "unat (drop_bit 16 w AND 2 ^ 15) = s * 2 ^ 15"
    unfolding unat_shift_right using b by simp
  then show "unat (drop_bit 16 w AND 0x8000) = s * 2 ^ 15" by simp
  have "unat (drop_bit 23 w AND (2 ^ 8 - 1)) = e" unfolding unat_and_mask unat_shift_right by (rule m(2))
  then show "unat (drop_bit 23 w AND 0xff) = e" by simp
  have "unat (w AND (2 ^ 23 - 1)) = f" unfolding unat_and_mask by (rule m(3))
  then show "unat (w AND 0x007fffff) = f" by simp
qed

text \<open>A sign and a magnitude below the sign bit.\<close>

lemma half_word:
  fixes a c :: u32
  assumes "unat a = s * 2 ^ 15" and "unat c = m" and "s < 2" and "m < 2 ^ 15"
  shows "ucast (a OR c) = (word_of_nat (s * 2 ^ 15 + m) :: u16)"
proof -
  have "unat (a OR c) = s * 2 ^ 15 + m" using unat_or_disjoint [of 15 a c] assms by simp
  then have "unat (ucast (a OR c) :: u16) = s * 2 ^ 15 + m" unfolding unat_narrow using assms by simp
  then show ?thesis by (metis word_of_nat_unat)
qed

lemma half_code_small: "f < 2 ^ 23 \<Longrightarrow> e < 256 \<Longrightarrow> half_code e f < 2 ^ 15"
proof -
  assume f: "f < 2 ^ 23" and e: "e < 256"
  have "nearest_even f 13 \<le> 1024" by (rule nearest_even_bounds) (use f in simp)
  moreover have "nearest_even (2 ^ 23 + f) (126 - e) \<le> 1024" if "e < 113"
  proof (rule nearest_even_bounds)
    have "(2::nat) ^ 14 \<le> 2 ^ (126 - e)" using that by (intro power_increasing) simp_all
    then show "2 ^ 23 + f < 1024 * 2 ^ (126 - e)" using f by simp
  qed
  moreover have "f div 2 ^ 13 < 1024" using f by (simp add: less_mult_imp_div_less)
  moreover have "(e - 112) * 1024 \<le> 30 * 1024" if "e \<le> 142" using that by (intro mult_le_mono1) simp
  ultimately show ?thesis unfolding half_code_def using e
    by (auto simp: not_less max_def)
qed

lemma float_to_half_fields:
  assumes "fields32 s e f"
  shows "float_to_half (float32 s e f) = word_of_nat (s * 2 ^ 15 + half_code e f)"
proof -
  define w where "w = float32 s e f"
  define sign fr where "sign = drop_bit 16 w AND 0x8000" and "fr = w AND 0x007fffff"
  have b: "s < 2" "e < 256" "f < 2 ^ 23" using assms by (auto simp: fields32_def)
  have "unat w = s * 2 ^ 31 + e * 2 ^ 23 + f" unfolding w_def using assms by (rule unat_float32)
  note u = float_fields [OF assms this, folded sign_def fr_def]
  have eb: "drop_bit 23 w AND 0xff = 0xff \<longleftrightarrow> e = 255" "drop_bit 23 w AND 0xff = 0 \<longleftrightarrow> e = 0"
    unfolding word_unat_eq_iff u(2) by simp_all
  have "int (unat (drop_bit 23 w AND 0xff)) = int e" by (simp only: u(2))
  then have ue: "uint (drop_bit 23 w AND 0xff) = int e" by (simp only: of_nat_unat)
  have f0: "fr = 0 \<longleftrightarrow> f = 0" unfolding word_unat_eq_iff u(3) by simp
  note unfold = float_to_half_def Let_def w_def [symmetric] sign_def [symmetric] fr_def [symmetric] eb ue f0
  note word = half_word [OF u(1) _ b(1)]
  have only_sign: "(ucast sign :: u16) = word_of_nat (s * 2 ^ 15)" using word [of 0 0] by simp
  have inf: "(ucast (sign OR 0x7c00) :: u16) = word_of_nat (s * 2 ^ 15 + 31744)" by (rule word) simp_all
  consider (special) "e = 255" | (zero) "e < 102" | (sub) "102 \<le> e" "e < 113" | (big) "142 < e" "e < 255"
    | (normal) "113 \<le> e" "e \<le> 142" using b(2) by linarith
  then have "float_to_half w = word_of_nat (s * 2 ^ 15 + half_code e f)"
  proof cases
    case special
    show ?thesis
    proof (cases "f = 0")
      case True
      then show ?thesis unfolding unfold half_code_def using special inf by simp
    next
      case False
      define g :: u32 where "g = (if drop_bit 13 fr = 0 then 1 else drop_bit 13 fr)"
      have d: "unat (drop_bit 13 fr) = f div 2 ^ 13" by (simp only: unat_shift_right u(3))
      then have g: "unat g = max 1 (f div 2 ^ 13)" unfolding g_def by (auto simp: max_def unat_eq_0 [symmetric])
      have lt: "max 1 (f div 2 ^ 13) < 2 ^ 10" using b(3) by (simp add: less_mult_imp_div_less)
      have "unat (0x7c00 OR g) = 31744 + max 1 (f div 2 ^ 13)"
        using unat_or_disjoint [of 10 "0x7c00 :: u32" g] g lt by simp
      then have "(ucast (sign OR (0x7c00 OR g)) :: u16) = word_of_nat (s * 2 ^ 15 + (31744 + max 1 (f div 2 ^ 13)))"
        using lt by (intro word) simp_all
      then show ?thesis unfolding unfold half_code_def using special False by (simp add: g_def)
    qed
  next
    case zero
    then show ?thesis unfolding unfold half_code_def using only_sign by simp
  next
    case sub
    have n: "nat (- (int e - 127) - 1) = 126 - e" using sub by simp
    have "unat (0x00800000 OR fr) = 2 ^ 23 + f"
      using unat_or_disjoint [of 23 "0x00800000 :: u32" fr] u(3) b(3) by simp
    then have "unat (fr OR 0x00800000) = 2 ^ 23 + f" by (simp only: or.commute)
    then have "unat (round_shift (fr OR 0x00800000) (126 - e)) = nearest_even (2 ^ 23 + f) (126 - e)"
      using sub b(3) by (intro round_shift_value) simp_all
    then have "(ucast (sign OR round_shift (fr OR 0x00800000) (126 - e)) :: u16) = word_of_nat (s * 2 ^ 15 + half_code e f)"
      using half_code_small [OF b(3,2)] sub by (intro word) (simp_all add: half_code_def)
    then show ?thesis unfolding unfold using sub n by simp
  next
    case big
    then show ?thesis unfolding unfold half_code_def using inf by simp
  next
    case normal
    define r where "r = round_shift fr 13"
    have r: "unat r = nearest_even f 13" unfolding r_def using u(3) b(3) by (intro round_shift_value) simp_all
    have le: "nearest_even f 13 \<le> 1024" by (rule nearest_even_bounds) (use b(3) in simp)
    have r400: "r = 0x400 \<longleftrightarrow> nearest_even f 13 = 1024" using r by (simp add: word_unat_eq_iff)
    have hc: "half_code e f = (e - 112) * 1024 + nearest_even f 13" using normal by (simp add: half_code_def)
    have ex: "unat (push_bit 10 (word_of_int (int e - 127 + int j + 15) :: u32)) = (e - 112 + j) * 2 ^ 10" if "j \<le> 1" for j
    proof -
      have "int e - 127 + int j + 15 = int (e - 112 + j)" using normal by (simp add: of_nat_diff)
      then have "(word_of_int (int e - 127 + int j + 15) :: u32) = word_of_nat (e - 112 + j)"
        by (simp only: of_int_of_nat_eq)
      moreover have "unat (word_of_nat (e - 112 + j) :: u32) = e - 112 + j"
        using normal that by (intro unat_small) simp
      ultimately show ?thesis using normal that by (simp only:) (subst unat_shift_left; simp)
    qed
    have put: "(ucast (sign OR push_bit 10 (word_of_int (int e - 127 + int j + 15)) OR c) :: u16) =
        word_of_nat (s * 2 ^ 15 + ((e - 112 + j) * 1024 + m))"
      if "unat c = m" and "m < 1024" and "j \<le> 1" and "e - 112 + j < 32" for j m and c :: u32
    proof (rule word)
      show "unat (push_bit 10 (word_of_int (int e - 127 + int j + 15)) OR c) = (e - 112 + j) * 1024 + m"
        using unat_or_disjoint [of 10 "push_bit 10 (word_of_int (int e - 127 + int j + 15) :: u32)" c] ex [OF that(3)] that
        by simp
    qed (use that in simp)
    show ?thesis
    proof (cases "nearest_even f 13 = 1024")
      case True
      have top: "int e - 127 + 1 > 15 \<longleftrightarrow> e = 142" using normal by auto
      show ?thesis
      proof (cases "e = 142")
        case True
        then show ?thesis unfolding unfold r_def [symmetric] hc
          using inf \<open>nearest_even f 13 = 1024\<close> r400 by simp
      next
        case False
        then have "float_to_half w = ucast (sign OR push_bit 10 (word_of_int (int e - 127 + int 1 + 15)) OR 0)"
          unfolding unfold r_def [symmetric] using normal \<open>nearest_even f 13 = 1024\<close> r400 by simp
        also have "\<dots> = word_of_nat (s * 2 ^ 15 + ((e - 112 + 1) * 1024 + 0))"
          by (rule put) (use normal False in simp_all)
        finally show ?thesis unfolding hc True by (simp add: algebra_simps)
      qed
    next
      case False
      have "float_to_half w = ucast (sign OR push_bit 10 (word_of_int (int e - 127 + int 0 + 15)) OR r)"
        unfolding unfold r_def [symmetric] using normal False r400 by simp
      also have "\<dots> = word_of_nat (s * 2 ^ 15 + ((e - 112 + 0) * 1024 + nearest_even f 13))"
        by (rule put) (use normal False r le in simp_all)
      finally show ?thesis unfolding hc by simp
    qed
  qed
  then show ?thesis by (simp only: w_def)
qed

subsection \<open>Values\<close>

text \<open>
  The magnitude of a finite float and of the half with the bits \<open>m\<close> below its sign, both in units of
  \<open>2 ^ - 149\<close>, the smallest positive float.
\<close>

definition float_value :: "nat \<Rightarrow> nat \<Rightarrow> nat" where
  "float_value e f = (if e = 0 then f else (2 ^ 23 + f) * 2 ^ (e - 1))"

definition half_value :: "nat \<Rightarrow> nat" where
  "half_value m = (if m div 1024 = 0 then m mod 1024 else (1024 + m mod 1024) * 2 ^ (m div 1024 - 1)) * 2 ^ 125"

lemma roundtrip_fields:
  assumes "fields16 s e f"
  shows "float_to_half (half_to_float (float16 s e f)) = float16 s e f"
proof -
  have b: "s < 2" "e < 32" "f < 1024" using assms by (auto simp: fields16_def)
  note to_float = half_to_float_fields [OF assms]
  consider "e = 0" "f = 0" | "e = 31" | "0 < e" "e < 31" | "e = 0" "0 < f" using b(2) by linarith
  then show ?thesis
  proof cases
    case 1
    then show ?thesis using to_float(1) b float_to_half_fields [of s 0 0]
      by (simp add: fields32_def half_code_def float16_def)
  next
    case 2
    then show ?thesis using to_float(2) b float_to_half_fields [of s 255 "f * 2 ^ 13"]
      by (simp add: fields32_def half_code_def float16_def max_def)
  next
    case 3
    have "float_to_half (float32 s (e + 112) (f * 2 ^ 13)) = word_of_nat (s * 2 ^ 15 + half_code (e + 112) (f * 2 ^ 13))"
      using b 3 by (intro float_to_half_fields) (simp add: fields32_def)
    moreover have "half_code (e + 112) (f * 2 ^ 13) = e * 1024 + f"
      using 3 nearest_even_exact [of 13 f] by (simp add: half_code_def)
    ultimately show ?thesis using to_float(3) 3 by (simp add: float16_def add.assoc)
  next
    case 4
    obtain k where k: "1 \<le> k" "k \<le> 10" "1024 \<le> f * 2 ^ k" "f * 2 ^ k < 2048"
      using normalize_shift_exists [of f] 4 b by blast
    define g where "g = (f * 2 ^ k - 1024) * 2 ^ 13"
    have g: "2 ^ 23 + g = f * 2 ^ (13 + k)" "g < 2 ^ 23"
      using k(3,4) by (simp_all add: g_def power_add algebra_simps)
    have "half_code (113 - k) g = nearest_even (f * 2 ^ (13 + k)) (13 + k)"
    proof -
      have "113 - k \<noteq> 255" "\<not> 113 - k < 102" "113 - k < 113" "126 - (113 - k) = 13 + k" using k(1,2) by auto
      then show ?thesis unfolding half_code_def g(1) by simp
    qed
    then have "half_code (113 - k) g = f" using nearest_even_exact [of "13 + k" f] by simp
    moreover have "float_to_half (float32 s (113 - k) g) = word_of_nat (s * 2 ^ 15 + half_code (113 - k) g)"
      using b(1) g(2) k by (intro float_to_half_fields) (simp add: fields32_def)
    ultimately show ?thesis using to_float(4) [OF 4(1) k] 4(1) by (simp add: g_def float16_def)
  qed
qed

lemma half_value_exact:
  assumes "fields16 s e f" and "e < 31"
  shows "\<exists>e' f'. fields32 s e' f' \<and> e' < 255 \<and> half_to_float (float16 s e f) = float32 s e' f' \<and>
    float_value e' f' = half_value (e * 1024 + f)"
proof -
  have b: "s < 2" "e < 32" "f < 1024" using assms by (auto simp: fields16_def)
  note to_float = half_to_float_fields [OF assms(1)]
  consider "e = 0" "f = 0" | "0 < e" "e < 31" | "e = 0" "0 < f" using assms(2) by linarith
  then show ?thesis
  proof cases
    case 1
    then show ?thesis using to_float(1) b
      by - (rule exI [where x = 0], rule exI [where x = 0], simp add: fields32_def float_value_def half_value_def)
  next
    case 2
    have "(2 ^ 23 + f * 2 ^ 13) * 2 ^ (e + 112 - 1) = (1024 + f) * 2 ^ (e - 1) * (2::nat) ^ 125"
    proof -
      have "(2::nat) ^ (e + 112 - 1) * 2 ^ 13 = 2 ^ (e - 1) * 2 ^ 125"
        using 2 by (simp only: power_add [symmetric]) (simp add: add.commute)
      moreover have "(2 ^ 23 + f * 2 ^ 13) * 2 ^ (e + 112 - 1) = (1024 + f) * ((2::nat) ^ (e + 112 - 1) * 2 ^ 13)"
        by (simp add: algebra_simps)
      ultimately show ?thesis by (simp only: mult.assoc)
    qed
    then show ?thesis using to_float(3) 2 b
      by - (rule exI [where x = "e + 112"], rule exI [where x = "f * 2 ^ 13"],
        simp add: fields32_def float_value_def half_value_def)
  next
    case 3
    obtain k where k: "1 \<le> k" "k \<le> 10" "1024 \<le> f * 2 ^ k" "f * 2 ^ k < 2048"
      using normalize_shift_exists [of f] 3 b by blast
    define g where "g = (f * 2 ^ k - 1024) * 2 ^ 13"
    have g: "2 ^ 23 + g = f * 2 ^ (13 + k)" "g < 2 ^ 23"
      using k(3,4) by (simp_all add: g_def power_add algebra_simps)
    have "(2 ^ 23 + g) * 2 ^ (113 - k - 1) = f * ((2::nat) ^ (13 + k) * 2 ^ (113 - k - 1))"
      unfolding g(1) by (rule mult.assoc)
    also have "(2::nat) ^ (13 + k) * 2 ^ (113 - k - 1) = 2 ^ 125"
      using k by (simp only: power_add [symmetric]) simp
    finally have "float_value (113 - k) g = half_value (e * 1024 + f)"
      using 3(1) b k by (simp add: float_value_def half_value_def)
    moreover have "fields32 s (113 - k) g" "113 - k < 255" using b g(2) k by (auto simp: fields32_def)
    moreover have "half_to_float (float16 s e f) = float32 s (113 - k) g"
      using to_float(4) [OF 3(1) k] 3(1) by (simp add: g_def)
    ultimately show ?thesis by blast
  qed
qed

text \<open>The halves from an exponent on are multiples of its unit, those below lie below its first.\<close>

lemma half_value_grid:
  assumes "1 \<le> E"
  shows "m < E * 1024 \<Longrightarrow> half_value m \<le> 1024 * (2 ^ (E - 1) * 2 ^ 125)"
    and "E * 1024 \<le> m \<Longrightarrow> \<exists>j\<ge>1024. half_value m = j * (2 ^ (E - 1) * 2 ^ 125)"
proof -
  let ?d = "m div 1024" and ?r = "m mod 1024"
  have r: "?r < 1024" by simp
  show "half_value m \<le> 1024 * (2 ^ (E - 1) * 2 ^ 125)" if "m < E * 1024"
  proof (cases "?d = 0")
    case True
    have "1024 * 1 \<le> 1024 * (2::nat) ^ (E - 1)" by (rule mult_le_mono2) simp
    then have "?r \<le> 1024 * 2 ^ (E - 1)" using r by linarith
    then have "?r * 2 ^ 125 \<le> 1024 * 2 ^ (E - 1) * 2 ^ 125" by (rule mult_le_mono1)
    then show ?thesis using True unfolding half_value_def by (simp only: if_True mult.assoc simp_thms)
  next
    case False
    have "?d < E" using that by (simp add: less_mult_imp_div_less)
    then have p: "2 * (2::nat) ^ (?d - 1) \<le> 2 ^ (E - 1)"
      using False power_increasing [of ?d "E - 1" "2::nat"] by (cases ?d) simp_all
    have "(1024 + ?r) * 2 ^ (?d - 1) \<le> (1024 * 2) * 2 ^ (?d - 1)" using r by (intro mult_le_mono1) simp
    also have "\<dots> = 1024 * (2 * 2 ^ (?d - 1))" by (rule mult.assoc)
    also have "\<dots> \<le> 1024 * 2 ^ (E - 1)" using p by (rule mult_le_mono2)
    finally have "(1024 + ?r) * 2 ^ (?d - 1) * 2 ^ 125 \<le> 1024 * 2 ^ (E - 1) * 2 ^ 125" by (rule mult_le_mono1)
    then show ?thesis using False unfolding half_value_def by (simp only: if_False mult.assoc)
  qed
  show "\<exists>j\<ge>1024. half_value m = j * (2 ^ (E - 1) * 2 ^ 125)" if "E * 1024 \<le> m"
  proof -
    have d: "E \<le> ?d" using that by (simp add: less_eq_div_iff_mult_less_eq)
    have "(2::nat) ^ (?d - 1) = 2 ^ (?d - E) * 2 ^ (E - 1)"
      using d assms by (simp flip: power_add)
    then have "half_value m = ((1024 + ?r) * 2 ^ (?d - E)) * (2 ^ (E - 1) * 2 ^ 125)"
      using d assms by (simp add: half_value_def)
    moreover have "1024 \<le> (1024 + ?r) * 2 ^ (?d - E)"
      by (rule order_trans [of _ "1024 * 1"], simp, rule mult_le_mono, simp_all)
    ultimately show ?thesis by blast
  qed
qed

lemma half_value_low: "m \<le> 1024 \<Longrightarrow> half_value m = m * 2 ^ 125"
  by (cases "m = 1024") (simp_all add: half_value_def)

lemma half_value_multiple: "\<exists>j. half_value m = j * 2 ^ 125"
  by (simp add: half_value_def)

text \<open>Scaling a best approximation.\<close>

lemma nearest_even_scaled:
  assumes "unit = 2 ^ k * (c::nat)"
  shows "\<bar>int (n * c) - int (nearest_even n k * unit)\<bar> \<le> \<bar>int (n * c) - int (j * unit)\<bar>"
proof -
  have "\<bar>int (n * c) - int (i * unit)\<bar> = \<bar>int n - int i * 2 ^ k\<bar> * int c" for i
  proof -
    have "int (n * c) - int (i * unit) = (int n - int i * 2 ^ k) * int c" by (simp add: assms algebra_simps)
    then show ?thesis by (simp add: abs_mult)
  qed
  then show ?thesis using nearest_even_best [of n k j] by (simp add: mult_right_mono)
qed

lemma nearest_half_normal:
  assumes "113 \<le> e" and "e \<le> 142" and "f < 2 ^ 23"
  shows "\<bar>int (float_value e f) - int (half_value (half_code e f))\<bar> \<le> \<bar>int (float_value e f) - int (half_value m)\<bar>"
proof -
  define E Q c where "E = e - 112" and "Q = (2::nat) ^ (E - 1) * 2 ^ 125" and "c = (2::nat) ^ (e - 1)"
  have E: "1 \<le> E" using assms by (simp add: E_def)
  have Q: "Q = 2 ^ 13 * c"
    unfolding Q_def c_def power_add [symmetric] by (rule arg_cong [of _ _ "power 2"]) (use assms in \<open>simp add: E_def\<close>)
  have X: "float_value e f = 1024 * Q + f * c"
  proof -
    have "float_value e f = (2 ^ 23 + f) * c" using assms by (simp add: float_value_def c_def)
    then show ?thesis by (simp add: Q algebra_simps)
  qed
  have r: "nearest_even f 13 \<le> 1024" by (rule nearest_even_bounds) (use assms in simp)
  have code: "half_code e f = E * 1024 + nearest_even f 13" using assms by (simp add: half_code_def E_def)
  have H: "half_value (half_code e f) = (1024 + nearest_even f 13) * Q"
  proof (cases "nearest_even f 13 = 1024")
    case True
    then have "half_code e f = (E + 1) * 1024" using code by simp
    moreover have "(2::nat) ^ E = 2 * 2 ^ (E - 1)" using E by (cases E) simp_all
    ultimately show ?thesis using True by (simp add: half_value_def Q_def)
  next
    case False
    then have "half_code e f div 1024 = E" "half_code e f mod 1024 = nearest_even f 13" using code r by simp_all
    then show ?thesis using E by (simp add: half_value_def Q_def)
  qed
  have dist: "\<bar>int (float_value e f) - int ((1024 + i) * Q)\<bar> = \<bar>int (f * c) - int (i * Q)\<bar>" for i
    by (simp add: X algebra_simps)
  have best: "\<bar>int (float_value e f) - int (half_value (half_code e f))\<bar> \<le> \<bar>int (float_value e f) - int ((1024 + j) * Q)\<bar>" for j
    unfolding H dist using nearest_even_scaled [OF Q, of f j] .
  show ?thesis
  proof (cases "m < E * 1024")
    case True
    then have "half_value m \<le> 1024 * Q" using half_value_grid(1) [OF E] by (simp add: Q_def)
    moreover have "1024 * Q \<le> float_value e f" by (simp add: X)
    ultimately show ?thesis using best [of 0] by simp
  next
    case False
    then obtain j where "1024 \<le> j" "half_value m = j * Q"
      using half_value_grid(2) [OF E, of m] by (auto simp: Q_def not_less)
    then show ?thesis using best [of "j - 1024"] by simp
  qed
qed

lemma nearest_half_subnormal:
  assumes "102 \<le> e" and "e < 113" and "f < 2 ^ 23"
  shows "\<bar>int (float_value e f) - int (half_value (half_code e f))\<bar> \<le> \<bar>int (float_value e f) - int (half_value m)\<bar>"
proof -
  have unit: "(2::nat) ^ 125 = 2 ^ (126 - e) * 2 ^ (e - 1)" using assms by (simp flip: power_add)
  have code: "half_code e f = nearest_even (2 ^ 23 + f) (126 - e)" using assms by (simp add: half_code_def)
  have "nearest_even (2 ^ 23 + f) (126 - e) \<le> 1024"
  proof (rule nearest_even_bounds)
    have "(2::nat) ^ 14 \<le> 2 ^ (126 - e)" using assms by (intro power_increasing) simp_all
    then show "2 ^ 23 + f < 1024 * 2 ^ (126 - e)" using assms by simp
  qed
  then have H: "half_value (half_code e f) = nearest_even (2 ^ 23 + f) (126 - e) * 2 ^ 125"
    using half_value_low code by simp
  obtain j where j: "half_value m = j * 2 ^ 125" using half_value_multiple by blast
  have X: "float_value e f = (2 ^ 23 + f) * 2 ^ (e - 1)" using assms by (simp add: float_value_def)
  show ?thesis unfolding X H j by (rule nearest_even_scaled [OF unit])
qed

lemma nearest_half_tiny:
  assumes "e < 102" and "f < 2 ^ 23"
  shows "\<bar>int (float_value e f) - int (half_value (half_code e f))\<bar> \<le> \<bar>int (float_value e f) - int (half_value m)\<bar>"
proof -
  have H: "half_value (half_code e f) = 0" using assms by (simp add: half_code_def half_value_def)
  have X: "float_value e f \<le> 2 ^ 124"
  proof (cases "e = 0")
    case True
    then show ?thesis using assms by (simp add: float_value_def)
  next
    case False
    have "(2 ^ 23 + f) * 2 ^ (e - 1) \<le> 2 ^ 24 * 2 ^ 100"
      using assms by (intro mult_le_mono power_increasing) simp_all
    then show ?thesis using False by (simp add: float_value_def)
  qed
  obtain j where j: "half_value m = j * 2 ^ 125" using half_value_multiple by blast
  show ?thesis
  proof (cases j)
    case 0
    then show ?thesis by (simp add: H j)
  next
    case (Suc i)
    then have "2 ^ 125 \<le> half_value m" by (simp add: j)
    then show ?thesis using X H by simp
  qed
qed

subsection \<open>Properties\<close>

text \<open>
  C16: Every half, the subnormals, infinities and NaNs included, survives the way to \<open>float\<close> and back
  bit for bit.
\<close>

theorem half_roundtrip: "float_to_half (half_to_float h) = h"
  using float16_cases [of h] roundtrip_fields by auto

text \<open>The conversion of a finite half to \<open>float\<close> is exact: same sign, same value.\<close>

theorem half_to_float_exact:
  assumes "fields16 s e f" and "e < 31"
  shows "\<exists>e' f'. fields32 s e' f' \<and> e' < 255 \<and> half_to_float (float16 s e f) = float32 s e' f' \<and>
    float_value e' f' = half_value (e * 1024 + f)"
  using assms by (rule half_value_exact)

theorem half_to_float_exact_witness:
  "\<exists>e' f'. half_to_float (float16 1 0 3) = float32 1 e' f' \<and> float_value e' f' = 3 * 2 ^ 125"
  using half_to_float_exact [of 1 0 3] by (auto simp: fields16_def half_value_def)

text \<open>
  C15: The conversion to half rounds correctly: every finite float within the range of halves becomes
  a half, with its sign, to which no other half is closer.
\<close>

theorem float_to_half_nearest:
  assumes "fields32 s e f" and "e \<le> 142" and "m < 31744"
  shows "float_to_half (float32 s e f) = word_of_nat (s * 2 ^ 15 + half_code e f) \<and>
    \<bar>int (float_value e f) - int (half_value (half_code e f))\<bar> \<le> \<bar>int (float_value e f) - int (half_value m)\<bar>"
proof -
  have f: "f < 2 ^ 23" using assms(1) by (simp add: fields32_def)
  consider "e < 102" | "102 \<le> e" "e < 113" | "113 \<le> e" by linarith
  then show ?thesis
    using float_to_half_fields [OF assms(1)] nearest_half_tiny nearest_half_subnormal nearest_half_normal assms(2) f
    by cases blast+
qed

theorem float_to_half_nearest_witness:
  "float_to_half (float32 0 127 1) = 0x3c00"
  using float_to_half_nearest [of 0 127 1 0] by (simp add: fields32_def half_code_def nearest_even_def)

end
