(* ===== verification/Argmax.thy ===== *)
theory Argmax
  imports Prelude
begin

section \<open>The index of the largest logit\<close>

text \<open>
  Models \<open>fortai_argmax_avx2\<close> and \<open>fortai_argmax_f32\<close> of \<open>src/backend/cpu/fortai_llama_fast.c\<close>. A
  \<open>float\<close> is a NaN or a number of a linear order whose least element is minus infinity; the ordered
  comparisons are false on NaN. A vector register is the list of its eight lanes. The sum the
  functions also return is a diagnostic in floating point and not modelled.
\<close>

datatype 'v fl = NaN | Fl 'v

fun greater :: "'v::linorder fl \<Rightarrow> 'v fl \<Rightarrow> bool" where
  "greater (Fl a) (Fl b) \<longleftrightarrow> a > b"
| "greater _ _ \<longleftrightarrow> False"

fun same_value :: "'v::linorder fl \<Rightarrow> 'v fl \<Rightarrow> bool" where
  "same_value (Fl a) (Fl b) \<longleftrightarrow> a = b"
| "same_value _ _ \<longleftrightarrow> False"

text \<open>The scalar scan from an index on, with the best index and value so far.\<close>

function scan_max :: "'v::linorder fl list \<Rightarrow> nat \<Rightarrow> nat \<Rightarrow> 'v fl \<Rightarrow> nat" where
  "scan_max values i best best_value =
     (if i < length values then
        (if greater (values ! i) best_value then scan_max values (i + 1) i (values ! i)
         else scan_max values (i + 1) best best_value)
      else best)"
  by pat_completeness auto
termination
  by (relation "measure (\<lambda>(values, i, best, best_value). length values - i)") auto

declare scan_max.simps [simp del]

definition argmax_scalar :: "'v::linorder fl list \<Rightarrow> nat" where
  "argmax_scalar values = scan_max values 1 0 (values ! 0)"

text \<open>The vector loop: eight values at a time, each lane with its own maximum and index.\<close>

function lane_loop ::
    "'v::linorder fl list \<Rightarrow> nat \<Rightarrow> 'v fl list \<Rightarrow> nat list \<Rightarrow> nat \<times> 'v fl list \<times> nat list" where
  "lane_loop values offset maximum indices =
     (if offset + 8 \<le> length values then
        lane_loop values (offset + 8)
          (map (\<lambda>l. if greater (values ! (offset + l)) (maximum ! l) then values ! (offset + l) else maximum ! l) [0..<8])
          (map (\<lambda>l. if greater (values ! (offset + l)) (maximum ! l) then offset + l else indices ! l) [0..<8])
      else (offset, maximum, indices))"
  by pat_completeness auto
termination
  by (relation "measure (\<lambda>(values, offset, maximum, indices). length values - offset)") auto

declare lane_loop.simps [simp del]

definition merge_lane :: "'v::linorder fl \<Rightarrow> nat \<Rightarrow> nat \<times> 'v fl \<Rightarrow> nat \<times> 'v fl" where
  "merge_lane value index acc =
     (if greater value (snd acc) \<or> (same_value value (snd acc) \<and> index < fst acc) then (index, value) else acc)"

definition argmax_avx2 :: "'v::{linorder, order_bot} fl list \<Rightarrow> nat" where
  "argmax_avx2 values =
     (let (offset, maxima, best_indices) = lane_loop values 0 (replicate 8 (Fl bot)) (replicate 8 0);
          (best, best_value) = fold (\<lambda>lane. merge_lane (maxima ! lane) (best_indices ! lane)) [1..<8]
            (best_indices ! 0, maxima ! 0)
      in scan_max values offset best best_value)"

definition argmax_f32 :: "bool \<Rightarrow> 'v::{linorder, order_bot} fl list \<Rightarrow> nat" where
  "argmax_f32 use_avx2 values = (if use_avx2 then argmax_avx2 values else argmax_scalar values)"

subsection \<open>The first maximum of a set of positions\<close>

definition first_max :: "'v::linorder list \<Rightarrow> nat \<Rightarrow> bool" where
  "first_max vs i \<longleftrightarrow> i < length vs \<and> (\<forall>j<length vs. vs ! j \<le> vs ! i) \<and> (\<forall>j<i. vs ! j < vs ! i)"

lemma first_max_unique: "first_max vs i \<Longrightarrow> first_max vs j \<Longrightarrow> i = j"
  unfolding first_max_def by (metis leD linorder_neqE_nat)

text \<open>
  A best index and value for the positions in \<open>S\<close>; where nothing exceeds minus infinity, the index
  is 0.
\<close>

definition top_of :: "(nat \<Rightarrow> 'v::{linorder, order_bot}) \<Rightarrow> nat set \<Rightarrow> nat \<Rightarrow> 'v \<Rightarrow> bool" where
  "top_of v S b x \<longleftrightarrow> (\<forall>j\<in>S. v j \<le> x) \<and> (x = bot \<longrightarrow> b = 0) \<and>
     (x \<noteq> bot \<longrightarrow> b \<in> S \<and> v b = x \<and> (\<forall>j\<in>S. j < b \<longrightarrow> v j < x))"

lemma top_of_empty: "top_of v {} 0 bot"
  by (simp add: top_of_def)

lemma top_of_next:
  assumes "top_of v S b x" and "\<forall>j\<in>S. j < p"
  shows "if v p > x then top_of v (insert p S) p (v p) else top_of v (insert p S) b x"
proof (cases "v p > x")
  case True
  then have "v p \<noteq> bot" by auto
  moreover have "\<forall>j\<in>S. v j < v p" using assms(1) True by (auto simp: top_of_def intro: le_less_trans)
  ultimately show ?thesis using True by (auto simp: top_of_def intro: less_imp_le)
next
  case False
  then show ?thesis using assms by (auto simp: top_of_def not_less)
qed

lemma top_of_wider:
  assumes "top_of v S b x" and "\<forall>j\<in>T. v j \<le> x" and "x \<noteq> bot \<Longrightarrow> \<forall>j\<in>T. j < b \<longrightarrow> v j < x"
  shows "top_of v (S \<union> T) b x"
  using assms by (auto simp: top_of_def)

lemma top_of_merge:
  assumes S: "top_of v S b x" and T: "top_of v T c y"
  shows "if y > x \<or> (y = x \<and> c < b) then top_of v (S \<union> T) c y else top_of v (S \<union> T) b x"
proof -
  have s: "\<forall>j\<in>S. v j \<le> x" and t: "\<forall>j\<in>T. v j \<le> y" using S T by (simp_all add: top_of_def)
  consider (more) "y > x" | (less) "y < x" | (tie) "y = x" "c < b" | (tie') "y = x" "\<not> c < b" by fastforce
  then show ?thesis
  proof cases
    case more
    have "top_of v (T \<union> S) c y" by (rule top_of_wider [OF T]) (use s more in force)+
    then show ?thesis using more by (simp add: Un_commute)
  next
    case less
    have "top_of v (S \<union> T) b x" by (rule top_of_wider [OF S]) (use t less in force)+
    then show ?thesis using less by auto
  next
    case tie
    have "x \<noteq> bot" using S T tie by (auto simp: top_of_def)
    then have "\<forall>j\<in>S. j < b \<longrightarrow> v j < x" using S by (simp add: top_of_def)
    then have "top_of v (T \<union> S) c y" using tie s by (intro top_of_wider [OF T]) auto
    then show ?thesis using tie by (simp add: Un_commute)
  next
    case tie'
    have "top_of v (S \<union> T) b x"
      by (rule top_of_wider [OF S]) (use t T tie' in \<open>auto simp: top_of_def\<close>)
    then show ?thesis using tie' by auto
  qed
qed

lemma top_of_first_max:
  assumes "top_of (\<lambda>j. vs ! j) {..<length vs} b x" and "vs \<noteq> []"
  shows "first_max vs b"
proof (cases "x = bot")
  case True
  then have "\<forall>j<length vs. vs ! j = bot" using assms(1) by (auto simp: top_of_def le_bot)
  then show ?thesis using True assms by (simp add: top_of_def first_max_def)
qed (use assms in \<open>auto simp: top_of_def first_max_def\<close>)

subsection \<open>Both scans find it\<close>

lemma insert_below: "insert i {..<i} = {..<Suc i}" for i :: nat
  by auto

lemma scan_max_top:
  "i \<le> length vs \<Longrightarrow> top_of (\<lambda>j. vs ! j) {..<i} b x \<Longrightarrow>
   \<exists>y. top_of (\<lambda>j. vs ! j) {..<length vs} (scan_max (map Fl vs) i b (Fl x)) y"
proof (induction "length vs - i" arbitrary: i b x)
  case 0
  then have "i = length vs" by simp
  then show ?case using 0(3) by (subst scan_max.simps) auto
next
  case (Suc d)
  then have i: "i < length vs" and d: "d = length vs - (i + 1)" by simp_all
  have "if vs ! i > x then top_of (\<lambda>j. vs ! j) {..<i + 1} i (vs ! i) else top_of (\<lambda>j. vs ! j) {..<i + 1} b x"
    using top_of_next [OF Suc(4), of i] unfolding insert_below by simp
  then show ?case
    using Suc(1) [OF d] i by (subst scan_max.simps) (auto split: if_splits)
qed

definition lane_set :: "nat \<Rightarrow> nat \<Rightarrow> nat set" where
  "lane_set offset l = {j. j < offset \<and> j mod 8 = l}"

lemma lane_set_next: "8 dvd offset \<Longrightarrow> l < 8 \<Longrightarrow> lane_set (offset + 8) l = insert (offset + l) (lane_set offset l)"
proof -
  assume "8 dvd offset" and l: "l < 8"
  then obtain k where k: "offset = 8 * k" by blast
  show ?thesis
  proof (rule set_eqI)
    fix j
    have "j < offset + 8 \<and> j mod 8 = l \<longleftrightarrow> j = offset + l \<or> j < offset \<and> j mod 8 = l"
    proof (cases "j < offset")
      case False
      then obtain r where "j = 8 * k + r" unfolding k using le_Suc_ex not_less by blast
      then show ?thesis using l unfolding k by (auto simp: mod_less)
    qed auto
    then show "j \<in> lane_set (offset + 8) l \<longleftrightarrow> j \<in> insert (offset + l) (lane_set offset l)"
      by (simp add: lane_set_def)
  qed
qed

definition lanes_ok :: "'v::{linorder, order_bot} list \<Rightarrow> nat \<Rightarrow> 'v list \<Rightarrow> nat list \<Rightarrow> bool" where
  "lanes_ok vs offset ms ix \<longleftrightarrow> length ms = 8 \<and> length ix = 8 \<and>
     (\<forall>l<8. top_of (\<lambda>j. vs ! j) (lane_set offset l) (ix ! l) (ms ! l))"

lemma lane_loop_top:
  "8 dvd offset \<Longrightarrow> offset \<le> length vs \<Longrightarrow> lanes_ok vs offset ms ix \<Longrightarrow>
   \<exists>offset' ms' ix'. lane_loop (map Fl vs) offset (map Fl ms) ix = (offset', map Fl ms', ix') \<and>
     offset' \<le> length vs \<and> lanes_ok vs offset' ms' ix'"
proof (induction "length vs - offset" arbitrary: offset ms ix rule: less_induct)
  case less
  show ?case
  proof (cases "offset + 8 \<le> length vs")
    case False
    then show ?thesis using less(3,4) by (subst lane_loop.simps) auto
  next
    case True
    let ?up = "\<lambda>l. vs ! (offset + l) > ms ! l"
    define ms' ix' where "ms' = map (\<lambda>l. if ?up l then vs ! (offset + l) else ms ! l) [0..<8]"
      and "ix' = map (\<lambda>l. if ?up l then offset + l else ix ! l) [0..<8]"
    have "top_of (\<lambda>j. vs ! j) (lane_set (offset + 8) l) (ix' ! l) (ms' ! l)" if "l < 8" for l
    proof -
      have "\<forall>j\<in>lane_set offset l. j < offset + l" by (auto simp: lane_set_def)
      then show ?thesis
        using top_of_next [of "\<lambda>j. vs ! j" "lane_set offset l" "ix ! l" "ms ! l" "offset + l"] less(4) that
        by (simp add: lanes_ok_def lane_set_next [OF less(2) that] ms'_def ix'_def split: if_splits)
    qed
    then have ok: "lanes_ok vs (offset + 8) ms' ix'" by (simp add: lanes_ok_def ms'_def ix'_def)
    have len: "length ms = 8" using less(4) by (simp add: lanes_ok_def)
    have gt: "greater (map Fl vs ! (offset + l)) (map Fl ms ! l) = ?up l" if "l < 8" for l
      using that True len by simp
    have "lane_loop (map Fl vs) offset (map Fl ms) ix = lane_loop (map Fl vs) (offset + 8) (map Fl ms') ix'"
    proof -
      have "map (\<lambda>l. if greater (map Fl vs ! (offset + l)) (map Fl ms ! l) then map Fl vs ! (offset + l) else map Fl ms ! l) [0..<8]
          = map Fl ms'"
        using True len by (simp add: ms'_def)
      moreover have "map (\<lambda>l. if greater (map Fl vs ! (offset + l)) (map Fl ms ! l) then offset + l else ix ! l) [0..<8] = ix'"
        unfolding ix'_def by (rule map_cong [OF refl]) (use gt in simp)
      ultimately show ?thesis using True by (subst lane_loop.simps) (simp only: length_map if_True)
    qed
    then show ?thesis using less(1) [of "offset + 8" ms' ix'] True less(2) ok by simp
  qed
qed

lemma merge_lanes_top:
  assumes "lanes_ok vs offset ms ix"
  shows "k < 8 \<Longrightarrow> \<exists>b x. fold (\<lambda>lane. merge_lane (map Fl ms ! lane) (ix ! lane)) [1..<Suc k] (ix ! 0, map Fl ms ! 0) = (b, Fl x) \<and>
    top_of (\<lambda>j. vs ! j) (\<Union>l<Suc k. lane_set offset l) b x"
proof (induction k)
  case 0
  then show ?case using assms by (auto simp: lanes_ok_def lessThan_Suc)
next
  case (Suc k)
  let ?F = "\<lambda>lane. merge_lane (map Fl ms ! lane) (ix ! lane)"
  obtain b x where f: "fold ?F [1..<Suc k] (ix ! 0, map Fl ms ! 0) = (b, Fl x)"
    and t: "top_of (\<lambda>j. vs ! j) (\<Union>l<Suc k. lane_set offset l) b x" using Suc by auto
  have lane: "top_of (\<lambda>j. vs ! j) (lane_set offset (Suc k)) (ix ! Suc k) (ms ! Suc k)" and len: "length ms = 8"
    using assms Suc(2) by (auto simp: lanes_ok_def)
  have un: "(\<Union>l<Suc (Suc k). lane_set offset l) = (\<Union>l<Suc k. lane_set offset l) \<union> lane_set offset (Suc k)"
    by (auto simp: less_Suc_eq)
  have "fold ?F [1..<Suc (Suc k)] (ix ! 0, map Fl ms ! 0) = ?F (Suc k) (b, Fl x)"
    using f by (simp del: upt_Suc add: upt_Suc_append)
  also have "\<dots> = (if ms ! Suc k > x \<or> (ms ! Suc k = x \<and> ix ! Suc k < b) then (ix ! Suc k, Fl (ms ! Suc k)) else (b, Fl x))"
    using len Suc(2) by (simp add: merge_lane_def)
  finally show ?case unfolding un using top_of_merge [OF t lane] by (auto split: if_splits)
qed

lemma all_lanes: "(\<Union>l<8. lane_set offset l) = {..<offset}"
  by (auto simp: lane_set_def)

lemma argmax_avx2_first:
  fixes vs :: "'v::{linorder, order_bot} list"
  assumes "vs \<noteq> []"
  shows "first_max vs (argmax_avx2 (map Fl vs))"
proof -
  have "lanes_ok vs 0 (replicate 8 bot) (replicate 8 0)"
    by (simp add: lanes_ok_def lane_set_def top_of_empty)
  then obtain offset ms ix where l: "lane_loop (map Fl vs) 0 (replicate 8 (Fl bot)) (replicate 8 0) = (offset, map Fl ms, ix)"
    and o: "offset \<le> length vs" and ok: "lanes_ok vs offset ms ix"
    using lane_loop_top [of 0 vs "replicate 8 bot" "replicate 8 0"] by (auto simp: map_replicate)
  obtain b x where f: "fold (\<lambda>lane. merge_lane (map Fl ms ! lane) (ix ! lane)) [1..<8] (ix ! 0, map Fl ms ! 0) = (b, Fl x)"
    and t: "top_of (\<lambda>j. vs ! j) {..<offset} b x"
    using merge_lanes_top [OF ok, of 7] all_lanes [of offset] by (auto simp del: upt_Suc)
  have "argmax_avx2 (map Fl vs) = scan_max (map Fl vs) offset b (Fl x)"
    unfolding argmax_avx2_def l Let_def prod.case f ..
  then show ?thesis using scan_max_top [OF o t] top_of_first_max [OF _ assms] by auto
qed

lemma argmax_scalar_first:
  fixes vs :: "'v::{linorder, order_bot} list"
  assumes "vs \<noteq> []"
  shows "first_max vs (argmax_scalar (map Fl vs))"
proof -
  have "1 \<le> length vs" using assms by (cases vs) simp_all
  moreover have "top_of (\<lambda>j. vs ! j) {..<1} 0 (vs ! 0)" by (simp add: top_of_def)
  ultimately show ?thesis
    using scan_max_top [of 1 vs 0 "vs ! 0"] top_of_first_max [OF _ assms] assms
    by (auto simp: argmax_scalar_def)
qed

lemma argmax_f32_first: "vs \<noteq> [] \<Longrightarrow> first_max vs (argmax_f32 use_avx2 (map Fl vs))"
  by (simp add: argmax_f32_def argmax_avx2_first argmax_scalar_first)

subsection \<open>Properties\<close>

text \<open>
  C17: On numbers, minus infinity among them, the vector code and the scalar code return the same
  index, the first of the largest values, for every length: whole blocks of eight, the tail, and ties
  across lanes.
\<close>

theorem argmax_vector_scalar_agree:
  assumes "vs \<noteq> []"
  shows "argmax_avx2 (map Fl vs) = argmax_scalar (map Fl vs) \<and> first_max vs (argmax_avx2 (map Fl vs))"
  using argmax_avx2_first [OF assms] argmax_scalar_first [OF assms] first_max_unique by blast

theorem argmax_vector_scalar_agree_witness:
  "argmax_avx2 (map Fl [3, 7, 1, 7::nat]) = argmax_scalar (map Fl [3, 7, 1, 7::nat]) \<and>
   first_max [3, 7, 1, 7::nat] (argmax_avx2 (map Fl [3, 7, 1, 7::nat]))"
  by (rule argmax_vector_scalar_agree) simp

text \<open>
  With a NaN in front the two disagree: the scalar code never finds anything greater than it, the
  vector code leaves it out.
\<close>

theorem argmax_NaN_differs:
  "argmax_scalar [NaN, Fl (5::nat)] = 0 \<and> argmax_avx2 [NaN, Fl (5::nat)] = 1"
  by (simp add: argmax_scalar_def argmax_avx2_def scan_max.simps lane_loop.simps merge_lane_def bot_nat_def
      upt_conv_Cons)

end
