(* ===== verification/LlamaSpec.thy ===== *)
theory LlamaSpec
  imports Argmax
begin

section \<open>Greedy and speculative decoding\<close>

text \<open>
  Models the decode entry points of \<open>src/backend/cpu/fortai_llama_fast.c\<close>:
  \<open>fortai_llama_fast_context_decode\<close>, \<open>_decode_greedy\<close>, \<open>_decode_speculative\<close> and \<open>_reset\<close>. The
  library behind them is late-bound and not part of the repository, so its three calls are
  parameters: \<open>decode\<close> evaluates a batch of tokens at positions in a context's memory, \<open>logits_at\<close>
  is the row of a position, \<open>remove_from\<close> drops the positions from one on. The memory of the one
  sequence a context holds is a map from positions to tokens.

  What the code relies on is \<open>faithful\<close>: a batch that succeeds is entered at its positions, a row
  only depends on the positions up to its own, and a removal that succeeds removes.
\<close>

type_synonym memory = "nat \<rightharpoonup> int"

record 'v llama_context =
  decode :: "memory \<Rightarrow> (int \<times> nat) list \<Rightarrow> bool \<times> memory"
  logits_at :: "memory \<Rightarrow> nat \<Rightarrow> 'v fl list option"
  remove_from :: "memory \<Rightarrow> nat \<Rightarrow> bool \<times> memory"

text \<open>
  The handle: its contexts with their memories, and the fields that steer decoding. The batch of the
  MTP context also carries the hidden row of the target (\<open>mtp_batch.embd\<close>), so its \<open>decode\<close> and
  \<open>logits_at\<close> depend on that row. \<open>mtp_embd\<close> is 0 where the code finds a part of the MTP interface
  missing; \<open>mtp\<close> is \<open>None\<close> unless the MTP context is there and enabled. The sum of the logits that
  the calls also report is not modelled.
\<close>

record 'v llama_handle =
  target :: "'v llama_context"
  target_memory :: memory
  vocab :: nat
  max_context :: nat
  draft :: "'v llama_context option"
  draft_memory :: memory
  draft_vocab :: nat
  spec_max :: nat
  spec_enabled :: bool
  can_remove :: bool
  mtp :: "('v fl list \<Rightarrow> 'v llama_context) option"
  hidden_row :: "memory \<Rightarrow> 'v fl list option"
  mtp_memory :: memory
  mtp_embd :: nat
  use_avx2 :: bool

text \<open>The status code of a failed call, or what it returns.\<close>

datatype 'a status_or = Failed int | Done 'a

definition bad_position :: "'v llama_handle \<Rightarrow> int \<Rightarrow> int \<Rightarrow> bool" where
  "bad_position h token position \<longleftrightarrow> token < 0 \<or> position < 0 \<or> position \<ge> int (max_context h)"

definition context_decode ::
    "'v llama_handle \<Rightarrow> int \<Rightarrow> int \<Rightarrow> nat \<Rightarrow> 'v fl list status_or \<times> 'v llama_handle" where
  "context_decode h token position logits_count =
     (if bad_position h token position \<or> logits_count < vocab h then (Failed 1, h)
      else let (ok, m) = decode (target h) (target_memory h) [(token, nat position)];
               h' = h\<lparr>target_memory := m\<rparr>
           in if \<not> ok then (Failed 2, h')
              else (case logits_at (target h) m (nat position) of
                  None \<Rightarrow> (Failed 3, h') | Some result \<Rightarrow> (Done (take (vocab h) result), h')))"

definition decode_greedy ::
    "'v::{linorder, order_bot} llama_handle \<Rightarrow> int \<Rightarrow> int \<Rightarrow> int status_or \<times> 'v llama_handle" where
  "decode_greedy h token position =
     (if bad_position h token position then (Failed 1, h)
      else let (ok, m) = decode (target h) (target_memory h) [(token, nat position)];
               h' = h\<lparr>target_memory := m\<rparr>
           in if \<not> ok then (Failed 2, h')
              else (case logits_at (target h) m (nat position) of
                  None \<Rightarrow> (Failed 3, h')
                | Some result \<Rightarrow>
                    if vocab h = 0 then (Failed 3, h')
                    else (Done (int (argmax_f32 (use_avx2 h) (take (vocab h) result))), h')))"

text \<open>The draft loop: the tokens the draft model proposes, one decode each.\<close>

fun draft_loop ::
    "bool \<Rightarrow> nat \<Rightarrow> 'v::{linorder, order_bot} llama_context \<Rightarrow> memory \<Rightarrow> int \<Rightarrow> nat \<Rightarrow> nat \<Rightarrow> int list status_or \<times> memory" where
  "draft_loop avx n_vocab ctx m input p 0 = (Done [], m)"
| "draft_loop avx n_vocab ctx m input p (Suc n) =
     (let (ok, m') = decode ctx m [(input, p)]
      in if \<not> ok then (Failed 3, m')
         else (case logits_at ctx m' p of
             None \<Rightarrow> (Failed 4, m')
           | Some result \<Rightarrow>
               let t = int (argmax_f32 avx (take n_vocab result))
               in (case draft_loop avx n_vocab ctx m' t (p + 1) n of
                     (Done ts, m'') \<Rightarrow> (Done (t # ts), m'')
                   | failed \<Rightarrow> failed)))"

text \<open>
  The comparison of the draft with the target's rows: the accepted tokens, and the target's own
  choice behind them.
\<close>

fun verify_draft ::
    "bool \<Rightarrow> nat \<Rightarrow> 'v::{linorder, order_bot} llama_context \<Rightarrow> memory \<Rightarrow> nat \<Rightarrow> int list \<Rightarrow> (int list \<times> int) status_or" where
  "verify_draft avx n_vocab ctx m p [] =
     (case logits_at ctx m p of
        None \<Rightarrow> Failed 7 | Some result \<Rightarrow> Done ([], int (argmax_f32 avx (take n_vocab result))))"
| "verify_draft avx n_vocab ctx m p (d # ds) =
     (case logits_at ctx m p of
        None \<Rightarrow> Failed 6
      | Some result \<Rightarrow>
          let t = int (argmax_f32 avx (take n_vocab result))
          in if t \<noteq> d then Done ([], t)
             else (case verify_draft avx n_vocab ctx m (p + 1) ds of
                 Done (accepted, next_token) \<Rightarrow> Done (d # accepted, next_token)
               | failed \<Rightarrow> failed))"

definition mtp_step ::
    "'v::{linorder, order_bot} llama_handle \<Rightarrow> ('v fl list \<Rightarrow> 'v llama_context) \<Rightarrow> int \<Rightarrow> int \<Rightarrow> int list status_or \<times> 'v llama_handle" where
  "mtp_step h head token position =
     (if mtp_embd h = 0 then (Failed 1, h)
      else let (ok, m) = decode (target h) (target_memory h) [(token, nat position)]; h' = h\<lparr>target_memory := m\<rparr>
           in if \<not> ok then (Failed 2, h')
              else (case (logits_at (target h) m (nat position), hidden_row h m) of
                  (Some result, Some hidden) \<Rightarrow>
                    let target_token = int (argmax_f32 (use_avx2 h) (take (vocab h) result));
                        ctx = head (take (mtp_embd h) hidden);
                        (mtp_ok, mm) = decode ctx (mtp_memory h') [(token, nat position)];
                        h'' = h'\<lparr>mtp_memory := mm\<rparr>
                    in if \<not> mtp_ok then (Failed 4, h'')
                       else (case logits_at ctx mm (nat position) of
                           None \<Rightarrow> (Failed 5, h'')
                         | Some draft_result \<Rightarrow>
                             let draft_token = int (argmax_f32 (use_avx2 h) (take (vocab h) draft_result))
                             in (Done [if draft_token = target_token then draft_token else target_token], h''))
                | _ \<Rightarrow> (Failed 3, h')))"

definition rollback ::
    "'v llama_handle \<Rightarrow> 'v llama_context \<Rightarrow> nat \<Rightarrow> int list \<Rightarrow> int list status_or \<times> 'v llama_handle" where
  "rollback h ctx p tokens =
     (let (ok, m) = remove_from (target h) (target_memory h) p; h' = h\<lparr>target_memory := m\<rparr>
      in if \<not> ok then (Failed 8, h')
         else let (draft_ok, dm) = remove_from ctx (draft_memory h') p; h'' = h'\<lparr>draft_memory := dm\<rparr>
              in if \<not> draft_ok then (Failed 9, h'') else (Done tokens, h''))"

definition speculate ::
    "'v::{linorder, order_bot} llama_handle \<Rightarrow> 'v llama_context \<Rightarrow> int \<Rightarrow> nat \<Rightarrow> int list status_or \<times> 'v llama_handle" where
  "speculate h ctx token p =
     (case draft_loop (use_avx2 h) (draft_vocab h) ctx (draft_memory h) token p (spec_max h) of
        (Failed e, dm) \<Rightarrow> (Failed e, h\<lparr>draft_memory := dm\<rparr>)
      | (Done draft_tokens, dm) \<Rightarrow>
          let batch = zip (token # draft_tokens) [p..<p + spec_max h + 1];
              (ok, m) = decode (target h) (target_memory h) batch;
              h' = h\<lparr>draft_memory := dm, target_memory := m\<rparr>
          in if \<not> ok then (Failed 5, h')
             else (case verify_draft (use_avx2 h) (vocab h) (target h) m p draft_tokens of
                 Failed e \<Rightarrow> (Failed e, h')
               | Done (accepted, next_token) \<Rightarrow>
                   if length accepted < spec_max h
                   then rollback h' ctx (p + length accepted + 1) (accepted @ [next_token])
                   else (Done (accepted @ [next_token]), h')))"

definition decode_speculative ::
    "'v::{linorder, order_bot} llama_handle \<Rightarrow> int \<Rightarrow> int \<Rightarrow> int \<Rightarrow> int list status_or \<times> 'v llama_handle" where
  "decode_speculative h token position cap =
     (if bad_position h token position \<or> cap \<le> 0 then (Failed 1, h)
      else case mtp h of
        Some ctx \<Rightarrow> mtp_step h ctx token position
      | None \<Rightarrow>
          (case draft h of
             Some ctx \<Rightarrow>
               if \<not> spec_enabled h \<or> spec_max h = 0 \<or> \<not> can_remove h \<or> int (spec_max h) + 1 > cap \<or>
                  int (spec_max h) + 1 > int (max_context h) - position
               then (case decode_greedy h token position of
                   (Failed e, h') \<Rightarrow> (Failed 2, h') | (Done t, h') \<Rightarrow> (Done [t], h'))
               else speculate h ctx token (nat position)
           | None \<Rightarrow>
               (case decode_greedy h token position of
                   (Failed e, h') \<Rightarrow> (Failed 2, h') | (Done t, h') \<Rightarrow> (Done [t], h'))))"

text \<open>Clearing the contexts; the draft is cleared only without the MTP context.\<close>

definition context_reset :: "bool \<Rightarrow> 'v llama_handle \<Rightarrow> int \<times> 'v llama_handle" where
  "context_reset clear_available h =
     (if \<not> clear_available then (1, h)
      else let h' = h\<lparr>target_memory := Map.empty\<rparr>
           in if mtp h' \<noteq> None then (0, h'\<lparr>mtp_memory := Map.empty\<rparr>)
              else (0, if spec_enabled h' \<and> draft h' \<noteq> None then h'\<lparr>draft_memory := Map.empty\<rparr> else h'))"

subsection \<open>What the library is relied on for\<close>

definition enter :: "memory \<Rightarrow> (int \<times> nat) list \<Rightarrow> memory" where
  "enter m batch = fold (\<lambda>(t, p) m. m(p \<mapsto> t)) batch m"

definition faithful :: "'v llama_context \<Rightarrow> bool" where
  "faithful ctx \<longleftrightarrow>
     (\<forall>m batch. fst (decode ctx m batch) \<longrightarrow> snd (decode ctx m batch) = enter m batch) \<and>
     (\<forall>m p. logits_at ctx m p = logits_at ctx (m |` {..p}) p) \<and>
     (\<forall>m p. fst (remove_from ctx m p) \<longrightarrow> snd (remove_from ctx m p) = m |` {..<p})"

text \<open>The greedy continuation: each token is the first largest logit behind all earlier ones.\<close>

fun greedy_tokens ::
    "bool \<Rightarrow> nat \<Rightarrow> 'v::{linorder, order_bot} llama_context \<Rightarrow> memory \<Rightarrow> int \<Rightarrow> nat \<Rightarrow> nat \<Rightarrow> int list" where
  "greedy_tokens avx n_vocab ctx m token p 0 = []"
| "greedy_tokens avx n_vocab ctx m token p (Suc n) =
     (let m' = m(p \<mapsto> token); t = int (argmax_f32 avx (take n_vocab (the (logits_at ctx m' p))))
      in t # greedy_tokens avx n_vocab ctx m' t (p + 1) n)"

lemma enter_simps [simp]:
  "enter m [] = m" "enter m ((t, p) # batch) = enter (m(p \<mapsto> t)) batch"
  by (simp_all add: enter_def)

lemma enter_zip:
  "enter m (zip ts [p..<p + length ts]) q = (if p \<le> q \<and> q < p + length ts then Some (ts ! (q - p)) else m q)"
proof (induction ts arbitrary: m p)
  case (Cons t ts)
  have "[p..<p + length (t # ts)] = p # [Suc p..<Suc p + length ts]"
    by (simp del: upt_Suc add: upt_conv_Cons)
  then have "enter m (zip (t # ts) [p..<p + length (t # ts)]) q = enter (m(p \<mapsto> t)) (zip ts [Suc p..<Suc p + length ts]) q"
    by simp
  also have "\<dots> = (if p \<le> q \<and> q < p + length (t # ts) then Some ((t # ts) ! (q - p)) else m q)"
    unfolding Cons by (auto simp: nth_Cons' Suc_diff_le)
  finally show ?case .
qed auto

lemma faithful_row: "faithful ctx \<Longrightarrow> m |` {..p} = m' |` {..p} \<Longrightarrow> logits_at ctx m p = logits_at ctx m' p"
  unfolding faithful_def by metis

lemma faithful_decode: "faithful ctx \<Longrightarrow> decode ctx m batch = (True, m') \<Longrightarrow> m' = enter m batch"
  unfolding faithful_def by (metis fst_conv snd_conv)

lemma faithful_remove: "faithful ctx \<Longrightarrow> remove_from ctx m p = (True, m') \<Longrightarrow> m' = m |` {..<p}"
  unfolding faithful_def by (metis fst_conv snd_conv)

text \<open>The accepted tokens and the target's choice are the greedy continuation.\<close>

lemma verify_draft_greedy:
  assumes "faithful ctx"
  shows "verify_draft avx n ctx M p ds = Done (acc, t) \<Longrightarrow> M |` {..p} = (m(p \<mapsto> token)) |` {..p} \<Longrightarrow>
    \<forall>i<length ds. M (p + 1 + i) = Some (ds ! i) \<Longrightarrow>
    acc @ [t] = greedy_tokens avx n ctx m token p (length acc + 1) \<and> prefix acc ds"
proof (induction ds arbitrary: acc m token p)
  case Nil
  have "logits_at ctx M p = logits_at ctx (m(p \<mapsto> token)) p" using faithful_row [OF assms Nil(2)] .
  with Nil(1) show ?case by (auto simp: Let_def split: option.splits)
next
  case (Cons d ds)
  have row: "logits_at ctx M p = logits_at ctx (m(p \<mapsto> token)) p" using faithful_row [OF assms Cons(3)] .
  obtain result where r: "logits_at ctx M p = Some result" using Cons(2) by (cases "logits_at ctx M p") auto
  then have r': "logits_at ctx (m(p \<mapsto> token)) p = Some result" using row by simp
  define u where "u = int (argmax_f32 avx (take n result))"
  show ?case
  proof (cases "u = d")
    case False
    then have "acc = []" "t = u" using Cons(2) r by (simp_all add: u_def Let_def)
    then show ?thesis using r' by (simp add: u_def)
  next
    case True
    then obtain acc' where v: "verify_draft avx n ctx M (p + 1) ds = Done (acc', t)" and acc: "acc = d # acc'"
      using Cons(2) r by (auto simp: u_def Let_def split: status_or.splits)
    have M: "M (p + 1) = Some d" using Cons(4) by force
    have next_row: "M |` {..p + 1} = ((m(p \<mapsto> token))(p + 1 \<mapsto> d)) |` {..p + 1}"
    proof
      fix q
      show "(M |` {..p + 1}) q = (((m(p \<mapsto> token))(p + 1 \<mapsto> d)) |` {..p + 1}) q"
        using M fun_cong [OF Cons(3), of q] by (cases "q \<le> p"; cases "q = p + 1") (auto simp: restrict_map_def)
    qed
    have "\<forall>i<length ds. M (p + 1 + 1 + i) = Some (ds ! i)" using Cons(4) by fastforce
    note IH = Cons(1) [OF v next_row this]
    have "greedy_tokens avx n ctx m token p (length acc + 1) =
        u # greedy_tokens avx n ctx (m(p \<mapsto> token)) u (p + 1) (length acc' + 1)"
      using r' by (simp add: u_def acc Let_def)
    moreover have "acc @ [t] = u # (acc' @ [t])" "prefix acc (d # ds)" using IH True by (simp_all add: acc)
    ultimately show ?thesis using IH True by (simp only: conj_absorb)
  qed
qed

lemma draft_loop_result:
  assumes "faithful ctx"
  shows "draft_loop avx n_vocab ctx m input p n = (Done ts, m') \<Longrightarrow>
    length ts = n \<and> (\<forall>q. q < p \<or> p + n \<le> q \<longrightarrow> m' q = m q)"
proof (induction n arbitrary: m input p ts m')
  case (Suc n)
  obtain ok m1 where d: "decode ctx m [(input, p)] = (ok, m1)" by fastforce
  have ok: ok using Suc(2) d by (auto split: if_splits)
  have m1: "m1 = m(p \<mapsto> input)" using faithful_decode [OF assms, of m "[(input, p)]" m1] d ok by simp
  obtain result where r: "logits_at ctx m1 p = Some result" using Suc(2) d ok by (cases "logits_at ctx m1 p") auto
  obtain us m2 where u: "draft_loop avx n_vocab ctx m1 (int (argmax_f32 avx (take n_vocab result))) (p + 1) n = (Done us, m2)"
    and ts: "ts = int (argmax_f32 avx (take n_vocab result)) # us" "m' = m2"
    using Suc(2) d ok r by (auto simp: Let_def split: status_or.splits prod.splits)
  show ?case using Suc(1) [OF u] ts m1 by auto
qed simp

lemma draft_loop_length:
  "draft_loop avx n_vocab ctx m input p n = (Done ts, m') \<Longrightarrow> length ts = n"
proof (induction n arbitrary: m input p ts m')
  case (Suc n)
  obtain ok m1 where d: "decode ctx m [(input, p)] = (ok, m1)" by fastforce
  show ?case using Suc d by (auto simp: Let_def split: if_splits option.splits status_or.splits prod.splits)
qed simp

text \<open>Entering tokens one by one, as greedy decoding does, and cutting back a longer batch.\<close>

lemma cut_batch:
  assumes "dom m \<subseteq> {..<p}" and "length ts < length us" and "prefix ts us"
  shows "enter m (zip (token # us) [p..<p + length us + 1]) |` {..<p + length ts + 1} =
    enter m (zip (token # ts) [p..<p + length ts + 1])"
proof
  fix q
  have e: "enter m (zip (token # vs) [p..<p + length vs + 1]) q =
      (if p \<le> q \<and> q < p + length vs + 1 then Some ((token # vs) ! (q - p)) else m q)" for vs
    using enter_zip [of m "token # vs" p q] by simp
  have "m q = None" if "p \<le> q" using assms(1) that by (metis domIff lessThan_iff not_le subsetD)
  moreover have "(token # us) ! i = (token # ts) ! i" if "i < length ts + 1" for i
    using assms(3) that by (cases i) (auto simp: prefix_def nth_append)
  ultimately show "(enter m (zip (token # us) [p..<p + length us + 1]) |` {..<p + length ts + 1}) q =
      enter m (zip (token # ts) [p..<p + length ts + 1]) q"
    using assms(2) unfolding restrict_map_def lessThan_iff e by auto
qed

lemma zip_snoc_tail: "zip (token # ts @ [t]) [p..<p + length ts + 1] = zip (token # ts) [p..<p + length ts + 1]"
  by (simp add: zip_append1 del: upt_Suc flip: append_Cons)

definition follows_greedy :: "'v::{linorder, order_bot} llama_handle \<Rightarrow> int \<Rightarrow> nat \<Rightarrow> int list \<Rightarrow> 'v llama_handle \<Rightarrow> bool" where
  "follows_greedy h token p ts h' \<longleftrightarrow>
     ts = greedy_tokens (use_avx2 h) (vocab h) (target h) (target_memory h) token p (length ts) \<and>
     target_memory h' = enter (target_memory h) (zip (token # ts) [p..<p + length ts])"

lemma follows_greedyI:
  assumes "acc @ [t] = greedy_tokens (use_avx2 h) (vocab h) (target h) (target_memory h) token p (length acc + 1)"
    and "target_memory h' = enter (target_memory h) (zip (token # acc) [p..<p + length acc + 1])"
  shows "follows_greedy h token p (acc @ [t]) h'"
proof -
  have "length (acc @ [t]) = length acc + 1" by simp
  moreover have "p + (length acc + 1) = p + length acc + 1" by simp
  ultimately show ?thesis unfolding follows_greedy_def using assms zip_snoc_tail [of token acc t p] by (simp only: simp_thms)
qed

lemma speculate_greedy:
  assumes "faithful (target h)" and "dom (target_memory h) \<subseteq> {..<p}"
    and "speculate h ctx token p = (Done ts, h')"
  shows "follows_greedy h token p ts h' \<and> 1 \<le> length ts \<and> length ts \<le> spec_max h + 1"
proof -
  let ?m = "target_memory h"
  obtain ds dm where dl: "draft_loop (use_avx2 h) (draft_vocab h) ctx (draft_memory h) token p (spec_max h) = (Done ds, dm)"
    using assms(3) by (auto simp: speculate_def split: prod.splits status_or.splits)
  have len: "length ds = spec_max h" using draft_loop_length [OF dl] .
  define M where "M = enter ?m (zip (token # ds) [p..<p + spec_max h + 1])"
  obtain ok m1 where d: "decode (target h) ?m (zip (token # ds) [p..<p + spec_max h + 1]) = (ok, m1)" by fastforce
  have ok: ok using assms(3) dl d by (cases ok) (simp_all add: speculate_def Let_def del: upt_Suc)
  have m1: "m1 = M" using faithful_decode [OF assms(1)] d ok by (simp add: M_def)
  let ?h = "h\<lparr>draft_memory := dm, target_memory := M\<rparr>"
  obtain acc t where v: "verify_draft (use_avx2 h) (vocab h) (target h) M p ds = Done (acc, t)"
    using assms(3) dl d ok m1 by (auto simp: speculate_def Let_def simp del: upt_Suc split: status_or.splits)
  have M_at: "M q = (if p \<le> q \<and> q < p + spec_max h + 1 then Some ((token # ds) ! (q - p)) else ?m q)" for q
    using enter_zip [of ?m "token # ds" p q] len by (simp add: M_def)
  have "M |` {..p} = (?m(p \<mapsto> token)) |` {..p}" by (rule ext) (auto simp: restrict_map_def M_at)
  moreover have "\<forall>i<length ds. M (p + 1 + i) = Some (ds ! i)" using len by (auto simp: M_at)
  ultimately have g: "acc @ [t] = greedy_tokens (use_avx2 h) (vocab h) (target h) ?m token p (length acc + 1)"
    and pre: "prefix acc ds" using verify_draft_greedy [OF assms(1) v] by simp_all
  have le: "length acc \<le> spec_max h" using prefix_length_le [OF pre] len by simp
  have run: "(Done ts, h') = (if length acc < spec_max h then rollback ?h ctx (p + length acc + 1) (acc @ [t]) else (Done (acc @ [t]), ?h))"
    using assms(3) dl d ok m1 v by (simp add: speculate_def Let_def del: upt_Suc)
  show ?thesis
  proof (cases "length acc < spec_max h")
    case False
    then have "acc = ds" using pre le len by (auto simp: prefix_def)
    then have "ts = ds @ [t]" "h' = ?h" using run False by simp_all
    moreover have "follows_greedy h token p (acc @ [t]) h'"
      by (rule follows_greedyI [OF g]) (simp add: \<open>h' = ?h\<close> \<open>acc = ds\<close> M_def len del: upt_Suc)
    ultimately show ?thesis using \<open>acc = ds\<close> len by simp
  next
    case True
    obtain ok' m2 where r: "remove_from (target h) M (p + length acc + 1) = (ok', m2)" by fastforce
    then have "ok'" "ts = acc @ [t]" "target_memory h' = m2"
      using run True by (auto simp: rollback_def Let_def split: if_splits prod.splits)
    moreover have "m2 = M |` {..<p + length acc + 1}" using faithful_remove [OF assms(1)] r \<open>ok'\<close> by simp
    moreover have "M |` {..<p + length acc + 1} = enter ?m (zip (token # acc) [p..<p + length acc + 1])"
      unfolding M_def len [symmetric] using cut_batch [OF assms(2) _ pre] True len by simp
    ultimately have "target_memory h' = enter ?m (zip (token # acc) [p..<p + length acc + 1])" by (simp only:)
    from follows_greedyI [OF g this] show ?thesis using le \<open>ts = acc @ [t]\<close> by simp
  qed
qed

lemma one_follows_greedy:
  assumes "target_memory h' = (target_memory h)(p \<mapsto> token)"
    and "logits_at (target h) ((target_memory h)(p \<mapsto> token)) p = Some result"
  shows "follows_greedy h token p [int (argmax_f32 (use_avx2 h) (take (vocab h) result))] h'"
  using assms by (simp add: follows_greedy_def Let_def)

lemma decode_greedy_follows:
  assumes "faithful (target h)" and "decode_greedy h token position = (Done t, h')"
  shows "follows_greedy h token (nat position) [t] h'"
proof -
  obtain ok m where d: "decode (target h) (target_memory h) [(token, nat position)] = (ok, m)" by fastforce
  have ok: ok using assms(2) d by (cases ok) (simp_all add: decode_greedy_def Let_def split: if_splits)
  have m: "m = (target_memory h)(nat position \<mapsto> token)"
    using faithful_decode [OF assms(1), of "target_memory h" "[(token, nat position)]" m] d ok by simp
  obtain result where r: "logits_at (target h) m (nat position) = Some result"
    using assms(2) d ok by (cases "logits_at (target h) m (nat position)") (auto simp: decode_greedy_def Let_def split: if_splits)
  have "t = int (argmax_f32 (use_avx2 h) (take (vocab h) result))" "target_memory h' = m"
    using assms(2) d ok r by (auto simp: decode_greedy_def Let_def split: if_splits)
  then show ?thesis using one_follows_greedy [of h' h "nat position" token result] r m by simp
qed

lemma mtp_step_follows:
  assumes "faithful (target h)" and "mtp_step h ctx token position = (Done ts, h')"
  shows "follows_greedy h token (nat position) ts h' \<and> length ts = 1"
proof -
  obtain ok m where d: "decode (target h) (target_memory h) [(token, nat position)] = (ok, m)" by fastforce
  have ok: ok using assms(2) d by (cases ok) (simp_all add: mtp_step_def Let_def split: if_splits)
  have m: "m = (target_memory h)(nat position \<mapsto> token)"
    using faithful_decode [OF assms(1), of "target_memory h" "[(token, nat position)]" m] d ok by simp
  obtain result where r: "logits_at (target h) m (nat position) = Some result"
    using assms(2) d ok by (cases "logits_at (target h) m (nat position)") (auto simp: mtp_step_def Let_def split: if_splits)
  obtain hidden where hid: "hidden_row h m = Some hidden"
    using assms(2) d ok r by (cases "hidden_row h m") (auto simp: mtp_step_def Let_def split: if_splits)
  have "ts = [int (argmax_f32 (use_avx2 h) (take (vocab h) result))]" "target_memory h' = m"
    using assms(2) d ok r hid by (auto simp: mtp_step_def Let_def split: if_splits option.splits prod.splits)
  then show ?thesis using one_follows_greedy [of h' h "nat position" token result] r m by simp
qed

lemma decode_speculative_cases:
  assumes "decode_speculative h token position cap = (Done ts, h')"
  obtains (mtp) ctx where "mtp_step h ctx token position = (Done ts, h')"
  | (greedy) t where "decode_greedy h token position = (Done t, h')" "ts = [t]"
  | (spec) ctx where "draft h = Some ctx" "speculate h ctx token (nat position) = (Done ts, h')"
      "int (spec_max h) + 1 \<le> cap" "int (spec_max h) + 1 \<le> int (max_context h) - position" "0 < spec_max h"
  using assms unfolding decode_speculative_def
  by (auto split: if_splits option.splits prod.splits status_or.splits)

lemma decode_speculative_follows:
  assumes "faithful (target h)" and "dom (target_memory h) \<subseteq> {..<nat position}"
    and "decode_speculative h token position cap = (Done ts, h')"
  shows "follows_greedy h token (nat position) ts h' \<and> 1 \<le> length ts \<and> int (length ts) \<le> cap \<and>
    position + int (length ts) \<le> int (max_context h)"
proof -
  have guard: "0 < cap" "0 \<le> position" "position < int (max_context h)"
    using assms(3) by (auto simp: decode_speculative_def bad_position_def split: if_splits)
  from assms(3) show ?thesis
  proof (cases rule: decode_speculative_cases)
    case (mtp ctx)
    then show ?thesis using mtp_step_follows [OF assms(1)] guard by fastforce
  next
    case (greedy t)
    then show ?thesis using decode_greedy_follows [OF assms(1)] guard by simp
  next
    case (spec ctx)
    then show ?thesis using speculate_greedy [OF assms(1,2)] by fastforce
  qed
qed

text \<open>After a full acceptance nobody has entered the last accepted token in the draft's memory.\<close>

lemma speculate_draft_gap:
  assumes "faithful (target h)" and "faithful ctx" and "dom (draft_memory h) \<subseteq> {..<p}"
    and "speculate h ctx token p = (Done ts, h')" and "length ts = spec_max h + 1"
  shows "draft_memory h' (p + spec_max h) = None \<and> target_memory h' (p + spec_max h) \<noteq> None"
proof -
  obtain ds dm where dl: "draft_loop (use_avx2 h) (draft_vocab h) ctx (draft_memory h) token p (spec_max h) = (Done ds, dm)"
    using assms(4) by (auto simp: speculate_def split: prod.splits status_or.splits)
  have len: "length ds = spec_max h" and dm: "dm (p + spec_max h) = draft_memory h (p + spec_max h)"
    using draft_loop_result [OF assms(2) dl] by auto
  obtain ok m where d: "decode (target h) (target_memory h) (zip (token # ds) [p..<p + spec_max h + 1]) = (ok, m)" by fastforce
  have ok: ok using assms(4) dl d by (cases ok) (simp_all add: speculate_def Let_def del: upt_Suc)
  have m: "m = enter (target_memory h) (zip (token # ds) [p..<p + spec_max h + 1])"
    using faithful_decode [OF assms(1)] d ok by simp
  obtain acc t where v: "verify_draft (use_avx2 h) (vocab h) (target h) m p ds = Done (acc, t)"
    using assms(4) dl d ok by (auto simp: speculate_def Let_def simp del: upt_Suc split: status_or.splits)
  have run: "(Done ts, h') = (if length acc < spec_max h
      then rollback (h\<lparr>draft_memory := dm, target_memory := m\<rparr>) ctx (p + length acc + 1) (acc @ [t])
      else (Done (acc @ [t]), h\<lparr>draft_memory := dm, target_memory := m\<rparr>))"
    using assms(4) dl d ok v by (simp add: speculate_def Let_def del: upt_Suc)
  have "\<not> length acc < spec_max h"
    using run assms(5) by (auto simp: rollback_def Let_def split: if_splits prod.splits)
  then have "h' = h\<lparr>draft_memory := dm, target_memory := m\<rparr>" using run by simp
  moreover have "draft_memory h (p + spec_max h) = None" using assms(3) by (auto simp: domIff subset_iff)
  moreover have "m (p + spec_max h) \<noteq> None"
    using enter_zip [of "target_memory h" "token # ds" p "p + spec_max h"] len m by (simp del: upt_Suc)
  ultimately show ?thesis using dm by simp
qed

subsection \<open>Properties\<close>

text \<open>
  C4: Speculative decoding is greedy decoding: whatever the draft model or the MTP head proposes, the
  returned tokens are the greedy continuation of the target model, and its memory is what greedy
  decoding of these tokens leaves, with the rejected ones rolled back. At least one token is
  returned, at most as many as the caller has room for, and never past the context.
\<close>

theorem speculative_is_greedy:
  assumes "faithful (target h)" and "dom (target_memory h) \<subseteq> {..<nat position}"
    and "decode_speculative h token position cap = (Done ts, h')"
  shows "ts = greedy_tokens (use_avx2 h) (vocab h) (target h) (target_memory h) token (nat position) (length ts) \<and>
    target_memory h' = enter (target_memory h) (zip (token # ts) [nat position..<nat position + length ts]) \<and>
    1 \<le> length ts \<and> int (length ts) \<le> cap \<and> position + int (length ts) \<le> int (max_context h)"
  using decode_speculative_follows [OF assms] by (simp add: follows_greedy_def)

text \<open>A context that always prefers token 1, as target and as draft.\<close>

definition ones :: "nat llama_context" where
  "ones = \<lparr>decode = (\<lambda>m batch. (True, enter m batch)), logits_at = (\<lambda>m p. Some [Fl 0, Fl 3]),
     remove_from = (\<lambda>m p. (True, m |` {..<p}))\<rparr>"

definition ones_handle :: "nat llama_handle" where
  "ones_handle = \<lparr>target = ones, target_memory = Map.empty, vocab = 2, max_context = 16, draft = Some ones,
     draft_memory = Map.empty, draft_vocab = 2, spec_max = 2, spec_enabled = True, can_remove = True,
     mtp = None, hidden_row = (\<lambda>m. None), mtp_memory = Map.empty, mtp_embd = 0, use_avx2 = False\<rparr>"

lemma ones_faithful: "faithful ones"
  by (simp add: faithful_def ones_def)

lemma argmax_ones: "argmax_f32 False [Fl 0, Fl (3::nat)] = 1"
  by (simp add: argmax_f32_def argmax_scalar_def scan_max.simps)

lemma ones_run: "\<exists>h'. speculate ones_handle ones 0 0 = (Done [1, 1, 1], h')"
  by (simp add: speculate_def ones_handle_def ones_def argmax_ones numeral_2_eq_2)

lemma ones_decode: "\<exists>h'. decode_speculative ones_handle 0 0 8 = (Done [1, 1, 1], h')"
  using ones_run by (simp add: decode_speculative_def bad_position_def ones_handle_def)

theorem speculative_is_greedy_witness:
  "greedy_tokens False 2 ones Map.empty 0 0 3 = [1, 1, 1]"
proof -
  obtain h' where "decode_speculative ones_handle 0 0 8 = (Done [1, 1, 1], h')" using ones_decode by blast
  from speculative_is_greedy [OF _ _ this] show ?thesis
    by (simp add: ones_handle_def ones_faithful del: greedy_tokens.simps) (simp add: numeral_3_eq_3)
qed

text \<open>
  When every drafted token is accepted, the draft context is left without the last of them: the
  target holds a token at position \<open>p + spec_max\<close>, the draft's memory nothing, and the next step
  decodes the draft behind the gap.
\<close>

theorem full_acceptance_draft_gap:
  assumes "faithful (target h)" and "draft h = Some ctx" and "faithful ctx" and "mtp h = None"
    and "dom (draft_memory h) \<subseteq> {..<nat position}" and "0 < spec_max h"
    and "decode_speculative h token position cap = (Done ts, h')" and "length ts = spec_max h + 1"
  shows "draft_memory h' (nat position + spec_max h) = None \<and> target_memory h' (nat position + spec_max h) \<noteq> None"
proof -
  have "speculate h ctx token (nat position) = (Done ts, h')"
    using assms(2,4,6-8) by (auto simp: decode_speculative_def split: if_splits prod.splits status_or.splits)
  then show ?thesis using speculate_draft_gap [OF assms(1,3,5)] assms(8) by blast
qed

theorem full_acceptance_draft_gap_witness:
  "\<exists>h'. decode_speculative ones_handle 0 0 8 = (Done [1, 1, 1], h') \<and> draft_memory h' 2 = None"
proof -
  obtain h' where run: "decode_speculative ones_handle 0 0 8 = (Done [1, 1, 1], h')" using ones_decode by blast
  have "draft_memory h' (nat 0 + spec_max ones_handle) = None \<and> target_memory h' (nat 0 + spec_max ones_handle) \<noteq> None"
    by (rule full_acceptance_draft_gap [OF _ _ _ _ _ _ run]) (simp_all add: ones_handle_def, simp_all add: ones_faithful)
  then have "draft_memory h' 2 = None" by (simp add: ones_handle_def numeral_2_eq_2)
  with run show ?thesis by blast
qed

end
