(* ===== verification/LlamaConfig.thy ===== *)
theory LlamaConfig
  imports HttpResponse Argmax
begin

section \<open>The environment configuration of the llama adapter\<close>

text \<open>
  Models the configuration part of \<open>src/backend/cpu/fortai_llama_fast.c\<close>: \<open>fortai_env3\<close> and the
  \<open>fortai_parse_*\<close> functions, and the parameter structures that
  \<open>fortai_llama_fast_context_create\<close> fills from them. Of the two structures only the fields that
  the code writes or reads are kept; the library's own defaults are an argument.

  \<open>strtof\<close> is an argument of \<open>parse_tensor_split\<close>: it returns the number at the start of its
  string and the offset behind it, 0 when there is none. The array that function returns is a
  static variable, so it is passed in and returned.
\<close>

subsection \<open>Values\<close>

definition env3 :: "environment \<Rightarrow> bytes \<Rightarrow> bytes \<Rightarrow> bytes \<Rightarrow> bytes option" where
  "env3 env fortai_name llama_name service_name =
     (if \<not> unset (env fortai_name) then env fortai_name
      else if \<not> unset (env llama_name) then env llama_name
      else if \<not> unset (env service_name) then env service_name
      else None)"

definition parse_bool :: "bytes option \<Rightarrow> bool \<Rightarrow> bool" where
  "parse_bool value fallback =
     (case value of
        None \<Rightarrow> fallback
      | Some v \<Rightarrow>
          if v = [] then fallback
          else if strcaseeq v ''1'' \<or> strcaseeq v ''true'' \<or> strcaseeq v ''on'' \<or> strcaseeq v ''yes'' then True
          else if strcaseeq v ''0'' \<or> strcaseeq v ''false'' \<or> strcaseeq v ''off'' \<or> strcaseeq v ''no'' then False
          else fallback)"

definition parse_int :: "bytes option \<Rightarrow> int \<Rightarrow> int \<Rightarrow> int \<Rightarrow> int" where
  "parse_int value fallback minimum maximum =
     (case value of
        None \<Rightarrow> fallback
      | Some v \<Rightarrow>
          if v = [] then fallback
          else let (parsed, stop) = strtol v
               in if stop = 0 \<or> stop \<noteq> length v \<or> parsed < minimum \<or> parsed > maximum then fallback
                  else parsed)"

definition parse_flash_attn :: "bytes option \<Rightarrow> int \<Rightarrow> int" where
  "parse_flash_attn value fallback =
     (case value of
        None \<Rightarrow> fallback
      | Some v \<Rightarrow>
          if v = [] then fallback
          else if strcaseeq v ''auto'' then - 1
          else if strcaseeq v ''on'' \<or> strcaseeq v ''true'' then 1
          else if strcaseeq v ''off'' \<or> strcaseeq v ''false'' then 0
          else fallback)"

definition cache_types :: "(bytes \<times> int) list" where
  "cache_types = [(''f32'', 0), (''f16'', 1), (''q4_0'', 2), (''q4_1'', 3), (''q5_0'', 6), (''q5_1'', 7), (''q8_0'', 8)]"

definition parse_cache_type :: "bytes option \<Rightarrow> int \<Rightarrow> int" where
  "parse_cache_type value fallback =
     (case value of
        None \<Rightarrow> fallback
      | Some v \<Rightarrow>
          if v = [] then fallback
          else (case find (\<lambda>(name, t). strcaseeq v name) cache_types of None \<Rightarrow> fallback | Some (_, t) \<Rightarrow> t))"

definition strcasestr :: "bytes \<Rightarrow> bytes \<Rightarrow> bool" where
  "strcasestr hay pat \<longleftrightarrow> find_sub (map tolower pat) (map tolower (cstr hay)) \<noteq> None"

definition path_requests_mtp :: "environment \<Rightarrow> bytes option \<Rightarrow> bool" where
  "path_requests_mtp env draft_path =
     (let value = env3 env ''FORTAI_SPEC_TYPE'' ''LLAMA_ARG_SPEC_TYPE'' ''LLAMACPP_SPEC_TYPE''
      in if value \<noteq> None \<and> strcaseeq (the value) ''draft-mtp'' then True
         else case draft_path of None \<Rightarrow> False | Some path \<Rightarrow> strcasestr path ''mtp'')"

subsection \<open>The tensor split\<close>

definition split_size :: nat where "split_size = 16"

definition split_done :: "bytes \<Rightarrow> nat \<Rightarrow> 'v list \<Rightarrow> 'v list option" where
  "split_done value count split = (if count = 0 \<or> value \<noteq> [] then None else Some split)"

definition not_positive :: "'v::{linorder, zero} fl \<Rightarrow> bool" where
  "not_positive ratio \<longleftrightarrow> (case ratio of NaN \<Rightarrow> False | Fl r \<Rightarrow> r \<le> 0)"

function split_loop ::
    "(bytes \<Rightarrow> 'v::{linorder, zero} fl \<times> nat) \<Rightarrow> bytes \<Rightarrow> nat \<Rightarrow> 'v fl list \<Rightarrow> 'v fl list option \<times> 'v fl list" where
  "split_loop strtof value count split =
     (if value \<noteq> [] \<and> count < split_size
      then let (ratio, stop) = strtof value
           in if stop = 0 \<or> not_positive ratio then (None, split)
              else let split' = split[count := ratio]
                   in (case drop stop value of
                       [] \<Rightarrow> (split_done value (count + 1) split', split')
                     | c # rest \<Rightarrow>
                         if c \<noteq> COMMA then (None, split') else split_loop strtof rest (count + 1) split')
      else (split_done value count split, split))"
  by pat_completeness auto

termination by (relation "measure (\<lambda>(_, _, count, _). split_size - count)") auto

declare split_loop.simps [simp del]

definition parse_tensor_split ::
    "(bytes \<Rightarrow> 'v::{linorder, zero} fl \<times> nat) \<Rightarrow> 'v fl list \<Rightarrow> bytes option \<Rightarrow> 'v fl list option \<times> 'v fl list" where
  "parse_tensor_split strtof split value =
     (if unset value then (None, split) else split_loop strtof (the value) 0 split)"

subsection \<open>The parameters of model and context\<close>

record 'v model_params =
  n_gpu_layers :: int
  main_gpu :: int
  split_mode :: int
  tensor_split :: "'v fl list option"
  use_extra_bufts :: bool
  load_mtp :: bool

record context_params =
  n_ctx :: int
  n_batch :: int
  n_ubatch :: int
  n_seq_max :: int
  n_rs_seq :: int
  n_outputs_max :: int
  n_outputs_max_per_seq :: int
  n_threads :: int
  n_threads_batch :: int
  ctx_type :: int
  flash_attn_type :: int
  type_k :: int
  type_v :: int
  offload_kqv :: bool
  no_perf :: bool
  op_offload :: bool
  swa_full :: bool
  kv_unified :: bool
  on_target :: bool

definition draft_path_env :: "environment \<Rightarrow> bytes option" where
  "draft_path_env env = env3 env ''FORTAI_DRAFT_MODEL'' ''LLAMA_ARG_MODEL_DRAFT'' ''LLAMACPP_DRAFT_MODEL''"

definition requested_spec_max :: "environment \<Rightarrow> int" where
  "requested_spec_max env =
     parse_int (env3 env ''FORTAI_SPEC_DRAFT_N_MAX'' ''LLAMA_ARG_SPEC_DRAFT_N_MAX'' ''LLAMACPP_SPEC_DRAFT_N_MAX'') 2 1 32"

definition target_model_params ::
    "(bytes \<Rightarrow> 'v::{linorder, zero} fl \<times> nat) \<Rightarrow> environment \<Rightarrow> 'v model_params \<Rightarrow> int \<Rightarrow> int \<Rightarrow> 'v fl list \<Rightarrow>
       'v model_params \<times> 'v fl list" where
  "target_model_params strtof env defaults gpu_layers gpu split =
     (let params = defaults\<lparr>n_gpu_layers := gpu_layers, main_gpu := gpu, use_extra_bufts := True,
            load_mtp := parse_bool (env3 env ''FORTAI_LOAD_MTP'' ''LLAMA_ARG_LOAD_MTP'' ''LLAMACPP_LOAD_MTP'') True\<rparr>;
          (split_values, split') = parse_tensor_split strtof split
            (env3 env ''FORTAI_TENSOR_SPLIT'' ''LLAMA_ARG_TENSOR_SPLIT'' ''LLAMACPP_TENSOR_SPLIT'')
      in (if split_values \<noteq> None \<and> gpu_layers \<noteq> 0
          then params\<lparr>split_mode := parse_int
                 (env3 env ''FORTAI_SPLIT_MODE'' ''LLAMA_ARG_SPLIT_MODE'' ''LLAMACPP_SPLIT_MODE'') 1 0 2,
               tensor_split := split_values\<rparr>
          else params, split'))"

definition target_outputs :: "environment \<Rightarrow> int" where
  "target_outputs env =
     (let draft_path = draft_path_env env
      in if draft_path \<noteq> None \<and> draft_path \<noteq> Some [] \<and> \<not> path_requests_mtp env draft_path
         then requested_spec_max env + 1 else 1)"

definition target_context_params ::
    "environment \<Rightarrow> context_params \<Rightarrow> int \<Rightarrow> int \<Rightarrow> int \<Rightarrow> context_params" where
  "target_context_params env defaults context_size threads gpu_layers =
     defaults\<lparr>n_ctx := context_size,
       n_seq_max := parse_int (env3 env ''FORTAI_PARALLEL'' ''LLAMA_ARG_PARALLEL'' ''LLAMACPP_PARALLEL'') 1 1 512,
       n_outputs_max := target_outputs env,
       n_outputs_max_per_seq := target_outputs env,
       n_batch := parse_int (env3 env ''FORTAI_BATCH'' ''LLAMA_ARG_BATCH'' ''LLAMACPP_BATCH'') (n_batch defaults) 1 (2 ^ 20),
       n_ubatch := parse_int (env3 env ''FORTAI_UBATCH'' ''LLAMA_ARG_UBATCH'' ''LLAMACPP_UBATCH'') (n_ubatch defaults) 1 (2 ^ 20),
       n_threads := threads,
       n_threads_batch := parse_int
         (env3 env ''FORTAI_THREADS_BATCH'' ''LLAMA_ARG_THREADS_BATCH'' ''LLAMACPP_THREADS_BATCH'') threads 1 4096,
       no_perf := (case env ''FORTAI_LLAMA_FAST_NO_PERF'' of
           None \<Rightarrow> gpu_layers = 0 \<and> threads > 1 | Some v \<Rightarrow> v \<noteq> ''0''),
       offload_kqv := parse_bool (env3 env ''FORTAI_OFFLOAD_KQV'' ''LLAMA_ARG_OFFLOAD_KQV'' ''LLAMACPP_OFFLOAD_KQV'') True,
       op_offload := parse_bool (env3 env ''FORTAI_OP_OFFLOAD'' ''LLAMA_ARG_OP_OFFLOAD'' ''LLAMACPP_OP_OFFLOAD'') (gpu_layers \<noteq> 0),
       flash_attn_type := parse_flash_attn
         (env3 env ''FORTAI_FLASH_ATTN'' ''LLAMA_ARG_FLASH_ATTN'' ''LLAMACPP_FLASH_ATTN'') (flash_attn_type defaults),
       type_k := parse_cache_type
         (env3 env ''FORTAI_CACHE_TYPE_K'' ''LLAMA_ARG_CACHE_TYPE_K'' ''LLAMACPP_CACHE_TYPE_K'') (type_k defaults),
       type_v := parse_cache_type
         (env3 env ''FORTAI_CACHE_TYPE_V'' ''LLAMA_ARG_CACHE_TYPE_V'' ''LLAMACPP_CACHE_TYPE_V'') (type_v defaults),
       swa_full := parse_bool (env3 env ''FORTAI_SWA_FULL'' ''LLAMA_ARG_SWA_FULL'' ''LLAMACPP_SWA_FULL'') False,
       kv_unified := parse_bool (env3 env ''FORTAI_KV_UNIFIED'' ''LLAMA_ARG_KV_UNIFIED'' ''LLAMACPP_KV_UNIFIED'') False\<rparr>"

text \<open>The MTP context shares the target context (\<open>ctx_other\<close>, here \<open>on_target\<close>); type 1 is MTP.\<close>

definition mtp_context_params :: "context_params \<Rightarrow> context_params" where
  "mtp_context_params params =
     params\<lparr>ctx_type := 1, on_target := True, n_seq_max := 1, n_outputs_max := 1, n_outputs_max_per_seq := 1, n_rs_seq := 0\<rparr>"

definition draft_model_params :: "environment \<Rightarrow> 'v model_params \<Rightarrow> int \<Rightarrow> 'v model_params" where
  "draft_model_params env params gpu_layers =
     params\<lparr>n_gpu_layers := parse_int
       (env3 env ''FORTAI_DRAFT_GPU_LAYERS'' ''LLAMA_ARG_DRAFT_GPU_LAYERS'' ''LLAMACPP_DRAFT_GPU_LAYERS'') gpu_layers (- 1) 8192\<rparr>"

definition draft_context_params :: "context_params \<Rightarrow> int \<Rightarrow> context_params" where
  "draft_context_params params spec =
     params\<lparr>n_seq_max := 1, n_outputs_max := spec + 1, n_outputs_max_per_seq := spec + 1\<rparr>"

subsection \<open>Facts about the parsers\<close>

lemma parse_int_range: "parse_int v fallback lo hi = fallback \<or> lo \<le> parse_int v fallback lo hi \<and> parse_int v fallback lo hi \<le> hi"
  by (auto simp: parse_int_def Let_def split: option.splits prod.splits)

lemma parse_int_bounds:
  "lo \<le> fallback \<Longrightarrow> fallback \<le> hi \<Longrightarrow> lo \<le> parse_int v fallback lo hi \<and> parse_int v fallback lo hi \<le> hi"
  using parse_int_range [of v fallback lo hi] by auto

lemma requested_spec_max_range: "1 \<le> requested_spec_max env \<and> requested_spec_max env \<le> 32"
  unfolding requested_spec_max_def by (rule parse_int_bounds) simp_all

lemma env3_not_empty: "env3 env a b c \<noteq> Some []"
  by (auto simp: env3_def unset_def)

text \<open>A list that the loop accepts ends with a comma: only then is nothing left to read.\<close>

lemma split_loop_trailing:
  "split_loop strtof v count arr = (Some r, s) \<Longrightarrow> v = [] \<or> last v = COMMA"
proof (induction strtof v count arr rule: split_loop.induct)
  case (1 strtof v count arr)
  show ?case
  proof (cases "v \<noteq> [] \<and> count < split_size")
    case True
    obtain ratio stop where st: "strtof v = (ratio, stop)" by fastforce
    have ok: "\<not> (stop = 0 \<or> not_positive ratio)"
      using 1(2) True st unfolding split_loop.simps [of strtof v count arr] by (auto split: if_splits)
    show ?thesis
    proof (cases "drop stop v")
      case Nil
      then show ?thesis using 1(2) True st ok unfolding split_loop.simps [of strtof v count arr]
        by (auto simp: split_done_def Let_def)
    next
      case (Cons c rest)
      then have c: "c = COMMA" and rec: "split_loop strtof rest (count + 1) (arr[count := ratio]) = (Some r, s)"
        using 1(2) True st ok unfolding split_loop.simps [of strtof v count arr] by (auto simp: Let_def split: if_splits)
      have "rest = [] \<or> last rest = COMMA"
        using 1(1) [OF True st [symmetric] refl ok refl] Cons c rec by simp
      moreover have "last v = last (drop stop v)"
        using Cons by (metis last_drop length_drop length_greater_0_conv list.distinct(1) zero_less_diff)
      ultimately show ?thesis using Cons c by auto
    qed
  next
    case False
    then show ?thesis using 1(2) unfolding split_loop.simps [of strtof v count arr] by (auto simp: split_done_def split: if_splits)
  qed
qed

text \<open>What \<open>strtof\<close> does on the entries of a list.\<close>

definition reads_entries :: "(bytes \<Rightarrow> 'v::{linorder, zero} fl \<times> nat) \<Rightarrow> (bytes \<times> 'v) list \<Rightarrow> bool" where
  "reads_entries strtof es \<longleftrightarrow>
     (\<forall>(e, v) \<in> set es. e \<noteq> [] \<and> v > 0 \<and> (\<forall>rest. strtof (e @ COMMA # rest) = (Fl v, length e)))"

lemma split_loop_reads:
  assumes "reads_entries strtof es" and "count + length es \<le> split_size" and "length split = split_size"
    and "es \<noteq> [] \<or> 0 < count"
  shows "split_loop strtof (concat (map (\<lambda>(e, v). e @ [COMMA]) es)) count split =
    (let s = take count split @ map (Fl \<circ> snd) es @ drop (count + length es) split in (Some s, s))"
  using assms
proof (induction es arbitrary: count split)
  case Nil
  then show ?case by (subst split_loop.simps) (simp add: split_done_def)
next
  case (Cons x es)
  obtain e v where x: "x = (e, v)" by fastforce
  let ?rest = "concat (map (\<lambda>(e, v). e @ [COMMA]) es)"
  have s: "strtof (e @ COMMA # ?rest) = (Fl v, length e)" and e: "e \<noteq> []" "v > 0"
    using Cons.prems(1) by (auto simp: reads_entries_def x)
  have upd: "take (count + 1) (split[count := Fl v]) = take count split @ [Fl v]"
    using Cons.prems(2,3) by (simp add: take_Suc_conv_app_nth take_update_cancel)
  have "split_loop strtof (concat (map (\<lambda>(e, v). e @ [COMMA]) (x # es))) count split =
      split_loop strtof ?rest (count + 1) (split[count := Fl v])"
    using s e Cons.prems(2) by (subst split_loop.simps) (simp add: x not_positive_def not_le [symmetric])
  also have "\<dots> = (let s = take (count + 1) (split[count := Fl v]) @ map (Fl \<circ> snd) es @
      drop (count + 1 + length es) (split[count := Fl v]) in (Some s, s))"
    using Cons.prems by (intro Cons.IH) (simp_all add: reads_entries_def)
  finally show ?case using upd by (simp add: x Let_def comp_def)
qed

subsection \<open>Properties\<close>

text \<open>
  The tensor split rejects every well-formed list: whatever numbers \<open>strtof\<close> reads, a value
  that does not end with a comma is refused, so \<open>3,1\<close> never reaches the library.
\<close>

theorem tensor_split_needs_trailing_comma:
  assumes "value = [] \<or> last value \<noteq> COMMA"
  shows "fst (parse_tensor_split strtof split (Some value)) = None"
proof (cases "fst (split_loop strtof value 0 split)")
  case None
  then show ?thesis by (simp add: parse_tensor_split_def)
next
  case (Some r)
  then have "split_loop strtof value 0 split = (Some r, snd (split_loop strtof value 0 split))" by (metis prod.collapse)
  from split_loop_trailing [OF this] show ?thesis using assms by (auto simp: parse_tensor_split_def unset_def)
qed

text \<open>A \<open>strtof\<close> for the digits 1 to 9, enough to run the loop on concrete lists.\<close>

definition digit_strtof :: "bytes \<Rightarrow> nat fl \<times> nat" where
  "digit_strtof v = (case v of [] \<Rightarrow> (Fl 0, 0) | c # _ \<Rightarrow> if isdigit c then (Fl (of_char c - 48), 1) else (Fl 0, 0))"

theorem tensor_split_needs_trailing_comma_witness:
  "fst (parse_tensor_split digit_strtof (replicate 16 (Fl 0)) (Some ''3,1'')) = None"
  using tensor_split_needs_trailing_comma [of "''3,1''"] by simp

text \<open>
  A list of at most sixteen positive numbers, each followed by a comma, is accepted: the static
  array holds the numbers, in order, and behind them what an earlier call left there.
\<close>

theorem tensor_split_accepts:
  assumes "reads_entries strtof es" and "es \<noteq> []" and "length es \<le> 16" and "length split = 16"
  shows "parse_tensor_split strtof split (Some (concat (map (\<lambda>(e, v). e @ [COMMA]) es))) =
    (let s = map (Fl \<circ> snd) es @ drop (length es) split in (Some s, s))"
proof -
  have "\<not> unset (Some (concat (map (\<lambda>(e, v). e @ [COMMA]) es)))" using assms(2) by (cases es) (auto simp: unset_def)
  then show ?thesis
    using split_loop_reads [OF assms(1), of 0 split] assms(2-) by (simp add: parse_tensor_split_def split_size_def del: concat_eq_Nil_conv)
qed

theorem tensor_split_accepts_witness:
  "fst (parse_tensor_split digit_strtof (replicate 16 (Fl 7)) (Some ''3,1,'')) = Some (Fl 3 # Fl 1 # replicate 14 (Fl 7))"
proof -
  have "reads_entries digit_strtof [(''3'', 3), (''1'', 1)]"
    by (simp add: reads_entries_def digit_strtof_def isdigit_def)
  from tensor_split_accepts [OF this, of "replicate 16 (Fl 7)"] show ?thesis by (simp add: Let_def)
qed

text \<open>
  An integer setting is taken when it is a decimal number within its limits and falls back
  otherwise, however many digits it has.
\<close>

theorem parse_int_decimal:
  assumes "hi < LONG_MAX"
  shows "parse_int (Some (print_nat n)) fallback lo hi = (if lo \<le> int n \<and> int n \<le> hi then int n else fallback)"
  using assms by (auto simp: parse_int_def strtol_print_nat)

theorem parse_int_decimal_witness: "parse_int (Some (print_nat 40)) 2 1 32 = 2"
  using parse_int_decimal [of 32 40 2 1] by (simp add: LONG_MAX_def)

text \<open>
  Whatever the environment holds, the numbers handed to the library are within their limits or
  the library's own defaults, the context size and the thread count are the caller's, and the
  target reserves an output row for every token of a speculative batch.
\<close>

theorem target_context_params_bounded:
  "n_ctx (target_context_params env d ctx threads layers) = ctx \<and>
   n_threads (target_context_params env d ctx threads layers) = threads \<and>
   n_seq_max (target_context_params env d ctx threads layers) \<in> {1..512} \<and>
   n_batch (target_context_params env d ctx threads layers) \<in> insert (n_batch d) {1..1048576} \<and>
   n_ubatch (target_context_params env d ctx threads layers) \<in> insert (n_ubatch d) {1..1048576} \<and>
   n_threads_batch (target_context_params env d ctx threads layers) \<in> insert threads {1..4096} \<and>
   n_outputs_max (target_context_params env d ctx threads layers) =
     (if draft_path_env env = None \<or> path_requests_mtp env (draft_path_env env) then 1 else requested_spec_max env + 1) \<and>
   n_outputs_max (target_context_params env d ctx threads layers) \<in> {1..33}"
  using parse_int_range parse_int_bounds [of 1 1 512] requested_spec_max_range [of env] env3_not_empty
  by (auto simp: target_context_params_def target_outputs_def draft_path_env_def Let_def)

end
