(* ===== verification/Ledger.thy ===== *)
theory Ledger
  imports Prelude
begin

section \<open>Resource ledgers\<close>

text \<open>
  The calls by which a C function obtains, uses and discards its resources, as a list. \<open>ledger users
  own steps\<close> replays them on the set of resources that are held: it fails (\<open>None\<close>) when a resource
  is obtained twice, used or discarded without being held, or discarded while one of its \<open>users\<close> is
  still there. A function that releases everything has a ledger that ends where it began.
\<close>

datatype 'r step = Obtain 'r | Use 'r | Discard 'r

fun ledger :: "('r \<Rightarrow> 'r set) \<Rightarrow> 'r set \<Rightarrow> 'r step list \<Rightarrow> 'r set option" where
  "ledger users own [] = Some own"
| "ledger users own (Obtain r # steps) = (if r \<in> own then None else ledger users (insert r own) steps)"
| "ledger users own (Use r # steps) = (if r \<in> own then ledger users own steps else None)"
| "ledger users own (Discard r # steps) =
     (if r \<in> own \<and> users r \<inter> own = {} then ledger users (own - {r}) steps else None)"

lemma ledger_append:
  "ledger users own (xs @ ys) = (case ledger users own xs of None \<Rightarrow> None | Some own' \<Rightarrow> ledger users own' ys)"
  by (induction users own xs rule: ledger.induct) auto

lemma ledger_append_Some: "ledger users own xs = Some own' \<Longrightarrow> ledger users own (xs @ ys) = ledger users own' ys"
  by (simp add: ledger_append)

text \<open>Discarding what is held of a list of resources, none of which is used by a later one.\<close>

definition discard_held :: "'r set \<Rightarrow> 'r list \<Rightarrow> 'r step list" where
  "discard_held own rs = map Discard (filter (\<lambda>r. r \<in> own) rs)"

fun user_first :: "('r \<Rightarrow> 'r set) \<Rightarrow> 'r list \<Rightarrow> bool" where
  "user_first users [] \<longleftrightarrow> True"
| "user_first users (r # rs) \<longleftrightarrow> r \<notin> set rs \<and> users r \<inter> set (r # rs) = {} \<and> user_first users rs"

lemma ledger_discard_held:
  "user_first users rs \<Longrightarrow> own \<subseteq> set rs \<Longrightarrow> ledger users own (discard_held own rs) = Some {}"
proof (induction rs arbitrary: own)
  case (Cons r rs)
  show ?case
  proof (cases "r \<in> own")
    case True
    have "filter (\<lambda>x. x \<in> own) rs = filter (\<lambda>x. x \<in> own - {r}) rs"
      using Cons.prems(1) by (intro filter_cong) auto
    moreover have "ledger users (own - {r}) (discard_held (own - {r}) rs) = Some {}"
      using Cons.prems by (intro Cons.IH) auto
    ultimately show ?thesis using True Cons.prems by (auto simp: discard_held_def)
  next
    case False
    then show ?thesis using Cons.IH [of own] Cons.prems by (auto simp: discard_held_def)
  qed
qed (simp add: discard_held_def)

end
