(* ===== verification/LlamaContext.thy ===== *)
theory LlamaContext
  imports LlamaConfig Ledger
begin

section \<open>Creating and destroying a llama context\<close>

text \<open>
  Models \<open>fortai_llama_fast_context_create\<close>, \<open>fortai_llama_fast_context_destroy\<close> and
  \<open>fortai_warm_context\<close> of \<open>src/backend/cpu/fortai_llama_fast.c\<close>. What the late-bound library, the
  allocator and the symbol lookups answer is a record; the calls that obtain, use and discard a
  resource are the steps of a ledger. The memory that a handle owns is the set of its parts.
\<close>

datatype llama_part =
  Handle | Path | Model | Context | Batch | ThreadPool |
  MtpContext | MtpBatch | MtpToken | DraftModel | DraftContext | DraftBatch

text \<open>Who must be gone before a part may be discarded.\<close>

fun part_users :: "llama_part \<Rightarrow> llama_part set" where
  "part_users Model = {Context, MtpContext}"
| "part_users Context = {MtpContext}"
| "part_users ThreadPool = {Context}"
| "part_users DraftModel = {DraftContext}"
| "part_users _ = {}"

text \<open>
  \<open>pool_symbols\<close>: the library can attach a thread pool and the three pool functions were found.
  \<open>mtp_interface\<close>: the MTP functions were found and the model has NextN layers.
\<close>

record llama_answers =
  library_found :: bool
  handle_ok :: bool
  model_ok :: bool
  context_ok :: bool
  batch_ok :: bool
  pool_symbols :: bool
  pool_ok :: bool
  vocab_count :: int
  strdup_ok :: bool
  seq_rm_found :: bool
  mtp_interface :: bool
  mtp_context_ok :: bool
  embd_out :: int
  mtp_batch_ok :: bool
  mtp_token_ok :: bool
  draft_model_ok :: bool
  draft_context_ok :: bool
  draft_batch_ok :: bool
  draft_vocab_count :: int

record llama_created =
  parts :: "llama_part set"
  created_vocab :: int
  created_max_context :: int
  created_spec_max :: int
  created_spec_enabled :: bool
  created_mtp_enabled :: bool
  created_mtp_embd :: int
  created_draft_vocab :: int

text \<open>
  \<open>mtp_batch.token\<close> is allocated apart from the batch, and the batch is only freed where it is there.
\<close>

definition context_destroy :: "llama_created \<Rightarrow> llama_part step list" where
  "context_destroy h =
     discard_held (parts h) [Batch, DraftBatch] @
     (if MtpToken \<in> parts h then discard_held (parts h) [MtpToken, MtpBatch] else []) @
     discard_held (parts h) [DraftContext, MtpContext, DraftModel, Context, ThreadPool, Model, Path, Handle]"

definition warm_context :: "environment \<Rightarrow> llama_part \<Rightarrow> llama_part \<Rightarrow> llama_part step list" where
  "warm_context env context batch =
     (if env ''FORTAI_LLAMA_FAST_WARMUP'' = Some ''0'' then [] else [Use batch, Use context])"

text \<open>The target: model, context and batch, and what is undone when one of them fails.\<close>

definition open_target :: "llama_answers \<Rightarrow> bool \<times> llama_part step list" where
  "open_target a =
     (let model = model_ok a; context = model \<and> context_ok a; batch = context \<and> batch_ok a;
          opened = [Obtain Handle] @ (if model then [Obtain Model] else []) @
            (if context then [Use Model, Obtain Context] else []) @ (if batch then [Obtain Batch] else [])
      in if batch then (True, opened)
         else (False, opened @ (if context then [Discard Context] else []) @
                (if model then [Discard Model] else []) @ [Discard Handle]))"

text \<open>The thread pool, the vocabulary and the path of an opened target.\<close>

definition finish_target :: "llama_answers \<Rightarrow> bool \<times> llama_part step list \<times> llama_part set" where
  "finish_target a =
     (let pool = pool_symbols a \<and> pool_ok a;
          steps = (if pool then [Obtain ThreadPool, Use Context, Use ThreadPool] else []) @
            [Use Context, Use Model] @ (if strdup_ok a then [Obtain Path] else [])
      in if vocab_count a \<le> 0 \<or> \<not> strdup_ok a
         then (False, steps @ [Discard Batch, Discard Context] @ (if pool then [Discard ThreadPool] else []) @
                [Discard Model] @ (if strdup_ok a then [Discard Path] else []) @ [Discard Handle], {})
         else (True, steps, {Handle, Model, Context, Batch, Path} \<union> (if pool then {ThreadPool} else {})))"

text \<open>
  The MTP context on the target model. Its batch is initialised only behind a context and a positive
  width; the token array is allocated whenever it is missing.
\<close>

definition open_mtp :: "llama_answers \<Rightarrow> llama_created \<Rightarrow> int \<times> llama_part step list \<times> llama_created" where
  "open_mtp a h =
     (if \<not> mtp_interface a then (5, [], h)
      else let batch = mtp_context_ok a \<and> embd_out a > 0 \<and> mtp_batch_ok a;
               own = (if mtp_context_ok a then {MtpContext} else {}) \<union> (if batch then {MtpBatch} else {}) \<union>
                     (if mtp_token_ok a then {MtpToken} else {});
               steps = [Use Model] @ (if mtp_context_ok a then [Obtain MtpContext] else []) @
                 (if batch then [Obtain MtpBatch] else []) @ (if mtp_token_ok a then [Obtain MtpToken] else []);
               h' = h\<lparr>parts := parts h \<union> own, created_mtp_embd := embd_out a\<rparr>
           in if \<not> mtp_context_ok a \<or> \<not> batch \<or> \<not> mtp_token_ok a then (6, steps, h')
              else (0, steps @ [Use MtpContext, Use Context, Use MtpContext],
                    h'\<lparr>created_mtp_enabled := True, created_spec_enabled := True\<rparr>))"

definition open_draft :: "llama_answers \<Rightarrow> llama_created \<Rightarrow> int \<times> llama_part step list \<times> llama_created" where
  "open_draft a h =
     (let context = draft_model_ok a \<and> draft_context_ok a; batch = context \<and> draft_batch_ok a;
          own = (if draft_model_ok a then {DraftModel} else {}) \<union> (if context then {DraftContext} else {}) \<union>
                (if batch then {DraftBatch} else {});
          steps = (if draft_model_ok a then [Obtain DraftModel] else []) @
            (if context then [Use DraftModel, Obtain DraftContext] else []) @ (if batch then [Obtain DraftBatch] else []);
          h' = h\<lparr>parts := parts h \<union> own\<rparr>
      in if \<not> batch then (6, steps, h')
         else let h'' = h'\<lparr>created_draft_vocab := draft_vocab_count a\<rparr>
              in if draft_vocab_count a \<noteq> created_vocab h'' then (7, steps @ [Use DraftContext, Use DraftModel], h'')
                 else (0, steps @ [Use DraftContext, Use DraftModel], h''\<lparr>created_spec_enabled := True\<rparr>))"

text \<open>The speculative part, when a draft path is configured.\<close>

definition open_speculation ::
    "environment \<Rightarrow> llama_answers \<Rightarrow> llama_created \<Rightarrow> int \<times> llama_part step list \<times> llama_created" where
  "open_speculation env a h =
     (let draft_path = draft_path_env env
      in if unset draft_path then (0, [], h)
         else let h' = h\<lparr>created_spec_max := requested_spec_max env\<rparr>
              in if \<not> seq_rm_found a then (5, [], h')
                 else if path_requests_mtp env draft_path then open_mtp a h' else open_draft a h')"

definition warm_up :: "environment \<Rightarrow> llama_created \<Rightarrow> llama_part step list" where
  "warm_up env h =
     warm_context env Context Batch @
     (if created_spec_enabled h \<and> \<not> created_mtp_enabled h then warm_context env DraftContext DraftBatch else [])"

definition context_create ::
    "environment \<Rightarrow> llama_answers \<Rightarrow> bytes option \<Rightarrow> bool \<Rightarrow> int \<Rightarrow> int \<Rightarrow>
       int \<times> llama_part step list \<times> llama_created option" where
  "context_create env a path out_given context_size threads =
     (if path = None \<or> \<not> out_given \<or> context_size \<le> 0 \<or> threads \<le> 0 then (1, [], None)
      else if \<not> library_found a \<or> \<not> handle_ok a then (2, [], None)
      else case open_target a of
        (False, steps) \<Rightarrow> (3, steps, None)
      | (True, steps) \<Rightarrow>
          (case finish_target a of
             (False, fin, _) \<Rightarrow> (4, steps @ fin, None)
           | (True, fin, own) \<Rightarrow>
               let h = \<lparr>parts = own, created_vocab = vocab_count a, created_max_context = context_size,
                     created_spec_max = 0, created_spec_enabled = False, created_mtp_enabled = False,
                     created_mtp_embd = 0, created_draft_vocab = 0\<rparr>
               in (case open_speculation env a h of
                     (status, spec, h') \<Rightarrow>
                       if status \<noteq> 0 then (status, steps @ fin @ spec @ context_destroy h', None)
                       else (0, steps @ fin @ spec @ warm_up env h', Some h'))))"

subsection \<open>The ledger of each stage\<close>

definition target_parts :: "llama_part set" where
  "target_parts = {Handle, Model, Context, Batch}"

lemma open_target_ledger:
  "open_target a = (ok, steps) \<Longrightarrow> ledger part_users {} steps = Some (if ok then target_parts else {})"
  by (auto simp: open_target_def Let_def target_parts_def split: if_splits)

lemma finish_target_ledger:
  "finish_target a = (ok, steps, own) \<Longrightarrow>
   ledger part_users target_parts steps = Some (if ok then own else {}) \<and>
   (ok \<longrightarrow> own = insert Path target_parts \<or> own = insert ThreadPool (insert Path target_parts)) \<and>
   (ok \<longrightarrow> 0 < vocab_count a)"
  by (auto simp: finish_target_def Let_def target_parts_def split: if_splits)

lemma open_mtp_ledger:
  assumes "open_mtp a h = (status, steps, h')" and "{Model, Context} \<subseteq> parts h"
    and "parts h \<inter> {MtpContext, MtpBatch, MtpToken} = {}"
  shows "ledger part_users (parts h) steps = Some (parts h')"
  using assms by (auto simp: open_mtp_def Let_def insert_commute split: if_splits)

lemma open_draft_ledger:
  assumes "open_draft a h = (status, steps, h')" and "parts h \<inter> {DraftModel, DraftContext, DraftBatch} = {}"
  shows "ledger part_users (parts h) steps = Some (parts h')"
  using assms by (auto simp: open_draft_def Let_def insert_commute split: if_splits)

text \<open>The token array of the MTP batch fails behind the batch: the one case in which destroying misses it.\<close>

definition token_array_fails :: "environment \<Rightarrow> llama_answers \<Rightarrow> bool" where
  "token_array_fails env a \<longleftrightarrow>
     \<not> unset (draft_path_env env) \<and> path_requests_mtp env (draft_path_env env) \<and> seq_rm_found a \<and> mtp_interface a \<and>
     mtp_context_ok a \<and> embd_out a > 0 \<and> mtp_batch_ok a \<and> \<not> mtp_token_ok a"

lemma open_speculation_ledger:
  assumes "open_speculation env a h = (status, steps, h')"
    and "parts h = insert Path target_parts \<or> parts h = insert ThreadPool (insert Path target_parts)"
  shows "ledger part_users (parts h) steps = Some (parts h')"
proof -
  let ?h = "h\<lparr>created_spec_max := requested_spec_max env\<rparr>"
  consider "steps = []" "parts h' = parts h" | "open_mtp a ?h = (status, steps, h')" | "open_draft a ?h = (status, steps, h')"
    using assms(1) by (auto simp: open_speculation_def Let_def split: if_splits)
  then show ?thesis
  proof cases
    case 1 then show ?thesis by simp
  next
    case 2
    have "ledger part_users (parts ?h) steps = Some (parts h')"
      by (rule open_mtp_ledger [OF 2]) (use assms(2) in \<open>auto simp: target_parts_def\<close>)
    then show ?thesis by simp
  next
    case 3
    have "ledger part_users (parts ?h) steps = Some (parts h')"
      by (rule open_draft_ledger [OF 3]) (use assms(2) in \<open>auto simp: target_parts_def\<close>)
    then show ?thesis by simp
  qed
qed

lemma open_speculation_parts:
  assumes "open_speculation env a h = (status, steps, h')" and "MtpBatch \<notin> parts h"
  shows "MtpBatch \<in> parts h' \<and> MtpToken \<notin> parts h' \<Longrightarrow> token_array_fails env a"
  using assms by (auto simp: open_speculation_def open_mtp_def open_draft_def token_array_fails_def Let_def split: if_splits)

definition destroy_order :: "llama_part list" where
  "destroy_order = [Batch, DraftBatch, MtpToken, MtpBatch, DraftContext, MtpContext, DraftModel, Context, ThreadPool, Model, Path, Handle]"

lemma destroy_order_user_first: "user_first part_users destroy_order"
  by (simp add: destroy_order_def)

lemma destroy_order_complete: "p \<in> set destroy_order"
  by (cases p) (simp_all add: destroy_order_def)

lemma context_destroy_order:
  "(MtpBatch \<in> parts h \<longrightarrow> MtpToken \<in> parts h) \<Longrightarrow> context_destroy h = discard_held (parts h) destroy_order"
  by (auto simp: context_destroy_def discard_held_def destroy_order_def)

lemma context_destroy_ledger:
  "(MtpBatch \<in> parts h \<longrightarrow> MtpToken \<in> parts h) \<Longrightarrow> ledger part_users (parts h) (context_destroy h) = Some {}"
  by (simp add: context_destroy_order ledger_discard_held destroy_order_user_first destroy_order_complete subsetI)

lemma open_speculation_spec:
  assumes "open_speculation env a h = (status, steps, h')" and "\<not> created_spec_enabled h" and "\<not> created_mtp_enabled h"
    and "created_spec_max h = 0"
  shows "0 \<le> created_spec_max h' \<and> created_spec_max h' \<le> 32 \<and> created_vocab h' = created_vocab h \<and>
    created_max_context h' = created_max_context h \<and> parts h \<subseteq> parts h' \<and>
    (created_mtp_enabled h' \<longrightarrow> created_spec_enabled h' \<and> 0 < created_mtp_embd h' \<and> {MtpContext, MtpBatch, MtpToken} \<subseteq> parts h') \<and>
    (created_spec_enabled h' \<and> \<not> created_mtp_enabled h' \<longrightarrow> 1 \<le> created_spec_max h' \<and>
       created_draft_vocab h' = created_vocab h' \<and> {DraftModel, DraftContext, DraftBatch} \<subseteq> parts h')"
  using assms requested_spec_max_range [of env]
  by (auto simp: open_speculation_def open_mtp_def open_draft_def Let_def split: if_splits)

lemma open_mtp_ok: "open_mtp a h = (0, steps, h') \<Longrightarrow> MtpToken \<in> parts h'"
  by (auto simp: open_mtp_def Let_def split: if_splits)

lemma open_draft_mtp: "open_draft a h = (status, steps, h') \<Longrightarrow> MtpBatch \<in> parts h' \<longleftrightarrow> MtpBatch \<in> parts h"
  by (auto simp: open_draft_def Let_def split: if_splits)

lemma open_speculation_ok:
  assumes "open_speculation env a h = (0, steps, h')" and "MtpBatch \<notin> parts h"
  shows "MtpBatch \<in> parts h' \<longrightarrow> MtpToken \<in> parts h'"
  using assms unfolding open_speculation_def Let_def
  by (auto dest: open_mtp_ok open_draft_mtp split: if_splits)

lemma warm_up_ledger:
  assumes "{Context, Batch} \<subseteq> parts h"
    and "created_spec_enabled h \<and> \<not> created_mtp_enabled h \<longrightarrow> {DraftContext, DraftBatch} \<subseteq> parts h"
  shows "ledger part_users (parts h) (warm_up env h) = Some (parts h)"
  using assms by (auto simp: warm_up_def warm_context_def)

text \<open>
  The stages of a call that opened its target: the ledger up to the speculative part, and what that
  part left.
\<close>

lemma context_create_cases [consumes 1]:
  assumes "context_create env a path out ctx threads = (status, steps, result)"
  obtains (nothing) "steps = []" "result = None" "status \<in> {1, 2}"
  | (closed) "ledger part_users {} steps = Some {}" "result = None" "status \<in> {3, 4}"
  | (opened) pre own spec h h' where
      "ledger part_users {} pre = Some own"
      "own = insert Path target_parts \<or> own = insert ThreadPool (insert Path target_parts)"
      "h = \<lparr>parts = own, created_vocab = vocab_count a, created_max_context = ctx, created_spec_max = 0,
         created_spec_enabled = False, created_mtp_enabled = False, created_mtp_embd = 0, created_draft_vocab = 0\<rparr>"
      "0 < vocab_count a" "0 < ctx" "open_speculation env a h = (status, spec, h')"
      "(steps, result) = (if status \<noteq> 0 then (pre @ spec @ context_destroy h', None)
         else (pre @ spec @ warm_up env h', Some h'))"
proof (cases "path = None \<or> \<not> out \<or> ctx \<le> 0 \<or> threads \<le> 0 \<or> \<not> library_found a \<or> \<not> handle_ok a")
  case True
  then have "steps = [] \<and> result = None \<and> status \<in> {1, 2}" using assms by (auto simp: context_create_def split: if_splits)
  then have "steps = []" "result = None" "status \<in> {1, 2}" by simp_all
  from that(1) [OF this] show ?thesis .
next
  case False
  obtain ok s1 where t: "open_target a = (ok, s1)" by fastforce
  note l1 = open_target_ledger [OF t]
  show ?thesis
  proof (cases ok)
    case False
    then show ?thesis using assms \<open>\<not> (path = None \<or> _)\<close> t l1 that(2) by (auto simp: context_create_def)
  next
    case ok: True
    obtain ok2 s2 own where f: "finish_target a = (ok2, s2, own)" by (metis prod_cases3)
    note l2 = finish_target_ledger [OF f]
    have l: "ledger part_users {} (s1 @ s2) = Some (if ok2 then own else {})"
      using l1 l2 ok by (simp add: ledger_append)
    show ?thesis
    proof (cases ok2)
      case False
      then show ?thesis using assms \<open>\<not> (path = None \<or> _)\<close> t f ok l that(2) by (auto simp: context_create_def)
    next
      case True
      define h where "h = \<lparr>parts = own, created_vocab = vocab_count a, created_max_context = ctx, created_spec_max = 0,
         created_spec_enabled = False, created_mtp_enabled = False, created_mtp_embd = 0, created_draft_vocab = 0\<rparr>"
      obtain st spec h' where o: "open_speculation env a h = (st, spec, h')" by (metis prod_cases3)
      have "(status, steps, result) = (if st \<noteq> 0 then (st, (s1 @ s2) @ spec @ context_destroy h', None)
          else (0, (s1 @ s2) @ spec @ warm_up env h', Some h'))"
        using assms \<open>\<not> (path = None \<or> _)\<close> t f ok True o by (auto simp: context_create_def Let_def h_def)
      then show ?thesis
        using that(3) [of "s1 @ s2" own h spec h'] l l2 True o False by (auto simp: h_def split: if_splits)
    qed
  qed
qed

subsection \<open>Properties\<close>

text \<open>
  A context that could not be created leaves nothing behind: every model, context, batch, pool and
  allocation is released once, no part before its users and none used after its release, in every
  combination of failures but one.
\<close>

theorem failed_create_releases_everything:
  assumes "context_create env a path out ctx threads = (status, steps, None)" and "\<not> token_array_fails env a"
  shows "ledger part_users {} steps = Some {}"
  using assms(1)
proof (cases rule: context_create_cases)
  case (opened pre own spec h h')
  have st: "status \<noteq> 0" and steps: "steps = pre @ spec @ context_destroy h'" using opened(7) by (auto split: if_splits)
  have "MtpBatch \<notin> parts h" using opened(2,3) by (auto simp: target_parts_def)
  then have "MtpBatch \<in> parts h' \<longrightarrow> MtpToken \<in> parts h'"
    using open_speculation_parts [OF opened(6)] assms(2) by blast
  moreover have "ledger part_users own spec = Some (parts h')"
    using open_speculation_ledger [OF opened(6)] opened(2,3) by simp
  ultimately show ?thesis using opened(1) context_destroy_ledger by (simp add: steps ledger_append)
qed simp_all

text \<open>A library in which everything works, and the environment of an MTP head.\<close>

definition all_answers :: llama_answers where
  "all_answers = \<lparr>library_found = True, handle_ok = True, model_ok = True, context_ok = True, batch_ok = True,
     pool_symbols = True, pool_ok = True, vocab_count = 100, strdup_ok = True, seq_rm_found = True,
     mtp_interface = True, mtp_context_ok = True, embd_out = 8, mtp_batch_ok = True, mtp_token_ok = True,
     draft_model_ok = True, draft_context_ok = True, draft_batch_ok = True, draft_vocab_count = 100\<rparr>"

definition mtp_env :: environment where
  "mtp_env = [''FORTAI_DRAFT_MODEL'' \<mapsto> ''d'', ''FORTAI_SPEC_TYPE'' \<mapsto> ''draft-mtp'']"

definition draft_env :: environment where
  "draft_env = [''FORTAI_DRAFT_MODEL'' \<mapsto> ''d'']"

lemma mtp_env_values: "draft_path_env mtp_env = Some ''d''" "path_requests_mtp mtp_env (Some ''d'')"
  "mtp_env ''FORTAI_LLAMA_FAST_WARMUP'' = None"
  by (simp_all add: draft_path_env_def env3_def mtp_env_def unset_def path_requests_mtp_def strcaseeq_def)

lemma draft_env_values: "draft_path_env draft_env = Some ''d''" "\<not> path_requests_mtp draft_env (Some ''d'')"
  "requested_spec_max draft_env = 2"
  by (simp_all add: draft_path_env_def env3_def draft_env_def unset_def path_requests_mtp_def strcasestr_def
      tolower_def char_of_def bit_0 requested_spec_max_def parse_int_def)

lemma draft_fails:
  "context_create draft_env (all_answers\<lparr>draft_vocab_count := 99\<rparr>) (Some ''m'') True 16 4 =
    (7, snd (open_target all_answers) @ fst (snd (finish_target all_answers)) @
      [Obtain DraftModel, Use DraftModel, Obtain DraftContext, Obtain DraftBatch, Use DraftContext, Use DraftModel] @
      map Discard [Batch, DraftBatch, DraftContext, DraftModel, Context, ThreadPool, Model, Path, Handle], None)"
  by (simp add: context_create_def all_answers_def open_target_def finish_target_def open_speculation_def
      open_draft_def draft_env_values unset_def context_destroy_def discard_held_def)

theorem failed_create_releases_everything_witness:
  "ledger part_users {} (fst (snd (context_create draft_env (all_answers\<lparr>draft_vocab_count := 99\<rparr>) (Some ''m'') True 16 4))) = Some {}"
  using failed_create_releases_everything [OF draft_fails] by (simp add: draft_fails token_array_fails_def draft_env_values)

text \<open>
  When only the token array of the MTP batch cannot be allocated, the batch that is already there
  is leaked: destroying the handle frees the MTP batch only behind its token array.
\<close>

theorem mtp_batch_leaks:
  assumes "context_create env a path out ctx threads = (status, steps, result)" and "token_array_fails env a"
    and "status = 6"
  shows "ledger part_users {} steps = Some {MtpBatch}"
  using assms(1)
proof (cases rule: context_create_cases)
  case (opened pre own spec h h')
  have steps: "steps = pre @ spec @ context_destroy h'" using opened(7) assms(3) by simp
  have h': "parts h' = own \<union> {MtpContext, MtpBatch}"
    using opened(3,6) assms(2) by (simp add: open_speculation_def open_mtp_def token_array_fails_def Un_commute Let_def) auto
  have "ledger part_users own spec = Some (own \<union> {MtpContext, MtpBatch})"
    using open_speculation_ledger [OF opened(6)] opened(2,3) h' by simp
  moreover have "ledger part_users (own \<union> {MtpContext, MtpBatch}) (context_destroy h') = Some {MtpBatch}"
    using opened(2)
    by (elim disjE; simp add: context_destroy_def discard_held_def h' target_parts_def insert_commute; blast)
  ultimately show ?thesis using opened(1) by (simp add: steps ledger_append)
qed (use assms(3) in simp_all)

lemma mtp_token_fails:
  "context_create mtp_env (all_answers\<lparr>mtp_token_ok := False\<rparr>) (Some ''m'') True 16 4 =
    (6, snd (open_target all_answers) @ fst (snd (finish_target all_answers)) @
      [Use Model, Obtain MtpContext, Obtain MtpBatch] @
      map Discard [Batch, MtpContext, Context, ThreadPool, Model, Path, Handle], None)"
  by (simp add: context_create_def all_answers_def open_target_def finish_target_def open_speculation_def
      open_mtp_def mtp_env_values unset_def context_destroy_def discard_held_def)

theorem mtp_batch_leaks_witness:
  "ledger part_users {} (fst (snd (context_create mtp_env (all_answers\<lparr>mtp_token_ok := False\<rparr>) (Some ''m'') True 16 4))) =
    Some {MtpBatch}"
proof -
  have "token_array_fails mtp_env (all_answers\<lparr>mtp_token_ok := False\<rparr>)"
    by (simp add: token_array_fails_def mtp_env_values unset_def all_answers_def)
  from mtp_batch_leaks [OF mtp_token_fails this] show ?thesis unfolding mtp_token_fails by simp
qed

text \<open>
  A context that was created holds exactly its parts, and destroying it releases each of them once
  and in an order in which nothing is freed while it is still used.
\<close>

theorem create_then_destroy:
  assumes "context_create env a path out ctx threads = (0, steps, Some h)"
  shows "ledger part_users {} steps = Some (parts h) \<and> ledger part_users {} (steps @ context_destroy h) = Some {}"
  using assms
proof (cases rule: context_create_cases)
  case (opened pre own spec h0 h')
  have steps: "steps = pre @ spec @ warm_up env h" and h: "h' = h" using opened(7) by simp_all
  have spec: "ledger part_users own spec = Some (parts h)"
    using open_speculation_ledger [OF opened(6)] opened(2,3) h by simp
  have start: "parts h0 = own" "MtpBatch \<notin> own" "\<not> created_spec_enabled h0" "\<not> created_mtp_enabled h0" "created_spec_max h0 = 0"
    using opened(2,3) by (auto simp: target_parts_def)
  note left = open_speculation_spec [OF opened(6) start(3,4,5)]
  have "ledger part_users (parts h) (warm_up env h) = Some (parts h)"
    using left opened(2) start(1) h by (intro warm_up_ledger) (auto simp: target_parts_def)
  then have *: "ledger part_users {} steps = Some (parts h)" using opened(1) spec by (simp add: steps ledger_append)
  have "MtpBatch \<in> parts h \<longrightarrow> MtpToken \<in> parts h"
    using open_speculation_ok [OF opened(6)] start h by simp
  with * show ?thesis by (simp add: ledger_append context_destroy_ledger)
qed simp_all

lemma mtp_created:
  "context_create mtp_env all_answers (Some ''m'') True 16 4 =
    (0, [Obtain Handle, Obtain Model, Use Model, Obtain Context, Obtain Batch, Obtain ThreadPool, Use Context,
         Use ThreadPool, Use Context, Use Model, Obtain Path, Use Model, Obtain MtpContext, Obtain MtpBatch,
         Obtain MtpToken, Use MtpContext, Use Context, Use MtpContext, Use Batch, Use Context],
     Some \<lparr>parts = {Handle, Model, Context, Batch, Path, ThreadPool, MtpContext, MtpBatch, MtpToken},
       created_vocab = 100, created_max_context = 16, created_spec_max = requested_spec_max mtp_env,
       created_spec_enabled = True, created_mtp_enabled = True, created_mtp_embd = 8, created_draft_vocab = 0\<rparr>)"
  by (simp add: context_create_def all_answers_def open_target_def finish_target_def open_speculation_def
      open_mtp_def mtp_env_values unset_def warm_up_def warm_context_def insert_commute Let_def)

theorem create_then_destroy_witness:
  "ledger part_users {} ([Obtain Handle, Obtain Model, Use Model, Obtain Context, Obtain Batch, Obtain ThreadPool, Use Context,
     Use ThreadPool, Use Context, Use Model, Obtain Path, Use Model, Obtain MtpContext, Obtain MtpBatch,
     Obtain MtpToken, Use MtpContext, Use Context, Use MtpContext, Use Batch, Use Context] @
     map Discard [Batch, MtpToken, MtpBatch, MtpContext, Context, ThreadPool, Model, Path, Handle]) = Some {}"
  using create_then_destroy [OF mtp_created] by (simp only: context_destroy_def discard_held_def) (simp del: ledger.simps)

text \<open>
  C14: The numbers of a created context: a vocabulary and a context that are not empty, a draft of at
  most 32 tokens -- the size of the arrays that speculative decoding writes -- and, where a draft model
  is decoded with, the same vocabulary for both models.
\<close>

theorem created_context_wf:
  assumes "context_create env a path out ctx threads = (0, steps, Some h)"
  shows "0 < created_vocab h \<and> created_max_context h = ctx \<and> 0 < ctx \<and>
    0 \<le> created_spec_max h \<and> created_spec_max h \<le> 32 \<and>
    (created_mtp_enabled h \<longrightarrow> created_spec_enabled h \<and> 0 < created_mtp_embd h \<and> {MtpContext, MtpBatch, MtpToken} \<subseteq> parts h) \<and>
    (created_spec_enabled h \<and> \<not> created_mtp_enabled h \<longrightarrow> 1 \<le> created_spec_max h \<and>
       created_draft_vocab h = created_vocab h \<and> {DraftModel, DraftContext, DraftBatch} \<subseteq> parts h)"
  using assms
proof (cases rule: context_create_cases)
  case (opened pre own spec h0 h')
  have h: "h' = h" using opened(7) by simp
  have start: "\<not> created_spec_enabled h0" "\<not> created_mtp_enabled h0" "created_spec_max h0 = 0"
    "created_vocab h0 = vocab_count a" "created_max_context h0 = ctx"
    using opened(3) by simp_all
  show ?thesis using open_speculation_spec [OF opened(6) start(1,2,3)] opened(4,5) start h by simp
qed simp_all

lemma draft_created:
  "\<exists>steps h. context_create draft_env all_answers (Some ''m'') True 16 4 = (0, steps, Some h) \<and>
     created_spec_enabled h \<and> \<not> created_mtp_enabled h"
  by (simp add: context_create_def all_answers_def open_target_def finish_target_def open_speculation_def
      open_draft_def draft_env_values unset_def)

theorem created_context_wf_witness:
  "\<exists>steps h. context_create draft_env all_answers (Some ''m'') True 16 4 = (0, steps, Some h) \<and>
     created_draft_vocab h = created_vocab h \<and> created_max_context h = 16"
proof -
  obtain steps h where c: "context_create draft_env all_answers (Some ''m'') True 16 4 = (0, steps, Some h)"
    and "created_spec_enabled h" "\<not> created_mtp_enabled h" using draft_created by blast
  with created_context_wf [OF c] show ?thesis by blast
qed

end
