(* ===== verification/LlamaLibrary.thy ===== *)
theory LlamaLibrary
  imports HttpAuth
begin

section \<open>Finding and opening the llama library\<close>

text \<open>
  Models \<open>fortai_symbol\<close>, \<open>fortai_load_dependencies\<close>, \<open>fortai_open_llama\<close> and
  \<open>fortai_llama_fast_available\<close> of \<open>src/backend/cpu/fortai_llama_fast.c\<close>. The dynamic loader is a
  record: which file opens as which library, and which symbols a library has. The static variables
  \<open>fortai_api\<close>, \<open>fortai_api_attempted\<close> and \<open>fortai_backend_initialized\<close> are a state that each call
  passes on; of the function pointers in \<open>fortai_api\<close> the state keeps which of them are not null,
  under the name of their symbol.
\<close>

record 'l loader =
  dlopen :: "bytes \<Rightarrow> 'l option"
  dlsym :: "'l \<Rightarrow> bytes \<Rightarrow> bool"

record 'l api_state =
  attempted :: bool
  api_library :: "'l option"
  loaded :: "bytes \<Rightarrow> bool"
  backend_initialized :: bool

datatype load_call = DlOpen bytes | BackendInit | SetQuietLog

definition api_start :: "'l api_state" where
  "api_start = \<lparr>attempted = False, api_library = None, loaded = (\<lambda>_. False), backend_initialized = False\<rparr>"

subsection \<open>The candidates\<close>

definition PATH_SIZE :: nat where "PATH_SIZE = 1024"

definition dependency_names :: "bytes list" where
  "dependency_names = [''libggml.so.0'', ''libggml-base.so.0'', ''libggml-cpu.so.0'', ''libggml-cuda.so.0'']"

definition load_dependencies :: "bytes \<Rightarrow> load_call list" where
  "load_dependencies directory =
     map DlOpen (filter (\<lambda>path. length path < PATH_SIZE) (map (\<lambda>name. directory @ ''/'' @ name) dependency_names))"

definition library_candidates :: "environment \<Rightarrow> bytes option list" where
  "library_candidates env =
     [env ''FORTAI_LLAMA_FAST_LIBRARY'',
      Some ''/home/ert/.local/llama.cpp-b10566-cuda/libllama.so.0'',
      Some ''/home/ert/.local/llama.cpp-upstream-main-650913862/libllama.so.0'',
      Some ''libllama.so.0'']"

text \<open>The path of a candidate: a name without a slash in the override is looked up in the directory setting.\<close>

definition candidate_path :: "environment \<Rightarrow> nat \<Rightarrow> bytes option \<Rightarrow> bytes option" where
  "candidate_path env i candidate =
     (if unset candidate then None
      else let path = the candidate; directory = env ''FORTAI_LLAMA_FAST_LIBRARY_DIR''
           in if i = 0 \<and> \<not> unset directory \<and> CHR ''/'' \<notin> set path
              then (let local_path = the directory @ ''/'' @ path
                    in if length local_path \<ge> PATH_SIZE then None else Some local_path)
              else Some path)"

definition path_dependencies :: "bytes \<Rightarrow> load_call list" where
  "path_dependencies path =
     (case strrchr path (CHR ''/'') of
        None \<Rightarrow> []
      | Some slash \<Rightarrow>
          let n = length path - length slash
          in if n < PATH_SIZE then load_dependencies (take n path) else [])"

fun try_candidates ::
    "'l loader \<Rightarrow> environment \<Rightarrow> nat \<Rightarrow> bytes option list \<Rightarrow> 'l option \<times> load_call list" where
  "try_candidates ld env i [] = (None, [])"
| "try_candidates ld env i (candidate # rest) =
     (case candidate_path env i candidate of
        None \<Rightarrow> try_candidates ld env (i + 1) rest
      | Some path \<Rightarrow>
          let calls = path_dependencies path @ [DlOpen path]
          in (case dlopen ld path of
                Some lib \<Rightarrow> (Some lib, calls)
              | None \<Rightarrow> (case try_candidates ld env (i + 1) rest of (found, more_calls) \<Rightarrow> (found, calls @ more_calls))))"

subsection \<open>The symbols\<close>

definition api_symbols :: "bytes list" where
  "api_symbols =
     [''llama_backend_init'', ''llama_backend_free'', ''llama_model_default_params'', ''llama_context_default_params'',
      ''llama_model_load_from_file'', ''llama_init_from_model'', ''llama_model_get_vocab'', ''llama_vocab_n_tokens'',
      ''llama_model_n_layer'', ''llama_model_n_layer_nextn'', ''llama_model_n_embd_out'', ''llama_model_free'',
      ''llama_free'', ''llama_set_n_threads'', ''llama_batch_init'', ''llama_batch_free'', ''llama_decode'',
      ''llama_get_logits_ith'', ''llama_tokenize'', ''llama_detokenize'', ''llama_token_to_piece'',
      ''llama_vocab_is_eog'', ''llama_model_chat_template'', ''llama_chat_apply_template'', ''llama_get_memory'',
      ''llama_memory_clear'', ''llama_memory_seq_rm'', ''llama_set_embeddings_nextn'',
      ''llama_set_nextn_layer_offset'', ''llama_get_embeddings_nextn'', ''llama_get_embeddings_nextn_ith'',
      ''llama_synchronize'', ''llama_log_set'', ''llama_attach_threadpool'']"

definition mangled_names :: "(bytes \<times> bytes) list" where
  "mangled_names =
     [(''llama_set_embeddings_nextn'', ''_Z26llama_set_embeddings_nextnP13llama_contextbb''),
      (''llama_set_nextn_layer_offset'', ''_Z28llama_set_nextn_layer_offsetP13llama_contexti''),
      (''llama_get_embeddings_nextn'', ''_Z26llama_get_embeddings_nextnP13llama_context''),
      (''llama_get_embeddings_nextn_ith'', ''_Z30llama_get_embeddings_nextn_ithP13llama_contexti'')]"

definition required_symbols :: "bytes list" where
  "required_symbols =
     [''llama_model_default_params'', ''llama_context_default_params'', ''llama_model_load_from_file'',
      ''llama_init_from_model'', ''llama_model_get_vocab'', ''llama_vocab_n_tokens'', ''llama_model_free'',
      ''llama_free'', ''llama_set_n_threads'', ''llama_batch_init'', ''llama_batch_free'', ''llama_decode'',
      ''llama_get_logits_ith'']"

definition symbol_found :: "'l loader \<Rightarrow> 'l \<Rightarrow> bytes \<Rightarrow> bool" where
  "symbol_found ld lib name \<longleftrightarrow> name \<in> set api_symbols \<and>
     (dlsym ld lib name \<or> (case map_of mangled_names name of None \<Rightarrow> False | Some mangled \<Rightarrow> dlsym ld lib mangled))"

subsection \<open>Opening\<close>

definition open_llama ::
    "'l loader \<Rightarrow> environment \<Rightarrow> 'l api_state \<Rightarrow> 'l option \<times> 'l api_state \<times> load_call list" where
  "open_llama ld env st =
     (if attempted st then (api_library st, st, [])
      else case try_candidates ld env 0 (library_candidates env) of
        (None, calls) \<Rightarrow> (None, st\<lparr>attempted := True, api_library := None\<rparr>, calls)
      | (Some lib, calls) \<Rightarrow>
          let st' = st\<lparr>attempted := True, api_library := Some lib, loaded := symbol_found ld lib\<rparr>
          in if \<not> list_all (loaded st') required_symbols then (None, st', calls)
             else let init = loaded st' ''llama_backend_init'' \<and> \<not> backend_initialized st';
                      quiet = loaded st' ''llama_log_set'' \<and> env ''FORTAI_LLAMA_FAST_VERBOSE'' = None
                  in (Some lib, if init then st'\<lparr>backend_initialized := True\<rparr> else st',
                      calls @ (if init then [BackendInit] else []) @ (if quiet then [SetQuietLog] else [])))"

definition fast_available :: "'l loader \<Rightarrow> environment \<Rightarrow> 'l api_state \<Rightarrow> int \<times> 'l api_state" where
  "fast_available ld env st = (case open_llama ld env st of (lib, st', _) \<Rightarrow> (if lib = None then 0 else 1, st'))"

subsection \<open>Properties\<close>

text \<open>Which library the candidates come to: the first that opens.\<close>

lemma try_candidates_first:
  "fst (try_candidates ld env i cs) =
     (case filter (\<lambda>p. dlopen ld p \<noteq> None) (List.map_filter (\<lambda>(k, c). candidate_path env k c) (enumerate i cs)) of
        [] \<Rightarrow> None | p # _ \<Rightarrow> dlopen ld p)"
  by (induction ld env i cs rule: try_candidates.induct)
    (auto simp: map_filter_simps Let_def split: option.splits prod.splits)

lemma open_llama_attempted: "open_llama ld env st = (r, st', calls) \<Longrightarrow> attempted st'"
  by (auto simp: open_llama_def Let_def split: if_splits prod.splits option.splits)

lemma open_llama_again: "attempted st \<Longrightarrow> open_llama ld env st = (api_library st, st, [])"
  by (simp add: open_llama_def)

text \<open>
  The library is looked for once: where every library that is found has the required symbols, a
  later call returns what the first one did, touches nothing and calls nothing, under any environment.
\<close>

theorem open_llama_once:
  assumes "open_llama ld env api_start = (r, st, calls)"
    and "\<forall>lib. fst (try_candidates ld env 0 (library_candidates env)) = Some lib \<longrightarrow> list_all (symbol_found ld lib) required_symbols"
  shows "open_llama ld env' st = (r, st, []) \<and> (r \<noteq> None \<longrightarrow> list_all (loaded st) required_symbols)"
proof -
  have "attempted st" using open_llama_attempted [OF assms(1)] .
  moreover have "api_library st = r \<and> (r \<noteq> None \<longrightarrow> list_all (loaded st) required_symbols)"
    using assms by (auto simp: open_llama_def api_start_def Let_def split: if_splits prod.splits option.splits)
  ultimately show ?thesis by (simp add: open_llama_again)
qed

text \<open>A loader with one library behind the plain name.\<close>

definition one_library :: "(bytes \<Rightarrow> bool) \<Rightarrow> unit loader" where
  "one_library has = \<lparr>dlopen = (\<lambda>path. if path = ''libllama.so.0'' then Some () else None), dlsym = (\<lambda>_. has)\<rparr>"

lemma one_library_opens:
  "fst (try_candidates (one_library has) (\<lambda>_. None) 0 (library_candidates (\<lambda>_. None))) = Some ()"
  by (simp add: library_candidates_def candidate_path_def unset_def one_library_def Let_def split: prod.splits)

theorem open_llama_once_witness:
  "\<exists>st calls. open_llama (one_library (\<lambda>_. True)) (\<lambda>_. None) api_start = (Some (), st, calls) \<and>
     open_llama (one_library (\<lambda>_. True)) (\<lambda>_. None) st = (Some (), st, [])"
proof -
  obtain r st calls where o: "open_llama (one_library (\<lambda>_. True)) (\<lambda>_. None) api_start = (r, st, calls)" by (metis prod_cases3)
  have all: "list_all (symbol_found (one_library (\<lambda>_. True)) lib) required_symbols" for lib
    by (simp add: required_symbols_def symbol_found_def one_library_def api_symbols_def)
  have "r = Some ()"
    using o one_library_opens [of "\<lambda>_. True"] all by (auto simp: open_llama_def api_start_def Let_def split: prod.splits if_splits)
  then show ?thesis using open_llama_once [OF o, of "\<lambda>_. None"] all o by auto
qed

text \<open>
  A library that lacks a required symbol is refused by the first call and handed out by every later
  one: the early return does not repeat the check, and the missing pointer is still null.
\<close>

theorem refused_library_returned_later:
  assumes "fst (try_candidates ld env 0 (library_candidates env)) = Some lib"
    and "name \<in> set required_symbols" and "\<not> symbol_found ld lib name"
    and "fast_available ld env api_start = (first, st)"
  shows "first = 0 \<and> fast_available ld env' st = (1, st) \<and> api_library st = Some lib \<and> \<not> loaded st name"
proof -
  obtain calls where t: "try_candidates ld env 0 (library_candidates env) = (Some lib, calls)"
    using assms(1) by (metis prod.collapse)
  have "\<not> list_all (symbol_found ld lib) required_symbols" using assms(2,3) by (auto simp: list_all_iff)
  then have "first = 0 \<and> st = api_start\<lparr>attempted := True, api_library := Some lib, loaded := symbol_found ld lib\<rparr>"
    using assms(4) t by (simp add: fast_available_def open_llama_def api_start_def)
  then show ?thesis using assms(3) by (simp add: fast_available_def open_llama_again)
qed

theorem refused_library_returned_later_witness:
  "\<exists>st. fast_available (one_library (\<lambda>s. s \<noteq> ''llama_decode'')) (\<lambda>_. None) api_start = (0, st) \<and>
     fast_available (one_library (\<lambda>s. s \<noteq> ''llama_decode'')) (\<lambda>_. None) st = (1, st)"
proof -
  let ?ld = "one_library (\<lambda>s. s \<noteq> ''llama_decode'')"
  obtain first st where a: "fast_available ?ld (\<lambda>_. None) api_start = (first, st)" by fastforce
  have "''llama_decode'' \<in> set required_symbols" by (simp add: required_symbols_def)
  moreover have "\<not> symbol_found ?ld () ''llama_decode''" by (simp add: symbol_found_def one_library_def mangled_names_def)
  ultimately show ?thesis
    using refused_library_returned_later [OF one_library_opens _ _ a, of "''llama_decode''" "\<lambda>_. None"] a by blast
qed

text \<open>
  The library in use is the first candidate that opens: the override, looked up in the configured
  directory when it is a plain name, before the two fixed paths and the system's search.
\<close>

theorem open_llama_first_candidate:
  "api_library (fst (snd (open_llama ld env api_start))) =
     (case filter (\<lambda>p. dlopen ld p \<noteq> None)
          (List.map_filter (\<lambda>(k, c). candidate_path env k c) (enumerate 0 (library_candidates env))) of
        [] \<Rightarrow> None | p # _ \<Rightarrow> dlopen ld p)"
  using try_candidates_first [of ld env 0 "library_candidates env"]
  by (auto simp: open_llama_def api_start_def Let_def split: prod.splits option.splits)

end
