(* ===== verification/CudaStub.thy ===== *)
theory CudaStub
  imports Prelude "HOL-Library.Multiset"
begin

section \<open>The CUDA interface of a CPU build\<close>

text \<open>
  Models \<open>src/backend/cpu/fortai_cuda_stub.c\<close>, the weak definitions that a build without CUDA links
  in place of the backend, and the declarations of \<open>backend/cuda/fortai_cuda_backend.h\<close> and
  \<open>backend/cuda/fortai_cuda_q4_backend.h\<close>. A stub reads none of its arguments; what it does is its
  result and the stores through those of its result parameters that are not null. The tables list
  the functions in the order of the files, each with its number of parameters; \<open>call_stub\<close> runs one.
\<close>

datatype out_store = OutNull string | OutZero string | OutRows string string

datatype stub_body = Succeeds | Fails "out_store list" | NoHandle | Says string

type_synonym stub = "string \<times> nat \<times> stub_body"

datatype result_kind = ReturnsStatus | ReturnsHandle | ReturnsText

type_synonym prototype = "string \<times> nat \<times> result_kind"

definition FORTAI_CUDA_OK :: int where "FORTAI_CUDA_OK = 0"
definition FORTAI_CUDA_RUNTIME_ERROR :: int where "FORTAI_CUDA_RUNTIME_ERROR = 2"

datatype stub_result = StatusCode int | NullHandle | Text string

datatype store = SetNull string | SetZero string nat

definition unavailable :: stub_result where
  "unavailable = StatusCode FORTAI_CUDA_RUNTIME_ERROR"

text \<open>\<open>given\<close> tells which pointer parameters are not null, \<open>ints\<close> the integer parameters.\<close>

fun out_stores :: "(string \<Rightarrow> bool) \<Rightarrow> (string \<Rightarrow> int) \<Rightarrow> out_store \<Rightarrow> store list" where
  "out_stores given ints (OutNull p) = (if given p then [SetNull p] else [])"
| "out_stores given ints (OutZero p) = (if given p then [SetZero p 0] else [])"
| "out_stores given ints (OutRows p rows) = (if given p then map (SetZero p) [0..<nat (ints rows)] else [])"

fun call_stub :: "(string \<Rightarrow> bool) \<Rightarrow> (string \<Rightarrow> int) \<Rightarrow> stub_body \<Rightarrow> stub_result \<times> store list" where
  "call_stub given ints Succeeds = (StatusCode FORTAI_CUDA_OK, [])"
| "call_stub given ints (Fails outs) = (unavailable, concat (map (out_stores given ints) outs))"
| "call_stub given ints NoHandle = (NullHandle, [])"
| "call_stub given ints (Says message) = (Text message, [])"

subsection \<open>The stubs\<close>

definition stubs_1 :: "stub list" where
  "stubs_1 =
    [(''fortai_cuda_q4_context_create'', 3, Fails [OutNull ''context'']),
     (''fortai_cuda_q4_context_destroy'', 1, Succeeds),
     (''fortai_cuda_q4_context_synchronize'', 1, Succeeds),
     (''fortai_cuda_q4_context_transfer'', 6, Fails []),
     (''fortai_cuda_q4_context_stream'', 2, NoHandle),
     (''fortai_cuda_q4_context_set_consumer_stream'', 3, Fails []),
     (''fortai_cuda_q4_weights_upload'', 8, Fails [OutNull ''weights'']),
     (''fortai_cuda_q4_weights_destroy'', 1, Succeeds),
     (''fortai_cuda_q4_matvec_host'', 7, Fails [OutZero ''elapsed_ms'']),
     (''fortai_cuda_q4_matvec_host_pair'', 10, Fails [OutZero ''elapsed_ms'']),
     (''fortai_cuda_q4_matvec_host_triplet'', 13, Fails [OutZero ''elapsed_ms'']),
     (''fortai_cuda_q4_matvec_device'', 6, Fails []),
     (''fortai_cuda_q4_matvec_device_swiglu'', 7, Fails [])]"

definition stubs_2 :: "stub list" where
  "stubs_2 =
    [(''fortai_cuda_q4_matvec_device_swiglu_remote_output'', 7, Fails []),
     (''fortai_cuda_q4_matvec_device_swiglu_down'', 8, Fails []),
     (''fortai_cuda_q4_matmul_device_swiglu_down_slot'', 10, Fails []),
     (''fortai_cuda_q4_matvec_device_group'', 7, Fails []),
     (''fortai_cuda_q4_matvec_device_quad'', 15, Fails []),
     (''fortai_cuda_q4_matmul_device_group'', 8, Fails []),
     (''fortai_cuda_q4_matmul_device_group_slot'', 9, Fails []),
     (''fortai_cuda_q4_matmul_device'', 7, Fails []),
     (''fortai_cuda_q4_matvec_device_group_remote_output'', 7, Fails []),
     (''fortai_cuda_q4_matvec_device_remote_input'', 6, Fails []),
     (''fortai_cuda_q4_embedding_device'', 5, Fails [])]"

definition stubs_3 :: "stub list" where
  "stubs_3 =
    [(''fortai_cuda_q4_embedding_device_batch'', 6, Fails []),
     (''fortai_cuda_q4_embedding_device_batch_slot'', 7, Fails []),
     (''fortai_cuda_q8_context_create'', 2, Fails [OutNull ''context'']),
     (''fortai_cuda_memory_info'', 3, Fails [OutZero ''free_bytes'', OutZero ''total_bytes'']),
     (''fortai_cuda_q8_context_destroy'', 1, Succeeds),
     (''fortai_cuda_q8_context_set_position'', 2, Fails []),
     (''fortai_cuda_q8_context_synchronize'', 1, Fails []),
     (''fortai_cuda_q8_context_stream'', 1, NoHandle),
     (''fortai_cuda_q8_context_adopt_stream'', 2, Fails []),
     (''fortai_cuda_q8_context_capture_begin'', 1, Fails []),
     (''fortai_cuda_q8_context_capture_end'', 1, Fails []),
     (''fortai_cuda_q8_context_graph_launch'', 1, Fails []),
     (''fortai_cuda_q8_context_capture_begin_slot'', 2, Fails []),
     (''fortai_cuda_q8_context_capture_end_slot'', 2, Fails []),
     (''fortai_cuda_q8_context_graph_launch_slot'', 2, Fails []),
     (''fortai_cuda_q8_weights_upload'', 6, Fails [OutNull ''weights'']),
     (''fortai_cuda_q8_weights_destroy'', 1, Succeeds),
     (''fortai_cuda_q8_device_buffer_create'', 3, Fails [OutNull ''device_buffer'']),
     (''fortai_cuda_q8_device_buffer_destroy'', 2, Succeeds),
     (''fortai_cuda_q8_device_buffer_upload'', 4, Fails []),
     (''fortai_cuda_q8_device_buffer_upload_ptr'', 4, Fails [])]"

definition stubs_4 :: "stub list" where
  "stubs_4 =
    [(''fortai_cuda_q8_device_buffer_download'', 4, Fails []),
     (''fortai_cuda_q8_matvec_resident'', 5, Fails [OutZero ''kernel_ms'']),
     (''fortai_cuda_q8_matvec_device_f32'', 6, Fails []),
     (''fortai_cuda_q8_matvec_device_f32_pair'', 9, Fails []),
     (''fortai_cuda_q8_reserve_matvec_scratch'', 3, Fails []),
     (''fortai_cuda_q8_matmul_device_f32'', 7, Fails []),
     (''fortai_cuda_qwen35_embedding_device'', 5, Fails []),
     (''fortai_cuda_qwen35_embedding_device_batch'', 6, Fails []),
     (''fortai_cuda_qwen35_copy_device'', 4, Fails []),
     (''fortai_cuda_qwen35_add_device'', 5, Fails []),
     (''fortai_cuda_qwen35_copy_column_device'', 6, Fails []),
     (''fortai_cuda_qwen35_add_matrix_device'', 5, Fails []),
     (''fortai_cuda_qwen35_rms_norm_device'', 6, Fails [])]"

definition stubs_5 :: "stub list" where
  "stubs_5 =
    [(''fortai_cuda_qwen35_rms_norm_matrix_device'', 7, Fails []),
     (''fortai_cuda_qwen35_silu_product_device'', 4, Fails []),
     (''fortai_cuda_qwen35_silu_product_matrix_device'', 4, Fails []),
     (''fortai_cuda_q8_matvec_host'', 7, Fails [OutZero ''elapsed_ms'']),
     (''fortai_cuda_q8_matvec_host_pair'', 10, Fails [OutZero ''elapsed_ms'']),
     (''fortai_cuda_q8_matvec_host_triplet'', 13, Fails [OutZero ''elapsed_ms'']),
     (''fortai_cuda_q8_matvec_host_triplet_contiguous'', 9, Fails [OutZero ''elapsed_ms'']),
     (''fortai_cuda_q8_ffn_host'', 9, Fails [OutZero ''elapsed_ms'']),
     (''fortai_cuda_q8_ffn_device'', 8, Fails [])]"

definition stubs_6 :: "stub list" where
  "stubs_6 =
    [(''fortai_cuda_qwen35_recurrent_create'', 23, Fails [OutNull ''layer'']),
     (''fortai_cuda_qwen35_recurrent_create_state'', 18, Fails [OutNull ''layer'']),
     (''fortai_cuda_qwen35_recurrent_destroy'', 1, Succeeds),
     (''fortai_cuda_qwen35_recurrent_reset'', 1, Fails []),
     (''fortai_cuda_qwen35_recurrent_run'', 6, Fails [OutZero ''elapsed_ms'']),
     (''fortai_cuda_qwen35_recurrent_run_device'', 5, Fails []),
     (''fortai_cuda_qwen35_recurrent_run_core_device'', 11, Fails []),
     (''fortai_cuda_qwen35_recurrent_run_core_device_batch'', 12, Fails []),
     (''fortai_cuda_qwen35_recurrent_restore_first'', 1, Fails []),
     (''fortai_cuda_qwen35_recurrent_restore_second'', 1, Fails [])]"

definition stubs_7 :: "stub list" where
  "stubs_7 =
    [(''fortai_cuda_qwen35_attention_create'', 20, Fails [OutNull ''layer'']),
     (''fortai_cuda_qwen35_attention_create_state'', 16, Fails [OutNull ''layer'']),
     (''fortai_cuda_qwen35_attention_destroy'', 1, Succeeds),
     (''fortai_cuda_qwen35_attention_reset'', 1, Fails []),
     (''fortai_cuda_qwen35_attention_run_device'', 6, Fails []),
     (''fortai_cuda_qwen35_attention_run_core_device'', 10, Fails []),
     (''fortai_cuda_qwen35_attention_run_core_device_batch'', 11, Fails []),
     (''fortai_cuda_qwen35_argmax_device'', 4, Fails [OutZero ''host_index'']),
     (''fortai_cuda_qwen35_argmax_rows_device'', 5, Fails [OutRows ''host_indices'' ''rows'']),
     (''fortai_cuda_qwen35_topk_rows_device'', 7, Fails []),
     (''fortai_cuda_qwen35_concat_device'', 5, Fails [])]"

definition stubs_8 :: "stub list" where
  "stubs_8 =
    [(''fortai_cuda_qwen35_concat_matrix_device'', 6, Fails []),
     (''fortai_cuda_qwen35_shift_target_hidden_device'', 6, Fails []),
     (''fortai_cuda_q8_last_error'', 1, Says ''CUDA backend is not linked'')]"

definition cuda_stubs :: "stub list" where
  "cuda_stubs = stubs_1 @ stubs_2 @ stubs_3 @ stubs_4 @ stubs_5 @ stubs_6 @ stubs_7 @ stubs_8"

subsection \<open>The declarations\<close>

definition declared_q8_1 :: "prototype list" where
  "declared_q8_1 =
    [(''fortai_cuda_q8_context_create'', 2, ReturnsStatus),
     (''fortai_cuda_q8_context_destroy'', 1, ReturnsStatus),
     (''fortai_cuda_memory_info'', 3, ReturnsStatus),
     (''fortai_cuda_q8_context_set_position'', 2, ReturnsStatus),
     (''fortai_cuda_q8_context_synchronize'', 1, ReturnsStatus),
     (''fortai_cuda_q8_context_stream'', 1, ReturnsHandle),
     (''fortai_cuda_q8_context_adopt_stream'', 2, ReturnsStatus),
     (''fortai_cuda_q8_context_capture_begin'', 1, ReturnsStatus),
     (''fortai_cuda_q8_context_capture_end'', 1, ReturnsStatus),
     (''fortai_cuda_q8_context_graph_launch'', 1, ReturnsStatus),
     (''fortai_cuda_q8_context_capture_begin_slot'', 2, ReturnsStatus),
     (''fortai_cuda_q8_context_capture_end_slot'', 2, ReturnsStatus),
     (''fortai_cuda_q8_context_graph_launch_slot'', 2, ReturnsStatus),
     (''fortai_cuda_q8_weights_upload'', 6, ReturnsStatus),
     (''fortai_cuda_q8_weights_destroy'', 1, ReturnsStatus),
     (''fortai_cuda_q8_device_buffer_create'', 3, ReturnsStatus),
     (''fortai_cuda_q8_device_buffer_destroy'', 2, ReturnsStatus),
     (''fortai_cuda_q8_device_buffer_upload'', 4, ReturnsStatus),
     (''fortai_cuda_q8_device_buffer_upload_ptr'', 4, ReturnsStatus),
     (''fortai_cuda_q8_device_buffer_download'', 4, ReturnsStatus),
     (''fortai_cuda_q8_matvec_resident'', 5, ReturnsStatus),
     (''fortai_cuda_q8_matvec_device_f32'', 6, ReturnsStatus),
     (''fortai_cuda_q8_matvec_device_f32_pair'', 9, ReturnsStatus),
     (''fortai_cuda_q8_reserve_matvec_scratch'', 3, ReturnsStatus),
     (''fortai_cuda_q8_matmul_device_f32'', 7, ReturnsStatus),
     (''fortai_cuda_qwen35_embedding_device'', 5, ReturnsStatus),
     (''fortai_cuda_qwen35_embedding_device_batch'', 6, ReturnsStatus),
     (''fortai_cuda_qwen35_copy_device'', 4, ReturnsStatus),
     (''fortai_cuda_qwen35_add_device'', 5, ReturnsStatus),
     (''fortai_cuda_qwen35_copy_column_device'', 6, ReturnsStatus),
     (''fortai_cuda_qwen35_add_matrix_device'', 5, ReturnsStatus),
     (''fortai_cuda_qwen35_rms_norm_matrix_device'', 7, ReturnsStatus),
     (''fortai_cuda_qwen35_silu_product_matrix_device'', 4, ReturnsStatus),
     (''fortai_cuda_qwen35_rms_norm_device'', 6, ReturnsStatus),
     (''fortai_cuda_qwen35_silu_product_device'', 4, ReturnsStatus),
     (''fortai_cuda_qwen35_concat_device'', 5, ReturnsStatus),
     (''fortai_cuda_qwen35_concat_matrix_device'', 6, ReturnsStatus),
     (''fortai_cuda_qwen35_shift_target_hidden_device'', 6, ReturnsStatus),
     (''fortai_cuda_qwen35_argmax_device'', 4, ReturnsStatus),
     (''fortai_cuda_qwen35_argmax_rows_device'', 5, ReturnsStatus),
     (''fortai_cuda_qwen35_topk_rows_device'', 7, ReturnsStatus),
     (''fortai_cuda_q8_matvec_host'', 7, ReturnsStatus),
     (''fortai_cuda_q8_matvec_host_pair'', 10, ReturnsStatus),
     (''fortai_cuda_q8_matvec_host_triplet'', 13, ReturnsStatus),
     (''fortai_cuda_q8_matvec_host_triplet_contiguous'', 9, ReturnsStatus),
     (''fortai_cuda_q8_ffn_host'', 9, ReturnsStatus),
     (''fortai_cuda_q8_ffn_device'', 8, ReturnsStatus)]"

definition declared_q8_2 :: "prototype list" where
  "declared_q8_2 =
    [(''fortai_cuda_qwen35_recurrent_create'', 23, ReturnsStatus),
     (''fortai_cuda_qwen35_recurrent_create_state'', 18, ReturnsStatus),
     (''fortai_cuda_qwen35_recurrent_destroy'', 1, ReturnsStatus),
     (''fortai_cuda_qwen35_recurrent_reset'', 1, ReturnsStatus),
     (''fortai_cuda_qwen35_recurrent_run'', 6, ReturnsStatus),
     (''fortai_cuda_qwen35_recurrent_run_device'', 5, ReturnsStatus),
     (''fortai_cuda_qwen35_recurrent_run_core_device'', 11, ReturnsStatus),
     (''fortai_cuda_qwen35_attention_create'', 20, ReturnsStatus),
     (''fortai_cuda_qwen35_attention_create_state'', 16, ReturnsStatus),
     (''fortai_cuda_qwen35_attention_destroy'', 1, ReturnsStatus),
     (''fortai_cuda_qwen35_attention_reset'', 1, ReturnsStatus),
     (''fortai_cuda_qwen35_attention_run_device'', 6, ReturnsStatus),
     (''fortai_cuda_qwen35_recurrent_run_core_device_batch'', 12, ReturnsStatus),
     (''fortai_cuda_qwen35_recurrent_restore_first'', 1, ReturnsStatus),
     (''fortai_cuda_qwen35_recurrent_restore_second'', 1, ReturnsStatus),
     (''fortai_cuda_qwen35_attention_run_core_device'', 10, ReturnsStatus),
     (''fortai_cuda_qwen35_attention_run_core_device_batch'', 11, ReturnsStatus),
     (''fortai_cuda_q8_last_error'', 1, ReturnsText)]"

definition declared_q4_1 :: "prototype list" where
  "declared_q4_1 =
    [(''fortai_cuda_q4_context_create'', 3, ReturnsStatus),
     (''fortai_cuda_q4_context_destroy'', 1, ReturnsStatus),
     (''fortai_cuda_q4_context_synchronize'', 1, ReturnsStatus),
     (''fortai_cuda_q4_context_stream'', 2, ReturnsHandle),
     (''fortai_cuda_q4_context_set_consumer_stream'', 3, ReturnsStatus),
     (''fortai_cuda_q4_context_transfer'', 6, ReturnsStatus),
     (''fortai_cuda_q4_weights_upload'', 8, ReturnsStatus),
     (''fortai_cuda_q4_weights_destroy'', 1, ReturnsStatus),
     (''fortai_cuda_q4_matvec_host'', 7, ReturnsStatus),
     (''fortai_cuda_q4_matvec_host_pair'', 10, ReturnsStatus),
     (''fortai_cuda_q4_matvec_host_triplet'', 13, ReturnsStatus),
     (''fortai_cuda_q4_matvec_device'', 6, ReturnsStatus),
     (''fortai_cuda_q4_matvec_device_swiglu'', 7, ReturnsStatus),
     (''fortai_cuda_q4_matvec_device_swiglu_remote_output'', 7, ReturnsStatus),
     (''fortai_cuda_q4_matvec_device_swiglu_down'', 8, ReturnsStatus),
     (''fortai_cuda_q4_matmul_device_swiglu_down_slot'', 10, ReturnsStatus),
     (''fortai_cuda_q4_matvec_device_group'', 7, ReturnsStatus),
     (''fortai_cuda_q4_matvec_device_quad'', 15, ReturnsStatus),
     (''fortai_cuda_q4_matmul_device_group'', 8, ReturnsStatus),
     (''fortai_cuda_q4_matmul_device_group_slot'', 9, ReturnsStatus),
     (''fortai_cuda_q4_matmul_device'', 7, ReturnsStatus),
     (''fortai_cuda_q4_matvec_device_group_remote_output'', 7, ReturnsStatus),
     (''fortai_cuda_q4_matvec_device_remote_input'', 6, ReturnsStatus),
     (''fortai_cuda_q4_embedding_device'', 5, ReturnsStatus),
     (''fortai_cuda_q4_embedding_device_batch'', 6, ReturnsStatus),
     (''fortai_cuda_q4_embedding_device_batch_slot'', 7, ReturnsStatus)]"
definition cuda_declarations :: "prototype list" where
  "cuda_declarations = declared_q8_1 @ declared_q8_2 @ declared_q4_1"

lemmas stub_tables = stubs_1_def stubs_2_def stubs_3_def stubs_4_def stubs_5_def stubs_6_def stubs_7_def stubs_8_def declared_q8_1_def declared_q8_2_def declared_q4_1_def

subsection \<open>What the stubs come to\<close>

fun result_kind_of :: "stub_body \<Rightarrow> result_kind" where
  "result_kind_of Succeeds = ReturnsStatus"
| "result_kind_of (Fails _) = ReturnsStatus"
| "result_kind_of NoHandle = ReturnsHandle"
| "result_kind_of (Says _) = ReturnsText"

definition prototype_of :: "stub \<Rightarrow> prototype" where
  "prototype_of s = (case s of (name, n, body) \<Rightarrow> (name, n, result_kind_of body))"

text \<open>The stub behind each declaration, by its position in the table.\<close>

definition stub_of_declaration :: "nat list" where
  "stub_of_declaration =
    [26, 28, 27, 29, 30, 31, 32, 33, 34, 35, 36, 37, 38, 39, 40, 41, 42, 43, 44, 45, 46, 47, 48, 49,
     50, 51, 52, 53, 54, 55, 56, 58, 60, 57, 59, 87, 88, 89, 84, 85, 86, 61, 62, 63, 64, 65, 66,
     67, 68, 69, 70, 71, 72, 73, 77, 78, 79, 80, 81, 74, 75, 76, 82, 83, 90, 0, 1, 2, 4, 5, 3, 6,
     7, 8, 9, 10, 11, 12, 13, 14, 15, 16, 17, 18, 19, 20, 21, 22, 23, 24, 25]"

lemma mset_select:
  assumes "sort ks = [0..<length xs]"
  shows "mset (map (nth xs) ks) = mset xs"
proof -
  have "mset ks = mset [0..<length xs]" using assms by (metis mset_sort)
  then have "mset (map (nth xs) ks) = mset (map (nth xs) [0..<length xs])" by (simp only: mset_map)
  then show ?thesis by (simp only: map_nth)
qed

lemma declarations_selected: "cuda_declarations = map (nth (map prototype_of cuda_stubs)) stub_of_declaration"
  by (simp add: cuda_declarations_def cuda_stubs_def stub_tables stub_of_declaration_def prototype_of_def)

lemma stub_of_declaration_sorted: "sort stub_of_declaration = [0..<length (map prototype_of cuda_stubs)]"
  by (simp add: cuda_stubs_def stub_tables stub_of_declaration_def upt_conv_Cons)

text \<open>The calls that release something, or wait for nothing, and the calls that hand out a new object.\<close>

definition releases :: "string \<Rightarrow> bool" where
  "releases name \<longleftrightarrow> suffix ''_destroy'' name \<or> name = ''fortai_cuda_q4_context_synchronize''"

definition creates :: "string \<Rightarrow> bool" where
  "creates name \<longleftrightarrow> suffix ''_create'' name \<or> suffix ''_create_state'' name \<or> suffix ''_weights_upload'' name"

fun succeeds :: "stub_body \<Rightarrow> bool" where
  "succeeds Succeeds = True"
| "succeeds _ = False"

fun nulls_one :: "stub_body \<Rightarrow> bool" where
  "nulls_one (Fails [OutNull _]) = True"
| "nulls_one _ = False"

lemma not_succeeds: "\<not> succeeds body \<Longrightarrow> fst (call_stub given ints body) \<noteq> StatusCode FORTAI_CUDA_OK"
  by (cases body) (simp_all add: unavailable_def FORTAI_CUDA_OK_def FORTAI_CUDA_RUNTIME_ERROR_def)

lemma nulls_oneE: "nulls_one body \<Longrightarrow> \<exists>p. \<forall>ints. call_stub (\<lambda>_. True) ints body = (unavailable, [SetNull p])"
  by (cases body rule: nulls_one.cases) auto

lemma stubs_checked:
  "list_all (\<lambda>(name, n, body). \<not> succeeds body) (filter (\<lambda>s. \<not> releases (fst s)) cuda_stubs)"
  "list_all (\<lambda>(name, n, body). nulls_one body) (filter (\<lambda>s. creates (fst s)) cuda_stubs)"
  by code_simp+

lemma list_all_weaken: "list_all P xs \<Longrightarrow> (\<And>x. P x \<Longrightarrow> Q x) \<Longrightarrow> list_all Q xs"
  by (simp add: list_all_iff)

subsection \<open>Properties\<close>

text \<open>
  A CPU build has every function of the two CUDA headers: the stubs are, up to order, exactly the
  declared functions, each once, with the declared number of parameters and kind of result.
\<close>

theorem stubs_cover_declarations: "mset (map prototype_of cuda_stubs) = mset cuda_declarations"
  using mset_select [OF stub_of_declaration_sorted] by (simp only: declarations_selected)

text \<open>
  Without CUDA nothing claims to have worked: whatever the arguments, no stub but the releases (and
  the wait of the Q4 context) reports success, and every stub that would hand out a context, weights, a
  buffer or a layer reports failure and leaves a null pointer behind.
\<close>

theorem stubs_fail_closed:
  "list_all (\<lambda>(name, n, body). \<forall>given ints. fst (call_stub given ints body) \<noteq> StatusCode FORTAI_CUDA_OK)
     (filter (\<lambda>s. \<not> releases (fst s)) cuda_stubs) \<and>
   list_all (\<lambda>(name, n, body). \<exists>p. \<forall>ints. call_stub (\<lambda>_. True) ints body = (unavailable, [SetNull p]))
     (filter (\<lambda>s. creates (fst s)) cuda_stubs)"
  by (rule conjI; rule list_all_weaken [OF stubs_checked(1)] list_all_weaken [OF stubs_checked(2)])
    (auto simp: not_succeeds nulls_oneE)

end
