(* ===== verification/VectorLanes.thy ===== *)
theory VectorLanes
  imports Prelude
begin

section \<open>Sums in vector lanes\<close>

text \<open>
  The dot products of \<open>src/backend/cpu/fortai_q8_dot.c\<close> as its vector code computes them: four
  registers of eight lanes accumulate the products of 32 columns at a time, \<open>reduce_dot_sums\<close> adds
  the lanes up, and a scalar loop adds what is left over. A register is the list of its lanes. The
  operations are those of the element type: the definitions hold for any type with addition and
  multiplication, a fused multiply-add being the two; the equalities with the scalar loop are those
  of exact arithmetic, that is of a commutative ring, and say nothing about rounding.
\<close>

definition slice :: "nat \<Rightarrow> nat \<Rightarrow> 'a list \<Rightarrow> 'a list" where
  "slice i n xs = take n (drop i xs)"

definition add_ps :: "'f::plus list \<Rightarrow> 'f list \<Rightarrow> 'f list" where
  "add_ps a b = map2 (+) a b"

definition fmadd_ps :: "'f::{plus, times} list \<Rightarrow> 'f list \<Rightarrow> 'f list \<Rightarrow> 'f list" where
  "fmadd_ps a b c = map2 (+) (map2 (*) a b) c"

definition hadd_ps :: "'f::plus list \<Rightarrow> 'f list \<Rightarrow> 'f list" where
  "hadd_ps a b = [a ! 0 + a ! 1, a ! 2 + a ! 3, b ! 0 + b ! 1, b ! 2 + b ! 3]"

definition reduce_dot_sums :: "'f::plus list list \<Rightarrow> 'f" where
  "reduce_dot_sums sums =
     (let s0 = add_ps (sums ! 0) (sums ! 2);
          s1 = add_ps (sums ! 1) (sums ! 3);
          s = add_ps s0 s1;
          lanes = add_ps (take 4 s) (drop 4 s);
          pairs = hadd_ps lanes lanes
      in hadd_ps pairs pairs ! 0)"

function lane_sums :: "'f::{plus, times} list \<Rightarrow> 'f list \<Rightarrow> nat \<Rightarrow> nat \<Rightarrow> 'f list list \<Rightarrow> nat \<times> 'f list list" where
  "lane_sums left right i count sums =
     (if i + 32 \<le> count
      then lane_sums left right (i + 32) count
        (map (\<lambda>j. fmadd_ps (slice (i + 8 * j) 8 left) (slice (i + 8 * j) 8 right) (sums ! j)) [0..<4])
      else (i, sums))"
  by pat_completeness auto
termination by (relation "measure (\<lambda>(left, right, i, count, sums). count - i)") auto

declare lane_sums.simps [simp del]

function dot_from :: "'f::{plus, times} list \<Rightarrow> 'f list \<Rightarrow> nat \<Rightarrow> nat \<Rightarrow> 'f \<Rightarrow> 'f" where
  "dot_from left right i count acc =
     (if i < count then dot_from left right (i + 1) count (acc + left ! i * right ! i) else acc)"
  by pat_completeness auto
termination by (relation "measure (\<lambda>(left, right, i, count, acc). count - i)") auto

declare dot_from.simps [simp del]

definition dot_vector :: "'f::{plus, times, zero} list \<Rightarrow> 'f list \<Rightarrow> nat \<Rightarrow> 'f" where
  "dot_vector left right count =
     (let (i, sums) = lane_sums left right 0 count (replicate 4 (replicate 8 0))
      in dot_from left right i count (reduce_dot_sums sums))"

definition dot_plain :: "'f::{plus, times, zero} list \<Rightarrow> 'f list \<Rightarrow> nat \<Rightarrow> 'f" where
  "dot_plain left right count = dot_from left right 0 count 0"

subsection \<open>Arrays in blocks of one length\<close>

lemma slice_concat:
  assumes "\<forall>x\<in>set xss. length x = m" and "k < length xss"
  shows "slice (k * m) m (concat xss) = xss ! k"
  using assms
proof (induction xss arbitrary: k)
  case (Cons x xss)
  then show ?case by (cases k) (auto simp: slice_def add.commute)
qed simp

lemma length_concat_uniform: "\<forall>x\<in>set xss. length x = m \<Longrightarrow> length (concat xss) = length xss * m"
  by (induction xss) simp_all

lemma rows_of_map: "map g [0..<rows * k] = concat (map (\<lambda>r. map (\<lambda>j. g (r * k + j)) [0..<k]) [0..<rows])"
proof (induction rows)
  case (Suc rows)
  have "map g [0..<Suc rows * k] = map g [0..<rows * k] @ map g [rows * k..<rows * k + k]"
    using upt_add_eq_append [of 0 "rows * k" k] by (simp add: add.commute)
  also have "map g [rows * k..<rows * k + k] = map (\<lambda>j. g (rows * k + j)) [0..<k]"
    by (intro nth_equalityI) simp_all
  finally show ?case using Suc by simp
qed simp

lemma nth_concat_uniform:
  assumes "\<forall>x\<in>set xss. length x = m" and "k < length xss * m"
  shows "concat xss ! k = xss ! (k div m) ! (k mod m)"
proof -
  have m: "0 < m" using assms(2) by (cases m) simp_all
  have b: "k div m < length xss" using assms(2) by (simp add: less_mult_imp_div_less)
  have "slice (k div m * m) m (concat xss) ! (k mod m) = concat xss ! (k div m * m + k mod m)"
  proof -
    have "k div m * m \<le> length (concat xss)"
      using assms length_concat_uniform [OF assms(1)] div_times_less_eq_dividend [of k m] by linarith
    then show ?thesis using m by (simp add: slice_def)
  qed
  then show ?thesis using slice_concat [OF assms(1) b] by simp
qed

subsection \<open>The sums in exact arithmetic\<close>

definition lanes4 :: "'f list list \<Rightarrow> bool" where
  "lanes4 sums \<longleftrightarrow> length sums = 4 \<and> (\<forall>s\<in>set sums. length s = 8)"

lemma list8:
  assumes "length xs = 8"
  obtains x0 x1 x2 x3 x4 x5 x6 x7 where "xs = [x0, x1, x2, x3, x4, x5, x6, x7]"
proof -
  have "xs = [xs ! 0, xs ! 1, xs ! 2, xs ! 3, xs ! 4, xs ! 5, xs ! 6, xs ! 7]"
    by (rule nth_equalityI) (use assms in \<open>auto simp: less_Suc_eq numeral_eq_Suc\<close>)
  then show thesis by (rule that)
qed

lemma list4: "length xs = 4 \<Longrightarrow> xs = [xs ! 0, xs ! 1, xs ! 2, xs ! 3]"
  by (rule nth_equalityI) (auto simp: less_Suc_eq numeral_eq_Suc)

lemma reduce_dot_sums_total:
  fixes sums :: "'f::comm_ring_1 list list"
  assumes "lanes4 sums"
  shows "reduce_dot_sums sums = sum_list (concat sums)"
proof -
  obtain a b c d where s: "sums = [a, b, c, d]"
    using list4 [of sums] assms by (auto simp: lanes4_def)
  then have "length a = 8" "length b = 8" "length c = 8" "length d = 8" using assms by (auto simp: lanes4_def)
  note len = this
  obtain a0 a1 a2 a3 a4 a5 a6 a7 where a: "a = [a0, a1, a2, a3, a4, a5, a6, a7]" using list8 [OF len(1)] .
  obtain b0 b1 b2 b3 b4 b5 b6 b7 where b: "b = [b0, b1, b2, b3, b4, b5, b6, b7]" using list8 [OF len(2)] .
  obtain c0 c1 c2 c3 c4 c5 c6 c7 where c: "c = [c0, c1, c2, c3, c4, c5, c6, c7]" using list8 [OF len(3)] .
  obtain d0 d1 d2 d3 d4 d5 d6 d7 where d: "d = [d0, d1, d2, d3, d4, d5, d6, d7]" using list8 [OF len(4)] .
  show ?thesis by (simp add: s a b c d reduce_dot_sums_def add_ps_def hadd_ps_def Let_def ac_simps)
qed

lemma sum_list_map2_plus:
  fixes a :: "'f::comm_monoid_add list"
  shows "length a = length b \<Longrightarrow> sum_list (map2 (+) a b) = sum_list a + sum_list b"
  by (induction a b rule: list_induct2) (simp_all add: ac_simps)

lemma length_fmadd [simp]: "length (fmadd_ps a b c) = min (min (length a) (length b)) (length c)"
  by (simp add: fmadd_ps_def)

definition product_sum :: "'f::comm_ring_1 list \<Rightarrow> 'f list \<Rightarrow> nat \<Rightarrow> nat \<Rightarrow> 'f" where
  "product_sum left right i n = (\<Sum>k\<leftarrow>[i..<n]. left ! k * right ! k)"

lemma product_sum_split: "i \<le> j \<Longrightarrow> j \<le> n \<Longrightarrow> product_sum left right i n = product_sum left right i j + product_sum left right j n"
  unfolding product_sum_def using upt_add_eq_append [of i j "n - j"] by simp

lemma map2_slice: "i + n \<le> length left \<Longrightarrow> i + n \<le> length right \<Longrightarrow>
    map2 f (slice i n left) (slice i n right) = map (\<lambda>k. f (left ! k) (right ! k)) [i..<i + n]"
  by (rule nth_equalityI) (simp_all add: slice_def)

lemma fmadd_sum:
  fixes left :: "'f::comm_ring_1 list"
  assumes "i + 8 \<le> length left" and "i + 8 \<le> length right" and "length s = 8"
  shows "sum_list (fmadd_ps (slice i 8 left) (slice i 8 right) s) = product_sum left right i (i + 8) + sum_list s"
  using assms by (simp add: fmadd_ps_def sum_list_map2_plus map2_slice product_sum_def)

lemma lane_sums_total:
  fixes left :: "'f::comm_ring_1 list"
  shows "count \<le> length left \<Longrightarrow> count \<le> length right \<Longrightarrow> lanes4 sums \<Longrightarrow> i \<le> count \<Longrightarrow> lane_sums left right i count sums = (j, sums') \<Longrightarrow>
    lanes4 sums' \<and> i \<le> j \<and> j \<le> count \<and> sum_list (concat sums') = sum_list (concat sums) + product_sum left right i j"
proof (induction left right i count sums rule: lane_sums.induct)
  case (1 left right i count sums)
  show ?case
  proof (cases "i + 32 \<le> count")
    case False
    then show ?thesis using 1(2-6) by (simp add: lane_sums.simps [of left right i] product_sum_def)
  next
    case True
    let ?next = "map (\<lambda>j. fmadd_ps (slice (i + 8 * j) 8 left) (slice (i + 8 * j) 8 right) (sums ! j)) [0..<4]"
    have len: "j < 4 \<Longrightarrow> length (sums ! j) = 8" for j using 1(4) by (auto simp: lanes4_def)
    have bound: "j < 4 \<Longrightarrow> i + 8 * j + 8 \<le> length left \<and> i + 8 * j + 8 \<le> length right" for j using True 1(2,3) by simp
    have eight: "j < 4 \<Longrightarrow> length (slice (i + 8 * j) 8 left) = 8 \<and> length (slice (i + 8 * j) 8 right) = 8" for j
      using bound [of j] by (auto simp: slice_def min_def)
    have next_lanes: "lanes4 ?next" using len eight by (auto simp: lanes4_def)
    have part: "sum_list (?next ! j) = product_sum left right (i + 8 * j) (i + 8 * j + 8) + sum_list (sums ! j)" if "j < 4" for j
      using that fmadd_sum [of "i + 8 * j" left right "sums ! j"] bound [OF that] len [OF that] by simp
    have four: "sum_list (concat ss) = sum_list (ss ! 0) + sum_list (ss ! 1) + sum_list (ss ! 2) + sum_list (ss ! 3)"
      if "lanes4 ss" for ss :: "'f list list"
      using that by (subst list4 [of ss]) (simp_all add: lanes4_def)
    have "sum_list (concat ?next) = sum_list (concat sums) +
        (product_sum left right i (i + 8) + product_sum left right (i + 8) (i + 16) +
         product_sum left right (i + 16) (i + 24) + product_sum left right (i + 24) (i + 32))"
      unfolding four [OF next_lanes] four [OF 1(4)] using part [of 0] part [of 1] part [of 2] part [of 3]
      by (simp add: ac_simps del: nth_map)
    also have "\<dots> = sum_list (concat sums) + product_sum left right i (i + 32)"
      using product_sum_split [of i "i + 8" "i + 32" left right] product_sum_split [of "i + 8" "i + 16" "i + 32" left right]
        product_sum_split [of "i + 16" "i + 24" "i + 32" left right] by (simp add: ac_simps)
    finally have total: "sum_list (concat ?next) = sum_list (concat sums) + product_sum left right i (i + 32)" .
    have "lane_sums left right (i + 32) count ?next = (j, sums')"
      using 1(6) True by (simp add: lane_sums.simps [of left right i])
    from 1(1) [OF True 1(2,3) next_lanes True this] show ?thesis
      using product_sum_split [of i "i + 32" j left right] total by (simp add: ac_simps)
  qed
qed

lemma dot_from_total:
  fixes left :: "'f::comm_ring_1 list"
  shows "i \<le> count \<Longrightarrow> dot_from left right i count acc = acc + product_sum left right i count"
proof (induction left right i count acc rule: dot_from.induct)
  case (1 left right i count acc)
  then show ?case
    by (cases "i < count")
      (simp_all add: dot_from.simps [of left right i] dot_from.simps [of left right count] product_sum_def upt_conv_Cons del: upt_Suc)
qed

text \<open>In exact arithmetic the vector code computes the scalar sum, for every length.\<close>

lemma dot_vector_plain:
  fixes left :: "'f::comm_ring_1 list"
  assumes "count \<le> length left" and "count \<le> length right"
  shows "dot_vector left right count = product_sum left right 0 count"
    and "dot_plain left right count = product_sum left right 0 count"
proof -
  let ?zero = "replicate 4 (replicate 8 0) :: 'f list list"
  obtain j sums where l: "lane_sums left right 0 count ?zero = (j, sums)" by fastforce
  have zero: "lanes4 ?zero" "sum_list (concat ?zero) = 0" by (auto simp: lanes4_def numeral_eq_Suc)
  note t = lane_sums_total [OF assms zero(1) _ l]
  show "dot_vector left right count = product_sum left right 0 count"
    using t zero(2) product_sum_split [of 0 j count left right]
    by (simp add: dot_vector_def l dot_from_total reduce_dot_sums_total)
  show "dot_plain left right count = product_sum left right 0 count"
    by (simp add: dot_plain_def dot_from_total)
qed

end
