(* ===== verification/DeltaStep.thy ===== *)
theory DeltaStep
  imports VectorLanes
begin

section \<open>The gated delta step\<close>

text \<open>
  Models \<open>gdn_step_avx2\<close>, \<open>gdn_step_scalar\<close> and \<open>fortai_gdn_step\<close> of
  \<open>src/backend/cpu/fortai_q8_dot.c\<close>: one step of the recurrent layer on the square state matrix,
  which is stored row by row. Every row is decayed, read with the key, moved along the key by
  \<open>delta\<close>, and read with the query. A loop that treats each column on its own is a map over the row,
  in the vector code (body and rest do the same) as in the scalar code; the reads are the sums of
  \<open>VectorLanes\<close>.
\<close>

text \<open>One row: the new row and its output, with the sum of the two reads as an argument.\<close>

definition gdn_row ::
    "('f::{plus, minus, times} list \<Rightarrow> 'f list \<Rightarrow> nat \<Rightarrow> 'f) \<Rightarrow> nat \<Rightarrow> 'f list \<Rightarrow> 'f list \<Rightarrow> 'f \<Rightarrow> 'f \<Rightarrow> 'f \<Rightarrow> 'f \<Rightarrow>
     'f list \<Rightarrow> 'f list \<times> 'f" where
  "gdn_row read head_size key query v decay beta output_scale row =
     (let decayed = map (\<lambda>s. s * decay) row;
          delta = (v - read decayed key head_size) * beta;
          moved = map2 (\<lambda>s k. s + delta * k) decayed key
      in (moved, read moved query head_size * output_scale))"

fun gdn_rows ::
    "('f::{plus, minus, times} list \<Rightarrow> 'f list \<Rightarrow> nat \<Rightarrow> 'f) \<Rightarrow> nat \<Rightarrow> 'f list \<Rightarrow> 'f list \<Rightarrow> 'f \<Rightarrow> 'f \<Rightarrow> 'f \<Rightarrow>
     'f list \<Rightarrow> 'f list \<Rightarrow> 'f list \<times> 'f list" where
  "gdn_rows read head_size key query decay beta output_scale state [] = (state, [])"
| "gdn_rows read head_size key query decay beta output_scale state (v # vs) =
     (let (row, result) = gdn_row read head_size key query v decay beta output_scale (take head_size state);
          (rest, results) = gdn_rows read head_size key query decay beta output_scale (drop head_size state) vs
      in (row @ rest, result # results))"

definition gdn_step_avx2 ::
    "'f::{plus, minus, times, zero} list \<Rightarrow> 'f list \<Rightarrow> 'f list \<Rightarrow> 'f list \<Rightarrow> 'f \<Rightarrow> 'f \<Rightarrow> nat \<Rightarrow> 'f \<Rightarrow> 'f list \<times> 'f list" where
  "gdn_step_avx2 state key vals query decay beta head_size output_scale =
     gdn_rows dot_vector head_size key query decay beta output_scale state (take head_size vals)"

definition gdn_step_scalar ::
    "'f::{plus, minus, times, zero} list \<Rightarrow> 'f list \<Rightarrow> 'f list \<Rightarrow> 'f list \<Rightarrow> 'f \<Rightarrow> 'f \<Rightarrow> nat \<Rightarrow> 'f \<Rightarrow> 'f list \<times> 'f list" where
  "gdn_step_scalar state key vals query decay beta head_size output_scale =
     gdn_rows dot_plain head_size key query decay beta output_scale state (take head_size vals)"

definition gdn_step ::
    "bool \<Rightarrow> 'f::{plus, minus, times, zero} list \<Rightarrow> 'f list \<Rightarrow> 'f list \<Rightarrow> 'f list \<Rightarrow> 'f \<Rightarrow> 'f \<Rightarrow> nat \<Rightarrow> 'f \<Rightarrow>
       'f list \<times> 'f list" where
  "gdn_step avx2 state key vals query decay beta head_size output_scale =
     (if avx2 \<and> head_size \<ge> 8 \<and> head_size mod 8 = 0
      then gdn_step_avx2 state key vals query decay beta head_size output_scale
      else gdn_step_scalar state key vals query decay beta head_size output_scale)"

subsection \<open>The rule the step computes\<close>

text \<open>
  The delta rule on the matrix: the entry \<open>(r, c)\<close> after the step, and the output of row \<open>r\<close>.
\<close>

definition delta_of :: "'f::comm_ring_1 list \<Rightarrow> 'f list \<Rightarrow> 'f list \<Rightarrow> 'f \<Rightarrow> 'f \<Rightarrow> nat \<Rightarrow> nat \<Rightarrow> 'f" where
  "delta_of state key vals decay beta n r =
     (vals ! r - (\<Sum>c\<leftarrow>[0..<n]. decay * state ! (r * n + c) * key ! c)) * beta"

definition entry_after :: "'f::comm_ring_1 list \<Rightarrow> 'f list \<Rightarrow> 'f list \<Rightarrow> 'f \<Rightarrow> 'f \<Rightarrow> nat \<Rightarrow> nat \<Rightarrow> nat \<Rightarrow> 'f" where
  "entry_after state key vals decay beta n r c =
     decay * state ! (r * n + c) + delta_of state key vals decay beta n r * key ! c"

lemma gdn_row_spec:
  fixes row :: "'f::comm_ring_1 list"
  assumes "read = dot_vector \<or> read = dot_plain" and "length row = n" and "n \<le> length key" and "n \<le> length query"
    and delta_def: "delta = (v - (\<Sum>c\<leftarrow>[0..<n]. decay * row ! c * key ! c)) * beta"
  shows "gdn_row read n key query v decay beta scale row =
    (map (\<lambda>c. decay * row ! c + delta * key ! c) [0..<n],
     (\<Sum>c\<leftarrow>[0..<n]. (decay * row ! c + delta * key ! c) * query ! c) * scale)"
proof -
  let ?decayed = "map (\<lambda>s. s * decay) row"
  have sum: "read xs ys n = (\<Sum>c\<leftarrow>[0..<n]. xs ! c * ys ! c)" if "n \<le> length xs" "n \<le> length ys" for xs ys :: "'f list"
    using assms(1) dot_vector_plain [OF that] by (auto simp: product_sum_def)
  have "read ?decayed key n = (\<Sum>c\<leftarrow>[0..<n]. decay * row ! c * key ! c)"
    using assms(2,3) by (subst sum) (auto intro!: arg_cong [of _ _ sum_list] simp: ac_simps)
  then have d: "(v - read ?decayed key n) * beta = delta" by (simp add: delta_def)
  have moved: "map2 (\<lambda>s k. s + delta * k) ?decayed key = map (\<lambda>c. decay * row ! c + delta * key ! c) [0..<n]"
    by (rule nth_equalityI) (use assms(2,3) in \<open>auto simp: ac_simps\<close>)
  have "read (map (\<lambda>c. decay * row ! c + delta * key ! c) [0..<n]) query n =
      (\<Sum>c\<leftarrow>[0..<n]. (decay * row ! c + delta * key ! c) * query ! c)"
    using assms(4) by (subst sum) (auto intro!: arg_cong [of _ _ sum_list])
  then show ?thesis by (simp add: gdn_row_def d moved)
qed

lemma gdn_rows_spec:
  fixes state :: "'f::comm_ring_1 list"
  assumes "read = dot_vector \<or> read = dot_plain" and "n \<le> length key" and "n \<le> length query"
  shows "length vs * n = length state \<Longrightarrow> gdn_rows read n key query decay beta scale state vs =
    (concat (map (\<lambda>r. map (entry_after state key vs decay beta n r) [0..<n]) [0..<length vs]),
     map (\<lambda>r. (\<Sum>c\<leftarrow>[0..<n]. entry_after state key vs decay beta n r c * query ! c) * scale) [0..<length vs])"
proof (induction vs arbitrary: state)
  case (Cons v vs)
  let ?st = "drop n state"
  have len: "length (take n state) = n" and rest: "length vs * n = length ?st" using Cons.prems by auto
  have first: "entry_after state key (v # vs) decay beta n 0 c = decay * take n state ! c +
      (v - (\<Sum>c\<leftarrow>[0..<n]. decay * take n state ! c * key ! c)) * beta * key ! c" if "c < n" for c
  proof -
    have "(\<Sum>c\<leftarrow>[0..<n]. decay * state ! c * key ! c) = (\<Sum>c\<leftarrow>[0..<n]. decay * take n state ! c * key ! c)"
      by (rule arg_cong [of _ _ sum_list]) simp
    then show ?thesis using that by (simp add: entry_after_def delta_of_def)
  qed
  have later: "entry_after ?st key vs decay beta n r c = entry_after state key (v # vs) decay beta n (Suc r) c" for r c
  proof -
    have "n \<le> length state" using Cons.prems by simp
    then have "drop n state ! i = state ! (n + i)" for i by (rule nth_drop)
    then show ?thesis by (simp add: entry_after_def delta_of_def ac_simps)
  qed
  have "[0..<length (v # vs)] = 0 # map Suc [0..<length vs]" by (simp add: upt_conv_Cons map_Suc_upt del: upt_Suc)
  moreover have "(\<Sum>c\<leftarrow>[0..<n]. (decay * take n state ! c +
        (v - (\<Sum>c\<leftarrow>[0..<n]. decay * take n state ! c * key ! c)) * beta * key ! c) * query ! c) =
      (\<Sum>c\<leftarrow>[0..<n]. entry_after state key (v # vs) decay beta n 0 c * query ! c)"
    by (rule arg_cong [of _ _ sum_list], rule map_cong) (simp_all add: first)
  ultimately show ?case
    using gdn_row_spec [OF assms(1) len assms(2,3) refl, of v decay beta scale] Cons.IH [OF rest]
    by (simp add: later first comp_def cong: map_cong)
qed simp

subsection \<open>Properties\<close>

text \<open>
  C22: In exact arithmetic the step computes the delta rule, on either code path and for every head
  size: the state becomes the decayed state plus the outer product of \<open>delta\<close> and the key, where
  \<open>delta\<close> is the scaled error of reading the decayed state with the key, and the outputs are the new
  state applied to the query.
\<close>

theorem gdn_step_delta_rule:
  fixes state :: "'f::comm_ring_1 list"
  assumes "length state = n * n" and "length key = n" and "length vals = n" and "length query = n"
  shows "gdn_step avx2 state key vals query decay beta n scale =
    (concat (map (\<lambda>r. map (entry_after state key vals decay beta n r) [0..<n]) [0..<n]),
     map (\<lambda>r. (\<Sum>c\<leftarrow>[0..<n]. entry_after state key vals decay beta n r c * query ! c) * scale) [0..<n])"
  using gdn_rows_spec [of dot_vector n key query vals state] gdn_rows_spec [of dot_plain n key query vals state] assms
  by (simp add: gdn_step_def gdn_step_avx2_def gdn_step_scalar_def)

theorem gdn_step_delta_rule_witness:
  "gdn_step True [1, 2, 3, 4] [1, 0] [5, 6] [1, 1] 2 1 2 (1 :: int) = ([5, 4, 6, 8], [9, 14])"
  using gdn_step_delta_rule [of "[1, 2, 3, 4]" 2 "[1, 0]" "[5, 6]" "[1, 1]" True 2 1 "1 :: int"]
  by (simp add: entry_after_def delta_of_def upt_conv_Cons numeral_2_eq_2)

end
