(* ===== verification/Q8Dot.thy ===== *)
theory Q8Dot
  imports VectorLanes
begin

unbundle bit_operations_syntax

section \<open>The dot product of Q8 blocks\<close>

text \<open>
  Models \<open>load_u16\<close>, \<open>q8_dot_scalar\<close>, \<open>q8_dot_avx2\<close>, \<open>fortai_q8_dot\<close> and the row dequantisation of
  \<open>src/backend/cpu/fortai_q8_dot.c\<close>. A block of 32 numbers is 34 bytes: a half-precision scale, low
  byte first, and 32 signed bytes. Bytes and the integer lanes of the vector code are machine words,
  with the saturation and the wrap-around of the instructions; the floating point values are elements
  of a commutative ring, so that what the theorems say of them is exact arithmetic. \<open>half\<close>, the
  conversion of the scale, is an argument.
\<close>

type_synonym i8 = "8 word"
type_synonym i16 = "16 word"
type_synonym i32 = "32 word"

definition load_u16 :: "i8 list \<Rightarrow> nat \<Rightarrow> u16" where
  "load_u16 bytes offset = ucast (bytes ! offset) OR push_bit 8 (ucast (bytes ! (offset + 1)))"

subsection \<open>Scalar\<close>

definition block_products :: "i8 list \<Rightarrow> nat \<Rightarrow> i8 list \<Rightarrow> nat \<Rightarrow> i32" where
  "block_products weights offset quantized activation_offset =
     fold (\<lambda>i dot. dot + scast (weights ! (offset + 2 + i)) * scast (quantized ! (activation_offset + 2 + i))) [0..<32] 0"

definition q8_dot_scalar ::
    "(u16 \<Rightarrow> 'f::comm_ring_1) \<Rightarrow> i8 list \<Rightarrow> i8 list \<Rightarrow> 'f list \<Rightarrow> nat \<Rightarrow> nat \<Rightarrow> 'f" where
  "q8_dot_scalar half weights quantized scales row block_count =
     fold (\<lambda>block result.
         let offset = (row * block_count + block) * 34
         in result + half (load_u16 weights offset) * scales ! block *
              of_int (sint (block_products weights offset quantized (block * 34))))
       [0..<block_count] 0"

subsection \<open>Vector\<close>

definition sign_epi8 :: "i8 list \<Rightarrow> i8 list \<Rightarrow> i8 list" where
  "sign_epi8 a b = map2 (\<lambda>x y. if sint y < 0 then - x else if y = 0 then 0 else x) a b"

definition sat16 :: "int \<Rightarrow> i16" where
  "sat16 v = word_of_int (max (- 32768) (min 32767 v))"

text \<open>Unsigned by signed bytes, the sums of neighbours saturated.\<close>

definition maddubs_epi16 :: "i8 list \<Rightarrow> i8 list \<Rightarrow> i16 list" where
  "maddubs_epi16 a b =
     map (\<lambda>i. sat16 (uint (a ! (2 * i)) * sint (b ! (2 * i)) + uint (a ! (2 * i + 1)) * sint (b ! (2 * i + 1)))) [0..<16]"

definition madd_epi16 :: "i16 list \<Rightarrow> i16 list \<Rightarrow> i32 list" where
  "madd_epi16 a b =
     map (\<lambda>i. scast (a ! (2 * i)) * scast (b ! (2 * i)) + scast (a ! (2 * i + 1)) * scast (b ! (2 * i + 1))) [0..<8]"

definition block_pairs :: "i8 list \<Rightarrow> i8 list \<Rightarrow> i32 list" where
  "block_pairs weight activation =
     (let absolute_weight = sign_epi8 weight weight;
          signed_activation = sign_epi8 activation weight;
          products = maddubs_epi16 absolute_weight signed_activation
      in madd_epi16 products (replicate 16 1))"

definition add_lanes :: "'f::plus list \<Rightarrow> 'f" where
  "add_lanes a =
     (let s = add_ps (take 4 a) (drop 4 a)
      in (s ! 0 + s ! 2) + (s ! 1 + s ! 3))"

definition q8_dot_avx2 ::
    "(u16 \<Rightarrow> 'f::comm_ring_1) \<Rightarrow> i8 list \<Rightarrow> i8 list \<Rightarrow> 'f list \<Rightarrow> nat \<Rightarrow> nat \<Rightarrow> 'f" where
  "q8_dot_avx2 half weights quantized scales row block_count =
     (let row_start = row * block_count * 34;
          blocks = nat (sint (word_of_nat block_count :: i32))
      in add_lanes (fold (\<lambda>block accumulator.
             let offset = block * 34;
                 scale = half (load_u16 weights (row_start + offset)) * scales ! block;
                 pairs = block_pairs (slice (row_start + offset + 2) 32 weights) (slice (offset + 2) 32 quantized)
             in fmadd_ps (replicate 8 scale) (map (of_int \<circ> sint) pairs) accumulator)
           [0..<blocks] (replicate 8 0)))"

definition q8_dot ::
    "bool \<Rightarrow> (u16 \<Rightarrow> 'f::comm_ring_1) \<Rightarrow> i8 list \<Rightarrow> i8 list \<Rightarrow> 'f list \<Rightarrow> nat \<Rightarrow> nat \<Rightarrow> 'f" where
  "q8_dot avx2 half weights quantized scales row block_count =
     (if avx2 then q8_dot_avx2 half weights quantized scales row block_count
      else q8_dot_scalar half weights quantized scales row block_count)"

subsection \<open>Dequantisation of a row\<close>

definition dequantize_row_scalar :: "(u16 \<Rightarrow> 'f::comm_ring_1) \<Rightarrow> i8 list \<Rightarrow> nat \<Rightarrow> 'f list" where
  "dequantize_row_scalar half weights block_count =
     concat (map (\<lambda>block. let offset = block * 34; scale = half (load_u16 weights offset)
         in map (\<lambda>i. scale * of_int (sint (weights ! (offset + 2 + i)))) [0..<32]) [0..<block_count])"

definition dequantize_row_avx2 :: "(u16 \<Rightarrow> 'f::comm_ring_1) \<Rightarrow> i8 list \<Rightarrow> nat \<Rightarrow> 'f list" where
  "dequantize_row_avx2 half weights block_count =
     concat (map (\<lambda>block. let offset = block * 34; scale = replicate 8 (half (load_u16 weights offset))
         in concat (map (\<lambda>part. let q32 = map scast (slice (offset + 2 + part * 8) 8 weights) :: i32 list
              in map2 (*) scale (map (of_int \<circ> sint) q32)) [0..<4])) [0..<block_count])"

definition dequantize_row :: "bool \<Rightarrow> (u16 \<Rightarrow> 'f::comm_ring_1) \<Rightarrow> i8 list \<Rightarrow> nat \<Rightarrow> 'f list" where
  "dequantize_row avx2 half weights block_count =
     (if avx2 then dequantize_row_avx2 half weights block_count else dequantize_row_scalar half weights block_count)"

subsection \<open>The integer part is exact\<close>

lemma sint8_range: "- 128 \<le> sint (x :: i8)" "sint (x :: i8) \<le> 127"
  using sint_greater_eq [of x] sint_less [of x] by simp_all

lemma sint_of_range8: "- 128 \<le> k \<Longrightarrow> k < 128 \<Longrightarrow> sint (word_of_int k :: i8) = k"
  by (simp add: sint_sbintrunc' signed_take_bit_int_eq_self_iff)

lemma sint_of_range16: "- 32768 \<le> k \<Longrightarrow> k < 32768 \<Longrightarrow> sint (word_of_int k :: i16) = k"
  by (simp add: sint_sbintrunc' signed_take_bit_int_eq_self_iff)

lemma sint_of_range32: "- 2147483648 \<le> k \<Longrightarrow> k < 2147483648 \<Longrightarrow> sint (word_of_int k :: i32) = k"
  by (simp add: sint_sbintrunc' signed_take_bit_int_eq_self_iff)

lemma sint8_low: "sint (x :: i8) = - 128 \<Longrightarrow> x = - 128"
  by (rule signed_word_eqI) simp

lemma sat16_exact: "- 32768 \<le> v \<Longrightarrow> v \<le> 32767 \<Longrightarrow> sint (sat16 v) = v"
  by (simp add: sat16_def sint_of_range16)

lemma signed_product:
  fixes x y :: i8
  assumes "x \<noteq> - 128"
  shows "uint (if sint y < 0 then - y else if y = 0 then 0 else y) *
      sint (if sint y < 0 then - x else if y = 0 then 0 else x) = sint y * sint x"
proof (cases "sint y < 0")
  case True
  have "sint x \<noteq> - 128" using assms sint8_low by blast
  then have x: "sint (- x) = - sint x"
    using sint8_range [of x] sint_of_range8 [of "- sint x"] by (simp add: wi_hom_neg)
  have "uint (- y) = uint (word_of_int (- sint y) :: i8)" by (simp add: wi_hom_neg)
  also have "\<dots> = - sint y mod 256" by (simp only: uint_word_of_int) simp
  finally have "uint (- y) = - sint y mod 256" .
  then have "uint (- y) = - sint y" using sint8_range [of y] True by simp
  with x True show ?thesis by simp
next
  case False
  have "uint y = sint y" using False sint8_range [of y] by (simp add: uint_sint take_bit_int_eq_self_iff)
  with False show ?thesis by simp
qed

lemma product_bound: "\<bar>sint (x :: i8) * sint (y :: i8)\<bar> \<le> 16384"
proof -
  have "\<bar>sint x\<bar> * \<bar>sint y\<bar> \<le> 128 * 128"
    using sint8_range [of x] sint8_range [of y] by (intro mult_mono) auto
  then show ?thesis by (simp add: abs_mult)
qed

lemma tight_product_bound: "x \<noteq> - 128 \<Longrightarrow> \<bar>sint (y :: i8) * sint (x :: i8)\<bar> \<le> 16256"
proof -
  assume "x \<noteq> - 128"
  then have "sint x \<noteq> - 128" using sint8_low by blast
  then have "\<bar>sint y\<bar> * \<bar>sint x\<bar> \<le> 128 * 127"
    using sint8_range [of x] sint8_range [of y] by (intro mult_mono) auto
  then show ?thesis by (simp add: abs_mult)
qed

definition block_dot :: "i8 list \<Rightarrow> i8 list \<Rightarrow> int" where
  "block_dot w a = (\<Sum>i\<leftarrow>[0..<32]. sint (w ! i) * sint (a ! i))"

text \<open>No sum of two products saturates and no sum of two of these wraps around.\<close>

lemma block_pairs_exact:
  assumes "length w = 32" and "length a = 32" and "- 128 \<notin> set a"
  shows "map sint (block_pairs w a) =
    map (\<lambda>k. \<Sum>i\<leftarrow>[4 * k..<4 * k + 4]. sint (w ! i) * sint (a ! i)) [0..<8]"
proof -
  let ?p = "\<lambda>i. sint (w ! i) * sint (a ! i)"
  let ?products = "maddubs_epi16 (sign_epi8 w w) (sign_epi8 a w)"
  have prod: "uint (sign_epi8 w w ! i) * sint (sign_epi8 a w ! i) = ?p i" if "i < 32" for i
  proof -
    have "a ! i \<noteq> - 128" using that assms(2,3) by (metis nth_mem)
    then show ?thesis using that assms(1,2) signed_product [of "a ! i" "w ! i"] by (simp add: sign_epi8_def)
  qed
  have bound: "\<bar>?p i\<bar> \<le> 16256" if "i < 32" for i
    using tight_product_bound [of "a ! i" "w ! i"] assms that by (metis nth_mem)
  have products: "sint (?products ! i) = ?p (2 * i) + ?p (2 * i + 1)" if "i < 16" for i
  proof -
    have "sint (sat16 (?p (2 * i) + ?p (2 * i + 1))) = ?p (2 * i) + ?p (2 * i + 1)"
      by (rule sat16_exact) (use bound [of "2 * i"] bound [of "2 * i + 1"] that in linarith)+
    then show ?thesis using that prod by (simp add: maddubs_epi16_def)
  qed
  have "sint (block_pairs w a ! k) = (\<Sum>i\<leftarrow>[4 * k..<4 * k + 4]. ?p i)" if k: "k < 8" for k
  proof -
    have "block_pairs w a ! k = word_of_int (sint (?products ! (2 * k)) + sint (?products ! (2 * k + 1)))"
      using k by (simp add: block_pairs_def madd_epi16_def Let_def)
    also have "\<dots> = word_of_int (?p (4 * k) + ?p (4 * k + 1) + ?p (4 * k + 2) + ?p (4 * k + 3))"
      using products [of "2 * k"] products [of "2 * k + 1"] k by (simp add: numeral_eq_Suc ac_simps)
    finally have e: "block_pairs w a ! k = word_of_int (?p (4 * k) + ?p (4 * k + 1) + ?p (4 * k + 2) + ?p (4 * k + 3))" .
    have "sint (block_pairs w a ! k) = ?p (4 * k) + ?p (4 * k + 1) + ?p (4 * k + 2) + ?p (4 * k + 3)"
      unfolding e by (rule sint_of_range32)
        (use bound [of "4 * k"] bound [of "4 * k + 1"] bound [of "4 * k + 2"] bound [of "4 * k + 3"] k in linarith)+
    moreover have "[4 * k..<4 * k + 4] = [4 * k, 4 * k + 1, 4 * k + 2, 4 * k + 3]" by (simp add: upt_conv_Cons numeral_eq_Suc)
    ultimately show ?thesis by (simp add: ac_simps)
  qed
  then show ?thesis by (intro nth_equalityI) (simp_all add: block_pairs_def madd_epi16_def Let_def)
qed

lemma block_pairs_sum:
  assumes "length w = 32" and "length a = 32" and "- 128 \<notin> set a"
  shows "sum_list (map sint (block_pairs w a)) = block_dot w a"
  unfolding block_pairs_exact [OF assms] block_dot_def
  by (simp add: upt_conv_Cons numeral_eq_Suc)

lemma sum_products_bound: "\<bar>\<Sum>i\<leftarrow>xs. sint (f i :: i8) * sint (g i :: i8)\<bar> \<le> int (length xs) * 16384"
proof (induction xs)
  case (Cons x xs)
  then show ?case using product_bound [of "f x" "g x"] by (simp add: algebra_simps)
qed simp

lemma fold_add_map: "fold (\<lambda>i acc. acc + h i) xs (d :: 'f::comm_monoid_add) = d + (\<Sum>i\<leftarrow>xs. h i)"
  by (induction xs arbitrary: d) (simp_all add: ac_simps)

lemma sum_list_scast:
  "(\<Sum>i\<leftarrow>xs. scast (f i :: i8) * scast (g i :: i8)) = (word_of_int (\<Sum>i\<leftarrow>xs. sint (f i) * sint (g i)) :: i32)"
  by (induction xs) simp_all

lemma block_products_exact:
  "sint (block_products weights offset quantized activation_offset) =
     (\<Sum>i\<leftarrow>[0..<32]. sint (weights ! (offset + 2 + i)) * sint (quantized ! (activation_offset + 2 + i)))"
proof -
  let ?p = "\<lambda>i. sint (weights ! (offset + 2 + i)) * sint (quantized ! (activation_offset + 2 + i))"
  have "block_products weights offset quantized activation_offset =
      (\<Sum>i\<leftarrow>[0..<32]. scast (weights ! (offset + 2 + i)) * scast (quantized ! (activation_offset + 2 + i)))"
    unfolding block_products_def by (simp only: fold_add_map add_0)
  also have "\<dots> = word_of_int (\<Sum>i\<leftarrow>[0..<32]. ?p i)" by (rule sum_list_scast)
  finally have *: "block_products weights offset quantized activation_offset = word_of_int (\<Sum>i\<leftarrow>[0..<32]. ?p i)" .
  have "\<bar>\<Sum>i\<leftarrow>[0..<32]. ?p i\<bar> \<le> 32 * 16384" using sum_products_bound [of _ _ "[0..<32]"] by simp
  then show ?thesis unfolding * by (intro sint_of_range32) linarith+
qed

subsection \<open>The dot product in exact arithmetic\<close>

definition block_term :: "(u16 \<Rightarrow> 'f::comm_ring_1) \<Rightarrow> i8 list \<Rightarrow> i8 list \<Rightarrow> 'f list \<Rightarrow> nat \<Rightarrow> nat \<Rightarrow> nat \<Rightarrow> 'f" where
  "block_term half weights quantized scales row block_count b =
     half (load_u16 weights ((row * block_count + b) * 34)) * scales ! b *
     of_int (\<Sum>i\<leftarrow>[0..<32]. sint (weights ! ((row * block_count + b) * 34 + 2 + i)) * sint (quantized ! (b * 34 + 2 + i)))"

lemma q8_dot_scalar_exact:
  "q8_dot_scalar half weights quantized scales row block_count =
     (\<Sum>b\<leftarrow>[0..<block_count]. block_term half weights quantized scales row block_count b)"
  unfolding q8_dot_scalar_def Let_def block_products_exact block_term_def by (simp only: fold_add_map add_0)

lemma add_lanes_total: "length (a :: 'f::comm_ring_1 list) = 8 \<Longrightarrow> add_lanes a = sum_list a"
  by (erule list8) (simp add: add_lanes_def add_ps_def ac_simps)

lemma sum_list_fmadd:
  fixes scale :: "'f::comm_ring_1"
  assumes "length ps = 8" and "length acc = 8"
  shows "sum_list (fmadd_ps (replicate 8 scale) ps acc) = sum_list acc + scale * sum_list ps"
proof -
  have "map2 (*) (replicate 8 scale) ps = map (\<lambda>p. scale * p) ps"
    using assms(1) by (intro nth_equalityI) simp_all
  then show ?thesis using assms by (simp add: fmadd_ps_def sum_list_map2_plus sum_list_const_mult add.commute)
qed

lemma sum_list_of_sint: "sum_list (map (of_int \<circ> sint) ps) = (of_int (sum_list (map sint ps)) :: 'f::comm_ring_1)"
  by (induction ps) simp_all

lemma length_block_pairs [simp]: "length (block_pairs w a) = 8"
  by (simp add: block_pairs_def madd_epi16_def Let_def)

lemma fold_lanes:
  fixes step :: "nat \<Rightarrow> 'f::comm_ring_1 list \<Rightarrow> 'f list"
  assumes "\<And>b acc. b \<in> set bs \<Longrightarrow> length acc = 8 \<Longrightarrow> length (step b acc) = 8 \<and> sum_list (step b acc) = sum_list acc + t b"
  shows "length acc = 8 \<Longrightarrow> length (fold step bs acc) = 8 \<and> sum_list (fold step bs acc) = sum_list acc + (\<Sum>b\<leftarrow>bs. t b)"
  using assms
proof (induction bs arbitrary: acc)
  case (Cons b bs)
  have "length (step b acc) = 8 \<and> sum_list (step b acc) = sum_list acc + t b" using Cons.prems by simp
  then show ?case using Cons.IH [of "step b acc"] Cons.prems(2) by (simp add: ac_simps)
qed simp

lemma q8_dot_avx2_exact:
  fixes half :: "u16 \<Rightarrow> 'f::comm_ring_1"
  assumes "block_count < 2 ^ 31" and "(row + 1) * block_count * 34 \<le> length weights"
    and "block_count * 34 \<le> length quantized"
    and "\<forall>b<block_count. - 128 \<notin> set (slice (b * 34 + 2) 32 quantized)"
  shows "q8_dot_avx2 half weights quantized scales row block_count =
    (\<Sum>b\<leftarrow>[0..<block_count]. block_term half weights quantized scales row block_count b)"
proof -
  let ?start = "row * block_count * 34"
  define lane_step where "lane_step = (\<lambda>block acc.
      fmadd_ps (replicate 8 (half (load_u16 weights (?start + block * 34)) * scales ! block))
        (map (of_int \<circ> sint) (block_pairs (slice (?start + block * 34 + 2) 32 weights) (slice (block * 34 + 2) 32 quantized))) acc)"
  have blocks: "nat (sint (word_of_nat block_count :: i32)) = block_count"
    using assms(1) sint_of_range32 [of "int block_count"] by simp
  have one: "length (lane_step b acc) = 8 \<and> sum_list (lane_step b acc) =
      sum_list acc + block_term half weights quantized scales row block_count b"
    if b: "b \<in> set [0..<block_count]" and acc: "length acc = 8" for b and acc :: "'f list"
  proof -
    let ?w = "slice (?start + b * 34 + 2) 32 weights" and ?a = "slice (b * 34 + 2) 32 quantized"
    have b': "b + 1 \<le> block_count" using b by simp
    then have "(b + 1) * 34 \<le> block_count * 34" by (rule mult_le_mono1)
    then have room: "b * 34 + 34 \<le> block_count * 34" by simp
    then have w: "?start + b * 34 + 34 \<le> length weights" and a: "b * 34 + 34 \<le> length quantized"
      using assms(2,3) by (simp_all add: algebra_simps)
    have wa: "length ?w = 32" "length ?a = 32" using w a by (simp_all add: slice_def)
    have ints: "sum_list (map sint (block_pairs ?w ?a)) = block_dot ?w ?a"
      using block_pairs_sum [OF wa] assms(4) b by simp
    have "block_dot ?w ?a = (\<Sum>i\<leftarrow>[0..<32]. sint (weights ! (?start + b * 34 + 2 + i)) * sint (quantized ! (b * 34 + 2 + i)))"
      unfolding block_dot_def by (rule arg_cong [of _ _ sum_list], rule map_cong) (use w a in \<open>simp_all add: slice_def\<close>)
    moreover have "(row * block_count + b) * 34 = ?start + b * 34" by (simp add: algebra_simps)
    ultimately have "half (load_u16 weights (?start + b * 34)) * scales ! b * of_int (block_dot ?w ?a) =
        block_term half weights quantized scales row block_count b" by (simp only: block_term_def)
    moreover have "sum_list (map (of_int \<circ> sint) (block_pairs ?w ?a)) = (of_int (block_dot ?w ?a) :: 'f)"
      unfolding ints [symmetric] by (rule sum_list_of_sint)
    ultimately show ?thesis using acc by (simp add: lane_step_def sum_list_fmadd)
  qed
  note total = fold_lanes [of "[0..<block_count]" lane_step, OF one, of "replicate 8 0"]
  have "q8_dot_avx2 half weights quantized scales row block_count = add_lanes (fold lane_step [0..<block_count] (replicate 8 0))"
    unfolding q8_dot_avx2_def Let_def blocks lane_step_def ..
  also have "\<dots> = sum_list (fold lane_step [0..<block_count] (replicate 8 0))" using total by (intro add_lanes_total) simp
  also have "\<dots> = (\<Sum>b\<leftarrow>[0..<block_count]. block_term half weights quantized scales row block_count b)"
    using total by (simp add: sum_list_replicate)
  finally show ?thesis .
qed

lemma dequantize_part:
  fixes scale :: "'f::comm_ring_1" and weights :: "i8 list"
  assumes "offset + 34 \<le> length weights" and "part < 4"
  shows "map2 (*) (replicate 8 scale) (map (of_int \<circ> sint) (map scast (slice (offset + 2 + part * 8) 8 weights) :: i32 list)) =
    map (\<lambda>i. scale * of_int (sint (weights ! (offset + 2 + (part * 8 + i))))) [0..<8]"
proof (rule nth_equalityI)
  have len: "length (slice (offset + 2 + part * 8) 8 weights) = 8" using assms by (simp add: slice_def)
  then show "length (map2 (*) (replicate 8 scale) (map (of_int \<circ> sint) (map scast (slice (offset + 2 + part * 8) 8 weights) :: i32 list))) =
      length (map (\<lambda>i. scale * of_int (sint (weights ! (offset + 2 + (part * 8 + i))))) [0..<8])" by simp
  fix i assume "i < length (map2 (*) (replicate 8 scale) (map (of_int \<circ> sint) (map scast (slice (offset + 2 + part * 8) 8 weights) :: i32 list)))"
  then have i: "i < 8" by simp
  have "sint (scast x :: i32) = sint x" for x :: i8 by (simp add: sint_up_scast is_up)
  then have wide: "(signed (scast x :: i32) :: 'f) = signed x" for x :: i8 by (metis of_int_sint)
  show "map2 (*) (replicate 8 scale) (map (of_int \<circ> sint) (map scast (slice (offset + 2 + part * 8) 8 weights) :: i32 list)) ! i =
      map (\<lambda>i. scale * of_int (sint (weights ! (offset + 2 + (part * 8 + i))))) [0..<8] ! i"
    using i len assms by (simp add: slice_def wide ac_simps)
qed

lemma concat_parts: "concat (map (\<lambda>part. map (\<lambda>i. g (part * 8 + i)) [0..<8]) [0..<4]) = map g [0..<(32::nat)]"
  by (simp add: upt_conv_Cons numeral_eq_Suc)

lemma q8_dot_block_terms:
  fixes half :: "u16 \<Rightarrow> 'f::comm_ring_1"
  assumes "block_count < 2 ^ 31" and "(row + 1) * block_count * 34 \<le> length weights"
    and "block_count * 34 \<le> length quantized"
    and "\<forall>b<block_count. - 128 \<notin> set (slice (b * 34 + 2) 32 quantized)"
  shows "q8_dot avx2 half weights quantized scales row block_count =
    (\<Sum>b\<leftarrow>[0..<block_count]. block_term half weights quantized scales row block_count b)"
  using q8_dot_avx2_exact [OF assms, of half scales] q8_dot_scalar_exact [of half weights quantized scales row block_count]
  unfolding q8_dot_def by simp

subsection \<open>Properties\<close>

text \<open>
  C19: The vector and the scalar dot product of a row compute the same sum in exact arithmetic: the
  sign trick, the saturating 16-bit products and the wrapping sums lose nothing for any weights, as
  long as no activation byte is -128, which the quantizer never writes.
\<close>

theorem q8_dot_exact:
  fixes half :: "u16 \<Rightarrow> 'f::comm_ring_1"
  assumes "block_count < 2 ^ 31" and "(row + 1) * block_count * 34 \<le> length weights"
    and "block_count * 34 \<le> length quantized"
    and "\<forall>b<block_count. - 128 \<notin> set (slice (b * 34 + 2) 32 quantized)"
  shows "q8_dot avx2 half weights quantized scales row block_count =
    (\<Sum>b\<leftarrow>[0..<block_count]. half (load_u16 weights ((row * block_count + b) * 34)) * scales ! b *
       of_int (\<Sum>i\<leftarrow>[0..<32]. sint (weights ! ((row * block_count + b) * 34 + 2 + i)) * sint (quantized ! (b * 34 + 2 + i))))"
  using q8_dot_block_terms [OF assms, of avx2 half scales] unfolding block_term_def .

theorem q8_dot_exact_witness:
  "q8_dot True (\<lambda>_. 5) (replicate 34 (- 128)) (replicate 34 127) [2 :: int] 0 1 = - 5201920"
proof -
  have "\<forall>b<1. - 128 \<notin> set (slice (b * 34 + 2) 32 (replicate 34 (127 :: i8)))" by (simp add: slice_def)
  from q8_dot_exact [of 1 0 "replicate 34 (- 128)" "replicate 34 127", OF _ _ _ this, of True "\<lambda>_. 5" "[2 :: int]"]
  show ?thesis by (simp add: upt_conv_Cons)
qed

lemma dequantize_paths_agree:
  fixes half :: "u16 \<Rightarrow> 'f::comm_ring_1"
  assumes "block_count * 34 \<le> length weights"
  shows "dequantize_row_avx2 half weights block_count = dequantize_row_scalar half weights block_count"
proof -
  have "concat (map (\<lambda>part. map2 (*) (replicate 8 scale)
        (map (of_int \<circ> sint) (map scast (slice (b * 34 + 2 + part * 8) 8 weights) :: i32 list))) [0..<4]) =
      map (\<lambda>i. scale * of_int (sint (weights ! (b * 34 + 2 + i)))) [0..<32]" if "b < block_count" for b and scale :: 'f
  proof -
    have "b + 1 \<le> block_count" using that by simp
    then have "(b + 1) * 34 \<le> block_count * 34" by (rule mult_le_mono1)
    then have "b * 34 + 34 \<le> length weights" using assms by simp
    note part = dequantize_part [OF this]
    have "map (\<lambda>part. map2 (*) (replicate 8 scale)
          (map (of_int \<circ> sint) (map scast (slice (b * 34 + 2 + part * 8) 8 weights) :: i32 list))) [0..<4] =
        map (\<lambda>part. map (\<lambda>i. scale * of_int (sint (weights ! (b * 34 + 2 + (part * 8 + i))))) [0..<8]) [0..<4]"
      by (intro map_cong refl part) simp
    then show ?thesis by (simp only: concat_parts [where g = "\<lambda>i. scale * of_int (sint (weights ! (b * 34 + 2 + i)))"])
  qed
  then show ?thesis
    unfolding dequantize_row_avx2_def dequantize_row_scalar_def Let_def
    by (intro arg_cong [of _ _ concat] map_cong) simp_all
qed

text \<open>
  Dequantising a row of \<open>n\<close> blocks yields \<open>32 n\<close> numbers on either path, and number \<open>k\<close> is the scale
  of block \<open>k div 32\<close> times the signed byte at its place in it.
\<close>

theorem dequantize_row_elements:
  fixes half :: "u16 \<Rightarrow> 'f::comm_ring_1"
  assumes "block_count * 34 \<le> length weights" and "k < 32 * block_count"
  shows "length (dequantize_row avx2 half weights block_count) = 32 * block_count \<and>
    dequantize_row avx2 half weights block_count ! k =
      half (load_u16 weights (k div 32 * 34)) * of_int (sint (weights ! (k div 32 * 34 + 2 + k mod 32)))"
proof -
  let ?block = "\<lambda>block. map (\<lambda>i. half (load_u16 weights (block * 34)) * of_int (sint (weights ! (block * 34 + 2 + i)))) [0..<32]"
  have row: "dequantize_row avx2 half weights block_count = concat (map ?block [0..<block_count])"
    using dequantize_paths_agree [OF assms(1), of half]
    by (simp add: dequantize_row_def dequantize_row_scalar_def Let_def del: upt_rec_numeral)
  have uniform: "\<forall>x\<in>set (map ?block [0..<block_count]). length x = 32" by (simp del: upt_rec_numeral)
  have "k div 32 < block_count" and "k mod 32 < 32" using assms(2) by (simp_all add: less_mult_imp_div_less)
  then show ?thesis
    using length_concat_uniform [OF uniform] nth_concat_uniform [OF uniform, of k] assms(2)
    unfolding row by (simp add: mult.commute del: upt_rec_numeral)
qed

theorem dequantize_row_elements_witness:
  "dequantize_row True (\<lambda>_. 3) (replicate 68 (- 2)) 2 ! 40 = (- 6 :: int)"
  using dequantize_row_elements [of 2 "replicate 68 (- 2)" 40 True "\<lambda>_. 3 :: int"] by simp

end
