(* ===== verification/Q8Quantize.thy ===== *)
theory Q8Quantize
  imports Q8Dot Complex_Main
begin

section \<open>Quantising activations to Q8 blocks\<close>

text \<open>
  Models \<open>q8_quantize_scalar\<close>, \<open>q8_quantize_avx2\<close> and \<open>fortai_q8_quantize\<close> of
  \<open>src/backend/cpu/fortai_q8_dot.c\<close>. The numbers are elements of an ordered field with a floor, so
  divisions and products are exact; what is modelled of the instructions is the order in which the
  vector code takes maxima, its rounding mode, the saturation of its packs and the lanes that the
  final permutation puts back. \<open>to_half\<close> and \<open>of_half\<close>, the conversions of the scale, are arguments.
\<close>

definition roundf :: "'f::floor_ceiling \<Rightarrow> int" where
  "roundf x = (if x \<ge> 0 then \<lfloor>x + 1 / 2\<rfloor> else - \<lfloor>- x + 1 / 2\<rfloor>)"

text \<open>Rounding to nearest, ties to even, as the vector code does it.\<close>

definition rint :: "'f::floor_ceiling \<Rightarrow> int" where
  "rint x =
     (let down = \<lfloor>x\<rfloor>; rest = x - of_int down
      in if rest < 1 / 2 then down else if rest > 1 / 2 then down + 1 else if even down then down else down + 1)"

definition scale_bytes :: "u16 \<Rightarrow> i8 list" where
  "scale_bytes bits = [ucast bits, ucast (drop_bit 8 bits)]"

subsection \<open>Scalar\<close>

definition max_magnitude :: "'f::floor_ceiling list \<Rightarrow> 'f" where
  "max_magnitude block = fold (\<lambda>x maximum. if \<bar>x\<bar> > maximum then \<bar>x\<bar> else maximum) block 0"

definition quantize_block_scalar :: "('f::floor_ceiling \<Rightarrow> u16) \<Rightarrow> 'f list \<Rightarrow> u16 \<times> i8 list" where
  "quantize_block_scalar to_half block =
     (let maximum = max_magnitude block;
          scale = maximum / 127;
          inverse = (if maximum \<noteq> 0 then 127 / maximum else 0)
      in (to_half scale, map (\<lambda>x. word_of_int (roundf (x * inverse))) block))"

subsection \<open>Vector\<close>

definition max_ps :: "'f::linorder list \<Rightarrow> 'f list \<Rightarrow> 'f list" where
  "max_ps a b = map2 (\<lambda>x y. if x > y then x else y) a b"

definition max_lane :: "'f::linorder list \<Rightarrow> 'f" where
  "max_lane maximum =
     (let max4 = max_ps (drop 4 maximum) (take 4 maximum);
          folded = max_ps max4 [max4 ! 2, max4 ! 3, max4 ! 2, max4 ! 3]
      in if folded ! 0 > folded ! 1 then folded ! 0 else folded ! 1)"

definition max_lanes :: "'f::floor_ceiling list \<Rightarrow> 'f" where
  "max_lanes block =
     (let v = (\<lambda>k. map abs (slice (8 * k) 8 block))
      in max_lane (max_ps (max_ps (max_ps (v 0) (v 1)) (v 2)) (v 3)))"

definition sat8 :: "int \<Rightarrow> i8" where
  "sat8 v = word_of_int (max (- 128) (min 127 v))"

definition packs_epi32 :: "i32 list \<Rightarrow> i32 list \<Rightarrow> i16 list" where
  "packs_epi32 a b =
     (let sat = map (sat16 \<circ> sint)
      in sat (take 4 a) @ sat (take 4 b) @ sat (drop 4 a) @ sat (drop 4 b))"

definition packs_epi16 :: "i16 list \<Rightarrow> i16 list \<Rightarrow> i8 list" where
  "packs_epi16 a b =
     (let sat = map (sat8 \<circ> sint)
      in sat (take 8 a) @ sat (take 8 b) @ sat (drop 8 a) @ sat (drop 8 b))"

definition permute_words :: "nat list \<Rightarrow> i8 list \<Rightarrow> i8 list" where
  "permute_words indices bytes = concat (map (\<lambda>k. slice (4 * k) 4 bytes) indices)"

definition pack_block :: "i32 list \<Rightarrow> i32 list \<Rightarrow> i32 list \<Rightarrow> i32 list \<Rightarrow> i8 list" where
  "pack_block q0 q1 q2 q3 =
     (let packed01 = packs_epi32 q0 q1; packed23 = packs_epi32 q2 q3
      in permute_words [0, 4, 1, 5, 2, 6, 3, 7] (packs_epi16 packed01 packed23))"

definition quantize_block_avx2 :: "('f::floor_ceiling \<Rightarrow> u16) \<Rightarrow> 'f list \<Rightarrow> u16 \<times> i8 list" where
  "quantize_block_avx2 to_half block =
     (let maximum = max_lanes block;
          scale = maximum / 127;
          inverse = (if maximum \<noteq> 0 then 127 / maximum else 0);
          q = (\<lambda>k. map (\<lambda>x. word_of_int (rint (x * inverse)) :: i32) (slice (8 * k) 8 block))
      in (to_half scale, pack_block (q 0) (q 1) (q 2) (q 3)))"

subsection \<open>All blocks\<close>

text \<open>The blocks written, 34 bytes each, and their scales; nothing is written for other lengths.\<close>

definition quantize_block :: "bool \<Rightarrow> ('f::floor_ceiling \<Rightarrow> u16) \<Rightarrow> 'f list \<Rightarrow> u16 \<times> i8 list" where
  "quantize_block avx2 to_half block =
     (if avx2 then quantize_block_avx2 to_half block else quantize_block_scalar to_half block)"

definition q8_quantize ::
    "bool \<Rightarrow> ('f::floor_ceiling \<Rightarrow> u16) \<Rightarrow> (u16 \<Rightarrow> 'f) \<Rightarrow> 'f list \<Rightarrow> (i8 list \<times> 'f list) option" where
  "q8_quantize avx2 to_half of_half input =
     (if length input = 0 \<or> length input mod 32 \<noteq> 0 then None
      else let blocks = map (\<lambda>b. quantize_block avx2 to_half (slice (32 * b) 32 input)) [0..<length input div 32]
           in Some (concat (map (\<lambda>(bits, q). scale_bytes bits @ q) blocks), map (of_half \<circ> fst) blocks))"

subsection \<open>The packs and the permutation\<close>

lemma pack_block_order:
  assumes "length q0 = 8" and "length q1 = 8" and "length q2 = 8" and "length q3 = 8"
  shows "pack_block q0 q1 q2 q3 = map (\<lambda>q. sat8 (sint (sat16 (sint q)))) (q0 @ q1 @ q2 @ q3)"
proof -
  obtain a0 a1 a2 a3 a4 a5 a6 a7 where a: "q0 = [a0, a1, a2, a3, a4, a5, a6, a7]" using list8 [OF assms(1)] .
  obtain b0 b1 b2 b3 b4 b5 b6 b7 where b: "q1 = [b0, b1, b2, b3, b4, b5, b6, b7]" using list8 [OF assms(2)] .
  obtain c0 c1 c2 c3 c4 c5 c6 c7 where c: "q2 = [c0, c1, c2, c3, c4, c5, c6, c7]" using list8 [OF assms(3)] .
  obtain d0 d1 d2 d3 d4 d5 d6 d7 where d: "q3 = [d0, d1, d2, d3, d4, d5, d6, d7]" using list8 [OF assms(4)] .
  show ?thesis
    by (simp add: pack_block_def packs_epi32_def packs_epi16_def permute_words_def slice_def a b c d Let_def)
qed

lemma sat8_small: "- 128 \<le> k \<Longrightarrow> k \<le> 127 \<Longrightarrow> sat8 (sint (sat16 (sint (word_of_int k :: i32)))) = word_of_int k"
proof -
  assume k: "- 128 \<le> k" "k \<le> 127"
  have "sint (word_of_int k :: i32) = k" by (rule sint_of_range32) (use k in linarith)+
  moreover have "sint (sat16 k) = k" by (rule sat16_exact) (use k in linarith)+
  ultimately show ?thesis using k by (simp add: sat8_def)
qed

subsection \<open>The largest magnitude\<close>

lemma max_ps_max: "max_ps a b = map2 max a b"
  by (auto simp: max_ps_def max_def intro!: map_cong)

lemma max_magnitude_Max: "fold (\<lambda>x maximum. if \<bar>x\<bar> > maximum then \<bar>x\<bar> else maximum) block m = Max (insert m (abs ` set block))"
  for m :: "'f::floor_ceiling"
proof (induction block arbitrary: m)
  case (Cons x block)
  have "fold (\<lambda>x maximum. if \<bar>x\<bar> > maximum then \<bar>x\<bar> else maximum) (x # block) m = Max (insert (max m \<bar>x\<bar>) (abs ` set block))"
    using Cons by (simp add: max_def)
  also have "\<dots> = Max (insert m (abs ` set (x # block)))"
    by (cases "block = []") (simp_all add: ac_simps)
  finally show ?case .
qed simp

lemma Max_map2:
  fixes a :: "'f::linorder list"
  assumes "length a = length b" and "a \<noteq> []"
  shows "Max (set (map2 max a b)) = max (Max (set a)) (Max (set b))"
  using assms
proof (induction a b rule: list_induct2)
  case (Cons x a y b)
  show ?case
  proof (cases "a = []")
    case False
    with Cons.hyps have "b \<noteq> []" by auto
    with False Cons show ?thesis by (simp add: ac_simps)
  qed (use Cons.hyps in simp)
qed simp

lemma list32:
  assumes "length xs = 32"
  shows "xs = slice 0 8 xs @ slice 8 8 xs @ slice 16 8 xs @ slice 24 8 xs"
proof -
  have "slice 24 8 xs = drop 24 xs" using assms by (simp add: slice_def)
  moreover have "xs = slice 0 8 xs @ drop 8 xs" by (simp add: slice_def)
  moreover have "drop 8 xs = slice 8 8 xs @ drop 16 xs"
    using append_take_drop_id [of 8 "drop 8 xs"] by (simp add: slice_def)
  moreover have "drop 16 xs = slice 16 8 xs @ drop 24 xs"
    using append_take_drop_id [of 8 "drop 16 xs"] by (simp add: slice_def)
  ultimately show ?thesis by metis
qed

lemma if_max: "(if y < x then x else y) = max x y" for x y :: "'a::linorder"
  by (auto simp: max_def)

lemma map_slices:
  assumes "length xs = 32"
  shows "map f (slice 0 8 xs) @ map f (slice 8 8 xs) @ map f (slice 16 8 xs) @ map f (slice 24 8 xs) = map f xs"
  using arg_cong [OF list32 [OF assms], of "map f"] by simp

lemma max_lane_Max:
  assumes "length m = 8"
  shows "max_lane m = Max (set m)"
proof -
  obtain a0 a1 a2 a3 a4 a5 a6 a7 where m: "m = [a0, a1, a2, a3, a4, a5, a6, a7]" using list8 [OF assms] .
  define max4 where "max4 = max_ps (drop 4 m) (take 4 m)"
  have max4: "max4 = [max a4 a0, max a5 a1, max a6 a2, max a7 a3]" by (simp add: max4_def m max_ps_max)
  have "max_ps max4 [max4 ! 2, max4 ! 3, max4 ! 2, max4 ! 3] ! 0 = max (max a4 a0) (max a6 a2)"
    and "max_ps max4 [max4 ! 2, max4 ! 3, max4 ! 2, max4 ! 3] ! 1 = max (max a5 a1) (max a7 a3)"
    by (simp_all add: max4 max_ps_max)
  then have "max_lane m = max (max (max a4 a0) (max a6 a2)) (max (max a5 a1) (max a7 a3))"
    unfolding max_lane_def Let_def max4_def [symmetric] if_max by (simp only:)
  also have "\<dots> = Max (set m)"
    by (simp only: m list.set Max_insert finite.intros Max_singleton ac_simps insert_not_empty not_False_eq_True)
  finally show ?thesis .
qed

lemma max_lanes_Max:
  assumes "length block = 32"
  shows "max_lanes block = Max (abs ` set block)"
proof -
  let ?v = "\<lambda>i. map abs (slice i 8 block)"
  have len: "length (?v 0) = 8" "length (?v 8) = 8" "length (?v 16) = 8" "length (?v 24) = 8"
    using assms by (simp_all add: slice_def)
  then have ne: "?v 0 \<noteq> []" "?v 8 \<noteq> []" "?v 16 \<noteq> []" "?v 24 \<noteq> []" by (metis length_0_conv zero_neq_numeral)+
  define m1 where "m1 = max_ps (?v 0) (?v 8)"
  define m2 where "m2 = max_ps m1 (?v 16)"
  define m where "m = max_ps m2 (?v 24)"
  have m1: "length m1 = 8" and m2: "length m2 = 8" and m8: "length m = 8"
    using len by (simp_all add: m1_def m2_def m_def max_ps_max)
  have "Max (set m1) = max (Max (set (?v 0))) (Max (set (?v 8)))"
    unfolding m1_def max_ps_max by (rule Max_map2) (use len ne in simp_all)
  moreover have "m1 \<noteq> []" and "m2 \<noteq> []" using m1 m2 by auto
  moreover have "Max (set m2) = max (Max (set m1)) (Max (set (?v 16)))"
    unfolding m2_def max_ps_max by (rule Max_map2) (use len m1 \<open>m1 \<noteq> []\<close> in simp_all)
  moreover have "Max (set m) = max (Max (set m2)) (Max (set (?v 24)))"
    unfolding m_def max_ps_max by (rule Max_map2) (use len m2 \<open>m2 \<noteq> []\<close> in simp_all)
  ultimately have "Max (set m) = max (max (max (Max (set (?v 0))) (Max (set (?v 8)))) (Max (set (?v 16)))) (Max (set (?v 24)))"
    by simp
  also have "\<dots> = Max (set (?v 0) \<union> set (?v 8) \<union> set (?v 16) \<union> set (?v 24))"
    using ne by (simp add: Max_Un del: set_map)
  also have "set (?v 0) \<union> set (?v 8) \<union> set (?v 16) \<union> set (?v 24) = abs ` set block"
    by (subst (5) list32 [OF assms]) auto
  finally show ?thesis
    using max_lane_Max [OF m8] by (simp add: max_lanes_def Let_def flip: m1_def m2_def m_def)
qed

lemma max_lanes_magnitude:
  assumes "length block = 32"
  shows "max_lanes block = max_magnitude block"
proof -
  have "0 \<le> Max (abs ` set block)"
    using assms by (subst Max_ge_iff) (auto intro: exI [of _ "block ! 0"])
  then show ?thesis
    unfolding max_lanes_Max [OF assms] max_magnitude_def max_magnitude_Max using assms by (subst Max_insert) auto
qed

subsection \<open>Rounding\<close>

lemma roundf_error: "\<bar>of_int (roundf x) - x\<bar> \<le> 1 / 2" for x :: "'f::floor_ceiling"
proof (cases "x \<ge> 0")
  case True
  then show ?thesis
    using floor_correct [of "x + 1 / 2"] unfolding roundf_def abs_le_iff by simp linarith
next
  case False
  then show ?thesis
    using floor_correct [of "- x + 1 / 2"] unfolding roundf_def abs_le_iff by simp linarith
qed

lemma rint_error: "\<bar>of_int (rint x) - x\<bar> \<le> 1 / 2" for x :: "'f::floor_ceiling"
  using floor_correct [of x] by (auto simp: rint_def Let_def abs_le_iff algebra_simps)

lemma nearest_bound:
  fixes x :: "'f::floor_ceiling"
  assumes "\<bar>of_int r - x\<bar> \<le> 1 / 2" and "\<bar>x\<bar> \<le> of_int n"
  shows "- n \<le> r" and "r \<le> n"
proof -
  have "of_int r < (of_int (n + 1) :: 'f)" and "of_int (- n - 1) < (of_int r :: 'f)"
    using assms unfolding abs_le_iff by simp_all
  then show "- n \<le> r" and "r \<le> n" by (simp_all only: of_int_less_iff)
qed

lemma scaled_error:
  fixes r y s x :: "'f::floor_ceiling"
  assumes "\<bar>r - y\<bar> \<le> 1 / 2" and "0 \<le> s" and "y * s = x"
  shows "\<bar>r * s - x\<bar> \<le> s / 2"
proof -
  have "\<bar>r * s - x\<bar> = \<bar>r - y\<bar> * s" using assms(2,3) by (simp add: abs_mult_pos left_diff_distrib)
  also have "\<dots> \<le> 1 / 2 * s" using assms(1,2) by (rule mult_right_mono)
  finally show ?thesis by simp
qed

lemma nearest_unique:
  fixes x :: "'f::floor_ceiling"
  assumes "\<bar>of_int r - x\<bar> \<le> 1 / 2" and "\<bar>of_int s - x\<bar> \<le> 1 / 2" and "x - of_int \<lfloor>x\<rfloor> \<noteq> 1 / 2"
  shows "r = s"
proof (rule ccontr)
  assume "r \<noteq> s"
  then consider "r < s" | "s < r" by linarith
  then obtain k :: int where "x = of_int k + 1 / 2"
  proof cases
    case 1
    then have "(of_int r + 1 :: 'f) \<le> of_int s" by (metis of_int_1 of_int_add of_int_le_iff zless_imp_add1_zle)
    then have "x = of_int r + 1 / 2" using assms(1,2) unfolding abs_le_iff by linarith
    then show ?thesis by (rule that)
  next
    case 2
    then have "(of_int s + 1 :: 'f) \<le> of_int r" by (metis of_int_1 of_int_add of_int_le_iff zless_imp_add1_zle)
    then have "x = of_int s + 1 / 2" using assms(1,2) unfolding abs_le_iff by linarith
    then show ?thesis by (rule that)
  qed
  moreover have "\<lfloor>of_int k + 1 / 2 :: 'f\<rfloor> = k" by (rule floor_unique) simp_all
  ultimately show False using assms(3) by simp
qed

subsection \<open>What is written\<close>

definition rounded :: "bool \<Rightarrow> 'f::floor_ceiling \<Rightarrow> int" where
  "rounded avx2 x = (if avx2 then rint x else roundf x)"

definition inverse_scale :: "'f::floor_ceiling list \<Rightarrow> 'f" where
  "inverse_scale block = (if max_magnitude block \<noteq> 0 then 127 / max_magnitude block else 0)"

lemma rounded_error: "\<bar>of_int (rounded avx2 x) - x\<bar> \<le> 1 / 2"
  by (simp only: rounded_def rint_error roundf_error split: if_split) simp

lemma magnitude_bound: "x \<in> set block \<Longrightarrow> \<bar>x\<bar> \<le> max_magnitude block"
  unfolding max_magnitude_def max_magnitude_Max by (rule Max_ge) auto

lemma scaled_bound:
  fixes x :: "'f::floor_ceiling"
  assumes "x \<in> set block"
  shows "\<bar>x * inverse_scale block\<bar> \<le> 127"
proof (cases "max_magnitude block = 0")
  case False
  moreover have "\<bar>x\<bar> \<le> max_magnitude block" by (rule magnitude_bound [OF assms])
  moreover have "0 \<le> \<bar>x\<bar>" by simp
  ultimately show ?thesis
    by (simp add: inverse_scale_def abs_mult abs_divide pos_divide_le_eq)
qed (simp add: inverse_scale_def)

lemma rounded_bound:
  assumes "x \<in> set block"
  shows "- 127 \<le> rounded avx2 (x * inverse_scale block)" and "rounded avx2 (x * inverse_scale block) \<le> 127"
  using nearest_bound [OF rounded_error, of "x * inverse_scale block" 127 avx2] scaled_bound [OF assms] by simp_all

text \<open>Both paths write the scale and the rounded numbers, in order and without saturation.\<close>

lemma quantize_block_bytes:
  assumes "length block = 32"
  shows "quantize_block avx2 to_half block =
    (to_half (max_magnitude block / 127), map (\<lambda>x. word_of_int (rounded avx2 (x * inverse_scale block))) block)"
proof (cases avx2)
  case True
  let ?q = "\<lambda>i. map (\<lambda>x. word_of_int (rint (x * inverse_scale block)) :: i32) (slice i 8 block)"
  have len: "length (?q 0) = 8" "length (?q 8) = 8" "length (?q 16) = 8" "length (?q 24) = 8"
    using assms by (simp_all add: slice_def)
  have byte: "sat8 (sint (sat16 (sint (word_of_int (rint (x * inverse_scale block)) :: i32)))) =
      word_of_int (rint (x * inverse_scale block))" if "x \<in> set block" for x
    using rounded_bound [OF that, of True] by (intro sat8_small) (simp_all add: rounded_def)
  have "pack_block (?q 0) (?q 8) (?q 16) (?q 24) =
      map (\<lambda>q. sat8 (sint (sat16 (sint q)))) (map (\<lambda>x. word_of_int (rint (x * inverse_scale block)) :: i32) block)"
    unfolding pack_block_order [OF len] map_append by (simp only: map_map map_slices [OF assms])
  also have "\<dots> = map (\<lambda>x. word_of_int (rint (x * inverse_scale block))) block"
    using byte by simp
  finally show ?thesis using True
    by (simp add: quantize_block_def quantize_block_avx2_def max_lanes_magnitude [OF assms] rounded_def inverse_scale_def Let_def)
qed (simp add: quantize_block_def quantize_block_scalar_def rounded_def inverse_scale_def Let_def)

lemma quantized_range:
  assumes "length block = 32"
  shows "- 128 \<notin> set (snd (quantize_block avx2 to_half block))"
proof
  assume "- 128 \<in> set (snd (quantize_block avx2 to_half block))"
  then obtain x where x: "x \<in> set block" "(- 128 :: i8) = word_of_int (rounded avx2 (x * inverse_scale block))"
    by (auto simp: quantize_block_bytes [OF assms])
  have "sint (word_of_int (rounded avx2 (x * inverse_scale block)) :: i8) = rounded avx2 (x * inverse_scale block)"
    by (rule sint_of_range8) (use rounded_bound [OF x(1), of avx2] in linarith)+
  with rounded_bound [OF x(1), of avx2] show False unfolding x(2) [symmetric] by simp
qed

lemma quantized_sint:
  assumes "length block = 32" and "i < 32"
  shows "sint (snd (quantize_block avx2 to_half block) ! i) = rounded avx2 (block ! i * inverse_scale block)"
  unfolding quantize_block_bytes [OF assms(1)]
  using rounded_bound [of "block ! i" block avx2] assms by (simp add: sint_of_range8)

subsection \<open>Properties\<close>

text \<open>
  C20: Quantising a block of 32 numbers keeps the scale's bits and writes 32 bytes between -127 and
  127, and in exact arithmetic each byte times the block's scale, the largest magnitude over 127, is
  within half a scale of the number it stands for, on the scalar and on the vector path.
\<close>

theorem quantize_error_bound:
  fixes block :: "'f::floor_ceiling list"
  assumes "length block = 32" and "i < 32" and "quantize_block avx2 to_half block = (bits, q)"
  shows "bits = to_half (Max (abs ` set block) / 127) \<and> length q = 32 \<and>
    - 127 \<le> sint (q ! i) \<and> sint (q ! i) \<le> 127 \<and>
    \<bar>of_int (sint (q ! i)) * (Max (abs ` set block) / 127) - block ! i\<bar> \<le> Max (abs ` set block) / 127 / 2"
proof -
  let ?m = "max_magnitude block" and ?s = "inverse_scale block"
  have m: "?m = Max (abs ` set block)"
    using max_lanes_magnitude [OF assms(1)] max_lanes_Max [OF assms(1)] by simp
  have x: "block ! i \<in> set block" using assms(1,2) by simp
  have q: "sint (q ! i) = rounded avx2 (block ! i * ?s)" "length q = 32" "bits = to_half (?m / 127)"
    using quantized_sint [OF assms(1,2), of avx2 to_half] quantize_block_bytes [OF assms(1), of avx2 to_half] assms by simp_all
  have "\<bar>of_int (rounded avx2 (block ! i * ?s)) * (?m / 127) - block ! i\<bar> \<le> ?m / 127 / 2"
  proof (cases "?m = 0")
    case True
    then have "block ! i = 0" using magnitude_bound [OF x] by simp
    with True show ?thesis by simp
  next
    case False
    then have pos: "0 < ?m" using magnitude_bound [OF x] by (metis abs_ge_zero order.trans order_le_less)
    show ?thesis
      using scaled_error [OF rounded_error, of "?m / 127" "block ! i * ?s" "block ! i" avx2] pos by (simp add: inverse_scale_def)
  qed
  then show ?thesis using q m rounded_bound [OF x, of avx2] by simp
qed

theorem quantize_error_bound_witness:
  "let (bits, q) = quantize_block True (\<lambda>_. 0) (replicate 31 254 @ [3 :: real])
   in q ! 31 = 2 \<and> \<bar>of_int (sint (q ! 31)) * 2 - 3\<bar> \<le> (1 :: real)"
proof -
  let ?b = "replicate 31 254 @ [3 :: real]"
  have l: "length ?b = 32" by simp
  have Max: "Max (abs ` set ?b) = 254" by (simp add: max_def)
  then have m: "max_magnitude ?b = 254" using max_lanes_magnitude [OF l] max_lanes_Max [OF l] by simp
  obtain bits q where e: "quantize_block True (\<lambda>_. 0) ?b = (bits, q)" by fastforce
  have "?b ! 31 = 3" by (simp add: nth_append)
  then have "\<bar>of_int (sint (q ! 31)) * 2 - 3\<bar> \<le> (1 :: real)"
    using quantize_error_bound [OF l _ e, of 31] unfolding Max by simp
  moreover have "q ! 31 = 2"
    using e quantize_block_bytes [OF l, of True "\<lambda>_. 0"]
    by (auto simp: nth_append rounded_def inverse_scale_def m rint_def)
  ultimately show ?thesis using e by simp
qed

text \<open>
  The scalar and the vector quantizer write the same block whenever no scaled number lies halfway
  between two integers.
\<close>

theorem quantize_paths_agree:
  fixes block :: "'f::floor_ceiling list"
  assumes "length block = 32"
    and "\<forall>x\<in>set block. let y = x * (127 / Max (abs ` set block)) in y - of_int \<lfloor>y\<rfloor> \<noteq> 1 / 2"
  shows "quantize_block_avx2 to_half block = quantize_block_scalar to_half block"
proof -
  have m: "max_magnitude block = Max (abs ` set block)"
    using max_lanes_magnitude [OF assms(1)] max_lanes_Max [OF assms(1)] by simp
  have "rint (x * inverse_scale block) = roundf (x * inverse_scale block)" if "x \<in> set block" for x
  proof (rule nearest_unique [OF rint_error roundf_error])
    show "x * inverse_scale block - of_int \<lfloor>x * inverse_scale block\<rfloor> \<noteq> 1 / 2"
      using assms(2) that by (auto simp: inverse_scale_def m Let_def)
  qed
  then show ?thesis
    using quantize_block_bytes [OF assms(1), of True to_half] quantize_block_bytes [OF assms(1), of False to_half]
    by (simp add: quantize_block_def rounded_def)
qed

theorem quantize_paths_agree_witness:
  "quantize_block_avx2 to_half (replicate 32 (127 :: real)) = quantize_block_scalar to_half (replicate 32 127)"
  by (rule quantize_paths_agree) simp_all

text \<open>
  On such a tie they do not: with a largest magnitude of 127, 1/2 becomes 1 in the scalar code,
  which rounds away from zero, and 0 in the vector code, which rounds to even.
\<close>

theorem quantize_tie_differs:
  "snd (quantize_block_scalar to_half (127 # 1 / 2 # replicate 30 (0 :: real))) = 127 # 1 # replicate 30 0 \<and>
   snd (quantize_block_avx2 to_half (127 # 1 / 2 # replicate 30 (0 :: real))) = 127 # 0 # replicate 30 0"
proof -
  let ?b = "127 # 1 / 2 # replicate 30 (0 :: real)"
  have l: "length ?b = 32" by simp
  have "max_magnitude ?b = Max (abs ` set ?b)"
    using max_lanes_magnitude [OF l] max_lanes_Max [OF l] by simp
  then have m: "inverse_scale ?b = 1" by (simp add: inverse_scale_def)
  show ?thesis
    using quantize_block_bytes [OF l, of True to_half] quantize_block_bytes [OF l, of False to_half]
    by (simp add: quantize_block_def rounded_def m rint_def roundf_def Let_def)
qed

lemma slice_slice: "i + n \<le> k \<Longrightarrow> slice i n (slice j k xs) = slice (j + i) n xs"
  by (simp add: slice_def take_drop min_def add.commute)

text \<open>The bytes of block \<open>b\<close> in what \<open>q8_quantize\<close> writes.\<close>

lemma quantized_blocks:
  assumes "length input = 32 * n" and "q8_quantize avx2 to_half of_half input = Some (bytes, scales)" and "b < n"
  shows "slice (b * 34 + 2) 32 bytes = snd (quantize_block avx2 to_half (slice (32 * b) 32 input))"
    and "length bytes = n * 34"
    and "scales ! b = of_half (fst (quantize_block avx2 to_half (slice (32 * b) 32 input)))"
proof -
  let ?q = "\<lambda>b. quantize_block avx2 to_half (slice (32 * b) 32 input)"
  let ?chunk = "\<lambda>b. scale_bytes (fst (?q b)) @ snd (?q b)"
  have bytes: "bytes = concat (map ?chunk [0..<n])" and scales: "scales = map (of_half \<circ> fst \<circ> ?q) [0..<n]"
    using assms(1,2) by (auto simp: q8_quantize_def Let_def comp_def case_prod_beta split: if_splits)
  have len: "length (slice (32 * b) 32 input) = 32" if "b < n" for b
    using assms(1) that by (simp add: slice_def)
  have uniform: "\<forall>x\<in>set (map ?chunk [0..<n]). length x = 34"
    using len by (auto simp: quantize_block_bytes scale_bytes_def)
  show "length bytes = n * 34" unfolding bytes length_concat_uniform [OF uniform] by simp
  have "slice (b * 34) 34 bytes = ?chunk b"
    unfolding bytes using slice_concat [OF uniform, of b] assms(3) by simp
  then have "slice 2 32 (slice (b * 34) 34 bytes) = snd (?q b)"
    using len [OF assms(3)] by (simp add: scale_bytes_def slice_def quantize_block_bytes)
  then show "slice (b * 34 + 2) 32 bytes = snd (?q b)" by (simp add: slice_slice)
  show "scales ! b = of_half (fst (?q b))" using assms(3) by (simp add: scales)
qed

text \<open>The dot product with what the quantizer writes.\<close>

lemma quantized_product:
  fixes input :: "'f::floor_ceiling list"
  assumes "length input = 32 * n" and "n < 2 ^ 31" and "(row + 1) * n * 34 \<le> length weights"
    and "q8_quantize avx2 to_half of_half input = Some (bytes, scales)"
  shows "q8_dot avx2' half weights bytes scales row n =
    (\<Sum>b\<leftarrow>[0..<n]. let block = slice (32 * b) 32 input; offset = (row * n + b) * 34
       in half (load_u16 weights offset) * of_half (to_half (max_magnitude block / 127)) *
          of_int (\<Sum>i\<leftarrow>[0..<32]. sint (weights ! (offset + 2 + i)) * rounded avx2 (block ! i * inverse_scale block)))"
proof -
  let ?block = "\<lambda>b. slice (32 * b) 32 input"
  have len: "length (?block b) = 32" if "b < n" for b using assms(1) that by (simp add: slice_def)
  note blocks = quantized_blocks [OF assms(1,4)]
  have "n * 34 \<le> length bytes" by (cases n) (use blocks(2) [of 0] in auto)
  moreover have "\<forall>b<n. - 128 \<notin> set (slice (b * 34 + 2) 32 bytes)"
    using blocks(1) quantized_range [OF len] by auto
  moreover have "sint (bytes ! (b * 34 + 2 + i)) = rounded avx2 (?block b ! i * inverse_scale (?block b))"
    if "b < n" "i < 32" for b i
  proof -
    have "bytes ! (b * 34 + 2 + i) = slice (b * 34 + 2) 32 bytes ! i"
      using that blocks(2) [OF that(1)] by (simp add: slice_def)
    then show ?thesis using blocks(1) [OF that(1)] quantized_sint [OF len [OF that(1)] that(2)] by simp
  qed
  moreover have "scales ! b = of_half (to_half (max_magnitude (?block b) / 127))" if "b < n" for b
    using blocks(3) [OF that] quantize_block_bytes [OF len [OF that]] by simp
  ultimately show ?thesis
    unfolding Let_def by (subst q8_dot_block_terms [OF assms(2,3)]) (auto simp: block_term_def intro!: arg_cong [where f = sum_list] map_cong)
qed

text \<open>
  C18: The dot product of a row with a quantised vector is, on every combination of scalar and vector
  paths, the sum over the blocks of the two scales times the exact integer sum of the weights times
  the rounded numbers: what the quantizer writes never triggers the overflow the vector dot product
  has for a byte of -128.
\<close>

theorem quantized_dot:
  fixes input :: "'f::floor_ceiling list"
  assumes "length input = 32 * n" and "n < 2 ^ 31" and "(row + 1) * n * 34 \<le> length weights"
    and "q8_quantize avx2 to_half of_half input = Some (bytes, scales)"
  shows "q8_dot avx2' half weights bytes scales row n =
    (\<Sum>b\<leftarrow>[0..<n]. let block = slice (32 * b) 32 input; offset = (row * n + b) * 34
       in half (load_u16 weights offset) * of_half (to_half (max_magnitude block / 127)) *
          of_int (\<Sum>i\<leftarrow>[0..<32]. sint (weights ! (offset + 2 + i)) * rounded avx2 (block ! i * inverse_scale block)))"
  by (rule quantized_product [OF assms])

theorem quantized_dot_witness:
  "\<exists>bytes scales. q8_quantize True (\<lambda>_. 0) (\<lambda>_. 1) (replicate 32 (127 :: real)) = Some (bytes, scales) \<and>
     q8_dot True (\<lambda>_. 2) (replicate 34 3) bytes scales 0 1 = 24384"
proof -
  let ?b = "replicate 32 (127 :: real)"
  have l: "length ?b = 32" by simp
  have m: "max_magnitude ?b = 127" using max_lanes_magnitude [OF l] max_lanes_Max [OF l] by simp
  have b: "slice 0 32 ?b = ?b" by (simp add: slice_def)
  obtain bytes scales where e: "q8_quantize True (\<lambda>_. 0) (\<lambda>_. 1) ?b = Some (bytes, scales)"
    by (auto simp: q8_quantize_def Let_def)
  have "(\<Sum>i\<leftarrow>[0..<32]. sint (replicate 34 (3 :: i8) ! (2 + i)) * rounded True (?b ! i * inverse_scale ?b)) =
      (\<Sum>i\<leftarrow>[0..<32]. 381)"
    by (intro arg_cong [where f = sum_list] map_cong) (simp_all add: rounded_def rint_def inverse_scale_def m)
  then have "(\<Sum>i\<leftarrow>[0..<32]. sint (replicate 34 (3 :: i8) ! (2 + i)) * rounded True (?b ! i * inverse_scale ?b)) = 12192"
    by (simp only: map_replicate_const length_upt sum_list_replicate)
  then have "q8_dot True (\<lambda>_. 2) (replicate 34 3) bytes scales 0 1 = (24384 :: real)"
    by (subst quantized_dot [of ?b 1 0 "replicate 34 3", OF _ _ _ e]) (simp_all add: b Let_def del: upt_rec_numeral)
  with e show ?thesis by blast
qed

end
