(* ===== verification/LaneUpdates.thy ===== *)
theory LaneUpdates
  imports VectorLanes Complex_Main
begin

section \<open>Arrays updated lane by lane\<close>

text \<open>
  The loops of \<open>src/backend/cpu/fortai_q8_dot.c\<close> that rewrite an array in place, in groups of eight
  lanes and one element at a time for what is left, and the two that are built on them alone,
  \<open>fortai_silu\<close> and \<open>fortai_silu_product\<close>. An array is a list, a store replaces a stretch of it. The
  operations on numbers are those of the element type; \<open>expf\<close> and \<open>expf_lanes\<close>, the exponential of
  the C library and the vector one, are arguments.
\<close>

definition store :: "nat \<Rightarrow> 'a list \<Rightarrow> 'a list \<Rightarrow> 'a list" where
  "store i lanes xs = take i xs @ lanes @ drop (i + length lanes) xs"

definition update_group :: "nat \<Rightarrow> ('a \<Rightarrow> 'b \<Rightarrow> 'a) \<Rightarrow> 'b list \<Rightarrow> nat \<Rightarrow> 'a list \<Rightarrow> 'a list" where
  "update_group groups f ys i xs =
     fold (\<lambda>j xs. store (i + 8 * j) (map2 f (slice (i + 8 * j) 8 xs) (slice (i + 8 * j) 8 ys)) xs) [0..<groups] xs"

function update_lanes :: "nat \<Rightarrow> ('a \<Rightarrow> 'b \<Rightarrow> 'a) \<Rightarrow> 'b list \<Rightarrow> nat \<Rightarrow> nat \<Rightarrow> 'a list \<Rightarrow> nat \<times> 'a list" where
  "update_lanes groups f ys i count xs =
     (if 0 < groups \<and> i + 8 * groups \<le> count
      then update_lanes groups f ys (i + 8 * groups) count (update_group groups f ys i xs)
      else (i, xs))"
  by pat_completeness auto
termination by (relation "measure (\<lambda>(groups, f, ys, i, count, xs). count - i)") auto

function update_each :: "('a \<Rightarrow> 'b \<Rightarrow> 'a) \<Rightarrow> 'b list \<Rightarrow> nat \<Rightarrow> nat \<Rightarrow> 'a list \<Rightarrow> 'a list" where
  "update_each f ys i count xs =
     (if i < count then update_each f ys (i + 1) count (xs[i := f (xs ! i) (ys ! i)]) else xs)"
  by pat_completeness auto
termination by (relation "measure (\<lambda>(f, ys, i, count, xs). count - i)") auto

declare update_lanes.simps [simp del] update_each.simps [simp del]

subsection \<open>SiLU\<close>

definition silu_of :: "('f::field \<Rightarrow> 'f) \<Rightarrow> 'f \<Rightarrow> 'f" where
  "silu_of e x = x / (1 + e (- x))"

definition silu_array_avx2 :: "('f::field \<Rightarrow> 'f) \<Rightarrow> ('f \<Rightarrow> 'f) \<Rightarrow> 'f list \<Rightarrow> nat \<Rightarrow> 'f list" where
  "silu_array_avx2 expf_lanes expf values count =
     (let (index, values) = update_lanes 1 (\<lambda>x _. silu_of expf_lanes x) values 0 count values
      in update_each (\<lambda>x _. silu_of expf x) values index count values)"

definition silu_array_scalar :: "('f::field \<Rightarrow> 'f) \<Rightarrow> 'f list \<Rightarrow> nat \<Rightarrow> 'f list" where
  "silu_array_scalar expf values count = update_each (\<lambda>x _. silu_of expf x) values 0 count values"

definition silu :: "bool \<Rightarrow> ('f::field \<Rightarrow> 'f) \<Rightarrow> ('f \<Rightarrow> 'f) \<Rightarrow> 'f list \<Rightarrow> nat \<Rightarrow> 'f list" where
  "silu avx2 expf_lanes expf values count =
     (if avx2 \<and> count \<ge> 8 then silu_array_avx2 expf_lanes expf values count
      else silu_array_scalar expf values count)"

definition silu_product_avx2 ::
    "('f::field \<Rightarrow> 'f) \<Rightarrow> ('f \<Rightarrow> 'f) \<Rightarrow> 'f list \<Rightarrow> 'f list \<Rightarrow> nat \<Rightarrow> 'f list" where
  "silu_product_avx2 expf_lanes expf left right count =
     (let (index, left) = update_lanes 1 (\<lambda>x y. silu_of expf_lanes x * y) right 0 count left
      in update_each (\<lambda>x y. silu_of expf x * y) right index count left)"

definition silu_product_scalar :: "('f::field \<Rightarrow> 'f) \<Rightarrow> 'f list \<Rightarrow> 'f list \<Rightarrow> nat \<Rightarrow> 'f list" where
  "silu_product_scalar expf left right count = update_each (\<lambda>x y. silu_of expf x * y) right 0 count left"

definition silu_product ::
    "bool \<Rightarrow> ('f::field \<Rightarrow> 'f) \<Rightarrow> ('f \<Rightarrow> 'f) \<Rightarrow> 'f list \<Rightarrow> 'f list \<Rightarrow> nat \<Rightarrow> 'f list" where
  "silu_product avx2 expf_lanes expf left right count =
     (if avx2 \<and> count \<ge> 8 then silu_product_avx2 expf_lanes expf left right count
      else silu_product_scalar expf left right count)"

subsection \<open>What the loops do\<close>

definition updated :: "('a \<Rightarrow> 'b \<Rightarrow> 'a) \<Rightarrow> 'b list \<Rightarrow> nat \<Rightarrow> nat \<Rightarrow> 'a list \<Rightarrow> 'a list" where
  "updated f ys i j xs = map (\<lambda>k. if i \<le> k \<and> k < j then f (xs ! k) (ys ! k) else xs ! k) [0..<length xs]"

lemma length_updated [simp]: "length (updated f ys i j xs) = length xs"
  by (simp add: updated_def)

lemma nth_updated: "k < length xs \<Longrightarrow> updated f ys i j xs ! k = (if i \<le> k \<and> k < j then f (xs ! k) (ys ! k) else xs ! k)"
  by (simp add: updated_def)

lemma updated_empty [simp]: "updated f ys i i xs = xs"
  by (rule nth_equalityI) (auto simp: nth_updated)

lemma updated_updated:
  assumes "i \<le> j" and "j \<le> k"
  shows "updated g ys j k (updated f ys i j xs) =
    map (\<lambda>m. if i \<le> m \<and> m < j then f (xs ! m) (ys ! m) else if j \<le> m \<and> m < k then g (xs ! m) (ys ! m) else xs ! m)
      [0..<length xs]"
  by (rule nth_equalityI) (use assms in \<open>auto simp: nth_updated\<close>)

lemma updated_trans: "i \<le> j \<Longrightarrow> j \<le> k \<Longrightarrow> updated f ys j k (updated f ys i j xs) = updated f ys i k xs"
  unfolding updated_updated by (auto simp: updated_def)

lemma nth_store:
  assumes "i + length lanes \<le> length xs" and "k < length xs"
  shows "store i lanes xs ! k = (if i \<le> k \<and> k < i + length lanes then lanes ! (k - i) else xs ! k)"
proof -
  consider "k < i" | "i \<le> k" "k < i + length lanes" "k - i < length lanes" | "i + length lanes \<le> k" "\<not> k - i < length lanes" by linarith
  then show ?thesis using assms by cases (simp_all add: store_def nth_append)
qed

lemma store_updated:
  assumes "i + n \<le> length xs" and "i + n \<le> length ys"
  shows "store i (map2 f (slice i n xs) (slice i n ys)) xs = updated f ys i (i + n) xs"
proof (rule nth_equalityI)
  have len: "length (map2 f (slice i n xs) (slice i n ys)) = n" using assms by (simp add: slice_def)
  show "length (store i (map2 f (slice i n xs) (slice i n ys)) xs) = length (updated f ys i (i + n) xs)"
    using assms len by (simp add: store_def)
  fix k assume "k < length (store i (map2 f (slice i n xs) (slice i n ys)) xs)"
  then have "k < length xs" using assms len by (simp add: store_def)
  then show "store i (map2 f (slice i n xs) (slice i n ys)) xs ! k = updated f ys i (i + n) xs ! k"
    using assms len by (auto simp: nth_store nth_updated slice_def)
qed

lemma update_group_updated:
  "i + 8 * groups \<le> length xs \<Longrightarrow> i + 8 * groups \<le> length ys \<Longrightarrow>
     update_group groups f ys i xs = updated f ys i (i + 8 * groups) xs"
proof (induction groups)
  case (Suc groups)
  have "update_group (Suc groups) f ys i xs =
      store (i + 8 * groups) (map2 f (slice (i + 8 * groups) 8 (update_group groups f ys i xs)) (slice (i + 8 * groups) 8 ys))
        (update_group groups f ys i xs)"
    by (simp add: update_group_def)
  also have "\<dots> = updated f ys (i + 8 * groups) (i + 8 * groups + 8) (updated f ys i (i + 8 * groups) xs)"
    using Suc by (subst store_updated) simp_all
  finally show ?case by (simp add: updated_trans ac_simps)
qed (simp add: update_group_def)

lemma update_lanes_updated:
  "count \<le> length xs \<Longrightarrow> count \<le> length ys \<Longrightarrow> i \<le> count \<Longrightarrow> 0 < groups \<Longrightarrow>
     update_lanes groups f ys i count xs =
       (count - (count - i) mod (8 * groups), updated f ys i (count - (count - i) mod (8 * groups)) xs)"
proof (induction groups f ys i count xs rule: update_lanes.induct)
  case (1 groups f ys i count xs)
  show ?case
  proof (cases "i + 8 * groups \<le> count")
    case True
    let ?next = "update_group groups f ys i xs"
    have n: "?next = updated f ys i (i + 8 * groups) xs" using True 1(2,3) by (intro update_group_updated) simp_all
    have m: "(count - (i + 8 * groups)) mod (8 * groups) = (count - i) mod (8 * groups)"
      using True le_mod_geq [of "8 * groups" "count - i"] by simp
    have "(count - i) mod (8 * groups) \<le> count - (i + 8 * groups)"
      using m by (metis mod_less_eq_dividend)
    then have le: "i + 8 * groups \<le> count - (count - i) mod (8 * groups)" using True by simp
    show ?thesis
      using 1(1) [OF _ _ 1(3)] True 1(2,5) le
      by (simp add: update_lanes.simps [of groups f ys i] n m updated_trans)
  next
    case False
    then show ?thesis using 1(4) by (simp add: update_lanes.simps [of groups f ys i])
  qed
qed

lemma update_each_updated:
  "count \<le> length xs \<Longrightarrow> i \<le> count \<Longrightarrow> update_each f ys i count xs = updated f ys i count xs"
proof (induction f ys i count xs rule: update_each.induct)
  case (1 f ys i count xs)
  show ?case
  proof (cases "i < count")
    case True
    have "xs[i := f (xs ! i) (ys ! i)] = updated f ys i (i + 1) xs"
      by (rule nth_equalityI) (use True 1(2) in \<open>auto simp: nth_updated nth_list_update\<close>)
    then show ?thesis using 1 True by (simp add: update_each.simps [of f ys i] updated_trans)
  next
    case False
    then have "i = count" using 1(3) by simp
    then show ?thesis by (simp add: update_each.simps [of f ys count])
  qed
qed

text \<open>The vector loop followed by the loop over the rest.\<close>

lemma lanes_then_each:
  assumes "count \<le> length xs" and "count \<le> length ys" and "0 < groups"
  shows "(let (i, xs') = update_lanes groups f ys 0 count xs in update_each g ys i count xs') =
    map (\<lambda>m. if m < count - count mod (8 * groups) then f (xs ! m) (ys ! m) else if m < count then g (xs ! m) (ys ! m) else xs ! m)
      [0..<length xs]"
  using assms by (auto simp: update_lanes_updated update_each_updated updated_updated)

lemma lanes_then_each_same:
  assumes "count \<le> length xs" and "count \<le> length ys" and "0 < groups"
  shows "(let (i, xs') = update_lanes groups f ys 0 count xs in update_each f ys i count xs') = update_each f ys 0 count xs"
  using assms by (auto simp: update_lanes_updated update_each_updated updated_trans)

subsection \<open>Properties\<close>

text \<open>
  \<open>fortai_silu_product\<close> replaces the first \<open>count\<close> numbers by \<open>x / (1 + e (-x)) * y\<close> and leaves the
  others, on either path; the vector exponential serves exactly the elements in whole groups of
  eight, and only when there is one.
\<close>

theorem silu_product_elements:
  assumes "count \<le> length left" and "count \<le> length right" and "i < length left"
  shows "silu_product avx2 expf_lanes expf left right count ! i =
    (if i < count
     then left ! i / (1 + (if avx2 \<and> i < count - count mod 8 then expf_lanes else expf) (- (left ! i))) * right ! i
     else left ! i)"
proof (cases "avx2 \<and> count \<ge> 8")
  case True
  moreover have "i < count - count mod 8 \<Longrightarrow> i < count" by linarith
  ultimately show ?thesis using assms
    by (auto simp: silu_product_def silu_product_avx2_def lanes_then_each silu_of_def)
next
  case False
  moreover have "count < 8 \<Longrightarrow> count - count mod 8 = 0" by simp
  ultimately show ?thesis using assms
    by (auto simp: silu_product_def silu_product_scalar_def update_each_updated nth_updated silu_of_def)
qed

theorem silu_product_elements_witness:
  "silu_product True (\<lambda>_. 1) (\<lambda>_. 3) (replicate 10 (8 :: real)) (replicate 10 2) 9 ! 8 = 4 \<and>
   silu_product True (\<lambda>_. 1) (\<lambda>_. 3) (replicate 10 (8 :: real)) (replicate 10 2) 9 ! 7 = 8"
  using silu_product_elements [of 9 "replicate 10 8" "replicate 10 2" 8 True "\<lambda>_. 1" "\<lambda>_. 3 :: real"]
    silu_product_elements [of 9 "replicate 10 8" "replicate 10 2" 7 True "\<lambda>_. 1" "\<lambda>_. 3 :: real"] by simp

lemma silu_as_product:
  assumes "count \<le> length values"
  shows "silu avx2 expf_lanes expf values count = silu_product avx2 expf_lanes expf values (replicate (length values) 1) count"
  by (rule nth_equalityI) (use assms in \<open>auto simp: silu_def silu_product_def silu_array_avx2_def silu_product_avx2_def
    silu_array_scalar_def silu_product_scalar_def lanes_then_each update_each_updated update_lanes_updated updated_updated nth_updated\<close>)

end
