(* ===== verification/FlashAttention.thy ===== *)
theory FlashAttention
  imports LaneUpdates
begin

section \<open>Attention with an online softmax\<close>

text \<open>
  Models \<open>fortai_flash_attention_f16\<close> of \<open>src/backend/cpu/fortai_q8_dot.c\<close> and the kernels it picks by
  function pointer: conversion to half precision, the dot product, the scaling and the multiply-add
  of half-precision arrays, scalar and vector. Single-precision numbers are reals and \<open>expf\<close> is the
  exponential function; halves are elements of a type of their own, and every store of one rounds,
  by \<open>to_half\<close>, as the code does. \<open>None\<close> stands for minus infinity, the first maximum.
\<close>

subsection \<open>Half-precision arrays\<close>

definition floats_to_half_scalar :: "(real \<Rightarrow> 'h) \<Rightarrow> real list \<Rightarrow> nat \<Rightarrow> 'h list" where
  "floats_to_half_scalar to_half input count = map (\<lambda>i. to_half (input ! i)) [0..<count]"

function half_lanes :: "(real \<Rightarrow> 'h) \<Rightarrow> real list \<Rightarrow> nat \<Rightarrow> nat \<Rightarrow> 'h list \<Rightarrow> nat \<times> 'h list" where
  "half_lanes to_half input i count output =
     (if i + 8 \<le> count
      then half_lanes to_half input (i + 8) count (output @ map to_half (slice i 8 input))
      else (i, output))"
  by pat_completeness auto
termination by (relation "measure (\<lambda>(to_half, input, i, count, output). count - i)") auto

declare half_lanes.simps [simp del]

definition floats_to_half_avx2 :: "(real \<Rightarrow> 'h) \<Rightarrow> real list \<Rightarrow> nat \<Rightarrow> 'h list" where
  "floats_to_half_avx2 to_half input count =
     (let (i, output) = half_lanes to_half input 0 count []
      in output @ map (\<lambda>i. to_half (input ! i)) [i..<count])"

definition dot_f16_scalar :: "('h \<Rightarrow> real) \<Rightarrow> 'h list \<Rightarrow> 'h list \<Rightarrow> nat \<Rightarrow> real" where
  "dot_f16_scalar of_half left right count = dot_plain (map of_half left) (map of_half right) count"

definition dot_f16_avx2 :: "('h \<Rightarrow> real) \<Rightarrow> 'h list \<Rightarrow> 'h list \<Rightarrow> nat \<Rightarrow> real" where
  "dot_f16_avx2 of_half left right count = dot_vector (map of_half left) (map of_half right) count"

definition scaled :: "(real \<Rightarrow> 'h) \<Rightarrow> ('h \<Rightarrow> real) \<Rightarrow> real \<Rightarrow> 'h \<Rightarrow> 'h" where
  "scaled to_half of_half factor x = to_half (of_half x * factor)"

definition scale_f16_scalar :: "(real \<Rightarrow> 'h) \<Rightarrow> ('h \<Rightarrow> real) \<Rightarrow> 'h list \<Rightarrow> nat \<Rightarrow> real \<Rightarrow> 'h list" where
  "scale_f16_scalar to_half of_half values count factor =
     update_each (\<lambda>x _. scaled to_half of_half factor x) values 0 count values"

definition scale_f16_avx2 :: "(real \<Rightarrow> 'h) \<Rightarrow> ('h \<Rightarrow> real) \<Rightarrow> 'h list \<Rightarrow> nat \<Rightarrow> real \<Rightarrow> 'h list" where
  "scale_f16_avx2 to_half of_half values count factor =
     (let (i, values') = update_lanes 4 (\<lambda>x _. scaled to_half of_half factor x) values 0 count values
      in update_each (\<lambda>x _. scaled to_half of_half factor x) values i count values')"

definition multiply_add :: "(real \<Rightarrow> 'h) \<Rightarrow> ('h \<Rightarrow> real) \<Rightarrow> real \<Rightarrow> 'h \<Rightarrow> 'h \<Rightarrow> 'h" where
  "multiply_add to_half of_half factor x y = to_half (of_half x + of_half y * factor)"

definition mad_f16_scalar :: "(real \<Rightarrow> 'h) \<Rightarrow> ('h \<Rightarrow> real) \<Rightarrow> 'h list \<Rightarrow> 'h list \<Rightarrow> nat \<Rightarrow> real \<Rightarrow> 'h list" where
  "mad_f16_scalar to_half of_half output input count factor =
     update_each (multiply_add to_half of_half factor) input 0 count output"

definition mad_f16_avx2 :: "(real \<Rightarrow> 'h) \<Rightarrow> ('h \<Rightarrow> real) \<Rightarrow> 'h list \<Rightarrow> 'h list \<Rightarrow> nat \<Rightarrow> real \<Rightarrow> 'h list" where
  "mad_f16_avx2 to_half of_half output input count factor =
     (let (i, output) = update_lanes 4 (multiply_add to_half of_half factor) input 0 count output
      in update_each (multiply_add to_half of_half factor) input i count output)"

subsection \<open>The kernels and the loop over the cache\<close>

record 'h kernels =
  convert :: "real list \<Rightarrow> nat \<Rightarrow> 'h list"
  dot :: "'h list \<Rightarrow> 'h list \<Rightarrow> nat \<Rightarrow> real"
  scale_values :: "'h list \<Rightarrow> nat \<Rightarrow> real \<Rightarrow> 'h list"
  add_scaled :: "'h list \<Rightarrow> 'h list \<Rightarrow> nat \<Rightarrow> real \<Rightarrow> 'h list"

definition select_kernels :: "bool \<Rightarrow> (real \<Rightarrow> 'h) \<Rightarrow> ('h \<Rightarrow> real) \<Rightarrow> 'h kernels" where
  "select_kernels avx2 to_half of_half =
     (if avx2
      then \<lparr>convert = floats_to_half_avx2 to_half, dot = dot_f16_avx2 of_half,
            scale_values = scale_f16_avx2 to_half of_half, add_scaled = mad_f16_avx2 to_half of_half\<rparr>
      else \<lparr>convert = floats_to_half_scalar to_half, dot = dot_f16_scalar of_half,
            scale_values = scale_f16_scalar to_half of_half, add_scaled = mad_f16_scalar to_half of_half\<rparr>)"

record 'h attention =
  accumulator :: "'h list"
  weight_sum :: real
  maximum :: "real option"

record layout =
  key_stride :: nat
  value_stride :: nat
  key_size :: nat
  value_size :: nat

definition attend ::
    "'h kernels \<Rightarrow> layout \<Rightarrow> 'h list \<Rightarrow> real list \<Rightarrow> real list \<Rightarrow> real \<Rightarrow> nat \<Rightarrow> 'h attention \<Rightarrow> 'h attention" where
  "attend k lay query_f16 key_cache value_cache scale cache_index st =
     (let key_f16 = convert k (drop (cache_index * key_stride lay) key_cache) (key_size lay);
          score = dot k key_f16 query_f16 (key_size lay) * scale;
          raised = (case maximum st of None \<Rightarrow> True | Some m \<Rightarrow> score > m);
          maximum_scale = (if raised then case maximum st of None \<Rightarrow> 0 | Some m \<Rightarrow> exp (m - score) else 1);
          value_scale = (if raised then 1 else exp (score - the (maximum st)));
          acc = (if raised then scale_values k (accumulator st) (value_size lay) maximum_scale else accumulator st);
          value_f16 = convert k (drop (cache_index * value_stride lay) value_cache) (value_size lay)
      in \<lparr>accumulator = add_scaled k acc value_f16 (value_size lay) value_scale,
          weight_sum = weight_sum st * maximum_scale + value_scale,
          maximum = (if raised then Some score else maximum st)\<rparr>)"

text \<open>\<open>zero\<close> is the half whose bits are 0. \<open>None\<close> is a return that writes nothing.\<close>

definition flash_attention ::
    "bool \<Rightarrow> (real \<Rightarrow> 'h) \<Rightarrow> ('h \<Rightarrow> real) \<Rightarrow> 'h \<Rightarrow> layout \<Rightarrow> real list \<Rightarrow> real list \<Rightarrow> real list \<Rightarrow> nat \<Rightarrow> real \<Rightarrow> real list option" where
  "flash_attention avx2 to_half of_half zero lay query key_cache value_cache count scale =
     (if count = 0 \<or> key_stride lay < key_size lay \<or> value_stride lay < value_size lay \<or>
         key_size lay = 0 \<or> value_size lay = 0
      then None
      else let k = select_kernels avx2 to_half of_half;
               query_f16 = convert k query (key_size lay);
               st = fold (attend k lay query_f16 key_cache value_cache scale) [0..<count]
                 \<lparr>accumulator = replicate (value_size lay) zero, weight_sum = 0, maximum = None\<rparr>;
               inverse_sum = (if weight_sum st = 0 then 0 else 1 / weight_sum st)
           in Some (map (\<lambda>i. of_half (accumulator st ! i) * inverse_sum) [0..<value_size lay]))"

subsection \<open>The vector kernels compute what the scalar ones do\<close>

lemma half_lanes_map:
  "i \<le> count \<Longrightarrow> count \<le> length input \<Longrightarrow> half_lanes to_half input i count output = (j, output') \<Longrightarrow>
     i \<le> j \<and> j \<le> count \<and> output' = output @ map (\<lambda>k. to_half (input ! k)) [i..<j]"
proof (induction to_half input i count "output" rule: half_lanes.induct)
  case (1 to_half input i count out)
  show ?case
  proof (cases "i + 8 \<le> count")
    case True
    have lanes: "map to_half (slice i 8 input) = map (\<lambda>k. to_half (input ! k)) [i..<i + 8]"
      using True 1(3) by (intro nth_equalityI) (simp_all add: slice_def)
    have "half_lanes to_half input (i + 8) count (out @ map to_half (slice i 8 input)) = (j, output')"
      using 1(4) True by (simp add: half_lanes.simps [of to_half input i])
    from 1(1) [OF True True 1(3) this]
    have "i + 8 \<le> j" "j \<le> count" "output' = out @ map (\<lambda>k. to_half (input ! k)) ([i..<i + 8] @ [i + 8..<j])"
      by (auto simp: lanes)
    moreover have "[i..<i + 8] @ [i + 8..<j] = [i..<j]"
      using upt_add_eq_append [of i "i + 8" "j - (i + 8)"] calculation(1) by simp
    ultimately show ?thesis by simp
  next
    case False
    then show ?thesis using 1(2,4) by (auto simp: half_lanes.simps [of to_half input i])
  qed
qed

lemma convert_agree:
  assumes "count \<le> length input"
  shows "floats_to_half_avx2 to_half input count = map to_half (take count input)"
    and "floats_to_half_scalar to_half input count = map to_half (take count input)"
proof -
  show s: "floats_to_half_scalar to_half input count = map to_half (take count input)"
    using assms by (intro nth_equalityI) (simp_all add: floats_to_half_scalar_def)
  obtain j halves where h: "half_lanes to_half input 0 count [] = (j, halves)" by fastforce
  have "[0..<j] @ [j..<count] = [0..<count]" if "j \<le> count"
    using that upt_add_eq_append [of 0 j "count - j"] by simp
  then have "floats_to_half_avx2 to_half input count = floats_to_half_scalar to_half input count"
    using half_lanes_map [OF _ assms h]
    by (simp add: floats_to_half_avx2_def floats_to_half_scalar_def h flip: map_append)
  with s show "floats_to_half_avx2 to_half input count = map to_half (take count input)" by simp
qed

definition half_dot :: "('h \<Rightarrow> real) \<Rightarrow> 'h list \<Rightarrow> 'h list \<Rightarrow> nat \<Rightarrow> real" where
  "half_dot of_half left right count = (\<Sum>k\<leftarrow>[0..<count]. of_half (left ! k) * of_half (right ! k))"

lemma dot_agree:
  assumes "count \<le> length left" and "count \<le> length right"
  shows "dot_f16_avx2 of_half left right count = half_dot of_half left right count"
    and "dot_f16_scalar of_half left right count = half_dot of_half left right count"
proof -
  have "product_sum (map of_half left) (map of_half right) 0 count = half_dot of_half left right count"
    unfolding product_sum_def half_dot_def
    by (intro arg_cong [where f = sum_list] map_cong) (use assms in simp_all)
  then show "dot_f16_avx2 of_half left right count = half_dot of_half left right count"
    and "dot_f16_scalar of_half left right count = half_dot of_half left right count"
    using dot_vector_plain [of count "map of_half left" "map of_half right"] assms
    by (simp_all add: dot_f16_avx2_def dot_f16_scalar_def)
qed

lemma update_whole: "length ys = length xs \<Longrightarrow> update_each f ys 0 (length xs) xs = map2 f xs ys"
  by (rule nth_equalityI) (simp_all add: update_each_updated nth_updated)

lemma scale_agree:
  "scale_f16_avx2 to_half of_half xs (length xs) factor = map (scaled to_half of_half factor) xs"
  "scale_f16_scalar to_half of_half xs (length xs) factor = map (scaled to_half of_half factor) xs"
proof -
  have "map2 (\<lambda>x _. scaled to_half of_half factor x) xs xs = map (scaled to_half of_half factor) xs"
    by (rule nth_equalityI) simp_all
  moreover have "update_each (\<lambda>x _. scaled to_half of_half factor x) xs 0 (length xs) xs = map2 (\<lambda>x _. scaled to_half of_half factor x) xs xs"
    by (rule update_whole) simp
  moreover have "scale_f16_avx2 to_half of_half xs (length xs) factor = update_each (\<lambda>x _. scaled to_half of_half factor x) xs 0 (length xs) xs"
    unfolding scale_f16_avx2_def
    using lanes_then_each_same [where f = "\<lambda>x _. scaled to_half of_half factor x" and ys = xs and xs = xs and groups = 4 and count = "length xs"] by simp
  ultimately show "scale_f16_avx2 to_half of_half xs (length xs) factor = map (scaled to_half of_half factor) xs"
    and "scale_f16_scalar to_half of_half xs (length xs) factor = map (scaled to_half of_half factor) xs"
    unfolding scale_f16_scalar_def by simp_all
qed

lemma mad_agree:
  assumes "length ys = length xs"
  shows "mad_f16_avx2 to_half of_half xs ys (length xs) factor = map2 (multiply_add to_half of_half factor) xs ys"
    and "mad_f16_scalar to_half of_half xs ys (length xs) factor = map2 (multiply_add to_half of_half factor) xs ys"
  using assms by (simp_all add: mad_f16_avx2_def mad_f16_scalar_def lanes_then_each_same update_whole)

lemma kernels_agree:
  "count \<le> length input \<Longrightarrow> convert (select_kernels avx2 to_half of_half) input count = map to_half (take count input)"
  "count \<le> length left \<Longrightarrow> count \<le> length right \<Longrightarrow>
     dot (select_kernels avx2 to_half of_half) left right count = half_dot of_half left right count"
  "scale_values (select_kernels avx2 to_half of_half) xs (length xs) factor = map (scaled to_half of_half factor) xs"
  "length ys = length xs \<Longrightarrow>
     add_scaled (select_kernels avx2 to_half of_half) xs ys (length xs) factor = map2 (multiply_add to_half of_half factor) xs ys"
  by (simp_all add: select_kernels_def convert_agree dot_agree scale_agree mad_agree)

subsection \<open>One step of the online softmax\<close>

lemma online_element:
  fixes a S f w h eps V :: real
  assumes rnd: "\<And>x. \<bar>x\<bar> \<le> real N * (V + 2 * eps) \<Longrightarrow> \<bar>rnd x - x\<bar> \<le> eps"
    and "n < N" and "0 \<le> eps" and "0 \<le> V"
    and a: "\<bar>a - S\<bar> \<le> 2 * real n * eps" and S: "\<bar>S\<bar> \<le> real n * V"
    and f: "0 \<le> f" "f \<le> 1" and w: "0 \<le> w" "w \<le> 1" and h: "\<bar>h\<bar> \<le> V"
    and a1: "a1 = rnd (a * f) \<or> a1 = a * f"
  shows "\<bar>rnd (a1 + h * w) - (S * f + h * w)\<bar> \<le> 2 * real (n + 1) * eps"
    and "\<bar>S * f + h * w\<bar> \<le> real (n + 1) * V"
proof -
  have shrink: "\<bar>x * f\<bar> \<le> y" if "\<bar>x\<bar> \<le> y" for x y
  proof -
    have "\<bar>x\<bar> * f \<le> \<bar>x\<bar> * 1" using f by (intro mult_left_mono) simp_all
    then show ?thesis using that f by (simp add: abs_mult)
  qed
  have hw: "\<bar>h * w\<bar> \<le> V"
  proof -
    have "\<bar>h\<bar> * w \<le> \<bar>h\<bar> * 1" using w by (intro mult_left_mono) simp_all
    then show ?thesis using h w by (simp add: abs_mult)
  qed
  have Sf: "\<bar>S * f\<bar> \<le> real n * V" by (rule shrink [OF S])
  have af: "\<bar>a * f - S * f\<bar> \<le> 2 * real n * eps" using shrink [OF a] by (simp add: left_diff_distrib)
  have "real n + 1 \<le> real N" using \<open>n < N\<close> by simp
  then have "(real n + 1) * (V + 2 * eps) \<le> real N * (V + 2 * eps)"
    using \<open>0 \<le> eps\<close> \<open>0 \<le> V\<close> by (intro mult_right_mono) simp_all
  then have N: "real n * V + V + 2 * (real n * eps) + 2 * eps \<le> real N * (V + 2 * eps)" by (simp add: algebra_simps)
  have "\<bar>a * f\<bar> \<le> real N * (V + 2 * eps)" using af Sf N \<open>0 \<le> eps\<close> \<open>0 \<le> V\<close> by linarith
  from rnd [OF this] have a1': "\<bar>a1 - S * f\<bar> \<le> 2 * real n * eps + eps" using a1 af \<open>0 \<le> eps\<close> by linarith
  then have "\<bar>a1 + h * w\<bar> \<le> real N * (V + 2 * eps)" using Sf hw N \<open>0 \<le> eps\<close> by linarith
  from rnd [OF this] a1' show "\<bar>rnd (a1 + h * w) - (S * f + h * w)\<bar> \<le> 2 * real (n + 1) * eps"
    by (simp add: algebra_simps)
  show "\<bar>S * f + h * w\<bar> \<le> real (n + 1) * V" using Sf hw by (simp add: algebra_simps)
qed

definition attention_score :: "(real \<Rightarrow> 'h) \<Rightarrow> ('h \<Rightarrow> real) \<Rightarrow> layout \<Rightarrow> real list \<Rightarrow> real list \<Rightarrow> real \<Rightarrow> nat \<Rightarrow> real" where
  "attention_score to_half of_half lay query key_cache scale j =
     (\<Sum>k\<leftarrow>[0..<key_size lay]. of_half (to_half (key_cache ! (j * key_stride lay + k))) * of_half (to_half (query ! k))) * scale"

definition cached_value :: "(real \<Rightarrow> 'h) \<Rightarrow> ('h \<Rightarrow> real) \<Rightarrow> layout \<Rightarrow> real list \<Rightarrow> nat \<Rightarrow> nat \<Rightarrow> real" where
  "cached_value to_half of_half lay value_cache i j = of_half (to_half (value_cache ! (j * value_stride lay + i)))"

text \<open>
  After \<open>n\<close> rows the maximum is that of the scores so far, and the sum and each accumulator are those
  of the weights relative to it, the accumulators up to twice the rounding error for each row.
\<close>

definition attended :: "(real \<Rightarrow> 'h) \<Rightarrow> ('h \<Rightarrow> real) \<Rightarrow> layout \<Rightarrow> (nat \<Rightarrow> real) \<Rightarrow> real list \<Rightarrow> real \<Rightarrow> real \<Rightarrow> nat \<Rightarrow> 'h attention \<Rightarrow> bool" where
  "attended to_half of_half lay s value_cache V eps n st \<longleftrightarrow>
     length (accumulator st) = value_size lay \<and>
     (n = 0 \<longrightarrow> maximum st = None \<and> weight_sum st = 0 \<and> (\<forall>i<value_size lay. of_half (accumulator st ! i) = 0)) \<and>
     (0 < n \<longrightarrow> maximum st = Some (Max (s ` {..<n})) \<and>
        weight_sum st = (\<Sum>j<n. exp (s j - Max (s ` {..<n}))) \<and>
        (\<forall>i<value_size lay.
           \<bar>\<Sum>j<n. exp (s j - Max (s ` {..<n})) * cached_value to_half of_half lay value_cache i j\<bar> \<le> real n * V \<and>
           \<bar>of_half (accumulator st ! i) - (\<Sum>j<n. exp (s j - Max (s ` {..<n})) * cached_value to_half of_half lay value_cache i j)\<bar>
             \<le> 2 * real n * eps))"

subsection \<open>The interface of the kernels\<close>

text \<open>What the loop over the cache relies on when it calls through the function pointers.\<close>

locale half_kernels =
  fixes k :: "'h kernels" and to_half :: "real \<Rightarrow> 'h" and of_half :: "'h \<Rightarrow> real"
  assumes convert_law: "count \<le> length input \<Longrightarrow> convert k input count = map to_half (take count input)"
    and dot_law: "count \<le> length left \<Longrightarrow> count \<le> length right \<Longrightarrow> dot k left right count = half_dot of_half left right count"
    and scale_law: "scale_values k xs (length xs) factor = map (scaled to_half of_half factor) xs"
    and add_law: "length ys = length xs \<Longrightarrow>
      add_scaled k xs ys (length xs) factor = map2 (multiply_add to_half of_half factor) xs ys"
begin

lemma attend_step:
  assumes "key_size lay \<le> length query" and "j * key_stride lay + key_size lay \<le> length key_cache"
    and "j * value_stride lay + value_size lay \<le> length value_cache" and "length (accumulator st) = value_size lay"
    and "s = attention_score to_half of_half lay query key_cache scale j"
    and "raised = (case maximum st of None \<Rightarrow> True | Some m \<Rightarrow> s > m)"
    and "f = (if raised then case maximum st of None \<Rightarrow> 0 | Some m \<Rightarrow> exp (m - s) else 1)"
    and "w = (if raised then 1 else exp (s - the (maximum st)))"
  shows "attend k lay (map to_half (take (key_size lay) query)) key_cache value_cache scale j st =
    \<lparr>accumulator = map (\<lambda>i. to_half (
         (if raised then of_half (to_half (of_half (accumulator st ! i) * f)) else of_half (accumulator st ! i)) +
         cached_value to_half of_half lay value_cache i j * w)) [0..<value_size lay],
     weight_sum = weight_sum st * f + w, maximum = (if raised then Some s else maximum st)\<rparr>"
proof -
  have keys: "convert k (drop (j * key_stride lay) key_cache) (key_size lay) = map to_half (take (key_size lay) (drop (j * key_stride lay) key_cache))"
    and vals: "convert k (drop (j * value_stride lay) value_cache) (value_size lay) = map to_half (take (value_size lay) (drop (j * value_stride lay) value_cache))"
    using assms(2,3) by (simp_all add: convert_law)
  have score: "dot k (map to_half (take (key_size lay) (drop (j * key_stride lay) key_cache))) (map to_half (take (key_size lay) query)) (key_size lay) * scale = s"
    unfolding assms(5) attention_score_def using assms(1,2)
    by (subst dot_law) (auto simp: half_dot_def intro!: arg_cong [where f = sum_list] map_cong)
  let ?acc = "if raised then map (scaled to_half of_half f) (accumulator st) else accumulator st"
  let ?vals = "map to_half (take (value_size lay) (drop (j * value_stride lay) value_cache))"
  have acc: "(if raised then scale_values k (accumulator st) (value_size lay) f else accumulator st) = ?acc"
    using scale_law [of "accumulator st" f] assms(4) by simp
  have len: "length ?acc = value_size lay" "length ?vals = value_size lay" using assms(3,4) by simp_all
  then have "add_scaled k ?acc ?vals (value_size lay) w = map2 (multiply_add to_half of_half w) ?acc ?vals"
    using add_law [of ?vals ?acc w] by metis
  also have "\<dots> = map (\<lambda>i. to_half (
         (if raised then of_half (to_half (of_half (accumulator st ! i) * f)) else of_half (accumulator st ! i)) +
         cached_value to_half of_half lay value_cache i j * w)) [0..<value_size lay]"
    by (rule nth_equalityI) (use len assms(3,4) in \<open>auto simp: multiply_add_def scaled_def cached_value_def\<close>)
  finally have mad: "add_scaled k ?acc ?vals (value_size lay) w = \<dots>" .
  show ?thesis
    unfolding attend_def Let_def keys vals score assms(6,7,8) [symmetric] acc mad by simp
qed

lemma attended_step:
  assumes att: "attended to_half of_half lay s value_cache V eps n st"
    and "key_size lay \<le> length query" and "n * key_stride lay + key_size lay \<le> length key_cache"
    and "n * value_stride lay + value_size lay \<le> length value_cache"
    and s: "s = attention_score to_half of_half lay query key_cache scale"
    and rnd: "\<And>x. \<bar>x\<bar> \<le> real N * (V + 2 * eps) \<Longrightarrow> \<bar>of_half (to_half x) - x\<bar> \<le> eps"
    and "n < N" and "0 \<le> eps" and "0 \<le> V"
    and V: "\<And>i. i < value_size lay \<Longrightarrow> \<bar>cached_value to_half of_half lay value_cache i n\<bar> \<le> V"
  shows "attended to_half of_half lay s value_cache V eps (n + 1)
    (attend k lay (map to_half (take (key_size lay) query)) key_cache value_cache scale n st)"
proof -
  let ?h = "cached_value to_half of_half lay value_cache" and ?M = "\<lambda>n. Max (s ` {..<n})"
  define raised where "raised = (case maximum st of None \<Rightarrow> True | Some m \<Rightarrow> s n > m)"
  define f where "f = (if raised then case maximum st of None \<Rightarrow> 0 | Some m \<Rightarrow> exp (m - s n) else 1)"
  define w where "w = (if raised then 1 else exp (s n - the (maximum st)))"
  have len: "length (accumulator st) = value_size lay" using att by (simp add: attended_def)
  note step = attend_step [OF assms(2,3,4) len _ raised_def f_def w_def, of scale, folded s, OF refl]
  have M: "?M (n + 1) = (if n = 0 then s n else max (s n) (?M n))"
    by (cases "n = 0") (auto simp: lessThan_Suc lessThan_empty_iff intro!: Max_insert)
  have raised: "raised \<longleftrightarrow> n = 0 \<or> s n > ?M n" using att by (auto simp: raised_def attended_def)
  have max': "?M (n + 1) = (if raised then s n else ?M n)" unfolding M raised by (auto simp: max_def)
  have f: "exp (s j - ?M n) * f = exp (s j - ?M (n + 1))" if "j < n" for j
    using that att unfolding max' f_def by (auto simp: attended_def simp flip: exp_add)
  have w: "w = exp (s n - ?M (n + 1))" using att raised unfolding max' w_def by (auto simp: attended_def)
  have f01: "0 \<le> f" "f \<le> 1" using att raised by (auto simp: f_def attended_def)
  have w01: "0 \<le> w" "w \<le> 1" using M unfolding w by (auto simp: max_def)
  have sums: "(\<Sum>j<n. exp (s j - ?M n) * g j) * f + g n * w = (\<Sum>j<n + 1. exp (s j - ?M (n + 1)) * g j)" for g
  proof -
    have "(\<Sum>j<n. exp (s j - ?M n) * g j) * f = (\<Sum>j<n. (exp (s j - ?M n) * f) * g j)"
      unfolding sum_distrib_right by (intro sum.cong) (simp_all add: ac_simps)
    also have "\<dots> = (\<Sum>j<n. exp (s j - ?M (n + 1)) * g j)" by (intro sum.cong) (simp_all add: f del: Suc_eq_plus1_left)
    finally show ?thesis by (simp add: w ac_simps)
  qed
  have weight: "weight_sum st * f + w = (\<Sum>j<n + 1. exp (s j - ?M (n + 1)))"
    using sums [of "\<lambda>_. 1"] att by (cases "n = 0") (simp_all add: attended_def)
  have elem: "\<bar>of_half (to_half ((if raised then of_half (to_half (of_half (accumulator st ! i) * f)) else of_half (accumulator st ! i)) + ?h i n * w))
        - (\<Sum>j<n + 1. exp (s j - ?M (n + 1)) * ?h i j)\<bar> \<le> 2 * real (n + 1) * eps \<and>
      \<bar>\<Sum>j<n + 1. exp (s j - ?M (n + 1)) * ?h i j\<bar> \<le> real (n + 1) * V" if "i < value_size lay" for i
  proof -
    let ?S = "\<Sum>j<n. exp (s j - ?M n) * ?h i j"
    have S: "\<bar>of_half (accumulator st ! i) - ?S\<bar> \<le> 2 * real n * eps" "\<bar>?S\<bar> \<le> real n * V"
      using att that by (cases "n = 0"; simp add: attended_def)+
    have a1: "(if raised then of_half (to_half (of_half (accumulator st ! i) * f)) else of_half (accumulator st ! i)) =
          of_half (to_half (of_half (accumulator st ! i) * f)) \<or>
        (if raised then of_half (to_half (of_half (accumulator st ! i) * f)) else of_half (accumulator st ! i)) = of_half (accumulator st ! i) * f"
      by (simp add: f_def)
    show ?thesis
      using online_element [where rnd = "\<lambda>x. of_half (to_half x)", OF rnd \<open>n < N\<close> \<open>0 \<le> eps\<close> \<open>0 \<le> V\<close> S f01 w01 V [OF that] a1]
      unfolding sums by blast
  qed
  have top: "(if raised then Some (s n) else maximum st) = Some (?M (n + 1))"
    using att raised max' by (auto simp: attended_def)
  show ?thesis
    unfolding step attended_def top using elem weight by (cases raised) (simp_all del: sum.lessThan_Suc)
qed

lemma attended_all:
  assumes "n \<le> count" and "key_size lay \<le> length query" and "(count - 1) * key_stride lay + key_size lay \<le> length key_cache"
    and "(count - 1) * value_stride lay + value_size lay \<le> length value_cache"
    and s: "s = attention_score to_half of_half lay query key_cache scale"
    and rnd: "\<And>x. \<bar>x\<bar> \<le> real count * (V + 2 * eps) \<Longrightarrow> \<bar>of_half (to_half x) - x\<bar> \<le> eps"
    and "0 \<le> eps" and "0 \<le> V"
    and V: "\<And>v. v \<in> set value_cache \<Longrightarrow> \<bar>of_half (to_half v)\<bar> \<le> V" and zero: "of_half zero = 0"
  shows "attended to_half of_half lay s value_cache V eps n
    (fold (attend k lay (map to_half (take (key_size lay) query)) key_cache value_cache scale) [0..<n]
       \<lparr>accumulator = replicate (value_size lay) zero, weight_sum = 0, maximum = None\<rparr>)"
  using assms(1)
proof (induction n)
  case 0
  then show ?case using zero by (simp add: attended_def)
next
  case (Suc n)
  have "n * stride \<le> (count - 1) * stride" for stride using Suc.prems by (intro mult_le_mono1) simp
  then have keys: "n * key_stride lay + key_size lay \<le> length key_cache"
    and vals: "n * value_stride lay + value_size lay \<le> length value_cache"
    using assms(3,4) by (meson add_le_mono1 order.trans)+
  have "\<bar>cached_value to_half of_half lay value_cache i n\<bar> \<le> V" if "i < value_size lay" for i
    unfolding cached_value_def by (rule V) (use vals that in simp)
  from attended_step [OF _ assms(2) keys vals s rnd _ \<open>0 \<le> eps\<close> \<open>0 \<le> V\<close> this] Suc
  show ?case by simp
qed

end

interpretation selected: half_kernels "select_kernels avx2 to_half of_half" to_half of_half for avx2 to_half of_half
  by unfold_locales (simp_all add: kernels_agree)

text \<open>What the accumulators and the sum come to when the loop has ended.\<close>

lemma attended_average:
  assumes "0 < count" and att: "attended to_half of_half lay s value_cache V eps count st" and i: "i < value_size lay"
  shows "weight_sum st \<noteq> 0"
    and "\<bar>of_half (accumulator st ! i) * (1 / weight_sum st) -
      (\<Sum>j<count. exp (s j) * cached_value to_half of_half lay value_cache i j) / (\<Sum>j<count. exp (s j))\<bar> \<le> 2 * real count * eps"
proof -
  let ?h = "cached_value to_half of_half lay value_cache" and ?M = "Max (s ` {..<count})"
  have sum: "weight_sum st = (\<Sum>j<count. exp (s j - ?M))" using att assms(1) by (simp add: attended_def)
  have "?M \<in> s ` {..<count}" using assms(1) by (intro Max_in) auto
  then obtain m where m: "m < count" "s m = ?M" by auto
  have "exp (s m - ?M) \<le> (\<Sum>j<count. exp (s j - ?M))" using m by (intro member_le_sum) auto
  then have ge1: "1 \<le> weight_sum st" using m sum by simp
  then show "weight_sum st \<noteq> 0" by linarith
  have scale_out: "(\<Sum>j<count. exp (s j - ?M) * g j) = (\<Sum>j<count. exp (s j) * g j) * exp (- ?M)" for g
    unfolding sum_distrib_right by (intro sum.cong) (simp_all add: exp_diff exp_minus field_simps)
  let ?S = "\<Sum>j<count. exp (s j - ?M) * ?h i j"
  have "?S / weight_sum st = (\<Sum>j<count. exp (s j) * ?h i j) / (\<Sum>j<count. exp (s j))"
    unfolding sum scale_out using scale_out [of "\<lambda>_. 1"] by simp
  then have e: "of_half (accumulator st ! i) * (1 / weight_sum st) - (\<Sum>j<count. exp (s j) * ?h i j) / (\<Sum>j<count. exp (s j)) =
      (of_half (accumulator st ! i) - ?S) / weight_sum st" by (simp add: diff_divide_distrib)
  have b: "\<bar>of_half (accumulator st ! i) - ?S\<bar> \<le> 2 * real count * eps"
    using att i assms(1) by (simp add: attended_def)
  have "\<bar>x / weight_sum st\<bar> \<le> \<bar>x\<bar>" for x
    using ge1 mult_left_mono [of 1 "weight_sum st" "\<bar>x\<bar>"] by (simp add: divide_le_eq)
  then show "\<bar>of_half (accumulator st ! i) * (1 / weight_sum st) - (\<Sum>j<count. exp (s j) * ?h i j) / (\<Sum>j<count. exp (s j))\<bar>
      \<le> 2 * real count * eps" unfolding e using b by (rule order.trans)
qed

text \<open>
  C21: The attention kernel, on either path, returns for each value column the softmax-weighted average
  of the cached values, both rounded to half precision, up to the rounding of its accumulator: with an
  error of at most \<open>eps\<close> for each half it stores, the result is off by at most twice that per row. The
  running maximum it subtracts and the rescaling by it change nothing else.
\<close>

theorem flash_attention_softmax:
  assumes "0 < count" and "0 < key_size lay" and "0 < value_size lay"
    and "key_size lay \<le> key_stride lay" and "value_size lay \<le> value_stride lay"
    and "key_size lay \<le> length query" and "(count - 1) * key_stride lay + key_size lay \<le> length key_cache"
    and "(count - 1) * value_stride lay + value_size lay \<le> length value_cache"
    and "of_half zero = 0" and "0 \<le> eps" and "0 \<le> V"
    and "\<forall>v\<in>set value_cache. \<bar>of_half (to_half v)\<bar> \<le> V"
    and "\<forall>x. \<bar>x\<bar> \<le> real count * (V + 2 * eps) \<longrightarrow> \<bar>of_half (to_half x) - x\<bar> \<le> eps"
    and s: "s = attention_score to_half of_half lay query key_cache scale"
  shows "\<exists>out. flash_attention avx2 to_half of_half zero lay query key_cache value_cache count scale = Some out \<and>
    length out = value_size lay \<and>
    (\<forall>i<value_size lay.
       \<bar>out ! i - (\<Sum>j<count. exp (s j) * of_half (to_half (value_cache ! (j * value_stride lay + i)))) / (\<Sum>j<count. exp (s j))\<bar>
         \<le> 2 * real count * eps)"
proof -
  let ?k = "select_kernels avx2 to_half of_half"
  have query: "convert ?k query (key_size lay) = map to_half (take (key_size lay) query)"
    using assms(6) by (simp add: kernels_agree)
  define st where "st = fold (attend ?k lay (map to_half (take (key_size lay) query)) key_cache value_cache scale) [0..<count]
    \<lparr>accumulator = replicate (value_size lay) zero, weight_sum = 0, maximum = None\<rparr>"
  have att: "attended to_half of_half lay s value_cache V eps count st"
    unfolding st_def by (rule selected.attended_all [OF order.refl assms(6-8) s]) (use assms in auto)
  note average = attended_average [OF assms(1) att]
  let ?out = "map (\<lambda>i. of_half (accumulator st ! i) * (1 / weight_sum st)) [0..<value_size lay]"
  have "flash_attention avx2 to_half of_half zero lay query key_cache value_cache count scale = Some ?out"
    using assms(1-5) average(1) [OF assms(3)] unfolding flash_attention_def Let_def query st_def [symmetric] by simp
  moreover have "\<forall>i<value_size lay.
      \<bar>?out ! i - (\<Sum>j<count. exp (s j) * of_half (to_half (value_cache ! (j * value_stride lay + i)))) / (\<Sum>j<count. exp (s j))\<bar>
        \<le> 2 * real count * eps"
  proof (intro allI impI)
    fix i assume i: "i < value_size lay"
    then have "?out ! i = of_half (accumulator st ! i) * (1 / weight_sum st)" by simp
    then show "\<bar>?out ! i - (\<Sum>j<count. exp (s j) * of_half (to_half (value_cache ! (j * value_stride lay + i)))) / (\<Sum>j<count. exp (s j))\<bar>
        \<le> 2 * real count * eps"
      using average(2) [OF i] unfolding cached_value_def by (simp only:)
  qed
  moreover have "length ?out = value_size lay" by simp
  ultimately show ?thesis by blast
qed

text \<open>With halves that round to integers of a byte, two rows of one key and one value.\<close>

theorem flash_attention_softmax_witness:
  "\<exists>out. flash_attention True (\<lambda>x. word_of_int (round x) :: 8 word) (\<lambda>h. of_int (sint h)) 0
      \<lparr>key_stride = 1, value_stride = 1, key_size = 1, value_size = 1\<rparr> [0] [5, 7] [2, 4] 2 1 = Some out \<and>
    length out = 1 \<and> \<bar>out ! 0 - 3\<bar> \<le> 2"
proof -
  let ?lay = "\<lparr>key_stride = 1, value_stride = 1, key_size = 1, value_size = 1\<rparr>"
  let ?to = "\<lambda>x. word_of_int (round x) :: 8 word" and ?of = "\<lambda>h :: 8 word. real_of_int (sint h)"
  have half: "?of (?to x) = of_int (round x)" if "\<bar>x\<bar> \<le> 100" for x :: real
  proof -
    have "\<bar>of_int (round x) - x\<bar> \<le> 1 / 2" by (rule of_int_round_abs_le)
    then have "round x < 128" "- 128 \<le> round x" using that by linarith+
    then show ?thesis by (simp add: sint_sbintrunc' signed_take_bit_int_eq_self_iff)
  qed
  have rnd: "\<forall>x. \<bar>x\<bar> \<le> real 2 * (4 + 2 * (1 / 2)) \<longrightarrow> \<bar>?of (?to x) - x\<bar> \<le> 1 / 2"
    using half of_int_round_abs_le by auto
  have V: "\<forall>v\<in>set [2, 4]. \<bar>?of (?to v)\<bar> \<le> 4" by (simp add: half)
  have "\<exists>out. flash_attention True ?to ?of 0 ?lay [0] [5, 7] [2, 4] 2 1 = Some out \<and> length out = value_size ?lay \<and>
      (\<forall>i<value_size ?lay. \<bar>out ! i - (\<Sum>j<2. exp (attention_score ?to ?of ?lay [0] [5, 7] 1 j) * ?of (?to (([2, 4] :: real list) ! (j * value_stride ?lay + i)))) /
        (\<Sum>j<2. exp (attention_score ?to ?of ?lay [0] [5, 7] 1 j))\<bar> \<le> 2 * real 2 * (1 / 2))"
    using flash_attention_softmax [where V = 4 and eps = "1 / 2" and to_half = ?to and of_half = ?of and zero = 0 and lay = ?lay
        and value_cache = "[2, 4]" and query = "[0]" and key_cache = "[5, 7]" and count = 2 and scale = 1 and ?avx2.0 = True] V rnd by simp
  then show ?thesis by (simp add: attention_score_def half numeral_2_eq_2)
qed

end
