(* ===== verification/GgmlLibrary.thy ===== *)
theory GgmlLibrary
  imports LlamaLibrary Complex_Main
begin

section \<open>The GGML libraries and the reference dequantizers\<close>

text \<open>
  Models the first and the last part of \<open>src/backend/cpu/fortai_ggml_quant.c\<close>: opening the two GGML
  libraries, the shared CPU backend, the table of quantised formats, and the functions that decode a
  row with a resolved dequantizer. What the libraries are and do is given by the loader of
  \<open>LlamaLibrary\<close> and by a record of answers; the static variables of the file are a state. An object
  obtained from GGML is the number of the call that made it.
\<close>

datatype ggml_call = Init | NewTensor | MulMat | NewGraph | Alloc | CpuInit | RepackType | Compute

text \<open>
  \<open>answer\<close>: whether a call returns something (not a null pointer, or code 0), by its number.
  \<open>product\<close>: what the graph of one multiplication computes from the bytes of the weight tensor.
  \<open>decode\<close>: the dequantizer of a type on a run of bytes.
\<close>

record ('w, 'v) ggml =
  answer :: "ggml_call \<Rightarrow> nat \<Rightarrow> bool"
  product :: "int \<Rightarrow> 'w \<Rightarrow> int \<Rightarrow> int \<Rightarrow> 'v list \<Rightarrow> 'v list"
  decode :: "int \<Rightarrow> bytes \<Rightarrow> 'v list"

record 'w cpu_plan =
  plan_type :: int
  plan_rows :: int
  plan_width :: int
  weights_host :: u64
  weight_bytes :: u64
  plan_context :: nat
  plan_weight_context :: nat
  plan_buffer :: nat
  plan_weight_buffer :: nat
  weight_data :: 'w

text \<open>One member of a group plan: what the arrays of the structure hold at its index.\<close>

record 'w member =
  member_type :: int
  member_rows :: int
  member_host :: u64
  member_bytes :: u64
  member_data :: 'w

record 'w group_plan =
  members :: "'w member list"
  group_width :: int
  group_context :: nat
  group_weight_context :: nat
  group_buffer :: nat
  repack_buffer :: "nat option"
  plain_buffer :: "nat option"

record ('l, 'w) ggml_state =
  ggml_handle :: "'l option"
  ggml_attempted :: bool
  cpu_handle :: "'l option"
  cpu_attempted :: bool
  log_filtered :: bool
  shared_backend :: "nat option"
  backend_threads :: int
  cpu_plans :: "'w cpu_plan list"
  cpu_plan_bytes :: u64
  group_plans :: "'w group_plan list"
  group_plan_bytes :: u64
  calls :: nat
  live :: "nat set"
  fault :: bool
  null_tensor :: bool

definition ggml_start :: "('l, 'w) ggml_state" where
  "ggml_start =
     \<lparr>ggml_handle = None, ggml_attempted = False, cpu_handle = None, cpu_attempted = False, log_filtered = False,
      shared_backend = None, backend_threads = 0, cpu_plans = [], cpu_plan_bytes = 0, group_plans = [],
      group_plan_bytes = 0, calls = 0, live = {}, fault = False, null_tensor = False\<rparr>"

text \<open>A call that returns a pointer nobody frees on its own, one that returns an object, and a release.\<close>

definition ask :: "('w, 'v) ggml \<Rightarrow> ggml_call \<Rightarrow> ('l, 'w) ggml_state \<Rightarrow> bool \<times> ('l, 'w) ggml_state" where
  "ask g c st = (answer g c (calls st), st\<lparr>calls := calls st + 1\<rparr>)"

definition obtain_object :: "('w, 'v) ggml \<Rightarrow> ggml_call \<Rightarrow> ('l, 'w) ggml_state \<Rightarrow> nat option \<times> ('l, 'w) ggml_state" where
  "obtain_object g c st =
     (if answer g c (calls st) then (Some (calls st), st\<lparr>calls := calls st + 1, live := insert (calls st) (live st)\<rparr>)
      else (None, st\<lparr>calls := calls st + 1\<rparr>))"

definition release :: "nat option \<Rightarrow> ('l, 'w) ggml_state \<Rightarrow> ('l, 'w) ggml_state" where
  "release p st =
     (case p of None \<Rightarrow> st | Some n \<Rightarrow> st\<lparr>live := live st - {n}, fault := fault st \<or> n \<notin> live st\<rparr>)"

subsection \<open>Opening\<close>

fun open_first :: "'l loader \<Rightarrow> bytes option list \<Rightarrow> 'l option" where
  "open_first ld [] = None"
| "open_first ld (candidate # rest) =
     (if unset candidate then open_first ld rest
      else case dlopen ld (the candidate) of None \<Rightarrow> open_first ld rest | Some handle \<Rightarrow> Some handle)"

definition install_log_filter :: "'l loader \<Rightarrow> 'l \<Rightarrow> ('l, 'w) ggml_state \<Rightarrow> ('l, 'w) ggml_state" where
  "install_log_filter ld base st =
     (if log_filtered st \<or> \<not> dlsym ld base ''ggml_log_get'' \<or> \<not> dlsym ld base ''ggml_log_set'' then st
      else st\<lparr>log_filtered := True\<rparr>)"

text \<open>\<open>ggml_log_filter\<close>: the text that is passed to the earlier callback, where there is one.\<close>

definition ggml_log_filter :: "bool \<Rightarrow> bytes option \<Rightarrow> bytes option option" where
  "ggml_log_filter previous text =
     (if (case text of None \<Rightarrow> False | Some t \<Rightarrow> find_sub ''repack tensor'' t \<noteq> None) \<or> \<not> previous then None
      else Some text)"

definition ggml_candidates :: "environment \<Rightarrow> bytes option list" where
  "ggml_candidates env =
     [env ''FORTAI_GGML_LIBRARY'',
      Some ''/home/ert/.local/llama.cpp-upstream-main-650913862/lib/libggml-base.so.0'',
      Some ''/home/ert/.local/llama.cpp-b10430-cuda/lib/libggml-base.so.0'',
      Some ''libggml-base.so.0'']"

definition open_ggml :: "'l loader \<Rightarrow> environment \<Rightarrow> ('l, 'w) ggml_state \<Rightarrow> 'l option \<times> ('l, 'w) ggml_state" where
  "open_ggml ld env st =
     (if ggml_attempted st then (ggml_handle st, st)
      else let st = st\<lparr>ggml_attempted := True\<rparr>
           in (case open_first ld (ggml_candidates env) of
                 None \<Rightarrow> (None, st\<lparr>ggml_handle := None\<rparr>)
               | Some base \<Rightarrow> (Some base, install_log_filter ld base (st\<lparr>ggml_handle := Some base\<rparr>))))"

definition cpu_candidates :: "environment \<Rightarrow> bytes option list" where
  "cpu_candidates env =
     [env ''FORTAI_GGML_CPU_LIBRARY'',
      Some ''/home/ert/.local/llama.cpp-upstream-main-650913862/lib/libggml-cpu.so.0'',
      Some ''/home/ert/.local/llama.cpp-b10430-cuda/lib/libggml-cpu.so.0'',
      Some ''libggml-cpu.so.0'']"

definition open_ggml_cpu :: "'l loader \<Rightarrow> environment \<Rightarrow> ('l, 'w) ggml_state \<Rightarrow> 'l option \<times> ('l, 'w) ggml_state" where
  "open_ggml_cpu ld env st =
     (if cpu_attempted st then (cpu_handle st, st)
      else let handle = open_first ld (cpu_candidates env)
           in (handle, st\<lparr>cpu_attempted := True, cpu_handle := handle\<rparr>))"

definition atoi :: "bytes \<Rightarrow> int" where
  "atoi s = sint (word_of_int (fst (strtol s)) :: u32)"

definition requested_threads :: "environment \<Rightarrow> int" where
  "requested_threads env = (case env ''OMP_NUM_THREADS'' of None \<Rightarrow> 0 | Some text \<Rightarrow> atoi text)"

definition get_shared_cpu_backend ::
    "'l loader \<Rightarrow> environment \<Rightarrow> ('w, 'v) ggml \<Rightarrow> 'l \<Rightarrow> ('l, 'w) ggml_state \<Rightarrow> nat option \<times> ('l, 'w) ggml_state" where
  "get_shared_cpu_backend ld env g cpu st =
     (if shared_backend st \<noteq> None then (shared_backend st, st)
      else if \<not> dlsym ld cpu ''ggml_backend_cpu_init'' then (None, st)
      else let (backend, st) = obtain_object g CpuInit st;
               st = st\<lparr>shared_backend := backend\<rparr>;
               threads = requested_threads env
           in (backend,
               if backend \<noteq> None \<and> dlsym ld cpu ''ggml_backend_cpu_set_n_threads'' \<and> threads > 0
               then st\<lparr>backend_threads := threads\<rparr> else st))"

definition get_repack_buft :: "'l loader \<Rightarrow> ('w, 'v) ggml \<Rightarrow> 'l \<Rightarrow> ('l, 'w) ggml_state \<Rightarrow> bool \<times> ('l, 'w) ggml_state" where
  "get_repack_buft ld g cpu st =
     (if dlsym ld cpu ''_Z35ggml_backend_cpu_repack_buffer_typev'' then ask g RepackType st else (False, st))"

definition repack_supported :: "int \<Rightarrow> int \<Rightarrow> bool" where
  "repack_supported type rows \<longleftrightarrow> rows > 0 \<and> rows mod 8 = 0 \<and> (type = 12 \<or> type = 20)"

subsection \<open>Formats\<close>

definition dequant_name :: "int \<Rightarrow> (nat \<times> nat \<times> bytes) option" where
  "dequant_name type =
     (if type = 11 then Some (256, 110, ''dequantize_row_q3_K'')
      else if type = 12 then Some (256, 144, ''dequantize_row_q4_K'')
      else if type = 13 then Some (256, 176, ''dequantize_row_q5_K'')
      else if type = 14 then Some (256, 210, ''dequantize_row_q6_K'')
      else if type = 20 then Some (32, 18, ''dequantize_row_iq4_nl'')
      else if type = 21 then Some (256, 110, ''dequantize_row_iq3_s'')
      else if type = 23 then Some (256, 136, ''dequantize_row_iq4_xs'')
      else None)"

definition resolve :: "'l loader \<Rightarrow> environment \<Rightarrow> int \<Rightarrow> ('l, 'w) ggml_state \<Rightarrow> (nat \<times> nat) option \<times> ('l, 'w) ggml_state" where
  "resolve ld env type st =
     (case dequant_name type of
        None \<Rightarrow> (None, st)
      | Some (block_width, block_bytes, name) \<Rightarrow>
          (case open_ggml ld env st of
             (None, st) \<Rightarrow> (None, st)
           | (Some base, st) \<Rightarrow> (if dlsym ld base name then Some (block_width, block_bytes) else None, st)))"

definition quant_available :: "'l loader \<Rightarrow> environment \<Rightarrow> int \<Rightarrow> ('l, 'w) ggml_state \<Rightarrow> bool \<times> ('l, 'w) ggml_state" where
  "quant_available ld env type st = (case resolve ld env type st of (fn, st) \<Rightarrow> (fn \<noteq> None, st))"

text \<open>\<open>None\<close> is code 1. The input is the memory from the pointer on, or \<open>None\<close> for a null pointer.\<close>

definition dequantize_ggml_row ::
    "'l loader \<Rightarrow> environment \<Rightarrow> ('w, 'v) ggml \<Rightarrow> int \<Rightarrow> bytes option \<Rightarrow> bool \<Rightarrow> int \<Rightarrow> ('l, 'w) ggml_state \<Rightarrow> 'v list option \<times> ('l, 'w) ggml_state" where
  "dequantize_ggml_row ld env g type input output_null width st =
     (case resolve ld env type st of
        (None, st) \<Rightarrow> (None, st)
      | (Some (block_width, block_bytes), st) \<Rightarrow>
          (if input = None \<or> output_null \<or> width \<le> 0 \<or> width mod int block_width \<noteq> 0 then None
           else Some (decode g type (take (nat width div block_width * block_bytes) (the input))), st))"

fun dot_block :: "'f::comm_ring_1 list \<Rightarrow> 'f list \<Rightarrow> nat \<Rightarrow> nat list \<Rightarrow> 'f \<Rightarrow> 'f" where
  "dot_block block vector offset [] result = result"
| "dot_block block vector offset (i # is) result =
     dot_block block vector offset is (result + block ! i * vector ! (offset + i))"

function dot_blocks ::
    "(bytes \<Rightarrow> 'f::comm_ring_1 list) \<Rightarrow> nat \<Rightarrow> nat \<Rightarrow> bytes \<Rightarrow> 'f list \<Rightarrow> nat \<Rightarrow> nat \<Rightarrow> 'f \<Rightarrow> 'f" where
  "dot_blocks fn block_width block_bytes input vector offset width result =
     (if 0 < block_width \<and> offset < width
      then dot_blocks fn block_width block_bytes (drop block_bytes input) vector (offset + block_width) width
             (dot_block (fn (take block_bytes input)) vector offset [0..<block_width] result)
      else result)"
  by pat_completeness auto
termination by (relation "measure (\<lambda>(fn, bw, bb, input, vector, offset, width, result). width - offset)") auto

declare dot_blocks.simps [simp del]

definition quant_dot ::
    "'l loader \<Rightarrow> environment \<Rightarrow> ('w, 'f::comm_ring_1) ggml \<Rightarrow> int \<Rightarrow> bytes option \<Rightarrow> 'f list option \<Rightarrow> int \<Rightarrow> ('l, 'w) ggml_state \<Rightarrow>
       'f \<times> ('l, 'w) ggml_state" where
  "quant_dot ld env g type input vector width st =
     (case resolve ld env type st of
        (None, st) \<Rightarrow> (0, st)
      | (Some (block_width, block_bytes), st) \<Rightarrow>
          (if input = None \<or> vector = None \<or> width \<le> 0 \<or> width mod int block_width \<noteq> 0 then 0
           else dot_blocks (decode g type) block_width block_bytes (the input) (the vector) 0 (nat width) 0, st))"

subsection \<open>Lemmas\<close>

lemma dequant_name_cases:
  "dequant_name type = Some (block_width, block_bytes, name) \<Longrightarrow> 0 < block_width \<and> block_width \<le> 256 \<and> 0 < block_bytes"
  by (auto simp: dequant_name_def split: if_splits)

lemma open_ggml_again: "open_ggml ld env st = (r, st') \<Longrightarrow> open_ggml ld env' st' = (r, st')"
  by (auto simp: open_ggml_def install_log_filter_def Let_def split: if_splits option.splits)

lemma resolve_again: "resolve ld env type st = (r, st') \<Longrightarrow> resolve ld env' type st' = (r, st')"
  by (auto simp: resolve_def open_ggml_again split: option.splits prod.splits dest: open_ggml_again [of ld env _ _ _ env'])

lemma dot_block_sum: "dot_block block vector offset is result = result + (\<Sum>i\<leftarrow>is. block ! i * vector ! (offset + i))"
  by (induction block vector offset "is" result rule: dot_block.induct) (simp_all add: ac_simps)

lemma dot_blocks_sum:
  fixes vector :: "'f::comm_ring_1 list"
  assumes "0 < block_width"
  shows "dot_blocks fn block_width block_bytes input vector offset (offset + n * block_width) result =
    result + (\<Sum>b\<leftarrow>[0..<n]. \<Sum>i\<leftarrow>[0..<block_width].
       fn (take block_bytes (drop (b * block_bytes) input)) ! i * vector ! (offset + b * block_width + i))"
proof (induction n arbitrary: input offset result)
  case 0
  then show ?case by (simp add: dot_blocks.simps [of fn])
next
  case (Suc n)
  have e: "offset + Suc n * block_width = offset + block_width + n * block_width" by simp
  have upt: "[0..<Suc n] = 0 # map Suc [0..<n]" by (metis map_Suc_upt upt_conv_Cons zero_less_Suc)
  have step: "dot_blocks fn block_width block_bytes input vector offset (offset + block_width + n * block_width) result =
      dot_blocks fn block_width block_bytes (drop block_bytes input) vector (offset + block_width) (offset + block_width + n * block_width)
        (dot_block (fn (take block_bytes input)) vector offset [0..<block_width] result)"
    using assms by (subst dot_blocks.simps) simp
  show ?case
    unfolding e step Suc.IH upt by (simp add: dot_block_sum comp_def ac_simps del: upt_Suc)
qed

end
