(* ===== verification/GgmlPlans.thy ===== *)
theory GgmlPlans
  imports GgmlLibrary
begin

section \<open>Plans for quantised matrix products\<close>

text \<open>
  Models the plan caches of \<open>src/backend/cpu/fortai_ggml_quant.c\<close>: making a plan for one matrix or
  for a group of two or three, looking it up, computing with it, the direct product that is the
  fallback, and clearing both caches. Sizes in bytes are 64-bit words, as \<open>size_t\<close> is; \<open>mem\<close> gives the
  weights that a host address holds. A null pointer is address 0 for weights, \<open>None\<close> for an activation
  and \<open>True\<close> for \<open>output_null\<close>; a result of \<open>None\<close> is code 1.
\<close>

subsection \<open>Making a plan\<close>

definition open_both ::
    "'l loader \<Rightarrow> environment \<Rightarrow> ('l, 'w) ggml_state \<Rightarrow> ('l \<times> 'l) option \<times> ('l, 'w) ggml_state" where
  "open_both ld env st =
     (let (base, st) = open_ggml ld env st; (cpu, st) = open_ggml_cpu ld env st
      in (case (base, cpu) of (Some b, Some c) \<Rightarrow> Some (b, c) | _ \<Rightarrow> None, st))"

definition plan_symbols :: "bytes list" where
  "plan_symbols =
     [''ggml_init'', ''ggml_free'', ''ggml_new_tensor_2d'', ''ggml_mul_mat'', ''ggml_new_graph_custom'',
      ''ggml_build_forward_expand'', ''ggml_backend_alloc_ctx_tensors'', ''ggml_backend_tensor_set'']"

definition weight_buffer_of ::
    "('w, 'v) ggml \<Rightarrow> bool \<Rightarrow> nat option \<Rightarrow> ('l, 'w) ggml_state \<Rightarrow> nat option \<times> ('l, 'w) ggml_state" where
  "weight_buffer_of g repacked backend st =
     (if repacked then obtain_object g Alloc st
      else if backend = None then (None, st) else obtain_object g Alloc st)"

definition cpu_plan_build ::
    "'l loader \<Rightarrow> environment \<Rightarrow> ('w, 'v) ggml \<Rightarrow> 'l \<Rightarrow> 'l \<Rightarrow> int \<Rightarrow> u64 \<Rightarrow> 'w \<Rightarrow> u64 \<Rightarrow> int \<Rightarrow> int \<Rightarrow> nat \<Rightarrow> nat \<Rightarrow>
       ('l, 'w) ggml_state \<Rightarrow> 'w cpu_plan option \<times> ('l, 'w) ggml_state" where
  "cpu_plan_build ld env g base cpu type weights bytes_of_weights wbytes rows width context weight_context st =
     (let (weight, st) = ask g NewTensor st;
          (input, st) = ask g NewTensor st;
          (result, st) = (if weight \<and> input then ask g MulMat st else (False, st));
          (graph, st) = (if result then ask g NewGraph st else (False, st));
          (backend, st) = get_shared_cpu_backend ld env g cpu st;
          (buffer, st) = (if backend = None then (None, st) else obtain_object g Alloc st);
          (repack, st) = get_repack_buft ld g cpu st;
          (weight_buffer, st) = weight_buffer_of g
            (repack \<and> dlsym ld base ''ggml_backend_alloc_ctx_tensors_from_buft'' \<and> repack_supported type rows) backend st
      in if buffer = None \<or> \<not> weight \<or> \<not> input \<or> \<not> result \<or> \<not> graph \<or> weight_buffer = None
         then let st = (if dlsym ld base ''ggml_backend_buffer_free'' then release weight_buffer (release buffer st) else st)
              in (None, release (Some weight_context) (release (Some context) st))
         else (Some \<lparr>plan_type = type, plan_rows = rows, plan_width = width, weights_host = weights, weight_bytes = wbytes,
                 plan_context = context, plan_weight_context = weight_context, plan_buffer = the buffer,
                 plan_weight_buffer = the weight_buffer, weight_data = bytes_of_weights\<rparr>, st))"

definition cpu_plan_make ::
    "'l loader \<Rightarrow> environment \<Rightarrow> ('w, 'v) ggml \<Rightarrow> (u64 \<Rightarrow> 'w) \<Rightarrow> int \<Rightarrow> u64 \<Rightarrow> u64 \<Rightarrow> int \<Rightarrow> int \<Rightarrow>
       ('l, 'w) ggml_state \<Rightarrow> 'w cpu_plan option \<times> ('l, 'w) ggml_state" where
  "cpu_plan_make ld env g mem type weights wbytes rows width st =
     (let (libraries, st) = open_both ld env st
      in case libraries of
           None \<Rightarrow> (None, st)
         | Some (base, cpu) \<Rightarrow>
             (if \<not> list_all (dlsym ld base) plan_symbols then (None, st)
              else let (context, st) = obtain_object g Init st; (weight_context, st) = obtain_object g Init st
                   in case (context, weight_context) of
                        (Some c, Some w) \<Rightarrow> cpu_plan_build ld env g base cpu type weights (mem weights) wbytes rows width c w st
                      | _ \<Rightarrow> (None, st)))"

definition compute_symbols :: "bytes list" where
  "compute_symbols = [''ggml_backend_tensor_set'', ''ggml_backend_tensor_get'', ''ggml_backend_graph_compute'']"

definition cpu_plan_compute ::
    "'l loader \<Rightarrow> environment \<Rightarrow> ('w, 'v) ggml \<Rightarrow> 'w cpu_plan \<Rightarrow> 'v list option \<Rightarrow> bool \<Rightarrow>
       ('l, 'w) ggml_state \<Rightarrow> 'v list option \<times> ('l, 'w) ggml_state" where
  "cpu_plan_compute ld env g plan activation output_null st =
     (let (base, st) = open_ggml ld env st
      in if base = None \<or> activation = None \<or> output_null then (None, st)
         else if \<not> list_all (dlsym ld (the base)) compute_symbols then (None, st)
         else let (computed, st) = ask g Compute st
              in (if computed
                  then Some (product g (plan_type plan) (weight_data plan) (plan_rows plan) (plan_width plan)
                         (take (nat (plan_width plan)) (the activation)))
                  else None, st))"

definition PLAN_MAX :: nat where "PLAN_MAX = 256"
definition PLAN_BYTES_MAX :: u64 where "PLAN_BYTES_MAX = 4 * 1024 * 1024 * 1024"

definition cache_disabled :: "environment \<Rightarrow> bool" where
  "cache_disabled env \<longleftrightarrow> env ''FORTAI_GGML_CPU_CACHE'' = Some ''0''"

definition plan_matches :: "int \<Rightarrow> u64 \<Rightarrow> u64 \<Rightarrow> int \<Rightarrow> int \<Rightarrow> 'w cpu_plan \<Rightarrow> bool" where
  "plan_matches type weights wbytes rows width plan \<longleftrightarrow>
     plan_type plan = type \<and> weights_host plan = weights \<and> weight_bytes plan = wbytes \<and>
     plan_rows plan = rows \<and> plan_width plan = width"

definition cpu_plan_cached ::
    "'l loader \<Rightarrow> environment \<Rightarrow> ('w, 'v) ggml \<Rightarrow> (u64 \<Rightarrow> 'w) \<Rightarrow> int \<Rightarrow> u64 \<Rightarrow> u64 \<Rightarrow> int \<Rightarrow> int \<Rightarrow> 'v list option \<Rightarrow> bool \<Rightarrow>
       ('l, 'w) ggml_state \<Rightarrow> 'v list option \<times> ('l, 'w) ggml_state" where
  "cpu_plan_cached ld env g mem type weights wbytes rows width activation output_null st =
     (if cache_disabled env then (None, st)
      else case find (plan_matches type weights wbytes rows width) (cpu_plans st) of
        Some plan \<Rightarrow> cpu_plan_compute ld env g plan activation output_null st
      | None \<Rightarrow>
          if length (cpu_plans st) \<ge> PLAN_MAX \<or> cpu_plan_bytes st + wbytes > PLAN_BYTES_MAX then (None, st)
          else (case cpu_plan_make ld env g mem type weights wbytes rows width st of
                  (None, st) \<Rightarrow> (None, st)
                | (Some plan, st) \<Rightarrow>
                    cpu_plan_compute ld env g plan activation output_null
                      (st\<lparr>cpu_plans := cpu_plans st @ [plan], cpu_plan_bytes := cpu_plan_bytes st + wbytes\<rparr>)))"

subsection \<open>The direct product\<close>

definition direct_symbols :: "bytes list" where
  "direct_symbols =
     [''ggml_init'', ''ggml_free'', ''ggml_new_tensor_2d'', ''ggml_mul_mat'', ''ggml_new_graph_custom'',
      ''ggml_build_forward_expand'', ''ggml_backend_free'', ''ggml_backend_alloc_ctx_tensors'',
      ''ggml_backend_buffer_free'', ''ggml_backend_tensor_set'', ''ggml_backend_tensor_get'',
      ''ggml_backend_graph_compute'']"

definition direct_product ::
    "('w, 'v) ggml \<Rightarrow> int \<Rightarrow> 'w \<Rightarrow> int \<Rightarrow> int \<Rightarrow> 'v list \<Rightarrow> nat \<Rightarrow> ('l, 'w) ggml_state \<Rightarrow> 'v list option \<times> ('l, 'w) ggml_state" where
  "direct_product g type bytes_of_weights rows width activation context st =
     (let (weight, st) = ask g NewTensor st;
          (input, st) = ask g NewTensor st;
          (result, st) = (if weight \<and> input then ask g MulMat st else (False, st));
          (graph, st) = (if result then ask g NewGraph st else (False, st));
          (backend, st) = obtain_object g CpuInit st;
          (buffer, st) = (if backend = None then (None, st) else obtain_object g Alloc st);
          (computed, st) = (if buffer \<noteq> None \<and> weight \<and> input \<and> result \<and> graph then ask g Compute st else (False, st))
      in (if computed then Some (product g type bytes_of_weights rows width (take (nat width) activation)) else None,
          release (Some context) (release backend (release buffer st))))"

definition weights_fit :: "int \<Rightarrow> int \<Rightarrow> int \<Rightarrow> u64 \<Rightarrow> bool" where
  "weights_fit type rows width wbytes =
     (case dequant_name type of
        None \<Rightarrow> False
      | Some (block_width, block_bytes, _) \<Rightarrow>
          width mod int block_width = 0 \<and>
          word_of_int (width div int block_width) * word_of_nat block_bytes * word_of_int rows = wbytes)"

definition quant_matvec ::
    "'l loader \<Rightarrow> environment \<Rightarrow> ('w, 'v) ggml \<Rightarrow> (u64 \<Rightarrow> 'w) \<Rightarrow> int \<Rightarrow> u64 \<Rightarrow> u64 \<Rightarrow> int \<Rightarrow> int \<Rightarrow> 'v list option \<Rightarrow> bool \<Rightarrow>
       ('l, 'w) ggml_state \<Rightarrow> 'v list option \<times> ('l, 'w) ggml_state" where
  "quant_matvec ld env g mem type weights wbytes rows width activation output_null st =
     (if weights = 0 \<or> activation = None \<or> output_null \<or> rows \<le> 0 \<or> width \<le> 0 \<or> \<not> weights_fit type rows width wbytes
      then (None, st)
      else case cpu_plan_cached ld env g mem type weights wbytes rows width activation output_null st of
        (Some result, st) \<Rightarrow> (Some result, st)
      | (None, st) \<Rightarrow>
          (let (libraries, st) = open_both ld env st
           in case libraries of
                None \<Rightarrow> (None, st)
              | Some (base, cpu) \<Rightarrow>
                  (if \<not> list_all (dlsym ld base) direct_symbols \<or> \<not> dlsym ld cpu ''ggml_backend_cpu_init'' then (None, st)
                   else (case obtain_object g Init st of
                           (None, st) \<Rightarrow> (None, st)
                         | (Some context, st) \<Rightarrow> direct_product g type (mem weights) rows width (the activation) context st))))"

subsection \<open>Groups\<close>

text \<open>One matrix of a group as the caller describes it.\<close>

record 'v matrix =
  matrix_type :: int
  matrix_weights :: u64
  matrix_bytes :: u64
  matrix_rows :: int
  matrix_output_null :: bool

definition GROUP_MAX :: nat where "GROUP_MAX = 3"

definition group_symbols :: "bytes list" where
  "group_symbols =
     [''ggml_init'', ''ggml_free'', ''ggml_new_tensor_2d'', ''ggml_mul_mat'', ''ggml_new_graph_custom'',
      ''ggml_build_forward_expand'', ''ggml_backend_free'', ''ggml_backend_alloc_ctx_tensors'',
      ''ggml_backend_buffer_free'', ''ggml_backend_tensor_set'']"

fun group_tensors :: "('w, 'v) ggml \<Rightarrow> bool \<Rightarrow> nat \<Rightarrow> ('l, 'w) ggml_state \<Rightarrow> (bool \<times> bool) list \<times> ('l, 'w) ggml_state" where
  "group_tensors g input 0 st = ([], st)"
| "group_tensors g input (Suc n) st =
     (let (weight, st) = ask g NewTensor st;
          (result, st) = (if weight \<and> input then ask g MulMat st else (False, st));
          (rest, st) = group_tensors g input n st
      in ((weight, result) # rest, st))"

definition member_of :: "(u64 \<Rightarrow> 'w) \<Rightarrow> 'v matrix \<Rightarrow> 'w member" where
  "member_of mem m =
     \<lparr>member_type = matrix_type m, member_rows = matrix_rows m, member_host = matrix_weights m,
      member_bytes = matrix_bytes m, member_data = mem (matrix_weights m)\<rparr>"

definition group_plan_build ::
    "'l loader \<Rightarrow> environment \<Rightarrow> ('w, 'v) ggml \<Rightarrow> (u64 \<Rightarrow> 'w) \<Rightarrow> 'l \<Rightarrow> 'l \<Rightarrow> 'v matrix list \<Rightarrow> int \<Rightarrow> nat \<Rightarrow> nat \<Rightarrow>
       ('l, 'w) ggml_state \<Rightarrow> 'w group_plan option \<times> ('l, 'w) ggml_state" where
  "group_plan_build ld env g mem base cpu ms width context weight_context st =
     (let (input, st) = ask g NewTensor st;
          (tensors, st) = group_tensors g input (length ms) st;
          (graph, st) = ask g NewGraph st;
          (backend, st) = get_shared_cpu_backend ld env g cpu st;
          (buffer, st) = (if backend = None then (None, st) else obtain_object g Alloc st);
          (repack, st) = get_repack_buft ld g cpu st;
          repacked = map (\<lambda>m. repack \<and> dlsym ld base ''ggml_backend_alloc_ctx_tensors_from_buft'' \<and>
            repack_supported (matrix_type m) (matrix_rows m)) ms;
          (repack_buf, st) = (if backend \<noteq> None \<and> True \<in> set repacked then obtain_object g Alloc st else (None, st));
          (plain_buf, st) = (if backend \<noteq> None \<and> False \<in> set repacked then obtain_object g Alloc st else (None, st));
          buffers = map (\<lambda>r. if backend = None then None else if r then repack_buf else plain_buf) repacked;
          buffers_ready = (backend \<noteq> None \<and> \<not> (repack_buf = None \<and> plain_buf = None) \<and> None \<notin> set buffers);
          discard = (\<lambda>st. release (Some weight_context) (release (Some context) (release plain_buf (release repack_buf (release buffer st)))))
      in if buffer = None \<or> \<not> buffers_ready \<or> \<not> input \<or> \<not> graph then (None, discard st)
         else let st = st\<lparr>null_tensor := null_tensor st \<or>
                        (dlsym ld base ''ggml_backend_buffer_init_tensor'' \<and> False \<in> fst ` set tensors)\<rparr>
              in if \<exists>(weight, result)\<in>set tensors. \<not> weight \<or> \<not> result then (None, discard st)
                 else (Some \<lparr>members = map (member_of mem) ms, group_width = width, group_context = context,
                         group_weight_context = weight_context, group_buffer = the buffer,
                         repack_buffer = repack_buf, plain_buffer = plain_buf\<rparr>, st))"

definition group_plan_make ::
    "'l loader \<Rightarrow> environment \<Rightarrow> ('w, 'v) ggml \<Rightarrow> (u64 \<Rightarrow> 'w) \<Rightarrow> 'v matrix list \<Rightarrow> int \<Rightarrow>
       ('l, 'w) ggml_state \<Rightarrow> 'w group_plan option \<times> ('l, 'w) ggml_state" where
  "group_plan_make ld env g mem ms width st =
     (let (libraries, st) = open_both ld env st
      in case libraries of
           None \<Rightarrow> (None, st)
         | Some (base, cpu) \<Rightarrow>
             (if length ms < 2 \<or> length ms > GROUP_MAX \<or> \<not> list_all (dlsym ld base) group_symbols then (None, st)
              else let (context, st) = obtain_object g Init st; (weight_context, st) = obtain_object g Init st
                   in case (context, weight_context) of
                        (Some c, Some w) \<Rightarrow> group_plan_build ld env g mem base cpu ms width c w st
                      | _ \<Rightarrow> (None, st)))"

definition group_plan_compute ::
    "'l loader \<Rightarrow> environment \<Rightarrow> ('w, 'v) ggml \<Rightarrow> 'w group_plan \<Rightarrow> 'v list option \<Rightarrow>
       ('l, 'w) ggml_state \<Rightarrow> 'v list list option \<times> ('l, 'w) ggml_state" where
  "group_plan_compute ld env g plan activation st =
     (let (base, st) = open_ggml ld env st
      in if base = None \<or> activation = None then (None, st)
         else if \<not> list_all (dlsym ld (the base)) compute_symbols then (None, st)
         else let (computed, st) = ask g Compute st
              in (if computed
                  then Some (map (\<lambda>m. product g (member_type m) (member_data m) (member_rows m) (group_width plan)
                         (take (nat (group_width plan)) (the activation))) (members plan))
                  else None, st))"

definition group_matches :: "'v matrix list \<Rightarrow> int \<Rightarrow> 'w group_plan \<Rightarrow> bool" where
  "group_matches ms width plan \<longleftrightarrow>
     length (members plan) = length ms \<and> group_width plan = width \<and>
     list_all2 (\<lambda>p m. member_type p = matrix_type m \<and> member_rows p = matrix_rows m \<and>
       member_host p = matrix_weights m \<and> member_bytes p = matrix_bytes m) (members plan) ms"

definition group_plan_cached ::
    "'l loader \<Rightarrow> environment \<Rightarrow> ('w, 'v) ggml \<Rightarrow> (u64 \<Rightarrow> 'w) \<Rightarrow> 'v matrix list \<Rightarrow> int \<Rightarrow> 'v list option \<Rightarrow>
       ('l, 'w) ggml_state \<Rightarrow> 'v list list option \<times> ('l, 'w) ggml_state" where
  "group_plan_cached ld env g mem ms width activation st =
     (if cache_disabled env then (None, st)
      else case find (group_matches ms width) (group_plans st) of
        Some plan \<Rightarrow> group_plan_compute ld env g plan activation st
      | None \<Rightarrow>
          (let wbytes = sum_list (map matrix_bytes ms)
           in if length (group_plans st) \<ge> PLAN_MAX \<or> group_plan_bytes st + wbytes > PLAN_BYTES_MAX then (None, st)
              else (case group_plan_make ld env g mem ms width st of
                      (None, st) \<Rightarrow> (None, st)
                    | (Some plan, st) \<Rightarrow>
                        group_plan_compute ld env g plan activation
                          (st\<lparr>group_plans := group_plans st @ [plan], group_plan_bytes := group_plan_bytes st + wbytes\<rparr>))))"

definition quant_matvec_group ::
    "'l loader \<Rightarrow> environment \<Rightarrow> ('w, 'v) ggml \<Rightarrow> (u64 \<Rightarrow> 'w) \<Rightarrow> 'v matrix list \<Rightarrow> int \<Rightarrow> 'v list option \<Rightarrow>
       ('l, 'w) ggml_state \<Rightarrow> 'v list list option \<times> ('l, 'w) ggml_state" where
  "quant_matvec_group ld env g mem ms width activation st =
     (if env ''FORTAI_GGML_CPU_GROUP'' = Some ''0'' then (None, st)
      else if length ms < 2 \<or> length ms > GROUP_MAX \<or> activation = None \<or> width \<le> 0 then (None, st)
      else if \<exists>m\<in>set ms. matrix_weights m = 0 \<or> matrix_output_null m \<or> matrix_rows m \<le> 0 \<or>
          \<not> weights_fit (matrix_type m) (matrix_rows m) width (matrix_bytes m) then (None, st)
      else group_plan_cached ld env g mem ms width activation st)"

definition quant_matvec_pair ::
    "'l loader \<Rightarrow> environment \<Rightarrow> ('w, 'v) ggml \<Rightarrow> (u64 \<Rightarrow> 'w) \<Rightarrow> 'v matrix \<Rightarrow> 'v matrix \<Rightarrow> int \<Rightarrow> 'v list option \<Rightarrow>
       ('l, 'w) ggml_state \<Rightarrow> 'v list list option \<times> ('l, 'w) ggml_state" where
  "quant_matvec_pair ld env g mem first second = quant_matvec_group ld env g mem [first, second]"

definition quant_matvec_triplet ::
    "'l loader \<Rightarrow> environment \<Rightarrow> ('w, 'v) ggml \<Rightarrow> (u64 \<Rightarrow> 'w) \<Rightarrow> 'v matrix \<Rightarrow> 'v matrix \<Rightarrow> 'v matrix \<Rightarrow> int \<Rightarrow> 'v list option \<Rightarrow>
       ('l, 'w) ggml_state \<Rightarrow> 'v list list option \<times> ('l, 'w) ggml_state" where
  "quant_matvec_triplet ld env g mem first second third = quant_matvec_group ld env g mem [first, second, third]"

subsection \<open>Clearing\<close>

definition release_if :: "bool \<Rightarrow> nat option \<Rightarrow> ('l, 'w) ggml_state \<Rightarrow> ('l, 'w) ggml_state" where
  "release_if found p st = (if found then release p st else st)"

definition clear_plan :: "bool \<Rightarrow> bool \<Rightarrow> 'w cpu_plan \<Rightarrow> ('l, 'w) ggml_state \<Rightarrow> ('l, 'w) ggml_state" where
  "clear_plan buffer_free free_ctx p st =
     release_if free_ctx (Some (plan_weight_context p)) (release_if free_ctx (Some (plan_context p))
       (release_if buffer_free (Some (plan_weight_buffer p)) (release_if buffer_free (Some (plan_buffer p)) st)))"

definition clear_group :: "bool \<Rightarrow> bool \<Rightarrow> 'w group_plan \<Rightarrow> ('l, 'w) ggml_state \<Rightarrow> ('l, 'w) ggml_state" where
  "clear_group buffer_free free_ctx p st =
     release_if free_ctx (Some (group_weight_context p)) (release_if free_ctx (Some (group_context p))
       (release_if buffer_free (plain_buffer p) (release_if buffer_free (repack_buffer p)
         (release_if buffer_free (Some (group_buffer p)) st))))"

definition quant_cache_clear :: "'l loader \<Rightarrow> environment \<Rightarrow> ('l, 'w) ggml_state \<Rightarrow> ('l, 'w) ggml_state" where
  "quant_cache_clear ld env st =
     (if cpu_plans st = [] \<and> group_plans st = [] \<and> shared_backend st = None then st
      else case open_ggml ld env st of
        (None, st) \<Rightarrow> st
      | (Some base, st) \<Rightarrow>
          let buffer_free = dlsym ld base ''ggml_backend_buffer_free''; free_ctx = dlsym ld base ''ggml_free'';
              st = fold (clear_plan buffer_free free_ctx) (cpu_plans st) st;
              st = fold (clear_group buffer_free free_ctx) (group_plans st) st;
              st = release_if (dlsym ld base ''ggml_backend_free'') (shared_backend st) st
          in st\<lparr>shared_backend := None, cpu_plans := [], cpu_plan_bytes := 0, group_plans := [], group_plan_bytes := 0\<rparr>)"

end
