(* ===== verification/GgmlOwnership.thy ===== *)
theory GgmlOwnership
  imports GgmlPlans
begin

section \<open>Who owns the objects of GGML\<close>

text \<open>
  The bookkeeping for \<open>GgmlPlans\<close>: which contexts, buffers and backends a state owns through its
  plans, and a predicate \<open>owns\<close> that says that a function's own objects and those of the state are live,
  different and, where nothing was lost, all there is. Every primitive step has a lemma on what it does
  to it; making a plan then keeps it by following the steps of the code. The last part is the invariant
  of the two caches and what entering a new plan does to it.
\<close>

subsection \<open>Objects and ownership\<close>

definition plan_objects :: "'w cpu_plan \<Rightarrow> nat list" where
  "plan_objects p = [plan_context p, plan_weight_context p, plan_buffer p, plan_weight_buffer p]"

definition maybe :: "nat option \<Rightarrow> nat list" where
  "maybe p = (case p of None \<Rightarrow> [] | Some n \<Rightarrow> [n])"

lemma maybe_simps [simp]: "maybe None = []" "maybe (Some n) = [n]"
  by (simp_all add: maybe_def)

definition group_objects :: "'w group_plan \<Rightarrow> nat list" where
  "group_objects p =
     [group_context p, group_weight_context p, group_buffer p] @ maybe (repack_buffer p) @ maybe (plain_buffer p)"

definition objects :: "('l, 'w) ggml_state \<Rightarrow> nat list" where
  "objects st =
     concat (map plan_objects (cpu_plans st)) @ concat (map group_objects (group_plans st)) @ maybe (shared_backend st)"

text \<open>
  \<open>xs\<close> are the objects a function holds apart from those of the caches and the shared backend. All are
  live and different, nothing has been released twice, and, where \<open>exact\<close>, nothing else is live.
\<close>

definition owns :: "bool \<Rightarrow> ('l, 'w) ggml_state \<Rightarrow> nat list \<Rightarrow> bool" where
  "owns exact st xs \<longleftrightarrow>
     distinct (xs @ objects st) \<and> set (xs @ objects st) \<subseteq> live st \<and>
     (exact \<longrightarrow> live st = set (xs @ objects st)) \<and> (\<forall>n\<in>live st. n < calls st) \<and> \<not> fault st"

definition frame :: "('l, 'w) ggml_state \<Rightarrow> ('l, 'w) ggml_state \<Rightarrow> bool" where
  "frame st st' \<longleftrightarrow>
     cpu_plans st' = cpu_plans st \<and> cpu_plan_bytes st' = cpu_plan_bytes st \<and>
     group_plans st' = group_plans st \<and> group_plan_bytes st' = group_plan_bytes st \<and>
     (ggml_attempted st \<longrightarrow> ggml_attempted st' \<and> ggml_handle st' = ggml_handle st)"

lemma frame_refl [simp]: "frame st st"
  by (simp add: frame_def)

lemma frame_trans [trans]: "frame st st' \<Longrightarrow> frame st' st'' \<Longrightarrow> frame st st''"
  by (simp add: frame_def)

lemma owns_forget: "owns e st xs \<Longrightarrow> distinct ys \<Longrightarrow> set ys \<subseteq> set xs \<Longrightarrow> owns False st ys"
  by (auto simp: owns_def)

lemma owns_perm: "owns e st xs \<Longrightarrow> distinct ys \<Longrightarrow> set ys = set xs \<Longrightarrow> owns e st ys"
  by (auto simp: owns_def)

named_theorems ggml_keeps \<open>what the primitive steps keep\<close>

lemma objects_simps [simp]:
  "objects (st\<lparr>calls := c\<rparr>) = objects st" "objects (st\<lparr>live := l\<rparr>) = objects st" "objects (st\<lparr>fault := b\<rparr>) = objects st"
  "objects (st\<lparr>ggml_handle := h\<rparr>) = objects st" "objects (st\<lparr>ggml_attempted := b\<rparr>) = objects st"
  "objects (st\<lparr>cpu_handle := h\<rparr>) = objects st" "objects (st\<lparr>cpu_attempted := b\<rparr>) = objects st"
  "objects (st\<lparr>log_filtered := b\<rparr>) = objects st" "objects (st\<lparr>backend_threads := k\<rparr>) = objects st"
  "objects (st\<lparr>null_tensor := b\<rparr>) = objects st"
  by (simp_all add: objects_def)

lemma ask_keeps [ggml_keeps]:
  "ask g c st = (r, st') \<Longrightarrow> frame st st'"
  "ask g c st = (r, st') \<Longrightarrow> owns e st xs \<Longrightarrow> owns e st' xs"
  by (auto simp: ask_def frame_def owns_def less_Suc_eq)

lemma owns_fresh: "owns e st xs \<Longrightarrow> calls st \<notin> live st"
  by (auto simp: owns_def)

lemma owns_insert:
  assumes "owns e st xs"
  shows "owns e (st\<lparr>calls := calls st + 1, live := insert (calls st) (live st)\<rparr>) (xs @ [calls st])"
proof -
  have "calls st \<notin> set (xs @ objects st)" using owns_fresh [OF assms] assms by (auto simp: owns_def)
  moreover have "\<forall>n\<in>insert (calls st) (live st). n < calls st + 1" using assms by (auto simp: owns_def)
  ultimately show ?thesis using assms unfolding owns_def by simp blast
qed

lemma obtain_keeps [ggml_keeps]:
  "obtain_object g c st = (p, st') \<Longrightarrow> frame st st'"
  "obtain_object g c st = (p, st') \<Longrightarrow> owns e st xs \<Longrightarrow> owns e st' (xs @ maybe p)"
proof -
  show "obtain_object g c st = (p, st') \<Longrightarrow> frame st st'"
    by (simp add: obtain_object_def frame_def split: if_splits; clarsimp)
  assume o: "obtain_object g c st = (p, st')" and "owns e st xs"
  then have "owns e (st\<lparr>calls := calls st + 1\<rparr>) xs" by (auto simp: owns_def less_Suc_eq)
  then show "owns e st' (xs @ maybe p)"
    using o owns_insert [OF \<open>owns e st xs\<close>] by (simp add: obtain_object_def split: if_splits; clarsimp)
qed

lemma release_keeps [ggml_keeps]:
  "frame st (release p st)"
  "owns e st (xs @ maybe p @ ys) \<Longrightarrow> owns e (release p st) (xs @ ys)"
proof -
  show "frame st (release p st)" by (cases p) (simp_all add: release_def frame_def)
  assume o: "owns e st (xs @ maybe p @ ys)"
  show "owns e (release p st) (xs @ ys)"
  proof (cases p)
    case None
    with o show ?thesis by (simp add: release_def)
  next
    case (Some n)
    with o have "n \<notin> set (xs @ ys @ objects st)" and "n \<in> live st" by (auto simp: owns_def)
    with o Some show ?thesis by (auto simp: release_def owns_def)
  qed
qed

lemma install_keeps:
  "frame st (install_log_filter ld base st)"
  "owns e st xs \<Longrightarrow> owns e (install_log_filter ld base st) xs"
  by (simp_all add: install_log_filter_def frame_def owns_def)

lemma open_keeps [ggml_keeps]:
  "open_ggml ld env st = (r, st') \<Longrightarrow> frame st st'"
  "open_ggml ld env st = (r, st') \<Longrightarrow> owns e st xs \<Longrightarrow> owns e st' xs"
  "open_ggml_cpu ld env st = (r, st') \<Longrightarrow> frame st st'"
  "open_ggml_cpu ld env st = (r, st') \<Longrightarrow> owns e st xs \<Longrightarrow> owns e st' xs"
proof -
  show "open_ggml ld env st = (r, st') \<Longrightarrow> frame st st'"
    by (auto simp: open_ggml_def install_log_filter_def frame_def Let_def split: if_splits option.splits)
  show "open_ggml_cpu ld env st = (r, st') \<Longrightarrow> frame st st'"
    by (auto simp: open_ggml_cpu_def frame_def Let_def split: if_splits)
  show "owns e st' xs" if "open_ggml_cpu ld env st = (r, st')" and "owns e st xs"
    using that by (auto simp: open_ggml_cpu_def owns_def Let_def split: if_splits)
  assume o: "open_ggml ld env st = (r, st')" and "owns e st xs"
  then have "owns e (st\<lparr>ggml_attempted := True, ggml_handle := r\<rparr>) xs" by (simp add: owns_def)
  with o \<open>owns e st xs\<close> show "owns e st' xs"
    using install_keeps(2) by (auto simp: open_ggml_def Let_def split: if_splits option.splits)
qed

lemma open_both_keeps [ggml_keeps]:
  assumes "open_both ld env st = (r, st')"
  shows "frame st st'" and "owns e st xs \<Longrightarrow> owns e st' xs"
proof -
  obtain b s1 where b: "open_ggml ld env st = (b, s1)" by fastforce
  obtain c s2 where c: "open_ggml_cpu ld env s1 = (c, s2)" by fastforce
  have st': "st' = s2" using assms b c by (simp add: open_both_def)
  show "frame st st'" using open_keeps(1) [OF b] open_keeps(3) [OF c] unfolding st' by (rule frame_trans)
  show "owns e st xs \<Longrightarrow> owns e st' xs" using open_keeps(2) [OF b] open_keeps(4) [OF c] unfolding st' by blast
qed

lemma backend_keeps [ggml_keeps]:
  assumes "get_shared_cpu_backend ld env g cpu st = (r, st')"
  shows "frame st st'" and "owns e st xs \<Longrightarrow> owns e st' xs"
proof -
  have "frame st st' \<and> (owns e st xs \<longrightarrow> owns e st' xs)"
  proof (cases "shared_backend st \<noteq> None \<or> \<not> dlsym ld cpu ''ggml_backend_cpu_init''")
    case True
    then show ?thesis using assms by (auto simp: get_shared_cpu_backend_def split: if_splits)
  next
    case False
    obtain p s1 where o: "obtain_object g CpuInit st = (p, s1)" by fastforce
    obtain k where k: "st' = s1\<lparr>shared_backend := p, backend_threads := k\<rparr>"
    proof (cases "p \<noteq> None \<and> dlsym ld cpu ''ggml_backend_cpu_set_n_threads'' \<and> requested_threads env > 0")
      case True
      with False o assms have "st' = s1\<lparr>shared_backend := p, backend_threads := requested_threads env\<rparr>"
        by (auto simp: get_shared_cpu_backend_def)
      then show ?thesis by (rule that)
    next
      case no_threads: False
      with False o assms have "st' = s1\<lparr>shared_backend := p\<rparr>" by (auto simp: get_shared_cpu_backend_def)
      then have "st' = s1\<lparr>shared_backend := p, backend_threads := backend_threads s1\<rparr>" by simp
      then show ?thesis by (rule that)
    qed
    have s1: "shared_backend s1 = None" using o False by (auto simp: obtain_object_def split: if_splits)
    have "frame st st'" using obtain_keeps(1) [OF o] by (simp add: k frame_def)
    moreover have "owns e st' xs" if "owns e st xs"
    proof -
      have "owns e s1 (xs @ maybe p)" by (rule obtain_keeps(2) [OF o that])
      moreover have "set (objects st') = set (maybe p) \<union> set (objects s1)" "distinct (objects st') = distinct (maybe p @ objects s1)"
        using s1 by (auto simp: k objects_def)
      ultimately show ?thesis unfolding owns_def k by auto
    qed
    ultimately show ?thesis by blast
  qed
  then show "frame st st'" and "owns e st xs \<Longrightarrow> owns e st' xs" by blast+
qed

lemma repack_keeps [ggml_keeps]:
  "get_repack_buft ld g cpu st = (r, st') \<Longrightarrow> frame st st'"
  "get_repack_buft ld g cpu st = (r, st') \<Longrightarrow> owns e st xs \<Longrightarrow> owns e st' xs"
  by (auto simp: get_repack_buft_def ggml_keeps split: if_splits)

text \<open>A call or an allocation that is made under a condition only.\<close>

lemma ask_if_keeps [ggml_keeps]:
  "(if b then ask g c st else (False, st)) = (r, st') \<Longrightarrow> frame st st'"
  "(if b then ask g c st else (False, st)) = (r, st') \<Longrightarrow> owns e st xs \<Longrightarrow> owns e st' xs"
  by (auto simp: ggml_keeps split: if_splits)

lemma obtain_if_keeps [ggml_keeps]:
  "(if b then obtain_object g c st else (None, st)) = (p, st') \<Longrightarrow> frame st st'"
  "(if b then obtain_object g c st else (None, st)) = (p, st') \<Longrightarrow> owns e st xs \<Longrightarrow> owns e st' (xs @ maybe p)"
  "(if b then (None, st) else obtain_object g c st) = (p, st') \<Longrightarrow> frame st st'"
  "(if b then (None, st) else obtain_object g c st) = (p, st') \<Longrightarrow> owns e st xs \<Longrightarrow> owns e st' (xs @ maybe p)"
  by (auto simp: ggml_keeps split: if_splits)

lemma weight_buffer_keeps [ggml_keeps]:
  "weight_buffer_of g b backend st = (p, st') \<Longrightarrow> frame st st'"
  "weight_buffer_of g b backend st = (p, st') \<Longrightarrow> owns e st xs \<Longrightarrow> owns e st' (xs @ maybe p)"
  by (auto simp: weight_buffer_of_def ggml_keeps split: if_splits)

text \<open>GGML can make contexts and release everything.\<close>

definition releasable :: "'l loader \<Rightarrow> ('w, 'v) ggml \<Rightarrow> bool" where
  "releasable ld g \<longleftrightarrow>
     (\<forall>n. answer g Init n) \<and>
     (\<forall>lib. dlsym ld lib ''ggml_backend_buffer_free'' \<and> dlsym ld lib ''ggml_free'' \<and> dlsym ld lib ''ggml_backend_free'')"

lemma cpu_plan_build_keeps:
  assumes "cpu_plan_build ld env g base cpu type weights data wbytes rows width c w st = (r, st')"
  shows "frame st st'"
    and "owns e st [c, w] \<Longrightarrow> (e \<Longrightarrow> releasable ld g) \<Longrightarrow> owns e st' (case r of None \<Rightarrow> [] | Some p \<Rightarrow> plan_objects p)"
    and "r = Some p \<Longrightarrow> plan_matches type weights wbytes rows width p \<and> weight_data p = data"
proof -
  obtain weight s1 where 1: "ask g NewTensor st = (weight, s1)" by fastforce
  obtain input s2 where 2: "ask g NewTensor s1 = (input, s2)" by fastforce
  obtain result s3 where 3: "(if weight \<and> input then ask g MulMat s2 else (False, s2)) = (result, s3)" by fastforce
  obtain graph s4 where 4: "(if result then ask g NewGraph s3 else (False, s3)) = (graph, s4)" by fastforce
  obtain backend s5 where 5: "get_shared_cpu_backend ld env g cpu s4 = (backend, s5)" by fastforce
  obtain buffer s6 where 6: "(if backend = None then (None, s5) else obtain_object g Alloc s5) = (buffer, s6)" by fastforce
  obtain repack s7 where 7: "get_repack_buft ld g cpu s6 = (repack, s7)" by fastforce
  obtain wbuffer s8 where 8: "weight_buffer_of g (repack \<and> dlsym ld base ''ggml_backend_alloc_ctx_tensors_from_buft'' \<and>
      repack_supported type rows) backend s7 = (wbuffer, s8)" by fastforce
  note steps = 1 2 3 4 5 6 7 8
  let ?bad = "buffer = None \<or> \<not> weight \<or> \<not> input \<or> \<not> result \<or> \<not> graph \<or> wbuffer = None"
  let ?free = "dlsym ld base ''ggml_backend_buffer_free''"
  let ?s9 = "if ?free then release wbuffer (release buffer s8) else s8"
  have bad: "?bad \<Longrightarrow> r = None \<and> st' = release (Some w) (release (Some c) ?s9)"
    using assms steps by (simp add: cpu_plan_build_def)
  have good: "\<not> ?bad \<Longrightarrow> st' = s8 \<and> r = Some \<lparr>plan_type = type, plan_rows = rows, plan_width = width, weights_host = weights,
      weight_bytes = wbytes, plan_context = c, plan_weight_context = w, plan_buffer = the buffer,
      plan_weight_buffer = the wbuffer, weight_data = data\<rparr>"
    using assms steps by (auto simp: cpu_plan_build_def)
  have f8: "frame st s8"
    using ask_keeps(1) [OF 1] ask_keeps(1) [OF 2] ask_if_keeps(1) [OF 3] ask_if_keeps(1) [OF 4] backend_keeps(1) [OF 5]
      obtain_if_keeps(3) [OF 6] repack_keeps(1) [OF 7] weight_buffer_keeps(1) [OF 8] by (meson frame_trans)
  moreover have "frame s8 (release (Some w) (release (Some c) ?s9))"
    by (auto intro!: frame_trans [OF _ release_keeps(1)] release_keeps(1))
  ultimately show "frame st st'" using bad good frame_trans by (cases ?bad) auto
  show "r = Some p \<Longrightarrow> plan_matches type weights wbytes rows width p \<and> weight_data p = data"
    using bad good by (cases ?bad) (auto simp: plan_matches_def)
  assume "owns e st [c, w]" and e: "e \<Longrightarrow> releasable ld g"
  then have "owns e s5 [c, w]" using ask_keeps(2) [OF 1] ask_keeps(2) [OF 2] ask_if_keeps(2) [OF 3] ask_if_keeps(2) [OF 4] backend_keeps(2) [OF 5] by blast
  then have o8: "owns e s8 ([c, w] @ maybe buffer @ maybe wbuffer)"
    using obtain_if_keeps(4) [OF 6] repack_keeps(2) [OF 7] weight_buffer_keeps(2) [OF 8] by fastforce
  show "owns e st' (case r of None \<Rightarrow> [] | Some p \<Rightarrow> plan_objects p)"
  proof (cases ?bad)
    case True
    have "owns e ?s9 [c, w]"
    proof (cases ?free)
      case True
      from o8 have "owns e (release buffer s8) ([c, w] @ maybe wbuffer @ [])" using release_keeps(2) by fastforce
      then have "owns e (release wbuffer (release buffer s8)) ([c, w] @ [])" by (rule release_keeps(2))
      with True show ?thesis by simp
    next
      case False
      then have "\<not> e" using e by (auto simp: releasable_def)
      with False o8 owns_forget [OF o8, of "[c, w]"] show ?thesis by (auto simp: owns_def)
    qed
    then have "owns e (release (Some c) ?s9) [w]" using release_keeps(2) [of e ?s9 "[]" "Some c" "[w]"] by simp
    then have "owns e (release (Some w) (release (Some c) ?s9)) []"
      using release_keeps(2) [of e "release (Some c) ?s9" "[]" "Some w" "[]"] by (simp only: maybe_simps append_Nil append_Nil2)
    then show ?thesis using bad [OF True] by simp
  next
    case False
    then show ?thesis using good [OF False] o8 by (auto simp: plan_objects_def)
  qed
qed

lemma contexts_keeps:
  assumes "obtain_object g Init st = (c, s1)" and "obtain_object g Init s1 = (w, s2)"
  shows "frame st s2" and "owns e st [] \<Longrightarrow> owns e s2 (maybe c @ maybe w)"
    and "owns e st [] \<Longrightarrow> (e \<Longrightarrow> releasable ld g) \<Longrightarrow> c = None \<or> w = None \<Longrightarrow> owns e s2 []"
proof -
  show "frame st s2" using obtain_keeps(1) [OF assms(1)] obtain_keeps(1) [OF assms(2)] by (rule frame_trans)
  show o: "owns e s2 (maybe c @ maybe w)" if "owns e st []"
    using obtain_keeps(2) [OF assms(2) obtain_keeps(2) [OF assms(1) that]] by simp
  show "owns e s2 []" if "owns e st []" and "e \<Longrightarrow> releasable ld g" and none: "c = None \<or> w = None"
  proof (cases e)
    case True
    then have "c \<noteq> None" "w \<noteq> None" using that(2) assms by (auto simp: releasable_def obtain_object_def)
    with none show ?thesis by simp
  next
    case False
    then show ?thesis using owns_forget [OF o [OF that(1)], of "[]"] by simp
  qed
qed

lemma cpu_plan_make_keeps:
  assumes "cpu_plan_make ld env g mem type weights wbytes rows width st = (r, st')"
  shows "frame st st'"
    and "owns e st [] \<Longrightarrow> (e \<Longrightarrow> releasable ld g) \<Longrightarrow> owns e st' (case r of None \<Rightarrow> [] | Some p \<Rightarrow> plan_objects p)"
    and "r = Some p \<Longrightarrow> plan_matches type weights wbytes rows width p \<and> weight_data p = mem weights"
proof -
  obtain libraries s1 where 1: "open_both ld env st = (libraries, s1)" by fastforce
  have "frame st st' \<and> (owns e st [] \<longrightarrow> (e \<longrightarrow> releasable ld g) \<longrightarrow> owns e st' (case r of None \<Rightarrow> [] | Some p \<Rightarrow> plan_objects p)) \<and>
      (r = Some p \<longrightarrow> plan_matches type weights wbytes rows width p \<and> weight_data p = mem weights)"
  proof (cases "\<exists>base cpu. libraries = Some (base, cpu) \<and> list_all (dlsym ld base) plan_symbols")
    case False
    then have "r = None \<and> st' = s1" using assms 1 by (auto simp: cpu_plan_make_def split: option.splits if_splits)
    then show ?thesis using open_both_keeps [OF 1] by auto
  next
    case True
    then obtain base cpu where lib: "libraries = Some (base, cpu)" "list_all (dlsym ld base) plan_symbols" by blast
    obtain c s2 where 2: "obtain_object g Init s1 = (c, s2)" by fastforce
    obtain w s3 where 3: "obtain_object g Init s2 = (w, s3)" by fastforce
    note f = frame_trans [OF open_both_keeps(1) [OF 1] contexts_keeps(1) [OF 2 3]]
    show ?thesis
    proof (cases "c = None \<or> w = None")
      case True
      then have "r = None \<and> st' = s3" using assms 1 2 3 lib by (auto simp: cpu_plan_make_def split: option.splits)
      then show ?thesis using f open_both_keeps(2) [OF 1] contexts_keeps(3) [OF 2 3 _ _ True] by auto
    next
      case False
      then obtain c' w' where cw: "c = Some c'" "w = Some w'" by auto
      then have b: "cpu_plan_build ld env g base cpu type weights (mem weights) wbytes rows width c' w' s3 = (r, st')"
        using assms 1 2 3 lib by (simp add: cpu_plan_make_def)
      have "owns e s3 [c', w']" if "owns e st []"
        using contexts_keeps(2) [OF 2 3 open_both_keeps(2) [OF 1 that]] cw by simp
      then show ?thesis using cpu_plan_build_keeps [OF b] frame_trans [OF f] by blast
    qed
  qed
  then show "frame st st'"
    and "owns e st [] \<Longrightarrow> (e \<Longrightarrow> releasable ld g) \<Longrightarrow> owns e st' (case r of None \<Rightarrow> [] | Some p \<Rightarrow> plan_objects p)"
    and "r = Some p \<Longrightarrow> plan_matches type weights wbytes rows width p \<and> weight_data p = mem weights" by blast+
qed

lemma group_tensors_keeps [ggml_keeps]:
  "group_tensors g input n st = (r, st') \<Longrightarrow> frame st st'"
  "group_tensors g input n st = (r, st') \<Longrightarrow> owns e st xs \<Longrightarrow> owns e st' xs"
proof -
  have "frame st st' \<and> (owns e st xs \<longrightarrow> owns e st' xs)" if "group_tensors g input n st = (r, st')"
    using that
  proof (induction g input n st arbitrary: r st' rule: group_tensors.induct)
    case (2 g input n st)
    obtain w s1 where 1: "ask g NewTensor st = (w, s1)" by fastforce
    obtain m s2 where m: "(if w \<and> input then ask g MulMat s1 else (False, s1)) = (m, s2)" by fastforce
    obtain rest s3 where 3: "group_tensors g input n s2 = (rest, s3)" by fastforce
    have "st' = s3" using 2(2) 1 m 3 by (simp split: if_splits)
    moreover have "frame s2 s3 \<and> (owns e s2 xs \<longrightarrow> owns e s3 xs)"
      using 2(1) [OF 1 [symmetric] refl m [symmetric] refl 3] .
    ultimately show ?case
      using ask_keeps [OF 1] ask_if_keeps [OF m] frame_trans by blast
  qed simp
  then show "group_tensors g input n st = (r, st') \<Longrightarrow> frame st st'"
    and "group_tensors g input n st = (r, st') \<Longrightarrow> owns e st xs \<Longrightarrow> owns e st' xs" by blast+
qed

lemma discard_keeps:
  assumes "owns e st ([c, w] @ maybe b @ maybe r @ maybe p)"
  shows "owns e (release (Some w) (release (Some c) (release p (release r (release b st))))) []"
    and "frame st (release (Some w) (release (Some c) (release p (release r (release b st)))))"
proof -
  let ?st = "release p (release r (release b st))"
  have "owns e (release b st) ([c, w] @ maybe r @ maybe p)" using release_keeps(2) [of e st "[c, w]" b] assms by simp
  then have "owns e (release r (release b st)) ([c, w] @ maybe p @ [])" using release_keeps(2) [of e _ "[c, w]" r "maybe p"] by simp
  then have "owns e ?st ([] @ maybe (Some c) @ [w])" using release_keeps(2) [of e _ "[c, w]" p "[]"] by simp
  then have "owns e (release (Some c) ?st) ([] @ maybe (Some w) @ [])" using release_keeps(2) by fastforce
  then show "owns e (release (Some w) (release (Some c) ?st)) []" using release_keeps(2) by fastforce
  show "frame st (release (Some w) (release (Some c) ?st))"
    by (intro frame_trans [OF _ release_keeps(1)] release_keeps(1))
qed

lemma owns_null_tensor [simp]: "owns e (st\<lparr>null_tensor := b\<rparr>) xs = owns e st xs"
  by (simp add: owns_def)

lemma frame_null_tensor: "frame st st' \<Longrightarrow> frame st (st'\<lparr>null_tensor := b\<rparr>)"
  by (simp add: frame_def)

lemma group_plan_build_keeps:
  assumes "group_plan_build ld env g mem base cpu ms width c w st = (r, st')"
  shows "frame st st' \<and> (owns e st [c, w] \<longrightarrow> owns e st' (case r of None \<Rightarrow> [] | Some p \<Rightarrow> group_objects p)) \<and>
    (r = Some p \<longrightarrow> members p = map (member_of mem) ms \<and> group_width p = width)"
proof -
  obtain input s1 where 1: "ask g NewTensor st = (input, s1)" by fastforce
  obtain tensors s2 where 2: "group_tensors g input (length ms) s1 = (tensors, s2)" by fastforce
  obtain graph s3 where 3: "ask g NewGraph s2 = (graph, s3)" by fastforce
  obtain backend s4 where 4: "get_shared_cpu_backend ld env g cpu s3 = (backend, s4)" by fastforce
  obtain buffer s5 where 5: "(if backend = None then (None, s4) else obtain_object g Alloc s4) = (buffer, s5)" by fastforce
  obtain repack s6 where 6: "get_repack_buft ld g cpu s5 = (repack, s6)" by fastforce
  define repacked where "repacked = map (\<lambda>m. repack \<and> dlsym ld base ''ggml_backend_alloc_ctx_tensors_from_buft'' \<and>
    repack_supported (matrix_type m) (matrix_rows m)) ms"
  obtain rb s7 where 7: "(if backend \<noteq> None \<and> True \<in> set repacked then obtain_object g Alloc s6 else (None, s6)) = (rb, s7)" by fastforce
  obtain pb s8 where 8: "(if backend \<noteq> None \<and> False \<in> set repacked then obtain_object g Alloc s7 else (None, s7)) = (pb, s8)" by fastforce
  define ready where "ready = (backend \<noteq> None \<and> \<not> (rb = None \<and> pb = None) \<and>
    None \<notin> set (map (\<lambda>r. if backend = None then None else if r then rb else pb) repacked))"
  define nulls where "nulls = (null_tensor s8 \<or> (dlsym ld base ''ggml_backend_buffer_init_tensor'' \<and> False \<in> fst ` set tensors))"
  define missing where "missing = (\<exists>(weight, result)\<in>set tensors. \<not> weight \<or> \<not> result)"
  let ?discard = "\<lambda>st. release (Some w) (release (Some c) (release pb (release rb (release buffer st))))"
  let ?bad = "buffer = None \<or> \<not> ready \<or> \<not> input \<or> \<not> graph"
  have result: "(r, st') =
      (if ?bad then (None, ?discard s8)
       else if missing then (None, ?discard (s8\<lparr>null_tensor := nulls\<rparr>))
       else (Some \<lparr>members = map (member_of mem) ms, group_width = width, group_context = c, group_weight_context = w,
               group_buffer = the buffer, repack_buffer = rb, plain_buffer = pb\<rparr>, s8\<lparr>null_tensor := nulls\<rparr>))"
    unfolding assms [symmetric] group_plan_build_def Let_def 1 2 3 4 5 6 prod.case repacked_def [symmetric] 7 8
      ready_def [symmetric] nulls_def [symmetric] missing_def [symmetric] by (rule refl)
  have f: "frame st s8"
    using ask_keeps(1) [OF 1] group_tensors_keeps(1) [OF 2] ask_keeps(1) [OF 3] backend_keeps(1) [OF 4] obtain_if_keeps(3) [OF 5]
      repack_keeps(1) [OF 6] obtain_if_keeps(1) [OF 7] obtain_if_keeps(1) [OF 8] by (meson frame_trans)
  have o: "owns e s8 ([c, w] @ maybe buffer @ maybe rb @ maybe pb)" if "owns e st [c, w]"
  proof -
    have "owns e s4 [c, w]"
      using ask_keeps(2) [OF 1] group_tensors_keeps(2) [OF 2] ask_keeps(2) [OF 3] backend_keeps(2) [OF 4] that by blast
    then have "owns e s6 ([c, w] @ maybe buffer)" using obtain_if_keeps(4) [OF 5] repack_keeps(2) [OF 6] by blast
    then show ?thesis using obtain_if_keeps(2) [OF 7] obtain_if_keeps(2) [OF 8] by fastforce
  qed
  have d: "owns e st [c, w] \<Longrightarrow> owns e (?discard (s8\<lparr>null_tensor := b\<rparr>)) []" "frame st (?discard (s8\<lparr>null_tensor := b\<rparr>))" for b
    using discard_keeps(1) [of e "s8\<lparr>null_tensor := b\<rparr>" c w buffer rb pb] o
      frame_trans [OF frame_null_tensor [OF f]] by (auto intro!: frame_trans [OF _ release_keeps(1)] frame_null_tensor f)
  have same: "s8 = s8\<lparr>null_tensor := null_tensor s8\<rparr>" by simp
  consider "?bad" | "\<not> ?bad" "missing" | "\<not> ?bad" "\<not> missing" by blast
  then show ?thesis
  proof cases
    case 1
    then have "r = None" "st' = ?discard s8" using result by auto
    then show ?thesis using d [of "null_tensor s8"] by simp
  next
    case 2
    then have "r = None" "st' = ?discard (s8\<lparr>null_tensor := nulls\<rparr>)" using result by auto
    then show ?thesis using d [of nulls] by simp
  next
    case 3
    then show ?thesis using result o frame_null_tensor [OF f] by (auto simp: group_objects_def)
  qed
qed

lemma group_plan_make_keeps:
  assumes "group_plan_make ld env g mem ms width st = (r, st')"
  shows "frame st st'"
    and "owns e st [] \<Longrightarrow> (e \<Longrightarrow> releasable ld g) \<Longrightarrow> owns e st' (case r of None \<Rightarrow> [] | Some p \<Rightarrow> group_objects p)"
    and "r = Some p \<Longrightarrow> members p = map (member_of mem) ms \<and> group_width p = width"
proof -
  obtain libraries s1 where 1: "open_both ld env st = (libraries, s1)" by fastforce
  let ?ok = "\<lambda>base. \<not> (length ms < 2 \<or> length ms > GROUP_MAX \<or> \<not> list_all (dlsym ld base) group_symbols)"
  have "frame st st' \<and> (owns e st [] \<longrightarrow> (e \<longrightarrow> releasable ld g) \<longrightarrow> owns e st' (case r of None \<Rightarrow> [] | Some p \<Rightarrow> group_objects p)) \<and>
      (r = Some p \<longrightarrow> members p = map (member_of mem) ms \<and> group_width p = width)"
  proof (cases "\<exists>base cpu. libraries = Some (base, cpu) \<and> ?ok base")
    case False
    then have "r = None \<and> st' = s1" using assms 1 by (auto simp: group_plan_make_def split: option.splits if_splits)
    then show ?thesis using open_both_keeps [OF 1] by auto
  next
    case True
    then obtain base cpu where lib: "libraries = Some (base, cpu)" "?ok base" by blast
    obtain c s2 where 2: "obtain_object g Init s1 = (c, s2)" by fastforce
    obtain w s3 where 3: "obtain_object g Init s2 = (w, s3)" by fastforce
    note f = frame_trans [OF open_both_keeps(1) [OF 1] contexts_keeps(1) [OF 2 3]]
    show ?thesis
    proof (cases "c = None \<or> w = None")
      case True
      then have "r = None \<and> st' = s3" using assms 1 2 3 lib by (auto simp: group_plan_make_def split: option.splits)
      then show ?thesis using f open_both_keeps(2) [OF 1] contexts_keeps(3) [OF 2 3 _ _ True] by auto
    next
      case False
      then obtain c' w' where cw: "c = Some c'" "w = Some w'" by auto
      then have b: "group_plan_build ld env g mem base cpu ms width c' w' s3 = (r, st')"
        using assms 1 2 3 lib by (simp add: group_plan_make_def)
      have "owns e s3 [c', w']" if "owns e st []"
        using contexts_keeps(2) [OF 2 3 open_both_keeps(2) [OF 1 that]] cw by simp
      then show ?thesis using group_plan_build_keeps [OF b] frame_trans [OF f] by blast
    qed
  qed
  then show "frame st st'"
    and "owns e st [] \<Longrightarrow> (e \<Longrightarrow> releasable ld g) \<Longrightarrow> owns e st' (case r of None \<Rightarrow> [] | Some p \<Rightarrow> group_objects p)"
    and "r = Some p \<Longrightarrow> members p = map (member_of mem) ms \<and> group_width p = width" by blast+
qed

subsection \<open>An object is there only behind an opened library\<close>

definition base_open :: "('l, 'w) ggml_state \<Rightarrow> bool" where
  "base_open st \<longleftrightarrow> ggml_attempted st \<and> ggml_handle st \<noteq> None"

lemma base_open_frame: "base_open st \<Longrightarrow> frame st st' \<Longrightarrow> base_open st'"
  by (auto simp: base_open_def frame_def)

lemma open_both_opened:
  assumes "open_both ld env st = (r, st')"
  shows "r \<noteq> None \<Longrightarrow> base_open st'" and "objects st' = objects st"
proof -
  obtain b s1 where b: "open_ggml ld env st = (b, s1)" by fastforce
  obtain c s2 where c: "open_ggml_cpu ld env s1 = (c, s2)" by fastforce
  have e: "st' = s2" "r = (case (b, c) of (Some b, Some c) \<Rightarrow> Some (b, c) | _ \<Rightarrow> None)"
    using assms b c by (simp_all add: open_both_def)
  have "b \<noteq> None \<Longrightarrow> base_open s1"
    using b by (auto simp: open_ggml_def base_open_def install_log_filter_def Let_def split: if_splits option.splits)
  then show "r \<noteq> None \<Longrightarrow> base_open st'"
    using e base_open_frame open_keeps(3) [OF c] by (auto split: option.splits)
  have "objects s1 = objects st"
    using b by (auto simp: open_ggml_def install_log_filter_def Let_def split: if_splits option.splits)
  moreover have "objects s2 = objects s1"
    using c by (auto simp: open_ggml_cpu_def Let_def split: if_splits)
  ultimately show "objects st' = objects st" using e(1) by simp
qed

lemma cpu_plan_make_opened:
  assumes "cpu_plan_make ld env g mem type weights wbytes rows width st = (r, st')"
  shows "base_open st' \<or> r = None \<and> objects st' = objects st"
proof -
  obtain libraries s1 where 1: "open_both ld env st = (libraries, s1)" by fastforce
  show ?thesis
  proof (cases libraries)
    case None
    then have "r = None \<and> st' = s1" using assms 1 by (simp add: cpu_plan_make_def)
    then show ?thesis using open_both_opened [OF 1] by simp
  next
    case (Some lib)
    then have s1: "base_open s1" using open_both_opened [OF 1] by simp
    obtain base cpu where lib: "lib = (base, cpu)" by fastforce
    obtain c s2 where 2: "obtain_object g Init s1 = (c, s2)" by fastforce
    obtain w s3 where 3: "obtain_object g Init s2 = (w, s3)" by fastforce
    have s3: "base_open s3" using base_open_frame [OF s1 contexts_keeps(1) [OF 2 3]] .
    show ?thesis
      using assms 1 2 3 Some lib s1 s3
      by (auto simp: cpu_plan_make_def split: if_splits option.splits
          dest!: cpu_plan_build_keeps(1) dest: base_open_frame [OF s3])
  qed
qed

lemma group_plan_make_opened:
  assumes "group_plan_make ld env g mem ms width st = (r, st')"
  shows "base_open st' \<or> r = None \<and> objects st' = objects st"
proof -
  obtain libraries s1 where 1: "open_both ld env st = (libraries, s1)" by fastforce
  show ?thesis
  proof (cases libraries)
    case None
    then have "r = None \<and> st' = s1" using assms 1 by (simp add: group_plan_make_def)
    then show ?thesis using open_both_opened [OF 1] by simp
  next
    case (Some lib)
    then have s1: "base_open s1" using open_both_opened [OF 1] by simp
    obtain base cpu where lib: "lib = (base, cpu)" by fastforce
    obtain c s2 where 2: "obtain_object g Init s1 = (c, s2)" by fastforce
    obtain w s3 where 3: "obtain_object g Init s2 = (w, s3)" by fastforce
    have s3: "base_open s3" using base_open_frame [OF s1 contexts_keeps(1) [OF 2 3]] .
    show ?thesis
      using assms 1 2 3 Some lib s1 s3
      by (auto simp: group_plan_make_def split: if_splits option.splits
          dest!: group_plan_build_keeps [THEN conjunct1] dest: base_open_frame [OF s3])
  qed
qed

subsection \<open>The invariant of the caches\<close>

definition small :: "u64 \<Rightarrow> bool" where
  "small n \<longleftrightarrow> unat n < 2 ^ 62"

definition group_bytes :: "'w group_plan \<Rightarrow> nat" where
  "group_bytes p = (\<Sum>m\<leftarrow>members p. unat (member_bytes m))"

text \<open>
  The caches are within their limits, the totals are those of what is cached, and every plan holds
  the bytes its host address held.
\<close>

definition caches_ok :: "(u64 \<Rightarrow> 'w) \<Rightarrow> ('l, 'w) ggml_state \<Rightarrow> bool" where
  "caches_ok mem st \<longleftrightarrow>
     length (cpu_plans st) \<le> PLAN_MAX \<and> length (group_plans st) \<le> PLAN_MAX \<and>
     unat (cpu_plan_bytes st) = (\<Sum>p\<leftarrow>cpu_plans st. unat (weight_bytes p)) \<and> cpu_plan_bytes st \<le> PLAN_BYTES_MAX \<and>
     unat (group_plan_bytes st) = (\<Sum>p\<leftarrow>group_plans st. group_bytes p) \<and> group_plan_bytes st \<le> PLAN_BYTES_MAX \<and>
     (\<forall>p\<in>set (cpu_plans st). weight_data p = mem (weights_host p)) \<and>
     (\<forall>p\<in>set (group_plans st). \<forall>m\<in>set (members p). member_data m = mem (member_host m)) \<and>
     (objects st \<noteq> [] \<longrightarrow> base_open st)"

definition ggml_ok :: "bool \<Rightarrow> (u64 \<Rightarrow> 'w) \<Rightarrow> ('l, 'w) ggml_state \<Rightarrow> bool" where
  "ggml_ok e mem st \<longleftrightarrow> owns e st [] \<and> caches_ok mem st"

lemma total_fits:
  assumes "unat (a :: u64) + unat b < 2 ^ 64" and "a + b \<le> PLAN_BYTES_MAX"
  shows "unat (a + b) = unat a + unat b"
  using assms(1) by (subst unat_add_lem [THEN iffD1]) simp_all

lemma caches_frame:
  assumes "caches_ok mem st" and "frame st st'" and "objects st' = objects st \<or> base_open st'"
  shows "caches_ok mem st'"
  using assms base_open_frame [of st st'] by (auto simp: caches_ok_def frame_def)

lemma open_objects: "open_ggml ld env st = (r, st') \<Longrightarrow> objects st' = objects st"
  by (auto simp: open_ggml_def install_log_filter_def Let_def split: if_splits option.splits)

lemma compute_step_keeps:
  assumes "open_ggml ld env st = (base, s1)" and "st' = s1 \<or> ask g Compute s1 = (b, st')"
  shows "frame st st'" and "objects st' = objects st" and "owns e st xs \<Longrightarrow> owns e st' xs"
proof -
  have "frame s1 st' \<and> objects st' = objects s1 \<and> (owns e s1 xs \<longrightarrow> owns e st' xs)"
    using assms(2)
  proof
    assume a: "ask g Compute s1 = (b, st')"
    then have "objects st' = objects s1" by (auto simp: ask_def)
    with ask_keeps [OF a] show ?thesis by blast
  qed simp
  then show "frame st st'" and "objects st' = objects st" and "owns e st xs \<Longrightarrow> owns e st' xs"
    using open_keeps(1,2) [OF assms(1)] open_objects [OF assms(1)] frame_trans by (blast, simp, blast)
qed

lemma cpu_compute_keeps:
  assumes "cpu_plan_compute ld env g plan activation output_null st = (r, st')"
  shows "frame st st'" and "objects st' = objects st" and "owns e st xs \<Longrightarrow> owns e st' xs"
    and "r = Some out \<Longrightarrow> \<exists>a. activation = Some a \<and>
      out = product g (plan_type plan) (weight_data plan) (plan_rows plan) (plan_width plan) (take (nat (plan_width plan)) a)"
proof -
  obtain base s1 where 1: "open_ggml ld env st = (base, s1)" by fastforce
  obtain b s2 where 2: "ask g Compute s1 = (b, s2)" by fastforce
  have "st' = s1 \<or> ask g Compute s1 = (b, st')"
    using assms 1 2 by (auto simp: cpu_plan_compute_def split: if_splits)
  from compute_step_keeps [OF 1 this]
  show "frame st st'" and "objects st' = objects st" and "owns e st xs \<Longrightarrow> owns e st' xs" by blast+
  show "r = Some out \<Longrightarrow> \<exists>a. activation = Some a \<and>
      out = product g (plan_type plan) (weight_data plan) (plan_rows plan) (plan_width plan) (take (nat (plan_width plan)) a)"
    using assms 1 2 by (auto simp: cpu_plan_compute_def split: if_splits)
qed

lemma group_compute_keeps:
  assumes "group_plan_compute ld env g plan activation st = (r, st')"
  shows "frame st st'" and "objects st' = objects st" and "owns e st xs \<Longrightarrow> owns e st' xs"
    and "r = Some out \<Longrightarrow> \<exists>a. activation = Some a \<and>
      out = map (\<lambda>m. product g (member_type m) (member_data m) (member_rows m) (group_width plan) (take (nat (group_width plan)) a)) (members plan)"
proof -
  obtain base s1 where 1: "open_ggml ld env st = (base, s1)" by fastforce
  obtain b s2 where 2: "ask g Compute s1 = (b, s2)" by fastforce
  have "st' = s1 \<or> ask g Compute s1 = (b, st')"
    using assms 1 2 by (auto simp: group_plan_compute_def split: if_splits)
  from compute_step_keeps [OF 1 this]
  show "frame st st'" and "objects st' = objects st" and "owns e st xs \<Longrightarrow> owns e st' xs" by blast+
  show "r = Some out \<Longrightarrow> \<exists>a. activation = Some a \<and>
      out = map (\<lambda>m. product g (member_type m) (member_data m) (member_rows m) (group_width plan) (take (nat (group_width plan)) a)) (members plan)"
    using assms 1 2 by (auto simp: group_plan_compute_def split: if_splits)
qed

text \<open>Computing with a plan keeps the invariant.\<close>

lemma compute_ok:
  assumes "ggml_ok e mem st" and "frame st st'" and "objects st' = objects st" and "\<And>xs. owns e st xs \<Longrightarrow> owns e st' xs"
  shows "ggml_ok e mem st'"
  using assms caches_frame by (auto simp: ggml_ok_def)

text \<open>A new plan is entered into its cache.\<close>

lemma enter_plan:
  assumes "caches_ok mem st" and "owns e st (plan_objects p)" and "base_open st" and "length (cpu_plans st) < PLAN_MAX"
    and "cpu_plan_bytes st + wbytes \<le> PLAN_BYTES_MAX" and "small wbytes" and "weight_bytes p = wbytes" and "weight_data p = mem (weights_host p)"
  shows "ggml_ok e mem (st\<lparr>cpu_plans := cpu_plans st @ [p], cpu_plan_bytes := cpu_plan_bytes st + wbytes\<rparr>)"
proof -
  let ?st = "st\<lparr>cpu_plans := cpu_plans st @ [p], cpu_plan_bytes := cpu_plan_bytes st + wbytes\<rparr>"
  have "unat (cpu_plan_bytes st) \<le> 2 ^ 32"
    using assms(1) by (simp add: caches_ok_def word_le_nat_alt PLAN_BYTES_MAX_def)
  then have sum: "unat (cpu_plan_bytes st + wbytes) = unat (cpu_plan_bytes st) + unat wbytes"
    using assms(5,6) by (intro total_fits) (simp_all add: small_def)
  have "set (objects ?st) = set (plan_objects p) \<union> set (objects st)"
    and "distinct (objects ?st) \<longleftrightarrow> distinct (plan_objects p @ objects st)"
    by (auto simp: objects_def)
  then have "owns e ?st []" using assms(2) by (auto simp: owns_def)
  moreover have "caches_ok mem ?st"
    using assms sum by (auto simp: caches_ok_def base_open_def)
  ultimately show ?thesis by (simp add: ggml_ok_def)
qed

lemma enter_group:
  assumes "caches_ok mem st" and "owns e st (group_objects p)" and "base_open st" and "length (group_plans st) < PLAN_MAX"
    and "group_plan_bytes st + wbytes \<le> PLAN_BYTES_MAX" and "unat wbytes \<le> 3 * 2 ^ 62" and "group_bytes p = unat wbytes"
    and "\<forall>m\<in>set (members p). member_data m = mem (member_host m)"
  shows "ggml_ok e mem (st\<lparr>group_plans := group_plans st @ [p], group_plan_bytes := group_plan_bytes st + wbytes\<rparr>)"
proof -
  let ?st = "st\<lparr>group_plans := group_plans st @ [p], group_plan_bytes := group_plan_bytes st + wbytes\<rparr>"
  have "unat (group_plan_bytes st) \<le> 2 ^ 32"
    using assms(1) by (simp add: caches_ok_def word_le_nat_alt PLAN_BYTES_MAX_def)
  then have sum: "unat (group_plan_bytes st + wbytes) = unat (group_plan_bytes st) + unat wbytes"
    using assms(5,6) by (intro total_fits) simp_all
  have "set (objects ?st) = set (group_objects p) \<union> set (objects st)"
    and "distinct (objects ?st) \<longleftrightarrow> distinct (group_objects p @ objects st)"
    by (auto simp: objects_def)
  then have "owns e ?st []" using assms(2) by (auto simp: owns_def)
  moreover have "caches_ok mem ?st"
    using assms sum by (auto simp: caches_ok_def base_open_def)
  ultimately show ?thesis by (simp add: ggml_ok_def)
qed

end
