(* ===== verification/GgmlCache.thy ===== *)
theory GgmlCache
  imports GgmlOwnership
begin

section \<open>What the plan caches guarantee\<close>

text \<open>
  The invariant of \<open>GgmlOwnership\<close> through every entry point of
  \<open>src/backend/cpu/fortai_ggml_quant.c\<close> and any sequence of calls, and what a product that was
  delivered is: the product of the weights at the caller's address, from a plan or directly.
\<close>

lemma cpu_plan_cached_ok:
  assumes ok: "ggml_ok e mem st" and e: "e \<Longrightarrow> releasable ld g" and "small wbytes"
    and r: "cpu_plan_cached ld env g mem type weights wbytes rows width activation output_null st = (r, st')"
  shows "ggml_ok e mem st'"
    and "r = Some out \<Longrightarrow> \<exists>a. activation = Some a \<and> out = product g type (mem weights) rows width (take (nat width) a)"
proof -
  let ?P = "\<lambda>plan. plan_matches type weights wbytes rows width plan \<and> weight_data plan = mem weights"
  have "ggml_ok e mem st' \<and>
      (r = Some out \<longrightarrow> (\<exists>a. activation = Some a \<and> out = product g type (mem weights) rows width (take (nat width) a)))"
  proof (cases "cache_disabled env")
    case True
    then show ?thesis using r ok by (simp add: cpu_plan_cached_def)
  next
    case enabled: False
    have compute: "ggml_ok e mem st' \<and>
        (r = Some out \<longrightarrow> (\<exists>a. activation = Some a \<and> out = product g type (mem weights) rows width (take (nat width) a)))"
      if c: "cpu_plan_compute ld env g plan activation output_null s1 = (r, st')" and "ggml_ok e mem s1" and "?P plan" for plan s1
      using compute_ok [OF that(2) cpu_compute_keeps(1-3) [OF c]] cpu_compute_keeps(4) [OF c] that(3)
      by (auto simp: plan_matches_def)
    show ?thesis
    proof (cases "find (plan_matches type weights wbytes rows width) (cpu_plans st)")
      case (Some plan)
      then have "plan \<in> set (cpu_plans st)" "plan_matches type weights wbytes rows width plan" by (auto simp: find_Some_iff)
      then have "?P plan" using ok by (auto simp: ggml_ok_def caches_ok_def plan_matches_def)
      then show ?thesis using r enabled Some by (intro compute [of plan st] ok) (simp_all add: cpu_plan_cached_def)
    next
      case None
      show ?thesis
      proof (cases "length (cpu_plans st) \<ge> PLAN_MAX \<or> cpu_plan_bytes st + wbytes > PLAN_BYTES_MAX")
        case True
        then show ?thesis using r enabled None ok by (auto simp: cpu_plan_cached_def)
      next
        case room: False
        obtain p s1 where m: "cpu_plan_make ld env g mem type weights wbytes rows width st = (p, s1)" by fastforce
        have o: "owns e s1 (case p of None \<Rightarrow> [] | Some p \<Rightarrow> plan_objects p)"
          using cpu_plan_make_keeps(2) [OF m _ e] ok by (auto simp: ggml_ok_def)
        have c: "caches_ok mem s1"
          using caches_frame [OF _ cpu_plan_make_keeps(1) [OF m]] cpu_plan_make_opened [OF m] ok by (auto simp: ggml_ok_def)
        show ?thesis
        proof (cases p)
          case None
          then show ?thesis using r enabled \<open>find _ _ = None\<close> room m o c by (simp add: cpu_plan_cached_def ggml_ok_def)
        next
          case (Some plan)
          note P = cpu_plan_make_keeps(3) [OF m Some]
          have "base_open s1" using cpu_plan_make_opened [OF m] Some by simp
          then have "ggml_ok e mem (s1\<lparr>cpu_plans := cpu_plans s1 @ [plan], cpu_plan_bytes := cpu_plan_bytes s1 + wbytes\<rparr>)"
            using room P o c Some cpu_plan_make_keeps(1) [OF m] \<open>small wbytes\<close>
            by (intro enter_plan) (simp_all add: plan_matches_def frame_def not_less not_le)
          then show ?thesis using r enabled None room m Some P
            by (intro compute [of plan]) (simp_all add: cpu_plan_cached_def)
        qed
      qed
    qed
  qed
  then show "ggml_ok e mem st'"
    and "r = Some out \<Longrightarrow> \<exists>a. activation = Some a \<and> out = product g type (mem weights) rows width (take (nat width) a)" by blast+
qed

lemma direct_product_ok:
  assumes "owns e st [c]" and "caches_ok mem st" and r: "direct_product g type data rows width a c st = (r, st')"
  shows "ggml_ok e mem st'" and "r = Some out \<Longrightarrow> out = product g type data rows width (take (nat width) a)"
proof -
  obtain weight s1 where 1: "ask g NewTensor st = (weight, s1)" by fastforce
  obtain input s2 where 2: "ask g NewTensor s1 = (input, s2)" by fastforce
  obtain m s3 where 3: "(if weight \<and> input then ask g MulMat s2 else (False, s2)) = (m, s3)" by fastforce
  obtain graph s4 where 4: "(if m then ask g NewGraph s3 else (False, s3)) = (graph, s4)" by fastforce
  obtain backend s5 where 5: "obtain_object g CpuInit s4 = (backend, s5)" by fastforce
  obtain buffer s6 where 6: "(if backend = None then (None, s5) else obtain_object g Alloc s5) = (buffer, s6)" by fastforce
  obtain computed s7 where 7: "(if buffer \<noteq> None \<and> weight \<and> input \<and> m \<and> graph then ask g Compute s6 else (False, s6)) = (computed, s7)" by fastforce
  let ?after = "release (Some c) (release backend (release buffer s7))"
  have result: "(r, st') = (if computed then Some (product g type data rows width (take (nat width) a)) else None, ?after)"
    unfolding r [symmetric] direct_product_def Let_def 1 2 3 4 5 6 7 prod.case by (rule refl)
  have f: "frame st s7"
    using ask_keeps(1) [OF 1] ask_keeps(1) [OF 2] ask_if_keeps(1) [OF 3] ask_if_keeps(1) [OF 4] obtain_keeps(1) [OF 5]
      obtain_if_keeps(3) [OF 6] ask_if_keeps(1) [OF 7] by (meson frame_trans)
  have "owns e s4 [c]" using ask_keeps(2) [OF 1] ask_keeps(2) [OF 2] ask_if_keeps(2) [OF 3] ask_if_keeps(2) [OF 4] assms(1) by blast
  then have "owns e s6 (([c] @ maybe backend) @ maybe buffer)" using obtain_keeps(2) [OF 5] obtain_if_keeps(4) [OF 6] by blast
  then have "owns e s7 (([c] @ maybe backend) @ maybe buffer @ [])" using ask_if_keeps(2) [OF 7] by fastforce
  then have "owns e (release buffer s7) ([c] @ maybe backend @ [])" using release_keeps(2) by fastforce
  then have "owns e (release backend (release buffer s7)) ([] @ maybe (Some c) @ [])" using release_keeps(2) by fastforce
  then have o: "owns e ?after []" using release_keeps(2) by fastforce
  have fe: "frame st ?after" by (intro frame_trans [OF _ release_keeps(1)] f)
  have same: "objects ?after = objects st"
  proof -
    have obj: "shared_backend ?after = shared_backend st"
      using 1 2 3 4 5 6 7 by (auto simp: ask_def obtain_object_def release_def split: if_splits option.splits)
    then show ?thesis using fe by (simp add: objects_def frame_def)
  qed
  show "ggml_ok e mem st'"
    using o caches_frame [OF assms(2) fe] same result by (auto simp: ggml_ok_def)
  show "r = Some out \<Longrightarrow> out = product g type data rows width (take (nat width) a)"
    using result by (auto split: if_splits)
qed

lemma opening_ok:
  assumes "ggml_ok e mem st" and "frame st st'" and "owns e st [] \<Longrightarrow> owns e st' []" and "objects st' = objects st"
  shows "ggml_ok e mem st'"
  using assms caches_frame [of mem st st'] by (simp add: ggml_ok_def)

lemma open_both_ok: "open_both ld env st = (r, st') \<Longrightarrow> ggml_ok e mem st \<Longrightarrow> ggml_ok e mem st'"
  by (rule opening_ok [OF _ open_both_keeps open_both_opened(2)])

lemma open_ggml_ok: "open_ggml ld env st = (r, st') \<Longrightarrow> ggml_ok e mem st \<Longrightarrow> ggml_ok e mem st'"
  by (rule opening_ok [OF _ open_keeps(1,2) open_objects])

lemma quant_matvec_ok:
  assumes ok: "ggml_ok e mem st" and e: "e \<Longrightarrow> releasable ld g" and "small wbytes"
    and r: "quant_matvec ld env g mem type weights wbytes rows width activation output_null st = (r, st')"
  shows "ggml_ok e mem st'"
    and "r = Some out \<Longrightarrow> \<exists>a. activation = Some a \<and> out = product g type (mem weights) rows width (take (nat width) a)"
proof -
  let ?refused = "weights = 0 \<or> activation = None \<or> output_null \<or> rows \<le> 0 \<or> width \<le> 0 \<or> \<not> weights_fit type rows width wbytes"
  have "ggml_ok e mem st' \<and>
      (r = Some out \<longrightarrow> (\<exists>a. activation = Some a \<and> out = product g type (mem weights) rows width (take (nat width) a)))"
  proof (cases ?refused)
    case True
    then have "r = None \<and> st' = st" using r by (auto simp: quant_matvec_def)
    then show ?thesis using ok by simp
  next
    case accepted: False
    obtain c s1 where c: "cpu_plan_cached ld env g mem type weights wbytes rows width activation output_null st = (c, s1)" by fastforce
    note cached = cpu_plan_cached_ok [OF ok e \<open>small wbytes\<close> c]
    show ?thesis
    proof (cases c)
      case (Some x)
      then have "r = Some x \<and> st' = s1" using r accepted c by (auto simp: quant_matvec_def)
      then show ?thesis using cached Some by auto
    next
      case None
      obtain libraries s2 where 2: "open_both ld env s1 = (libraries, s2)" by fastforce
      have s2: "ggml_ok e mem s2" using open_both_ok [OF 2 cached(1)] .
      show ?thesis
      proof (cases "\<exists>base cpu. libraries = Some (base, cpu) \<and> list_all (dlsym ld base) direct_symbols \<and> dlsym ld cpu ''ggml_backend_cpu_init''")
        case False
        then have "r = None \<and> st' = s2" using r accepted c None 2
          by (auto simp: quant_matvec_def split: option.splits if_splits)
        then show ?thesis using s2 by simp
      next
        case True
        then obtain base cpu where lib: "libraries = Some (base, cpu)" "list_all (dlsym ld base) direct_symbols" "dlsym ld cpu ''ggml_backend_cpu_init''" by blast
        obtain ctx s3 where 3: "obtain_object g Init s2 = (ctx, s3)" by fastforce
        have o3: "owns e s3 (maybe ctx)" using obtain_keeps(2) [OF 3] s2 by (fastforce simp: ggml_ok_def)
        have "objects s3 = objects s2" using 3 by (auto simp: obtain_object_def split: if_splits)
        then have c3: "caches_ok mem s3" using caches_frame [OF _ obtain_keeps(1) [OF 3]] s2 by (auto simp: ggml_ok_def)
        show ?thesis
        proof (cases ctx)
          case None
          then have "r = None \<and> st' = s3" using r accepted c \<open>c = None\<close> 2 3 lib
            by (auto simp: quant_matvec_def split: option.splits if_splits)
          then show ?thesis using o3 c3 None by (simp add: ggml_ok_def)
        next
          case (Some n)
          then have d: "direct_product g type (mem weights) rows width (the activation) n s3 = (r, st')"
            using r accepted c \<open>c = None\<close> 2 3 lib by (auto simp: quant_matvec_def split: option.splits if_splits)
          have "owns e s3 [n]" using o3 Some by simp
          from direct_product_ok [OF this c3 d] accepted show ?thesis by auto
        qed
      qed
    qed
  qed
  then show "ggml_ok e mem st'"
    and "r = Some out \<Longrightarrow> \<exists>a. activation = Some a \<and> out = product g type (mem weights) rows width (take (nat width) a)" by blast+
qed

subsection \<open>Groups\<close>

lemma group_total:
  "\<forall>m\<in>set ms. small (matrix_bytes m) \<Longrightarrow> length ms \<le> 3 \<Longrightarrow>
     unat (sum_list (map matrix_bytes ms)) = (\<Sum>m\<leftarrow>ms. unat (matrix_bytes m)) \<and>
     (\<Sum>m\<leftarrow>ms. unat (matrix_bytes m)) \<le> length ms * 2 ^ 62"
proof (induction ms)
  case (Cons m ms)
  then have IH: "unat (sum_list (map matrix_bytes ms)) = (\<Sum>m\<leftarrow>ms. unat (matrix_bytes m))"
    "(\<Sum>m\<leftarrow>ms. unat (matrix_bytes m)) \<le> length ms * 2 ^ 62" by auto
  have "length ms * 2 ^ 62 \<le> 2 * (2 ^ 62 :: nat)" using Cons.prems(2) by (intro mult_le_mono1) simp
  moreover have "unat (matrix_bytes m) < 2 ^ 62" using Cons.prems(1) by (simp add: small_def)
  ultimately have "unat (matrix_bytes m) + unat (sum_list (map matrix_bytes ms)) < 3 * 2 ^ 62" using IH by linarith
  also have "(3 :: nat) * 2 ^ 62 < 2 ^ 64" by simp
  finally have "unat (matrix_bytes m) + unat (sum_list (map matrix_bytes ms)) < 2 ^ 64" .
  then have "unat (matrix_bytes m + sum_list (map matrix_bytes ms)) = unat (matrix_bytes m) + unat (sum_list (map matrix_bytes ms))"
    by (subst unat_add_lem [THEN iffD1]) simp_all
  then show ?case using IH \<open>unat (matrix_bytes m) < 2 ^ 62\<close> by simp
qed simp

lemma group_plan_cached_ok:
  assumes ok: "ggml_ok e mem st" and e: "e \<Longrightarrow> releasable ld g"
    and small: "\<forall>m\<in>set ms. small (matrix_bytes m)" and len: "length ms \<le> 3"
    and r: "group_plan_cached ld env g mem ms width activation st = (r, st')"
  shows "ggml_ok e mem st'"
    and "r = Some out \<Longrightarrow> \<exists>a. activation = Some a \<and>
      out = map (\<lambda>m. product g (matrix_type m) (mem (matrix_weights m)) (matrix_rows m) width (take (nat width) a)) ms"
proof -
  let ?good = "\<lambda>out. \<exists>a. activation = Some a \<and>
      out = map (\<lambda>m. product g (matrix_type m) (mem (matrix_weights m)) (matrix_rows m) width (take (nat width) a)) ms"
  let ?P = "\<lambda>plan. group_matches ms width plan \<and> (\<forall>m\<in>set (members plan). member_data m = mem (member_host m))"
  have "ggml_ok e mem st' \<and> (\<forall>out. r = Some out \<longrightarrow> ?good out)"
  proof (cases "cache_disabled env")
    case True
    then show ?thesis using r ok by (simp add: group_plan_cached_def)
  next
    case enabled: False
    have compute: "ggml_ok e mem st' \<and> (\<forall>out. r = Some out \<longrightarrow> ?good out)"
      if c: "group_plan_compute ld env g plan activation s1 = (r, st')" and "ggml_ok e mem s1" and P: "?P plan" for plan s1
    proof -
      have "map (\<lambda>m. product g (member_type m) (member_data m) (member_rows m) (group_width plan) x) (members plan) =
          map (\<lambda>m. product g (matrix_type m) (mem (matrix_weights m)) (matrix_rows m) width x) ms" for x
        by (rule nth_equalityI) (use P in \<open>auto simp: group_matches_def list_all2_conv_all_nth\<close>)
      then show ?thesis
        using compute_ok [OF that(2) group_compute_keeps(1-3) [OF c]] group_compute_keeps(4) [OF c] P
        by (auto simp: group_matches_def)
    qed
    show ?thesis
    proof (cases "find (group_matches ms width) (group_plans st)")
      case (Some plan)
      then have "plan \<in> set (group_plans st)" "group_matches ms width plan" by (auto simp: find_Some_iff)
      then have "?P plan" using ok by (auto simp: ggml_ok_def caches_ok_def)
      then show ?thesis using r enabled Some by (intro compute [of plan st] ok) (simp_all add: group_plan_cached_def)
    next
      case None
      let ?wbytes = "sum_list (map matrix_bytes ms)"
      show ?thesis
      proof (cases "length (group_plans st) \<ge> PLAN_MAX \<or> group_plan_bytes st + ?wbytes > PLAN_BYTES_MAX")
        case True
        then show ?thesis using r enabled None ok by (auto simp: group_plan_cached_def Let_def)
      next
        case room: False
        obtain p s1 where m: "group_plan_make ld env g mem ms width st = (p, s1)" by fastforce
        have o: "owns e s1 (case p of None \<Rightarrow> [] | Some p \<Rightarrow> group_objects p)"
          using group_plan_make_keeps(2) [OF m _ e] ok by (auto simp: ggml_ok_def)
        have c: "caches_ok mem s1"
          using caches_frame [OF _ group_plan_make_keeps(1) [OF m]] group_plan_make_opened [OF m] ok by (auto simp: ggml_ok_def)
        show ?thesis
        proof (cases p)
          case None
          then show ?thesis using r enabled \<open>find _ _ = None\<close> room m o c by (simp add: group_plan_cached_def ggml_ok_def Let_def)
        next
          case (Some plan)
          note P = group_plan_make_keeps(3) [OF m Some]
          have P': "?P plan"
            using P by (auto simp: group_matches_def member_of_def list_all2_conv_all_nth)
          have total: "unat ?wbytes = group_bytes plan" "unat ?wbytes \<le> 3 * 2 ^ 62"
            using group_total [OF small len] P mult_le_mono1 [OF len, of "2 ^ 62"] by (auto simp: group_bytes_def member_of_def comp_def)
          have "base_open s1" using group_plan_make_opened [OF m] Some by simp
          then have "ggml_ok e mem (s1\<lparr>group_plans := group_plans s1 @ [plan], group_plan_bytes := group_plan_bytes s1 + ?wbytes\<rparr>)"
            using room P' o c Some group_plan_make_keeps(1) [OF m] total
            by (intro enter_group) (simp_all add: frame_def not_less not_le)
          then show ?thesis using r enabled None room m Some P'
            by (intro compute [of plan]) (simp_all add: group_plan_cached_def Let_def)
        qed
      qed
    qed
  qed
  then show "ggml_ok e mem st'" and "r = Some out \<Longrightarrow> ?good out" by blast+
qed

lemma quant_matvec_group_ok:
  assumes ok: "ggml_ok e mem st" and e: "e \<Longrightarrow> releasable ld g" and small: "\<forall>m\<in>set ms. small (matrix_bytes m)"
    and r: "quant_matvec_group ld env g mem ms width activation st = (r, st')"
  shows "ggml_ok e mem st'"
    and "r = Some out \<Longrightarrow> \<exists>a. activation = Some a \<and>
      out = map (\<lambda>m. product g (matrix_type m) (mem (matrix_weights m)) (matrix_rows m) width (take (nat width) a)) ms"
proof -
  have "r = None \<and> st' = st \<or> length ms \<le> 3 \<and> group_plan_cached ld env g mem ms width activation st = (r, st')"
    using r by (auto simp: quant_matvec_group_def GROUP_MAX_def split: if_splits)
  then show "ggml_ok e mem st'"
    and "r = Some out \<Longrightarrow> \<exists>a. activation = Some a \<and>
      out = map (\<lambda>m. product g (matrix_type m) (mem (matrix_weights m)) (matrix_rows m) width (take (nat width) a)) ms"
    using group_plan_cached_ok [OF ok e small] ok by blast+
qed

subsection \<open>Clearing\<close>

lemma release_if_keeps:
  assumes "owns e st (maybe p @ ys)" and "e \<Longrightarrow> found"
  shows "owns e (release_if found p st) ys"
proof (cases found)
  case True
  then show ?thesis using release_keeps(2) [of e st "[]" p ys] assms(1) by (simp add: release_if_def)
next
  case False
  then have "\<not> e" using assms(2) by blast
  then show ?thesis using False owns_forget [OF assms(1), of ys] assms(1) by (auto simp: release_if_def owns_def)
qed

lemma clear_plan_keeps:
  assumes "owns e st (plan_objects p @ ys)" and "e \<Longrightarrow> bf \<and> fc"
  shows "owns e (clear_plan bf fc p st) ys"
proof -
  have "owns e st (maybe (Some (plan_buffer p)) @ maybe (Some (plan_weight_buffer p)) @
      maybe (Some (plan_context p)) @ maybe (Some (plan_weight_context p)) @ ys)"
    by (rule owns_perm [OF assms(1)]) (use assms(1) in \<open>auto simp: owns_def plan_objects_def\<close>)
  then show ?thesis
    unfolding clear_plan_def using assms(2) by (intro release_if_keeps) auto
qed

lemma clear_group_keeps:
  assumes "owns e st (group_objects p @ ys)" and "e \<Longrightarrow> bf \<and> fc"
  shows "owns e (clear_group bf fc p st) ys"
proof -
  have "owns e st (maybe (Some (group_buffer p)) @ maybe (repack_buffer p) @ maybe (plain_buffer p) @
      maybe (Some (group_context p)) @ maybe (Some (group_weight_context p)) @ ys)"
    by (rule owns_perm [OF assms(1)]) (use assms(1) in \<open>auto simp: owns_def group_objects_def\<close>)
  then show ?thesis
    unfolding clear_group_def using assms(2) by (intro release_if_keeps) auto
qed

lemma fold_clear_keeps:
  assumes step: "\<And>p st ys. owns e st (f p @ ys) \<Longrightarrow> owns e (c p st) ys"
  shows "owns e st (concat (map f ps) @ ys) \<Longrightarrow> owns e (fold c ps st) ys"
proof (induction ps arbitrary: st)
  case (Cons p ps)
  then have "owns e (c p st) (concat (map f ps) @ ys)" by (intro step) simp
  then show ?case using Cons.IH by simp
qed simp

definition emptied :: "('l, 'w) ggml_state \<Rightarrow> ('l, 'w) ggml_state" where
  "emptied st = st\<lparr>shared_backend := None, cpu_plans := [], cpu_plan_bytes := 0, group_plans := [], group_plan_bytes := 0\<rparr>"

lemma release_if_emptied: "release_if b p (emptied st) = emptied (release_if b p st)"
  by (simp add: release_if_def release_def emptied_def split: option.splits)

lemma fold_emptied: "(\<And>p st. c p (emptied st) = emptied (c p st)) \<Longrightarrow> fold c ps (emptied st) = emptied (fold c ps st)"
  by (induction ps arbitrary: st) simp_all

lemma fold_same: "(\<And>p s. q (c p s) = q s) \<Longrightarrow> q (fold c ps s) = q s"
  by (induction ps arbitrary: s) simp_all

lemma release_if_same:
  "group_plans (release_if b p s) = group_plans s" "shared_backend (release_if b p s) = shared_backend s"
  by (simp_all add: release_if_def release_def split: option.splits)

lemma objects_emptied [simp]: "objects (emptied st) = []"
  by (simp add: objects_def emptied_def)

lemma quant_cache_clear_ok:
  fixes st :: "('l, 'w) ggml_state"
  assumes ok: "ggml_ok e mem st" and e: "e \<Longrightarrow> releasable ld g"
  shows "ggml_ok e mem (quant_cache_clear ld env st) \<and> objects (quant_cache_clear ld env st) = []"
proof (cases "cpu_plans st = [] \<and> group_plans st = [] \<and> shared_backend st = None")
  case True
  then show ?thesis using ok by (simp add: quant_cache_clear_def objects_def)
next
  case False
  obtain b s1 where 1: "open_ggml ld env st = (b, s1)" by fastforce
  have s1: "ggml_ok e mem s1" using open_ggml_ok [OF 1 ok] .
  have "objects st \<noteq> []" using False by (auto simp: objects_def plan_objects_def group_objects_def)
  then have "base_open st" using ok by (simp add: ggml_ok_def caches_ok_def)
  then obtain base where b: "b = Some base" "s1 = st" using 1 by (auto simp: open_ggml_def base_open_def)
  let ?bf = "dlsym ld base ''ggml_backend_buffer_free''" and ?fc = "dlsym ld base ''ggml_free''" and ?bb = "dlsym ld base ''ggml_backend_free''"
  have found: "e \<Longrightarrow> ?bf \<and> ?fc \<and> ?bb" using e by (auto simp: releasable_def)
  let ?plans = "fold (clear_plan ?bf ?fc) (cpu_plans st)" and ?groups = "fold (clear_group ?bf ?fc) (group_plans st)"
  let ?cleared = "\<lambda>s. release_if ?bb (shared_backend st) (?groups (?plans s))"
  have plan_keep: "group_plans (?plans s) = group_plans s" "shared_backend (?plans s) = shared_backend s" for s :: "('l, 'w) ggml_state"
    by (rule fold_same, simp add: clear_plan_def release_if_same)+
  have group_keep: "shared_backend (?groups s) = shared_backend s" for s :: "('l, 'w) ggml_state"
    by (rule fold_same) (simp add: clear_group_def release_if_same)
  have "quant_cache_clear ld env st = emptied (?cleared st)"
    unfolding quant_cache_clear_def if_not_P [OF False] 1 b prod.case option.case Let_def plan_keep group_keep emptied_def by (rule refl)
  also have "\<dots> = ?cleared (emptied st)"
    by (simp add: fold_emptied release_if_emptied clear_plan_def clear_group_def)
  finally have r: "quant_cache_clear ld env st = ?cleared (emptied st)" .
  have "owns e (emptied st) (objects st)" using ok by (auto simp: ggml_ok_def owns_def emptied_def objects_def)
  then have "owns e (?plans (emptied st)) (concat (map group_objects (group_plans st)) @ maybe (shared_backend st))"
    using found by (intro fold_clear_keeps [OF clear_plan_keeps]) (auto simp: objects_def)
  then have "owns e (?groups (?plans (emptied st))) (maybe (shared_backend st) @ [])"
    using found by (intro fold_clear_keeps [OF clear_group_keeps]) auto
  then have o: "owns e (?cleared (emptied st)) []" using found by (intro release_if_keeps) auto
  have "quant_cache_clear ld env st = emptied (?cleared st)" by (simp add: r fold_emptied release_if_emptied clear_plan_def clear_group_def)
  then have "objects (quant_cache_clear ld env st) = []" "caches_ok mem (quant_cache_clear ld env st)"
    by (simp_all add: caches_ok_def) (simp_all add: emptied_def PLAN_BYTES_MAX_def)
  then show ?thesis using o r by (simp add: ggml_ok_def)
qed

end
