(* ===== verification/GgmlRuns.thy ===== *)
theory GgmlRuns
  imports GgmlCache VectorLanes
begin

section \<open>Any sequence of calls\<close>

text \<open>
  The entry points of \<open>src/backend/cpu/fortai_ggml_quant.c\<close> in any order, each under its own
  environment, from the state in which the file's static variables start.
\<close>

datatype 'v ggml_op =
  Matvec int u64 u64 int int "'v list option" bool
| Pair "'v matrix" "'v matrix" int "'v list option"
| Triplet "'v matrix" "'v matrix" "'v matrix" int "'v list option"
| CacheClear
| Available int
| DequantizeRow int "bytes option" bool int
| Dot int "bytes option" "'v list option" int

fun ggml_step ::
    "'l loader \<Rightarrow> ('w, 'v::comm_ring_1) ggml \<Rightarrow> (u64 \<Rightarrow> 'w) \<Rightarrow> environment \<times> 'v ggml_op \<Rightarrow> ('l, 'w) ggml_state \<Rightarrow> ('l, 'w) ggml_state" where
  "ggml_step ld g mem (env, Matvec type weights wbytes rows width activation output_null) st =
     snd (quant_matvec ld env g mem type weights wbytes rows width activation output_null st)"
| "ggml_step ld g mem (env, Pair a b width activation) st = snd (quant_matvec_pair ld env g mem a b width activation st)"
| "ggml_step ld g mem (env, Triplet a b c width activation) st = snd (quant_matvec_triplet ld env g mem a b c width activation st)"
| "ggml_step ld g mem (env, CacheClear) st = quant_cache_clear ld env st"
| "ggml_step ld g mem (env, Available type) st = snd (quant_available ld env type st)"
| "ggml_step ld g mem (env, DequantizeRow type input output_null width) st =
     snd (dequantize_ggml_row ld env g type input output_null width st)"
| "ggml_step ld g mem (env, Dot type input vector width) st = snd (quant_dot ld env g type input vector width st)"

definition ggml_run ::
    "'l loader \<Rightarrow> ('w, 'v::comm_ring_1) ggml \<Rightarrow> (u64 \<Rightarrow> 'w) \<Rightarrow> (environment \<times> 'v ggml_op) list \<Rightarrow> ('l, 'w) ggml_state" where
  "ggml_run ld g mem ops = fold (ggml_step ld g mem) ops ggml_start"

text \<open>The sizes a caller may give: under 4 EiB, so that no sum of them wraps around.\<close>

fun small_op :: "'v ggml_op \<Rightarrow> bool" where
  "small_op (Matvec type weights wbytes rows width activation output_null) \<longleftrightarrow> small wbytes"
| "small_op (Pair a b width activation) \<longleftrightarrow> small (matrix_bytes a) \<and> small (matrix_bytes b)"
| "small_op (Triplet a b c width activation) \<longleftrightarrow> small (matrix_bytes a) \<and> small (matrix_bytes b) \<and> small (matrix_bytes c)"
| "small_op op \<longleftrightarrow> True"

lemma resolve_ok:
  assumes "resolve ld env type st = (r, st')" and "ggml_ok e mem st"
  shows "ggml_ok e mem st'"
proof -
  obtain b s1 where 1: "open_ggml ld env st = (b, s1)" by fastforce
  have "st' = st \<or> st' = s1" using assms(1) 1 by (auto simp: resolve_def split: option.splits prod.splits)
  then show ?thesis using open_ggml_ok [OF 1 assms(2)] assms(2) by blast
qed

lemma reader_state:
  "snd (quant_available ld env type st) = snd (resolve ld env type st)"
  "snd (dequantize_ggml_row ld env g type input output_null width st) = snd (resolve ld env type st)"
  "snd (quant_dot ld env h type input vector width st) = snd (resolve ld env type st)"
  by (simp_all add: quant_available_def dequantize_ggml_row_def quant_dot_def split: prod.splits option.splits)

lemma ggml_step_ok:
  assumes "ggml_ok e mem st" and "e \<Longrightarrow> releasable ld g" and "small_op op"
  shows "ggml_ok e mem (ggml_step ld g mem (env, op) st)"
proof (cases op)
  case (Matvec type weights wbytes rows width activation output_null)
  obtain r s where q: "quant_matvec ld env g mem type weights wbytes rows width activation output_null st = (r, s)" by fastforce
  show ?thesis using quant_matvec_ok(1) [OF assms(1,2) _ q] assms(3) Matvec q by simp
next
  case (Pair a b width activation)
  obtain r s where q: "quant_matvec_group ld env g mem [a, b] width activation st = (r, s)" by fastforce
  show ?thesis using quant_matvec_group_ok(1) [OF assms(1,2) _ q] assms(3) Pair q by (simp add: quant_matvec_pair_def)
next
  case (Triplet a b c width activation)
  obtain r s where q: "quant_matvec_group ld env g mem [a, b, c] width activation st = (r, s)" by fastforce
  show ?thesis using quant_matvec_group_ok(1) [OF assms(1,2) _ q] assms(3) Triplet q by (simp add: quant_matvec_triplet_def)
next
  case CacheClear
  then show ?thesis using quant_cache_clear_ok [OF assms(1,2)] by simp
qed (use resolve_ok [OF surjective_pairing assms(1)] in \<open>simp_all add: reader_state\<close>)

lemma ggml_start_ok: "ggml_ok e mem ggml_start"
  by (simp add: ggml_ok_def owns_def caches_ok_def ggml_start_def objects_def PLAN_BYTES_MAX_def)

lemma ggml_run_ok:
  assumes "e \<Longrightarrow> releasable ld g" and "\<forall>(env, op)\<in>set ops. small_op op"
  shows "ggml_ok e mem (ggml_run ld g mem ops)"
proof -
  have "ggml_ok e mem (fold (ggml_step ld g mem) ops st)" if "ggml_ok e mem st" for st
    using assms(2) that
  proof (induction ops arbitrary: st)
    case (Cons x ops)
    obtain env op where x: "x = (env, op)" by fastforce
    have "ggml_ok e mem (ggml_step ld g mem x st)"
      unfolding x using Cons.prems assms(1) by (intro ggml_step_ok) (auto simp: x)
    then show ?case using Cons by simp
  qed simp
  then show ?thesis unfolding ggml_run_def using ggml_start_ok by blast
qed

subsection \<open>Properties\<close>

text \<open>A loader that has every symbol, and GGML answering everything with a one-number product.\<close>

definition full_loader :: "unit loader" where
  "full_loader = \<lparr>dlopen = (\<lambda>_. Some ()), dlsym = (\<lambda>_ _. True)\<rparr>"

definition plain_ggml :: "(ggml_call \<Rightarrow> nat \<Rightarrow> bool) \<Rightarrow> (int, int) ggml" where
  "plain_ggml ok = \<lparr>answer = ok, product = (\<lambda>_ w _ _ a. [w * sum_list a]), decode = (\<lambda>_ input. map (\<lambda>_. 1) input)\<rparr>"

text \<open>
  C23: Whatever is called, in whatever order, environment and with whatever answers of GGML: nothing is
  released twice, every object of a cached plan is still live and belongs to one plan only, each cache
  holds at most 256 plans, and the weights they cover stay within 4 GiB each.
\<close>

theorem ggml_caches_invariant:
  assumes "\<forall>(env, op)\<in>set ops. small_op op" and "st = ggml_run ld g mem ops"
  shows "\<not> fault st \<and> distinct (objects st) \<and> set (objects st) \<subseteq> live st \<and>
    length (cpu_plans st) \<le> 256 \<and> length (group_plans st) \<le> 256 \<and>
    (\<Sum>p\<leftarrow>cpu_plans st. unat (weight_bytes p)) \<le> 2 ^ 32 \<and> (\<Sum>p\<leftarrow>group_plans st. group_bytes p) \<le> 2 ^ 32"
proof -
  have "ggml_ok False mem st" unfolding assms(2) by (rule ggml_run_ok) (use assms(1) in auto)
  then show ?thesis
    by (auto simp: ggml_ok_def owns_def caches_ok_def PLAN_MAX_def PLAN_BYTES_MAX_def word_le_nat_alt)
qed

theorem ggml_caches_invariant_witness:
  "\<not> fault (ggml_run full_loader (plain_ggml (\<lambda>_ _. True)) (\<lambda>_. 1)
     [(\<lambda>_. None, Matvec 20 64 18 1 32 (Some [1, 1]) False), (\<lambda>_. None, CacheClear), (\<lambda>_. None, CacheClear)])"
  using ggml_caches_invariant [where ops = "[(\<lambda>_. None, Matvec 20 64 18 1 32 (Some [1, 1]) False), (\<lambda>_. None, CacheClear), (\<lambda>_. None, CacheClear)]"
      and ld = full_loader and g = "plain_ggml (\<lambda>_ _. True)" and mem = "\<lambda>_. 1", OF _ refl] by (simp add: small_def)

text \<open>
  C24: Where GGML can make its contexts and has its release functions, clearing the caches leaves none
  of its objects behind after any sequence of calls, failed ones included.
\<close>

theorem ggml_clear_releases_everything:
  assumes "releasable ld g" and "\<forall>(env, op)\<in>set ops. small_op op"
  shows "live (quant_cache_clear ld env (ggml_run ld g mem ops)) = {} \<and> \<not> fault (quant_cache_clear ld env (ggml_run ld g mem ops))"
proof -
  have "ggml_ok True mem (ggml_run ld g mem ops)" by (rule ggml_run_ok) (use assms in auto)
  from quant_cache_clear_ok [OF this] assms(1) show ?thesis by (auto simp: ggml_ok_def owns_def)
qed

theorem ggml_clear_releases_everything_witness:
  "live (quant_cache_clear full_loader (\<lambda>_. None)
     (ggml_run full_loader (plain_ggml (\<lambda>c _. c \<noteq> Alloc)) (\<lambda>_. 1) [(\<lambda>_. None, Matvec 20 64 18 1 32 (Some [1, 1]) False)])) = {}"
proof -
  have "releasable full_loader (plain_ggml (\<lambda>c _. c \<noteq> Alloc))" by (simp add: releasable_def full_loader_def plain_ggml_def)
  from ggml_clear_releases_everything [OF this, of "[(\<lambda>_. None, Matvec 20 64 18 1 32 (Some [1, 1]) False)]"]
  show ?thesis by (simp add: small_def)
qed

text \<open>
  C25: A product that is reported as done is the product of the weights at the given address, whether
  it came from a plan made by an earlier call, from a new one or from the direct way, after any
  sequence of calls during which the weights stayed as they are.
\<close>

theorem quant_matvec_product:
  assumes "\<forall>(env, op)\<in>set ops. small_op op" and "small wbytes"
    and "quant_matvec ld env g mem type weights wbytes rows width activation output_null (ggml_run ld g mem ops) = (Some out, st)"
  shows "\<exists>a. activation = Some a \<and> out = product g type (mem weights) rows width (take (nat width) a)"
proof -
  have "ggml_ok False mem (ggml_run ld g mem ops)" by (rule ggml_run_ok) (use assms(1) in auto)
  from quant_matvec_ok(2) [OF this _ assms(2,3)] show ?thesis by simp
qed

text \<open>
  The outputs of a group product are, in order, the products of its matrices.
\<close>

theorem quant_matvec_triplet_products:
  assumes "\<forall>(env, op)\<in>set ops. small_op op" and "\<forall>m\<in>{a, b, c}. small (matrix_bytes m)"
    and "quant_matvec_triplet ld env g mem a b c width activation (ggml_run ld g mem ops) = (Some out, st)"
  shows "\<exists>x. activation = Some x \<and>
    out = map (\<lambda>m. product g (matrix_type m) (mem (matrix_weights m)) (matrix_rows m) width (take (nat width) x)) [a, b, c]"
proof -
  have "ggml_ok False mem (ggml_run ld g mem ops)" by (rule ggml_run_ok) (use assms(1) in auto)
  from quant_matvec_group_ok(2) [OF this _ _ assms(3) [unfolded quant_matvec_triplet_def]] assms(2) show ?thesis by simp
qed

lemmas ggml_eval =
  quant_matvec_def cpu_plan_cached_def cpu_plan_make_def cpu_plan_build_def cpu_plan_compute_def open_both_def open_ggml_def
  open_ggml_cpu_def install_log_filter_def get_shared_cpu_backend_def get_repack_buft_def weight_buffer_of_def ask_def
  obtain_object_def release_def direct_product_def weights_fit_def dequant_name_def repack_supported_def cache_disabled_def
  ggml_start_def full_loader_def plain_ggml_def ggml_candidates_def cpu_candidates_def unset_def plan_matches_def
  requested_threads_def PLAN_MAX_def PLAN_BYTES_MAX_def Let_def plan_symbols_def compute_symbols_def direct_symbols_def
  group_symbols_def quant_matvec_pair_def quant_matvec_triplet_def quant_matvec_group_def group_plan_cached_def
  group_plan_make_def group_plan_build_def group_plan_compute_def GROUP_MAX_def group_matches_def member_of_def

theorem quant_matvec_product_witness:
  "\<exists>st. quant_matvec full_loader (\<lambda>_. None) (plain_ggml (\<lambda>_ _. True)) (\<lambda>_. 7) 20 64 18 1 32 (Some [1, 2]) False
      (ggml_run full_loader (plain_ggml (\<lambda>_ _. True)) (\<lambda>_. 7) []) = (Some [21], st)"
proof -
  let ?g = "plain_ggml (\<lambda>_ _. True)"
  obtain r st where q: "quant_matvec full_loader (\<lambda>_. None) ?g (\<lambda>_. 7) 20 64 18 1 32 (Some [1, 2]) False
      (ggml_run full_loader ?g (\<lambda>_. 7) []) = (r, st)" by fastforce
  then obtain out where out: "r = Some out" by (auto simp: ggml_run_def ggml_eval)
  from quant_matvec_product [OF _ _ q [unfolded out]] have "out = [21]" by (simp add: small_def plain_ggml_def)
  with q out show ?thesis by blast
qed

definition sample_matrix :: "u64 \<Rightarrow> int matrix" where
  "sample_matrix weights = \<lparr>matrix_type = 20, matrix_weights = weights, matrix_bytes = 18, matrix_rows = 1, matrix_output_null = False\<rparr>"

theorem quant_matvec_triplet_products_witness:
  "\<exists>st. quant_matvec_triplet full_loader (\<lambda>_. None) (plain_ggml (\<lambda>_ _. True)) uint (sample_matrix 5) (sample_matrix 6) (sample_matrix 7)
      32 (Some [1, 2]) (ggml_run full_loader (plain_ggml (\<lambda>_ _. True)) uint []) = (Some [[15], [18], [21]], st)"
proof -
  let ?g = "plain_ggml (\<lambda>_ _. True)"
  obtain r st where q: "quant_matvec_triplet full_loader (\<lambda>_. None) ?g uint (sample_matrix 5) (sample_matrix 6) (sample_matrix 7)
      32 (Some [1, 2]) (ggml_run full_loader ?g uint []) = (r, st)" by fastforce
  then obtain out where out: "r = Some out" by (auto simp: ggml_run_def ggml_eval sample_matrix_def)
  from quant_matvec_triplet_products [OF _ _ q [unfolded out]] have "out = [[15], [18], [21]]"
    by (simp add: small_def plain_ggml_def sample_matrix_def)
  with q out show ?thesis by blast
qed

text \<open>
  When \<open>ggml_init\<close> fails for the weights of a plan after it has made the context of the plan, that
  context is lost: it stays live, and no plan and no later clearing knows it.
\<close>

theorem plan_context_leaks:
  assumes "ggml_ok False mem st" and "open_both ld env st = (Some (base, cpu), s1)" and "list_all (dlsym ld base) plan_symbols"
    and "answer g Init (calls s1)" and "\<not> answer g Init (calls s1 + 1)"
  shows "\<exists>s2. cpu_plan_make ld env g mem type weights wbytes rows width st = (None, s2) \<and>
    calls s1 \<in> live s2 \<and> calls s1 \<notin> set (objects s2)"
proof -
  have "ggml_ok False mem s1" using open_both_ok [OF assms(2,1)] .
  then have o: "owns False s1 []" by (simp add: ggml_ok_def)
  have c: "obtain_object g Init s1 = (Some (calls s1), s1\<lparr>calls := calls s1 + 1, live := insert (calls s1) (live s1)\<rparr>)"
    using assms(4) by (simp add: obtain_object_def)
  let ?s = "s1\<lparr>calls := calls s1 + 1, live := insert (calls s1) (live s1)\<rparr>"
  have w: "obtain_object g Init ?s = (None, ?s\<lparr>calls := calls s1 + 2\<rparr>)" using assms(5) by (simp add: obtain_object_def)
  have "cpu_plan_make ld env g mem type weights wbytes rows width st = (None, ?s\<lparr>calls := calls s1 + 2\<rparr>)"
    using assms(2,3) c w by (simp add: cpu_plan_make_def)
  moreover have "calls s1 \<notin> set (objects s1)" using o by (auto simp: owns_def)
  ultimately show ?thesis by simp
qed

theorem plan_context_leaks_witness:
  "\<exists>s2. cpu_plan_make full_loader (\<lambda>_. None) (plain_ggml (\<lambda>c n. n = 0)) (\<lambda>_. 7) 20 64 18 1 32 ggml_start = (None, s2) \<and>
     0 \<in> live s2 \<and> 0 \<notin> set (objects s2)"
proof -
  obtain r and s1 :: "(unit, int) ggml_state" where o: "open_both full_loader (\<lambda>_. None) ggml_start = (r, s1)" by fastforce
  then have r: "r = Some ((), ())" and s1: "calls s1 = 0" by (auto simp: ggml_eval)
  have "list_all (dlsym full_loader ()) plan_symbols" by (simp add: full_loader_def plan_symbols_def)
  from plan_context_leaks [OF ggml_start_ok o [unfolded r] this, of "plain_ggml (\<lambda>c n. n = 0)"]
  show ?thesis by (simp add: plain_ggml_def s1)
qed

text \<open>
  A group whose first weight tensor cannot be made is only refused after the null tensor has been
  handed to the buffer's initialisation.
\<close>

theorem group_initialises_null_tensor:
  "\<exists>st. quant_matvec_pair full_loader (\<lambda>_. None) (plain_ggml (\<lambda>c n. \<not> (c = NewTensor \<and> n = 3))) uint
      (sample_matrix 5) (sample_matrix 6) 32 (Some [1, 2]) ggml_start = (None, st) \<and> null_tensor st"
  by (simp add: ggml_eval sample_matrix_def)

lemma sum_blocks:
  "(\<Sum>b\<leftarrow>[0..<n]. \<Sum>i\<leftarrow>[0..<m]. f (b * m + i)) = (\<Sum>k\<leftarrow>[0..<n * m]. (f k :: 'f::comm_monoid_add))"
proof (induction n)
  case (Suc n)
  have "(\<Sum>i\<leftarrow>[0..<m]. f (n * m + i)) = (\<Sum>k\<leftarrow>[n * m..<n * m + m]. f k)"
    by (rule arg_cong [where f = sum_list], rule nth_equalityI) simp_all
  moreover have "[0..<Suc n * m] = [0..<n * m] @ [n * m..<n * m + m]"
    using upt_add_eq_append [of 0 "n * m" m] by (simp add: add.commute)
  ultimately show ?case using Suc by simp
qed simp

text \<open>
  The dot product with a quantised row decodes block by block into its small buffer and sums what
  decoding the whole row and multiplying would give, for every format the table knows.
\<close>

theorem quant_dot_decoded:
  fixes g :: "('w, 'f::comm_ring_1) ggml"
  assumes "resolve ld env type st = (Some (block_width, block_bytes), st')" and "0 < n"
    and "length input = n * block_bytes"
    and "decode g type input = concat (map (\<lambda>b. decode g type (take block_bytes (drop (b * block_bytes) input))) [0..<n])"
    and "\<forall>b<n. length (decode g type (take block_bytes (drop (b * block_bytes) input))) = block_width"
  shows "block_width \<le> 256 \<and>
    dequantize_ggml_row ld env g type (Some input) False (int (n * block_width)) st = (Some (decode g type input), st') \<and>
    quant_dot ld env g type (Some input) (Some vector) (int (n * block_width)) st =
      (\<Sum>k\<leftarrow>[0..<n * block_width]. decode g type input ! k * vector ! k, st')"
proof -
  let ?block = "\<lambda>b. decode g type (take block_bytes (drop (b * block_bytes) input))"
  obtain name where "dequant_name type = Some (block_width, block_bytes, name)"
    using assms(1) by (auto simp: resolve_def split: option.splits prod.splits if_splits)
  then have w: "0 < block_width" "block_width \<le> 256" using dequant_name_cases by blast+
  have uniform: "\<forall>x\<in>set (map ?block [0..<n]). length x = block_width" using assms(5) by auto
  have nth: "?block b ! i = decode g type input ! (b * block_width + i)" if "b < n" "i < block_width" for b i
  proof -
    have "b * block_width + i < length (map ?block [0..<n]) * block_width"
    proof -
      have "b * block_width + i < (b + 1) * block_width" using that by simp
      also have "\<dots> \<le> n * block_width" using that(1) by (intro mult_le_mono1) simp
      finally show ?thesis by simp
    qed
    from nth_concat_uniform [OF uniform this] show ?thesis using that by (simp add: assms(4) [symmetric])
  qed
  have "dot_blocks (decode g type) block_width block_bytes input vector 0 (0 + n * block_width) 0 =
      (\<Sum>b\<leftarrow>[0..<n]. \<Sum>i\<leftarrow>[0..<block_width]. ?block b ! i * vector ! (b * block_width + i))"
    unfolding dot_blocks_sum [OF w(1)] by simp
  also have "\<dots> = (\<Sum>b\<leftarrow>[0..<n]. \<Sum>i\<leftarrow>[0..<block_width]. decode g type input ! (b * block_width + i) * vector ! (b * block_width + i))"
    by (intro arg_cong [where f = sum_list] map_cong refl) (simp add: nth)
  also have "\<dots> = (\<Sum>k\<leftarrow>[0..<n * block_width]. decode g type input ! k * vector ! k)" by (rule sum_blocks)
  finally have dot: "dot_blocks (decode g type) block_width block_bytes input vector 0 (n * block_width) 0 =
      (\<Sum>k\<leftarrow>[0..<n * block_width]. decode g type input ! k * vector ! k)" by simp
  have "nat (int (n * block_width)) div block_width * block_bytes = length input"
    unfolding nat_int using w(1) assms(3) by simp
  then show ?thesis using assms(1,2) w dot
    by (simp add: dequantize_ggml_row_def quant_dot_def del: of_nat_mult)
qed

theorem quant_dot_decoded_witness:
  "\<exists>st. quant_dot full_loader (\<lambda>_. None)
      (\<lparr>answer = \<lambda>_ _. True, product = \<lambda>_ _ _ _ a. a, decode = \<lambda>_ input. replicate (length input div 18 * 32) 3\<rparr> :: (int, int) ggml)
      20 (Some (replicate 36 CHR ''x'')) (Some (replicate 64 (2 :: int))) 64 ggml_start = (384, st)"
proof -
  let ?g = "\<lparr>answer = \<lambda>_ _. True, product = \<lambda>_ _ _ _ a. a, decode = \<lambda>_ input. replicate (length input div 18 * 32) 3\<rparr> :: (int, int) ggml"
  let ?in = "replicate 36 CHR ''x''"
  obtain r and st :: "(unit, int) ggml_state" where e: "resolve full_loader (\<lambda>_. None) 20 ggml_start = (r, st)" by fastforce
  then have r: "r = Some (32, 18)" by (auto simp: resolve_def ggml_eval)
  have "decode ?g 20 ?in = concat (map (\<lambda>b. decode ?g 20 (take 18 (drop (b * 18) ?in))) [0..<2])"
    by (simp add: upt_conv_Cons flip: replicate_add)
  moreover have "\<forall>b<2. length (decode ?g 20 (take 18 (drop (b * 18) ?in))) = 32" by (auto simp: less_2_cases_iff)
  ultimately have "quant_dot full_loader (\<lambda>_. None) ?g 20 (Some ?in) (Some (replicate 64 2)) (int (2 * 32)) ggml_start =
      (\<Sum>k\<leftarrow>[0..<2 * 32]. decode ?g 20 ?in ! k * replicate 64 2 ! k, st)"
    using quant_dot_decoded [OF e [unfolded r], of 2 ?in ?g "replicate 64 2"] by simp
  moreover have "(\<Sum>k\<leftarrow>[0..<2 * 32]. decode ?g 20 ?in ! k * replicate 64 2 ! k) = (\<Sum>k\<leftarrow>[0..<64]. 6)"
    by (intro arg_cong [where f = sum_list] map_cong) simp_all
  moreover have "(\<Sum>k\<leftarrow>[0..<64]. 6) = (384 :: int)"
    by (simp only: map_replicate_const length_upt sum_list_replicate)
  ultimately show ?thesis by auto
qed

lemma compute_live:
  "cpu_plan_compute ld env g plan activation output_null st = (r, st') \<Longrightarrow> live st' = live st"
  by (auto simp: cpu_plan_compute_def open_ggml_def install_log_filter_def ask_def Let_def split: if_splits option.splits)

lemma cached_has_plan:
  assumes "cpu_plan_cached ld env g mem type weights wbytes rows width activation output_null st = (Some out, st1)"
  shows "\<exists>p\<in>set (cpu_plans st1). plan_matches type weights wbytes rows width p"
proof (cases "find (plan_matches type weights wbytes rows width) (cpu_plans st)")
  case (Some p)
  then have "cpu_plan_compute ld env g p activation output_null st = (Some out, st1)"
    using assms by (simp add: cpu_plan_cached_def split: if_splits)
  moreover have "p \<in> set (cpu_plans st)" "plan_matches type weights wbytes rows width p" using Some by (auto simp: find_Some_iff)
  ultimately show ?thesis using cpu_compute_keeps(1) by (fastforce simp: frame_def)
next
  case None
  then obtain p s where m: "cpu_plan_make ld env g mem type weights wbytes rows width st = (Some p, s)"
    and c: "cpu_plan_compute ld env g p activation output_null
      (s\<lparr>cpu_plans := cpu_plans s @ [p], cpu_plan_bytes := cpu_plan_bytes s + wbytes\<rparr>) = (Some out, st1)"
    using assms by (auto simp: cpu_plan_cached_def split: if_splits prod.splits option.splits)
  show ?thesis using cpu_plan_make_keeps(3) [OF m refl] cpu_compute_keeps(1) [OF c] by (auto simp: frame_def)
qed

text \<open>
  Once a product has been computed through the cache, computing it again, with any activation, makes
  no plan and obtains nothing from GGML.
\<close>

theorem cached_product_repeats:
  assumes "cpu_plan_cached ld env g mem type weights wbytes rows width activation output_null st = (Some out, st1)"
    and "cpu_plan_cached ld env' g mem' type weights wbytes rows width activation' output_null' st1 = (r, st2)"
  shows "cpu_plans st2 = cpu_plans st1 \<and> live st2 = live st1"
proof (cases "cache_disabled env'")
  case True
  then show ?thesis using assms(2) by (simp add: cpu_plan_cached_def)
next
  case False
  obtain p where "find (plan_matches type weights wbytes rows width) (cpu_plans st1) = Some p"
    using cached_has_plan [OF assms(1)] by (cases "find (plan_matches type weights wbytes rows width) (cpu_plans st1)") (auto simp: find_None_iff)
  then have c: "cpu_plan_compute ld env' g p activation' output_null' st1 = (r, st2)"
    using assms(2) False by (simp add: cpu_plan_cached_def)
  show ?thesis using cpu_compute_keeps(1) [OF c] compute_live [OF c] by (simp add: frame_def)
qed

theorem cached_product_repeats_witness:
  "\<exists>st1 r st2. cpu_plan_cached full_loader (\<lambda>_. None) (plain_ggml (\<lambda>_ _. True)) (\<lambda>_. 7) 20 64 18 1 32 (Some [1, 2]) False ggml_start = (Some [21], st1) \<and>
     cpu_plan_cached full_loader (\<lambda>_. None) (plain_ggml (\<lambda>_ _. True)) (\<lambda>_. 7) 20 64 18 1 32 (Some [5]) False st1 = (r, st2) \<and>
     cpu_plans st2 = cpu_plans st1 \<and> live st2 = live st1"
proof -
  let ?run = "cpu_plan_cached full_loader (\<lambda>_. None) (plain_ggml (\<lambda>_ _. True)) (\<lambda>_. 7) 20 64 18 1 32"
  obtain o1 and st1 :: "(unit, int) ggml_state" where 1: "?run (Some [1, 2]) False ggml_start = (o1, st1)" by fastforce
  then have o1: "o1 = Some [21]" by (auto simp: ggml_eval)
  obtain r st2 where 2: "?run (Some [5]) False st1 = (r, st2)" by fastforce
  from cached_product_repeats [OF 1 [unfolded o1] 2] 1 2 o1 show ?thesis by blast
qed

end
