(* ===== verification/CudaRuntime.thy ===== *)
theory CudaRuntime
  imports Prelude
begin

section \<open>Objects of the CUDA runtime\<close>

text \<open>
  What the host side of the CUDA backends does with the runtime: it creates and releases memory,
  streams, events and graphs, and keeps their handles in the fields of its structures. A structure is a
  map from its fields to handles (\<open>slots\<close>) and to the sizes it has recorded (\<open>capacity\<close>). The answers of
  the runtime are two lists, one for the calls that release and one for all others; a call beyond their
  ends succeeds, a call that fails has no effect. Releasing something that is not live, or by the wrong
  function, is counted in \<open>faults\<close>.
\<close>

datatype kind = DeviceMemory | PinnedMemory | Stream | Event | Graph | GraphExec | GgmlBackend | GgmlEvent | GgmlBuffer | GgmlContext

record 's machine =
  live :: "nat \<Rightarrow> (kind \<times> nat) option"
  fresh :: nat
  faults :: nat
  answers :: "bool list"
  release_answers :: "bool list"
  slots :: "'s \<Rightarrow> nat option"
  capacity :: "'s \<Rightarrow> nat"

text \<open>A call returns whether it succeeded. The chain is \<open>if (error == cudaSuccess) error = ...\<close>.\<close>

type_synonym 'm call = "'m \<Rightarrow> bool \<times> 'm"

fun chain :: "'m call list \<Rightarrow> 'm call" where
  "chain [] m = (True, m)"
| "chain (f # fs) m = (let (ok, m') = f m in if ok then chain fs m' else (False, m'))"

definition asked :: "('s, 'z) machine_scheme call" where
  "asked m = (case answers m of [] \<Rightarrow> (True, m) | a # as \<Rightarrow> (a, m\<lparr>answers := as\<rparr>))"

definition asked_release :: "('s, 'z) machine_scheme call" where
  "asked_release m = (case release_answers m of [] \<Rightarrow> (True, m) | a # as \<Rightarrow> (a, m\<lparr>release_answers := as\<rparr>))"

text \<open>Creating an object of a size, its handle stored in a field.\<close>

definition create_in :: "kind \<Rightarrow> nat \<Rightarrow> 's \<Rightarrow> ('s, 'z) machine_scheme call" where
  "create_in k n s m =
     (let (ok, m) = asked m
      in if ok then (True, m\<lparr>live := (live m)(fresh m \<mapsto> (k, n)), fresh := Suc (fresh m), slots := (slots m)(s \<mapsto> fresh m)\<rparr>)
         else (False, m))"

text \<open>Releasing what a handle stands for; a null handle is allowed.\<close>

definition discard :: "kind \<Rightarrow> nat option \<Rightarrow> ('s, 'z) machine_scheme call" where
  "discard k handle m =
     (let (ok, m) = asked_release m
      in case handle of None \<Rightarrow> (ok, m)
         | Some p \<Rightarrow> if \<not> ok then (False, m)
             else if map_option fst (live m p) = Some k then (True, m\<lparr>live := (live m)(p := None)\<rparr>)
             else (False, m\<lparr>faults := Suc (faults m)\<rparr>))"

definition forget :: "'s \<Rightarrow> ('s, 'z) machine_scheme \<Rightarrow> ('s, 'z) machine_scheme" where
  "forget s m = m\<lparr>slots := (slots m)(s := None)\<rparr>"

definition set_bytes :: "'s \<Rightarrow> nat \<Rightarrow> ('s, 'z) machine_scheme \<Rightarrow> ('s, 'z) machine_scheme" where
  "set_bytes s n m = m\<lparr>capacity := (capacity m)(s := n)\<rparr>"

text \<open>
  Releasing a field whatever the answer is, as the functions that take a structure down do; a null field
  needs no call.
\<close>

definition drop_slot :: "kind \<Rightarrow> 's \<Rightarrow> ('s, 'z) machine_scheme \<Rightarrow> ('s, 'z) machine_scheme" where
  "drop_slot k s m = (if slots m s = None then m else forget s (snd (discard k (slots m s) m)))"

definition drop_slots :: "('s \<Rightarrow> kind) \<Rightarrow> 's list \<Rightarrow> ('s, 'z) machine_scheme \<Rightarrow> ('s, 'z) machine_scheme" where
  "drop_slots kinds ss m = fold (\<lambda>s. drop_slot (kinds s) s) ss m"

subsection \<open>Scratch buffers that grow\<close>

text \<open>The three ways the code makes a buffer larger: keeping the old size until the new memory is there,\<close>

definition grow_stale :: "kind \<Rightarrow> 's \<Rightarrow> nat \<Rightarrow> ('s, 'z) machine_scheme call" where
  "grow_stale k s n m =
     (if n \<le> capacity m s then (True, m)
      else let (ok, m) = discard k (slots m s) m
           in if \<not> ok then (False, m)
              else let (ok, m) = create_in k n s (forget s m)
                   in if \<not> ok then (False, m) else (True, set_bytes s n m))"

text \<open>setting the size to 0 in between,\<close>

definition grow :: "kind \<Rightarrow> 's \<Rightarrow> nat \<Rightarrow> ('s, 'z) machine_scheme call" where
  "grow k s n m =
     (if n \<le> capacity m s \<and> slots m s \<noteq> None then (True, m)
      else let (ok, m) = discard k (slots m s) m
           in if \<not> ok then (False, m)
              else let (ok, m) = create_in k n s (set_bytes s 0 (forget s m))
                   in if \<not> ok then (False, m) else (True, set_bytes s n m))"

text \<open>and allocating the new memory before the old one is released.\<close>

definition grow_replace :: "kind \<Rightarrow> 's \<Rightarrow> nat \<Rightarrow> ('s, 'z) machine_scheme call" where
  "grow_replace k s n m =
     (if n \<le> capacity m s then (True, m)
      else let old = slots m s; (ok, m') = create_in k n s m
           in if \<not> ok then (False, m')
              else let (ok, m'') = discard k old m'
                   in if \<not> ok then (False, (snd (discard k (slots m'' s) m''))\<lparr>slots := (slots m'')(s := old)\<rparr>)
                      else (True, set_bytes s n m''))"

subsection \<open>Who owns what\<close>

text \<open>
  A sound structure: every field in use holds a live object of its kind, no two fields the same one, and
  nothing was released wrongly. \<open>strays\<close> are the live objects that no field holds.
\<close>

definition sound :: "('s \<Rightarrow> kind) \<Rightarrow> 's list \<Rightarrow> ('s, 'z) machine_scheme \<Rightarrow> bool" where
  "sound kinds order m \<longleftrightarrow> faults m = 0 \<and> (\<forall>p. live m p \<noteq> None \<longrightarrow> p < fresh m) \<and>
     (\<forall>s p. slots m s = Some p \<longrightarrow> s \<in> set order \<and> map_option fst (live m p) = Some (kinds s)) \<and>
     (\<forall>s t p. slots m s = Some p \<longrightarrow> slots m t = Some p \<longrightarrow> s = t)"

definition strays :: "('s, 'z) machine_scheme \<Rightarrow> nat \<Rightarrow> (kind \<times> nat) option" where
  "strays m p = (if Some p \<in> range (slots m) then None else live m p)"

definition releases_succeed :: "('s, 'z) machine_scheme \<Rightarrow> bool" where
  "releases_succeed m \<longleftrightarrow> set (release_answers m) \<subseteq> {True}"

named_theorems runtime

lemma asked_same [runtime]:
  "live (snd (asked m)) = live m" "fresh (snd (asked m)) = fresh m" "faults (snd (asked m)) = faults m"
  "slots (snd (asked m)) = slots m" "capacity (snd (asked m)) = capacity m" "release_answers (snd (asked m)) = release_answers m"
  by (simp_all add: asked_def split: list.splits)

lemma asked_release_same [runtime]:
  "live (snd (asked_release m)) = live m" "fresh (snd (asked_release m)) = fresh m" "faults (snd (asked_release m)) = faults m"
  "slots (snd (asked_release m)) = slots m" "capacity (snd (asked_release m)) = capacity m"
  by (simp_all add: asked_release_def split: list.splits)

lemma asked_release_ok: "releases_succeed m \<Longrightarrow> fst (asked_release m) \<and> releases_succeed (snd (asked_release m))"
  by (auto simp: asked_release_def releases_succeed_def split: list.splits)

lemma sound_cong:
  "live m' = live m \<Longrightarrow> fresh m' = fresh m \<Longrightarrow> faults m' = faults m \<Longrightarrow> slots m' = slots m \<Longrightarrow>
   sound kinds order m' = sound kinds order m"
  by (simp add: sound_def)

lemma strays_cong: "live m' = live m \<Longrightarrow> slots m' = slots m \<Longrightarrow> strays m' = strays m"
  by (auto simp: strays_def fun_eq_iff)

lemma sound_slot: "sound kinds order m \<Longrightarrow> slots m s = Some p \<Longrightarrow> map_option fst (live m p) = Some (kinds s)"
  by (simp add: sound_def)

lemma sound_faults: "sound kinds order m \<Longrightarrow> faults m = 0"
  by (simp add: sound_def)

lemma sound_inj: "sound kinds order m \<Longrightarrow> slots m s = Some p \<Longrightarrow> slots m t = Some p \<Longrightarrow> s = t"
  by (simp add: sound_def)

lemma sound_fresh: "sound kinds order m \<Longrightarrow> live m p = Some x \<Longrightarrow> p < fresh m"
  by (simp add: sound_def)

text \<open>A machine that differs from another only in what neither invariant reads.\<close>

definition alike :: "('s, 'z) machine_scheme \<Rightarrow> ('s, 'z) machine_scheme \<Rightarrow> bool" where
  "alike m m' \<longleftrightarrow> live m' = live m \<and> fresh m' = fresh m \<and> faults m' = faults m \<and> slots m' = slots m \<and>
     (releases_succeed m \<longrightarrow> releases_succeed m')"

lemma alike_refl [simp]: "alike m m" by (simp add: alike_def)

lemma alike_asked [simp]: "alike m (snd (asked m))" by (simp add: alike_def runtime releases_succeed_def)

lemma alike_set_bytes [simp]: "alike m (set_bytes s n m)" by (simp add: alike_def set_bytes_def releases_succeed_def)

text \<open>
  What every operation on a structure keeps: it stays sound, and where releasing succeeds nothing is
  lost and nothing foreign is touched.
\<close>

definition keeps :: "('s \<Rightarrow> kind) \<Rightarrow> 's list \<Rightarrow> ('s, 'z) machine_scheme \<Rightarrow> ('s, 'z) machine_scheme \<Rightarrow> bool" where
  "keeps kinds order m m' \<longleftrightarrow> (sound kinds order m \<longrightarrow> sound kinds order m' \<and>
     (releases_succeed m \<longrightarrow> releases_succeed m' \<and> strays m' = strays m))"

lemma keeps_refl [intro]: "keeps kinds order m m"
  by (simp add: keeps_def)

lemma keeps_alike: "alike m m' \<Longrightarrow> keeps kinds order m m'"
  using sound_cong [of m' m] strays_cong [of m' m] by (auto simp: keeps_def alike_def)

lemma keeps_trans: "keeps kinds order m m' \<Longrightarrow> keeps kinds order m' m'' \<Longrightarrow> keeps kinds order m m''"
  by (auto simp: keeps_def)

lemma keeps_make:
  assumes "kinds s = k" and "s \<in> set order" and "slots m s = None"
  shows "keeps kinds order m (snd (create_in k n s m))"
proof (cases "asked m")
  case (Pair ok m1)
  have same: "live m1 = live m" "fresh m1 = fresh m" "faults m1 = faults m" "slots m1 = slots m"
    "release_answers m1 = release_answers m"
    using asked_same [of m] Pair by simp_all
  show ?thesis
  proof (cases ok)
    case True
    let ?m = "m1\<lparr>live := (live m)(fresh m \<mapsto> (k, n)), fresh := Suc (fresh m), slots := (slots m)(s \<mapsto> fresh m)\<rparr>"
    have result: "snd (create_in k n s m) = ?m" using Pair True same by (simp add: create_in_def)
    show ?thesis unfolding result keeps_def
    proof (intro impI conjI)
      assume snd: "sound kinds order m"
      have new: "slots m t \<noteq> Some (fresh m)" "live m (fresh m) = None" for t
        using snd unfolding sound_def by (metis option.map_disc_iff option.distinct(1) less_irrefl, metis less_irrefl)
      show "sound kinds order ?m"
        unfolding sound_def
      proof (intro conjI allI impI)
        show "faults ?m = 0" using snd same by (simp add: sound_def)
        show "p < fresh ?m" if "live ?m p \<noteq> None" for p
          using that snd by (auto simp: sound_def split: if_splits intro: less_SucI)
        show "t \<in> set order" "map_option fst (live ?m p) = Some (kinds t)" if "slots ?m t = Some p" for t p
          using that snd assms new by (auto simp: sound_def split: if_splits)
        show "t = u" if "slots ?m t = Some p" "slots ?m u = Some p" for t u p
          using that sound_inj [OF snd] new by (auto split: if_splits)
      qed
      show "releases_succeed ?m" if "releases_succeed m" using that same by (simp add: releases_succeed_def)
      show "strays ?m = strays m"
      proof (rule ext)
        fix p
        have "Some p \<in> range (slots ?m) \<longleftrightarrow> Some p \<in> range (slots m) \<or> p = fresh m"
        proof
          assume "Some p \<in> range (slots ?m)"
          then obtain t where "Some p = slots ?m t" by blast
          then show "Some p \<in> range (slots m) \<or> p = fresh m" by (auto split: if_splits)
        next
          assume "Some p \<in> range (slots m) \<or> p = fresh m"
          then show "Some p \<in> range (slots ?m)"
          proof
            assume "Some p \<in> range (slots m)"
            then obtain t where t: "slots m t = Some p" by (metis rangeE)
            then have "t \<noteq> s" using assms(3) by auto
            then have "slots ?m t = Some p" using t by simp
            then show ?thesis by (metis rangeI)
          next
            assume "p = fresh m"
            then have "slots ?m s = Some p" by simp
            then show ?thesis by (metis rangeI)
          qed
        qed
        then show "strays ?m p = strays m p" using new(2) by (auto simp: strays_def)
      qed
    qed
  next
    case False
    then have "snd (create_in k n s m) = m1" using Pair by (simp add: create_in_def)
    then show ?thesis using keeps_alike [OF alike_asked [of m]] Pair by auto
  qed
qed

text \<open>Releasing the object of a field, and then clearing the field.\<close>

lemma discard_forget:
  assumes "kinds s = k" and "slots m s = h" and "discard k h m = (ok, m')" and "sound kinds order m"
  shows "sound kinds order (forget s m')" and "releases_succeed m \<Longrightarrow> ok \<and> releases_succeed m' \<and> strays (forget s m') = strays m"
    and "\<not> ok \<Longrightarrow> alike m m' \<or> \<not> releases_succeed m" and "\<not> ok \<Longrightarrow> sound kinds order m'"
    and "slots m' = slots m" and "capacity m' = capacity m" and "fresh m' = fresh m"
proof -
  obtain a m1 where a: "asked_release m = (a, m1)" by (cases "asked_release m") auto
  have same: "live m1 = live m" "fresh m1 = fresh m" "faults m1 = faults m" "slots m1 = slots m" "capacity m1 = capacity m"
    using asked_release_same [of m] a by simp_all
  have forget_same: "slots (forget s x) = (slots x)(s := None)" "live (forget s x) = live x" "fresh (forget s x) = fresh x"
    "faults (forget s x) = faults x" for x :: "('a, 'b) machine_scheme" by (simp_all add: forget_def)
  have forget_sound: "sound kinds order (forget s m1)"
    using assms(4) unfolding sound_def forget_same same by (auto split: if_splits)
  have a_ok: "releases_succeed m \<Longrightarrow> a \<and> releases_succeed m1" using asked_release_ok [of m] a by simp
  have all: "sound kinds order (forget s m') \<and> (releases_succeed m \<longrightarrow> ok \<and> releases_succeed m' \<and> strays (forget s m') = strays m) \<and>
      (\<not> ok \<longrightarrow> (alike m m' \<or> \<not> releases_succeed m) \<and> sound kinds order m') \<and> slots m' = slots m \<and> capacity m' = capacity m \<and> fresh m' = fresh m"
  proof (cases "slots m s")
    case None
    have "slots (forget s m1) = slots m" using None same by (auto simp: forget_same)
    then have "strays (forget s m1) = strays m" by (rule strays_cong [rotated]) (simp add: forget_same same)
    moreover have "m' = m1 \<and> ok = a" using assms(2,3) a None by (simp add: discard_def)
    moreover have "sound kinds order m1" using assms(4) sound_cong [OF same(1-4)] by simp
    ultimately show ?thesis using forget_sound a_ok same by (auto simp: alike_def)
  next
    case (Some p)
    have h: "h = Some p" using Some assms(2) by simp
    show ?thesis
    proof (cases a)
      case False
      then have "m' = m1 \<and> \<not> ok" using assms(3) a h by (simp add: discard_def)
      moreover have "sound kinds order m1" using assms(4) sound_cong [OF same(1-4)] by simp
      ultimately show ?thesis using forget_sound a_ok False same by auto
    next
      case True
      have "map_option fst (live m1 p) = Some k" using sound_slot [OF assms(4) Some] assms(1) same by simp
      then have m': "ok" "m' = m1\<lparr>live := (live m1)(p := None)\<rparr>"
        using assms(3) a h True by (simp_all add: discard_def)
      have s1: "sound kinds order (forget s m')"
        using assms(4) sound_inj [OF assms(4) Some] Some unfolding sound_def forget_same m' by (auto simp: same split: if_splits)
      have "Some q \<in> range (slots (forget s m')) \<longleftrightarrow> Some q \<in> range (slots m) \<and> q \<noteq> p" for q
      proof
        assume "Some q \<in> range (slots (forget s m'))"
        then obtain t where "Some q = slots (forget s m') t" by blast
        then have "slots m t = Some q" "t \<noteq> s" by (simp_all add: forget_same m' same split: if_splits)
        then show "Some q \<in> range (slots m) \<and> q \<noteq> p" using sound_inj [OF assms(4) Some, of t] by (metis rangeI)
      next
        assume q: "Some q \<in> range (slots m) \<and> q \<noteq> p"
        then obtain t where "slots m t = Some q" by (metis rangeE)
        moreover have "t \<noteq> s" using calculation q Some by (metis option.inject)
        ultimately have "slots (forget s m') t = Some q" by (simp add: forget_same m' same)
        then show "Some q \<in> range (slots (forget s m'))" by (metis rangeI)
      qed
      moreover have "live (forget s m') = (live m)(p := None)" by (simp add: forget_same m' same)
      moreover have "Some p \<in> range (slots m)" using Some by (metis rangeI)
      ultimately have "strays (forget s m') = strays m" by (auto simp: strays_def fun_eq_iff)
      moreover have "releases_succeed m' = releases_succeed m1" by (simp add: m' releases_succeed_def)
      ultimately show ?thesis using s1 m' a_ok same by simp
    qed
  qed
  show "sound kinds order (forget s m')" and "releases_succeed m \<Longrightarrow> ok \<and> releases_succeed m' \<and> strays (forget s m') = strays m"
    and "\<not> ok \<Longrightarrow> alike m m' \<or> \<not> releases_succeed m" and "\<not> ok \<Longrightarrow> sound kinds order m'"
    and "slots m' = slots m" and "capacity m' = capacity m" and "fresh m' = fresh m" using all by simp_all
qed

lemma releases_succeed_forget [simp]: "releases_succeed (forget s m) = releases_succeed m"
  by (simp add: releases_succeed_def forget_def)

lemma keeps_drop_slot: "kinds s = k \<Longrightarrow> keeps kinds order m (drop_slot k s m)"
proof -
  assume k: "kinds s = k"
  obtain ok m' where d: "discard k (slots m s) m = (ok, m')" by (cases "discard k (slots m s) m") auto
  show ?thesis using discard_forget [where kinds = kinds and s = s and m = m, OF k refl d]
    by (simp add: keeps_def drop_slot_def d)
qed

lemma keeps_forget_discard: "kinds s = k \<Longrightarrow> keeps kinds order m (forget s (snd (discard k (slots m s) m)))"
proof -
  assume k: "kinds s = k"
  obtain ok m' where d: "discard k (slots m s) m = (ok, m')" by (cases "discard k (slots m s) m") auto
  show ?thesis using discard_forget [where kinds = kinds and s = s and m = m, OF k refl d]
    by (simp add: keeps_def d)
qed

text \<open>A buffer that could not be grown is unchanged or empty.\<close>

lemma keeps_discarding:
  assumes "kinds s = k" and "slots m s = h" and "discard k h m = (ok, m')"
  shows "keeps kinds order m (if ok then forget s m' else m')"
  using discard_forget [where kinds = kinds and s = s and m = m, OF assms] by (auto simp: keeps_def alike_def dest: strays_cong)

lemma keeps_grow:
  assumes "kinds s = k" and "s \<in> set order"
  shows "keeps kinds order m (snd (grow k s n m))" and "keeps kinds order m (snd (grow_stale k s n m))"
proof -
  obtain ok m' where d: "discard k (slots m s) m = (ok, m')" by (cases "discard k (slots m s) m") auto
  note first = keeps_discarding [where kinds = kinds and s = s and m = m and order = order, OF assms(1) refl d]
  have after: "keeps kinds order m (snd (create_in k n s (f (forget s m'))))" if ok "\<And>x. alike x (f x) \<and> slots (f x) = slots x" for f
  proof -
    have "slots (f (forget s m')) s = None" using that(2) [of "forget s m'"] by (simp add: forget_def)
    then have "keeps kinds order (f (forget s m')) (snd (create_in k n s (f (forget s m'))))"
      using assms by (intro keeps_make)
    moreover have "keeps kinds order (forget s m') (f (forget s m'))" using that(2) by (intro keeps_alike) simp
    moreover have "keeps kinds order m (forget s m')" using first that(1) by simp
    ultimately show ?thesis by (blast intro: keeps_trans)
  qed
  have done1: "keeps kinds order m (set_bytes s n x)" if "keeps kinds order m x" for x
    using that keeps_alike [OF alike_set_bytes] by (rule keeps_trans)
  have zero: "alike x (set_bytes s 0 x) \<and> slots (set_bytes s 0 x) = slots x" for x :: "('a, 'b) machine_scheme"
    by (simp add: set_bytes_def alike_def releases_succeed_def)
  have shape: "snd (case create_in k n s x of (ok, y) \<Rightarrow> if \<not> ok then (False, y) else (True, set_bytes s n y)) =
      (if fst (create_in k n s x) then set_bytes s n (snd (create_in k n s x)) else snd (create_in k n s x))" for x :: "('a, 'b) machine_scheme"
    by (simp add: split_beta)
  have "snd (grow k s n m) = m \<or> \<not> ok \<and> snd (grow k s n m) = m' \<or>
      ok \<and> snd (grow k s n m) = snd (case create_in k n s (set_bytes s 0 (forget s m')) of (ok, y) \<Rightarrow> if \<not> ok then (False, y) else (True, set_bytes s n y))"
    by (simp add: grow_def d)
  then show "keeps kinds order m (snd (grow k s n m))"
    using first after [of "set_bytes s 0", OF _ zero] done1 unfolding shape by (elim disjE conjE) (simp_all add: keeps_refl)
  have "snd (grow_stale k s n m) = m \<or> \<not> ok \<and> snd (grow_stale k s n m) = m' \<or>
      ok \<and> snd (grow_stale k s n m) = snd (case create_in k n s (forget s m') of (ok, y) \<Rightarrow> if \<not> ok then (False, y) else (True, set_bytes s n y))"
    by (simp add: grow_stale_def d)
  then show "keeps kinds order m (snd (grow_stale k s n m))"
    using first after [of "\<lambda>x. x"] done1 unfolding shape by (elim disjE conjE) (simp_all add: keeps_refl)
qed

text \<open>Replacing: the same as releasing first and creating then, when both succeed.\<close>

lemma asked_release_update [simp]:
  "asked_release (m\<lparr>live := l\<rparr>) = (fst (asked_release m), (snd (asked_release m))\<lparr>live := l\<rparr>)"
  "asked_release (m\<lparr>fresh := f\<rparr>) = (fst (asked_release m), (snd (asked_release m))\<lparr>fresh := f\<rparr>)"
  "asked_release (m\<lparr>slots := t\<rparr>) = (fst (asked_release m), (snd (asked_release m))\<lparr>slots := t\<rparr>)"
  by (simp_all add: asked_release_def split: list.splits)

lemma keeps_fresh_stray:
  assumes "sound kinds order m" and "live m' = (live m)(fresh m := x)" and "fresh m' = Suc (fresh m)"
    and "faults m' = faults m" and "slots m' = slots m"
  shows "sound kinds order m'" and "x = None \<Longrightarrow> strays m' = strays m"
proof -
  have new: "slots m t \<noteq> Some (fresh m)" "live m (fresh m) = None" for t
    using assms(1) unfolding sound_def by (metis option.map_disc_iff option.distinct(1) less_irrefl, metis less_irrefl)
  show "sound kinds order m'" unfolding sound_def assms(2-5)
  proof (intro conjI allI impI)
    show "faults m = 0" by (rule sound_faults [OF assms(1)])
    show "p < Suc (fresh m)" if "((live m)(fresh m := x)) p \<noteq> None" for p
      using that sound_fresh [OF assms(1), of p] by (auto split: if_splits)
    show "s \<in> set order" if "slots m s = Some p" for s p using assms(1) that unfolding sound_def by blast
    show "map_option fst (((live m)(fresh m := x)) p) = Some (kinds s)" if "slots m s = Some p" for s p
      using sound_slot [OF assms(1) that] new(1) that by auto
    show "s = t" if "slots m s = Some p" "slots m t = Some p" for s t p by (rule sound_inj [OF assms(1) that])
  qed
  have "(live m)(fresh m := None) = live m" using new(2) by (metis fun_upd_triv)
  then show "strays m' = strays m" if "x = None" using that assms by (intro strays_cong) simp_all
qed

lemma keeps_grow_replace:
  assumes "kinds s = k" and "s \<in> set order"
  shows "keeps kinds order m (snd (grow_replace k s n m))"
proof (cases "n \<le> capacity m s")
  case True
  then show ?thesis by (simp add: grow_replace_def keeps_refl)
next
  case False
  obtain a m1 where a: "asked m = (a, m1)" by (cases "asked m") auto
  have same: "live m1 = live m" "fresh m1 = fresh m" "faults m1 = faults m" "slots m1 = slots m"
    "release_answers m1 = release_answers m"
    using asked_same [of m] a by simp_all
  show ?thesis
  proof (cases a)
    case False
    then have "snd (grow_replace k s n m) = m1" using \<open>\<not> n \<le> capacity m s\<close> a by (simp add: grow_replace_def create_in_def)
    then show ?thesis using keeps_alike [OF alike_asked [of m]] a by auto
  next
    case True
    let ?m2 = "m1\<lparr>live := (live m)(fresh m \<mapsto> (k, n)), fresh := Suc (fresh m), slots := (slots m)(s \<mapsto> fresh m)\<rparr>"
    have create_in: "create_in k n s m = (True, ?m2)" using a True same by (simp add: create_in_def)
    obtain ok m3 where d: "discard k (slots m s) ?m2 = (ok, m3)" by (cases "discard k (slots m s) ?m2") auto
    have result: "snd (grow_replace k s n m) = (if ok then set_bytes s n m3
        else (snd (discard k (slots m3 s) m3))\<lparr>slots := (slots m3)(s := slots m s)\<rparr>)"
      using False create_in d by (simp add: grow_replace_def)
    let ?final = "if ok then set_bytes s n m3 else (snd (discard k (slots m3 s) m3))\<lparr>slots := (slots m3)(s := slots m s)\<rparr>"
    show ?thesis unfolding result keeps_def
    proof (intro impI)
      assume snd: "sound kinds order m"
      have s1: "sound kinds order m1" using snd sound_cong [OF same(1-4)] by simp
      have new: "slots m t \<noteq> Some (fresh m)" "live m (fresh m) = None" for t
        using snd unfolding sound_def by (metis option.map_disc_iff option.distinct(1) less_irrefl, metis less_irrefl)
      have m2: "asked_release ?m2 = (fst (asked_release m1), (snd (asked_release m1))\<lparr>live := live ?m2, fresh := fresh ?m2, slots := slots ?m2\<rparr>)"
        by simp
      have d3: "ok = fst (asked_release m1)" "slots m3 = slots ?m2" "fresh m3 = Suc (fresh m)" "faults m3 = 0"
        "live m3 = (if ok then case slots m s of None \<Rightarrow> live ?m2 | Some p \<Rightarrow> (live ?m2)(p := None) else live ?m2)"
        "releases_succeed m3 = releases_succeed (snd (asked_release m1))"
        using d m2 sound_slot [OF snd, of s] assms(1) new sound_faults [OF snd] same
        by (auto simp: discard_def runtime releases_succeed_def split: option.splits if_splits)
      show "sound kinds order ?final \<and> (releases_succeed m \<longrightarrow> releases_succeed ?final \<and> strays ?final = strays m)"
      proof (cases ok)
        case True
        define n0 where "n0 = m\<lparr>answers := [], release_answers := []\<rparr>"
        define n1 where "n1 = forget s (snd (discard k (slots n0 s) n0))"
        have n0: "sound kinds order n0" "strays n0 = strays m" "releases_succeed n0"
          using snd sound_cong [of n0 m kinds order] strays_cong [of n0 m] by (simp_all add: n0_def releases_succeed_def)
        have "keeps kinds order n0 n1" using keeps_forget_discard [of kinds s, OF assms(1), of order n0] by (simp add: n1_def)
        moreover have "keeps kinds order n1 (snd (create_in k n s n1))"
          using assms by (intro keeps_make) (simp_all add: n1_def forget_def)
        ultimately have n2: "sound kinds order (snd (create_in k n s n1))" "strays (snd (create_in k n s n1)) = strays m"
          using n0 unfolding keeps_def by auto
        have n1_same: "live n1 = (case slots m s of None \<Rightarrow> live m | Some p \<Rightarrow> (live m)(p := None))" "fresh n1 = fresh m"
          "slots n1 = (slots m)(s := None)" "faults n1 = 0" "asked n1 = (True, n1)"
          using sound_slot [OF snd, of s] assms(1) sound_faults [OF snd]
          by (auto simp: n1_def n0_def forget_def discard_def asked_release_def asked_def split: option.splits)
        have "live m3 = live (snd (create_in k n s n1))"
          using True d3(5) new(1) [of s] by (auto simp: create_in_def n1_same split: option.splits)
        moreover have "slots m3 = slots (snd (create_in k n s n1))" using d3(2) by (simp add: create_in_def n1_same)
        moreover have "fresh m3 = fresh (snd (create_in k n s n1))" using d3(3) by (simp add: create_in_def n1_same)
        moreover have "faults m3 = faults (snd (create_in k n s n1))" using d3(4) by (simp add: create_in_def n1_same)
        ultimately have "sound kinds order m3" "strays m3 = strays m"
          using n2 sound_cong [of m3 "snd (create_in k n s n1)" kinds order] strays_cong [of m3 "snd (create_in k n s n1)"] by simp_all
        moreover have "releases_succeed m3" if "releases_succeed m"
          using that asked_release_ok [of m1] same d3(6) by (simp add: releases_succeed_def)
        ultimately show ?thesis
          using True keeps_alike [OF alike_set_bytes [of m3 s n], of kinds order] by (auto simp: keeps_def)
      next
        case False
        then have no: "\<not> releases_succeed m" using asked_release_ok [of m1] same d3(1) by (auto simp: releases_succeed_def)
        have m3: "live m3 = (live m)(fresh m \<mapsto> (k, n))" using False d3(5) same by simp
        have "sound kinds order ?final"
        proof (rule keeps_fresh_stray(1) [OF snd])
          let ?b = "fst (asked_release m3)"
          have sl: "slots m3 s = Some (fresh m)" using d3(2) by simp
          have x: "snd (discard k (slots m3 s) m3) = (snd (asked_release m3))\<lparr>live := if ?b then (live m)(fresh m := None) else live m3\<rparr>"
            unfolding sl using asked_release_same [of m3] m3 by (simp add: discard_def split_beta)
          show "live ?final = (live m)(fresh m := if ?b then None else Some (k, n))" using False m3 by (simp add: x)
          show "fresh ?final = Suc (fresh m)" using False d3(3) by (simp add: x runtime)
          show "faults ?final = faults m" using False d3(4) sound_faults [OF snd] by (simp add: x runtime)
          show "slots ?final = slots m" using False d3(2) by (simp add: fun_eq_iff)
        qed
        then show ?thesis using no by simp
      qed
    qed
  qed
qed

lemma keeps_chain:
  assumes "\<And>f m. f \<in> set fs \<Longrightarrow> keeps kinds order m (snd (f m))"
  shows "keeps kinds order m (snd (chain fs m))"
  using assms
proof (induction fs arbitrary: m)
  case (Cons f fs)
  have head: "keeps kinds order m (snd (f m))" by (simp add: Cons.prems)
  have "keeps kinds order (snd (f m)) (snd (chain fs (snd (f m))))" by (rule Cons.IH) (simp add: Cons.prems)
  then show ?case using head keeps_trans by (auto simp: split_beta Let_def)
qed auto

lemma keeps_drop_slots: "keeps kinds order m (drop_slots kinds ss m)"
  unfolding drop_slots_def
proof (induction ss arbitrary: m)
  case (Cons s ss)
  show ?case using keeps_trans [OF keeps_drop_slot [OF refl] Cons.IH] by simp
qed auto

subsection \<open>Creating a structure\<close>

text \<open>The steps by which a structure is filled: creating what a field holds, and calls that own nothing.\<close>

datatype 's creation = Allocate 's nat | Fill

fun perform :: "('s \<Rightarrow> kind) \<Rightarrow> 's creation \<Rightarrow> ('s, 'z) machine_scheme call" where
  "perform kinds (Allocate s n) = create_in (kinds s) n s"
| "perform kinds Fill = asked"

definition allocated :: "'s creation list \<Rightarrow> 's list" where
  "allocated steps = concat (map (\<lambda>c. case c of Allocate s n \<Rightarrow> [s] | Fill \<Rightarrow> []) steps)"

lemma allocated_simps [simp]:
  "allocated [] = []" "allocated (Allocate s n # steps) = s # allocated steps" "allocated (Fill # steps) = allocated steps"
  by (simp_all add: allocated_def)

lemma slots_create_in: "t \<noteq> s \<Longrightarrow> slots (snd (create_in k n s m)) t = slots m t"
  by (simp add: create_in_def split_beta Let_def runtime)

lemma keeps_creations:
  assumes "distinct (allocated steps)" and "set (allocated steps) \<subseteq> set order"
    and "\<forall>s\<in>set (allocated steps). slots m s = None"
  shows "keeps kinds order m (snd (chain (map (perform kinds) steps) m))"
  using assms
proof (induction steps arbitrary: m)
  case (Cons c steps)
  let ?m = "snd (perform kinds c m)"
  have head: "keeps kinds order m ?m"
    using Cons.prems by (cases c) (auto intro: keeps_make keeps_alike)
  have free: "\<forall>s\<in>set (allocated steps). slots ?m s = None"
  proof
    fix s assume s: "s \<in> set (allocated steps)"
    then have "slots m s = None" "\<And>t n. c = Allocate t n \<Longrightarrow> s \<noteq> t" using Cons.prems(1,3) by (cases c; auto)+
    then show "slots ?m s = None" by (cases c) (simp_all add: slots_create_in asked_same)
  qed
  have "keeps kinds order ?m (snd (chain (map (perform kinds) steps) ?m))"
    by (rule Cons.IH [OF _ _ free]) (use Cons.prems(1,2) in \<open>cases c; simp\<close>)+
  then show ?case using head by (auto simp: Let_def split_beta intro: keeps_trans)
qed auto

text \<open>When all steps succeed, every field holds an object of its kind and size.\<close>

lemma creations_made:
  assumes "chain (map (perform kinds) steps) m = (True, m')" and "distinct (allocated steps)"
    and "\<And>p. live m p \<noteq> None \<Longrightarrow> p < fresh m"
  shows "Allocate s n \<in> set steps \<Longrightarrow> \<exists>p. slots m' s = Some p \<and> live m' p = Some (kinds s, n)"
    and "s \<notin> set (allocated steps) \<Longrightarrow> slots m' s = slots m s"
    and "live m p = Some x \<Longrightarrow> live m' p = Some x"
proof -
  have "(\<forall>s n. Allocate s n \<in> set steps \<longrightarrow> (\<exists>p. slots m' s = Some p \<and> live m' p = Some (kinds s, n))) \<and>
      (\<forall>s. s \<notin> set (allocated steps) \<longrightarrow> slots m' s = slots m s) \<and> (\<forall>p x. live m p = Some x \<longrightarrow> live m' p = Some x)"
    using assms
  proof (induction steps arbitrary: m)
    case (Cons c steps)
    obtain ok m1 where c: "perform kinds c m = (ok, m1)" by (cases "perform kinds c m") auto
    have rest: "chain (map (perform kinds) steps) m1 = (True, m')" and ok: ok
      using Cons.prems(1) c by (auto split: if_splits)
    have one: "(\<forall>p. live m1 p \<noteq> None \<longrightarrow> p < fresh m1) \<and> (\<forall>p x. live m p = Some x \<longrightarrow> live m1 p = Some x) \<and>
        (\<forall>s. s \<notin> set (allocated [c]) \<longrightarrow> slots m1 s = slots m s) \<and>
        (\<forall>s n. c = Allocate s n \<longrightarrow> (\<exists>p. slots m1 s = Some p \<and> live m1 p = Some (kinds s, n)))"
    proof (cases c)
      case Fill
      then have "asked m = (ok, m1)" using c by simp
      then show ?thesis using asked_same [of m] Cons.prems(3) Fill by simp
    next
      case (Allocate s n)
      obtain a m0 where a: "asked m = (a, m0)" by (cases "asked m") auto
      have m1: "m1 = m0\<lparr>live := (live m0)(fresh m0 \<mapsto> (kinds s, n)), fresh := Suc (fresh m0), slots := (slots m0)(s \<mapsto> fresh m0)\<rparr>"
        using c Allocate ok a by (auto simp: create_in_def split: if_splits)
      have "live m (fresh m) = None" using Cons.prems(3) [of "fresh m"] by (cases "live m (fresh m)") auto
      then show ?thesis using asked_same [of m] a m1 Allocate Cons.prems(3) by (auto intro: less_SucI)
    qed
    have IH: "(\<forall>s n. Allocate s n \<in> set steps \<longrightarrow> (\<exists>p. slots m' s = Some p \<and> live m' p = Some (kinds s, n))) \<and>
      (\<forall>s. s \<notin> set (allocated steps) \<longrightarrow> slots m' s = slots m1 s) \<and> (\<forall>p x. live m1 p = Some x \<longrightarrow> live m' p = Some x)"
      by (rule Cons.IH [OF rest]) (use Cons.prems(2) one in \<open>cases c; simp\<close>)+
    show ?case
    proof (intro conjI allI impI)
      fix s n assume "Allocate s n \<in> set (c # steps)"
      then consider "Allocate s n \<in> set steps" | "c = Allocate s n" by auto
      then show "\<exists>p. slots m' s = Some p \<and> live m' p = Some (kinds s, n)"
      proof cases
        case 2
        then have "s \<notin> set (allocated steps)" using Cons.prems(2) by simp
        then show ?thesis using IH one 2 by metis
      qed (use IH in blast)
    next
      fix s assume "s \<notin> set (allocated (c # steps))"
      then show "slots m' s = slots m s" using IH one by (cases c) auto
    next
      fix p x assume "live m p = Some x"
      then show "live m' p = Some x" using IH one by blast
    qed
  qed simp
  then show "Allocate s n \<in> set steps \<Longrightarrow> \<exists>p. slots m' s = Some p \<and> live m' p = Some (kinds s, n)"
    and "s \<notin> set (allocated steps) \<Longrightarrow> slots m' s = slots m s"
    and "live m p = Some x \<Longrightarrow> live m' p = Some x" by blast+
qed

subsection \<open>Room in a buffer\<close>

text \<open>
  \<open>room\<close>: a field holds live memory of at least a size. A buffer is \<open>sized\<close> when the size recorded for
  it is no more than it has.
\<close>

definition room :: "('s, 'z) machine_scheme \<Rightarrow> 's \<Rightarrow> nat \<Rightarrow> bool" where
  "room m s n \<longleftrightarrow> (case slots m s of None \<Rightarrow> False
     | Some p \<Rightarrow> case live m p of None \<Rightarrow> False | Some (k, n') \<Rightarrow> n \<le> n')"

definition sized :: "('s, 'z) machine_scheme \<Rightarrow> 's \<Rightarrow> bool" where
  "sized m s \<longleftrightarrow> (if slots m s = None then capacity m s = 0 else room m s (capacity m s))"

lemma room_mono: "room m s n \<Longrightarrow> n' \<le> n \<Longrightarrow> room m s n'"
  by (auto simp: room_def split: option.splits)

lemma discard_frame:
  assumes "discard k h m = (ok, m')"
  shows "slots m' = slots m" and "capacity m' = capacity m" and "fresh m' = fresh m"
    and "\<not> (ok \<and> h = Some p) \<Longrightarrow> live m' p = live m p"
  using assms asked_release_same [of m] by (auto simp: discard_def split_beta Let_def split: option.splits if_splits)

lemma make_frame:
  assumes "create_in k n s m = (ok, m')"
  shows "capacity m' = capacity m" and "slots m' = (if ok then (slots m)(s \<mapsto> fresh m) else slots m)"
    and "p \<noteq> fresh m \<Longrightarrow> live m' p = live m p" and "\<not> ok \<Longrightarrow> live m' = live m" and "ok \<Longrightarrow> live m' (fresh m) = Some (k, n)"
  using assms by (auto simp: create_in_def split_beta Let_def runtime split: if_splits)

lemma room_same: "slots m' s = slots m s \<Longrightarrow> (\<And>p. slots m s = Some p \<Longrightarrow> live m' p = live m p) \<Longrightarrow> room m' s n = room m s n"
  by (auto simp: room_def split: option.splits)

lemma room_made: "create_in k n s m = (True, m') \<Longrightarrow> n' \<le> n \<Longrightarrow> room m' s n'"
  using make_frame [of k n s m True m'] by (simp add: room_def)

lemma set_bytes_frame [simp]:
  "slots (set_bytes s n m) = slots m" "live (set_bytes s n m) = live m" "fresh (set_bytes s n m) = fresh m"
  "capacity (set_bytes s n m) = (capacity m)(s := n)" "room (set_bytes s n m) t = room m t"
  by (simp_all add: set_bytes_def room_def fun_eq_iff cong: option.case_cong)

lemma forget_frame [simp]:
  "slots (forget s m) = (slots m)(s := None)" "live (forget s m) = live m" "fresh (forget s m) = fresh m"
  "capacity (forget s m) = capacity m" "faults (forget s m) = faults m"
  by (simp_all add: forget_def)

lemma room_slot: "room m s n \<Longrightarrow> slots m s \<noteq> None"
  by (simp add: room_def split: option.splits)

lemma grow_room:
  assumes "sized m s" and "grow k s n m = (ok, m')"
  shows "sized m' s" and "ok \<Longrightarrow> room m' s n"
proof -
  obtain ok1 m1 where d: "discard k (slots m s) m = (ok1, m1)" by (cases "discard k (slots m s) m") auto
  obtain ok2 m2 where mk: "create_in k n s (set_bytes s 0 (forget s m1)) = (ok2, m2)"
    by (cases "create_in k n s (set_bytes s 0 (forget s m1))") auto
  have "sized m' s \<and> (ok \<longrightarrow> room m' s n)"
  proof (cases "n \<le> capacity m s \<and> slots m s \<noteq> None")
    case True
    then have "m' = m" using assms(2) by (simp add: grow_def)
    then show ?thesis using assms(1) True room_mono [of m s "capacity m s" n] by (auto simp: sized_def)
  next
    case False
    note result = assms(2) [unfolded grow_def d Let_def if_not_P [OF False]]
    show ?thesis
    proof (cases ok1)
      case False
      then have "m' = m1" "\<not> ok" using result by simp_all
      then show ?thesis using assms(1) discard_frame [OF d] False room_same [of m1 s m] by (simp add: sized_def)
    next
      case True
      show ?thesis
      proof (cases ok2)
        case False
        then have "m' = m2" "\<not> ok" using result True mk by simp_all
        then show ?thesis using make_frame [OF mk] False by (simp add: sized_def)
      next
        case ok2: True
        then have "m' = set_bytes s n m2" using result True mk by simp
        moreover have "room m2 s n" using room_made [of k n s _ m2 n] mk ok2 by simp
        ultimately show ?thesis using room_slot [of m2 s n] by (auto simp: sized_def)
      qed
    qed
  qed
  then show "sized m' s" and "ok \<Longrightarrow> room m' s n" by simp_all
qed

lemma sound_new: "sound kinds order m \<Longrightarrow> slots m t \<noteq> Some (fresh m)"
  unfolding sound_def by (metis option.map_disc_iff option.distinct(1) less_irrefl)

lemma grow_replace_room:
  assumes "sound kinds order m" and "sized m s" and "grow_replace k s n m = (ok, m')"
  shows "sized m' s" and "ok \<Longrightarrow> 0 < n \<Longrightarrow> room m' s n"
proof -
  obtain ok1 m1 where mk: "create_in k n s m = (ok1, m1)" by (cases "create_in k n s m") auto
  obtain ok2 m2 where d: "discard k (slots m s) m1 = (ok2, m2)" by (cases "discard k (slots m s) m1") auto
  obtain ok3 m3 where d3: "discard k (slots m2 s) m2 = (ok3, m3)" by (cases "discard k (slots m2 s) m2") auto
  note new = sound_new [OF assms(1)]
  have "sized m' s \<and> (ok \<longrightarrow> 0 < n \<longrightarrow> room m' s n)"
  proof (cases "n \<le> capacity m s")
    case True
    then have "m' = m" using assms(3) by (simp add: grow_replace_def)
    moreover have "0 < n \<longrightarrow> room m s n" using assms(2) True room_mono [of m s "capacity m s" n] by (auto simp: sized_def split: if_splits)
    ultimately show ?thesis using assms(2) by simp
  next
    case False
    note result = assms(3) [unfolded grow_replace_def mk Let_def if_not_P [OF False], simplified d d3, simplified]
    show ?thesis
    proof (cases ok1)
      case False
      then have "m' = m1" "\<not> ok" using result by simp_all
      then show ?thesis using assms(2) make_frame [OF mk] False room_same [of m1 s m] by (simp add: sized_def)
    next
      case ok1: True
      have old: "live m2 p = live m p \<or> ok2" "fresh m \<noteq> p" if "slots m s = Some p" for p
        using that discard_frame(4) [OF d, of p] make_frame(3) [OF mk, of p] new [of s] by auto
      show ?thesis
      proof (cases ok2)
        case True
        then have m': "m' = set_bytes s n m2" using result ok1 d by simp
        have "room m1 s n" using room_made [of k n s m m1 n] mk ok1 by simp
        moreover have "slots m2 s = slots m1 s" "live m2 (fresh m) = live m1 (fresh m)"
          using discard_frame [OF d] new [of s] by auto
        ultimately have "room m2 s n" using make_frame(2) [OF mk] ok1 by (auto simp: room_def)
        then show ?thesis using room_slot [of m2 s n] by (auto simp: m' sized_def)
      next
        case False
        then have m': "m' = m3\<lparr>slots := (slots m2)(s := slots m s)\<rparr>" "\<not> ok" using result ok1 d d3 by simp_all
        have "slots m2 s = Some (fresh m)" using discard_frame(1) [OF d] make_frame(2) [OF mk] ok1 by simp
        then have "live m3 p = live m p" if "slots m s = Some p" for p
          using old [OF that] False discard_frame(4) [OF d3, of p] by auto
        moreover have "capacity m3 = capacity m" using discard_frame(2) [OF d3] discard_frame(2) [OF d] make_frame(1) [OF mk] by simp
        ultimately show ?thesis using assms(2) m' room_same [of m' s m] by (simp add: sized_def)
      qed
    qed
  qed
  then show "sized m' s" and "ok \<Longrightarrow> 0 < n \<Longrightarrow> room m' s n" by simp_all
qed

text \<open>Growing one buffer leaves the others as they are.\<close>

lemma grow_others:
  assumes "sound kinds order m" and "t \<noteq> s" and "slots m t = Some p"
  shows "grow k s n m = (ok, m') \<Longrightarrow> slots m' t = Some p \<and> live m' p = live m p \<and> capacity m' t = capacity m t"
proof -
  assume g: "grow k s n m = (ok, m')"
  obtain ok1 m1 where d: "discard k (slots m s) m = (ok1, m1)" by (cases "discard k (slots m s) m") auto
  obtain ok2 m2 where mk: "create_in k n s (set_bytes s 0 (forget s m1)) = (ok2, m2)"
    by (cases "create_in k n s (set_bytes s 0 (forget s m1))") auto
  have "slots m s \<noteq> Some p" using sound_inj [OF assms(1,3)] assms(2) by auto
  then have 1: "slots m1 t = Some p" "live m1 p = live m p" "capacity m1 t = capacity m t" "fresh m1 = fresh m"
    using discard_frame [OF d] assms(3) by auto
  have "p \<noteq> fresh m" using sound_new [OF assms(1), of t] assms(3) by auto
  then have 2: "slots m2 t = Some p" "live m2 p = live m p" "capacity m2 t = capacity m t"
    using 1 make_frame [OF mk] assms(2) by auto
  show ?thesis using g 1 2 assms(2,3) d mk by (auto simp: grow_def split: if_splits)
qed

text \<open>
  The growth that keeps the old size: to be relied on only for a buffer that no failed growth left
  without memory, which is what \<open>sized\<close> says.
\<close>

lemma grow_stale_room:
  assumes "sized m s" and "0 < n" and "grow_stale k s n m = (True, m')"
  shows "room m' s n"
proof (cases "n \<le> capacity m s")
  case True
  then have "m' = m" using assms(3) by (simp add: grow_stale_def)
  then show ?thesis using assms(1,2) True room_mono [of m s "capacity m s" n] by (auto simp: sized_def split: if_splits)
next
  case False
  obtain ok1 m1 where d: "discard k (slots m s) m = (ok1, m1)" by (cases "discard k (slots m s) m") auto
  obtain ok2 m2 where mk: "create_in k n s (forget s m1) = (ok2, m2)" by (cases "create_in k n s (forget s m1)") auto
  have "ok1 \<and> ok2 \<and> m' = set_bytes s n m2"
    using assms(3) False d mk by (simp add: grow_stale_def split: if_splits)
  then show ?thesis using room_made [of k n s "forget s m1" m2 n] mk by simp
qed

lemma grow_stale_others:
  assumes "sound kinds order m" and "t \<noteq> s" and "grow_stale k s n m = (ok, m')"
  shows "slots m' t = slots m t" and "capacity m' t = capacity m t"
    and "slots m t = Some p \<Longrightarrow> live m' p = live m p"
proof -
  obtain ok1 m1 where d: "discard k (slots m s) m = (ok1, m1)" by (cases "discard k (slots m s) m") auto
  obtain ok2 m2 where mk: "create_in k n s (forget s m1) = (ok2, m2)" by (cases "create_in k n s (forget s m1)") auto
  have m': "m' = (if n \<le> capacity m s then m else if \<not> ok1 then m1 else if \<not> ok2 then m2 else set_bytes s n m2)"
    using assms(3) d mk by (auto simp: grow_stale_def)
  show "slots m' t = slots m t" "capacity m' t = capacity m t"
    using m' discard_frame [OF d] make_frame [OF mk] assms(2) by (auto simp: set_bytes_def)
  assume t: "slots m t = Some p"
  have "slots m s \<noteq> Some p" using sound_inj [OF assms(1) t] assms(2) by auto
  then have "live m1 p = live m p" "fresh m1 = fresh m" using discard_frame [OF d] by auto
  moreover have "p \<noteq> fresh m" using sound_new [OF assms(1), of t] t by auto
  ultimately show "live m' p = live m p" using m' make_frame(3) [OF mk, of p] by auto
qed

lemma grow_stale_kept:
  assumes "sound kinds order m" and "t \<noteq> s" and "grow_stale k s n m = (ok, m')"
  shows "room m' t n' = room m t n'" and "sized m' t = sized m t"
proof -
  have r: "room m' t i = room m t i" for i using grow_stale_others [OF assms] by (intro room_same) auto
  then show "room m' t n' = room m t n'" .
  show "sized m' t = sized m t" unfolding sized_def r grow_stale_others(1,2) [OF assms] ..
qed

lemma slots_discard [simp]: "slots (snd (discard k h m)) = slots m"
  using discard_frame(1) [of k h m] by (cases "discard k h m") simp

lemma slots_grow:
  assumes "t \<noteq> s"
  shows "slots (snd (grow k s n m)) t = slots m t" and "slots (snd (grow_stale k s n m)) t = slots m t"
    and "slots (snd (grow_replace k s n m)) t = slots m t"
proof -
  obtain ok1 m1 where d: "discard k (slots m s) m = (ok1, m1)" by (cases "discard k (slots m s) m") auto
  have 1: "slots m1 = slots m" using discard_frame(1) [OF d] .
  have 2: "slots (snd (create_in k n s x)) t = slots x t" for x :: "('a, 'b) machine_scheme"
    using assms by (rule slots_create_in)
  show "slots (snd (grow k s n m)) t = slots m t"
    using assms 1 2 [of "set_bytes s 0 (forget s m1)"] by (simp add: grow_def d split_beta)
  show "slots (snd (grow_stale k s n m)) t = slots m t"
    using assms 1 2 [of "forget s m1"] by (simp add: grow_stale_def d split_beta)
  show "slots (snd (grow_replace k s n m)) t = slots m t"
    using assms 2 [of m] by (simp add: grow_replace_def split_beta Let_def)
qed

lemma bytes_grow: "t \<noteq> s \<Longrightarrow> capacity (snd (grow k s n m)) t = capacity m t"
proof -
  assume ts: "t \<noteq> s"
  have d: "capacity (snd (discard k h x)) = capacity x" for h and x :: "('a, 'b) machine_scheme"
    using discard_frame(2) [of k h x] by (cases "discard k h x") simp
  have c: "capacity (snd (create_in k n s x)) = capacity x" for x :: "('a, 'b) machine_scheme"
    using make_frame(1) [of k n s x] by (cases "create_in k n s x") simp
  show ?thesis using ts by (simp add: grow_def split_beta Let_def d c)
qed

lemma slots_chain:
  assumes "\<And>f m. f \<in> set fs \<Longrightarrow> slots (snd (f m)) t = slots m t"
  shows "slots (snd (chain fs m)) t = slots m t"
  using assms
proof (induction fs arbitrary: m)
  case (Cons f fs)
  have "slots (snd (chain fs (snd (f m)))) t = slots (snd (f m)) t" by (rule Cons.IH) (simp add: Cons.prems)
  then show ?case using Cons.prems [of f m] by (simp add: split_beta Let_def)
qed simp

lemma slots_creations:
  fixes m :: "('s, 'z) machine_scheme"
  assumes "t \<notin> set (allocated steps)"
  shows "slots (snd (chain (map (perform kinds) steps) m)) t = slots m t"
proof (rule slots_chain)
  fix f :: "('s, 'z) machine_scheme call" and m assume "f \<in> set (map (perform kinds) steps)"
  then obtain c where c: "c \<in> set steps" "f = perform kinds c" by auto
  show "slots (snd (f m)) t = slots m t"
  proof (cases c)
    case (Allocate s n)
    then have "s \<in> set (allocated steps)" using c(1) by (force simp: allocated_def)
    then have "t \<noteq> s" using assms by auto
    then show ?thesis using c Allocate by (simp add: slots_create_in)
  qed (simp add: c asked_same)
qed

lemma slots_drop_slots: "slots (drop_slots kinds ss m) t = (if t \<in> set ss then None else slots m t)"
proof -
  have same: "slots (drop_slot k s m) = (slots m)(s := None)" for k s and m :: "('a, 'b) machine_scheme"
    by (auto simp: drop_slot_def fun_eq_iff)
  show ?thesis unfolding drop_slots_def by (induction ss arbitrary: m) (simp_all add: same)
qed

lemma drop_slots_empty:
  assumes "sound kinds order m" and "set order \<subseteq> set ss"
  shows "slots (drop_slots kinds ss m) = (\<lambda>_. None)"
proof -
  have "slots m s = None" if "s \<notin> set ss" for s
    using assms that unfolding sound_def by (metis not_None_eq subsetD)
  then show ?thesis by (intro ext) (simp add: slots_drop_slots)
qed

subsection \<open>Structures with operations\<close>

text \<open>
  The contract of a structure: what its operations are, when each is allowed, and that an allowed one
  keeps ownership. What follows is true of every sequence whose operations are allowed when they are
  reached, whatever the runtime answers.
\<close>

fun run_allowed :: "('op \<Rightarrow> 'm \<Rightarrow> bool) \<Rightarrow> ('op \<Rightarrow> 'm \<Rightarrow> 'm) \<Rightarrow> 'op list \<Rightarrow> 'm \<Rightarrow> bool" where
  "run_allowed allowed operate [] m = True"
| "run_allowed allowed operate (op # ops) m \<longleftrightarrow> allowed op m \<and> run_allowed allowed operate ops (operate op m)"

locale owner =
  fixes kinds :: "'s \<Rightarrow> kind" and order :: "'s list"
    and good :: "('s, 'z) machine_scheme \<Rightarrow> bool" and allowed :: "'op \<Rightarrow> ('s, 'z) machine_scheme \<Rightarrow> bool"
    and operate :: "'op \<Rightarrow> ('s, 'z) machine_scheme \<Rightarrow> ('s, 'z) machine_scheme"
  assumes operate_keeps: "good m \<Longrightarrow> allowed op m \<Longrightarrow> keeps kinds order m (operate op m)"
    and operate_good: "good m \<Longrightarrow> allowed op m \<Longrightarrow> good (operate op m)"
begin

lemma run_keeps: "good m \<Longrightarrow> run_allowed allowed operate ops m \<Longrightarrow> keeps kinds order m (fold operate ops m)"
proof (induction ops arbitrary: m)
  case (Cons op ops)
  then have a: "good m" "allowed op m" "run_allowed allowed operate ops (operate op m)" by simp_all
  show ?case using keeps_trans [OF operate_keeps [OF a(1,2)] Cons.IH [OF operate_good [OF a(1,2)] a(3)]] by simp
qed auto

lemma run_sound: "good m \<Longrightarrow> run_allowed allowed operate ops m \<Longrightarrow> sound kinds order m \<Longrightarrow> sound kinds order (fold operate ops m)"
  using run_keeps by (simp add: keeps_def)

lemma run_then_release:
  assumes "sound kinds order m" and "set order \<subseteq> set ss" and "good m" and "run_allowed allowed operate ops m"
  shows "faults (drop_slots kinds ss (fold operate ops m)) = 0"
    and "releases_succeed m \<Longrightarrow> live (drop_slots kinds ss (fold operate ops m)) = strays m"
proof -
  let ?m = "fold operate ops m"
  have ks: "keeps kinds order m (drop_slots kinds ss ?m)" using run_keeps [OF assms(3,4)] keeps_drop_slots [of kinds order ?m ss] by (rule keeps_trans)
  show "faults (drop_slots kinds ss ?m) = 0" using ks assms(1) sound_faults unfolding keeps_def by blast
  assume "releases_succeed m"
  then have "strays (drop_slots kinds ss ?m) = strays m" using ks assms(1) by (simp add: keeps_def)
  moreover have "strays x = live x" if "slots x = (\<lambda>_. None)" for x :: "('s, 'z) machine_scheme"
    using that by (auto simp: strays_def fun_eq_iff)
  ultimately show "live (drop_slots kinds ss ?m) = strays m"
    using drop_slots_empty [OF run_sound [OF assms(3,4,1)] assms(2)] by simp
qed

end

end
