(* ===== verification/CudaContext.thy ===== *)
theory CudaContext
  imports CudaRuntime
begin

section \<open>The context of the CUDA backend\<close>

text \<open>
  Models the context of \<open>src/backend/cuda/fortai_cuda_backend.cu\<close>: its creation and destruction, the
  scratch buffers it grows on demand, the stream it can take over from another library, the slots of
  captured graphs and the streams of the row-wise top-k. The owned handles of
  \<open>fortai_cuda_q8_context_impl\<close> are the fields of \<open>context_slot\<close>; a stream taken over is not owned and
  kept in \<open>borrowed\<close>. Calls whose answer the code ignores and that own nothing (\<open>cudaSetDevice\<close>) are
  left out; the message is the part \<open>fail\<close> writes before the colon.
\<close>

datatype context_slot =
  Position | ScratchActivation | ScratchRaw | ScratchOutput | ScratchAux | ScratchBatched | MmqFixup | MmqTiles |
  ScratchTokens | AttentionKey | AttentionValue | AttentionMask | AttentionMeta | DownloadHost |
  TopkStream nat | TopkDone nat | TopkReady | GraphSlot nat | ExecSlot nat | OwnStream | StartEvent | StopEvent

fun context_kind :: "context_slot \<Rightarrow> kind" where
  "context_kind DownloadHost = PinnedMemory"
| "context_kind (TopkStream _) = Stream"
| "context_kind (TopkDone _) = Event"
| "context_kind TopkReady = Event"
| "context_kind (GraphSlot _) = Graph"
| "context_kind (ExecSlot _) = GraphExec"
| "context_kind OwnStream = Stream"
| "context_kind StartEvent = Event"
| "context_kind StopEvent = Event"
| "context_kind _ = DeviceMemory"

record cuda_context = "context_slot machine" +
  device :: int
  borrowed :: "nat option"
  mma_available :: bool
  multiprocessor_count :: int
  position_value :: int
  message :: string

definition qwen_graph_slots :: int where "qwen_graph_slots = 66"

definition CUDA_OK :: int where "CUDA_OK = 0"
definition CUDA_INVALID :: int where "CUDA_INVALID = 1"
definition CUDA_RUNTIME_ERROR :: int where "CUDA_RUNTIME_ERROR = 2"

lemma CUDA_codes [simp]: "CUDA_OK \<noteq> CUDA_INVALID" "CUDA_OK \<noteq> CUDA_RUNTIME_ERROR" "CUDA_INVALID \<noteq> CUDA_OK" "CUDA_RUNTIME_ERROR \<noteq> CUDA_OK"
  by (simp_all add: CUDA_OK_def CUDA_INVALID_def CUDA_RUNTIME_ERROR_def)

text \<open>\<open>context->stream\<close> and \<open>fail\<close>.\<close>

definition current_stream :: "cuda_context \<Rightarrow> nat option" where
  "current_stream c = (case borrowed c of Some p \<Rightarrow> Some p | None \<Rightarrow> slots c OwnStream)"

definition fail :: "int \<Rightarrow> string \<Rightarrow> cuda_context \<Rightarrow> int \<times> cuda_context" where
  "fail code operation c = (code, c\<lparr>message := operation\<rparr>)"

definition finish :: "string \<Rightarrow> bool \<times> cuda_context \<Rightarrow> int \<times> cuda_context" where
  "finish operation result = (if fst result then (CUDA_OK, snd result) else fail CUDA_RUNTIME_ERROR operation (snd result))"

subsection \<open>Scratch buffers\<close>

definition ensure_host_matvec_scratch :: "nat \<Rightarrow> nat \<Rightarrow> cuda_context call" where
  "ensure_host_matvec_scratch activation_bytes output_bytes =
     (let blocks = activation_bytes div 34; padded_activation_bytes = blocks * 36
      in chain [grow_stale DeviceMemory ScratchRaw activation_bytes,
                grow_stale DeviceMemory ScratchActivation padded_activation_bytes,
                grow_stale DeviceMemory ScratchOutput output_bytes])"

definition ensure_device_matvec_scratch :: "nat \<Rightarrow> cuda_context call" where
  "ensure_device_matvec_scratch activation_elements =
     (let blocks = (activation_elements + 32 - 1) div 32 in grow DeviceMemory ScratchActivation (blocks * 36))"

definition ensure_aux_scratch :: "nat \<Rightarrow> cuda_context call" where
  "ensure_aux_scratch = grow_stale DeviceMemory ScratchAux"

definition ensure_batched_activation_scratch :: "nat \<Rightarrow> cuda_context call" where
  "ensure_batched_activation_scratch = grow DeviceMemory ScratchBatched"

definition ensure_mmq_fixup_scratch :: "nat \<Rightarrow> nat \<Rightarrow> cuda_context call" where
  "ensure_mmq_fixup_scratch partial_bytes tile_bytes =
     chain [grow DeviceMemory MmqFixup partial_bytes, grow DeviceMemory MmqTiles tile_bytes]"

definition ensure_token_scratch :: "nat \<Rightarrow> cuda_context call" where
  "ensure_token_scratch = grow DeviceMemory ScratchTokens"

text \<open>The pinned buffer: a resize waits for the stream first.\<close>

definition ensure_download_host :: "nat \<Rightarrow> cuda_context call" where
  "ensure_download_host n c =
     (if n \<le> capacity c DownloadHost \<and> slots c DownloadHost \<noteq> None then (True, c)
      else chain [asked, grow PinnedMemory DownloadHost n] c)"

definition ensure_attention_f16_view :: "nat \<Rightarrow> nat \<Rightarrow> cuda_context call" where
  "ensure_attention_f16_view key_bytes value_bytes =
     chain [grow_replace DeviceMemory AttentionKey key_bytes, grow_replace DeviceMemory AttentionValue value_bytes]"

definition ensure_attention_fattn_scratch :: "nat \<Rightarrow> nat \<Rightarrow> cuda_context call" where
  "ensure_attention_fattn_scratch mask_bytes meta_bytes =
     chain [grow_replace DeviceMemory AttentionMask mask_bytes, grow_replace DeviceMemory AttentionMeta meta_bytes]"

definition reserve_matvec_scratch :: "nat \<Rightarrow> nat \<Rightarrow> cuda_context \<Rightarrow> int \<times> cuda_context" where
  "reserve_matvec_scratch activation_elements output_elements c =
     (if activation_elements = 0 \<or> output_elements = 0 then (CUDA_INVALID, c)
      else let blocks = (activation_elements + 32 - 1) div 32
           in finish ''reserve device F32 matvec''
                (chain [ensure_host_matvec_scratch (blocks * 34) (output_elements * 4),
                        ensure_mmq_fixup_scratch (36 * (128 * 64) * 4) (36 * 4)] c))"

subsection \<open>Creation and destruction\<close>

text \<open>
  \<open>properties\<close> is what \<open>cudaGetDeviceProperties\<close> answers: the major version and the number of
  multiprocessors; \<open>disable_mma\<close> is the environment variable \<open>FORTAI_CUDA_MMA\<close>. The result is the
  status, whether \<open>*context\<close> was set, and the state.
\<close>

definition q8_context_create ::
    "bool \<Rightarrow> int \<Rightarrow> bool \<Rightarrow> (int \<times> int) option \<Rightarrow> string option \<Rightarrow> cuda_context \<Rightarrow> int \<times> bool \<times> cuda_context" where
  "q8_context_create out device_number new_ok properties disable_mma c =
     (if \<not> out \<or> device_number < 0 then (CUDA_INVALID, False, c)
      else if \<not> new_ok then (CUDA_RUNTIME_ERROR, False, c)
      else case properties of None \<Rightarrow> (CUDA_RUNTIME_ERROR, False, c)
      | Some (major, count) \<Rightarrow>
          (let mma = (major \<ge> 8 \<and> (case disable_mma of None \<Rightarrow> True | Some v \<Rightarrow> v = [] \<or> hd v \<noteq> CHR ''0''));
               c = c\<lparr>device := device_number, mma_available := mma, multiprocessor_count := count\<rparr>;
               (ok, c) = chain [asked, create_in Stream 0 OwnStream, create_in Event 0 StartEvent, create_in Event 0 StopEvent] c
           in if \<not> ok then (CUDA_RUNTIME_ERROR, False, drop_slots context_kind [OwnStream, StartEvent, StopEvent] c)
              else let (ok, c) = chain [create_in DeviceMemory 4 Position, asked, asked] c
                   in if \<not> ok
                      then (CUDA_RUNTIME_ERROR, False, drop_slots context_kind [Position, StartEvent, StopEvent, OwnStream] c)
                      else (CUDA_OK, True, c)))"

definition context_order :: "context_slot list" where
  "context_order = concat (map (\<lambda>slot. [ExecSlot slot, GraphSlot slot]) [0..<66]) @
     [Position, ScratchActivation, ScratchRaw, ScratchOutput, ScratchAux, ScratchBatched, MmqFixup, MmqTiles,
      ScratchTokens, AttentionKey, AttentionValue, AttentionMask, AttentionMeta, DownloadHost] @
     concat (map (\<lambda>row. [TopkDone row, TopkStream row]) [0..<32]) @ [TopkReady, StartEvent, StopEvent, OwnStream]"

definition q8_context_destroy :: "cuda_context \<Rightarrow> cuda_context" where
  "q8_context_destroy c = drop_slots context_kind context_order c"

subsection \<open>Position and stream\<close>

definition set_position :: "int \<Rightarrow> cuda_context \<Rightarrow> int \<times> cuda_context" where
  "set_position position c =
     (if slots c Position = None \<or> position < 0 then (CUDA_INVALID, c)
      else let (ok, c) = asked c
           in finish ''set device position'' (ok, if ok then c\<lparr>position_value := position\<rparr> else c))"

definition synchronize :: "cuda_context \<Rightarrow> int \<times> cuda_context" where
  "synchronize c = finish ''CUDA context synchronize'' (asked c)"

definition wait_for_stream :: "cuda_context call" where
  "wait_for_stream c = (if current_stream c \<noteq> None then asked c else (True, c))"

definition destroy_own_stream :: "cuda_context call" where
  "destroy_own_stream c =
     (if borrowed c = None \<and> slots c OwnStream \<noteq> None then discard Stream (slots c OwnStream) c else (True, c))"

definition adopt_stream :: "nat option \<Rightarrow> cuda_context \<Rightarrow> int \<times> cuda_context" where
  "adopt_stream stream c =
     (case stream of None \<Rightarrow> (CUDA_INVALID, c)
      | Some b \<Rightarrow>
          if current_stream c = Some b then (CUDA_OK, c)
          else let (ok, c) = chain [asked, wait_for_stream, destroy_own_stream] c
               in if \<not> ok then (CUDA_RUNTIME_ERROR, c)
                  else (CUDA_OK, (if borrowed c = None then forget OwnStream c else c)\<lparr>borrowed := Some b\<rparr>))"

subsection \<open>Captured graphs\<close>

definition slot_in_range :: "int \<Rightarrow> bool" where
  "slot_in_range slot \<longleftrightarrow> \<not> (slot < 0 \<or> slot \<ge> qwen_graph_slots)"

definition capture_begin_slot :: "int \<Rightarrow> cuda_context \<Rightarrow> int \<times> cuda_context" where
  "capture_begin_slot slot c =
     (if \<not> slot_in_range slot \<or> slots c (GraphSlot (nat slot)) \<noteq> None \<or> slots c (ExecSlot (nat slot)) \<noteq> None then (CUDA_INVALID, c)
      else finish ''begin CUDA graph capture'' (asked c))"

definition capture_end_slot :: "int \<Rightarrow> cuda_context \<Rightarrow> int \<times> cuda_context" where
  "capture_end_slot slot c =
     (if \<not> slot_in_range slot then (CUDA_INVALID, c)
      else let (ok, c) = chain [create_in Graph 0 (GraphSlot (nat slot)), create_in GraphExec 0 (ExecSlot (nat slot))] c
           in if \<not> ok
              then fail CUDA_RUNTIME_ERROR ''end CUDA graph capture''
                     (drop_slots context_kind [ExecSlot (nat slot), GraphSlot (nat slot)] c)
              else (CUDA_OK, c))"

definition graph_launch_slot :: "int \<Rightarrow> cuda_context \<Rightarrow> int \<times> cuda_context" where
  "graph_launch_slot slot c =
     (if \<not> slot_in_range slot \<or> slots c (ExecSlot (nat slot)) = None then (CUDA_INVALID, c)
      else finish ''launch CUDA graph'' (asked c))"

subsection \<open>Streams for the rows of a top-k\<close>

definition topk_rows :: "context_slot list" where
  "topk_rows = concat (map (\<lambda>row. [TopkStream row, TopkDone row]) [0..<32])"

definition topk_streams :: "cuda_context call" where
  "topk_streams c =
     (if slots c TopkReady \<noteq> None then (True, c)
      else let (ok, c) = chain (map (\<lambda>s. create_in (context_kind s) 0 s) (TopkReady # topk_rows)) c
           in (ok, if ok then c
                   else drop_slots context_kind (concat (map (\<lambda>row. [TopkDone row, TopkStream row]) [0..<32]) @ [TopkReady]) c))"

subsection \<open>Memory for the client\<close>

text \<open>Weights on the device and plain buffers: their handle goes to the client.\<close>

definition weights_upload :: "bool \<Rightarrow> nat \<Rightarrow> int \<Rightarrow> int \<Rightarrow> bool \<Rightarrow> 's \<Rightarrow> ('s, 'z) machine_scheme \<Rightarrow> int \<times> ('s, 'z) machine_scheme" where
  "weights_upload given weight_bytes rows width new_ok s m =
     (if \<not> given \<or> rows \<le> 0 \<or> width \<le> 0 \<or> width mod 32 \<noteq> 0 then (CUDA_INVALID, m)
      else let blocks = width div 32; expected = nat rows * nat blocks * 34
           in if weight_bytes < expected then (CUDA_INVALID, m)
              else if \<not> new_ok then (CUDA_RUNTIME_ERROR, m)
              else let (ok, m) = chain [create_in DeviceMemory expected s, asked] m
                   in if ok then (CUDA_OK, m) else (CUDA_RUNTIME_ERROR, drop_slot DeviceMemory s m))"

definition weights_destroy :: "'s \<Rightarrow> ('s, 'z) machine_scheme \<Rightarrow> int \<times> ('s, 'z) machine_scheme" where
  "weights_destroy s m = (CUDA_OK, drop_slot DeviceMemory s m)"

definition device_buffer_create :: "nat \<Rightarrow> 's \<Rightarrow> ('s, 'z) machine_scheme \<Rightarrow> int \<times> ('s, 'z) machine_scheme" where
  "device_buffer_create n s m =
     (if n = 0 then (CUDA_INVALID, m)
      else let (ok, m) = create_in DeviceMemory n s m in (if ok then CUDA_OK else CUDA_RUNTIME_ERROR, m))"

definition device_buffer_destroy :: "'s \<Rightarrow> ('s, 'z) machine_scheme \<Rightarrow> int \<times> ('s, 'z) machine_scheme" where
  "device_buffer_destroy s m =
     (if slots m s = None then (CUDA_INVALID, m)
      else let (ok, m) = discard DeviceMemory (slots m s) m
           in if ok then (CUDA_OK, forget s m) else (CUDA_RUNTIME_ERROR, m))"

subsection \<open>Any sequence of operations\<close>

datatype context_op =
  HostScratch nat nat | DeviceScratch nat | AuxScratch nat | BatchedScratch nat | FixupScratch nat nat | TokenScratch nat |
  Download nat | F16View nat nat | FattnScratch nat nat | Reserve nat nat | SetPosition int | Synchronize |
  AdoptStream "nat option" | BeginCapture int | EndCapture int | GraphLaunch int | TopkStreams

fun context_operate :: "context_op \<Rightarrow> cuda_context \<Rightarrow> cuda_context" where
  "context_operate (HostScratch a b) c = snd (ensure_host_matvec_scratch a b c)"
| "context_operate (DeviceScratch a) c = snd (ensure_device_matvec_scratch a c)"
| "context_operate (AuxScratch a) c = snd (ensure_aux_scratch a c)"
| "context_operate (BatchedScratch a) c = snd (ensure_batched_activation_scratch a c)"
| "context_operate (FixupScratch a b) c = snd (ensure_mmq_fixup_scratch a b c)"
| "context_operate (TokenScratch a) c = snd (ensure_token_scratch a c)"
| "context_operate (Download a) c = snd (ensure_download_host a c)"
| "context_operate (F16View a b) c = snd (ensure_attention_f16_view a b c)"
| "context_operate (FattnScratch a b) c = snd (ensure_attention_fattn_scratch a b c)"
| "context_operate (Reserve a b) c = snd (reserve_matvec_scratch a b c)"
| "context_operate (SetPosition p) c = snd (set_position p c)"
| "context_operate Synchronize c = snd (synchronize c)"
| "context_operate (AdoptStream s) c = snd (adopt_stream s c)"
| "context_operate (BeginCapture slot) c = snd (capture_begin_slot slot c)"
| "context_operate (EndCapture slot) c = snd (capture_end_slot slot c)"
| "context_operate (GraphLaunch slot) c = snd (graph_launch_slot slot c)"
| "context_operate TopkStreams c = snd (topk_streams c)"

text \<open>
  Ending a capture writes its slot without looking at it. It is allowed here only while the slot is
  free, as it is after the matching begin; every other operation always is.
\<close>

definition context_allowed :: "context_op \<Rightarrow> cuda_context \<Rightarrow> bool" where
  "context_allowed op c = (case op of
      EndCapture slot \<Rightarrow> slot_in_range slot \<longrightarrow> slots c (GraphSlot (nat slot)) = None \<and> slots c (ExecSlot (nat slot)) = None
    | _ \<Rightarrow> True)"

text \<open>The streams of the rows exist only together with their event.\<close>

definition rows_together :: "cuda_context \<Rightarrow> bool" where
  "rows_together c \<longleftrightarrow> slots c TopkReady = None \<longrightarrow> (\<forall>s\<in>set topk_rows. slots c s = None)"

subsection \<open>Ownership is kept\<close>

lemma order_set: "s \<in> set context_order \<longleftrightarrow> (case s of GraphSlot n \<Rightarrow> n < 66 | ExecSlot n \<Rightarrow> n < 66
    | TopkStream n \<Rightarrow> n < 32 | TopkDone n \<Rightarrow> n < 32 | _ \<Rightarrow> True)"
  by (cases s) (auto simp: context_order_def)

abbreviation "context_keeps \<equiv> keeps context_kind context_order"

lemmas context_grows = keeps_grow [of context_kind, simplified] keeps_grow_replace [of context_kind, simplified]

lemma keeps_scratch:
  "context_keeps c (snd (ensure_host_matvec_scratch a b c))"
  "context_keeps c (snd (ensure_device_matvec_scratch a c))"
  "context_keeps c (snd (ensure_aux_scratch a c))"
  "context_keeps c (snd (ensure_batched_activation_scratch a c))"
  "context_keeps c (snd (ensure_mmq_fixup_scratch a b c))"
  "context_keeps c (snd (ensure_token_scratch a c))"
  "context_keeps c (snd (ensure_download_host a c))"
  "context_keeps c (snd (ensure_attention_f16_view a b c))"
  "context_keeps c (snd (ensure_attention_fattn_scratch a b c))"
  unfolding ensure_host_matvec_scratch_def ensure_device_matvec_scratch_def ensure_aux_scratch_def
    ensure_batched_activation_scratch_def ensure_mmq_fixup_scratch_def ensure_token_scratch_def
    ensure_download_host_def ensure_attention_f16_view_def ensure_attention_fattn_scratch_def Let_def
  by (auto intro!: keeps_chain keeps_grow keeps_grow_replace keeps_alike [OF alike_asked] simp: order_set simp del: chain.simps)

text \<open>
  The room the host products have after their scratch was ensured. It needs buffers that no failed
  growth left without memory, see \<open>failed_growth_then_null\<close>.
\<close>

lemma host_scratch_room:
  assumes "sound context_kind context_order c" and "sized c ScratchActivation" and "sized c ScratchOutput"
    and "34 \<le> a" and "0 < b" and "ensure_host_matvec_scratch a b c = (True, c1)"
  shows "room c1 ScratchActivation (a div 34 * 36)" and "room c1 ScratchOutput b"
proof -
  obtain d1 where 1: "grow_stale DeviceMemory ScratchRaw a c = (True, d1)"
    and r1: "chain [grow_stale DeviceMemory ScratchActivation (a div 34 * 36), grow_stale DeviceMemory ScratchOutput b] d1 = (True, c1)"
    using assms(6) by (auto simp: ensure_host_matvec_scratch_def Let_def split: prod.splits if_splits)
  obtain d2 where 2: "grow_stale DeviceMemory ScratchActivation (a div 34 * 36) d1 = (True, d2)"
    and 3: "grow_stale DeviceMemory ScratchOutput b d2 = (True, c1)"
    using r1 by (auto split: prod.splits if_splits)
  have s1: "sound context_kind context_order d1"
    using keeps_grow(2) [of context_kind ScratchRaw DeviceMemory context_order c a] assms(1) 1 by (simp add: keeps_def order_set)
  have s2: "sound context_kind context_order d2"
    using keeps_grow(2) [of context_kind ScratchActivation DeviceMemory context_order d1 "a div 34 * 36"] s1 2 by (simp add: keeps_def order_set)
  have z: "sized d1 ScratchActivation" "sized d2 ScratchOutput"
    using grow_stale_kept(2) [OF assms(1) _ 1] grow_stale_kept(2) [OF s1 _ 2] assms(2,3) by simp_all
  have "0 < a div 34" using assms(4) by (simp add: div_greater_zero_iff)
  then have "room d2 ScratchActivation (a div 34 * 36)" using grow_stale_room [OF z(1) _ 2] by simp
  then show "room c1 ScratchActivation (a div 34 * 36)" using grow_stale_kept(1) [OF s2 _ 3] by simp
  show "room c1 ScratchOutput b" using grow_stale_room [OF z(2) assms(5) 3] .
qed

lemma snd_finish [simp]: "snd (finish operation (ok, c)) = (if ok then c else c\<lparr>message := operation\<rparr>)"
  by (simp add: finish_def fail_def)

lemma alike_fields [simp]:
  "alike c (c\<lparr>message := t\<rparr>)" "alike c (c\<lparr>position_value := i\<rparr>)" "alike c (c\<lparr>borrowed := b\<rparr>)"
  by (simp_all add: alike_def releases_succeed_def)

lemma finish_ok: "fst (finish operation result) = CUDA_OK \<Longrightarrow> snd (finish operation result) = snd result"
  by (cases "fst result") (simp_all add: finish_def fail_def)

lemma keeps_finish: "context_keeps c (snd result) \<Longrightarrow> context_keeps c (snd (finish operation result))"
  by (cases result) (auto intro: keeps_trans [OF _ keeps_alike])

lemma keeps_set_position: "context_keeps c (snd (set_position position c))"
  by (auto simp: set_position_def split_beta Let_def intro: keeps_finish keeps_trans [OF keeps_alike [OF alike_asked] keeps_alike] keeps_alike)

lemma keeps_adopt_stream: "context_keeps c (snd (adopt_stream stream c))"
proof (cases "stream = None \<or> current_stream c = stream")
  case True
  then show ?thesis by (auto simp: adopt_stream_def split: option.splits)
next
  case False
  then obtain b where b: "stream = Some b" "current_stream c \<noteq> Some b" by auto
  obtain ok1 c1 where 1: "asked c = (ok1, c1)" by (cases "asked c") auto
  obtain ok2 c2 where 2: "wait_for_stream c1 = (ok2, c2)" by (cases "wait_for_stream c1") auto
  obtain ok3 c3 where 3: "destroy_own_stream c2 = (ok3, c3)" by (cases "destroy_own_stream c2") auto
  have result: "snd (adopt_stream stream c) = (if \<not> ok1 then c1 else if \<not> ok2 then c2 else if \<not> ok3 then c3
      else (if borrowed c3 = None then forget OwnStream c3 else c3)\<lparr>borrowed := Some b\<rparr>)"
    using b by (simp add: adopt_stream_def 1 2 3)
  have k1: "context_keeps c c1" using keeps_alike [OF alike_asked [of c]] 1 by simp
  have "context_keeps c1 c2"
    using keeps_alike [OF alike_asked [of c1]] 2 by (cases "current_stream c1 = None") (auto simp: wait_for_stream_def)
  with k1 have k2: "context_keeps c c2" by (rule keeps_trans)
  have last: "context_keeps c (x\<lparr>borrowed := Some b\<rparr>)" if "context_keeps c x" for x
    using that keeps_alike [OF alike_fields(3)] by (rule keeps_trans)
  have "context_keeps c c3 \<and> context_keeps c (if borrowed c3 = None then forget OwnStream c3 else c3) \<or>
      \<not> ok3 \<and> context_keeps c c3 \<or> ok3 \<and> context_keeps c (forget OwnStream c3) \<and> borrowed c3 = None"
  proof (cases "borrowed c2 = None \<and> slots c2 OwnStream \<noteq> None")
    case True
    then have d: "discard Stream (slots c2 OwnStream) c2 = (ok3, c3)" using 3 by (simp add: destroy_own_stream_def)
    have "context_keeps c2 (if ok3 then forget OwnStream c3 else c3)"
      by (rule keeps_discarding [where s = OwnStream, OF _ refl d]) simp
    with k2 have "context_keeps c (if ok3 then forget OwnStream c3 else c3)" by (rule keeps_trans)
    moreover have "borrowed c3 = borrowed c2"
      using d by (auto simp: discard_def asked_release_def split_beta Let_def split: option.splits list.splits if_splits)
    ultimately show ?thesis using True by (cases ok3) simp_all
  next
    case False
    then have "c3 = c2" using 3 by (auto simp: destroy_own_stream_def split: if_splits)
    moreover have "context_keeps c (forget OwnStream c2)" if "borrowed c2 = None"
    proof -
      have "slots c2 OwnStream = None" using False that by simp
      then have "alike c2 (forget OwnStream c2)" by (auto simp: alike_def fun_eq_iff)
      then show ?thesis using keeps_trans [OF k2 keeps_alike] by blast
    qed
    ultimately show ?thesis using k2 by simp
  qed
  then show ?thesis unfolding result using k1 k2 by (auto intro: last)
qed

lemma keeps_drop: "context_keeps c x \<Longrightarrow> context_keeps c (drop_slots context_kind ss x)"
  using keeps_drop_slots by (rule keeps_trans [rotated])

lemma keeps_capture_begin: "context_keeps c (snd (capture_begin_slot slot c))"
  by (auto simp: capture_begin_slot_def intro!: keeps_finish keeps_alike [OF alike_asked])

lemma keeps_capture_end:
  assumes "context_allowed (EndCapture slot) c"
  shows "context_keeps c (snd (capture_end_slot slot c))"
proof (cases "slot_in_range slot")
  case True
  let ?n = "nat slot"
  have free: "slots c (GraphSlot ?n) = None" "slots c (ExecSlot ?n) = None"
    using assms True by (simp_all add: context_allowed_def)
  have n: "?n < 66" using True unfolding slot_in_range_def qwen_graph_slots_def by linarith
  let ?run = "chain [create_in Graph 0 (GraphSlot ?n), create_in GraphExec 0 (ExecSlot ?n)] c"
  have "context_keeps c (snd (chain (map (perform context_kind) [Allocate (GraphSlot ?n) 0, Allocate (ExecSlot ?n) 0]) c))"
    by (rule keeps_creations) (use n free in \<open>auto simp: order_set\<close>)
  then have run: "context_keeps c (snd ?run)" by (simp del: chain.simps)
  show ?thesis
    using run keeps_trans [OF keeps_drop [OF run, of "[ExecSlot ?n, GraphSlot ?n]"] keeps_alike [OF alike_fields(1)]]
    unfolding capture_end_slot_def by (simp add: True split_beta Let_def fail_def del: chain.simps)
qed (simp add: capture_end_slot_def keeps_refl)

lemma topk_chain: "chain (map (\<lambda>s. create_in (context_kind s) 0 s) ss) =
  chain (map (perform context_kind) (map (\<lambda>s. Allocate s 0) ss))"
  by (simp add: comp_def)

lemma keeps_topk_streams:
  assumes "rows_together c"
  shows "context_keeps c (snd (topk_streams c))"
proof (cases "slots c TopkReady")
  case None
  have "allocated (map (\<lambda>s. Allocate s 0) ss) = ss" for ss :: "context_slot list"
    by (induction ss) simp_all
  moreover have "distinct (TopkReady # topk_rows)"
    by (simp add: topk_rows_def upt_conv_Cons)
  moreover have "set (TopkReady # topk_rows) \<subseteq> set context_order" by (auto simp: topk_rows_def order_set)
  moreover have "\<forall>s\<in>set (TopkReady # topk_rows). slots c s = None" using assms None by (auto simp: rows_together_def)
  ultimately have "context_keeps c (snd (chain (map (\<lambda>s. create_in (context_kind s) 0 s) (TopkReady # topk_rows)) c))"
    unfolding topk_chain by (intro keeps_creations) simp_all
  then show ?thesis using None by (auto simp: topk_streams_def split_beta Let_def intro: keeps_drop simp del: chain.simps)
qed (simp add: topk_streams_def keeps_refl)

text \<open>No other operation touches the streams of the rows.\<close>

lemma row_slots_kept:
  assumes "t \<in> set (TopkReady # topk_rows)" and "op \<noteq> TopkStreams"
  shows "slots (context_operate op c) t = slots c t"
proof -
  have t: "t \<notin> {Position, ScratchActivation, ScratchRaw, ScratchOutput, ScratchAux, ScratchBatched, MmqFixup, MmqTiles,
      ScratchTokens, AttentionKey, AttentionValue, AttentionMask, AttentionMeta, DownloadHost, OwnStream}"
    "t \<noteq> GraphSlot n" "t \<noteq> ExecSlot n" for n
    using assms(1) by (auto simp: topk_rows_def)
  have fin: "slots (snd (finish operation result)) = slots (snd result)" for operation result
    by (cases result) simp
  have capture: "slots (snd (capture_begin_slot slot c)) t = slots c t" "slots (snd (capture_end_slot slot c)) t = slots c t" for slot
  proof -
    show "slots (snd (capture_begin_slot slot c)) t = slots c t" by (simp add: capture_begin_slot_def fin asked_same)
    have ch: "slots (snd (chain [create_in Graph 0 (GraphSlot (nat slot)), create_in GraphExec 0 (ExecSlot (nat slot))] c)) t = slots c t"
      by (rule slots_chain) (use t in \<open>auto simp: slots_create_in\<close>)
    then show "slots (snd (capture_end_slot slot c)) t = slots c t"
      using t by (simp add: capture_end_slot_def split_beta Let_def fail_def slots_drop_slots del: chain.simps)
  qed
  have adopt: "slots (snd (adopt_stream stream c)) t = slots c t" for stream
  proof -
    have "slots (snd (chain [asked, wait_for_stream, destroy_own_stream] c)) t = slots c t"
      by (rule slots_chain) (auto simp: asked_same wait_for_stream_def destroy_own_stream_def)
    then show ?thesis using t by (simp add: adopt_stream_def split_beta Let_def del: chain.simps split: option.split)
  qed
  have position: "slots (snd (set_position position c)) t = slots c t" for position
    by (simp add: set_position_def split_beta Let_def asked_same fin)
  have others: "slots (snd (synchronize c)) t = slots c t" "slots (snd (graph_launch_slot slot c)) t = slots c t" for slot
    by (simp_all add: synchronize_def graph_launch_slot_def asked_same fin)
  have host: "slots (snd (ensure_host_matvec_scratch a b x)) t = slots x t" for a b x
    unfolding ensure_host_matvec_scratch_def Let_def by (rule slots_chain) (use t in \<open>auto simp: slots_grow\<close>)
  have fixup: "slots (snd (ensure_mmq_fixup_scratch a b x)) t = slots x t" for a b x
    unfolding ensure_mmq_fixup_scratch_def by (rule slots_chain) (use t in \<open>auto simp: slots_grow\<close>)
  have reserve: "slots (snd (reserve_matvec_scratch a b c)) t = slots c t" for a b
  proof -
    have "slots (snd (chain [ensure_host_matvec_scratch x y, ensure_mmq_fixup_scratch v w] c)) t = slots c t" for x y v w
      by (rule slots_chain) (auto simp: host fixup)
    then show ?thesis by (simp add: reserve_matvec_scratch_def Let_def fin del: chain.simps)
  qed
  have download: "slots (snd (ensure_download_host a c)) t = slots c t" for a
  proof -
    have "slots (snd (chain [asked, grow PinnedMemory DownloadHost a] c)) t = slots c t"
      by (rule slots_chain) (use t in \<open>auto simp: slots_grow asked_same\<close>)
    then show ?thesis by (simp add: ensure_download_host_def del: chain.simps)
  qed
  have attention: "slots (snd (ensure_attention_f16_view a b c)) t = slots c t"
    "slots (snd (ensure_attention_fattn_scratch a b c)) t = slots c t" for a b
  proof -
    show "slots (snd (ensure_attention_f16_view a b c)) t = slots c t"
      unfolding ensure_attention_f16_view_def by (rule slots_chain) (use t in \<open>auto simp: slots_grow\<close>)
    show "slots (snd (ensure_attention_fattn_scratch a b c)) t = slots c t"
      unfolding ensure_attention_fattn_scratch_def by (rule slots_chain) (use t in \<open>auto simp: slots_grow\<close>)
  qed
  show ?thesis using t assms(2)
    by (cases op) (simp_all add: adopt position others host fixup reserve download attention capture slots_grow
      ensure_device_matvec_scratch_def ensure_aux_scratch_def ensure_batched_activation_scratch_def ensure_token_scratch_def Let_def)
qed

lemma rows_together_kept: "rows_together c \<Longrightarrow> rows_together (context_operate op c)"
proof (cases "op = TopkStreams")
  case True
  assume r: "rows_together c"
  show ?thesis
  proof (cases "slots c TopkReady")
    case None
    obtain ok c' where ch: "chain (map (\<lambda>s. create_in (context_kind s) 0 s) (TopkReady # topk_rows)) c = (ok, c')"
      by (cases "chain (map (\<lambda>s. create_in (context_kind s) 0 s) (TopkReady # topk_rows)) c") auto
    show ?thesis
    proof (cases ok)
      case True
      obtain ok1 c1 where c1: "create_in Event 0 TopkReady c = (ok1, c1)" by (cases "create_in Event 0 TopkReady c") auto
      have rest: "chain (map (\<lambda>s. create_in (context_kind s) 0 s) topk_rows) c1 = (True, c')" and ok1
        using ch c1 True by (auto split: if_splits)
      have "slots (snd (chain (map (\<lambda>s. create_in (context_kind s) 0 s) topk_rows) c1)) TopkReady = slots c1 TopkReady"
        by (rule slots_chain) (auto simp: topk_rows_def slots_create_in)
      then have "slots c' TopkReady = Some (fresh c)" using rest make_frame(2) [OF c1] \<open>ok1\<close> by simp
      then show ?thesis using ch True None \<open>op = TopkStreams\<close> by (simp add: topk_streams_def rows_together_def del: chain.simps)
    next
      case False
      have "set topk_rows \<subseteq> set (concat (map (\<lambda>row. [TopkDone row, TopkStream row]) [0..<32]))" by (auto simp: topk_rows_def)
      then show ?thesis using ch False None \<open>op = TopkStreams\<close>
        by (auto simp: topk_streams_def rows_together_def slots_drop_slots simp del: chain.simps)
    qed
  qed (use r True in \<open>simp add: topk_streams_def\<close>)
next
  case False
  then show "rows_together c \<Longrightarrow> ?thesis" using row_slots_kept [OF _ False, of _ c] by (simp add: rows_together_def)
qed

lemma context_operate_keeps: "rows_together c \<Longrightarrow> context_allowed op c \<Longrightarrow> context_keeps c (context_operate op c)"
  by (cases op) (auto simp: synchronize_def graph_launch_slot_def reserve_matvec_scratch_def
    intro!: keeps_scratch keeps_set_position keeps_adopt_stream keeps_capture_begin keeps_capture_end keeps_topk_streams
      keeps_finish keeps_chain keeps_alike [OF alike_asked] simp del: chain.simps)

interpretation cuda: owner context_kind context_order rows_together context_allowed context_operate
  by unfold_locales (rule context_operate_keeps, assumption+, rule rows_together_kept, assumption)

subsection \<open>Properties\<close>

text \<open>A context about to be filled: nothing in its fields, and every live object older than the next.\<close>

definition new_context :: "cuda_context \<Rightarrow> bool" where
  "new_context c \<longleftrightarrow> sound context_kind context_order c \<and> slots c = (\<lambda>_. None) \<and> releases_succeed c"

lemma q8_context_create_cases:
  assumes "q8_context_create out d new_ok properties disable c = (status, created, c')"
  obtains (refused) "status \<noteq> CUDA_OK" "\<not> created" "c' = c"
    | (first) m count c2 where
        "chain (map (perform context_kind) [Fill, Allocate OwnStream 0, Allocate StartEvent 0, Allocate StopEvent 0])
           (c\<lparr>device := d, mma_available := m, multiprocessor_count := count\<rparr>) = (False, c2)"
        "status \<noteq> CUDA_OK" "\<not> created" "c' = drop_slots context_kind [OwnStream, StartEvent, StopEvent] c2"
    | (second) m count c2 c3 where
        "chain (map (perform context_kind) [Fill, Allocate OwnStream 0, Allocate StartEvent 0, Allocate StopEvent 0])
           (c\<lparr>device := d, mma_available := m, multiprocessor_count := count\<rparr>) = (True, c2)"
        "chain (map (perform context_kind) [Allocate Position 4, Fill, Fill]) c2 = (False, c3)"
        "status \<noteq> CUDA_OK" "\<not> created" "c' = drop_slots context_kind [Position, StartEvent, StopEvent, OwnStream] c3"
    | (made) m count c2 where
        "chain (map (perform context_kind) [Fill, Allocate OwnStream 0, Allocate StartEvent 0, Allocate StopEvent 0])
           (c\<lparr>device := d, mma_available := m, multiprocessor_count := count\<rparr>) = (True, c2)"
        "chain (map (perform context_kind) [Allocate Position 4, Fill, Fill]) c2 = (True, c')" "status = CUDA_OK" created
proof -
  have steps: "map (perform context_kind) [Fill, Allocate OwnStream 0, Allocate StartEvent 0, Allocate StopEvent 0] =
      [asked, create_in Stream 0 OwnStream, create_in Event 0 StartEvent, create_in Event 0 StopEvent]"
    "map (perform context_kind) [Allocate Position 4, Fill, Fill] = [create_in DeviceMemory 4 Position, asked, asked]" by simp_all
  show thesis
  proof (cases "\<not> out \<or> d < 0 \<or> \<not> new_ok \<or> properties = None")
    case True
    then show thesis using assms by (intro refused) (auto simp: q8_context_create_def split: if_splits option.splits)
  next
    case False
    then obtain major count where p: "properties = Some (major, count)" by auto
    define m where "m = (major \<ge> 8 \<and> (case disable of None \<Rightarrow> True | Some v \<Rightarrow> v = [] \<or> hd v \<noteq> CHR ''0''))"
    let ?c1 = "c\<lparr>device := d, mma_available := m, multiprocessor_count := count\<rparr>"
    obtain ok1 c2 where 1: "chain [asked, create_in Stream 0 OwnStream, create_in Event 0 StartEvent, create_in Event 0 StopEvent] ?c1 = (ok1, c2)"
      by (cases "chain [asked, create_in Stream 0 OwnStream, create_in Event 0 StartEvent, create_in Event 0 StopEvent] ?c1") auto
    obtain ok2 c3 where 2: "chain [create_in DeviceMemory 4 Position, asked, asked] c2 = (ok2, c3)"
      by (cases "chain [create_in DeviceMemory 4 Position, asked, asked] c2") auto
    have "q8_context_create out d new_ok properties disable c =
        (if \<not> ok1 then (CUDA_RUNTIME_ERROR, False, drop_slots context_kind [OwnStream, StartEvent, StopEvent] c2)
         else if \<not> ok2 then (CUDA_RUNTIME_ERROR, False, drop_slots context_kind [Position, StartEvent, StopEvent, OwnStream] c3)
         else (CUDA_OK, True, c3))"
      using False by (simp add: q8_context_create_def p m_def [symmetric] 1 2 del: chain.simps)
    then have "status \<noteq> CUDA_OK \<and> \<not> created \<and> (\<not> ok1 \<and> c' = drop_slots context_kind [OwnStream, StartEvent, StopEvent] c2 \<or>
          ok1 \<and> \<not> ok2 \<and> c' = drop_slots context_kind [Position, StartEvent, StopEvent, OwnStream] c3) \<or>
        ok1 \<and> ok2 \<and> status = CUDA_OK \<and> created \<and> c' = c3"
      using assms by (auto split: if_splits)
    then consider "\<not> ok1" "status \<noteq> CUDA_OK" "\<not> created" "c' = drop_slots context_kind [OwnStream, StartEvent, StopEvent] c2"
      | "ok1" "\<not> ok2" "status \<noteq> CUDA_OK" "\<not> created" "c' = drop_slots context_kind [Position, StartEvent, StopEvent, OwnStream] c3"
      | "ok1" "ok2" "status = CUDA_OK" "created" "c' = c3" by blast
    then show thesis
    proof cases
      case 1 with \<open>chain _ ?c1 = (ok1, c2)\<close> show thesis by (intro first [of count m c2]) (simp_all add: steps del: chain.simps list.map)
    next
      case 2 with \<open>chain _ ?c1 = (ok1, c2)\<close> \<open>chain _ c2 = (ok2, c3)\<close> show thesis
        by (intro second [of count m c2 c3]) (simp_all add: steps del: chain.simps list.map)
    next
      case 3 with \<open>chain _ ?c1 = (ok1, c2)\<close> \<open>chain _ c2 = (ok2, c3)\<close> show thesis
        by (intro made [of count m c2]) (simp_all add: steps del: chain.simps list.map)
    qed
  qed
qed

lemma keeps_fields: "context_keeps c (c\<lparr>device := d, mma_available := m, multiprocessor_count := count\<rparr>)"
  by (rule keeps_alike) (simp add: alike_def releases_succeed_def)

lemma creation_steps:
  shows "slots c = (\<lambda>_. None) \<Longrightarrow> context_keeps c (snd (chain (map (perform context_kind)
      [Fill, Allocate OwnStream 0, Allocate StartEvent 0, Allocate StopEvent 0]) c))"
    and "slots c Position = None \<Longrightarrow> context_keeps c (snd (chain (map (perform context_kind) [Allocate Position 4, Fill, Fill]) c))"
  by (intro keeps_creations; simp add: order_set)+

lemma sound_older: "sound kinds order m \<Longrightarrow> live m p \<noteq> None \<Longrightarrow> p < fresh m"
  by (auto simp: sound_def)

lemma strays_all: "slots m = (\<lambda>_. None) \<Longrightarrow> strays m = live m"
  by (auto simp: strays_def fun_eq_iff)

text \<open>What a context holds after its creation.\<close>

definition created_slots :: "(context_slot \<times> kind \<times> nat) list" where
  "created_slots = [(Position, DeviceMemory, 4), (OwnStream, Stream, 0), (StartEvent, Event, 0), (StopEvent, Event, 0)]"

lemma context_create_result:
  assumes "q8_context_create out d new_ok properties disable c = (status, created, c')" and "new_context c"
  shows "context_keeps c c' \<and> created = (status = CUDA_OK) \<and>
    (if status = CUDA_OK
     then (\<forall>(s, k, n)\<in>set created_slots. \<exists>p. slots c' s = Some p \<and> live c' p = Some (k, n)) \<and>
       (\<forall>s. s \<notin> fst ` set created_slots \<longrightarrow> slots c' s = None)
     else slots c' = (\<lambda>_. None))"
proof -
  let ?s1 = "[Fill, Allocate OwnStream 0, Allocate StartEvent 0, Allocate StopEvent 0]"
  let ?s2 = "[Allocate Position 4, Fill, Fill]"
  have c: "slots c = (\<lambda>_. None)" "sound context_kind context_order c" using assms(2) by (simp_all add: new_context_def)
  from assms(1) show ?thesis
  proof (cases rule: q8_context_create_cases)
    case refused
    then show ?thesis using c by auto
  next
    case (first m count c2)
    let ?c1 = "c\<lparr>device := d, mma_available := m, multiprocessor_count := count\<rparr>"
    have k: "context_keeps c c2"
      using keeps_trans [OF keeps_fields creation_steps(1) [of ?c1]] first(1) c by (simp del: chain.simps list.map)
    have "slots c2 t = None" if "t \<notin> {OwnStream, StartEvent, StopEvent}" for t
      using slots_creations [of t ?s1 context_kind ?c1] first(1) c that by (simp del: chain.simps list.map)
    then show ?thesis using first keeps_drop [OF k] by (auto simp: slots_drop_slots fun_eq_iff)
  next
    case (second m count c2 c3)
    let ?c1 = "c\<lparr>device := d, mma_available := m, multiprocessor_count := count\<rparr>"
    have k2: "context_keeps c c2"
      using keeps_trans [OF keeps_fields creation_steps(1) [of ?c1]] second(1) c by (simp del: chain.simps list.map)
    have n2: "slots c2 t = None" if "t \<notin> {OwnStream, StartEvent, StopEvent}" for t
      using slots_creations [of t ?s1 context_kind ?c1] second(1) c that by (simp del: chain.simps list.map)
    have k3: "context_keeps c c3" using keeps_trans [OF k2 creation_steps(2)] n2 second(2) by (simp del: chain.simps list.map)
    have "slots c3 t = None" if "t \<notin> {OwnStream, StartEvent, StopEvent, Position}" for t
      using slots_creations [of t ?s2 context_kind c2] second(2) n2 that by (simp del: chain.simps list.map)
    then show ?thesis using second keeps_drop [OF k3] by (auto simp: slots_drop_slots fun_eq_iff)
  next
    case (made m count c2)
    let ?c1 = "c\<lparr>device := d, mma_available := m, multiprocessor_count := count\<rparr>"
    have k2: "context_keeps c c2"
      using keeps_trans [OF keeps_fields creation_steps(1) [of ?c1]] made(1) c by (simp del: chain.simps list.map)
    have n2: "slots c2 t = None" if "t \<notin> {OwnStream, StartEvent, StopEvent}" for t
      using slots_creations [of t ?s1 context_kind ?c1] made(1) c that by (simp del: chain.simps list.map)
    have k3: "context_keeps c c'" using keeps_trans [OF k2 creation_steps(2)] n2 made(2) by (simp del: chain.simps list.map)
    have s1: "sound context_kind context_order ?c1" using keeps_fields [of c count m d] c(2) by (simp add: keeps_def)
    have s2: "sound context_kind context_order c2" using k2 c(2) by (simp add: keeps_def)
    note one = creations_made [OF made(1) _ sound_older [OF s1]]
    note two = creations_made [OF made(2) _ sound_older [OF s2]]
    have first: "\<exists>p. slots c' s = Some p \<and> live c' p = Some (context_kind s, 0)" if s: "s \<in> {OwnStream, StartEvent, StopEvent}" for s
    proof -
      obtain p where "slots c2 s = Some p" "live c2 p = Some (context_kind s, 0)" using one(1) [of s 0] s by auto
      moreover have "slots c' s = slots c2 s" using two(2) [of s] s by auto
      ultimately show ?thesis using two(3) by auto
    qed
    have "\<exists>p. slots c' Position = Some p \<and> live c' p = Some (DeviceMemory, 4)" using two(1) [of Position 4] by simp
    moreover have "slots c' t = None" if "t \<notin> {OwnStream, StartEvent, StopEvent, Position}" for t
      using two(2) [of t] n2 [of t] that by simp
    ultimately show ?thesis using made k3 first [of OwnStream] first [of StartEvent] first [of StopEvent]
      by (auto simp: created_slots_def)
  qed
qed

lemma context_of_create:
  assumes "q8_context_create out d new_ok properties disable c = (CUDA_OK, created, c')" and "new_context c"
  shows "sound context_kind context_order c'" and "releases_succeed c'" and "strays c' = live c" and "rows_together c'"
proof -
  have c: "sound context_kind context_order c" "releases_succeed c" "strays c = live c"
    using assms(2) by (simp_all add: new_context_def strays_all)
  note r = context_create_result [OF assms]
  then show "sound context_kind context_order c'" "releases_succeed c'" "strays c' = live c"
    using c by (simp_all add: keeps_def)
  show "rows_together c'" using r by (auto simp: rows_together_def created_slots_def topk_rows_def)
qed

text \<open>
  A context is created whole or not at all: on success it owns its position, stream and two events
  and nothing else, otherwise exactly the objects are live that were before, whatever the runtime
  answers.
\<close>

theorem context_create_whole_or_nothing:
  assumes "new_context c" and "q8_context_create out d new_ok properties disable c = (status, created, c')"
  shows "if status = CUDA_OK
    then created \<and> (\<forall>(s, k, n)\<in>set created_slots. \<exists>p. slots c' s = Some p \<and> live c' p = Some (k, n)) \<and>
      (\<forall>s. s \<notin> fst ` set created_slots \<longrightarrow> slots c' s = None) \<and> strays c' = live c
    else \<not> created \<and> live c' = live c"
proof -
  have c: "sound context_kind context_order c" "releases_succeed c" "strays c = live c"
    using assms(1) by (simp_all add: new_context_def strays_all)
  note r = context_create_result [OF assms(2,1)]
  then have "strays c' = live c" using c by (simp add: keeps_def)
  then show ?thesis using r strays_all [of c'] by (auto split: if_splits)
qed

text \<open>
  C30: A context is created, any sequence of operations is done with it, each succeeding or failing as
  the runtime answers, every end of a capture while its slot is free, and the context is destroyed,
  the runtime carrying out each release (\<open>releases_succeed\<close>, part of \<open>new_context\<close>). Then nothing was
  ever released twice or by the wrong function, and exactly the objects are live that were before the
  creation: every scratch buffer, event, graph and stream was released once, a stream taken over from
  another library was left alone. An end of a capture on an occupied slot is excluded because it does
  leak (\<open>ended_capture_loses_graph\<close>).
\<close>

theorem context_never_leaks:
  assumes "new_context c" and "q8_context_create out d new_ok properties disable c = (CUDA_OK, created, c')"
    and "run_allowed context_allowed context_operate ops c'"
  shows "faults (q8_context_destroy (fold context_operate ops c')) = 0 \<and>
    live (q8_context_destroy (fold context_operate ops c')) = live c"
  unfolding q8_context_destroy_def
  using cuda.run_then_release [OF context_of_create(1) [OF assms(2,1)] subset_refl context_of_create(4) [OF assms(2,1)] assms(3)]
    context_of_create(2,3) [OF assms(2,1)] by simp

definition empty_context :: cuda_context where
  "empty_context = \<lparr>live = (\<lambda>_. None), fresh = 0, faults = 0, answers = [], release_answers = [], slots = (\<lambda>_. None), capacity = (\<lambda>_. 0),
     device = 0, borrowed = None, mma_available = False, multiprocessor_count = 0, position_value = 0, message = []\<rparr>"

lemma empty_context_new: "new_context empty_context"
  by (simp add: new_context_def sound_def releases_succeed_def empty_context_def)

lemma empty_context_created: "\<exists>c'. q8_context_create True 0 True (Some (8, 60)) None empty_context = (CUDA_OK, True, c')"
  by (simp add: q8_context_create_def empty_context_def asked_def create_in_def)

theorem context_create_whole_or_nothing_witness:
  "live (snd (snd (q8_context_create True 0 True None None empty_context))) = (\<lambda>_. None)"
  using context_create_whole_or_nothing [OF empty_context_new, of True 0 True None None CUDA_RUNTIME_ERROR False empty_context]
  by (simp add: q8_context_create_def empty_context_def)

definition sample_ops :: "context_op list" where
  "sample_ops = [BeginCapture 3, EndCapture 3, AuxScratch 100, BeginCapture 3, AdoptStream (Some 77), HostScratch 68 8, TopkStreams]"

text \<open>A capture into a slot no capture was ended in: the creation leaves all of them free.\<close>

lemma sample_ops_allowed:
  assumes "slots c (GraphSlot 3) = None" and "slots c (ExecSlot 3) = None"
  shows "run_allowed context_allowed context_operate sample_ops c"
  using assms by (simp add: sample_ops_def context_allowed_def capture_begin_slot_def finish_def fail_def split_beta asked_same)

theorem context_never_leaks_witness:
  "\<exists>c. q8_context_create True 0 True (Some (8, 60)) None empty_context = (CUDA_OK, True, c) \<and>
     live (q8_context_destroy (fold context_operate sample_ops c)) = (\<lambda>_. None)"
proof -
  obtain c where c: "q8_context_create True 0 True (Some (8, 60)) None empty_context = (CUDA_OK, True, c)"
    using empty_context_created by blast
  have "slots c s = None" if "s \<notin> fst ` set created_slots" for s
    using context_create_result [OF c empty_context_new] that by (auto split: if_splits)
  then have "run_allowed context_allowed context_operate sample_ops c"
    by (intro sample_ops_allowed) (simp_all add: created_slots_def)
  then have "live (q8_context_destroy (fold context_operate sample_ops c)) = live empty_context"
    using context_never_leaks [OF empty_context_new c] by blast
  moreover have "live empty_context = (\<lambda>_. None)" by (simp add: empty_context_def)
  ultimately show ?thesis using c by metis
qed

text \<open>
  A scratch buffer whose size is set to 0 before it is replaced can be relied on: when the call
  reports success, the buffer is live memory of at least the size asked for, and the recorded size is
  never more than there is, also after failures.
\<close>

theorem ensured_scratch_has_room:
  assumes "sound context_kind context_order c" and "sized c ScratchActivation" and "sized c MmqFixup" and "sized c MmqTiles"
    and "ensure_device_matvec_scratch elements c = (ok, c1)" and "ensure_mmq_fixup_scratch a b c = (ok', c2)"
  shows "sized c1 ScratchActivation \<and> (ok \<longrightarrow> room c1 ScratchActivation ((elements + 31) div 32 * 36)) \<and>
    sized c2 MmqTiles \<and> (ok' \<longrightarrow> room c2 MmqFixup a \<and> room c2 MmqTiles b)"
proof -
  have device: "sized c1 ScratchActivation \<and> (ok \<longrightarrow> room c1 ScratchActivation ((elements + 31) div 32 * 36))"
    using grow_room [OF assms(2) assms(5) [unfolded ensure_device_matvec_scratch_def Let_def]] by (simp add: add.commute)
  obtain ok1 d1 where 1: "grow DeviceMemory MmqFixup a c = (ok1, d1)" by (cases "grow DeviceMemory MmqFixup a c") auto
  obtain ok2 d2 where 2: "grow DeviceMemory MmqTiles b d1 = (ok2, d2)" by (cases "grow DeviceMemory MmqTiles b d1") auto
  have c2: "ok' = (ok1 \<and> ok2)" "c2 = (if ok1 then d2 else d1)" using assms(6) 1 2 by (auto simp: ensure_mmq_fixup_scratch_def split: if_splits)
  have s1: "sound context_kind context_order d1"
    using keeps_grow(1) [of context_kind MmqFixup DeviceMemory context_order c a] assms(1) 1 by (simp add: keeps_def order_set)
  have tiles: "sized d1 MmqTiles"
  proof (cases "slots c MmqTiles")
    case None
    then have "slots d1 MmqTiles = None" "capacity d1 MmqTiles = capacity c MmqTiles"
      using slots_grow(1) [of MmqTiles MmqFixup DeviceMemory a c] bytes_grow [of MmqTiles MmqFixup DeviceMemory a c] 1 by simp_all
    then show ?thesis using assms(4) None by (simp add: sized_def)
  next
    case (Some p)
    note same = grow_others [OF assms(1) _ Some 1]
    then have "sized d1 MmqTiles = sized c MmqTiles" using Some by (simp add: sized_def room_def)
    then show ?thesis using assms(4) by simp
  qed
  have fixup: "ok1 \<Longrightarrow> room d1 MmqFixup a" using grow_room(2) [OF assms(3) 1] .
  moreover have "room d2 MmqFixup a" if r: "room d1 MmqFixup a"
  proof -
    obtain p where p: "slots d1 MmqFixup = Some p" using room_slot [OF r] by blast
    show ?thesis using grow_others [OF s1 _ p 2] r p by (simp add: room_def)
  qed
  ultimately show ?thesis using device grow_room [OF tiles 2] tiles c2 by auto
qed

theorem ensured_scratch_has_room_witness:
  "room (snd (ensure_device_matvec_scratch 64 empty_context)) ScratchActivation 72"
proof -
  have s: "sound context_kind context_order empty_context" using empty_context_new by (simp add: new_context_def)
  have z: "sized empty_context t" for t by (simp add: sized_def empty_context_def)
  obtain ok c1 where 1: "ensure_device_matvec_scratch 64 empty_context = (ok, c1)" by (cases "ensure_device_matvec_scratch 64 empty_context") auto
  obtain ok' c2 where 2: "ensure_mmq_fixup_scratch 1 1 empty_context = (ok', c2)" by (cases "ensure_mmq_fixup_scratch 1 1 empty_context") auto
  have "ok" using 1 by (auto simp: ensure_device_matvec_scratch_def grow_def discard_def create_in_def asked_def asked_release_def
      forget_def set_bytes_def empty_context_def)
  then show ?thesis using ensured_scratch_has_room [OF s z z z 1 2] 1 by simp
qed

text \<open>
  The buffers of the host products and the auxiliary buffer keep their old size when they could not
  be grown: the next request that fits that size reports success with a null buffer.
\<close>

theorem failed_growth_then_null:
  assumes "sound context_kind context_order c" and "releases_succeed c" and "answers c = False # later"
    and "capacity c ScratchAux < n" and "n' \<le> capacity c ScratchAux"
    and "ensure_aux_scratch n c = (ok, c1)" and "ensure_aux_scratch n' c1 = (ok', c2)"
  shows "\<not> ok \<and> ok' \<and> slots c2 ScratchAux = None"
proof -
  obtain b d where b: "asked_release c = (b, d)" by (cases "asked_release c") auto
  have bt: "b" "answers d = answers c" "live d = live c" "slots d = slots c" "capacity d = capacity c"
    using asked_release_ok [OF assms(2)] asked_release_same [of c] b
    by (auto simp: asked_release_def split: list.splits)
  obtain e where e: "discard DeviceMemory (slots c ScratchAux) c = (True, e)" "answers e = False # later" "slots e = slots c" "capacity e = capacity c"
  proof (cases "slots c ScratchAux")
    case None
    then show ?thesis using b bt assms(3) by (intro that [of d]) (simp_all add: discard_def)
  next
    case (Some p)
    then have "map_option fst (live d p) = Some DeviceMemory" using sound_slot [OF assms(1) Some] bt by simp
    then show ?thesis using b bt assms(3) Some by (intro that [of "d\<lparr>live := (live d)(p := None)\<rparr>"]) (auto simp: discard_def)
  qed
  have c1: "\<not> ok" "c1 = (forget ScratchAux e)\<lparr>answers := later\<rparr>"
    using assms(4,6) e by (auto simp: ensure_aux_scratch_def grow_stale_def create_in_def asked_def forget_def)
  moreover have "ok' \<and> c2 = c1" using assms(5,7) c1 e by (auto simp: ensure_aux_scratch_def grow_stale_def)
  ultimately show ?thesis by simp
qed

theorem failed_growth_then_null_witness:
  "let c = snd (ensure_aux_scratch 64 empty_context)\<lparr>answers := [False]\<rparr>; c1 = snd (ensure_aux_scratch 128 c)
   in fst (ensure_aux_scratch 32 c1) \<and> slots (snd (ensure_aux_scratch 32 c1)) ScratchAux = None"
proof -
  let ?c = "snd (ensure_aux_scratch 64 empty_context)\<lparr>answers := [False]\<rparr>"
  have facts: "releases_succeed ?c" "capacity ?c ScratchAux = 64" "sound context_kind context_order ?c"
    by (auto simp: ensure_aux_scratch_def grow_stale_def discard_def create_in_def asked_def asked_release_def forget_def
      set_bytes_def empty_context_def releases_succeed_def sound_def order_set)
  obtain ok c1 where 1: "ensure_aux_scratch 128 ?c = (ok, c1)" by (cases "ensure_aux_scratch 128 ?c") auto
  obtain ok' c2 where 2: "ensure_aux_scratch 32 c1 = (ok', c2)" by (cases "ensure_aux_scratch 32 c1") auto
  show ?thesis using failed_growth_then_null [OF facts(3,1) _ _ _ 1 2, of "[]"] facts(2) 1 2 by (simp add: Let_def)
qed

text \<open>
  Ending a capture does not look whether its slot is free. A capture begun for one slot and ended in
  another that is occupied overwrites the handles there: the old graph and its executable stay live with no field for them.
\<close>

theorem ended_capture_loses_graph:
  assumes "sound context_kind context_order c" and "slot_in_range slot" and "answers c = []"
    and "slots c (GraphSlot (nat slot)) = Some p" and "slots c (ExecSlot (nat slot)) = Some q"
    and "capture_end_slot slot c = (status, c')"
  shows "status = CUDA_OK \<and> live c' p \<noteq> None \<and> live c' q \<noteq> None \<and> (\<forall>s. slots c' s \<noteq> Some p \<and> slots c' s \<noteq> Some q)"
proof -
  have old: "p < fresh c" "q < fresh c" using assms(1,4,5) sound_slot sound_older by fastforce+
  have c': "status = CUDA_OK" "live c' = (live c)(fresh c \<mapsto> (Graph, 0), Suc (fresh c) \<mapsto> (GraphExec, 0))"
    "slots c' = (slots c)(GraphSlot (nat slot) \<mapsto> fresh c, ExecSlot (nat slot) \<mapsto> Suc (fresh c))"
    using assms(2,3,6) by (auto simp: capture_end_slot_def create_in_def asked_def)
  have "slots c s \<noteq> Some p" if "s \<noteq> GraphSlot (nat slot)" for s using that sound_inj [OF assms(1,4)] by blast
  moreover have "slots c s \<noteq> Some q" if "s \<noteq> ExecSlot (nat slot)" for s using that sound_inj [OF assms(1,5)] by blast
  moreover have "live c p \<noteq> None" "live c q \<noteq> None" using sound_slot [OF assms(1,4)] sound_slot [OF assms(1,5)] by auto
  ultimately show ?thesis using c' old by auto
qed

lemma captured_once: "context_keeps empty_context (snd (capture_end_slot 0 empty_context))"
  by (rule keeps_capture_end) (simp add: context_allowed_def empty_context_def)

theorem ended_capture_loses_graph_witness:
  "let c = snd (capture_end_slot 0 empty_context); c' = snd (capture_end_slot 0 c)
   in live c' 0 \<noteq> None \<and> slots c' (GraphSlot 0) \<noteq> Some 0"
proof -
  let ?c = "snd (capture_end_slot 0 empty_context)"
  have s: "sound context_kind context_order ?c"
    using captured_once empty_context_new by (simp add: keeps_def new_context_def)
  have c: "answers ?c = []" "slots ?c (GraphSlot 0) = Some 0" "slots ?c (ExecSlot 0) = Some 1"
    by (simp_all add: capture_end_slot_def slot_in_range_def qwen_graph_slots_def
      asked_def create_in_def empty_context_def CUDA_OK_def)
  obtain status c' where e: "capture_end_slot 0 ?c = (status, c')" by (cases "capture_end_slot 0 ?c") auto
  show ?thesis using ended_capture_loses_graph [OF s _ c(1) _ _ e, of 0 1] c e
    by (simp add: slot_in_range_def qwen_graph_slots_def Let_def)
qed

end
