(* ===== verification/CudaLayers.thy ===== *)
theory CudaLayers
  imports CudaContext
begin

section \<open>The memory of layers on the CUDA device\<close>

text \<open>
  Creation and destruction of the recurrent and the attention layers of
  \<open>src/backend/cuda/fortai_cuda_backend.cu\<close> (\<open>fortai_cuda_qwen35_recurrent_create\<close>, \<open>_create_state\<close>,
  \<open>fortai_cuda_qwen35_attention_create\<close>, \<open>_create_state\<close> and the functions that free them), and of
  weights. The device memory is the machine of \<open>CudaRuntime\<close> with the layer's pointers as fields. Sizes
  are natural numbers: the products of dimensions are taken not to exceed 64 bits, and those of the
  guards not to exceed 32.
\<close>

subsection \<open>Filling a structure\<close>

definition fill_or_free :: "'s list \<Rightarrow> 's creation list \<Rightarrow> ('s, 'z) machine_scheme \<Rightarrow> int \<times> ('s, 'z) machine_scheme" where
  "fill_or_free order steps m =
     (let (ok, m) = chain (map (perform (\<lambda>_. DeviceMemory)) steps) m
      in if ok then (CUDA_OK, m) else (CUDA_RUNTIME_ERROR, drop_slots (\<lambda>_. DeviceMemory) order m))"

text \<open>\<open>allocate_and_copy_float\<close>.\<close>

definition allocate_and_copy :: "'s \<Rightarrow> nat \<Rightarrow> 's creation list" where
  "allocate_and_copy s n = [Allocate s n, Fill]"

subsection \<open>Recurrent layers\<close>

datatype recurrent_slot =
  ConvWeights | SsmA | SsmDt | SsmNorm | ConvState | GdnState | ConvStateFirst | GdnStateFirst | ConvStateSecond |
  GdnStateSecond | QkvOutput | GateOutput | AlphaOutput | BetaOutput | GdnOutput

record recurrent_shape =
  conv_size :: int
  conv_kernel :: int
  state_size :: int
  key_heads :: int
  value_heads :: int
  head_size :: int
  inner_size :: int

record recurrent_input =
  conv_weight_bytes :: nat
  ssm_a_bytes :: nat
  ssm_dt_bytes :: nat
  ssm_norm_bytes :: nat

definition recurrent_shape_invalid :: "recurrent_shape \<Rightarrow> bool" where
  "recurrent_shape_invalid d \<longleftrightarrow> conv_size d \<le> 0 \<or> conv_kernel d < 2 \<or> state_size d \<le> 0 \<or> key_heads d \<le> 0 \<or>
     value_heads d \<le> 0 \<or> head_size d \<le> 0 \<or> inner_size d \<le> 0 \<or>
     value_heads d mod key_heads d \<noteq> 0 \<or> value_heads d * head_size d \<noteq> inner_size d"

definition conv_weight_size :: "recurrent_shape \<Rightarrow> nat" where
  "conv_weight_size d = nat (conv_size d) * nat (conv_kernel d) * 4"

definition conv_state_size :: "recurrent_shape \<Rightarrow> nat" where
  "conv_state_size d = nat (conv_kernel d - 1) * nat (conv_size d) * 4"

definition gdn_state_size :: "recurrent_shape \<Rightarrow> nat" where
  "gdn_state_size d = nat (value_heads d) * nat (head_size d) * nat (head_size d) * 4"

definition recurrent_bytes_invalid :: "recurrent_shape \<Rightarrow> recurrent_input \<Rightarrow> bool" where
  "recurrent_bytes_invalid d i \<longleftrightarrow> conv_weight_bytes i < conv_weight_size d \<or> ssm_a_bytes i < nat (value_heads d) * 4 \<or>
     ssm_dt_bytes i < nat (value_heads d) * 4 \<or> ssm_norm_bytes i < nat (head_size d) * 4"

definition recurrent_order :: "recurrent_slot list" where
  "recurrent_order = [ConvWeights, SsmA, SsmDt, SsmNorm, ConvState, GdnState, ConvStateFirst, GdnStateFirst, ConvStateSecond,
     GdnStateSecond, QkvOutput, GateOutput, AlphaOutput, BetaOutput, GdnOutput]"

definition free_recurrent_device_buffers :: "(recurrent_slot, 'z) machine_scheme \<Rightarrow> (recurrent_slot, 'z) machine_scheme" where
  "free_recurrent_device_buffers m = drop_slots (\<lambda>_. DeviceMemory) recurrent_order m"

definition recurrent_parameters :: "recurrent_shape \<Rightarrow> recurrent_slot creation list" where
  "recurrent_parameters d = allocate_and_copy ConvWeights (conv_weight_size d) @ allocate_and_copy SsmA (nat (value_heads d) * 4) @
     allocate_and_copy SsmDt (nat (value_heads d) * 4) @ allocate_and_copy SsmNorm (nat (head_size d) * 4)"

definition recurrent_states :: "recurrent_shape \<Rightarrow> recurrent_slot creation list" where
  "recurrent_states d = [Allocate ConvState (conv_state_size d), Allocate GdnState (gdn_state_size d),
     Allocate ConvStateFirst (conv_state_size d), Allocate GdnStateFirst (gdn_state_size d),
     Allocate ConvStateSecond (conv_state_size d), Allocate GdnStateSecond (gdn_state_size d)]"

text \<open>\<open>given\<close>: no pointer is null; \<open>same_context\<close>: the weights belong to the context of the layer.\<close>

definition recurrent_create_steps :: "recurrent_shape \<Rightarrow> recurrent_slot creation list" where
  "recurrent_create_steps d = recurrent_parameters d @ recurrent_states d @
     [Allocate QkvOutput (nat (conv_size d) * 4), Allocate GateOutput (nat (inner_size d) * 4),
      Allocate AlphaOutput (nat (value_heads d) * 4), Allocate BetaOutput (nat (value_heads d) * 4),
      Allocate GdnOutput (nat (inner_size d) * 4), Fill, Fill]"

definition recurrent_state_steps :: "recurrent_shape \<Rightarrow> recurrent_slot creation list" where
  "recurrent_state_steps d = recurrent_parameters d @ recurrent_states d @ [Allocate GdnOutput (nat (inner_size d) * 4), Fill, Fill]"

definition recurrent_create ::
    "bool \<Rightarrow> bool \<Rightarrow> bool \<Rightarrow> recurrent_shape \<Rightarrow> recurrent_input \<Rightarrow> (recurrent_slot, 'z) machine_scheme \<Rightarrow> int \<times> (recurrent_slot, 'z) machine_scheme" where
  "recurrent_create given new_ok same_context d i m =
     (if \<not> given \<or> recurrent_shape_invalid d then (CUDA_INVALID, m)
      else if \<not> new_ok then (CUDA_RUNTIME_ERROR, m)
      else if \<not> same_context then (CUDA_INVALID, m)
      else if recurrent_bytes_invalid d i then (CUDA_INVALID, m)
      else fill_or_free recurrent_order (recurrent_create_steps d) m)"

definition recurrent_create_state ::
    "bool \<Rightarrow> bool \<Rightarrow> bool \<Rightarrow> recurrent_shape \<Rightarrow> recurrent_input \<Rightarrow> (recurrent_slot, 'z) machine_scheme \<Rightarrow> int \<times> (recurrent_slot, 'z) machine_scheme" where
  "recurrent_create_state given new_ok epsilon_positive d i m =
     (if \<not> given \<or> recurrent_shape_invalid d \<or> \<not> epsilon_positive then (CUDA_INVALID, m)
      else if recurrent_bytes_invalid d i then (CUDA_INVALID, m)
      else if \<not> new_ok then (CUDA_RUNTIME_ERROR, m)
      else fill_or_free recurrent_order (recurrent_state_steps d) m)"

definition recurrent_destroy :: "(recurrent_slot, 'z) machine_scheme \<Rightarrow> int \<times> (recurrent_slot, 'z) machine_scheme" where
  "recurrent_destroy m = (CUDA_OK, free_recurrent_device_buffers m)"

subsection \<open>Attention layers\<close>

datatype attention_slot =
  QueryNorm | KeyNorm | KeyCache | ValueCache | KeyCacheQ8 | ValueCacheQ8 | Query | Key | Value | AttentionOutput

record attention_shape =
  heads :: int
  key_value_heads :: int
  query_size :: int
  value_size :: int
  max_context :: int
  rope_dimension :: int
  cache_key_type :: int
  cache_value_type :: int

text \<open>What the weights of a layer say about themselves.\<close>

record attention_weights =
  all_same_context :: bool
  query_rows :: int
  key_rows :: int
  value_rows :: int
  output_blocks :: int

definition attention_cache_row_bytes :: "int \<Rightarrow> int \<Rightarrow> nat" where
  "attention_cache_row_bytes cache_type width =
     (if cache_type = 1 then nat width div 32 * 34 else if cache_type = 2 then nat width div 32 * 18 else nat width * 2)"

definition attention_shape_invalid :: "bool \<Rightarrow> bool \<Rightarrow> attention_shape \<Rightarrow> bool" where
  "attention_shape_invalid rope_base_positive epsilon_positive d \<longleftrightarrow>
     heads d \<le> 0 \<or> key_value_heads d \<le> 0 \<or> query_size d \<le> 0 \<or> value_size d \<le> 0 \<or> max_context d \<le> 0 \<or>
     heads d mod key_value_heads d \<noteq> 0 \<or> rope_dimension d < 0 \<or>
     (rope_dimension d > 0 \<and> (rope_dimension d > query_size d \<or> rope_dimension d mod 2 \<noteq> 0)) \<or>
     \<not> rope_base_positive \<or> \<not> epsilon_positive \<or>
     cache_key_type d < 0 \<or> cache_key_type d > 2 \<or> cache_value_type d < 0 \<or> cache_value_type d > 2 \<or>
     (cache_key_type d \<noteq> 0 \<and> query_size d mod 32 \<noteq> 0) \<or> (cache_value_type d \<noteq> 0 \<and> value_size d mod 32 \<noteq> 0)"

definition norm_bytes_invalid :: "attention_shape \<Rightarrow> nat \<Rightarrow> nat \<Rightarrow> bool" where
  "norm_bytes_invalid d query_norm_bytes key_norm_bytes \<longleftrightarrow>
     query_norm_bytes < nat (query_size d) * 4 \<or> key_norm_bytes < nat (query_size d) * 4"

definition key_cache_size :: "attention_shape \<Rightarrow> nat" where
  "key_cache_size d = nat (max_context d) * nat (key_value_heads d) * attention_cache_row_bytes (cache_key_type d) (query_size d)"

definition value_cache_size :: "attention_shape \<Rightarrow> nat" where
  "value_cache_size d = nat (max_context d) * nat (key_value_heads d) * attention_cache_row_bytes (cache_value_type d) (value_size d)"

definition attention_order :: "attention_slot list" where
  "attention_order = [QueryNorm, KeyNorm, KeyCache, ValueCache, KeyCacheQ8, ValueCacheQ8, Query, Key, Value, AttentionOutput]"

definition free_attention_device_buffers :: "(attention_slot, 'z) machine_scheme \<Rightarrow> (attention_slot, 'z) machine_scheme" where
  "free_attention_device_buffers m = drop_slots (\<lambda>_. DeviceMemory) attention_order m"

definition attention_caches :: "attention_shape \<Rightarrow> attention_slot creation list" where
  "attention_caches d =
     allocate_and_copy QueryNorm (nat (query_size d) * 4) @ allocate_and_copy KeyNorm (nat (query_size d) * 4) @
     [if cache_key_type d \<noteq> 0 then Allocate KeyCacheQ8 (key_cache_size d)
      else Allocate KeyCache (nat (max_context d) * nat (key_value_heads d) * nat (query_size d) * 2),
      if cache_value_type d \<noteq> 0 then Allocate ValueCacheQ8 (value_cache_size d)
      else Allocate ValueCache (nat (max_context d) * nat (key_value_heads d) * nat (value_size d) * 2)]"

definition attention_create_steps :: "attention_shape \<Rightarrow> attention_slot creation list" where
  "attention_create_steps d = attention_caches d @
     [Allocate Query (nat (heads d) * 2 * nat (query_size d) * 4), Allocate Key (nat (key_value_heads d) * nat (query_size d) * 4),
      Allocate Value (nat (key_value_heads d) * nat (value_size d) * 4),
      Allocate AttentionOutput (nat (heads d) * nat (value_size d) * 4), Fill, Fill]"

definition attention_create ::
    "bool \<Rightarrow> bool \<Rightarrow> bool \<Rightarrow> bool \<Rightarrow> attention_shape \<Rightarrow> attention_weights \<Rightarrow> nat \<Rightarrow> nat \<Rightarrow>
     (attention_slot, 'z) machine_scheme \<Rightarrow> int \<times> (attention_slot, 'z) machine_scheme" where
  "attention_create given new_ok rope_base_positive epsilon_positive d w query_norm_bytes key_norm_bytes m =
     (if \<not> given \<or> attention_shape_invalid rope_base_positive epsilon_positive d then (CUDA_INVALID, m)
      else if \<not> all_same_context w \<or> query_rows w \<noteq> heads d * 2 * query_size d \<or>
        key_rows w \<noteq> key_value_heads d * query_size d \<or> value_rows w \<noteq> key_value_heads d * value_size d \<or>
        output_blocks w * 32 \<noteq> heads d * value_size d \<or> norm_bytes_invalid d query_norm_bytes key_norm_bytes then (CUDA_INVALID, m)
      else if \<not> new_ok then (CUDA_RUNTIME_ERROR, m)
      else fill_or_free attention_order (attention_create_steps d) m)"

definition attention_create_state ::
    "bool \<Rightarrow> bool \<Rightarrow> bool \<Rightarrow> bool \<Rightarrow> attention_shape \<Rightarrow> nat \<Rightarrow> nat \<Rightarrow>
     (attention_slot, 'z) machine_scheme \<Rightarrow> int \<times> (attention_slot, 'z) machine_scheme" where
  "attention_create_state given new_ok rope_base_positive epsilon_positive d query_norm_bytes key_norm_bytes m =
     (if \<not> given \<or> attention_shape_invalid rope_base_positive epsilon_positive d \<or>
        norm_bytes_invalid d query_norm_bytes key_norm_bytes then (CUDA_INVALID, m)
      else if \<not> new_ok then (CUDA_RUNTIME_ERROR, m)
      else fill_or_free attention_order (attention_caches d @ [Fill, Fill]) m)"

definition attention_destroy :: "(attention_slot, 'z) machine_scheme \<Rightarrow> int \<times> (attention_slot, 'z) machine_scheme" where
  "attention_destroy m = (CUDA_OK, free_attention_device_buffers m)"

subsection \<open>Whole or not at all\<close>

definition nothing_yet :: "'s list \<Rightarrow> ('s, 'z) machine_scheme \<Rightarrow> bool" where
  "nothing_yet order m \<longleftrightarrow> sound (\<lambda>_. DeviceMemory) order m \<and> slots m = (\<lambda>_. None) \<and> releases_succeed m"

text \<open>What is left when every allocated buffer has its size and nothing else was made or lost.\<close>

definition whole :: "'s creation list \<Rightarrow> 's list \<Rightarrow> ('s, 'z) machine_scheme \<Rightarrow> ('s, 'z) machine_scheme \<Rightarrow> bool" where
  "whole steps order m m' \<longleftrightarrow>
     (\<forall>c\<in>set steps. case c of Fill \<Rightarrow> True | Allocate s n \<Rightarrow> (case slots m' s of None \<Rightarrow> False | Some p \<Rightarrow> live m' p = Some (DeviceMemory, n))) \<and>
     (\<forall>s\<in>set order. s \<notin> set (allocated steps) \<longrightarrow> slots m' s = None) \<and>
     live (drop_slots (\<lambda>_. DeviceMemory) order m') = live m \<and> faults (drop_slots (\<lambda>_. DeviceMemory) order m') = 0"

lemma fill_or_free_result:
  assumes "nothing_yet order m" and "distinct (allocated steps)" and "set (allocated steps) \<subseteq> set order"
    and "fill_or_free order steps m = (status, m')"
  shows "if status = CUDA_OK then whole steps order m m' else live m' = live m \<and> slots m' = (\<lambda>_. None) \<and> faults m' = 0"
proof -
  let ?k = "\<lambda>_ :: 'a. DeviceMemory"
  obtain ok m1 where 1: "chain (map (perform ?k) steps) m = (ok, m1)" by (cases "chain (map (perform ?k) steps) m") auto
  have m: "sound ?k order m" "slots m = (\<lambda>_. None)" "releases_succeed m" using assms(1) by (simp_all add: nothing_yet_def)
  have k1: "keeps ?k order m m1" using keeps_creations [OF assms(2,3), of m ?k] 1 m by simp
  then have k: "keeps ?k order m (drop_slots ?k order m1)" using keeps_drop_slots by (rule keeps_trans)
  have "sound ?k order m1" using k1 m by (simp add: keeps_def)
  then have empty: "slots (drop_slots ?k order m1) = (\<lambda>_. None)" by (rule drop_slots_empty) simp
  have after: "live (drop_slots ?k order m1) = live m \<and> faults (drop_slots ?k order m1) = 0"
  proof -
    have "strays (drop_slots ?k order m1) = strays m" "sound ?k order (drop_slots ?k order m1)" using k m by (simp_all add: keeps_def)
    then show ?thesis using strays_all [OF empty] strays_all [OF m(2)] sound_faults by metis
  qed
  show ?thesis
  proof (cases ok)
    case False
    then have "status \<noteq> CUDA_OK" "m' = drop_slots ?k order m1" using assms(4) 1 by (auto simp: fill_or_free_def)
    then show ?thesis using after empty by simp
  next
    case True
    then have s: "status = CUDA_OK" "m' = m1" using assms(4) 1 by (auto simp: fill_or_free_def)
    have "chain (map (perform ?k) steps) m = (True, m1)" using 1 True by simp
    moreover have "live m p \<noteq> None \<Longrightarrow> p < fresh m" for p using sound_older [OF m(1)] .
    ultimately have made: "Allocate s n \<in> set steps \<Longrightarrow> \<exists>p. slots m1 s = Some p \<and> live m1 p = Some (DeviceMemory, n)"
      "s \<notin> set (allocated steps) \<Longrightarrow> slots m1 s = slots m s" for s n
      using creations_made(1,2) [of ?k steps m m1] assms(2) by blast+
    have "case c of Fill \<Rightarrow> True | Allocate s n \<Rightarrow> (case slots m' s of None \<Rightarrow> False | Some p \<Rightarrow> live m' p = Some (DeviceMemory, n))"
      if "c \<in> set steps" for c
      using made(1) that s by (cases c) fastforce+
    moreover have "slots m' s = None" if "s \<notin> set (allocated steps)" for s using made(2) [OF that] s m by simp
    ultimately show ?thesis using s after unfolding whole_def by simp
  qed
qed

lemma recurrent_steps_distinct:
  "distinct (allocated (recurrent_create_steps d))" "set (allocated (recurrent_create_steps d)) \<subseteq> set recurrent_order"
  "distinct (allocated (recurrent_state_steps d))" "set (allocated (recurrent_state_steps d)) \<subseteq> set recurrent_order"
  by (simp_all add: recurrent_create_steps_def recurrent_state_steps_def recurrent_parameters_def recurrent_states_def
      allocate_and_copy_def recurrent_order_def)

lemma attention_steps_distinct:
  "distinct (allocated (attention_create_steps d))" "set (allocated (attention_create_steps d)) \<subseteq> set attention_order"
  "distinct (allocated (attention_caches d @ [Fill, Fill]))" "set (allocated (attention_caches d @ [Fill, Fill])) \<subseteq> set attention_order"
  by (simp_all add: attention_create_steps_def attention_caches_def allocate_and_copy_def attention_order_def)

text \<open>What every creating function does: reject, run out of memory, or fill.\<close>

lemma creator_result:
  assumes "nothing_yet order m" and "distinct (allocated steps)" and "set (allocated steps) \<subseteq> set order"
    and "result = (CUDA_INVALID, m) \<or> result = (CUDA_RUNTIME_ERROR, m) \<or> result = fill_or_free order steps m"
  shows "if fst result = CUDA_OK then whole steps order m (snd result)
    else live (snd result) = live m \<and> slots (snd result) = (\<lambda>_. None) \<and> faults (snd result) = 0"
proof -
  have m: "slots m = (\<lambda>_. None)" "faults m = 0" using assms(1) sound_faults by (auto simp: nothing_yet_def)
  from assms(4) consider "result = (CUDA_INVALID, m)" | "result = (CUDA_RUNTIME_ERROR, m)" | "result = fill_or_free order steps m" by blast
  then show ?thesis
  proof cases
    case 3
    then show ?thesis using fill_or_free_result [OF assms(1-3), of "fst result" "snd result"] by simp
  qed (use m in simp_all)
qed

text \<open>
  A recurrent layer is created whole or not at all, whatever the runtime answers: on success every
  buffer of the layer has its size, and destroying the layer leaves the device memory as it was; on
  failure nothing is left behind. A layer created for its state only has no buffers for the products.
\<close>

theorem recurrent_layer_whole_or_nothing:
  assumes "nothing_yet recurrent_order m" and "recurrent_create given new_ok same d i m = (status, m1)"
    and "recurrent_create_state given new_ok positive d i m = (status', m2)"
  shows "(if status = CUDA_OK then whole (recurrent_create_steps d) recurrent_order m m1 \<and> live (snd (recurrent_destroy m1)) = live m
      else live m1 = live m \<and> slots m1 = (\<lambda>_. None)) \<and>
    (if status' = CUDA_OK then whole (recurrent_state_steps d) recurrent_order m m2 \<and> slots m2 QkvOutput = None \<and>
        live (snd (recurrent_destroy m2)) = live m
      else live m2 = live m \<and> slots m2 = (\<lambda>_. None))"
proof -
  have "if status = CUDA_OK then whole (recurrent_create_steps d) recurrent_order m m1
      else live m1 = live m \<and> slots m1 = (\<lambda>_. None) \<and> faults m1 = 0"
    using creator_result [OF assms(1) recurrent_steps_distinct(1,2) [of d], of "(status, m1)"] assms(2)
    by (simp add: recurrent_create_def split: if_splits)
  moreover have "if status' = CUDA_OK then whole (recurrent_state_steps d) recurrent_order m m2
      else live m2 = live m \<and> slots m2 = (\<lambda>_. None) \<and> faults m2 = 0"
    using creator_result [OF assms(1) recurrent_steps_distinct(3,4) [of d], of "(status', m2)"] assms(3)
    by (simp add: recurrent_create_state_def split: if_splits)
  moreover have "QkvOutput \<in> set recurrent_order" "QkvOutput \<notin> set (allocated (recurrent_state_steps d))"
    by (simp_all add: recurrent_order_def recurrent_state_steps_def recurrent_parameters_def recurrent_states_def allocate_and_copy_def)
  ultimately show ?thesis
    by (auto simp: whole_def recurrent_destroy_def free_recurrent_device_buffers_def split: if_splits)
qed

definition plain_machine :: "'s machine" where
  "plain_machine = \<lparr>live = (\<lambda>_. None), fresh = 0, faults = 0, answers = [], release_answers = [], slots = (\<lambda>_. None), capacity = (\<lambda>_. 0)\<rparr>"

lemma plain_machine_nothing: "nothing_yet order plain_machine"
  by (simp add: nothing_yet_def sound_def releases_succeed_def plain_machine_def)

theorem recurrent_layer_whole_or_nothing_witness:
  "let m = plain_machine\<lparr>answers := [True, True, True, False]\<rparr>;
       d = \<lparr>conv_size = 4, conv_kernel = 2, state_size = 1, key_heads = 1, value_heads = 2, head_size = 2, inner_size = 4\<rparr>;
       i = \<lparr>conv_weight_bytes = 32, ssm_a_bytes = 8, ssm_dt_bytes = 8, ssm_norm_bytes = 8\<rparr>
   in fst (recurrent_create True True True d i m) = CUDA_RUNTIME_ERROR \<and> live (snd (recurrent_create True True True d i m)) = (\<lambda>_. None)"
proof -
  let ?m = "plain_machine\<lparr>answers := [True, True, True, False]\<rparr> :: recurrent_slot machine"
  let ?d = "\<lparr>conv_size = 4, conv_kernel = 2, state_size = 1, key_heads = 1, value_heads = 2, head_size = 2, inner_size = 4\<rparr>"
  let ?i = "\<lparr>conv_weight_bytes = 32, ssm_a_bytes = 8, ssm_dt_bytes = 8, ssm_norm_bytes = 8\<rparr>"
  obtain status m1 where 1: "recurrent_create True True True ?d ?i ?m = (status, m1)" by (cases "recurrent_create True True True ?d ?i ?m") auto
  obtain status' m2 where 2: "recurrent_create_state True True True ?d ?i ?m = (status', m2)" by (cases "recurrent_create_state True True True ?d ?i ?m") auto
  have m: "nothing_yet recurrent_order ?m" by (simp add: nothing_yet_def sound_def releases_succeed_def plain_machine_def)
  have "status = CUDA_RUNTIME_ERROR"
    using 1 by (auto simp: recurrent_create_def recurrent_shape_invalid_def recurrent_bytes_invalid_def conv_weight_size_def
      fill_or_free_def recurrent_create_steps_def recurrent_parameters_def allocate_and_copy_def create_in_def asked_def plain_machine_def)
  moreover have "live ?m = (\<lambda>_. None)" by (simp add: plain_machine_def)
  ultimately show ?thesis using recurrent_layer_whole_or_nothing [OF m 1 2] 1 by (simp add: Let_def)
qed

text \<open>
  An attention layer is created whole or not at all, with the caches of its types: of every cache
  exactly the one of the configured type is made, with room for all positions of all heads.
\<close>

theorem attention_layer_whole_or_nothing:
  assumes "nothing_yet attention_order m" and "attention_create given new_ok rope eps d w qn kn m = (status, m1)"
    and "attention_create_state given new_ok rope eps d qn kn m = (status', m2)"
  shows "(if status = CUDA_OK then whole (attention_create_steps d) attention_order m m1 \<and> live (snd (attention_destroy m1)) = live m
      else live m1 = live m \<and> slots m1 = (\<lambda>_. None)) \<and>
    (if status' = CUDA_OK then whole (attention_caches d @ [Fill, Fill]) attention_order m m2 \<and>
        (slots m2 KeyCache = None) = (cache_key_type d \<noteq> 0) \<and> (slots m2 KeyCacheQ8 = None) = (cache_key_type d = 0) \<and>
        live (snd (attention_destroy m2)) = live m
      else live m2 = live m \<and> slots m2 = (\<lambda>_. None))"
proof -
  have "if status = CUDA_OK then whole (attention_create_steps d) attention_order m m1
      else live m1 = live m \<and> slots m1 = (\<lambda>_. None) \<and> faults m1 = 0"
    using creator_result [OF assms(1) attention_steps_distinct(1,2) [of d], of "(status, m1)"] assms(2)
    by (simp add: attention_create_def split: if_splits)
  moreover have "if status' = CUDA_OK then whole (attention_caches d @ [Fill, Fill]) attention_order m m2
      else live m2 = live m \<and> slots m2 = (\<lambda>_. None) \<and> faults m2 = 0"
    using creator_result [OF assms(1) attention_steps_distinct(3,4) [of d], of "(status', m2)"] assms(3)
    by (simp add: attention_create_state_def split: if_splits)
  moreover have "(slots m2 KeyCache = None) = (cache_key_type d \<noteq> 0) \<and> (slots m2 KeyCacheQ8 = None) = (cache_key_type d = 0)"
    if "whole (attention_caches d @ [Fill, Fill]) attention_order m m2"
    using that by (cases "cache_key_type d = 0")
      (auto simp: whole_def attention_caches_def allocate_and_copy_def attention_order_def split: option.splits)
  ultimately show ?thesis
    by (auto simp: whole_def attention_destroy_def free_attention_device_buffers_def split: if_splits)
qed

theorem attention_layer_whole_or_nothing_witness:
  "let d = \<lparr>heads = 2, key_value_heads = 1, query_size = 32, value_size = 32, max_context = 8, rope_dimension = 0,
         cache_key_type = 1, cache_value_type = 0\<rparr>;
       (status, m) = attention_create_state True True True True d 128 128 plain_machine
   in status = CUDA_OK \<and> slots m KeyCache = None \<and> live (snd (attention_destroy m)) = (\<lambda>_. None)"
proof -
  let ?m = "plain_machine :: attention_slot machine"
  let ?d = "\<lparr>heads = 2, key_value_heads = 1, query_size = 32, value_size = 32, max_context = 8, rope_dimension = 0,
         cache_key_type = 1, cache_value_type = 0\<rparr>"
  let ?w = "\<lparr>all_same_context = False, query_rows = 0, key_rows = 0, value_rows = 0, output_blocks = 0\<rparr>"
  obtain status m1 where 1: "attention_create True True True True ?d ?w 128 128 ?m = (status, m1)"
    by (cases "attention_create True True True True ?d ?w 128 128 ?m") auto
  obtain status' m2 where 2: "attention_create_state True True True True ?d 128 128 ?m = (status', m2)"
    by (cases "attention_create_state True True True True ?d 128 128 ?m") auto
  have "status' = CUDA_OK"
    using 2 by (auto simp: attention_create_state_def attention_shape_invalid_def norm_bytes_invalid_def
      fill_or_free_def attention_caches_def allocate_and_copy_def create_in_def asked_def plain_machine_def)
  moreover have "live ?m = (\<lambda>_. None)" by (simp add: plain_machine_def)
  ultimately show ?thesis using attention_layer_whole_or_nothing [OF plain_machine_nothing 1 2] 2 by (simp add: Let_def)
qed

end
