(* ===== verification/CudaThreads.thy ===== *)
theory CudaThreads
  imports VectorLanes "HOL-Library.Multiset"
begin

unbundle bit_operations_syntax

section \<open>Threads of a CUDA kernel\<close>

text \<open>
  What the kernels of \<open>src/backend/cuda/fortai_cuda_backend.cu\<close> share: the loops by which a thread
  visits every \<open>step\<close>-th element, the exchanges between the lanes of a warp, reductions over lanes and
  over shared memory, and launches. A register of a warp or of a block is a function from the lane or
  the thread to its value: between two barriers all threads do the same, so a step maps registers to
  registers. The threads of a launch run in an order given as a list, a permutation of the grid.
\<close>

subsection \<open>Strided loops\<close>

function strided :: "nat \<Rightarrow> nat \<Rightarrow> nat \<Rightarrow> nat list" where
  "strided i step n = (if i < n \<and> 0 < step then i # strided (i + step) step n else [])"
  by pat_completeness auto
termination by (relation "measure (\<lambda>(i, step, n). n - i)") auto

declare strided.simps [simp del]

lemma strided_next: "i < n \<Longrightarrow> 0 < step \<Longrightarrow> strided i step n = i # strided (i + step) step n"
  by (subst strided.simps) simp

lemma strided_end: "n \<le> i \<Longrightarrow> strided i step n = []"
  by (subst strided.simps) simp

lemma set_strided: "0 < step \<Longrightarrow> set (strided i step n) = {j. i \<le> j \<and> j < n \<and> j mod step = i mod step}"
proof (induction i step n rule: strided.induct)
  case (1 i step n)
  show ?case
  proof (cases "i < n")
    case True
    have next_one: "i + step \<le> j" if "i \<le> j" "j mod step = i mod step" "j \<noteq> i" for j
    proof -
      have "step dvd j - i" using that(1,2) by (metis mod_eq_dvd_iff_nat)
      moreover have "j - i \<noteq> 0" using that by simp
      ultimately have "step \<le> j - i" by (auto dest: dvd_imp_le)
      then show ?thesis using that(1) by simp
    qed
    have "set (strided (i + step) step n) = {j. i + step \<le> j \<and> j < n \<and> j mod step = (i + step) mod step}"
      by (rule 1(1)) (use True 1(2) in simp_all)
    then show ?thesis using True 1(2) next_one by (auto simp: strided_next)
  qed (auto simp: strided_end)
qed

lemma distinct_strided: "distinct (strided i step n)"
proof (induction i step n rule: strided.induct)
  case (1 i step n)
  show ?case
  proof (cases "i < n \<and> 0 < step")
    case True
    then show ?thesis using 1 set_strided [of step "i + step" n] by (auto simp: strided_next)
  next
    case False
    then show ?thesis by (simp add: strided.simps)
  qed
qed

text \<open>All threads together visit every element once.\<close>

lemma sum_strided:
  fixes f :: "nat \<Rightarrow> 'f::comm_monoid_add"
  assumes "0 < step"
  shows "(\<Sum>t < step. (\<Sum>i\<leftarrow>strided t step n. f i)) = (\<Sum>i<n. f i)"
proof -
  have "(\<Sum>i\<leftarrow>strided t step n. f i) = (\<Sum>i\<in>{i. i < n \<and> i mod step = t}. f i)" if "t < step" for t
  proof -
    have "set (strided t step n) = {i. i < n \<and> i mod step = t}"
      using set_strided [OF assms, of t n] that mod_less_eq_dividend [of _ step] by fastforce
    then show ?thesis by (simp add: sum_list_distinct_conv_sum_set [OF distinct_strided])
  qed
  then have "(\<Sum>t < step. (\<Sum>i\<leftarrow>strided t step n. f i)) = (\<Sum>t < step. \<Sum>i\<in>{i. i < n \<and> i mod step = t}. f i)"
    by (intro sum.cong) auto
  also have "\<dots> = (\<Sum>i\<in>(\<Union>t < step. {i. i < n \<and> i mod step = t}). f i)"
    by (rule sum.UNION_disjoint [symmetric]) auto
  also have "(\<Union>t < step. {i. i < n \<and> i mod step = t}) = {..<n}" using assms by auto
  finally show ?thesis .
qed

subsection \<open>Exchanges and reductions\<close>

text \<open>The offsets of \<open>for (offset = o; offset > 0; offset >>= 1)\<close>.\<close>

fun halving :: "nat \<Rightarrow> nat list" where
  "halving offset = (if offset = 0 then [] else offset # halving (offset div 2))"

declare halving.simps [simp del]

definition shfl_down :: "nat \<Rightarrow> nat \<Rightarrow> (nat \<Rightarrow> 'f) \<Rightarrow> nat \<Rightarrow> 'f" where
  "shfl_down width offset v lane = (if lane mod width + offset < width then v (lane + offset) else v lane)"

definition shfl_xor :: "nat \<Rightarrow> (nat \<Rightarrow> 'f) \<Rightarrow> nat \<Rightarrow> 'f" where
  "shfl_xor offset v lane = v (lane XOR offset)"

definition down_step :: "('f \<Rightarrow> 'f \<Rightarrow> 'f) \<Rightarrow> nat \<Rightarrow> nat \<Rightarrow> (nat \<Rightarrow> 'f) \<Rightarrow> nat \<Rightarrow> 'f" where
  "down_step f width offset v lane = f (v lane) (shfl_down width offset v lane)"

definition xor_step :: "('f \<Rightarrow> 'f \<Rightarrow> 'f) \<Rightarrow> nat \<Rightarrow> (nat \<Rightarrow> 'f) \<Rightarrow> nat \<Rightarrow> 'f" where
  "xor_step f offset v lane = f (v lane) (shfl_xor offset v lane)"

text \<open>A step of the tree over shared memory: the lower half takes in the upper half.\<close>

definition shared_step :: "('f \<Rightarrow> 'f \<Rightarrow> 'f) \<Rightarrow> nat \<Rightarrow> (nat \<Rightarrow> 'f) \<Rightarrow> nat \<Rightarrow> 'f" where
  "shared_step f stride s lane = (if lane < stride then f (s lane) (s (lane + stride)) else s lane)"

definition warp_down :: "('f \<Rightarrow> 'f \<Rightarrow> 'f) \<Rightarrow> nat \<Rightarrow> nat \<Rightarrow> (nat \<Rightarrow> 'f) \<Rightarrow> nat \<Rightarrow> 'f" where
  "warp_down f width offset v = fold (down_step f width) (halving offset) v"

definition warp_xor :: "('f \<Rightarrow> 'f \<Rightarrow> 'f) \<Rightarrow> nat \<Rightarrow> (nat \<Rightarrow> 'f) \<Rightarrow> nat \<Rightarrow> 'f" where
  "warp_xor f offset v = fold (xor_step f) (halving offset) v"

definition block_tree :: "('f \<Rightarrow> 'f \<Rightarrow> 'f) \<Rightarrow> nat \<Rightarrow> (nat \<Rightarrow> 'f) \<Rightarrow> nat \<Rightarrow> 'f" where
  "block_tree f stride s = fold (shared_step f) (halving stride) s"

text \<open>What lane 0 ends up with: a balanced tree over the first \<open>2 ^ k\<close> lanes.\<close>

fun tree :: "('f \<Rightarrow> 'f \<Rightarrow> 'f) \<Rightarrow> (nat \<Rightarrow> 'f) \<Rightarrow> nat \<Rightarrow> 'f" where
  "tree f v 0 = v 0"
| "tree f v (Suc k) = tree f (\<lambda>l. f (v l) (v (l + 2 ^ k))) k"

lemma tree_cong: "(\<And>l. l < 2 ^ k \<Longrightarrow> v l = w l) \<Longrightarrow> tree f v k = tree f w k"
proof (induction k arbitrary: v w)
  case (Suc k)
  have "v l = w l" "v (l + 2 ^ k) = w (l + 2 ^ k)" if "l < 2 ^ k" for l
    using that by (simp_all add: Suc.prems)
  then show ?case by (simp add: Suc.IH [of "\<lambda>l. f (v l) (v (l + 2 ^ k))" "\<lambda>l. f (w l) (w (l + 2 ^ k))"])
qed simp

lemma halving_power: "halving (2 ^ Suc k) = 2 ^ Suc k # halving (2 ^ k)"
  by (simp add: halving.simps [of "2 * 2 ^ k"])

lemma halving_one: "halving 1 = [1]"
  by (simp add: halving.simps)

lemma reduce_lane0:
  assumes "\<And>j l v. j \<le> k \<Longrightarrow> l < 2 ^ j \<Longrightarrow> step (2 ^ j) v l = f (v l) (v (l + 2 ^ j))"
  shows "fold step (halving (2 ^ k)) v 0 = tree f v (Suc k)"
  using assms
proof (induction k arbitrary: v)
  case 0
  then have "step 1 v 0 = f (v 0) (v 1)" using 0 [of 0 0 v] by simp
  then show ?case by (simp add: halving_one [simplified] )
next
  case (Suc k)
  have "fold step (halving (2 ^ Suc k)) v 0 = fold step (halving (2 ^ k)) (step (2 ^ Suc k) v) 0"
    by (simp only: halving_power fold_simps)
  also have "\<dots> = tree f (step (2 ^ Suc k) v) (Suc k)" by (rule Suc.IH) (use Suc.prems in simp)
  also have "\<dots> = tree f (\<lambda>l. f (v l) (v (l + 2 ^ Suc k))) (Suc k)" by (rule tree_cong) (rule Suc.prems, simp_all)
  finally show ?case by (simp only: tree.simps)
qed

lemma tree_sum:
  fixes v :: "nat \<Rightarrow> 'f::comm_monoid_add"
  shows "tree (+) v k = (\<Sum>l<2 ^ k. v l)"
proof (induction k arbitrary: v)
  case (Suc k)
  have "(\<Sum>l<2 ^ Suc k. v l) = (\<Sum>l<2 ^ k. v l) + (\<Sum>l\<in>{2 ^ k..<2 ^ k + 2 ^ k}. v l)"
  proof -
    have "{..<2 ^ Suc k} = {..<2 ^ k} \<union> {2 ^ k..<2 ^ k + 2 ^ k :: nat}" by auto
    moreover have "{..<2 ^ k} \<inter> {2 ^ k..<2 ^ k + 2 ^ k :: nat} = {}" by auto
    ultimately show ?thesis by (simp only: sum.union_disjoint finite_lessThan finite_atLeastLessThan)
  qed
  also have "(\<Sum>l\<in>{2 ^ k..<2 ^ k + 2 ^ k}. v l) = (\<Sum>l<2 ^ k. v (l + 2 ^ k))"
    using sum.shift_bounds_nat_ivl [of v 0 "2 ^ k" "2 ^ k"] by (simp add: lessThan_atLeast0)
  finally show ?case using Suc [of "\<lambda>l. v l + v (l + 2 ^ k)"] by (simp add: sum.distrib)
qed simp

lemma low_lanes: "{..<2 ^ k :: nat} \<noteq> {}"
  using lessThan_empty_iff [of "2 ^ k :: nat"] by simp

lemma tree_max:
  fixes v :: "nat \<Rightarrow> 'f::linorder"
  shows "tree max v k = Max (v ` {..<2 ^ k})"
proof (induction k arbitrary: v)
  case (Suc k)
  let ?low = "v ` {..<2 ^ k}" and ?high = "(\<lambda>l. v (l + 2 ^ k)) ` {..<2 ^ k :: nat}"
  have "{..<2 ^ Suc k} = {..<2 ^ k} \<union> (\<lambda>l. l + 2 ^ k) ` {..<2 ^ k :: nat}"
  proof (rule set_eqI)
    fix j :: nat
    show "j \<in> {..<2 ^ Suc k} \<longleftrightarrow> j \<in> {..<2 ^ k} \<union> (\<lambda>l. l + 2 ^ k) ` {..<2 ^ k}"
    proof (cases "j < 2 ^ k")
      case False
      then have "j = (j - 2 ^ k) + 2 ^ k" by simp
      then show ?thesis using False by (auto simp: image_iff intro!: bexI [of _ "j - 2 ^ k"])
    qed simp
  qed
  then have image: "v ` {..<2 ^ Suc k} = ?low \<union> ?high" by (simp only: image_Un image_image)
  have "Max ((\<lambda>l. max (v l) (v (l + 2 ^ k))) ` {..<2 ^ k}) = max (Max ?low) (Max ?high)"
  proof (rule Max_eqI)
    show "max (Max ?low) (Max ?high) \<in> (\<lambda>l. max (v l) (v (l + 2 ^ k))) ` {..<2 ^ k}"
    proof -
      have "Max ?low \<in> ?low" by (rule Max_in) (use low_lanes [of k] in auto)
      moreover have "Max ?high \<in> ?high" by (rule Max_in) (use low_lanes [of k] in auto)
      ultimately
      obtain a b where a: "a < 2 ^ k" "Max ?low = v a" and b: "b < 2 ^ k" "Max ?high = v (b + 2 ^ k)" by auto
      have "v b \<le> v a" "v (a + 2 ^ k) \<le> v (b + 2 ^ k)"
        using a b Max_ge [of ?low "v b"] Max_ge [of ?high "v (a + 2 ^ k)"] by auto
      then have "max (Max ?low) (Max ?high) = max (v a) (v (a + 2 ^ k)) \<or> max (Max ?low) (Max ?high) = max (v b) (v (b + 2 ^ k))"
        by (auto simp: a(2) b(2) max_def)
      then show ?thesis using a(1) b(1) by auto
    qed
  next
    fix y assume "y \<in> (\<lambda>l. max (v l) (v (l + 2 ^ k))) ` {..<2 ^ k}"
    then obtain l where l: "l < 2 ^ k" "y = max (v l) (v (l + 2 ^ k))" by auto
    have "v l \<le> Max ?low" "v (l + 2 ^ k) \<le> Max ?high" using l(1) by (auto intro!: Max_ge)
    then show "y \<le> max (Max ?low) (Max ?high)" unfolding l(2) by (rule max.mono)
  qed simp
  also have "\<dots> = Max (v ` {..<2 ^ Suc k})" unfolding image by (rule Max.union [symmetric]) (use low_lanes [of k] in auto)
  finally show ?case using Suc [of "\<lambda>l. max (v l) (v (l + 2 ^ k))"] by simp
qed (simp add: lessThan_Suc)

lemma warp_down_lane0: "2 ^ Suc k \<le> width \<Longrightarrow> warp_down f width (2 ^ k) v 0 = tree f v (Suc k)"
proof -
  assume width: "2 ^ Suc k \<le> width"
  have "down_step f width (2 ^ j) v l = f (v l) (v (l + 2 ^ j))" if "j \<le> k" "l < 2 ^ j" for j l v
  proof -
    have "(2::nat) ^ j \<le> 2 ^ k" using that(1) by simp
    then have "l + 2 ^ j < width" using that(2) width unfolding power_Suc by linarith
    then show ?thesis by (simp add: down_step_def shfl_down_def)
  qed
  then show ?thesis unfolding warp_down_def by (rule reduce_lane0)
qed

lemma block_tree_lane0: "block_tree f (2 ^ k) s 0 = tree f s (Suc k)"
  unfolding block_tree_def by (rule reduce_lane0) (simp add: shared_step_def)

lemma xor_power: "l < 2 ^ j \<Longrightarrow> l XOR 2 ^ j = l + 2 ^ j" for l :: nat
proof -
  assume l: "l < 2 ^ j"
  then have "\<not> bit l j" by (simp add: bit_iff_odd)
  then have "l AND 2 ^ j = 0" by (auto intro!: bit_eqI simp: bit_simps)
  then show ?thesis by (simp add: disjunctive_add_eq_xor)
qed

lemma warp_xor_lane0: "warp_xor f (2 ^ k) v 0 = tree f v (Suc k)"
  unfolding warp_xor_def by (rule reduce_lane0) (simp add: xor_step_def shfl_xor_def xor_power)

text \<open>An exchange by XOR leaves every lane with the tree over the lanes seen from it.\<close>

lemma warp_xor_lane: "warp_xor f (2 ^ k) v l = tree f (\<lambda>m. v (l XOR m)) (Suc k)"
proof -
  have shift: "fold (xor_step f) offs v (l XOR m) = fold (xor_step f) offs (\<lambda>m. v (l XOR m)) m" for offs v m
  proof (induction offs arbitrary: v)
    case (Cons off offs)
    have "(\<lambda>m. xor_step f off v (l XOR m)) = xor_step f off (\<lambda>m. v (l XOR m))"
      by (rule ext) (simp add: xor_step_def shfl_xor_def ac_simps)
    then show ?case using Cons [of "xor_step f off v"] by simp
  qed simp
  have "warp_xor f (2 ^ k) v (l XOR 0) = warp_xor f (2 ^ k) (\<lambda>m. v (l XOR m)) 0"
    unfolding warp_xor_def by (rule shift)
  then show ?thesis by (simp add: warp_xor_lane0)
qed

lemma xor_lanes: "l < 2 ^ k \<Longrightarrow> (\<lambda>m. l XOR m) ` {..<2 ^ k} = {..<2 ^ k :: nat}"
proof -
  assume l: "l < 2 ^ k"
  have closed: "l XOR m < 2 ^ k" if "m < 2 ^ k" for m
    using l that by (metis take_bit_nat_eq_self_iff take_bit_xor)
  show ?thesis
  proof
    show "(\<lambda>m. l XOR m) ` {..<2 ^ k} \<subseteq> {..<2 ^ k}" using closed by auto
    show "{..<2 ^ k} \<subseteq> (\<lambda>m. l XOR m) ` {..<2 ^ k}"
    proof
      fix m :: nat assume "m \<in> {..<2 ^ k}"
      moreover have "m = l XOR (l XOR m)" by (simp add: xor.assoc [symmetric])
      ultimately show "m \<in> (\<lambda>m. l XOR m) ` {..<2 ^ k}" using closed by auto
    qed
  qed
qed

lemma warp_xor_max:
  fixes v :: "nat \<Rightarrow> 'f::linorder"
  assumes "l < 32"
  shows "warp_xor max 16 v l = Max (v ` {..<32})"
proof -
  have "warp_xor max (2 ^ 4) v l = Max ((\<lambda>m. v (l XOR m)) ` {..<2 ^ Suc 4})"
    by (simp only: warp_xor_lane tree_max)
  also have "(\<lambda>m. v (l XOR m)) ` {..<2 ^ Suc 4} = v ` {..<2 ^ Suc 4}"
    using xor_lanes [of l "Suc 4"] assms by (simp add: image_image [symmetric, of v "\<lambda>m. l XOR m"])
  finally show ?thesis by simp
qed

text \<open>The reductions the kernels use.\<close>

lemma warp_sums [simp]:
  fixes v :: "nat \<Rightarrow> 'f::comm_monoid_add"
  shows "warp_down (+) 32 16 v 0 = (\<Sum>l<32. v l)" and "warp_xor (+) 16 v 0 = (\<Sum>l<32. v l)"
  using warp_down_lane0 [of 4 32 "(+)" v] warp_xor_lane0 [of "(+)" 4 v] tree_sum [of v 5]
  by (simp_all add: numeral_eq_Suc)

subsection \<open>Launches\<close>

text \<open>
  A launch of \<open>blocks\<close> blocks of \<open>dim\<close> threads along one axis. The body of a kernel maps the memory it
  writes; \<open>in_order\<close> says that a list of threads is an order of the grid.
\<close>

definition grid :: "nat \<Rightarrow> nat \<Rightarrow> (nat \<times> nat) list" where
  "grid blocks dim = List.product [0..<blocks] [0..<dim]"

definition in_order :: "nat \<Rightarrow> nat \<Rightarrow> (nat \<times> nat) list \<Rightarrow> bool" where
  "in_order blocks dim ts \<longleftrightarrow> mset ts = mset (grid blocks dim)"

definition launch :: "('t \<Rightarrow> 'm \<Rightarrow> 'm) \<Rightarrow> 't list \<Rightarrow> 'm \<Rightarrow> 'm" where
  "launch body ts mem = fold body ts mem"

fun global_index :: "nat \<Rightarrow> nat \<times> nat \<Rightarrow> nat" where
  "global_index dim (block, thread) = block * dim + thread"

lemma in_order_grid [simp]: "in_order blocks dim (grid blocks dim)"
  by (simp add: in_order_def)

lemma in_order_set: "in_order blocks dim ts \<Longrightarrow> set ts = {..<blocks} \<times> {..<dim}"
proof -
  assume "in_order blocks dim ts"
  then have "set ts = set (grid blocks dim)" unfolding in_order_def by (rule mset_eq_setD)
  then show ?thesis by (auto simp: grid_def)
qed

lemma in_order_distinct: "in_order blocks dim ts \<Longrightarrow> distinct ts"
proof -
  assume "in_order blocks dim ts"
  then have "distinct ts = distinct (grid blocks dim)" unfolding in_order_def by (rule mset_eq_imp_distinct_iff)
  then show ?thesis by (simp add: grid_def distinct_product)
qed

lemma inj_global_index: "inj_on (global_index dim) (A \<times> {..<dim})"
proof (rule inj_onI)
  fix x y assume "x \<in> A \<times> {..<dim}" "y \<in> A \<times> {..<dim}" and eq: "global_index dim x = global_index dim y"
  have "global_index dim z div dim = fst z \<and> global_index dim z mod dim = snd z" if "z \<in> A \<times> {..<dim}" for z
    using that by (cases z) simp
  then have "global_index dim x div dim = fst x \<and> global_index dim x mod dim = snd x"
    and "global_index dim y div dim = fst y \<and> global_index dim y mod dim = snd y"
    using \<open>x \<in> A \<times> {..<dim}\<close> \<open>y \<in> A \<times> {..<dim}\<close> by blast+
  then show "x = y" using eq by (metis prod_eq_iff)
qed

lemma global_index_range:
  assumes "in_order blocks dim ts"
  shows "global_index dim ` set ts = {..<blocks * dim}"
proof (rule set_eqI)
  fix i
  show "i \<in> global_index dim ` set ts \<longleftrightarrow> i \<in> {..<blocks * dim}"
  proof
    assume "i \<in> global_index dim ` set ts"
    then obtain b t where "b < blocks" "t < dim" "i = b * dim + t" using in_order_set [OF assms] by auto
    moreover from this have "Suc b * dim \<le> blocks * dim" by (intro mult_le_mono1) simp
    ultimately show "i \<in> {..<blocks * dim}" by simp
  next
    assume i: "i \<in> {..<blocks * dim}"
    then have "0 < dim" by (cases dim) simp_all
    moreover have "i div dim < blocks" using i by (simp add: less_mult_imp_div_less)
    ultimately have "(i div dim, i mod dim) \<in> set ts" using in_order_set [OF assms] by simp
    moreover have "global_index dim (i div dim, i mod dim) = i" by simp
    ultimately show "i \<in> global_index dim ` set ts" by (metis image_eqI)
  qed
qed

text \<open>
  Threads that each change at most one element of an array, different ones, as a function of that
  element alone: the order does not matter.
\<close>

definition at_own :: "('t \<Rightarrow> nat option) \<Rightarrow> ('t \<Rightarrow> 'a \<Rightarrow> 'a) \<Rightarrow> 't \<Rightarrow> 'a list \<Rightarrow> 'a list" where
  "at_own place change t mem = (case place t of None \<Rightarrow> mem | Some i \<Rightarrow> mem[i := change t (mem ! i)])"

lemma length_at_own [simp]: "length (fold (at_own place change) ts mem) = length mem"
  by (induction ts arbitrary: mem) (simp_all add: at_own_def split: option.splits)

lemma fold_at_own_other: "Some j \<notin> place ` set ts \<Longrightarrow> fold (at_own place change) ts mem ! j = mem ! j"
  by (induction ts arbitrary: mem) (auto simp: at_own_def split: option.splits)

lemma fold_at_own:
  assumes "distinct ts" and "\<And>s t. s \<in> set ts \<Longrightarrow> t \<in> set ts \<Longrightarrow> place s = place t \<Longrightarrow> place s \<noteq> None \<Longrightarrow> s = t"
    and "t \<in> set ts" and "place t = Some j" and "j < length mem"
  shows "fold (at_own place change) ts mem ! j = change t (mem ! j)"
  using assms
proof (induction ts arbitrary: mem)
  case (Cons s ts)
  show ?case
  proof (cases "t = s")
    case True
    have "Some j \<notin> place ` set ts"
    proof
      assume "Some j \<in> place ` set ts"
      then obtain r where "r \<in> set ts" "place r = Some j" by auto
      then show False using Cons.prems(2) [of r t] Cons.prems(1,4) True by auto
    qed
    then have "fold (at_own place change) (s # ts) mem ! j = at_own place change s mem ! j"
      by (simp add: fold_at_own_other)
    also have "\<dots> = change t (mem ! j)" using True Cons.prems(4,5) by (simp add: at_own_def)
    finally show ?thesis .
  next
    case False
    then have t: "t \<in> set ts" using Cons.prems by simp
    have "place s \<noteq> Some j" using False Cons.prems(2) [of s t] Cons.prems(3,4) by auto
    then have "at_own place change s mem ! j = mem ! j" by (auto simp: at_own_def split: option.splits)
    then show ?thesis using Cons.IH [OF _ _ t, of "at_own place change s mem"] Cons.prems
      by (simp add: at_own_def split: option.splits)
  qed
qed simp

text \<open>A grid along one axis, each thread on the element of its index.\<close>

lemma launch_elements:
  assumes "in_order blocks dim ts" and "n \<le> blocks * dim" and "n \<le> length mem"
  shows "launch (\<lambda>t mem. if global_index dim t < n then mem[global_index dim t := f (global_index dim t) (mem ! global_index dim t)]
      else mem) ts mem = map (\<lambda>i. f i (mem ! i)) [0..<n] @ drop n mem"
proof -
  let ?place = "\<lambda>t. if global_index dim t < n then Some (global_index dim t) else None"
  let ?body = "at_own ?place (\<lambda>t. f (global_index dim t))"
  have body: "(\<lambda>t mem. if global_index dim t < n then mem[global_index dim t := f (global_index dim t) (mem ! global_index dim t)]
      else mem) = ?body" by (intro ext) (simp add: at_own_def)
  have inj: "s = t" if "s \<in> set ts" "t \<in> set ts" "?place s = ?place t" "?place s \<noteq> None" for s t
    using that inj_onD [OF inj_global_index [of dim "{..<blocks}"], of s t] in_order_set [OF assms(1)]
    by (simp split: if_splits)
  have "fold ?body ts mem ! i = (if i < n then f i (mem ! i) else mem ! i)" if i: "i < length mem" for i
  proof (cases "i < n")
    case True
    then obtain t where t: "t \<in> set ts" "global_index dim t = i"
      using global_index_range [OF assms(1)] assms(2) by (metis image_iff lessThan_iff order_less_le_trans)
    have "fold ?body ts mem ! i = f (global_index dim t) (mem ! i)"
      by (rule fold_at_own [OF in_order_distinct [OF assms(1)] inj t(1)]) (use t True i in simp_all)
    then show ?thesis using t True by simp
  next
    case False
    then have "Some i \<notin> ?place ` set ts" by auto
    then have "fold ?body ts mem ! i = mem ! i" by (rule fold_at_own_other)
    then show ?thesis using False by simp
  qed
  then show ?thesis unfolding launch_def body
    using assms(3) by (intro nth_equalityI) (simp_all add: nth_append)
qed

text \<open>\<open>(n + dim - 1) / dim\<close> blocks have a thread for every element.\<close>

definition blocks_for :: "nat \<Rightarrow> nat \<Rightarrow> nat" where
  "blocks_for dim n = (n + (dim - 1)) div dim"

lemma blocks_for_enough: "0 < dim \<Longrightarrow> n \<le> blocks_for dim n * dim"
proof -
  assume d: "0 < dim"
  have "(n + (dim - 1)) div dim * dim = n + (dim - 1) - (n + (dim - 1)) mod dim" by (simp add: minus_mod_eq_div_mult)
  moreover have "(n + (dim - 1)) mod dim \<le> dim - 1" using d mod_less_divisor [of dim "n + (dim - 1)"] by linarith
  ultimately show ?thesis unfolding blocks_for_def by linarith
qed

text \<open>
  Threads that only store, whatever the memory holds: where no two of them store different values at
  one place, the order does not matter.
\<close>

definition store_all :: "(nat \<times> 'a) list \<Rightarrow> 'a list \<Rightarrow> 'a list" where
  "store_all stores mem = fold (\<lambda>(i, v) m. m[i := v]) stores mem"

lemma length_store_all [simp]: "length (store_all stores mem) = length mem"
  unfolding store_all_def by (induction stores arbitrary: mem) auto

lemma store_all_other: "j \<notin> fst ` set stores \<Longrightarrow> store_all stores mem ! j = mem ! j"
  unfolding store_all_def by (induction stores arbitrary: mem) auto

lemma store_all_at:
  assumes "(j, v) \<in> set stores" and "\<And>w. (j, w) \<in> set stores \<Longrightarrow> w = v" and "j < length mem"
  shows "store_all stores mem ! j = v"
  using assms
proof (induction stores arbitrary: mem)
  case (Cons s stores)
  have step: "store_all (s # stores) mem = store_all stores (mem[fst s := snd s])" by (simp add: store_all_def split_beta)
  show ?case
  proof (cases "(j, v) \<in> set stores")
    case True
    have "store_all stores (mem[fst s := snd s]) ! j = v"
      by (rule Cons.IH [OF True]) (use Cons.prems(2) [OF list.set_intros(2)] Cons.prems(3) in simp_all)
    then show ?thesis unfolding step .
  next
    case False
    then have s: "s = (j, v)" using Cons.prems(1) by simp
    have "j \<notin> fst ` set stores"
    proof
      assume "j \<in> fst ` set stores"
      then obtain w where w: "(j, w) \<in> set stores" by auto
      then have "w = v" by (intro Cons.prems(2)) simp
      with w False show False by simp
    qed
    then show ?thesis unfolding step using s Cons.prems(3) by (simp add: store_all_other)
  qed
qed simp

lemma launch_stores: "launch (\<lambda>t. store_all (stores t)) ts mem = store_all (concat (map stores ts)) mem"
  unfolding launch_def store_all_def by (induction ts arbitrary: mem) simp_all

lemma launch_cong: "(\<And>t. t \<in> set ts \<Longrightarrow> f t = g t) \<Longrightarrow> launch f ts mem = launch g ts mem"
  unfolding launch_def by (rule fold_cong) auto

end
