(* ===== verification/CudaMatvec.thy ===== *)
theory CudaMatvec
  imports CudaThreads CudaContext Q8Quantize LaneUpdates
begin

section \<open>Products with Q8 matrices on a CUDA device\<close>

text \<open>
  Models the matrix-vector and the plain matrix-matrix kernels of
  \<open>src/backend/cuda/fortai_cuda_backend.cu\<close>, their launches, and the repacking of activations. A weight
  block is the 34 bytes of \<open>Q8Dot\<close>; an activation block has 36, the half-precision scale in the first
  two and the signed bytes from the fifth on. \<open>half\<close>, the conversion of a scale, is an argument.
\<close>

subsection \<open>Loads and dot products of packed bytes\<close>

definition load_i32 :: "i8 list \<Rightarrow> nat \<Rightarrow> i32" where
  "load_i32 bytes address = ucast (load_u16 bytes address) OR push_bit 16 (ucast (load_u16 bytes (address + 2)))"

definition block_scale :: "(u16 \<Rightarrow> 'f) \<Rightarrow> i8 list \<Rightarrow> nat \<Rightarrow> 'f" where
  "block_scale half bytes address = half (load_u16 bytes address)"

definition byte_of :: "i32 \<Rightarrow> nat \<Rightarrow> i8" where
  "byte_of w k = ucast (drop_bit (8 * k) w)"

text \<open>The instruction \<open>dp4a\<close> on signed bytes: the sum wraps around.\<close>

definition dp4a :: "i32 \<Rightarrow> i32 \<Rightarrow> i32 \<Rightarrow> i32" where
  "dp4a a b c = fold (\<lambda>k sum. sum + scast (byte_of a k) * scast (byte_of b k)) [0..<4] c"

lemma bit_load_u16: "bit (load_u16 bytes a) n \<longleftrightarrow> (n < 8 \<and> bit (bytes ! a) n) \<or> (8 \<le> n \<and> n < 16 \<and> bit (bytes ! (a + 1)) (n - 8))"
  by (auto simp: load_u16_def bit_simps dest: bit_imp_le_length)

lemma bit_load_i32:
  "bit (load_i32 bytes a) n \<longleftrightarrow> (n < 16 \<and> bit (load_u16 bytes a) n) \<or> (16 \<le> n \<and> n < 32 \<and> bit (load_u16 bytes (a + 2)) (n - 16))"
  by (auto simp: load_i32_def bit_simps dest: bit_imp_le_length)

lemma byte_of_load:
  assumes "k < 4"
  shows "byte_of (load_i32 bytes a) k = bytes ! (a + k)"
proof (rule bit_word_eqI)
  fix n assume "n < LENGTH(8)"
  then have n: "n < 8" by simp
  have b: "bit (byte_of (load_i32 bytes a) k) n = bit (load_i32 bytes a) (8 * k + n)"
    using n by (simp add: byte_of_def bit_simps)
  consider "k = 0" | "k = 1" | "k = 2" | "k = 3" using assms by linarith
  then show "bit (byte_of (load_i32 bytes a) k) n = bit (bytes ! (a + k)) n"
    unfolding b using n by cases (auto simp: bit_load_i32 bit_load_u16 ac_simps numeral_3_eq_3)
qed

text \<open>The sum of \<open>n\<close> bytewise products, and that a chain of \<open>dp4a\<close> computes it.\<close>

definition bytes_dot :: "i8 list \<Rightarrow> nat \<Rightarrow> i8 list \<Rightarrow> nat \<Rightarrow> nat \<Rightarrow> int" where
  "bytes_dot w a v b n = (\<Sum>i<n. sint (w ! (a + i)) * sint (v ! (b + i)))"

definition words_dot :: "i8 list \<Rightarrow> nat \<Rightarrow> i8 list \<Rightarrow> nat \<Rightarrow> nat \<Rightarrow> i32" where
  "words_dot w a v b n = fold (\<lambda>i dot. dp4a (load_i32 w (a + 4 * i)) (load_i32 v (b + 4 * i)) dot) [0..<n] 0"

lemma dp4a_load:
  "dp4a (load_i32 w a) (load_i32 v b) c = c + word_of_int (bytes_dot w a v b 4)"
  by (simp add: dp4a_def byte_of_load bytes_dot_def upt_conv_Cons numeral_eq_Suc lessThan_Suc ac_simps)

lemma bytes_dot_split: "bytes_dot w a v b (m + n) = bytes_dot w a v b m + bytes_dot w (a + m) v (b + m) n"
proof (induction n)
  case (Suc n)
  then show ?case by (simp add: bytes_dot_def lessThan_Suc ac_simps)
qed (simp add: bytes_dot_def)

lemma words_dot_word: "words_dot w a v b n = word_of_int (bytes_dot w a v b (4 * n))"
proof (induction n)
  case (Suc n)
  have "words_dot w a v b (Suc n) = dp4a (load_i32 w (a + 4 * n)) (load_i32 v (b + 4 * n)) (words_dot w a v b n)"
    by (simp add: words_dot_def)
  then show ?case using Suc bytes_dot_split [of w a v b "4 * n" 4] by (simp add: dp4a_load add.commute)
qed (simp add: words_dot_def bytes_dot_def)

lemma bytes_dot_bound: "\<bar>bytes_dot w a v b n\<bar> \<le> int n * 16384"
proof (induction n)
  case (Suc n)
  then show ?case
    using product_bound [of "w ! (a + n)" "v ! (b + n)"] by (simp add: bytes_dot_def lessThan_Suc algebra_simps)
qed (simp add: bytes_dot_def)

lemma words_dot_exact: "n \<le> 8 \<Longrightarrow> sint (words_dot w a v b n) = bytes_dot w a v b (4 * n)"
  unfolding words_dot_word using bytes_dot_bound [of w a v b "4 * n"] by (intro sint_of_range32) linarith+

subsection \<open>One row by four warps\<close>

text \<open>
  \<open>q8_gemv_mmvq\<close>: four lanes share a block, the thread \<open>tid\<close> takes eight of its bytes; the lanes of the
  four warps are added up, and the sums exchanged by XOR.
\<close>

definition mmvq_partial :: "(u16 \<Rightarrow> 'f::comm_ring_1) \<Rightarrow> i8 list \<Rightarrow> i8 list \<Rightarrow> nat \<Rightarrow> nat \<Rightarrow> nat \<Rightarrow> 'f" where
  "mmvq_partial half weights activation row blocks tid =
     (let row_weights = row * blocks * 34;
          first_block = tid div 4;
          kqs = 2 * (tid mod 4)
      in fold (\<lambda>block accumulator.
            let weight_block = row_weights + block * 34;
                activation_block = block * 36;
                dot = words_dot weights (weight_block + 2 + 4 * kqs) activation (activation_block + 4 + 4 * kqs) 2
            in accumulator + block_scale half weights weight_block * block_scale half activation activation_block * of_int (sint dot))
          (strided first_block 32 blocks) 0)"

definition mmvq_row :: "(u16 \<Rightarrow> 'f::comm_ring_1) \<Rightarrow> i8 list \<Rightarrow> i8 list \<Rightarrow> nat \<Rightarrow> nat \<Rightarrow> 'f" where
  "mmvq_row half weights activation blocks row =
     (let partial = (\<lambda>warp lane. mmvq_partial half weights activation row blocks (32 * warp + lane));
          accumulator = (\<lambda>lane. partial 0 lane + partial 1 lane + partial 2 lane + partial 3 lane)
      in warp_xor (+) 16 accumulator 0)"

text \<open>A kernel whose block computes one output element, as \<open>launch_q8\<close> starts it: one block for each row.\<close>

definition row_kernel :: "(nat \<Rightarrow> 'f) \<Rightarrow> nat \<Rightarrow> nat \<times> nat \<Rightarrow> 'f list \<Rightarrow> 'f list" where
  "row_kernel value rows t output =
     (let row = global_index 1 t in if row < rows then output[row := value row] else output)"

definition q8_gemv_mmvq ::
    "(u16 \<Rightarrow> 'f::comm_ring_1) \<Rightarrow> i8 list \<Rightarrow> i8 list \<Rightarrow> nat \<Rightarrow> nat \<Rightarrow> nat \<times> nat \<Rightarrow> 'f list \<Rightarrow> 'f list" where
  "q8_gemv_mmvq half weights activation rows blocks =
     row_kernel (mmvq_row half weights activation blocks) rows"

definition launch_q8 ::
    "(u16 \<Rightarrow> 'f::comm_ring_1) \<Rightarrow> i8 list \<Rightarrow> nat \<Rightarrow> nat \<Rightarrow> i8 list \<Rightarrow> (nat \<times> nat) list \<Rightarrow> 'f list \<Rightarrow> 'f list" where
  "launch_q8 half weights rows blocks activation order output =
     launch (q8_gemv_mmvq half weights activation rows blocks) order output"

subsection \<open>Gate and up projection with SiLU\<close>

text \<open>One matrix's accumulator in the fused kernel of four warps, and the block's two-stage reduction.\<close>

definition fused_partial :: "(u16 \<Rightarrow> 'f::comm_ring_1) \<Rightarrow> i8 list \<Rightarrow> i8 list \<Rightarrow> nat \<Rightarrow> nat \<Rightarrow> nat \<Rightarrow> nat \<Rightarrow> 'f" where
  "fused_partial half weights activation row blocks warp lane =
     (let block_in_warp = lane div 4; sublane = lane mod 4; word = sublane * 2
      in fold (\<lambda>block accumulator.
            let weight_block = row * blocks * 34 + block * 34;
                activation_block = block * 36;
                dot = dp4a (load_i32 weights (weight_block + 2 + word * 4)) (load_i32 activation (activation_block + 4 + word * 4)) 0;
                dot = dp4a (load_i32 weights (weight_block + 2 + (word + 1) * 4))
                  (load_i32 activation (activation_block + 4 + (word + 1) * 4)) dot
            in block_scale half weights weight_block * block_scale half activation activation_block * of_int (sint dot) + accumulator)
          (strided (warp * 8 + block_in_warp) 32 blocks) 0)"

definition fused_row :: "(u16 \<Rightarrow> 'f::comm_ring_1) \<Rightarrow> i8 list \<Rightarrow> i8 list \<Rightarrow> nat \<Rightarrow> nat \<Rightarrow> 'f" where
  "fused_row half weights activation blocks row =
     (let partial = (\<lambda>warp. warp_down (+) 4 2 (fused_partial half weights activation row blocks warp));
          gate_partial = (\<lambda>index. partial (index div 8) (4 * (index mod 8)))
      in warp_down (+) 32 16 gate_partial 0)"

definition four_warp_row ::
    "('f::field \<Rightarrow> 'f) \<Rightarrow> (u16 \<Rightarrow> 'f) \<Rightarrow> i8 list \<Rightarrow> i8 list \<Rightarrow> i8 list \<Rightarrow> nat \<Rightarrow> nat \<Rightarrow> 'f" where
  "four_warp_row expf half gate up activation blocks row =
     silu_of expf (fused_row half gate activation blocks row) * fused_row half up activation blocks row"

text \<open>The kernel of one warp, of which eight lanes work.\<close>

definition one_warp_partial :: "(u16 \<Rightarrow> 'f::comm_ring_1) \<Rightarrow> i8 list \<Rightarrow> i8 list \<Rightarrow> nat \<Rightarrow> nat \<Rightarrow> nat \<Rightarrow> 'f" where
  "one_warp_partial half weights activation row blocks lane =
     (if lane < 8 then
        fold (\<lambda>block accumulator.
            let weight_block = row * blocks * 34 + block * 34;
                activation_block = block * 36;
                scale = block_scale half weights weight_block * block_scale half activation activation_block;
                group = lane * 4;
                dot = dp4a (load_i32 weights (weight_block + 2 + group)) (load_i32 activation (activation_block + 4 + group)) 0
            in scale * of_int (sint dot) + accumulator) [0..<blocks] 0
      else 0)"

definition one_warp_sum :: "(u16 \<Rightarrow> 'f::comm_ring_1) \<Rightarrow> i8 list \<Rightarrow> i8 list \<Rightarrow> nat \<Rightarrow> nat \<Rightarrow> 'f" where
  "one_warp_sum half weights activation blocks row =
     warp_down (+) 32 4 (one_warp_partial half weights activation row blocks) 0"

definition one_warp_row ::
    "('f::field \<Rightarrow> 'f) \<Rightarrow> (u16 \<Rightarrow> 'f) \<Rightarrow> i8 list \<Rightarrow> i8 list \<Rightarrow> i8 list \<Rightarrow> nat \<Rightarrow> nat \<Rightarrow> 'f" where
  "one_warp_row expf half gate up activation blocks row =
     silu_of expf (one_warp_sum half gate activation blocks row) * one_warp_sum half up activation blocks row"

definition launch_q8_silu_product ::
    "('f::field \<Rightarrow> 'f) \<Rightarrow> (u16 \<Rightarrow> 'f) \<Rightarrow> i8 list \<Rightarrow> i8 list \<Rightarrow> nat \<Rightarrow> nat \<Rightarrow> i8 list \<Rightarrow> (nat \<times> nat) list \<Rightarrow> 'f list \<Rightarrow> 'f list" where
  "launch_q8_silu_product expf half gate up rows blocks activation order output =
     launch (row_kernel (if blocks < 32 then one_warp_row expf half gate up activation blocks
       else four_warp_row expf half gate up activation blocks) rows) order output"

subsection \<open>A matrix of activations\<close>

text \<open>
  \<open>q8_gemm_batch\<close>: the block of a row and a token has \<open>threads\<close> threads, of which thread \<open>tid\<close> takes
  every 128th block from \<open>tid\<close> on.
\<close>

definition gemm_partial :: "(u16 \<Rightarrow> 'f::comm_ring_1) \<Rightarrow> i8 list \<Rightarrow> i8 list \<Rightarrow> nat \<Rightarrow> nat \<Rightarrow> nat \<Rightarrow> nat \<Rightarrow> 'f" where
  "gemm_partial half weights activation blocks row token tid =
     (let lane = tid mod 32; warp = tid div 32
      in fold (\<lambda>block accumulator.
            let weight_block = row * blocks * 34 + block * 34;
                activation_block = token * blocks * 36 + block * 36;
                scale = block_scale half weights weight_block * block_scale half activation activation_block;
                dot = words_dot weights (weight_block + 2) activation (activation_block + 4) 8
            in scale * of_int (sint dot) + accumulator) (strided (warp * 32 + lane) 128 blocks) 0)"

definition gemm_element :: "nat \<Rightarrow> (u16 \<Rightarrow> 'f::comm_ring_1) \<Rightarrow> i8 list \<Rightarrow> i8 list \<Rightarrow> nat \<Rightarrow> nat \<Rightarrow> nat \<Rightarrow> 'f" where
  "gemm_element threads half weights activation blocks row token =
     (let partial = (\<lambda>warp. warp_down (+) 32 16 (\<lambda>lane. gemm_partial half weights activation blocks row token (32 * warp + lane)) 0);
          active_warps = (threads + 31) div 32
      in warp_down (+) 32 16 (\<lambda>lane. if lane < active_warps then partial lane else 0) 0)"

definition gemm_threads :: "nat \<Rightarrow> nat" where
  "gemm_threads blocks = (if blocks > 96 then 128 else if blocks \<ge> 32 then 64 else 32)"

definition q8_gemm_batch ::
    "nat \<Rightarrow> (u16 \<Rightarrow> 'f::comm_ring_1) \<Rightarrow> i8 list \<Rightarrow> i8 list \<Rightarrow> nat \<Rightarrow> nat \<Rightarrow> nat \<Rightarrow> nat \<times> nat \<Rightarrow> 'f list \<Rightarrow> 'f list" where
  "q8_gemm_batch threads half weights activation rows blocks batch = (\<lambda>(token, row) output.
     if row < rows \<and> token < batch
     then output[token * rows + row := gemm_element threads half weights activation blocks row token] else output)"

definition launch_q8_gemm ::
    "(u16 \<Rightarrow> 'f::comm_ring_1) \<Rightarrow> i8 list \<Rightarrow> nat \<Rightarrow> nat \<Rightarrow> i8 list \<Rightarrow> nat \<Rightarrow> (nat \<times> nat) list \<Rightarrow> 'f list \<Rightarrow> 'f list" where
  "launch_q8_gemm half weights rows blocks activation batch order output =
     launch (q8_gemm_batch (gemm_threads blocks) half weights activation rows blocks batch) order output"

subsection \<open>Activations from the host\<close>

text \<open>\<open>q8_repack_activation\<close>: blocks of 34 bytes to blocks of 36, one thread for each of the 32 bytes.\<close>

definition repack_stores :: "i8 list \<Rightarrow> nat \<Rightarrow> nat \<times> nat \<Rightarrow> (nat \<times> i8) list" where
  "repack_stores raw blocks = (\<lambda>(block, lane).
     if block \<ge> blocks \<or> lane \<ge> 32 then []
     else (if lane < 2 then [(block * 36 + lane, raw ! (block * 34 + lane))] else []) @
       [(block * 36 + 4 + lane, raw ! (block * 34 + 2 + lane))])"

definition launch_q8_repack_activation :: "i8 list \<Rightarrow> nat \<Rightarrow> (nat \<times> nat) list \<Rightarrow> i8 list \<Rightarrow> i8 list" where
  "launch_q8_repack_activation raw blocks order padded =
     launch (\<lambda>t. store_all (repack_stores raw blocks t)) order padded"

text \<open>
  The contents of device memory by address, and what the host gets back. A copy or a kernel on memory
  that is not there, or too small, is an error; the code learns of it at the latest when it synchronises.
\<close>

record 'f device_memory =
  bytes_at :: "nat \<Rightarrow> nat \<Rightarrow> i8"
  floats_at :: "nat \<Rightarrow> nat \<Rightarrow> 'f"
  host_output :: "'f list"

definition stored :: "(nat \<Rightarrow> 'a) \<Rightarrow> nat \<Rightarrow> 'a list" where
  "stored block n = map block [0..<n]"

definition overwrite :: "'a list \<Rightarrow> (nat \<Rightarrow> 'a) \<Rightarrow> nat \<Rightarrow> 'a" where
  "overwrite xs block i = (if i < length xs then xs ! i else block i)"

definition device_call ::
    "(context_slot \<times> nat) list \<Rightarrow> ((context_slot \<Rightarrow> nat) \<Rightarrow> 'm \<Rightarrow> 'm) \<Rightarrow> (cuda_context \<times> 'm) call" where
  "device_call needed f = (\<lambda>(c, mem). let (ok, c) = asked c
     in if ok \<and> list_all (\<lambda>(s, n). room c s n) needed then (True, c, f (\<lambda>s. the (slots c s)) mem) else (False, c, mem))"

record q8_weights =
  weights_context :: bool
  weights_rows :: nat
  weights_blocks :: nat
  device_data :: "nat option"

definition validate_weights :: "q8_weights \<Rightarrow> bool \<Rightarrow> nat \<Rightarrow> bool \<Rightarrow> nat \<Rightarrow> int" where
  "validate_weights w activation activation_bytes out output_bytes =
     (if device_data w = None \<or> \<not> activation \<or> \<not> out then CUDA_INVALID
      else if activation_bytes < weights_blocks w * 34 \<or> output_bytes < weights_rows w * 4 then CUDA_INVALID else CUDA_OK)"

text \<open>\<open>fortai_cuda_q8_matvec_host\<close>: the weights are the bytes at their address.\<close>

definition copy_activation :: "i8 list \<Rightarrow> nat \<Rightarrow> (context_slot \<Rightarrow> nat) \<Rightarrow> 'f device_memory \<Rightarrow> 'f device_memory" where
  "copy_activation host n ptr mem =
     mem\<lparr>bytes_at := (bytes_at mem)(ptr ScratchRaw := overwrite (take n host) (bytes_at mem (ptr ScratchRaw)))\<rparr>"

definition repack :: "nat \<Rightarrow> (nat \<times> nat) list \<Rightarrow> (context_slot \<Rightarrow> nat) \<Rightarrow> 'f device_memory \<Rightarrow> 'f device_memory" where
  "repack blocks order ptr mem =
     mem\<lparr>bytes_at := (bytes_at mem)(ptr ScratchActivation :=
       overwrite (launch_q8_repack_activation (stored (bytes_at mem (ptr ScratchRaw)) (blocks * 34)) blocks order
           (stored (bytes_at mem (ptr ScratchActivation)) (blocks * 36)))
         (bytes_at mem (ptr ScratchActivation)))\<rparr>"

definition multiply ::
    "(u16 \<Rightarrow> 'f::comm_ring_1) \<Rightarrow> nat \<Rightarrow> nat \<Rightarrow> nat \<Rightarrow> (nat \<times> nat) list \<Rightarrow> (context_slot \<Rightarrow> nat) \<Rightarrow> 'f device_memory \<Rightarrow> 'f device_memory" where
  "multiply half weights rows blocks order ptr mem =
     mem\<lparr>floats_at := (floats_at mem)(ptr ScratchOutput :=
       overwrite (launch_q8 half (stored (bytes_at mem weights) (rows * blocks * 34)) rows blocks
           (stored (bytes_at mem (ptr ScratchActivation)) (blocks * 36)) order
           (stored (floats_at mem (ptr ScratchOutput)) rows))
         (floats_at mem (ptr ScratchOutput)))\<rparr>"

definition copy_output :: "nat \<Rightarrow> (context_slot \<Rightarrow> nat) \<Rightarrow> 'f device_memory \<Rightarrow> 'f device_memory" where
  "copy_output rows ptr mem = mem\<lparr>host_output := stored (floats_at mem (ptr ScratchOutput)) rows\<rparr>"

definition q8_matvec_host ::
    "(u16 \<Rightarrow> 'f::comm_ring_1) \<Rightarrow> q8_weights \<Rightarrow> i8 list option \<Rightarrow> nat \<Rightarrow> bool \<Rightarrow> nat \<Rightarrow> bool \<Rightarrow>
     (nat \<times> nat) list \<Rightarrow> (nat \<times> nat) list \<Rightarrow> cuda_context \<times> 'f device_memory \<Rightarrow> int \<times> cuda_context \<times> 'f device_memory" where
  "q8_matvec_host half w host_activation activation_bytes out output_bytes elapsed_ms order1 order2 = (\<lambda>(c, mem).
     if \<not> weights_context w \<or> validate_weights w (host_activation \<noteq> None) activation_bytes out output_bytes \<noteq> CUDA_OK \<or>
       \<not> elapsed_ms then (CUDA_INVALID, c, mem)
     else let rows = weights_rows w; blocks = weights_blocks w;
              output_size = rows * 4; activation_size = blocks * 34;
              (ok, c) = ensure_host_matvec_scratch activation_size output_size c;
              (ok, c, mem) = (if \<not> ok then (False, c, mem) else
                chain [device_call [] (\<lambda>_ mem. mem),
                       device_call [(ScratchRaw, activation_size)] (copy_activation (the host_activation) activation_size),
                       device_call [(ScratchRaw, activation_size), (ScratchActivation, blocks * 36)] (repack blocks order1),
                       device_call [(ScratchActivation, blocks * 36), (ScratchOutput, output_size)]
                         (multiply half (the (device_data w)) rows blocks order2),
                       device_call [(ScratchOutput, output_size)] (copy_output rows),
                       device_call [] (\<lambda>_ mem. mem), device_call [] (\<lambda>_ mem. mem), device_call [] (\<lambda>_ mem. mem)] (c, mem))
          in if ok then (CUDA_OK, c, mem) else (CUDA_RUNTIME_ERROR, c\<lparr>message := ''host matvec''\<rparr>, mem))"

subsection \<open>The products in exact arithmetic\<close>

text \<open>
  \<open>n\<close> bytes of a block, from \<open>off\<close> on, with both scales; the sum over the blocks of a row.
\<close>

definition block_part :: "(u16 \<Rightarrow> 'f::comm_ring_1) \<Rightarrow> i8 list \<Rightarrow> nat \<Rightarrow> i8 list \<Rightarrow> nat \<Rightarrow> nat \<Rightarrow> nat \<Rightarrow> 'f" where
  "block_part half weights wb activation ab off n =
     block_scale half weights wb * block_scale half activation ab *
     of_int (bytes_dot weights (wb + 2 + off) activation (ab + 4 + off) n)"

definition row_product :: "(u16 \<Rightarrow> 'f::comm_ring_1) \<Rightarrow> i8 list \<Rightarrow> i8 list \<Rightarrow> nat \<Rightarrow> nat \<Rightarrow> nat \<Rightarrow> 'f" where
  "row_product half weights activation blocks row token =
     (\<Sum>b<blocks. block_part half weights (row * blocks * 34 + b * 34) activation (token * blocks * 36 + b * 36) 0 32)"

lemma sum_groups: "(\<Sum>t<m * k. f t) = (\<Sum>i<m. \<Sum>j<k. f (i * k + j :: nat))" for f :: "nat \<Rightarrow> 'f::comm_monoid_add"
proof (induction m)
  case (Suc m)
  have "(\<Sum>t<Suc m * k. f t) = (\<Sum>t<m * k. f t) + (\<Sum>t\<in>{m * k..<m * k + k}. f t)"
    by (simp add: lessThan_atLeast0 sum.atLeastLessThan_concat add.commute)
  also have "(\<Sum>t\<in>{m * k..<m * k + k}. f t) = (\<Sum>j<k. f (m * k + j))"
    using sum.shift_bounds_nat_ivl [of f 0 "m * k" k] by (simp add: lessThan_atLeast0 add.commute)
  finally show ?case using Suc by simp
qed simp

lemma block_part_split:
  "block_part half weights wb activation ab off (m + n) =
     block_part half weights wb activation ab off m + block_part half weights wb activation ab (off + m) n"
  by (simp add: block_part_def bytes_dot_split distrib_left ac_simps)

lemma block_part_groups:
  "block_part half weights wb activation ab 0 (k * n) = (\<Sum>s<k. block_part half weights wb activation ab (s * n) n)"
proof (induction k)
  case 0
  then show ?case by (simp add: block_part_def bytes_dot_def)
next
  case (Suc k)
  then show ?case using block_part_split [of half weights wb activation ab 0 "k * n" n] by (simp add: add.commute)
qed

lemma fold_sum: "fold (\<lambda>i acc. h i + acc) xs (d :: 'f::comm_monoid_add) = d + (\<Sum>i\<leftarrow>xs. h i)"
  by (induction xs arbitrary: d) (simp_all add: ac_simps)

lemma mmvq_partial_sum:
  "mmvq_partial half weights activation row blocks tid =
     (\<Sum>b\<leftarrow>strided (tid div 4) 32 blocks.
        block_part half weights (row * blocks * 34 + b * 34) activation (b * 36) (tid mod 4 * 8) 8)"
  unfolding mmvq_partial_def Let_def fold_add_map add_0
  by (rule arg_cong [where f = sum_list], rule map_cong)
    (simp_all add: block_part_def words_dot_exact block_scale_def ac_simps)

lemma sum_list_sum_swap: "(\<Sum>s<n. (\<Sum>b\<leftarrow>bs. g s b)) = (\<Sum>b\<leftarrow>bs. \<Sum>s<n. g s b)"
  for g :: "nat \<Rightarrow> 'b \<Rightarrow> 'f::comm_monoid_add"
  by (induction bs) (simp_all add: sum.distrib)

text \<open>Four lanes to a block, 32 blocks at a time: every block is taken once.\<close>

lemma sum_four_lanes:
  fixes g :: "nat \<Rightarrow> nat \<Rightarrow> 'f::comm_monoid_add"
  shows "(\<Sum>tid<128. (\<Sum>b\<leftarrow>strided (tid div 4) 32 blocks. g (tid mod 4) b)) = (\<Sum>b<blocks. \<Sum>s<4. g s b)"
proof -
  have "(\<Sum>tid<128. (\<Sum>b\<leftarrow>strided (tid div 4) 32 blocks. g (tid mod 4) b)) =
      (\<Sum>i<32. \<Sum>s<4. (\<Sum>b\<leftarrow>strided ((i * 4 + s) div 4) 32 blocks. g ((i * 4 + s) mod 4) b))"
    using sum_groups [of "\<lambda>tid. (\<Sum>b\<leftarrow>strided (tid div 4) 32 blocks. g (tid mod 4) b)" 32 4] by simp
  also have "\<dots> = (\<Sum>i<32. \<Sum>s<4. (\<Sum>b\<leftarrow>strided i 32 blocks. g s b))"
    by (intro sum.cong refl) simp
  also have "\<dots> = (\<Sum>i<32. (\<Sum>b\<leftarrow>strided i 32 blocks. \<Sum>s<4. g s b))"
    by (simp only: sum_list_sum_swap)
  also have "\<dots> = (\<Sum>b<blocks. \<Sum>s<4. g s b)" by (rule sum_strided) simp
  finally show ?thesis .
qed

lemma sum4: "(\<Sum>i<4. f i) = f 0 + f 1 + f 2 + f (3 :: nat)" for f :: "nat \<Rightarrow> 'f::comm_monoid_add"
  by (simp add: numeral_eq_Suc lessThan_Suc ac_simps)

lemma block_quarters:
  "(\<Sum>s<4. block_part half weights wb activation ab (s * 8) 8) = block_part half weights wb activation ab 0 32"
  using block_part_groups [of half weights wb activation ab 4 8] by simp

lemma four_lane_sums:
  assumes "\<And>tid. tid < 128 \<Longrightarrow> v tid = (\<Sum>b\<leftarrow>strided (tid div 4) 32 blocks.
      block_part half weights (row * blocks * 34 + b * 34) activation (b * 36) (tid mod 4 * 8) 8)"
  shows "(\<Sum>tid<128. v tid) = row_product half weights activation blocks row 0"
proof -
  have "(\<Sum>tid<128. v tid) = (\<Sum>tid<128. (\<Sum>b\<leftarrow>strided (tid div 4) 32 blocks.
      block_part half weights (row * blocks * 34 + b * 34) activation (b * 36) (tid mod 4 * 8) 8))"
    by (rule sum.cong) (use assms in auto)
  also have "\<dots> = (\<Sum>b<blocks. \<Sum>s<4. block_part half weights (row * blocks * 34 + b * 34) activation (b * 36) (s * 8) 8)"
    by (rule sum_four_lanes)
  finally show ?thesis by (simp add: block_quarters row_product_def)
qed

lemma mmvq_row_exact: "mmvq_row half weights activation blocks row = row_product half weights activation blocks row 0"
proof -
  let ?v = "mmvq_partial half weights activation row blocks"
  have "mmvq_row half weights activation blocks row = (\<Sum>l<32. ?v l + ?v (32 + l) + ?v (64 + l) + ?v (96 + l))"
    by (simp add: mmvq_row_def)
  also have "\<dots> = (\<Sum>l<32. ?v l) + (\<Sum>l<32. ?v (32 + l)) + (\<Sum>l<32. ?v (64 + l)) + (\<Sum>l<32. ?v (96 + l))"
    by (simp only: sum.distrib)
  also have "\<dots> = (\<Sum>tid<128. ?v tid)"
    using sum_groups [of ?v 4 32] by (simp add: sum4)
  also have "\<dots> = row_product half weights activation blocks row 0"
    by (rule four_lane_sums) (rule mmvq_partial_sum)
  finally show ?thesis .
qed

lemma words_dot_two: "words_dot w a v b 2 = dp4a (load_i32 w (a + 4)) (load_i32 v (b + 4)) (dp4a (load_i32 w a) (load_i32 v b) 0)"
  by (simp add: words_dot_def upt_conv_Cons)

lemma fused_partial_sum:
  "fused_partial half weights activation row blocks warp lane =
     (\<Sum>b\<leftarrow>strided (warp * 8 + lane div 4) 32 blocks.
        block_part half weights (row * blocks * 34 + b * 34) activation (b * 36) (lane mod 4 * 8) 8)"
proof -
  let ?w = "lane mod 4 * 2"
  have "dp4a (load_i32 weights (wb + 2 + (?w + 1) * 4)) (load_i32 activation (ab + 4 + (?w + 1) * 4))
      (dp4a (load_i32 weights (wb + 2 + ?w * 4)) (load_i32 activation (ab + 4 + ?w * 4)) 0) =
      words_dot weights (wb + 2 + lane mod 4 * 8) activation (ab + 4 + lane mod 4 * 8) 2" for wb ab
    by (simp add: words_dot_two distrib_right add.assoc mult.assoc)
  then show ?thesis
    unfolding fused_partial_def Let_def fold_sum add_0
    by (intro arg_cong [where f = sum_list] map_cong refl)
      (simp only: block_part_def words_dot_exact, simp add: block_scale_def words_dot_exact)
qed

lemma quad_down: "warp_down (+) 4 2 v (4 * j) = v (4 * j) + v (4 * j + 1) + v (4 * j + 2) + v (4 * j + 3)"
  for v :: "nat \<Rightarrow> 'f::comm_monoid_add"
proof -
  have "halving 2 = [2, 1]" by (simp add: halving.simps)
  moreover have "(4 * j) mod 4 = 0" "(4 * j + 1) mod 4 = 1" by presburger+
  ultimately show ?thesis by (simp add: warp_down_def down_step_def shfl_down_def ac_simps numeral_3_eq_3)
qed

lemma fused_row_exact: "fused_row half weights activation blocks row = row_product half weights activation blocks row 0"
proof -
  let ?f = "fused_partial half weights activation row blocks"
  let ?v = "\<lambda>tid. ?f (tid div 32) (tid mod 32)"
  have "fused_row half weights activation blocks row =
      (\<Sum>i<32. warp_down (+) 4 2 (?f (i div 8)) (4 * (i mod 8)))"
    by (simp add: fused_row_def)
  also have "\<dots> = (\<Sum>i<32. \<Sum>s<4. ?v (i * 4 + s))"
  proof (intro sum.cong refl)
    fix i assume "i \<in> {..<32 :: nat}"
    have q: "(i * 4 + s) div 32 = i div 8 \<and> (i * 4 + s) mod 32 = 4 * (i mod 8) + s" if "s < 4" for s
    proof -
      have "i * 4 + s = 32 * (i div 8) + (4 * (i mod 8) + s)" by presburger
      moreover have "4 * (i mod 8) + s < 32" using that mod_less_divisor [of 8 i] by linarith
      moreover have "(32 * a + r) div 32 = a \<and> (32 * a + r) mod 32 = r" if "r < 32" for a r :: nat using that by simp
      ultimately show ?thesis by (simp add: add.assoc)
    qed
    have "(\<Sum>s<4. ?v (i * 4 + s)) = (\<Sum>s<4. ?f (i div 8) (4 * (i mod 8) + s))"
      by (intro sum.cong refl) (use q in auto)
    also have "\<dots> = ?f (i div 8) (4 * (i mod 8)) + ?f (i div 8) (4 * (i mod 8) + 1) +
        ?f (i div 8) (4 * (i mod 8) + 2) + ?f (i div 8) (4 * (i mod 8) + 3)"
      by (simp only: sum4 add_0_right)
    finally show "warp_down (+) 4 2 (?f (i div 8)) (4 * (i mod 8)) = (\<Sum>s<4. ?v (i * 4 + s))"
      by (simp only: quad_down)
  qed
  also have "\<dots> = (\<Sum>tid<128. ?v tid)" using sum_groups [of ?v 32 4] by simp
  also have "\<dots> = row_product half weights activation blocks row 0"
  proof (rule four_lane_sums)
    fix tid :: nat
    have "tid mod 32 = 4 * (tid div 4 mod 8) + tid mod 4" using mod_mult2_eq [of tid 4 8] by simp
    then have "tid mod 32 div 4 = tid div 4 mod 8" and "tid mod 32 mod 4 = tid mod 4" by simp_all
    moreover have "tid div 32 = tid div 4 div 8" by (simp add: div_mult2_eq [symmetric])
    ultimately have "tid div 32 * 8 + tid mod 32 div 4 = tid div 4" and "tid mod 32 mod 4 = tid mod 4" by simp_all
    then show "?v tid = (\<Sum>b\<leftarrow>strided (tid div 4) 32 blocks.
        block_part half weights (row * blocks * 34 + b * 34) activation (b * 36) (tid mod 4 * 8) 8)"
      by (simp only: fused_partial_sum)
  qed
  finally show ?thesis .
qed

lemma one_warp_sum_exact: "one_warp_sum half weights activation blocks row = row_product half weights activation blocks row 0"
proof -
  let ?part = "\<lambda>b. block_part half weights (row * blocks * 34 + b * 34) activation (b * 36)"
  have lane: "one_warp_partial half weights activation row blocks l = (\<Sum>b\<leftarrow>[0..<blocks]. ?part b (l * 4) 4)" if "l < 8" for l
  proof -
    have one: "dp4a (load_i32 w a) (load_i32 v b) 0 = words_dot w a v b 1" for w a v b
      by (simp add: words_dot_def)
    show ?thesis using that unfolding one_warp_partial_def Let_def fold_sum add_0 one
      by (simp add: block_part_def words_dot_exact block_scale_def)
  qed
  have "one_warp_sum half weights activation blocks row = (\<Sum>l<8. one_warp_partial half weights activation row blocks l)"
    using warp_down_lane0 [of 2 32 "(+)" "one_warp_partial half weights activation row blocks"]
      tree_sum [of "one_warp_partial half weights activation row blocks" 3]
    by (simp add: one_warp_sum_def numeral_eq_Suc)
  also have "\<dots> = (\<Sum>l<8. (\<Sum>b\<leftarrow>[0..<blocks]. ?part b (l * 4) 4))" by (intro sum.cong refl) (simp add: lane)
  also have "\<dots> = (\<Sum>b\<leftarrow>[0..<blocks]. \<Sum>l<8. ?part b (l * 4) 4)" by (rule sum_list_sum_swap)
  also have "\<dots> = (\<Sum>b\<leftarrow>[0..<blocks]. ?part b 0 32)"
    using block_part_groups [of half weights _ activation _ 8 4] by simp
  finally show ?thesis by (simp add: row_product_def interv_sum_list_conv_sum_set_nat lessThan_atLeast0)
qed

text \<open>The threads of the plain matrix kernel reach the blocks whose number modulo 128 is below their count.\<close>

lemma gemm_element_blocks:
  assumes "threads \<in> {32, 64, 128}"
  shows "gemm_element threads half weights activation blocks row token =
    (\<Sum>b | b < blocks \<and> b mod 128 < threads.
       block_part half weights (row * blocks * 34 + b * 34) activation (token * blocks * 36 + b * 36) 0 32)"
proof -
  let ?g = "\<lambda>b. block_part half weights (row * blocks * 34 + b * 34) activation (token * blocks * 36 + b * 36) 0 32"
  let ?v = "gemm_partial half weights activation blocks row token"
  have thread: "?v tid = (\<Sum>b | b < blocks \<and> b mod 128 = tid. ?g b)" if "tid < 128" for tid
  proof -
    have "?v tid = (\<Sum>b\<leftarrow>strided tid 128 blocks. ?g b)"
      unfolding gemm_partial_def Let_def fold_sum add_0 by (simp add: block_part_def words_dot_exact block_scale_def)
    moreover have "set (strided tid 128 blocks) = {b. b < blocks \<and> b mod 128 = tid}"
      using set_strided [of 128 tid blocks] that mod_less_eq_dividend [of _ 128] by fastforce
    ultimately show ?thesis by (simp add: sum_list_distinct_conv_sum_set [OF distinct_strided])
  qed
  obtain k where k: "threads = k * 32" "k \<le> 4" "(threads + 31) div 32 = k" using assms by auto
  have "gemm_element threads half weights activation blocks row token =
      (\<Sum>w<32. if w < k then \<Sum>l<32. ?v (32 * w + l) else 0)"
    by (simp add: gemm_element_def k(3) Let_def)
  also have "\<dots> = (\<Sum>w<k. \<Sum>l<32. ?v (w * 32 + l))"
  proof -
    have "{..<32} \<inter> {w. w < k} = {..<k}" using k(2) by auto
    then show ?thesis by (simp add: sum.If_cases mult.commute)
  qed
  also have "\<dots> = (\<Sum>tid<threads. ?v tid)" by (simp add: k(1) sum_groups)
  also have "\<dots> = (\<Sum>tid<threads. \<Sum>b | b < blocks \<and> b mod 128 = tid. ?g b)"
    by (rule sum.cong) (use assms in \<open>auto simp: thread\<close>)
  also have "\<dots> = (\<Sum>b\<in>(\<Union>tid<threads. {b. b < blocks \<and> b mod 128 = tid}). ?g b)"
    by (rule sum.UNION_disjoint [symmetric]) auto
  also have "(\<Union>tid<threads. {b. b < blocks \<and> b mod 128 = tid}) = {b. b < blocks \<and> b mod 128 < threads}" by auto
  finally show ?thesis .
qed

lemma launch_rows:
  assumes "in_order rows 1 order" and "rows \<le> length output"
  shows "launch (row_kernel value rows) order output = map value [0..<rows] @ drop rows output"
proof -
  have "row_kernel value rows = (\<lambda>t mem. if global_index 1 t < rows
      then mem[global_index 1 t := (\<lambda>i _. value i) (global_index 1 t) (mem ! global_index 1 t)] else mem)"
    by (intro ext) (simp add: row_kernel_def Let_def)
  then show ?thesis using launch_elements [OF assms(1) _ assms(2), of "\<lambda>i _. value i"] by simp
qed

lemma launch_q8_rows:
  "in_order rows 1 order \<Longrightarrow> rows \<le> length output \<Longrightarrow> launch_q8 half weights rows blocks activation order output =
     map (\<lambda>row. row_product half weights activation blocks row 0) [0..<rows] @ drop rows output"
  by (simp add: launch_q8_def q8_gemv_mmvq_def launch_rows mmvq_row_exact cong: map_cong)

lemma launch_gemm:
  assumes "in_order batch rows order" and "batch * rows \<le> length output"
  shows "launch (q8_gemm_batch threads half weights activation rows blocks batch) order output =
    map (\<lambda>i. gemm_element threads half weights activation blocks (i mod rows) (i div rows)) [0..<batch * rows] @
    drop (batch * rows) output"
proof -
  let ?f = "\<lambda>i _. gemm_element threads half weights activation blocks (i mod rows) (i div rows)"
  have "launch (q8_gemm_batch threads half weights activation rows blocks batch) order output =
      launch (\<lambda>t mem. if global_index rows t < batch * rows
        then mem[global_index rows t := ?f (global_index rows t) (mem ! global_index rows t)] else mem) order output"
  proof (rule launch_cong)
    fix t assume t: "t \<in> set order"
    obtain token row where tr: "t = (token, row)" "token < batch" "row < rows"
      using t in_order_set [OF assms(1)] by auto
    moreover have "global_index rows t < batch * rows" using global_index_range [OF assms(1)] t by blast
    ultimately show "q8_gemm_batch threads half weights activation rows blocks batch t =
        (\<lambda>mem. if global_index rows t < batch * rows
          then mem[global_index rows t := ?f (global_index rows t) (mem ! global_index rows t)] else mem)"
      by (intro ext) (simp add: q8_gemm_batch_def)
  qed
  then show ?thesis using launch_elements [OF assms(1) _ assms(2), of ?f] by simp
qed

subsection \<open>Repacked activations\<close>

lemma repack_places:
  fixes raw :: "i8 list"
  assumes "in_order blocks 32 order" and "36 * blocks \<le> length padded" and "b < blocks"
  defines "result \<equiv> launch_q8_repack_activation raw blocks order padded"
  shows "l < 2 \<Longrightarrow> result ! (b * 36 + l) = raw ! (b * 34 + l)"
    and "l < 32 \<Longrightarrow> result ! (b * 36 + 4 + l) = raw ! (b * 34 + 2 + l)"
proof -
  let ?stores = "concat (map (repack_stores raw blocks) order)"
  have result: "result = store_all ?stores padded" by (simp add: result_def launch_q8_repack_activation_def launch_stores)
  have stored: "(j, v) \<in> set ?stores \<longleftrightarrow> (\<exists>c<blocks. (\<exists>l<2. j = c * 36 + l \<and> v = raw ! (c * 34 + l)) \<or>
      (\<exists>l<32. j = c * 36 + 4 + l \<and> v = raw ! (c * 34 + 2 + l)))" for j v
    using in_order_set [OF assms(1)] by (fastforce simp: repack_stores_def split: if_splits)
  have digits: "c * 36 + r = b * 36 + q \<Longrightarrow> r < 36 \<Longrightarrow> q < 36 \<Longrightarrow> c = b \<and> r = q" for c r q :: nat
    by presburger
  have bound: "b * 36 + q < length padded" if "q < 36" for q
    using that assms(2,3) by simp
  show "result ! (b * 36 + l) = raw ! (b * 34 + l)" if l: "l < 2"
    unfolding result
  proof (rule store_all_at)
    show "(b * 36 + l, raw ! (b * 34 + l)) \<in> set ?stores" unfolding stored using assms(3) l by blast
    show "w = raw ! (b * 34 + l)" if "(b * 36 + l, w) \<in> set ?stores" for w
      using that l digits [of _ _ l] unfolding stored by (fastforce simp: add.assoc)
  qed (use bound l in simp)
  show "result ! (b * 36 + 4 + l) = raw ! (b * 34 + 2 + l)" if l: "l < 32"
    unfolding result
  proof (rule store_all_at)
    show "(b * 36 + 4 + l, raw ! (b * 34 + 2 + l)) \<in> set ?stores" unfolding stored using assms(3) l by blast
    show "w = raw ! (b * 34 + 2 + l)" if "(b * 36 + 4 + l, w) \<in> set ?stores" for w
    proof -
      from that obtain c r where c: "c < blocks" and cases: "r < 2 \<and> b * 36 + 4 + l = c * 36 + r \<or>
          r < 32 \<and> b * 36 + 4 + l = c * 36 + 4 + r \<and> w = raw ! (c * 34 + 2 + r)"
        unfolding stored by blast
      from cases show ?thesis
      proof (elim disjE conjE)
        assume "r < 2" "b * 36 + 4 + l = c * 36 + r"
        then show ?thesis using digits [of c r "4 + l"] l by simp
      next
        assume "r < 32" "b * 36 + 4 + l = c * 36 + 4 + r" "w = raw ! (c * 34 + 2 + r)"
        then show ?thesis using digits [of c "4 + r" "4 + l"] l by simp
      qed
    qed
  qed (use bound [of "4 + l"] l in \<open>simp add: add.assoc\<close>)
qed

lemma repacked_product:
  assumes "in_order blocks 32 order" and "length padded = 36 * blocks"
  shows "row_product half weights (launch_q8_repack_activation raw blocks order padded) blocks row 0 =
    (\<Sum>b\<leftarrow>[0..<blocks]. block_term half weights raw (map (\<lambda>b. half (load_u16 raw (b * 34))) [0..<blocks]) row blocks b)"
proof -
  let ?a = "launch_q8_repack_activation raw blocks order padded"
  have part: "block_part half weights (row * blocks * 34 + b * 34) ?a (b * 36) 0 32 =
      block_term half weights raw (map (\<lambda>b. half (load_u16 raw (b * 34))) [0..<blocks]) row blocks b" if b: "b < blocks" for b
  proof -
    note place = repack_places [where raw = raw and padded = padded, OF assms(1) _ b]
    have "load_u16 ?a (b * 36) = load_u16 raw (b * 34)"
      using place(1) [of 0] place(1) [of 1] assms(2) by (simp add: load_u16_def)
    moreover have "bytes_dot weights (row * blocks * 34 + b * 34 + 2) ?a (b * 36 + 4) 32 =
        (\<Sum>i\<leftarrow>[0..<32]. sint (weights ! ((row * blocks + b) * 34 + 2 + i)) * sint (raw ! (b * 34 + 2 + i)))"
    proof -
      have "bytes_dot weights (row * blocks * 34 + b * 34 + 2) ?a (b * 36 + 4) 32 =
          (\<Sum>i<32. sint (weights ! ((row * blocks + b) * 34 + 2 + i)) * sint (raw ! (b * 34 + 2 + i)))"
        unfolding bytes_dot_def by (rule sum.cong) (use place(2) assms(2) in \<open>auto simp: algebra_simps\<close>)
      then show ?thesis by (simp add: interv_sum_list_conv_sum_set_nat lessThan_atLeast0)
    qed
    ultimately show ?thesis using b by (simp add: block_part_def block_term_def block_scale_def algebra_simps)
  qed
  then have "row_product half weights ?a blocks row 0 =
      (\<Sum>b<blocks. block_term half weights raw (map (\<lambda>b. half (load_u16 raw (b * 34))) [0..<blocks]) row blocks b)"
    unfolding row_product_def by (intro sum.cong) simp_all
  then show ?thesis by (simp add: interv_sum_list_conv_sum_set_nat lessThan_atLeast0)
qed

lemma device_call_run:
  assumes "device_call needed f (c, mem) = (True, c', mem')"
  shows "mem' = f (\<lambda>s. the (slots c s)) mem" and "slots c' = slots c" and "live c' = live c"
    and "list_all (\<lambda>(s, n). room c s n) needed"
proof -
  obtain ok d where a: "asked c = (ok, d)" by (cases "asked c") auto
  have d: "slots d = slots c" "live d = live c" using asked_same [of c] a by simp_all
  then have "room d s n = room c s n" for s n by (intro room_same) simp_all
  then have "room d = room c" by (intro ext)
  then show "mem' = f (\<lambda>s. the (slots c s)) mem" and "slots c' = slots c" and "live c' = live c"
    and "list_all (\<lambda>(s, n). room c s n) needed"
    using assms a d by (auto simp: device_call_def split: if_splits)
qed

lemma chain_run_cons: "chain (f # fs) m = (True, m') \<Longrightarrow> \<exists>m1. f m = (True, m1) \<and> chain fs m1 = (True, m')"
  by (cases "f m") (auto split: if_splits)

lemma length_stored [simp]: "length (stored block n) = n" by (simp add: stored_def)

lemma stored_overwrite: "length xs = n \<Longrightarrow> stored (overwrite xs block) n = xs"
  by (auto simp: stored_def overwrite_def intro: nth_equalityI)

lemma length_launch_rows [simp]: "length (launch (row_kernel value rows) order mem) = length mem"
  unfolding launch_def by (induction order arbitrary: mem) (simp_all add: row_kernel_def Let_def)

lemma length_repacked [simp]: "length (launch_q8_repack_activation raw blocks order padded) = length padded"
  by (simp add: launch_q8_repack_activation_def launch_stores)

text \<open>The data path when every call succeeds.\<close>

lemma host_product_data:
  assumes "in_order blocks 32 order1" and "in_order rows 1 order2" and "blocks * 34 \<le> length host"
    and "ptr ScratchRaw \<noteq> ptr ScratchActivation" and "ptr ScratchRaw \<noteq> weights" and "ptr ScratchActivation \<noteq> weights"
  shows "host_output (copy_output rows ptr (multiply half weights rows blocks order2 ptr (repack blocks order1 ptr
      (copy_activation host (blocks * 34) ptr mem)))) =
    map (\<lambda>row. \<Sum>b\<leftarrow>[0..<blocks]. block_term half (stored (bytes_at mem weights) (rows * blocks * 34)) (take (blocks * 34) host)
       (map (\<lambda>b. half (load_u16 (take (blocks * 34) host) (b * 34))) [0..<blocks]) row blocks b) [0..<rows]"
proof -
  let ?mem1 = "copy_activation host (blocks * 34) ptr mem"
  let ?mem2 = "repack blocks order1 ptr ?mem1"
  let ?host = "take (blocks * 34) host"
  define padded where "padded = stored (bytes_at ?mem1 (ptr ScratchActivation)) (blocks * 36)"
  define w where "w = stored (bytes_at mem weights) (rows * blocks * 34)"
  define before where "before = stored (floats_at ?mem2 (ptr ScratchOutput)) rows"
  have len: "length padded = 36 * blocks" by (simp add: padded_def)
  have "stored (bytes_at ?mem1 (ptr ScratchRaw)) (blocks * 34) = ?host"
    using assms(3) by (simp add: copy_activation_def stored_overwrite)
  then have act: "stored (bytes_at ?mem2 (ptr ScratchActivation)) (blocks * 36) = launch_q8_repack_activation ?host blocks order1 padded"
    using len by (simp add: repack_def padded_def [symmetric] stored_overwrite)
  have weights: "stored (bytes_at ?mem2 weights) (rows * blocks * 34) = w"
    using assms(5,6) by (simp add: w_def repack_def copy_activation_def)
  have "host_output (copy_output rows ptr (multiply half weights rows blocks order2 ptr ?mem2)) =
      launch_q8 half w rows blocks (launch_q8_repack_activation ?host blocks order1 padded) order2 before"
    by (simp add: copy_output_def multiply_def act weights before_def [symmetric] stored_overwrite launch_q8_def q8_gemv_mmvq_def
      del: length_stored) (simp add: before_def stored_overwrite)
  also have "\<dots> = map (\<lambda>row. row_product half w (launch_q8_repack_activation ?host blocks order1 padded) blocks row 0) [0..<rows]"
    by (subst launch_q8_rows [OF assms(2)]) (simp_all add: before_def)
  finally show ?thesis by (simp add: repacked_product [OF assms(1) len] w_def)
qed

subsection \<open>Properties\<close>

text \<open>What the scratch buffers must be for a host product: live memory that is not the weights'.\<close>

lemma host_scratch_result:
  assumes "sound context_kind context_order c" and "releases_succeed c" and "live c p = Some x" and "\<forall>s. slots c s \<noteq> Some p"
    and "ensure_host_matvec_scratch a b c = (ok, c1)"
  shows "sound context_kind context_order c1" and "slots c1 s \<noteq> Some p" and "live c1 p = Some x"
proof -
  have k: "context_keeps c c1" using keeps_scratch(1) [of c a b] assms(5) by simp
  then show "sound context_kind context_order c1" using assms(1) by (simp add: keeps_def)
  have "strays c1 = strays c" using k assms(1,2) by (simp add: keeps_def)
  moreover have "strays c p = Some x" using assms(3,4) by (auto simp: strays_def)
  ultimately have "strays c1 p = Some x" by simp
  then have "Some p \<notin> range (slots c1)" "live c1 p = Some x" by (simp_all add: strays_def split: if_splits)
  then show "slots c1 s \<noteq> Some p" "live c1 p = Some x" by (metis rangeI)+
qed

lemma matvec_host_done:
  assumes "q8_matvec_host half w (Some host) activation_bytes out output_bytes elapsed_ms order1 order2 (c, mem) = (CUDA_OK, c', mem')"
    and "sound context_kind context_order c" and "releases_succeed c"
    and "device_data w = Some p" and "live c p = Some x" and "\<forall>s. slots c s \<noteq> Some p"
  obtains ptr where "ptr ScratchRaw \<noteq> ptr ScratchActivation" and "ptr ScratchRaw \<noteq> p" and "ptr ScratchActivation \<noteq> p"
    and "mem' = copy_output (weights_rows w) ptr (multiply half p (weights_rows w) (weights_blocks w) order2 ptr
      (repack (weights_blocks w) order1 ptr (copy_activation host (weights_blocks w * 34) ptr mem)))"
    and "weights_blocks w * 34 \<le> activation_bytes"
proof -
  let ?rows = "weights_rows w" and ?blocks = "weights_blocks w"
  let ?steps = "[device_call [] (\<lambda>_ mem. mem),
     device_call [(ScratchRaw, ?blocks * 34)] (copy_activation host (?blocks * 34)),
     device_call [(ScratchRaw, ?blocks * 34), (ScratchActivation, ?blocks * 36)] (repack ?blocks order1),
     device_call [(ScratchActivation, ?blocks * 36), (ScratchOutput, ?rows * 4)] (multiply half (the (device_data w)) ?rows ?blocks order2),
     device_call [(ScratchOutput, ?rows * 4)] (copy_output ?rows),
     device_call [] (\<lambda>_ mem. mem), device_call [] (\<lambda>_ mem. mem), device_call [] (\<lambda>_ mem. mem)]"
  obtain ok c1 where e: "ensure_host_matvec_scratch (?blocks * 34) (?rows * 4) c = (ok, c1)"
    by (cases "ensure_host_matvec_scratch (?blocks * 34) (?rows * 4) c") auto
  obtain ok' c2 mem2 where run: "chain ?steps (c1, mem) = (ok', c2, mem2)" by (cases "chain ?steps (c1, mem)") auto
  have valid: "validate_weights w True activation_bytes out output_bytes = CUDA_OK"
    using assms(1) by (auto simp: q8_matvec_host_def split: if_splits)
  have final: "ok \<and> ok' \<and> mem' = mem2"
    using assms(1) e run unfolding q8_matvec_host_def
    by (simp add: Let_def del: chain.simps split: if_splits)
  note scratch = host_scratch_result [OF assms(2,3,5,6) e]
  define ptr where "ptr = (\<lambda>s. the (slots c1 s))"
  from run final obtain m1 m2 m3 m4 m5 m6 m7 where steps:
    "device_call [] (\<lambda>_ mem. mem) (c1, mem) = (True, m1)"
    "device_call [(ScratchRaw, ?blocks * 34)] (copy_activation host (?blocks * 34)) m1 = (True, m2)"
    "device_call [(ScratchRaw, ?blocks * 34), (ScratchActivation, ?blocks * 36)] (repack ?blocks order1) m2 = (True, m3)"
    "device_call [(ScratchActivation, ?blocks * 36), (ScratchOutput, ?rows * 4)] (multiply half (the (device_data w)) ?rows ?blocks order2) m3 = (True, m4)"
    "device_call [(ScratchOutput, ?rows * 4)] (copy_output ?rows) m4 = (True, m5)"
    "device_call [] (\<lambda>_ mem. mem) m5 = (True, m6)" "device_call [] (\<lambda>_ mem. mem) m6 = (True, m7)"
    "device_call [] (\<lambda>_ mem. mem) m7 = (True, c2, mem')"
    by (auto dest!: chain_run_cons simp del: chain.simps(2))
  obtain d1 n1 d2 n2 d3 n3 d4 n4 d5 n5 d6 n6 d7 n7 where pairs:
    "m1 = (d1, n1)" "m2 = (d2, n2)" "m3 = (d3, n3)" "m4 = (d4, n4)" "m5 = (d5, n5)" "m6 = (d6, n6)" "m7 = (d7, n7)"
    by (cases m1; cases m2; cases m3; cases m4; cases m5; cases m6; cases m7) blast
  note r = steps [unfolded pairs, THEN device_call_run(1)]
  note same = steps [unfolded pairs, THEN device_call_run(2)]
  note needed = steps(3) [unfolded pairs, THEN device_call_run(4)]
  note lives = steps [unfolded pairs, THEN device_call_run(3)]
  have mem': "mem' = copy_output ?rows ptr (multiply half p ?rows ?blocks order2 ptr (repack ?blocks order1 ptr (copy_activation host (?blocks * 34) ptr mem)))"
    using r same assms(4) by (simp add: ptr_def)
  have "room d2 ScratchRaw (?blocks * 34)" "room d2 ScratchActivation (?blocks * 36)" using needed by simp_all
  then obtain a b where ab: "slots c1 ScratchRaw = Some a" "slots c1 ScratchActivation = Some b"
    using same by (auto dest!: room_slot)
  have "a \<noteq> b" using sound_inj [OF scratch(1) ab(1)] ab(2) by auto
  moreover have "a \<noteq> p" "b \<noteq> p" using scratch(2) ab by metis+
  ultimately show thesis using ab mem' valid
    by (intro that [of ptr]) (auto simp: ptr_def validate_weights_def split: if_splits)
qed

text \<open>
  C27: When the host product on the device reports success, what it returns is, row by row, the dot
  product of the CPU path (scalar or AVX2) of the same weights with the same quantised activation, in
  exact arithmetic: for every order in which the blocks of the two kernels run, whatever the scratch
  buffers held and whichever of them had to be grown.
\<close>

theorem cuda_matvec_host_is_cpu:
  assumes "q8_matvec_host half w (Some host) activation_bytes out output_bytes elapsed_ms order1 order2 (c, mem) = (CUDA_OK, c', mem')"
    and "in_order (weights_blocks w) 32 order1" and "in_order (weights_rows w) 1 order2"
    and "sound context_kind context_order c" and "releases_succeed c"
    and "device_data w = Some p" and "live c p = Some x" and "\<forall>s. slots c s \<noteq> Some p"
    and "activation_bytes \<le> length host" and "weights_blocks w < 2 ^ 31"
    and "\<forall>b<weights_blocks w. - 128 \<notin> set (slice (b * 34 + 2) 32 host)"
  shows "host_output mem' = map (\<lambda>row. q8_dot avx2 half (stored (bytes_at mem p) (weights_rows w * weights_blocks w * 34)) host
      (map (\<lambda>b. half (load_u16 host (b * 34))) [0..<weights_blocks w]) row (weights_blocks w)) [0..<weights_rows w]"
proof -
  let ?rows = "weights_rows w" and ?blocks = "weights_blocks w"
  let ?w = "stored (bytes_at mem p) (?rows * ?blocks * 34)"
  obtain ptr where ptr: "ptr ScratchRaw \<noteq> ptr ScratchActivation" "ptr ScratchRaw \<noteq> p" "ptr ScratchActivation \<noteq> p"
    and mem': "mem' = copy_output ?rows ptr (multiply half p ?rows ?blocks order2 ptr
      (repack ?blocks order1 ptr (copy_activation host (?blocks * 34) ptr mem)))" and len: "?blocks * 34 \<le> activation_bytes"
    by (rule matvec_host_done [OF assms(1,4-8)])
  have host: "?blocks * 34 \<le> length host" using len assms(9) by simp
  have small: "block_term half ?w (take (?blocks * 34) host) (map (\<lambda>b. half (load_u16 (take (?blocks * 34) host) (b * 34))) [0..<?blocks]) row ?blocks b =
      block_term half ?w host (map (\<lambda>b. half (load_u16 host (b * 34))) [0..<?blocks]) row ?blocks b" if "b < ?blocks" for row b
  proof -
    have same: "take (?blocks * 34) host ! (b * 34 + i) = host ! (b * 34 + i)" if "i < 34" for i using that \<open>b < ?blocks\<close> host by simp
    have "load_u16 (take (?blocks * 34) host) (b * 34) = load_u16 host (b * 34)"
      using same [of 0] same [of 1] by (simp add: load_u16_def)
    moreover have "(\<Sum>i\<leftarrow>[0..<32]. f i * sint (take (?blocks * 34) host ! (b * 34 + 2 + i))) =
        (\<Sum>i\<leftarrow>[0..<32]. f i * sint (host ! (b * 34 + 2 + i)))" for f
      by (intro arg_cong [where f = sum_list] map_cong refl) (use same [of "2 + _"] in \<open>simp add: add.assoc\<close>)
    ultimately show ?thesis using \<open>b < ?blocks\<close> by (simp only: block_term_def nth_map_upt diff_zero add_0)
  qed
  have "q8_dot avx2 half ?w host (map (\<lambda>b. half (load_u16 host (b * 34))) [0..<?blocks]) row ?blocks =
      (\<Sum>b\<leftarrow>[0..<?blocks]. block_term half ?w host (map (\<lambda>b. half (load_u16 host (b * 34))) [0..<?blocks]) row ?blocks b)"
    if "row < ?rows" for row
  proof -
    have "(row + 1) * (?blocks * 34) \<le> ?rows * (?blocks * 34)" by (intro mult_le_mono1) (use that in simp)
    then have "(row + 1) * ?blocks * 34 \<le> length ?w" by (simp add: mult.assoc)
    from q8_dot_block_terms [OF assms(10) this _ assms(11)] show ?thesis using host by (simp add: mult.commute)
  qed
  moreover have "(\<Sum>b\<leftarrow>[0..<?blocks]. block_term half ?w (take (?blocks * 34) host)
        (map (\<lambda>b. half (load_u16 (take (?blocks * 34) host) (b * 34))) [0..<?blocks]) row ?blocks b) =
      (\<Sum>b\<leftarrow>[0..<?blocks]. block_term half ?w host (map (\<lambda>b. half (load_u16 host (b * 34))) [0..<?blocks]) row ?blocks b)" for row
    by (rule arg_cong [where f = sum_list], rule map_cong [OF refl]) (simp add: small)
  ultimately show ?thesis
    unfolding mem' host_product_data [OF assms(2,3) host ptr] by (intro map_cong refl) simp
qed

theorem cuda_matvec_host_is_cpu_witness:
  "\<exists>c' mem'. q8_matvec_host (\<lambda>_. 5) \<lparr>weights_context = True, weights_rows = 1, weights_blocks = 1, device_data = Some 99\<rparr>
      (Some (replicate 34 127)) 34 True 4 True (grid 1 32) (grid 1 1)
      (empty_context\<lparr>live := [99 \<mapsto> (DeviceMemory, 34)], fresh := 100\<rparr>,
       \<lparr>bytes_at = (\<lambda>_ _. 2), floats_at = (\<lambda>_ _. 0), host_output = []\<rparr>) = (CUDA_OK, c', mem') \<and>
    host_output mem' = [q8_dot True (\<lambda>_. 5) (stored (\<lambda>_. 2) 34) (replicate 34 127) [5 :: int] 0 1]"
proof -
  let ?c = "empty_context\<lparr>live := [99 \<mapsto> (DeviceMemory, 34)], fresh := 100\<rparr>"
  let ?mem = "\<lparr>bytes_at = (\<lambda>_ _. 2), floats_at = (\<lambda>_ _. 0), host_output = []\<rparr> :: int device_memory"
  let ?w = "\<lparr>weights_context = True, weights_rows = 1, weights_blocks = 1, device_data = Some 99\<rparr>"
  let ?host = "replicate 34 (127 :: i8)"
  let ?run = "q8_matvec_host (\<lambda>_. 5) ?w (Some ?host) 34 True 4 True (grid 1 32) (grid 1 1) (?c, ?mem)"
  have "fst ?run = CUDA_OK"
    by (simp add: q8_matvec_host_def validate_weights_def ensure_host_matvec_scratch_def grow_stale_def discard_def
      create_in_def asked_def asked_release_def forget_def set_bytes_def device_call_def room_def empty_context_def)
  then obtain c' mem' where run: "?run = (CUDA_OK, c', mem')" by (cases ?run) auto
  have s: "sound context_kind context_order ?c" "releases_succeed ?c" "live ?c 99 = Some (DeviceMemory, 34)" "\<forall>s. slots ?c s \<noteq> Some 99"
    by (simp_all add: sound_def releases_succeed_def empty_context_def)
  have "\<forall>b<1. - 128 \<notin> set (slice (b * 34 + 2) 32 ?host)" by (simp add: slice_def)
  from cuda_matvec_host_is_cpu [OF run _ _ s(1,2) _ s(3,4), of True] this
  have "host_output mem' = [q8_dot True (\<lambda>_. 5) (stored (\<lambda>_. 2) 34) ?host [5] 0 1]" by simp
  with run show ?thesis by blast
qed

text \<open>
  Gate and up projection with SiLU, on either kernel and for every order of the blocks: row by row
  the SiLU of the gate's product times the up product.
\<close>

theorem silu_product_rows:
  assumes "in_order rows 1 order" and "rows \<le> length mem"
  shows "launch_q8_silu_product expf half gate up rows blocks activation order mem =
    map (\<lambda>row. silu_of expf (row_product half gate activation blocks row 0) * row_product half up activation blocks row 0) [0..<rows] @
    drop rows mem"
  using launch_rows [OF assms]
  by (simp add: launch_q8_silu_product_def four_warp_row_def one_warp_row_def fused_row_exact one_warp_sum_exact cong: map_cong)

theorem silu_product_rows_witness:
  "launch_q8_silu_product (\<lambda>_. 1) (\<lambda>_. 1) (replicate 34 1) (replicate 34 1) 1 1 (replicate 36 1) (grid 1 1) [7, 8 :: real] ! 1 = 8"
  using silu_product_rows [of 1 "grid 1 1" "[7, 8 :: real]" "\<lambda>_. 1" "\<lambda>_. 1" "replicate 34 1" "replicate 34 1" 1 "replicate 36 1"] by simp

text \<open>
  C31: The plain matrix product starts 128 threads to a block only for more than 96 blocks of weights,
  but a thread always steps over 128: up to 64 blocks, and from 97 on, every element is the exact
  product; for 65 to 96 blocks those from the 65th on are left out of every element.
\<close>

theorem gemm_drops_blocks:
  assumes "in_order batch rows order" and "batch * rows \<le> length mem"
  shows "launch_q8_gemm half weights rows blocks activation batch order mem =
    map (\<lambda>i. if blocks \<le> 64 \<or> 96 < blocks then row_product half weights activation blocks (i mod rows) (i div rows)
      else (\<Sum>b<64. block_part half weights (i mod rows * blocks * 34 + b * 34) activation (i div rows * blocks * 36 + b * 36) 0 32))
      [0..<batch * rows] @ drop (batch * rows) mem"
proof -
  have t: "gemm_threads blocks \<in> {32, 64, 128}" by (simp add: gemm_threads_def)
  have "gemm_element (gemm_threads blocks) half weights activation blocks row token =
      (if blocks \<le> 64 \<or> 96 < blocks then row_product half weights activation blocks row token
       else (\<Sum>b<64. block_part half weights (row * blocks * 34 + b * 34) activation (token * blocks * 36 + b * 36) 0 32))" for row token
  proof -
    have reached: "{b. b < blocks \<and> b mod 128 < gemm_threads blocks} = (if blocks \<le> 64 \<or> 96 < blocks then {..<blocks} else {..<64})"
    proof (intro set_eqI)
      fix b
      show "b \<in> {b. b < blocks \<and> b mod 128 < gemm_threads blocks} \<longleftrightarrow> b \<in> (if blocks \<le> 64 \<or> 96 < blocks then {..<blocks} else {..<64})"
      proof (cases "96 < blocks")
        case True
        then show ?thesis by (simp add: gemm_threads_def)
      next
        case False
        then have "b < blocks \<Longrightarrow> b mod 128 = b" by simp
        then show ?thesis using False by (auto simp: gemm_threads_def)
      qed
    qed
    show ?thesis unfolding gemm_element_blocks [OF t] reached row_product_def by simp
  qed
  then show ?thesis unfolding launch_q8_gemm_def launch_gemm [OF assms] by simp
qed

theorem gemm_drops_blocks_witness:
  "launch_q8_gemm (\<lambda>_. 1) (replicate (65 * 34) 1) 1 65 (replicate (65 * 36) 1) 1 (grid 1 1) [0 :: int] = [2048]"
proof -
  have "bytes_dot (replicate (65 * 34) 1) (b * 34 + 2 + 0) (replicate (65 * 36) 1) (b * 36 + 4 + 0) 32 = 32" if "b < 64" for b
    unfolding bytes_dot_def using that by simp
  then have part: "block_part (\<lambda>_. 1 :: int) (replicate (65 * 34) 1) (b * 34) (replicate (65 * 36) 1) (b * 36) 0 32 = 32" if "b < 64" for b
    using that by (simp add: block_part_def block_scale_def)
  have "(\<Sum>b<64. block_part (\<lambda>_. 1 :: int) (replicate (65 * 34) 1) (b * 34) (replicate (65 * 36) 1) (b * 36) 0 32) = (\<Sum>b<64::nat. 32)"
    by (rule sum.cong) (use part in simp_all)
  then show ?thesis
    using gemm_drops_blocks [of 1 1 "grid 1 1" "[0 :: int]" "\<lambda>_. 1" "replicate (65 * 34) 1" 65 "replicate (65 * 36) 1"]
    by simp
qed

end
