(* ===== verification/CudaQuantize.thy ===== *)
theory CudaQuantize
  imports CudaMatvec
begin

section \<open>Quantisation on the CUDA device\<close>

text \<open>
  Models the three kernels of \<open>src/backend/cuda/fortai_cuda_backend.cu\<close> that quantise activations, one
  thread to a block, one warp to a block, and four warps to four blocks in the layout of the tiled
  products, and the products with activations that are on the device: \<open>fortai_cuda_q8_matvec_device_f32\<close>,
  its pair and \<open>fortai_cuda_q8_ffn_device\<close>. Numbers are elements of an ordered field, the conversions of
  a scale are arguments. The blocks of a grid along two axes are numbered row by row.
\<close>

subsection \<open>Kernels\<close>

definition float2int_rn :: "'f::floor_ceiling \<Rightarrow> i32" where
  "float2int_rn x = word_of_int (max (- 2147483648) (min 2147483647 (rint x)))"

definition quantized_byte :: "'f::floor_ceiling \<Rightarrow> 'f \<Rightarrow> i8" where
  "quantized_byte factor x = scast (float2int_rn (x * factor))"

definition inverse_of :: "'f::floor_ceiling \<Rightarrow> 'f" where
  "inverse_of maximum = (if maximum \<noteq> 0 then 127 / maximum else 0)"

text \<open>The two halves of the scale and the padding: four bytes.\<close>

definition header_stores :: "u16 \<Rightarrow> nat \<Rightarrow> (nat \<times> i8) list" where
  "header_stores scale_bits out = [(out, ucast scale_bits), (out + 1, ucast (drop_bit 8 scale_bits)), (out + 2, 0), (out + 3, 0)]"

definition qwen_quantize_q8 :: "('f::floor_ceiling \<Rightarrow> u16) \<Rightarrow> 'f list \<Rightarrow> nat \<Rightarrow> nat \<times> nat \<Rightarrow> (nat \<times> i8) list" where
  "qwen_quantize_q8 to_half input blocks t =
     (let block = global_index 32 t
      in if block \<ge> blocks then []
         else let input_offset = block * 32; output_offset = block * 36;
                  maximum = fold (\<lambda>i maximum. max maximum \<bar>input ! (input_offset + i)\<bar>) [0..<32] 0;
                  scale = maximum / 127
              in header_stores (to_half scale) output_offset @
                 map (\<lambda>i. (output_offset + 4 + i, quantized_byte (inverse_of maximum) (input ! (input_offset + i)))) [0..<32])"

definition qwen_quantize_q8_batch ::
    "('f::floor_ceiling \<Rightarrow> u16) \<Rightarrow> 'f list \<Rightarrow> nat \<Rightarrow> nat \<Rightarrow> nat \<Rightarrow> nat \<times> nat \<Rightarrow> (nat \<times> i8) list" where
  "qwen_quantize_q8_batch to_half input width blocks batch = (\<lambda>(b, lane).
     let block = b mod blocks; token = b div blocks
     in if block \<ge> blocks \<or> token \<ge> batch \<or> lane \<ge> 32 then []
        else let input_offset = token * width + block * 32; output_offset = (token * blocks + block) * 36;
                 partial = block_tree max 16 (\<lambda>lane. \<bar>input ! (input_offset + lane)\<bar>);
                 maximum = partial 0;
                 scale = maximum / 127
             in (if lane = 0 then header_stores (to_half scale) output_offset else []) @
                [(output_offset + 4 + lane, quantized_byte (inverse_of maximum) (input ! (input_offset + lane)))])"

text \<open>The tiled layout as two arrays: four scales and 128 bytes for each group of a token, group by group.\<close>

definition mmq_thread ::
    "('f::floor_ceiling \<Rightarrow> u16) \<Rightarrow> (u16 \<Rightarrow> 'f) \<Rightarrow> 'f list \<Rightarrow> nat \<Rightarrow> nat \<Rightarrow> nat \<Rightarrow> nat \<times> nat \<Rightarrow> (nat \<times> 'f) list \<times> (nat \<times> i8) list" where
  "mmq_thread to_half of_half input width groups batch = (\<lambda>(b, lane).
     let group = b mod groups; token = b div groups
     in if group \<ge> groups \<or> token \<ge> batch \<or> lane \<ge> 128 then ([], [])
        else let block = lane div 32; element = lane mod 32;
                 input_offset = token * width + group * 128 + block * 32;
                 maximum = warp_xor max 16 (\<lambda>element. \<bar>input ! (input_offset + element)\<bar>) element;
                 scale = of_half (to_half (maximum / 127));
                 row = group * batch + token
             in (if element = 0 then [(row * 4 + block, scale)] else [],
                 [(row * 128 + block * 32 + element, quantized_byte (inverse_of maximum) (input ! (input_offset + element)))]))"

definition launch_quantize :: "('f::floor_ceiling \<Rightarrow> u16) \<Rightarrow> 'f list \<Rightarrow> nat \<Rightarrow> (nat \<times> nat) list \<Rightarrow> i8 list \<Rightarrow> i8 list" where
  "launch_quantize to_half input blocks order output =
     launch (\<lambda>t. store_all (qwen_quantize_q8 to_half input blocks t)) order output"

subsection \<open>What they store\<close>

text \<open>A block of 36 bytes: the AVX2 quantizer's, with two bytes of padding after the scale.\<close>

definition padded_block :: "('f::floor_ceiling \<Rightarrow> u16) \<Rightarrow> 'f list \<Rightarrow> i8 list" where
  "padded_block to_half block = (let (bits, q) = quantize_block True to_half block in scale_bytes bits @ [0, 0] @ q)"

definition padded_blocks :: "('f::floor_ceiling \<Rightarrow> u16) \<Rightarrow> 'f list \<Rightarrow> nat \<Rightarrow> i8 list" where
  "padded_blocks to_half input n = concat (map (\<lambda>b. padded_block to_half (slice (32 * b) 32 input)) [0..<n])"

lemma store_all_target:
  assumes "\<And>i v. (i, v) \<in> set stores \<Longrightarrow> i < length target \<and> v = target ! i"
    and "\<And>i. i < length target \<Longrightarrow> i \<in> fst ` set stores" and "length target \<le> length mem"
  shows "store_all stores mem = target @ drop (length target) mem"
proof (rule nth_equalityI)
  fix i assume i: "i < length (store_all stores mem)"
  show "store_all stores mem ! i = (target @ drop (length target) mem) ! i"
  proof (cases "i < length target")
    case True
    then obtain v where v: "(i, v) \<in> set stores" using assms(2) by force
    have "store_all stores mem ! i = v"
    proof (rule store_all_at [OF v])
      show "w = v" if "(i, w) \<in> set stores" for w using assms(1) [OF that] assms(1) [OF v] by simp
    qed (use i in simp)
    then show ?thesis using assms(1) [OF v] True by (simp add: nth_append)
  next
    case False
    then have "i \<notin> fst ` set stores" using assms(1) by force
    then show ?thesis using False i assms(3) by (simp add: store_all_other nth_append)
  qed
qed (use assms(3) in simp)

lemma slice32: "32 * b + 32 \<le> length xs \<Longrightarrow> length (slice (32 * b) 32 xs) = 32" for xs :: "'a list"
  by (simp add: slice_def)

lemma nth_slice: "i < n \<Longrightarrow> j + n \<le> length xs \<Longrightarrow> slice j n xs ! i = xs ! (j + i)" for xs :: "'a list"
  by (simp add: slice_def)

text \<open>The three ways to the largest magnitude.\<close>

lemma fold_max_magnitude:
  assumes "length xs = n"
  shows "fold (\<lambda>i m. max m \<bar>xs ! i\<bar>) [0..<n] 0 = max_magnitude xs"
proof -
  have "fold (\<lambda>i m. max m \<bar>xs ! i\<bar>) [0..<n] 0 = fold (\<lambda>x m. max m \<bar>x\<bar>) (map ((!) xs) [0..<n]) 0"
    by (simp add: fold_map comp_def)
  also have "map ((!) xs) [0..<n] = xs" using assms by (auto simp: map_nth)
  also have "fold (\<lambda>x m. max m \<bar>x\<bar>) xs 0 = max_magnitude xs"
    unfolding max_magnitude_def by (rule fold_cong) (auto simp: max_def)
  finally show ?thesis .
qed

lemma max_lanes32:
  fixes xs :: "'f::floor_ceiling list"
  assumes "length xs = 32"
  shows "Max ((\<lambda>l. \<bar>xs ! l\<bar>) ` {..<32}) = max_magnitude xs"
proof -
  have "(\<lambda>l. \<bar>xs ! l\<bar>) ` {..<32} = abs ` set xs" using assms by (auto simp: set_conv_nth image_iff)
  moreover have "max_magnitude xs = Max (insert 0 (abs ` set xs))" by (simp add: max_magnitude_def max_magnitude_Max)
  moreover have "abs ` set xs \<noteq> {}" using assms by auto
  moreover have "0 \<le> Max (abs ` set xs)"
  proof -
    have "xs ! 0 \<in> set xs" using assms by simp
    then have "\<bar>xs ! 0\<bar> \<le> Max (abs ` set xs)" by (intro Max_ge) auto
    then show ?thesis using abs_ge_zero [of "xs ! 0"] by linarith
  qed
  ultimately show ?thesis by simp
qed

lemma quantized_byte_exact:
  assumes "x \<in> set block"
  shows "quantized_byte (inverse_of (max_magnitude block)) x = word_of_int (rounded True (x * inverse_scale block))"
proof -
  have i: "inverse_of (max_magnitude block) = inverse_scale block" by (simp add: inverse_of_def inverse_scale_def)
  have r: "rounded True (x * inverse_scale block) = rint (x * inverse_scale block)" by (simp add: rounded_def)
  note b = rounded_bound [OF assms, of True, unfolded r]
  have "sint (word_of_int (rint (x * inverse_scale block)) :: i32) = rint (x * inverse_scale block)"
    by (rule sint_of_range32) (use b in linarith)+
  then show ?thesis using b by (simp add: quantized_byte_def float2int_rn_def i r scast_eq)
qed

lemma nth_padded_block:
  assumes "length block = 32"
  shows "length (padded_block to_half block) = 36"
    and "i < 32 \<Longrightarrow> padded_block to_half block ! (4 + i) = quantized_byte (inverse_of (max_magnitude block)) (block ! i)"
    and "(j, v) \<in> set (header_stores (to_half (max_magnitude block / 127)) out) \<longleftrightarrow>
      (\<exists>k<4. j = out + k \<and> v = padded_block to_half block ! k)"
proof -
  have p: "padded_block to_half block = scale_bytes (to_half (max_magnitude block / 127)) @ [0, 0] @
      map (\<lambda>x. word_of_int (rounded True (x * inverse_scale block))) block"
    by (simp add: padded_block_def quantize_block_bytes [OF assms])
  show "length (padded_block to_half block) = 36" using assms by (simp add: p scale_bytes_def)
  show "i < 32 \<Longrightarrow> padded_block to_half block ! (4 + i) = quantized_byte (inverse_of (max_magnitude block)) (block ! i)"
    using quantized_byte_exact [of "block ! i" block] assms by (simp add: p scale_bytes_def nth_append)
  have "(\<exists>k<4. j = out + k \<and> v = padded_block to_half block ! k) \<longleftrightarrow>
      (\<exists>k\<in>{0, 1, 2, 3}. j = out + k \<and> v = padded_block to_half block ! k)"
  proof -
    have "k < 4 \<longleftrightarrow> k \<in> {0, 1, 2, 3}" for k :: nat by auto
    then show ?thesis by blast
  qed
  then show "(j, v) \<in> set (header_stores (to_half (max_magnitude block / 127)) out) \<longleftrightarrow>
      (\<exists>k<4. j = out + k \<and> v = padded_block to_half block ! k)"
    by (auto simp: p scale_bytes_def header_stores_def)
qed

lemma nth_padded_blocks:
  assumes "32 * n \<le> length input"
  shows "length (padded_blocks to_half input n) = 36 * n"
    and "b < n \<Longrightarrow> k < 36 \<Longrightarrow> padded_blocks to_half input n ! (b * 36 + k) = padded_block to_half (slice (32 * b) 32 input) ! k"
proof -
  have u: "\<forall>x\<in>set (map (\<lambda>b. padded_block to_half (slice (32 * b) 32 input)) [0..<n]). length x = 36"
    using assms by (auto intro!: nth_padded_block(1) slice32)
  show "length (padded_blocks to_half input n) = 36 * n" by (simp add: padded_blocks_def length_concat_uniform [OF u])
  show "b < n \<Longrightarrow> k < 36 \<Longrightarrow> padded_blocks to_half input n ! (b * 36 + k) = padded_block to_half (slice (32 * b) 32 input) ! k"
    unfolding padded_blocks_def using nth_concat_uniform [OF u, of "b * 36 + k"] by (simp add: mult.commute)
qed

subsection \<open>The launches\<close>

text \<open>
  Threads whose stores are those of the blocks they stand for, and that together stand for all blocks,
  fill the memory with the padded blocks.
\<close>

lemma quantizer_fills:
  assumes "32 * n \<le> length input" and "36 * n \<le> length mem"
    and "\<And>t j v. t \<in> set order \<Longrightarrow> (j, v) \<in> set (stores t) \<Longrightarrow>
      \<exists>b<n. \<exists>k<36. j = b * 36 + k \<and> v = padded_block to_half (slice (32 * b) 32 input) ! k"
    and "\<And>b k. b < n \<Longrightarrow> k < 36 \<Longrightarrow> \<exists>t\<in>set order. b * 36 + k \<in> fst ` set (stores t)"
  shows "launch (\<lambda>t. store_all (stores t)) order mem = padded_blocks to_half input n @ drop (36 * n) mem"
proof -
  note len = nth_padded_blocks(1) [OF assms(1), of to_half] and nth = nth_padded_blocks(2) [OF assms(1), of _ _ to_half]
  have "store_all (concat (map stores order)) mem =
      padded_blocks to_half input n @ drop (length (padded_blocks to_half input n)) mem"
  proof (rule store_all_target)
    fix i v assume "(i, v) \<in> set (concat (map stores order))"
    then obtain t where "t \<in> set order" "(i, v) \<in> set (stores t)" by auto
    then obtain b k where b: "b < n" "k < 36" "i = b * 36 + k" "v = padded_block to_half (slice (32 * b) 32 input) ! k"
      using assms(3) by blast
    then show "i < length (padded_blocks to_half input n) \<and> v = padded_blocks to_half input n ! i"
      using nth [OF b(1,2)] len by simp
  next
    fix i assume i: "i < length (padded_blocks to_half input n)"
    then have "i div 36 < n" unfolding len by (simp add: less_mult_imp_div_less mult.commute)
    then obtain t where "t \<in> set order" "i div 36 * 36 + i mod 36 \<in> fst ` set (stores t)"
      using assms(4) [of "i div 36" "i mod 36"] by auto
    then show "i \<in> fst ` set (concat (map stores order))" by (force simp: image_iff)
  qed (use len assms(2) in simp)
  then show ?thesis by (simp add: launch_stores len)
qed

lemma block_stores:
  assumes "length block = 32"
  shows "(j, v) \<in> set (header_stores (to_half (max_magnitude block / 127)) out @
      map (\<lambda>i. (out + 4 + i, quantized_byte (inverse_of (max_magnitude block)) (block ! i))) [0..<32]) \<longleftrightarrow>
    (\<exists>k<36. j = out + k \<and> v = padded_block to_half block ! k)"
proof -
  note p = nth_padded_block [where to_half = to_half, OF assms]
  have "(j, v) \<in> set (map (\<lambda>i. (out + 4 + i, quantized_byte (inverse_of (max_magnitude block)) (block ! i))) [0..<32]) \<longleftrightarrow>
      (\<exists>i<32. j = out + 4 + i \<and> v = padded_block to_half block ! (4 + i))"
    using p(2) by (auto simp: image_iff)
  moreover have "(\<exists>k<36. P k) \<longleftrightarrow> (\<exists>k<4. P k) \<or> (\<exists>i<32. P (4 + i))" for P :: "nat \<Rightarrow> bool"
  proof
    assume "\<exists>k<36. P k"
    then obtain k where k: "k < 36" "P k" by blast
    show "(\<exists>k<4. P k) \<or> (\<exists>i<32. P (4 + i))"
    proof (cases "k < 4")
      case False
      then have "P (4 + (k - 4))" "k - 4 < 32" using k by simp_all
      then show ?thesis by blast
    qed (use k in blast)
  next
    assume "(\<exists>k<4. P k) \<or> (\<exists>i<32. P (4 + i))"
    then show "\<exists>k<36. P k"
    proof (elim disjE exE conjE)
      fix k :: nat assume "k < 4" "P k" then show ?thesis by (intro exI [of _ k]) simp
    next
      fix i :: nat assume "i < 32" "P (4 + i)" then show ?thesis by (intro exI [of _ "4 + i"]) simp
    qed
  qed
  ultimately show ?thesis using p(3) [of j v out] by (simp add: add.assoc)
qed

lemma launch_quantize_blocks:
  assumes "in_order (blocks_for 32 blocks) 32 order" and "32 * blocks \<le> length input" and "36 * blocks \<le> length mem"
  shows "launch_quantize to_half input blocks order mem = padded_blocks to_half input blocks @ drop (36 * blocks) mem"
  unfolding launch_quantize_def
proof (rule quantizer_fills [OF assms(2,3)])
  have stores: "set (qwen_quantize_q8 to_half input blocks t) =
      {(j, v). \<exists>k<36. j = global_index 32 t * 36 + k \<and> v = padded_block to_half (slice (32 * global_index 32 t) 32 input) ! k}"
    if "global_index 32 t < blocks" for t
  proof -
    let ?b = "global_index 32 t" and ?x = "slice (32 * global_index 32 t) 32 input"
    have room: "32 * ?b + 32 \<le> length input" using that assms(2) by linarith
    have x: "length ?x = 32" "?x ! i = input ! (?b * 32 + i)" if "i < 32" for i
      using room that by (simp_all add: slice32 nth_slice mult.commute)
    have "fold (\<lambda>i m. max m \<bar>input ! (?b * 32 + i)\<bar>) [0..<32] 0 = fold (\<lambda>i m. max m \<bar>?x ! i\<bar>) [0..<32] 0"
      by (rule fold_cong) (auto simp: x(2))
    also have "\<dots> = max_magnitude ?x" by (rule fold_max_magnitude) (use x(1) [of 0] in simp)
    finally have m: "fold (\<lambda>i m. max m \<bar>input ! (?b * 32 + i)\<bar>) [0..<32] 0 = max_magnitude ?x" .
    have "qwen_quantize_q8 to_half input blocks t = header_stores (to_half (max_magnitude ?x / 127)) (?b * 36) @
        map (\<lambda>i. (?b * 36 + 4 + i, quantized_byte (inverse_of (max_magnitude ?x)) (?x ! i))) [0..<32]"
      using that by (simp add: qwen_quantize_q8_def m Let_def x(2) cong: map_cong)
    then show ?thesis using block_stores [of ?x _ _ to_half "?b * 36"] x(1) [of 0] by auto
  qed
  show "\<exists>b<blocks. \<exists>k<36. j = b * 36 + k \<and> v = padded_block to_half (slice (32 * b) 32 input) ! k"
    if "(j, v) \<in> set (qwen_quantize_q8 to_half input blocks t)" for t j v
  proof (cases "global_index 32 t < blocks")
    case True
    then show ?thesis using that stores [OF True] by blast
  qed (use that in \<open>simp add: qwen_quantize_q8_def Let_def\<close>)
  show "\<exists>t\<in>set order. b * 36 + k \<in> fst ` set (qwen_quantize_q8 to_half input blocks t)" if "b < blocks" "k < 36" for b k
  proof -
    have "b < blocks_for 32 blocks * 32" using that(1) blocks_for_enough [of 32 blocks] by simp
    then have "b \<in> global_index 32 ` set order" using global_index_range [OF assms(1)] by simp
    then obtain t where t: "t \<in> set order" "global_index 32 t = b" by auto
    then have "(b * 36 + k, padded_block to_half (slice (32 * b) 32 input) ! k) \<in> set (qwen_quantize_q8 to_half input blocks t)"
      using stores [of t] that by auto
    then show ?thesis using t(1) by force
  qed
qed

lemma grid_block: "in_order blocks width order \<Longrightarrow> b < blocks \<Longrightarrow> l < width \<Longrightarrow> (b, l) \<in> set order"
  using in_order_set [of blocks width order] by auto

lemma tree_max_magnitude:
  assumes "length xs = 32" and "\<And>l. l < 32 \<Longrightarrow> v l = \<bar>xs ! l\<bar>"
  shows "block_tree max 16 v 0 = max_magnitude xs"
proof -
  have "block_tree max (2 ^ 4) v 0 = Max (v ` {..<2 ^ Suc 4})" by (simp only: block_tree_lane0 tree_max)
  also have "v ` {..<2 ^ Suc 4} = (\<lambda>l. \<bar>xs ! l\<bar>) ` {..<32}" using assms(2) by (intro image_cong) simp_all
  finally show ?thesis by (simp add: max_lanes32 [OF assms(1)])
qed

text \<open>One warp to a block: the same bytes, for all tokens of a batch.\<close>

definition launch_quantize_batch ::
    "('f::floor_ceiling \<Rightarrow> u16) \<Rightarrow> 'f list \<Rightarrow> nat \<Rightarrow> nat \<Rightarrow> nat \<Rightarrow> (nat \<times> nat) list \<Rightarrow> i8 list \<Rightarrow> i8 list" where
  "launch_quantize_batch to_half input width blocks batch order output =
     launch (\<lambda>t. store_all (qwen_quantize_q8_batch to_half input width blocks batch t)) order output"

lemma launch_quantize_batch_blocks:
  assumes "in_order (batch * blocks) 32 order" and "32 * (batch * blocks) \<le> length input" and "36 * (batch * blocks) \<le> length mem"
  shows "launch_quantize_batch to_half input (32 * blocks) blocks batch order mem =
    padded_blocks to_half input (batch * blocks) @ drop (36 * (batch * blocks)) mem"
  unfolding launch_quantize_batch_def
proof (rule quantizer_fills [OF assms(2,3)])
  have stores: "set (qwen_quantize_q8_batch to_half input (32 * blocks) blocks batch (b, lane)) =
      {(j, v). (lane = 0 \<and> (\<exists>k<4. j = b * 36 + k \<and> v = padded_block to_half (slice (32 * b) 32 input) ! k)) \<or>
         j = b * 36 + (4 + lane) \<and> v = padded_block to_half (slice (32 * b) 32 input) ! (4 + lane)}"
    if b: "b < batch * blocks" and l: "lane < 32" for b lane
  proof -
    let ?x = "slice (32 * b) 32 input"
    have pos: "0 < blocks" using b by (cases blocks) simp_all
    then have digits: "b mod blocks < blocks" "b div blocks < batch" using b by (simp_all add: less_mult_imp_div_less)
    have sum: "b div blocks * blocks + b mod blocks = b" by simp
    have "b div blocks * (32 * blocks) + b mod blocks * 32 = 32 * (b div blocks * blocks + b mod blocks)"
      by (simp only: distrib_left mult.commute mult.left_commute)
    then have at: "b div blocks * (32 * blocks) + b mod blocks * 32 = 32 * b" unfolding sum .
    have room: "32 * b + 32 \<le> length input" using b assms(2) by linarith
    then have x: "length ?x = 32" by (rule slice32)
    have xi: "input ! (32 * b + i) = ?x ! i" if "i < 32" for i using nth_slice [OF that room] by simp
    have m: "block_tree max 16 (\<lambda>lane. \<bar>input ! (32 * b + lane)\<bar>) 0 = max_magnitude ?x"
      by (rule tree_max_magnitude [OF x]) (simp add: xi)
    have "qwen_quantize_q8_batch to_half input (32 * blocks) blocks batch (b, lane) =
        (if lane = 0 then header_stores (to_half (max_magnitude ?x / 127)) (b * 36) else []) @
        [(b * 36 + 4 + lane, quantized_byte (inverse_of (max_magnitude ?x)) (?x ! lane))]"
      using digits l by (simp add: qwen_quantize_q8_batch_def Let_def at sum m xi)
    then show ?thesis using nth_padded_block(3) [where to_half = to_half, OF x] nth_padded_block(2) [OF x l, of to_half]
      by (auto simp: add.assoc)
  qed
  show "\<exists>c<batch * blocks. \<exists>k<36. j = c * 36 + k \<and> v = padded_block to_half (slice (32 * c) 32 input) ! k"
    if t: "t \<in> set order" "(j, v) \<in> set (qwen_quantize_q8_batch to_half input (32 * blocks) blocks batch t)" for t j v
  proof -
    obtain b lane where bl: "t = (b, lane)" "b < batch * blocks" "lane < 32" using t(1) in_order_set [OF assms(1)] by auto
    from t(2) [unfolded bl(1) stores [OF bl(2,3)]] consider k where "k < 4" "j = b * 36 + k" "v = padded_block to_half (slice (32 * b) 32 input) ! k"
      | "j = b * 36 + (4 + lane)" "v = padded_block to_half (slice (32 * b) 32 input) ! (4 + lane)" by auto
    then show ?thesis
    proof cases
      case (1 k)
      then show ?thesis using bl(2) by (intro exI [of _ b] conjI exI [of _ k]) simp_all
    next
      case 2
      then show ?thesis using bl(2,3) by (intro exI [of _ b] conjI exI [of _ "4 + lane"]) simp_all
    qed
  qed
  show "\<exists>t\<in>set order. b * 36 + k \<in> fst ` set (qwen_quantize_q8_batch to_half input (32 * blocks) blocks batch t)"
    if "b < batch * blocks" "k < 36" for b k
  proof (cases "k < 4")
    case True
    have "(b * 36 + k, padded_block to_half (slice (32 * b) 32 input) ! k) \<in>
        set (qwen_quantize_q8_batch to_half input (32 * blocks) blocks batch (b, 0))"
      using stores [OF that(1), of 0] True by auto
    then show ?thesis using grid_block [OF assms(1) that(1), of 0] by force
  next
    case False
    then have "k - 4 < 32" "b * 36 + k = b * 36 + (4 + (k - 4))" using that(2) by simp_all
    moreover from this have "(b * 36 + k, padded_block to_half (slice (32 * b) 32 input) ! (4 + (k - 4))) \<in>
        set (qwen_quantize_q8_batch to_half input (32 * blocks) blocks batch (b, k - 4))"
      using stores [OF that(1), of "k - 4"] by auto
    ultimately show ?thesis using grid_block [OF assms(1) that(1), of "k - 4"] by force
  qed
qed

text \<open>Four warps to a group: the thread's byte and, from the first lane of a warp, its scale.\<close>

lemma mmq_thread_stores:
  assumes "g < groups" and "token < batch" and "lane < 128" and "length input = batch * (128 * groups)"
  shows "mmq_thread to_half of_half input (128 * groups) groups batch (token * groups + g, lane) =
    (let block = slice (token * (128 * groups) + g * 128 + lane div 32 * 32) 32 input; q = quantize_block True to_half block;
         row = g * batch + token
     in (if lane mod 32 = 0 then [(row * 4 + lane div 32, of_half (fst q))] else [], [(row * 128 + lane, snd q ! (lane mod 32))]))"
proof -
  let ?off = "token * (128 * groups) + g * 128 + lane div 32 * 32"
  let ?x = "slice ?off 32 input"
  have digits: "(token * groups + g) mod groups = g" "(token * groups + g) div groups = token"
    using assms(1) by simp_all
  have "lane div 32 \<le> 3" using assms(3) by simp
  moreover have "token * (128 * groups) + 128 * groups \<le> length input"
  proof -
    have "Suc token * (128 * groups) \<le> batch * (128 * groups)" using assms(2) by (intro mult_le_mono1) simp
    then show ?thesis using assms(4) by simp
  qed
  ultimately have room: "?off + 32 \<le> length input" using assms(1) by linarith
  then have x: "length ?x = 32" by (simp add: slice_def)
  have xi: "input ! (?off + i) = ?x ! i" if "i < 32" for i using nth_slice [OF that room] by simp
  have e: "lane mod 32 < 32" by simp
  have "warp_xor max 16 (\<lambda>element. \<bar>input ! (?off + element)\<bar>) (lane mod 32) = Max ((\<lambda>l. \<bar>input ! (?off + l)\<bar>) ` {..<32})"
    by (rule warp_xor_max) simp
  also have "(\<lambda>l. \<bar>input ! (?off + l)\<bar>) ` {..<32} = (\<lambda>l. \<bar>?x ! l\<bar>) ` {..<32}" by (intro image_cong) (simp_all add: xi)
  finally have m: "warp_xor max 16 (\<lambda>element. \<bar>input ! (?off + element)\<bar>) (lane mod 32) = max_magnitude ?x"
    by (simp add: max_lanes32 [OF x])
  have byte: "quantized_byte (inverse_of (max_magnitude ?x)) (?x ! (lane mod 32)) = snd (quantize_block True to_half ?x) ! (lane mod 32)"
    using quantized_byte_exact [of "?x ! (lane mod 32)" ?x] x by (simp add: quantize_block_bytes [OF x])
  have at: "(g * batch + token) * 128 + lane div 32 * 32 + lane mod 32 = (g * batch + token) * 128 + lane" by simp
  have scale: "fst (quantize_block True to_half ?x) = to_half (max_magnitude ?x / 127)" by (simp add: quantize_block_bytes [OF x])
  have guard: "\<not> (g \<ge> groups \<or> token \<ge> batch \<or> lane \<ge> 128)" using assms(1-3) by simp
  show ?thesis
    unfolding mmq_thread_def prod.case digits Let_def if_not_P [OF guard] m xi [OF e] byte scale at ..
qed

subsection \<open>Products with activations on the device\<close>

text \<open>
  These functions start kernels and return without waiting for the device. A launch is answered by
  the runtime; whether the memory it needs is there shows only when it runs, after the function has
  returned its status. The contents of the device memory are \<open>None\<close> once a kernel ran outside its buffers.
\<close>

definition launch_call ::
    "(context_slot \<times> nat) list \<Rightarrow> ((context_slot \<Rightarrow> nat) \<Rightarrow> 'm \<Rightarrow> 'm) \<Rightarrow> (cuda_context \<times> 'm option) call" where
  "launch_call needed f = (\<lambda>(c, mem). let (ok, c) = asked c
     in if \<not> ok then (False, c, mem)
        else (True, c, if list_all (\<lambda>(s, n). room c s n) needed then map_option (f (\<lambda>s. the (slots c s))) mem else None))"

text \<open>The launches of one function in order, until one is refused.\<close>

definition run_device ::
    "((context_slot \<times> nat) list \<times> ((context_slot \<Rightarrow> nat) \<Rightarrow> 'm \<Rightarrow> 'm)) list \<Rightarrow> (cuda_context \<times> 'm option) call" where
  "run_device steps = chain (map (\<lambda>(needed, f). launch_call needed f) steps)"

definition quantize_from ::
    "('f::floor_ceiling \<Rightarrow> u16) \<Rightarrow> ((context_slot \<Rightarrow> nat) \<Rightarrow> nat) \<Rightarrow> nat \<Rightarrow> (nat \<times> nat) list \<Rightarrow> (context_slot \<Rightarrow> nat) \<Rightarrow>
     'f device_memory \<Rightarrow> 'f device_memory" where
  "quantize_from to_half source blocks order ptr mem =
     mem\<lparr>bytes_at := (bytes_at mem)(ptr ScratchActivation :=
       overwrite (launch_quantize to_half (stored (floats_at mem (source ptr)) (blocks * 32)) blocks order
           (stored (bytes_at mem (ptr ScratchActivation)) (blocks * 36)))
         (bytes_at mem (ptr ScratchActivation)))\<rparr>"

definition multiply_into ::
    "(u16 \<Rightarrow> 'f::comm_ring_1) \<Rightarrow> nat \<Rightarrow> nat \<Rightarrow> nat \<Rightarrow> (nat \<times> nat) list \<Rightarrow> nat \<Rightarrow> (context_slot \<Rightarrow> nat) \<Rightarrow>
     'f device_memory \<Rightarrow> 'f device_memory" where
  "multiply_into half weights rows blocks order out ptr mem =
     mem\<lparr>floats_at := (floats_at mem)(out :=
       overwrite (launch_q8 half (stored (bytes_at mem weights) (rows * blocks * 34)) rows blocks
           (stored (bytes_at mem (ptr ScratchActivation)) (blocks * 36)) order (stored (floats_at mem out) rows))
         (floats_at mem out))\<rparr>"

definition gate_and_up ::
    "('f::field \<Rightarrow> 'f) \<Rightarrow> (u16 \<Rightarrow> 'f) \<Rightarrow> nat \<Rightarrow> nat \<Rightarrow> nat \<Rightarrow> nat \<Rightarrow> (nat \<times> nat) list \<Rightarrow> (context_slot \<Rightarrow> nat) \<Rightarrow>
     'f device_memory \<Rightarrow> 'f device_memory" where
  "gate_and_up expf half gate up rows blocks order ptr mem =
     mem\<lparr>floats_at := (floats_at mem)(ptr ScratchOutput :=
       overwrite (launch_q8_silu_product expf half (stored (bytes_at mem gate) (rows * blocks * 34))
           (stored (bytes_at mem up) (rows * blocks * 34)) rows blocks
           (stored (bytes_at mem (ptr ScratchActivation)) (blocks * 36)) order (stored (floats_at mem (ptr ScratchOutput)) rows))
         (floats_at mem (ptr ScratchOutput)))\<rparr>"

text \<open>\<open>activation\<close> and \<open>out\<close>: the client's device pointers, with the numbers of elements it gives.\<close>

definition q8_matvec_device_f32 ::
    "('f::floor_ceiling \<Rightarrow> u16) \<Rightarrow> (u16 \<Rightarrow> 'f) \<Rightarrow> q8_weights \<Rightarrow> nat option \<Rightarrow> nat \<Rightarrow> nat option \<Rightarrow> nat \<Rightarrow>
     (nat \<times> nat) list \<Rightarrow> (nat \<times> nat) list \<Rightarrow> cuda_context \<times> 'f device_memory option \<Rightarrow> int \<times> cuda_context \<times> 'f device_memory option" where
  "q8_matvec_device_f32 to_half half w activation activation_elements out output_elements order1 order2 = (\<lambda>(c, mem).
     if \<not> weights_context w \<or> activation = None \<or> out = None \<or> activation_elements \<noteq> weights_blocks w * 32 \<or>
       output_elements < weights_rows w then (CUDA_INVALID, c, mem)
     else let blocks = weights_blocks w;
              (ok, c) = ensure_device_matvec_scratch activation_elements c;
              (ok, c, mem) = (if \<not> ok then (False, c, mem) else
                run_device [([(ScratchActivation, blocks * 36)], quantize_from to_half (\<lambda>_. the activation) blocks order1),
                            ([(ScratchActivation, blocks * 36)],
                             multiply_into half (the (device_data w)) (weights_rows w) blocks order2 (the out))] (c, mem))
          in if ok then (CUDA_OK, c, mem) else (CUDA_RUNTIME_ERROR, c\<lparr>message := ''device F32 matvec''\<rparr>, mem))"

definition q8_matvec_device_f32_pair ::
    "('f::floor_ceiling \<Rightarrow> u16) \<Rightarrow> (u16 \<Rightarrow> 'f) \<Rightarrow> q8_weights \<Rightarrow> q8_weights \<Rightarrow> nat option \<Rightarrow> nat \<Rightarrow> nat option \<Rightarrow> nat \<Rightarrow> nat option \<Rightarrow> nat \<Rightarrow>
     (nat \<times> nat) list \<Rightarrow> (nat \<times> nat) list \<Rightarrow> (nat \<times> nat) list \<Rightarrow> cuda_context \<times> 'f device_memory option \<Rightarrow> int \<times> cuda_context \<times> 'f device_memory option" where
  "q8_matvec_device_f32_pair to_half half w1 w2 activation activation_elements out1 elements1 out2 elements2 order1 order2 order3 = (\<lambda>(c, mem).
     if \<not> weights_context w1 \<or> \<not> weights_context w2 \<or> activation = None \<or> out1 = None \<or> out2 = None \<or>
       activation_elements \<noteq> weights_blocks w1 * 32 \<or> weights_blocks w1 \<noteq> weights_blocks w2 \<or>
       elements1 < weights_rows w1 \<or> elements2 < weights_rows w2 then (CUDA_INVALID, c, mem)
     else let blocks = weights_blocks w1;
              (ok, c) = ensure_device_matvec_scratch activation_elements c;
              (ok, c, mem) = (if \<not> ok then (False, c, mem) else
                run_device [([(ScratchActivation, blocks * 36)], quantize_from to_half (\<lambda>_. the activation) blocks order1),
                            ([(ScratchActivation, blocks * 36)], \<lambda>ptr.
                             multiply_into half (the (device_data w2)) (weights_rows w2) blocks order3 (the out2) ptr \<circ>
                             multiply_into half (the (device_data w1)) (weights_rows w1) blocks order2 (the out1) ptr)] (c, mem))
          in if ok then (CUDA_OK, c, mem) else (CUDA_RUNTIME_ERROR, c\<lparr>message := ''device F32 matvec pair''\<rparr>, mem))"

definition q8_ffn_device ::
    "('f::floor_ceiling \<Rightarrow> 'f) \<Rightarrow> ('f \<Rightarrow> u16) \<Rightarrow> (u16 \<Rightarrow> 'f) \<Rightarrow> q8_weights \<Rightarrow> q8_weights \<Rightarrow> q8_weights \<Rightarrow> nat option \<Rightarrow> nat \<Rightarrow> nat option \<Rightarrow> nat \<Rightarrow>
     (nat \<times> nat) list \<Rightarrow> (nat \<times> nat) list \<Rightarrow> (nat \<times> nat) list \<Rightarrow> (nat \<times> nat) list \<Rightarrow>
     cuda_context \<times> 'f device_memory option \<Rightarrow> int \<times> cuda_context \<times> 'f device_memory option" where
  "q8_ffn_device expf to_half half gate up down activation activation_elements out output_elements order1 order2 order3 order4 = (\<lambda>(c, mem).
     if activation = None \<or> out = None \<or>
       \<not> weights_context gate \<or> \<not> weights_context up \<or> \<not> weights_context down \<or> weights_blocks gate \<noteq> weights_blocks up \<or>
       weights_rows gate \<noteq> weights_rows up \<or> weights_rows gate \<noteq> weights_blocks down * 32 \<or>
       device_data gate = None \<or> device_data up = None \<or> device_data down = None \<or>
       activation_elements \<noteq> weights_blocks gate * 32 \<or> output_elements < weights_rows down then (CUDA_INVALID, c, mem)
     else let activation_bytes = weights_blocks gate * 34; down_activation_bytes = weights_blocks down * 34;
              gate_bytes = weights_rows gate * 4; output_bytes = weights_rows down * 4;
              (ok, c) = chain ([ensure_host_matvec_scratch (max activation_bytes down_activation_bytes) (max gate_bytes output_bytes)] @
                (if weights_blocks gate \<ge> 128 then [ensure_aux_scratch gate_bytes] else [])) c;
              (ok, c, mem) = (if \<not> ok then (False, c, mem) else
                run_device [([(ScratchActivation, weights_blocks gate * 36)], quantize_from to_half (\<lambda>_. the activation) (weights_blocks gate) order1),
                            ([(ScratchActivation, weights_blocks gate * 36), (ScratchOutput, gate_bytes)],
                             gate_and_up expf half (the (device_data gate)) (the (device_data up)) (weights_rows gate) (weights_blocks gate) order2),
                            ([(ScratchActivation, weights_blocks down * 36), (ScratchOutput, gate_bytes)],
                             quantize_from to_half (\<lambda>ptr. ptr ScratchOutput) (weights_blocks down) order3),
                            ([(ScratchActivation, weights_blocks down * 36)],
                             multiply_into half (the (device_data down)) (weights_rows down) (weights_blocks down) order4 (the out))] (c, mem))
          in if ok then (CUDA_OK, c, mem) else (CUDA_RUNTIME_ERROR, c\<lparr>message := ''Qwen FFN device''\<rparr>, mem))"

subsection \<open>The products in exact arithmetic\<close>

lemma launch_call_run:
  assumes "launch_call needed f (c, mem) = (True, c', mem')"
  shows "mem' = (if list_all (\<lambda>(s, n). room c s n) needed then map_option (f (\<lambda>s. the (slots c s))) mem else None)"
    and "slots c' = slots c" and "live c' = live c"
proof -
  obtain ok d where a: "asked c = (ok, d)" by (cases "asked c") auto
  have d: "slots d = slots c" "live d = live c" using asked_same [of c] a by simp_all
  then have "room d s n = room c s n" for s n by (intro room_same) simp_all
  then have "room d = room c" by (intro ext)
  then show "mem' = (if list_all (\<lambda>(s, n). room c s n) needed then map_option (f (\<lambda>s. the (slots c s))) mem else None)"
    and "slots c' = slots c" and "live c' = live c"
    using assms a d by (auto simp: launch_call_def split: if_splits)
qed

lemma run_device_done:
  assumes "run_device steps (c, mem) = (True, c', mem')"
  shows "mem' = (if list_all (\<lambda>(needed, f). list_all (\<lambda>(s, n). room c s n) needed) steps
    then map_option (fold (\<lambda>(needed, f). f (\<lambda>s. the (slots c s))) steps) mem else None)"
  using assms unfolding run_device_def
proof (induction steps arbitrary: c mem)
  case (Cons step steps)
  obtain needed f where step: "step = (needed, f)" by (cases step)
  obtain c1 mem1 where 1: "launch_call needed f (c, mem) = (True, c1, mem1)"
    and rest: "chain (map (\<lambda>(needed, f). launch_call needed f) steps) (c1, mem1) = (True, c', mem')"
    using chain_run_cons [OF Cons.prems [unfolded step list.map prod.case]] by auto
  note d = launch_call_run [OF 1]
  have "room c1 = room c" by (intro ext room_same) (simp_all add: d)
  then show ?case using Cons.IH [OF rest] d step by (auto simp: option.map_comp comp_def)
qed (simp add: option.map_id)

lemma stray_kept:
  assumes "context_keeps c c1" and "sound context_kind context_order c" and "releases_succeed c"
    and "live c p = Some x" and "\<forall>s. slots c s \<noteq> Some p"
  shows "slots c1 s \<noteq> Some p"
proof -
  have "strays c1 p = Some x" using assms by (auto simp: keeps_def strays_def)
  then have "Some p \<notin> range (slots c1)" by (simp add: strays_def split: if_splits)
  then show ?thesis by (metis rangeI)
qed

lemma load_scale_bytes: "ucast (ucast bits :: i8) OR push_bit 8 (ucast (ucast (drop_bit 8 bits) :: i8)) = (bits :: u16)"
  by (rule bit_word_eqI) (auto simp: bit_simps)

text \<open>A row times padded blocks is the CPU's dot product with what the quantizer writes.\<close>

lemma padded_product:
  fixes input :: "'f::floor_ceiling list"
  assumes "length input = 32 * n" and "n < 2 ^ 31" and "(row + 1) * n * 34 \<le> length weights"
    and "q8_quantize True to_half half input = Some (bytes, scales)"
  shows "row_product half weights (padded_blocks to_half input n) n row 0 = q8_dot avx2 half weights bytes scales row n"
proof -
  let ?a = "padded_blocks to_half input n"
  let ?block = "\<lambda>b. slice (32 * b) 32 input"
  have part: "block_part half weights (row * n * 34 + b * 34) ?a (b * 36) 0 32 =
      (let offset = (row * n + b) * 34 in half (load_u16 weights offset) * half (to_half (max_magnitude (?block b) / 127)) *
         of_int (\<Sum>i\<leftarrow>[0..<32]. sint (weights ! (offset + 2 + i)) * rounded True (?block b ! i * inverse_scale (?block b))))"
    if b: "b < n" for b
  proof -
    have len: "length (?block b) = 32" using assms(1) b by (simp add: slice_def)
    have at: "?a ! (b * 36 + k) = padded_block to_half (?block b) ! k" if "k < 36" for k
      using nth_padded_blocks(2) [of n input b k to_half] assms(1) b that by simp
    have p: "padded_block to_half (?block b) = scale_bytes (to_half (max_magnitude (?block b) / 127)) @ [0, 0] @
        map (\<lambda>x. word_of_int (rounded True (x * inverse_scale (?block b)))) (?block b)"
      by (simp add: padded_block_def quantize_block_bytes [OF len])
    have "load_u16 ?a (b * 36) = to_half (max_magnitude (?block b) / 127)"
      using at [of 0] at [of 1] by (simp add: p scale_bytes_def load_u16_def load_scale_bytes)
    moreover have "bytes_dot weights (row * n * 34 + b * 34 + 2) ?a (b * 36 + 4) 32 =
        (\<Sum>i\<leftarrow>[0..<32]. sint (weights ! ((row * n + b) * 34 + 2 + i)) * rounded True (?block b ! i * inverse_scale (?block b)))"
    proof -
      have "sint (?a ! (b * 36 + 4 + i)) = rounded True (?block b ! i * inverse_scale (?block b))" if "i < 32" for i
        using at [of "4 + i"] that len rounded_bound [of "?block b ! i" "?block b" True]
        by (simp add: p scale_bytes_def nth_append add.assoc sint_of_range8)
      then have "bytes_dot weights (row * n * 34 + b * 34 + 2) ?a (b * 36 + 4) 32 =
          (\<Sum>i<32. sint (weights ! ((row * n + b) * 34 + 2 + i)) * rounded True (?block b ! i * inverse_scale (?block b)))"
        unfolding bytes_dot_def by (intro sum.cong) (simp_all add: algebra_simps)
      then show ?thesis by (simp add: interv_sum_list_conv_sum_set_nat lessThan_atLeast0)
    qed
    ultimately show ?thesis by (simp add: block_part_def block_scale_def Let_def algebra_simps)
  qed
  have "row_product half weights ?a n row 0 = (\<Sum>b<n. block_part half weights (row * n * 34 + b * 34) ?a (b * 36) 0 32)"
    by (simp add: row_product_def)
  also have "\<dots> = (\<Sum>b\<leftarrow>[0..<n]. block_part half weights (row * n * 34 + b * 34) ?a (b * 36) 0 32)"
    by (simp add: interv_sum_list_conv_sum_set_nat lessThan_atLeast0)
  also have "\<dots> = q8_dot avx2 half weights bytes scales row n"
    unfolding quantized_product [OF assms] Let_def
    by (rule arg_cong [where f = sum_list], rule map_cong [OF refl]) (use part in \<open>simp add: Let_def\<close>)
  finally show ?thesis .
qed

text \<open>One step each: what the kernels leave at the addresses they write.\<close>

lemma quantize_from_bytes:
  assumes "in_order (blocks_for 32 blocks) 32 order"
  shows "stored (bytes_at (quantize_from to_half source blocks order ptr mem) (ptr ScratchActivation)) (blocks * 36) =
      padded_blocks to_half (stored (floats_at mem (source ptr)) (blocks * 32)) blocks"
    and "q \<noteq> ptr ScratchActivation \<Longrightarrow> bytes_at (quantize_from to_half source blocks order ptr mem) q = bytes_at mem q"
    and "floats_at (quantize_from to_half source blocks order ptr mem) = floats_at mem"
  using launch_quantize_blocks [OF assms, of "stored (floats_at mem (source ptr)) (blocks * 32)"
      "stored (bytes_at mem (ptr ScratchActivation)) (blocks * 36)" to_half]
    nth_padded_blocks(1) [of blocks "stored (floats_at mem (source ptr)) (blocks * 32)" to_half]
  by (simp_all add: quantize_from_def stored_overwrite mult.commute)

lemma multiply_into_floats:
  assumes "in_order rows 1 order"
  shows "stored (floats_at (multiply_into half weights rows blocks order out ptr mem) out) rows =
      map (\<lambda>row. row_product half (stored (bytes_at mem weights) (rows * blocks * 34))
        (stored (bytes_at mem (ptr ScratchActivation)) (blocks * 36)) blocks row 0) [0..<rows]"
  by (simp add: multiply_into_def launch_q8_rows [OF assms] stored_overwrite)

lemma gate_and_up_floats:
  assumes "in_order rows 1 order"
  shows "stored (floats_at (gate_and_up expf half gate up rows blocks order ptr mem) (ptr ScratchOutput)) rows =
      map (\<lambda>row. silu_of expf (row_product half (stored (bytes_at mem gate) (rows * blocks * 34))
          (stored (bytes_at mem (ptr ScratchActivation)) (blocks * 36)) blocks row 0) *
        row_product half (stored (bytes_at mem up) (rows * blocks * 34))
          (stored (bytes_at mem (ptr ScratchActivation)) (blocks * 36)) blocks row 0) [0..<rows]"
    and "bytes_at (gate_and_up expf half gate up rows blocks order ptr mem) = bytes_at mem"
  by (simp_all add: gate_and_up_def launch_q8_silu_product_def launch_rows [OF assms] stored_overwrite
    four_warp_row_def one_warp_row_def fused_row_exact one_warp_sum_exact cong: map_cong)

text \<open>All rows of a product with what was quantised are the CPU's.\<close>

lemma quantised_rows:
  fixes input :: "'f::floor_ceiling list"
  assumes "length input = 32 * n" and "n < 2 ^ 31" and "q8_quantize True to_half half input = Some (bytes, scales)"
  shows "map (\<lambda>row. row_product half (stored w (rows * n * 34)) (padded_blocks to_half input n) n row 0) [0..<rows] =
    map (\<lambda>row. q8_dot avx2 half (stored w (rows * n * 34)) bytes scales row n) [0..<rows]"
proof (intro map_cong refl)
  fix row assume "row \<in> set [0..<rows]"
  then have "(row + 1) * (n * 34) \<le> rows * (n * 34)" by (intro mult_le_mono1) simp
  then have "(row + 1) * n * 34 \<le> length (stored w (rows * n * 34))" by (simp add: mult.assoc)
  then show "row_product half (stored w (rows * n * 34)) (padded_blocks to_half input n) n row 0 =
      q8_dot avx2 half (stored w (rows * n * 34)) bytes scales row n"
    by (rule padded_product [OF assms(1,2) _ assms(3)])
qed

text \<open>An address the scratch buffers do not hold is none of theirs after they were ensured.\<close>

lemma scratch_elsewhere:
  assumes "context_keeps c c1" and "sound context_kind context_order c" and "releases_succeed c"
    and "live c p = Some x" and "\<forall>s. slots c s \<noteq> Some p" and "slots c1 s \<noteq> None"
  shows "the (slots c1 s) \<noteq> p"
  using stray_kept [OF assms(1-5), of s] assms(6) by auto

text \<open>The room the feed-forward block has in its scratch.\<close>

lemma ffn_scratch_room:
  assumes "sound context_kind context_order c" and "sized c ScratchActivation" and "sized c ScratchOutput"
    and "0 < gb" and "0 < dr"
    and "chain ([ensure_host_matvec_scratch (max (gb * 34) (db * 34)) (max (gr * 4) (dr * 4))] @
      (if gb \<ge> 128 then [ensure_aux_scratch (gr * 4)] else [])) c = (True, c1)"
  shows "room c1 ScratchActivation (gb * 36)" and "room c1 ScratchActivation (db * 36)" and "room c1 ScratchOutput (gr * 4)"
proof -
  let ?a = "max (gb * 34) (db * 34)" and ?b = "max (gr * 4) (dr * 4)"
  obtain c2 where h: "ensure_host_matvec_scratch ?a ?b c = (True, c2)"
    and rest: "(if gb \<ge> 128 then ensure_aux_scratch (gr * 4) c2 else (True, c2)) = (True, c1)"
    using assms(6) by (auto split: prod.splits if_splits)
  have "34 \<le> ?a" "0 < ?b" using assms(4,5) by (simp_all add: le_max_iff_disj less_max_iff_disj)
  note r = host_scratch_room [OF assms(1-3) this h]
  have s2: "sound context_kind context_order c2"
    using keeps_scratch(1) [of c ?a ?b] assms(1) h by (simp add: keeps_def)
  have same: "room c1 t n = room c2 t n" if "t \<noteq> ScratchAux" for t n
    using rest grow_stale_kept(1) [OF s2 that, of DeviceMemory "gr * 4"] by (auto simp: ensure_aux_scratch_def split: if_splits)
  have "?a div 34 = max gb db" by (simp add: max_def)
  then show "room c1 ScratchActivation (gb * 36)" "room c1 ScratchActivation (db * 36)" "room c1 ScratchOutput (gr * 4)"
    using r by (auto simp: same elim: room_mono)
qed

subsection \<open>Properties\<close>

text \<open>
  C29: Quantisation by one thread to a block and by one warp to a block, for every order of the grid,
  both leave the bytes of the CPU's AVX2 quantizer, block by block and padded to 36 bytes, and
  nothing after them.
\<close>

theorem cuda_quantizers_agree:
  assumes "in_order (blocks_for 32 (batch * blocks)) 32 order1" and "in_order (batch * blocks) 32 order2"
    and "length input = 32 * (batch * blocks)" and "36 * (batch * blocks) \<le> length mem"
  shows "launch_quantize to_half input (batch * blocks) order1 mem = padded_blocks to_half input (batch * blocks) @ drop (36 * (batch * blocks)) mem \<and>
    launch_quantize_batch to_half input (32 * blocks) blocks batch order2 mem = launch_quantize to_half input (batch * blocks) order1 mem"
proof -
  have "32 * (batch * blocks) \<le> length input" using assms(3) by simp
  from launch_quantize_blocks [OF assms(1) this assms(4)] launch_quantize_batch_blocks [OF assms(2) this assms(4)]
  show ?thesis by simp
qed

theorem cuda_quantizers_agree_witness:
  "launch_quantize_batch (\<lambda>_. 256) (replicate 64 (127 :: rat)) 32 1 2 (grid 2 32) (replicate 72 0) =
    [0, 1, 0, 0] @ replicate 32 127 @ [0, 1, 0, 0] @ replicate 32 127"
proof -
  have q: "padded_block (\<lambda>_. 256) (replicate 32 (127 :: rat)) = [0, 1, 0, 0] @ replicate 32 127" by code_simp
  have s: "slice (32 * b) 32 (replicate 64 (127 :: rat)) = replicate 32 127" if "b < 2" for b
    using that by (simp add: slice_def)
  have "[0..<2] = [0, 1 :: nat]" by (simp add: upt_rec)
  then have "padded_blocks (\<lambda>_. 256) (replicate 64 (127 :: rat)) 2 =
      ([0, 1, 0, 0] @ replicate 32 127) @ ([0, 1, 0, 0] @ replicate 32 127)"
    using s [of 0] s [of 1] q by (simp add: padded_blocks_def)
  moreover have "in_order (blocks_for 32 (2 * 1)) 32 (grid (blocks_for 32 (2 * 1)) 32)" "in_order (2 * 1) 32 (grid 2 32)" by simp_all
  note cuda_quantizers_agree [OF this, of "replicate 64 (127 :: rat)" "replicate 72 0" "\<lambda>_. 256"]
  ultimately show ?thesis by simp
qed

text \<open>
  When the product with an activation on the device reports success, and no failed growth left its
  scratch without memory, the kernels stay inside their buffers and the output is, row by row, the
  CPU's dot product, scalar or AVX2, of the same weights with what the CPU's AVX2 quantizer makes of
  the activation, in exact arithmetic and for every order of the grids.
\<close>

theorem cuda_matvec_f32_is_cpu:
  assumes "q8_matvec_device_f32 to_half half w (Some a) n (Some out) m order1 order2 (c, Some mem) = (CUDA_OK, c', mem')"
    and "in_order (blocks_for 32 (weights_blocks w)) 32 order1" and "in_order (weights_rows w) 1 order2"
    and "sound context_kind context_order c" and "releases_succeed c" and "sized c ScratchActivation"
    and "device_data w = Some p" and "live c p = Some x" and "\<forall>s. slots c s \<noteq> Some p" and "weights_blocks w < 2 ^ 31"
    and "q8_quantize True to_half half (stored (floats_at mem a) n) = Some (quantised, scales)"
  shows "\<exists>after. mem' = Some after \<and> stored (floats_at after out) (weights_rows w) =
    map (\<lambda>row. q8_dot avx2 half (stored (bytes_at mem p) (weights_rows w * weights_blocks w * 34)) quantised scales row (weights_blocks w))
      [0..<weights_rows w]"
proof -
  let ?rows = "weights_rows w" and ?blocks = "weights_blocks w"
  let ?steps = "[([(ScratchActivation, ?blocks * 36)], quantize_from to_half (\<lambda>_. a) ?blocks order1),
     ([(ScratchActivation, ?blocks * 36)], multiply_into half p ?rows ?blocks order2 out)]"
  obtain ok c1 where e: "ensure_device_matvec_scratch n c = (ok, c1)" by (cases "ensure_device_matvec_scratch n c") auto
  obtain ok' c2 mem2 where run: "run_device ?steps (c1, Some mem) = (ok', c2, mem2)" by (cases "run_device ?steps (c1, Some mem)") auto
  have n: "n = ?blocks * 32" using assms(1) by (simp add: q8_matvec_device_f32_def split: if_splits)
  have final: "ok \<and> ok' \<and> mem' = mem2"
    using assms(1,7) e run unfolding q8_matvec_device_f32_def by (simp add: Let_def split: if_splits)
  define ptr where "ptr = (\<lambda>s. the (slots c1 s))"
  have run': "run_device ?steps (c1, Some mem) = (True, c2, mem2)" using run final by simp
  have room: "room c1 ScratchActivation (?blocks * 36)"
    using grow_room(2) [OF assms(6)] e final by (simp add: ensure_device_matvec_scratch_def Let_def n)
  have "context_keeps c c1" using keeps_scratch(2) [of c n] e by simp
  then have elsewhere: "ptr ScratchActivation \<noteq> p"
    unfolding ptr_def using scratch_elsewhere assms(4,5,8,9) room_slot [OF room] by metis
  let ?after = "multiply_into half p ?rows ?blocks order2 out ptr (quantize_from to_half (\<lambda>_. a) ?blocks order1 ptr mem)"
  have mem': "mem' = Some ?after"
    using final run_device_done [OF run'] room by (simp add: ptr_def)
  note q = quantize_from_bytes [OF assms(2), where to_half = to_half and source = "\<lambda>_. a" and ptr = ptr and mem = mem]
  have "stored (floats_at ?after out) ?rows =
      map (\<lambda>row. q8_dot avx2 half (stored (bytes_at mem p) (?rows * ?blocks * 34)) quantised scales row ?blocks) [0..<?rows]"
    unfolding multiply_into_floats [OF assms(3)] q(1) q(2) [OF elsewhere [symmetric]]
    using quantised_rows [OF _ assms(10,11)] by (simp add: n)
  with mem' show ?thesis by blast
qed

theorem cuda_matvec_f32_is_cpu_witness:
  "\<exists>c' mem' quantised scales. q8_matvec_device_f32 (\<lambda>_. 0) (\<lambda>_. 5)
      \<lparr>weights_context = True, weights_rows = 1, weights_blocks = 1, device_data = Some 99\<rparr> (Some 98) 32 (Some 97) 1 (grid 1 32) (grid 1 1)
      (empty_context\<lparr>live := [99 \<mapsto> (DeviceMemory, 34)], fresh := 100\<rparr>,
       Some \<lparr>bytes_at = (\<lambda>_ _. 2), floats_at = (\<lambda>_ _. 3), host_output = []\<rparr>) = (CUDA_OK, c', Some mem') \<and>
    q8_quantize True (\<lambda>_. 0) (\<lambda>_. 5) (replicate 32 3) = Some (quantised, scales) \<and>
    stored (floats_at mem' 97) 1 = [q8_dot True (\<lambda>_. 5) (stored (\<lambda>_. 2) 34) quantised scales 0 1 :: rat]"
proof -
  let ?c = "empty_context\<lparr>live := [99 \<mapsto> (DeviceMemory, 34)], fresh := 100\<rparr>"
  let ?mem = "\<lparr>bytes_at = (\<lambda>_ _. 2), floats_at = (\<lambda>_ _. 3), host_output = []\<rparr> :: rat device_memory"
  let ?w = "\<lparr>weights_context = True, weights_rows = 1, weights_blocks = 1, device_data = Some 99\<rparr>"
  let ?run = "q8_matvec_device_f32 (\<lambda>_. 0) (\<lambda>_. 5) ?w (Some 98) 32 (Some 97) 1 (grid 1 32) (grid 1 1) (?c, Some ?mem)"
  have "fst ?run = CUDA_OK"
    by (simp add: q8_matvec_device_f32_def ensure_device_matvec_scratch_def grow_def discard_def run_device_def
      create_in_def asked_def asked_release_def forget_def set_bytes_def launch_call_def room_def empty_context_def)
  then obtain c' mem' where run: "?run = (CUDA_OK, c', mem')" by (cases ?run) auto
  have s: "sound context_kind context_order ?c" "releases_succeed ?c" "live ?c 99 = Some (DeviceMemory, 34)" "\<forall>s. slots ?c s \<noteq> Some 99"
    by (simp_all add: sound_def releases_succeed_def empty_context_def)
  have r: "stored (\<lambda>_. 3 :: rat) 32 = replicate 32 3" by (simp add: stored_def map_replicate_const)
  obtain quantised scales where q: "q8_quantize True (\<lambda>_. 0) (\<lambda>_. 5) (replicate 32 (3 :: rat)) = Some (quantised, scales)"
    by (auto simp: q8_quantize_def Let_def)
  have o: "in_order (blocks_for 32 (weights_blocks ?w)) 32 (grid 1 32)" "in_order (weights_rows ?w) 1 (grid 1 1)"
    by (simp_all add: blocks_for_def)
  have z: "sized ?c ScratchActivation" by (simp add: sized_def empty_context_def)
  obtain final where "mem' = Some final" "stored (floats_at final 97) 1 = [q8_dot True (\<lambda>_. 5) (stored (\<lambda>_. 2) 34) quantised scales 0 1 :: rat]"
    using cuda_matvec_f32_is_cpu [OF run o s(1,2) z _ s(3,4), of quantised scales True] q r by auto
  with run q show ?thesis by blast
qed

text \<open>
  C28: The feed-forward block on the device, with the intermediate vector and the quantised bytes in
  shared scratch buffers. When it reports success, for weights as they are uploaded (rows and blocks
  positive) and scratch buffers that no failed growth left without memory (\<open>sized\<close>), its kernels stay
  inside the buffers and its output is the CPU's down product of what the CPU's quantizer makes of
  SiLU (gate product) times the up product, those being the CPU's products with the quantised
  activation: in exact arithmetic, for every order of the four grids. The condition on the scratch is
  needed: the function does not wait for its kernels, and after a failed growth it reports success
  while they run on a null buffer (\<open>ffn_reports_success_without_scratch\<close>).
\<close>

theorem cuda_ffn_device_is_cpu:
  assumes "q8_ffn_device expf to_half half gate up down (Some a) n (Some out) m order1 order2 order3 order4 (c, Some mem) = (CUDA_OK, c', mem')"
    and "in_order (blocks_for 32 (weights_blocks gate)) 32 order1" and "in_order (weights_rows gate) 1 order2"
    and "in_order (blocks_for 32 (weights_blocks down)) 32 order3" and "in_order (weights_rows down) 1 order4"
    and "sound context_kind context_order c" and "releases_succeed c"
    and "sized c ScratchActivation" and "sized c ScratchOutput"
    and "0 < weights_blocks gate" and "0 < weights_rows down"
    and "\<forall>w\<in>{gate, up, down}. \<exists>p x. device_data w = Some p \<and> live c p = Some x \<and> (\<forall>s. slots c s \<noteq> Some p)"
    and "weights_blocks gate < 2 ^ 31" and "weights_blocks down < 2 ^ 31"
    and "q8_quantize True to_half half (stored (floats_at mem a) n) = Some (quantised, scales)"
    and "hidden = map (\<lambda>row.
        silu_of expf (q8_dot avx2 half (stored (bytes_at mem (the (device_data gate))) (weights_rows gate * weights_blocks gate * 34))
          quantised scales row (weights_blocks gate)) *
        q8_dot avx2 half (stored (bytes_at mem (the (device_data up))) (weights_rows gate * weights_blocks gate * 34))
          quantised scales row (weights_blocks gate)) [0..<weights_rows gate]"
    and "q8_quantize True to_half half hidden = Some (quantised', scales')"
  shows "\<exists>after. mem' = Some after \<and> stored (floats_at after out) (weights_rows down) =
    map (\<lambda>row. q8_dot avx2 half (stored (bytes_at mem (the (device_data down))) (weights_rows down * weights_blocks down * 34))
      quantised' scales' row (weights_blocks down)) [0..<weights_rows down]"
proof -
  let ?gr = "weights_rows gate" and ?gb = "weights_blocks gate" and ?dr = "weights_rows down" and ?db = "weights_blocks down"
  let ?pg = "the (device_data gate)" and ?pu = "the (device_data up)" and ?pd = "the (device_data down)"
  let ?steps = "[([(ScratchActivation, ?gb * 36)], quantize_from to_half (\<lambda>_. a) ?gb order1),
     ([(ScratchActivation, ?gb * 36), (ScratchOutput, ?gr * 4)], gate_and_up expf half ?pg ?pu ?gr ?gb order2),
     ([(ScratchActivation, ?db * 36), (ScratchOutput, ?gr * 4)], quantize_from to_half (\<lambda>ptr. ptr ScratchOutput) ?db order3),
     ([(ScratchActivation, ?db * 36)], multiply_into half ?pd ?dr ?db order4 out)]"
  let ?scratch = "[ensure_host_matvec_scratch (max (?gb * 34) (?db * 34)) (max (?gr * 4) (?dr * 4))] @
    (if ?gb \<ge> 128 then [ensure_aux_scratch (?gr * 4)] else [])"
  obtain ok c1 where e: "chain ?scratch c = (ok, c1)" by (cases "chain ?scratch c") auto
  obtain ok' c2 mem2 where run: "run_device ?steps (c1, Some mem) = (ok', c2, mem2)" by (cases "run_device ?steps (c1, Some mem)") auto
  have final: "ok \<and> ok' \<and> mem' = mem2 \<and> n = ?gb * 32 \<and> ?gr = ?db * 32"
    using assms(1) e run unfolding q8_ffn_device_def by (simp add: Let_def del: chain.simps split: if_splits)
  define ptr where "ptr = (\<lambda>s. the (slots c1 s))"
  have run': "run_device ?steps (c1, Some mem) = (True, c2, mem2)" using run final by simp
  have e': "chain ?scratch c = (True, c1)" using e final by simp
  note room = ffn_scratch_room [OF assms(6,8-11) e']
  have "context_keeps c (snd (chain ?scratch c))"
    by (rule keeps_chain) (auto simp: keeps_scratch)
  then have elsewhere: "?pg \<noteq> ptr ScratchActivation" "?pu \<noteq> ptr ScratchActivation" "?pd \<noteq> ptr ScratchActivation"
    unfolding ptr_def e snd_conv using scratch_elsewhere assms(6,7,12) room_slot [OF room(1)] by (metis insertI1 insertI2 option.sel)+
  define m1 where "m1 = quantize_from to_half (\<lambda>_. a) ?gb order1 ptr mem"
  define m2 where "m2 = gate_and_up expf half ?pg ?pu ?gr ?gb order2 ptr m1"
  define m3 where "m3 = quantize_from to_half (\<lambda>ptr. ptr ScratchOutput) ?db order3 ptr m2"
  have mem': "mem' = Some (multiply_into half ?pd ?dr ?db order4 out ptr m3)"
    using final run_device_done [OF run'] room by (simp add: ptr_def m1_def m2_def m3_def)
  note q1 = quantize_from_bytes [OF assms(2), where to_half = to_half and source = "\<lambda>_. a" and ptr = ptr and mem = mem, folded m1_def]
  note g = gate_and_up_floats [OF assms(3), of expf half ?pg ?pu ?gb ptr m1, folded m2_def]
  note q2 = quantize_from_bytes [OF assms(4), where to_half = to_half and source = "\<lambda>ptr. ptr ScratchOutput" and ptr = ptr and mem = m2, folded m3_def]
  have input: "length (stored (floats_at mem a) n) = 32 * ?gb" using final by simp
  have rows: "row_product half (stored (bytes_at mem p) (?gr * ?gb * 34)) (padded_blocks to_half (stored (floats_at mem a) n) ?gb) ?gb row 0 =
      q8_dot avx2 half (stored (bytes_at mem p) (?gr * ?gb * 34)) quantised scales row ?gb" if "row \<in> set [0..<?gr]" for p row
    using quantised_rows [OF input assms(13,15), of "bytes_at mem p" ?gr avx2] that by (simp add: map_eq_conv)
  have n: "n = ?gb * 32" using final by simp
  have "stored (floats_at m2 (ptr ScratchOutput)) ?gr = hidden"
    unfolding g(1) q1(1) q1(2) [OF elsewhere(1)] q1(2) [OF elsewhere(2)] assms(16)
    by (rule map_cong [OF refl]) (simp only: n [symmetric] rows)
  then have hidden: "stored (floats_at m2 (ptr ScratchOutput)) (?db * 32) = hidden" using final by simp
  have len: "length hidden = 32 * ?db" using final assms(16) by simp
  have "stored (floats_at (multiply_into half ?pd ?dr ?db order4 out ptr m3) out) ?dr =
      map (\<lambda>row. q8_dot avx2 half (stored (bytes_at mem ?pd) (?dr * ?db * 34)) quantised' scales' row ?db) [0..<?dr]"
    unfolding multiply_into_floats [OF assms(5)] q2(1) q2(2) [OF elsewhere(3)] g(2) q1(2) [OF elsewhere(3)] hidden
    by (rule quantised_rows [OF len assms(14,17)])
  with mem' show ?thesis by blast
qed

theorem cuda_ffn_device_is_cpu_witness:
  "\<exists>c' mem'. q8_ffn_device (\<lambda>_. 1) (\<lambda>_. 0) (\<lambda>_. 1)
      \<lparr>weights_context = True, weights_rows = 32, weights_blocks = 1, device_data = Some 97\<rparr>
      \<lparr>weights_context = True, weights_rows = 32, weights_blocks = 1, device_data = Some 98\<rparr>
      \<lparr>weights_context = True, weights_rows = 1, weights_blocks = 1, device_data = Some 99\<rparr> (Some 90) 32 (Some 91) 1
      (grid 1 32) (grid 32 1) (grid 1 32) (grid 1 1)
      (empty_context\<lparr>live := (\<lambda>p. if p \<in> {97, 98, 99} then Some (DeviceMemory, 0) else None), fresh := 100\<rparr>,
       Some \<lparr>bytes_at = (\<lambda>_ _. 0), floats_at = (\<lambda>_ _. 0), host_output = []\<rparr>) = (CUDA_OK, c', Some mem') \<and>
    (\<exists>quantised scales. q8_quantize True (\<lambda>_. 0) (\<lambda>_. 1) (replicate 32 0) = Some (quantised, scales) \<and>
      stored (floats_at mem' 91) 1 = [q8_dot True (\<lambda>_. 1 :: rat) (stored (\<lambda>_. 0) 34) quantised scales 0 1])"
proof -
  let ?c = "empty_context\<lparr>live := (\<lambda>p. if p \<in> {97, 98, 99} then Some (DeviceMemory, 0) else None), fresh := 100\<rparr>"
  let ?mem = "\<lparr>bytes_at = (\<lambda>_ _. 0), floats_at = (\<lambda>_ _. 0), host_output = []\<rparr> :: rat device_memory"
  let ?gate = "\<lparr>weights_context = True, weights_rows = 32, weights_blocks = 1, device_data = Some 97\<rparr>"
  let ?up = "\<lparr>weights_context = True, weights_rows = 32, weights_blocks = 1, device_data = Some 98\<rparr>"
  let ?down = "\<lparr>weights_context = True, weights_rows = 1, weights_blocks = 1, device_data = Some 99\<rparr>"
  let ?run = "q8_ffn_device (\<lambda>_. 1) (\<lambda>_. 0) (\<lambda>_. 1) ?gate ?up ?down (Some 90) 32 (Some 91) 1
      (grid 1 32) (grid 32 1) (grid 1 32) (grid 1 1) (?c, Some ?mem)"
  have "fst ?run = CUDA_OK"
    by (simp add: q8_ffn_device_def ensure_host_matvec_scratch_def grow_stale_def discard_def run_device_def
      create_in_def asked_def asked_release_def forget_def set_bytes_def launch_call_def room_def empty_context_def)
  then obtain c' mem' where run: "?run = (CUDA_OK, c', mem')" by (cases ?run) auto
  have s: "sound context_kind context_order ?c" "releases_succeed ?c"
    "\<forall>w\<in>{?gate, ?up, ?down}. \<exists>p x. device_data w = Some p \<and> live ?c p = Some x \<and> (\<forall>s. slots ?c s \<noteq> Some p)"
    by (simp_all add: sound_def releases_succeed_def empty_context_def)
  have r: "stored (\<lambda>_. 0 :: rat) 32 = replicate 32 0" by (simp add: stored_def map_replicate_const)
  have z: "sized ?c ScratchActivation" "sized ?c ScratchOutput" by (simp_all add: sized_def empty_context_def)
  obtain quantised scales where q: "q8_quantize True (\<lambda>_. 0) (\<lambda>_. 1) (replicate 32 (0 :: rat)) = Some (quantised, scales)"
    by (auto simp: q8_quantize_def Let_def)
  have o: "in_order (blocks_for 32 (weights_blocks ?gate)) 32 (grid 1 32)" "in_order (weights_rows ?gate) 1 (grid 32 1)"
    "in_order (blocks_for 32 (weights_blocks ?down)) 32 (grid 1 32)" "in_order (weights_rows ?down) 1 (grid 1 1)"
    by (simp_all add: blocks_for_def)
  have q': "q8_quantize True (\<lambda>_. 0) (\<lambda>_. 1) (stored (floats_at ?mem 90) 32) = Some (quantised, scales)" using q r by simp
  have zero: "q8_dot True (\<lambda>_. 1 :: rat) (stored (\<lambda>_. 0) (32 * 34)) quantised scales row 1 = 0" if "row < 32" for row
  proof -
    have "q8_dot True (\<lambda>_. 1 :: rat) (stored (\<lambda>_. 0) (32 * 34)) quantised scales row 1 =
        row_product (\<lambda>_. 1) (stored (\<lambda>_. 0) (32 * 34)) (padded_blocks (\<lambda>_. 0) (replicate 32 (0 :: rat)) 1) 1 row 0"
      by (rule padded_product [OF _ _ _ q, symmetric]) (use that in simp_all)
    also have "\<dots> = 0" using that by (simp add: row_product_def block_part_def bytes_dot_def stored_def)
    finally show ?thesis .
  qed
  have h: "replicate 32 0 = map (\<lambda>row. silu_of (\<lambda>_. 1) (q8_dot True (\<lambda>_. 1 :: rat) (stored (\<lambda>_. 0) (32 * 34)) quantised scales row 1) *
      q8_dot True (\<lambda>_. 1) (stored (\<lambda>_. 0) (32 * 34)) quantised scales row 1) [0..<32]"
    using zero by (intro nth_equalityI) simp_all
  obtain final where "mem' = Some final" "stored (floats_at final 91) 1 = [q8_dot True (\<lambda>_. 1 :: rat) (stored (\<lambda>_. 0) 34) quantised scales 0 1]"
    using cuda_ffn_device_is_cpu [OF run o s(1,2) z _ _ s(3) _ _ q' _ q, where ?avx2.0 = True] h by auto
  with run q show ?thesis by blast
qed

text \<open>
  What happens in the state a failed growth leaves (\<open>failed_growth_then_null\<close>): the recorded sizes
  suffice, nothing is allocated, the launches are accepted, and the function reports success although
  its kernels run on a null scratch buffer.
\<close>

theorem ffn_reports_success_without_scratch:
  assumes "weights_context gate" and "weights_context up" and "weights_context down"
    and "weights_blocks gate = weights_blocks up" and "weights_rows gate = weights_rows up"
    and "weights_rows gate = weights_blocks down * 32" and "weights_rows down \<le> m" and "n = weights_blocks gate * 32"
    and "device_data gate \<noteq> None" and "device_data up \<noteq> None" and "device_data down \<noteq> None"
    and "weights_blocks gate < 128" and "answers c = []" and "slots c ScratchActivation = None"
    and "max (weights_blocks gate) (weights_blocks down) * 34 \<le> capacity c ScratchRaw"
    and "max (weights_blocks gate) (weights_blocks down) * 36 \<le> capacity c ScratchActivation"
    and "max (weights_rows gate) (weights_rows down) * 4 \<le> capacity c ScratchOutput"
  shows "q8_ffn_device expf to_half half gate up down (Some a) n (Some out) m order1 order2 order3 order4 (c, mem) =
    (CUDA_OK, c, None)"
proof -
  let ?a = "max (weights_blocks gate * 34) (weights_blocks down * 34)"
  let ?b = "max (weights_rows gate * 4) (weights_rows down * 4)"
  have "?a = max (weights_blocks gate) (weights_blocks down) * 34" "?b = max (weights_rows gate) (weights_rows down) * 4"
    by (simp_all add: max_def)
  moreover have "?a div 34 = max (weights_blocks gate) (weights_blocks down)" by (simp add: max_def)
  ultimately have e: "ensure_host_matvec_scratch ?a ?b c = (True, c)"
    using assms(15-17) by (simp add: ensure_host_matvec_scratch_def grow_stale_def Let_def)
  have r: "\<not> room c ScratchActivation i" for i using assms(14) by (simp add: room_def)
  have l: "launch_call ((ScratchActivation, i) # needed) f (c, x) = (True, c, None)" for i needed f x
    using assms(13) r by (simp add: launch_call_def asked_def)
  show ?thesis
    using assms(1-12) e by (simp add: q8_ffn_device_def run_device_def l)
qed

theorem ffn_reports_success_without_scratch_witness:
  "q8_ffn_device (\<lambda>_. 1) (\<lambda>_. 0) (\<lambda>_. 1)
      \<lparr>weights_context = True, weights_rows = 32, weights_blocks = 1, device_data = Some 97\<rparr>
      \<lparr>weights_context = True, weights_rows = 32, weights_blocks = 1, device_data = Some 98\<rparr>
      \<lparr>weights_context = True, weights_rows = 1, weights_blocks = 1, device_data = Some 99\<rparr> (Some 90) 32 (Some 91) 1
      (grid 1 32) (grid 32 1) (grid 1 32) (grid 1 1)
      (empty_context\<lparr>capacity := (\<lambda>_. 1000)\<rparr>, Some \<lparr>bytes_at = (\<lambda>_ _. 0), floats_at = (\<lambda>_ _. 0 :: rat), host_output = []\<rparr>) =
    (CUDA_OK, empty_context\<lparr>capacity := (\<lambda>_. 1000)\<rparr>, None)"
  by (rule ffn_reports_success_without_scratch) (simp_all add: empty_context_def)

end
