(* ===== verification/CudaArgmax.thy ===== *)
theory CudaArgmax
  imports CudaQuantize Argmax "HOL-Library.Product_Lexorder"
begin

section \<open>The index of the largest logit on the device\<close>

text \<open>
  Models \<open>qwen_argmax_partials\<close>, \<open>qwen_argmax_rows_partials\<close> and the functions that use them,
  \<open>fortai_cuda_qwen35_argmax_device\<close> and \<open>_argmax_rows_device\<close>, of
  \<open>src/backend/cuda/fortai_cuda_backend.cu\<close>. A float is a NaN or an element of a linear order, as in
  \<open>Argmax\<close>; \<open>lowest\<close> stands for \<open>-FLT_MAX\<close>, above minus infinity.
\<close>

type_synonym 'v argmax_pair = "'v fl \<times> nat"

definition INT_MAX :: nat where "INT_MAX = 2147483647"

definition beats :: "'v::linorder argmax_pair \<Rightarrow> 'v argmax_pair \<Rightarrow> bool" where
  "beats candidate best \<longleftrightarrow> greater (fst candidate) (fst best) \<or> (same_value (fst candidate) (fst best) \<and> snd candidate < snd best)"

definition pick :: "'v::linorder argmax_pair \<Rightarrow> 'v argmax_pair \<Rightarrow> 'v argmax_pair" where
  "pick best candidate = (if beats candidate best then candidate else best)"

definition thread_best :: "'v::linorder \<Rightarrow> 'v fl list \<Rightarrow> nat \<Rightarrow> nat \<Rightarrow> nat \<Rightarrow> nat \<Rightarrow> 'v argmax_pair" where
  "thread_best lowest input elements blocks block lane =
     fold (\<lambda>index best. pick best (input ! index, index)) (strided (block * 256 + lane) (blocks * 256) elements) (Fl lowest, INT_MAX)"

definition block_best :: "'v::linorder \<Rightarrow> 'v fl list \<Rightarrow> nat \<Rightarrow> nat \<Rightarrow> nat \<Rightarrow> 'v argmax_pair" where
  "block_best lowest input elements blocks block =
     block_tree pick 128 (thread_best lowest input elements blocks block) 0"

definition qwen_argmax_partials :: "'v::linorder \<Rightarrow> 'v fl list \<Rightarrow> nat \<Rightarrow> nat \<Rightarrow> nat \<Rightarrow> (nat \<Rightarrow> 'v argmax_pair) \<Rightarrow> nat \<Rightarrow> 'v argmax_pair" where
  "qwen_argmax_partials lowest input elements blocks block partials =
     partials(block := block_best lowest input elements blocks block)"

definition qwen_argmax_rows_partials :: "'v::linorder \<Rightarrow> 'v fl list \<Rightarrow> nat \<Rightarrow> nat \<Rightarrow> nat \<Rightarrow> (nat \<Rightarrow> 'v argmax_pair) \<Rightarrow> nat \<Rightarrow> 'v argmax_pair" where
  "qwen_argmax_rows_partials lowest input row_elements blocks b partials =
     (let block = b mod blocks; row = b div blocks; row_input = drop (row * row_elements) input
      in partials(row * blocks + block := block_best lowest row_input row_elements blocks block))"

text \<open>On the host: the best of the blocks' pairs.\<close>

definition best_pair :: "'v::linorder \<Rightarrow> (nat \<Rightarrow> 'v argmax_pair) \<Rightarrow> nat \<Rightarrow> nat \<Rightarrow> 'v argmax_pair" where
  "best_pair lowest partials first blocks = fold (\<lambda>block best. pick best (partials (first + block))) [0..<blocks] (Fl lowest, INT_MAX)"

definition argmax_blocks :: "nat \<Rightarrow> nat" where
  "argmax_blocks elements = min ((elements + 256 - 1) div 256) 1024"

text \<open>A call that changes the context alone, and the pairs: on the device, and in the pinned buffer.\<close>

definition on_context :: "cuda_context call \<Rightarrow> (cuda_context \<times> 'm) call" where
  "on_context f = (\<lambda>(c, mem). let (ok, c) = f c in (ok, c, mem))"

definition argmax_calls ::
    "nat \<Rightarrow> ((nat \<Rightarrow> 'v argmax_pair) \<Rightarrow> nat \<Rightarrow> 'v argmax_pair) \<Rightarrow>
     (cuda_context \<times> (nat \<Rightarrow> 'v argmax_pair) \<times> (nat \<Rightarrow> 'v argmax_pair)) call" where
  "argmax_calls bytes run = chain
     [on_context (ensure_aux_scratch bytes),
      device_call [(ScratchAux, bytes)] (\<lambda>_ (aux, host). (run aux, host)),
      on_context (ensure_download_host bytes),
      device_call [(ScratchAux, bytes), (DownloadHost, bytes)] (\<lambda>_ (aux, _). (aux, aux)),
      device_call [] (\<lambda>_ mem. mem)]"

definition argmax_device ::
    "'v::linorder \<Rightarrow> 'v fl list option \<Rightarrow> nat \<Rightarrow> bool \<Rightarrow> nat list \<Rightarrow>
     cuda_context \<times> (nat \<Rightarrow> 'v argmax_pair) \<times> (nat \<Rightarrow> 'v argmax_pair) \<Rightarrow>
     int \<times> nat option \<times> cuda_context \<times> (nat \<Rightarrow> 'v argmax_pair) \<times> (nat \<Rightarrow> 'v argmax_pair)" where
  "argmax_device lowest logits elements given order = (\<lambda>s.
     if logits = None \<or> \<not> given \<or> elements = 0 \<or> elements > INT_MAX then (CUDA_INVALID, None, s)
     else let blocks = argmax_blocks elements;
              (ok, c, aux, host) = argmax_calls (blocks * 8) (launch (qwen_argmax_partials lowest (the logits) elements blocks) order) s
          in if \<not> ok then (CUDA_RUNTIME_ERROR, None, c\<lparr>message := ''device argmax''\<rparr>, aux, host)
             else (CUDA_OK, Some (snd (best_pair lowest host 0 blocks)), c, aux, host))"

definition argmax_rows_device ::
    "'v::linorder \<Rightarrow> 'v fl list option \<Rightarrow> nat \<Rightarrow> int \<Rightarrow> bool \<Rightarrow> nat list \<Rightarrow>
     cuda_context \<times> (nat \<Rightarrow> 'v argmax_pair) \<times> (nat \<Rightarrow> 'v argmax_pair) \<Rightarrow>
     int \<times> nat list \<times> cuda_context \<times> (nat \<Rightarrow> 'v argmax_pair) \<times> (nat \<Rightarrow> 'v argmax_pair)" where
  "argmax_rows_device lowest logits row_elements rows given order = (\<lambda>s.
     if logits = None \<or> \<not> given \<or> row_elements = 0 \<or> row_elements > INT_MAX \<or> rows \<le> 0 \<or> rows > 32 then (CUDA_INVALID, [], s)
     else let blocks = argmax_blocks row_elements;
              (ok, c, aux, host) = argmax_calls (blocks * nat rows * 8)
                (launch (qwen_argmax_rows_partials lowest (the logits) row_elements blocks) order) s
          in if \<not> ok then (CUDA_RUNTIME_ERROR, [], c\<lparr>message := ''device row argmax''\<rparr>, aux, host)
             else (CUDA_OK, map (\<lambda>row. snd (best_pair lowest host (row * blocks) blocks)) [0..<nat rows], c, aux, host))"

subsection \<open>The best of a set of positions\<close>

text \<open>
  Pairs without NaN in order: larger values first, among equals the smaller index. A NaN as candidate
  changes nothing.
\<close>

fun rank :: "'v argmax_pair \<Rightarrow> 'v \<times> int" where
  "rank (Fl v, i) = (v, - int i)"
| "rank (NaN, i) = (undefined, - int i)"

definition number :: "'v argmax_pair \<Rightarrow> bool" where
  "number p \<longleftrightarrow> fst p \<noteq> NaN"

lemma rank_inj: "number p \<Longrightarrow> number q \<Longrightarrow> rank p = rank q \<Longrightarrow> p = q"
  by (cases p; cases q; cases "fst p"; cases "fst q") (auto simp: number_def)

lemma pick_max:
  assumes "number p" and "number q"
  shows "number (pick p q)" and "rank (pick p q) = max (rank p) (rank q)"
proof -
  obtain v i w j where p: "p = (Fl v, i)" and q: "q = (Fl w, j)"
    using assms by (cases p; cases q; cases "fst p"; cases "fst q") (auto simp: number_def)
  show "number (pick p q)" "rank (pick p q) = max (rank p) (rank q)"
    by (auto simp: p q pick_def beats_def number_def max_def less_eq_prod_def)
qed

lemma pick_NaN: "\<not> number q \<Longrightarrow> pick p q = p"
  by (cases q; cases "fst q") (auto simp: pick_def beats_def number_def)

definition ranks :: "'v::linorder \<Rightarrow> 'v fl list \<Rightarrow> nat set \<Rightarrow> ('v \<times> int) set" where
  "ranks lowest input S = insert (lowest, - int INT_MAX) {rank (input ! i, i) | i. i \<in> S \<and> number (input ! i, i)}"

definition best_of :: "'v::linorder \<Rightarrow> 'v fl list \<Rightarrow> nat set \<Rightarrow> 'v argmax_pair \<Rightarrow> bool" where
  "best_of lowest input S p \<longleftrightarrow> number p \<and> rank p = Max (ranks lowest input S)"

lemma ranks_simps [simp]: "ranks lowest input {} = {(lowest, - int INT_MAX)}"
  "ranks lowest input (S \<union> T) = ranks lowest input S \<union> ranks lowest input T"
  "ranks lowest input S \<noteq> {}" "finite S \<Longrightarrow> finite (ranks lowest input S)"
  by (auto simp: ranks_def)

lemma best_of_nothing: "best_of lowest input {} (Fl lowest, INT_MAX)"
  by (simp add: best_of_def number_def)

lemma best_of_union:
  assumes "best_of lowest input S p" and "best_of lowest input T q" and "finite S" and "finite T"
  shows "best_of lowest input (S \<union> T) (pick p q)"
  using assms pick_max [of p q] by (simp add: best_of_def Max.union)

lemma best_of_insert:
  assumes "best_of lowest input S p" and "finite S"
  shows "best_of lowest input (insert i S) (pick p (input ! i, i))"
proof (cases "number (input ! i, i)")
  case True
  have "ranks lowest input (insert i S) = insert (rank (input ! i, i)) (ranks lowest input S)"
    using True by (auto simp: ranks_def)
  then show ?thesis using assms pick_max [OF _ True, of p] by (simp add: best_of_def max.commute)
next
  case False
  then have "ranks lowest input (insert i S) = ranks lowest input S" by (auto simp: ranks_def)
  then show ?thesis using assms False by (simp add: best_of_def pick_NaN)
qed

lemma best_of_fold:
  assumes "best_of lowest input S p" and "finite S"
  shows "best_of lowest input (S \<union> set is) (fold (\<lambda>i best. pick best (input ! i, i)) is p)"
  using assms
proof (induction "is" arbitrary: S p)
  case (Cons i "is")
  show ?case using Cons.IH [OF best_of_insert [OF Cons.prems], of i] Cons.prems(2) by simp
qed simp

lemma best_of_tree:
  assumes "\<And>l. best_of lowest input (S l) (v l)" and "\<And>l. finite (S l)"
  shows "best_of lowest input (\<Union>l<2 ^ k. S l) (tree pick v k)"
  using assms
proof (induction k arbitrary: v S)
  case 0
  then show ?case by (simp add: lessThan_Suc)
next
  case (Suc k)
  have "best_of lowest input (\<Union>l<2 ^ k. S l \<union> S (l + 2 ^ k)) (tree pick (\<lambda>l. pick (v l) (v (l + 2 ^ k))) k)"
    by (rule Suc.IH) (use Suc.prems in \<open>auto intro: best_of_union\<close>)
  moreover have "(\<Union>l<2 ^ k. S l \<union> S (l + 2 ^ k)) = (\<Union>l<2 ^ Suc k. S l)"
  proof -
    have "{..<2 ^ Suc k} = {..<2 ^ k} \<union> (\<lambda>l. l + 2 ^ k) ` {..<2 ^ k :: nat}"
    proof (rule set_eqI)
      fix j :: nat
      show "j \<in> {..<2 ^ Suc k} \<longleftrightarrow> j \<in> {..<2 ^ k} \<union> (\<lambda>l. l + 2 ^ k) ` {..<2 ^ k}"
        by (cases "j < 2 ^ k") (auto simp: image_iff intro!: bexI [of _ "j - 2 ^ k"])
    qed
    then show ?thesis by auto
  qed
  ultimately show ?case by simp
qed

lemma thread_best_of:
  assumes "0 < blocks"
  shows "best_of lowest input {i. block * 256 + lane \<le> i \<and> i < n \<and> i mod (blocks * 256) = (block * 256 + lane) mod (blocks * 256)}
    (thread_best lowest input n blocks block lane)"
  using best_of_fold [OF best_of_nothing, of lowest input "strided (block * 256 + lane) (blocks * 256) n"] assms
  by (simp add: thread_best_def set_strided)

lemma lane_of_block:
  assumes "block < (blocks :: nat)" and "l < 256"
  shows "(block * 256 + l) mod (blocks * 256) = block * 256 + l"
proof -
  have "Suc block * 256 \<le> blocks * 256" using assms(1) by (intro mult_le_mono1) simp
  then show ?thesis using assms(2) by simp
qed

lemma block_positions:
  assumes "block < blocks"
  shows "(\<Union>l<2 ^ Suc 7. {i. block * 256 + l \<le> i \<and> i < n \<and> i mod (blocks * 256) = (block * 256 + l) mod (blocks * 256)}) =
    {i. i < (n :: nat) \<and> i mod (blocks * 256) div 256 = block}" (is "?L = ?R")
proof (rule set_eqI)
  fix i
  let ?r = "i mod (blocks * 256)"
  have le: "?r \<le> i" by (rule mod_less_eq_dividend)
  have "i \<in> ?L \<longleftrightarrow> (\<exists>l<256. block * 256 + l \<le> i \<and> i < n \<and> ?r = (block * 256 + l) mod (blocks * 256))"
    by (simp add: Bex_def)
  also have "\<dots> \<longleftrightarrow> (\<exists>l<256. block * 256 + l \<le> i \<and> i < n \<and> ?r = block * 256 + l)"
    by (intro ex_cong1 conj_cong refl) (simp add: lane_of_block [OF assms])
  also have "\<dots> \<longleftrightarrow> i < n \<and> ?r div 256 = block"
  proof
    assume "\<exists>l<256. block * 256 + l \<le> i \<and> i < n \<and> ?r = block * 256 + l"
    then obtain l where l: "l < 256" "i < n" "?r = block * 256 + l" by blast
    have "?r div 256 = block" unfolding l(3) using l(1) by simp
    then show "i < n \<and> ?r div 256 = block" using l(2) by simp
  next
    assume "i < n \<and> ?r div 256 = block"
    then have "i < n" and "?r = block * 256 + ?r mod 256" by auto
    then show "\<exists>l<256. block * 256 + l \<le> i \<and> i < n \<and> ?r = block * 256 + l"
      using le by (intro exI [of _ "?r mod 256"]) simp
  qed
  finally show "i \<in> ?L \<longleftrightarrow> i \<in> ?R" by simp
qed

lemma block_best_of:
  assumes "block < blocks"
  shows "best_of lowest input {i. i < n \<and> i mod (blocks * 256) div 256 = block} (block_best lowest input n blocks block)"
proof -
  let ?S = "\<lambda>lane. {i. block * 256 + lane \<le> i \<and> i < n \<and> i mod (blocks * 256) = (block * 256 + lane) mod (blocks * 256)}"
  have "block_best lowest input n blocks block = tree pick (thread_best lowest input n blocks block) (Suc 7)"
    using block_tree_lane0 [of pick 7 "thread_best lowest input n blocks block"] by (simp add: block_best_def)
  moreover have "best_of lowest input (\<Union>l<2 ^ Suc 7. ?S l) (tree pick (thread_best lowest input n blocks block) (Suc 7))"
  proof (rule best_of_tree)
    show "best_of lowest input (?S l) (thread_best lowest input n blocks block l)" for l
      by (rule thread_best_of) (use assms in simp)
    show "finite (?S l)" for l by (rule finite_subset [of _ "{..<n}"]) auto
  qed
  moreover have "(\<Union>l<2 ^ Suc 7. ?S l) = {i. i < n \<and> i mod (blocks * 256) div 256 = block}"
    by (rule block_positions [OF assms])
  ultimately show ?thesis by simp
qed

lemma best_pair_of:
  assumes "\<And>b. b < blocks \<Longrightarrow> partials (first + b) = block_best lowest input n blocks b" and "0 < blocks"
  shows "best_of lowest input {..<n} (best_pair lowest partials first blocks)"
proof -
  have "best_of lowest input (\<Union>b<m. {i. i < n \<and> i mod (blocks * 256) div 256 = b}) (best_pair lowest partials first m)" if "m \<le> blocks" for m
    using that
  proof (induction m)
    case 0
    then show ?case using best_of_nothing by (simp add: best_pair_def)
  next
    case (Suc m)
    have "best_of lowest input (\<Union>b<m. {i. i < n \<and> i mod (blocks * 256) div 256 = b}) (best_pair lowest partials first m)"
      by (rule Suc.IH) (use Suc.prems in simp)
    from best_of_union [OF this block_best_of [of m blocks lowest input n]]
    have "best_of lowest input ((\<Union>b<m. {i. i < n \<and> i mod (blocks * 256) div 256 = b}) \<union> {i. i < n \<and> i mod (blocks * 256) div 256 = m})
        (pick (best_pair lowest partials first m) (block_best lowest input n blocks m))" using Suc.prems by simp
    then show ?case using assms(1) [of m] Suc.prems by (simp add: best_pair_def lessThan_Suc Un_commute)
  qed
  from this [of blocks]
  have "best_of lowest input (\<Union>b<blocks. {i. i < n \<and> i mod (blocks * 256) div 256 = b}) (best_pair lowest partials first blocks)" by simp
  moreover have "(\<Union>b<blocks. {i. i < n \<and> i mod (blocks * 256) div 256 = b}) = {..<n}"
  proof -
    have "i mod (blocks * 256) div 256 < blocks" for i using assms(2) by (simp add: less_mult_imp_div_less)
    then show ?thesis by auto
  qed
  ultimately show ?thesis by simp
qed

text \<open>The best of the first \<open>n\<close> positions when they hold numbers: the first maximum.\<close>

lemma best_of_first_max:
  assumes "best_of lowest input {..<n} p" and "\<And>i. i < n \<Longrightarrow> input ! i = Fl (w i)" and "\<And>i. i < n \<Longrightarrow> lowest \<le> w i"
    and "0 < n" and "n \<le> INT_MAX"
  shows "first_max (map w [0..<n]) (snd p)"
proof -
  have r: "ranks lowest input {..<n} = insert (lowest, - int INT_MAX) ((\<lambda>i. (w i, - int i)) ` {..<n})"
  proof -
    have "{i. i \<in> {..<n} \<and> number (input ! i, i)} = {..<n}" using assms(2) by (auto simp: number_def)
    then have "{rank (input ! i, i) |i. i \<in> {..<n} \<and> number (input ! i, i)} = (\<lambda>i. rank (input ! i, i)) ` {..<n}" by blast
    moreover have "(\<lambda>i. rank (input ! i, i)) ` {..<n} = (\<lambda>i. (w i, - int i)) ` {..<n}"
      by (rule image_cong) (simp_all add: assms(2))
    ultimately show ?thesis unfolding ranks_def by (simp only:)
  qed
  have below: "(lowest, - int INT_MAX) < (w i, - int i)" if "i < n" for i
    using that assms(3) [OF that] assms(5) by (auto simp: less_prod_def le_less)
  have top: "x \<le> rank p" if "x \<in> ranks lowest input {..<n}" for x
    using assms(1) that by (simp add: best_of_def)
  have "rank p \<in> ranks lowest input {..<n}" using assms(1) Max_in [of "ranks lowest input {..<n}"] by (simp add: best_of_def)
  moreover have "rank p \<noteq> (lowest, - int INT_MAX)"
    using top [of "(w 0, - int 0)"] below [OF assms(4)] assms(4) unfolding r by auto
  ultimately obtain i where i: "i < n" "rank p = (w i, - int i)" unfolding r by auto
  moreover obtain v j where "p = (Fl v, j)" using assms(1) by (cases p; cases "fst p") (auto simp: best_of_def number_def)
  ultimately have p: "snd p = i" by simp
  have le: "(w j, - int j) \<le> (w i, - int i)" if "j < n" for j
    using top [of "(w j, - int j)"] that i(2) unfolding r by auto
  then show ?thesis
    unfolding p first_max_def using i(1)
    by (auto simp: less_eq_prod_def le_less) (metis le less_eq_prod_def fst_conv snd_conv of_nat_less_iff neg_le_iff_le not_le order_less_trans)
qed

lemma best_of_none:
  assumes "best_of lowest input {..<n} p" and "\<And>i. i < n \<Longrightarrow> input ! i = NaN \<or> (\<exists>v<lowest. input ! i = Fl v)"
  shows "snd p = INT_MAX"
proof -
  have "x \<le> (lowest, - int INT_MAX)" if "x \<in> ranks lowest input {..<n}" for x
    using that assms(2) by (fastforce simp: ranks_def number_def less_eq_prod_def)
  then have "Max (ranks lowest input {..<n}) = (lowest, - int INT_MAX)"
    by (intro Max_eqI) (simp_all add: ranks_def)
  then show ?thesis using assms(1) by (cases p; cases "fst p") (auto simp: best_of_def number_def)
qed

subsection \<open>What the calls return\<close>

lemma launch_partials: "launch (\<lambda>b m. m(b := v b)) order m i = (if i \<in> set order then v i else m i)"
  unfolding launch_def by (induction order arbitrary: m) auto

lemma argmax_calls_run:
  assumes "argmax_calls bytes run (c, aux, host) = (True, c', aux', host')"
  shows "host' = run aux"
proof -
  obtain ok1 c1 where 1: "ensure_aux_scratch bytes c = (ok1, c1)" by (cases "ensure_aux_scratch bytes c") auto
  obtain m1 where m1: "on_context (ensure_aux_scratch bytes) (c, aux, host) = (True, m1)" and r1:
    "chain [device_call [(ScratchAux, bytes)] (\<lambda>_ (aux, host). (run aux, host)), on_context (ensure_download_host bytes),
      device_call [(ScratchAux, bytes), (DownloadHost, bytes)] (\<lambda>_ (aux, _). (aux, aux)), device_call [] (\<lambda>_ mem. mem)] m1 =
      (True, c', aux', host')"
    using chain_run_cons [OF assms [unfolded argmax_calls_def]] by blast
  have m1': "m1 = (c1, aux, host)" using m1 1 by (simp add: on_context_def)
  obtain m2 where m2: "device_call [(ScratchAux, bytes)] (\<lambda>_ (aux, host). (run aux, host)) m1 = (True, m2)" and r2:
    "chain [on_context (ensure_download_host bytes),
      device_call [(ScratchAux, bytes), (DownloadHost, bytes)] (\<lambda>_ (aux, _). (aux, aux)), device_call [] (\<lambda>_ mem. mem)] m2 =
      (True, c', aux', host')"
    using chain_run_cons [OF r1] by blast
  obtain c2 d2 h2 where s2: "m2 = (c2, d2, h2)" by (cases m2) auto
  have d2: "d2 = run aux" using device_call_run(1) [OF m2 [unfolded m1' s2]] by simp
  obtain m3 where m3: "on_context (ensure_download_host bytes) m2 = (True, m3)" and r3:
    "chain [device_call [(ScratchAux, bytes), (DownloadHost, bytes)] (\<lambda>_ (aux, _). (aux, aux)), device_call [] (\<lambda>_ mem. mem)] m3 =
      (True, c', aux', host')"
    using chain_run_cons [OF r2] by blast
  obtain c3 where s3: "m3 = (c3, d2, h2)" using m3 s2 by (cases "ensure_download_host bytes c2") (auto simp: on_context_def)
  obtain m4 where m4: "device_call [(ScratchAux, bytes), (DownloadHost, bytes)] (\<lambda>_ (aux, _). (aux, aux)) m3 = (True, m4)"
    and r4: "chain [device_call [] (\<lambda>_ mem. mem)] m4 = (True, c', aux', host')"
    using chain_run_cons [OF r3] by blast
  obtain c4 d4 h4 where s4: "m4 = (c4, d4, h4)" by (cases m4) auto
  have h4: "h4 = d2" using device_call_run(1) [OF m4 [unfolded s3 s4]] by simp
  obtain m5 where m5: "device_call [] (\<lambda>_ mem. mem) m4 = (True, m5)" and r5: "chain [] m5 = (True, c', aux', host')"
    using chain_run_cons [OF r4] by blast
  have "m5 = (c', aux', host')" using r5 by simp
  then have "host' = h4" using device_call_run(1) [of "[]" "\<lambda>_ mem. mem" c4 "(d4, h4)" c' "(aux', host')"] m5 s4 by simp
  then show ?thesis using h4 d2 by simp
qed

lemma argmax_blocks_pos: "0 < elements \<Longrightarrow> 0 < argmax_blocks elements"
  by (simp add: argmax_blocks_def)

lemma argmax_device_best:
  assumes "argmax_device lowest (Some input) n True order (c, aux, host) = (CUDA_OK, index, s')"
    and "set order = {..<argmax_blocks n}"
  shows "\<exists>p. best_of lowest input {..<n} p \<and> index = Some (snd p)" and "0 < n" and "n \<le> INT_MAX"
proof -
  show n: "0 < n" "n \<le> INT_MAX" using assms(1) by (simp_all add: argmax_device_def split: if_splits)
  let ?run = "launch (qwen_argmax_partials lowest input n (argmax_blocks n)) order"
  obtain ok c' aux' host' where run: "argmax_calls (argmax_blocks n * 8) ?run (c, aux, host) = (ok, c', aux', host')"
    by (cases "argmax_calls (argmax_blocks n * 8) ?run (c, aux, host)") auto
  have ok: "ok" and index: "index = Some (snd (best_pair lowest host' 0 (argmax_blocks n)))"
    using assms(1) n run by (simp_all add: argmax_device_def Let_def split: if_splits)
  have "host' = ?run aux" using argmax_calls_run [of _ ?run c aux host c' aux' host'] run ok by simp
  then have "host' (0 + b) = block_best lowest input n (argmax_blocks n) b" if "b < argmax_blocks n" for b
    using that assms(2) launch_partials [of "block_best lowest input n (argmax_blocks n)" order aux b]
    by (simp add: qwen_argmax_partials_def [abs_def])
  then have "best_of lowest input {..<n} (best_pair lowest host' 0 (argmax_blocks n))"
    by (rule best_pair_of) (use argmax_blocks_pos [OF n(1)] in simp_all)
  then show "\<exists>p. best_of lowest input {..<n} p \<and> index = Some (snd p)" using index by blast
qed

lemma argmax_rows_best:
  assumes "argmax_rows_device lowest (Some input) n rows True order (c, aux, host) = (CUDA_OK, indices, s')"
    and "set order = {..<nat rows * argmax_blocks n}"
  shows "length indices = nat rows" and "r < nat rows \<Longrightarrow> \<exists>p. best_of lowest (drop (r * n) input) {..<n} p \<and> indices ! r = snd p"
    and "0 < n" and "n \<le> INT_MAX"
proof -
  show n: "0 < n" "n \<le> INT_MAX" using assms(1) by (simp_all add: argmax_rows_device_def split: if_splits)
  let ?blocks = "argmax_blocks n"
  let ?run = "launch (qwen_argmax_rows_partials lowest input n ?blocks) order"
  obtain ok c' aux' host' where run: "argmax_calls (?blocks * nat rows * 8) ?run (c, aux, host) = (ok, c', aux', host')"
    by (cases "argmax_calls (?blocks * nat rows * 8) ?run (c, aux, host)") auto
  have ok: "ok" and indices: "indices = map (\<lambda>r. snd (best_pair lowest host' (r * ?blocks) ?blocks)) [0..<nat rows]"
    using assms(1) n run by (simp_all add: argmax_rows_device_def Let_def split: if_splits)
  show "length indices = nat rows" by (simp add: indices)
  assume r: "r < nat rows"
  have pos: "0 < ?blocks" by (rule argmax_blocks_pos [OF n(1)])
  have host': "host' = ?run aux" using argmax_calls_run [of _ ?run c aux host c' aux' host'] run ok by simp
  have "host' (r * ?blocks + b) = block_best lowest (drop (r * n) input) n ?blocks b" if "b < ?blocks" for b
  proof -
    have "Suc r * ?blocks \<le> nat rows * ?blocks" using r by (intro mult_le_mono1) simp
    then have "r * ?blocks + b \<in> set order" using that assms(2) by simp
    moreover have "qwen_argmax_rows_partials lowest input n ?blocks =
        (\<lambda>b m. m(b := block_best lowest (drop (b div ?blocks * n) input) n ?blocks (b mod ?blocks)))"
      by (intro ext) (simp add: qwen_argmax_rows_partials_def Let_def)
    ultimately show ?thesis
      using that launch_partials [of "\<lambda>b. block_best lowest (drop (b div ?blocks * n) input) n ?blocks (b mod ?blocks)" order aux "r * ?blocks + b"]
      by (simp add: host')
  qed
  then have "best_of lowest (drop (r * n) input) {..<n} (best_pair lowest host' (r * ?blocks) ?blocks)"
    by (rule best_pair_of) (use pos in simp_all)
  moreover have "indices ! r = snd (best_pair lowest host' (r * ?blocks) ?blocks)" using r by (simp add: indices)
  ultimately show "\<exists>p. best_of lowest (drop (r * n) input) {..<n} p \<and> indices ! r = snd p" by blast
qed

subsection \<open>Properties\<close>

text \<open>
  C34: For logits that are all numbers and at least \<open>-FLT_MAX\<close> (\<open>lowest\<close>), so neither NaN nor minus
  infinity: when the row-wise argmax on the device reports success, the indices are, row by row, those
  of the CPU's argmax, scalar or AVX2, for every order of the blocks and whatever the scratch held. On
  a row with no such logit the device answers \<open>INT_MAX\<close> (\<open>cuda_argmax_nothing_found\<close>).
\<close>

theorem cuda_argmax_rows_is_cpu:
  fixes vs :: "'v::{linorder, order_bot} list"
  assumes "argmax_rows_device lowest (Some (map Fl vs)) n rows True order (c, aux, host) = (CUDA_OK, indices, s')"
    and "set order = {..<nat rows * argmax_blocks n}" and "nat rows * n = length vs" and "\<forall>v\<in>set vs. lowest \<le> v"
  shows "indices = map (\<lambda>r. argmax_f32 avx2 (map Fl (take n (drop (r * n) vs)))) [0..<nat rows]"
proof (rule nth_equalityI)
  note best = argmax_rows_best [OF assms(1,2)]
  show "length indices = length (map (\<lambda>r. argmax_f32 avx2 (map Fl (take n (drop (r * n) vs)))) [0..<nat rows])"
    using best(1) by simp
  fix r assume "r < length indices"
  then have r: "r < nat rows" using best(1) by simp
  then obtain p where p: "best_of lowest (drop (r * n) (map Fl vs)) {..<n} p" "indices ! r = snd p" using best(2) by blast
  have "Suc r * n \<le> nat rows * n" using r by (intro mult_le_mono1) simp
  then have room: "r * n + n \<le> length vs" using assms(3) by simp
  have row: "map (\<lambda>i. vs ! (r * n + i)) [0..<n] = take n (drop (r * n) vs)" using room by (intro nth_equalityI) simp_all
  have "first_max (map (\<lambda>i. vs ! (r * n + i)) [0..<n]) (snd p)"
    by (rule best_of_first_max [OF p(1)]) (use room assms(4) best(3,4) in \<open>simp_all\<close>)
  moreover have "take n (drop (r * n) vs) \<noteq> []" using room best(3) by simp
  then have "first_max (take n (drop (r * n) vs)) (argmax_f32 avx2 (map Fl (take n (drop (r * n) vs))))"
    by (rule argmax_f32_first)
  ultimately have "snd p = argmax_f32 avx2 (map Fl (take n (drop (r * n) vs)))" unfolding row by (rule first_max_unique)
  then show "indices ! r = map (\<lambda>r. argmax_f32 avx2 (map Fl (take n (drop (r * n) vs)))) [0..<nat rows] ! r"
    using r p(2) by simp
qed

theorem cuda_argmax_rows_is_cpu_witness:
  "fst (snd (argmax_rows_device 0 (Some (map Fl [1, 5, 2, 7, 7, 3 :: nat])) 3 2 True [1, 0] (empty_context, (\<lambda>_. (NaN, 9)), (\<lambda>_. (NaN, 9))))) =
    [argmax_f32 True (map Fl [1, 5, 2 :: nat]), argmax_f32 True (map Fl [7, 7, 3 :: nat])]"
proof -
  let ?run = "argmax_rows_device 0 (Some (map Fl [1, 5, 2, 7, 7, 3 :: nat])) 3 2 True [1, 0] (empty_context, (\<lambda>_. (NaN, 9)), (\<lambda>_. (NaN, 9)))"
  have "fst ?run = CUDA_OK"
    by (simp add: argmax_rows_device_def argmax_calls_def argmax_blocks_def on_context_def ensure_aux_scratch_def ensure_download_host_def
      grow_stale_def grow_def discard_def create_in_def asked_def asked_release_def forget_def set_bytes_def device_call_def room_def
      empty_context_def INT_MAX_def)
  then obtain indices s' where run: "?run = (CUDA_OK, indices, s')" by (cases ?run) auto
  have i: "indices = map (\<lambda>r. argmax_f32 True (map Fl (take 3 (drop (r * 3) [1, 5, 2, 7, 7, 3 :: nat])))) [0..<nat 2]"
    by (rule cuda_argmax_rows_is_cpu [OF run]) (auto simp: argmax_blocks_def)
  also have "\<dots> = [argmax_f32 True (map Fl [1, 5, 2 :: nat]), argmax_f32 True (map Fl [7, 7, 3 :: nat])]"
    by (simp add: upt_rec)
  finally show ?thesis using run by simp
qed

text \<open>
  When every logit is NaN or below \<open>-FLT_MAX\<close>, the argmax on the device reports success with the
  index \<open>INT_MAX\<close>, which is outside of every array it accepts.
\<close>

theorem cuda_argmax_nothing_found:
  assumes "argmax_device lowest (Some input) n True order (c, aux, host) = (CUDA_OK, index, s')"
    and "set order = {..<argmax_blocks n}" and "\<forall>i<n. input ! i = NaN \<or> (\<exists>v<lowest. input ! i = Fl v)"
  shows "index = Some INT_MAX"
proof -
  obtain p where p: "best_of lowest input {..<n} p" "index = Some (snd p)" using argmax_device_best(1) [OF assms(1,2)] by blast
  have "snd p = INT_MAX" by (rule best_of_none [OF p(1)]) (use assms(3) in blast)
  then show ?thesis using p(2) by simp
qed

theorem cuda_argmax_nothing_found_witness:
  "fst (snd (argmax_device 0 (Some [NaN, NaN :: int fl]) 2 True [0] (empty_context, (\<lambda>_. (NaN, 9)), (\<lambda>_. (NaN, 9))))) = Some INT_MAX"
proof -
  let ?run = "argmax_device 0 (Some [NaN, NaN :: int fl]) 2 True [0] (empty_context, (\<lambda>_. (NaN, 9)), (\<lambda>_. (NaN, 9)))"
  have "fst ?run = CUDA_OK"
    by (simp add: argmax_device_def argmax_calls_def argmax_blocks_def on_context_def ensure_aux_scratch_def ensure_download_host_def
      grow_stale_def grow_def discard_def create_in_def asked_def asked_release_def forget_def set_bytes_def device_call_def room_def
      empty_context_def INT_MAX_def)
  then obtain index s' where run: "?run = (CUDA_OK, index, s')" by (cases ?run) auto
  have "index = Some INT_MAX"
    by (rule cuda_argmax_nothing_found [OF run]) (auto simp: argmax_blocks_def less_2_cases_iff)
  then show ?thesis using run by simp
qed

end
