(* ===== verification/CudaTopk.thy ===== *)
theory CudaTopk
  imports CudaArgmax WordFacts
begin

unbundle bit_operations_syntax

section \<open>The largest logits of each row\<close>

text \<open>
  Models the row-wise top-k of \<open>src/backend/cuda/fortai_cuda_backend.cu\<close>: \<open>qwen_topk_key\<close>, the two
  kernels and the driver of the radix selection, and \<open>fortai_cuda_qwen35_topk_rows_device\<close>, which takes it
  for at most three rows and CUB's \<open>DeviceTopK::MaxPairs\<close> otherwise. A float is its 32 bits. CUB's
  block sort and its top-k are arguments of the definitions: \<open>block_sort\<close> on the items of a block in their
  blocked arrangement, \<open>max_pairs\<close> on a row. A read outside of the logits is the value \<open>None\<close>.
\<close>

definition qwen_topk_max :: nat where "qwen_topk_max = 32"

definition float_nan :: "u32 \<Rightarrow> bool" where
  "float_nan bits \<longleftrightarrow> 0x7F800000 < (bits AND 0x7FFFFFFF)"

text \<open>The order of the floats that are no NaN; both zeros have the rank zero.\<close>

definition float_rank :: "u32 \<Rightarrow> int" where
  "float_rank bits = (let size = uint (bits AND 0x7FFFFFFF) in if bit bits 31 then - size else size)"

definition qwen_topk_key :: "u32 \<Rightarrow> nat \<Rightarrow> u64" where
  "qwen_topk_key bits index =
     (if float_nan bits then 0
      else let ordered = bits XOR (signed_drop_bit 31 bits OR 0x80000000)
           in push_bit 32 (ucast ordered) OR ucast (word_of_nat (INT_MAX - index) :: u32))"

type_synonym topk_item = "u64 \<times> nat"

record topk_state =
  temp_bytes :: nat
  temp_elements :: nat
  temp_k :: nat
  partial_keys :: "nat \<Rightarrow> u64"
  partial_indices :: "nat \<Rightarrow> nat"
  device_values :: "nat \<Rightarrow> u32 option"
  device_indices :: "nat \<Rightarrow> nat"
  selected_values :: "nat \<Rightarrow> u32 option"
  selected_indices :: "nat \<Rightarrow> nat"

subsection \<open>The radix selection\<close>

text \<open>Position \<open>p\<close> of the blocked arrangement is item \<open>p mod items\<close> of thread \<open>p div items\<close>.\<close>

definition tile_items :: "nat \<Rightarrow> (nat \<Rightarrow> bool) \<Rightarrow> (nat \<Rightarrow> topk_item) \<Rightarrow> topk_item list" where
  "tile_items items valid item = map (\<lambda>p. let source = p div items + p mod items * 256
     in if valid source then item source else (0, INT_MAX)) [0..<256 * items]"

definition keep_first :: "nat \<Rightarrow> nat \<Rightarrow> (nat \<Rightarrow> 'a) \<Rightarrow> (nat \<Rightarrow> 'a) \<Rightarrow> nat \<Rightarrow> 'a" where
  "keep_first first n v block i = (if first \<le> i \<and> i < first + n then v (i - first) else block i)"

definition at_float :: "u32 list \<Rightarrow> nat \<Rightarrow> u32 option" where
  "at_float input i = (if i < length input then Some (input ! i) else None)"

definition qwen_topk_block_partials ::
    "(topk_item list \<Rightarrow> topk_item list) \<Rightarrow> nat \<Rightarrow> u32 list \<Rightarrow> nat \<Rightarrow> nat \<Rightarrow> nat \<times> nat \<Rightarrow> topk_state \<Rightarrow> topk_state" where
  "qwen_topk_block_partials block_sort items input row_elements blocks = (\<lambda>(x, row) s.
     let tile_start = x * (256 * items);
         sorted = block_sort (tile_items items (\<lambda>t. tile_start + t < row_elements)
           (\<lambda>t. (qwen_topk_key (input ! (row * row_elements + (tile_start + t))) (tile_start + t), tile_start + t)));
         first = (row * blocks + x) * qwen_topk_max
     in s\<lparr>partial_keys := keep_first first qwen_topk_max (\<lambda>rank. fst (sorted ! rank)) (partial_keys s),
          partial_indices := keep_first first qwen_topk_max (\<lambda>rank. snd (sorted ! rank)) (partial_indices s)\<rparr>)"

definition qwen_topk_block_finalize ::
    "(topk_item list \<Rightarrow> topk_item list) \<Rightarrow> nat \<Rightarrow> u32 list \<Rightarrow> nat \<Rightarrow> nat \<Rightarrow> nat \<Rightarrow> nat \<Rightarrow> topk_state \<Rightarrow> topk_state" where
  "qwen_topk_block_finalize block_sort items input row_elements partials_per_row top_k row s =
     (let sorted = block_sort (tile_items items (\<lambda>source. source < partials_per_row \<and> source < 256 * items)
            (\<lambda>source. (partial_keys s (row * partials_per_row + source), partial_indices s (row * partials_per_row + source))));
          index = (\<lambda>rank. snd (sorted ! rank))
      in s\<lparr>device_indices := keep_first (row * top_k) top_k index (device_indices s),
           device_values := keep_first (row * top_k) top_k (\<lambda>rank. at_float input (row * row_elements + index rank)) (device_values s)\<rparr>)"

definition copy_values :: "nat \<Rightarrow> nat \<Rightarrow> topk_state \<Rightarrow> topk_state" where
  "copy_values first n s = s\<lparr>selected_values := keep_first first n (\<lambda>i. device_values s (first + i)) (selected_values s)\<rparr>"

definition copy_indices :: "nat \<Rightarrow> nat \<Rightarrow> topk_state \<Rightarrow> topk_state" where
  "copy_indices first n s = s\<lparr>selected_indices := keep_first first n (\<lambda>i. device_indices s (first + i)) (selected_indices s)\<rparr>"

text \<open>What the caller's arrays receive: the indices and the values of all rows.\<close>

type_synonym topk_output = "nat list \<times> u32 option list"

definition qwen_topk_radix_rows ::
    "(topk_item list \<Rightarrow> topk_item list) \<Rightarrow> (nat \<times> nat) list \<Rightarrow> nat list \<Rightarrow> u32 list \<Rightarrow> nat \<Rightarrow> nat \<Rightarrow> nat \<Rightarrow>
     cuda_context \<times> topk_state \<Rightarrow> int \<times> topk_output option \<times> cuda_context \<times> topk_state" where
  "qwen_topk_radix_rows block_sort order row_order logits row_elements rows top_k = (\<lambda>(c, s).
     let blocks = (row_elements + 2048 - 1) div 2048; partials_per_row = blocks * qwen_topk_max
     in if partials_per_row > 4096 then (-1, None, c, s)
        else let partial_count = rows * partials_per_row; selected_count = rows * top_k;
                 scratch_bytes = partial_count * 8 + partial_count * 4 + selected_count * 4 + selected_count * 4;
                 (ok, c) = ensure_aux_scratch scratch_bytes c
             in if \<not> ok then (CUDA_RUNTIME_ERROR, None, c\<lparr>message := ''radix top-k scratch''\<rparr>, s)
                else let (ok, c) = ensure_download_host (selected_count * 4 + selected_count * 4) c
                     in if \<not> ok then (CUDA_RUNTIME_ERROR, None, c\<lparr>message := ''radix top-k download''\<rparr>, s)
                        else let (ok, c, s) = chain
                               [device_call [(ScratchAux, scratch_bytes)]
                                  (\<lambda>_ s. launch (qwen_topk_block_finalize block_sort 16 logits row_elements partials_per_row top_k) row_order
                                    (launch (qwen_topk_block_partials block_sort 8 logits row_elements blocks) order s)),
                                device_call [(DownloadHost, selected_count * 4)] (\<lambda>_. copy_values 0 selected_count),
                                device_call [(DownloadHost, selected_count * 8)] (\<lambda>_. copy_indices 0 selected_count),
                                device_call [] (\<lambda>_ s. s)] (c, s)
                             in if \<not> ok then (CUDA_RUNTIME_ERROR, None, c\<lparr>message := ''radix top-k''\<rparr>, s)
                                else (CUDA_OK, Some (map (selected_indices s) [0..<selected_count], map (selected_values s) [0..<selected_count]), c, s))"

subsection \<open>The top-k of the library and its order on the host\<close>

definition greater_pair :: "u32 option \<times> nat \<Rightarrow> u32 option \<times> nat \<Rightarrow> bool" where
  "greater_pair l r \<longleftrightarrow> \<not> float_nan (the (fst l)) \<and> \<not> float_nan (the (fst r)) \<and>
     (float_rank (the (fst l)) > float_rank (the (fst r)) \<or> (float_rank (the (fst l)) = float_rank (the (fst r)) \<and> snd l < snd r))"

fun insert_pair :: "u32 option \<times> nat \<Rightarrow> (u32 option \<times> nat) list \<Rightarrow> (u32 option \<times> nat) list" where
  "insert_pair p [] = [p]"
| "insert_pair p (q # qs) = (if greater_pair p q then p # q # qs else q # insert_pair p qs)"

definition sort_pairs :: "(u32 option \<times> nat) list \<Rightarrow> (u32 option \<times> nat) list" where
  "sort_pairs ps = fold insert_pair ps []"

definition store_pairs :: "nat \<Rightarrow> (u32 \<times> nat) list \<Rightarrow> topk_state \<Rightarrow> topk_state" where
  "store_pairs first pairs s =
     s\<lparr>device_values := keep_first first (length pairs) (\<lambda>i. Some (fst (pairs ! i))) (device_values s),
       device_indices := keep_first first (length pairs) (\<lambda>i. snd (pairs ! i)) (device_indices s)\<rparr>"

definition size_temporary :: "(nat \<Rightarrow> nat \<Rightarrow> nat) \<Rightarrow> nat \<Rightarrow> nat \<Rightarrow> (cuda_context \<times> topk_state) call" where
  "size_temporary required row_elements top_k = (\<lambda>(c, s).
     if temp_elements s \<noteq> row_elements \<or> temp_k s \<noteq> top_k
     then device_call [] (\<lambda>_ s. s\<lparr>temp_bytes := required row_elements top_k, temp_elements := row_elements, temp_k := top_k\<rparr>) (c, s)
     else (True, c, s))"

definition row_calls :: "(u32 list \<Rightarrow> nat \<Rightarrow> (u32 \<times> nat) list) \<Rightarrow> u32 list \<Rightarrow> nat \<Rightarrow> nat \<Rightarrow> nat \<Rightarrow> nat \<Rightarrow> (cuda_context \<times> topk_state) call list" where
  "row_calls max_pairs logits row_elements top_k scratch_bytes row =
     [device_call [(ScratchAux, scratch_bytes)] (\<lambda>_. store_pairs (row * top_k) (max_pairs (take row_elements (drop (row * row_elements) logits)) top_k)),
      device_call [(DownloadHost, (row * top_k + top_k) * 4)] (\<lambda>_. copy_values (row * top_k) top_k),
      device_call [(DownloadHost, (row * top_k + top_k) * 4)] (\<lambda>_. copy_indices (row * top_k) top_k)]"

definition plain_call :: "(cuda_context \<times> topk_state) call" where
  "plain_call = device_call [] (\<lambda>_ s. s)"

definition library_topk ::
    "(nat \<Rightarrow> nat \<Rightarrow> nat) \<Rightarrow> (u32 list \<Rightarrow> nat \<Rightarrow> (u32 \<times> nat) list) \<Rightarrow> u32 list \<Rightarrow> nat \<Rightarrow> nat \<Rightarrow> nat \<Rightarrow>
     cuda_context \<times> topk_state \<Rightarrow> int \<times> topk_output option \<times> cuda_context \<times> topk_state" where
  "library_topk required max_pairs logits row_elements rows top_k = (\<lambda>(c, s).
     let (ok, c, s) = size_temporary required row_elements top_k (c, s);
         temp = (temp_bytes s + 255) div 256 * 256; selected_count = rows * top_k;
         scratch_bytes = (if rows > 1 then rows else 1) * temp + selected_count * 4 + selected_count * 4;
         row_calls = row_calls max_pairs logits row_elements top_k scratch_bytes;
         (ok, c, s) = chain
           ([\<lambda>m. (ok, m), on_context (ensure_aux_scratch scratch_bytes), on_context (ensure_download_host (selected_count * 4 + selected_count * 4))] @
            (if rows = 1 then row_calls 0 @ [plain_call]
             else [on_context topk_streams, plain_call] @ concat (map (\<lambda>row. plain_call # row_calls row @ [plain_call]) [0..<rows]) @
               replicate rows plain_call)) (c, s)
     in if \<not> ok then (CUDA_RUNTIME_ERROR, None, c\<lparr>message := ''device row top-k''\<rparr>, s)
        else let ordered = concat (map (\<lambda>row. sort_pairs (map (\<lambda>i. (selected_values s (row * top_k + i), selected_indices s (row * top_k + i))) [0..<top_k]))
                   [0..<rows])
             in (CUDA_OK, Some (map snd ordered, map fst ordered), c, s))"

definition topk_rows_device ::
    "(topk_item list \<Rightarrow> topk_item list) \<Rightarrow> (nat \<times> nat) list \<Rightarrow> nat list \<Rightarrow> (nat \<Rightarrow> nat \<Rightarrow> nat) \<Rightarrow> (u32 list \<Rightarrow> nat \<Rightarrow> (u32 \<times> nat) list) \<Rightarrow>
     u32 list option \<Rightarrow> nat \<Rightarrow> int \<Rightarrow> int \<Rightarrow> bool \<Rightarrow> bool \<Rightarrow>
     cuda_context \<times> topk_state \<Rightarrow> int \<times> topk_output option \<times> cuda_context \<times> topk_state" where
  "topk_rows_device block_sort order row_order required max_pairs logits row_elements rows top_k indices_given values_given m =
     (if logits = None \<or> \<not> indices_given \<or> \<not> values_given \<or> row_elements = 0 \<or> row_elements > INT_MAX \<or> rows \<le> 0 \<or> rows > 32 \<or>
         top_k \<le> 0 \<or> top_k > int qwen_topk_max \<or> nat top_k > row_elements then (CUDA_INVALID, None, m)
      else if rows \<le> 3
      then let (status, out, m) = qwen_topk_radix_rows block_sort order row_order (the logits) row_elements (nat rows) (nat top_k) m
           in if status \<ge> 0 then (status, out, m) else library_topk required max_pairs (the logits) row_elements (nat rows) (nat top_k) m
      else library_topk required max_pairs (the logits) row_elements (nat rows) (nat top_k) m)"

subsection \<open>The key orders the floats\<close>

lemma size_bits: "bits AND 0x7FFFFFFF = take_bit 31 bits" for bits :: u32
  by (simp add: take_bit_eq_mask mask_numeral)

lemma bit_sign: "bit (0x80000000 :: u32) n \<longleftrightarrow> n = 31"
proof -
  have "(0x80000000 :: u32) = push_bit 31 1" by simp
  then have "bit (0x80000000 :: u32) n \<longleftrightarrow> bit (push_bit 31 1 :: u32) n" by (rule arg_cong)
  also have "\<dots> \<longleftrightarrow> n = 31" unfolding bit_push_bit_iff by (auto simp: bit_1_iff)
  finally show ?thesis .
qed

lemma sign_and_size: "uint bits = (if bit bits 31 then 2 ^ 31 else 0) + uint (take_bit 31 bits)" for bits :: u32
proof -
  let ?s = "if bit bits 31 then 0x80000000 else 0 :: u32"
  have "?s AND take_bit 31 bits = 0"
  proof (rule bit_word_eqI)
    fix n :: nat
    show "bit (?s AND take_bit 31 bits) n \<longleftrightarrow> bit (0 :: u32) n" unfolding bit_and_iff bit_take_bit_iff using bit_sign [of n] by auto
  qed
  then have "?s + take_bit 31 bits = ?s OR take_bit 31 bits" by (rule disjunctive_add_eq_or)
  also have "\<dots> = bits"
  proof (rule bit_word_eqI)
    fix n :: nat assume n: "n < LENGTH(32)"
    show "bit (?s OR take_bit 31 bits) n \<longleftrightarrow> bit bits n"
      unfolding bit_or_iff bit_take_bit_iff using n bit_sign [of n] by (cases "n = 31") auto
  qed
  finally have sum: "?s + take_bit 31 bits = bits" .
  have "uint (take_bit 31 bits) < 2 ^ 31" using take_bit_int_less_exp [of 31 "uint bits"] by (simp add: unsigned_take_bit_eq)
  then have "uint (?s + take_bit 31 bits) = (if bit bits 31 then 2 ^ 31 else 0) + uint (take_bit 31 bits)"
    by (simp add: uint_word_ariths)
  then show ?thesis unfolding sum .
qed

lemma ordered_bits:
  "uint (bits XOR (signed_drop_bit 31 bits OR 0x80000000)) = (if bit bits 31 then 2 ^ 31 - 1 else 2 ^ 31) + float_rank bits"
  for bits :: u32
proof (cases "bit bits 31")
  case True
  have "bits XOR (signed_drop_bit 31 bits OR 0x80000000) = NOT bits"
  proof (rule bit_word_eqI)
    fix n :: nat assume "n < LENGTH(32)"
    then show "bit (bits XOR (signed_drop_bit 31 bits OR 0x80000000)) n \<longleftrightarrow> bit (NOT bits) n"
      using True by (cases "n = 0") (simp_all add: bit_simps)
  qed
  moreover have "uint (NOT bits) = 2 ^ 32 - 1 - uint bits"
  proof -
    have "uint (NOT bits) = take_bit 32 (NOT (uint bits))" by (simp add: unsigned_not_eq)
    also have "\<dots> = 2 ^ 32 - 1 - uint bits" by (simp add: take_bit_not_eq_mask_diff mask_eq_exp_minus_1 take_bit_int_eq_self unsigned_less [of bits, simplified])
    finally show ?thesis .
  qed
  ultimately show ?thesis using True sign_and_size [of bits] unfolding float_rank_def size_bits Let_def by simp
next
  case False
  let ?o = "bits XOR (signed_drop_bit 31 bits OR 0x80000000)"
  have "bit ?o 31" using False by (simp add: bit_simps bit_sign)
  moreover have "take_bit 31 ?o = take_bit 31 bits"
  proof (rule bit_word_eqI)
    fix n :: nat assume "n < LENGTH(32)"
    then show "bit (take_bit 31 ?o) n \<longleftrightarrow> bit (take_bit 31 bits) n"
      using False by (cases "n = 0") (auto simp: bit_simps bit_sign)
  qed
  ultimately show ?thesis using False sign_and_size [of ?o] unfolding float_rank_def size_bits Let_def by simp
qed

lemma NaN_bits: "float_nan bits \<longleftrightarrow> 0x7F800000 < uint (take_bit 31 bits)"
  by (simp add: float_nan_def size_bits word_less_def)

text \<open>The order of the keys: larger floats first, minus zero below zero, then the smaller index.\<close>

definition total_rank :: "u32 \<Rightarrow> int" where
  "total_rank bits = float_rank bits - (if bit bits 31 then 1 else 0)"

lemma key_value:
  assumes "\<not> float_nan bits" and "i < INT_MAX"
  shows "uint (qwen_topk_key bits i) = (2 ^ 31 + total_rank bits) * 2 ^ 32 + (int INT_MAX - int i)"
proof -
  let ?o = "bits XOR (signed_drop_bit 31 bits OR 0x80000000)"
  let ?i = "word_of_nat (INT_MAX - i) :: u32"
  have i: "unat ?i = INT_MAX - i" by (rule unat_small) (simp add: INT_MAX_def)
  have hi: "unat (push_bit 32 (ucast ?o) :: u64) = unat ?o * 2 ^ 32"
  proof -
    have "unat ?o < 2 ^ 32" using unsigned_less [of ?o] by simp
    then show ?thesis by (subst unat_shift_left) (simp_all add: unat_widen)
  qed
  have "unat (push_bit 32 (ucast ?o) OR ucast ?i :: u64) = unat ?o * 2 ^ 32 + unat ?i"
  proof (subst unat_or_disjoint [of 32])
    show "2 ^ 32 dvd unat (push_bit 32 (ucast ?o) :: u64)" unfolding hi by simp
    show "unat (ucast ?i :: u64) < 2 ^ 32" using unsigned_less [of ?i] by (simp add: unat_widen)
    show "unat (push_bit 32 (ucast ?o) :: u64) + unat (ucast ?i :: u64) = unat ?o * 2 ^ 32 + unat ?i" unfolding hi by (simp add: unat_widen)
  qed
  then have "uint (push_bit 32 (ucast ?o) OR ucast ?i :: u64) = int (unat ?o * 2 ^ 32 + (INT_MAX - i))"
    using i by (metis uint_nat)
  also have "\<dots> = uint ?o * 2 ^ 32 + (int INT_MAX - int i)" using assms(2) by simp
  finally show ?thesis using assms(1) ordered_bits [of bits] by (simp add: qwen_topk_key_def total_rank_def)
qed

lemma total_rank_bounds: "\<not> float_nan bits \<Longrightarrow> - (2 ^ 31) < total_rank bits \<and> total_rank bits < 2 ^ 31"
proof -
  assume "\<not> float_nan bits"
  then have "uint (take_bit 31 bits) \<le> 0x7F800000" by (simp add: NaN_bits)
  moreover obtain z where "uint (take_bit 31 bits) = z" and "0 \<le> z" by simp
  ultimately show ?thesis unfolding total_rank_def float_rank_def size_bits Let_def by auto
qed

lemma key_positive: "\<not> float_nan bits \<Longrightarrow> i < INT_MAX \<Longrightarrow> qwen_topk_key bits i \<noteq> 0"
proof -
  assume a: "\<not> float_nan bits" "i < INT_MAX"
  have "0 < (2 ^ 31 + total_rank bits) * 2 ^ 32 + (int INT_MAX - int i)" using total_rank_bounds [OF a(1)] a(2) by simp
  then show ?thesis using key_value [OF a] by force
qed

subsection \<open>Sorted prefixes\<close>

text \<open>Documented of CUB's block sort: it is a stable sort, largest key first.\<close>

definition sorts_descending :: "(topk_item list \<Rightarrow> topk_item list) \<Rightarrow> bool" where
  "sorts_descending f \<longleftrightarrow> (\<forall>xs. mset (f xs) = mset xs \<and> sorted_wrt (\<lambda>p q. fst q \<le> fst p) (f xs) \<and>
     (\<forall>k. filter (\<lambda>p. fst p = k) (f xs) = filter (\<lambda>p. fst p = k) xs))"

definition descending :: "topk_item list \<Rightarrow> topk_item list" where
  "descending xs = sort_key (\<lambda>p. - uint (fst p)) xs"

lemma sorted_keys: "sorted_wrt (\<lambda>p q. fst q \<le> fst p) xs \<longleftrightarrow> sorted (map (\<lambda>p. - uint (fst p)) xs)" for xs :: "topk_item list"
  by (simp add: sorted_wrt_map word_le_def)

lemma descending_sorts: "sorts_descending descending"
proof -
  have "filter (\<lambda>p. fst p = k) (descending xs) = filter (\<lambda>p. fst p = k) xs" for k xs
  proof -
    have "filter (\<lambda>p. - uint (fst p) = - uint k) (sort_key (\<lambda>p. - uint (fst p)) xs) = filter (\<lambda>p. - uint (fst p) = - uint k) xs"
      by (rule sort_key_stable)
    then show ?thesis by (simp add: descending_def word_uint_eq_iff)
  qed
  then show ?thesis by (simp add: sorts_descending_def sorted_keys) (simp add: descending_def)
qed

lemma take_filter_prefix: "x \<in> set (take k xs) \<Longrightarrow> P x \<Longrightarrow> x \<in> set (take k (filter P xs))"
proof (induction xs arbitrary: k)
  case (Cons y ys)
  obtain j where k: "k = Suc j" using Cons.prems(1) by (cases k) auto
  show ?case
  proof (cases "x = y")
    case False
    then have "x \<in> set (take j (filter P ys))" using Cons k by simp
    then show ?thesis using set_take_subset_set_take [of j "Suc j" "filter P ys"] k by auto
  qed (use Cons.prems(2) k in simp)
qed simp

lemma same_descending:
  assumes "mset xs = mset ys" and "sorted_wrt (\<lambda>p q. fst q \<le> fst p) xs" and "sorted_wrt (\<lambda>p q. fst q \<le> fst p) ys"
    and "inj_on fst (set xs)"
  shows "xs = (ys :: topk_item list)"
proof -
  let ?f = "\<lambda>p :: topk_item. - uint (fst p)"
  have "mset (map ?f xs) = mset (map ?f ys)" using assms(1) by simp
  then have "map ?f xs = map ?f ys"
    using assms(2,3) unfolding sorted_keys by (metis properties_for_sort)
  moreover have "inj_on ?f (set xs)" using assms(4) by (simp add: inj_on_def) (metis word_uint_eqI)
  moreover have "set xs \<union> set ys = set xs" using mset_eq_setD [OF assms(1)] by simp
  ultimately show ?thesis using map_inj_on [of ?f xs ys] by (simp only:)
qed

abbreviation real_item :: "topk_item \<Rightarrow> bool" where
  "real_item p \<equiv> fst p \<noteq> 0"

lemma filter_take_real: "sorted_wrt (\<lambda>p q. fst q \<le> fst p) xs \<Longrightarrow> filter real_item (take k xs) = take k (filter real_item xs)"
proof (induction xs arbitrary: k)
  case (Cons p xs)
  show ?case
  proof (cases "real_item p")
    case True
    then show ?thesis using Cons by (cases k) auto
  next
    case False
    then have "filter real_item xs = []" using Cons.prems by (auto simp: filter_empty_conv)
    then show ?thesis using False Cons by (cases k) auto
  qed
qed simp

lemma filter_whole: "length (filter P xs) = length xs \<Longrightarrow> filter P xs = xs"
  by (metis filter_True length_filter_less less_irrefl)

lemma filter_keeps_prefix:
  assumes "\<forall>x\<in>set (take k xs). P x"
  shows "take k (filter P xs) = take k xs"
proof -
  have "filter P xs = take k xs @ filter P (drop k xs)"
    using assms filter_append [of P "take k xs" "drop k xs"] by simp
  then show ?thesis by (cases "k \<le> length xs") simp_all
qed

lemma distinct_parts:
  assumes "\<And>x. distinct (H x)" and "\<And>x p. p \<in> set (H x) \<Longrightarrow> t p = x"
  shows "distinct (concat (map H [0..<m]))"
proof (induction m)
  case (Suc m)
  have "t p < m" if "p \<in> set (concat (map H [0..<m]))" for p using that assms(2) by auto
  then show ?case using Suc assms by fastforce
qed simp

text \<open>The merge: the first of the sorted heads of the tiles are the first of all.\<close>

lemma merge_heads:
  assumes "\<forall>p\<in>set R. t p < blocks" and "k \<le> w" and "distinct R"
    and "\<And>x. x < blocks \<Longrightarrow> filter real_item (P x) = take w (filter (\<lambda>p. t p = x) R)"
    and "mset (filter real_item S) = mset (filter real_item (concat (map P [0..<blocks])))"
    and "sorted_wrt (\<lambda>p q. fst q \<le> fst p) S" and "sorted_wrt (\<lambda>p q. fst q \<le> fst p) R" and "inj_on fst (set R)"
    and "k \<le> length R"
  shows "take k S = take k R"
proof -
  let ?H = "\<lambda>x. take w (filter (\<lambda>p. t p = x) R)"
  let ?heads = "concat (map ?H [0..<blocks])"
  have heads: "filter real_item (concat (map P [0..<blocks])) = ?heads"
    unfolding filter_concat map_map by (rule arg_cong [of _ _ concat]) (simp add: assms(4))
  have part: "p \<in> set R \<and> t p = x" if "p \<in> set (?H x)" for p x
    using in_set_takeD [OF that] by simp
  let ?A = "set ?heads"
  have sub: "?A \<subseteq> set R" using part by fastforce
  have "distinct ?heads"
  proof (rule distinct_parts [where t = t])
    show "distinct (?H x)" for x using assms(3) by simp
    show "p \<in> set (?H x) \<Longrightarrow> t p = x" for p x using part by blast
  qed
  moreover have "distinct (filter (\<lambda>p. p \<in> ?A) R)" using assms(3) by simp
  moreover have "set (filter (\<lambda>p. p \<in> ?A) R) = ?A" using sub by auto
  ultimately have "mset ?heads = mset (filter (\<lambda>p. p \<in> ?A) R)" by (simp only: set_eq_iff_mset_eq_distinct [symmetric])
  then have m: "mset (filter real_item S) = mset (filter (\<lambda>p. p \<in> ?A) R)" using assms(5) heads by simp
  have S: "filter real_item S = filter (\<lambda>p. p \<in> ?A) R"
  proof (rule same_descending [OF m])
    show "sorted_wrt (\<lambda>p q. fst q \<le> fst p) (filter real_item S)" using assms(6) by (rule sorted_wrt_filter)
    show "sorted_wrt (\<lambda>p q. fst q \<le> fst p) (filter (\<lambda>p. p \<in> ?A) R)" using assms(7) by (rule sorted_wrt_filter)
    show "inj_on fst (set (filter real_item S))"
      unfolding mset_eq_setD [OF m] by (rule inj_on_subset [OF assms(8) filter_is_subset])
  qed
  have "p \<in> ?A" if "p \<in> set (take k R)" for p
  proof -
    have "p \<in> set (take w R)" using that set_take_subset_set_take [OF assms(2), of R] by blast
    then have "p \<in> set (?H (t p))" by (rule take_filter_prefix) simp
    moreover have "t p < blocks" using in_set_takeD [OF that] assms(1) by blast
    ultimately show ?thesis by auto
  qed
  then have top: "take k (filter real_item S) = take k R" unfolding S by (intro filter_keeps_prefix) blast
  then have f: "filter real_item (take k S) = take k R" using filter_take_real [OF assms(6)] by simp
  have "length (filter real_item (take k S)) = k" unfolding f using assms(9) by simp
  then have "length (filter real_item (take k S)) = length (take k S)"
    using length_filter_le [of real_item "take k S"] by simp
  then have "filter real_item (take k S) = take k S" by (rule filter_whole)
  then show ?thesis using f by simp
qed

subsection \<open>The items of a block\<close>

lemma arrangement: "0 < items \<Longrightarrow> mset (map (\<lambda>p. p div items + p mod items * 256) [0..<256 * items]) = mset [0..<256 * items]"
proof -
  assume pos: "0 < items"
  let ?f = "\<lambda>p. p div items + p mod items * 256"
  have bound: "?f p < 256 * items" "?f p mod 256 = p div items" "?f p div 256 = p mod items" if "p < 256 * items" for p
  proof -
    have d: "p div items < 256" using that by (simp add: less_mult_imp_div_less)
    have m: "p mod items < items" using pos by simp
    have "Suc (p mod items) * 256 \<le> items * 256" using m by (intro mult_le_mono1) simp
    then show "?f p < 256 * items" using d by simp
    show "?f p mod 256 = p div items" "?f p div 256 = p mod items" using d by simp_all
  qed
  have inj: "inj_on ?f {0..<256 * items}"
  proof (rule inj_onI)
    fix p q assume "p \<in> {0..<256 * items}" "q \<in> {0..<256 * items}" and eq: "?f p = ?f q"
    then have "p div items = q div items" "p mod items = q mod items" using bound [of p] bound [of q] by auto
    then show "p = q" by (metis div_mult_mod_eq)
  qed
  have "?f ` {0..<256 * items} = {0..<256 * items}"
    by (rule endo_inj_surj [OF _ _ inj]) (use bound(1) in auto)
  then have "mset (map ?f [0..<256 * items]) = mset [0..<256 * items]"
    using inj by (intro set_eq_iff_mset_eq_distinct [THEN iffD1]) (simp_all add: distinct_map)
  then show ?thesis .
qed

lemma mset_tile_items:
  assumes "0 < items"
  shows "mset (filter real_item (tile_items items valid item)) = mset (filter real_item (map item (filter valid [0..<256 * items])))"
proof -
  let ?g = "\<lambda>source. if valid source then item source else (0, INT_MAX)"
  have "tile_items items valid item = map ?g (map (\<lambda>p. p div items + p mod items * 256) [0..<256 * items])"
    by (simp add: tile_items_def Let_def)
  then have "mset (tile_items items valid item) = image_mset ?g (mset (map (\<lambda>p. p div items + p mod items * 256) [0..<256 * items]))"
    by (simp only: mset_map)
  also have "\<dots> = mset (map ?g [0..<256 * items])" using arrangement [OF assms] by (simp only: mset_map)
  finally have "mset (filter real_item (tile_items items valid item)) = mset (filter real_item (map ?g [0..<256 * items]))"
    by (simp only: mset_filter)
  moreover have "filter real_item (map ?g xs) = filter real_item (map item (filter valid xs))" for xs :: "nat list"
    by (induction xs) auto
  ultimately show ?thesis by simp
qed

lemma length_tile_items [simp]: "length (tile_items items valid item) = 256 * items"
  by (simp add: tile_items_def)

subsection \<open>The order of a row\<close>

definition topk_of :: "u32 list \<Rightarrow> nat \<Rightarrow> nat list" where
  "topk_of row k = take k (sort_key (\<lambda>i. - total_rank (row ! i)) [0..<length row])"

definition items_of :: "u32 list \<Rightarrow> topk_item list" where
  "items_of row = map (\<lambda>i. (qwen_topk_key (row ! i) i, i)) [0..<length row]"

definition row_of_numbers :: "u32 list \<Rightarrow> bool" where
  "row_of_numbers row \<longleftrightarrow> (\<forall>v\<in>set row. \<not> float_nan v) \<and> length row \<le> INT_MAX"

lemma key_le:
  assumes "\<not> float_nan a" and "\<not> float_nan b" and "i < INT_MAX" and "j < INT_MAX"
  shows "uint (qwen_topk_key b j) \<le> uint (qwen_topk_key a i) \<longleftrightarrow> total_rank b < total_rank a \<or> (total_rank b = total_rank a \<and> i \<le> j)"
proof -
  have "int INT_MAX - int i < 2 ^ 32" "int INT_MAX - int j < 2 ^ 32" "0 < int INT_MAX - int i" "0 < int INT_MAX - int j"
    using assms(3,4) by (simp_all add: INT_MAX_def)
  moreover have "x * 2 ^ 32 + l \<le> y * 2 ^ 32 + m \<longleftrightarrow> x < y \<or> (x = y \<and> l \<le> m)"
    if "0 < l" "0 < m" "l < 2 ^ 32" "m < 2 ^ 32" for x y l m :: int using that by auto
  ultimately show ?thesis unfolding key_value [OF assms(1,3)] key_value [OF assms(2,4)] by simp
qed

lemma row_entry: "row_of_numbers row \<Longrightarrow> i < length row \<Longrightarrow> \<not> float_nan (row ! i) \<and> i < INT_MAX"
  by (auto simp: row_of_numbers_def)

lemma items_real: "row_of_numbers row \<Longrightarrow> p \<in> set (items_of row) \<Longrightarrow> real_item p"
  using row_entry key_positive by (auto simp: items_of_def)

lemma items_inj: "row_of_numbers row \<Longrightarrow> inj_on fst (set (items_of row))"
proof (rule inj_onI)
  fix p q assume row: "row_of_numbers row" and "p \<in> set (items_of row)" "q \<in> set (items_of row)" and eq: "fst p = fst q"
  then obtain i j where i: "i < length row" "p = (qwen_topk_key (row ! i) i, i)" and j: "j < length row" "q = (qwen_topk_key (row ! j) j, j)"
    by (auto simp: items_of_def)
  note r = row_entry [OF row i(1)] row_entry [OF row j(1)]
  have "i \<le> j" "j \<le> i" using key_le [of "row ! i" "row ! j" i j] key_le [of "row ! j" "row ! i" j i] r eq i j by auto
  then show "p = q" using i j by simp
qed

lemma distinct_items: "distinct (items_of row)"
  by (simp add: items_of_def distinct_map inj_on_def)

lemma descending_facts:
  shows "mset (descending xs) = mset xs" and "sorted_wrt (\<lambda>p q. fst q \<le> fst p) (descending xs)" and "set (descending xs) = set xs"
  using descending_sorts mset_eq_setD [of "descending xs" xs] by (simp_all add: sorts_descending_def)

lemma descending_items:
  assumes "row_of_numbers row"
  shows "map snd (descending (items_of row)) = sort_key (\<lambda>i. - total_rank (row ! i)) [0..<length row]"
proof -
  let ?g = "\<lambda>i. - uint (qwen_topk_key (row ! i) i)" and ?f = "\<lambda>i. - total_rank (row ! i)"
  let ?xs = "[0..<length row]" and ?it = "\<lambda>i. (qwen_topk_key (row ! i) i, i)"
  have g: "?g i \<le> ?g j \<longleftrightarrow> total_rank (row ! j) < total_rank (row ! i) \<or> (total_rank (row ! j) = total_rank (row ! i) \<and> i \<le> j)"
    if "i < length row" "j < length row" for i j
    using key_le row_entry [OF assms that(1)] row_entry [OF assms that(2)] by simp
  have d: "descending (items_of row) = map ?it (sort_key ?g ?xs)"
  proof (rule same_descending)
    show "mset (descending (items_of row)) = mset (map ?it (sort_key ?g ?xs))"
      by (simp add: descending_facts items_of_def)
    show "sorted_wrt (\<lambda>p q. fst q \<le> fst p) (map ?it (sort_key ?g ?xs))"
      unfolding sorted_keys map_map by (simp add: comp_def)
    show "inj_on fst (set (descending (items_of row)))" using items_inj [OF assms] by (simp add: descending_facts)
  qed (rule descending_facts)
  have "sort_key ?f ?xs = sort_key ?g ?xs"
  proof (rule properties_for_sort_key)
    show "mset (sort_key ?g ?xs) = mset ?xs" by simp
    have s: "sorted_wrt (\<lambda>i j. ?g i \<le> ?g j) (sort_key ?g ?xs)" using sorted_sort_key [of ?g ?xs] by (simp only: sorted_wrt_map)
    show "sorted (map ?f (sort_key ?g ?xs))"
      unfolding sorted_wrt_map by (rule sorted_wrt_mono_rel [OF _ s]) (use g in fastforce)
    fix k assume k: "k \<in> set (sort_key ?g ?xs)"
    have "sorted_wrt (\<lambda>i j. ?g i \<le> ?g j) (filter (\<lambda>x. ?f k = ?f x) ?xs)"
    proof (rule sorted_wrt_mono_rel [where P = "(\<le>)"])
      fix i j assume "i \<in> set (filter (\<lambda>x. ?f k = ?f x) ?xs)" "j \<in> set (filter (\<lambda>x. ?f k = ?f x) ?xs)" "i \<le> j"
      then show "?g i \<le> ?g j" using g [of i j] by simp
    qed (simp add: sorted_wrt_filter)
    then have "sort_key ?g (filter (\<lambda>x. ?f k = ?f x) ?xs) = filter (\<lambda>x. ?f k = ?f x) ?xs"
      by (intro sort_key_id_if_sorted) (simp only: sorted_wrt_map)
    then show "filter (\<lambda>x. ?f k = ?f x) (sort_key ?g ?xs) = filter (\<lambda>x. ?f k = ?f x) ?xs"
      by (simp only: filter_sort)
  qed
  then show ?thesis unfolding d by (simp add: comp_def)
qed

subsection \<open>What the kernels leave\<close>

lemma keep_first_region: "0 < w \<Longrightarrow> keep_first (a * w) w v g i = (if i div w = a then v (i mod w) else g i)"
proof -
  assume w: "0 < w"
  have "a * w \<le> i \<and> i < a * w + w \<longleftrightarrow> i div w = a"
    using w by (metis add.commute div_nat_eqI dividend_less_times_div div_times_less_eq_dividend mult.commute mult_Suc)
  then show ?thesis by (auto simp: keep_first_def minus_div_mult_eq_mod [symmetric])
qed

lemma launch_regions:
  assumes "\<And>t s. t \<in> set ts \<Longrightarrow> ok s \<Longrightarrow> ok (step t s) \<and> get (step t s) = keep_first (pos t * w) w (v (pos t)) (get s)"
    and "ok s" and "0 < w"
  shows "ok (launch step ts s)" and "get (launch step ts s) i = (if i div w \<in> pos ` set ts then v (i div w) (i mod w) else get s i)"
proof -
  have "ok (launch step ts s) \<and> get (launch step ts s) i = (if i div w \<in> pos ` set ts then v (i div w) (i mod w) else get s i)"
    using assms(1,2)
  proof (induction ts arbitrary: s)
    case (Cons t ts)
    have st: "ok (step t s)" "get (step t s) = keep_first (pos t * w) w (v (pos t)) (get s)" using Cons.prems by auto
    have "ok (launch step ts (step t s)) \<and>
        get (launch step ts (step t s)) i = (if i div w \<in> pos ` set ts then v (i div w) (i mod w) else get (step t s) i)"
      by (rule Cons.IH) (use Cons.prems(1) st(1) in auto)
    then show ?case unfolding st(2) keep_first_region [OF assms(3)] by (auto simp: launch_def)
  qed (simp add: launch_def)
  then show "ok (launch step ts s)" "get (launch step ts s) i = (if i div w \<in> pos ` set ts then v (i div w) (i mod w) else get s i)"
    by blast+
qed

text \<open>The sorted tile \<open>x\<close> of a row, and what a row's finalising block sorts.\<close>

definition tile_of :: "u32 list \<Rightarrow> nat \<Rightarrow> nat \<Rightarrow> nat \<Rightarrow> topk_item list" where
  "tile_of input n row x = tile_items 8 (\<lambda>t. x * 2048 + t < n)
     (\<lambda>t. (qwen_topk_key (input ! (row * n + (x * 2048 + t))) (x * 2048 + t), x * 2048 + t))"

definition heads_of :: "(topk_item list \<Rightarrow> topk_item list) \<Rightarrow> u32 list \<Rightarrow> nat \<Rightarrow> nat \<Rightarrow> nat \<Rightarrow> topk_item list" where
  "heads_of block_sort input n row x = take 32 (block_sort (tile_of input n row x))"

definition finalists ::
    "(topk_item list \<Rightarrow> topk_item list) \<Rightarrow> u32 list \<Rightarrow> nat \<Rightarrow> nat \<Rightarrow> nat \<Rightarrow> topk_item list" where
  "finalists block_sort input n blocks row = block_sort (tile_items 16 (\<lambda>s. s < blocks * 32 \<and> s < 4096)
     (\<lambda>s. heads_of block_sort input n row (s div 32) ! (s mod 32)))"

lemma length_sorted: "sorts_descending f \<Longrightarrow> length (f xs) = length xs"
  unfolding sorts_descending_def by (metis size_mset)

lemma length_heads: "sorts_descending f \<Longrightarrow> length (heads_of f input n row x) = 32"
  by (simp add: heads_of_def length_sorted tile_of_def)

lemma launch_heads:
  assumes "set order = {..<blocks} \<times> {..<rows}" and "0 < blocks" and "x < blocks" and "row < rows" and "j < 32"
    and "sorts_descending f"
  shows "partial_keys (launch (qwen_topk_block_partials f 8 input n blocks) order s) ((row * blocks + x) * 32 + j) = fst (heads_of f input n row x ! j)"
    and "partial_indices (launch (qwen_topk_block_partials f 8 input n blocks) order s) ((row * blocks + x) * 32 + j) = snd (heads_of f input n row x ! j)"
proof -
  let ?step = "qwen_topk_block_partials f 8 input n blocks"
  let ?pos = "\<lambda>(x, row). row * blocks + x"
  let ?P = "\<lambda>b. heads_of f input n (b div blocks) (b mod blocks)"
  let ?i = "(row * blocks + x) * 32 + j"
  have pos: "?i div 32 = row * blocks + x" "?i mod 32 = j" using assms(5) by (simp, simp only: mod_mult_self3 mod_less)
  have dm: "(row' * blocks + x') div blocks = row'" "(row' * blocks + x') mod blocks = x'" if "x' < blocks" for row' x'
    using that by simp_all
  have k: "partial_keys (?step t s) = keep_first (?pos t * 32) 32 (\<lambda>r. fst (?P (?pos t) ! r)) (partial_keys s)"
    and p: "partial_indices (?step t s) = keep_first (?pos t * 32) 32 (\<lambda>r. snd (?P (?pos t) ! r)) (partial_indices s)"
    if "t \<in> set order" for t s
  proof -
    obtain x' row' where t: "t = (x', row')" "x' < blocks" using \<open>t \<in> set order\<close> assms(1) by auto
    note d = dm [OF t(2), of row']
    show "partial_keys (?step t s) = keep_first (?pos t * 32) 32 (\<lambda>r. fst (?P (?pos t) ! r)) (partial_keys s)"
      "partial_indices (?step t s) = keep_first (?pos t * 32) 32 (\<lambda>r. snd (?P (?pos t) ! r)) (partial_indices s)"
      unfolding t(1) prod.case d
      by (auto simp: qwen_topk_block_partials_def Let_def qwen_topk_max_def keep_first_def heads_of_def tile_of_def fun_eq_iff)
  qed
  have mem: "row * blocks + x \<in> ?pos ` set order" using assms(1,3,4) by (auto simp: image_iff intro!: bexI [of _ "(x, row)"])
  show "partial_keys (launch ?step order s) ?i = fst (heads_of f input n row x ! j)"
    using launch_regions(2) [of order "\<lambda>_. True" ?step partial_keys ?pos 32 "\<lambda>b r. fst (?P b ! r)" s ?i] k mem pos dm [OF assms(3)] by simp
  show "partial_indices (launch ?step order s) ?i = snd (heads_of f input n row x ! j)"
    using launch_regions(2) [of order "\<lambda>_. True" ?step partial_indices ?pos 32 "\<lambda>b r. snd (?P b ! r)" s ?i] p mem pos dm [OF assms(3)] by simp
qed

lemma tile_heads:
  assumes "sorts_descending f" and "row_of_numbers r" and "r = take n (drop (row * n) input)" and "length r = n"
  shows "filter real_item (heads_of f input n row x) = take 32 (filter (\<lambda>p. snd p div 2048 = x) (descending (items_of r)))"
proof -
  let ?it = "\<lambda>i. (qwen_topk_key (r ! i) i, i)"
  let ?R = "descending (items_of r)"
  have at: "input ! (row * n + i) = r ! i" if "i < n" for i using that assms(3,4) by simp
  let ?ts = "filter (\<lambda>t. x * 2048 + t < n) [0..<2048]"
  let ?in = "\<lambda>t. (qwen_topk_key (input ! (row * n + (x * 2048 + t))) (x * 2048 + t), x * 2048 + t)"
  have own: "map ?in ?ts = map ?it (map (\<lambda>t. x * 2048 + t) ?ts)" by (auto simp: at)
  have "real_item (?it i)" if "i < n" for i using row_entry [OF assms(2), of i] that assms(4) key_positive by simp
  then have real: "filter real_item (map ?it (map (\<lambda>t. x * 2048 + t) ?ts)) = map ?it (map (\<lambda>t. x * 2048 + t) ?ts)"
    by (intro filter_True) auto
  have "mset (filter real_item (tile_of input n row x)) = mset (filter real_item (map ?in (filter (\<lambda>t. x * 2048 + t < n) [0..<256 * 8])))"
    unfolding tile_of_def by (rule mset_tile_items) simp
  also have "(256 * 8 :: nat) = 2048" by simp
  also have "mset (filter real_item (map ?in ?ts)) = mset (map ?it (map (\<lambda>t. x * 2048 + t) ?ts))" unfolding own real ..
  also have "\<dots> = image_mset ?it (mset (map (\<lambda>t. x * 2048 + t) ?ts))" by (simp only: mset_map)
  also have "mset (map (\<lambda>t. x * 2048 + t) ?ts) = mset (filter (\<lambda>i. i div 2048 = x) [0..<n])"
  proof (rule set_eq_iff_mset_eq_distinct [THEN iffD1])
    show "set (map (\<lambda>t. x * 2048 + t) ?ts) = set (filter (\<lambda>i. i div 2048 = x) [0..<n])"
    proof (intro set_eqI iffI)
      fix i assume "i \<in> set (filter (\<lambda>i. i div 2048 = x) [0..<n])"
      then have "i < n" "i = x * 2048 + i mod 2048" by auto
      then show "i \<in> set (map (\<lambda>t. x * 2048 + t) ?ts)" by (auto intro!: image_eqI [of _ _ "i mod 2048"])
    qed auto
  qed (simp_all add: distinct_map inj_on_def)
  also have "image_mset ?it (mset (filter (\<lambda>i. i div 2048 = x) [0..<n])) = mset (filter (\<lambda>p. snd p div 2048 = x) (items_of r))"
    by (simp add: items_of_def assms(4) filter_map comp_def)
  also have "\<dots> = mset (filter (\<lambda>p. snd p div 2048 = x) ?R)" by (simp add: descending_facts mset_filter)
  finally have m: "mset (filter real_item (tile_of input n row x)) = mset (filter (\<lambda>p. snd p div 2048 = x) ?R)" .
  have f: "mset (f (tile_of input n row x)) = mset (tile_of input n row x)" "sorted_wrt (\<lambda>p q. fst q \<le> fst p) (f (tile_of input n row x))"
    using assms(1) by (auto simp: sorts_descending_def)
  have m': "mset (filter real_item (f (tile_of input n row x))) = mset (filter (\<lambda>p. snd p div 2048 = x) ?R)" using m f(1) by simp
  have "filter real_item (f (tile_of input n row x)) = filter (\<lambda>p. snd p div 2048 = x) ?R"
  proof (rule same_descending [OF m' sorted_wrt_filter [OF f(2)] sorted_wrt_filter [OF descending_facts(2)]])
    show "inj_on fst (set (filter real_item (f (tile_of input n row x))))"
      unfolding mset_eq_setD [OF m'] using items_inj [OF assms(2)] by (intro inj_on_subset [OF _ filter_is_subset]) (simp add: descending_facts)
  qed
  then show ?thesis using filter_take_real [OF f(2)] by (simp add: heads_of_def)
qed

lemma concat_heads:
  assumes "sorts_descending f"
  shows "concat (map (heads_of f input n row) [0..<blocks]) = map (\<lambda>s. heads_of f input n row (s div 32) ! (s mod 32)) [0..<blocks * 32]"
proof (rule nth_equalityI)
  have u: "\<forall>h\<in>set (map (heads_of f input n row) [0..<blocks]). length h = 32" by (simp add: length_heads [OF assms])
  show l: "length (concat (map (heads_of f input n row) [0..<blocks])) = length (map (\<lambda>s. heads_of f input n row (s div 32) ! (s mod 32)) [0..<blocks * 32])"
    using length_concat_uniform [OF u] by simp
  fix i assume "i < length (concat (map (heads_of f input n row) [0..<blocks]))"
  then have "i < blocks * 32" using l by simp
  then show "concat (map (heads_of f input n row) [0..<blocks]) ! i = map (\<lambda>s. heads_of f input n row (s div 32) ! (s mod 32)) [0..<blocks * 32] ! i"
    using nth_concat_uniform [OF u] by (simp add: less_mult_imp_div_less)
qed

lemma finalists_top:
  assumes "sorts_descending f" and "row_of_numbers r" and "r = take n (drop (row * n) input)" and "length r = n"
    and "blocks = (n + 2048 - 1) div 2048" and "blocks * 32 \<le> 4096" and "k \<le> 32" and "k \<le> n"
  shows "map snd (take k (finalists f input n blocks row)) = topk_of r k"
proof -
  let ?R = "descending (items_of r)" and ?S = "finalists f input n blocks row"
  let ?it = "\<lambda>s. heads_of f input n row (s div 32) ! (s mod 32)"
  have S: "mset ?S = mset (tile_items 16 (\<lambda>s. s < blocks * 32 \<and> s < 4096) ?it)" "sorted_wrt (\<lambda>p q. fst q \<le> fst p) ?S"
    using assms(1) by (auto simp: sorts_descending_def finalists_def)
  have "filter (\<lambda>s. s < blocks * 32 \<and> s < 4096) [0..<256 * 16] = [0..<blocks * 32]"
  proof -
    have "[0..<256 * 16] = [0..<blocks * 32] @ [blocks * 32..<4096]" using assms(6) upt_add_eq_append [of 0 "blocks * 32" "4096 - blocks * 32"] by simp
    then show ?thesis using assms(6) by (auto simp: filter_empty_conv)
  qed
  then have m: "mset (filter real_item ?S) = mset (filter real_item (concat (map (heads_of f input n row) [0..<blocks])))"
    using mset_tile_items [of 16 "\<lambda>s. s < blocks * 32 \<and> s < 4096" ?it] S(1) by (simp only: concat_heads [OF assms(1)] mset_filter)
  have "take k ?S = take k ?R"
  proof (rule merge_heads [where t = "\<lambda>p. snd p div 2048" and w = 32 and P = "heads_of f input n row" and blocks = blocks])
    have "i div 2048 < blocks" if "i < n" for i
    proof -
      have "(i + 2048) div 2048 \<le> (n + 2048 - 1) div 2048" by (rule div_le_mono) (use that in simp)
      then show ?thesis unfolding assms(5) by simp
    qed
    then show "\<forall>p\<in>set ?R. snd p div 2048 < blocks" by (auto simp: descending_facts items_of_def assms(4))
    show "distinct ?R" using distinct_items mset_eq_imp_distinct_iff [OF descending_facts(1) [of "items_of r"]] by simp
    show "\<And>x. x < blocks \<Longrightarrow> filter real_item (heads_of f input n row x) = take 32 (filter (\<lambda>p. snd p div 2048 = x) ?R)"
      by (rule tile_heads [OF assms(1-4)])
    show "inj_on fst (set ?R)" using items_inj [OF assms(2)] by (simp add: descending_facts)
    have "length ?R = n" using assms(4) mset_eq_length [OF descending_facts(1) [of "items_of r"]] by (simp add: items_of_def)
    then show "k \<le> length ?R" using assms(8) by simp
    show "mset (filter real_item ?S) = mset (filter real_item (concat (map (heads_of f input n row) [0..<blocks])))" by (rule m)
    show "sorted_wrt (\<lambda>p q. fst q \<le> fst p) ?S" by (rule S(2))
    show "sorted_wrt (\<lambda>p q. fst q \<le> fst p) ?R" by (rule descending_facts)
    show "k \<le> 32" by (rule assms)
  qed
  then have "map snd (take k ?S) = take k (map snd ?R)" by (simp add: take_map)
  then show ?thesis unfolding descending_items [OF assms(2)] topk_of_def .
qed

lemma tile_items_cong: "(\<And>s. valid s \<Longrightarrow> item s = item' s) \<Longrightarrow> tile_items items valid item = tile_items items valid item'"
  by (simp add: tile_items_def Let_def)

lemma launch_finalists:
  fixes input :: "u32 list" and s :: topk_state and n :: nat
  assumes "sorts_descending f" and "set order = {..<blocks} \<times> {..<rows}" and "0 < blocks" and "set row_order = {..<rows}" and "0 < k"
    and "row < rows" and "j < k"
  defines "after \<equiv> launch (qwen_topk_block_finalize f 16 input n (blocks * 32) k) row_order (launch (qwen_topk_block_partials f 8 input n blocks) order s)"
  shows "device_indices after (row * k + j) = snd (finalists f input n blocks row ! j)"
    and "device_values after (row * k + j) = at_float input (row * n + snd (finalists f input n blocks row ! j))"
proof -
  let ?step = "qwen_topk_block_finalize f 16 input n (blocks * 32) k"
  let ?heads = "\<lambda>row s. heads_of f input n row (s div 32) ! (s mod 32)"
  let ?ok = "\<lambda>s. \<forall>row<rows. \<forall>j<blocks * 32. partial_keys s (row * (blocks * 32) + j) = fst (?heads row j) \<and>
    partial_indices s (row * (blocks * 32) + j) = snd (?heads row j)"
  have ok: "?ok (launch (qwen_topk_block_partials f 8 input n blocks) order s)"
  proof (intro allI impI)
    fix row j assume r: "row < rows" "j < blocks * 32"
    have eq: "row * (blocks * 32) + j = (row * blocks + j div 32) * 32 + j mod 32" by (simp add: algebra_simps)
    have j: "j mod 32 < 32" by simp
    show "partial_keys (launch (qwen_topk_block_partials f 8 input n blocks) order s) (row * (blocks * 32) + j) = fst (?heads row j) \<and>
        partial_indices (launch (qwen_topk_block_partials f 8 input n blocks) order s) (row * (blocks * 32) + j) = snd (?heads row j)"
      unfolding eq by (rule conjI; rule launch_heads [OF assms(2,3) less_mult_imp_div_less [OF r(2)] r(1) j assms(1)])
  qed
  have fin: "?ok (?step row s)"
      "device_indices (?step row s) = keep_first (row * k) k (\<lambda>j. snd (finalists f input n blocks row ! j)) (device_indices s)"
      "device_values (?step row s) = keep_first (row * k) k (\<lambda>j. at_float input (row * n + snd (finalists f input n blocks row ! j))) (device_values s)"
    if "row \<in> set row_order" "?ok s" for row s
  proof -
    have "tile_items 16 (\<lambda>s. s < blocks * 32 \<and> s < 256 * 16)
        (\<lambda>source. (partial_keys s (row * (blocks * 32) + source), partial_indices s (row * (blocks * 32) + source))) =
      tile_items 16 (\<lambda>s. s < blocks * 32 \<and> s < 256 * 16) (?heads row)"
      by (rule tile_items_cong) (use that assms(4) in simp)
    then show "?ok (?step row s)"
      "device_indices (?step row s) = keep_first (row * k) k (\<lambda>j. snd (finalists f input n blocks row ! j)) (device_indices s)"
      "device_values (?step row s) = keep_first (row * k) k (\<lambda>j. at_float input (row * n + snd (finalists f input n blocks row ! j))) (device_values s)"
      using that(2) by (simp_all add: qwen_topk_block_finalize_def Let_def finalists_def)
  qed
  have at: "(row * k + j) div k = row" "(row * k + j) mod k = j" using assms(7) by simp_all
  have mem: "row \<in> (\<lambda>t. t) ` set row_order" using assms(4,6) by simp
  let ?first = "launch (qwen_topk_block_partials f 8 input n blocks) order s"
  have "device_indices (launch ?step row_order ?first) (row * k + j) =
    (if (row * k + j) div k \<in> (\<lambda>t. t) ` set row_order then snd (finalists f input n blocks ((row * k + j) div k) ! ((row * k + j) mod k))
     else device_indices ?first (row * k + j))"
    by (rule launch_regions(2) [where ok = ?ok, OF _ ok assms(5)]) (rule conjI [OF fin(1,2)])
  then show "device_indices after (row * k + j) = snd (finalists f input n blocks row ! j)"
    unfolding after_def at using mem by (simp only: if_True)
  have "device_values (launch ?step row_order ?first) (row * k + j) =
    (if (row * k + j) div k \<in> (\<lambda>t. t) ` set row_order
     then at_float input ((row * k + j) div k * n + snd (finalists f input n blocks ((row * k + j) div k) ! ((row * k + j) mod k)))
     else device_values ?first (row * k + j))"
    by (rule launch_regions(2) [where ok = ?ok, OF _ ok assms(5)]) (rule conjI [OF fin(1,3)])
  then show "device_values after (row * k + j) = at_float input (row * n + snd (finalists f input n blocks row ! j))"
    unfolding after_def at using mem by (simp only: if_True)
qed

subsection \<open>The data path of the calls\<close>

lemma chain_device:
  assumes "chain (device_call needed (\<lambda>_. g) # fs) (c, s) = (True, m)"
  obtains c1 where "chain fs (c1, g s) = (True, m)"
proof -
  obtain m1 where m1: "device_call needed (\<lambda>_. g) (c, s) = (True, m1)" "chain fs m1 = (True, m)" using chain_run_cons [OF assms] by blast
  obtain c1 s1 where "m1 = (c1, s1)" by (cases m1)
  then show ?thesis using m1 device_call_run(1) [of needed "\<lambda>_. g" c s c1 s1] that by simp
qed

lemma radix_run:
  assumes "qwen_topk_radix_rows f order row_order input n rows k (c, s) = (CUDA_OK, Some (indices, vals), m)"
  defines "blocks \<equiv> (n + 2048 - 1) div 2048"
  defines "after \<equiv> launch (qwen_topk_block_finalize f 16 input n (blocks * 32) k) row_order (launch (qwen_topk_block_partials f 8 input n blocks) order s)"
  shows "blocks * 32 \<le> 4096" and "indices = map (device_indices after) [0..<rows * k]" and "vals = map (device_values after) [0..<rows * k]"
proof -
  let ?count = "rows * k"
  let ?bytes = "rows * (blocks * 32) * 8 + rows * (blocks * 32) * 4 + ?count * 4 + ?count * 4"
  show b: "blocks * 32 \<le> 4096" using assms(1) by (simp add: qwen_topk_radix_rows_def Let_def qwen_topk_max_def blocks_def split: if_splits)
  obtain ok1 c1 where 1: "ensure_aux_scratch ?bytes c = (ok1, c1)" by (cases "ensure_aux_scratch ?bytes c")
  obtain ok2 c2 where 2: "ensure_download_host (?count * 4 + ?count * 4) c1 = (ok2, c2)" by (cases "ensure_download_host (?count * 4 + ?count * 4) c1")
  let ?calls = "[device_call [(ScratchAux, ?bytes)] (\<lambda>_ s. launch (qwen_topk_block_finalize f 16 input n (blocks * 32) k) row_order
      (launch (qwen_topk_block_partials f 8 input n blocks) order s)),
    device_call [(DownloadHost, ?count * 4)] (\<lambda>_. copy_values 0 ?count), device_call [(DownloadHost, ?count * 8)] (\<lambda>_. copy_indices 0 ?count),
    device_call [] (\<lambda>_ s. s)]"
  obtain ok3 c3 s3 where 3: "chain ?calls (c2, s) = (ok3, c3, s3)" by (cases "chain ?calls (c2, s)")
  have ok: "ok1" "ok2" "ok3" and out: "indices = map (selected_indices s3) [0..<?count]" "vals = map (selected_values s3) [0..<?count]"
    using assms(1) b 1 2 3 unfolding qwen_topk_radix_rows_def qwen_topk_max_def blocks_def [symmetric] Let_def
    by (auto simp del: chain.simps split: if_splits)
  have "chain ?calls (c2, s) = (True, c3, s3)" using 3 ok(3) by (simp only:)
  then obtain c4 where "chain (tl ?calls) (c4, after) = (True, c3, s3)"
    unfolding after_def list.sel by (rule chain_device)
  then obtain c5 where "chain (tl (tl ?calls)) (c5, copy_values 0 ?count after) = (True, c3, s3)"
    unfolding list.sel by (rule chain_device)
  then obtain c6 where "chain (tl (tl (tl ?calls))) (c6, copy_indices 0 ?count (copy_values 0 ?count after)) = (True, c3, s3)"
    unfolding list.sel by (rule chain_device)
  then obtain c7 where "chain [] (c7, copy_indices 0 ?count (copy_values 0 ?count after)) = (True, c3, s3)"
    unfolding list.sel by (rule chain_device)
  then have "s3 = copy_indices 0 ?count (copy_values 0 ?count after)" by simp
  then show "indices = map (device_indices after) [0..<rows * k]" "vals = map (device_values after) [0..<rows * k]"
    unfolding out by (simp_all add: copy_indices_def copy_values_def keep_first_def)
qed

lemma radix_of_rows:
  assumes "topk_rows_device f order row_order required max_pairs (Some logits) n rows k True True (c, s) = (CUDA_OK, Some (indices, vals), m)"
    and "rows \<le> 3" and "n \<le> 262144"
  shows "qwen_topk_radix_rows f order row_order logits n (nat rows) (nat k) (c, s) = (CUDA_OK, Some (indices, vals), m)"
    and "0 < n" and "0 < rows" and "0 < nat k" and "nat k \<le> 32" and "nat k \<le> n"
proof -
  have blocks: "(n + 2048 - 1) div 2048 * qwen_topk_max \<le> 4096"
  proof -
    have "(n + 2048 - 1) div 2048 \<le> (262144 + 2047) div 2048" using assms(3) by (intro div_le_mono) simp
    then show ?thesis by (simp add: qwen_topk_max_def)
  qed
  show "0 < n" "0 < rows" "0 < nat k" "nat k \<le> 32" "nat k \<le> n"
    using assms(1) by (simp_all add: topk_rows_device_def qwen_topk_max_def split: if_splits)
  have "0 \<le> fst (qwen_topk_radix_rows f order row_order logits n (nat rows) (nat k) (c, s))"
    using blocks by (auto simp: qwen_topk_radix_rows_def Let_def CUDA_OK_def CUDA_RUNTIME_ERROR_def simp del: chain.simps split: prod.split)
  then show "qwen_topk_radix_rows f order row_order logits n (nat rows) (nat k) (c, s) = (CUDA_OK, Some (indices, vals), m)"
    using assms(1,2) by (cases "qwen_topk_radix_rows f order row_order logits n (nat rows) (nat k) (c, s)")
      (auto simp: topk_rows_device_def split: if_splits)
qed

subsection \<open>Properties\<close>

text \<open>
  C33: The radix path of the top-k, for at most three rows of at most 262144 logits each, none of them
  a NaN. When the call reports success, it has, row by row, the indices of the k largest logits in
  descending order (minus zero below zero, among equals the smaller index first) and their values, for
  every order of the blocks and whatever the scratch held. The bound on the row is where the radix path
  ends: a longer row is declined and goes to the fallback, whose host sort takes the two zeros as equal
  and so may order them differently; nothing is claimed about it here.
\<close>

theorem radix_topk_selects:
  assumes "topk_rows_device f order row_order required max_pairs (Some logits) n rows k True True (c, s) = (CUDA_OK, Some (indices, vals), m)"
    and "rows \<le> 3" and "n \<le> 262144" and "sorts_descending f"
    and "set order = {..<(n + 2048 - 1) div 2048} \<times> {..<nat rows}" and "set row_order = {..<nat rows}"
    and "length logits = nat rows * n" and "\<forall>v\<in>set logits. \<not> float_nan v"
  shows "indices = concat (map (\<lambda>r. topk_of (take n (drop (r * n) logits)) (nat k)) [0..<nat rows]) \<and>
    vals = concat (map (\<lambda>r. map (\<lambda>i. Some (logits ! (r * n + i))) (topk_of (take n (drop (r * n) logits)) (nat k))) [0..<nat rows])"
proof -
  let ?blocks = "(n + 2048 - 1) div 2048"
  let ?after = "launch (qwen_topk_block_finalize f 16 logits n (?blocks * 32) (nat k)) row_order (launch (qwen_topk_block_partials f 8 logits n ?blocks) order s)"
  note radix = radix_of_rows [OF assms(1-3)]
  note run = radix_run [OF radix(1)]
  have pos: "0 < ?blocks" using radix(2) by (simp add: div_greater_zero_iff)
  have small: "n \<le> INT_MAX" using assms(3) by (simp add: INT_MAX_def)
  have row: "map (\<lambda>j. device_indices ?after (r * nat k + j)) [0..<nat k] = topk_of (take n (drop (r * n) logits)) (nat k)"
      "map (\<lambda>j. device_values ?after (r * nat k + j)) [0..<nat k] = map (\<lambda>i. Some (logits ! (r * n + i))) (topk_of (take n (drop (r * n) logits)) (nat k))"
    if "r < nat rows" for r
  proof -
    let ?r = "take n (drop (r * n) logits)" and ?S = "finalists f logits n ?blocks r"
    have "Suc r * n \<le> nat rows * n" using that by (intro mult_le_mono1) simp
    then have room: "r * n + n \<le> length logits" using assms(7) by simp
    then have len: "length ?r = n" by simp
    have num: "row_of_numbers ?r"
      using assms(8) small len in_set_dropD in_set_takeD by (fastforce simp: row_of_numbers_def)
    have top: "map snd (take (nat k) ?S) = topk_of ?r (nat k)"
      by (rule finalists_top [OF assms(4) num refl len refl run(1) radix(5,6)])
    have "nat k \<le> length ?S" using radix(5) by (simp add: finalists_def length_sorted [OF assms(4)])
    then have snd: "map (\<lambda>j. snd (?S ! j)) [0..<nat k] = map snd (take (nat k) ?S)" by (intro nth_equalityI) simp_all
    note fin = launch_finalists [where input = logits and n = n and s = s, OF assms(4,5) pos assms(6) radix(4) that]
    show 1: "map (\<lambda>j. device_indices ?after (r * nat k + j)) [0..<nat k] = topk_of ?r (nat k)"
      unfolding top [symmetric] snd [symmetric] by (rule map_cong [OF refl]) (rule fin(1), simp)
    have le: "i < n" if "i \<in> set (topk_of ?r (nat k))" for i
      using in_set_takeD [OF that [unfolded topk_of_def]] len by simp
    have "map (\<lambda>j. device_values ?after (r * nat k + j)) [0..<nat k] = map (\<lambda>i. at_float logits (r * n + i)) (map (\<lambda>j. snd (?S ! j)) [0..<nat k])"
      unfolding map_map comp_def by (rule map_cong [OF refl]) (rule fin(2), simp)
    also have "\<dots> = map (\<lambda>i. Some (logits ! (r * n + i))) (topk_of ?r (nat k))"
      unfolding snd top by (rule map_cong [OF refl]) (use le room in \<open>fastforce simp: at_float_def\<close>)
    finally show "map (\<lambda>j. device_values ?after (r * nat k + j)) [0..<nat k] = map (\<lambda>i. Some (logits ! (r * n + i))) (topk_of ?r (nat k))" .
  qed
  show ?thesis unfolding run(2,3) rows_of_map using row by (auto intro!: arg_cong [of _ _ concat])
qed

lemmas topk_run = topk_rows_device_def qwen_topk_radix_rows_def qwen_topk_max_def device_call_def room_def ensure_aux_scratch_def ensure_download_host_def
  grow_stale_def grow_def discard_def create_in_def asked_def asked_release_def forget_def set_bytes_def empty_context_def INT_MAX_def

definition no_scratch :: topk_state where
  "no_scratch = \<lparr>temp_bytes = 0, temp_elements = 0, temp_k = 0, partial_keys = \<lambda>_. 0, partial_indices = \<lambda>_. 0, device_values = \<lambda>_. None,
     device_indices = \<lambda>_. 0, selected_values = \<lambda>_. None, selected_indices = \<lambda>_. 0\<rparr>"

theorem radix_topk_selects_witness:
  "fst (the (fst (snd (topk_rows_device descending [(0, 0), (0, 1)] [1, 0] (\<lambda>_ _. 0) (\<lambda>_ _. [])
     (Some [0x40000000, 0xC0400000, 0x7F800000, 0x80000000, 0, 0x80000000]) 3 2 2 True True (empty_context, no_scratch))))) = [2, 0, 1, 0]"
proof -
  let ?logits = "[0x40000000, 0xC0400000, 0x7F800000, 0x80000000, 0, 0x80000000] :: u32 list"
  let ?run = "topk_rows_device descending [(0, 0), (0, 1)] [1, 0] (\<lambda>_ _. 0) (\<lambda>_ _. []) (Some ?logits) 3 2 2 True True (empty_context, no_scratch)"
  have "fst ?run = CUDA_OK \<and> fst (snd ?run) \<noteq> None" by (simp add: topk_run CUDA_OK_def)
  then obtain indices vals m where run: "?run = (CUDA_OK, Some (indices, vals), m)" by (cases ?run) auto
  have "indices = concat (map (\<lambda>r. topk_of (take 3 (drop (r * 3) ?logits)) (nat 2)) [0..<nat 2])"
    by (rule radix_topk_selects [OF run, THEN conjunct1])
      (auto simp: descending_sorts float_nan_def less_Suc_eq lessThan_Suc)
  also have "\<dots> = [2, 0, 1, 0]" by code_simp
  finally show ?thesis using run by simp
qed

lemma sorted_zeros: "sorts_descending f \<Longrightarrow> \<forall>p\<in>set xs. fst p = 0 \<Longrightarrow> f xs = xs"
proof -
  assume f: "sorts_descending f" and z: "\<forall>p\<in>set xs. fst p = 0"
  have m: "mset (f xs) = mset xs" and "filter (\<lambda>p. fst p = 0) (f xs) = filter (\<lambda>p. fst p = 0) xs" using f by (auto simp: sorts_descending_def)
  moreover have "\<forall>p\<in>set (f xs). fst p = 0" using z mset_eq_setD [OF m] by simp
  ultimately show ?thesis using z by simp
qed

lemma finalists_of_NaN:
  assumes "sorts_descending f" and "n \<le> 16384" and "blocks = (n + 2048 - 1) div 2048" and "\<forall>i<n. float_nan (input ! (row * n + i))"
  shows "finalists f input n blocks row ! 1 = (0, INT_MAX)"
proof -
  have "blocks \<le> (16384 + 2047) div 2048" unfolding assms(3) using assms(2) by (intro div_le_mono) simp
  then have small: "\<not> 256 < blocks * 32" by simp
  have tile: "\<forall>p\<in>set (tile_of input n row x). fst p = 0" for x
    using assms(4) by (auto simp: tile_of_def tile_items_def Let_def qwen_topk_key_def)
  have heads: "fst p = 0" if "p \<in> set (heads_of f input n row x)" for p x
    using in_set_takeD [OF that [unfolded heads_of_def sorted_zeros [OF assms(1) tile]]] tile by blast
  let ?t = "tile_items 16 (\<lambda>s. s < blocks * 32 \<and> s < 4096) (\<lambda>s. heads_of f input n row (s div 32) ! (s mod 32))"
  have "\<forall>p\<in>set ?t. fst p = 0"
  proof -
    have "fst (heads_of f input n row (s div 32) ! (s mod 32)) = 0" for s
      by (rule heads [OF nth_mem]) (simp add: length_heads [OF assms(1)])
    then show ?thesis by (auto simp: tile_items_def Let_def)
  qed
  then have "finalists f input n blocks row = ?t" unfolding finalists_def by (rule sorted_zeros [OF assms(1)])
  then show ?thesis using small by (simp add: tile_items_def Let_def)
qed

text \<open>
  C35: When the rows hold nothing but NaN, the top-k of at most three rows of at most 16384 logits reports
  success with the index \<open>INT_MAX\<close> from the second place on, and has read the logits there, outside of
  the array.
\<close>

theorem radix_topk_reads_outside:
  assumes "topk_rows_device f order row_order required max_pairs (Some logits) n rows k True True (c, s) = (CUDA_OK, Some (indices, vals), m)"
    and "rows \<le> 3" and "n \<le> 16384" and "sorts_descending f"
    and "set order = {..<(n + 2048 - 1) div 2048} \<times> {..<nat rows}" and "set row_order = {..<nat rows}"
    and "length logits = nat rows * n" and "\<forall>v\<in>set logits. float_nan v" and "2 \<le> k" and "r < nat rows"
  shows "indices ! (r * nat k + 1) = INT_MAX \<and> vals ! (r * nat k + 1) = None"
proof -
  let ?blocks = "(n + 2048 - 1) div 2048"
  have n: "n \<le> 262144" using assms(3) by simp
  note radix = radix_of_rows [OF assms(1,2) n]
  note run = radix_run [OF radix(1)]
  have pos: "0 < ?blocks" using radix(2) by (simp add: div_greater_zero_iff)
  have one: "1 < nat k" using assms(9) by simp
  have "Suc r * nat k \<le> nat rows * nat k" using assms(10) by (intro mult_le_mono1) simp
  then have room: "r * nat k + 1 < nat rows * nat k" using one by simp
  have rn: "Suc r * n \<le> nat rows * n" using assms(10) by (intro mult_le_mono1) simp
  have "\<forall>i<n. float_nan (logits ! (r * n + i))" using assms(7,8) rn by auto
  then have fin: "finalists f logits n ?blocks r ! 1 = (0, INT_MAX)" by (rule finalists_of_NaN [OF assms(4,3) refl])
  note at = launch_finalists [where input = logits and n = n and s = s, OF assms(4,5) pos assms(6) radix(4) assms(10) one]
  have "length logits \<le> INT_MAX"
  proof -
    have "nat rows * n \<le> 3 * 16384" using assms(2,3) by (intro mult_le_mono) simp_all
    then show ?thesis using assms(7) by (simp add: INT_MAX_def)
  qed
  then have "at_float logits (r * n + INT_MAX) = None" by (simp add: at_float_def)
  note at = at [unfolded fin snd_conv this]
  show ?thesis unfolding run(2,3) using room at by simp
qed

theorem radix_topk_reads_outside_witness:
  "snd (the (fst (snd (topk_rows_device descending [(0, 0)] [0] (\<lambda>_ _. 0) (\<lambda>_ _. [])
     (Some [0x7FC00000, 0x7FC00000]) 2 1 2 True True (empty_context, no_scratch))))) ! 1 = None"
proof -
  let ?run = "topk_rows_device descending [(0, 0)] [0] (\<lambda>_ _. 0) (\<lambda>_ _. []) (Some [0x7FC00000, 0x7FC00000]) 2 1 2 True True (empty_context, no_scratch)"
  have "fst ?run = CUDA_OK \<and> fst (snd ?run) \<noteq> None" by (simp add: topk_run CUDA_OK_def)
  then obtain indices vals m where run: "?run = (CUDA_OK, Some (indices, vals), m)" by (cases ?run) auto
  have "indices ! (0 * nat 2 + 1) = INT_MAX \<and> vals ! (0 * nat 2 + 1) = None"
    by (rule radix_topk_reads_outside [OF run]) (auto simp: descending_sorts float_nan_def)
  then show ?thesis using run by simp
qed

end
