(* ===== verification/CudaHeap.thy ===== *)
theory CudaHeap
  imports CudaQuantize
begin

section \<open>Kernels on arrays that may overlap\<close>

text \<open>
  A kernel whose threads read and write the float arrays of device memory, by address and index. Each
  thread writes its own cells and reads none that another thread writes; what it reads may be what it
  writes, so an output may be an input. The order of the threads then does not matter.
\<close>

type_synonym 'f heap = "nat \<Rightarrow> nat \<Rightarrow> 'f"

definition put :: "nat \<Rightarrow> nat \<Rightarrow> 'f \<Rightarrow> 'f heap \<Rightarrow> 'f heap" where
  "put p i v h = h(p := (h p)(i := v))"

lemma put_at [simp]: "put p i v h q j = (if q = p \<and> j = i then v else h q j)"
  by (simp add: put_def)

text \<open>\<open>writes\<close> and \<open>reads\<close>: the cells of a thread.\<close>

definition confined :: "('t \<Rightarrow> (nat \<times> nat) set) \<Rightarrow> ('t \<Rightarrow> (nat \<times> nat) set) \<Rightarrow> ('t \<Rightarrow> 'f heap \<Rightarrow> 'f heap) \<Rightarrow> bool" where
  "confined writes reads body \<longleftrightarrow>
     (\<forall>t h q i. (q, i) \<notin> writes t \<longrightarrow> body t h q i = h q i) \<and>
     (\<forall>t h h' q i. (q, i) \<in> writes t \<longrightarrow> (\<forall>(p, j)\<in>reads t. h p j = h' p j) \<longrightarrow> body t h q i = body t h' q i)"

lemma launch_other:
  assumes "confined writes reads body" and "\<forall>t\<in>set ts. (q, i) \<notin> writes t"
  shows "launch body ts h q i = h q i"
  using assms unfolding launch_def by (induction ts arbitrary: h) (simp_all add: confined_def)

lemma launch_own:
  assumes "confined writes reads body" and "distinct ts"
    and "\<And>s t. s \<in> set ts \<Longrightarrow> t \<in> set ts \<Longrightarrow> s \<noteq> t \<Longrightarrow> writes s \<inter> (writes t \<union> reads t) = {}"
    and "t \<in> set ts" and "(q, i) \<in> writes t"
  shows "launch body ts h q i = body t h q i"
  using assms(2-)
proof (induction ts arbitrary: h)
  case (Cons s ts)
  show ?case
  proof (cases "t = s")
    case True
    have "\<forall>r\<in>set ts. (q, i) \<notin> writes r"
    proof
      fix r assume "r \<in> set ts"
      then have "writes s \<inter> (writes r \<union> reads r) = {}" using Cons.prems(1,2) by (intro Cons.prems(2)) auto
      then show "(q, i) \<notin> writes r" using Cons.prems(4) True by auto
    qed
    then have "launch body ts (body s h) q i = body s h q i" by (rule launch_other [OF assms(1)])
    then show ?thesis using True by (simp add: launch_def)
  next
    case False
    then have t: "t \<in> set ts" using Cons.prems(3) by simp
    have "launch body ts (body s h) q i = body t (body s h) q i"
      by (rule Cons.IH) (use Cons.prems t in auto)
    also have "\<dots> = body t h q i"
    proof -
      have d: "writes s \<inter> (writes t \<union> reads t) = {}" using Cons.prems(2) [of s t] t False by auto
      have "\<forall>(p, j)\<in>reads t. body s h p j = h p j" using d assms(1) unfolding confined_def by blast
      then show ?thesis using assms(1) Cons.prems(4) unfolding confined_def by blast
    qed
    finally show ?thesis by (simp add: launch_def)
  qed
qed simp

text \<open>Threads on a matrix: \<open>columns\<close> blocks of \<open>wide\<close> threads to a row, the blocks numbered row by row.\<close>

definition column_of :: "nat \<Rightarrow> nat \<Rightarrow> nat \<times> nat \<Rightarrow> nat" where
  "column_of columns wide t = (fst t mod columns) * wide + snd t"

definition row_of :: "nat \<Rightarrow> nat \<times> nat \<Rightarrow> nat" where
  "row_of columns t = fst t div columns"

lemma column_of_digits:
  assumes "snd t < wide"
  shows "column_of columns wide t div wide = fst t mod columns" and "column_of columns wide t mod wide = snd t"
  using assms by (simp_all add: column_of_def)

lemma matrix_thread:
  assumes "in_order (rows * columns) wide ts" and "r < rows" and "i < columns * wide"
  shows "\<exists>t\<in>set ts. row_of columns t = r \<and> column_of columns wide t = i"
proof -
  have d: "0 < wide" using assms(3) by (cases wide) simp_all
  have c: "i div wide < columns" using assms(3) by (simp add: less_mult_imp_div_less)
  have "Suc r * columns \<le> rows * columns" using assms(2) by (intro mult_le_mono1) simp
  then have "r * columns + i div wide < rows * columns" using c by simp
  then have "(r * columns + i div wide, i mod wide) \<in> set ts" using in_order_set [OF assms(1)] d by simp
  moreover have "row_of columns (r * columns + i div wide, i mod wide) = r"
    using c by (simp add: row_of_def)
  moreover have "column_of columns wide (r * columns + i div wide, i mod wide) = i"
    using c by (simp add: column_of_def)
  ultimately show ?thesis by blast
qed

lemma matrix_thread_unique:
  assumes "in_order (rows * columns) wide ts" and "s \<in> set ts" and "t \<in> set ts"
    and "row_of columns s = row_of columns t" and "column_of columns wide s = column_of columns wide t"
  shows "s = t"
proof -
  have lanes: "snd s < wide" "snd t < wide" using assms(2,3) unfolding in_order_set [OF assms(1)] by (simp_all add: mem_Times_iff)
  then have "fst s mod columns = fst t mod columns" and lane: "snd s = snd t"
    using assms(5) column_of_digits [of s wide columns] column_of_digits [of t wide columns] by metis+
  then have "fst s = fst t" using assms(4) unfolding row_of_def by (metis div_mult_mod_eq)
  then show ?thesis using lane by (simp add: prod_eq_iff)
qed

text \<open>One element of an output each, as a function of the cells of one index.\<close>

lemma launch_pointwise:
  assumes "in_order blocks wide ts" and "n \<le> blocks * wide"
    and "\<And>i h h'. (\<And>q. h q i = h' q i) \<Longrightarrow> f i h = f i h'"
  shows "launch (\<lambda>t h. if global_index wide t < n then put out (global_index wide t) (f (global_index wide t) h) h else h) ts h q i =
    (if q = out \<and> i < n then f i h else h q i)"
proof -
  let ?body = "\<lambda>t h. if global_index wide t < n then put out (global_index wide t) (f (global_index wide t) h) h else h"
  let ?writes = "\<lambda>t. if global_index wide t < n then {(out, global_index wide t)} else {}"
  let ?reads = "\<lambda>t. if global_index wide t < n then {(q, j). j = global_index wide t} else {}"
  have c: "confined ?writes ?reads ?body"
    unfolding confined_def by (auto intro!: assms(3) split: if_splits)
  have d: "?writes s \<inter> (?writes t \<union> ?reads t) = {}" if "s \<in> set ts" "t \<in> set ts" "s \<noteq> t" for s t
    using that inj_onD [OF inj_global_index [of wide "{..<blocks}"], of s t] in_order_set [OF assms(1)] by auto
  show ?thesis
  proof (cases "q = out \<and> i < n")
    case True
    then obtain t where t: "t \<in> set ts" "global_index wide t = i"
      using global_index_range [OF assms(1)] assms(2) by (metis image_iff lessThan_iff order_less_le_trans)
    have "launch ?body ts h q i = ?body t h q i"
      by (rule launch_own [OF c in_order_distinct [OF assms(1)] d t(1)]) (use True t in auto)
    then show ?thesis using True t by simp
  next
    case False
    then have "launch ?body ts h q i = h q i" by (intro launch_other [OF c]) auto
    then show ?thesis using False by auto
  qed
qed

text \<open>A step for each index, with several cells to write.\<close>

definition stepwise :: "nat \<Rightarrow> (nat \<Rightarrow> (nat \<times> nat) set) \<Rightarrow> (nat \<Rightarrow> (nat \<times> nat) set) \<Rightarrow> (nat \<Rightarrow> 'f heap \<Rightarrow> 'f heap) \<Rightarrow> bool" where
  "stepwise n writes reads step \<longleftrightarrow>
     (\<forall>i<n. (\<forall>h q j. (q, j) \<notin> writes i \<longrightarrow> step i h q j = h q j) \<and>
       (\<forall>h h' q j. (q, j) \<in> writes i \<longrightarrow> (\<forall>(p, k)\<in>reads i. h p k = h' p k) \<longrightarrow> step i h q j = step i h' q j) \<and>
       (\<forall>k<n. i \<noteq> k \<longrightarrow> writes i \<inter> (writes k \<union> reads k) = {}))"

lemma launch_indexed:
  fixes step :: "nat \<Rightarrow> 'f heap \<Rightarrow> 'f heap"
  assumes "in_order blocks wide ts" and "n \<le> blocks * wide" and s: "stepwise n writes reads step"
    and body: "\<And>t h. body t h = (if global_index wide t < n then step (global_index wide t) h else h)"
  shows "i < n \<Longrightarrow> (q, j) \<in> writes i \<Longrightarrow> launch body ts h q j = step i h q j"
    and "(\<And>i. i < n \<Longrightarrow> (q, j) \<notin> writes i) \<Longrightarrow> launch body ts h q j = h q j"
proof -
  let ?w = "\<lambda>t. if global_index wide t < n then writes (global_index wide t) else {}"
  let ?r = "\<lambda>t. if global_index wide t < n then reads (global_index wide t) else {}"
  have c: "confined ?w ?r body"
    unfolding confined_def
  proof (intro conjI allI impI)
    fix t h q j assume "(q, j) \<notin> ?w t"
    then show "body t h q j = h q j" using s by (simp add: body stepwise_def split: if_splits)
  next
    fix t and h h' :: "'f heap" and q j assume w: "(q, j) \<in> ?w t" and r: "\<forall>(p, k)\<in>?r t. h p k = h' p k"
    then have i: "global_index wide t < n" by (simp split: if_splits)
    then have "step (global_index wide t) h q j = step (global_index wide t) h' q j" using w r s by (simp add: stepwise_def)
    then show "body t h q j = body t h' q j" using i by (simp add: body)
  qed
  have d: "?w s \<inter> (?w t \<union> ?r t) = {}" if "s \<in> set ts" "t \<in> set ts" "s \<noteq> t" for s t
  proof (cases "global_index wide s < n \<and> global_index wide t < n")
    case True
    have "global_index wide s \<noteq> global_index wide t"
      using that inj_onD [OF inj_global_index [of wide "{..<blocks}"], of s t] unfolding in_order_set [OF assms(1)] by blast
    then show ?thesis using s True by (simp add: stepwise_def)
  qed auto
  show "launch body ts h q j = step i h q j" if "i < n" "(q, j) \<in> writes i"
  proof -
    have "i \<in> global_index wide ` set ts" unfolding global_index_range [OF assms(1)] using that(1) assms(2) by simp
    then obtain t where t: "t \<in> set ts" "global_index wide t = i" by blast
    have "launch body ts h q j = body t h q j"
      by (rule launch_own [OF c in_order_distinct [OF assms(1)] d t(1)]) (simp_all add: that t)
    then show ?thesis using that t by (simp add: body)
  qed
  show "launch body ts h q j = h q j" if "\<And>i. i < n \<Longrightarrow> (q, j) \<notin> writes i"
    by (rule launch_other [OF c]) (simp add: that)
qed

text \<open>One element of a matrix each, not read from the arrays.\<close>

lemma launch_matrix:
  assumes "in_order (rows * columns) wide ts" and "width \<le> columns * wide"
  shows "launch (\<lambda>t h. if row_of columns t \<ge> rows \<or> column_of columns wide t \<ge> width then h
      else put out (row_of columns t * width + column_of columns wide t) (v (row_of columns t) (column_of columns wide t)) h) ts h q i =
    (if q = out \<and> i < rows * width then v (i div width) (i mod width) else h q i)"
proof -
  let ?in = "\<lambda>t. row_of columns t < rows \<and> column_of columns wide t < width"
  let ?place = "\<lambda>t. row_of columns t * width + column_of columns wide t"
  let ?body = "\<lambda>t h. if row_of columns t \<ge> rows \<or> column_of columns wide t \<ge> width then h
      else put out (?place t) (v (row_of columns t) (column_of columns wide t)) h"
  let ?writes = "\<lambda>t. if ?in t then {(out, ?place t)} else {}"
  have c: "confined ?writes (\<lambda>_. {}) ?body" by (auto simp: confined_def)
  have digits: "?place t div width = row_of columns t" "?place t mod width = column_of columns wide t" if "?in t" for t
    using that by simp_all
  have d: "?writes s \<inter> (?writes t \<union> {}) = {}" if "s \<in> set ts" "t \<in> set ts" "s \<noteq> t" for s t
  proof (cases "?in s \<and> ?in t")
    case True
    have "?place s \<noteq> ?place t"
      using matrix_thread_unique [OF assms(1) that(1,2)] that(3) digits [of s] digits [of t] True by metis
    then show ?thesis by auto
  qed auto
  show ?thesis
  proof (cases "q = out \<and> i < rows * width")
    case True
    then have "0 < width" by (cases width) simp_all
    then have r: "i div width < rows" "i mod width < width" using True by (simp_all add: less_mult_imp_div_less)
    then obtain t where t: "t \<in> set ts" "row_of columns t = i div width" "column_of columns wide t = i mod width"
      using matrix_thread [OF assms(1) r(1), of "i mod width"] assms(2) by (metis order_less_le_trans)
    then have "(q, i) \<in> ?writes t" using r True by simp
    from launch_own [OF c in_order_distinct [OF assms(1)] d t(1) this]
    have "launch ?body ts h q i = ?body t h q i" .
    then show ?thesis using True t r by simp
  next
    case False
    have "(q, i) \<notin> ?writes t" for t
    proof
      assume "(q, i) \<in> ?writes t"
      then have "?in t" "q = out" "i = ?place t" by (auto split: if_splits)
      moreover from this have "Suc (row_of columns t) * width \<le> rows * width" by (intro mult_le_mono1) simp
      ultimately show False using False by simp
    qed
    then have "launch ?body ts h q i = h q i" by (intro launch_other [OF c]) blast
    then show ?thesis using False by auto
  qed
qed

text \<open>Calls that only start kernels.\<close>

definition kernel_call :: "string \<Rightarrow> ('m \<Rightarrow> 'm) \<Rightarrow> cuda_context \<times> 'm \<Rightarrow> int \<times> cuda_context \<times> 'm" where
  "kernel_call operation f = (\<lambda>(c, mem). let (ok, c) = asked c
     in if ok then (CUDA_OK, c, f mem) else (CUDA_RUNTIME_ERROR, c\<lparr>message := operation\<rparr>, mem))"

lemma kernel_call_run: "kernel_call operation f (c, mem) = (CUDA_OK, c', mem') \<Longrightarrow> mem' = f mem"
  by (auto simp: kernel_call_def split_beta Let_def split: if_splits)

definition on_floats :: "('f heap \<Rightarrow> 'f heap) \<Rightarrow> 'f device_memory \<Rightarrow> 'f device_memory" where
  "on_floats f mem = mem\<lparr>floats_at := f (floats_at mem)\<rparr>"

lemma on_floats_simps [simp]: "floats_at (on_floats f mem) = f (floats_at mem)" "bytes_at (on_floats f mem) = bytes_at mem"
  by (simp_all add: on_floats_def)

end
