(* ===== verification/CudaElementwise.thy ===== *)
theory CudaElementwise
  imports CudaHeap
begin

section \<open>Elementwise kernels\<close>

text \<open>
  Models the kernels of \<open>src/backend/cuda/fortai_cuda_backend.cu\<close> that compute each element of an array on
  its own (embedding, sums, columns, SiLU, concatenation, shift), the RMS norms, and the functions that
  start them. Arrays are given by their addresses and may overlap where the code lets them. The product
  of \<open>hidden\<close> and \<open>batch\<close> is taken to fit the \<open>int\<close> in which the kernels compute it.
\<close>

subsection \<open>Kernels\<close>

definition embedding_value :: "(u16 \<Rightarrow> 'f::comm_ring_1) \<Rightarrow> i8 list \<Rightarrow> nat \<Rightarrow> nat \<Rightarrow> nat \<Rightarrow> 'f" where
  "embedding_value half weights token_id blocks index =
     (let block = index div 32; offset = index mod 32; weight_block = token_id * blocks * 34 + block * 34
      in block_scale half weights weight_block * of_int (sint (weights ! (weight_block + 2 + offset))))"

definition qwen_embedding_lookup_q8 ::
    "(u16 \<Rightarrow> 'f::comm_ring_1) \<Rightarrow> i8 list \<Rightarrow> nat \<Rightarrow> nat \<Rightarrow> nat \<Rightarrow> nat \<times> nat \<Rightarrow> 'f heap \<Rightarrow> 'f heap" where
  "qwen_embedding_lookup_q8 half weights token_id blocks out t h =
     (let index = global_index 256 t; elements = blocks * 32
      in if index \<ge> elements then h else put out index (embedding_value half weights token_id blocks index) h)"

definition qwen_embedding_lookup_q8_batch ::
    "(u16 \<Rightarrow> 'f::comm_ring_1) \<Rightarrow> i8 list \<Rightarrow> int list \<Rightarrow> nat \<Rightarrow> nat \<Rightarrow> nat \<Rightarrow> nat \<times> nat \<Rightarrow> 'f heap \<Rightarrow> 'f heap" where
  "qwen_embedding_lookup_q8_batch half weights tokens blocks batch out t h =
     (let elements = blocks * 32; columns = (elements + 255) div 256; token = row_of columns t; index = column_of columns 256 t
      in if token \<ge> batch \<or> index \<ge> elements then h
         else put out (token * elements + index) (embedding_value half weights (nat (tokens ! token)) blocks index) h)"

definition qwen_add_float :: "nat \<Rightarrow> nat \<Rightarrow> nat \<Rightarrow> nat \<Rightarrow> nat \<times> nat \<Rightarrow> 'f::plus heap \<Rightarrow> 'f heap" where
  "qwen_add_float left right out elements t h =
     (let index = global_index 256 t in if index < elements then put out index (h left index + h right index) h else h)"

definition qwen_add_matrix :: "nat \<Rightarrow> nat \<Rightarrow> nat \<Rightarrow> nat \<Rightarrow> nat \<times> nat \<Rightarrow> 'f::plus heap \<Rightarrow> 'f heap" where
  "qwen_add_matrix left right out elements t h =
     (let index = global_index 256 t in if index < elements then put out index (h left index + h right index) h else h)"

definition qwen_copy_column :: "nat \<Rightarrow> nat \<Rightarrow> nat \<Rightarrow> nat \<Rightarrow> nat \<Rightarrow> nat \<times> nat \<Rightarrow> 'f heap \<Rightarrow> 'f heap" where
  "qwen_copy_column input stride column out elements t h =
     (let index = global_index 256 t in if index < elements then put out index (h input (column * stride + index)) h else h)"

definition qwen_silu :: "('f::field \<Rightarrow> 'f) \<Rightarrow> 'f \<Rightarrow> 'f" where
  "qwen_silu expf value = value / (1 + expf (- value))"

definition qwen_silu_product :: "('f::field \<Rightarrow> 'f) \<Rightarrow> nat \<Rightarrow> nat \<Rightarrow> nat \<Rightarrow> nat \<times> nat \<Rightarrow> 'f heap \<Rightarrow> 'f heap" where
  "qwen_silu_product expf gate up elements t h =
     (let index = global_index 256 t in if index \<ge> elements then h else put gate index (qwen_silu expf (h gate index) * h up index) h)"

definition qwen_silu_product_matrix :: "('f::field \<Rightarrow> 'f) \<Rightarrow> nat \<Rightarrow> nat \<Rightarrow> nat \<Rightarrow> nat \<times> nat \<Rightarrow> 'f heap \<Rightarrow> 'f heap" where
  "qwen_silu_product_matrix expf gate up elements t h =
     (let index = global_index 256 t in if index < elements then put gate index (qwen_silu expf (h gate index) * h up index) h else h)"

definition qwen_concat_float :: "nat \<Rightarrow> nat \<Rightarrow> nat \<Rightarrow> nat \<Rightarrow> nat \<times> nat \<Rightarrow> 'f heap \<Rightarrow> 'f heap" where
  "qwen_concat_float first second out elements t h =
     (let index = global_index 256 t
      in if index \<ge> elements then h
         else let h = put out index (h first index) h in put out (elements + index) (h second index) h)"

definition qwen_concat_float_matrix :: "nat \<Rightarrow> nat \<Rightarrow> nat \<Rightarrow> nat \<Rightarrow> nat \<Rightarrow> nat \<times> nat \<Rightarrow> 'f heap \<Rightarrow> 'f heap" where
  "qwen_concat_float_matrix first second out hidden batch t h =
     (let index = global_index 256 t
      in if index \<ge> hidden * batch then h
         else let row = index div hidden; column = index - row * hidden; output_base = row * 2 * hidden;
                  h = put out (output_base + column) (h first index) h
              in put out (output_base + hidden + column) (h second index) h)"

definition qwen_shift_target_hidden :: "nat \<Rightarrow> nat \<Rightarrow> nat \<Rightarrow> nat \<Rightarrow> nat \<Rightarrow> nat \<times> nat \<Rightarrow> 'f heap \<Rightarrow> 'f heap" where
  "qwen_shift_target_hidden input pending out hidden batch t h =
     (let index = global_index 256 t
      in if index \<ge> hidden * batch then h
         else let row = index mod hidden; column = index div hidden
              in if column = 0
                 then let previous = h pending row; h = put pending row (h input ((batch - 1) * hidden + row)) h
                      in put out row previous h
                 else put out index (h input (index - hidden)) h)"

subsection \<open>RMS norms\<close>

text \<open>
  A block of 1024 threads to a row: each thread squares every 1024th element, the warps add up their
  lanes, the first thread adds up the warps. After the barrier each thread scales its elements; \<open>tids\<close>
  is the order in which it happens. The wider accumulator of the first and the third kernel has no
  counterpart here.
\<close>

definition sum_squares :: "'f::comm_ring_1 heap \<Rightarrow> nat \<Rightarrow> nat \<Rightarrow> nat \<Rightarrow> nat \<Rightarrow> 'f" where
  "sum_squares h input base elements tid =
     fold (\<lambda>index sum. sum + h input (base + index) * h input (base + index)) (strided tid 1024 elements) 0"

definition block_total :: "(nat \<Rightarrow> 'f::comm_ring_1) \<Rightarrow> 'f" where
  "block_total accumulator =
     (let partial = (\<lambda>warp. warp_down (+) 32 16 (\<lambda>lane. accumulator (32 * warp + lane)) 0); warps = (1024 + 31) div 32
      in fold (\<lambda>index sum. sum + partial index) [0..<warps] 0)"

definition scale_row :: "'f::comm_ring_1 \<Rightarrow> nat \<Rightarrow> nat \<Rightarrow> nat \<Rightarrow> nat \<Rightarrow> nat \<Rightarrow> nat \<Rightarrow> 'f heap \<Rightarrow> 'f heap" where
  "scale_row factor input weights out base elements tid h =
     fold (\<lambda>index h. put out (base + index) (h input (base + index) * factor * h weights index) h)
       (strided tid 1024 elements) h"

definition qwen_rms_norm_float ::
    "('f::field \<Rightarrow> 'f) \<Rightarrow> nat \<Rightarrow> nat \<Rightarrow> nat \<Rightarrow> nat \<Rightarrow> 'f \<Rightarrow> nat list \<Rightarrow> 'f heap \<Rightarrow> 'f heap" where
  "qwen_rms_norm_float sqrtf input weights out elements epsilon tids h =
     (let mean = block_total (sum_squares h input 0 elements) / of_nat elements
      in launch (scale_row (1 / sqrtf (mean + epsilon)) input weights out 0 elements) tids h)"

definition qwen_rms_norm_float_fast ::
    "('f::field \<Rightarrow> 'f) \<Rightarrow> nat \<Rightarrow> nat \<Rightarrow> nat \<Rightarrow> nat \<Rightarrow> 'f \<Rightarrow> nat list \<Rightarrow> 'f heap \<Rightarrow> 'f heap" where
  "qwen_rms_norm_float_fast rsqrtf input weights out elements epsilon tids h =
     launch (scale_row (rsqrtf (block_total (sum_squares h input 0 elements) / of_nat elements + epsilon)) input weights out 0 elements) tids h"

definition qwen_rms_norm_matrix ::
    "('f::field \<Rightarrow> 'f) \<Rightarrow> nat \<Rightarrow> nat \<Rightarrow> nat \<Rightarrow> nat \<Rightarrow> nat \<Rightarrow> 'f \<Rightarrow> nat list \<Rightarrow> nat \<Rightarrow> 'f heap \<Rightarrow> 'f heap" where
  "qwen_rms_norm_matrix sqrtf input weights out hidden batch epsilon tids token h =
     (if token \<ge> batch then h
      else let base = token * hidden; mean = block_total (sum_squares h input base hidden) / of_nat hidden
           in launch (scale_row (1 / sqrtf (mean + epsilon)) input weights out base hidden) tids h)"

subsection \<open>Calls\<close>

definition embedding_device ::
    "(u16 \<Rightarrow> 'f::comm_ring_1) \<Rightarrow> q8_weights \<Rightarrow> int \<Rightarrow> nat option \<Rightarrow> nat \<Rightarrow> (nat \<times> nat) list \<Rightarrow>
     cuda_context \<times> 'f device_memory \<Rightarrow> int \<times> cuda_context \<times> 'f device_memory" where
  "embedding_device half w token_id out output_elements ts s =
     (if \<not> weights_context w \<or> out = None \<or> token_id < 0 \<or> token_id \<ge> int (weights_rows w) \<or>
        output_elements < weights_blocks w * 32 then (CUDA_INVALID, s)
      else kernel_call ''device Q8 embedding'' (\<lambda>mem. on_floats (launch
        (qwen_embedding_lookup_q8 half (stored (bytes_at mem (the (device_data w))) (weights_rows w * weights_blocks w * 34))
          (nat token_id) (weights_blocks w) (the out)) ts) mem) s)"

definition embedding_device_batch ::
    "(u16 \<Rightarrow> 'f::comm_ring_1) \<Rightarrow> q8_weights \<Rightarrow> int list option \<Rightarrow> int \<Rightarrow> nat option \<Rightarrow> nat \<Rightarrow> (nat \<times> nat) list \<Rightarrow>
     cuda_context \<times> 'f device_memory option \<Rightarrow> int \<times> cuda_context \<times> 'f device_memory option" where
  "embedding_device_batch half w tokens batch out output_elements ts = (\<lambda>(c, mem).
     if \<not> weights_context w \<or> tokens = None \<or> batch \<le> 0 \<or> out = None \<or>
       output_elements < weights_blocks w * 32 * nat batch then (CUDA_INVALID, c, mem)
     else let (ok, c) = ensure_token_scratch (nat batch * 4) c;
              (ok, c, mem) = (if \<not> ok then (False, c, mem) else
                chain [device_call [(ScratchTokens, nat batch * 4)] (\<lambda>_ mem. mem),
                       launch_call [(ScratchTokens, nat batch * 4)] (\<lambda>_ mem. on_floats (launch (qwen_embedding_lookup_q8_batch half
                         (stored (bytes_at mem (the (device_data w))) (weights_rows w * weights_blocks w * 34))
                         (the tokens) (weights_blocks w) (nat batch) (the out)) ts) mem)] (c, mem))
          in if ok then (CUDA_OK, c, mem) else (CUDA_RUNTIME_ERROR, c\<lparr>message := ''device batched Q8 embedding''\<rparr>, mem))"

definition elements_invalid :: "nat \<Rightarrow> bool" where
  "elements_invalid elements \<longleftrightarrow> elements = 0 \<or> elements > 2147483647"

definition add_device ::
    "nat option \<Rightarrow> nat option \<Rightarrow> nat option \<Rightarrow> nat \<Rightarrow> (nat \<times> nat) list \<Rightarrow>
     cuda_context \<times> 'f::plus device_memory \<Rightarrow> int \<times> cuda_context \<times> 'f device_memory" where
  "add_device left right out elements ts s =
     (if left = None \<or> right = None \<or> out = None \<or> elements_invalid elements then (CUDA_INVALID, s)
      else kernel_call ''device add'' (on_floats (launch (qwen_add_float (the left) (the right) (the out) elements) ts)) s)"

definition add_matrix_device ::
    "nat option \<Rightarrow> nat option \<Rightarrow> nat option \<Rightarrow> nat \<Rightarrow> (nat \<times> nat) list \<Rightarrow>
     cuda_context \<times> 'f::plus device_memory \<Rightarrow> int \<times> cuda_context \<times> 'f device_memory" where
  "add_matrix_device left right out elements ts s =
     (if left = None \<or> right = None \<or> out = None \<or> elements_invalid elements then (CUDA_INVALID, s)
      else kernel_call ''device matrix add'' (on_floats (launch (qwen_add_matrix (the left) (the right) (the out) elements) ts)) s)"

definition copy_column_device ::
    "nat option \<Rightarrow> nat \<Rightarrow> int \<Rightarrow> nat option \<Rightarrow> nat \<Rightarrow> (nat \<times> nat) list \<Rightarrow>
     cuda_context \<times> 'f device_memory \<Rightarrow> int \<times> cuda_context \<times> 'f device_memory" where
  "copy_column_device input stride column out elements ts s =
     (if input = None \<or> out = None \<or> stride = 0 \<or> column < 0 \<or> elements = 0 \<or> elements > stride \<or> stride > 2147483647 then (CUDA_INVALID, s)
      else kernel_call ''device column copy'' (on_floats (launch (qwen_copy_column (the input) stride (nat column) (the out) elements) ts)) s)"

definition silu_product_device ::
    "('f::field \<Rightarrow> 'f) \<Rightarrow> nat option \<Rightarrow> nat option \<Rightarrow> nat \<Rightarrow> (nat \<times> nat) list \<Rightarrow>
     cuda_context \<times> 'f device_memory \<Rightarrow> int \<times> cuda_context \<times> 'f device_memory" where
  "silu_product_device expf gate up elements ts s =
     (if gate = None \<or> up = None \<or> elements_invalid elements then (CUDA_INVALID, s)
      else kernel_call ''device SiLU product'' (on_floats (launch (qwen_silu_product expf (the gate) (the up) elements) ts)) s)"

definition silu_product_matrix_device ::
    "('f::field \<Rightarrow> 'f) \<Rightarrow> nat option \<Rightarrow> nat option \<Rightarrow> nat \<Rightarrow> (nat \<times> nat) list \<Rightarrow>
     cuda_context \<times> 'f device_memory \<Rightarrow> int \<times> cuda_context \<times> 'f device_memory" where
  "silu_product_matrix_device expf gate up elements ts s =
     (if gate = None \<or> up = None \<or> elements_invalid elements then (CUDA_INVALID, s)
      else kernel_call ''device matrix SiLU product'' (on_floats (launch (qwen_silu_product_matrix expf (the gate) (the up) elements) ts)) s)"

text \<open>\<open>fast_env\<close>: the variable \<open>FORTAI_CUDA_RMS_NORM_FP32\<close>.\<close>

definition fast_requested :: "string option \<Rightarrow> bool" where
  "fast_requested fast_env = (case fast_env of None \<Rightarrow> False | Some v \<Rightarrow> v \<noteq> [] \<and> hd v \<in> {CHR ''1'', CHR ''y'', CHR ''Y'', CHR ''t'', CHR ''T''})"

definition rms_norm_device ::
    "('f::linordered_field \<Rightarrow> 'f) \<Rightarrow> ('f \<Rightarrow> 'f) \<Rightarrow> string option \<Rightarrow> nat option \<Rightarrow> nat option \<Rightarrow> nat option \<Rightarrow> nat \<Rightarrow> 'f \<Rightarrow> nat list \<Rightarrow>
     cuda_context \<times> 'f device_memory \<Rightarrow> int \<times> cuda_context \<times> 'f device_memory" where
  "rms_norm_device sqrtf rsqrtf fast_env input weights out elements epsilon tids s =
     (if input = None \<or> weights = None \<or> out = None \<or> elements_invalid elements \<or> epsilon \<le> 0 then (CUDA_INVALID, s)
      else kernel_call ''device RMS norm'' (on_floats
        (if fast_requested fast_env then qwen_rms_norm_float_fast rsqrtf (the input) (the weights) (the out) elements epsilon tids
         else qwen_rms_norm_float sqrtf (the input) (the weights) (the out) elements epsilon tids)) s)"

definition rms_norm_matrix_device ::
    "('f::linordered_field \<Rightarrow> 'f) \<Rightarrow> nat option \<Rightarrow> nat option \<Rightarrow> nat option \<Rightarrow> nat \<Rightarrow> int \<Rightarrow> 'f \<Rightarrow> nat list \<Rightarrow> nat list \<Rightarrow>
     cuda_context \<times> 'f device_memory \<Rightarrow> int \<times> cuda_context \<times> 'f device_memory" where
  "rms_norm_matrix_device sqrtf input weights out hidden batch epsilon tids tokens s =
     (if input = None \<or> weights = None \<or> out = None \<or> elements_invalid hidden \<or> batch \<le> 0 \<or> epsilon \<le> 0 then (CUDA_INVALID, s)
      else kernel_call ''device batched RMS norm'' (on_floats (launch
        (qwen_rms_norm_matrix sqrtf (the input) (the weights) (the out) hidden (nat batch) epsilon tids) tokens)) s)"

definition concat_device ::
    "nat option \<Rightarrow> nat option \<Rightarrow> nat \<Rightarrow> nat option \<Rightarrow> (nat \<times> nat) list \<Rightarrow>
     cuda_context \<times> 'f device_memory \<Rightarrow> int \<times> cuda_context \<times> 'f device_memory" where
  "concat_device first second elements out ts s =
     (if first = None \<or> second = None \<or> out = None \<or> elements = 0 then (CUDA_INVALID, s)
      else kernel_call ''device concat'' (on_floats (launch (qwen_concat_float (the first) (the second) (the out) elements) ts)) s)"

definition concat_matrix_device ::
    "nat option \<Rightarrow> nat option \<Rightarrow> nat \<Rightarrow> int \<Rightarrow> nat option \<Rightarrow> (nat \<times> nat) list \<Rightarrow>
     cuda_context \<times> 'f device_memory \<Rightarrow> int \<times> cuda_context \<times> 'f device_memory" where
  "concat_matrix_device first second hidden batch out ts s =
     (if first = None \<or> second = None \<or> out = None \<or> elements_invalid hidden \<or> batch \<le> 0 then (CUDA_INVALID, s)
      else kernel_call ''device batched concat''
        (on_floats (launch (qwen_concat_float_matrix (the first) (the second) (the out) hidden (nat batch)) ts)) s)"

definition shift_target_hidden_device ::
    "nat option \<Rightarrow> nat option \<Rightarrow> nat \<Rightarrow> int \<Rightarrow> nat option \<Rightarrow> (nat \<times> nat) list \<Rightarrow>
     cuda_context \<times> 'f device_memory \<Rightarrow> int \<times> cuda_context \<times> 'f device_memory" where
  "shift_target_hidden_device input pending hidden batch out ts s =
     (if input = None \<or> pending = None \<or> out = None \<or> elements_invalid hidden \<or> batch \<le> 0 then (CUDA_INVALID, s)
      else kernel_call ''device target-hidden shift''
        (on_floats (launch (qwen_shift_target_hidden (the input) (the pending) (the out) hidden (nat batch)) ts)) s)"

subsection \<open>What the kernels compute\<close>

lemma all_elements: "n \<le> blocks_for 256 n * 256"
  using blocks_for_enough [of 256 n] by simp

lemma embedding_launch:
  assumes "in_order (blocks_for 256 (blocks * 32)) 256 ts"
  shows "launch (qwen_embedding_lookup_q8 half weights token_id blocks out) ts h q i =
    (if q = out \<and> i < blocks * 32 then embedding_value half weights token_id blocks i else h q i)"
proof -
  have "qwen_embedding_lookup_q8 half weights token_id blocks out = (\<lambda>t h. if global_index 256 t < blocks * 32
      then put out (global_index 256 t) ((\<lambda>i _. embedding_value half weights token_id blocks i) (global_index 256 t) h) h else h)"
    by (intro ext) (simp add: qwen_embedding_lookup_q8_def Let_def)
  then show ?thesis
    using launch_pointwise [OF assms all_elements, where f = "\<lambda>i _. embedding_value half weights token_id blocks i"] by simp
qed

lemma embedding_batch_launch:
  assumes "in_order (batch * blocks_for 256 (blocks * 32)) 256 ts"
  shows "launch (qwen_embedding_lookup_q8_batch half weights tokens blocks batch out) ts h q i =
    (if q = out \<and> i < batch * (blocks * 32)
     then embedding_value half weights (nat (tokens ! (i div (blocks * 32)))) blocks (i mod (blocks * 32)) else h q i)"
proof -
  have c: "(blocks * 32 + 255) div 256 = blocks_for 256 (blocks * 32)" by (simp add: blocks_for_def)
  have "qwen_embedding_lookup_q8_batch half weights tokens blocks batch out =
      (\<lambda>t h. if row_of (blocks_for 256 (blocks * 32)) t \<ge> batch \<or> column_of (blocks_for 256 (blocks * 32)) 256 t \<ge> blocks * 32 then h
        else put out (row_of (blocks_for 256 (blocks * 32)) t * (blocks * 32) + column_of (blocks_for 256 (blocks * 32)) 256 t)
          ((\<lambda>r i. embedding_value half weights (nat (tokens ! r)) blocks i)
            (row_of (blocks_for 256 (blocks * 32)) t) (column_of (blocks_for 256 (blocks * 32)) 256 t)) h)"
    by (intro ext) (simp add: qwen_embedding_lookup_q8_batch_def Let_def c)
  then show ?thesis
    using launch_matrix [OF assms all_elements, where v = "\<lambda>r i. embedding_value half weights (nat (tokens ! r)) blocks i"] by simp
qed

lemma add_launch:
  assumes "in_order (blocks_for 256 elements) 256 ts"
  shows "launch (qwen_add_float left right out elements) ts h q i =
      (if q = out \<and> i < elements then h left i + h right i else h q i)"
    and "launch (qwen_add_matrix left right out elements) ts h q i =
      (if q = out \<and> i < elements then h left i + h right i else h q i)"
  using launch_pointwise [OF assms all_elements, of "\<lambda>i h. h left i + h right i" out h q i]
  by (simp_all add: qwen_add_float_def [abs_def] qwen_add_matrix_def [abs_def] Let_def)

lemma silu_launch:
  assumes "in_order (blocks_for 256 elements) 256 ts"
  shows "launch (qwen_silu_product expf gate up elements) ts h q i =
      (if q = gate \<and> i < elements then qwen_silu expf (h gate i) * h up i else h q i)"
    and "launch (qwen_silu_product_matrix expf gate up elements) ts h q i =
      (if q = gate \<and> i < elements then qwen_silu expf (h gate i) * h up i else h q i)"
proof -
  note l = launch_pointwise [OF assms all_elements, of "\<lambda>i h. qwen_silu expf (h gate i) * h up i" gate h q i]
  have "qwen_silu_product expf gate up elements = qwen_silu_product_matrix expf gate up elements"
    by (intro ext) (simp add: qwen_silu_product_def qwen_silu_product_matrix_def Let_def not_le [symmetric])
  then show "launch (qwen_silu_product expf gate up elements) ts h q i =
      (if q = gate \<and> i < elements then qwen_silu expf (h gate i) * h up i else h q i)"
    and "launch (qwen_silu_product_matrix expf gate up elements) ts h q i =
      (if q = gate \<and> i < elements then qwen_silu expf (h gate i) * h up i else h q i)"
    using l by (simp_all add: qwen_silu_product_matrix_def [abs_def] Let_def)
qed

lemma column_launch:
  assumes "in_order (blocks_for 256 elements) 256 ts" and "input \<noteq> out"
  shows "launch (qwen_copy_column input stride column out elements) ts h q i =
    (if q = out \<and> i < elements then h input (column * stride + i) else h q i)"
proof -
  let ?step = "\<lambda>i h. put out i (h input (column * stride + i)) h"
  have s: "stepwise elements (\<lambda>i. {(out, i)}) (\<lambda>i. {(input, column * stride + i)}) ?step"
    unfolding stepwise_def using assms(2) by auto
  have b: "qwen_copy_column input stride column out elements t h =
      (if global_index 256 t < elements then ?step (global_index 256 t) h else h)" for t h
    by (simp add: qwen_copy_column_def Let_def)
  note l = launch_indexed [OF assms(1) all_elements s b]
  show ?thesis
  proof (cases "q = out \<and> i < elements")
    case True
    then show ?thesis using l(1) [of i q i h] by simp
  next
    case False
    then show ?thesis using l(2) [of q i h] by auto
  qed
qed

lemma concat_launch:
  assumes "in_order (blocks_for 256 elements) 256 ts" and "first \<noteq> out" and "second \<noteq> out"
  shows "launch (qwen_concat_float first second out elements) ts h q i =
    (if q = out \<and> i < elements then h first i else if q = out \<and> i < 2 * elements then h second (i - elements) else h q i)"
proof -
  let ?step = "\<lambda>i h. put out (elements + i) (h second i) (put out i (h first i) h)"
  have s: "stepwise elements (\<lambda>i. {(out, i), (out, elements + i)}) (\<lambda>i. {(first, i), (second, i)}) ?step"
    unfolding stepwise_def using assms(2,3) by auto
  have b: "qwen_concat_float first second out elements t h =
      (if global_index 256 t < elements then ?step (global_index 256 t) h else h)" for t h
    using assms(2,3) by (simp add: qwen_concat_float_def Let_def)
  note l = launch_indexed [OF assms(1) all_elements s b]
  consider "q = out" "i < elements" | k where "q = out" "i = elements + k" "k < elements" | "\<not> (q = out \<and> i < 2 * elements)"
    by (metis add_less_cancel_left le_add_diff_inverse mult_2 not_le)
  then show ?thesis
  proof cases
    case 1
    then show ?thesis using l(1) [of i q i h] by simp
  next
    case (2 k)
    then show ?thesis using l(1) [of k q i h] by simp
  next
    case 3
    then show ?thesis using l(2) [of q i h] by auto
  qed
qed

text \<open>Where row \<open>i div hidden\<close> of the concatenated matrix has element \<open>i\<close> of the first: different places.\<close>

lemma matrix_places:
  fixes hidden :: nat
  assumes "0 < hidden"
  shows "(i div hidden * 2 * hidden + i mod hidden) div (2 * hidden) = i div hidden"
    and "(i div hidden * 2 * hidden + i mod hidden) mod (2 * hidden) = i mod hidden"
    and "(i div hidden * 2 * hidden + i mod hidden + hidden) div (2 * hidden) = i div hidden"
    and "(i div hidden * 2 * hidden + i mod hidden + hidden) mod (2 * hidden) = i mod hidden + hidden"
proof -
  have m: "i mod hidden < hidden" using assms by simp
  have e: "i div hidden * 2 * hidden + i mod hidden = i mod hidden + i div hidden * (2 * hidden)"
    "i div hidden * 2 * hidden + i mod hidden + hidden = (i mod hidden + hidden) + i div hidden * (2 * hidden)" by simp_all
  show "(i div hidden * 2 * hidden + i mod hidden) div (2 * hidden) = i div hidden"
    "(i div hidden * 2 * hidden + i mod hidden) mod (2 * hidden) = i mod hidden"
    unfolding e(1) using m by simp_all
  show "(i div hidden * 2 * hidden + i mod hidden + hidden) div (2 * hidden) = i div hidden"
    "(i div hidden * 2 * hidden + i mod hidden + hidden) mod (2 * hidden) = i mod hidden + hidden"
    unfolding e(2) using m by simp_all
qed

lemma concat_matrix_launch:
  fixes h :: "'f heap"
  assumes "in_order (blocks_for 256 (hidden * batch)) 256 ts" and "first \<noteq> out" and "second \<noteq> out"
    and "r < batch" and "c < hidden"
  shows "launch (qwen_concat_float_matrix first second out hidden batch) ts h out (r * (2 * hidden) + c) = h first (r * hidden + c)"
    and "launch (qwen_concat_float_matrix first second out hidden batch) ts h out (r * (2 * hidden) + hidden + c) = h second (r * hidden + c)"
proof -
  let ?low = "\<lambda>i. i div hidden * 2 * hidden + i mod hidden"
  let ?step = "\<lambda>i (h :: 'f heap). put out (?low i + hidden) (h second i) (put out (?low i) (h first i) h)"
  let ?writes = "\<lambda>i. {(out, ?low i), (out, ?low i + hidden)}" and ?reads = "\<lambda>i. {(first, i), (second, i)}"
  have pos: "0 < hidden" using assms(5) by simp
  have apart: "?writes i \<inter> (?writes k \<union> ?reads k) = {}" if "i \<noteq> k" for i k
  proof -
    have "i div hidden \<noteq> k div hidden \<or> i mod hidden \<noteq> k mod hidden" using that by (metis div_mult_mod_eq)
    moreover have "i mod hidden < hidden" "k mod hidden < hidden" using pos by simp_all
    ultimately have "?low i \<noteq> ?low k" "?low i + hidden \<noteq> ?low k" "?low i \<noteq> ?low k + hidden" "?low i + hidden \<noteq> ?low k + hidden"
      using matrix_places [OF pos, of i] matrix_places [OF pos, of k] by (metis add_right_cancel not_add_less2)+
    then show ?thesis using assms(2,3) by simp
  qed
  have s: "stepwise (hidden * batch) ?writes ?reads ?step"
    unfolding stepwise_def
  proof (intro allI impI conjI)
    fix i and h :: "'f heap" and q j assume "(q, j) \<notin> ?writes i"
    then show "?step i h q j = h q j" by auto
  next
    fix i and h h' :: "'f heap" and q j assume "(q, j) \<in> ?writes i" "\<forall>(p, k)\<in>?reads i. h p k = h' p k"
    then show "?step i h q j = ?step i h' q j" by auto
  next
    fix i k :: nat assume "i \<noteq> k"
    then show "?writes i \<inter> (?writes k \<union> ?reads k) = {}" by (rule apart)
  qed
  have b: "qwen_concat_float_matrix first second out hidden batch t h =
      (if global_index 256 t < hidden * batch then ?step (global_index 256 t) h else h)" for t h
  proof -
    have "i - i div hidden * hidden = i mod hidden" for i by (simp add: minus_div_mult_eq_mod)
    then show ?thesis using assms(2,3) by (simp add: qwen_concat_float_matrix_def Let_def ac_simps)
  qed
  have "Suc r * hidden \<le> batch * hidden" using assms(4) by (intro mult_le_mono1) simp
  then have i: "r * hidden + c < hidden * batch" using assms(5) by (simp add: mult.commute)
  have d: "(r * hidden + c) div hidden = r" "(r * hidden + c) mod hidden = c" using assms(5) by simp_all
  note l = launch_indexed(1) [OF assms(1) all_elements s b i, unfolded d]
  show "launch (qwen_concat_float_matrix first second out hidden batch) ts h out (r * (2 * hidden) + c) = h first (r * hidden + c)"
    and "launch (qwen_concat_float_matrix first second out hidden batch) ts h out (r * (2 * hidden) + hidden + c) = h second (r * hidden + c)"
    using l [of out "r * (2 * hidden) + c" h] l [of out "r * (2 * hidden) + hidden + c" h] pos by (simp_all add: ac_simps)
qed

lemma shift_launch:
  fixes h :: "'f heap"
  assumes "in_order (blocks_for 256 (hidden * batch)) 256 ts" and "distinct [input, pending, out]"
  shows "i < hidden * batch \<Longrightarrow> launch (qwen_shift_target_hidden input pending out hidden batch) ts h out i =
      (if i < hidden then h pending i else h input (i - hidden))"
    and "0 < batch \<Longrightarrow> i < hidden \<Longrightarrow> launch (qwen_shift_target_hidden input pending out hidden batch) ts h pending i =
      h input ((batch - 1) * hidden + i)"
    and "q \<notin> {pending, out} \<Longrightarrow> launch (qwen_shift_target_hidden input pending out hidden batch) ts h q i = h q i"
proof -
  let ?step = "\<lambda>i (h :: 'f heap). if i < hidden then put out i (h pending i) (put pending i (h input ((batch - 1) * hidden + i)) h)
      else put out i (h input (i - hidden)) h"
  let ?writes = "\<lambda>i. if i < hidden then {(out, i), (pending, i)} else {(out, i)}"
  let ?reads = "\<lambda>i. if i < hidden then {(pending, i), (input, (batch - 1) * hidden + i)} else {(input, i - hidden)}"
  have b: "qwen_shift_target_hidden input pending out hidden batch t h =
      (if global_index 256 t < hidden * batch then ?step (global_index 256 t) h else h)" for t h
    by (cases "hidden = 0") (simp_all add: qwen_shift_target_hidden_def Let_def div_eq_0_iff)
  have s: "stepwise (hidden * batch) ?writes ?reads ?step"
    unfolding stepwise_def
  proof (intro allI impI conjI)
    fix i and h :: "'f heap" and q j assume "(q, j) \<notin> ?writes i"
    then show "?step i h q j = h q j" by (auto split: if_splits)
  next
    fix i and h h' :: "'f heap" and q j assume "(q, j) \<in> ?writes i" "\<forall>(p, k)\<in>?reads i. h p k = h' p k"
    then show "?step i h q j = ?step i h' q j" by (cases "i < hidden") auto
  next
    fix i k :: nat assume "i \<noteq> k"
    then show "?writes i \<inter> (?writes k \<union> ?reads k) = {}" using assms(2) by (cases "i < hidden"; cases "k < hidden") auto
  qed
  note l = launch_indexed [OF assms(1) all_elements s b]
  show "launch (qwen_shift_target_hidden input pending out hidden batch) ts h out i =
      (if i < hidden then h pending i else h input (i - hidden))" if "i < hidden * batch"
    using l(1) [of i out i h] that assms(2) by simp
  show "launch (qwen_shift_target_hidden input pending out hidden batch) ts h pending i =
      h input ((batch - 1) * hidden + i)" if "0 < batch" "i < hidden"
  proof -
    have "i < hidden * batch" using that by (cases batch) simp_all
    then show ?thesis using l(1) [of i pending i h] that assms(2) by simp
  qed
  show "launch (qwen_shift_target_hidden input pending out hidden batch) ts h q i = h q i" if "q \<notin> {pending, out}"
    using l(2) [of q i h] that by (simp split: if_splits)
qed

subsection \<open>What the norms compute\<close>

lemma fold_plus: "fold (\<lambda>i acc. acc + h i) xs (d :: 'f::comm_monoid_add) = d + (\<Sum>i\<leftarrow>xs. h i)"
  by (induction xs arbitrary: d) (simp_all add: ac_simps)

lemma block_total_sum: "block_total accumulator = (\<Sum>t<1024. accumulator t)"
proof -
  have "block_total accumulator = (\<Sum>w<32. \<Sum>l<32. accumulator (w * 32 + l))"
    by (simp add: block_total_def fold_plus interv_sum_list_conv_sum_set_nat lessThan_atLeast0 mult.commute)
  also have "\<dots> = (\<Sum>t<32 * 32. accumulator t)" by (rule sum_groups [symmetric])
  finally show ?thesis by simp
qed

lemma block_total_squares:
  "block_total (sum_squares h input base n) = (\<Sum>i<n. h input (base + i) * h input (base + i))"
  using sum_strided [of 1024 "\<lambda>i. h input (base + i) * h input (base + i)" n]
  by (simp add: block_total_sum sum_squares_def fold_plus)

lemma all_strided:
  assumes "mset tids = mset [0..<1024]"
  shows "distinct (concat (map (\<lambda>tid. strided tid 1024 n) tids))"
    and "set (concat (map (\<lambda>tid. strided tid 1024 n) tids)) = {..<n}"
proof -
  have tids: "distinct tids" "set tids = {..<1024}"
    using mset_eq_imp_distinct_iff [OF assms] mset_eq_setD [OF assms] by (simp_all add: lessThan_atLeast0 del: upt_rec_numeral)
  have lane: "j mod 1024 = tid" if "j \<in> set (strided tid 1024 n)" "tid < 1024" for j tid :: nat
    using that by (simp add: set_strided)
  have "distinct (concat (map (\<lambda>tid. strided tid 1024 n) ts))" if "distinct ts" "set ts \<subseteq> {..<1024}" for ts
    using that
  proof (induction ts)
    case (Cons t ts)
    have "set (strided t 1024 n) \<inter> set (strided u 1024 n) = {}" if "u \<in> set ts" for u
      using lane [of _ t] lane [of _ u] Cons.prems that by fastforce
    then show ?case using Cons by (auto simp: distinct_strided)
  qed simp
  then show "distinct (concat (map (\<lambda>tid. strided tid 1024 n) tids))" using tids by simp
  show "set (concat (map (\<lambda>tid. strided tid 1024 n) tids)) = {..<n}"
  proof
    show "set (concat (map (\<lambda>tid. strided tid 1024 n) tids)) \<subseteq> {..<n}" by (auto simp: set_strided)
    show "{..<n} \<subseteq> set (concat (map (\<lambda>tid. strided tid 1024 n) tids))"
    proof
      fix j assume "j \<in> {..<n}"
      then have "j \<in> set (strided (j mod 1024) 1024 n)" by (simp add: set_strided)
      moreover have "j mod 1024 \<in> set tids" using tids(2) by simp
      ultimately show "j \<in> set (concat (map (\<lambda>tid. strided tid 1024 n) tids))" by auto
    qed
  qed
qed

lemma scale_row_launch:
  fixes h :: "'f::comm_ring_1 heap"
  assumes "mset tids = mset [0..<1024]" and "weights \<noteq> out"
  shows "launch (scale_row factor input weights out base n) tids h q i =
    (if q = out \<and> base \<le> i \<and> i < base + n then h input i * factor * h weights (i - base) else h q i)"
proof -
  let ?step = "\<lambda>index (h :: 'f heap). put out (base + index) (h input (base + index) * factor * h weights index) h"
  let ?all = "concat (map (\<lambda>tid. strided tid 1024 n) tids)"
  let ?writes = "\<lambda>j. {(out, base + j)}" and ?reads = "\<lambda>j. {(input, base + j), (weights, j)}"
  have flat: "launch (scale_row factor input weights out base n) ts h = launch ?step (concat (map (\<lambda>tid. strided tid 1024 n) ts)) h"
    for ts h unfolding launch_def by (induction ts arbitrary: h) (simp_all add: scale_row_def)
  have c: "confined ?writes ?reads ?step" by (auto simp: confined_def)
  note all = all_strided [OF assms(1), of n]
  show ?thesis
  proof (cases "q = out \<and> base \<le> i \<and> i < base + n")
    case True
    then have i: "i - base \<in> set ?all" "(q, i) \<in> ?writes (i - base)" unfolding all(2) by auto
    have "launch ?step ?all h q i = ?step (i - base) h q i"
      by (rule launch_own [OF c all(1) _ i]) (use assms(2) in auto)
    then show ?thesis using True by (simp add: flat)
  next
    case False
    then have "\<forall>j\<in>set ?all. (q, i) \<notin> ?writes j" unfolding all(2) by auto
    then show ?thesis using launch_other [OF c] False by (auto simp: flat)
  qed
qed

definition rms_value :: "('f::field \<Rightarrow> 'f) \<Rightarrow> 'f heap \<Rightarrow> nat \<Rightarrow> nat \<Rightarrow> nat \<Rightarrow> nat \<Rightarrow> 'f \<Rightarrow> nat \<Rightarrow> 'f" where
  "rms_value sqrtf h input weights base n epsilon c =
     h input (base + c) * (1 / sqrtf ((\<Sum>i<n. h input (base + i) ^ 2) / of_nat n + epsilon)) * h weights c"

lemma rms_norm_launch:
  assumes "mset tids = mset [0..<1024]" and "weights \<noteq> out"
  shows "qwen_rms_norm_float sqrtf input weights out n epsilon tids h q i =
      (if q = out \<and> i < n then rms_value sqrtf h input weights 0 n epsilon i else h q i)"
    and "rsqrtf = (\<lambda>x. 1 / sqrtf x) \<Longrightarrow> qwen_rms_norm_float_fast rsqrtf input weights out n epsilon tids h =
      qwen_rms_norm_float sqrtf input weights out n epsilon tids h"
    and "token < batch \<Longrightarrow> qwen_rms_norm_matrix sqrtf input weights out n batch epsilon tids token h q i =
      (if q = out \<and> token * n \<le> i \<and> i < token * n + n then rms_value sqrtf h input weights (token * n) n epsilon (i - token * n) else h q i)"
  by (simp_all add: scale_row_launch [OF assms] Let_def qwen_rms_norm_float_def qwen_rms_norm_float_fast_def qwen_rms_norm_matrix_def rms_value_def
    block_total_squares power2_eq_square)

lemma rms_matrix_launch:
  fixes h :: "'f::field heap"
  assumes "mset tids = mset [0..<1024]" and "mset tokens = mset [0..<batch]" and "weights \<noteq> out"
    and "token < batch" and "c < n"
  shows "launch (qwen_rms_norm_matrix sqrtf input weights out n batch epsilon tids) tokens h out (token * n + c) =
    rms_value sqrtf h input weights (token * n) n epsilon c"
proof -
  let ?body = "qwen_rms_norm_matrix sqrtf input weights out n batch epsilon tids :: nat \<Rightarrow> 'f heap \<Rightarrow> 'f heap"
  let ?row = "\<lambda>p t. {(p, t * n + c) | c. c < n}"
  let ?writes = "\<lambda>t. if t < batch then ?row out t else {}" and ?reads = "\<lambda>t. ?row input t \<union> ?row weights 0"
  have c: "confined ?writes ?reads ?body"
    unfolding confined_def
  proof (intro conjI allI impI)
    fix t and h :: "'f heap" and q i assume w: "(q, i) \<notin> ?writes t"
    show "?body t h q i = h q i"
    proof (cases "t < batch")
      case True
      have "\<not> (q = out \<and> t * n \<le> i \<and> i < t * n + n)"
      proof
        assume "q = out \<and> t * n \<le> i \<and> i < t * n + n"
        then have "i = t * n + (i - t * n)" "i - t * n < n" "q = out" by auto
        then have "(q, i) \<in> ?writes t" using True by (simp, metis)
        then show False using w by simp
      qed
      then show ?thesis by (auto simp: rms_norm_launch(3) [OF assms(1,3) True])
    qed (simp add: qwen_rms_norm_matrix_def)
  next
    fix t and h h' :: "'f heap" and q i assume w: "(q, i) \<in> ?writes t" and same: "\<forall>(p, j)\<in>?reads t. h p j = h' p j"
    then obtain c where t: "t < batch" "c < n" "q = out" "i = t * n + c" by (auto split: if_splits)
    have "h input (t * n + j) = h' input (t * n + j)" "h weights j = h' weights j" if "j < n" for j
      using same that by force+
    then have "rms_value sqrtf h input weights (t * n) n epsilon c = rms_value sqrtf h' input weights (t * n) n epsilon c"
      using t(2) by (simp add: rms_value_def)
    then show "?body t h q i = ?body t h' q i" using t by (simp add: rms_norm_launch(3) [OF assms(1,3) t(1)])
  qed
  have d: "distinct tokens" "set tokens = {..<batch}"
    using mset_eq_imp_distinct_iff [OF assms(2)] mset_eq_setD [OF assms(2)] by (simp_all add: lessThan_atLeast0)
  have apart: "?writes s \<inter> (?writes t \<union> ?reads t) = {}" if "s \<noteq> t" for s t
  proof -
    have "s * n + a \<noteq> t * n + b" if "a < n" "b < n" for a b
    proof
      assume eq: "s * n + a = t * n + b"
      have "(s * n + a) div n = s" "(t * n + b) div n = t" using that by simp_all
      then show False using eq \<open>s \<noteq> t\<close> by simp
    qed
    then show ?thesis using assms(3) by auto
  qed
  have "launch ?body tokens h out (token * n + c) = ?body token h out (token * n + c)"
    by (rule launch_own [OF c d(1) apart]) (use d(2) assms(4,5) in auto)
  then show ?thesis using assms(5) by (simp add: rms_norm_launch(3) [OF assms(1,3,4)])
qed

subsection \<open>Properties\<close>

text \<open>
  The embedding of a batch on the device is, token by token, the row of the weights as the CPU
  dequantises it, scalar or AVX2, for every order of the grid; nothing else is written.
\<close>

theorem embedding_is_dequantised:
  assumes "in_order (batch * blocks_for 256 (blocks * 32)) 256 ts" and "k < batch" and "nat (tokens ! k) = token_id"
    and "(token_id + 1) * (blocks * 34) \<le> length weights" and "q \<noteq> out"
  shows "map (\<lambda>i. launch (qwen_embedding_lookup_q8_batch half weights tokens blocks batch out) ts h out (k * (blocks * 32) + i)) [0..<blocks * 32] =
      dequantize_row avx2 half (drop (token_id * (blocks * 34)) weights) blocks \<and>
    launch (qwen_embedding_lookup_q8_batch half weights tokens blocks batch out) ts h q i = h q i"
proof -
  let ?row = "drop (token_id * (blocks * 34)) weights"
  have len: "blocks * 34 \<le> length ?row" using assms(4) by simp
  note deq = dequantize_row_elements [OF len, of _ avx2 half]
  have one: "embedding_value half weights token_id blocks i = dequantize_row avx2 half ?row blocks ! i" if i: "i < 32 * blocks" for i
  proof -
    have b: "i div 32 < blocks" using i by (simp add: less_mult_imp_div_less)
    then have "Suc (i div 32) * 34 \<le> blocks * 34" by (intro mult_le_mono1) simp
    then have at: "?row ! (i div 32 * 34 + j) = weights ! (token_id * blocks * 34 + i div 32 * 34 + j)" if "j < 34" for j
      using that assms(4) by (simp add: nth_drop add.assoc mult.assoc)
    have "load_u16 ?row (i div 32 * 34) = load_u16 weights (token_id * blocks * 34 + i div 32 * 34)"
      using at [of 0] at [of 1] by (simp add: load_u16_def add.assoc)
    moreover have "i mod 32 < 32" by simp
    then have "?row ! (i div 32 * 34 + 2 + i mod 32) = weights ! (token_id * blocks * 34 + i div 32 * 34 + 2 + i mod 32)"
      using at [of "2 + i mod 32"] by (simp add: add.assoc)
    ultimately show ?thesis using deq [OF i] by (simp add: embedding_value_def Let_def block_scale_def)
  qed
  have "Suc k * (blocks * 32) \<le> batch * (blocks * 32)" using assms(2) by (intro mult_le_mono1) simp
  then have elements: "launch (qwen_embedding_lookup_q8_batch half weights tokens blocks batch out) ts h out (k * (blocks * 32) + i) =
      dequantize_row avx2 half ?row blocks ! i" if "i < blocks * 32" for i
    using that one [of i] assms(3) by (simp add: embedding_batch_launch [OF assms(1)])
  have len': "length (dequantize_row avx2 half ?row blocks) = blocks * 32"
  proof (cases blocks)
    case 0
    then show ?thesis by (simp add: dequantize_row_def dequantize_row_avx2_def dequantize_row_scalar_def)
  next
    case (Suc n)
    then show ?thesis using deq [of 0] by simp
  qed
  have "map (\<lambda>i. launch (qwen_embedding_lookup_q8_batch half weights tokens blocks batch out) ts h out (k * (blocks * 32) + i)) [0..<blocks * 32] =
      map (\<lambda>i. dequantize_row avx2 half ?row blocks ! i) [0..<blocks * 32]"
    by (rule map_cong [OF refl]) (use elements in auto)
  also have "\<dots> = dequantize_row avx2 half ?row blocks" using len' map_nth [of "dequantize_row avx2 half ?row blocks"] by simp
  finally show ?thesis using assms(5) by (simp add: embedding_batch_launch [OF assms(1)])
qed

theorem embedding_is_dequantised_witness:
  "launch (qwen_embedding_lookup_q8_batch (\<lambda>_. 3) (replicate 68 (- 2)) [1, 0] 1 2 7) (grid 2 256) (\<lambda>_ _. 0 :: int) 7 40 =
    dequantize_row True (\<lambda>_. 3) (replicate 34 (- 2)) 1 ! 8"
proof -
  have o: "in_order (2 * blocks_for 256 (1 * 32)) 256 (grid 2 256)" by (simp add: blocks_for_def)
  have "map (\<lambda>i. launch (qwen_embedding_lookup_q8_batch (\<lambda>_. 3) (replicate 68 (- 2)) [1, 0] 1 2 7) (grid 2 256) (\<lambda>_ _. 0 :: int) 7 (1 * (1 * 32) + i)) [0..<1 * 32] =
      dequantize_row True (\<lambda>_. 3) (replicate 68 (- 2)) 1"
    using embedding_is_dequantised [OF o, where k = 1 and tokens = "[1, 0]" and token_id = 0 and weights = "replicate 68 (- 2)" and q = 8 and out = 7 and ?avx2.0 = True and half = "\<lambda>_. 3" and h = "\<lambda>_ _. 0 :: int"]
    by (simp del: upt_rec_numeral)
  then have "dequantize_row True (\<lambda>_. 3) (replicate 68 (- 2)) 1 ! 8 =
      map (\<lambda>i. launch (qwen_embedding_lookup_q8_batch (\<lambda>_. 3) (replicate 68 (- 2)) [1, 0] 1 2 7) (grid 2 256) (\<lambda>_ _. 0 :: int) 7 (1 * (1 * 32) + i)) [0..<1 * 32] ! 8"
    by simp
  moreover have "dequantize_row True (\<lambda>_. 3 :: int) (replicate 68 (- 2)) 1 ! 8 = dequantize_row True (\<lambda>_. 3) (replicate 34 (- 2)) 1 ! 8"
    using dequantize_row_elements [of 1 "replicate 68 (- 2)" 8 True "\<lambda>_. 3 :: int"]
      dequantize_row_elements [of 1 "replicate 34 (- 2)" 8 True "\<lambda>_. 3 :: int"] by (simp add: load_u16_def)
  ultimately show ?thesis by (simp del: upt_rec_numeral)
qed

text \<open>
  The batched RMS norm divides every row by the root of the mean of its squares plus epsilon and
  multiplies by the weights, also in place, for every order of the rows and of the threads of a row,
  and whether or not the row length is a multiple of the block.
\<close>

theorem rms_norm_matrix_rows:
  fixes h :: "real heap"
  assumes "mset tids = mset [0..<1024]" and "mset tokens = mset [0..<batch]" and "weights \<noteq> out" and "token < batch" and "c < n"
  shows "launch (qwen_rms_norm_matrix sqrt input weights out n batch epsilon tids) tokens h out (token * n + c) =
    h input (token * n + c) / sqrt ((\<Sum>i<n. h input (token * n + i) ^ 2) / n + epsilon) * h weights c"
  using rms_matrix_launch [OF assms] by (simp add: rms_value_def)

theorem rms_norm_matrix_rows_witness:
  "launch (qwen_rms_norm_matrix sqrt 3 4 3 2 1 7 (rev [0..<1024])) [0] (\<lambda>p i. if p = 3 then 3 else 2 :: real) 3 1 = 3 / 2"
proof -
  have "(\<Sum>i<2::nat. (3::real) ^ 2) = 18" by simp
  then show ?thesis
    using rms_norm_matrix_rows [of "rev [0..<1024]" "[0]" 1 4 3 0 1 2 3 7 "\<lambda>p i. if p = 3 then 3 else 2"]
    by simp
qed

text \<open>
  Shifting a batch of hidden states is a delay by one column: the output is the pending column
  followed by all columns but the last, which becomes pending, for every order of the threads.
\<close>

theorem shift_is_delay:
  assumes "in_order (blocks_for 256 (hidden * batch)) 256 ts" and "distinct [input, pending, out]" and "0 < batch"
  shows "(let columns = \<lambda>h. map (\<lambda>c. map (h input) [c * hidden..<(c + 1) * hidden]) [0..<batch];
      h' = launch (qwen_shift_target_hidden input pending out hidden batch) ts h
    in map (\<lambda>c. map (h' out) [c * hidden..<(c + 1) * hidden]) [0..<batch] @ [map (h' pending) [0..<hidden]] =
      map (h pending) [0..<hidden] # columns h \<and> columns h' = columns h)"
proof -
  let ?h' = "launch (qwen_shift_target_hidden input pending out hidden batch) ts h"
  let ?column = "\<lambda>c. map (h input) [c * hidden..<(c + 1) * hidden]"
  note l = shift_launch [OF assms(1,2), of _ h]
  have first: "map (?h' out) [0..<hidden] = map (h pending) [0..<hidden]"
  proof (rule map_cong [OF refl])
    fix i assume "i \<in> set [0..<hidden]"
    then show "?h' out i = h pending i" using l(1) [of i] assms(3) by (cases batch) simp_all
  qed
  have next_column: "map (?h' out) [Suc c * hidden..<(Suc c + 1) * hidden] = ?column c" if "Suc c < batch" for c
  proof -
    have "(Suc c + 1) * hidden \<le> batch * hidden" by (rule mult_le_mono1) (use that in simp)
    then show ?thesis
      by (intro nth_equalityI) (auto simp: l(1) mult.commute)
  qed
  have "map (\<lambda>c. map (?h' out) [c * hidden..<(c + 1) * hidden]) [0..<batch] = map (h pending) [0..<hidden] # map ?column [0..<batch - 1]"
  proof -
    obtain n where n: "batch = Suc n" using assms(3) by (cases batch) auto
    have "[0..<batch] = 0 # map Suc [0..<n]" unfolding n by (metis map_Suc_upt upt_conv_Cons zero_less_Suc)
    then show ?thesis using first next_column by (simp add: n comp_def)
  qed
  moreover have "map (?h' pending) [0..<hidden] = ?column (batch - 1)"
  proof (rule nth_equalityI)
    fix i assume "i < length (map (?h' pending) [0..<hidden])"
    then have i: "i < hidden" by simp
    obtain n where n: "batch = Suc n" using assms(3) by (cases batch) auto
    show "map (?h' pending) [0..<hidden] ! i = ?column (batch - 1) ! i" using l(2) [of i] i by (simp add: n)
  qed (use assms(3) in \<open>cases batch, simp_all\<close>)
  moreover have "[0..<batch] = [0..<batch - 1] @ [batch - 1]" using assms(3) by (cases batch) simp_all
  moreover have "?h' input i = h input i" for i using l(3) [of input i] assms(2) by simp
  then have "?h' input = h input" by (rule ext)
  ultimately show ?thesis by (simp add: Let_def)
qed

theorem shift_is_delay_witness:
  "launch (qwen_shift_target_hidden 1 2 3 2 2) (grid 1 256) (\<lambda>p i. 10 * p + i) 3 2 = (10 :: nat)"
proof -
  have "in_order (blocks_for 256 (2 * 2)) 256 (grid 1 256)" by (simp add: blocks_for_def)
  note s = shift_is_delay [OF this, of 1 2 3 "\<lambda>p i. 10 * p + i"]
  show ?thesis using s by (simp add: Let_def upt_rec numeral_eq_Suc)
qed

end
