(* ===== verification/CudaRecurrent.thy ===== *)
theory CudaRecurrent
  imports CudaElementwise CudaLayers DeltaStep
begin

section \<open>The recurrent kernels\<close>

text \<open>
  Models the kernels of the recurrent layer in \<open>src/backend/cuda/fortai_cuda_backend.cu\<close>: the short
  convolution with its history, the L2 norms, the gated delta rule, for one token and for a batch of
  tokens, in the general form and in that with the state in registers, and the gated norm. The arrays
  are those of \<open>CudaHeap\<close>. A fused multiply-add is its sum; the mathematical functions of the device are
  the fields of \<open>math\<close>.
\<close>

record 'f math =
  expf :: "'f \<Rightarrow> 'f"
  log1pf :: "'f \<Rightarrow> 'f"
  sqrtf :: "'f \<Rightarrow> 'f"
  rsqrtf :: "'f \<Rightarrow> 'f"

definition qwen_sigmoid :: "'f::field math \<Rightarrow> 'f \<Rightarrow> 'f" where
  "qwen_sigmoid m v = 1 / (1 + expf m (- v))"

definition qwen_softplus :: "'f::linordered_field math \<Rightarrow> 'f \<Rightarrow> 'f" where
  "qwen_softplus m v = (if v > 20 then v else if v < -20 then expf m v else log1pf m (expf m v))"

subsection \<open>The convolution\<close>

text \<open>\<open>place\<close>: the element of \<open>qkv\<close> that is the channel's newest value.\<close>

definition conv_sum :: "nat \<Rightarrow> nat \<Rightarrow> nat \<Rightarrow> nat \<Rightarrow> nat \<Rightarrow> nat \<Rightarrow> nat \<Rightarrow> 'f::comm_ring_1 heap \<Rightarrow> 'f" where
  "conv_sum qkv place weights hist channels kern channel h =
     fold (\<lambda>slot acc. acc + h weights (channel * kern + slot) * (if slot = kern - 1 then h qkv place else h hist (slot * channels + channel)))
       [0..<kern] 0"

definition conv_shift :: "nat \<Rightarrow> nat \<Rightarrow> nat \<Rightarrow> nat \<Rightarrow> nat \<Rightarrow> nat \<Rightarrow> 'f heap \<Rightarrow> 'f heap" where
  "conv_shift qkv place hist channels kern channel h =
     (let h = fold (\<lambda>slot h. put hist (slot * channels + channel) (h hist ((slot + 1) * channels + channel)) h) [0..<kern - 2] h
      in put hist ((kern - 2) * channels + channel) (h qkv place) h)"

definition qwen_recurrent_conv_silu ::
    "'f::field math \<Rightarrow> nat \<Rightarrow> nat \<Rightarrow> nat \<Rightarrow> nat \<Rightarrow> nat \<Rightarrow> nat \<times> nat \<Rightarrow> 'f heap \<Rightarrow> 'f heap" where
  "qwen_recurrent_conv_silu m qkv weights hist channels kern t h =
     (let channel = global_index 256 t
      in if channel \<ge> channels then h
         else let accumulator = conv_sum qkv channel weights hist channels kern channel h
              in put qkv channel (qwen_silu (expf m) accumulator) (conv_shift qkv channel hist channels kern channel h))"

definition conv_keep :: "nat \<Rightarrow> nat \<Rightarrow> nat \<Rightarrow> nat \<Rightarrow> nat \<Rightarrow> 'f heap \<Rightarrow> 'f heap" where
  "conv_keep dst hist channels kern channel h =
     fold (\<lambda>slot h. put dst (slot * channels + channel) (h hist (slot * channels + channel)) h) [0..<kern - 1] h"

definition conv_token ::
    "'f::field math \<Rightarrow> nat \<Rightarrow> nat \<Rightarrow> nat \<Rightarrow> nat \<Rightarrow> nat \<Rightarrow> nat \<Rightarrow> nat \<Rightarrow> nat \<Rightarrow> nat \<Rightarrow> 'f heap \<Rightarrow> 'f heap" where
  "conv_token m qkv weights hist first second channels kern channel token h =
     (let place = token * channels + channel;
          accumulator = conv_sum qkv place weights hist channels kern channel h;
          h = conv_shift qkv place hist channels kern channel h;
          h = (if token = 0 then conv_keep first hist channels kern channel h else h);
          h = (if token = 1 then conv_keep second hist channels kern channel h else h)
      in put qkv place (qwen_silu (expf m) accumulator) h)"

definition qwen_recurrent_conv_silu_batch ::
    "'f::field math \<Rightarrow> nat \<Rightarrow> nat \<Rightarrow> nat \<Rightarrow> nat \<Rightarrow> nat \<Rightarrow> nat \<Rightarrow> nat \<Rightarrow> nat \<Rightarrow> nat \<times> nat \<Rightarrow> 'f heap \<Rightarrow> 'f heap" where
  "qwen_recurrent_conv_silu_batch m qkv weights hist first second channels kern batch t h =
     (let channel = global_index 256 t
      in if channel \<ge> channels then h else fold (conv_token m qkv weights hist first second channels kern channel) [0..<batch] h)"

subsection \<open>L2 norms\<close>

text \<open>
  A block of 128 threads to a slice; \<open>tids\<close> is the order of the threads after the last barrier.
\<close>

definition squares_of :: "nat \<Rightarrow> nat \<Rightarrow> nat \<Rightarrow> 'f::comm_ring_1 heap \<Rightarrow> nat \<Rightarrow> 'f" where
  "squares_of vals base n h tid = fold (\<lambda>i sum. h vals (base + i) * h vals (base + i) + sum) (strided tid 128 n) 0"

definition four_warps :: "nat \<Rightarrow> (nat \<Rightarrow> 'f::comm_ring_1) \<Rightarrow> 'f" where
  "four_warps offset v = (let partial = (\<lambda>warp. warp_down (+) 32 16 (\<lambda>lane. v (32 * warp + lane)) 0)
     in warp_down (+) 32 offset (\<lambda>lane. if lane < 4 then partial lane else 0) 0)"

definition rescale :: "nat \<Rightarrow> nat \<Rightarrow> nat \<Rightarrow> 'f::comm_ring_1 \<Rightarrow> nat \<Rightarrow> 'f heap \<Rightarrow> 'f heap" where
  "rescale vals base n inverse_norm tid h = fold (\<lambda>i h. put vals (base + i) (h vals (base + i) * inverse_norm) h) (strided tid 128 n) h"

definition qwen_recurrent_l2_normalize ::
    "'f::linordered_field math \<Rightarrow> nat \<Rightarrow> nat \<Rightarrow> nat \<Rightarrow> 'f \<Rightarrow> nat list \<Rightarrow> nat \<Rightarrow> 'f heap \<Rightarrow> 'f heap" where
  "qwen_recurrent_l2_normalize m vals slices n epsilon tids part h =
     (if part \<ge> slices then h
      else let norm = sqrtf m (four_warps 16 (squares_of vals (part * n) n h));
               norm = (if norm < epsilon then epsilon else norm)
           in launch (rescale vals (part * n) n (1 / norm)) tids h)"

definition qwen_recurrent_l2_normalize_batch ::
    "'f::linordered_field math \<Rightarrow> nat \<Rightarrow> nat \<Rightarrow> nat \<Rightarrow> nat \<Rightarrow> nat \<Rightarrow> 'f \<Rightarrow> nat list \<Rightarrow> nat \<times> nat \<Rightarrow> 'f heap \<Rightarrow> 'f heap" where
  "qwen_recurrent_l2_normalize_batch m vals slices n batch stride epsilon tids = (\<lambda>(part, token) h.
     if part \<ge> slices \<or> token \<ge> batch then h
     else let base = token * stride + part * n; norm = sqrtf m (four_warps 16 (squares_of vals base n h))
          in launch (rescale vals base n (if norm > epsilon then 1 / norm else 1 / epsilon)) tids h)"

subsection \<open>The gated delta rule\<close>

text \<open>The arrays and the dimensions of the kernels.\<close>

record gdn_arrays =
  gdn_qkv :: nat
  gdn_alpha :: nat
  gdn_beta :: nat
  gdn_a :: nat
  gdn_dt :: nat
  gdn_matrix :: nat
  gdn_first :: nat
  gdn_second :: nat
  gdn_out :: nat

definition gdn_decay :: "'f::linordered_field math \<Rightarrow> gdn_arrays \<Rightarrow> nat \<Rightarrow> nat \<Rightarrow> 'f heap \<Rightarrow> 'f" where
  "gdn_decay m a place head h = expf m (h (gdn_a a) head * qwen_softplus m (h (gdn_alpha a) place + h (gdn_dt a) head))"

text \<open>
  One pass of a warp over its row of the state: each lane changes every 32nd entry and adds up the
  products of the new entries with the elements of \<open>qkv\<close> from \<open>read\<close> on.
\<close>

definition pass_entry :: "nat \<Rightarrow> nat \<Rightarrow> nat \<Rightarrow> nat \<Rightarrow> ('f \<Rightarrow> 'f \<Rightarrow> 'f) \<Rightarrow> 'f heap \<Rightarrow> nat \<Rightarrow> 'f" where
  "pass_entry matrix base qkv key change h col = change (h matrix (base + col)) (h qkv (key + col))"

definition pass_cell ::
    "nat \<Rightarrow> nat \<Rightarrow> nat \<Rightarrow> nat \<Rightarrow> nat \<Rightarrow> ('f::comm_ring_1 \<Rightarrow> 'f \<Rightarrow> 'f) \<Rightarrow> nat \<Rightarrow> nat \<Rightarrow> 'f heap \<times> (nat \<Rightarrow> 'f) \<Rightarrow> 'f heap \<times> (nat \<Rightarrow> 'f)" where
  "pass_cell matrix base qkv key read change lane col = (\<lambda>(h, dot).
     let entry = pass_entry matrix base qkv key change h col
     in (put matrix (base + col) entry h, dot(lane := entry * h qkv (read + col) + dot lane)))"

definition gdn_pass ::
    "nat \<Rightarrow> nat \<Rightarrow> nat \<Rightarrow> nat \<Rightarrow> nat \<Rightarrow> nat \<Rightarrow> ('f::comm_ring_1 \<Rightarrow> 'f \<Rightarrow> 'f) \<Rightarrow> 'f heap \<Rightarrow> 'f heap \<times> (nat \<Rightarrow> 'f)" where
  "gdn_pass matrix base qkv key read n change h =
     fold (\<lambda>lane. fold (pass_cell matrix base qkv key read change lane) (strided lane 32 n)) [0..<32] (h, \<lambda>_. 0)"

text \<open>Row \<open>row\<close> of head \<open>head\<close> for the token whose elements of \<open>qkv\<close> start at \<open>start\<close>.\<close>

definition gdn_row_step ::
    "'f::linordered_field math \<Rightarrow> gdn_arrays \<Rightarrow> nat \<Rightarrow> nat \<Rightarrow> nat \<Rightarrow> nat \<Rightarrow> nat \<Rightarrow> nat \<Rightarrow> nat \<Rightarrow> nat \<Rightarrow> 'f heap \<Rightarrow> 'f heap" where
  "gdn_row_step m a S kheads n start place out_place head row h =
     (let key_head = head mod kheads;
          q_offset = start + key_head * S; k_offset = start + S * kheads + key_head * S; v_offset = start + 2 * S * kheads + head * n;
          decay = gdn_decay m a place head h; beta_value = qwen_sigmoid m (h (gdn_beta a) place);
          base = head * n * n + row * n;
          (h, dot) = gdn_pass (gdn_matrix a) base (gdn_qkv a) k_offset k_offset n (\<lambda>s k. s * decay) h;
          delta = (h (gdn_qkv a) (v_offset + row) - warp_down (+) 32 16 dot 0) * beta_value;
          (h, dot) = gdn_pass (gdn_matrix a) base (gdn_qkv a) k_offset q_offset n (\<lambda>s k. s + delta * k) h
      in put (gdn_out a) out_place (warp_down (+) 32 16 dot 0 * rsqrtf m (of_nat n)) h)"

definition qwen_recurrent_gdn_fused ::
    "'f::linordered_field math \<Rightarrow> gdn_arrays \<Rightarrow> nat \<Rightarrow> nat \<Rightarrow> nat \<Rightarrow> nat \<Rightarrow> nat \<times> nat \<Rightarrow> 'f heap \<Rightarrow> 'f heap" where
  "qwen_recurrent_gdn_fused m a S kheads vheads n t h =
     (let row_index = global_index 4 t; head = row_index div n; row = row_index mod n
      in if head \<ge> vheads \<or> row \<ge> n then h else gdn_row_step m a S kheads n 0 head row_index head row h)"

text \<open>
  With the state in registers: entry \<open>row * 32 + lane\<close> of the state row is \<open>shard row lane\<close>. The values
  of one token: the new shards and the output.
\<close>

definition load_shard :: "nat \<Rightarrow> nat \<Rightarrow> 'f heap \<Rightarrow> nat \<Rightarrow> nat \<Rightarrow> 'f" where
  "load_shard matrix base h row lane = h matrix (base + (row * 32 + lane))"

definition store_shard :: "nat \<Rightarrow> nat \<Rightarrow> nat \<Rightarrow> (nat \<Rightarrow> nat \<Rightarrow> 'f) \<Rightarrow> 'f heap \<Rightarrow> 'f heap" where
  "store_shard matrix base n shard h =
     fold (\<lambda>lane h. fold (\<lambda>row h. put matrix (base + (row * 32 + lane)) (shard row lane) h) [0..<n div 32] h) [0..<32] h"

definition shard_dot :: "nat \<Rightarrow> nat \<Rightarrow> nat \<Rightarrow> (nat \<Rightarrow> nat \<Rightarrow> 'f::comm_ring_1) \<Rightarrow> 'f heap \<Rightarrow> 'f" where
  "shard_dot qkv read n shard h =
     warp_down (+) 32 16 (\<lambda>lane. fold (\<lambda>row dot. shard row lane * h qkv (read + (row * 32 + lane)) + dot) [0..<n div 32] 0) 0"

definition gdn_shard_step ::
    "'f::linordered_field math \<Rightarrow> gdn_arrays \<Rightarrow> nat \<Rightarrow> nat \<Rightarrow> nat \<Rightarrow> nat \<Rightarrow> nat \<Rightarrow> nat \<Rightarrow> nat \<Rightarrow> 'f heap \<Rightarrow> (nat \<Rightarrow> nat \<Rightarrow> 'f) \<Rightarrow>
     (nat \<Rightarrow> nat \<Rightarrow> 'f) \<times> 'f" where
  "gdn_shard_step m a S kheads n start place head column h shard =
     (let key_head = head mod kheads;
          q_offset = start + key_head * S; k_offset = start + S * kheads + key_head * S; v_offset = start + 2 * S * kheads + head * n;
          decay = gdn_decay m a place head h; beta_value = qwen_sigmoid m (h (gdn_beta a) place);
          shard = (\<lambda>row lane. shard row lane * decay);
          delta = (h (gdn_qkv a) (v_offset + column) - shard_dot (gdn_qkv a) k_offset n shard h) * beta_value;
          shard = (\<lambda>row lane. delta * h (gdn_qkv a) (k_offset + (row * 32 + lane)) + shard row lane)
      in (shard, shard_dot (gdn_qkv a) q_offset n shard h * rsqrtf m (of_nat n)))"

definition qwen_recurrent_gdn_fused_fixed ::
    "'f::linordered_field math \<Rightarrow> gdn_arrays \<Rightarrow> nat \<Rightarrow> nat \<Rightarrow> nat \<Rightarrow> nat \<Rightarrow> nat \<times> nat \<Rightarrow> 'f heap \<Rightarrow> 'f heap" where
  "qwen_recurrent_gdn_fused_fixed m a n S kheads vheads = (\<lambda>(head, column) h.
     if head \<ge> vheads \<or> column \<ge> n then h
     else let base = head * n * n + column * n;
              (shard, result) = gdn_shard_step m a S kheads n 0 head head column h (load_shard (gdn_matrix a) base h)
          in store_shard (gdn_matrix a) base n shard (put (gdn_out a) (head * n + column) result h))"

definition launch_qwen_recurrent_gdn_fused ::
    "'f::linordered_field math \<Rightarrow> gdn_arrays \<Rightarrow> nat \<Rightarrow> nat \<Rightarrow> nat \<Rightarrow> nat \<Rightarrow> (nat \<times> nat) list \<Rightarrow> 'f heap \<Rightarrow> 'f heap" where
  "launch_qwen_recurrent_gdn_fused m a S kheads vheads n ts =
     (if S = 128 \<and> n = 128 then launch (qwen_recurrent_gdn_fused_fixed m a 128 S kheads vheads) ts
      else launch (qwen_recurrent_gdn_fused m a S kheads vheads n) ts)"

text \<open>The batches: the tokens in order, the state after the first two kept.\<close>

definition copy_row :: "nat \<Rightarrow> nat \<Rightarrow> nat \<Rightarrow> nat \<Rightarrow> 'f heap \<Rightarrow> 'f heap" where
  "copy_row dst matrix base n h =
     fold (\<lambda>lane h. fold (\<lambda>col h. put dst (base + col) (h matrix (base + col)) h) (strided lane 32 n) h) [0..<32] h"

definition gdn_token ::
    "'f::linordered_field math \<Rightarrow> gdn_arrays \<Rightarrow> nat \<Rightarrow> nat \<Rightarrow> nat \<Rightarrow> nat \<Rightarrow> nat \<Rightarrow> nat \<Rightarrow> nat \<Rightarrow> nat \<Rightarrow> 'f heap \<Rightarrow> 'f heap" where
  "gdn_token m a S kheads vheads n inner head row token h =
     (let base = head * n * n + row * n;
          h = gdn_row_step m a S kheads n (token * (2 * S * kheads + vheads * n)) (token * vheads + head) (token * inner + head * n + row) head row h;
          h = (if token = 0 then copy_row (gdn_first a) (gdn_matrix a) base n h else h)
      in if token = 1 then copy_row (gdn_second a) (gdn_matrix a) base n h else h)"

definition qwen_recurrent_gdn_fused_batch_generic ::
    "'f::linordered_field math \<Rightarrow> gdn_arrays \<Rightarrow> nat \<Rightarrow> nat \<Rightarrow> nat \<Rightarrow> nat \<Rightarrow> nat \<Rightarrow> nat \<Rightarrow> nat \<times> nat \<Rightarrow> 'f heap \<Rightarrow> 'f heap" where
  "qwen_recurrent_gdn_fused_batch_generic m a S kheads vheads n inner batch t h =
     (let row_index = global_index 4 t; head = row_index div n; row = row_index mod n
      in if head \<ge> vheads \<or> row \<ge> n then h else fold (gdn_token m a S kheads vheads n inner head row) [0..<batch] h)"

definition gdn_shard_token ::
    "'f::linordered_field math \<Rightarrow> gdn_arrays \<Rightarrow> nat \<Rightarrow> nat \<Rightarrow> nat \<Rightarrow> nat \<Rightarrow> nat \<Rightarrow> nat \<Rightarrow> nat \<Rightarrow> nat \<Rightarrow>
     'f heap \<times> (nat \<Rightarrow> nat \<Rightarrow> 'f) \<Rightarrow> 'f heap \<times> (nat \<Rightarrow> nat \<Rightarrow> 'f)" where
  "gdn_shard_token m a S kheads vheads n inner head column token = (\<lambda>(h, shard).
     let base = head * n * n + column * n;
         (shard, result) = gdn_shard_step m a S kheads n (token * (2 * S * kheads + vheads * n)) (token * vheads + head) head column h shard;
         h = put (gdn_out a) (token * inner + head * n + column) result h;
         h = (if token = 0 then store_shard (gdn_first a) base n shard h else h);
         h = (if token = 1 then store_shard (gdn_second a) base n shard h else h)
     in (h, shard))"

definition qwen_recurrent_gdn_fused_batch_fixed ::
    "'f::linordered_field math \<Rightarrow> gdn_arrays \<Rightarrow> nat \<Rightarrow> nat \<Rightarrow> nat \<Rightarrow> nat \<Rightarrow> nat \<Rightarrow> nat \<Rightarrow> nat \<times> nat \<Rightarrow> 'f heap \<Rightarrow> 'f heap" where
  "qwen_recurrent_gdn_fused_batch_fixed m a n S kheads vheads inner batch = (\<lambda>(head, column) h.
     if head \<ge> vheads \<or> column \<ge> n then h
     else let base = head * n * n + column * n;
              (h, shard) = fold (gdn_shard_token m a S kheads vheads n inner head column) [0..<batch] (h, load_shard (gdn_matrix a) base h)
          in store_shard (gdn_matrix a) base n shard h)"

subsection \<open>The gated norm\<close>

text \<open>One block of 128 threads to a head; a thread keeps its element in a register.\<close>

definition norm_gate_block ::
    "'f::linordered_field math \<Rightarrow> nat \<Rightarrow> nat \<Rightarrow> nat \<Rightarrow> nat \<Rightarrow> nat \<Rightarrow> nat \<Rightarrow> 'f \<Rightarrow> nat list \<Rightarrow> 'f heap \<Rightarrow> 'f heap" where
  "norm_gate_block m offset out gate norms base n epsilon tids h =
     (let v = (\<lambda>tid. if tid < n then h out (base + tid) else 0);
          inverse_norm = rsqrtf m (four_warps offset (\<lambda>tid. v tid * v tid) / of_nat n + epsilon)
      in launch (\<lambda>tid h. if tid < n
           then put out (base + tid) (v tid * inverse_norm * h norms tid * qwen_silu (expf m) (h gate (base + tid))) h else h) tids h)"

definition qwen_recurrent_gdn_norm_gate ::
    "'f::linordered_field math \<Rightarrow> nat \<Rightarrow> nat \<Rightarrow> nat \<Rightarrow> nat \<Rightarrow> nat \<Rightarrow> 'f \<Rightarrow> nat list \<Rightarrow> nat \<Rightarrow> 'f heap \<Rightarrow> 'f heap" where
  "qwen_recurrent_gdn_norm_gate m out gate norms vheads n epsilon tids head h =
     (if head \<ge> vheads then h else norm_gate_block m 16 out gate norms (head * n) n epsilon tids h)"

definition qwen_recurrent_gdn_norm_gate_batch ::
    "'f::linordered_field math \<Rightarrow> nat \<Rightarrow> nat \<Rightarrow> nat \<Rightarrow> nat \<Rightarrow> nat \<Rightarrow> nat \<Rightarrow> nat \<Rightarrow> 'f \<Rightarrow> nat list \<Rightarrow> nat \<times> nat \<Rightarrow> 'f heap \<Rightarrow> 'f heap" where
  "qwen_recurrent_gdn_norm_gate_batch m out gate norms vheads n inner batch epsilon tids = (\<lambda>(head, token) h.
     if head \<ge> vheads \<or> token \<ge> batch then h
     else norm_gate_block m 2 out gate norms (token * inner + head * n) n epsilon tids h)"

subsection \<open>What a pass does\<close>

lemma strided_lanes:
  shows "distinct (concat (map (\<lambda>lane. strided lane 32 n) [0..<32]))"
    and "set (concat (map (\<lambda>lane. strided lane 32 n) [0..<32])) = {..<n}"
proof -
  have lane: "j mod 32 = lane" if "j \<in> set (strided lane 32 n)" "lane < 32" for j lane :: nat
    using that by (simp add: set_strided)
  have "distinct (concat (map (\<lambda>lane. strided lane 32 n) ls))" if "distinct ls" "set ls \<subseteq> {..<32}" for ls
    using that
  proof (induction ls)
    case (Cons l ls)
    have "set (strided l 32 n) \<inter> set (strided k 32 n) = {}" if "k \<in> set ls" for k
      using lane [of _ l] lane [of _ k] Cons.prems that by fastforce
    then show ?case using Cons by (auto simp: distinct_strided)
  qed simp
  then show "distinct (concat (map (\<lambda>lane. strided lane 32 n) [0..<32]))" by (simp add: lessThan_atLeast0 del: upt_rec_numeral)
  show "set (concat (map (\<lambda>lane. strided lane 32 n) [0..<32])) = {..<n}"
  proof
    show "set (concat (map (\<lambda>lane. strided lane 32 n) [0..<32])) \<subseteq> {..<n}" by (auto simp: set_strided)
    show "{..<n} \<subseteq> set (concat (map (\<lambda>lane. strided lane 32 n) [0..<32]))"
    proof
      fix j assume "j \<in> {..<n}"
      then have "j \<in> set (strided (j mod 32) 32 n)" by (simp add: set_strided)
      moreover have "j mod 32 \<in> set [0..<32]" by (simp del: upt_rec_numeral)
      ultimately show "j \<in> set (concat (map (\<lambda>lane. strided lane 32 n) [0..<32]))" by auto
    qed
  qed
qed

lemma pass_cells:
  fixes h :: "'f::comm_ring_1 heap"
  assumes "qkv \<noteq> matrix" and "distinct cols"
  shows "(\<forall>p i. fst (fold (pass_cell matrix base qkv key read change lane) cols (h, dot)) p i =
      (if p = matrix \<and> base \<le> i \<and> i - base \<in> set cols then pass_entry matrix base qkv key change h (i - base) else h p i)) \<and>
    snd (fold (pass_cell matrix base qkv key read change lane) cols (h, dot)) =
      dot(lane := dot lane + (\<Sum>c\<leftarrow>cols. pass_entry matrix base qkv key change h c * h qkv (read + c)))"
  using assms(2)
proof (induction cols arbitrary: h dot)
  case (Cons c cs)
  let ?e = "pass_entry matrix base qkv key change :: 'f heap \<Rightarrow> nat \<Rightarrow> 'f"
  let ?h = "put matrix (base + c) (?e h c) h"
  have same: "?e ?h d = ?e h d" "?h qkv (read + d) = h qkv (read + d)" if "d \<in> set cs" for d
    using that Cons.prems assms(1) by (auto simp: pass_entry_def)
  have sum: "(\<Sum>d\<leftarrow>cs. ?e ?h d * ?h qkv (read + d)) = (\<Sum>d\<leftarrow>cs. ?e h d * h qkv (read + d))"
    by (rule arg_cong [of _ _ sum_list], rule map_cong [OF refl]) (simp only: same)
  let ?dot = "dot(lane := ?e h c * h qkv (read + c) + dot lane)"
  have first: "fold (pass_cell matrix base qkv key read change lane) (c # cs) (h, dot) =
      fold (pass_cell matrix base qkv key read change lane) cs (?h, ?dot)"
    by (simp add: pass_cell_def Let_def)
  have d: "distinct cs" "c \<notin> set cs" using Cons.prems by simp_all
  note IH = Cons.IH [OF d(1), of ?h ?dot, unfolded sum]
  have cell: "fst (fold (pass_cell matrix base qkv key read change lane) cs (?h, ?dot)) p i =
      (if p = matrix \<and> base \<le> i \<and> i - base \<in> set (c # cs) then ?e h (i - base) else h p i)" for p i
  proof -
    have "fst (fold (pass_cell matrix base qkv key read change lane) cs (?h, ?dot)) p i =
      (if p = matrix \<and> base \<le> i \<and> i - base \<in> set cs then ?e ?h (i - base) else ?h p i)" using IH by blast
    then show ?thesis using d(2) same(1) [of "i - base"] by auto
  qed
  have "snd (fold (pass_cell matrix base qkv key read change lane) cs (?h, ?dot)) =
      dot(lane := dot lane + (\<Sum>c\<leftarrow>c # cs. ?e h c * h qkv (read + c)))"
    unfolding conjunct2 [OF IH] by (simp add: fun_eq_iff ac_simps)
  then show ?case unfolding first using cell by blast
qed simp

lemma pass_lanes:
  fixes h :: "'f::comm_ring_1 heap"
  assumes "qkv \<noteq> matrix" and "distinct (concat (map (\<lambda>lane. strided lane 32 n) lanes))" and "distinct lanes"
  shows "(\<forall>p i. fst (fold (\<lambda>lane. fold (pass_cell matrix base qkv key read change lane) (strided lane 32 n)) lanes (h, dot)) p i =
      (if p = matrix \<and> base \<le> i \<and> i - base \<in> set (concat (map (\<lambda>lane. strided lane 32 n) lanes))
       then pass_entry matrix base qkv key change h (i - base) else h p i)) \<and>
    (\<forall>lane. snd (fold (\<lambda>lane. fold (pass_cell matrix base qkv key read change lane) (strided lane 32 n)) lanes (h, dot)) lane =
      dot lane + (if lane \<in> set lanes then \<Sum>c\<leftarrow>strided lane 32 n. pass_entry matrix base qkv key change h c * h qkv (read + c) else 0))"
  using assms(2,3)
proof (induction lanes arbitrary: h dot)
  case (Cons l ls)
  let ?e = "pass_entry matrix base qkv key change :: 'f heap \<Rightarrow> nat \<Rightarrow> 'f"
  let ?step = "\<lambda>lane. fold (pass_cell matrix base qkv key read change lane) (strided lane 32 n)"
  obtain h1 dot1 where s: "?step l (h, dot) = (h1, dot1)" by (cases "?step l (h, dot)")
  note cells = pass_cells [OF assms(1) distinct_strided [of l 32 n], of base key read change l h dot, unfolded s fst_conv snd_conv]
  have h1: "h1 p i = (if p = matrix \<and> base \<le> i \<and> i - base \<in> set (strided l 32 n) then ?e h (i - base) else h p i)"
    and dot1: "dot1 = dot(l := dot l + (\<Sum>c\<leftarrow>strided l 32 n. ?e h c * h qkv (read + c)))" for p i
    using cells by auto
  have same: "?e h1 d = ?e h d" "h1 qkv i = h qkv i" if "d \<notin> set (strided l 32 n)" for d i
    using that assms(1) by (auto simp: pass_entry_def h1)
  have apart: "d \<notin> set (strided l 32 n)" if "k \<in> set ls" "d \<in> set (strided k 32 n)" for k d
    using that Cons.prems by auto
  have d: "distinct (concat (map (\<lambda>lane. strided lane 32 n) ls))" "distinct ls" "l \<notin> set ls" using Cons.prems by auto
  have sum: "(\<Sum>c\<leftarrow>strided k 32 n. ?e h1 c * h1 qkv (read + c)) = (\<Sum>c\<leftarrow>strided k 32 n. ?e h c * h qkv (read + c))"
    if "k \<in> set ls" for k
  proof (rule arg_cong [of _ _ sum_list], rule map_cong [OF refl])
    fix c assume "c \<in> set (strided k 32 n)"
    then show "?e h1 c * h1 qkv (read + c) = ?e h c * h qkv (read + c)" by (simp only: same [OF apart [OF that]])
  qed
  have first: "fold ?step (l # ls) (h, dot) = fold ?step ls (h1, dot1)" by (simp add: s)
  note IH = Cons.IH [OF d(1,2), of h1 dot1]
  have cell: "fst (fold ?step ls (h1, dot1)) p i =
      (if p = matrix \<and> base \<le> i \<and> i - base \<in> set (concat (map (\<lambda>lane. strided lane 32 n) (l # ls))) then ?e h (i - base) else h p i)" for p i
  proof -
    have "fst (fold ?step ls (h1, dot1)) p i =
      (if p = matrix \<and> base \<le> i \<and> i - base \<in> set (concat (map (\<lambda>lane. strided lane 32 n) ls)) then ?e h1 (i - base) else h1 p i)" using IH by blast
    then show ?thesis using h1 [of p i] same(1) [of "i - base"] apart [of _ "i - base"] by auto
  qed
  have lane: "snd (fold ?step ls (h1, dot1)) k = dot k + (if k \<in> set (l # ls) then \<Sum>c\<leftarrow>strided k 32 n. ?e h c * h qkv (read + c) else 0)" for k
  proof -
    have "snd (fold ?step ls (h1, dot1)) k = dot1 k + (if k \<in> set ls then \<Sum>c\<leftarrow>strided k 32 n. ?e h1 c * h1 qkv (read + c) else 0)" using IH by blast
    then show ?thesis using d(3) sum [of k] by (simp add: dot1)
  qed
  show ?case unfolding first using cell lane by blast
qed simp

lemma gdn_pass_value:
  fixes h :: "'f::comm_ring_1 heap"
  assumes "qkv \<noteq> matrix"
  shows "fst (gdn_pass matrix base qkv key read n change h) p i =
      (if p = matrix \<and> base \<le> i \<and> i < base + n then pass_entry matrix base qkv key change h (i - base) else h p i)"
    and "warp_down (+) 32 16 (snd (gdn_pass matrix base qkv key read n change h)) 0 =
      (\<Sum>c<n. pass_entry matrix base qkv key change h c * h qkv (read + c))"
proof -
  let ?e = "pass_entry matrix base qkv key change :: 'f heap \<Rightarrow> nat \<Rightarrow> 'f"
  have l: "fst (gdn_pass matrix base qkv key read n change h) p i = (if p = matrix \<and> base \<le> i \<and> i - base \<in> {..<n} then ?e h (i - base) else h p i)"
    "snd (gdn_pass matrix base qkv key read n change h) lane = 0 + (if lane \<in> set [0..<32] then \<Sum>c\<leftarrow>strided lane 32 n. ?e h c * h qkv (read + c) else 0)" for p i lane
    unfolding gdn_pass_def strided_lanes(2) [symmetric]
    using pass_lanes [OF assms strided_lanes(1) distinct_upt, where change = change and h = h and base = base and key = key and read = read and dot = "\<lambda>_. 0"] by blast+
  have "i - base < n \<longleftrightarrow> i < base + n" if "base \<le> i" using that by auto
  then show "fst (gdn_pass matrix base qkv key read n change h) p i =
      (if p = matrix \<and> base \<le> i \<and> i < base + n then pass_entry matrix base qkv key change h (i - base) else h p i)"
    unfolding l(1) by auto
  have "warp_down (+) 32 16 (snd (gdn_pass matrix base qkv key read n change h)) 0 =
      (\<Sum>l<32. \<Sum>c\<leftarrow>strided l 32 n. pass_entry matrix base qkv key change h c * h qkv (read + c))"
    unfolding warp_sums l(2) by (rule sum.cong) (simp_all del: upt_rec_numeral)
  then show "warp_down (+) 32 16 (snd (gdn_pass matrix base qkv key read n change h)) 0 =
      (\<Sum>c<n. pass_entry matrix base qkv key change h c * h qkv (read + c))"
    by (simp add: sum_strided)
qed

subsection \<open>What a token does to a row\<close>

definition gdn_apart :: "gdn_arrays \<Rightarrow> bool" where
  "gdn_apart a \<longleftrightarrow> distinct [gdn_matrix a, gdn_first a, gdn_second a, gdn_out a] \<and>
     {gdn_matrix a, gdn_first a, gdn_second a, gdn_out a} \<inter> {gdn_qkv a, gdn_alpha a, gdn_beta a, gdn_a a, gdn_dt a} = {}"

text \<open>The new entry \<open>c\<close> of a row with the entries \<open>old\<close>, and the output.\<close>

definition moved_entry :: "(nat \<Rightarrow> 'f::comm_ring_1) \<Rightarrow> (nat \<Rightarrow> 'f) \<Rightarrow> 'f \<Rightarrow> 'f \<Rightarrow> 'f \<Rightarrow> nat \<Rightarrow> nat \<Rightarrow> 'f" where
  "moved_entry old key v decay beta n c = old c * decay + (v - (\<Sum>i<n. old i * decay * key i)) * beta * key c"

definition gdn_moved :: "'f::linordered_field math \<Rightarrow> gdn_arrays \<Rightarrow> nat \<Rightarrow> nat \<Rightarrow> nat \<Rightarrow> nat \<Rightarrow> nat \<Rightarrow> nat \<Rightarrow> nat \<Rightarrow> 'f heap \<Rightarrow> (nat \<Rightarrow> 'f) \<Rightarrow> nat \<Rightarrow> 'f" where
  "gdn_moved m a S kheads n start place head row h old =
     moved_entry old (\<lambda>c. h (gdn_qkv a) (start + S * kheads + head mod kheads * S + c)) (h (gdn_qkv a) (start + 2 * S * kheads + head * n + row))
       (gdn_decay m a place head h) (qwen_sigmoid m (h (gdn_beta a) place)) n"

definition gdn_result :: "'f::linordered_field math \<Rightarrow> gdn_arrays \<Rightarrow> nat \<Rightarrow> nat \<Rightarrow> nat \<Rightarrow> nat \<Rightarrow> nat \<Rightarrow> nat \<Rightarrow> nat \<Rightarrow> 'f heap \<Rightarrow> (nat \<Rightarrow> 'f) \<Rightarrow> 'f" where
  "gdn_result m a S kheads n start place head row h old =
     (\<Sum>c<n. gdn_moved m a S kheads n start place head row h old c * h (gdn_qkv a) (start + head mod kheads * S + c)) * rsqrtf m (of_nat n)"

lemma gdn_row_step_value:
  fixes h :: "'f::linordered_field heap" and head row n :: nat
  assumes "gdn_apart a"
  defines "base \<equiv> head * n * n + row * n"
  defines "old \<equiv> \<lambda>c. h (gdn_matrix a) (base + c)"
  shows "gdn_row_step m a S kheads n start place out_place head row h p i =
    (if p = gdn_out a \<and> i = out_place then gdn_result m a S kheads n start place head row h old
     else if p = gdn_matrix a \<and> base \<le> i \<and> i < base + n then gdn_moved m a S kheads n start place head row h old (i - base)
     else h p i)"
proof -
  let ?M = "gdn_matrix a" and ?Q = "gdn_qkv a"
  let ?k = "start + S * kheads + head mod kheads * S" and ?q = "start + head mod kheads * S"
  let ?decay = "gdn_decay m a place head h" and ?beta = "qwen_sigmoid m (h (gdn_beta a) place)"
  let ?v = "h ?Q (start + 2 * S * kheads + head * n + row)"
  have QM: "?Q \<noteq> ?M" and OM: "gdn_out a \<noteq> ?M" using assms(1) by (auto simp: gdn_apart_def)
  obtain h1 dot1 where 1: "gdn_pass ?M base ?Q ?k ?k n (\<lambda>s k. s * ?decay) h = (h1, dot1)" by (cases "gdn_pass ?M base ?Q ?k ?k n (\<lambda>s k. s * ?decay) h")
  note v1 = gdn_pass_value [OF QM, of base ?k ?k n "\<lambda>s k. s * ?decay" h, unfolded 1 fst_conv snd_conv]
  have Q1: "h1 ?Q j = h ?Q j" for j using QM by (simp add: v1(1))
  define delta where "delta = (h1 ?Q (start + 2 * S * kheads + head * n + row) - warp_down (+) 32 16 dot1 0) * ?beta"
  have delta: "delta = (?v - (\<Sum>i<n. old i * ?decay * h ?Q (?k + i))) * ?beta"
    by (simp only: delta_def Q1 v1(2)) (simp add: pass_entry_def old_def)
  obtain h2 dot2 where 2: "gdn_pass ?M base ?Q ?k ?q n (\<lambda>s k. s + delta * k) h1 = (h2, dot2)" by (cases "gdn_pass ?M base ?Q ?k ?q n (\<lambda>s k. s + delta * k) h1")
  note v2 = gdn_pass_value [OF QM, of base ?k ?q n "\<lambda>s k. s + delta * k" h1, unfolded 2 fst_conv snd_conv]
  have e: "pass_entry ?M base ?Q ?k (\<lambda>s k. s + delta * k) h1 c = gdn_moved m a S kheads n start place head row h old c" if "c < n" for c
    using that QM v1(1) [of ?M "base + c"]
    by (simp add: pass_entry_def Q1 gdn_moved_def moved_entry_def delta [unfolded old_def] old_def)
  have out: "warp_down (+) 32 16 dot2 0 * rsqrtf m (of_nat n) = gdn_result m a S kheads n start place head row h old"
    unfolding v2(2) gdn_result_def by (rule arg_cong [of _ _ "\<lambda>x. x * rsqrtf m (of_nat n)"], rule sum.cong [OF refl]) (use e Q1 in simp)
  have "gdn_row_step m a S kheads n start place out_place head row h =
      put (gdn_out a) out_place (gdn_result m a S kheads n start place head row h old) h2"
    unfolding gdn_row_step_def Let_def base_def [symmetric] 1 prod.case delta_def [symmetric] 2 out ..
  moreover have "h2 p i = (if p = ?M \<and> base \<le> i \<and> i < base + n then gdn_moved m a S kheads n start place head row h old (i - base) else h p i)"
    unfolding v2(1) using e [of "i - base"] v1(1) [of p i] by auto
  ultimately show ?thesis using OM by auto
qed

subsection \<open>The state in registers\<close>

lemma store_shard_value:
  assumes "32 dvd n"
  shows "store_shard matrix base n shard h p i =
    (if p = matrix \<and> base \<le> i \<and> i < base + n then shard ((i - base) div 32) ((i - base) mod 32) else h p i)"
proof -
  obtain k where n: "n = 32 * k" using assms by blast
  have inner: "fold (\<lambda>row h. put matrix (base + (row * 32 + lane)) (shard row lane) h) [0..<r] h p i =
      (if p = matrix \<and> base \<le> i \<and> (i - base) mod 32 = lane \<and> (i - base) div 32 < r then shard ((i - base) div 32) lane else h p i)"
    if "lane < 32" for r lane h
  proof (induction r)
    case (Suc r)
    have "i = base + (r * 32 + lane) \<longleftrightarrow> base \<le> i \<and> (i - base) mod 32 = lane \<and> (i - base) div 32 = r"
    proof
      assume "base \<le> i \<and> (i - base) mod 32 = lane \<and> (i - base) div 32 = r"
      moreover have "(i - base) div 32 * 32 + (i - base) mod 32 = i - base" by simp
      ultimately show "i = base + (r * 32 + lane)" by simp
    qed (use that in simp)
    then show ?case using Suc by (auto simp: less_Suc_eq)
  qed simp
  have "fold (\<lambda>lane h. fold (\<lambda>row h. put matrix (base + (row * 32 + lane)) (shard row lane) h) [0..<k] h) [0..<l] h p i =
      (if p = matrix \<and> base \<le> i \<and> (i - base) mod 32 < l \<and> (i - base) div 32 < k then shard ((i - base) div 32) ((i - base) mod 32) else h p i)"
    if "l \<le> 32" for l
    using that
  proof (induction l)
    case (Suc l)
    then show ?case by (auto simp: inner less_Suc_eq simp del: put_at)
  qed simp
  from this [of 32] have "store_shard matrix base n shard h p i =
      (if p = matrix \<and> base \<le> i \<and> (i - base) div 32 < k then shard ((i - base) div 32) ((i - base) mod 32) else h p i)"
    by (simp add: store_shard_def n del: upt_rec_numeral)
  moreover have "(i - base) div 32 < k \<longleftrightarrow> i < base + n" if "base \<le> i"
    using that unfolding n by (simp add: div_less_iff_less_mult) auto
  ultimately show ?thesis by auto
qed

lemma shard_dot_value:
  assumes "32 dvd n"
  shows "shard_dot qkv read n shard h = (\<Sum>c<n. shard (c div 32) (c mod 32) * h qkv (read + c))"
proof -
  obtain k where n: "n = k * 32" using assms by (metis dvd_def mult.commute)
  let ?f = "\<lambda>c. shard (c div 32) (c mod 32) * h qkv (read + c)"
  have "fold (\<lambda>row dot. shard row lane * h qkv (read + (row * 32 + lane)) + dot) [0..<k] 0 = (\<Sum>row<k. ?f (row * 32 + lane))" if "lane < 32" for lane
    by (induction k) (simp_all add: that add.commute)
  then have "shard_dot qkv read n shard h = (\<Sum>lane<32. \<Sum>row<k. ?f (row * 32 + lane))"
    unfolding shard_dot_def warp_sums by (intro sum.cong) (simp_all add: n)
  also have "\<dots> = (\<Sum>row<k. \<Sum>lane<32. ?f (row * 32 + lane))" by (rule sum.swap)
  also have "\<dots> = (\<Sum>c<n. ?f c)" unfolding n by (rule sum_groups [symmetric])
  finally show ?thesis .
qed

lemma gdn_shard_step_value:
  assumes "32 dvd n" and "gdn_shard_step m a S kheads n start place head column h shard = (shard', result)"
  defines "old \<equiv> \<lambda>c. shard (c div 32) (c mod 32)"
  shows "l < 32 \<Longrightarrow> shard' r l = gdn_moved m a S kheads n start place head column h old (r * 32 + l)"
    and "result = gdn_result m a S kheads n start place head column h old"
proof -
  have s: "shard' = (\<lambda>r l. (h (gdn_qkv a) (start + 2 * S * kheads + head * n + column) -
        (\<Sum>i<n. old i * gdn_decay m a place head h * h (gdn_qkv a) (start + S * kheads + head mod kheads * S + i))) *
        qwen_sigmoid m (h (gdn_beta a) place) * h (gdn_qkv a) (start + S * kheads + head mod kheads * S + (r * 32 + l)) +
        shard r l * gdn_decay m a place head h)"
    and r: "result = shard_dot (gdn_qkv a) (start + head mod kheads * S) n shard' h * rsqrtf m (of_nat n)"
    using assms(2) by (auto simp: gdn_shard_step_def Let_def shard_dot_value [OF assms(1)] old_def)
  show e: "shard' r l = gdn_moved m a S kheads n start place head column h old (r * 32 + l)" if "l < 32" for r l
    using that unfolding s by (simp add: gdn_moved_def moved_entry_def old_def)
  have "shard' (c div 32) (c mod 32) = gdn_moved m a S kheads n start place head column h old c" for c
    using e [of "c mod 32" "c div 32"] by simp
  then show "result = gdn_result m a S kheads n start place head column h old"
    unfolding r shard_dot_value [OF assms(1)] gdn_result_def by simp
qed

lemma fixed_row_step:
  fixes h :: "'f::linordered_field heap"
  assumes "gdn_apart a" and "32 dvd n" and "head < vheads" and "column < n"
  shows "qwen_recurrent_gdn_fused_fixed m a n S kheads vheads (head, column) h =
    gdn_row_step m a S kheads n 0 head (head * n + column) head column h"
proof (intro ext)
  fix p i
  let ?base = "head * n * n + column * n"
  let ?shard = "load_shard (gdn_matrix a) ?base h"
  obtain shard' result where st: "gdn_shard_step m a S kheads n 0 head head column h ?shard = (shard', result)"
    by (cases "gdn_shard_step m a S kheads n 0 head head column h ?shard")
  note v = gdn_shard_step_value [OF assms(2) st]
  have old: "(\<lambda>c. ?shard (c div 32) (c mod 32)) = (\<lambda>c. h (gdn_matrix a) (?base + c))" by (simp add: load_shard_def)
  have OM: "gdn_out a \<noteq> gdn_matrix a" using assms(1) by (auto simp: gdn_apart_def)
  have "shard' ((i - ?base) div 32) ((i - ?base) mod 32) =
      gdn_moved m a S kheads n 0 head head column h (\<lambda>c. h (gdn_matrix a) (?base + c)) (i - ?base)"
    using v(1) [of "(i - ?base) mod 32" "(i - ?base) div 32"] unfolding old by simp
  then show "qwen_recurrent_gdn_fused_fixed m a n S kheads vheads (head, column) h p i =
      gdn_row_step m a S kheads n 0 head (head * n + column) head column h p i"
    unfolding gdn_row_step_value [OF assms(1)] using assms(3,4) OM v(2)
    by (auto simp: qwen_recurrent_gdn_fused_fixed_def Let_def st store_shard_value [OF assms(2)] old)
qed

subsection \<open>The kernels over the grid\<close>

definition row_step :: "'f::linordered_field math \<Rightarrow> gdn_arrays \<Rightarrow> nat \<Rightarrow> nat \<Rightarrow> nat \<Rightarrow> nat \<Rightarrow> nat \<Rightarrow> nat \<Rightarrow> nat \<Rightarrow> 'f heap \<Rightarrow> 'f heap" where
  "row_step m a S kheads n start place out_place w = gdn_row_step m a S kheads n start (place + w div n) (out_place + w) (w div n) (w mod n)"

definition row_cells :: "gdn_arrays \<Rightarrow> nat \<Rightarrow> nat \<Rightarrow> nat \<Rightarrow> (nat \<times> nat) set" where
  "row_cells a n out_place w = {(gdn_matrix a, w * n + c) | c. c < n} \<union> {(gdn_out a, out_place + w)}"

definition row_reads :: "gdn_arrays \<Rightarrow> nat \<Rightarrow> nat \<Rightarrow> (nat \<times> nat) set" where
  "row_reads a n w = {(gdn_matrix a, w * n + c) | c. c < n} \<union> {gdn_qkv a, gdn_alpha a, gdn_beta a, gdn_a a, gdn_dt a} \<times> UNIV"

lemma row_base: "w div n * n * n + w mod n * n = w * (n :: nat)"
  by (metis add_mult_distrib div_mult_mod_eq)

lemma row_step_value:
  fixes h :: "'f::linordered_field heap"
  assumes "gdn_apart a"
  shows "row_step m a S kheads n start place out_place w h p i =
    (if p = gdn_out a \<and> i = out_place + w
     then gdn_result m a S kheads n start (place + w div n) (w div n) (w mod n) h (\<lambda>c. h (gdn_matrix a) (w * n + c))
     else if p = gdn_matrix a \<and> w * n \<le> i \<and> i < w * n + n
     then gdn_moved m a S kheads n start (place + w div n) (w div n) (w mod n) h (\<lambda>c. h (gdn_matrix a) (w * n + c)) (i - w * n)
     else h p i)"
  unfolding row_step_def gdn_row_step_value [OF assms] row_base ..

lemma moved_cong:
  assumes "\<And>p i. p \<in> {gdn_qkv a, gdn_alpha a, gdn_beta a, gdn_a a, gdn_dt a} \<Longrightarrow> h p i = h' p i" and "\<And>c. c < n \<Longrightarrow> old c = old' c"
  shows "c < n \<Longrightarrow> gdn_moved m a S kheads n start place head row h old c = gdn_moved m a S kheads n start place head row h' old' c"
    and "gdn_result m a S kheads n start place head row h old = gdn_result m a S kheads n start place head row h' old'"
proof -
  have d: "gdn_decay m a place head h = gdn_decay m a place head h'" using assms(1) by (simp add: gdn_decay_def)
  show e: "gdn_moved m a S kheads n start place head row h old c = gdn_moved m a S kheads n start place head row h' old' c" if "c < n" for c
    using that assms by (simp add: gdn_moved_def moved_entry_def d)
  show "gdn_result m a S kheads n start place head row h old = gdn_result m a S kheads n start place head row h' old'"
    unfolding gdn_result_def using e assms(1) by simp
qed

lemma row_step_stepwise:
  fixes m :: "'f::linordered_field math"
  assumes "gdn_apart a"
  shows "stepwise (vheads * n) (row_cells a n out_place) (row_reads a n) (row_step m a S kheads n start place out_place)"
  unfolding stepwise_def
proof (intro allI impI conjI)
  fix w and h :: "'f heap" and q j assume "(q, j) \<notin> row_cells a n out_place w"
  then show "row_step m a S kheads n start place out_place w h q j = h q j"
    unfolding row_step_value [OF assms] row_cells_def by (auto dest: le_Suc_ex)
next
  fix w and h h' :: "'f heap" and q j
  assume w: "(q, j) \<in> row_cells a n out_place w" and r: "\<forall>(p, k)\<in>row_reads a n w. h p k = h' p k"
  have read: "h p i = h' p i" if "p \<in> {gdn_qkv a, gdn_alpha a, gdn_beta a, gdn_a a, gdn_dt a}" for p i
    using r that unfolding row_reads_def by blast
  have old: "h (gdn_matrix a) (w * n + c) = h' (gdn_matrix a) (w * n + c)" if "c < n" for c
    using r that unfolding row_reads_def by blast
  note c = moved_cong [of a h h' n "\<lambda>c. h (gdn_matrix a) (w * n + c)" "\<lambda>c. h' (gdn_matrix a) (w * n + c)", OF read old]
  show "row_step m a S kheads n start place out_place w h q j = row_step m a S kheads n start place out_place w h' q j"
    using w unfolding row_step_value [OF assms] row_cells_def using c by auto
next
  fix w v :: nat assume "w \<noteq> v"
  have "w * n + b \<noteq> v * n + c" if "b < n" "c < n" for b c
  proof
    assume "w * n + b = v * n + c"
    then have "(w * n + b) div n = (v * n + c) div n" by simp
    then show False using that \<open>w \<noteq> v\<close> by simp
  qed
  then show "row_cells a n out_place w \<inter> (row_cells a n out_place v \<union> row_reads a n v) = {}"
    using assms \<open>w \<noteq> v\<close> by (auto simp: row_cells_def row_reads_def gdn_apart_def)
qed

definition gdn_grid :: "nat \<Rightarrow> nat \<Rightarrow> nat \<Rightarrow> (nat \<times> nat) list \<Rightarrow> bool" where
  "gdn_grid S vheads n ts \<longleftrightarrow> (if S = 128 \<and> n = 128 then in_order vheads 128 ts else in_order ((vheads * n + 3) div 4) 4 ts)"

text \<open>A kernel whose warps do a step for each row, in either shape of the grid.\<close>

lemma warps_generic:
  assumes "in_order ((vheads * n + 3) div 4) 4 ts" and "0 < n" and s: "stepwise (vheads * n) writes reads step"
    and "\<And>t h. body t h = (if global_index 4 t div n \<ge> vheads \<or> global_index 4 t mod n \<ge> n then h else step (global_index 4 t) h)"
  shows "w < vheads * n \<Longrightarrow> (q, j) \<in> writes w \<Longrightarrow> launch body ts h q j = step w h q j"
    and "(\<And>w. w < vheads * n \<Longrightarrow> (q, j) \<notin> writes w) \<Longrightarrow> launch body ts h q j = h q j"
proof -
  have n: "vheads * n \<le> (vheads * n + 3) div 4 * 4" by simp
  have b: "body t h = (if global_index 4 t < vheads * n then step (global_index 4 t) h else h)" for t h
    unfolding assms(4) using assms(2) div_less_iff_less_mult [OF assms(2), of "global_index 4 t" vheads] mod_less_divisor [OF assms(2), of "global_index 4 t"]
    by (auto simp: not_le not_less)
  show "w < vheads * n \<Longrightarrow> (q, j) \<in> writes w \<Longrightarrow> launch body ts h q j = step w h q j"
    and "(\<And>w. w < vheads * n \<Longrightarrow> (q, j) \<notin> writes w) \<Longrightarrow> launch body ts h q j = h q j"
    using launch_indexed [OF assms(1) n s b] by blast+
qed

lemma warps_fixed:
  assumes "in_order vheads n ts" and s: "stepwise (vheads * n) writes reads step"
    and "\<And>head column h. head < vheads \<Longrightarrow> column < n \<Longrightarrow> body (head, column) h = step (head * n + column) h"
  shows "w < vheads * n \<Longrightarrow> (q, j) \<in> writes w \<Longrightarrow> launch body ts h q j = step w h q j"
    and "(\<And>w. w < vheads * n \<Longrightarrow> (q, j) \<notin> writes w) \<Longrightarrow> launch body ts h q j = h q j"
proof -
  let ?body = "\<lambda>t h. if global_index n t < vheads * n then step (global_index n t) h else h"
  have "launch body ts h = launch ?body ts h" for h
  proof (rule launch_cong)
    fix t assume "t \<in> set ts"
    then obtain head column where t: "t = (head, column)" "head < vheads" "column < n" using in_order_set [OF assms(1)] by auto
    have "Suc head * n \<le> vheads * n" using t(2) by (intro mult_le_mono1) simp
    then show "body t = ?body t" using t assms(3) by (intro ext) simp
  qed
  then show "w < vheads * n \<Longrightarrow> (q, j) \<in> writes w \<Longrightarrow> launch body ts h q j = step w h q j"
    and "(\<And>w. w < vheads * n \<Longrightarrow> (q, j) \<notin> writes w) \<Longrightarrow> launch body ts h q j = h q j"
    using launch_indexed [OF assms(1) order.refl s, of ?body] by simp_all
qed

lemma gdn_launch:
  fixes h :: "'f::linordered_field heap"
  assumes "gdn_apart a" and "gdn_grid S vheads n ts" and "0 < n"
  shows "w < vheads * n \<Longrightarrow> (q, j) \<in> row_cells a n 0 w \<Longrightarrow>
      launch_qwen_recurrent_gdn_fused m a S kheads vheads n ts h q j = row_step m a S kheads n 0 0 0 w h q j"
    and "(\<And>w. w < vheads * n \<Longrightarrow> (q, j) \<notin> row_cells a n 0 w) \<Longrightarrow> launch_qwen_recurrent_gdn_fused m a S kheads vheads n ts h q j = h q j"
proof -
  note s = row_step_stepwise [OF assms(1), of vheads n 0 m S kheads 0 0]
  note s' = row_step_stepwise [OF assms(1), of vheads 128 0 m S kheads 0 0]
  have g: "qwen_recurrent_gdn_fused m a S kheads vheads n t h =
      (if global_index 4 t div n \<ge> vheads \<or> global_index 4 t mod n \<ge> n then h else row_step m a S kheads n 0 0 0 (global_index 4 t) h)" for t h
    by (simp add: qwen_recurrent_gdn_fused_def Let_def row_step_def)
  have f: "qwen_recurrent_gdn_fused_fixed m a 128 S kheads vheads (head, column) h = row_step m a S kheads 128 0 0 0 (head * 128 + column) h"
    if "head < vheads" "column < 128" for head column h
    using fixed_row_step [OF assms(1) _ that, of m S kheads h] that by (simp add: row_step_def)
  show "launch_qwen_recurrent_gdn_fused m a S kheads vheads n ts h q j = row_step m a S kheads n 0 0 0 w h q j"
    if "w < vheads * n" "(q, j) \<in> row_cells a n 0 w"
  proof (cases "S = 128 \<and> n = 128")
    case True
    then show ?thesis using warps_fixed(1) [OF _ s' f] that assms(2) by (simp add: launch_qwen_recurrent_gdn_fused_def gdn_grid_def)
  next
    case False
    then show ?thesis using warps_generic(1) [OF _ assms(3) s g that] assms(2)
      by (auto simp: launch_qwen_recurrent_gdn_fused_def gdn_grid_def)
  qed
  show "launch_qwen_recurrent_gdn_fused m a S kheads vheads n ts h q j = h q j" if "\<And>w. w < vheads * n \<Longrightarrow> (q, j) \<notin> row_cells a n 0 w"
  proof (cases "S = 128 \<and> n = 128")
    case True
    then show ?thesis using warps_fixed(2) [OF _ s' f] that assms(2) by (simp add: launch_qwen_recurrent_gdn_fused_def gdn_grid_def)
  next
    case False
    then show ?thesis using warps_generic(2) [OF _ assms(3) s g that] assms(2)
      by (auto simp: launch_qwen_recurrent_gdn_fused_def gdn_grid_def)
  qed
qed

subsection \<open>The batch, row by row\<close>

definition keep_row :: "gdn_arrays \<Rightarrow> nat \<Rightarrow> nat \<Rightarrow> nat \<Rightarrow> 'f heap \<Rightarrow> 'f heap" where
  "keep_row a n token w h = (\<lambda>p i.
     if p = gdn_first a \<and> token = 0 \<and> w * n \<le> i \<and> i < w * n + n then h (gdn_matrix a) i
     else if p = gdn_second a \<and> token = 1 \<and> w * n \<le> i \<and> i < w * n + n then h (gdn_matrix a) i else h p i)"

definition token_step ::
    "'f::linordered_field math \<Rightarrow> gdn_arrays \<Rightarrow> nat \<Rightarrow> nat \<Rightarrow> nat \<Rightarrow> nat \<Rightarrow> nat \<Rightarrow> nat \<Rightarrow> nat \<Rightarrow> 'f heap \<Rightarrow> 'f heap" where
  "token_step m a S kheads vheads n inner w token h =
     keep_row a n token w (row_step m a S kheads n (token * (2 * S * kheads + vheads * n)) (token * vheads) (token * inner) w h)"

lemma copy_cells:
  assumes "dst \<noteq> matrix"
  shows "fold (\<lambda>col h. put dst (base + col) (h matrix (base + col)) h) cols h p i =
    (if p = dst \<and> base \<le> i \<and> i - base \<in> set cols then h matrix i else h p i)"
  by (induction cols arbitrary: h) (use assms in auto)

lemma copy_row_value:
  assumes "dst \<noteq> matrix"
  shows "copy_row dst matrix base n h p i = (if p = dst \<and> base \<le> i \<and> i < base + n then h matrix i else h p i)"
proof -
  have "copy_row dst matrix base n h = fold (\<lambda>col h. put dst (base + col) (h matrix (base + col)) h) (concat (map (\<lambda>lane. strided lane 32 n) [0..<32])) h"
  proof -
    have "fold (\<lambda>lane h. fold (\<lambda>col h. put dst (base + col) (h matrix (base + col)) h) (strided lane 32 n) h) ls h =
        fold (\<lambda>col h. put dst (base + col) (h matrix (base + col)) h) (concat (map (\<lambda>lane. strided lane 32 n) ls)) h" for ls
      by (induction ls arbitrary: h) simp_all
    then show ?thesis unfolding copy_row_def .
  qed
  then show ?thesis unfolding copy_cells [OF assms] strided_lanes(2) by auto
qed

lemma gdn_token_step:
  fixes h :: "'f::linordered_field heap"
  assumes "gdn_apart a"
  shows "gdn_token m a S kheads vheads n inner (w div n) (w mod n) token h = token_step m a S kheads vheads n inner w token h"
proof (intro ext)
  fix p i
  have apart: "gdn_first a \<noteq> gdn_matrix a" "gdn_second a \<noteq> gdn_matrix a" "gdn_first a \<noteq> gdn_second a"
    using assms by (auto simp: gdn_apart_def)
  have w: "token * inner + w div n * n + w mod n = token * inner + w" by simp
  show "gdn_token m a S kheads vheads n inner (w div n) (w mod n) token h p i = token_step m a S kheads vheads n inner w token h p i"
    using apart by (auto simp: gdn_token_def Let_def token_step_def keep_row_def row_step_def row_base w
      copy_row_value [OF apart(1)] copy_row_value [OF apart(2)] simp del: div_mult_mod_eq)
qed

lemma token_step_value:
  fixes h :: "'f::linordered_field heap" and w vheads token n kheads S :: nat and m :: "'f math"
  assumes "gdn_apart a"
  defines "row \<equiv> gdn_moved m a S kheads n (token * (2 * S * kheads + vheads * n)) (token * vheads + w div n) (w div n) (w mod n) h
    (\<lambda>c. h (gdn_matrix a) (w * n + c))"
  shows "token_step m a S kheads vheads n inner w token h p i =
    (if w * n \<le> i \<and> i < w * n + n \<and> (p = gdn_matrix a \<or> p = gdn_first a \<and> token = 0 \<or> p = gdn_second a \<and> token = 1) then row (i - w * n)
     else if p = gdn_out a \<and> i = token * inner + w
     then gdn_result m a S kheads n (token * (2 * S * kheads + vheads * n)) (token * vheads + w div n) (w div n) (w mod n) h
       (\<lambda>c. h (gdn_matrix a) (w * n + c))
     else h p i)"
proof -
  let ?step = "row_step m a S kheads n (token * (2 * S * kheads + vheads * n)) (token * vheads) (token * inner) w h"
  let ?in = "w * n \<le> i \<and> i < w * n + n"
  have apart: "gdn_out a \<notin> {gdn_matrix a, gdn_first a, gdn_second a}" using assms(1) by (auto simp: gdn_apart_def)
  note v = row_step_value [OF assms(1), of m S kheads n "token * (2 * S * kheads + vheads * n)" "token * vheads" "token * inner" w h, folded row_def]
  have M: "?step (gdn_matrix a) i = row (i - w * n)" if ?in using that apart by (simp add: v)
  show ?thesis
  proof (cases "?in \<and> (p = gdn_matrix a \<or> p = gdn_first a \<and> token = 0 \<or> p = gdn_second a \<and> token = 1)")
    case True
    then have "?in" by blast
    then have "token_step m a S kheads vheads n inner w token h p i = row (i - w * n)"
      using True M by (auto simp: token_step_def keep_row_def)
    then show ?thesis using True by (simp only: conj_assoc if_True simp_thms)
  next
    case False
    then have "token_step m a S kheads vheads n inner w token h p i = ?step p i"
      by (auto simp: token_step_def keep_row_def)
    moreover have "\<not> (p = gdn_matrix a \<and> ?in)" using False by blast
    ultimately show ?thesis using False v [of p i] by (simp only: conj_assoc if_False simp_thms)
  qed
qed

text \<open>The kernel with the state in registers does the same.\<close>

lemma if_either: "(if t1 \<and> p1 \<and> b then x else if t0 \<and> p0 \<and> b then x else y) = (if b \<and> (p0 \<and> t0 \<or> p1 \<and> t1) then x else y)"
  by auto

lemma fixed_token_step:
  fixes h :: "'f::linordered_field heap"
  assumes "gdn_apart a" and "32 dvd n" and "w mod n = column" and "w div n = head"
    and "gdn_shard_token m a S kheads vheads n inner head column token (h, shard) = (h', shard')"
  shows "token_step m a S kheads vheads n inner w token (store_shard (gdn_matrix a) (w * n) n shard h) =
    store_shard (gdn_matrix a) (w * n) n shard' h'"
proof (intro ext)
  fix p i
  let ?M = "gdn_matrix a" and ?start = "token * (2 * S * kheads + vheads * n)" and ?place = "token * vheads + head"
  let ?h = "store_shard ?M (w * n) n shard h"
  have base: "head * n * n + column * n = w * n" using row_base [of w n] assms(3,4) by simp
  have out: "token * inner + head * n + column = token * inner + w" using assms(3,4) by (metis add.assoc div_mult_mod_eq)
  have apart: "gdn_first a \<noteq> ?M" "gdn_second a \<noteq> ?M" "gdn_out a \<noteq> ?M" "gdn_first a \<noteq> gdn_second a" "gdn_out a \<noteq> gdn_first a" "gdn_out a \<noteq> gdn_second a"
    "?M \<notin> {gdn_qkv a, gdn_alpha a, gdn_beta a, gdn_a a, gdn_dt a}"
    using assms(1) by (auto simp: gdn_apart_def)
  obtain result where st: "gdn_shard_step m a S kheads n ?start ?place head column h shard = (shard', result)"
    using assms(5) by (auto simp: gdn_shard_token_def split_beta Let_def prod_eq_iff)
  let ?old = "\<lambda>c. shard (c div 32) (c mod 32)"
  note v = gdn_shard_step_value [OF assms(2) st]
  have old: "?h ?M (w * n + c) = ?old c" if "c < n" for c using that by (simp add: store_shard_value [OF assms(2)])
  have read: "?h p i = h p i" if "p \<in> {gdn_qkv a, gdn_alpha a, gdn_beta a, gdn_a a, gdn_dt a}" for p i
    using that apart(7) by (auto simp: store_shard_value [OF assms(2)])
  note c = moved_cong [of a ?h h n "\<lambda>c. ?h ?M (w * n + c)" ?old, OF read old]
  have row: "gdn_moved m a S kheads n ?start ?place head column ?h (\<lambda>c. ?h ?M (w * n + c)) (i - w * n) = shard' ((i - w * n) div 32) ((i - w * n) mod 32)"
    if "w * n \<le> i" "i < w * n + n"
  proof -
    have "i - w * n < n" using that by auto
    then show ?thesis using c(1) v(1) [of "(i - w * n) mod 32" "(i - w * n) div 32"] by simp
  qed
  have res: "gdn_result m a S kheads n ?start ?place head column ?h (\<lambda>c. ?h ?M (w * n + c)) = result" using c(2) v(2) by simp
  have h': "h' = (let h = put (gdn_out a) (token * inner + w) result h; h = (if token = 0 then store_shard (gdn_first a) (w * n) n shard' h else h)
      in if token = 1 then store_shard (gdn_second a) (w * n) n shard' h else h)"
    using assms(5) by (simp add: gdn_shard_token_def st Let_def base out [unfolded add.assoc] add.assoc)
  let ?in = "w * n \<le> i \<and> i < w * n + n"
  have h'v: "h' p i = (if ?in \<and> (p = gdn_first a \<and> token = 0 \<or> p = gdn_second a \<and> token = 1)
      then shard' ((i - w * n) div 32) ((i - w * n) mod 32) else if p = gdn_out a \<and> i = token * inner + w then result else h p i)"
  proof -
    have "h' p i = (if token = 1 \<and> p = gdn_second a \<and> ?in then shard' ((i - w * n) div 32) ((i - w * n) mod 32)
        else if token = 0 \<and> p = gdn_first a \<and> ?in then shard' ((i - w * n) div 32) ((i - w * n) mod 32)
        else put (gdn_out a) (token * inner + w) result h p i)"
      unfolding h' Let_def by (cases "token = 0"; cases "token = 1") (simp_all add: store_shard_value [OF assms(2)] del: put_at)
    then show ?thesis unfolding put_at if_either .
  qed
  note v = token_step_value [OF assms(1), of m S kheads vheads n inner w token ?h p i, unfolded assms(3,4) res]
  show "token_step m a S kheads vheads n inner w token ?h p i = store_shard ?M (w * n) n shard' h' p i"
  proof (cases "?in \<and> (p = ?M \<or> p = gdn_first a \<and> token = 0 \<or> p = gdn_second a \<and> token = 1)")
    case True
    then have "?in" by blast
    have "token_step m a S kheads vheads n inner w token ?h p i = shard' ((i - w * n) div 32) ((i - w * n) mod 32)"
      unfolding v row [OF conjunct1 [OF \<open>?in\<close>] conjunct2 [OF \<open>?in\<close>], symmetric] using True by (simp only: conj_assoc if_True simp_thms)
    moreover have "store_shard ?M (w * n) n shard' h' p i = shard' ((i - w * n) div 32) ((i - w * n) mod 32)"
      unfolding store_shard_value [OF assms(2)] h'v using True by (simp only: if_True if_cancel simp_thms split: if_split) blast
    ultimately show ?thesis by simp
  next
    case False
    then have "token_step m a S kheads vheads n inner w token ?h p i = (if p = gdn_out a \<and> i = token * inner + w then result else ?h p i)"
      unfolding v by (simp only: conj_assoc if_False simp_thms)
    moreover have "store_shard ?M (w * n) n shard' h' p i = (if p = gdn_out a \<and> i = token * inner + w then result else h p i)"
      unfolding store_shard_value [OF assms(2)] h'v using False by (simp only: simp_thms split: if_split) blast
    moreover have "?h p i = h p i" unfolding store_shard_value [OF assms(2)] using False by (simp only: simp_thms split: if_split) blast
    ultimately show ?thesis by simp
  qed
qed

lemma fixed_batch_row:
  fixes h :: "'f::linordered_field heap"
  assumes "gdn_apart a" and "32 dvd n" and "head < vheads" and "column < n"
  shows "qwen_recurrent_gdn_fused_batch_fixed m a n S kheads vheads inner batch (head, column) h =
    fold (token_step m a S kheads vheads n inner (head * n + column)) [0..<batch] h"
proof -
  let ?w = "head * n + column" and ?M = "gdn_matrix a"
  have w: "?w mod n = column" "?w div n = head" using assms(4) by simp_all
  have base: "head * n * n + column * n = ?w * n" by (simp add: algebra_simps)
  have loop: "fold (token_step m a S kheads vheads n inner ?w) ts (store_shard ?M (?w * n) n shard h) =
      (let (h, shard) = fold (gdn_shard_token m a S kheads vheads n inner head column) ts (h, shard) in store_shard ?M (?w * n) n shard h)" for ts shard h
  proof (induction ts arbitrary: shard h)
    case (Cons t ts)
    obtain h1 s1 where st: "gdn_shard_token m a S kheads vheads n inner head column t (h, shard) = (h1, s1)"
      by (cases "gdn_shard_token m a S kheads vheads n inner head column t (h, shard)")
    then show ?case using Cons.IH [of s1 h1] fixed_token_step [OF assms(1,2) w st] by simp
  qed simp
  have "store_shard ?M (?w * n) n (load_shard ?M (?w * n) h) h = h"
    by (intro ext) (simp add: store_shard_value [OF assms(2)] load_shard_def)
  then show ?thesis using loop [of "[0..<batch]" "load_shard ?M (?w * n) h" h] assms(3,4)
    by (simp add: qwen_recurrent_gdn_fused_batch_fixed_def Let_def base)
qed

subsection \<open>Properties\<close>

text \<open>
  C32: One token of the gated delta rule on the device, in either kernel and for every order of the
  warps, leaves the state matrix and the outputs of every head as the CPU's step does, scalar or AVX2,
  with the decay, the gate and the parts of \<open>qkv\<close> that belong to the head.
\<close>

theorem cuda_gdn_is_cpu:
  fixes h :: "'f::linordered_field heap"
  assumes "gdn_apart a" and "gdn_grid S vheads n ts" and "0 < n" and "head < vheads"
    and h'_def: "h' = launch_qwen_recurrent_gdn_fused m a S kheads vheads n ts h"
  shows "(map (\<lambda>i. h' (gdn_matrix a) (head * n * n + i)) [0..<n * n], map (\<lambda>r. h' (gdn_out a) (head * n + r)) [0..<n]) =
    gdn_step avx2 (map (\<lambda>i. h (gdn_matrix a) (head * n * n + i)) [0..<n * n])
      (map (\<lambda>c. h (gdn_qkv a) (S * kheads + head mod kheads * S + c)) [0..<n])
      (map (\<lambda>r. h (gdn_qkv a) (2 * S * kheads + head * n + r)) [0..<n])
      (map (\<lambda>c. h (gdn_qkv a) (head mod kheads * S + c)) [0..<n])
      (gdn_decay m a head head h) (qwen_sigmoid m (h (gdn_beta a) head)) n (rsqrtf m (of_nat n))"
proof -
  let ?state = "map (\<lambda>i. h (gdn_matrix a) (head * n * n + i)) [0..<n * n]"
  let ?key = "map (\<lambda>c. h (gdn_qkv a) (S * kheads + head mod kheads * S + c)) [0..<n]"
  let ?vals = "map (\<lambda>r. h (gdn_qkv a) (2 * S * kheads + head * n + r)) [0..<n]"
  let ?query = "map (\<lambda>c. h (gdn_qkv a) (head mod kheads * S + c)) [0..<n]"
  let ?decay = "gdn_decay m a head head h" and ?beta = "qwen_sigmoid m (h (gdn_beta a) head)"
  let ?e = "entry_after ?state ?key ?vals ?decay ?beta n"
  have row: "(head * n + r) div n = head" "(head * n + r) mod n = r" if "r < n" for r using that by simp_all
  have OM: "gdn_out a \<noteq> gdn_matrix a" using assms(1) by (auto simp: gdn_apart_def)
  have index: "r * n + c < n * n" if "r < n" "c < n" for r c
  proof -
    have "Suc r * n \<le> n * n" using that(1) by (intro mult_le_mono1) simp
    then show ?thesis using that(2) by simp
  qed
  have moved: "gdn_moved m a S kheads n 0 head head r h (\<lambda>c. h (gdn_matrix a) ((head * n + r) * n + c)) c = ?e r c" if "r < n" "c < n" for r c
  proof -
    have "(\<Sum>i<n. h (gdn_matrix a) ((head * n + r) * n + i) * ?decay * h (gdn_qkv a) (S * kheads + head mod kheads * S + i)) =
        (\<Sum>i\<leftarrow>[0..<n]. ?decay * ?state ! (r * n + i) * ?key ! i)"
      using index [OF that(1)] by (auto simp: interv_sum_list_conv_sum_set_nat lessThan_atLeast0 algebra_simps intro!: sum.cong)
    then show ?thesis using that index [OF that] by (simp add: gdn_moved_def moved_entry_def entry_after_def delta_of_def algebra_simps)
  qed
  have w: "head * n + r < vheads * n" if "r < n" for r
  proof -
    have "Suc head * n \<le> vheads * n" using assms(4) by (intro mult_le_mono1) simp
    then show ?thesis using that by simp
  qed
  have M: "h' (gdn_matrix a) (head * n * n + (r * n + c)) = ?e r c" if "r < n" "c < n" for r c
  proof -
    have at: "head * n * n + (r * n + c) = (head * n + r) * n + c" by (simp add: algebra_simps)
    have "(gdn_matrix a, (head * n + r) * n + c) \<in> row_cells a n 0 (head * n + r)" using that(2) by (auto simp: row_cells_def)
    from gdn_launch(1) [OF assms(1-3) w [OF that(1)] this, of m kheads h]
    show ?thesis unfolding h'_def at row_step_value [OF assms(1)] row [OF that(1)] using that OM by (simp add: moved)
  qed
  have out: "h' (gdn_out a) (head * n + r) = (\<Sum>c\<leftarrow>[0..<n]. ?e r c * ?query ! c) * rsqrtf m (of_nat n)" if "r < n" for r
  proof -
    have "(gdn_out a, head * n + r) \<in> row_cells a n 0 (head * n + r)" by (auto simp: row_cells_def)
    from gdn_launch(1) [OF assms(1-3) w [OF that] this, of m kheads h]
    have "h' (gdn_out a) (head * n + r) = gdn_result m a S kheads n 0 head head r h (\<lambda>c. h (gdn_matrix a) ((head * n + r) * n + c))"
      unfolding h'_def row_step_value [OF assms(1)] row [OF that] by simp
    also have "\<dots> = (\<Sum>c<n. ?e r c * ?query ! c) * rsqrtf m (of_nat n)"
      unfolding gdn_result_def using moved [OF that] by simp
    finally show ?thesis by (simp add: interv_sum_list_conv_sum_set_nat lessThan_atLeast0)
  qed
  have "map (\<lambda>i. h' (gdn_matrix a) (head * n * n + i)) [0..<n * n] =
      concat (map (\<lambda>r. map (\<lambda>c. h' (gdn_matrix a) (head * n * n + (r * n + c))) [0..<n]) [0..<n])" by (rule rows_of_map)
  also have "\<dots> = concat (map (\<lambda>r. map (?e r) [0..<n]) [0..<n])"
    by (rule arg_cong [of _ _ concat], intro map_cong refl) (use M in simp)
  finally have "map (\<lambda>i. h' (gdn_matrix a) (head * n * n + i)) [0..<n * n] = concat (map (\<lambda>r. map (?e r) [0..<n]) [0..<n])" .
  moreover have "map (\<lambda>r. h' (gdn_out a) (head * n + r)) [0..<n] = map (\<lambda>r. (\<Sum>c\<leftarrow>[0..<n]. ?e r c * ?query ! c) * rsqrtf m (of_nat n)) [0..<n]"
    using out by simp
  moreover note gdn_step_delta_rule [of ?state n ?key ?vals ?query avx2 ?decay ?beta "rsqrtf m (of_nat n)"]
  ultimately show ?thesis by simp
qed

text \<open>Two heads of two rows, one key head.\<close>

definition small_arrays :: gdn_arrays where
  "small_arrays = \<lparr>gdn_qkv = 0, gdn_alpha = 1, gdn_beta = 2, gdn_a = 3, gdn_dt = 4, gdn_matrix = 5, gdn_first = 6, gdn_second = 7, gdn_out = 8\<rparr>"

definition small_math :: "'f::linordered_field math" where
  "small_math = \<lparr>expf = \<lambda>x. 1 + x, log1pf = \<lambda>x. x, sqrtf = \<lambda>x. x, rsqrtf = \<lambda>x. 1\<rparr>"

theorem cuda_gdn_is_cpu_witness:
  "map (\<lambda>r. launch_qwen_recurrent_gdn_fused small_math small_arrays 2 1 2 2 (rev (grid 1 4)) (\<lambda>p i. rat_of_nat (p + i)) 8 (2 + r)) [0..<2] =
    snd (gdn_step True [9, 10, 11, 12] [2, 3] [6, 7] [0, 1] (gdn_decay small_math small_arrays 1 1 (\<lambda>p i. rat_of_nat (p + i)))
      (qwen_sigmoid small_math 3) 2 1)"
proof -
  have a: "gdn_apart small_arrays" by (simp add: gdn_apart_def small_arrays_def)
  have g: "gdn_grid 2 2 2 (rev (grid 1 4))" by (simp add: gdn_grid_def in_order_def)
  have "(map (\<lambda>i. launch_qwen_recurrent_gdn_fused small_math small_arrays 2 1 2 2 (rev (grid 1 4)) (\<lambda>p i. rat_of_nat (p + i)) 5 (1 * 2 * 2 + i)) [0..<2 * 2],
      map (\<lambda>r. launch_qwen_recurrent_gdn_fused small_math small_arrays 2 1 2 2 (rev (grid 1 4)) (\<lambda>p i. rat_of_nat (p + i)) 8 (1 * 2 + r)) [0..<2]) =
    gdn_step True [9, 10, 11, 12] [2, 3] [6, 7] [0, 1] (gdn_decay small_math small_arrays 1 1 (\<lambda>p i. rat_of_nat (p + i))) (qwen_sigmoid small_math 3) 2 1"
    using cuda_gdn_is_cpu [OF a g _ _ refl, of 1 small_math 1 "\<lambda>p i. rat_of_nat (p + i)" True]
    by (simp add: small_arrays_def small_math_def upt_rec)
  then show ?thesis by (simp add: prod_eq_iff)
qed

end
