(* ===== verification/CudaStreams.thy ===== *)
theory CudaStreams
  imports CudaRuntime
begin

section \<open>Streams and events\<close>

text \<open>
  The order in which a CUDA device and its host do what was queued. Works of one stream are done in the
  order in which they were queued; a stream that waits for an event goes on when everything is done that
  the event's stream had been given when the event was recorded last; the host can wait for an event or
  a stream. A \<open>timeline\<close> keeps the works in the order of their queueing, each with the places
  it reads and writes and the works that are done before it starts, whatever the speed of the streams.
\<close>

record ('s, 'e, 'p) timeline =
  works :: "(('p list \<times> 'p list) \<times> nat set) list"
  on_stream :: "'s \<Rightarrow> nat set"
  at_event :: "'e \<Rightarrow> nat set"
  at_host :: "nat set"

definition empty_timeline :: "('s, 'e, 'p) timeline" where
  "empty_timeline = \<lparr>works = [], on_stream = (\<lambda>_. {}), at_event = (\<lambda>_. {}), at_host = {}\<rparr>"

text \<open>\<open>HostWork\<close> is done by the host itself, as a copy that does not return before it is done.\<close>

datatype ('s, 'e, 'p) queued =
  Work 's "'p list" "'p list" | HostWork "'p list" "'p list" | Record 'e 's | Await 's 'e |
  HostEvent 'e | HostStream 's

fun queue :: "('s, 'e, 'p) queued \<Rightarrow> ('s, 'e, 'p) timeline \<Rightarrow> ('s, 'e, 'p) timeline" where
  "queue (Work s r w) t = (let earlier = on_stream t s \<union> at_host t
     in t\<lparr>works := works t @ [((r, w), earlier)], on_stream := (on_stream t)(s := insert (length (works t)) earlier)\<rparr>)"
| "queue (HostWork r w) t = t\<lparr>works := works t @ [((r, w), at_host t)], at_host := insert (length (works t)) (at_host t)\<rparr>"
| "queue (Record e s) t = t\<lparr>at_event := (at_event t)(e := on_stream t s \<union> at_host t)\<rparr>"
| "queue (Await s e) t = t\<lparr>on_stream := (on_stream t)(s := on_stream t s \<union> at_event t e)\<rparr>"
| "queue (HostEvent e) t = t\<lparr>at_host := at_host t \<union> at_event t e\<rparr>"
| "queue (HostStream s) t = t\<lparr>at_host := at_host t \<union> on_stream t s\<rparr>"

text \<open>The works that touch a place, and that a later one of them is done after all earlier ones.\<close>

definition touches :: "('p list \<times> 'p list) \<times> nat set \<Rightarrow> 'p \<Rightarrow> bool" where
  "touches w p \<longleftrightarrow> p \<in> set (fst (fst w)) \<or> p \<in> set (snd (fst w))"

definition writes :: "('p list \<times> 'p list) \<times> nat set \<Rightarrow> 'p \<Rightarrow> bool" where
  "writes w p \<longleftrightarrow> p \<in> set (snd (fst w))"

definition touching :: "'p \<Rightarrow> ('s, 'e, 'p) timeline \<Rightarrow> nat set" where
  "touching p t = {i. i < length (works t) \<and> touches (works t ! i) p}"

definition serial :: "'p set \<Rightarrow> ('s, 'e, 'p) timeline \<Rightarrow> bool" where
  "serial P t \<longleftrightarrow> (\<forall>p\<in>P. \<forall>j<length (works t). touches (works t ! j) p \<longrightarrow> (\<forall>i\<in>touching p t. i < j \<longrightarrow> i \<in> snd (works t ! j)))"

text \<open>A race: two works that are not ordered touch a place, one of them writing.\<close>

definition race :: "'p \<Rightarrow> ('s, 'e, 'p) timeline \<Rightarrow> bool" where
  "race p t \<longleftrightarrow> (\<exists>j<length (works t). \<exists>i<j. i \<notin> snd (works t ! j) \<and>
     (writes (works t ! i) p \<and> touches (works t ! j) p \<or> touches (works t ! i) p \<and> writes (works t ! j) p))"

lemma serial_no_race: "serial P t \<Longrightarrow> p \<in> P \<Longrightarrow> \<not> race p t"
  unfolding serial_def race_def touching_def touches_def writes_def by (metis (no_types, lifting) less_trans mem_Collect_eq)

text \<open>
  What a stream, an event or the host knows to be done, together with what is ordered before
  everything that is queued from now on.
\<close>

definition known :: "('s, 'e, 'p) timeline \<Rightarrow> 's \<Rightarrow> nat set \<Rightarrow> bool" where
  "known t s X \<longleftrightarrow> X \<subseteq> on_stream t s \<union> at_host t"

definition marked :: "('s, 'e, 'p) timeline \<Rightarrow> 'e \<Rightarrow> nat set \<Rightarrow> bool" where
  "marked t e X \<longleftrightarrow> X \<subseteq> at_event t e \<union> at_host t"

definition settled :: "('s, 'e, 'p) timeline \<Rightarrow> nat set \<Rightarrow> bool" where
  "settled t X \<longleftrightarrow> X \<subseteq> at_host t"

named_theorems streams

lemma known_mono [streams]: "known t s X \<Longrightarrow> known (queue q t) s X"
  by (cases q) (auto simp: known_def Let_def)

lemma settled_mono [streams]: "settled t X \<Longrightarrow> X \<subseteq> {..<length (works t)} \<Longrightarrow> settled (queue q t) X"
  by (cases q) (auto simp: settled_def Let_def)

lemma marked_mono [streams]: "marked t e X \<Longrightarrow> X \<subseteq> {..<length (works t)} \<Longrightarrow> \<forall>s. q \<noteq> Record e s \<Longrightarrow> marked (queue q t) e X"
  by (cases q) (auto simp: marked_def Let_def)

lemma known_settled: "settled t X \<Longrightarrow> known t s X"
  by (auto simp: settled_def known_def)

lemma marked_settled: "settled t X \<Longrightarrow> marked t e X"
  by (auto simp: settled_def marked_def)

lemma marked_record [streams]: "known t s X \<Longrightarrow> marked (queue (Record e s) t) e X"
  by (auto simp: known_def marked_def)

lemma known_await [streams]: "marked t e X \<Longrightarrow> known (queue (Await s e) t) s X"
  by (auto simp: known_def marked_def)

lemma settled_event: "marked t e X \<Longrightarrow> settled (queue (HostEvent e) t) X"
  by (auto simp: settled_def marked_def)

lemma settled_stream: "known t s X \<Longrightarrow> settled (queue (HostStream s) t) X"
  by (auto simp: settled_def known_def)

text \<open>How the works that touch a place grow.\<close>

fun uses :: "('s, 'e, 'p) queued \<Rightarrow> 'p \<Rightarrow> bool" where
  "uses (Work s r w) p \<longleftrightarrow> p \<in> set r \<or> p \<in> set w"
| "uses (HostWork r w) p \<longleftrightarrow> p \<in> set r \<or> p \<in> set w"
| "uses _ p \<longleftrightarrow> False"

lemma touching_bound: "touching p t \<subseteq> {..<length (works t)}"
  by (auto simp: touching_def)

lemma touching_queue: "touching p (queue q t) = (if uses q p then insert (length (works t)) (touching p t) else touching p t)"
  by (cases q) (auto simp: touching_def touches_def Let_def nth_append less_Suc_eq)

lemma known_work: "known t s (touching p t) \<Longrightarrow> known (queue (Work s r w) t) s (touching p (queue (Work s r w) t))"
  by (auto simp: known_def touching_queue simp del: queue.simps) (auto simp: Let_def)

lemma settled_work: "settled t (touching p t) \<Longrightarrow> settled (queue (HostWork r w) t) (touching p (queue (HostWork r w) t))"
  by (auto simp: settled_def touching_queue simp del: queue.simps) (auto simp: Let_def)

text \<open>What keeps every place serial: who works on a place knows of all earlier works on it.\<close>

fun admits :: "'p set \<Rightarrow> ('s, 'e, 'p) timeline \<Rightarrow> ('s, 'e, 'p) queued \<Rightarrow> bool" where
  "admits P t (Work s r w) \<longleftrightarrow> (\<forall>p\<in>P. p \<in> set r \<or> p \<in> set w \<longrightarrow> known t s (touching p t))"
| "admits P t (HostWork r w) \<longleftrightarrow> (\<forall>p\<in>P. p \<in> set r \<or> p \<in> set w \<longrightarrow> settled t (touching p t))"
| "admits P t _ \<longleftrightarrow> True"

lemma serial_append:
  assumes "serial P t" and "works t' = works t @ [((r, w), X)]"
    and "\<And>p. p \<in> P \<Longrightarrow> p \<in> set r \<or> p \<in> set w \<Longrightarrow> touching p t \<subseteq> X"
  shows "serial P t'"
  unfolding serial_def
proof (intro ballI allI impI)
  fix p j i assume p: "p \<in> P" "j < length (works t')" "touches (works t' ! j) p" "i \<in> touching p t'" "i < j"
  then have i: "i \<in> touching p t" using assms(2) by (auto simp: touching_def nth_append split: if_splits)
  show "i \<in> snd (works t' ! j)"
  proof (cases "j < length (works t)")
    case True
    then show ?thesis using assms(1,2) p i by (auto simp: serial_def nth_append)
  next
    case False
    then have "j = length (works t)" using p(2) assms(2) by simp
    then show ?thesis using assms(2) assms(3) [OF p(1)] p(3) i by (auto simp: touches_def)
  qed
qed

lemma serial_same: "serial P t \<Longrightarrow> works t' = works t \<Longrightarrow> serial P t'"
  by (simp add: serial_def touching_def)

lemma serial_queue:
  assumes "serial P t" and "admits P t q"
  shows "serial P (queue q t)"
proof (cases q)
  case (Work s r w)
  show ?thesis unfolding Work
    by (rule serial_append [where r = r and w = w and X = "on_stream t s \<union> at_host t", OF assms(1)])
      (use assms(2) Work in \<open>auto simp: known_def Let_def\<close>)
next
  case (HostWork r w)
  show ?thesis unfolding HostWork
    by (rule serial_append [where r = r and w = w and X = "at_host t", OF assms(1)])
      (use assms(2) HostWork in \<open>auto simp: settled_def\<close>)
qed (use assms(1) in \<open>simp_all add: serial_def touching_def\<close>)

lemma serial_empty [simp]: "serial P empty_timeline"
  by (simp add: serial_def empty_timeline_def)

subsection \<open>Who knows of all works on a place\<close>

datatype ('s, 'e) holder = OnStream 's | AtEvent 'e | AtHost

fun knows :: "('s, 'e, 'p) timeline \<Rightarrow> 'p \<Rightarrow> ('s, 'e) holder \<Rightarrow> bool" where
  "knows t p (OnStream s) \<longleftrightarrow> known t s (touching p t)"
| "knows t p (AtEvent e) \<longleftrightarrow> marked t e (touching p t)"
| "knows t p AtHost \<longleftrightarrow> settled t (touching p t)"

lemma knows_host: "knows t p AtHost \<Longrightarrow> knows t p h"
  by (cases h) (simp_all add: known_settled marked_settled)

lemma knows_frame:
  assumes "knows t p h" and "\<not> uses q p" and "\<forall>e s. q = Record e s \<longrightarrow> h \<noteq> AtEvent e"
  shows "knows (queue q t) p h"
proof -
  have t: "touching p (queue q t) = touching p t" using assms(2) by (simp add: touching_queue)
  show ?thesis
  proof (cases h)
    case (AtEvent e)
    then have "\<forall>s. q \<noteq> Record e s" using assms(3) by blast
    then show ?thesis using AtEvent assms(1) t marked_mono [OF _ touching_bound] by (simp del: queue.simps)
  qed (use assms(1) t known_mono settled_mono [OF _ touching_bound] in \<open>simp_all del: queue.simps\<close>)
qed

lemma knows_frames: "knows t p h \<Longrightarrow> \<forall>q\<in>set qs. \<not> uses q p \<and> (\<forall>e s. q = Record e s \<longrightarrow> h \<noteq> AtEvent e) \<Longrightarrow> knows (fold queue qs t) p h"
proof (induction qs arbitrary: t)
  case (Cons q qs)
  then show ?case using knows_frame [of t p h q] by simp
qed simp

lemma knows_own: "knows t p (OnStream s) \<Longrightarrow> knows (queue (Work s r w) t) p (OnStream s)"
  by (simp add: known_work del: queue.simps)

lemma knows_host_own: "knows t p AtHost \<Longrightarrow> knows (queue (HostWork r w) t) p AtHost"
  by (simp add: settled_work del: queue.simps)

lemma touching_calm: "\<not> uses q p \<Longrightarrow> touching p (queue q t) = touching p t"
  by (simp add: touching_queue)

lemma knows_record: "knows t p (OnStream s) \<Longrightarrow> knows (queue (Record e s) t) p (AtEvent e)"
  using touching_calm [of "Record e s" p t] marked_record [of t s "touching p t" e] by (simp del: queue.simps)

lemma knows_await: "knows t p (AtEvent e) \<Longrightarrow> knows (queue (Await s e) t) p (OnStream s)"
  using touching_calm [of "Await s e" p t] known_await [of t e "touching p t" s] by (simp del: queue.simps)

lemma knows_event: "knows t p (AtEvent e) \<Longrightarrow> knows (queue (HostEvent e) t) p AtHost"
  using touching_calm [of "HostEvent e" p t] settled_event [of t e "touching p t"] by (simp del: queue.simps)

lemma knows_stream: "knows t p (OnStream s) \<Longrightarrow> knows (queue (HostStream s) t) p AtHost"
  using touching_calm [of "HostStream s" p t] settled_stream [of t s "touching p t"] by (simp del: queue.simps)

lemma admits_knows:
  "admits P t (Work s r w) \<longleftrightarrow> (\<forall>p\<in>P. p \<in> set r \<or> p \<in> set w \<longrightarrow> knows t p (OnStream s))"
  "admits P t (HostWork r w) \<longleftrightarrow> (\<forall>p\<in>P. p \<in> set r \<or> p \<in> set w \<longrightarrow> knows t p AtHost)"
  by simp_all

lemma serial_queues:
  "serial P t \<Longrightarrow> \<forall>q\<in>set qs. \<forall>p\<in>P. \<not> uses q p \<Longrightarrow> serial P (fold queue qs t)"
proof (induction qs arbitrary: t)
  case (Cons q qs)
  have "admits P t q" using Cons.prems(2) by (cases q) auto
  then show ?case using Cons serial_queue [of P t q] by simp
qed simp

declare queue.simps [simp del] knows.simps [simp del] admits.simps [simp del]

lemma knows_empty [simp]: "knows empty_timeline p h"
  by (cases h) (simp_all add: knows.simps known_def marked_def settled_def touching_def empty_timeline_def)

end
