(* ===== verification/Q4Context.thy ===== *)
theory Q4Context
  imports CudaContext CudaStreams
begin

section \<open>The context of the Q4 backend\<close>

text \<open>
  Models the context of \<open>src/backend/cuda/fortai_cuda_q4_backend.cu\<close>, which runs the products of K-quantised
  weights on GGML's CUDA backend on one or two devices: its creation and destruction, the shared silence
  of GGML's log, the arenas that hold the weights, staged uploads, and weights with their descriptors.
  The objects a context and its weights own are the fields of \<open>q4_slot\<close> as in \<open>CudaRuntime\<close>; what GGML
  creates has kinds of its own. Environment variables are arguments.
\<close>

datatype ring = InputRing | OutputRing

text \<open>A set of bridge events is one of the ring's or one that was added when the ring was busy.\<close>

datatype bridge_id = RingSet nat | ExtraSet nat
datatype edge = SourceReady | RemoteReady | RemoteDone | OutputFree | PrimaryDone

record q4_weights =
  weights_id :: nat
  weights_slot :: nat
  weights_width :: nat
  weights_height :: nat

text \<open>The graphs that are prepared: of one product, of a token lookup, and the plans by their keys.\<close>

datatype graph_id =
  ProductGraph q4_weights | LookupGraph q4_weights | GroupPlan "q4_weights list" | BatchPlan "q4_weights list" nat |
  LookupPlan q4_weights nat | SwigluPlan q4_weights q4_weights | FfnPlan q4_weights q4_weights q4_weights nat

datatype q4_slot =
  Backend nat | CpuBackend | BridgeStream nat | BridgeActivation nat | BridgeOutput nat | HostBridge |
  RingBuffer ring nat | RingReady ring nat | RingFree ring nat | Edge edge bridge_id | Producer nat nat |
  ArenaBuffer nat nat | GraphContext graph_id | GraphBuffer graph_id | CachedGraph graph_id | CachedExec graph_id

fun q4_kind :: "q4_slot \<Rightarrow> kind" where
  "q4_kind (Backend _) = GgmlBackend"
| "q4_kind CpuBackend = GgmlBackend"
| "q4_kind (BridgeStream _) = Stream"
| "q4_kind (BridgeActivation _) = DeviceMemory"
| "q4_kind (BridgeOutput _) = DeviceMemory"
| "q4_kind HostBridge = PinnedMemory"
| "q4_kind (RingBuffer _ _) = PinnedMemory"
| "q4_kind (RingReady _ _) = Event"
| "q4_kind (RingFree _ _) = Event"
| "q4_kind (Edge _ _) = GgmlEvent"
| "q4_kind (Producer _ _) = GgmlEvent"
| "q4_kind (ArenaBuffer _ _) = GgmlBuffer"
| "q4_kind (GraphContext _) = GgmlContext"
| "q4_kind (GraphBuffer _) = GgmlBuffer"
| "q4_kind (CachedGraph _) = Graph"
| "q4_kind (CachedExec _) = GraphExec"

text \<open>
  Streams are those of the bridge, GGML's own stream of a backend, and streams of the caller. Places are
  the buffers of the bridge, the tensors of a product itself, and memory of the caller by its address.
\<close>

datatype q4_stream = Bridge nat | Scheduler nat | Caller nat
datatype place =
  HostSlot ring nat | StagedActivation nat | StagedOutput nat | HostStage | OwnActivation q4_weights | OwnOutput q4_weights | Memory nat

record arena =
  arena_used :: nat
  arena_capacity :: nat

record graph_cache =
  captured :: "(place list \<times> place list) option"
  graph_warmup :: bool
  graph_disabled :: bool

record q4_context = "q4_slot machine" +
  device_ids :: "nat \<Rightarrow> int"
  segment_graph_requested :: bool
  sync_bridge_requested :: bool
  use_peer_copy :: bool
  consumer_stream :: "nat \<Rightarrow> q4_stream option"
  producer_event_index :: "nat \<Rightarrow> u32"
  bridge_event_index :: u32
  extra_bridge_events :: nat
  last_activation_done :: "q4_slot option"
  last_output_free :: "q4_slot option"
  host_index :: "ring \<Rightarrow> u32"
  free_recorded :: "ring \<Rightarrow> nat \<Rightarrow> bool"
  weight_arenas :: "nat \<Rightarrow> arena list"
  plans :: "graph_id list"
  graph_caches :: "graph_id \<Rightarrow> graph_cache"
  outer_capture :: "nat \<Rightarrow> bool"
  line :: "(q4_stream, q4_slot, place) timeline"

definition event_slots :: nat where "event_slots = 1024"
definition host_bridge_slots :: nat where "host_bridge_slots = 8"

text \<open>Statuses: \<open>runtime\<close> turns a failed call into the runtime error; \<open>steps\<close> stops at the first that fails.\<close>

type_synonym q4_step = "q4_context \<Rightarrow> int \<times> q4_context"

definition runtime_status :: "q4_context call \<Rightarrow> q4_step" where
  "runtime_status f c = (let (ok, c) = f c in (if ok then CUDA_OK else CUDA_RUNTIME_ERROR, c))"

fun steps :: "q4_step list \<Rightarrow> q4_step" where
  "steps [] c = (CUDA_OK, c)"
| "steps (f # fs) c = (let (status, c) = f c in if status = CUDA_OK then steps fs c else (status, c))"

text \<open>A caller that answers every failure of a callee with the runtime error.\<close>

definition as_runtime :: "q4_step \<Rightarrow> q4_step" where
  "as_runtime f c = (let (status, c) = f c in (if status = CUDA_OK then CUDA_OK else CUDA_RUNTIME_ERROR, c))"

definition q4_fail :: int where "q4_fail = CUDA_RUNTIME_ERROR"

subsection \<open>The log of GGML\<close>

text \<open>
  \<open>log_callback\<close> is what GGML calls at present, \<open>quiet\<close> the callback that says nothing; the pair with the
  user data is one value.
\<close>

record 'l quiet_log =
  log_callback :: 'l
  previous_log :: "'l option"
  quiet_users :: int

definition quiet_log_acquire :: "'l \<Rightarrow> 'l quiet_log \<Rightarrow> 'l quiet_log" where
  "quiet_log_acquire quiet g =
     (let n = quiet_users g; g = g\<lparr>quiet_users := n + 1\<rparr>
      in if n = 0 then g\<lparr>previous_log := Some (log_callback g), log_callback := quiet\<rparr> else g)"

definition quiet_log_release :: "'l quiet_log \<Rightarrow> 'l quiet_log" where
  "quiet_log_release g =
     (if quiet_users g \<le> 0 then g
      else let n = quiet_users g - 1; g = g\<lparr>quiet_users := n\<rparr>
           in if n = 0 then g\<lparr>log_callback := (case previous_log g of Some l \<Rightarrow> l | None \<Rightarrow> log_callback g), previous_log := None\<rparr> else g)"

subsection \<open>Environment\<close>

definition says_yes :: "string \<Rightarrow> bool" where
  "says_yes v \<longleftrightarrow> v \<noteq> [] \<and> hd v \<in> {CHR ''1'', CHR ''y'', CHR ''Y'', CHR ''t'', CHR ''T''}"

definition sync_bridge_asked :: "string option \<Rightarrow> bool" where
  "sync_bridge_asked v \<longleftrightarrow> (case v of None \<Rightarrow> False | Some s \<Rightarrow> says_yes s)"

definition segment_graph_asked :: "string option \<Rightarrow> bool" where
  "segment_graph_asked v \<longleftrightarrow> (case v of None \<Rightarrow> True | Some s \<Rightarrow> says_yes s)"

definition staged_upload_enabled :: "string option \<Rightarrow> bool" where
  "staged_upload_enabled v \<longleftrightarrow> (case v of None \<Rightarrow> True
     | Some s \<Rightarrow> s = [] \<or> hd s \<notin> {CHR ''0'', CHR ''n'', CHR ''N'', CHR ''f'', CHR ''F''})"

record q4_environment =
  env_unified :: "string option"
  env_segment :: "string option"
  env_sync :: "string option"
  env_peer :: "string option"

text \<open>Whether GGML's own graphs are switched off for the process.\<close>

definition disable_ggml_graphs :: "int \<Rightarrow> int \<Rightarrow> q4_environment \<Rightarrow> bool" where
  "disable_ggml_graphs first second env \<longleftrightarrow>
     (case env_unified env of None \<Rightarrow> False | Some v \<Rightarrow> says_yes v \<and> first = second) \<or> segment_graph_asked (env_segment env)"

subsection \<open>Destruction and creation\<close>

text \<open>
  \<open>destroy_side\<close>: the loop body over the two devices, in which the rings of 8 slots are visited at the
  number of the device only.
\<close>

definition edges_of :: "edge list \<Rightarrow> q4_slot list" where
  "edges_of es = concat (map (\<lambda>n. map (\<lambda>e. Edge e (RingSet n)) es) [0..<event_slots])"

definition destroy_side :: "bool \<Rightarrow> nat \<Rightarrow> q4_slot list" where
  "destroy_side two i =
     [BridgeStream i] @
     (if i = 0 \<and> two then edges_of [SourceReady, PrimaryDone] else []) @
     (if i = 1 \<and> two then edges_of [RemoteReady, RemoteDone, OutputFree] else []) @
     map (Producer i) [0..<event_slots] @
     [RingFree InputRing i, RingReady InputRing i, RingFree OutputRing i, RingReady OutputRing i,
      RingBuffer InputRing i, RingBuffer OutputRing i, BridgeActivation i, BridgeOutput i]"

definition edges :: "edge list" where "edges = [SourceReady, PrimaryDone, RemoteReady, RemoteDone, OutputFree]"

definition q4_batch_plans :: "graph_id list \<Rightarrow> graph_id list" where
  "q4_batch_plans ps = filter (\<lambda>p. case p of BatchPlan _ _ \<Rightarrow> True | _ \<Rightarrow> False) ps"

definition q4_lookup_plans :: "graph_id list \<Rightarrow> graph_id list" where
  "q4_lookup_plans ps = filter (\<lambda>p. case p of LookupPlan _ _ \<Rightarrow> True | _ \<Rightarrow> False) ps"

definition q4_group_plans :: "graph_id list \<Rightarrow> graph_id list" where
  "q4_group_plans ps = filter (\<lambda>p. case p of GroupPlan _ \<Rightarrow> True | _ \<Rightarrow> False) ps"

definition q4_swiglu_plans :: "graph_id list \<Rightarrow> graph_id list" where
  "q4_swiglu_plans ps = filter (\<lambda>p. case p of SwigluPlan _ _ \<Rightarrow> True | _ \<Rightarrow> False) ps"

definition q4_ffn_plans :: "graph_id list \<Rightarrow> graph_id list" where
  "q4_ffn_plans ps = filter (\<lambda>p. case p of FfnPlan _ _ _ _ \<Rightarrow> True | _ \<Rightarrow> False) ps"

definition q4_plan_objects :: "graph_id \<Rightarrow> q4_slot list" where
  "q4_plan_objects p = [CachedExec p, CachedGraph p] @ (case p of GroupPlan _ \<Rightarrow> [] | _ \<Rightarrow> [GraphBuffer p, GraphContext p])"

definition q4_destroy_order :: "q4_context \<Rightarrow> q4_slot list" where
  "q4_destroy_order c =
     (let two = (device_ids c 0 \<noteq> device_ids c 1)
      in destroy_side two 0 @ destroy_side two 1 @
         concat (map (\<lambda>n. map (\<lambda>e. Edge e (ExtraSet n)) edges) [0..<extra_bridge_events c]) @
         concat (map q4_plan_objects (q4_batch_plans (plans c) @ q4_lookup_plans (plans c) @ q4_group_plans (plans c) @ q4_swiglu_plans (plans c) @ q4_ffn_plans (plans c))) @
         map (ArenaBuffer 0) [0..<length (weight_arenas c 0)] @ map (ArenaBuffer 1) [0..<length (weight_arenas c 1)] @
         [HostBridge, Backend 0, Backend 1, CpuBackend])"

definition q4_context_destroy :: "q4_context \<Rightarrow> q4_context" where
  "q4_context_destroy c = drop_slots q4_kind (q4_destroy_order c) c"

text \<open>The five events of a set, all created before any is looked at.\<close>

definition create_all :: "q4_slot list \<Rightarrow> q4_context call" where
  "create_all ss c = (let c = fold (\<lambda>s c. snd (create_in (q4_kind s) 0 s c)) ss c in (\<forall>s\<in>set ss. slots c s \<noteq> None, c))"

definition free_bridge_events :: "bridge_id \<Rightarrow> q4_context \<Rightarrow> q4_context" where
  "free_bridge_events n = drop_slots q4_kind (map (\<lambda>e. Edge e n) edges)"

definition create_bridge_events :: "bridge_id \<Rightarrow> q4_context call" where
  "create_bridge_events n c =
     (let (ok, c) = create_all (map (\<lambda>e. Edge e n) edges) c in if ok then (True, c) else (False, free_bridge_events n c))"

definition create_slot :: "q4_slot \<Rightarrow> nat \<Rightarrow> q4_context call" where
  "create_slot s n = create_in (q4_kind s) n s"

definition record_bytes :: "q4_slot \<Rightarrow> nat \<Rightarrow> q4_context call" where
  "record_bytes s n c = (True, set_bytes s n c)"

definition bridge_activation_reserve :: nat where "bridge_activation_reserve = 2 ^ 20"
definition bridge_output_reserve :: nat where "bridge_output_reserve = 2 ^ 24"

definition create_bridge :: "q4_context call" where
  "create_bridge = chain
     ([create_slot (BridgeStream 0) 0, create_slot (BridgeStream 1) 0,
       create_slot (BridgeActivation 1) bridge_activation_reserve, create_slot (BridgeOutput 1) bridge_output_reserve,
       record_bytes (BridgeActivation 1) bridge_activation_reserve, record_bytes (BridgeOutput 1) bridge_output_reserve] @
      concat (map (\<lambda>i. [create_slot (RingReady InputRing i) 0, create_slot (RingFree OutputRing i) 0]) [0..<host_bridge_slots]) @
      concat (map (\<lambda>i. [create_slot (RingFree InputRing i) 0, create_slot (RingReady OutputRing i) 0]) [0..<host_bridge_slots]) @
      map (\<lambda>n. create_bridge_events (RingSet n)) [0..<event_slots])"

definition no_caches :: "graph_id \<Rightarrow> graph_cache" where
  "no_caches = (\<lambda>_. \<lparr>captured = None, graph_warmup = False, graph_disabled = False\<rparr>)"

text \<open>The result: the status, whether \<open>*out\<close> was set, and the state. The same device has one backend.\<close>

definition q4_context_create :: "bool \<Rightarrow> int \<Rightarrow> int \<Rightarrow> q4_environment \<Rightarrow> bool \<Rightarrow> q4_context \<Rightarrow> int \<times> bool \<times> q4_context" where
  "q4_context_create out first second env new_ok c =
     (if \<not> out \<or> first < 0 \<or> second < 0 then (CUDA_INVALID, False, c)
      else if \<not> new_ok then (CUDA_RUNTIME_ERROR, False, c)
      else let c = c\<lparr>device_ids := (\<lambda>i. if i = 0 then first else second), segment_graph_requested := segment_graph_asked (env_segment env),
                 sync_bridge_requested := sync_bridge_asked (env_sync env),
                 use_peer_copy := (case env_peer env of None \<Rightarrow> False | Some v \<Rightarrow> says_yes v),
                 consumer_stream := (\<lambda>_. None), producer_event_index := (\<lambda>_. 0), bridge_event_index := 0, extra_bridge_events := 0,
                 last_activation_done := None, last_output_free := None, host_index := (\<lambda>_. 0), free_recorded := (\<lambda>_ _. False),
                 weight_arenas := (\<lambda>_. []), plans := [], graph_caches := no_caches\<rparr>;
               (ok, c) = create_all (if first = second then [Backend 0, CpuBackend] else [Backend 0, Backend 1, CpuBackend]) c;
               (ok, c) = (if \<not> ok then (False, c)
                 else chain ((if first \<noteq> second then [create_bridge] else []) @
                   map (\<lambda>n. create_slot (Producer 0 n) 0) [0..<event_slots] @ map (\<lambda>n. create_slot (Producer 1 n) 0) [0..<event_slots]) c)
           in if ok then (CUDA_OK, True, c) else (CUDA_RUNTIME_ERROR, False, q4_context_destroy c))"


definition consumer_slot :: "q4_context \<Rightarrow> int \<Rightarrow> nat option" where
  "consumer_slot c d = (if device_ids c 0 = d then Some 0 else if device_ids c 1 = d then Some 1 else None)"

definition set_consumer_stream :: "int \<Rightarrow> q4_stream option \<Rightarrow> q4_step" where
  "set_consumer_stream slot s c =
     (if slot < 0 \<or> slot > 1 then (CUDA_INVALID, c) else (CUDA_OK, c\<lparr>consumer_stream := (consumer_stream c)(nat slot := s)\<rparr>))"

text \<open>
  A call that, when it succeeds, has something queued; it fails when its event does not exist. In a list
  of calls, \<open>None\<close> is one that queues nothing, such as the choice of a device.
\<close>

fun event_of :: "(q4_stream, q4_slot, place) queued \<Rightarrow> q4_slot option" where
  "event_of (Record e s) = Some e"
| "event_of (Await s e) = Some e"
| "event_of _ = None"

definition enqueue :: "(q4_stream, q4_slot, place) queued \<Rightarrow> q4_context call" where
  "enqueue q c =
     (let (ok, c) = asked c
      in if ok \<and> (case event_of q of None \<Rightarrow> True | Some e \<Rightarrow> slots c e \<noteq> None) then (True, c\<lparr>line := queue q (line c)\<rparr>) else (False, c))"

definition calls :: "(q4_stream, q4_slot, place) queued option list \<Rightarrow> q4_context call" where
  "calls qs = chain (map (\<lambda>q. case q of None \<Rightarrow> asked | Some q \<Rightarrow> enqueue q) qs)"

definition host_did :: "(q4_stream, q4_slot, place) queued \<Rightarrow> q4_context \<Rightarrow> q4_context" where
  "host_did q c = c\<lparr>line := queue q (line c)\<rparr>"

text \<open>GGML's stream of a backend; both devices may be one.\<close>

definition scheduler_stream :: "q4_context \<Rightarrow> nat \<Rightarrow> q4_stream" where
  "scheduler_stream c slot = Scheduler (if device_ids c 0 = device_ids c 1 then 0 else slot)"

definition sync_bridge_stream :: "nat \<Rightarrow> q4_context call" where
  "sync_bridge_stream slot c = (if slots c (BridgeStream slot) = None then (True, c) else calls [None, Some (HostStream (Bridge slot))] c)"

definition q4_context_synchronize :: "q4_step" where
  "q4_context_synchronize c =
     (if slots c (Backend 0) = None then (CUDA_INVALID, c)
      else let c = host_did (HostStream (scheduler_stream c 0)) c;
               c = (if device_ids c 0 = device_ids c 1 then c else host_did (HostStream (scheduler_stream c 1)) c);
               (ok, c) = chain [sync_bridge_stream 0, sync_bridge_stream 1] c
           in if \<not> ok then (CUDA_RUNTIME_ERROR, c) else (CUDA_OK, set_bytes HostBridge 0 (drop_slot PinnedMemory HostBridge c)))"

subsection \<open>Arenas\<close>

text \<open>
  The last arena of a device is used while the piece fits behind what is used, rounded up to the
  alignment of the buffer type; otherwise a new one is made. The result is the number of the arena and
  the offset. Rounding up is done in \<open>size_t\<close> and wraps for a size near its maximum.
\<close>

definition round_up :: "nat \<Rightarrow> nat \<Rightarrow> nat" where
  "round_up alignment n = (n + alignment - 1) mod 2 ^ 64 div alignment * alignment"

definition arena_chunk_bytes :: nat where "arena_chunk_bytes = 512 * 2 ^ 20"

definition arena_fit :: "nat \<Rightarrow> nat \<Rightarrow> arena list \<Rightarrow> nat option" where
  "arena_fit alignment n arenas =
     (if arenas = [] then None
      else let offset = round_up alignment (arena_used (last arenas)); room = arena_capacity (last arenas)
           in if offset > room \<or> n > room - offset then None else Some offset)"

definition take_piece :: "nat \<Rightarrow> nat \<Rightarrow> nat \<Rightarrow> q4_context \<Rightarrow> int \<times> (nat \<times> nat) option \<times> q4_context" where
  "take_piece slot offset n c =
     (let arenas = weight_arenas c slot; i = length arenas - 1
      in (CUDA_OK, Some (i, offset),
          c\<lparr>weight_arenas := (weight_arenas c)(slot := arenas[i := (arenas ! i)\<lparr>arena_used := offset + n\<rparr>])\<rparr>))"

definition arena_alloc :: "nat \<Rightarrow> nat \<Rightarrow> nat \<Rightarrow> q4_context \<Rightarrow> int \<times> (nat \<times> nat) option \<times> q4_context" where
  "arena_alloc buft_alignment slot n c =
     (if slot > 1 \<or> n = 0 then (CUDA_INVALID, None, c)
      else let alignment = max 1 buft_alignment; arenas = weight_arenas c slot
           in case arena_fit alignment n arenas of
                Some offset \<Rightarrow> take_piece slot offset n c
              | None \<Rightarrow>
                  (let capacity' = max arena_chunk_bytes (round_up alignment n);
                       (ok, c) = create_in GgmlBuffer capacity' (ArenaBuffer slot (length arenas)) c
                   in if \<not> ok then (CUDA_RUNTIME_ERROR, None, c)
                      else let (pushed, c) = asked c
                           in if \<not> pushed then (CUDA_RUNTIME_ERROR, None, drop_slot GgmlBuffer (ArenaBuffer slot (length arenas)) c)
                              else take_piece slot 0 n
                                (c\<lparr>weight_arenas := (weight_arenas c)(slot := arenas @ [\<lparr>arena_used = 0, arena_capacity = capacity'\<rparr>])\<rparr>)))"

subsection \<open>Staged uploads\<close>

text \<open>
  \<open>stage_chunk\<close>: one chunk, first to the pinned buffer, then to the device. The bytes of the device are a
  function of the offset from the destination.
\<close>

definition stage_capacity :: nat where "stage_capacity = 64 * 2 ^ 20"

type_synonym stage_memory = "(nat \<Rightarrow> char) \<times> (nat \<Rightarrow> char)"

definition stage_chunk :: "bytes \<Rightarrow> nat \<Rightarrow> nat \<Rightarrow> (q4_context \<times> stage_memory) call" where
  "stage_chunk source required offset = (\<lambda>(c, stage, dest).
     let chunk = min required (length source - offset);
         stage = (\<lambda>i. if i < chunk then source ! (offset + i) else stage i);
         (ok, c) = asked c
     in (ok, c, stage, if ok then (\<lambda>i. if offset \<le> i \<and> i < offset + chunk then stage (i - offset) else dest i) else dest))"

definition ensure_stage :: "nat \<Rightarrow> q4_context call" where
  "ensure_stage required c =
     (if capacity c HostBridge < required
      then let c = (if slots c HostBridge = None then c else set_bytes HostBridge 0 (drop_slot PinnedMemory HostBridge c));
               (ok, c) = create_in PinnedMemory required HostBridge c
           in if ok then (True, set_bytes HostBridge required c) else (False, c)
      else (True, c))"

definition upload_staged :: "bytes \<Rightarrow> q4_context \<times> stage_memory \<Rightarrow> int \<times> q4_context \<times> stage_memory" where
  "upload_staged source = (\<lambda>(c, mem).
     if source = [] then (CUDA_INVALID, c, mem)
     else let required = min stage_capacity (length source);
              (ok, c) = chain [ensure_stage required, asked] c
          in if \<not> ok then (CUDA_RUNTIME_ERROR, c, mem)
             else let (ok, c, mem) = chain (map (\<lambda>k. stage_chunk source required (k * required)) [0..<(length source + required - 1) div required]) (c, mem)
                  in (if ok then CUDA_OK else CUDA_RUNTIME_ERROR, c, mem))"

subsection \<open>Weights\<close>

text \<open>
  The descriptors of a product: a GGML context with the tensors and a compute buffer. \<open>row_bytes\<close> is
  \<open>ggml_row_size\<close>, \<open>alloc_bytes\<close> what the buffer type needs for the tensor. The result is the status and
  the weights, with the piece of the arena that holds them.
\<close>

definition supported_type :: "int \<Rightarrow> bool" where
  "supported_type t \<longleftrightarrow> t \<in> {11, 12, 13, 14, 20, 21, 23}"

definition weights_objects :: "q4_weights \<Rightarrow> q4_slot list" where
  "weights_objects w = [CachedExec (ProductGraph w), CachedGraph (ProductGraph w), CachedExec (LookupGraph w), CachedGraph (LookupGraph w),
     GraphBuffer (LookupGraph w), GraphContext (LookupGraph w), GraphBuffer (ProductGraph w), GraphContext (ProductGraph w)]"

definition q4_weights_destroy :: "q4_weights \<Rightarrow> q4_context \<Rightarrow> q4_context" where
  "q4_weights_destroy w c = drop_slots q4_kind (weights_objects w) c"

definition deliver_weights :: "string option \<Rightarrow> bytes \<Rightarrow> q4_context \<times> stage_memory \<Rightarrow> q4_context \<times> stage_memory" where
  "deliver_weights env_staged source = (\<lambda>(c, mem).
     let (staged, c, mem) = (if staged_upload_enabled env_staged then upload_staged source (c, mem) else (CUDA_RUNTIME_ERROR, c, mem))
     in (c, if staged = CUDA_OK then mem else (fst mem, \<lambda>i. if i < length source then source ! i else snd mem i)))"

definition q4_weights_upload ::
    "bool \<Rightarrow> int \<Rightarrow> (int \<Rightarrow> nat) \<Rightarrow> (int \<Rightarrow> nat) \<Rightarrow> nat \<Rightarrow> string option \<Rightarrow> int \<Rightarrow> bytes \<Rightarrow> int \<Rightarrow> int \<Rightarrow> bool \<Rightarrow> nat \<Rightarrow>
     q4_context \<times> stage_memory \<Rightarrow> int \<times> (q4_weights \<times> nat \<times> nat) option \<times> q4_context \<times> stage_memory" where
  "q4_weights_upload given value_type row_bytes alloc_bytes buft_alignment env_staged slot source rows width new_ok new_id = (\<lambda>(c, mem).
     if \<not> given \<or> rows \<le> 0 \<or> width \<le> 0 \<or> slot < 0 \<or> slot > 1 \<or> \<not> supported_type value_type then (CUDA_INVALID, None, c, mem)
     else if \<not> new_ok then (CUDA_RUNTIME_ERROR, None, c, mem)
     else let w = \<lparr>weights_id = new_id, weights_slot = nat slot, weights_width = nat width, weights_height = nat rows\<rparr>;
              (ok, c) = create_slot (GraphContext (ProductGraph w)) 0 c
          in if \<not> ok then (CUDA_RUNTIME_ERROR, None, q4_weights_destroy w c, mem)
             else let (tensors, c) = asked c
                  in if \<not> tensors \<or> int (row_bytes width) * rows \<noteq> int (length source) then (CUDA_INVALID, None, q4_weights_destroy w c, mem)
                     else let device_slot = the (consumer_slot c (device_ids c (nat slot)));
                              (status, piece, c) = arena_alloc buft_alignment device_slot (alloc_bytes width) c;
                              (placed, c) = (if status = CUDA_OK then asked c else (False, c))
                          in if \<not> placed then (CUDA_RUNTIME_ERROR, None, q4_weights_destroy w c, mem)
                             else let (ok, c) = create_slot (GraphBuffer (ProductGraph w)) 0 c
                                  in if \<not> ok then (CUDA_RUNTIME_ERROR, None, q4_weights_destroy w c, mem)
                                     else (CUDA_OK, Some (w, the piece), deliver_weights env_staged source (c, mem)))"

text \<open>The descriptors of a token lookup, made at the first lookup; \<open>ready\<close> is \<open>embedding_ready\<close>.\<close>

definition prepare_embedding :: "q4_weights \<Rightarrow> bool \<Rightarrow> q4_context \<Rightarrow> int \<times> bool \<times> q4_context" where
  "prepare_embedding w ready c =
     (if slots c (GraphContext (ProductGraph w)) = None then (CUDA_INVALID, ready, c)
      else if ready then (CUDA_OK, ready, c)
      else let (ok, c) = chain [create_slot (GraphContext (LookupGraph w)) 0, asked, asked,
               create_slot (GraphBuffer (LookupGraph w)) 0, asked] c
           in if ok then (CUDA_OK, True, c) else (CUDA_RUNTIME_ERROR, ready, c))"

end
