(* ===== verification/Q4Ownership.thy ===== *)
theory Q4Ownership
  imports Q4Context
begin

section \<open>What a Q4 context owns\<close>

text \<open>
  That creation and destruction of the context of \<open>Q4Context\<close> keep ownership, and what a destroyed
  context leaves behind: everything in the rings from their third slot on.
\<close>

subsection \<open>Functions that fill fields\<close>

text \<open>
  \<open>makes ss f\<close>: the call \<open>f\<close> fills the fields \<open>ss\<close> when it succeeds, keeps ownership when they were
  empty, touches no other field and cannot fail while the runtime answers every call with success.
\<close>

definition same_shape :: "q4_context \<Rightarrow> q4_context \<Rightarrow> bool" where
  "same_shape c c' \<longleftrightarrow> device_ids c' = device_ids c \<and> extra_bridge_events c' = extra_bridge_events c \<and> plans c' = plans c \<and>
     weight_arenas c' = weight_arenas c"

definition makes :: "q4_slot list \<Rightarrow> q4_context call \<Rightarrow> bool" where
  "makes ss f \<longleftrightarrow> (\<forall>c. same_shape c (snd (f c)) \<and> (\<forall>t. t \<notin> set ss \<longrightarrow> slots (snd (f c)) t = slots c t) \<and>
     (\<forall>order. set ss \<subseteq> set order \<longrightarrow> (\<forall>s\<in>set ss. slots c s = None) \<longrightarrow> keeps q4_kind order c (snd (f c))) \<and>
     (fst (f c) \<longrightarrow> (\<forall>s\<in>set ss. slots (snd (f c)) s \<noteq> None)) \<and>
     (answers c = [] \<longrightarrow> fst (f c) \<and> answers (snd (f c)) = []))"

lemma same_shape_refl [simp]: "same_shape c c" by (simp add: same_shape_def)

lemma same_shape_trans: "same_shape c c' \<Longrightarrow> same_shape c' c'' \<Longrightarrow> same_shape c c''"
  by (simp add: same_shape_def)

lemma asked_shape [simp]: "same_shape c (snd (asked c))"
  by (simp add: asked_def same_shape_def split: list.splits)

lemma create_in_shape [simp]: "same_shape c (snd (create_in k n s c))"
  by (simp add: create_in_def asked_def same_shape_def split: list.splits)

lemma discard_shape: "same_shape c (snd (discard k h c))"
  by (simp add: discard_def asked_release_def same_shape_def split: list.splits option.splits)

lemma drop_slots_shape [simp]: "same_shape c (drop_slots ks ss c)"
proof -
  have "same_shape c (drop_slot k s c)" for k s c
    using discard_shape [of c k "slots c s"] by (simp add: drop_slot_def same_shape_def forget_def)
  then show ?thesis unfolding drop_slots_def by (induction ss arbitrary: c) (simp_all add: same_shape_def)
qed

lemma create_in_answers: "answers c = [] \<Longrightarrow> fst (create_in k n s c) \<and> answers (snd (create_in k n s c)) = []"
  by (simp add: create_in_def asked_def)

lemma create_in_made: "fst (create_in k n s c) \<Longrightarrow> slots (snd (create_in k n s c)) s \<noteq> None"
  by (auto simp: create_in_def split_beta Let_def)

lemma makes_slot: "makes [s] (create_slot s n)"
  unfolding makes_def create_slot_def
  by (auto simp: slots_create_in create_in_made create_in_answers intro: keeps_make)

lemma makes_bytes: "makes [] (record_bytes s n)"
  unfolding makes_def record_bytes_def by (auto simp: same_shape_def set_bytes_def intro: keeps_alike alike_set_bytes [unfolded set_bytes_def])

lemma makes_chain: "list_all2 makes sss fs \<Longrightarrow> distinct (concat sss) \<Longrightarrow> makes (concat sss) (chain fs)"
proof (induction sss fs rule: list_all2_induct)
  case Nil
  then show ?case by (simp add: makes_def keeps_refl)
next
  case (Cons ss sss f fs)
  have IH: "makes (concat sss) (chain fs)" using Cons by simp
  have disj: "set ss \<inter> set (concat sss) = {}" using Cons.prems by simp
  show ?case
    unfolding makes_def
  proof (intro allI)
    fix c
    obtain ok c1 where f: "f c = (ok, c1)" by (cases "f c") auto
    obtain ok2 c2 where fs: "chain fs c1 = (ok2, c2)" by (cases "chain fs c1") auto
    note 1 = Cons.hyps(1) [unfolded makes_def, rule_format, of c, unfolded f fst_conv snd_conv]
    note 2 = IH [unfolded makes_def, rule_format, of c1, unfolded fs fst_conv snd_conv]
    have result: "chain (f # fs) c = (if ok then (ok2, c2) else (False, c1))" by (simp add: f fs)
    have keeps: "keeps q4_kind order c c1 \<and> keeps q4_kind order c1 c2"
      if sub: "set (concat (ss # sss)) \<subseteq> set order" and none: "\<forall>s\<in>set (concat (ss # sss)). slots c s = None" for order
    proof -
      have "slots c1 s = None" if s: "s \<in> set (concat sss)" for s
      proof -
        have "s \<notin> set ss" using s disj by blast
        then have "slots c1 s = slots c s" using 1 by blast
        moreover have "s \<in> set (concat (ss # sss))" using s by simp
        ultimately show ?thesis using none by metis
      qed
      then show ?thesis using 1 2 sub none by auto
    qed
    show "same_shape c (snd (chain (f # fs) c)) \<and>
        (\<forall>t. t \<notin> set (concat (ss # sss)) \<longrightarrow> slots (snd (chain (f # fs) c)) t = slots c t) \<and>
        (\<forall>order. set (concat (ss # sss)) \<subseteq> set order \<longrightarrow> (\<forall>s\<in>set (concat (ss # sss)). slots c s = None) \<longrightarrow>
           keeps q4_kind order c (snd (chain (f # fs) c))) \<and>
        (fst (chain (f # fs) c) \<longrightarrow> (\<forall>s\<in>set (concat (ss # sss)). slots (snd (chain (f # fs) c)) s \<noteq> None)) \<and>
        (answers c = [] \<longrightarrow> fst (chain (f # fs) c) \<and> answers (snd (chain (f # fs) c)) = [])"
      unfolding result
    proof (intro conjI allI impI)
      show "same_shape c (snd (if ok then (ok2, c2) else (False, c1)))" using 1 2 by (auto intro: same_shape_trans)
      show "slots (snd (if ok then (ok2, c2) else (False, c1))) t = slots c t" if "t \<notin> set (concat (ss # sss))" for t
        using that 1 2 by auto
      show "keeps q4_kind order c (snd (if ok then (ok2, c2) else (False, c1)))"
        if "set (concat (ss # sss)) \<subseteq> set order" "\<forall>s\<in>set (concat (ss # sss)). slots c s = None" for order
        using keeps [OF that] by (auto intro: keeps_trans)
      show "\<forall>s\<in>set (concat (ss # sss)). slots (snd (if ok then (ok2, c2) else (False, c1))) s \<noteq> None"
        if "fst (if ok then (ok2, c2) else (False, c1))"
      proof
        fix s assume "s \<in> set (concat (ss # sss))"
        then consider "s \<in> set ss" "s \<notin> set (concat sss)" | "s \<in> set (concat sss)" using disj by auto
        then show "slots (snd (if ok then (ok2, c2) else (False, c1))) s \<noteq> None"
          using that 1 2 by cases (auto split: if_splits)
      qed
      show "fst (if ok then (ok2, c2) else (False, c1))" "answers (snd (if ok then (ok2, c2) else (False, c1))) = []" if "answers c = []"
        using that 1 2 by auto
    qed
  qed
qed

lemma makes_all: "distinct ss \<Longrightarrow> makes ss (create_all ss)"
proof -
  assume ss: "distinct ss"
  let ?fill = "\<lambda>ss. fold (\<lambda>s c. snd (create_in (q4_kind s) 0 s c)) ss :: q4_context \<Rightarrow> q4_context"
  have shape: "same_shape c (?fill ss c)" for c ss
  proof (induction ss arbitrary: c)
    case (Cons s ss)
    show ?case using same_shape_trans [OF create_in_shape Cons.IH] by simp
  qed simp
  have frame: "t \<notin> set ss \<Longrightarrow> slots (?fill ss c) t = slots c t" for t c ss
    by (induction ss arbitrary: c) (auto simp: slots_create_in)
  have keep: "keeps q4_kind order c (?fill ss c)" if "distinct ss" "set ss \<subseteq> set order" "\<forall>s\<in>set ss. slots c s = None" for order c ss
    using that
  proof (induction ss arbitrary: c)
    case (Cons s ss)
    have "keeps q4_kind order c (snd (create_in (q4_kind s) 0 s c))" using Cons.prems by (intro keeps_make) auto
    moreover have "\<forall>t\<in>set ss. slots (snd (create_in (q4_kind s) 0 s c)) t = None"
    proof
      fix t assume "t \<in> set ss"
      then have "t \<noteq> s" "slots c t = None" using Cons.prems by auto
      then show "slots (snd (create_in (q4_kind s) 0 s c)) t = None" by (simp add: slots_create_in)
    qed
    then have "keeps q4_kind order (snd (create_in (q4_kind s) 0 s c)) (?fill ss (snd (create_in (q4_kind s) 0 s c)))"
      using Cons by auto
    ultimately show ?case by (auto intro: keeps_trans)
  qed auto
  have all: "answers (?fill ss c) = [] \<and> (\<forall>s\<in>set ss. slots (?fill ss c) s \<noteq> None)" if "distinct ss" "answers c = []" for c ss
    using that
  proof (induction ss arbitrary: c)
    case (Cons s ss)
    let ?c = "snd (create_in (q4_kind s) 0 s c)"
    have "slots (?fill ss ?c) s = slots ?c s" using Cons.prems(1) by (intro frame) simp
    then show ?case
      using Cons.IH [of ?c] Cons.prems create_in_answers [of c "q4_kind s" 0 s] create_in_made [of "q4_kind s" 0 s c] by auto
  qed auto
  show ?thesis unfolding makes_def create_all_def Let_def fst_conv snd_conv using shape frame keep [OF ss] all [OF ss] by blast
qed

lemma edges_distinct: "distinct edges" "set edges = UNIV"
proof -
  show "distinct edges" by (simp add: edges_def)
  have "e \<in> set edges" for e by (cases e) (simp_all add: edges_def)
  then show "set edges = UNIV" by blast
qed

lemma makes_bridge_events: "makes (map (\<lambda>e. Edge e n) edges) (create_bridge_events n)"
proof -
  let ?ss = "map (\<lambda>e. Edge e n) edges"
  have "distinct ?ss" using edges_distinct by (simp add: distinct_map inj_on_def)
  note m = makes_all [OF this, unfolded makes_def, rule_format]
  show ?thesis unfolding makes_def
  proof (intro allI)
    fix c
    obtain ok c1 where f: "create_all ?ss c = (ok, c1)" by (cases "create_all ?ss c") auto
    have result: "create_bridge_events n c = (if ok then (True, c1) else (False, drop_slots q4_kind ?ss c1))"
      by (simp add: create_bridge_events_def f free_bridge_events_def)
    show "same_shape c (snd (create_bridge_events n c)) \<and>
        (\<forall>t. t \<notin> set ?ss \<longrightarrow> slots (snd (create_bridge_events n c)) t = slots c t) \<and>
        (\<forall>order. set ?ss \<subseteq> set order \<longrightarrow> (\<forall>s\<in>set ?ss. slots c s = None) \<longrightarrow> keeps q4_kind order c (snd (create_bridge_events n c))) \<and>
        (fst (create_bridge_events n c) \<longrightarrow> (\<forall>s\<in>set ?ss. slots (snd (create_bridge_events n c)) s \<noteq> None)) \<and>
        (answers c = [] \<longrightarrow> fst (create_bridge_events n c) \<and> answers (snd (create_bridge_events n c)) = [])"
      using m [of c] unfolding result f fst_conv snd_conv
      by (auto simp: slots_drop_slots intro: same_shape_trans keeps_trans [OF _ keeps_drop_slots])
  qed
qed


subsection \<open>Creation\<close>

definition bridge_slots :: "q4_slot list" where
  "bridge_slots = [BridgeStream 0, BridgeStream 1, BridgeActivation 1, BridgeOutput 1] @
     concat (map (\<lambda>i. [RingReady InputRing i, RingFree OutputRing i]) [0..<host_bridge_slots]) @
     concat (map (\<lambda>i. [RingFree InputRing i, RingReady OutputRing i]) [0..<host_bridge_slots]) @
     concat (map (\<lambda>n. map (\<lambda>e. Edge e (RingSet n)) edges) [0..<event_slots])"

lemma distinct_concat_map:
  "distinct xs \<Longrightarrow> (\<And>x. x \<in> set xs \<Longrightarrow> distinct (f x)) \<Longrightarrow>
   (\<And>x y. x \<in> set xs \<Longrightarrow> y \<in> set xs \<Longrightarrow> x \<noteq> y \<Longrightarrow> set (f x) \<inter> set (f y) = {}) \<Longrightarrow> distinct (concat (map f xs))"
  by (induction xs) auto

lemma bridge_slots_distinct: "distinct bridge_slots"
proof -
  have "distinct (concat (map (\<lambda>n. map (\<lambda>e. Edge e (RingSet n)) edges) [0..<event_slots]))"
    using edges_distinct by (intro distinct_concat_map) (auto simp: distinct_map inj_on_def)
  moreover have "distinct (concat (map (\<lambda>i. [RingReady InputRing i, RingFree OutputRing i]) [0..<host_bridge_slots]))"
    "distinct (concat (map (\<lambda>i. [RingFree InputRing i, RingReady OutputRing i]) [0..<host_bridge_slots]))"
    by (intro distinct_concat_map; auto)+
  ultimately show ?thesis by (auto simp: bridge_slots_def)
qed

lemma makes_map: "(\<And>x. x \<in> set xs \<Longrightarrow> list_all2 makes (g x) (f x)) \<Longrightarrow> list_all2 makes (concat (map g xs)) (concat (map f xs))"
  by (induction xs) (auto intro: list_all2_appendI)

lemma makes_singles: "list_all2 makes (map (\<lambda>x. [g x]) xs) (map (\<lambda>x. create_slot (g x) 0) xs)"
  by (simp add: list_all2_conv_all_nth makes_slot)

lemma makes_bridge: "makes bridge_slots create_bridge"
proof -
  let ?sss = "[[BridgeStream 0], [BridgeStream 1], [BridgeActivation 1], [BridgeOutput 1], [], []] @
     concat (map (\<lambda>i. [[RingReady InputRing i], [RingFree OutputRing i]]) [0..<host_bridge_slots]) @
     concat (map (\<lambda>i. [[RingFree InputRing i], [RingReady OutputRing i]]) [0..<host_bridge_slots]) @
     map (\<lambda>n. map (\<lambda>e. Edge e (RingSet n)) edges) [0..<event_slots]"
  have concat_pairs: "concat (concat (map (\<lambda>i. [[f i], [g i]]) xs)) = concat (map (\<lambda>i. [f i, g i]) xs)" for f g :: "nat \<Rightarrow> q4_slot" and xs
    by (induction xs) simp_all
  have c: "concat ?sss = bridge_slots" by (simp add: bridge_slots_def concat_pairs)
  have "makes (concat ?sss) create_bridge"
    unfolding create_bridge_def
  proof (rule makes_chain)
    show "distinct (concat ?sss)" unfolding c by (rule bridge_slots_distinct)
    have "list_all2 makes (map (\<lambda>n. map (\<lambda>e. Edge e (RingSet n)) edges) [0..<event_slots]) (map (\<lambda>n. create_bridge_events (RingSet n)) [0..<event_slots])"
      by (simp add: list_all2_conv_all_nth makes_bridge_events)
    moreover have "list_all2 makes (concat (map (\<lambda>i. [[f i], [g i]]) xs)) (concat (map (\<lambda>i. [create_slot (f i) 0, create_slot (g i) 0]) xs))"
      for f g :: "nat \<Rightarrow> q4_slot" and xs by (rule makes_map) (simp add: makes_slot)
    ultimately show "list_all2 makes ?sss ([create_slot (BridgeStream 0) 0, create_slot (BridgeStream 1) 0,
       create_slot (BridgeActivation 1) bridge_activation_reserve, create_slot (BridgeOutput 1) bridge_output_reserve,
       record_bytes (BridgeActivation 1) bridge_activation_reserve, record_bytes (BridgeOutput 1) bridge_output_reserve] @
      concat (map (\<lambda>i. [create_slot (RingReady InputRing i) 0, create_slot (RingFree OutputRing i) 0]) [0..<host_bridge_slots]) @
      concat (map (\<lambda>i. [create_slot (RingFree InputRing i) 0, create_slot (RingReady OutputRing i) 0]) [0..<host_bridge_slots]) @
      map (\<lambda>n. create_bridge_events (RingSet n)) [0..<event_slots])"
      by (intro list_all2_appendI) (simp_all add: makes_slot makes_bytes)
  qed
  then show ?thesis unfolding c .
qed

text \<open>All a new context owns, on two devices or on one.\<close>

definition backend_slots :: "bool \<Rightarrow> q4_slot list" where
  "backend_slots two = (if two then [Backend 0, Backend 1, CpuBackend] else [Backend 0, CpuBackend])"

definition producer_slots :: "q4_slot list" where
  "producer_slots = map (Producer 0) [0..<event_slots] @ map (Producer 1) [0..<event_slots]"

definition new_slots :: "bool \<Rightarrow> q4_slot list" where
  "new_slots two = backend_slots two @ (if two then bridge_slots else []) @ producer_slots"

lemma new_slots_distinct: "distinct (new_slots two)"
  using bridge_slots_distinct by (auto simp: new_slots_def backend_slots_def producer_slots_def bridge_slots_def distinct_map inj_on_def)

lemma makes_rest:
  "makes ((if two then bridge_slots else []) @ producer_slots)
     (chain ((if two then [create_bridge] else []) @
        map (\<lambda>n. create_slot (Producer 0 n) 0) [0..<event_slots] @ map (\<lambda>n. create_slot (Producer 1 n) 0) [0..<event_slots]))"
proof -
  let ?sss = "(if two then [bridge_slots] else []) @ map (\<lambda>n. [Producer 0 n]) [0..<event_slots] @ map (\<lambda>n. [Producer 1 n]) [0..<event_slots]"
  have single: "concat (map (\<lambda>n. [f n]) xs) = map f xs" for f :: "nat \<Rightarrow> q4_slot" and xs by (induction xs) simp_all
  have c: "concat ?sss = (if two then bridge_slots else []) @ producer_slots" by (simp add: producer_slots_def single)
  show ?thesis unfolding c [symmetric]
  proof (rule makes_chain)
    show "distinct (concat ?sss)" unfolding c using new_slots_distinct [of two] by (simp add: new_slots_def)
    show "list_all2 makes ?sss ((if two then [create_bridge] else []) @
        map (\<lambda>n. create_slot (Producer 0 n) 0) [0..<event_slots] @ map (\<lambda>n. create_slot (Producer 1 n) 0) [0..<event_slots])"
      by (intro list_all2_appendI makes_singles) (simp add: makes_bridge)
  qed
qed

definition new_q4 :: "q4_context \<Rightarrow> bool" where
  "new_q4 c \<longleftrightarrow> slots c = (\<lambda>_. None) \<and> faults c = 0 \<and> (\<forall>p. live c p \<noteq> None \<longrightarrow> p < fresh c) \<and> releases_succeed c"

lemma new_q4_sound: "new_q4 c \<Longrightarrow> sound kinds order c"
  by (simp add: new_q4_def sound_def)

lemma created_q4:
  assumes "new_q4 c" and "q4_context_create out first second env new_ok c = (status, created, c')"
  shows "created \<longleftrightarrow> status = CUDA_OK"
    and "status = CUDA_OK \<Longrightarrow> sound q4_kind (new_slots (first \<noteq> second)) c' \<and> strays c' = live c \<and> releases_succeed c' \<and>
      (\<forall>s. slots c' s \<noteq> None \<longleftrightarrow> s \<in> set (new_slots (first \<noteq> second))) \<and>
      device_ids c' 0 = first \<and> device_ids c' 1 = second \<and> extra_bridge_events c' = 0 \<and> plans c' = [] \<and> weight_arenas c' = (\<lambda>_. [])"
    and "0 \<le> first \<Longrightarrow> 0 \<le> second \<Longrightarrow> out \<Longrightarrow> new_ok \<Longrightarrow> answers c = [] \<Longrightarrow> status = CUDA_OK"
proof -
  let ?two = "first \<noteq> second"
  define c0 where "c0 = c\<lparr>device_ids := (\<lambda>i. if i = 0 then first else second), segment_graph_requested := segment_graph_asked (env_segment env),
                 sync_bridge_requested := sync_bridge_asked (env_sync env),
                 use_peer_copy := (case env_peer env of None \<Rightarrow> False | Some v \<Rightarrow> says_yes v),
                 consumer_stream := (\<lambda>_. None), producer_event_index := (\<lambda>_. 0), bridge_event_index := 0, extra_bridge_events := 0,
                 last_activation_done := None, last_output_free := None, host_index := (\<lambda>_. 0), free_recorded := (\<lambda>_ _. False),
                 weight_arenas := (\<lambda>_. []), plans := [], graph_caches := no_caches\<rparr>"
  obtain ok1 c1 where 1: "create_all (backend_slots ?two) c0 = (ok1, c1)" by (cases "create_all (backend_slots ?two) c0") auto
  define rest where "rest = chain ((if ?two then [create_bridge] else []) @
        map (\<lambda>n. create_slot (Producer 0 n) 0) [0..<event_slots] @ map (\<lambda>n. create_slot (Producer 1 n) 0) [0..<event_slots])"
  obtain ok2 c2 where 2: "rest c1 = (ok2, c2)" by (cases "rest c1") auto
  have backends: "(if first = second then [Backend 0, CpuBackend] else [Backend 0, Backend 1, CpuBackend]) = backend_slots ?two"
    by (simp add: backend_slots_def)
  have sides: "(if first \<noteq> second then [create_bridge] else []) = (if ?two then [create_bridge] else [])" by simp
  have result: "(status, created, c') = (if \<not> out \<or> first < 0 \<or> second < 0 then (CUDA_INVALID, False, c)
      else if \<not> new_ok then (CUDA_RUNTIME_ERROR, False, c)
      else if ok1 \<and> ok2 then (CUDA_OK, True, c2) else (CUDA_RUNTIME_ERROR, False, q4_context_destroy (if ok1 then c2 else c1)))"
    using assms(2) [symmetric] unfolding q4_context_create_def c0_def [symmetric] backends Let_def 1 prod.case rest_def [symmetric]
    by (cases ok1) (simp_all add: 2)
  then show "created \<longleftrightarrow> status = CUDA_OK" by (auto split: if_splits)
  note m1 = makes_all [of "backend_slots ?two", unfolded makes_def, rule_format, of c0, unfolded 1 fst_conv snd_conv]
  note m2 = makes_rest [of ?two, folded rest_def, unfolded makes_def, rule_format, of c1, unfolded 2 fst_conv snd_conv]
  have d: "distinct (backend_slots ?two)" using new_slots_distinct [of ?two] by (simp add: new_slots_def)
  note m1 = m1 [OF d]
  have c0: "slots c0 = (\<lambda>_. None)" "live c0 = live c" "fresh c0 = fresh c" "faults c0 = 0" "releases_succeed c0" "answers c0 = answers c"
    using assms(1) by (simp_all add: c0_def new_q4_def releases_succeed_def)
  have s0: "sound q4_kind order c0" "strays c0 = live c" for order
    using assms(1) c0 by (auto simp: sound_def new_q4_def strays_all)
  have k1: "keeps q4_kind (new_slots ?two) c0 c1" using m1 c0 by (simp add: new_slots_def)
  have empty: "slots c1 s = None" if "s \<in> set ((if ?two then bridge_slots else []) @ producer_slots)" for s
  proof -
    have "s \<notin> set (backend_slots ?two)" using new_slots_distinct [of ?two] that by (auto simp: new_slots_def)
    then show ?thesis using m1 c0 by simp
  qed
  have k2: "keeps q4_kind (new_slots ?two) c1 c2" 
  proof -
    have "set ((if ?two then bridge_slots else []) @ producer_slots) \<subseteq> set (new_slots ?two)" by (simp add: new_slots_def)
    then show ?thesis using m2 empty by blast
  qed
  show "status = CUDA_OK" if "0 \<le> first" "0 \<le> second" out new_ok "answers c = []"
    using that result m1 m2 c0(6) by auto
  assume "status = CUDA_OK"
  then have r: "ok1" "ok2" "c' = c2" using result by (auto split: if_splits)
  have "keeps q4_kind (new_slots ?two) c0 c'" using keeps_trans [OF k1 k2] r by simp
  then have k: "sound q4_kind (new_slots ?two) c'" "releases_succeed c'" "strays c' = live c"
    using s0 c0(5) by (simp_all add: keeps_def)
  have filled: "slots c' s \<noteq> None \<longleftrightarrow> s \<in> set (new_slots ?two)" for s
  proof
    assume "s \<in> set (new_slots ?two)"
    then consider "s \<in> set (backend_slots ?two)" "s \<notin> set ((if ?two then bridge_slots else []) @ producer_slots)"
      | "s \<in> set ((if ?two then bridge_slots else []) @ producer_slots)"
      using new_slots_distinct [of ?two] by (auto simp: new_slots_def)
    then show "slots c' s \<noteq> None" using m1 m2 r by cases auto
  next
    assume "slots c' s \<noteq> None"
    then obtain p where "slots c' s = Some p" by auto
    then show "s \<in> set (new_slots ?two)" using k(1) unfolding sound_def by blast
  qed
  have "same_shape c0 c'" using m1 m2 r same_shape_trans by blast
  then show "sound q4_kind (new_slots ?two) c' \<and> strays c' = live c \<and> releases_succeed c' \<and> (\<forall>s. slots c' s \<noteq> None \<longleftrightarrow> s \<in> set (new_slots ?two)) \<and>
      device_ids c' 0 = first \<and> device_ids c' 1 = second \<and> extra_bridge_events c' = 0 \<and> plans c' = [] \<and> weight_arenas c' = (\<lambda>_. [])"
    using k filled by (simp add: same_shape_def c0_def)
qed


subsection \<open>Destruction\<close>

lemma drop_slots_untouched: "\<forall>s\<in>set ss. slots m s \<noteq> Some p \<Longrightarrow> live (drop_slots kinds ss m) p = live m p"
proof (induction ss arbitrary: m)
  case (Cons s ss)
  have "live (drop_slot (kinds s) s m) p = live m p"
  proof (cases "slots m s")
    case (Some q)
    obtain ok m1 where d: "discard (kinds s) (Some q) m = (ok, m1)" by (cases "discard (kinds s) (Some q) m") auto
    have "q \<noteq> p" using Cons.prems Some by auto
    then show ?thesis using discard_frame(4) [OF d, of p] Some d by (simp add: drop_slot_def)
  qed (simp add: drop_slot_def)
  moreover have "slots (drop_slot (kinds s) s m) = (slots m)(s := None)"
    by (auto simp: drop_slot_def fun_eq_iff)
  ultimately show ?case using Cons.IH [of "drop_slot (kinds s) s m"] Cons.prems by (simp add: drop_slots_def)
qed (simp add: drop_slots_def)

text \<open>
  What is live after a context was destroyed: what it did not own, and what its fields hold that the
  destruction does not visit.
\<close>

lemma destroyed_q4:
  assumes "sound q4_kind order c" and "releases_succeed c"
  shows "faults (q4_context_destroy c) = 0"
    and "live (q4_context_destroy c) p = (if \<exists>s. slots c s = Some p \<and> s \<notin> set (q4_destroy_order c) then live c p else strays c p)"
proof -
  let ?d = "q4_context_destroy c"
  have k: "sound q4_kind order ?d" "strays ?d = strays c"
    using keeps_drop_slots [of q4_kind order c "q4_destroy_order c"] assms by (simp_all add: keeps_def q4_context_destroy_def)
  show "faults ?d = 0" by (rule sound_faults [OF k(1)])
  have sl: "slots ?d s = (if s \<in> set (q4_destroy_order c) then None else slots c s)" for s
    by (simp add: q4_context_destroy_def slots_drop_slots)
  show "live ?d p = (if \<exists>s. slots c s = Some p \<and> s \<notin> set (q4_destroy_order c) then live c p else strays c p)"
  proof (cases "\<exists>s. slots c s = Some p \<and> s \<notin> set (q4_destroy_order c)")
    case True
    then obtain s where s: "slots c s = Some p" "s \<notin> set (q4_destroy_order c)" by blast
    have "slots c t \<noteq> Some p" if "t \<in> set (q4_destroy_order c)" for t
      using sound_inj [OF assms(1) s(1), of t] s(2) that by auto
    then show ?thesis using drop_slots_untouched [of "q4_destroy_order c" c p] True by (simp add: q4_context_destroy_def)
  next
    case False
    then have "Some p \<notin> range (slots ?d)" using sl by (auto simp: image_iff split: if_splits)
    then have "strays ?d p = live ?d p" by (simp add: strays_def)
    then show ?thesis unfolding if_not_P [OF False] using k(2) by simp
  qed
qed

definition left_behind :: "q4_slot list" where
  "left_behind = concat (map (\<lambda>i. [RingReady InputRing i, RingFree InputRing i, RingReady OutputRing i, RingFree OutputRing i]) [2..<host_bridge_slots])"

lemma new_slots_mem:
  "s \<in> set (new_slots two) \<longleftrightarrow> (case s of Backend n \<Rightarrow> n = 0 \<or> two \<and> n = 1 | CpuBackend \<Rightarrow> True | BridgeStream n \<Rightarrow> two \<and> n < 2
     | BridgeActivation n \<Rightarrow> two \<and> n = 1 | BridgeOutput n \<Rightarrow> two \<and> n = 1 | RingReady r n \<Rightarrow> two \<and> n < host_bridge_slots
     | RingFree r n \<Rightarrow> two \<and> n < host_bridge_slots | Edge e (RingSet n) \<Rightarrow> two \<and> n < event_slots
     | Producer i n \<Rightarrow> i < 2 \<and> n < event_slots | _ \<Rightarrow> False)"
proof -
  have ring: "r = InputRing \<or> r = OutputRing" for r by (cases r) simp_all
  have e: "e \<in> set edges" for e by (simp add: edges_distinct)
  show ?thesis
  proof (cases s)
    case (RingReady r n)
    then show ?thesis using ring [of r] by (auto simp: new_slots_def backend_slots_def producer_slots_def bridge_slots_def)
  next
    case (RingFree r n)
    then show ?thesis using ring [of r] by (auto simp: new_slots_def backend_slots_def producer_slots_def bridge_slots_def)
  next
    case (Edge x b)
    then show ?thesis by (cases b) (auto simp: new_slots_def backend_slots_def producer_slots_def bridge_slots_def image_iff e)
  qed (auto simp: new_slots_def backend_slots_def producer_slots_def bridge_slots_def less_2_cases_iff image_iff)
qed

lemma destroy_side_mem:
  "s \<in> set (destroy_side two i) \<longleftrightarrow> (case s of BridgeStream n \<Rightarrow> n = i | BridgeActivation n \<Rightarrow> n = i | BridgeOutput n \<Rightarrow> n = i
     | RingReady r n \<Rightarrow> n = i | RingFree r n \<Rightarrow> n = i | RingBuffer r n \<Rightarrow> n = i
     | Edge e (RingSet n) \<Rightarrow> two \<and> n < event_slots \<and> (i = 0 \<and> e \<in> {SourceReady, PrimaryDone} \<or> i = 1 \<and> e \<in> {RemoteReady, RemoteDone, OutputFree})
     | Producer j n \<Rightarrow> j = i \<and> n < event_slots | _ \<Rightarrow> False)"
proof -
  have ring: "r = InputRing \<or> r = OutputRing" for r by (cases r) simp_all
  show ?thesis
  proof (cases s)
    case (RingReady r n)
    then show ?thesis using ring [of r] by (auto simp: destroy_side_def edges_of_def)
  next
    case (RingFree r n)
    then show ?thesis using ring [of r] by (auto simp: destroy_side_def edges_of_def)
  next
    case (RingBuffer r n)
    then show ?thesis using ring [of r] by (auto simp: destroy_side_def edges_of_def)
  next
    case (Edge x b)
    then show ?thesis by (cases b) (auto simp: destroy_side_def edges_of_def)
  qed (auto simp: destroy_side_def edges_of_def)
qed

lemma left_behind_mem:
  "s \<in> set left_behind \<longleftrightarrow> (case s of RingReady r n \<Rightarrow> 2 \<le> n \<and> n < host_bridge_slots | RingFree r n \<Rightarrow> 2 \<le> n \<and> n < host_bridge_slots | _ \<Rightarrow> False)"
proof -
  have ring: "r = InputRing \<or> r = OutputRing" for r by (cases r) simp_all
  show ?thesis
  proof (cases s)
    case (RingReady r n)
    then show ?thesis using ring [of r] by (auto simp: left_behind_def)
  next
    case (RingFree r n)
    then show ?thesis using ring [of r] by (auto simp: left_behind_def)
  qed (auto simp: left_behind_def)
qed

lemma left_behind_of_new:
  assumes "device_ids c 0 = first" and "device_ids c 1 = second" and "extra_bridge_events c = 0" and "plans c = []" and "weight_arenas c = (\<lambda>_. [])"
  shows "s \<in> set (new_slots (first \<noteq> second)) \<and> s \<notin> set (q4_destroy_order c) \<longleftrightarrow> first \<noteq> second \<and> s \<in> set left_behind"
proof -
  have order: "s \<in> set (q4_destroy_order c) \<longleftrightarrow> s \<in> set (destroy_side (first \<noteq> second) 0) \<or> s \<in> set (destroy_side (first \<noteq> second) 1) \<or>
      s \<in> {HostBridge, Backend 0, Backend 1, CpuBackend}"
    using assms by (auto simp: q4_destroy_order_def Let_def q4_batch_plans_def q4_lookup_plans_def q4_group_plans_def q4_swiglu_plans_def q4_ffn_plans_def)
  have e: "x \<in> {SourceReady, PrimaryDone} \<or> x \<in> {RemoteReady, RemoteDone, OutputFree}" for x by (cases x) simp_all
  let ?visited = "s \<in> set (destroy_side (first \<noteq> second) 0) \<or> s \<in> set (destroy_side (first \<noteq> second) 1) \<or>
      s \<in> {HostBridge, Backend 0, Backend 1, CpuBackend}"
  have "(s \<in> set (new_slots (first \<noteq> second)) \<and> \<not> ?visited) = (first \<noteq> second \<and> s \<in> set left_behind)"
  proof (cases s)
    case (Edge x b)
    then show ?thesis using e [of x] by (cases b) (auto simp: new_slots_mem destroy_side_mem left_behind_mem)
  qed (auto simp: new_slots_mem destroy_side_mem left_behind_mem host_bridge_slots_def)
  then show ?thesis unfolding order .
qed

subsection \<open>Properties\<close>

text \<open>
  C36: A context on two devices is not taken down whole: after its creation and destruction, whatever the
  device answers, the 24 events of the slots 2 to 7 of the two rings are still there, since the loop over
  the 2 devices is the only one over the 8 slots. A context on one device leaves nothing behind.
\<close>

theorem destroyed_rings_leak:
  assumes "new_q4 c" and "q4_context_create out first second env new_ok c = (CUDA_OK, created, c')"
  shows "faults (q4_context_destroy c') = 0 \<and>
    (if first = second then live (q4_context_destroy c') = live c
     else card {p. live (q4_context_destroy c') p \<noteq> live c p} = 24 \<and>
       (\<forall>p. live (q4_context_destroy c') p \<noteq> live c p \<longrightarrow> live c p = None \<and> map_option fst (live (q4_context_destroy c') p) = Some Event))"
proof -
  let ?d = "q4_context_destroy c'"
  have made: "sound q4_kind (new_slots (first \<noteq> second)) c' \<and> strays c' = live c \<and> releases_succeed c' \<and>
      (\<forall>s. slots c' s \<noteq> None \<longleftrightarrow> s \<in> set (new_slots (first \<noteq> second))) \<and>
      device_ids c' 0 = first \<and> device_ids c' 1 = second \<and> extra_bridge_events c' = 0 \<and> plans c' = [] \<and> weight_arenas c' = (\<lambda>_. [])"
    by (rule created_q4(2) [OF assms refl])
  then have r: "sound q4_kind (new_slots (first \<noteq> second)) c'" "strays c' = live c" "releases_succeed c'"
      "\<And>s. slots c' s \<noteq> None \<longleftrightarrow> s \<in> set (new_slots (first \<noteq> second))"
    by (simp_all only: simp_thms)
  have rest: "s \<in> set (new_slots (first \<noteq> second)) \<and> s \<notin> set (q4_destroy_order c') \<longleftrightarrow> first \<noteq> second \<and> s \<in> set left_behind" for s
    by (rule left_behind_of_new) (use made in \<open>simp_all only: simp_thms\<close>)
  note d = destroyed_q4 [OF r(1,3)]
  define kept where "kept p \<longleftrightarrow> (\<exists>s. slots c' s = Some p \<and> s \<notin> set (q4_destroy_order c'))" for p
  have kept: "kept p \<longleftrightarrow> first \<noteq> second \<and> (\<exists>s\<in>set left_behind. slots c' s = Some p)" for p
  proof -
    have "s \<in> set (new_slots (first \<noteq> second))" if "slots c' s = Some p" for s using that r(4) [of s] by simp
    then show ?thesis unfolding kept_def using rest by blast
  qed
  have live: "live ?d p = (if kept p then live c' p else live c p)" for p by (simp only: d(2) kept_def r(2))
  have owned: "map_option fst (live c' p) = Some Event \<and> live c p = None" if k: "kept p" for p
  proof -
    obtain s where s: "s \<in> set left_behind" "slots c' s = Some p" using k [unfolded kept] by blast
    then have "Some p \<in> range (slots c')" using rangeI [of "slots c'" s] by simp
    then have "strays c' p = None" by (simp add: strays_def)
    moreover have "q4_kind s = Event" using s(1) [unfolded left_behind_mem] by (cases s rule: q4_slot.exhaust) simp_all
    ultimately show ?thesis using sound_slot [OF r(1) s(2)] r(2) by simp
  qed
  have differ: "live ?d p \<noteq> live c p \<longleftrightarrow> kept p" for p using live [of p] owned [of p] by auto
  show ?thesis
  proof (cases "first = second")
    case True
    then have "live ?d p = live c p" for p using differ [of p] kept [of p] by simp
    then have "live ?d = live c" by blast
    then show ?thesis using True d(1) by simp
  next
    case False
    have "inj_on (\<lambda>s. the (slots c' s)) (set left_behind)"
    proof (rule inj_onI)
      fix s t assume st: "s \<in> set left_behind" "t \<in> set left_behind" "the (slots c' s) = the (slots c' t)"
      have "slots c' s \<noteq> None" "slots c' t \<noteq> None" using r(4) rest st(1,2) False by blast+
      then obtain p q where "slots c' s = Some p" "slots c' t = Some q" by auto
      then show "s = t" using sound_inj [OF r(1)] st(3) by auto
    qed
    moreover have "{p. live ?d p \<noteq> live c p} = (\<lambda>s. the (slots c' s)) ` set left_behind"
      
    proof (intro set_eqI iffI)
      fix p assume "p \<in> {p. live ?d p \<noteq> live c p}"
      then obtain s where "s \<in> set left_behind" "slots c' s = Some p" using differ [of p] kept [of p] by auto
      then show "p \<in> (\<lambda>s. the (slots c' s)) ` set left_behind" by (auto simp: image_iff intro!: bexI [of _ s])
    next
      fix p assume "p \<in> (\<lambda>s. the (slots c' s)) ` set left_behind"
      then obtain s where s: "s \<in> set left_behind" "p = the (slots c' s)" by blast
      then have "slots c' s \<noteq> None" using r(4) rest False by blast
      then have "kept p" using s False kept [of p] by auto
      then show "p \<in> {p. live ?d p \<noteq> live c p}" using differ [of p] by simp
    qed
    moreover have "distinct left_behind" "length left_behind = 24"
      by (simp_all add: left_behind_def host_bridge_slots_def upt_rec)
    ultimately have "card {p. live ?d p \<noteq> live c p} = 24" by (simp add: card_image distinct_card)
    moreover have "live c p = None \<and> map_option fst (live ?d p) = Some Event" if "live ?d p \<noteq> live c p" for p
      using that differ [of p] live [of p] owned [of p] by auto
    ultimately show ?thesis using False d(1) by simp
  qed
qed

definition no_q4 :: q4_context where
  "no_q4 = \<lparr>live = (\<lambda>_. None), fresh = 0, faults = 0, answers = [], release_answers = [], slots = (\<lambda>_. None), capacity = (\<lambda>_. 0),
     device_ids = (\<lambda>_. 0), segment_graph_requested = True, sync_bridge_requested = False, use_peer_copy = False,
     consumer_stream = (\<lambda>_. None), producer_event_index = (\<lambda>_. 0), bridge_event_index = 0, extra_bridge_events = 0,
     last_activation_done = None, last_output_free = None, host_index = (\<lambda>_. 0), free_recorded = (\<lambda>_ _. False),
     weight_arenas = (\<lambda>_. []), plans = [], graph_caches = no_caches, outer_capture = (\<lambda>_. False), line = empty_timeline\<rparr>"

definition no_environment :: q4_environment where
  "no_environment = \<lparr>env_unified = None, env_segment = None, env_sync = None, env_peer = None\<rparr>"

theorem destroyed_rings_leak_witness:
  "\<exists>c. q4_context_create True 0 1 no_environment True no_q4 = (CUDA_OK, True, c) \<and> card {p. live (q4_context_destroy c) p \<noteq> None} = 24"
proof -
  have new: "new_q4 no_q4" by (simp add: new_q4_def no_q4_def releases_succeed_def)
  obtain status created c where r: "q4_context_create True 0 1 no_environment True no_q4 = (status, created, c)" by (metis prod_cases3)
  have "status = CUDA_OK" "created"
    using created_q4(1,3) [OF new r] by (simp_all add: no_q4_def)
  moreover have "card {p. live (q4_context_destroy c) p \<noteq> live no_q4 p} = 24"
    using destroyed_rings_leak [OF new, of True 0 1 no_environment True created c] r \<open>status = CUDA_OK\<close> by simp
  ultimately show ?thesis using r by (simp add: no_q4_def)
qed

end
