(* ===== verification/Q4Memory.thy ===== *)
theory Q4Memory
  imports Q4Ownership
begin

section \<open>Memory for Q4 weights\<close>

text \<open>
  Facts on \<open>Q4Context\<close>: the pieces that the arenas hand out lie in live buffers and do not overlap, an
  upload leaves the bytes of the file on the device whether it was staged or not, and a lookup whose
  preparation failed half-way loses its descriptors when it is tried again.
\<close>

subsection \<open>Staging\<close>

lemma round_up_enough: "0 < d \<Longrightarrow> n \<le> (n + d - 1) div d * d" for n d :: nat
proof -
  assume d: "0 < d"
  have "(n + d - 1) mod d < d" using d by simp
  moreover have "(n + d - 1) div d * d + (n + d - 1) mod d = n + d - 1" by simp
  ultimately show ?thesis using d by linarith
qed

lemma stage_chunk_dest:
  assumes "stage_chunk source required offset (c, stage, dest) = (ok, c', stage', dest')"
  shows "dest' i = (if ok \<and> offset \<le> i \<and> i < min (offset + required) (length source) then source ! i else dest i)"
  using assms by (auto simp: stage_chunk_def Let_def split_beta split: if_splits)

lemma stage_chunks_dest:
  assumes "chain (map (\<lambda>k. stage_chunk source required (k * required)) [0..<n]) (c, stage, dest) = (ok, c', stage', dest')"
  shows "i < length source \<Longrightarrow> dest' i = source ! i \<or> dest' i = dest i" and "length source \<le> i \<Longrightarrow> dest' i = dest i"
    and "ok \<Longrightarrow> i < min (n * required) (length source) \<Longrightarrow> dest' i = source ! i"
proof -
  have "(i < length source \<longrightarrow> dest' i = source ! i \<or> dest' i = dest i) \<and> (length source \<le> i \<longrightarrow> dest' i = dest i) \<and>
      (ok \<longrightarrow> i < length source \<longrightarrow> (\<exists>k\<in>set ks. k * required \<le> i \<and> i < (k + 1) * required) \<or> dest i = source ! i \<longrightarrow> dest' i = source ! i)"
    if "chain (map (\<lambda>k. stage_chunk source required (k * required)) ks) (c, stage, dest) = (ok, c', stage', dest')" for ks
    using that
  proof (induction ks arbitrary: c stage dest)
    case (Cons k ks)
    obtain ok1 c1 stage1 dest1 where 1: "stage_chunk source required (k * required) (c, stage, dest) = (ok1, c1, stage1, dest1)"
      by (metis prod_cases4)
    note d = stage_chunk_dest [OF 1, of i]
    show ?case
    proof (cases ok1)
      case True
      then have rest: "chain (map (\<lambda>k. stage_chunk source required (k * required)) ks) (c1, stage1, dest1) = (ok, c', stage', dest')"
        using Cons.prems 1 by simp
      show ?thesis using Cons.IH [OF rest] d True by (auto simp: add.commute split: if_splits)
    next
      case False
      then have "dest' = dest1" "\<not> ok" using Cons.prems 1 by simp_all
      then show ?thesis using d False by simp
    qed
  qed simp
  note all = this [OF assms]
  show "i < length source \<Longrightarrow> dest' i = source ! i \<or> dest' i = dest i" "length source \<le> i \<Longrightarrow> dest' i = dest i" using all by simp_all
  assume ok and i: "i < min (n * required) (length source)"
  have "i div required < n" "i div required * required \<le> i" "i < (i div required + 1) * required"
    using i by (auto simp: less_mult_imp_div_less) (metis add.commute dividend_less_times_div mult.commute mult_0_right not_less_zero zero_less_iff_neq_zero)
  then have "\<exists>k\<in>set [0..<n]. k * required \<le> i \<and> i < (k + 1) * required" by (intro bexI [of _ "i div required"]) simp_all
  then show "dest' i = source ! i" using all \<open>ok\<close> i by simp
qed

lemma upload_staged_dest:
  assumes "upload_staged source (c, stage, dest) = (status, c', stage', dest')"
  shows "length source \<le> i \<Longrightarrow> dest' i = dest i"
    and "status = CUDA_OK \<Longrightarrow> i < length source \<Longrightarrow> dest' i = source ! i"
proof -
  let ?required = "min stage_capacity (length source)"
  let ?n = "(length source + ?required - 1) div ?required"
  obtain ok1 c1 where 1: "chain [ensure_stage ?required, asked] c = (ok1, c1)" by (metis surj_pair)
  obtain ok2 c2 stage2 dest2 where 2: "chain (map (\<lambda>k. stage_chunk source ?required (k * ?required)) [0..<?n]) (c1, stage, dest) = (ok2, c2, stage2, dest2)"
    by (metis prod_cases4)
  have result: "(status, c', stage', dest') = (if source = [] then (CUDA_INVALID, c, stage, dest) else if \<not> ok1 then (CUDA_RUNTIME_ERROR, c1, stage, dest)
      else (if ok2 then CUDA_OK else CUDA_RUNTIME_ERROR, c2, stage2, dest2))"
    using assms [symmetric] 1 2 by (simp add: upload_staged_def Let_def del: chain.simps)
  note d = stage_chunks_dest [OF 2, of i]
  show "dest' i = dest i" if "length source \<le> i" using result d(2) that by (auto split: if_splits)
  assume "status = CUDA_OK" "i < length source"
  then have "source \<noteq> []" "ok2" "dest' = dest2" using result by (auto split: if_splits)
  then have pos: "0 < ?required" by (simp add: stage_capacity_def)
  have "length source \<le> ?n * ?required"
    by (rule round_up_enough [OF pos])
  then show "dest' i = source ! i" using d(3) \<open>ok2\<close> \<open>i < length source\<close> \<open>dest' = dest2\<close> by simp
qed


text \<open>
  The staging buffer holds every chunk: when it was ensured, the memory behind it is at least
  \<open>required\<close> bytes, and no chunk is longer.
\<close>

lemma staged_chunks_fit:
  assumes "sized c HostBridge" and "0 < required" and "ensure_stage required c = (True, c')"
  shows "room c' HostBridge (min required (length source - offset))"
proof -
  have "room c' HostBridge required"
  proof (cases "capacity c HostBridge < required")
    case True
    then obtain d c1 where "create_in PinnedMemory required HostBridge d = (True, c1)" "c' = set_bytes HostBridge required c1"
      using assms(3) by (auto simp: ensure_stage_def Let_def split: prod.splits if_splits)
    then show ?thesis using room_made [of PinnedMemory required HostBridge d c1 required] by simp
  next
    case False
    then have "c' = c" "capacity c HostBridge \<noteq> 0" using assms(2,3) by (simp_all add: ensure_stage_def)
    then show ?thesis using assms(1) False by (auto simp: sized_def split: if_splits elim: room_mono)
  qed
  then show ?thesis by (rule room_mono) simp
qed

lemma delivered:
  assumes "deliver_weights env source (c, stage, dest) = (c', stage', dest')"
  shows "i < length source \<Longrightarrow> dest' i = source ! i" and "length source \<le> i \<Longrightarrow> dest' i = dest i"
proof -
  obtain status c1 stage1 dest1 where u: "upload_staged source (c, stage, dest) = (status, c1, stage1, dest1)" by (metis prod_cases4)
  note d = upload_staged_dest [OF u, of i]
  show "i < length source \<Longrightarrow> dest' i = source ! i" "length source \<le> i \<Longrightarrow> dest' i = dest i"
    using assms d u by (auto simp: deliver_weights_def split: if_splits)
qed

text \<open>
  C37: Weights that were uploaded are on the device as they are in the file, whether the staged copy went
  through, was interrupted half-way or is switched off, and nothing behind them was written.
\<close>

theorem uploaded_weights_are_the_file:
  assumes "q4_weights_upload given value_type row_bytes alloc_bytes alignment env slot source rows width new_ok new_id (c, stage, dest) =
      (CUDA_OK, out, c', stage', dest')"
  shows "map dest' [0..<length source] = source \<and> (\<forall>i\<ge>length source. dest' i = dest i)"
proof -
  obtain c1 where "deliver_weights env source (c1, stage, dest) = (c', stage', dest')"
    using assms by (auto simp: q4_weights_upload_def Let_def split_beta split: if_splits)
  note d = delivered [OF this]
  have "map dest' [0..<length source] = source" by (rule nth_equalityI) (simp_all add: d(1))
  then show ?thesis using d(2) by blast
qed

theorem uploaded_weights_are_the_file_witness:
  "\<exists>c' stage' dest'. q4_weights_upload True 12 (\<lambda>_. 2) (\<lambda>_. 2) 32 None 0 [CHR ''a'', CHR ''b'', CHR ''c'', CHR ''d''] 2 256 True 7
      (no_q4\<lparr>answers := [True, True, True, True, True, True, False]\<rparr>, \<lambda>_. CHR ''x'', \<lambda>_. CHR ''y'') =
      (CUDA_OK, Some (\<lparr>weights_id = 7, weights_slot = 0, weights_width = 256, weights_height = 2\<rparr>, 0, 0), c', stage', dest') \<and>
    map dest' [0..<4] = [CHR ''a'', CHR ''b'', CHR ''c'', CHR ''d'']"
proof -
  let ?u = "q4_weights_upload True 12 (\<lambda>_. 2) (\<lambda>_. 2) 32 None 0 [CHR ''a'', CHR ''b'', CHR ''c'', CHR ''d''] 2 256 True 7
      (no_q4\<lparr>answers := [True, True, True, True, True, True, False]\<rparr>, \<lambda>_. CHR ''x'', \<lambda>_. CHR ''y'')"
  obtain status out c' stage' dest' where u: "?u = (status, out, c', stage', dest')" by (metis prod_cases5)
  have "fst ?u = CUDA_OK \<and> fst (snd ?u) = Some (\<lparr>weights_id = 7, weights_slot = 0, weights_width = 256, weights_height = 2\<rparr>, 0, 0)"
    by (simp add: q4_weights_upload_def no_q4_def supported_type_def create_slot_def create_in_def asked_def consumer_slot_def
        arena_alloc_def arena_fit_def take_piece_def Let_def)
  then have "status = CUDA_OK" "out = Some (\<lparr>weights_id = 7, weights_slot = 0, weights_width = 256, weights_height = 2\<rparr>, 0, 0)"
    using u by simp_all
  moreover have "map dest' [0..<4] = [CHR ''a'', CHR ''b'', CHR ''c'', CHR ''d'']"
    using uploaded_weights_are_the_file [OF u [unfolded calculation]] by (simp add: eval_nat_numeral)
  ultimately show ?thesis using u by (intro exI [of _ c'] exI [of _ stage'] exI [of _ dest'] conjI) (simp_all only:)
qed


subsection \<open>Lookups\<close>

text \<open>
  An attempt to prepare a lookup that failed half-way leaves its context in the weights; the next attempt
  writes a new one over it. The old context outlives the weights.
\<close>

lemma lookup_descriptors_leak:
  assumes "sound q4_kind order c" and "slots c (GraphContext (LookupGraph w)) = Some p" and "live c p = Some x"
    and "prepare_embedding w False c = (CUDA_OK, True, c')" and "slots c (GraphContext (ProductGraph w)) \<noteq> None"
  shows "live (q4_weights_destroy w c') p = Some x"
proof -
  let ?s = "GraphContext (LookupGraph w)" and ?b = "GraphBuffer (LookupGraph w)"
  obtain ok1 c1 where 1: "create_slot ?s 0 c = (ok1, c1)" by (metis surj_pair)
  obtain ok2 c2 where 2: "asked c1 = (ok2, c2)" by (metis surj_pair)
  obtain ok3 c3 where 3: "asked c2 = (ok3, c3)" by (metis surj_pair)
  obtain ok4 c4 where 4: "create_slot ?b 0 c3 = (ok4, c4)" by (metis surj_pair)
  obtain ok5 c5 where 5: "asked c4 = (ok5, c5)" by (metis surj_pair)
  have all: "ok1" "ok4" "c' = c5" using assms(4,5) 1 2 3 4 5 by (auto simp: prepare_embedding_def split: if_splits)
  note m1 = make_frame [OF 1 [unfolded create_slot_def]] and m4 = make_frame [OF 4 [unfolded create_slot_def]]
  have a: "slots c3 = slots c1" "live c3 = live c1" "fresh c3 = fresh c1" "slots c5 = slots c4" "live c5 = live c4"
    using asked_same [of c1] asked_same [of c2] asked_same [of c4] 2 3 5 by simp_all
  have "p < fresh c" using sound_fresh [OF assms(1,3)] .
  moreover have "fresh c1 = Suc (fresh c)" using 1 all(1) by (auto simp: create_slot_def create_in_def asked_def split: list.splits if_splits)
  ultimately have p: "p \<noteq> fresh c" "p \<noteq> fresh c3" using a(3) by simp_all
  have "slots c5 t \<noteq> Some p" for t
    using sound_inj [OF assms(1,2), of t] m1(2) m4(2) all(1,2) a p by auto
  then have "live (q4_weights_destroy w c') p = live c5 p"
    unfolding q4_weights_destroy_def all(3) by (intro drop_slots_untouched) simp
  also have "\<dots> = Some x" using m4(3) [OF p(2)] m1(3) [OF p(1)] a assms(3) by simp
  finally show ?thesis .
qed

subsection \<open>Arenas\<close>

text \<open>
  Every arena is a live buffer of its capacity, used within it, and of a capacity that leaves room for
  rounding up in 64 bits. A granted piece is its arena, its
  offset and its size; it is \<open>placed\<close> when it ends within what is used.
\<close>

definition arenas_ok :: "nat \<Rightarrow> q4_context \<Rightarrow> bool" where
  "arenas_ok slot c \<longleftrightarrow> (\<forall>s p. slots c s = Some p \<longrightarrow> p < fresh c) \<and>
     (\<forall>i<length (weight_arenas c slot). room c (ArenaBuffer slot i) (arena_capacity (weight_arenas c slot ! i)) \<and>
        arena_used (weight_arenas c slot ! i) \<le> arena_capacity (weight_arenas c slot ! i) \<and>
        arena_capacity (weight_arenas c slot ! i) \<le> 2 ^ 63 + 2 ^ 62)"

text \<open>Requests whose sizes do not wrap when they are rounded up.\<close>

definition request_fits :: "nat \<times> nat \<Rightarrow> bool" where
  "request_fits = (\<lambda>(alignment, n). alignment \<le> 2 ^ 62 \<and> n \<le> 2 ^ 63)"

definition placed :: "nat \<Rightarrow> q4_context \<Rightarrow> nat \<times> nat \<times> nat \<Rightarrow> bool" where
  "placed slot c = (\<lambda>(i, offset, n). i < length (weight_arenas c slot) \<and> offset + n \<le> arena_used (weight_arenas c slot ! i))"

definition apart :: "nat \<times> nat \<times> nat \<Rightarrow> nat \<times> nat \<times> nat \<Rightarrow> bool" where
  "apart = (\<lambda>(i, offset, n) (j, offset', n'). i \<noteq> j \<or> offset + n \<le> offset' \<or> offset' + n' \<le> offset)"

fun arena_run :: "nat \<Rightarrow> (nat \<times> nat) list \<Rightarrow> q4_context \<Rightarrow> (nat \<times> nat \<times> nat) list \<times> q4_context" where
  "arena_run slot [] c = ([], c)"
| "arena_run slot ((alignment, n) # requests) c =
     (let (_, piece, c) = arena_alloc alignment slot n c; (pieces, c) = arena_run slot requests c
      in (case piece of None \<Rightarrow> pieces | Some (i, offset) \<Rightarrow> (i, offset, n) # pieces, c))"

lemma round_up_facts:
  assumes "0 < a" and "n + a \<le> 2 ^ 64"
  shows "n \<le> round_up a n" and "a dvd round_up a n" and "round_up a n \<le> n + a"
proof -
  have "n + a - 1 < 2 ^ 64" using assms by linarith
  then have r: "round_up a n = (n + a - 1) div a * a" by (simp add: round_up_def)
  show "n \<le> round_up a n" unfolding r using round_up_enough [OF assms(1)] .
  show "a dvd round_up a n" by (simp add: r)
  have "(n + a - 1) div a * a \<le> n + a - 1" by (rule div_times_less_eq_dividend)
  then show "round_up a n \<le> n + a" unfolding r by linarith
qed

lemma room_created:
  assumes "room c t n" and "\<forall>s p. slots c s = Some p \<longrightarrow> p < fresh c" and "t \<noteq> s"
  shows "room (snd (create_in k m s c)) t n"
proof -
  obtain ok c1 where c: "create_in k m s c = (ok, c1)" by (cases "create_in k m s c") auto
  obtain p where p: "slots c t = Some p" using assms(1) by (auto simp: room_def split: option.splits)
  have "p \<noteq> fresh c" using assms(2) p by blast
  then have "slots c1 t = Some p" "live c1 p = live c p" using make_frame(2) [OF c] make_frame(3) [OF c, of p] assms(3) p by auto
  then show ?thesis using assms(1) p c by (simp add: room_def)
qed

lemma create_in_fresh: "\<forall>s p. slots c s = Some p \<longrightarrow> p < fresh c \<Longrightarrow> \<forall>t p. slots (snd (create_in k m s c)) t = Some p \<longrightarrow> p < fresh (snd (create_in k m s c))"
  by (auto simp: create_in_def asked_def split: list.splits intro: less_SucI)

lemma taken_piece:
  assumes "take_piece slot offset n c = (status, piece, c')" and "arenas_ok slot c" and "weight_arenas c slot \<noteq> []"
    and "arena_used (last (weight_arenas c slot)) \<le> offset" and "offset + n \<le> arena_capacity (last (weight_arenas c slot))"
  shows "arenas_ok slot c' \<and> piece = Some (length (weight_arenas c slot) - 1, offset) \<and> slots c' = slots c \<and> live c' = live c \<and>
    placed slot c' (length (weight_arenas c slot) - 1, offset, n) \<and> (\<forall>q. placed slot c q \<longrightarrow> placed slot c' q \<and> apart q (length (weight_arenas c slot) - 1, offset, n))"
proof -
  let ?as = "weight_arenas c slot" and ?i = "length (weight_arenas c slot) - 1"
  have i: "?i < length ?as" "last ?as = ?as ! ?i" using assms(3) by (simp_all add: last_conv_nth)
  have c': "c' = c\<lparr>weight_arenas := (weight_arenas c)(slot := ?as[?i := (?as ! ?i)\<lparr>arena_used := offset + n\<rparr>])\<rparr>"
    "piece = Some (?i, offset)" using assms(1) by (simp_all add: take_piece_def Let_def)
  have room: "room c' s m = room c s m" for s m by (rule room_same) (simp_all add: c')
  have "arenas_ok slot c'" using assms(2,5) i unfolding arenas_ok_def room by (auto simp: c' nth_list_update)
  moreover have "placed slot c' (?i, offset, n)" using i by (simp add: placed_def c')
  moreover have "placed slot c q \<longrightarrow> placed slot c' q \<and> apart q (?i, offset, n)" for q
    using assms(4) i by (cases q) (auto simp: placed_def c' apart_def nth_list_update)
  ultimately show ?thesis by (simp add: c')
qed

lemma arena_alloc_ok:
  assumes "arena_alloc alignment slot n c = (status, piece, c')" and "arenas_ok slot c" and "request_fits (alignment, n)"
  shows "arenas_ok slot c' \<and> (\<forall>q. placed slot c q \<longrightarrow> placed slot c' q) \<and>
    (case piece of None \<Rightarrow> True | Some (i, offset) \<Rightarrow> max 1 alignment dvd offset \<and> placed slot c' (i, offset, n) \<and>
       (\<forall>q. placed slot c q \<longrightarrow> apart q (i, offset, n)))"
proof -
  let ?a = "max 1 alignment" and ?as = "weight_arenas c slot"
  have a: "0 < ?a" "?a \<le> 2 ^ 62" "n \<le> 2 ^ 63" using assms(3) by (simp_all add: request_fits_def)
  consider (refused) "piece = None" "c' = c"
    | (fits) offset where "arena_fit ?a n ?as = Some offset" "take_piece slot offset n c = (status, piece, c')"
    | (grow) "arena_fit ?a n ?as = None" "\<not> (slot > 1 \<or> n = 0)"
    using assms(1) by (cases "slot > 1 \<or> n = 0"; cases "arena_fit ?a n ?as") (auto simp: arena_alloc_def Let_def)
  then show ?thesis
  proof cases
    case refused
    then show ?thesis using assms(2) by simp
  next
    case (fits offset)
    then have f: "?as \<noteq> []" "offset = round_up ?a (arena_used (last ?as))" "offset + n \<le> arena_capacity (last ?as)"
      by (auto simp: arena_fit_def Let_def split: if_splits)
    have i: "length ?as - 1 < length ?as" "last ?as = ?as ! (length ?as - 1)" using f(1) by (simp_all add: last_conv_nth)
    have "arena_used (last ?as) \<le> arena_capacity (last ?as)" "arena_capacity (last ?as) \<le> 2 ^ 63 + 2 ^ 62"
      using assms(2) i(1) unfolding arenas_ok_def i(2) by blast+
    then have "arena_used (last ?as) \<le> 2 ^ 63 + 2 ^ 62" by (rule order.trans)
    then have "arena_used (last ?as) + ?a \<le> 2 ^ 64" using a(2) by simp
    note up = round_up_facts [OF a(1) this]
    show ?thesis
      using taken_piece [OF fits(2) assms(2) f(1) _ f(3)] up(1,2) f(2) by auto
  next
    case grow
    let ?capacity = "max arena_chunk_bytes (round_up ?a n)" and ?s = "ArenaBuffer slot (length ?as)"
    obtain ok c1 where 1: "create_in GgmlBuffer ?capacity ?s c = (ok, c1)" by (metis surj_pair)
    obtain pushed c2 where 2: "asked c1 = (pushed, c2)" by (metis surj_pair)
    let ?c3 = "c2\<lparr>weight_arenas := (weight_arenas c)(slot := ?as @ [\<lparr>arena_used = 0, arena_capacity = ?capacity\<rparr>])\<rparr>"
    have shape: "weight_arenas c1 = weight_arenas c" "weight_arenas c2 = weight_arenas c"
      using create_in_shape [of c GgmlBuffer ?capacity ?s] asked_shape [of c1] 1 2 by (simp_all add: same_shape_def)
    have result: "(status, piece, c') = (if \<not> ok then (CUDA_RUNTIME_ERROR, None, c1)
        else if \<not> pushed then (CUDA_RUNTIME_ERROR, None, drop_slot GgmlBuffer ?s c2) else take_piece slot 0 n ?c3)"
      using assms(1) [symmetric] grow 1 2 shape by (simp add: arena_alloc_def Let_def)
    have below: "\<forall>s p. slots c s = Some p \<longrightarrow> p < fresh c" using assms(2) by (simp add: arenas_ok_def)
    have below1: "\<forall>s p. slots c1 s = Some p \<longrightarrow> p < fresh c1" using create_in_fresh [OF below, of GgmlBuffer ?capacity ?s] 1 by simp
    have same2: "slots c2 = slots c1" "fresh c2 = fresh c1" "live c2 = live c1" using asked_same [of c1] 2 by simp_all
    have old: "room c1 (ArenaBuffer slot i) m" if "room c (ArenaBuffer slot i) m" "i < length ?as" for i m
      using room_created [OF that(1) below, of ?s GgmlBuffer ?capacity] that(2) 1 by simp
    have ok1: "arenas_ok slot x" if "slots x = slots c1" "fresh x = fresh c1" "live x = live c1" "weight_arenas x = weight_arenas c" for x
      using assms(2) below1 old that room_same [of x _ c1] unfolding arenas_ok_def by (auto simp: room_def)
    have placed_same: "placed slot x = placed slot c" if "weight_arenas x = weight_arenas c" for x using that by (simp add: placed_def)
    consider (failed) "\<not> ok" | (dropped) ok "\<not> pushed" | (pushed) ok pushed by blast
    then show ?thesis
    proof cases
      case failed
      then show ?thesis using result ok1 [of c1] shape(1) placed_same [OF shape(1)] by simp
    next
      case dropped
      let ?d = "drop_slot GgmlBuffer ?s c2"
      have sl: "slots c1 ?s = Some (fresh c)" using make_frame(2) [OF 1] dropped by simp
      obtain b c4 where d: "discard GgmlBuffer (Some (fresh c)) c2 = (b, c4)" by (metis surj_pair)
      have dd: "?d = forget ?s c4" using d sl same2 by (simp add: drop_slot_def)
      have w: "weight_arenas ?d = weight_arenas c"
        using drop_slots_shape [of c2 "\<lambda>_. GgmlBuffer" "[?s]"] shape by (simp add: drop_slots_def same_shape_def)
      have keep: "slots ?d t = slots c1 t" "live ?d p = live c1 p" if "t \<noteq> ?s" "p \<noteq> fresh c" for t p
        using that discard_frame(1) [OF d] discard_frame(4) [OF d, of p] same2 by (simp_all add: dd)
      have "room ?d (ArenaBuffer slot i) m" if r: "room c (ArenaBuffer slot i) m" "i < length ?as" for i m
      proof -
        have t: "ArenaBuffer slot i \<noteq> ?s" using r(2) by simp
        obtain p where p: "slots c (ArenaBuffer slot i) = Some p" using r(1) by (auto simp: room_def split: option.splits)
        then have "p \<noteq> fresh c" "slots c1 (ArenaBuffer slot i) = Some p" using below make_frame(2) [OF 1] t by auto
        then show ?thesis using old [OF r] keep [OF t, of p] by (simp add: room_def)
      qed
      moreover have "p < fresh ?d" if "slots ?d t = Some p" for t p
        using that below1 same2 discard_frame(1,3) [OF d] by (auto simp: dd split: if_splits)
      ultimately have "arenas_ok slot ?d" using assms(2) unfolding arenas_ok_def w by blast
      then show ?thesis using result dropped placed_same [OF w] by simp
    next
      case pushed
      have "n + ?a \<le> 2 ^ 64" using a by simp
      note up = round_up_facts [OF a(1) this]
      have "n + ?a \<le> 2 ^ 63 + 2 ^ 62" using add_mono [OF a(3,2)] .
      then have small: "?capacity \<le> 2 ^ 63 + 2 ^ 62" using up(3) by (simp add: arena_chunk_bytes_def)
      have new: "room c1 ?s ?capacity" using room_made [of GgmlBuffer ?capacity ?s c c1] 1 pushed by simp
      have room3: "room ?c3 s m = room c1 s m" for s m by (rule room_same) (simp_all add: same2)
      have "arenas_ok slot ?c3"
        using assms(2) below1 old new small unfolding arenas_ok_def room3 by (auto simp: nth_append same2 less_Suc_eq)
      moreover have "take_piece slot 0 n ?c3 = (status, piece, c')" using result pushed by simp
      moreover have "n \<le> ?capacity" using up(1) by simp
      ultimately have t: "arenas_ok slot c' \<and> piece = Some (length ?as, 0) \<and> placed slot c' (length ?as, 0, n) \<and>
          (\<forall>q. placed slot ?c3 q \<longrightarrow> placed slot c' q \<and> apart q (length ?as, 0, n))"
        using taken_piece [of slot 0 n ?c3 status piece c'] by simp
      moreover have "placed slot c q \<longrightarrow> placed slot ?c3 q" for q by (auto simp: placed_def nth_append)
      ultimately show ?thesis by simp
    qed
  qed
qed


lemma arena_run_ok:
  assumes "arena_run slot requests c = (pieces, c')" and "arenas_ok slot c" and "\<forall>r\<in>set requests. request_fits r"
  shows "arenas_ok slot c' \<and> (\<forall>q. placed slot c q \<longrightarrow> placed slot c' q \<and> (\<forall>r\<in>set pieces. apart q r)) \<and>
    (\<forall>r\<in>set pieces. placed slot c' r) \<and> sorted_wrt apart pieces"
  using assms
proof (induction requests arbitrary: c pieces)
  case (Cons request requests)
  obtain alignment n where request: "request = (alignment, n)" by (cases request)
  obtain status piece c1 where 1: "arena_alloc alignment slot n c = (status, piece, c1)" by (metis prod_cases3)
  obtain rest c2 where 2: "arena_run slot requests c1 = (rest, c2)" by (metis surj_pair)
  have "request_fits (alignment, n)" "\<forall>r\<in>set requests. request_fits r" using Cons.prems(3) request by simp_all
  note a = arena_alloc_ok [OF 1 Cons.prems(2) this(1)]
  have r: "pieces = (case piece of None \<Rightarrow> rest | Some (i, offset) \<Rightarrow> (i, offset, n) # rest)" "c' = c2"
    using Cons.prems(1) 1 2 request by (auto split: option.splits)
  have IH: "arenas_ok slot c2 \<and> (\<forall>q. placed slot c1 q \<longrightarrow> placed slot c2 q \<and> (\<forall>r\<in>set rest. apart q r)) \<and>
      (\<forall>r\<in>set rest. placed slot c2 r) \<and> sorted_wrt apart rest" using Cons.IH [OF 2 [folded r(2)] _ \<open>\<forall>r\<in>set requests. request_fits r\<close>] a r(2) by blast
  show ?case using a IH r by (cases piece) auto
qed simp

text \<open>
  C38: The pieces that the arenas of a device hand out for any sequence of requests of at most 2^63 bytes
  each, with alignments of at most 2^62, lie inside live buffers and no two of them overlap, whatever
  the runtime answers. The bound is what the rounding in \<open>size_t\<close> needs: a request near the maximum
  wraps and is granted in a buffer smaller than itself (\<open>huge_request_outside_buffer\<close>).
\<close>

theorem arena_pieces_disjoint:
  assumes "arena_run slot requests c = (pieces, c')" and "weight_arenas c slot = []" and "\<forall>s p. slots c s = Some p \<longrightarrow> p < fresh c"
    and "\<forall>r\<in>set requests. request_fits r"
  shows "(\<forall>(i, offset, n)\<in>set pieces. room c' (ArenaBuffer slot i) (offset + n)) \<and> sorted_wrt apart pieces"
proof -
  have "arenas_ok slot c" using assms(2,3) by (simp add: arenas_ok_def)
  note r = arena_run_ok [OF assms(1) this assms(4)]
  have "room c' (ArenaBuffer slot i) (offset + n)" if "(i, offset, n) \<in> set pieces" for i offset n
  proof -
    have p: "i < length (weight_arenas c' slot)" "offset + n \<le> arena_used (weight_arenas c' slot ! i)" using that r by (auto simp: placed_def)
    then have "room c' (ArenaBuffer slot i) (arena_capacity (weight_arenas c' slot ! i))"
      "arena_used (weight_arenas c' slot ! i) \<le> arena_capacity (weight_arenas c' slot ! i)" using r by (auto simp: arenas_ok_def)
    then show ?thesis using p(2) by (auto intro: room_mono)
  qed
  then show ?thesis using r by auto
qed

theorem arena_pieces_disjoint_witness:
  "fst (arena_run 0 [(256, 1000), (256, 536870912), (256, 24), (256, 100)] no_q4) = [(0, 0, 1000), (1, 0, 536870912), (2, 0, 24), (2, 256, 100)] \<and>
   sorted_wrt apart [(0, 0, 1000), (1, 0, 536870912), (2, 0, 24), (2, 256, 100)]"
proof -
  let ?r = "arena_run 0 [(256, 1000), (256, 536870912), (256, 24), (256, 100)] no_q4"
  have f: "fst ?r = [(0, 0, 1000), (1, 0, 536870912), (2, 0, 24), (2, 256, 100)]"
    by (simp add: no_q4_def arena_alloc_def arena_fit_def take_piece_def Let_def create_in_def asked_def round_up_def arena_chunk_bytes_def)
  have "sorted_wrt apart (fst ?r)"
    using arena_pieces_disjoint [of 0 "[(256, 1000), (256, 536870912), (256, 24), (256, 100)]" no_q4 "fst ?r" "snd ?r"]
    by (simp add: no_q4_def request_fits_def)
  then show ?thesis unfolding f by simp
qed

text \<open>
  A request for the largest size there is: rounded up it is 0, the arena made for it has the size of a
  chunk, and the piece granted reaches beyond it.
\<close>

theorem huge_request_outside_buffer:
  assumes "weight_arenas c slot = []" and "slot \<le> 1" and "answers c = []"
  shows "\<exists>c'. arena_alloc 256 slot (2 ^ 64 - 1) c = (CUDA_OK, Some (0, 0), c') \<and>
    \<not> room c' (ArenaBuffer slot 0) (2 ^ 64 - 1)"
  using assms by (simp add: arena_alloc_def arena_fit_def round_up_def take_piece_def create_in_def asked_def Let_def room_def
    arena_chunk_bytes_def)

theorem huge_request_outside_buffer_witness:
  "\<exists>c'. arena_alloc 256 0 (2 ^ 64 - 1) no_q4 = (CUDA_OK, Some (0, 0), c') \<and> \<not> room c' (ArenaBuffer 0 0) (2 ^ 64 - 1)"
  by (rule huge_request_outside_buffer) (simp_all add: no_q4_def)

end
