(* ===== verification/Q4Bridge.thy ===== *)
theory Q4Bridge
  imports Q4Context
begin

section \<open>The bridge between two devices\<close>

text \<open>
  Models how \<open>src/backend/cuda/fortai_cuda_q4_backend.cu\<close> carries activations and results between its two
  devices: rings of events and of pinned buffers, the fixed buffers of the second device, graphs that are
  captured at their second run, and the functions that queue products on one device or across the bridge.
  Everything that is queued goes to the timeline of the context; a call that fails queues nothing. \<open>None\<close>
  stands for a null pointer, and the weights that are given are the context's own. The debug output is
  left out.
\<close>

subsection \<open>Events\<close>

text \<open>
  A query of an event is two answers: whether it is done, and if it is not, whether it is only not ready
  yet. \<open>query_event\<close> waits for it.
\<close>

definition event_ready :: "q4_slot \<Rightarrow> q4_context \<Rightarrow> int \<times> bool \<times> q4_context" where
  "event_ready e c =
     (if slots c e = None then (CUDA_INVALID, False, c)
      else let (ok, c) = asked c
           in if \<not> ok then (CUDA_RUNTIME_ERROR, False, c)
              else let (success, c) = asked c
                   in if success then (CUDA_OK, True, c)
                      else let (not_ready, c) = asked c in (if not_ready then CUDA_OK else CUDA_RUNTIME_ERROR, False, c))"

definition wait_event :: "q4_slot \<Rightarrow> q4_step" where
  "wait_event e c =
     (let (success, c) = asked c
      in if success then (CUDA_OK, host_did (HostEvent e) c)
         else let (not_ready, c) = asked c
              in if \<not> not_ready then (CUDA_RUNTIME_ERROR, c)
                 else let (waited, c) = asked c in if waited then (CUDA_OK, host_did (HostEvent e) c) else (CUDA_RUNTIME_ERROR, c))"

definition query_event :: "q4_slot \<Rightarrow> q4_step" where
  "query_event e c =
     (if slots c e = None then (CUDA_INVALID, c)
      else let (ok, c) = asked c in if \<not> ok then (CUDA_RUNTIME_ERROR, c) else wait_event e c)"

fun all_ready :: "q4_slot list \<Rightarrow> q4_context \<Rightarrow> int \<times> bool \<times> q4_context" where
  "all_ready [] c = (CUDA_OK, True, c)"
| "all_ready (e # es) c =
     (let (status, ready, c) = event_ready e c
      in if status \<noteq> CUDA_OK then (CUDA_RUNTIME_ERROR, False, c)
         else let (status, others, c) = all_ready es c in (status, ready \<and> others, c))"

definition next_bridge_events :: "q4_context \<Rightarrow> int \<times> bridge_id option \<times> q4_context" where
  "next_bridge_events c =
     (if slots c (BridgeStream 0) = None \<or> slots c (BridgeStream 1) = None then (CUDA_INVALID, None, c)
      else let sequence = bridge_event_index c; n = RingSet (unat sequence mod event_slots); c = c\<lparr>bridge_event_index := sequence + 1\<rparr>;
               (status, available, c) = (if unat sequence \<ge> event_slots
                 then all_ready (map (\<lambda>e. Edge e n) [SourceReady, RemoteReady, RemoteDone, OutputFree, PrimaryDone]) c
                 else (CUDA_OK, True, c))
           in if status \<noteq> CUDA_OK then (CUDA_RUNTIME_ERROR, None, c)
              else if available then (CUDA_OK, Some n, c)
              else let (new_ok, c) = asked c; n = ExtraSet (extra_bridge_events c);
                       (ok, c) = (if new_ok then create_bridge_events n c else (False, c))
                   in if \<not> ok then (CUDA_RUNTIME_ERROR, None, c)
                      else let (pushed, c) = asked c
                           in if \<not> pushed then (CUDA_RUNTIME_ERROR, None, free_bridge_events n c)
                              else (CUDA_OK, Some n, c\<lparr>extra_bridge_events := Suc (extra_bridge_events c)\<rparr>))"

definition next_event :: "nat \<Rightarrow> q4_context \<Rightarrow> int \<times> q4_slot \<times> q4_context" where
  "next_event slot c =
     (let (ok, c) = asked c; sequence = producer_event_index c slot; e = Producer slot (unat sequence mod event_slots)
      in if \<not> ok then (CUDA_RUNTIME_ERROR, e, c)
         else let c = c\<lparr>producer_event_index := (producer_event_index c)(slot := sequence + 1)\<rparr>
              in if slots c e = None then (CUDA_RUNTIME_ERROR, e, c)
                 else if unat sequence \<ge> event_slots then let (status, c) = wait_event e c in (status, e, c)
                 else (CUDA_OK, e, c))"

subsection \<open>GGML's stream and the stream of the caller\<close>

definition wait_scheduler_event :: "nat \<Rightarrow> q4_slot \<Rightarrow> q4_step" where
  "wait_scheduler_event slot e c =
     (if slots c e = None then (CUDA_INVALID, c) else runtime_status (calls [Some (Await (scheduler_stream c slot) e)]) c)"

definition record_scheduler_event :: "nat \<Rightarrow> q4_slot \<Rightarrow> q4_step" where
  "record_scheduler_event slot e c =
     (if slots c e = None then (CUDA_INVALID, c) else runtime_status (calls [Some (Record e (scheduler_stream c slot))]) c)"

definition prepare_input :: "int \<Rightarrow> q4_step" where
  "prepare_input d c =
     (case consumer_slot c d of None \<Rightarrow> (CUDA_INVALID, c)
      | Some slot \<Rightarrow>
          (case consumer_stream c slot of None \<Rightarrow> (CUDA_OK, c)
           | Some s \<Rightarrow>
               if s = scheduler_stream c slot then (CUDA_OK, c)
               else let (status, e, c) = next_event slot c
                    in if status \<noteq> CUDA_OK then (CUDA_RUNTIME_ERROR, c)
                       else steps [runtime_status (calls [None, Some (Record e s)]), wait_scheduler_event slot e] c))"

definition publish_output :: "int \<Rightarrow> q4_step" where
  "publish_output d c =
     (case consumer_slot c d of None \<Rightarrow> (CUDA_INVALID, c)
      | Some slot \<Rightarrow>
          (case consumer_stream c slot of None \<Rightarrow> (CUDA_OK, c)
           | Some s \<Rightarrow>
               if s = scheduler_stream c slot then (CUDA_OK, c)
               else let (status, e, c) = next_event slot c
                    in if status \<noteq> CUDA_OK then (CUDA_RUNTIME_ERROR, c)
                       else steps [as_runtime (record_scheduler_event slot e), runtime_status (calls [None, Some (Await s e)])] c))"

subsection \<open>Pinned buffers\<close>

definition host_bridge_reserve :: nat where "host_bridge_reserve = 2 ^ 20"

definition mark_free :: "ring \<Rightarrow> nat \<Rightarrow> bool \<Rightarrow> q4_context \<Rightarrow> q4_context" where
  "mark_free r i b c = c\<lparr>free_recorded := (free_recorded c)(r := (free_recorded c r)(i := b))\<rparr>"

text \<open>A buffer is replaced only when its last use is over; its release counts as a work on it.\<close>

definition release_ring_buffer :: "ring \<Rightarrow> nat \<Rightarrow> q4_context call" where
  "release_ring_buffer r i c =
     (if slots c (RingBuffer r i) = None then (True, c)
      else let (ok, c) = discard PinnedMemory (slots c (RingBuffer r i)) c
           in if \<not> ok then (False, c)
              else (True, host_did (HostWork [] [HostSlot r i]) (set_bytes (RingBuffer r i) 0 (forget (RingBuffer r i) c))))"

definition ensure_host_buffer :: "ring \<Rightarrow> nat \<Rightarrow> nat \<Rightarrow> q4_step" where
  "ensure_host_buffer r i n c =
     (if n = 0 then (CUDA_INVALID, c)
      else if n \<le> capacity c (RingBuffer r i) \<and> slots c (RingBuffer r i) \<noteq> None then (CUDA_OK, c)
      else let (status, c) = (if free_recorded c r i then query_event (RingFree r i) c else (CUDA_OK, c))
           in if status \<noteq> CUDA_OK then (CUDA_RUNTIME_ERROR, c)
              else runtime_status (chain [release_ring_buffer r i, create_slot (RingBuffer r i) n, record_bytes (RingBuffer r i) n])
                     (mark_free r i False c))"

definition side :: "ring \<Rightarrow> nat" where
  "side r = (case r of InputRing \<Rightarrow> 0 | OutputRing \<Rightarrow> 1)"

definition wait_until_free :: "q4_stream \<Rightarrow> ring \<Rightarrow> nat \<Rightarrow> q4_step" where
  "wait_until_free s r i c =
     (if free_recorded c r i
      then let (ok, c) = calls [Some (Await s (RingFree r i))] c in if ok then (CUDA_OK, mark_free r i False c) else (CUDA_RUNTIME_ERROR, c)
      else (CUDA_OK, c))"

definition select_host :: "ring \<Rightarrow> q4_context \<Rightarrow> nat" where
  "select_host r c = unat (host_index c r) mod host_bridge_slots"

definition advance_host :: "ring \<Rightarrow> q4_context \<Rightarrow> q4_context" where
  "advance_host r c = c\<lparr>host_index := (host_index c)(r := host_index c r + 1)\<rparr>"

definition acquire_host :: "ring \<Rightarrow> nat \<Rightarrow> q4_context \<Rightarrow> int \<times> nat \<times> q4_context" where
  "acquire_host r n c =
     (let i = select_host r c;
          (status, c) = steps [as_runtime (ensure_host_buffer r i (max n host_bridge_reserve)),
            \<lambda>c. if free_recorded c r i then steps [runtime_status (calls [None]), wait_until_free (Bridge (side r)) r i] c else (CUDA_OK, c)]
            (advance_host r c)
      in (status, i, c))"

definition context_transfer :: "int \<Rightarrow> nat option \<Rightarrow> int \<Rightarrow> nat option \<Rightarrow> nat \<Rightarrow> q4_step" where
  "context_transfer source_slot source destination_slot destination n c =
     (case (source, destination, consumer_stream c (nat source_slot), consumer_stream c (nat destination_slot)) of
        (Some source, Some destination, Some from, Some to) \<Rightarrow>
          if n = 0 \<or> source_slot < 0 \<or> source_slot > 1 \<or> destination_slot < 0 \<or> destination_slot > 1 \<or> source_slot = destination_slot
          then (CUDA_INVALID, c)
          else let r = (if source_slot = 0 then InputRing else OutputRing); i = select_host r c
               in steps [as_runtime (ensure_host_buffer r i (max n host_bridge_reserve)),
                    runtime_status (calls [None]),
                    wait_until_free from r i,
                    runtime_status (calls [Some (Work from [Memory source] [HostSlot r i]), Some (Record (RingReady r i) from)]),
                    runtime_status (calls [None, Some (Await to (RingReady r i)), Some (Work to [HostSlot r i] [Memory destination]),
                      Some (Record (RingFree r i) to)]),
                    \<lambda>c. (CUDA_OK, mark_free r i True c)] (advance_host r c)
      | _ \<Rightarrow> (CUDA_INVALID, c))"

subsection \<open>The buffers of the second device\<close>

text \<open>Waiting for all streams of a device.\<close>

definition device_did :: "nat \<Rightarrow> q4_context \<Rightarrow> q4_context" where
  "device_did slot c = host_did (HostStream (scheduler_stream c slot)) (host_did (HostStream (Bridge slot))
     (case consumer_stream c slot of None \<Rightarrow> c | Some s \<Rightarrow> host_did (HostStream s) c))"

text \<open>Releasing device memory waits for its device; releasing nothing does not.\<close>

definition release_staged :: "(nat \<Rightarrow> q4_slot) \<Rightarrow> (nat \<Rightarrow> place) \<Rightarrow> nat \<Rightarrow> q4_context \<Rightarrow> q4_context" where
  "release_staged buffer at slot c =
     (let d = drop_slot DeviceMemory (buffer slot) c
      in if slots c (buffer slot) = None then d else host_did (HostWork [] [at slot]) (device_did slot d))"

definition grow_staged :: "(nat \<Rightarrow> q4_slot) \<Rightarrow> (nat \<Rightarrow> place) \<Rightarrow> nat \<Rightarrow> nat \<Rightarrow> q4_context call" where
  "grow_staged buffer at slot n c =
     (if n \<le> capacity c (buffer slot) then (True, c)
      else chain [create_slot (buffer slot) n, record_bytes (buffer slot) n] (release_staged buffer at slot c))"

definition ensure_bridge :: "nat \<Rightarrow> nat \<Rightarrow> nat \<Rightarrow> q4_step" where
  "ensure_bridge slot activation_bytes output_bytes c =
     (if slot > 1 then (CUDA_INVALID, c)
      else runtime_status (chain [grow_staged BridgeActivation StagedActivation slot activation_bytes,
             grow_staged BridgeOutput StagedOutput slot output_bytes]) c)"

definition drain_device :: "nat \<Rightarrow> q4_context call" where
  "drain_device slot c =
     (if \<not> sync_bridge_requested c then (True, c)
      else let (ok, c) = chain [asked, asked] c in if ok then (True, device_did slot c) else (False, c))"

definition ensure_host_stage :: "nat \<Rightarrow> q4_context call" where
  "ensure_host_stage n c =
     (if n \<le> capacity c HostBridge then (True, c)
      else chain [create_slot HostBridge n, record_bytes HostBridge n] (drop_slot PinnedMemory HostBridge c))"

fun place_slot :: "place \<Rightarrow> q4_slot option" where
  "place_slot (HostSlot r i) = Some (RingBuffer r i)"
| "place_slot (StagedActivation i) = Some (BridgeActivation i)"
| "place_slot (StagedOutput i) = Some (BridgeOutput i)"
| "place_slot HostStage = Some HostBridge"
| "place_slot _ = None"

definition missing :: "q4_context \<Rightarrow> place \<Rightarrow> bool" where
  "missing c p \<longleftrightarrow> (case place_slot p of None \<Rightarrow> False | Some s \<Rightarrow> slots c s = None)"

definition copy_between_devices :: "place \<Rightarrow> nat \<Rightarrow> place \<Rightarrow> nat \<Rightarrow> nat \<Rightarrow> q4_step" where
  "copy_between_devices destination destination_slot source source_slot n c =
     (if missing c destination \<or> missing c source \<or> n = 0 then (CUDA_INVALID, c)
      else if device_ids c destination_slot = device_ids c source_slot \<or> use_peer_copy c
      then runtime_status (calls [None, Some (HostWork [source] [destination])]) c
      else runtime_status (chain [drain_device source_slot, ensure_host_stage n,
             calls [None, Some (HostWork [source] [HostStage]), None, Some (HostWork [HostStage] [destination])],
             \<lambda>c. if \<not> sync_bridge_requested c then (True, c)
                 else let (ok, c) = asked c in if ok then (True, device_did destination_slot c) else (False, c)]) c)"

definition await_last :: "q4_stream \<Rightarrow> q4_slot option \<Rightarrow> (q4_stream, q4_slot, place) queued option list" where
  "await_last s e = (case e of None \<Rightarrow> [] | Some e \<Rightarrow> [Some (Await s e)])"

definition queue_activation_remote :: "nat \<Rightarrow> nat \<Rightarrow> q4_context \<Rightarrow> int \<times> bridge_id option \<times> q4_context" where
  "queue_activation_remote activation n c =
     (case consumer_stream c 0 of None \<Rightarrow> (CUDA_INVALID, None, c)
      | Some s \<Rightarrow>
          if n = 0 \<or> slots c (BridgeStream 0) = None \<or> slots c (BridgeStream 1) = None then (CUDA_INVALID, None, c)
          else let (status, events, c) = next_bridge_events c
               in if status \<noteq> CUDA_OK then (CUDA_RUNTIME_ERROR, None, c)
                  else let e = (\<lambda>x. Edge x (the events))
                       in if use_peer_copy c
                          then let (status, c) = steps
                                [runtime_status (calls [None, Some (Record (e SourceReady) s)]),
                                 runtime_status (calls ([None] @ await_last (Bridge 1) (last_activation_done c) @
                                   [Some (Await (Bridge 1) (e SourceReady)), Some (Work (Bridge 1) [Memory activation] [StagedActivation 1]),
                                    Some (Record (e RemoteReady) (Bridge 1))])),
                                 as_runtime (wait_scheduler_event 1 (e RemoteReady))] c
                               in (status, if status = CUDA_OK then events else None, c)
                          else let (status, i, c) = acquire_host InputRing n c
                               in if status \<noteq> CUDA_OK then (CUDA_RUNTIME_ERROR, None, c)
                                  else let (status, c) = steps
                                        [runtime_status (calls [None, Some (Record (e SourceReady) s), Some (Await (Bridge 0) (e SourceReady)),
                                           Some (Work (Bridge 0) [Memory activation] [HostSlot InputRing i]), Some (Record (RingReady InputRing i) (Bridge 0))]),
                                         runtime_status (calls ([None] @ await_last (Bridge 1) (last_activation_done c) @
                                           [Some (Await (Bridge 1) (RingReady InputRing i)), Some (Work (Bridge 1) [HostSlot InputRing i] [StagedActivation 1]),
                                            Some (Record (RingFree InputRing i) (Bridge 1)), Some (Record (e RemoteReady) (Bridge 1))])),
                                         \<lambda>c. (CUDA_OK, mark_free InputRing i True c),
                                         as_runtime (wait_scheduler_event 1 (e RemoteReady))] c
                                       in (status, if status = CUDA_OK then events else None, c))"

definition record_remote_done :: "bridge_id \<Rightarrow> q4_step" where
  "record_remote_done n =
     steps [\<lambda>c. as_runtime (record_scheduler_event (the (consumer_slot c (device_ids c 1))) (Edge RemoteDone n)) c,
            \<lambda>c. (CUDA_OK, c\<lparr>last_activation_done := Some (Edge RemoteDone n)\<rparr>)]"

definition wait_output_buffer :: "q4_step" where
  "wait_output_buffer c =
     (case last_output_free c of None \<Rightarrow> (CUDA_OK, c)
      | Some e \<Rightarrow> as_runtime (wait_scheduler_event (the (consumer_slot c (device_ids c 1))) e) c)"

text \<open>Results by their destination and size; a pinned buffer for each.\<close>

fun acquire_outputs :: "(nat \<times> nat) list \<Rightarrow> q4_context \<Rightarrow> int \<times> nat list \<times> q4_context" where
  "acquire_outputs [] c = (CUDA_OK, [], c)"
| "acquire_outputs ((d, n) # outputs) c =
     (if n = 0 then (CUDA_RUNTIME_ERROR, [], c)
      else let (status, i, c) = acquire_host OutputRing n c
           in if status \<noteq> CUDA_OK then (CUDA_RUNTIME_ERROR, [], c)
              else let (status, is, c) = acquire_outputs outputs c in (status, i # is, c))"

fun copy_outputs :: "(nat \<times> nat) list \<Rightarrow> nat list \<Rightarrow> q4_step" where
  "copy_outputs ((d, n) # outputs) (i # is) c =
     steps [runtime_status (calls [Some (Work (Bridge 0) [HostSlot OutputRing i] [Memory d]), Some (Record (RingFree OutputRing i) (Bridge 0))]),
       \<lambda>c. (CUDA_OK, mark_free OutputRing i True c), copy_outputs outputs is] c"
| "copy_outputs _ _ c = (CUDA_OK, c)"

definition queue_outputs_primary :: "bridge_id \<Rightarrow> (nat \<times> nat) list \<Rightarrow> q4_step" where
  "queue_outputs_primary n outputs c =
     (case consumer_stream c 0 of None \<Rightarrow> (CUDA_INVALID, c)
      | Some s \<Rightarrow>
          if outputs = [] \<or> length outputs > 8 \<or> slots c (BridgeStream 0) = None \<or> slots c (BridgeStream 1) = None then (CUDA_INVALID, c)
          else let e = (\<lambda>x. Edge x n); publish = calls [Some (Record (e PrimaryDone) (Bridge 0)), Some (Await s (e PrimaryDone))]
               in if use_peer_copy c
                  then steps [runtime_status (calls [None, Some (Await (Bridge 0) (e RemoteDone))]),
                         steps (map (\<lambda>(d, m) c. if missing c (StagedOutput 1) \<or> m = 0 then (CUDA_RUNTIME_ERROR, c)
                           else runtime_status (calls [Some (Work (Bridge 0) [StagedOutput 1] [Memory d])]) c) outputs),
                         runtime_status publish] c
                  else let (status, is, c) = (if missing c (StagedOutput 1) then (CUDA_RUNTIME_ERROR, [], c) else acquire_outputs outputs c)
                       in if status \<noteq> CUDA_OK then (CUDA_RUNTIME_ERROR, c)
                          else steps [runtime_status (calls ([None, Some (Await (Bridge 1) (e RemoteDone))] @
                                   map (\<lambda>i. Some (Work (Bridge 1) [StagedOutput 1] [HostSlot OutputRing i])) is @ [Some (Record (e OutputFree) (Bridge 1))])),
                                 \<lambda>c. (CUDA_OK, c\<lparr>last_output_free := Some (e OutputFree)\<rparr>),
                                 runtime_status (calls [None, Some (Await (Bridge 0) (e OutputFree))]),
                                 copy_outputs outputs is,
                                 runtime_status publish] c)"

end
