(* ===== verification/Q4Products.thy ===== *)
theory Q4Products
  imports Q4Bridge
begin

section \<open>Products of the Q4 backend\<close>

text \<open>
  Models how \<open>src/backend/cuda/fortai_cuda_q4_backend.cu\<close> runs GGML's graphs: the cache of captured graphs,
  the plans for several products, and the functions that queue them, on the first device, on the second,
  or across the bridge. What a graph computes is GGML's and appears by the places it reads and writes;
  the weights and the plans' own intermediate results, which stay on GGML's stream, do not appear.
\<close>

subsection \<open>Captured graphs\<close>

text \<open>
  \<open>cached_exec\<close> is there when \<open>captured\<close> has the places with which its graph was captured. A launch works
  on these, whatever places it is asked for.
\<close>

definition graph_compute :: "nat \<Rightarrow> place list \<Rightarrow> place list \<Rightarrow> q4_context call" where
  "graph_compute slot r w c = calls [Some (Work (scheduler_stream c slot) r w)] c"

definition set_cache :: "graph_id \<Rightarrow> graph_cache \<Rightarrow> q4_context \<Rightarrow> q4_context" where
  "set_cache g cache c = c\<lparr>graph_caches := (graph_caches c)(g := cache)\<rparr>"

definition give_up_caching :: "nat \<Rightarrow> graph_id \<Rightarrow> place list \<Rightarrow> place list \<Rightarrow> q4_context call" where
  "give_up_caching slot g r w c = graph_compute slot r w
     (set_cache g ((graph_caches c g)\<lparr>graph_disabled := True\<rparr>) (drop_slot Graph (CachedGraph g) c))"

definition capture_graph :: "graph_id \<Rightarrow> q4_context call" where
  "capture_graph g c =
     (let (computed, c) = asked c; (ended, c) = create_slot (CachedGraph g) 0 c in (computed \<and> ended, c))"

definition graph_compute_cached :: "nat \<Rightarrow> graph_id \<Rightarrow> place list \<Rightarrow> place list \<Rightarrow> q4_context call" where
  "graph_compute_cached slot g r w c =
     (if \<not> segment_graph_requested c \<or> graph_disabled (graph_caches c g) then graph_compute slot r w c
      else let (ok, c) = asked c
           in if \<not> ok \<or> outer_capture c slot then graph_compute slot r w c
              else case captured (graph_caches c g) of
                Some (r', w') \<Rightarrow> calls [None, Some (Work (scheduler_stream c slot) r' w')] c
              | None \<Rightarrow>
                  if \<not> graph_warmup (graph_caches c g)
                  then graph_compute slot r w (set_cache g ((graph_caches c g)\<lparr>graph_warmup := True\<rparr>) c)
                  else let (ok, c) = chain [asked, asked, capture_graph g, create_slot (CachedExec g) 0] c
                       in if \<not> ok then give_up_caching slot g r w c
                          else calls [Some (Work (scheduler_stream c slot) r w)]
                                 (set_cache g ((graph_caches c g)\<lparr>captured := Some (r, w)\<rparr>) c))"

subsection \<open>Plans\<close>

text \<open>
  A plan is looked up by its key; a new one gets a GGML context for its tensors and, but for the batched
  products, a buffer for them. The plan of a group is only a graph in the context of its first product.
\<close>

definition find_owned_plan :: "bool \<Rightarrow> graph_id \<Rightarrow> q4_context call" where
  "find_owned_plan buffer g c =
     (if g \<in> set (plans c) then (True, c)
      else let (ok, c) = chain ([create_slot (GraphContext g) 0, asked] @ (if buffer then [create_slot (GraphBuffer g) 0] else []) @ [asked]) c
           in if ok then (True, c\<lparr>plans := plans c @ [g]\<rparr>) else (False, drop_slots q4_kind [GraphBuffer g, GraphContext g] c))"

definition weights_device :: "q4_context \<Rightarrow> q4_weights \<Rightarrow> int" where
  "weights_device c w = device_ids c (weights_slot w)"

definition find_swiglu_plan :: "q4_weights \<Rightarrow> q4_weights \<Rightarrow> q4_context call" where
  "find_swiglu_plan gate up c =
     (if weights_device c gate \<noteq> weights_device c up \<or> weights_width gate \<noteq> weights_width up \<or> weights_height gate \<noteq> weights_height up
      then (False, c) else find_owned_plan True (SwigluPlan gate up) c)"

definition find_ffn_plan :: "q4_weights \<Rightarrow> q4_weights \<Rightarrow> q4_weights \<Rightarrow> int \<Rightarrow> q4_context call" where
  "find_ffn_plan gate up down batch c =
     (if weights_device c gate \<noteq> weights_device c up \<or> weights_device c gate \<noteq> weights_device c down \<or>
         weights_width gate \<noteq> weights_width up \<or> weights_height gate \<noteq> weights_height up \<or> weights_width down \<noteq> weights_height gate \<or> batch \<le> 0
      then (False, c) else find_owned_plan True (FfnPlan gate up down (nat batch)) c)"

definition find_group_plan :: "q4_weights list \<Rightarrow> q4_context call" where
  "find_group_plan ws c =
     (if GroupPlan ws \<in> set (plans c) then (True, c)
      else let (ok, c) = asked c in if ok then (True, c\<lparr>plans := plans c @ [GroupPlan ws]\<rparr>) else (False, c))"

definition find_batch_plan :: "q4_weights list \<Rightarrow> nat \<Rightarrow> q4_context call" where
  "find_batch_plan ws batch c =
     (if BatchPlan ws batch \<in> set (plans c) then (True, c)
      else if \<exists>w\<in>set ws. weights_device c w \<noteq> weights_device c (hd ws) \<or> weights_width w \<noteq> weights_width (hd ws)
      then let (ok, c) = create_slot (GraphContext (BatchPlan ws batch)) 0 c in (False, drop_slot GgmlContext (GraphContext (BatchPlan ws batch)) c)
      else find_owned_plan False (BatchPlan ws batch) c)"

definition find_lookup_plan :: "q4_weights \<Rightarrow> nat \<Rightarrow> q4_context call" where
  "find_lookup_plan w batch = find_owned_plan True (LookupPlan w batch)"

subsection \<open>Across the bridge\<close>

definition both_streams :: "q4_context \<Rightarrow> bool" where
  "both_streams c \<longleftrightarrow> consumer_stream c 0 \<noteq> None \<and> consumer_stream c 1 \<noteq> None"

definition async_bridge :: "q4_context \<Rightarrow> bool" where
  "async_bridge c \<longleftrightarrow> \<not> sync_bridge_requested c \<and> both_streams c"

text \<open>The activation is queued on the streams, or copied by the host; some callers wait for its producer first.\<close>

definition queue_activation :: "nat \<Rightarrow> nat \<Rightarrow> q4_context \<Rightarrow> int \<times> bridge_id option \<times> q4_context" where
  "queue_activation activation n c =
     (let (status, events, c) = queue_activation_remote activation n c
      in (if status = CUDA_OK then CUDA_OK else CUDA_RUNTIME_ERROR, events, c))"

definition copy_across :: "nat \<Rightarrow> nat \<Rightarrow> q4_step" where
  "copy_across activation n = as_runtime (copy_between_devices (StagedActivation 1) 1 (Memory activation) 0 n)"

definition prepare_device :: "nat \<Rightarrow> q4_step" where
  "prepare_device slot c = as_runtime (prepare_input (device_ids c slot)) c"

definition publish_device :: "nat \<Rightarrow> q4_step" where
  "publish_device slot c = as_runtime (publish_output (device_ids c slot)) c"

definition bring_activation :: "bool \<Rightarrow> bool \<Rightarrow> nat \<Rightarrow> nat \<Rightarrow> q4_context \<Rightarrow> int \<times> bridge_id option \<times> q4_context" where
  "bring_activation async prepare activation n c =
     (if async then queue_activation activation n c
      else let (status, c) = steps ((if prepare then [prepare_device 0] else []) @ [copy_across activation n]) c in (status, None, c))"

definition host_waits :: "nat \<Rightarrow> q4_step" where
  "host_waits slot c = (CUDA_OK, host_did (HostStream (scheduler_stream c slot)) c)"

definition return_outputs :: "bool \<Rightarrow> bridge_id option \<Rightarrow> (nat \<times> nat) list \<Rightarrow> q4_step" where
  "return_outputs async events outputs =
     (if async then steps [as_runtime (record_remote_done (the events)), as_runtime (queue_outputs_primary (the events) outputs)]
      else steps (host_waits 1 # map (\<lambda>(d, m). as_runtime (copy_between_devices (Memory d) 0 (StagedOutput 1) 1 m)) outputs))"

definition wait_if :: "bool \<Rightarrow> q4_step" where
  "wait_if b c = (if b then as_runtime wait_output_buffer c else (CUDA_OK, c))"

text \<open>A product whose activation and results are on the first device and whose weights are on the second.\<close>

definition remote_product :: "bool \<Rightarrow> bool \<Rightarrow> graph_id \<Rightarrow> nat \<Rightarrow> nat \<Rightarrow> nat \<Rightarrow> nat \<Rightarrow> q4_step" where
  "remote_product async prepare g activation n output m c =
     (let (status, c) = ensure_bridge 1 (4 * n) (4 * m) c
      in if status \<noteq> CUDA_OK then (status, c)
         else let (status, events, c) = bring_activation async prepare activation (4 * n) c
              in if status \<noteq> CUDA_OK then (status, c)
                 else steps [wait_if async, runtime_status (graph_compute_cached 1 g [StagedActivation 1] [StagedOutput 1]),
                        return_outputs async events [(output, 4 * m)]] c)"

definition local_product :: "nat \<Rightarrow> graph_id \<Rightarrow> place list \<Rightarrow> place list \<Rightarrow> q4_step" where
  "local_product slot g r w =
     steps [prepare_device slot, \<lambda>c. runtime_status (graph_compute_cached (the (consumer_slot c (device_ids c slot))) g r w) c,
       publish_device slot]"

text \<open>\<open>fortai_cuda_q4_matvec_device\<close>; the test of the streams leaves the synchronous bridge out.\<close>

definition q4_matvec_device :: "q4_weights option \<Rightarrow> nat option \<Rightarrow> nat \<Rightarrow> nat option \<Rightarrow> nat \<Rightarrow> q4_step" where
  "q4_matvec_device weights activation n output m c =
     (case (weights, activation, output) of
        (Some w, Some activation, Some output) \<Rightarrow>
          if n = 0 \<or> m < weights_height w \<or> n \<noteq> weights_width w then (CUDA_INVALID, c)
          else if weights_device c w = device_ids c 0 then local_product 0 (ProductGraph w) [Memory activation] [Memory output] c
          else if weights_device c w \<noteq> device_ids c 1 then (CUDA_INVALID, c)
          else remote_product (both_streams c) False (ProductGraph w) activation n output (weights_height w) c
      | _ \<Rightarrow> (CUDA_INVALID, c))"

text \<open>The gated feed-forward block without and with its down projection.\<close>

definition q4_swiglu :: "bool \<Rightarrow> q4_weights option \<Rightarrow> q4_weights option \<Rightarrow> nat option \<Rightarrow> nat \<Rightarrow> nat option \<Rightarrow> nat \<Rightarrow> q4_step" where
  "q4_swiglu remote_output gate up activation n output m c =
     (case (gate, up, activation, output) of
        (Some gate, Some up, Some activation, Some output) \<Rightarrow>
          if n = 0 then (CUDA_INVALID, c)
          else let g = SwigluPlan gate up; (found, c) = find_swiglu_plan gate up c; remote = (weights_device c gate \<noteq> device_ids c 0)
               in if \<not> found then (CUDA_RUNTIME_ERROR, c)
                  else if n \<noteq> weights_width gate \<or> m < weights_height gate then (CUDA_INVALID, c)
                  else if remote \<and> weights_device c gate \<noteq> device_ids c 1 then (CUDA_INVALID, c)
                  else if remote_output \<noteq> remote then (CUDA_INVALID, c)
                  else if \<not> remote then local_product 0 g [Memory activation] [Memory output] c
                  else let async = async_bridge c; (status, c) = ensure_bridge 1 (4 * n) 0 c
                       in if status \<noteq> CUDA_OK then (status, c)
                          else let (status, events, c) = bring_activation async True activation (4 * n) c
                               in if status \<noteq> CUDA_OK then (status, c)
                                  else steps [runtime_status (graph_compute_cached 1 g [StagedActivation 1] [Memory output]),
                                    if async then steps [as_runtime (record_remote_done (the events)),
                                      \<lambda>c. runtime_status (calls [None, Some (Await (the (consumer_stream c 1)) (Edge RemoteDone (the events)))]) c]
                                    else host_waits 1] c
      | _ \<Rightarrow> (CUDA_INVALID, c))"

definition q4_swiglu_down :: "q4_weights option \<Rightarrow> q4_weights option \<Rightarrow> q4_weights option \<Rightarrow> nat option \<Rightarrow> nat \<Rightarrow> nat option \<Rightarrow> nat \<Rightarrow> q4_step" where
  "q4_swiglu_down gate up down activation n output m c =
     (case (gate, up, down, activation, output) of
        (Some gate, Some up, Some down, Some activation, Some output) \<Rightarrow>
          if n = 0 \<or> weights_device c gate \<noteq> weights_device c up \<or> weights_device c gate \<noteq> weights_device c down then (CUDA_INVALID, c)
          else let g = FfnPlan gate up down 1; (found, c) = find_ffn_plan gate up down 1 c
               in if \<not> found then (CUDA_RUNTIME_ERROR, c)
                  else if n \<noteq> weights_width gate \<or> m < weights_height down then (CUDA_INVALID, c)
                  else if weights_device c gate = device_ids c 0 then local_product 0 g [Memory activation] [Memory output] c
                  else if weights_device c gate \<noteq> device_ids c 1 then (CUDA_INVALID, c)
                  else remote_product (async_bridge c) True g activation n output (weights_height down) c
      | _ \<Rightarrow> (CUDA_INVALID, c))"

definition q4_swiglu_down_slot ::
    "int \<Rightarrow> q4_weights option \<Rightarrow> q4_weights option \<Rightarrow> q4_weights option \<Rightarrow> nat option \<Rightarrow> nat \<Rightarrow> int \<Rightarrow> nat option \<Rightarrow> nat \<Rightarrow> q4_step" where
  "q4_swiglu_down_slot slot gate up down activation n batch output m c =
     (case (gate, up, down, activation, output) of
        (Some gate, Some up, Some down, Some activation, Some output) \<Rightarrow>
          if slot < 0 \<or> slot > 1 \<or> batch \<le> 0 \<or> weights_device c gate \<noteq> device_ids c (nat slot) \<or>
             weights_device c up \<noteq> weights_device c gate \<or> weights_device c down \<noteq> weights_device c gate then (CUDA_INVALID, c)
          else let (found, c) = find_ffn_plan gate up down batch c
               in if \<not> found \<or> n \<noteq> weights_width gate * nat batch \<or> m < weights_height down * nat batch then (CUDA_INVALID, c)
                  else local_product (nat slot) (FfnPlan gate up down (nat batch)) [Memory activation] [Memory output] c
      | _ \<Rightarrow> (CUDA_INVALID, c))"

subsection \<open>Groups\<close>

text \<open>
  Several products of one activation, each with its weights, its result and the room for it. The members
  on one device are one graph; the devices come in the order of their first member.
\<close>

type_synonym member = "q4_weights \<times> nat"

function by_device :: "('a \<Rightarrow> int) \<Rightarrow> 'a list \<Rightarrow> 'a list list" where
  "by_device d [] = []"
| "by_device d (x # xs) = (x # filter (\<lambda>y. d y = d x) xs) # by_device d (filter (\<lambda>y. d y \<noteq> d x) xs)"
  by pat_completeness auto
termination by (relation "measure (length \<circ> snd)") (auto simp: less_Suc_eq_le)

text \<open>The checked members, or \<open>None\<close> when one is refused: null, too little room, or of another width.\<close>

definition checked_member :: "nat \<Rightarrow> q4_weights option \<times> nat option \<times> nat \<Rightarrow> member option" where
  "checked_member n = (\<lambda>(w, output, m). case (w, output) of
     (Some w, Some output) \<Rightarrow> if m < weights_height w \<or> n \<noteq> weights_width w then None else Some (w, output)
   | _ \<Rightarrow> None)"

definition group_pass :: "nat \<Rightarrow> nat \<Rightarrow> member list \<Rightarrow> q4_step" where
  "group_pass activation n members c =
     (let ws = map fst members; g = GroupPlan ws
      in if weights_device c (hd ws) = device_ids c 0
         then steps [runtime_status (find_group_plan ws),
                runtime_status (graph_compute_cached 0 g [Memory activation] (map (Memory \<circ> snd) members)), publish_device 0] c
         else if weights_device c (hd ws) \<noteq> device_ids c 1 then (CUDA_INVALID, c)
         else let async = async_bridge c; (status, c) = ensure_bridge 1 (4 * n) 0 c
              in if status \<noteq> CUDA_OK then (status, c)
                 else let (status, events, c) = bring_activation async False activation (4 * n) c
                      in if status \<noteq> CUDA_OK then (status, c)
                         else steps [runtime_status (find_group_plan ws), ensure_bridge 1 (4 * n) (sum_list (map (\<lambda>w. 4 * weights_height w) ws)), wait_if async,
                                runtime_status (graph_compute_cached 1 g [StagedActivation 1] [StagedOutput 1]),
                                return_outputs async events (map (\<lambda>(w, output). (output, 4 * weights_height w)) members)] c)"

definition q4_matvec_device_group :: "(q4_weights option \<times> nat option \<times> nat) list \<Rightarrow> nat option \<Rightarrow> nat \<Rightarrow> q4_step" where
  "q4_matvec_device_group args activation n c =
     (case activation of None \<Rightarrow> (CUDA_INVALID, c)
      | Some activation \<Rightarrow>
          if args = [] \<or> length args > 8 \<or> n = 0 then (CUDA_INVALID, c)
          else case those (map (checked_member n) args) of
            None \<Rightarrow> (CUDA_INVALID, c)
          | Some members \<Rightarrow>
              steps ((if \<exists>(w, _)\<in>set members. weights_device c w = device_ids c 0 then [prepare_device 0] else []) @
                map (group_pass activation n) (by_device (weights_device c \<circ> fst) members)) c)"

definition q4_matvec_device_quad ::
    "q4_weights option \<Rightarrow> q4_weights option \<Rightarrow> q4_weights option \<Rightarrow> q4_weights option \<Rightarrow> nat option \<Rightarrow> nat \<Rightarrow>
     nat option \<Rightarrow> nat \<Rightarrow> nat option \<Rightarrow> nat \<Rightarrow> nat option \<Rightarrow> nat \<Rightarrow> nat option \<Rightarrow> nat \<Rightarrow> q4_step" where
  "q4_matvec_device_quad w1 w2 w3 w4 activation n o1 m1 o2 m2 o3 m3 o4 m4 =
     q4_matvec_device_group [(w1, o1, m1), (w2, o2, m2), (w3, o3, m3), (w4, o4, m4)] activation n"

text \<open>Batches: every activation and every result has \<open>batch\<close> columns.\<close>

definition checked_batch_member :: "q4_context \<Rightarrow> int \<Rightarrow> nat \<Rightarrow> nat \<Rightarrow> q4_weights option \<times> nat option \<times> nat \<Rightarrow> member option" where
  "checked_batch_member c d n batch = (\<lambda>(w, output, m). case (w, output) of
     (Some w, Some output) \<Rightarrow>
       if weights_device c w \<noteq> d \<or> m < weights_height w * batch \<or> n \<noteq> weights_width w * batch then None else Some (w, output)
   | _ \<Rightarrow> None)"

definition q4_matmul_device_group_slot :: "int \<Rightarrow> (q4_weights option \<times> nat option \<times> nat) list \<Rightarrow> nat option \<Rightarrow> nat \<Rightarrow> int \<Rightarrow> q4_step" where
  "q4_matmul_device_group_slot slot args activation n batch c =
     (case activation of None \<Rightarrow> (CUDA_INVALID, c)
      | Some activation \<Rightarrow>
          if args = [] \<or> length args > 4 \<or> batch \<le> 0 \<or> n = 0 \<or> slot < 0 \<or> slot > 1 then (CUDA_INVALID, c)
          else case those (map (checked_batch_member c (device_ids c (nat slot)) n (nat batch)) args) of
            None \<Rightarrow> (CUDA_INVALID, c)
          | Some members \<Rightarrow>
              (let ws = map fst members
               in steps [prepare_device (nat slot), runtime_status (find_batch_plan ws (nat batch)),
                    \<lambda>c. runtime_status (graph_compute_cached (the (consumer_slot c (device_ids c (nat slot)))) (BatchPlan ws (nat batch))
                      [Memory activation] (map (Memory \<circ> snd) members)) c,
                    publish_device (nat slot)] c))"

definition q4_matmul_device_group :: "(q4_weights option \<times> nat option \<times> nat) list \<Rightarrow> nat option \<Rightarrow> nat \<Rightarrow> int \<Rightarrow> q4_step" where
  "q4_matmul_device_group = q4_matmul_device_group_slot 0"

definition q4_matmul_device :: "q4_weights option \<Rightarrow> nat option \<Rightarrow> nat \<Rightarrow> int \<Rightarrow> nat option \<Rightarrow> nat \<Rightarrow> q4_step" where
  "q4_matmul_device w activation n batch output m c =
     (if w = None \<or> output = None \<or> batch \<le> 0 then (CUDA_INVALID, c) else q4_matmul_device_group [(w, output, m)] activation n batch c)"

text \<open>Results that stay on the second device, and activations that are there.\<close>

definition q4_group_remote_output :: "(q4_weights option \<times> nat option \<times> nat) list \<Rightarrow> nat option \<Rightarrow> nat \<Rightarrow> q4_step" where
  "q4_group_remote_output args activation n c =
     (case activation of None \<Rightarrow> (CUDA_INVALID, c)
      | Some activation \<Rightarrow>
          if args = [] \<or> length args > 3 \<or> n = 0 \<or> device_ids c 0 = device_ids c 1 then (CUDA_INVALID, c)
          else case those (map (checked_member n) args) of
            None \<Rightarrow> (CUDA_INVALID, c)
          | Some members \<Rightarrow>
              if \<exists>(w, _)\<in>set members. weights_device c w \<noteq> device_ids c 1 then (CUDA_INVALID, c)
              else let ws = map fst members; async = async_bridge c;
                       (status, events, c) = (if async then queue_activation activation (4 * n) c
                         else let (status, c) = prepare_device 0 c in (status, None, c))
                   in if status \<noteq> CUDA_OK then (status, c)
                      else steps [ensure_bridge 1 (4 * n) 0, \<lambda>c. if async then (CUDA_OK, c) else copy_across activation (4 * n) c,
                             runtime_status (find_group_plan ws), wait_if async,
                             runtime_status (graph_compute_cached 1 (GroupPlan ws) [StagedActivation 1] (map (Memory \<circ> snd) members)),
                             if async then steps [as_runtime (record_remote_done (the events)),
                               \<lambda>c. runtime_status (calls [None, Some (Await (the (consumer_stream c 1)) (Edge RemoteDone (the events)))]) c]
                             else publish_device 1] c)"

definition q4_remote_input :: "q4_weights option \<Rightarrow> nat option \<Rightarrow> nat \<Rightarrow> nat option \<Rightarrow> nat \<Rightarrow> q4_step" where
  "q4_remote_input w activation n output m c =
     (case (w, activation, output) of
        (Some w, Some activation, Some output) \<Rightarrow>
          if n = 0 \<or> device_ids c 0 = device_ids c 1 \<or> weights_device c w \<noteq> device_ids c 1 \<or> m < weights_height w \<or> n \<noteq> weights_width w
          then (CUDA_INVALID, c)
          else let (status, c) = steps [prepare_device 1, ensure_bridge 1 (4 * n) (4 * weights_height w)] c
               in if status \<noteq> CUDA_OK then (status, c)
                  else let async = async_bridge c;
                           (status, events, c) = (if async then next_bridge_events c else (CUDA_OK, None, c))
                       in if status \<noteq> CUDA_OK then (CUDA_RUNTIME_ERROR, c)
                          else steps [wait_if async, runtime_status (graph_compute_cached 1 (ProductGraph w) [Memory activation] [StagedOutput 1]),
                                 return_outputs async events [(output, 4 * weights_height w)]] c
      | _ \<Rightarrow> (CUDA_INVALID, c))"

subsection \<open>Products from and to the host\<close>

text \<open>
  At most three products of one activation of the host, on their own tensors; everything is queued before
  the host waits for the devices. The time that is measured is left out.
\<close>

definition checked_host_member :: "nat \<Rightarrow> q4_weights option \<times> nat option \<times> nat \<Rightarrow> member option" where
  "checked_host_member bytes = (\<lambda>(w, output, output_bytes). case (w, output) of
     (Some w, Some output) \<Rightarrow> if bytes \<noteq> 4 * weights_width w \<or> output_bytes \<noteq> 4 * weights_height w then None else Some (w, output)
   | _ \<Rightarrow> None)"

definition host_pass :: "nat \<Rightarrow> member list \<Rightarrow> q4_step" where
  "host_pass activation members c =
     (let ws = map fst members; slot = the (consumer_slot c (weights_device c (hd ws))); s = scheduler_stream c slot
      in steps [if length members = 1 then (\<lambda>c. (CUDA_OK, c)) else runtime_status (find_group_plan ws),
           \<lambda>c. (CUDA_OK, fold (\<lambda>w. host_did (Work s [Memory activation] [OwnActivation w])) ws c),
           runtime_status (graph_compute_cached slot (if length members = 1 then ProductGraph (hd ws) else GroupPlan ws)
             (map OwnActivation ws) (map OwnOutput ws)),
           \<lambda>c. (CUDA_OK, fold (\<lambda>(w, output). host_did (Work s [OwnOutput w] [Memory output])) members c)] c)"

definition q4_matvec_host_group :: "(q4_weights option \<times> nat option \<times> nat) list \<Rightarrow> nat option \<Rightarrow> nat \<Rightarrow> q4_step" where
  "q4_matvec_host_group args activation bytes c =
     (case activation of None \<Rightarrow> (CUDA_INVALID, c)
      | Some activation \<Rightarrow>
          if args = [] \<or> length args > 3 then (CUDA_INVALID, c)
          else case those (map (checked_host_member bytes) args) of
            None \<Rightarrow> (CUDA_INVALID, c)
          | Some members \<Rightarrow>
              (let passes = by_device (weights_device c \<circ> fst) members
               in steps (map (host_pass activation) passes @
                    map (\<lambda>pass. host_waits (the (consumer_slot c (weights_device c (fst (hd pass)))))) passes) c))"

definition q4_matvec_host :: "q4_weights option \<Rightarrow> nat option \<Rightarrow> nat \<Rightarrow> nat option \<Rightarrow> nat \<Rightarrow> q4_step" where
  "q4_matvec_host w activation bytes output output_bytes = q4_matvec_host_group [(w, output, output_bytes)] activation bytes"

definition q4_matvec_host_pair ::
    "q4_weights option \<Rightarrow> q4_weights option \<Rightarrow> nat option \<Rightarrow> nat \<Rightarrow> nat option \<Rightarrow> nat \<Rightarrow> nat option \<Rightarrow> nat \<Rightarrow> q4_step" where
  "q4_matvec_host_pair w1 w2 activation bytes o1 m1 o2 m2 = q4_matvec_host_group [(w1, o1, m1), (w2, o2, m2)] activation bytes"

definition q4_matvec_host_triplet ::
    "q4_weights option \<Rightarrow> q4_weights option \<Rightarrow> q4_weights option \<Rightarrow> nat option \<Rightarrow> nat \<Rightarrow>
     nat option \<Rightarrow> nat \<Rightarrow> nat option \<Rightarrow> nat \<Rightarrow> nat option \<Rightarrow> nat \<Rightarrow> q4_step" where
  "q4_matvec_host_triplet w1 w2 w3 activation bytes o1 m1 o2 m2 o3 m3 =
     q4_matvec_host_group [(w1, o1, m1), (w2, o2, m2), (w3, o3, m3)] activation bytes"

text \<open>GGML's stream of a device slot, for the caller; one backend serves both slots of one device.\<close>

definition q4_context_stream :: "int \<Rightarrow> q4_context \<Rightarrow> q4_stream option" where
  "q4_context_stream slot c =
     (if slot < 0 \<or> slot > 1 \<or> slots c (Backend (if device_ids c 0 = device_ids c 1 then 0 else nat slot)) = None then None
      else Some (scheduler_stream c (nat slot)))"

subsection \<open>Token lookups\<close>

text \<open>
  \<open>embedding_ready\<close> is whether the lookup is among the plans. The token's number is copied to GGML's
  memory, which is not a place here.
\<close>

definition q4_embedding_device :: "q4_weights option \<Rightarrow> int \<Rightarrow> nat option \<Rightarrow> nat \<Rightarrow> q4_step" where
  "q4_embedding_device w token output m c =
     (case (w, output) of
        (Some w, Some output) \<Rightarrow>
          if token < 0 \<or> token \<ge> int (weights_height w) \<or> m < weights_width w then (CUDA_INVALID, c)
          else let g = LookupGraph w; (status, ready, c) = prepare_embedding w (g \<in> set (plans c)) c
               in if status \<noteq> CUDA_OK then (status, c)
                  else let c = (if g \<in> set (plans c) then c else c\<lparr>plans := plans c @ [g]\<rparr>); slot = the (consumer_slot c (weights_device c w));
                           bytes = 4 * weights_width w
                       in if weights_device c w = device_ids c 0
                          then local_product slot g [] [Memory output] c
                          else steps [prepare_device slot, ensure_bridge 1 0 bytes,
                                 runtime_status (graph_compute_cached 1 g [] [StagedOutput 1]), host_waits 1,
                                 as_runtime (copy_between_devices (Memory output) 0 (StagedOutput 1) 1 bytes)] c
      | _ \<Rightarrow> (CUDA_INVALID, c))"

definition q4_embedding_device_batch_slot :: "int \<Rightarrow> q4_weights option \<Rightarrow> bool \<Rightarrow> int \<Rightarrow> nat option \<Rightarrow> nat \<Rightarrow> q4_step" where
  "q4_embedding_device_batch_slot slot w tokens batch output m c =
     (case (w, output) of
        (Some w, Some output) \<Rightarrow>
          if \<not> tokens \<or> batch \<le> 0 \<or> slot < 0 \<or> slot > 1 \<or> weights_device c w \<noteq> device_ids c (nat slot) \<or> m < weights_width w * nat batch
          then (CUDA_INVALID, c)
          else steps [\<lambda>c. prepare_input (weights_device c w) c, runtime_status (find_lookup_plan w (nat batch)),
                 \<lambda>c. runtime_status (graph_compute_cached (the (consumer_slot c (weights_device c w))) (LookupPlan w (nat batch)) [] [Memory output]) c,
                 \<lambda>c. publish_output (weights_device c w) c] c
      | _ \<Rightarrow> (CUDA_INVALID, c))"

definition q4_embedding_device_batch :: "q4_weights option \<Rightarrow> bool \<Rightarrow> int \<Rightarrow> nat option \<Rightarrow> nat \<Rightarrow> q4_step" where
  "q4_embedding_device_batch = q4_embedding_device_batch_slot 0"

end
