(* ===== verification/Q4Order.thy ===== *)
theory Q4Order
  imports Q4Products
begin

section \<open>The order of works on the bridge\<close>

text \<open>
  That the events of \<open>Q4Bridge\<close> and \<open>Q4Products\<close> order all works on the buffers that both devices share:
  the pinned rings and the two staged buffers of the second device.
\<close>

subsection \<open>Calls that do not touch the bridge\<close>

text \<open>
  The buffers, the events that protect them, and contexts that differ by works on the places \<open>U\<close>, records
  of the protecting events \<open>E\<close>, and what does not matter for the order.
\<close>

definition bridge_places :: "place set" where
  "bridge_places = {p. \<exists>r i. p = HostSlot r i} \<union> {StagedActivation 1, StagedOutput 1}"

fun protecting :: "q4_slot \<Rightarrow> bool" where
  "protecting (RingFree r i) \<longleftrightarrow> True"
| "protecting (Edge e n) \<longleftrightarrow> e = RemoteDone \<or> e = OutputFree"
| "protecting _ \<longleftrightarrow> False"

definition same_setting :: "q4_context \<Rightarrow> q4_context \<Rightarrow> bool" where
  "same_setting c c' \<longleftrightarrow> device_ids c' = device_ids c \<and> segment_graph_requested c' = segment_graph_requested c \<and>
     sync_bridge_requested c' = sync_bridge_requested c \<and> use_peer_copy c' = use_peer_copy c \<and> consumer_stream c' = consumer_stream c \<and>
     outer_capture c' = outer_capture c \<and> graph_caches c' = graph_caches c \<and> (answers c = [] \<longrightarrow> answers c' = [])"

definition queued_within :: "place set \<Rightarrow> q4_slot set \<Rightarrow> (q4_stream, q4_slot, place) queued \<Rightarrow> bool" where
  "queued_within U E q \<longleftrightarrow> (\<forall>p\<in>bridge_places. uses q p \<longrightarrow> p \<in> U) \<and> (\<forall>e s. q = Record e s \<and> protecting e \<longrightarrow> e \<in> E)"

definition within :: "place set \<Rightarrow> q4_slot set \<Rightarrow> q4_context \<Rightarrow> q4_context \<Rightarrow> bool" where
  "within U E c c' \<longleftrightarrow> same_setting c c' \<and> (\<exists>qs. line c' = fold queue qs (line c) \<and> (\<forall>q\<in>set qs. queued_within U E q))"

definition same_marks :: "q4_context \<Rightarrow> q4_context \<Rightarrow> bool" where
  "same_marks c c' \<longleftrightarrow> free_recorded c' = free_recorded c \<and> last_activation_done c' = last_activation_done c \<and> last_output_free c' = last_output_free c"

definition quiet :: "q4_context \<Rightarrow> q4_context \<Rightarrow> bool" where
  "quiet c c' \<longleftrightarrow> within {} {} c c' \<and> same_marks c c'"

lemma within_refl [simp]: "within U E c c"
  unfolding within_def same_setting_def by (intro conjI exI [of _ "[]"]) simp_all

lemma queued_within_mono: "queued_within U E q \<Longrightarrow> U \<subseteq> U' \<Longrightarrow> E \<subseteq> E' \<Longrightarrow> queued_within U' E' q"
  by (auto simp: queued_within_def)

lemma within_mono: "within U E c c' \<Longrightarrow> U \<subseteq> U' \<Longrightarrow> E \<subseteq> E' \<Longrightarrow> within U' E' c c'"
  unfolding within_def using queued_within_mono by blast

lemma within_trans: "within U E c c' \<Longrightarrow> within U' E' c' c'' \<Longrightarrow> within (U \<union> U') (E \<union> E') c c''"
proof -
  assume a: "within U E c c'" "within U' E' c' c''"
  obtain qs where qs: "line c' = fold queue qs (line c)" "\<forall>q\<in>set qs. queued_within U E q" using a(1) by (auto simp: within_def)
  obtain qs' where qs': "line c'' = fold queue qs' (line c')" "\<forall>q\<in>set qs'. queued_within U' E' q" using a(2) by (auto simp: within_def)
  have "line c'' = fold queue (qs @ qs') (line c)" using qs(1) qs'(1) by simp
  moreover have "\<forall>q\<in>set (qs @ qs'). queued_within (U \<union> U') (E \<union> E') q"
    using qs(2) qs'(2) by (auto intro: queued_within_mono)
  moreover have "same_setting c c''" using a by (simp add: within_def same_setting_def)
  ultimately show ?thesis unfolding within_def by blast
qed

lemma quiet_refl [simp]: "quiet c c"
  by (simp add: quiet_def same_marks_def)

lemma quiet_trans: "quiet c c' \<Longrightarrow> quiet c' c'' \<Longrightarrow> quiet c c''"
  using within_trans [of "{}" "{}" c c' "{}" "{}" c''] by (simp add: quiet_def same_marks_def)

lemma quiet_line: "line c' = line c \<Longrightarrow> same_setting c c' \<Longrightarrow> same_marks c c' \<Longrightarrow> quiet c c'"
  unfolding quiet_def within_def by (intro conjI exI [of _ "[]"]) simp_all

definition calm :: "q4_context call \<Rightarrow> bool" where "calm f \<longleftrightarrow> (\<forall>c. quiet c (snd (f c)))"
definition calm_step :: "q4_step \<Rightarrow> bool" where "calm_step f \<longleftrightarrow> (\<forall>c. quiet c (snd (f c)))"

named_theorems calm

lemma calmD: "calm f \<Longrightarrow> f c = (ok, c') \<Longrightarrow> quiet c c'"
  by (metis calm_def snd_conv)

lemma calm_stepD: "calm_step f \<Longrightarrow> f c = (st, c') \<Longrightarrow> quiet c c'"
  by (metis calm_step_def snd_conv)

lemma calm_then: "calm f \<Longrightarrow> quiet (snd (f c)) d \<Longrightarrow> quiet c d"
  unfolding calm_def using quiet_trans by blast

lemma calm_step_then: "calm_step f \<Longrightarrow> quiet (snd (f c)) d \<Longrightarrow> quiet c d"
  unfolding calm_step_def using quiet_trans by blast

lemma calm_asked [calm]: "calm asked"
  unfolding calm_def by (auto intro!: quiet_line simp: asked_def same_setting_def same_marks_def split: list.splits)

lemma calm_create [calm]: "calm (create_slot s n)"
  unfolding calm_def create_slot_def
  by (auto intro!: quiet_line simp: create_in_def asked_def same_setting_def same_marks_def split: list.splits if_splits)

lemma quiet_discard: "quiet c (snd (discard k h c))"
  by (auto intro!: quiet_line simp: discard_def asked_release_def same_setting_def same_marks_def split: list.splits option.splits)

lemma quiet_drop [simp]: "quiet c (drop_slot k s c)"
proof -
  have "quiet x (forget s x)" for x by (rule quiet_line) (simp_all add: forget_def same_setting_def same_marks_def)
  then show ?thesis unfolding drop_slot_def by (auto intro: quiet_trans [OF quiet_discard])
qed

lemma quiet_fold: "(\<And>x c. quiet c (f x c)) \<Longrightarrow> quiet c (fold f xs c)"
  by (induction xs arbitrary: c) (auto intro: quiet_trans)

lemma quiet_drops [simp]: "quiet c (drop_slots ks ss c)"
  unfolding drop_slots_def by (intro quiet_fold) simp

lemma quiet_queue: "queued_within {} {} q \<Longrightarrow> quiet c (c\<lparr>line := queue q (line c)\<rparr>)"
  unfolding quiet_def within_def
  by (intro conjI exI [of _ "[q]"]) (simp_all add: same_setting_def same_marks_def)

lemma calm_enqueue: "queued_within {} {} q \<Longrightarrow> calm (enqueue q)"
  unfolding calm_def enqueue_def
  using calm_then [OF calm_asked] calm_then [OF calm_asked quiet_queue] by (auto simp: Let_def split_beta)

lemma calm_chain: "\<forall>f\<in>set fs. calm f \<Longrightarrow> calm (chain fs)"
proof (induction fs)
  case (Cons f fs)
  then have f: "calm f" "calm (chain fs)" by simp_all
  show ?case unfolding calm_def
    using f(1) [unfolded calm_def] calm_then [OF f(1)] f(2) [unfolded calm_def] by (simp add: split_beta Let_def)
qed (simp add: calm_def)

lemma calm_calls [calm]: "\<forall>q\<in>set qs. case q of None \<Rightarrow> True | Some q \<Rightarrow> queued_within {} {} q \<Longrightarrow> calm (calls qs)"
  unfolding calls_def by (intro calm_chain) (auto simp: calm_asked calm_enqueue split: option.splits)

lemma calm_runtime [calm]: "calm f \<Longrightarrow> calm_step (runtime_status f)"
  by (simp add: calm_def calm_step_def runtime_status_def split_beta Let_def)

lemma calm_as_runtime [calm]: "calm_step f \<Longrightarrow> calm_step (as_runtime f)"
  by (simp add: calm_step_def as_runtime_def split_beta Let_def)

lemma calm_steps [calm]: "\<forall>f\<in>set fs. calm_step f \<Longrightarrow> calm_step (steps fs)"
proof (induction fs)
  case (Cons f fs)
  then have f: "calm_step f" "calm_step (steps fs)" by simp_all
  show ?case unfolding calm_step_def
    using f(1) [unfolded calm_step_def] calm_step_then [OF f(1)] f(2) [unfolded calm_step_def] by (simp add: split_beta Let_def)
qed (simp add: calm_step_def)

lemma harmless_items [simp]:
  "queued_within U E (Await s e)" "queued_within U E (HostEvent e)" "queued_within U E (HostStream s)"
  "queued_within U E (Record e s) \<longleftrightarrow> \<not> protecting e \<or> e \<in> E"
  by (auto simp: queued_within_def)

text \<open>What stays calm, in the form in which the simplifier follows a function step by step.\<close>

lemma quiet_asked [simp]: "quiet c d \<Longrightarrow> quiet c (snd (asked d))"
  using calm_asked quiet_trans by (simp add: calm_def)

lemma quiet_fields: "line c' = line c \<Longrightarrow> same_setting c c' \<Longrightarrow> same_marks c c' \<Longrightarrow> quiet b c \<Longrightarrow> quiet b c'"
  using quiet_line quiet_trans by blast

lemma quiet_counters [simp]:
  "quiet c d \<Longrightarrow> quiet c (d\<lparr>bridge_event_index := n\<rparr>)" "quiet c d \<Longrightarrow> quiet c (d\<lparr>extra_bridge_events := k\<rparr>)"
  "quiet c d \<Longrightarrow> quiet c (d\<lparr>producer_event_index := f\<rparr>)" "quiet c d \<Longrightarrow> quiet c (d\<lparr>plans := ps\<rparr>)"
  "quiet c d \<Longrightarrow> quiet c (d\<lparr>host_index := h\<rparr>)"
  by (auto intro: quiet_fields [of _ d] simp: same_setting_def same_marks_def)

lemma quiet_host_did [simp]: "queued_within {} {} q \<Longrightarrow> quiet c d \<Longrightarrow> quiet c (host_did q d)"
  unfolding host_did_def by (rule quiet_trans [OF _ quiet_queue])

lemma quiet_wait_event [simp]: "quiet c d \<Longrightarrow> quiet c (snd (wait_event e d))"
  by (simp add: wait_event_def split_beta Let_def)

lemma quiet_event_ready [simp]: "quiet c d \<Longrightarrow> quiet c (snd (snd (event_ready e d)))"
  by (simp add: event_ready_def split_beta Let_def)

lemma quiet_all_ready [simp]: "quiet c d \<Longrightarrow> quiet c (snd (snd (all_ready es d)))"
  by (induction es arbitrary: d) (simp_all add: split_beta Let_def)

lemma quiet_bridge_events [simp]: "quiet c d \<Longrightarrow> quiet c (snd (create_bridge_events n d))"
proof -
  have "quiet b (snd (create_all ss b))" for ss b
    unfolding create_all_def using calm_create [unfolded calm_def create_slot_def] by (auto intro!: quiet_fold simp: Let_def)
  then have "quiet b (snd (create_bridge_events n b))" for b
    unfolding create_bridge_events_def free_bridge_events_def using quiet_trans [OF _ quiet_drops] by (simp add: split_beta Let_def)
  then show "quiet c d \<Longrightarrow> quiet c (snd (create_bridge_events n d))" using quiet_trans by blast
qed

lemma quiet_next_bridge_events [simp]: "quiet c d \<Longrightarrow> quiet c (snd (snd (next_bridge_events d)))"
proof -
  have f: "quiet c d \<Longrightarrow> quiet c (free_bridge_events n d)" for c d n unfolding free_bridge_events_def by (rule quiet_trans [OF _ quiet_drops])
  have i: "quiet c x \<Longrightarrow> quiet c y \<Longrightarrow> quiet c (if b then x else y)" for b c x y by simp
  show "quiet c d \<Longrightarrow> quiet c (snd (snd (next_bridge_events d)))"
    by (simp add: next_bridge_events_def split_beta Let_def f del: all_ready.simps)
qed

lemma quiet_next_event [simp]: "quiet c d \<Longrightarrow> quiet c (snd (snd (next_event slot d)))"
  by (simp add: next_event_def split_beta Let_def)

lemma quiet_calls [simp]:
  "quiet c d \<Longrightarrow> \<forall>q\<in>set qs. case q of None \<Rightarrow> True | Some q \<Rightarrow> queued_within {} {} q \<Longrightarrow> quiet c (snd (calls qs d))"
  using calm_calls quiet_trans by (simp add: calm_def)

lemma quiet_runtime [simp]: "snd (runtime_status f d) = snd (f d)"
  by (simp add: runtime_status_def split_beta Let_def)

lemma quiet_as_runtime [simp]: "snd (as_runtime f d) = snd (f d)"
  by (simp add: as_runtime_def split_beta Let_def)

lemma quiet_scheduler [simp]:
  "\<not> protecting e \<Longrightarrow> quiet c d \<Longrightarrow> quiet c (snd (record_scheduler_event slot e d))" "quiet c d \<Longrightarrow> quiet c (snd (wait_scheduler_event slot e d))"
  by (simp_all add: record_scheduler_event_def wait_scheduler_event_def)

lemma next_event_producer [simp]: "\<not> protecting (fst (snd (next_event slot c)))"
  by (simp add: next_event_def Let_def split_beta)

lemma quiet_prepare_input [simp]: "quiet c d \<Longrightarrow> quiet c (snd (prepare_input dev d))"
  by (simp add: prepare_input_def split_beta Let_def split: option.splits)

lemma quiet_publish_output [simp]: "quiet c d \<Longrightarrow> quiet c (snd (publish_output dev d))"
  by (simp add: publish_output_def split_beta Let_def split: option.splits)

lemma quiet_find_owned [simp]: "quiet c d \<Longrightarrow> quiet c (snd (find_owned_plan b g d))"
proof -
  let ?f = "chain ([create_slot (GraphContext g) 0, asked] @ (if b then [create_slot (GraphBuffer g) 0] else []) @ [asked])"
  have "calm ?f" by (rule calm_chain) (simp add: calm)
  then have "quiet c d \<Longrightarrow> quiet c (snd (?f d))" using quiet_trans by (simp add: calm_def)
  then show "quiet c d \<Longrightarrow> quiet c (snd (find_owned_plan b g d))"
    using quiet_trans [OF _ quiet_drops] unfolding find_owned_plan_def by (simp add: split_beta Let_def)
qed

lemma quiet_find_plan [simp]:
  "quiet c d \<Longrightarrow> quiet c (snd (find_swiglu_plan gate up d))" "quiet c d \<Longrightarrow> quiet c (snd (find_ffn_plan gate up down batch d))"
  "quiet c d \<Longrightarrow> quiet c (snd (find_group_plan ws d))"
  by (simp_all add: find_swiglu_plan_def find_ffn_plan_def find_group_plan_def split_beta Let_def)

lemma quiet_drop_after [simp]: "quiet c d \<Longrightarrow> quiet c (drop_slot k s d)"
  by (rule quiet_trans [OF _ quiet_drop])

lemma quiet_create_after [simp]: "quiet c d \<Longrightarrow> quiet c (snd (create_slot s n d))"
  using calm_create quiet_trans by (simp add: calm_def)

lemma quiet_find_batch [simp]: "quiet c d \<Longrightarrow> quiet c (snd (find_batch_plan ws batch d))"
  by (simp add: find_batch_plan_def split_beta Let_def)

subsection \<open>What successful calls queue\<close>

fun items :: "'a option list \<Rightarrow> 'a list" where
  "items [] = []"
| "items (None # qs) = items qs"
| "items (Some q # qs) = q # items qs"

lemma items_append [simp]: "items (xs @ ys) = items xs @ items ys"
  by (induction xs rule: items.induct) simp_all

lemma items_map [simp]: "items (map (\<lambda>x. Some (f x)) xs) = map f xs"
  by (induction xs) simp_all

lemma calls_done:
  "calls qs c = (True, c') \<Longrightarrow> \<exists>as. c' = c\<lparr>answers := as, line := fold queue (items qs) (line c)\<rparr> \<and> (answers c = [] \<longrightarrow> as = [])"
proof (induction qs arbitrary: c)
  case Nil
  then show ?case by (intro exI [of _ "answers c"]) (simp add: calls_def)
next
  case (Cons q qs)
  obtain ok x where x: "(case q of None \<Rightarrow> asked | Some q \<Rightarrow> enqueue q) c = (ok, x)" by (metis surj_pair)
  then have ok: ok "calls qs x = (True, c')" using Cons.prems by (simp_all add: calls_def split: if_splits)
  have "\<exists>as. x = c\<lparr>answers := as, line := fold queue (items [q]) (line c)\<rparr> \<and> (answers c = [] \<longrightarrow> as = [])"
  proof (cases q)
    case None
    then show ?thesis using x ok(1) by (cases "answers c") (auto simp: asked_def intro: exI [of _ "answers c"])
  next
    case (Some a)
    then show ?thesis using x ok(1)
      by (cases "answers c") (auto simp: enqueue_def asked_def Let_def intro: exI [of _ "answers c"] split: if_splits)
  qed
  moreover obtain bs where "c' = x\<lparr>answers := bs, line := fold queue (items qs) (line x)\<rparr>" "answers x = [] \<longrightarrow> bs = []"
    using Cons.IH [OF ok(2)] by blast
  moreover have "items (q # qs) = items [q] @ items qs" by (cases q) simp_all
  ultimately show ?case by (intro exI [of _ bs]) auto
qed

lemma calls_same:
  assumes "calls qs c = (True, c')"
  shows "line c' = fold queue (items qs) (line c)" "same_setting c c'" "same_marks c c'"
  using calls_done [OF assms] by (auto simp: same_setting_def same_marks_def)

lemma calls_within:
  assumes "calls qs c = (True, c')" and "\<forall>q\<in>set (items qs). queued_within U E q"
  shows "within U E c c'"
  using calls_same [OF assms(1)] assms(2) by (auto simp: within_def)

lemma runtime_ok: "runtime_status f c = (CUDA_OK, c') \<longleftrightarrow> f c = (True, c')"
  by (cases "f c") (auto simp: runtime_status_def CUDA_OK_def CUDA_RUNTIME_ERROR_def)

lemma as_runtime_ok: "as_runtime f c = (CUDA_OK, c') \<longleftrightarrow> f c = (CUDA_OK, c')"
  by (cases "f c") (auto simp: as_runtime_def CUDA_OK_def CUDA_RUNTIME_ERROR_def)

lemma steps_ok: "steps (f # fs) c = (CUDA_OK, c') \<longleftrightarrow> (\<exists>x. f c = (CUDA_OK, x) \<and> steps fs x = (CUDA_OK, c'))"
  by (cases "f c") auto

lemma not_ok [simp]: "CUDA_INVALID \<noteq> CUDA_OK" "CUDA_RUNTIME_ERROR \<noteq> CUDA_OK" "CUDA_OK \<noteq> CUDA_INVALID" "CUDA_OK \<noteq> CUDA_RUNTIME_ERROR"
  by (simp_all add: CUDA_OK_def CUDA_INVALID_def CUDA_RUNTIME_ERROR_def)

subsection \<open>Who knows of the works on the bridge\<close>

lemma within_knows:
  assumes "within U E c c'" and "p \<in> bridge_places" "p \<notin> U" and "knows (line c) p h" and "\<forall>e. h = AtEvent e \<longrightarrow> protecting e \<and> e \<notin> E"
  shows "knows (line c') p h"
proof -
  obtain qs where qs: "line c' = fold queue qs (line c)" "\<forall>q\<in>set qs. queued_within U E q" using assms(1) by (auto simp: within_def)
  show ?thesis unfolding qs(1)
    by (rule knows_frames [OF assms(4)]) (use qs(2) assms(2,3,5) in \<open>fastforce simp: queued_within_def\<close>)
qed

lemma within_serial:
  assumes "within {} E c c'" and "serial bridge_places (line c)"
  shows "serial bridge_places (line c')"
proof -
  obtain qs where qs: "line c' = fold queue qs (line c)" "\<forall>q\<in>set qs. queued_within {} E q" using assms(1) by (auto simp: within_def)
  show ?thesis unfolding qs(1)
    by (rule serial_queues [OF assms(2)]) (use qs(2) in \<open>auto simp: queued_within_def\<close>)
qed

text \<open>A slot of a ring: when it may be used again.\<close>

definition ring_slot_ok :: "ring \<Rightarrow> nat \<Rightarrow> q4_context \<Rightarrow> bool" where
  "ring_slot_ok r i c \<longleftrightarrow> knows (line c) (HostSlot r i) (if free_recorded c r i then AtEvent (RingFree r i) else AtHost)"

text \<open>The staged activation: GGML's stream knows of its works, and the last event does.\<close>

definition activation_ok :: "q4_context \<Rightarrow> bool" where
  "activation_ok c \<longleftrightarrow> knows (line c) (StagedActivation 1) (OnStream (Scheduler 1)) \<and>
     (case last_activation_done c of None \<Rightarrow> knows (line c) (StagedActivation 1) AtHost
      | Some e \<Rightarrow> (\<exists>n. e = Edge RemoteDone n) \<and> knows (line c) (StagedActivation 1) (AtEvent e))"

text \<open>The staged results: GGML's stream knows of their works, or will once it waits for the last event.\<close>

definition output_ok :: "q4_context \<Rightarrow> bool" where
  "output_ok c \<longleftrightarrow> knows (line c) (StagedOutput 1) (OnStream (Scheduler 1)) \<or>
     (knows (line c) (StagedOutput 1) (OnStream (Bridge 1)) \<and>
      (\<exists>n. last_output_free c = Some (Edge OutputFree n) \<and> knows (line c) (StagedOutput 1) (AtEvent (Edge OutputFree n))))"

lemma quiet_knows:
  assumes "quiet c c'" and "p \<in> bridge_places" and "knows (line c) p h" and "\<forall>e. h = AtEvent e \<longrightarrow> protecting e"
  shows "knows (line c') p h"
  using within_knows [of "{}" "{}" c c' p h] assms by (simp add: quiet_def)

lemma bridge_place [simp]: "HostSlot r i \<in> bridge_places" "StagedActivation 1 \<in> bridge_places" "StagedOutput 1 \<in> bridge_places"
  "Memory a \<notin> bridge_places" "OwnActivation w \<notin> bridge_places" "OwnOutput w \<notin> bridge_places"
  by (simp_all add: bridge_places_def)

lemma bridge_place_Suc [simp]: "StagedActivation (Suc 0) \<in> bridge_places" "StagedOutput (Suc 0) \<in> bridge_places"
  by (simp_all add: bridge_places_def)

lemma quiet_marks: "quiet c c' \<Longrightarrow> free_recorded c' = free_recorded c" "quiet c c' \<Longrightarrow> last_activation_done c' = last_activation_done c"
  "quiet c c' \<Longrightarrow> last_output_free c' = last_output_free c"
  by (simp_all add: quiet_def same_marks_def)

lemma quiet_ring_ok: "quiet c c' \<Longrightarrow> ring_slot_ok r i c \<Longrightarrow> ring_slot_ok r i c'"
  unfolding ring_slot_ok_def by (rule quiet_knows) (simp_all add: quiet_marks)

text \<open>From one context to another with works on one slot of a ring only.\<close>

definition ring_step :: "ring \<Rightarrow> nat \<Rightarrow> q4_context \<Rightarrow> q4_context \<Rightarrow> bool" where
  "ring_step r i c c' \<longleftrightarrow> within {HostSlot r i} {RingFree r i} c c' \<and> serial bridge_places (line c') \<and>
     last_activation_done c' = last_activation_done c \<and> last_output_free c' = last_output_free c \<and>
     (\<forall>r' i'. (r', i') \<noteq> (r, i) \<longrightarrow> free_recorded c' r' i' = free_recorded c r' i')"

lemma ring_step_trans: "ring_step r i c c' \<Longrightarrow> ring_step r i c' c'' \<Longrightarrow> ring_step r i c c''"
  unfolding ring_step_def using within_trans [of "{HostSlot r i}" "{RingFree r i}" c c' "{HostSlot r i}" "{RingFree r i}" c''] by auto

lemma quiet_ring_step: "quiet c c' \<Longrightarrow> serial bridge_places (line c) \<Longrightarrow> ring_step r i c c'"
  unfolding ring_step_def using within_mono [of "{}" "{}" c c' "{HostSlot r i}" "{RingFree r i}"] within_serial [of "{}" c c']
  by (simp add: quiet_def same_marks_def)

lemma ring_step_knows:
  "ring_step r i c c' \<Longrightarrow> p \<in> bridge_places \<Longrightarrow> p \<noteq> HostSlot r i \<Longrightarrow> knows (line c) p h \<Longrightarrow> \<forall>e. h = AtEvent e \<longrightarrow> protecting e \<and> e \<noteq> RingFree r i \<Longrightarrow>
   knows (line c') p h"
  unfolding ring_step_def by (rule within_knows) auto

lemma ring_step_serial: "ring_step r i c c' \<Longrightarrow> serial bridge_places (line c')"
  by (simp add: ring_step_def)

lemma ring_step_ring_ok: "ring_step r i c c' \<Longrightarrow> (r', i') \<noteq> (r, i) \<Longrightarrow> ring_slot_ok r' i' c \<Longrightarrow> ring_slot_ok r' i' c'"
  unfolding ring_slot_ok_def by (rule ring_step_knows) (auto simp: ring_step_def)

lemma ring_step_activation_ok: "ring_step r i c c' \<Longrightarrow> activation_ok c \<Longrightarrow> activation_ok c'"
proof -
  assume s: "ring_step r i c c'" "activation_ok c"
  have "last_activation_done c' = last_activation_done c" using s(1) by (simp add: ring_step_def)
  then show ?thesis using s(2) ring_step_knows [OF s(1), of "StagedActivation 1"] unfolding activation_ok_def by (auto split: option.splits)
qed

lemma ring_step_output_ok: "ring_step r i c c' \<Longrightarrow> output_ok c \<Longrightarrow> output_ok c'"
proof -
  assume s: "ring_step r i c c'" "output_ok c"
  have "last_output_free c' = last_output_free c" using s(1) by (simp add: ring_step_def)
  then show ?thesis using s(2) ring_step_knows [OF s(1), of "StagedOutput 1"] unfolding output_ok_def by auto
qed

subsection \<open>The slots of the rings\<close>

lemma wait_event_done:
  assumes "wait_event e c = (CUDA_OK, c')" shows "\<exists>d. quiet c d \<and> c' = host_did (HostEvent e) d"
proof -
  obtain s1 c1 where 1: "asked c = (s1, c1)" by (metis surj_pair)
  obtain s2 c2 where 2: "asked c1 = (s2, c2)" by (metis surj_pair)
  obtain s3 c3 where 3: "asked c2 = (s3, c3)" by (metis surj_pair)
  have q: "quiet c c1" "quiet c c3" using quiet_asked [of c c] quiet_asked [of c c1] quiet_asked [of c c2] 1 2 3 by simp_all
  have "c' = host_did (HostEvent e) c1 \<or> c' = host_did (HostEvent e) c3"
    using assms 1 2 3 by (auto simp: wait_event_def split: if_splits)
  then show ?thesis using q by blast
qed

lemma query_event_done:
  assumes "query_event e c = (CUDA_OK, c')" and "knows (line c) p (AtEvent e)" and "protecting e" and "p \<in> bridge_places"
  shows "quiet c c' \<and> knows (line c') p AtHost"
proof -
  have "quiet c (snd (query_event e c))" by (simp add: query_event_def split_beta Let_def)
  moreover obtain x where x: "quiet c x" "wait_event e x = (CUDA_OK, c')"
    using assms(1) by (auto simp: query_event_def split: prod.splits if_splits) (metis quiet_asked quiet_refl snd_conv)
  then obtain d where d: "quiet c d" "c' = host_did (HostEvent e) d"
    using wait_event_done [OF x(2)] quiet_trans by blast
  have "knows (line c') p AtHost"
    unfolding d(2) host_did_def using knows_event [OF quiet_knows [OF d(1) assms(4,2)]] assms(3) by simp
  ultimately show ?thesis using assms(1) by simp
qed

lemma serial_work: "serial P t \<Longrightarrow> \<forall>p\<in>P. p \<in> set r \<or> p \<in> set w \<longrightarrow> knows t p (OnStream s) \<Longrightarrow> serial P (queue (Work s r w) t)"
  by (intro serial_queue) (simp_all add: admits_knows)

lemma serial_host_work: "serial P t \<Longrightarrow> \<forall>p\<in>P. p \<in> set r \<or> p \<in> set w \<longrightarrow> knows t p AtHost \<Longrightarrow> serial P (queue (HostWork r w) t)"
  by (intro serial_queue) (simp_all add: admits_knows)

lemma serial_calm: "serial P t \<Longrightarrow> \<forall>p. \<not> uses q p \<Longrightarrow> serial P (queue q t)"
  using serial_queues [of P t "[q]"] by simp

lemma release_done:
  assumes "release_ring_buffer r i c = (True, c')" and "serial bridge_places (line c)" and "knows (line c) (HostSlot r i) AtHost"
  shows "ring_step r i c c' \<and> free_recorded c' = free_recorded c \<and> knows (line c') (HostSlot r i) AtHost"
proof (cases "slots c (RingBuffer r i) = None")
  case True
  then have "c' = c" using assms(1) by (simp add: release_ring_buffer_def)
  then show ?thesis using assms(2,3) by (simp add: ring_step_def)
next
  case False
  obtain ok d where d: "discard PinnedMemory (slots c (RingBuffer r i)) c = (ok, d)" by (metis surj_pair)
  have q: "quiet c d" using quiet_discard [of c PinnedMemory "slots c (RingBuffer r i)"] d by simp
  let ?e = "set_bytes (RingBuffer r i) 0 (forget (RingBuffer r i) d)"
  have c': "c' = host_did (HostWork [] [HostSlot r i]) ?e" using assms(1) False d by (simp add: release_ring_buffer_def split: if_splits)
  have "quiet d ?e" by (rule quiet_line) (simp_all add: set_bytes_def forget_def same_setting_def same_marks_def)
  then have e: "quiet c ?e" using q quiet_trans by blast
  have s: "serial bridge_places (line ?e)" using e assms(2) within_serial [of "{}" c ?e] by (simp add: quiet_def)
  have k: "knows (line ?e) (HostSlot r i) AtHost" using quiet_knows [OF e _ assms(3)] by simp
  have "within {HostSlot r i} {RingFree r i} ?e c'"
    unfolding within_def c' by (intro conjI exI [of _ "[HostWork [] [HostSlot r i]]"]) (auto simp: host_did_def same_setting_def queued_within_def)
  moreover have "serial bridge_places (line c')" unfolding c' host_did_def using serial_host_work [OF s, of "[]" "[HostSlot r i]"] k by simp
  ultimately have "ring_step r i ?e c'" by (simp add: ring_step_def c' host_did_def)
  moreover have "knows (line c') (HostSlot r i) AtHost" unfolding c' host_did_def using knows_host_own [OF k] by simp
  moreover have "free_recorded c' = free_recorded c" using quiet_marks(1) [OF e] by (simp add: c' host_did_def)
  ultimately show ?thesis using ring_step_trans [OF quiet_ring_step [OF e assms(2)]] by blast
qed

lemma mark_ring_step: "serial bridge_places (line c) \<Longrightarrow> ring_step r i c (mark_free r i b c)"
  unfolding ring_step_def within_def by (auto simp: mark_free_def same_setting_def intro: exI [of _ "[]"])

lemma mark_free_fields [simp]: "line (mark_free r i b c) = line c" "free_recorded (mark_free r i b c) r' i' = (if r' = r \<and> i' = i then b else free_recorded c r' i')"
  by (auto simp: mark_free_def)

lemma ensure_host_buffer_ok:
  assumes "ensure_host_buffer r i n c = (CUDA_OK, c')" and "serial bridge_places (line c)" and "ring_slot_ok r i c"
  shows "ring_step r i c c' \<and> ring_slot_ok r i c'"
proof (cases "n \<le> capacity c (RingBuffer r i) \<and> slots c (RingBuffer r i) \<noteq> None")
  case True
  then have "c' = c" using assms(1) by (simp add: ensure_host_buffer_def split: if_splits)
  then show ?thesis using assms(2,3) by (simp add: ring_step_def)
next
  case False
  obtain st x where x: "(if free_recorded c r i then query_event (RingFree r i) c else (CUDA_OK, c)) = (st, x)" by (metis surj_pair)
  let ?y = "mark_free r i False x"
  have ok: "st = CUDA_OK" "chain [release_ring_buffer r i, create_slot (RingBuffer r i) n, record_bytes (RingBuffer r i) n] ?y = (True, c')"
    using assms(1) False x by (auto simp: ensure_host_buffer_def runtime_ok split: if_splits)
  have xx: "quiet c x \<and> knows (line x) (HostSlot r i) AtHost"
  proof (cases "free_recorded c r i")
    case True
    then show ?thesis using query_event_done [of "RingFree r i" c x "HostSlot r i"] x ok(1) assms(3) by (simp add: ring_slot_ok_def)
  next
    case False
    then show ?thesis using x assms(3) by (simp add: ring_slot_ok_def)
  qed
  have sx: "ring_step r i c x" using quiet_ring_step xx assms(2) by blast
  have sy: "ring_step r i c ?y" by (rule ring_step_trans [OF sx mark_ring_step [OF ring_step_serial [OF sx]]])
  obtain z where z: "release_ring_buffer r i ?y = (True, z)" "chain [create_slot (RingBuffer r i) n, record_bytes (RingBuffer r i) n] z = (True, c')"
    using ok(2) by (auto split: prod.splits if_splits)
  note r = release_done [OF z(1) ring_step_serial [OF sy]]
  have rz: "ring_step r i ?y z" "free_recorded z = free_recorded ?y" "knows (line z) (HostSlot r i) AtHost" using r xx by simp_all
  have "quiet z (snd (create_slot (RingBuffer r i) n z))" by simp
  moreover have "quiet b (set_bytes s m b)" for s m b by (rule quiet_line) (simp_all add: set_bytes_def same_setting_def same_marks_def)
  moreover have "c' = set_bytes (RingBuffer r i) n (snd (create_slot (RingBuffer r i) n z))"
    using z(2) by (auto simp: record_bytes_def split: prod.splits if_splits)
  ultimately have q: "quiet z c'" using quiet_trans by metis
  have "ring_step r i c c'" using ring_step_trans [OF ring_step_trans [OF sy rz(1)] quiet_ring_step [OF q ring_step_serial [OF rz(1)]]] .
  moreover have "ring_slot_ok r i c'" using quiet_knows [OF q _ rz(3)] quiet_marks(1) [OF q] rz(2) by (simp add: ring_slot_ok_def)
  ultimately show ?thesis by blast
qed

lemma wait_until_free_ok:
  assumes "wait_until_free s r i c = (CUDA_OK, c')" and "serial bridge_places (line c)" and "ring_slot_ok r i c"
  shows "ring_step r i c c' \<and> knows (line c') (HostSlot r i) (OnStream s)"
proof (cases "free_recorded c r i")
  case False
  then show ?thesis using assms by (simp add: wait_until_free_def ring_step_def ring_slot_ok_def knows_host)
next
  case True
  then obtain x where x: "calls [Some (Await s (RingFree r i))] c = (True, x)" "c' = mark_free r i False x"
    using assms(1) by (auto simp: wait_until_free_def split: prod.splits if_splits)
  have q: "quiet c x" using calls_same [OF x(1)] unfolding quiet_def within_def by (intro conjI exI [of _ "[Await s (RingFree r i)]"]) simp_all
  have "ring_step r i c c'" unfolding x(2)
    using ring_step_trans [OF quiet_ring_step [OF q assms(2)] mark_ring_step] ring_step_serial [OF quiet_ring_step [OF q assms(2)]] by blast
  moreover have "knows (line c') (HostSlot r i) (OnStream s)"
    using assms(3) True calls_same(1) [OF x(1)] by (simp add: x(2) ring_slot_ok_def knows_await)
  ultimately show ?thesis by blast
qed

text \<open>A transfer uses one slot and leaves it ready for its next use.\<close>

lemma advance_ring_step: "serial bridge_places (line c) \<Longrightarrow> ring_step r i c (advance_host r' c)"
  by (rule quiet_ring_step) (simp_all add: advance_host_def)

lemma advance_fields [simp]: "line (advance_host r c) = line c" "free_recorded (advance_host r c) = free_recorded c"
  by (simp_all add: advance_host_def)

lemma calls_none_quiet: "calls [None] c = (True, c') \<Longrightarrow> quiet c c'"
  using quiet_calls [of c c "[None]"] by simp

lemma stage_in:
  assumes "calls qs c = (True, c')" and "items qs = pre @ [Work s [Memory a] [HostSlot r i], Record (RingReady r i) s]"
    and "\<forall>q\<in>set pre. queued_within {} {} q" and "serial bridge_places (line c)" and "knows (line c) (HostSlot r i) (OnStream s)"
  shows "ring_step r i c c' \<and> free_recorded c' = free_recorded c \<and> knows (line c') (HostSlot r i) (AtEvent (RingReady r i))"
proof -
  let ?t = "fold queue pre (line c)" and ?w = "Work s [Memory a] [HostSlot r i]" and ?e = "Record (RingReady r i) s"
  have l: "line c' = queue ?e (queue ?w ?t)" using calls_same(1) [OF assms(1)] assms(2) by simp
  have t: "serial bridge_places ?t" by (rule serial_queues [OF assms(4)]) (use assms(3) in \<open>auto simp: queued_within_def\<close>)
  have k: "knows ?t (HostSlot r i) (OnStream s)" by (rule knows_frames [OF assms(5)]) (use assms(3) in \<open>auto simp: queued_within_def\<close>)
  have "serial bridge_places (line c')" unfolding l by (intro serial_calm [OF serial_work [OF t]]) (use k in auto)
  moreover have "knows (line c') (HostSlot r i) (AtEvent (RingReady r i))" unfolding l by (rule knows_record [OF knows_own [OF k]])
  moreover have "within {HostSlot r i} {RingFree r i} c c'"
    by (rule calls_within [OF assms(1)]) (use assms(2,3) in \<open>auto simp: queued_within_def\<close>)
  ultimately show ?thesis using calls_same(3) [OF assms(1)] by (simp add: ring_step_def same_marks_def)
qed

lemma transfer_out:
  assumes "calls [None, Some (Await s (RingReady r i)), Some (Work s [HostSlot r i] [Memory a]), Some (Record (RingFree r i) s)] c = (True, c')"
    and "serial bridge_places (line c)" and "knows (line c) (HostSlot r i) (AtEvent (RingReady r i))"
  shows "ring_step r i c (mark_free r i True c') \<and> ring_slot_ok r i (mark_free r i True c')"
proof -
  let ?a = "Await s (RingReady r i)" and ?w = "Work s [HostSlot r i] [Memory a]" and ?e = "Record (RingFree r i) s"
  have l: "line c' = queue ?e (queue ?w (queue ?a (line c)))" using calls_same(1) [OF assms(1)] by simp
  have k: "knows (queue ?a (line c)) (HostSlot r i) (OnStream s)" by (rule knows_await [OF assms(3)])
  have "serial bridge_places (line c')" unfolding l
    by (intro serial_calm [OF serial_work [OF serial_calm [OF assms(2)]]]) (use k in auto)
  moreover have "within {HostSlot r i} {RingFree r i} c c'"
    by (rule calls_within [OF assms(1)]) (auto simp: queued_within_def)
  ultimately have "ring_step r i c c'" using calls_same(3) [OF assms(1)] by (simp add: ring_step_def same_marks_def)
  then have "ring_step r i c (mark_free r i True c')" using ring_step_trans mark_ring_step ring_step_serial by blast
  moreover have "knows (line c') (HostSlot r i) (AtEvent (RingFree r i))" unfolding l by (rule knows_record [OF knows_own [OF k]])
  ultimately show ?thesis by (simp add: ring_slot_ok_def)
qed

lemma context_transfer_ok:
  assumes "context_transfer a source b destination n c = (CUDA_OK, c')" and "serial bridge_places (line c)" and "\<forall>r i. ring_slot_ok r i c"
  shows "\<exists>r i. ring_step r i c c' \<and> ring_slot_ok r i c'"
proof -
  obtain p p' s s' where c: "source = Some p" "destination = Some p'" "consumer_stream c (nat a) = Some s" "consumer_stream c (nat b) = Some s'"
    using assms(1) by (auto simp: context_transfer_def split: option.splits)
  define r where "r = (if a = 0 then InputRing else OutputRing)"
  define i where "i = select_host r c"
  obtain c1 where 1: "ensure_host_buffer r i (max n host_bridge_reserve) (advance_host r c) = (CUDA_OK, c1)"
      and rest1: "steps [runtime_status (calls [None]), wait_until_free s r i,
        runtime_status (calls [Some (Work s [Memory p] [HostSlot r i]), Some (Record (RingReady r i) s)]),
        runtime_status (calls [None, Some (Await s' (RingReady r i)), Some (Work s' [HostSlot r i] [Memory p']), Some (Record (RingFree r i) s')]),
        \<lambda>c. (CUDA_OK, mark_free r i True c)] c1 = (CUDA_OK, c')"
    using assms(1) c by (auto simp: context_transfer_def Let_def steps_ok as_runtime_ok r_def i_def simp del: steps.simps split: if_splits)
  obtain c2 c3 c4 c5 where 2: "calls [None] c1 = (True, c2)" and 3: "wait_until_free s r i c2 = (CUDA_OK, c3)"
      and 4: "calls [Some (Work s [Memory p] [HostSlot r i]), Some (Record (RingReady r i) s)] c3 = (True, c4)"
      and 5: "calls [None, Some (Await s' (RingReady r i)), Some (Work s' [HostSlot r i] [Memory p']), Some (Record (RingFree r i) s')] c4 = (True, c5)"
      and c': "c' = mark_free r i True c5"
    using rest1 by (auto simp: steps_ok runtime_ok simp del: steps.simps(2))
  have s0: "ring_step r i c (advance_host r c)" by (rule advance_ring_step [OF assms(2)])
  have "ring_slot_ok r i (advance_host r c)" using assms(3) by (simp add: ring_slot_ok_def)
  note e1 = ensure_host_buffer_ok [OF 1 ring_step_serial [OF s0] this]
  have q2: "quiet c1 c2" by (rule calls_none_quiet [OF 2])
  have s2: "ring_step r i c1 c2" using quiet_ring_step [OF q2] ring_step_serial e1 by blast
  note e3 = wait_until_free_ok [OF 3 ring_step_serial [OF s2] quiet_ring_ok [OF q2 conjunct2 [OF e1]]]
  have e4: "ring_step r i c3 c4 \<and> free_recorded c4 = free_recorded c3 \<and> knows (line c4) (HostSlot r i) (AtEvent (RingReady r i))"
    by (rule stage_in [OF 4, of "[]" s p r i]) (use e3 ring_step_serial in auto)
  note e5 = transfer_out [OF 5 ring_step_serial [OF conjunct1 [OF e4]] conjunct2 [OF conjunct2 [OF e4]]]
  have "ring_step r i c c'" unfolding c'
    using ring_step_trans [OF s0 ring_step_trans [OF conjunct1 [OF e1] ring_step_trans [OF s2 ring_step_trans [OF conjunct1 [OF e3]
      ring_step_trans [OF conjunct1 [OF e4] conjunct1 [OF e5]]]]]] .
  then show ?thesis using e5 c' by blast
qed

subsection \<open>The invariant of the bridge\<close>

text \<open>
  The shared buffers that the work of a graph may touch, now or when it was captured; only graphs of
  weights on the second device touch any.
\<close>

fun graph_weights :: "graph_id \<Rightarrow> q4_weights" where
  "graph_weights (ProductGraph w) = w"
| "graph_weights (LookupGraph w) = w"
| "graph_weights (GroupPlan ws) = hd ws"
| "graph_weights (BatchPlan ws _) = hd ws"
| "graph_weights (LookupPlan w _) = w"
| "graph_weights (SwigluPlan gate _) = gate"
| "graph_weights (FfnPlan gate _ _ _) = gate"

fun bridged :: "graph_id \<Rightarrow> place set" where
  "bridged (ProductGraph w) = {StagedActivation 1, StagedOutput 1}"
| "bridged (GroupPlan ws) = {StagedActivation 1, StagedOutput 1}"
| "bridged (SwigluPlan gate up) = {StagedActivation 1}"
| "bridged (FfnPlan gate up down batch) = (if batch = 1 then {StagedActivation 1, StagedOutput 1} else {})"
| "bridged _ = {}"

definition allowed :: "q4_context \<Rightarrow> graph_id \<Rightarrow> place list \<Rightarrow> place list \<Rightarrow> bool" where
  "allowed c g r w \<longleftrightarrow> (\<forall>p\<in>set r \<union> set w. p \<in> bridge_places \<longrightarrow> p \<in> bridged g \<and> weights_device c (graph_weights g) \<noteq> device_ids c 0)"

definition q4_caches_ok :: "q4_context \<Rightarrow> bool" where
  "q4_caches_ok c \<longleftrightarrow> (\<forall>g r w. captured (graph_caches c g) = Some (r, w) \<longrightarrow> allowed c g r w)"

definition base :: "q4_context \<Rightarrow> bool" where
  "base c \<longleftrightarrow> device_ids c 0 \<noteq> device_ids c 1 \<and> \<not> sync_bridge_requested c \<and> \<not> use_peer_copy c \<and> both_streams c \<and>
     q4_caches_ok c \<and> serial bridge_places (line c)"

text \<open>\<open>crossing\<close> holds while a product is under way, \<open>bridge_ok\<close> between the calls.\<close>

definition crossing :: "q4_context \<Rightarrow> bool" where
  "crossing c \<longleftrightarrow> base c \<and> (\<forall>r i. ring_slot_ok r i c) \<and> output_ok c \<and> knows (line c) (StagedActivation 1) (OnStream (Scheduler 1))"

definition bridge_ok :: "q4_context \<Rightarrow> bool" where
  "bridge_ok c \<longleftrightarrow> crossing c \<and> activation_ok c"

definition output_known :: "q4_context \<Rightarrow> bool" where
  "output_known c \<longleftrightarrow> knows (line c) (StagedOutput 1) (OnStream (Scheduler 1))"

lemma base_setting: "base c \<Longrightarrow> same_setting c c' \<Longrightarrow> serial bridge_places (line c') \<Longrightarrow> base c'"
  by (simp add: base_def same_setting_def both_streams_def q4_caches_ok_def allowed_def weights_device_def)

lemma base_serial: "base c \<Longrightarrow> serial bridge_places (line c)"
  by (simp add: base_def)

lemma ring_step_base: "ring_step r i c c' \<Longrightarrow> base c \<Longrightarrow> base c'"
  using base_setting [of c c'] by (simp add: ring_step_def within_def)

lemma quiet_rings: "quiet c c' \<Longrightarrow> \<forall>r i. ring_slot_ok r i c \<Longrightarrow> \<forall>r i. ring_slot_ok r i c'"
  using quiet_ring_ok by blast

lemma quiet_base: "quiet c c' \<Longrightarrow> base c \<Longrightarrow> base c'"
  using ring_step_base [OF quiet_ring_step] base_serial by blast

lemma quiet_activation_ok: "quiet c c' \<Longrightarrow> base c \<Longrightarrow> activation_ok c \<Longrightarrow> activation_ok c'"
  using ring_step_activation_ok [OF quiet_ring_step] base_serial by blast

lemma quiet_output_ok: "quiet c c' \<Longrightarrow> base c \<Longrightarrow> output_ok c \<Longrightarrow> output_ok c'"
  using ring_step_output_ok [OF quiet_ring_step] base_serial by blast

lemma quiet_crossing: "quiet c c' \<Longrightarrow> crossing c \<Longrightarrow> crossing c'"
  unfolding crossing_def using quiet_base quiet_rings quiet_output_ok quiet_knows [of c c' "StagedActivation 1"] by simp

lemma quiet_bridge_ok: "quiet c c' \<Longrightarrow> bridge_ok c \<Longrightarrow> bridge_ok c'"
  unfolding bridge_ok_def using quiet_crossing quiet_activation_ok by (auto simp: crossing_def)

lemma quiet_output_known: "quiet c c' \<Longrightarrow> output_known c \<Longrightarrow> output_known c'"
  unfolding output_known_def using quiet_knows [of c c' "StagedOutput 1"] by simp

lemma ring_step_bridge_ok: "ring_step r i c c' \<Longrightarrow> ring_slot_ok r i c' \<Longrightarrow> bridge_ok c \<Longrightarrow> bridge_ok c'"
proof -
  assume s: "ring_step r i c c'" "ring_slot_ok r i c'" "bridge_ok c"
  have "ring_slot_ok r' i' c'" for r' i'
    using s ring_step_ring_ok [OF s(1), of r' i'] by (cases "(r', i') = (r, i)") (auto simp: bridge_ok_def crossing_def)
  then show ?thesis using s ring_step_base [OF s(1)] ring_step_activation_ok [OF s(1)] ring_step_output_ok [OF s(1)]
    ring_step_knows [OF s(1), of "StagedActivation 1" "OnStream (Scheduler 1)"] by (simp add: bridge_ok_def crossing_def)
qed

subsection \<open>Buffers that grow\<close>

definition settling :: "q4_context \<Rightarrow> q4_context \<Rightarrow> bool" where
  "settling c c' \<longleftrightarrow> same_setting c c' \<and> same_marks c c' \<and> (\<forall>p\<in>bridge_places. \<forall>h. knows (line c) p h \<longrightarrow> knows (line c') p h) \<and>
     (serial bridge_places (line c) \<longrightarrow> serial bridge_places (line c'))"

lemma settling_trans: "settling c c' \<Longrightarrow> settling c' c'' \<Longrightarrow> settling c c''"
  by (auto simp: settling_def same_setting_def same_marks_def)

lemma settling_line: "line c' = line c \<Longrightarrow> same_setting c c' \<Longrightarrow> same_marks c c' \<Longrightarrow> settling c c'"
  by (simp add: settling_def)

lemma quiet_settling: "quiet c c' \<Longrightarrow> line c' = line c \<Longrightarrow> settling c c'"
  by (rule settling_line) (simp_all add: quiet_def within_def)

lemma settling_knows: "settling c c' \<Longrightarrow> p \<in> bridge_places \<Longrightarrow> knows (line c) p h \<Longrightarrow> knows (line c') p h"
  by (simp add: settling_def)

lemma settling_crossing: "settling c c' \<Longrightarrow> crossing c \<Longrightarrow> crossing c'"
  unfolding crossing_def ring_slot_ok_def output_ok_def
  using base_setting [of c c'] settling_knows [of c c'] by (auto simp: settling_def same_marks_def base_def)

lemma settling_bridge_ok: "settling c c' \<Longrightarrow> bridge_ok c \<Longrightarrow> bridge_ok c'"
  unfolding bridge_ok_def activation_ok_def
  using settling_crossing [of c c'] settling_knows [of c c'] by (auto simp: settling_def same_marks_def split: option.splits)

lemma settling_output_known: "settling c c' \<Longrightarrow> output_known c \<Longrightarrow> output_known c'"
  unfolding output_known_def by (rule settling_knows) simp_all

lemma drop_slot_line [simp]: "line (drop_slot k s c) = line c"
  by (auto simp: drop_slot_def forget_def discard_def asked_release_def split: list.splits option.splits)

lemma create_slot_line [simp]: "line (snd (create_slot s n c)) = line c"
  by (auto simp: create_slot_def create_in_def asked_def split: list.splits)

text \<open>Waiting for the second device: only its own streams touch its staged buffers.\<close>

lemma device_did_line:
  "base c \<Longrightarrow> \<exists>qs. line (device_did 1 c) = fold queue qs (line c) \<and> (\<forall>q\<in>set qs. \<exists>s. q = HostStream s) \<and>
     HostStream (Bridge 1) \<in> set qs \<and> HostStream (Scheduler 1) \<in> set qs"
  by (rule exI [of _ "(case consumer_stream c 1 of None \<Rightarrow> [] | Some s \<Rightarrow> [HostStream s]) @ [HostStream (Bridge 1), HostStream (Scheduler 1)]"])
    (auto simp: device_did_def host_did_def base_def scheduler_stream_def split: option.splits)

lemma host_streams_know:
  "knows t p (OnStream s) \<Longrightarrow> \<forall>q\<in>set qs. \<exists>s. q = HostStream s \<Longrightarrow> HostStream s \<in> set qs \<Longrightarrow> knows (fold queue qs t) p AtHost"
proof (induction qs arbitrary: t)
  case (Cons q qs)
  show ?case
  proof (cases "q = HostStream s")
    case True
    have "knows (queue q t) p AtHost" unfolding True by (rule knows_stream [OF Cons.prems(1)])
    moreover have "\<forall>q\<in>set qs. \<not> uses q p" using Cons.prems(2) by auto
    ultimately show ?thesis using knows_frames [of "queue q t" p AtHost qs] by simp
  next
    case False
    have "knows (queue q t) p (OnStream s)" by (rule knows_frame [OF Cons.prems(1)]) (use Cons.prems(2) in auto)
    then show ?thesis using Cons.IH [of "queue q t"] Cons.prems False by simp
  qed
qed simp

definition staged :: "place set" where
  "staged = {StagedActivation 1, StagedOutput 1}"

lemma crossing_staged: "crossing c \<Longrightarrow> p \<in> staged \<Longrightarrow> \<exists>s\<in>{Bridge 1, Scheduler 1}. knows (line c) p (OnStream s)"
  by (auto simp: crossing_def output_ok_def staged_def)

lemma release_staged_settles:
  assumes "crossing c" and "at 1 \<in> staged"
  shows "settling c (release_staged buffer at 1 c)"
proof -
  let ?d = "drop_slot DeviceMemory (buffer 1) c"
  have q: "quiet c ?d" by simp
  have d: "settling c ?d" "crossing ?d" using quiet_settling [OF q] quiet_crossing [OF q assms(1)] by simp_all
  obtain s where s: "s \<in> {Bridge 1, Scheduler 1}" "knows (line ?d) (at 1) (OnStream s)" using crossing_staged [OF d(2) assms(2)] by blast
  have b: "base ?d" using d(2) by (simp add: crossing_def)
  obtain qs where l: "line (device_did 1 ?d) = fold queue qs (line ?d)" and h: "\<forall>q\<in>set qs. \<exists>s. q = HostStream s"
    "HostStream (Bridge 1) \<in> set qs" "HostStream (Scheduler 1) \<in> set qs" using device_did_line [OF b] by blast
  let ?t = "fold queue qs (line ?d)" and ?e = "host_did (HostWork [] [at 1]) (device_did 1 ?d)"
  have at: "knows ?t (at 1) AtHost" by (rule host_streams_know [OF s(2) h(1)]) (use s(1) h in auto)
  have t: "knows ?t p x" if "knows (line ?d) p x" for p x by (rule knows_frames [OF that]) (use h(1) in auto)
  have "knows (queue (HostWork [] [at 1]) ?t) p x" if "knows (line ?d) p x" for p x
    using knows_host [OF knows_host_own [OF at]] knows_frame [OF t [OF that], of "HostWork [] [at 1]"] by (cases "p = at 1") simp_all
  moreover have "serial bridge_places (queue (HostWork [] [at 1]) ?t)" if "serial bridge_places (line ?d)"
    by (rule serial_host_work [OF serial_queues [OF that]]) (use h(1) at in auto)
  ultimately have "settling ?d ?e"
    using l by (auto simp: settling_def host_did_def device_did_def same_setting_def same_marks_def split: option.splits)
  then show ?thesis using d(1) settling_trans by (auto simp: release_staged_def Let_def)
qed

lemma grow_staged_settles:
  assumes "grow_staged buffer at 1 n c = (True, c')" and "crossing c" and "at 1 \<in> staged"
  shows "settling c c'"
proof (cases "n \<le> capacity c (buffer 1)")
  case True
  then show ?thesis using assms(1) by (auto simp: grow_staged_def intro: settling_line simp: same_setting_def same_marks_def)
next
  case False
  let ?e = "release_staged buffer at 1 c"
  have c': "c' = set_bytes (buffer 1) n (snd (create_slot (buffer 1) n ?e))"
    using assms(1) False by (auto simp: grow_staged_def record_bytes_def Let_def split: prod.splits if_splits)
  have "quiet ?e (snd (create_slot (buffer 1) n ?e))" by simp
  moreover have "quiet b (set_bytes t m b)" for t m b by (rule quiet_line) (simp_all add: set_bytes_def same_setting_def same_marks_def)
  ultimately have "quiet ?e c'" unfolding c' using quiet_trans by blast
  moreover have "line c' = line ?e" by (simp add: c' set_bytes_def)
  ultimately show ?thesis using settling_trans [OF release_staged_settles [where buffer = buffer and at = at, OF assms(2,3)] quiet_settling] by simp
qed

lemma ensure_bridge_settles:
  assumes "ensure_bridge 1 a b c = (CUDA_OK, c')" and "crossing c"
  shows "settling c c'"
proof -
  obtain d where d: "grow_staged BridgeActivation StagedActivation 1 a c = (True, d)" "grow_staged BridgeOutput StagedOutput 1 b d = (True, c')"
    using assms(1) by (auto simp: ensure_bridge_def runtime_ok split: if_splits prod.splits)
  have s: "settling c d" by (rule grow_staged_settles [OF d(1) assms(2)]) (simp add: staged_def)
  have "settling d c'" by (rule grow_staged_settles [OF d(2) settling_crossing [OF s assms(2)]]) (simp add: staged_def)
  with s show ?thesis by (rule settling_trans)
qed

subsection \<open>Graphs\<close>

text \<open>What a computation queues, and what it may remember.\<close>

definition computed :: "nat \<Rightarrow> graph_id \<Rightarrow> place list \<Rightarrow> place list \<Rightarrow> q4_context \<Rightarrow> q4_context \<Rightarrow> bool" where
  "computed slot g r w c c' \<longleftrightarrow>
     (\<exists>r' w'. line c' = queue (Work (scheduler_stream c slot) r' w') (line c) \<and> ((r', w') = (r, w) \<or> captured (graph_caches c g) = Some (r', w'))) \<and>
     same_marks c c' \<and> device_ids c' = device_ids c \<and> sync_bridge_requested c' = sync_bridge_requested c \<and> use_peer_copy c' = use_peer_copy c \<and>
     consumer_stream c' = consumer_stream c \<and>
     (\<forall>g'. captured (graph_caches c' g') = captured (graph_caches c g') \<or> g' = g \<and> captured (graph_caches c' g') = Some (r, w))"

lemma computed_direct:
  assumes "graph_compute slot r w d = (True, c')" and "line d = line c" "same_marks c d" "device_ids d = device_ids c"
    "sync_bridge_requested d = sync_bridge_requested c" "use_peer_copy d = use_peer_copy c" "consumer_stream d = consumer_stream c"
    "\<forall>g'. captured (graph_caches d g') = captured (graph_caches c g') \<or> g' = g \<and> captured (graph_caches d g') = Some (r, w)"
  shows "computed slot g r w c c'"
  using calls_same [OF assms(1) [unfolded graph_compute_def]] assms(2-)
  unfolding computed_def same_setting_def same_marks_def by (auto simp: scheduler_stream_def)

lemma asked_line [simp]: "line (snd (asked c)) = line c"
  by (auto simp: asked_def split: list.splits)

lemma quiet_computed_direct:
  assumes "graph_compute slot r w (set_cache g k d) = (True, c')" and "quiet c d" "line d = line c"
    and "captured k = captured (graph_caches c g) \<or> captured k = Some (r, w)"
  shows "computed slot g r w c c'"
  by (rule computed_direct [OF assms(1)])
    (use assms(2-) in \<open>auto simp: set_cache_def quiet_def within_def same_setting_def same_marks_def\<close>)

lemma graph_compute_cached_ok:
  assumes "graph_compute_cached slot g r w c = (True, c')"
  shows "computed slot g r w c c'"
proof -
  have direct: "computed slot g r w c c'" if "graph_compute slot r w d = (True, c')" "quiet c d" "line d = line c" for d
    using quiet_computed_direct [of slot r w g "graph_caches d g" d c' c] that
    by (simp add: set_cache_def quiet_def within_def same_setting_def)
  obtain ok x where x: "asked c = (ok, x)" by (metis surj_pair)
  have qx: "quiet c x" "line x = line c" using quiet_asked [of c c] asked_line [of c] x by simp_all
  have gx: "graph_caches x = graph_caches c" using qx(1) by (simp add: quiet_def within_def same_setting_def)
  consider (off) "\<not> segment_graph_requested c \<or> graph_disabled (graph_caches c g)" "graph_compute slot r w c = (True, c')"
    | (outer) "graph_compute slot r w x = (True, c')"
    | (launch) r' w' where "captured (graph_caches c g) = Some (r', w')" "calls [None, Some (Work (scheduler_stream x slot) r' w')] x = (True, c')"
    | (first) "graph_compute slot r w (set_cache g ((graph_caches x g)\<lparr>graph_warmup := True\<rparr>) x) = (True, c')"
    | (second) ok' y where "chain [asked, asked, capture_graph g, create_slot (CachedExec g) 0] x = (ok', y)"
        "(if \<not> ok' then give_up_caching slot g r w y
          else calls [Some (Work (scheduler_stream y slot) r w)] (set_cache g ((graph_caches y g)\<lparr>captured := Some (r, w)\<rparr>) y)) = (True, c')"
    using assms x gx
    by (cases "captured (graph_caches c g)")
      (auto simp: graph_compute_cached_def Let_def simp del: chain.simps split: if_splits prod.splits)
  then show ?thesis
  proof cases
    case off
    then show ?thesis by (intro direct [of c]) simp_all
  next
    case outer
    then show ?thesis using qx by (rule direct)
  next
    case (launch r' w')
    have "scheduler_stream x slot = scheduler_stream c slot"
      using qx by (simp add: scheduler_stream_def quiet_def within_def same_setting_def)
    then show ?thesis using calls_same [OF launch(2)] launch(1) qx
      unfolding computed_def by (auto simp: quiet_def within_def same_setting_def same_marks_def)
  next
    case first
    then show ?thesis by (rule quiet_computed_direct [OF _ qx]) (simp add: gx)
  next
    case (second ok' y)
    have cg: "calm (capture_graph g)" unfolding calm_def capture_graph_def by (simp add: split_beta Let_def)
    have "calm (chain [asked, asked, capture_graph g, create_slot (CachedExec g) 0])" by (rule calm_chain) (simp add: calm cg)
    then have "quiet x y" using calmD [of "chain [asked, asked, capture_graph g, create_slot (CachedExec g) 0]" x ok' y] second(1) by blast
    then have qy: "quiet c y" using qx(1) quiet_trans by blast
    have "line y = line x" using second(1)
      by (auto simp: capture_graph_def Let_def split_beta split: if_splits) 
    then have ly: "line y = line c" using qx(2) by simp
    have gy: "graph_caches y = graph_caches c" using qy by (simp add: quiet_def within_def same_setting_def)
    show ?thesis
    proof (cases ok')
      case True
      have "scheduler_stream y slot = scheduler_stream (set_cache g k y) slot" for k by (simp add: scheduler_stream_def set_cache_def)
      then have "graph_compute slot r w (set_cache g ((graph_caches y g)\<lparr>captured := Some (r, w)\<rparr>) y) = (True, c')"
        using second(2) True by (simp add: graph_compute_def)
      then show ?thesis by (rule quiet_computed_direct [OF _ qy ly]) simp
    next
      case False
      have "quiet y (drop_slot Graph (CachedGraph g) y)" by simp
      then have q: "quiet c (drop_slot Graph (CachedGraph g) y)" using qy quiet_trans by blast
      have "graph_compute slot r w (set_cache g ((graph_caches y g)\<lparr>graph_disabled := True\<rparr>) (drop_slot Graph (CachedGraph g) y)) = (True, c')"
        using second(2) False by (simp add: give_up_caching_def)
      then show ?thesis by (rule quiet_computed_direct [OF _ q]) (simp_all add: ly gy)
    qed
  qed
qed

lemma computed_allowed:
  assumes "computed slot g r w c c'" and "base c" and "allowed c g r w"
  obtains r' w' where "line c' = queue (Work (scheduler_stream c slot) r' w') (line c)" "allowed c g r' w'"
  using assms unfolding computed_def base_def q4_caches_ok_def by auto

lemma computed_base:
  assumes "computed slot g r w c c'" and "base c" and "allowed c g r w" and "serial bridge_places (line c')"
  shows "base c'"
proof -
  have a: "allowed c' h = allowed c h" for h using assms(1) by (simp add: computed_def allowed_def weights_device_def fun_eq_iff)
  have "q4_caches_ok c'" unfolding q4_caches_ok_def a
    using assms(1-3) unfolding computed_def base_def q4_caches_ok_def by (metis option.inject prod.inject)
  then show ?thesis using assms(1,2,4) by (simp add: base_def computed_def both_streams_def)
qed

lemma uses_work [simp]: "uses (Work s r w) p \<longleftrightarrow> p \<in> set r \<or> p \<in> set w" by simp

text \<open>A graph whose work touches no shared buffer.\<close>

lemma local_computed:
  assumes "computed slot g r w c c'" and "bridge_ok c" and "allowed c g r w"
    and "bridged g = {} \<or> weights_device c (graph_weights g) = device_ids c 0"
  shows "bridge_ok c'"
proof -
  have b: "base c" using assms(2) by (simp add: bridge_ok_def crossing_def)
  obtain r' w' where l: "line c' = queue (Work (scheduler_stream c slot) r' w') (line c)" "allowed c g r' w'"
    using computed_allowed [OF assms(1) b assms(3)] .
  have u: "\<not> uses (Work (scheduler_stream c slot) r' w') p" if "p \<in> bridge_places" for p
    using l(2) assms(4) that unfolding allowed_def by auto
  have k: "knows (line c') p h" if "p \<in> bridge_places" "knows (line c) p h" for p h
    unfolding l(1) by (rule knows_frame [OF that(2) u [OF that(1)]]) simp
  have "serial bridge_places (line c')"
    unfolding l(1) by (rule serial_work [OF base_serial [OF b]]) (use u in auto)
  note b' = computed_base [OF assms(1) b assms(3) this]
  have m: "same_marks c c'" using assms(1) by (simp add: computed_def)
  show ?thesis using assms(2) b' m k
    unfolding bridge_ok_def crossing_def ring_slot_ok_def output_ok_def activation_ok_def same_marks_def by (auto split: option.splits)
qed

text \<open>A graph of the second device, on GGML's stream, which knows of all works on the staged buffers.\<close>

lemma remote_computed:
  assumes "computed 1 g r w c c'" and "crossing c" and "allowed c g r w" and "output_known c \<or> StagedOutput 1 \<notin> bridged g"
    and "bridged g \<subseteq> {StagedActivation 1, StagedOutput 1}"
  shows "crossing c' \<and> (output_known c \<longrightarrow> output_known c')"
proof -
  have b: "base c" using assms(2) by (simp add: crossing_def)
  then have s: "scheduler_stream c 1 = Scheduler 1" by (simp add: base_def scheduler_stream_def)
  obtain r' w' where l: "line c' = queue (Work (Scheduler 1) r' w') (line c)" "allowed c g r' w'"
    using computed_allowed [OF assms(1) b assms(3)] s by metis
  have touch: "p = StagedActivation 1 \<or> p = StagedOutput 1 \<and> output_known c" if "p \<in> bridge_places" "uses (Work (Scheduler 1) r' w') p" for p
    using l(2) assms(4,5) that unfolding allowed_def by auto
  have k1: "knows (line c') p (OnStream (Scheduler 1))" if "knows (line c) p (OnStream (Scheduler 1))" for p
    unfolding l(1) by (rule knows_own [OF that])
  have k: "knows (line c') p h" if "p \<in> bridge_places" "p \<noteq> StagedActivation 1" "p \<noteq> StagedOutput 1" "knows (line c) p h" for p h
    unfolding l(1) by (rule knows_frame [OF that(4)]) (use touch that in auto)
  have a: "knows (line c) (StagedActivation 1) (OnStream (Scheduler 1))" using assms(2) by (simp add: crossing_def)
  have "serial bridge_places (line c')"
    unfolding l(1) by (rule serial_work [OF base_serial [OF b]]) (use touch a output_known_def in auto)
  note b' = computed_base [OF assms(1) b assms(3) this]
  have m: "same_marks c c'" using assms(1) by (simp add: computed_def)
  have o: "output_ok c'"
  proof (cases "output_known c")
    case True
    then show ?thesis using k1 by (simp add: output_known_def output_ok_def)
  next
    case False
    then have "\<not> uses (Work (Scheduler 1) r' w') (StagedOutput 1)" using touch [of "StagedOutput 1"] by auto
    then have "knows (line c) (StagedOutput 1) h \<Longrightarrow> knows (line c') (StagedOutput 1) h" for h
      unfolding l(1) by (rule knows_frame [rotated]) simp_all
    then show ?thesis using assms(2) m by (auto simp: crossing_def output_ok_def same_marks_def)
  qed
  have "ring_slot_ok x i c'" for x i using k [of "HostSlot x i"] assms(2) m by (simp add: crossing_def ring_slot_ok_def same_marks_def)
  then show ?thesis using b' o k1 [OF a] k1 by (auto simp: crossing_def output_known_def)
qed

subsection \<open>From one device to the other\<close>

lemma scheduler_second: "base c \<Longrightarrow> scheduler_stream c 1 = Scheduler 1" "base c \<Longrightarrow> consumer_slot c (device_ids c 1) = Some 1"
  by (simp_all add: base_def scheduler_stream_def consumer_slot_def)

lemma calls_quiet:
  assumes "calls qs c = (True, c')" and "\<forall>q\<in>set (items qs). queued_within {} {} q"
  shows "quiet c c'"
  using calls_within [OF assms] calls_same [OF assms(1)] by (simp add: quiet_def)

lemma wait_output_ok:
  assumes "wait_output_buffer c = (CUDA_OK, c')" and "crossing c"
  shows "crossing c' \<and> output_known c'"
proof (cases "last_output_free c")
  case None
  then have "c' = c" using assms(1) by (simp add: wait_output_buffer_def)
  then show ?thesis using assms(2) None by (simp add: crossing_def output_ok_def output_known_def)
next
  case (Some e)
  have b: "base c" using assms(2) by (simp add: crossing_def)
  have w: "calls [Some (Await (Scheduler 1) e)] c = (True, c')"
    using assms(1) Some scheduler_second [OF b]
    by (auto simp: wait_output_buffer_def wait_scheduler_event_def as_runtime_ok runtime_ok split: if_splits)
  have q: "quiet c c'" by (rule calls_quiet [OF w]) simp
  have "knows (line c') (StagedOutput 1) (OnStream (Scheduler 1))"
  proof (cases "knows (line c) (StagedOutput 1) (OnStream (Scheduler 1))")
    case True
    then show ?thesis using quiet_output_known [OF q] by (simp add: output_known_def)
  next
    case False
    then have "knows (line c) (StagedOutput 1) (AtEvent e)" using assms(2) Some by (auto simp: crossing_def output_ok_def)
    then show ?thesis using calls_same(1) [OF w] by (simp add: knows_await)
  qed
  then show ?thesis using quiet_crossing [OF q assms(2)] by (simp add: output_known_def)
qed

lemma record_remote_done_ok:
  assumes "record_remote_done n c = (CUDA_OK, c')" and "crossing c"
  shows "bridge_ok c' \<and> (output_known c \<longrightarrow> output_known c' \<and> knows (line c') (StagedOutput 1) (AtEvent (Edge RemoteDone n)))"
proof -
  have b: "base c" using assms(2) by (simp add: crossing_def)
  let ?e = "Edge RemoteDone n" and ?q = "Record (Edge RemoteDone n) (Scheduler 1)"
  obtain d where w: "calls [Some ?q] c = (True, d)" and c': "c' = d\<lparr>last_activation_done := Some ?e\<rparr>"
    using assms(1) scheduler_second [OF b]
    by (auto simp: record_remote_done_def record_scheduler_event_def steps_ok as_runtime_ok runtime_ok simp del: steps.simps(2) split: if_splits)
  have l: "line c' = queue ?q (line c)" using calls_same(1) [OF w] c' by simp
  have m: "same_marks c d" "same_setting c c'" using calls_same [OF w] c' by (simp_all add: same_setting_def)
  have k: "knows (line c') p h" if "knows (line c) p h" "h \<noteq> AtEvent ?e" for p h
    unfolding l by (rule knows_frame [OF that(1)]) (use that(2) in auto)
  have e: "knows (line c') p (AtEvent ?e)" if "knows (line c) p (OnStream (Scheduler 1))" for p
    unfolding l by (rule knows_record [OF that])
  have "serial bridge_places (line c')" unfolding l by (rule serial_calm [OF base_serial [OF b]]) simp
  then have "base c'" using base_setting [OF b m(2)] by blast
  moreover have "ring_slot_ok r i c'" for r i
    using assms(2) m(1) k [of "HostSlot r i" "if free_recorded c r i then AtEvent (RingFree r i) else AtHost"]
    by (simp add: crossing_def ring_slot_ok_def c' same_marks_def)
  moreover have "output_ok c'" using assms(2) m(1) k by (auto simp: crossing_def output_ok_def c' same_marks_def)
  ultimately show ?thesis using assms(2) k e by (simp add: bridge_ok_def crossing_def activation_ok_def output_known_def c')
qed

end
