(* ===== verification/Q4Crossing.thy ===== *)
theory Q4Crossing
  imports Q4Order Q4Ownership
begin

section \<open>Products across the bridge\<close>

text \<open>
  That every public function of \<open>Q4Bridge\<close> and \<open>Q4Products\<close> which queues work with both streams of the
  caller set keeps the invariant of \<open>Q4Order\<close>, so that no sequence of calls leaves two unordered works
  on a shared buffer.
\<close>

subsection \<open>Taking a pinned buffer\<close>

lemma host_index_calls [simp]: "host_index (snd (calls qs c)) = host_index c"
proof -
  have a: "host_index (snd (asked d)) = host_index d" for d :: q4_context by (auto simp: asked_def split: list.splits)
  have e: "host_index (snd (enqueue q d)) = host_index d" for q d by (simp add: enqueue_def split_beta Let_def a)
  show ?thesis unfolding calls_def by (induction qs arbitrary: c) (auto simp: split_beta Let_def a e split: option.splits)
qed

lemma host_index_asked [simp]: "host_index (snd (asked (c :: q4_context))) = host_index c"
  by (auto simp: asked_def split: list.splits)

lemma host_index_ensure [simp]: "host_index (snd (ensure_host_buffer r i n c)) = host_index c"
proof -
  have q: "host_index (snd (query_event e d)) = host_index d" for e d
    by (simp add: query_event_def wait_event_def split_beta Let_def host_did_def)
  have d: "host_index (snd (discard k h d)) = host_index d" for k h and d :: q4_context
    by (auto simp: discard_def asked_release_def split: list.splits option.splits)
  have m: "host_index (snd (create_slot s n d)) = host_index d" for s n d
    by (simp add: create_slot_def create_in_def split_beta Let_def)
  have z: "host_index (set_bytes s n d) = host_index d" "host_index (mark_free r i b d) = host_index d"
    "host_index (forget s d) = host_index d" for s n b and d :: q4_context
    by (simp_all add: set_bytes_def mark_free_def forget_def)
  show ?thesis
    by (simp add: ensure_host_buffer_def runtime_status_def release_ring_buffer_def record_bytes_def host_did_def q d m z split_beta Let_def)
qed

lemma host_index_wait [simp]: "host_index (snd (wait_until_free s r i c)) = host_index c"
  by (simp add: wait_until_free_def mark_free_def split_beta Let_def)

lemma acquire_host_ok:
  assumes "acquire_host r n c = (CUDA_OK, i, c')" and "serial bridge_places (line c)" and "ring_slot_ok r i c"
  shows "i = select_host r c \<and> ring_step r i c c' \<and> knows (line c') (HostSlot r i) (OnStream (Bridge (side r))) \<and>
    host_index c' r = host_index c r + 1"
proof -
  have i: "i = select_host r c" using assms(1) by (simp add: acquire_host_def Let_def split_beta)
  obtain c1 where 1: "ensure_host_buffer r i (max n host_bridge_reserve) (advance_host r c) = (CUDA_OK, c1)"
    and rest: "(if free_recorded c1 r i then steps [runtime_status (calls [None]), wait_until_free (Bridge (side r)) r i] c1 else (CUDA_OK, c1)) = (CUDA_OK, c')"
    using assms(1) i by (auto simp: acquire_host_def Let_def steps_ok as_runtime_ok simp del: steps.simps(2) split: prod.splits if_splits)
  have s0: "ring_step r i c (advance_host r c)" by (rule advance_ring_step [OF assms(2)])
  have "ring_slot_ok r i (advance_host r c)" using assms(3) by (simp add: ring_slot_ok_def)
  note e1 = ensure_host_buffer_ok [OF 1 ring_step_serial [OF s0] this]
  have h1: "host_index c1 r = host_index c r + 1"
  proof -
    have "host_index c1 = host_index (advance_host r c)"
      using host_index_ensure [of r i "max n host_bridge_reserve" "advance_host r c"] 1 by (metis snd_conv)
    then show ?thesis by (simp add: advance_host_def)
  qed
  show ?thesis
  proof (cases "free_recorded c1 r i")
    case False
    then have "c' = c1" using rest by simp
    then show ?thesis using e1 False i h1 ring_step_trans [OF s0] by (simp add: ring_slot_ok_def knows_host)
  next
    case True
    then obtain c2 where 2: "calls [None] c1 = (True, c2)" and 3: "wait_until_free (Bridge (side r)) r i c2 = (CUDA_OK, c')"
      using rest by (auto simp: steps_ok runtime_ok simp del: steps.simps(2))
    have q2: "quiet c1 c2" by (rule calls_none_quiet [OF 2])
    have s2: "ring_step r i c1 c2" using quiet_ring_step [OF q2] ring_step_serial e1 by blast
    note e3 = wait_until_free_ok [OF 3 ring_step_serial [OF s2] quiet_ring_ok [OF q2 conjunct2 [OF e1]]]
    have "host_index c' r = host_index c r + 1"
      using host_index_calls [of "[None]" c1] host_index_wait [of "Bridge (side r)" r i c2] h1 unfolding 2 3 snd_conv by metis
    then show ?thesis using i e3 ring_step_trans [OF s0 ring_step_trans [OF conjunct1 [OF e1] ring_step_trans [OF s2]]] by blast
  qed
qed

subsection \<open>An activation crosses\<close>

lemma next_bridge_events_some:
  "next_bridge_events c = (CUDA_OK, events, c') \<Longrightarrow> events \<noteq> None"
  by (auto simp: next_bridge_events_def Let_def split: if_splits prod.splits)

lemma await_last_items: "items (await_last s e) = (case e of None \<Rightarrow> [] | Some e \<Rightarrow> [Await s e])"
  by (simp add: await_last_def split: option.split)

text \<open>While the slot \<open>i\<close> is in the hands of the first device.\<close>

definition landing :: "nat \<Rightarrow> q4_context \<Rightarrow> bool" where
  "landing i c \<longleftrightarrow> base c \<and> (\<forall>r j. (r, j) \<noteq> (InputRing, i) \<longrightarrow> ring_slot_ok r j c) \<and> output_ok c \<and> activation_ok c"

text \<open>The part on the second device: the staged activation is written when its last use is over.\<close>

lemma arrive:
  assumes "calls ([None] @ await_last (Bridge 1) (last_activation_done c) @
      [Some (Await (Bridge 1) (RingReady InputRing i)), Some (Work (Bridge 1) [HostSlot InputRing i] [StagedActivation 1]),
       Some (Record (RingFree InputRing i) (Bridge 1)), Some (Record (Edge RemoteReady n) (Bridge 1))]) c = (True, c')"
    and "landing i c" and "knows (line c) (HostSlot InputRing i) (AtEvent (RingReady InputRing i))"
  shows "base c' \<and> (\<forall>r j. ring_slot_ok r j (mark_free InputRing i True c')) \<and> output_ok c' \<and>
    knows (line c') (StagedActivation 1) (AtEvent (Edge RemoteReady n))"
proof -
  define t1 where "t1 = fold queue (items (await_last (Bridge 1) (last_activation_done c))) (line c)"
  let ?w = "Work (Bridge 1) [HostSlot InputRing i] [StagedActivation 1]"
  let ?t2 = "queue (Await (Bridge 1) (RingReady InputRing i)) t1" and ?f = "Record (RingFree InputRing i) (Bridge 1)"
  let ?g = "Record (Edge RemoteReady n) (Bridge 1)"
  have l: "line c' = queue ?g (queue ?f (queue ?w ?t2))" using calls_same(1) [OF assms(1)] by (simp add: t1_def)
  have b: "base c" "output_ok c" "activation_ok c" and ring: "\<And>r j. (r, j) \<noteq> (InputRing, i) \<Longrightarrow> ring_slot_ok r j c"
    using assms(2) by (auto simp: landing_def)
  have pre: "knows t1 p h" if "knows (line c) p h" for p h
    unfolding t1_def await_last_items by (rule knows_frames [OF that]) (auto split: option.splits)
  have ta: "knows t1 (StagedActivation 1) (OnStream (Bridge 1))"
  proof (cases "last_activation_done c")
    case None
    then have "knows (line c) (StagedActivation 1) AtHost" using b(3) by (simp add: activation_ok_def)
    then show ?thesis by (rule pre [OF knows_host])
  next
    case (Some e)
    then have "knows (line c) (StagedActivation 1) (AtEvent e)" using b(3) by (simp add: activation_ok_def)
    then have "knows (queue (Await (Bridge 1) e) (line c)) (StagedActivation 1) (OnStream (Bridge 1))" by (rule knows_await)
    then show ?thesis by (simp add: t1_def await_last_items Some)
  qed
  have k2: "knows ?t2 (StagedActivation 1) (OnStream (Bridge 1))" "knows ?t2 (HostSlot InputRing i) (OnStream (Bridge 1))"
    using knows_frame [OF ta, of "Await (Bridge 1) (RingReady InputRing i)"] knows_await [OF pre [OF assms(3)]] by simp_all
  have t2: "knows ?t2 p h" if "knows (line c) p h" for p h
    using knows_frame [OF pre [OF that], of "Await (Bridge 1) (RingReady InputRing i)"] by simp
  have s2: "serial bridge_places ?t2"
    by (rule serial_calm, unfold t1_def, rule serial_queues [OF base_serial [OF b(1)]]) (auto simp: await_last_items split: option.splits)
  have s: "serial bridge_places (line c')" unfolding l by (intro serial_calm serial_work [OF s2]) (use k2 in auto)
  have base: "base c'" using base_setting [OF b(1) calls_same(2) [OF assms(1)] s] .
  have m: "same_marks c c'" using calls_same(3) [OF assms(1)] .
  have own: "knows (queue ?w ?t2) p (OnStream (Bridge 1))" if "knows ?t2 p (OnStream (Bridge 1))" for p using knows_own [OF that] .
  have other: "knows (line c') p h" if "knows (line c) p h" "p \<noteq> HostSlot InputRing i" "p \<noteq> StagedActivation 1"
    "h \<noteq> AtEvent (RingFree InputRing i)" "h \<noteq> AtEvent (Edge RemoteReady n)" for p h
    unfolding l by (intro knows_frame [OF knows_frame [OF knows_frame [OF t2 [OF that(1)]]]]) (use that(2-) in auto)
  have act: "knows (line c') (StagedActivation 1) (AtEvent (Edge RemoteReady n))"
    unfolding l by (intro knows_record knows_frame [OF own [OF k2(1)]]) simp_all
  have slot: "knows (line c') (HostSlot InputRing i) (AtEvent (RingFree InputRing i))"
    unfolding l by (intro knows_frame [OF knows_record [OF own [OF k2(2)]]]) simp_all
  have "ring_slot_ok r j (mark_free InputRing i True c')" for r j
  proof (cases "(r, j) = (InputRing, i)")
    case True
    then show ?thesis using slot by (simp add: ring_slot_ok_def)
  next
    case False
    then show ?thesis using ring [OF False] m other [of "HostSlot r j"] by (auto simp: ring_slot_ok_def same_marks_def)
  qed
  moreover have "output_ok c'" using b(2) m other [of "StagedOutput 1"] by (auto simp: output_ok_def same_marks_def)
  ultimately show ?thesis using base act by blast
qed

lemma landing_step: "landing i c \<Longrightarrow> ring_step InputRing i c c' \<Longrightarrow> landing i c'"
  unfolding landing_def
  using ring_step_base ring_step_ring_ok ring_step_output_ok ring_step_activation_ok by blast

lemma bridge_ok_landing: "bridge_ok c \<Longrightarrow> landing i c"
  by (simp add: bridge_ok_def crossing_def landing_def)

lemma base_peer: "base c \<Longrightarrow> \<not> use_peer_copy c"
  by (simp add: base_def)

lemma wait_scheduler_done:
  assumes "wait_scheduler_event 1 e c = (CUDA_OK, c')" and "base c"
  shows "line c' = queue (Await (Scheduler 1) e) (line c) \<and> same_setting c c' \<and> same_marks c c'"
proof -
  have "calls [Some (Await (Scheduler 1) e)] c = (True, c')"
    using assms scheduler_second(1) [OF assms(2)] by (auto simp: wait_scheduler_event_def runtime_ok split: if_splits)
  then show ?thesis using calls_same by fastforce
qed

lemma queue_activation_ok:
  assumes "queue_activation activation n c = (CUDA_OK, events, c')" and "bridge_ok c"
  shows "crossing c' \<and> events \<noteq> None \<and> device_ids c' = device_ids c"
proof -
  have q: "queue_activation_remote activation n c = (CUDA_OK, events, c')"
    using assms(1) by (auto simp: queue_activation_def Let_def split: prod.splits if_splits)
  obtain s where s: "consumer_stream c 0 = Some s" using q by (auto simp: queue_activation_remote_def split: option.splits)
  have b: "base c" using assms(2) by (simp add: bridge_ok_def crossing_def)
  obtain st1 ev c1 where 1: "next_bridge_events c = (st1, ev, c1)" by (metis prod_cases3)
  have q1: "quiet c c1" using quiet_next_bridge_events [of c c] 1 by simp
  have b1: "bridge_ok c1" "base c1" using quiet_bridge_ok [OF q1 assms(2)] quiet_base [OF q1 b] by simp_all
  obtain st2 i c2 where 2: "acquire_host InputRing n c1 = (st2, i, c2)" by (metis prod_cases3)
  define m where "m = the ev"
  have st: "st1 = CUDA_OK" "st2 = CUDA_OK" and
    run: "steps [runtime_status (calls [None, Some (Record (Edge SourceReady m) s), Some (Await (Bridge 0) (Edge SourceReady m)),
           Some (Work (Bridge 0) [Memory activation] [HostSlot InputRing i]), Some (Record (RingReady InputRing i) (Bridge 0))]),
         runtime_status (calls ([None] @ await_last (Bridge 1) (last_activation_done c2) @
           [Some (Await (Bridge 1) (RingReady InputRing i)), Some (Work (Bridge 1) [HostSlot InputRing i] [StagedActivation 1]),
            Some (Record (RingFree InputRing i) (Bridge 1)), Some (Record (Edge RemoteReady m) (Bridge 1))])),
         \<lambda>c. (CUDA_OK, mark_free InputRing i True c),
         as_runtime (wait_scheduler_event 1 (Edge RemoteReady m))] c2 = (CUDA_OK, c')" and ev: "events = ev"
    using q s 1 2 base_peer [OF b1(2)]
    by (auto simp: queue_activation_remote_def m_def Let_def simp del: steps.simps split: if_splits prod.splits)
  have some: "events \<noteq> None" using next_bridge_events_some [OF 1 [unfolded st]] ev by simp
  have ring1: "ring_slot_ok InputRing j c1" for j using b1(1) by (simp add: bridge_ok_def crossing_def)
  have a2: "ring_step InputRing i c1 c2" "knows (line c2) (HostSlot InputRing i) (OnStream (Bridge 0))"
    using acquire_host_ok [OF 2 [unfolded st] base_serial [OF b1(2)] ring1] unfolding side_def ring.case by blast+
  have l2: "landing i c2" using landing_step [OF bridge_ok_landing [OF b1(1)] a2(1)] .
  obtain c3 c4 where 3: "calls [None, Some (Record (Edge SourceReady m) s), Some (Await (Bridge 0) (Edge SourceReady m)),
           Some (Work (Bridge 0) [Memory activation] [HostSlot InputRing i]), Some (Record (RingReady InputRing i) (Bridge 0))] c2 = (True, c3)"
    and 4: "calls ([None] @ await_last (Bridge 1) (last_activation_done c2) @
           [Some (Await (Bridge 1) (RingReady InputRing i)), Some (Work (Bridge 1) [HostSlot InputRing i] [StagedActivation 1]),
            Some (Record (RingFree InputRing i) (Bridge 1)), Some (Record (Edge RemoteReady m) (Bridge 1))]) c3 = (True, c4)"
    and 5: "wait_scheduler_event 1 (Edge RemoteReady m) (mark_free InputRing i True c4) = (CUDA_OK, c')"
    using run by (auto simp: steps_ok runtime_ok as_runtime_ok simp del: steps.simps(2))
  have e3: "ring_step InputRing i c2 c3" "knows (line c3) (HostSlot InputRing i) (AtEvent (RingReady InputRing i))"
    using stage_in [OF 3, of "[Record (Edge SourceReady m) s, Await (Bridge 0) (Edge SourceReady m)]" "Bridge 0" activation InputRing i]
      a2(2) base_serial l2 by (simp_all add: landing_def)
  have last: "last_activation_done c3 = last_activation_done c2" using e3(1) by (simp add: ring_step_def)
  note e4 = arrive [OF 4 [folded last] landing_step [OF l2 e3(1)] e3(2)]
  let ?d = "mark_free InputRing i True c4"
  have d: "base ?d" "output_ok ?d" "\<forall>r j. ring_slot_ok r j ?d" "knows (line ?d) (StagedActivation 1) (AtEvent (Edge RemoteReady m))"
    using e4 by (auto simp: base_def mark_free_def both_streams_def q4_caches_ok_def allowed_def weights_device_def output_ok_def)
  have w: "line c' = queue (Await (Scheduler 1) (Edge RemoteReady m)) (line ?d)" "same_setting ?d c'" "same_marks ?d c'"
    using wait_scheduler_done [OF 5 d(1)] by simp_all
  have same: "device_ids c' = device_ids c"
    using q1 a2(1) e3(1) calls_same(2) [OF 4] w(2)
    by (simp add: quiet_def ring_step_def within_def same_setting_def mark_free_def)
  have qd: "quiet ?d c'" unfolding quiet_def within_def
    using w by (intro conjI exI [of _ "[Await (Scheduler 1) (Edge RemoteReady m)]"]) simp_all
  have "knows (line c') (StagedActivation 1) (OnStream (Scheduler 1))" unfolding w(1) by (rule knows_await [OF d(4)])
  then show ?thesis
    using some same quiet_base [OF qd d(1)] quiet_output_ok [OF qd d(1,2)] quiet_rings [OF qd d(3)] by (simp add: crossing_def)
qed

subsection \<open>Results cross back\<close>

text \<open>The slots \<open>I\<close> are in the hands of the second device's stream, which has yet to read the results.\<close>

definition lent :: "bridge_id \<Rightarrow> nat set \<Rightarrow> q4_context \<Rightarrow> bool" where
  "lent n I c \<longleftrightarrow> base c \<and> activation_ok c \<and> knows (line c) (StagedOutput 1) (AtEvent (Edge RemoteDone n)) \<and>
     (\<forall>r i. \<not> (r = OutputRing \<and> i \<in> I) \<longrightarrow> ring_slot_ok r i c) \<and>
     (\<forall>i\<in>I. knows (line c) (HostSlot OutputRing i) (OnStream (Bridge 1)))"

definition slot_after :: "nat \<Rightarrow> q4_context \<Rightarrow> nat" where
  "slot_after k c = (unat (host_index c OutputRing) + k) mod 8"

lemma slot_after_next:
  assumes "host_index c' OutputRing = host_index c OutputRing + 1"
  shows "slot_after k c' = slot_after (Suc k) c"
proof -
  have "unat (host_index c OutputRing + 1) mod 8 = (unat (host_index c OutputRing) + 1) mod 8"
  proof -
    have "unat (host_index c OutputRing + 1) = (unat (host_index c OutputRing) + 1) mod 2 ^ 32"
      by (simp add: unat_word_ariths)
    then show ?thesis by (simp add: mod_mod_cancel)
  qed
  then have "(unat (host_index c OutputRing + 1) + k) mod 8 = (unat (host_index c OutputRing) + 1 + k) mod 8"
    by (rule mod_add_cong) simp
  then show ?thesis by (simp add: slot_after_def assms)
qed

lemma slot_after_differs: "0 < k \<Longrightarrow> k < 8 \<Longrightarrow> slot_after k c \<noteq> slot_after 0 c"
proof
  let ?a = "unat (host_index c OutputRing)"
  assume k: "0 < k" "k < 8" "slot_after k c = slot_after 0 c"
  then have "8 dvd k" using mod_eq_dvd_iff_nat [of ?a "?a + k" 8] by (simp add: slot_after_def)
  then show False using k(1,2) by (auto dest: dvd_imp_le)
qed

lemma lent_step:
  assumes "lent n I c" and "ring_step OutputRing i c c'" and "i \<notin> I" and "knows (line c') (HostSlot OutputRing i) (OnStream (Bridge 1))"
  shows "lent n (insert i I) c'"
proof -
  have other: "ring_slot_ok r j c'" if "\<not> (r = OutputRing \<and> j \<in> insert i I)" for r j
    using ring_step_ring_ok [OF assms(2), of r j] assms(1) that by (auto simp: lent_def)
  have kept: "knows (line c') (HostSlot OutputRing j) (OnStream (Bridge 1))" if "j \<in> I" for j
    using ring_step_knows [OF assms(2), of "HostSlot OutputRing j"] assms(1,3) that by (auto simp: lent_def)
  have "knows (line c') (StagedOutput 1) (AtEvent (Edge RemoteDone n))"
    using ring_step_knows [OF assms(2), of "StagedOutput 1"] assms(1) by (auto simp: lent_def)
  then show ?thesis
    using assms(1,4) other kept ring_step_base [OF assms(2)] ring_step_activation_ok [OF assms(2)] by (auto simp: lent_def)
qed

lemma acquire_outputs_ok:
  assumes "acquire_outputs outputs c = (CUDA_OK, is, c')" and "lent n I c" and "length outputs \<le> 8"
    and "\<forall>k<length outputs. slot_after k c \<notin> I"
  shows "lent n (set is \<union> I) c' \<and> length is = length outputs \<and> distinct is \<and> set is \<inter> I = {}"
  using assms
proof (induction outputs arbitrary: c I "is" rule: list.induct)
  case (Cons out outputs)
  obtain d m where out: "out = (d, m)" by (cases out)
  obtain st i c1 where 1: "acquire_host OutputRing m c = (st, i, c1)" by (metis prod_cases3)
  obtain st2 js c2 where 2: "acquire_outputs outputs c1 = (st2, js, c2)" by (metis prod_cases3)
  have r: "st = CUDA_OK" "st2 = CUDA_OK" "is = i # js" "c' = c2"
    using Cons.prems(1) 1 2 by (simp_all add: out split: if_splits)
  have b: "serial bridge_places (line c)" using Cons.prems(2) by (simp add: lent_def base_serial)
  have i0: "select_host OutputRing c = slot_after 0 c" by (simp add: select_host_def slot_after_def host_bridge_slots_def)
  have ii: "i = select_host OutputRing c" using 1 by (auto simp: acquire_host_def Let_def split: prod.splits)
  have new: "i \<notin> I" using Cons.prems(4) by (simp add: ii i0)
  then have "ring_slot_ok OutputRing i c" using Cons.prems(2) by (simp add: lent_def)
  from acquire_host_ok [OF 1 [unfolded r(1)] b this]
  have a: "ring_step OutputRing i c c1" "knows (line c1) (HostSlot OutputRing i) (OnStream (Bridge 1))"
    "host_index c1 OutputRing = host_index c OutputRing + 1" unfolding side_def ring.case by blast+
  note l = lent_step [OF Cons.prems(2) a(1) new a(2)]
  have free: "\<forall>k<length outputs. slot_after k c1 \<notin> insert i I"
  proof (intro allI impI)
    fix k assume "k < length outputs"
    then show "slot_after k c1 \<notin> insert i I"
      using Cons.prems(3,4) slot_after_differs [of "Suc k" c] by (simp add: slot_after_next [OF a(3)] ii i0)
  qed
  have "lent n (set js \<union> insert i I) c' \<and> length js = length outputs \<and> distinct js \<and> set js \<inter> insert i I = {}"
    by (rule Cons.IH [OF 2 [unfolded r(2), folded r(4)] l _ free]) (use Cons.prems(3) in simp)
  then show ?case using r new by auto
qed simp

text \<open>The results are copied into the slots, then the staged buffer is free and the slots are ready.\<close>

lemma fold_outputs:
  assumes "serial bridge_places t" and "\<forall>i\<in>set is. knows t (HostSlot OutputRing i) (OnStream (Bridge 1))"
    and "knows t (StagedOutput 1) (OnStream (Bridge 1))"
  shows "serial bridge_places (fold queue (map (\<lambda>i. Work (Bridge 1) [StagedOutput 1] [HostSlot OutputRing i]) is) t) \<and>
    (\<forall>p. knows t p (OnStream (Bridge 1)) \<longrightarrow> knows (fold queue (map (\<lambda>i. Work (Bridge 1) [StagedOutput 1] [HostSlot OutputRing i]) is) t) p (OnStream (Bridge 1)))"
  using assms
proof (induction "is" arbitrary: t)
  case (Cons i "is")
  let ?t = "queue (Work (Bridge 1) [StagedOutput 1] [HostSlot OutputRing i]) t"
  have "serial bridge_places ?t" by (rule serial_work [OF Cons.prems(1)]) (use Cons.prems(2,3) in auto)
  moreover have own: "knows ?t p (OnStream (Bridge 1))" if "knows t p (OnStream (Bridge 1))" for p using that by (rule knows_own)
  ultimately show ?case using Cons.IH [of ?t] Cons.prems(2,3) by simp
qed simp

text \<open>The slots \<open>I\<close> are in the hands of the first device's stream.\<close>

definition returning :: "nat set \<Rightarrow> q4_context \<Rightarrow> bool" where
  "returning I c \<longleftrightarrow> base c \<and> activation_ok c \<and> output_ok c \<and> (\<forall>r i. \<not> (r = OutputRing \<and> i \<in> I) \<longrightarrow> ring_slot_ok r i c) \<and>
     (\<forall>i\<in>I. knows (line c) (HostSlot OutputRing i) (OnStream (Bridge 0)))"

lemma returning_empty: "returning {} c \<longleftrightarrow> bridge_ok c"
  by (auto simp: returning_def bridge_ok_def crossing_def activation_ok_def)

lemma copy_outputs_ok:
  assumes "copy_outputs outputs is c = (CUDA_OK, c')" and "returning (set is) c" and "distinct is" and "length outputs = length is"
  shows "bridge_ok c'"
  using assms
proof (induction outputs "is" c rule: copy_outputs.induct)
  case (1 d m outputs i "is" c)
  let ?w = "Work (Bridge 0) [HostSlot OutputRing i] [Memory d]" and ?e = "Record (RingFree OutputRing i) (Bridge 0)"
  obtain x where x: "calls [Some ?w, Some ?e] c = (True, x)"
    and rest: "copy_outputs outputs is (mark_free OutputRing i True x) = (CUDA_OK, c')"
    using 1(2) by (auto simp: steps_ok runtime_ok simp del: steps.simps(2))
  let ?y = "mark_free OutputRing i True x"
  have r: "base c" "activation_ok c" "output_ok c" using 1(3) by (simp_all add: returning_def)
  have k: "knows (line c) (HostSlot OutputRing i) (OnStream (Bridge 0))" using 1(3) by (simp add: returning_def)
  have l: "line x = queue ?e (queue ?w (line c))" using calls_same(1) [OF x] by simp
  have s: "serial bridge_places (line x)" unfolding l by (intro serial_calm serial_work [OF base_serial [OF r(1)]]) (use k in auto)
  have "within {HostSlot OutputRing i} {RingFree OutputRing i} c x"
    by (rule calls_within [OF x]) (auto simp: queued_within_def)
  then have "ring_step OutputRing i c x" using s calls_same(3) [OF x] by (simp add: ring_step_def same_marks_def)
  then have st: "ring_step OutputRing i c ?y" using ring_step_trans mark_ring_step [OF s] by blast
  have "knows (line x) (HostSlot OutputRing i) (AtEvent (RingFree OutputRing i))" unfolding l by (rule knows_record [OF knows_own [OF k]])
  then have ok: "ring_slot_ok OutputRing i ?y" by (simp add: ring_slot_ok_def)
  have "i \<notin> set is" using 1(4) by simp
  have "returning (set is) ?y" unfolding returning_def
  proof (intro conjI allI impI ballI)
    fix r' j assume "\<not> (r' = OutputRing \<and> j \<in> set is)"
    then show "ring_slot_ok r' j ?y"
      using ok ring_step_ring_ok [OF st, of r' j] 1(3) by (cases "(r', j) = (OutputRing, i)") (auto simp: returning_def)
  next
    fix j assume "j \<in> set is"
    then show "knows (line ?y) (HostSlot OutputRing j) (OnStream (Bridge 0))"
      using ring_step_knows [OF st, of "HostSlot OutputRing j"] 1(3) \<open>i \<notin> set is\<close> by (auto simp: returning_def)
  qed (use ring_step_base [OF st r(1)] ring_step_activation_ok [OF st r(2)] ring_step_output_ok [OF st r(3)] in simp_all)
  then show ?case using 1(1) [OF rest] 1(4,5) by simp
qed (simp_all add: returning_empty)

lemma queue_outputs_ok:
  assumes "queue_outputs_primary n outputs c = (CUDA_OK, c')" and "bridge_ok c"
    and "knows (line c) (StagedOutput 1) (AtEvent (Edge RemoteDone n))"
  shows "bridge_ok c'"
proof -
  have b: "base c" using assms(2) by (simp add: bridge_ok_def crossing_def)
  obtain s where s: "consumer_stream c 0 = Some s" using assms(1) by (auto simp: queue_outputs_primary_def split: option.splits)
  obtain st "is" c1 where 1: "acquire_outputs outputs c = (st, is, c1)" by (metis prod_cases3)
  let ?mid = "calls ([None, Some (Await (Bridge 1) (Edge RemoteDone n))] @
    map (\<lambda>i. Some (Work (Bridge 1) [StagedOutput 1] [HostSlot OutputRing i])) is @ [Some (Record (Edge OutputFree n) (Bridge 1))])"
  have st: "st = CUDA_OK" "length outputs \<le> 8" and
    run: "steps [runtime_status ?mid, \<lambda>c. (CUDA_OK, c\<lparr>last_output_free := Some (Edge OutputFree n)\<rparr>),
        runtime_status (calls [None, Some (Await (Bridge 0) (Edge OutputFree n))]), copy_outputs outputs is,
        runtime_status (calls [Some (Record (Edge PrimaryDone n) (Bridge 0)), Some (Await s (Edge PrimaryDone n))])] c1 = (CUDA_OK, c')"
    using assms(1) s 1 base_peer [OF b]
    by (auto simp: queue_outputs_primary_def Let_def simp del: steps.simps split: if_splits)
  have "lent n {} c" using assms(2,3) b by (simp add: lent_def bridge_ok_def crossing_def)
  from acquire_outputs_ok [OF 1 [unfolded st(1)] this st(2)]
  have l1: "lent n (set is) c1" "length is = length outputs" "distinct is" by simp_all
  obtain c2 c4 c5 where 2: "?mid c1 = (True, c2)"
    and 4: "calls [None, Some (Await (Bridge 0) (Edge OutputFree n))] (c2\<lparr>last_output_free := Some (Edge OutputFree n)\<rparr>) = (True, c4)"
    and 5: "copy_outputs outputs is c4 = (CUDA_OK, c5)"
    and 6: "calls [Some (Record (Edge PrimaryDone n) (Bridge 0)), Some (Await s (Edge PrimaryDone n))] c5 = (True, c')"
    using run by (auto simp: steps_ok runtime_ok simp del: steps.simps(2))
  let ?a = "Await (Bridge 1) (Edge RemoteDone n)" and ?o = "Record (Edge OutputFree n) (Bridge 1)"
  let ?ws = "map (\<lambda>i. Work (Bridge 1) [StagedOutput 1] [HostSlot OutputRing i]) is :: (q4_stream, q4_slot, place) queued list"
  let ?t = "queue ?a (line c1)"
  have l2: "line c2 = queue ?o (fold queue ?ws ?t)" using calls_same(1) [OF 2] by simp
  have b1: "base c1" "activation_ok c1" using l1(1) by (simp_all add: lent_def)
  have known: "\<forall>i\<in>set is. knows ?t (HostSlot OutputRing i) (OnStream (Bridge 1))" "knows ?t (StagedOutput 1) (OnStream (Bridge 1))"
    using l1(1) knows_frame [of "line c1" _ _ ?a] by (auto simp: lent_def intro: knows_await)
  have st: "serial bridge_places ?t" by (rule serial_calm [OF base_serial [OF b1(1)]]) simp
  note f = fold_outputs [OF st known]
  have s2: "serial bridge_places (line c2)" unfolding l2 using f by (intro serial_calm) simp_all
  have other: "knows (line c2) p h" if "knows (line c1) p h" "p \<noteq> StagedOutput 1" "\<forall>i\<in>set is. p \<noteq> HostSlot OutputRing i"
    "h \<noteq> AtEvent (Edge OutputFree n)" for p h
    unfolding l2 by (intro knows_frame [OF knows_frames [OF knows_frame [OF that(1)]]]) (use that(2-) in auto)
  have event: "knows (line c2) p (AtEvent (Edge OutputFree n))" if "knows ?t p (OnStream (Bridge 1))" for p
    unfolding l2 by (rule knows_record) (use f that in blast)
  let ?q = "Await (Bridge 0) (Edge OutputFree n)"
  have l4: "line c4 = queue ?q (line c2)" using calls_same(1) [OF 4] by simp
  have m4: "same_setting c1 c4" "free_recorded c4 = free_recorded c1" "last_activation_done c4 = last_activation_done c1"
    "last_output_free c4 = Some (Edge OutputFree n)"
    using calls_same(2,3) [OF 2] calls_same(2,3) [OF 4] by (simp_all add: same_setting_def same_marks_def)
  have s4: "serial bridge_places (line c4)" unfolding l4 by (rule serial_calm [OF s2]) simp
  have k4: "knows (line c4) p h" if "knows (line c2) p h" for p h unfolding l4 by (rule knows_frame [OF that]) simp_all
  have "returning (set is) c4" unfolding returning_def
  proof (intro conjI allI impI ballI)
    show "base c4" by (rule base_setting [OF b1(1) m4(1) s4])
    have a: "knows (line c4) (StagedActivation 1) h" if "knows (line c1) (StagedActivation 1) h" "h \<noteq> AtEvent (Edge OutputFree n)" for h
      using k4 [OF other [OF that(1)]] that(2) by simp
    show "activation_ok c4" using b1(2) a m4(3) by (auto simp: activation_ok_def split: option.splits)
    have "knows (line c2) (StagedOutput 1) (OnStream (Bridge 1))" unfolding l2 by (rule knows_frame) (use f known(2) in simp_all)
    then show "output_ok c4" using k4 [OF event [OF known(2)]] k4 m4(4) by (simp add: output_ok_def)
  next
    fix r' j assume j: "\<not> (r' = OutputRing \<and> j \<in> set is)"
    then have "ring_slot_ok r' j c1" using l1(1) by (simp add: lent_def)
    moreover have "HostSlot r' j \<noteq> HostSlot OutputRing i" if "i \<in> set is" for i using j that by auto
    ultimately show "ring_slot_ok r' j c4" using k4 [OF other [of "HostSlot r' j"]] m4(2) unfolding ring_slot_ok_def by auto
  next
    fix j assume "j \<in> set is"
    then have "knows (line c2) (HostSlot OutputRing j) (AtEvent (Edge OutputFree n))" using event known(1) by blast
    then show "knows (line c4) (HostSlot OutputRing j) (OnStream (Bridge 0))" unfolding l4 by (rule knows_await)
  qed
  from copy_outputs_ok [OF 5 this l1(3) l1(2) [symmetric]] have "bridge_ok c5" .
  moreover have "quiet c5 c'" by (rule calls_quiet [OF 6]) auto
  ultimately show ?thesis using quiet_bridge_ok by blast
qed

subsection \<open>The public functions\<close>

lemma return_outputs_ok:
  assumes "return_outputs True (Some n) outputs c = (CUDA_OK, c')" and "crossing c" and "output_known c"
  shows "bridge_ok c'"
proof -
  obtain x where "record_remote_done n c = (CUDA_OK, x)" "queue_outputs_primary n outputs x = (CUDA_OK, c')"
    using assms(1) by (auto simp: return_outputs_def steps_ok as_runtime_ok simp del: steps.simps(2))
  then show ?thesis using record_remote_done_ok [of n c x] queue_outputs_ok [of n outputs x c'] assms(2,3) by blast
qed

lemma wait_if_ok:
  "wait_if True c = (CUDA_OK, c') \<Longrightarrow> crossing c \<Longrightarrow> crossing c' \<and> output_known c' \<and> device_ids c' = device_ids c"
proof -
  assume a: "wait_if True c = (CUDA_OK, c')" "crossing c"
  then have w: "wait_output_buffer c = (CUDA_OK, c')" by (simp add: wait_if_def as_runtime_ok)
  have "device_ids c' = device_ids c"
    using w a(2) scheduler_second(2) [of c] calls_same(2) [of "[Some (Await (scheduler_stream c 1) e)]" c c' for e]
    by (auto simp: wait_output_buffer_def wait_scheduler_event_def as_runtime_ok runtime_ok same_setting_def crossing_def
      split: option.splits if_splits)
  then show ?thesis using wait_output_ok [OF w a(2)] by blast
qed

lemma settling_devices: "settling c c' \<Longrightarrow> device_ids c' = device_ids c"
  by (simp add: settling_def same_setting_def)

lemma quiet_devices: "quiet c c' \<Longrightarrow> device_ids c' = device_ids c"
  by (simp add: quiet_def within_def same_setting_def)

lemma bring_ok:
  "bring_activation True prepare activation n c = (CUDA_OK, events, c') \<Longrightarrow> bridge_ok c \<Longrightarrow>
   crossing c' \<and> events \<noteq> None \<and> device_ids c' = device_ids c"
  by (simp add: bring_activation_def queue_activation_ok)

text \<open>A graph of the second device on the staged buffers and memory of the caller.\<close>

definition staged_places :: "graph_id \<Rightarrow> place list \<Rightarrow> place list \<Rightarrow> bool" where
  "staged_places g r w \<longleftrightarrow> (\<forall>p\<in>set r \<union> set w. p \<in> bridge_places \<longrightarrow> p \<in> bridged g)"

lemma staged_allowed:
  "staged_places g r w \<Longrightarrow> weights_device c (graph_weights g) \<noteq> device_ids c 0 \<Longrightarrow> allowed c g r w"
  by (simp add: staged_places_def allowed_def)

lemma remote_graph_ok:
  assumes "graph_compute_cached 1 g r w c = (True, c')" and "crossing c" and "staged_places g r w"
    and "weights_device c (graph_weights g) \<noteq> device_ids c 0" and "output_known c \<or> StagedOutput 1 \<notin> bridged g"
    and "bridged g \<subseteq> {StagedActivation 1, StagedOutput 1}"
  shows "crossing c' \<and> (output_known c \<longrightarrow> output_known c') \<and> device_ids c' = device_ids c"
  using remote_computed [OF graph_compute_cached_ok [OF assms(1)] assms(2) staged_allowed [OF assms(3,4)] assms(5,6)]
    graph_compute_cached_ok [OF assms(1)] by (simp add: computed_def)

lemma local_graph_ok:
  assumes "graph_compute_cached slot g r w c = (True, c')" and "bridge_ok c" and "set r \<union> set w \<subseteq> range Memory"
    and "bridged g = {} \<or> weights_device c (graph_weights g) = device_ids c 0"
  shows "bridge_ok c' \<and> device_ids c' = device_ids c"
proof -
  have "allowed c g r w" using assms(3) by (fastforce simp: allowed_def)
  then show ?thesis
    using local_computed [OF graph_compute_cached_ok [OF assms(1)] assms(2) _ assms(4)] graph_compute_cached_ok [OF assms(1)]
    by (simp add: computed_def)
qed

lemma device_steps_quiet: "quiet c (snd (prepare_device slot c))" "quiet c (snd (publish_device slot c))"
  by (simp_all add: prepare_device_def publish_device_def)

lemma device_steps:
  "prepare_device slot c = (st, c') \<Longrightarrow> quiet c c'" "publish_device slot c = (st, c') \<Longrightarrow> quiet c c'"
  using device_steps_quiet by (metis snd_conv)+

lemma local_product_ok:
  assumes "local_product slot g r w c = (CUDA_OK, c')" and "bridge_ok c" and "set r \<union> set w \<subseteq> range Memory"
    and "bridged g = {} \<or> weights_device c (graph_weights g) = device_ids c 0"
  shows "bridge_ok c'"
proof -
  obtain x y where x: "prepare_device slot c = (CUDA_OK, x)"
    and y: "graph_compute_cached (the (consumer_slot x (device_ids x slot))) g r w x = (True, y)"
    and z: "publish_device slot y = (CUDA_OK, c')"
    using assms(1) by (auto simp: local_product_def steps_ok runtime_ok simp del: steps.simps(2))
  have q: "quiet c x" using x by (rule device_steps)
  then have "weights_device x v = weights_device c v" "device_ids x = device_ids c" for v
    by (simp_all add: weights_device_def quiet_devices)
  then have "bridge_ok y" using local_graph_ok [OF y quiet_bridge_ok [OF q assms(2)] assms(3)] assms(4) by simp
  then show ?thesis using quiet_bridge_ok device_steps(2) [OF z] by blast
qed

lemma ensure_bridge_ok:
  "ensure_bridge 1 a b c = (CUDA_OK, c') \<Longrightarrow> bridge_ok c \<Longrightarrow> bridge_ok c' \<and> device_ids c' = device_ids c"
  "ensure_bridge 1 a b c = (CUDA_OK, c') \<Longrightarrow> crossing c \<Longrightarrow> crossing c' \<and> device_ids c' = device_ids c"
  using settling_bridge_ok settling_crossing settling_devices ensure_bridge_settles bridge_ok_def by blast+

lemma remote_product_ok:
  assumes "remote_product True prepare g activation n output m c = (CUDA_OK, c')" and "bridge_ok c"
    and "bridged g = {StagedActivation 1, StagedOutput 1}" and "weights_device c (graph_weights g) \<noteq> device_ids c 0"
  shows "bridge_ok c'"
proof -
  obtain x where x: "ensure_bridge 1 (4 * n) (4 * m) c = (CUDA_OK, x)"
    using assms(1) by (auto simp: remote_product_def Let_def split: prod.splits if_splits)
  obtain st events y where y: "bring_activation True prepare activation (4 * n) x = (st, events, y)" by (metis prod_cases3)
  have st: "st = CUDA_OK" and run: "steps [wait_if True, runtime_status (graph_compute_cached 1 g [StagedActivation 1] [StagedOutput 1]),
      return_outputs True events [(output, 4 * m)]] y = (CUDA_OK, c')"
    using assms(1) x y by (simp_all add: remote_product_def del: steps.simps split: if_splits)
  obtain z v where z: "wait_if True y = (CUDA_OK, z)" and v: "graph_compute_cached 1 g [StagedActivation 1] [StagedOutput 1] z = (True, v)"
    and ret: "return_outputs True events [(output, 4 * m)] v = (CUDA_OK, c')"
    using run by (auto simp: steps_ok runtime_ok simp del: steps.simps(2))
  note 1 = ensure_bridge_ok(1) [OF x assms(2)]
  have 2: "crossing y" "events \<noteq> None" "device_ids y = device_ids c" using bring_ok [OF y [unfolded st]] 1 by simp_all
  have 3: "crossing z" "output_known z" "device_ids z = device_ids c" using wait_if_ok [OF z 2(1)] 2(3) by simp_all
  have "staged_places g [StagedActivation 1] [StagedOutput 1]" by (simp add: staged_places_def assms(3))
  from remote_graph_ok [OF v 3(1) this] have 4: "crossing v" "output_known v"
    using assms(3,4) 3(2,3) by (simp_all add: weights_device_def)
  obtain e where "events = Some e" using 2(2) by blast
  then show ?thesis using return_outputs_ok [of e _ v c'] ret 4 by simp
qed

lemma bridge_ok_base: "bridge_ok c \<Longrightarrow> base c"
  by (simp add: bridge_ok_def crossing_def)

lemma base_async: "base c \<Longrightarrow> async_bridge c" "base c \<Longrightarrow> both_streams c"
  by (simp_all add: base_def async_bridge_def)

lemma find_plan_ok:
  "find_group_plan ws c = (ok, c') \<Longrightarrow> quiet c c'" "find_swiglu_plan gate up c = (ok, c') \<Longrightarrow> quiet c c'"
  "find_ffn_plan gate up down batch c = (ok, c') \<Longrightarrow> quiet c c'" "find_batch_plan ws k c = (ok, c') \<Longrightarrow> quiet c c'"
  "find_lookup_plan w k c = (ok, c') \<Longrightarrow> quiet c c'"
  using quiet_find_plan [of c c] quiet_find_batch [of c c] quiet_find_owned [of c c]
  unfolding find_lookup_plan_def by (metis snd_conv quiet_refl)+

lemma quiet_bridge: "quiet c c' \<Longrightarrow> bridge_ok c \<Longrightarrow> bridge_ok c' \<and> device_ids c' = device_ids c"
  using quiet_bridge_ok quiet_devices by blast

lemma steps_keep:
  assumes "steps fs c = (CUDA_OK, c')" and "P c" and "\<And>f x y. f \<in> set fs \<Longrightarrow> f x = (CUDA_OK, y) \<Longrightarrow> P x \<Longrightarrow> P y"
  shows "P c'"
  using assms
proof (induction fs arbitrary: c)
  case (Cons f fs)
  then obtain x where x: "f c = (CUDA_OK, x)" "steps fs x = (CUDA_OK, c')" using steps_ok by blast
  show ?case by (rule Cons.IH [OF x(2)]) (use Cons.prems(2,3) x(1) in auto)
qed simp

lemma matvec_device_ok:
  assumes "q4_matvec_device weights activation n output m c = (CUDA_OK, c')" and "bridge_ok c"
  shows "bridge_ok c'"
proof -
  have s: "both_streams c" using base_async(2) bridge_ok_base assms(2) by blast
  obtain w a out where w: "weights = Some w" "activation = Some a" "output = Some out"
    using assms(1) by (auto simp: q4_matvec_device_def split: option.splits)
  show ?thesis
  proof (cases "weights_device c w = device_ids c 0")
    case True
    then have "local_product 0 (ProductGraph w) [Memory a] [Memory out] c = (CUDA_OK, c')"
      using assms(1) w by (simp add: q4_matvec_device_def split: if_splits)
    then show ?thesis by (rule local_product_ok [OF _ assms(2)]) (use True in auto)
  next
    case False
    then have "remote_product True False (ProductGraph w) a n out (weights_height w) c = (CUDA_OK, c')"
      using assms(1) w s by (simp add: q4_matvec_device_def split: if_splits)
    then show ?thesis by (rule remote_product_ok [OF _ assms(2)]) (use False in auto)
  qed
qed

lemma swiglu_down_ok:
  assumes "q4_swiglu_down gate up down activation n output m c = (CUDA_OK, c')" and "bridge_ok c"
  shows "bridge_ok c'"
proof -
  obtain g u d a out where w: "gate = Some g" "up = Some u" "down = Some d" "activation = Some a" "output = Some out"
    using assms(1) by (auto simp: q4_swiglu_down_def split: option.splits)
  obtain found x where x: "find_ffn_plan g u d 1 c = (found, x)" by (metis surj_pair)
  have b: "bridge_ok x" using quiet_bridge [OF find_plan_ok(3) [OF x] assms(2)] by simp
  have s: "async_bridge x" using base_async(1) bridge_ok_base b by blast
  show ?thesis
  proof (cases "weights_device x g = device_ids x 0")
    case True
    then have "local_product 0 (FfnPlan g u d 1) [Memory a] [Memory out] x = (CUDA_OK, c')"
      using assms(1) w x by (simp add: q4_swiglu_down_def Let_def split: if_splits)
    then show ?thesis by (rule local_product_ok [OF _ b]) (use True in auto)
  next
    case False
    then have "remote_product True True (FfnPlan g u d 1) a n out (weights_height d) x = (CUDA_OK, c')"
      using assms(1) w x s by (simp add: q4_swiglu_down_def Let_def split: if_splits)
    then show ?thesis by (rule remote_product_ok [OF _ b]) (use False in auto)
  qed
qed

lemma swiglu_down_slot_ok:
  assumes "q4_swiglu_down_slot slot gate up down activation n batch output m c = (CUDA_OK, c')" and "bridge_ok c"
    and "\<not> (slot = 1 \<and> batch = 1)"
  shows "bridge_ok c'"
proof -
  obtain g u d a out where w: "gate = Some g" "up = Some u" "down = Some d" "activation = Some a" "output = Some out"
    using assms(1) by (auto simp: q4_swiglu_down_slot_def split: option.splits)
  obtain found x where x: "find_ffn_plan g u d batch c = (found, x)" by (metis surj_pair)
  have b: "bridge_ok x" "device_ids x = device_ids c" using quiet_bridge [OF find_plan_ok(3) [OF x] assms(2)] by simp_all
  have run: "local_product (nat slot) (FfnPlan g u d (nat batch)) [Memory a] [Memory out] x = (CUDA_OK, c')"
    and slot: "0 \<le> slot" "slot \<le> 1" "0 < batch" "weights_device c g = device_ids c (nat slot)"
    using assms(1) w x by (simp_all add: q4_swiglu_down_slot_def Let_def split: if_splits)
  have "bridged (FfnPlan g u d (nat batch)) = {} \<or> weights_device x g = device_ids x 0"
  proof (cases "slot = 0")
    case True
    then show ?thesis using slot(4) b(2) by (simp add: weights_device_def)
  next
    case False
    then have "batch \<noteq> 1" using slot assms(3) by simp
    then have "nat batch \<noteq> 1" using slot(3) by simp
    then show ?thesis by simp
  qed
  then show ?thesis using local_product_ok [OF run b(1)] by simp
qed

lemma swiglu_ok:
  assumes "q4_swiglu remote_output gate up activation n output m c = (CUDA_OK, c')" and "bridge_ok c"
  shows "bridge_ok c'"
proof -
  obtain g u a out where w: "gate = Some g" "up = Some u" "activation = Some a" "output = Some out"
    using assms(1) by (auto simp: q4_swiglu_def split: option.splits)
  let ?g = "SwigluPlan g u"
  obtain found x where x: "find_swiglu_plan g u c = (found, x)" by (metis surj_pair)
  have b: "bridge_ok x" using quiet_bridge [OF find_plan_ok(2) [OF x] assms(2)] by simp
  have s: "async_bridge x" using base_async(1) bridge_ok_base b by blast
  show ?thesis
  proof (cases "weights_device x g = device_ids x 0")
    case True
    then have "local_product 0 ?g [Memory a] [Memory out] x = (CUDA_OK, c')"
      using assms(1) w x by (simp add: q4_swiglu_def Let_def split: if_splits)
    then show ?thesis by (rule local_product_ok [OF _ b]) (use True in auto)
  next
    case False
    obtain st y where y: "ensure_bridge 1 (4 * n) 0 x = (st, y)" by (metis surj_pair)
    obtain st2 events z where z: "bring_activation True True a (4 * n) y = (st2, events, z)" by (metis prod_cases3)
    have st: "st = CUDA_OK" "st2 = CUDA_OK" and
      run: "steps [runtime_status (graph_compute_cached 1 ?g [StagedActivation 1] [Memory out]),
        steps [as_runtime (record_remote_done (the events)),
          \<lambda>c. runtime_status (calls [None, Some (Await (the (consumer_stream c 1)) (Edge RemoteDone (the events)))]) c]] z = (CUDA_OK, c')"
      using assms(1) w x y z s False by (auto simp: q4_swiglu_def Let_def simp del: steps.simps split: if_splits)
    obtain u1 u2 where u: "graph_compute_cached 1 ?g [StagedActivation 1] [Memory out] z = (True, u1)"
      "record_remote_done (the events) u1 = (CUDA_OK, u2)"
      "calls [None, Some (Await (the (consumer_stream u2 1)) (Edge RemoteDone (the events)))] u2 = (True, c')"
      using run by (auto simp: steps_ok runtime_ok as_runtime_ok simp del: steps.simps(2))
    note 1 = ensure_bridge_ok(1) [OF y [unfolded st] b]
    have 2: "crossing z" "device_ids z = device_ids x" using bring_ok [OF z [unfolded st]] 1 by simp_all
    have "staged_places ?g [StagedActivation 1] [Memory out]" by (simp add: staged_places_def)
    from remote_graph_ok [OF u(1) 2(1) this] have "crossing u1" using False 2(2) by (simp add: weights_device_def)
    then have "bridge_ok u2" using record_remote_done_ok [OF u(2)] by blast
    then show ?thesis using quiet_bridge_ok calls_quiet [OF u(3)] by simp
  qed
qed

lemma group_pass_ok:
  assumes "group_pass activation n members c = (CUDA_OK, c')" and "bridge_ok c"
  shows "bridge_ok c'"
proof -
  let ?ws = "map fst members" and ?g = "GroupPlan (map fst members)"
  have s: "async_bridge c" using base_async(1) bridge_ok_base assms(2) by blast
  show ?thesis
  proof (cases "weights_device c (hd ?ws) = device_ids c 0")
    case True
    then obtain x y where x: "find_group_plan ?ws c = (True, x)"
      and y: "graph_compute_cached 0 ?g [Memory activation] (map (Memory \<circ> snd) members) x = (True, y)" and z: "publish_device 0 y = (CUDA_OK, c')"
      using assms(1) by (auto simp: group_pass_def Let_def steps_ok runtime_ok simp del: steps.simps(2))
    have q: "bridge_ok x" "device_ids x = device_ids c" using quiet_bridge [OF find_plan_ok(1) [OF x] assms(2)] by simp_all
    have "weights_device x (hd ?ws) = device_ids x 0" using True q(2) by (simp add: weights_device_def)
    then have "bridge_ok y" using local_graph_ok [OF y q(1)] by auto
    then show ?thesis using quiet_bridge_ok device_steps(2) [OF z] by blast
  next
    case False
    obtain st x where x: "ensure_bridge 1 (4 * n) 0 c = (st, x)" by (metis surj_pair)
    obtain st2 events y where y: "bring_activation True False activation (4 * n) x = (st2, events, y)" by (metis prod_cases3)
    have st: "st = CUDA_OK" "st2 = CUDA_OK" and
      run: "steps [runtime_status (find_group_plan ?ws), ensure_bridge 1 (4 * n) (sum_list (map (\<lambda>w. 4 * weights_height w) ?ws)), wait_if True,
        runtime_status (graph_compute_cached 1 ?g [StagedActivation 1] [StagedOutput 1]),
        return_outputs True events (map (\<lambda>(w, output). (output, 4 * weights_height w)) members)] y = (CUDA_OK, c')"
      using assms(1) x y s False by (auto simp: group_pass_def Let_def simp del: steps.simps split: if_splits)
    obtain u1 u2 u3 u4 where u: "find_group_plan ?ws y = (True, u1)"
      "ensure_bridge 1 (4 * n) (sum_list (map (\<lambda>w. 4 * weights_height w) ?ws)) u1 = (CUDA_OK, u2)" "wait_if True u2 = (CUDA_OK, u3)"
      "graph_compute_cached 1 ?g [StagedActivation 1] [StagedOutput 1] u3 = (True, u4)"
      "return_outputs True events (map (\<lambda>(w, output). (output, 4 * weights_height w)) members) u4 = (CUDA_OK, c')"
      using run by (auto simp: steps_ok runtime_ok simp del: steps.simps(2))
    note 1 = ensure_bridge_ok(1) [OF x [unfolded st] assms(2)]
    have 2: "crossing y" "events \<noteq> None" "device_ids y = device_ids c" using bring_ok [OF y [unfolded st]] 1 by simp_all
    have q: "quiet y u1" using find_plan_ok(1) [OF u(1)] .
    note 3 = ensure_bridge_ok(2) [OF u(2) quiet_crossing [OF q 2(1)]]
    have 4: "crossing u3" "output_known u3" "device_ids u3 = device_ids c"
      using wait_if_ok [OF u(3)] 3 quiet_devices [OF q] 2(3) by simp_all
    have "staged_places ?g [StagedActivation 1] [StagedOutput 1]" by (simp add: staged_places_def)
    from remote_graph_ok [OF u(4) 4(1) this] have 5: "crossing u4" "output_known u4"
      using False 4(2,3) by (simp_all add: weights_device_def)
    obtain e where "events = Some e" using 2(2) by blast
    then show ?thesis using return_outputs_ok [of e _ u4 c'] u(5) 5 by simp
  qed
qed

lemma matvec_group_ok:
  assumes "q4_matvec_device_group args activation n c = (CUDA_OK, c')" and "bridge_ok c"
  shows "bridge_ok c'"
proof -
  obtain a members where "activation = Some a" and run: "steps ((if \<exists>(w, _)\<in>set members. weights_device c w = device_ids c 0 then [prepare_device 0] else []) @
      map (group_pass a n) (by_device (weights_device c \<circ> fst) members)) c = (CUDA_OK, c')"
    using assms(1) unfolding q4_matvec_device_group_def
    by (cases activation) (auto simp del: steps.simps split: option.splits if_splits)
  show ?thesis
  proof (rule steps_keep [OF run, where P = bridge_ok, OF assms(2)])
    fix f x y assume f: "f \<in> set ((if \<exists>(w, _)\<in>set members. weights_device c w = device_ids c 0 then [prepare_device 0] else []) @
      map (group_pass a n) (by_device (weights_device c \<circ> fst) members))" "f x = (CUDA_OK, y)" "bridge_ok x"
    then consider "f = prepare_device 0" | pass where "f = group_pass a n pass" by (auto split: if_splits)
    then show "bridge_ok y"
      by cases (use f(2,3) quiet_bridge_ok device_steps(1) group_pass_ok in blast)+
  qed
qed

lemma matmul_group_slot_ok:
  assumes "q4_matmul_device_group_slot slot args activation n batch c = (CUDA_OK, c')" and "bridge_ok c"
  shows "bridge_ok c'"
proof -
  obtain a members where "activation = Some a" and
    run: "steps [prepare_device (nat slot), runtime_status (find_batch_plan (map fst members) (nat batch)),
       \<lambda>c. runtime_status (graph_compute_cached (the (consumer_slot c (device_ids c (nat slot)))) (BatchPlan (map fst members) (nat batch))
         [Memory a] (map (Memory \<circ> snd) members)) c, publish_device (nat slot)] c = (CUDA_OK, c')"
    using assms(1) unfolding q4_matmul_device_group_slot_def
    by (cases activation) (auto simp: Let_def simp del: steps.simps split: option.splits if_splits)
  then obtain x y z where x: "prepare_device (nat slot) c = (CUDA_OK, x)" "find_batch_plan (map fst members) (nat batch) x = (True, y)"
    and z: "graph_compute_cached (the (consumer_slot y (device_ids y (nat slot)))) (BatchPlan (map fst members) (nat batch))
         [Memory a] (map (Memory \<circ> snd) members) y = (True, z)" and p: "publish_device (nat slot) z = (CUDA_OK, c')"
    by (auto simp: steps_ok runtime_ok simp del: steps.simps(2))
  have "bridge_ok y" using quiet_bridge_ok device_steps(1) [OF x(1)] find_plan_ok(4) [OF x(2)] assms(2) by blast
  then have "bridge_ok z" using local_graph_ok [OF z] by auto
  then show ?thesis using quiet_bridge_ok device_steps(2) [OF p] by blast
qed

lemma embedding_batch_ok:
  assumes "q4_embedding_device_batch_slot slot w tokens batch output m c = (CUDA_OK, c')" and "bridge_ok c"
  shows "bridge_ok c'"
proof -
  obtain v out where w: "w = Some v" "output = Some out"
    using assms(1) by (auto simp: q4_embedding_device_batch_slot_def split: option.splits)
  then obtain x y z where x: "prepare_input (weights_device c v) c = (CUDA_OK, x)" "find_lookup_plan v (nat batch) x = (True, y)"
    and z: "graph_compute_cached (the (consumer_slot y (weights_device y v))) (LookupPlan v (nat batch)) [] [Memory out] y = (True, z)"
    and p: "publish_output (weights_device z v) z = (CUDA_OK, c')"
    using assms(1) by (auto simp: q4_embedding_device_batch_slot_def steps_ok runtime_ok simp del: steps.simps(2) split: if_splits)
  have "quiet c x" using quiet_prepare_input [of c c "weights_device c v"] x(1) by simp
  then have "bridge_ok y" using quiet_bridge_ok find_plan_ok(5) [OF x(2)] assms(2) by blast
  then have "bridge_ok z" using local_graph_ok [OF z] by auto
  moreover have "quiet z c'" using quiet_publish_output [of z z "weights_device z v"] p by simp
  ultimately show ?thesis using quiet_bridge_ok by blast
qed

lemma those_length: "those xs = Some ys \<Longrightarrow> length ys = length xs"
  by (induction xs arbitrary: ys) (auto split: option.splits)

lemma group_remote_output_ok:
  assumes "q4_group_remote_output args activation n c = (CUDA_OK, c')" and "bridge_ok c"
  shows "bridge_ok c'"
proof -
  have s: "async_bridge c" using base_async(1) bridge_ok_base assms(2) by blast
  obtain a members where a: "activation = Some a" "those (map (checked_member n) args) = Some members" "args \<noteq> []"
    "device_ids c 0 \<noteq> device_ids c 1" "\<forall>(w, _)\<in>set members. weights_device c w = device_ids c 1"
    using assms(1) unfolding q4_group_remote_output_def
    by (cases activation) (auto simp: Let_def simp del: steps.simps split: option.splits if_splits)
  let ?ws = "map fst members" and ?g = "GroupPlan (map fst members)"
  have "members \<noteq> []" using those_length [OF a(2)] a(3) by auto
  then have far: "weights_device c (hd ?ws) \<noteq> device_ids c 0" using a(4,5) by (cases members) auto
  obtain st events y where y: "queue_activation a (4 * n) c = (st, events, y)" by (metis prod_cases3)
  have guards: "length args \<le> 3" "n \<noteq> 0"
    using assms(1) unfolding q4_group_remote_output_def by (auto simp: a(1) split: if_splits)
  have "st = CUDA_OK \<and> steps [ensure_bridge 1 (4 * n) 0, \<lambda>c. (CUDA_OK, c),
      runtime_status (find_group_plan ?ws), wait_if True,
      runtime_status (graph_compute_cached 1 ?g [StagedActivation 1] (map (Memory \<circ> snd) members)),
      steps [as_runtime (record_remote_done (the events)),
        \<lambda>c. runtime_status (calls [None, Some (Await (the (consumer_stream c 1)) (Edge RemoteDone (the events)))]) c]] y = (CUDA_OK, c')"
    using assms(1) s y a guards unfolding q4_group_remote_output_def
    by (auto simp: Let_def simp del: steps.simps split: if_splits)
  then have st: "st = CUDA_OK" and
    run: "steps [ensure_bridge 1 (4 * n) 0, \<lambda>c. (CUDA_OK, c),
      runtime_status (find_group_plan ?ws), wait_if True,
      runtime_status (graph_compute_cached 1 ?g [StagedActivation 1] (map (Memory \<circ> snd) members)),
      steps [as_runtime (record_remote_done (the events)),
        \<lambda>c. runtime_status (calls [None, Some (Await (the (consumer_stream c 1)) (Edge RemoteDone (the events)))]) c]] y = (CUDA_OK, c')"
    by simp_all
  obtain u1 u2 u3 u4 u5 where u: "ensure_bridge 1 (4 * n) 0 y = (CUDA_OK, u1)" "find_group_plan ?ws u1 = (True, u2)" "wait_if True u2 = (CUDA_OK, u3)"
    "graph_compute_cached 1 ?g [StagedActivation 1] (map (Memory \<circ> snd) members) u3 = (True, u4)"
    "record_remote_done (the events) u4 = (CUDA_OK, u5)"
    "calls [None, Some (Await (the (consumer_stream u5 1)) (Edge RemoteDone (the events)))] u5 = (True, c')"
    using run by (auto simp: steps_ok runtime_ok as_runtime_ok simp del: steps.simps(2))
  have 1: "crossing y" "device_ids y = device_ids c" using queue_activation_ok [OF y [unfolded st] assms(2)] by simp_all
  note 2 = ensure_bridge_ok(2) [OF u(1) 1(1)]
  have q: "quiet u1 u2" using find_plan_ok(1) [OF u(2)] .
  have 3: "crossing u3" "output_known u3" "device_ids u3 = device_ids c"
    using wait_if_ok [OF u(3) quiet_crossing [OF q]] 2 1(2) quiet_devices [OF q] by simp_all
  have "staged_places ?g [StagedActivation 1] (map (Memory \<circ> snd) members)" by (auto simp: staged_places_def)
  from remote_graph_ok [OF u(4) 3(1) this] have "crossing u4" using far 3(2,3) by (simp add: weights_device_def)
  then have "bridge_ok u5" using record_remote_done_ok [OF u(5)] by blast
  then show ?thesis using quiet_bridge_ok calls_quiet [OF u(6)] by simp
qed

lemma remote_input_ok:
  assumes "q4_remote_input w activation n output m c = (CUDA_OK, c')" and "bridge_ok c"
  shows "bridge_ok c'"
proof -
  obtain v a out where w: "w = Some v" "activation = Some a" "output = Some out"
    using assms(1) by (auto simp: q4_remote_input_def split: option.splits)
  obtain st x where x: "steps [prepare_device 1, ensure_bridge 1 (4 * n) (4 * weights_height v)] c = (st, x)" by (metis surj_pair)
  have st: "st = CUDA_OK" using assms(1) w x by (auto simp: q4_remote_input_def Let_def simp del: steps.simps split: if_splits)
  obtain y where y: "prepare_device 1 c = (CUDA_OK, y)" "ensure_bridge 1 (4 * n) (4 * weights_height v) y = (CUDA_OK, x)"
    using x st by (auto simp: steps_ok simp del: steps.simps(2))
  have q: "quiet c y" using device_steps(1) [OF y(1)] .
  have b: "bridge_ok x" "device_ids x = device_ids c"
    using ensure_bridge_ok(1) [OF y(2) quiet_bridge_ok [OF q assms(2)]] quiet_devices [OF q] by simp_all
  have s: "async_bridge x" using base_async(1) bridge_ok_base b(1) by blast
  obtain st2 events z where z: "next_bridge_events x = (st2, events, z)" by (metis prod_cases3)
  have st2: "st2 = CUDA_OK" and far: "weights_device c v \<noteq> device_ids c 0" and
    run: "steps [wait_if True, runtime_status (graph_compute_cached 1 (ProductGraph v) [Memory a] [StagedOutput 1]),
      return_outputs True events [(out, 4 * weights_height v)]] z = (CUDA_OK, c')"
    using assms(1) w x st s z by (auto simp: q4_remote_input_def Let_def simp del: steps.simps split: if_splits)
  obtain u1 u2 where u: "wait_if True z = (CUDA_OK, u1)" "graph_compute_cached 1 (ProductGraph v) [Memory a] [StagedOutput 1] u1 = (True, u2)"
    "return_outputs True events [(out, 4 * weights_height v)] u2 = (CUDA_OK, c')"
    using run by (auto simp: steps_ok runtime_ok simp del: steps.simps(2))
  have qz: "quiet x z" using quiet_next_bridge_events [of x x] z by simp
  have "crossing z" using quiet_bridge_ok [OF qz b(1)] by (simp add: bridge_ok_def)
  then have 3: "crossing u1" "output_known u1" "device_ids u1 = device_ids c"
    using wait_if_ok [OF u(1)] quiet_devices [OF qz] b(2) by simp_all
  have "staged_places (ProductGraph v) [Memory a] [StagedOutput 1]" by (simp add: staged_places_def)
  from remote_graph_ok [OF u(2) 3(1) this] have 5: "crossing u2" "output_known u2"
    using far 3(2,3) by (simp_all add: weights_device_def)
  obtain e where "events = Some e" using next_bridge_events_some [OF z [unfolded st2]] by blast
  then show ?thesis using return_outputs_ok [of e _ u2 c'] u(3) 5 by simp
qed

lemma transfer_ok:
  assumes "context_transfer a source b destination n c = (CUDA_OK, c')" and "bridge_ok c"
  shows "bridge_ok c'"
proof -
  have "serial bridge_places (line c)" "\<forall>r i. ring_slot_ok r i c"
    using assms(2) by (simp_all add: bridge_ok_def crossing_def base_serial)
  then obtain r i where "ring_step r i c c'" "ring_slot_ok r i c'" using context_transfer_ok [OF assms(1)] by blast
  then show ?thesis using ring_step_bridge_ok assms(2) by blast
qed

lemma set_stream_ok:
  assumes "set_consumer_stream slot (Some s) c = (CUDA_OK, c')" and "bridge_ok c"
  shows "bridge_ok c'"
proof -
  have "c' = c\<lparr>consumer_stream := (consumer_stream c)(nat slot := Some s)\<rparr>"
    using assms(1) by (simp add: set_consumer_stream_def split: if_splits)
  then show ?thesis using assms(2)
    by (simp add: bridge_ok_def crossing_def base_def both_streams_def q4_caches_ok_def allowed_def weights_device_def
        ring_slot_ok_def output_ok_def activation_ok_def cong: option.case_cong)
qed

lemma synchronize_ok:
  assumes "q4_context_synchronize c = (CUDA_OK, c')" and "bridge_ok c"
  shows "bridge_ok c'"
proof -
  have s: "quiet b (snd (sync_bridge_stream k b))" for k b by (simp add: sync_bridge_stream_def)
  have "calm (chain [sync_bridge_stream 0, sync_bridge_stream 1])"
    by (rule calm_chain) (use s in \<open>simp add: calm_def\<close>)
  then have ch: "quiet b (snd (chain [sync_bridge_stream 0, sync_bridge_stream 1] b))" for b by (simp add: calm_def)
  have z: "quiet b d \<Longrightarrow> quiet b (set_bytes t k d)" for b d t k
    by (rule quiet_fields [of _ d]) (simp_all add: set_bytes_def same_setting_def same_marks_def)
  have "quiet c c'"
    using assms(1) quiet_trans [OF _ ch] unfolding q4_context_synchronize_def
    by (auto simp: Let_def split_beta z simp del: chain.simps split: if_splits)
  then show ?thesis using quiet_bridge_ok assms(2) by blast
qed

subsection \<open>Any sequence of calls\<close>

text \<open>
  The public functions that queue work, as calls. Left out are the token lookup of weights on the second
  device and the products to and from the host, and \<open>covered\<close> leaves out the feed-forward block of one
  column on the second device, for which see below: such a lookup does not wait (\<open>lookup_races\<close>), and
  such a block shares the plan of the call without slots, whose captured graph may be that of the caller's
  buffers (\<open>captured_graph_keeps_places\<close>).
\<close>

datatype q4_call =
  CallTransfer int "nat option" int "nat option" nat
| CallMatvec "q4_weights option" "nat option" nat "nat option" nat
| CallGroup "(q4_weights option \<times> nat option \<times> nat) list" "nat option" nat
| CallSwiglu bool "q4_weights option" "q4_weights option" "nat option" nat "nat option" nat
| CallFfn "q4_weights option" "q4_weights option" "q4_weights option" "nat option" nat "nat option" nat
| CallFfnSlot int "q4_weights option" "q4_weights option" "q4_weights option" "nat option" nat int "nat option" nat
| CallMatmulGroup int "(q4_weights option \<times> nat option \<times> nat) list" "nat option" nat int
| CallRemoteOutput "(q4_weights option \<times> nat option \<times> nat) list" "nat option" nat
| CallRemoteInput "q4_weights option" "nat option" nat "nat option" nat
| CallLookupBatch int "q4_weights option" bool int "nat option" nat
| CallSetStream int q4_stream
| CallSynchronize

fun do_call :: "q4_call \<Rightarrow> q4_step" where
  "do_call (CallTransfer a source b destination n) = context_transfer a source b destination n"
| "do_call (CallMatvec w activation n output m) = q4_matvec_device w activation n output m"
| "do_call (CallGroup args activation n) = q4_matvec_device_group args activation n"
| "do_call (CallSwiglu remote_output gate up activation n output m) = q4_swiglu remote_output gate up activation n output m"
| "do_call (CallFfn gate up down activation n output m) = q4_swiglu_down gate up down activation n output m"
| "do_call (CallFfnSlot slot gate up down activation n batch output m) = q4_swiglu_down_slot slot gate up down activation n batch output m"
| "do_call (CallMatmulGroup slot args activation n batch) = q4_matmul_device_group_slot slot args activation n batch"
| "do_call (CallRemoteOutput args activation n) = q4_group_remote_output args activation n"
| "do_call (CallRemoteInput w activation n output m) = q4_remote_input w activation n output m"
| "do_call (CallLookupBatch slot w tokens batch output m) = q4_embedding_device_batch_slot slot w tokens batch output m"
| "do_call (CallSetStream slot s) = set_consumer_stream slot (Some s)"
| "do_call CallSynchronize = q4_context_synchronize"

definition covered :: "q4_call \<Rightarrow> bool" where
  "covered k \<longleftrightarrow> (case k of CallFfnSlot slot _ _ _ _ _ batch _ _ \<Rightarrow> \<not> (slot = 1 \<and> batch = 1) | _ \<Rightarrow> True)"

lemma do_call_ok: "do_call k c = (CUDA_OK, c') \<Longrightarrow> covered k \<Longrightarrow> bridge_ok c \<Longrightarrow> bridge_ok c'"
  by (cases k) (auto simp: covered_def intro: transfer_ok matvec_device_ok matvec_group_ok swiglu_ok swiglu_down_ok
    swiglu_down_slot_ok matmul_group_slot_ok group_remote_output_ok remote_input_ok embedding_batch_ok set_stream_ok synchronize_ok)

text \<open>A context on two devices with both streams of its caller, before anything is queued.\<close>

definition ready_for_bridge :: "q4_context \<Rightarrow> bool" where
  "ready_for_bridge c \<longleftrightarrow> device_ids c 0 \<noteq> device_ids c 1 \<and> \<not> sync_bridge_requested c \<and> \<not> use_peer_copy c \<and> both_streams c \<and>
     line c = empty_timeline \<and> graph_caches c = no_caches \<and> free_recorded c = (\<lambda>_ _. False) \<and>
     last_activation_done c = None \<and> last_output_free c = None"

lemma ready_bridge_ok: "ready_for_bridge c \<Longrightarrow> bridge_ok c"
  by (simp add: ready_for_bridge_def bridge_ok_def crossing_def base_def q4_caches_ok_def no_caches_def ring_slot_ok_def output_ok_def activation_ok_def)

text \<open>
  C39: on two different devices with a stream of the caller on each, without the synchronous bridge and without
  copies between peers: whatever calls of \<open>q4_call\<close> are made in whatever order, as long as each reports
  success, the works on each pinned buffer of the two rings and on the two staged buffers of the second
  device are ordered as they were queued, however fast the streams are: when a work that touches a buffer
  starts, every earlier work that touches it is done. So none is overwritten or replaced while an earlier
  work may still use it, or read while it is still written. The memory of the caller is not among these places, and
  neither are what GGML keeps for itself and the weights' own tensors, which only the products to and from the host use.
\<close>

theorem bridge_is_serial:
  assumes "ready_for_bridge c" and "list_all covered ks" and "steps (map do_call ks) c = (CUDA_OK, c')"
  shows "serial bridge_places (line c')"
proof -
  have "bridge_ok c'"
    by (rule steps_keep [where P = bridge_ok, OF assms(3) ready_bridge_ok [OF assms(1)]]) (use assms(2) do_call_ok in \<open>auto simp: list_all_iff\<close>)
  then show ?thesis by (simp add: bridge_ok_def crossing_def base_serial)
qed

definition two_devices :: q4_context where
  "two_devices = no_q4\<lparr>device_ids := int, segment_graph_requested := False, slots := (\<lambda>_. Some 0), capacity := (\<lambda>_. 2 ^ 30),
     consumer_stream := (\<lambda>i. Some (Caller i))\<rparr>"

definition remote_weights :: q4_weights where
  "remote_weights = \<lparr>weights_id = 0, weights_slot = 1, weights_width = 256, weights_height = 2\<rparr>"

definition three_calls :: "q4_call list" where
  "three_calls = [CallMatvec (Some remote_weights) (Some 0) 256 (Some 1) 2, CallTransfer 1 (Some 2) 0 (Some 3) 8,
     CallMatvec (Some remote_weights) (Some 1) 256 (Some 2) 2]"


text \<open>How many works there are, for every call that is queued.\<close>

lemma queue_counts [simp]:
  "length (works (queue (Work s r w) t)) = Suc (length (works t))" "length (works (queue (Record e s) t)) = length (works t)"
  "length (works (queue (Await s e) t)) = length (works t)"
  by (simp_all add: queue.simps Let_def)

lemmas bridge_run = q4_matvec_device_def remote_product_def weights_device_def both_streams_def
  ensure_bridge_def grow_staged_def runtime_status_def bring_activation_def queue_activation_def queue_activation_remote_def next_bridge_events_def
  event_slots_def acquire_host_def select_host_def host_bridge_slots_def ensure_host_buffer_def advance_host_def host_bridge_reserve_def
  calls_def asked_def enqueue_def await_last_def mark_free_def as_runtime_def wait_scheduler_event_def scheduler_stream_def wait_if_def
  wait_output_buffer_def graph_compute_cached_def graph_compute_def return_outputs_def record_remote_done_def record_scheduler_event_def
  consumer_slot_def queue_outputs_primary_def missing_def side_def context_transfer_def wait_until_free_def

lemma three_calls_queue:
  "fst (steps (map do_call three_calls) two_devices) = CUDA_OK \<and> length (works (line (snd (steps (map do_call three_calls) two_devices)))) = 12"
  by (simp add: two_devices_def no_q4_def remote_weights_def three_calls_def bridge_run empty_timeline_def)

theorem bridge_is_serial_witness:
  "serial bridge_places (line (snd (steps (map do_call three_calls) two_devices))) \<and>
   length (works (line (snd (steps (map do_call three_calls) two_devices)))) = 12"
proof -
  have "steps (map do_call three_calls) two_devices = (CUDA_OK, snd (steps (map do_call three_calls) two_devices))"
    using three_calls_queue by (metis prod.collapse)
  moreover have "ready_for_bridge two_devices"
    by (simp add: ready_for_bridge_def two_devices_def no_q4_def both_streams_def)
  moreover have "list_all covered three_calls" by (simp add: three_calls_def covered_def)
  ultimately show ?thesis using bridge_is_serial [of two_devices three_calls] three_calls_queue by blast
qed


text \<open>A token lookup of weights on the second device does not wait for the buffer of the results.\<close>

lemmas lookup_run = q4_embedding_device_def prepare_embedding_def create_slot_def create_in_def prepare_device_def prepare_input_def
  next_event_def record_bytes_def host_waits_def host_did_def copy_between_devices_def drain_device_def ensure_host_stage_def

definition lookup_calls :: "q4_step list" where
  "lookup_calls = [do_call (CallMatvec (Some remote_weights) (Some 0) 256 (Some 1) 2), q4_embedding_device (Some remote_weights) 0 (Some 2) 256]"

lemma lookup_calls_run: "fst (steps lookup_calls two_devices) = CUDA_OK"
  by (simp add: lookup_calls_def two_devices_def no_q4_def remote_weights_def bridge_run lookup_run Let_def)

lemma lookup_races: "race (StagedOutput 1) (line (snd (steps lookup_calls two_devices)))"
  unfolding race_def
  by (rule exI [of _ 5])
    (simp add: lookup_calls_def two_devices_def no_q4_def remote_weights_def bridge_run lookup_run empty_timeline_def queue.simps Let_def
      nth_append writes_def touches_def exI [of _ 3])

text \<open>
  The third product of the same weights replays the graph that the second captured and writes where the
  second wrote; the place it was given is not written.
\<close>

definition captured_calls :: "q4_call list" where
  "captured_calls = map (\<lambda>output. CallMatvec (Some (remote_weights\<lparr>weights_slot := 0\<rparr>)) (Some 0) 256 (Some output) 2) [1, 1, 2]"

lemma captured_graph_keeps_places:
  "fst (steps (map do_call captured_calls) (two_devices\<lparr>segment_graph_requested := True\<rparr>)) = CUDA_OK \<and>
   map (snd \<circ> fst) (works (line (snd (steps (map do_call captured_calls) (two_devices\<lparr>segment_graph_requested := True\<rparr>))))) =
     [[Memory 1], [Memory 1], [Memory 1]]"
  by (simp add: captured_calls_def two_devices_def no_q4_def remote_weights_def bridge_run lookup_run local_product_def publish_device_def
    publish_output_def no_caches_def set_cache_def capture_graph_def empty_timeline_def queue.simps Let_def)

text \<open>
  A growth that fails loses the buffer and keeps its size, so the next call, when it needs no more than
  before, goes on with a null pointer.
\<close>

lemma failed_growth_keeps_size:
  assumes "grow_staged buffer at slot n c = (False, c')" and "m \<le> capacity c (buffer slot)"
  shows "slots c' (buffer slot) = None \<and> grow_staged buffer at slot m c' = (True, c')"
proof -
  let ?d = "release_staged buffer at slot c"
  have d: "slots ?d (buffer slot) = None" "capacity ?d = capacity c"
    by (simp_all add: release_staged_def device_did_def host_did_def drop_slot_def forget_def discard_def asked_release_def Let_def
        split: option.splits list.splits prod.splits)
  have "fst (create_slot (buffer slot) n ?d) = False" "c' = snd (create_slot (buffer slot) n ?d)"
    using assms(1) by (auto simp: grow_staged_def record_bytes_def Let_def split: prod.splits if_splits)
  then have "slots c' = slots ?d" "capacity c' = capacity ?d"
    by (auto simp: create_slot_def create_in_def asked_def split: list.splits if_splits prod.splits)
  then show ?thesis using d assms(2) by (simp add: grow_staged_def)
qed

end
