(* ===== verification/Spec2Isabelle.thy ===== *)
theory Spec2Isabelle
  imports Transport GgufMap HalfFloat LlamaSpec LlamaContext LlamaLibrary CudaStub DeltaStep Q8Quantize FlashAttention GgmlRuns CudaLayers CudaQuantize CudaArgmax CudaTopk CudaRecurrent Q4Memory Q4Crossing
begin

text \<open>
  A verification library for the C part of fortai, a runtime for language models with an HTTP server.
  The server (\<open>src/server/fortai_http_server.c\<close>) accepts clients, queues them for a pool of worker
  threads or, with process slots, serves them in forked children; it reads a request, checks its key
  and calls the native handler, which is Fortran. The handler reaches a model through one of the
  backends: the llama library, opened at run time and driven by \<open>src/backend/cpu/fortai_llama_fast.c\<close>
  with speculative decoding; the CPU kernels of \<open>src/backend/cpu/fortai_q8_dot.c\<close> on weights mapped
  by \<open>fortai_gguf_mmap.c\<close>; GGML through \<open>fortai_ggml_quant.c\<close> for mixed quantised formats; or CUDA,
  whose interface is answered by \<open>fortai_cuda_stub.c\<close> where it is not built.

  Shared. \<open>Prelude\<close> has the type names, list searches and hint collections, \<open>CString\<close> the string
  functions of the C library that the code calls, on character lists with a NUL, \<open>WordFacts\<close> facts on
  machine words, \<open>Ledger\<close> the replay of obtained and discarded resources.

  HTTP server. \<open>HttpRequest\<close>: \<open>fortai_http_read_request\<close> with every answer of \<open>recv\<close> and \<open>malloc\<close>;
  sound and complete against a framing function. \<open>HttpHeader\<close>: \<open>fortai_copy_header_value\<close>,
  \<open>fortai_copy_request_path\<close>; lookup by lines. \<open>HttpAuth\<close>: keys, key file, public paths and origins; the
  locale \<open>entry_scanner\<close> is what the two comma-separated lists have in common, interpreted for
  \<open>fortai_key_equals\<close> and \<open>fortai_cors_origin_allowed\<close>. \<open>HttpResponse\<close>: \<open>fortai_send_all\<close>,
  \<open>fortai_http_status\<close>; delivery and framing. \<open>HttpDispatch\<close>: \<open>fortai_dispatch_request\<close>, a loop that may
  call the handler again and may not end, so a partial function; it returns for handlers that ask for
  more than they had. \<open>RequestQueue\<close> has the ring buffer of clients, its critical sections, and the
  locale \<open>bounded_fifo\<close>, interpreted on the ring; \<open>WorkerPool\<close> the threads as a relation of interleaved
  steps between synchronisation points, with order, exactly-once closing, exclusion, absence of
  deadlock and draining. \<open>Transport\<close>: a client's whole service, process slots, start and end of the
  server.

  Llama backend. \<open>Argmax\<close>: the vector and the scalar argmax, on numbers or NaN. \<open>LlamaSpec\<close>: greedy
  and speculative decoding, with MTP or a draft model, over a library whose decoding is a function of
  the token history; speculation refines greedy decoding. \<open>LlamaConfig\<close>: parameters from the
  environment. \<open>LlamaLibrary\<close>: opening the library. \<open>LlamaContext\<close>: creation and destruction of a
  context in every combination of failures, as ledgers.

  CPU kernels. \<open>GgufMap\<close>: mapping, slices, eviction, on 64-bit addresses. \<open>HalfFloat\<close>: conversions of
  half-precision bit patterns, proved to round to the nearest half. \<open>VectorLanes\<close>: dot products summed
  in four registers of eight lanes. \<open>Q8Dot\<close>, \<open>Q8Quantize\<close>: dot product, dequantisation and quantisation
  of blocks of 32, scalar and AVX2, with integer instructions on words (sign, saturating products and
  packs, lane permutation) and the composition of quantising and multiplying. \<open>DeltaStep\<close>: the
  recurrent layer's step. \<open>LaneUpdates\<close>: arrays updated by lanes, and SiLU. \<open>FlashAttention\<close>: the online
  softmax; the locale \<open>half_kernels\<close> is what the loop relies on through its function pointers,
  interpreted for the scalar and the vector kernels.

  GGML. \<open>GgmlLibrary\<close>: the two libraries, the backend, the table of formats, decoding. \<open>GgmlPlans\<close>: plans
  for one matrix and for groups, their caches, the direct product and the clearing. \<open>GgmlOwnership\<close>,
  \<open>GgmlCache\<close>: who owns the numbered objects of GGML, and that every entry point keeps the invariant;
  \<open>GgmlRuns\<close>: properties of any sequence of calls.

  CUDA. \<open>CudaStub\<close>: each stub by its result and its stores, in the order of the file, and the declared
  functions of both headers. The rest is of \<open>src/backend/cuda/fortai_cuda_backend.cu\<close>, where a kernel is
  what one thread, warp or block does to the arrays and a launch runs it over the grid in an arbitrary
  order. \<open>CudaThreads\<close>: grids, launches and the reductions of warps and blocks. \<open>CudaRuntime\<close>: what a
  context owns and the answers of the runtime; the locale \<open>owner\<close> is the contract of whatever owns such
  resources. \<open>CudaContext\<close>: creation, scratch buffers, streams, captured graphs and destruction of a
  context, which interprets \<open>owner\<close>: a sequence of operations neither leaks nor releases twice while
  every end of a capture finds its slot free; on an occupied slot it does leak, which is a theorem as
  well. \<open>CudaLayers\<close>: creation and destruction of recurrent and attention layers. \<open>CudaMatvec\<close>: repacked activations and the
  products of Q8 weights, equal to the CPU's. \<open>CudaQuantize\<close>: the quantizing kernels, equal to the AVX2
  quantizer, and the products and the feed-forward block on the device, which return without waiting
  for their kernels: a kernel without its buffers leaves no memory but a status of success. \<open>CudaHeap\<close>: arrays that may
  overlap, and when the order of a launch does not matter. \<open>CudaElementwise\<close>: embedding, sums, SiLU,
  concatenation, shift and RMS norms. \<open>CudaArgmax\<close>: equal to the CPU's argmax on numbers. \<open>CudaTopk\<close>: the
  radix top-k selects the largest logits in order. \<open>CudaRecurrent\<close>: convolution, L2 norm, gated delta rule
  and gated norm; the delta rule is the CPU's.

  CUDA Q4, on one or two devices, of \<open>src/backend/cuda/fortai_cuda_q4_backend.cu\<close>. \<open>CudaStreams\<close>: what
  is queued on streams, recorded in events and waited for, and what a stream then knows to be done.
  \<open>Q4Context\<close>: the objects of a context and their owners, creation and destruction, the rings of the
  bridge between two devices, arenas and staged upload of weights. \<open>Q4Ownership\<close>: what is released and
  what is lost. \<open>Q4Memory\<close>: the uploaded bytes are those of the file, and the pieces of the arenas.
  \<open>Q4Bridge\<close>: events, the rings of pinned buffers and the staged buffers of the second device.
  \<open>Q4Products\<close>: captured graphs, plans and every function that queues products or lookups, by the works
  it queues and the waits between them. \<open>Q4Order\<close> and \<open>Q4Crossing\<close>: what is known when about the works on
  each buffer of the bridge, for each function, so that in any sequence of successful calls no buffer is
  reused too early; and the calls for which that fails.

  Bounds and fuel. No definition takes fuel: loops are structural, have a measure, or are partial
  functions with the value None for not returning, and then a theorem says when they return. Sizes
  and addresses are 64-bit words in \<open>GgufMap\<close>, where the code's sums may wrap; elsewhere, and for CUDA
  and Q4 throughout, sizes, counts and indices are natural numbers or integers, with the code's own
  bounds or hypotheses under which they do not wrap, and the wrap of the rounding in the Q4 arenas is
  written out.

  Exact arithmetic. Floating point values of the kernels are elements of a commutative ring, an
  ordered field with a floor, or reals, as the instructions need. The theorems are about the order of
  operations, lanes, integers and rounding to integers and halves that the code does itself, and not
  about the rounding of single-precision additions, multiplications and divisions. NaN and infinities
  appear in \<open>Argmax\<close> and \<open>CudaArgmax\<close>, and in the bit patterns of \<open>HalfFloat\<close> and \<open>CudaTopk\<close>, only;
  minus infinity as the first maximum of \<open>FlashAttention\<close> is None.

  Parameters. System calls, the environment, the file system, the dynamic loader, the llama library,
  GGML, the answers of the CUDA runtime, the block sort and the top-k of CUB, and the native handler are
  arguments, with what is relied on as hypotheses of the theorems.

  Not modelled. The vector exponential \<open>expf_avx2\<close>, whose range reduction works by the rounding of a
  floating point addition, is an argument of SiLU. Tokenisation, detokenisation and chat templates of
  \<open>fortai_llama_fast.c\<close> only check arguments and forward to the library. Of
  \<open>fortai_cuda_backend.cu\<close> the products on tensor cores and in tiles, the attention kernels with their
  caches, the functions that chain the recurrent kernels, and the plain copies between host and device
  are left out, as is \<open>fortai_cuda_fattn_backend.cu\<close>, which calls the tensor core kernels of GGML. Of
  \<open>fortai_cuda_q4_backend.cu\<close> the debug output, the times measured and what GGML's graphs compute are left
  out. Benchmarks and smoke tests measure. The models and services in Fortran are
  another language, of which only the copy of a response appears.
\<close>

end
